(* ===== verification/Prelude.thy ===== *)
theory Prelude
  imports Main "HOL-Library.Word" "HOL-Library.Monad_Syntax" "HOL-Library.Multiset"
begin

text \<open>
  Shared vocabulary of the development: byte strings and code points, the option monad in which
  failing operations live (an \<open>assert\<close>, a \<open>GGML_ASSERT\<close> or an undefined operation of the source
  is \<open>None\<close>), loops over such operations, sums of natural lists, and the ordered containers
  \<open>std::set\<close> and \<open>std::map\<close> as sorted lists.
\<close>

unbundle bit_operations_syntax

section \<open>Types and collections of rules\<close>

type_synonym byte = "8 word"
type_synonym bytes = "byte list"
type_synonym cpt = "32 word"
type_synonym llama_pos = int
type_synonym llama_seq_id = int
type_synonym llama_token = int

named_theorems monad_simps \<open>unfolding the option monad\<close>
named_theorems ord_simps \<open>sets and counted maps kept as sorted lists\<close>

section \<open>Operations that may abort\<close>

text \<open>\<open>requires b\<close> is an assertion of the source: execution goes on only if \<open>b\<close> holds.\<close>

definition requires :: "bool \<Rightarrow> unit option" where
  "requires b = (if b then Some () else None)"

lemma requires_simps [simp]:
  "requires True = Some ()" "requires False = None"
  "requires b = Some u \<longleftrightarrow> b" "requires b = None \<longleftrightarrow> \<not> b"
  by (simp_all add: requires_def)

lemma bind_requires [monad_simps]:
  "Option.bind (requires b) f = (if b then f () else None)"
  by (simp add: requires_def)

lemma bind_requires_Some [simp]:
  "Option.bind (requires b) f = Some x \<longleftrightarrow> b \<and> f () = Some x"
  by (simp add: requires_def)

lemmas [monad_simps] = bind_eq_Some_conv Let_def

text \<open>A value of the C type \<open>int32_t\<close>; a signed result outside its range is undefined behaviour.\<close>

definition i32 :: "int \<Rightarrow> int option" where
  "i32 x = (if - (2 ^ 31) \<le> x \<and> x < 2 ^ 31 then Some x else None)"

definition in_i32 :: "int \<Rightarrow> bool" where
  "in_i32 x \<longleftrightarrow> - (2 ^ 31) \<le> x \<and> x < 2 ^ 31"

lemma i32_Some [simp]: "i32 x = Some y \<longleftrightarrow> in_i32 x \<and> y = x"
  by (auto simp: i32_def in_i32_def)

lemma i32_in: "in_i32 x \<Longrightarrow> i32 x = Some x"
  by simp

definition INT32_MAX :: int where
  "INT32_MAX = 2 ^ 31 - 1"

text \<open>Signed division of C and C++ truncates towards zero.\<close>

definition c_div :: "int \<Rightarrow> int \<Rightarrow> int" where
  "c_div a b = sgn a * sgn b * (\<bar>a\<bar> div \<bar>b\<bar>)"

lemma c_div_nonneg: "0 \<le> a \<Longrightarrow> 0 < b \<Longrightarrow> c_div a b = a div b"
  by (cases "a = 0") (auto simp: c_div_def)

section \<open>Loops over a list of inputs\<close>

fun foldM :: "('a \<Rightarrow> 's \<Rightarrow> 's option) \<Rightarrow> 'a list \<Rightarrow> 's \<Rightarrow> 's option" where
  "foldM f [] s = Some s"
| "foldM f (x # xs) s = Option.bind (f x s) (foldM f xs)"

lemma foldM_append: "foldM f (xs @ ys) s = Option.bind (foldM f xs s) (foldM f ys)"
  by (induction xs arbitrary: s) (auto split: Option.bind_splits)

lemma foldM_snoc: "foldM f (xs @ [x]) s = Option.bind (foldM f xs s) (f x)"
  by (cases "foldM f xs s") (simp_all add: foldM_append bind_eq_Some_conv split: Option.bind_splits)

text \<open>An invariant that every step keeps, and that makes every step succeed.\<close>

lemma foldM_total:
  assumes "P s" and "\<And>x s. x \<in> set xs \<Longrightarrow> P s \<Longrightarrow> \<exists>s'. f x s = Some s' \<and> P s'"
  shows "\<exists>s'. foldM f xs s = Some s' \<and> P s'"
  using assms
proof (induction xs arbitrary: s)
  case (Cons x xs)
  then obtain s' where "f x s = Some s'" "P s'" by fastforce
  with Cons show ?case by fastforce
qed simp

lemma foldM_inv:
  assumes "foldM f xs s = Some t" and "P s"
    and "\<And>x s s'. x \<in> set xs \<Longrightarrow> f x s = Some s' \<Longrightarrow> P s \<Longrightarrow> P s'"
  shows "P t"
  using assms
proof (induction xs arbitrary: s)
  case (Cons x xs)
  from Cons.prems(1) obtain s' where s': "f x s = Some s'" "foldM f xs s' = Some t"
    by (auto simp: bind_eq_Some_conv)
  have "P s'" using Cons.prems(3)[OF _ s'(1)] Cons.prems(2) by simp
  then show ?case using Cons.IH[OF s'(2)] Cons.prems(3) by (meson list.set_intros(2))
qed simp

text \<open>A loop that leaves the function with \<open>false\<close> at the first element that fails a test.\<close>

fun forallM :: "('a \<Rightarrow> bool option) \<Rightarrow> 'a list \<Rightarrow> bool option" where
  "forallM f [] = Some True"
| "forallM f (x # xs) = Option.bind (f x) (\<lambda>b. if b then forallM f xs else Some False)"

lemma forallM_True: "forallM f xs = Some True \<longleftrightarrow> (\<forall>x \<in> set xs. f x = Some True)"
  by (induction xs) (auto simp: bind_eq_Some_conv split: if_splits)

text \<open>A loop \<open>for (i = 0; i < n; ++i)\<close> whose invariant mentions the number of turns made.\<close>

lemma foldM_upt:
  assumes "P 0 s" and "\<And>i s. i < n \<Longrightarrow> P i s \<Longrightarrow> \<exists>s'. f i s = Some s' \<and> P (Suc i) s'"
  shows "\<exists>s'. foldM f [0..<n] s = Some s' \<and> P n s'"
  using assms
proof (induction n)
  case (Suc n)
  then obtain s1 where s1: "foldM f [0..<n] s = Some s1" "P n s1" by fastforce
  moreover obtain s2 where "f n s1 = Some s2" "P (Suc n) s2" using Suc.prems(2) s1(2) by blast
  ultimately show ?case by (simp add: foldM_snoc)
qed simp

lemma foldM_cong:
  "xs = ys \<Longrightarrow> (\<And>x s. x \<in> set ys \<Longrightarrow> f x s = g x s) \<Longrightarrow> foldM f xs s = foldM g ys s"
proof (induction ys arbitrary: xs s)
  case (Cons y ys)
  then show ?case by (auto split: Option.bind_splits)
qed simp

section \<open>Operations that throw\<close>

text \<open>An exception is the left side of a sum.\<close>

fun bindE :: "'e + 'a \<Rightarrow> ('a \<Rightarrow> 'e + 'b) \<Rightarrow> 'e + 'b" where
  "bindE (Inl e) f = Inl e"
| "bindE (Inr x) f = f x"

fun traverseE :: "('a \<Rightarrow> 'e + 'b) \<Rightarrow> 'a list \<Rightarrow> 'e + 'b list" where
  "traverseE f [] = Inr []"
| "traverseE f (x # xs) = bindE (f x) (\<lambda>y. bindE (traverseE f xs) (\<lambda>ys. Inr (y # ys)))"

fun foldE :: "('a \<Rightarrow> 's \<Rightarrow> 'e + 's) \<Rightarrow> 'a list \<Rightarrow> 's \<Rightarrow> 'e + 's" where
  "foldE f [] s = Inr s"
| "foldE f (x # xs) s = bindE (f x s) (foldE f xs)"

definition or_error :: "'e \<Rightarrow> 'a option \<Rightarrow> 'e + 'a" where
  "or_error e r = (case r of None \<Rightarrow> Inl e | Some x \<Rightarrow> Inr x)"

lemma bindE_Inr [simp]:
  "bindE r f = Inr y \<longleftrightarrow> (\<exists>x. r = Inr x \<and> f x = Inr y)"
  "Inr y = bindE r f \<longleftrightarrow> (\<exists>x. r = Inr x \<and> Inr y = f x)"
  by (cases r; auto)+

lemma or_error_Inr [simp]: "or_error e r = Inr x \<longleftrightarrow> r = Some x"
  by (cases r) (auto simp: or_error_def)

lemma or_error_simps [simp]: "or_error e (Some x) = Inr x" "or_error e None = Inl e"
  by (simp_all add: or_error_def)

lemma traverseE_Inr: "traverseE f xs = Inr ys \<longleftrightarrow> list_all2 (\<lambda>x y. f x = Inr y) xs ys"
  by (induction xs arbitrary: ys) (auto simp: list_all2_Cons1)

lemma foldE_inv:
  assumes "foldE f xs s = Inr t" "P s" "\<And>x s s'. x \<in> set xs \<Longrightarrow> f x s = Inr s' \<Longrightarrow> P s \<Longrightarrow> P s'"
  shows "P t"
  using assms
proof (induction xs arbitrary: s)
  case (Cons x xs)
  then obtain s' where "f x s = Inr s'" "foldE f xs s' = Inr t" by auto
  with Cons.prems(2,3) Cons.IH[of s'] show ?case by auto
qed simp

text \<open>An operation that may abort and may throw: \<open>None\<close> or an exception ends what follows.\<close>

definition bindR :: "('e + 'a) option \<Rightarrow> ('a \<Rightarrow> ('e + 'b) option) \<Rightarrow> ('e + 'b) option" where
  "bindR r f = (case r of None \<Rightarrow> None | Some (Inl e) \<Rightarrow> Some (Inl e) | Some (Inr x) \<Rightarrow> f x)"

lemma bindR_Inr: "bindR r f = Some (Inr y) \<longleftrightarrow> (\<exists>x. r = Some (Inr x) \<and> f x = Some (Inr y))"
  by (auto simp: bindR_def split: option.splits sum.splits)

lemma bindR_simps [simp]:
  "bindR None f = None" "bindR (Some (Inl e)) f = Some (Inl e)" "bindR (Some (Inr x)) f = f x"
  by (simp_all add: bindR_def)

lemma bindR_cong [fundef_cong]:
  "r = r' \<Longrightarrow> (\<And>x. r' = Some (Inr x) \<Longrightarrow> f x = g x) \<Longrightarrow> bindR r f = bindR r' g"
  by (auto simp: bindR_def split: option.splits sum.splits)

lemma bindR_mono [partial_function_mono]:
  fixes B :: "('x \<Rightarrow> 'y option) \<Rightarrow> ('e + 'a) option" and C :: "'a \<Rightarrow> ('x \<Rightarrow> 'y option) \<Rightarrow> ('e + 'b) option"
  assumes B: "mono_option B" and C: "\<And>y. mono_option (C y)"
  shows "mono_option (\<lambda>f. bindR (B f) (\<lambda>y. C y f))"
  unfolding monotone_on_def
proof (intro ballI impI)
  fix f g assume fg: "option.le_fun f (g :: 'x \<Rightarrow> 'y option)"
  have "B f = None \<or> B f = B g" using B fg by (simp add: monotone_on_def flat_ord_def)
  moreover have  "\<And>y. C y f = None \<or> C y f = C y g"
    using C fg by (simp add: monotone_on_def flat_ord_def)
  ultimately show "option_ord (bindR (B f) (\<lambda>y. C y f)) (bindR (B g) (\<lambda>y. C y g))"
    unfolding flat_ord_def bindR_def by (cases "B g") (fastforce split: sum.splits)+
qed

text \<open>A loop over a list that collects results.\<close>

fun traverseR :: "('a \<Rightarrow> ('e + 'b) option) \<Rightarrow> 'a list \<Rightarrow> ('e + 'b list) option" where
  "traverseR f [] = Some (Inr [])"
| "traverseR f (x # xs) = bindR (f x) (\<lambda>y. bindR (traverseR f xs) (\<lambda>ys. Some (Inr (y # ys))))"

lemma traverseR_Inr: "traverseR f xs = Some (Inr ys) \<longleftrightarrow> list_all2 (\<lambda>x y. f x = Some (Inr y)) xs ys"
  by (induction xs arbitrary: ys) (auto simp: list_all2_Cons1 bindR_Inr)

fun foldR :: "('a \<Rightarrow> 's \<Rightarrow> ('e + 's) option) \<Rightarrow> 'a list \<Rightarrow> 's \<Rightarrow> ('e + 's) option" where
  "foldR f [] s = Some (Inr s)"
| "foldR f (x # xs) s = bindR (f x s) (foldR f xs)"

end
