(* ===== verification/Utf8.thy ===== *)
theory Utf8
  imports Prelude
begin

text \<open>
  UTF-8 of \<open>src/unicode.cpp\<close>: the encoder \<open>unicode_cpt_to_utf8\<close>, the decoders
  \<open>unicode_cpt_from_utf8\<close> and \<open>unicode_cpts_from_utf8\<close>, and the byte-level alphabet of the BPE
  tokenizers (\<open>unicode_byte_to_utf8\<close>, \<open>unicode_utf8_to_byte\<close>). A \<open>std::string\<close> is the list of its
  bytes, a code point a 32-bit word; \<open>std::invalid_argument\<close> and a failed \<open>assert\<close> are values.
\<close>

section \<open>Encoder and decoder\<close>

datatype unicode_error =
    Assert_failed          \<comment> \<open>\<open>assert(offset < utf8.size())\<close>\<close>
  | Invalid_character      \<comment> \<open>\<open>invalid_argument("invalid character")\<close>\<close>
  | Failed_to_convert      \<comment> \<open>\<open>invalid_argument("failed to convert utf8 to codepoint")\<close>\<close>
  | Invalid_codepoint      \<comment> \<open>\<open>invalid_argument("invalid codepoint")\<close>\<close>
  | Key_not_found          \<comment> \<open>\<open>std::out_of_range\<close> of \<open>map.at\<close>\<close>
  | Regex_mixes_categories \<comment> \<open>\<open>runtime_error("Regex includes both unicode categories ...")\<close>\<close>
  | Failed_to_process_regex \<comment> \<open>\<open>runtime_error("Failed to process regex")\<close>\<close>
  | Conversion_range_error \<comment> \<open>\<open>std::range_error\<close> of \<open>wstring_convert::from_bytes\<close>\<close>

definition unicode_len_utf8 :: "byte \<Rightarrow> nat" where
  "unicode_len_utf8 src =
     [1, 1, 1, 1, 1, 1, 1, 1, 1, 1, 1, 1, 2, 2, 3, 4] ! unat (drop_bit 4 src)"

definition unicode_cpt_to_utf8 :: "cpt \<Rightarrow> unicode_error + bytes" where
  "unicode_cpt_to_utf8 cpt =
     (if cpt \<le> 0x7f then Inr [ucast cpt]
      else if 0x80 \<le> cpt \<and> cpt \<le> 0x7ff then
        Inr [ucast (0xc0 OR (drop_bit 6 cpt AND 0x1f)),
             ucast (0x80 OR (cpt AND 0x3f))]
      else if 0x800 \<le> cpt \<and> cpt \<le> 0xffff then
        Inr [ucast (0xe0 OR (drop_bit 12 cpt AND 0x0f)),
             ucast (0x80 OR (drop_bit 6 cpt AND 0x3f)),
             ucast (0x80 OR (cpt AND 0x3f))]
      else if 0x10000 \<le> cpt \<and> cpt \<le> 0x10ffff then
        Inr [ucast (0xf0 OR (drop_bit 18 cpt AND 0x07)),
             ucast (0x80 OR (drop_bit 12 cpt AND 0x3f)),
             ucast (0x80 OR (drop_bit 6 cpt AND 0x3f)),
             ucast (0x80 OR (cpt AND 0x3f))]
      else Inl Invalid_codepoint)"

text \<open>A continuation byte, \<open>(b & 0xc0) == 0x80\<close>, and the integer promotion of a masked byte.\<close>

definition is_cont :: "byte \<Rightarrow> bool" where
  "is_cont b \<longleftrightarrow> b AND 0xc0 = 0x80"

definition masked :: "byte \<Rightarrow> byte \<Rightarrow> cpt" where
  "masked b m = ucast (b AND m)"

definition unicode_cpt_from_utf8 :: "bytes \<Rightarrow> nat \<Rightarrow> unicode_error + (cpt \<times> nat)" where
  "unicode_cpt_from_utf8 utf8 offset =
     (if \<not> offset < length utf8 then Inl Assert_failed
      else let b0 = utf8 ! offset; n = length utf8 in
      if b0 AND 0x80 = 0 then Inr (ucast b0, offset + 1)
      else if b0 AND 0x40 = 0 then Inl Invalid_character
      else if b0 AND 0x20 = 0 then
        (if offset + 1 \<ge> n \<or> \<not> is_cont (utf8 ! (offset + 1)) then Inl Invalid_character
         else Inr (push_bit 6 (masked b0 0x1f) OR masked (utf8 ! (offset + 1)) 0x3f, offset + 2))
      else if b0 AND 0x10 = 0 then
        (if offset + 2 \<ge> n \<or> \<not> is_cont (utf8 ! (offset + 1)) \<or> \<not> is_cont (utf8 ! (offset + 2))
         then Inl Invalid_character
         else Inr (push_bit 12 (masked b0 0x0f) OR push_bit 6 (masked (utf8 ! (offset + 1)) 0x3f) OR
                   masked (utf8 ! (offset + 2)) 0x3f, offset + 3))
      else if b0 AND 0x08 = 0 then
        (if offset + 3 \<ge> n \<or> \<not> is_cont (utf8 ! (offset + 1)) \<or> \<not> is_cont (utf8 ! (offset + 2)) \<or>
            \<not> is_cont (utf8 ! (offset + 3))
         then Inl Invalid_character
         else Inr (push_bit 18 (masked b0 0x07) OR push_bit 12 (masked (utf8 ! (offset + 1)) 0x3f) OR
                   push_bit 6 (masked (utf8 ! (offset + 2)) 0x3f) OR
                   masked (utf8 ! (offset + 3)) 0x3f, offset + 4))
      else Inl Failed_to_convert)"

text \<open>A decoded character moves the offset forward, inside the string.\<close>

lemma unicode_cpt_from_utf8_offset:
  "unicode_cpt_from_utf8 s off = Inr (c, off') \<Longrightarrow> off < off' \<and> off' \<le> length s \<and> off' \<le> off + 4"
  by (auto simp: unicode_cpt_from_utf8_def Let_def split: if_splits)

text \<open>\<open>unicode_cpts_from_utf8\<close>: an invalid byte becomes U+FFFD and is skipped.\<close>

function cpts_from :: "bytes \<Rightarrow> nat \<Rightarrow> cpt list" where
  "cpts_from utf8 offset =
     (if offset < length utf8 then
        (case unicode_cpt_from_utf8 utf8 offset of
           Inr (c, offset') \<Rightarrow> c # cpts_from utf8 offset'
         | Inl _ \<Rightarrow> 0xFFFD # cpts_from utf8 (offset + 1))
      else [])"
  by pat_completeness auto
termination
  by (relation "measure (\<lambda>(s, off). length s - off)")
    (auto dest!: unicode_cpt_from_utf8_offset)

declare cpts_from.simps [simp del]

definition unicode_cpts_from_utf8 :: "bytes \<Rightarrow> cpt list" where
  "unicode_cpts_from_utf8 utf8 = cpts_from utf8 0"

fun unicode_cpts_to_utf8 :: "cpt list \<Rightarrow> unicode_error + bytes" where
  "unicode_cpts_to_utf8 [] = Inr []"
| "unicode_cpts_to_utf8 (c # cs) =
     (case unicode_cpt_to_utf8 c of
        Inl e \<Rightarrow> Inl e
      | Inr b \<Rightarrow> (case unicode_cpts_to_utf8 cs of Inl e \<Rightarrow> Inl e | Inr bs \<Rightarrow> Inr (b @ bs)))"


section \<open>Bit facts about the encoding\<close>

text \<open>Every mask of the code is a block of ones, so a bit of it is an interval test.\<close>

lemma mask_eqs: "(0x80::byte) = push_bit 7 (mask 1)" "(0x40::byte) = push_bit 6 (mask 1)"
 "(0x20::byte) = push_bit 5 (mask 1)"
 "(0x10::byte) = push_bit 4 (mask 1)"
 "(0x08::byte) = push_bit 3 (mask 1)"
 "(0x80::cpt) = push_bit 7 (mask 1)"
 "(0xc0::byte) = push_bit 6 (mask 2)"
 "(0xc0::cpt) = push_bit 6 (mask 2)"
 "(0xe0::cpt) = push_bit 5 (mask 3)"
 "(0xf0::cpt) = push_bit 4 (mask 4)"
 "(0x3f::byte) = push_bit 0 (mask 6)"
 "(0x1f::byte) = push_bit 0 (mask 5)"
 "(0x0f::byte) = push_bit 0 (mask 4)"
 "(0x07::byte) = push_bit 0 (mask 3)"
 "(0x3f::cpt) = push_bit 0 (mask 6)"
 "(0x1f::cpt) = push_bit 0 (mask 5)"
 "(0x0f::cpt) = push_bit 0 (mask 4)"
 "(0x07::cpt) = push_bit 0 (mask 3)"
  by (simp_all add: mask_eq_exp_minus_1 push_bit_eq_mult)

lemma bit_block: "w = push_bit a (mask b) \<Longrightarrow> bit (w::'a::len word) n \<longleftrightarrow> n < LENGTH('a) \<and> a \<le> n \<and> n < a + b"
  by (auto simp: bit_simps)

lemmas bit_masks = mask_eqs[THEN bit_block]

lemma bit_bound:
  fixes c :: cpt
  assumes "c < 2 ^ k" "bit c n"
  shows "n < k"
  using less_mask_eq[OF assms(1)] assms(2) by (metis bit_and_iff bit_mask_iff)

lemma is_cont_enc: "is_cont (ucast (0x80 OR (x AND (0x3f::cpt))))" 
  unfolding is_cont_def
  by (rule bit_word_eqI) (auto simp: bit_simps bit_masks simp del: bit_numeral_word_iff push_bit_and)
lemma masked_cont: "masked (ucast (0x80 OR (x AND (0x3f::cpt)))) 0x3f = x AND 0x3f"
  unfolding masked_def
  by (rule bit_word_eqI) (auto simp: bit_simps bit_masks simp del: bit_numeral_word_iff push_bit_and)

lemma join_2: assumes "c < 2 ^ 11" shows "push_bit 6 (drop_bit 6 c AND 0x1f) OR (c AND 0x3f) = (c::cpt)"
proof (rule bit_word_eqI)
  fix n show "bit (push_bit 6 (drop_bit 6 c AND 0x1f) OR (c AND 0x3f)) n = bit c n" using bit_bound[OF assms, of n]
  by (cases "n < 6") (auto simp: bit_simps bit_masks simp del: bit_numeral_word_iff push_bit_and)
qed

lemma join_3: assumes "c < 2 ^ 16" shows "push_bit 12 (drop_bit 12 c AND 0xf) OR push_bit 6 (drop_bit 6 c AND 0x3f) OR (c AND 0x3f) = (c::cpt)" (is "?l = c")
proof (rule bit_word_eqI)
  fix n show "bit ?l n = bit c n" using bit_bound[OF assms, of n]
  by (cases "n < 6"; cases "n < 12") (auto simp: bit_simps bit_masks simp del: bit_numeral_word_iff push_bit_and)
qed
lemma join_4: assumes "c < 2 ^ 21" shows "push_bit 18 (drop_bit 18 c AND 7) OR push_bit 12 (drop_bit 12 c AND 0x3f) OR push_bit 6 (drop_bit 6 c AND 0x3f) OR (c AND 0x3f) = (c::cpt)" (is "?l = c")
proof (rule bit_word_eqI)
  fix n show "bit ?l n = bit c n" using bit_bound[OF assms, of n]
  by (cases "n < 6"; cases "n < 12"; cases "n < 18") (auto simp: bit_simps bit_masks simp del: bit_numeral_word_iff push_bit_and)
qed

lemma and_bit: assumes "k < 8" shows "(b::byte) AND push_bit k (mask 1) = 0 \<longleftrightarrow> \<not> bit b k" (is "?l = 0 \<longleftrightarrow> _")
proof
  assume "?l = 0"
  then have "\<not> bit ?l k" by simp
  with assms show "\<not> bit b k" by (simp add: bit_simps del: mask_Suc_0)
next
  assume "\<not> bit b k"
  then show "?l = 0" by (intro bit_word_eqI) (auto simp: bit_simps simp del: mask_Suc_0)
qed

lemma lead_tests: "b AND (0x80::byte) = 0 \<longleftrightarrow> \<not> bit b 7" "b AND (0x40::byte) = 0 \<longleftrightarrow> \<not> bit b 6"
  "b AND (0x20::byte) = 0 \<longleftrightarrow> \<not> bit b 5" "b AND (0x10::byte) = 0 \<longleftrightarrow> \<not> bit b 4" "b AND (0x08::byte) = 0 \<longleftrightarrow> \<not> bit b 3"
  by (simp_all only: mask_eqs, (rule and_bit, simp)+)

lemma ascii_byte: assumes "c \<le> 0x7f" shows "\<not> bit (ucast (c::cpt) :: byte) 7" "ucast (ucast c :: byte) = c"
proof -
  have "c < 2^7" using assms by (simp add: word_le_nat_alt word_less_nat_alt)
  note b = bit_bound[OF this]
  show "\<not> bit (ucast (c::cpt) :: byte) 7" using b by (auto simp: bit_simps)
  show "ucast (ucast c :: byte) = c" 
    by (rule bit_word_eqI) (use b in \<open>auto simp: bit_simps; fastforce\<close>)
qed
lemma bit_lead: "bit (ucast (0xc0 OR (x AND (0x1f::cpt))) :: byte) k \<longleftrightarrow> k = 6 \<or> k = 7 \<or> k < 5 \<and> bit x k"
  "bit (ucast (0xe0 OR (x AND (0x0f::cpt))) :: byte) k \<longleftrightarrow> k = 5 \<or> k = 6 \<or> k = 7 \<or> k < 4 \<and> bit x k"
  "bit (ucast (0xf0 OR (x AND (0x07::cpt))) :: byte) k \<longleftrightarrow> k = 4 \<or> k = 5 \<or> k = 6 \<or> k = 7 \<or> k < 3 \<and> bit x k"
  by (auto simp: bit_simps bit_masks simp del: bit_numeral_word_iff push_bit_and)
lemma masked_lead:
   "masked (ucast (0xc0 OR (x AND (0x1f::cpt)))) 0x1f = x AND 0x1f"
   "masked (ucast (0xe0 OR (x AND (0x0f::cpt)))) 0x0f = x AND 0x0f"
   "masked (ucast (0xf0 OR (x AND (0x07::cpt)))) 0x07 = x AND 0x07"
  unfolding masked_def
  by (rule bit_word_eqI, auto simp: bit_simps bit_masks simp del: bit_numeral_word_iff push_bit_and)+


section \<open>Round trips\<close>

lemma word_le_less: "(c::cpt) \<le> 0x7ff \<Longrightarrow> c < 2 ^ 11" "c \<le> 0xffff \<Longrightarrow> c < 2 ^ 16" "c \<le> 0x10ffff \<Longrightarrow> c < 2 ^ 21"
  by (simp_all add: word_le_nat_alt word_less_nat_alt)

lemma lower_bounds:
  "(0x80::cpt) \<le> c \<longleftrightarrow> \<not> c \<le> 0x7f" "(0x800::cpt) \<le> c \<longleftrightarrow> \<not> c \<le> 0x7ff" "(0x10000::cpt) \<le> c \<longleftrightarrow> \<not> c \<le> 0xffff"
  by (auto simp: word_le_nat_alt)

lemma upper_bounds:
  "(c::cpt) \<le> 0x7f \<Longrightarrow> c \<le> 0x7ff" "(c::cpt) \<le> 0x7ff \<Longrightarrow> c \<le> 0xffff" "(c::cpt) \<le> 0xffff \<Longrightarrow> c \<le> 0x10ffff"
  by (auto simp: word_le_nat_alt)

lemma unicode_cpt_to_utf8_ok: "(\<exists>e. unicode_cpt_to_utf8 c = Inr e) \<longleftrightarrow> c \<le> 0x10ffff"
  by (auto simp: unicode_cpt_to_utf8_def lower_bounds upper_bounds)

lemma unicode_cpt_roundtrip:
  assumes "unicode_cpt_to_utf8 c = Inr e"
  shows "unicode_cpt_from_utf8 (pre @ e @ suf) (length pre) = Inr (c, length pre + length e)"
proof -
  note simps = unicode_cpt_from_utf8_def Let_def nth_append lead_tests bit_lead masked_lead is_cont_enc masked_cont
  consider (a) "c \<le> 0x7f" | (b) "\<not> c \<le> 0x7f" "c \<le> 0x7ff" | (c) "\<not> c \<le> 0x7ff" "c \<le> 0xffff"
    | (d) "\<not> c \<le> 0xffff" "c \<le> 0x10ffff"
    using assms unicode_cpt_to_utf8_ok[of c] by blast
  then show ?thesis
  proof cases
    case a
    then have e: "e = [ucast c]" using assms by (simp add: unicode_cpt_to_utf8_def)
    have "(ucast c :: byte) AND 0x80 = 0" using ascii_byte(1)[OF a] by (simp only: lead_tests) simp
    then show ?thesis using ascii_byte(2)[OF a]
      by (simp add: e unicode_cpt_from_utf8_def Let_def nth_append)
  next
    case b
    then have "e = [ucast (0xc0 OR (drop_bit 6 c AND 0x1f)), ucast (0x80 OR (c AND 0x3f))]"
      using assms upper_bounds[of c] by (auto simp: unicode_cpt_to_utf8_def lower_bounds split: if_splits)
    then show ?thesis using join_2[OF word_le_less(1)[OF b(2)]] by (simp add: simps del: push_bit_and)
  next
    case c
    then have "e = [ucast (0xe0 OR (drop_bit 12 c AND 0x0f)), ucast (0x80 OR (drop_bit 6 c AND 0x3f)),
        ucast (0x80 OR (c AND 0x3f))]"
      using assms upper_bounds[of c] by (auto simp: unicode_cpt_to_utf8_def lower_bounds split: if_splits)
    then show ?thesis using join_3[OF word_le_less(2)[OF c(2)]] by (simp add: simps del: push_bit_and)
  next
    case d
    then have "e = [ucast (0xf0 OR (drop_bit 18 c AND 0x07)), ucast (0x80 OR (drop_bit 12 c AND 0x3f)),
        ucast (0x80 OR (drop_bit 6 c AND 0x3f)), ucast (0x80 OR (c AND 0x3f))]"
      using assms upper_bounds[of c] by (auto simp: unicode_cpt_to_utf8_def lower_bounds split: if_splits)
    then show ?thesis using join_4[OF word_le_less(3)[OF d(2)]] by (simp add: simps del: push_bit_and)
  qed
qed

section \<open>Whole strings\<close>

lemma unicode_cpts_roundtrip_at:
  "unicode_cpts_to_utf8 cs = Inr bs \<Longrightarrow> cpts_from (pre @ bs @ suf) (length pre) = cs @ cpts_from (pre @ bs @ suf) (length pre + length bs)"
proof (induction cs arbitrary: pre bs)
  case (Cons c cs)
  then obtain e r where e: "unicode_cpt_to_utf8 c = Inr e" "unicode_cpts_to_utf8 cs = Inr r" "bs = e @ r"
    by (auto split: sum.splits)
  have ne: "e \<noteq> []" using e(1) by (auto simp: unicode_cpt_to_utf8_def split: if_splits)
  have "cpts_from (pre @ bs @ suf) (length pre) = c # cpts_from (pre @ bs @ suf) (length pre + length e)"
    using unicode_cpt_roundtrip[OF e(1), of pre "r @ suf"] ne e(3) by (subst cpts_from.simps) simp
  with Cons.IH[OF e(2), of "pre @ e"] e(3) show ?case by (simp add: add.assoc)
qed simp

lemma cpts_from_end [simp]: "length s \<le> off \<Longrightarrow> cpts_from s off = []"
  by (simp add: cpts_from.simps)

lemma unicode_cpts_roundtrip: "unicode_cpts_to_utf8 cs = Inr bs \<Longrightarrow> unicode_cpts_from_utf8 bs = cs"
  using unicode_cpts_roundtrip_at[of cs bs "[]" "[]"] by (simp add: unicode_cpts_from_utf8_def)

lemma length_cpts_from: "length (cpts_from s off) \<le> length s - off"
proof (induction s off rule: cpts_from.induct)
  case (1 s off)
  then show ?case
    by (subst cpts_from.simps) (fastforce split: sum.splits dest: unicode_cpt_from_utf8_offset)
qed

lemma bit_from_utf8:
  assumes "unicode_cpt_from_utf8 s off = Inr (c, off')" "bit c n"
  shows "n < 21"
  using assms
  by (auto simp: unicode_cpt_from_utf8_def Let_def masked_def bit_simps bit_masks split: if_splits
      simp del: bit_numeral_word_iff push_bit_and dest!: bit_imp_le_length[where 'a = 8])

lemma word_less_of_bits:
  fixes c :: cpt
  assumes "\<And>n. bit c n \<Longrightarrow> n < 21"
  shows "c < 2 ^ 21"
proof -
  have "take_bit 21 c = c" using assms by (intro bit_word_eqI) (auto simp: bit_simps)
  then have "unat c = unat c mod 2 ^ 21"
    by (metis take_bit_eq_mod unsigned_take_bit_eq)
  also have "\<dots> < 2 ^ 21" by simp
  finally show ?thesis by (simp add: word_less_nat_alt)
qed

lemma cpts_from_range: "c \<in> set (cpts_from s off) \<Longrightarrow> c < 2 ^ 21"
proof (induction s off rule: cpts_from.induct)
  case (1 s off)
  show ?case
  proof (cases "unicode_cpt_from_utf8 s off")
    case (Inl e)
    with 1 show ?thesis by (subst (asm) cpts_from.simps) (auto split: if_splits)
  next
    case (Inr p)
    obtain d off' where p: "p = (d, off')" by force
    have "d < 2 ^ 21" using bit_from_utf8 Inr p by (intro word_less_of_bits) blast
    with 1 Inr p show ?thesis by (subst (asm) cpts_from.simps) (auto split: if_splits)
  qed
qed


section \<open>The byte-level alphabet\<close>

text \<open>
  \<open>unicode_byte_to_utf8_map\<close> and \<open>unicode_utf8_to_byte_map\<close>: printable Latin-1 bytes stand for
  themselves, every other byte for the next code point from 256 on. The arguments of the encoder
  are below 512, so \<open>encode\<close> never meets its error.
\<close>

definition encode :: "cpt \<Rightarrow> bytes" where
  "encode c = (case unicode_cpt_to_utf8 c of Inr b \<Rightarrow> b | Inl _ \<Rightarrow> [])"

definition byte_to_utf8_range :: "nat list \<Rightarrow> (byte \<rightharpoonup> bytes) \<Rightarrow> (byte \<rightharpoonup> bytes)" where
  "byte_to_utf8_range chs m = fold (\<lambda>ch m. m(of_nat ch \<mapsto> encode (of_nat ch))) chs m"

definition unicode_byte_to_utf8_map :: "byte \<rightharpoonup> bytes" where
  "unicode_byte_to_utf8_map =
     (let m = byte_to_utf8_range [0x21..<0x7F] Map.empty;
          m = byte_to_utf8_range [0xA1..<0xAD] m;
          m = byte_to_utf8_range [0xAE..<0x100] m
      in fst (fold (\<lambda>ch (m, n).
            if m (of_nat ch) = None then (m(of_nat ch \<mapsto> encode (256 + of_nat n)), Suc n) else (m, n))
          [0..<256] (m, 0)))"

definition utf8_to_byte_range :: "nat list \<Rightarrow> (bytes \<rightharpoonup> byte) \<Rightarrow> (bytes \<rightharpoonup> byte)" where
  "utf8_to_byte_range chs m = fold (\<lambda>ch m. m(encode (of_nat ch) \<mapsto> of_nat ch)) chs m"

definition unicode_utf8_to_byte_map :: "bytes \<rightharpoonup> byte" where
  "unicode_utf8_to_byte_map =
     (let m = utf8_to_byte_range [0x21..<0x7F] Map.empty;
          m = utf8_to_byte_range [0xA1..<0xAD] m;
          m = utf8_to_byte_range [0xAE..<0x100] m
      in fst (fold (\<lambda>ch (m, n).
            if m (encode (of_nat ch)) = None then (m(encode (256 + of_nat n) \<mapsto> of_nat ch), Suc n) else (m, n))
          [0..<256] (m, 0)))"

text \<open>\<open>unicode_byte_to_utf8\<close> and \<open>unicode_utf8_to_byte\<close>: \<open>map.at\<close> throws for a missing key.\<close>

definition unicode_byte_to_utf8 :: "byte \<Rightarrow> unicode_error + bytes" where
  "unicode_byte_to_utf8 b = (case unicode_byte_to_utf8_map b of Some s \<Rightarrow> Inr s | None \<Rightarrow> Inl Key_not_found)"

definition unicode_utf8_to_byte :: "bytes \<Rightarrow> unicode_error + byte" where
  "unicode_utf8_to_byte s = (case unicode_utf8_to_byte_map s of Some b \<Rightarrow> Inr b | None \<Rightarrow> Inl Key_not_found)"

text \<open>The closed form of the two maps.\<close>

definition plain :: "nat \<Rightarrow> bool" where
  "plain ch \<longleftrightarrow> 0x21 \<le> ch \<and> ch \<le> 0x7E \<or> 0xA1 \<le> ch \<and> ch \<le> 0xAC \<or> 0xAE \<le> ch \<and> ch \<le> 0xFF"

definition rank :: "nat \<Rightarrow> nat" where
  "rank ch = card {i. i < ch \<and> \<not> plain i}"

definition byte_cpt :: "nat \<Rightarrow> nat" where
  "byte_cpt ch = (if plain ch then ch else 256 + rank ch)"

lemma rank_Suc: "rank (Suc k) = (if plain k then rank k else Suc (rank k))"
proof -
  have "{i. i < Suc k \<and> \<not> plain i} = (if plain k then {i. i < k \<and> \<not> plain i} else insert k {i. i < k \<and> \<not> plain i})"
    by (auto simp: less_Suc_eq)
  then show ?thesis by (simp add: rank_def)
qed

lemma rank_le: "rank k \<le> k"
  by (induction k) (auto simp: rank_def rank_Suc[unfolded rank_def])

lemma rank_mono: "j \<le> k \<Longrightarrow> rank j \<le> rank k"
  by (rule lift_Suc_mono_le[of rank]) (auto simp: rank_Suc)

lemma rank_less: "j < k \<Longrightarrow> \<not> plain j \<Longrightarrow> rank j < rank k"
  using rank_mono[of "Suc j" k] by (simp add: rank_Suc)

lemma byte_cpt_inject: "i < 256 \<Longrightarrow> j < 256 \<Longrightarrow> byte_cpt i = byte_cpt j \<Longrightarrow> i = j"
  using rank_less[of i j] rank_less[of j i] by (auto simp: byte_cpt_def split: if_splits) (metis nat_neq_iff)+

lemma byte_cpt_less: "i < 256 \<Longrightarrow> byte_cpt i < 512"
  using rank_le[of i] by (auto simp: byte_cpt_def)

lemma encode_inject:
  assumes "encode a = encode b" "a \<le> 0x10ffff" "b \<le> 0x10ffff"
  shows "a = b"
proof -
  obtain e f where "unicode_cpt_to_utf8 a = Inr e" "unicode_cpt_to_utf8 b = Inr f"
    using assms unicode_cpt_to_utf8_ok by metis
  with assms(1) show ?thesis
    using unicode_cpt_roundtrip[of a e "[]" "[]"] unicode_cpt_roundtrip[of b f "[]" "[]"] by (simp add: encode_def)
qed

lemma of_nat_cpt_inject: "(of_nat i :: cpt) = of_nat j \<longleftrightarrow> i = j" if "i < 512" "j < 512"
proof -
  have "unat (of_nat i :: cpt) = i" "unat (of_nat j :: cpt) = j"
    using that by (simp_all add: unat_of_nat)
  then show ?thesis by metis
qed

lemma of_nat_byte_inject: "(of_nat i :: byte) = of_nat j \<longleftrightarrow> i = j" if "i < 256" "j < 256"
proof -
  have "unat (of_nat i :: byte) = i" "unat (of_nat j :: byte) = j"
    using that by (simp_all add: unat_of_nat)
  then show ?thesis by metis
qed

lemma small_cpt: "i < 512 \<Longrightarrow> (of_nat i :: cpt) \<le> 0x10ffff"
  by (simp add: word_le_nat_alt unat_of_nat)

lemma encode_nat_inject:
  "i < 512 \<Longrightarrow> j < 512 \<Longrightarrow> encode (of_nat i) = encode (of_nat j) \<longleftrightarrow> i = j"
  using encode_inject[OF _ small_cpt small_cpt] of_nat_cpt_inject by blast

lemma byte_to_utf8_range_apply:
  assumes "\<forall>ch \<in> set chs. ch < 256" "j < 256"
  shows "byte_to_utf8_range chs m (of_nat j) = (if j \<in> set chs then Some (encode (of_nat j)) else m (of_nat j))"
  using assms
  by (induction chs arbitrary: m) (auto simp: byte_to_utf8_range_def of_nat_byte_inject)

lemma byte_to_utf8_range_upt:
  "b \<le> 256 \<Longrightarrow> j < 256 \<Longrightarrow>
   byte_to_utf8_range [a..<b] m (of_nat j) = (if a \<le> j \<and> j < b then Some (encode (of_nat j)) else m (of_nat j))"
  by (subst byte_to_utf8_range_apply) auto

lemma byte_fallback:
  assumes "\<And>j. j < 256 \<Longrightarrow> m0 (of_nat j :: byte) = (if plain j then Some (encode (of_nat j)) else None)"
    and "k \<le> 256"
    and "fold (\<lambda>ch (m, n). if m (of_nat ch) = None then (m(of_nat ch \<mapsto> encode (256 + of_nat n)), Suc n) else (m, n))
          [0..<k] (m0, 0) = (m, n)"
  shows "n = rank k \<and> (\<forall>j<256. m (of_nat j) = (if plain j \<or> j < k then Some (encode (of_nat (byte_cpt j))) else None))"
  using assms(2,3)
proof (induction k arbitrary: m n)
  case 0
  then show ?case using assms(1) by (auto simp: rank_def byte_cpt_def)
next
  case (Suc k)
  obtain m1 n1 where 1: "fold (\<lambda>ch (m, n). if m (of_nat ch) = None then (m(of_nat ch \<mapsto> encode (256 + of_nat n)), Suc n) else (m, n))
          [0..<k] (m0, 0) = (m1, n1)" by force
  note IH = Suc.IH[OF Suc_leD[OF Suc.prems(1)] 1]
  show ?case using Suc.prems IH 1
    by (auto simp: rank_Suc byte_cpt_def less_Suc_eq of_nat_byte_inject split: if_splits)
qed

lemma byte_map_eq: "j < 256 \<Longrightarrow> unicode_byte_to_utf8_map (of_nat j) = Some (encode (of_nat (byte_cpt j)))"
proof -
  assume j: "j < 256"
  define m0 where "m0 = byte_to_utf8_range [0xAE..<0x100] (byte_to_utf8_range [0xA1..<0xAD] (byte_to_utf8_range [0x21..<0x7F] Map.empty))"
  have m0: "m0 (of_nat i) = (if plain i then Some (encode (of_nat i)) else None)" if "i < 256" for i
    using that by (auto simp: m0_def byte_to_utf8_range_upt plain_def simp del: upt_rec_numeral)
  obtain m n where f: "fold (\<lambda>ch (m, n). if m (of_nat ch) = None then (m(of_nat ch \<mapsto> encode (256 + of_nat n)), Suc n) else (m, n))
          [0..<256] (m0, 0) = (m, n)" by force
  have "unicode_byte_to_utf8_map = m"
    unfolding unicode_byte_to_utf8_map_def Let_def m0_def[symmetric] f by simp
  with byte_fallback[OF m0 order.refl f] j show ?thesis by simp
qed

lemma byte_nat: obtains j where "j < 256" "(b::byte) = of_nat j"
  by (cases b rule: word_nat_cases) (use that in auto)

lemma utf8_to_byte_range_apply:
  assumes "\<forall>ch \<in> set chs. ch < 512" "c < 512"
  shows "utf8_to_byte_range chs m (encode (of_nat c)) = (if c \<in> set chs then Some (of_nat c) else m (encode (of_nat c)))"
  using assms
  by (induction chs arbitrary: m) (auto simp: utf8_to_byte_range_def encode_nat_inject)

lemma utf8_to_byte_range_upt:
  "b \<le> 512 \<Longrightarrow> c < 512 \<Longrightarrow>
   utf8_to_byte_range [a..<b] m (encode (of_nat c)) = (if a \<le> c \<and> c < b then Some (of_nat c) else m (encode (of_nat c)))"
  by (subst utf8_to_byte_range_apply) auto

lemma encode_256_inject: "i < 512 \<Longrightarrow> n < 256 \<Longrightarrow> encode (of_nat i) = encode (256 + of_nat n) \<longleftrightarrow> i = 256 + n"
  using encode_nat_inject[of i "256 + n"] by simp

lemma utf8_fallback:
  assumes "\<And>c. c < 512 \<Longrightarrow> m0 (encode (of_nat c)) = (if plain c then Some (of_nat c :: byte) else None)"
    and "k \<le> 256"
    and "fold (\<lambda>ch (m, n). if m (encode (of_nat ch)) = None then (m(encode (256 + of_nat n) \<mapsto> of_nat ch), Suc n) else (m, n))
          [0..<k] (m0, 0) = (m, n)"
  shows "n = rank k \<and> (\<forall>j<256. plain j \<or> j < k \<longrightarrow> m (encode (of_nat (byte_cpt j))) = Some (of_nat j)) \<and>
     (\<forall>j<256. \<not> plain j \<longrightarrow> m (encode (of_nat j)) = None)"
  using assms(2,3)
proof (induction k arbitrary: m n)
  case 0
  then show ?case using assms(1) by (auto simp: rank_def byte_cpt_def)
next
  case (Suc k)
  obtain m1 n1 where 1: "fold (\<lambda>ch (m, n). if m (encode (of_nat ch)) = None then (m(encode (256 + of_nat n) \<mapsto> of_nat ch), Suc n) else (m, n))
          [0..<k] (m0, 0) = (m1, n1)" by force
  note IH = Suc.IH[OF Suc_leD[OF Suc.prems(1)] 1]
  have n1: "n1 = rank k" "rank k < 256" using IH rank_le[of k] Suc.prems(1) by auto
  show ?case
  proof (cases "plain k")
    case True
    then have "m1 (encode (of_nat k)) \<noteq> None"
      using IH Suc.prems(1) by (auto simp: byte_cpt_def)
    with True Suc.prems(2) 1 IH show ?thesis by (auto simp: rank_Suc less_Suc_eq)
  next
    case False
    then have m: "m = m1(encode (256 + of_nat n1) \<mapsto> of_nat k)" "n = Suc n1"
      using IH Suc.prems 1 by (auto simp: Suc_le_eq)
    have "m (encode (of_nat (byte_cpt j))) = Some (of_nat j)" if j: "j < 256" "plain j \<or> j < Suc k" for j
    proof (cases "j = k")
      case True
      with False n1 show ?thesis by (simp add: m byte_cpt_def)
    next
      case jk: False
      have "encode (of_nat (byte_cpt j)) \<noteq> encode (256 + of_nat n1)"
        using encode_256_inject[of "byte_cpt j" n1] byte_cpt_less[OF j(1)] n1 jk False j
          byte_cpt_inject[of j k] Suc.prems(1) by (auto simp: byte_cpt_def)
      with IH j jk show ?thesis by (auto simp: m less_Suc_eq n1(1))
    qed
    moreover have "m (encode (of_nat j)) = None" if "j < 256" "\<not> plain j" for j
      using IH that n1 by (auto simp: m encode_256_inject)
    ultimately show ?thesis using False n1(1) by (simp add: m(2) rank_Suc)
  qed
qed

lemma utf8_map_eq: "j < 256 \<Longrightarrow> unicode_utf8_to_byte_map (encode (of_nat (byte_cpt j))) = Some (of_nat j)"
proof -
  assume j: "j < 256"
  define m0 where "m0 = utf8_to_byte_range [0xAE..<0x100] (utf8_to_byte_range [0xA1..<0xAD] (utf8_to_byte_range [0x21..<0x7F] Map.empty))"
  have m0: "m0 (encode (of_nat c)) = (if plain c then Some (of_nat c) else None)" if "c < 512" for c
    using that by (auto simp: m0_def utf8_to_byte_range_upt plain_def simp del: upt_rec_numeral)
  obtain m n where f: "fold (\<lambda>ch (m, n). if m (encode (of_nat ch)) = None then (m(encode (256 + of_nat n) \<mapsto> of_nat ch), Suc n) else (m, n))
          [0..<256] (m0, 0) = (m, n)" by force
  have "unicode_utf8_to_byte_map = m"
    unfolding unicode_utf8_to_byte_map_def Let_def m0_def[symmetric] f by simp
  with utf8_fallback[OF m0 order.refl f] j show ?thesis by simp
qed

lemma byte_alphabet:
  "\<exists>s. unicode_byte_to_utf8 b = Inr s \<and> unicode_utf8_to_byte s = Inr b \<and> (\<exists>c. c \<le> 0x10ffff \<and> unicode_cpt_to_utf8 c = Inr s)"
proof -
  obtain j where j: "j < 256" "b = of_nat j" by (rule byte_nat)
  let ?c = "of_nat (byte_cpt j) :: cpt"
  have c: "?c \<le> 0x10ffff" using small_cpt byte_cpt_less j by simp
  then obtain s where s: "unicode_cpt_to_utf8 ?c = Inr s" using unicode_cpt_to_utf8_ok by blast
  then have "encode ?c = s" by (simp add: encode_def)
  with byte_map_eq[OF j(1)] utf8_map_eq[OF j(1)] j(2) s c show ?thesis
    by (auto simp: unicode_byte_to_utf8_def unicode_utf8_to_byte_def)
qed

end
