(* ===== verification/CptFlags.thy ===== *)
theory CptFlags
  imports Utf8
begin

text \<open>
  Code point classes of \<open>src/unicode.h\<close> and \<open>src/unicode.cpp\<close>: the bit field
  \<open>unicode_cpt_flags\<close>, the table built by \<open>unicode_cpt_flags_array\<close>, lower-casing, canonical
  decomposition and the Han test. The constant tables of \<open>src/unicode-data.cpp\<close> are collected in
  a record that every definition takes as an argument: what is proved holds for any tables.
\<close>

section \<open>The flag word\<close>

text \<open>
  \<open>unicode_cpt_flags\<close> is a 16-bit field decoded from a \<open>uint16_t\<close>, bit \<open>k\<close> being the \<open>k\<close>-th member
  of the enumeration; \<open>as_uint\<close> reads it back.
\<close>

type_synonym cpt_flags = "16 word"

definition UNDEFINED :: cpt_flags where "UNDEFINED = 0x0001"
definition NUMBER :: cpt_flags where "NUMBER = 0x0002"
definition LETTER :: cpt_flags where "LETTER = 0x0004"
definition ACCENT_MARK :: cpt_flags where "ACCENT_MARK = 0x0010"
definition PUNCTUATION :: cpt_flags where "PUNCTUATION = 0x0020"
definition SYMBOL :: cpt_flags where "SYMBOL = 0x0040"
definition MASK_CATEGORIES :: cpt_flags where "MASK_CATEGORIES = 0x00FF"

definition is_number :: "cpt_flags \<Rightarrow> bool" where "is_number f = bit f 1"
definition is_letter :: "cpt_flags \<Rightarrow> bool" where "is_letter f = bit f 2"
definition is_whitespace :: "cpt_flags \<Rightarrow> bool" where "is_whitespace f = bit f 8"

definition category_flag :: "cpt_flags \<Rightarrow> cpt_flags" where
  "category_flag f = f AND MASK_CATEGORIES"

text \<open>The object \<open>unicode_cpt_flags{}\<close> has no flag set.\<close>

lemma no_flags [simp]: "\<not> is_number 0" "\<not> is_letter 0" "\<not> is_whitespace 0"
  by (simp_all add: is_number_def is_letter_def is_whitespace_def)

section \<open>Tables\<close>

record unicode_tables =
  ranges_flags :: "(cpt \<times> cpt_flags) list"
  set_whitespace :: "cpt list"
  map_lowercase :: "(cpt \<times> cpt) list"
  map_uppercase :: "(cpt \<times> cpt) list"
  ranges_nfd :: "(cpt \<times> cpt \<times> cpt) list"

definition MAX_CODEPOINTS :: cpt where
  "MAX_CODEPOINTS = 0x110000"

text \<open>
  The array of \<open>MAX_CODEPOINTS\<close> entries is a function. Each loop of \<open>unicode_cpt_flags_array\<close> writes
  into it: first the ranges, each up to the start of the next one, then single bits.
\<close>

fun fill_ranges :: "(cpt \<times> cpt_flags) list \<Rightarrow> (cpt \<Rightarrow> cpt_flags) \<Rightarrow> (cpt \<Rightarrow> cpt_flags)" where
  "fill_ranges ((ini, fl) # (stop, fl') # rs) arr =
     fill_ranges ((stop, fl') # rs) (\<lambda>c. if ini \<le> c \<and> c < stop then fl else arr c)"
| "fill_ranges _ arr = arr"

definition set_flag :: "nat \<Rightarrow> cpt list \<Rightarrow> (cpt \<Rightarrow> cpt_flags) \<Rightarrow> (cpt \<Rightarrow> cpt_flags)" where
  "set_flag k cs arr = fold (\<lambda>c a. a(c := set_bit k (a c))) cs arr"

definition unicode_cpt_flags_array :: "unicode_tables \<Rightarrow> cpt \<Rightarrow> cpt_flags" where
  "unicode_cpt_flags_array T =
     set_flag 11 (map (snd \<circ> snd) (ranges_nfd T))
       (set_flag 10 (map snd (map_uppercase T))
         (set_flag 9 (map snd (map_lowercase T))
           (set_flag 8 (set_whitespace T)
             (fill_ranges (ranges_flags T) (\<lambda>_. UNDEFINED)))))"

definition unicode_cpt_flags_from_cpt :: "unicode_tables \<Rightarrow> cpt \<Rightarrow> cpt_flags" where
  "unicode_cpt_flags_from_cpt T c =
     (if c < MAX_CODEPOINTS then unicode_cpt_flags_array T c else UNDEFINED)"

definition unicode_cpt_flags_from_utf8 :: "unicode_tables \<Rightarrow> bytes \<Rightarrow> unicode_error + cpt_flags" where
  "unicode_cpt_flags_from_utf8 T utf8 =
     (if utf8 = [] then Inr UNDEFINED
      else case unicode_cpt_from_utf8 utf8 0 of
        Inl e \<Rightarrow> Inl e
      | Inr (c, _) \<Rightarrow> Inr (unicode_cpt_flags_from_cpt T c))"

section \<open>Case, decomposition, Han\<close>

text \<open>
  \<open>std::lower_bound\<close> on a sorted table finds the first entry whose key is not below the argument,
  \<open>std::upper_bound\<close> the first whose key is above it.
\<close>

definition unicode_tolower :: "unicode_tables \<Rightarrow> cpt \<Rightarrow> cpt" where
  "unicode_tolower T cpt =
     (case dropWhile (\<lambda>p. fst p < cpt) (map_lowercase T) of
        (k, v) # _ \<Rightarrow> if k = cpt then v else cpt
      | [] \<Rightarrow> cpt)"

text \<open>\<open>upper_bound - 1\<close> before the first entry is undefined: \<open>None\<close>.\<close>

definition nfd_cpt :: "unicode_tables \<Rightarrow> cpt \<Rightarrow> cpt option" where
  "nfd_cpt T cpt =
     (case rev (takeWhile (\<lambda>r. \<not> cpt < fst r) (ranges_nfd T)) of
        [] \<Rightarrow> None
      | (lo, hi, nfd) # _ \<Rightarrow> Some (if lo \<le> cpt \<and> cpt \<le> hi then nfd else cpt))"

fun unicode_cpts_normalize_nfd :: "unicode_tables \<Rightarrow> cpt list \<Rightarrow> cpt list option" where
  "unicode_cpts_normalize_nfd T [] = Some []"
| "unicode_cpts_normalize_nfd T (c # cs) =
     do { d \<leftarrow> nfd_cpt T c; ds \<leftarrow> unicode_cpts_normalize_nfd T cs; Some (d # ds) }"

definition unicode_cpt_is_han :: "cpt \<Rightarrow> bool" where
  "unicode_cpt_is_han cpt =
     (if cpt \<ge> 0x4E00 \<and> cpt \<le> 0x9FFF then True
      else if cpt \<ge> 0x3400 \<and> cpt \<le> 0x4DBF then True
      else if cpt \<ge> 0x20000 \<and> cpt \<le> 0x2A6DF then True
      else if cpt \<ge> 0x2A700 \<and> cpt \<le> 0x2B73F then True
      else if cpt \<ge> 0x2B740 \<and> cpt \<le> 0x2B81F then True
      else if cpt \<ge> 0x2B820 \<and> cpt \<le> 0x2CEAF then True
      else if cpt \<ge> 0x2CEB0 \<and> cpt \<le> 0x2EBEF then True
      else if cpt \<ge> 0xF900 \<and> cpt \<le> 0xFAFF then True
      else if cpt \<ge> 0x2F800 \<and> cpt \<le> 0x2FA1F then True
      else False)"

text \<open>The out-of-range marker of the splitters is no Han character.\<close>

lemma not_han_out_of_range [simp]: "\<not> unicode_cpt_is_han 0xFFFFFFFF"
  by (simp add: unicode_cpt_is_han_def)

text \<open>On a table with increasing keys the binary search is a table lookup.\<close>

lemma dropWhile_lookup:
  "sorted_wrt (<) (map fst tab) \<Longrightarrow>
   (case dropWhile (\<lambda>p. fst p < c) tab of (k, v) # _ \<Rightarrow> if k = c then v else c | [] \<Rightarrow> c) =
   (case map_of tab c of Some v \<Rightarrow> v | None \<Rightarrow> (c :: cpt))"
proof (induction tab)
  case (Cons p tab)
  obtain k v where p: "p = (k, v)" by force
  have "map_of tab c = None" if "\<not> k < c" "k \<noteq> c"
    using Cons.prems that p by (auto simp: map_of_eq_None_iff)
  with Cons p show ?case by auto
qed simp

lemma unicode_tolower_lookup:
  "sorted_wrt (<) (map fst (map_lowercase T)) \<Longrightarrow>
   unicode_tolower T c = (case map_of (map_lowercase T) c of Some v \<Rightarrow> v | None \<Rightarrow> c)"
  unfolding unicode_tolower_def by (rule dropWhile_lookup)

end
