(* ===== verification/Splitters.thy ===== *)
theory Splitters
  imports CptFlags
begin

text \<open>
  The hand-written pre-tokenizers of \<open>src/unicode.cpp\<close>: \<open>unicode_regex_split_custom_gpt2\<close>,
  \<open>_llama3\<close>, \<open>_kimi_k2\<close> and \<open>_afmoe\<close>. Each walks over a range of code points and emits the lengths
  of the pieces it cuts. One turn of the loop is a step on \<open>(pos, _prev_end, bpe_offsets)\<close>; the
  loop itself is a partial function, so that both a failed \<open>assert\<close> and a loop that never stops
  are \<open>None\<close>. The interface \<open>splitter\<close> says what a step must do for the loop to cut the whole text.
\<close>

section \<open>The parts the splitters share\<close>

record split_env =
  env_tables :: unicode_tables
  env_cpts :: "cpt list"
  env_ini :: nat
  env_end :: nat

type_synonym split_state = "nat \<times> nat \<times> nat list"

definition OUT_OF_RANGE :: cpt where
  "OUT_OF_RANGE = 0xFFFFFFFF"

definition get_cpt :: "split_env \<Rightarrow> nat \<Rightarrow> cpt" where
  "get_cpt E pos = (if env_ini E \<le> pos \<and> pos < env_end E then env_cpts E ! pos else OUT_OF_RANGE)"

definition get_flags :: "split_env \<Rightarrow> nat \<Rightarrow> cpt_flags" where
  "get_flags E pos =
     (if env_ini E \<le> pos \<and> pos < env_end E
      then unicode_cpt_flags_from_cpt (env_tables E) (env_cpts E ! pos) else 0)"

text \<open>\<open>_add_token\<close>: the asserted bounds, the length of the token, the new \<open>_prev_end\<close>, the offsets.\<close>

definition add_token :: "split_env \<Rightarrow> nat \<Rightarrow> nat \<Rightarrow> nat list \<Rightarrow> (nat \<times> nat \<times> nat list) option" where
  "add_token E stop prev out =
     (if prev \<le> stop \<and> stop \<le> env_end E
      then Some (stop - prev, stop, if stop - prev > 0 then out @ [stop - prev] else out)
      else None)"

text \<open>\<open>pos = p; _add_token(pos); continue\<close> and \<open>pos += _add_token(p); continue\<close>.\<close>

definition emit :: "split_env \<Rightarrow> nat \<Rightarrow> nat \<Rightarrow> nat list \<Rightarrow> split_state option" where
  "emit E p prev out = do { (len, prev', out') \<leftarrow> add_token E p prev out; Some (p, prev', out') }"

definition jump :: "split_env \<Rightarrow> nat \<Rightarrow> nat \<Rightarrow> nat \<Rightarrow> nat list \<Rightarrow> split_state option" where
  "jump E pos p prev out = do { (len, prev', out') \<leftarrow> add_token E p prev out; Some (pos + len, prev', out') }"

text \<open>
  The inner loops \<open>while (P(pos)) pos++\<close>. Every test used is false outside the range, where
  \<open>_get_flags\<close> has no flag and \<open>_get_cpt\<close> is \<open>OUT_OF_RANGE\<close>, so the bound only makes termination
  evident (\<open>skip_while_loop\<close>).
\<close>

function skip_while :: "split_env \<Rightarrow> (nat \<Rightarrow> bool) \<Rightarrow> nat \<Rightarrow> nat" where
  "skip_while E P p = (if p < env_end E \<and> P p then skip_while E P (Suc p) else p)"
  by pat_completeness auto
termination
  by (relation "measure (\<lambda>(E, P, p). env_end E - p)") auto

declare skip_while.simps [simp del]

lemma skip_while_loop:
  "(\<And>p. env_end E \<le> p \<Longrightarrow> \<not> P p) \<Longrightarrow>
   skip_while E P p = (if P p then skip_while E P (Suc p) else p)"
  by (subst skip_while.simps) (metis not_le)

lemma skip_while_ge: "p \<le> skip_while E P p"
proof (induction E P p rule: skip_while.induct)
  case (1 E P p)
  then show ?case by (subst skip_while.simps) auto
qed

lemma skip_while_le: "p \<le> env_end E \<Longrightarrow> skip_while E P p \<le> env_end E"
proof (induction E P p rule: skip_while.induct)
  case (1 E P p)
  then show ?case by (subst skip_while.simps) auto
qed

lemma skip_while_gt: "p < env_end E \<Longrightarrow> P p \<Longrightarrow> p < skip_while E P p"
  using skip_while_ge[of "Suc p" E P] by (subst skip_while.simps) auto

lemma flags_in_range:
  "is_letter (get_flags E p) \<Longrightarrow> p < env_end E"
  "is_number (get_flags E p) \<Longrightarrow> p < env_end E"
  "is_whitespace (get_flags E p) \<Longrightarrow> p < env_end E"
  by (auto simp: get_flags_def split: if_splits)

text \<open>A punctuation-like code point: no space, letter or number, but with some flag.\<close>

definition is_other :: "cpt_flags \<Rightarrow> bool" where
  "is_other f \<longleftrightarrow> \<not> (is_whitespace f \<or> is_letter f \<or> is_number f) \<and> f \<noteq> 0"

lemma other_in_range: "is_other (get_flags E p) \<Longrightarrow> p < env_end E"
  by (auto simp: get_flags_def is_other_def split: if_splits)

definition is_newline :: "cpt \<Rightarrow> bool" where
  "is_newline c \<longleftrightarrow> c = 0x0D \<or> c = 0x0A"

text \<open>
  The contractions \<open>'s 't 'm 'd\<close> and \<open>'re 've 'll\<close>: the length matched, or 0. \<open>f\<close> is the identity or
  \<open>unicode_tolower\<close>.
\<close>

definition contraction :: "split_env \<Rightarrow> (cpt \<Rightarrow> cpt) \<Rightarrow> nat \<Rightarrow> nat" where
  "contraction E f pos =
     (if get_cpt E pos = 0x27 \<and> pos + 1 < env_end E then
        let c1 = f (get_cpt E (pos + 1)) in
        if c1 = 0x73 \<or> c1 = 0x74 \<or> c1 = 0x6D \<or> c1 = 0x64 then 2
        else if pos + 2 < env_end E then
          let c2 = f (get_cpt E (pos + 2)) in
          if c1 = 0x72 \<and> c2 = 0x65 \<or> c1 = 0x76 \<and> c2 = 0x65 \<or> c1 = 0x6C \<and> c2 = 0x6C then 3 else 0
        else 0
      else 0)"

lemma contraction_le: "pos \<le> env_end E \<Longrightarrow> pos + contraction E f pos \<le> env_end E"
  by (auto simp: contraction_def Let_def)

section \<open>One turn of each loop\<close>

definition gpt2_step :: "split_env \<Rightarrow> split_state \<Rightarrow> split_state option" where
  "gpt2_step E st = (case st of (pos, prev, out) \<Rightarrow>
     let cpt = get_cpt E pos; flags = get_flags E pos; k = contraction E (\<lambda>c. c) pos in
     if k > 0 then jump E pos (pos + k) prev out
     else
       let flags2 = (if cpt = 0x20 then get_flags E (pos + 1) else flags);
           p = (if cpt = 0x20 then pos + 1 else pos) in
       if is_letter flags2 then emit E (skip_while E (\<lambda>p. is_letter (get_flags E p)) p) prev out
       else if is_number flags2 then emit E (skip_while E (\<lambda>p. is_number (get_flags E p)) p) prev out
       else if is_other flags2 then emit E (skip_while E (\<lambda>p. is_other (get_flags E p)) p) prev out
       else
         let num_whitespaces = skip_while E (\<lambda>p. is_whitespace (get_flags E p)) pos - pos in
         if num_whitespaces > 1 \<and> get_cpt E (pos + num_whitespaces) \<noteq> OUT_OF_RANGE
         then emit E (pos + num_whitespaces - 1) prev out
         else if num_whitespaces > 0 then emit E (pos + num_whitespaces) prev out
         else emit E (Suc pos) prev out)"

text \<open>\<open>\p{N}{1,3}\<close>: a token after every third digit, and one for the rest.\<close>

function number_groups :: "split_env \<Rightarrow> nat \<Rightarrow> nat \<Rightarrow> nat \<Rightarrow> nat list \<Rightarrow> split_state option" where
  "number_groups E pos ini prev out =
     (if pos < env_end E \<and> is_number (get_flags E pos) then
        if Suc pos - ini \<ge> 3 then
          Option.bind (add_token E (Suc pos) prev out)
            (\<lambda>(len, prev', out'). number_groups E (Suc pos) (Suc pos) prev' out')
        else number_groups E (Suc pos) ini prev out
      else emit E pos prev out)"
  by pat_completeness auto
termination
  by (relation "measure (\<lambda>(E, pos, ini, prev, out). env_end E - pos)") auto

declare number_groups.simps [simp del]

text \<open>\<open>last_end_r_or_n\<close>: one past the last line break among the white space, or 0.\<close>

definition last_newline :: "split_env \<Rightarrow> nat \<Rightarrow> nat \<Rightarrow> nat" where
  "last_newline E pos stop = fold (\<lambda>i l. if is_newline (get_cpt E i) then Suc i else l) [pos..<stop] 0"

text \<open>The white space section of the LLaMA 3 and Kimi splitters, down to the single character.\<close>

definition whitespace_step :: "split_env \<Rightarrow> nat \<Rightarrow> nat \<Rightarrow> nat list \<Rightarrow> split_state option" where
  "whitespace_step E pos prev out =
     (let num_whitespaces = skip_while E (\<lambda>p. is_whitespace (get_flags E p)) pos - pos;
          last_end_r_or_n = last_newline E pos (pos + num_whitespaces) in
      if last_end_r_or_n > 0 then emit E last_end_r_or_n prev out
      else if num_whitespaces > 1 \<and> get_cpt E (pos + num_whitespaces) \<noteq> OUT_OF_RANGE
      then emit E (pos + num_whitespaces - 1) prev out
      else if num_whitespaces > 0 then emit E (pos + num_whitespaces) prev out
      else emit E (Suc pos) prev out)"

definition skip_newlines :: "split_env \<Rightarrow> nat \<Rightarrow> nat" where
  "skip_newlines E p = skip_while E (\<lambda>p. is_newline (get_cpt E p)) p"

definition llama3_step :: "split_env \<Rightarrow> split_state \<Rightarrow> split_state option" where
  "llama3_step E st = (case st of (pos, prev, out) \<Rightarrow>
     let cpt = get_cpt E pos; flags = get_flags E pos;
         k = contraction E (unicode_tolower (env_tables E)) pos in
     if k > 0 then jump E pos (pos + k) prev out
     else if \<not> (is_newline cpt \<or> is_number flags) \<and> (is_letter flags \<or> is_letter (get_flags E (pos + 1)))
     then emit E (skip_while E (\<lambda>p. is_letter (get_flags E p)) (Suc pos)) prev out
     else if is_number flags then number_groups E pos pos prev out
     else
       let flags2 = (if cpt = 0x20 then get_flags E (pos + 1) else flags);
           p = (if cpt = 0x20 then pos + 1 else pos) in
       if \<not> (is_whitespace flags2 \<or> is_letter flags2 \<or> is_number flags2) \<and> flags \<noteq> 0
       then emit E (skip_newlines E (skip_while E (\<lambda>p. is_other (get_flags E p)) p)) prev out
       else whitespace_step E pos prev out)"

definition nonhan_letter :: "split_env \<Rightarrow> nat \<Rightarrow> bool" where
  "nonhan_letter E p \<longleftrightarrow> is_letter (get_flags E p) \<and> \<not> unicode_cpt_is_han (get_cpt E p)"

text \<open>Patterns 4 to 8 of the Kimi splitter; \<open>cpt\<close> and \<open>flags\<close> were read at the head of the loop.\<close>

definition kimi_rest :: "split_env \<Rightarrow> cpt \<Rightarrow> cpt_flags \<Rightarrow> nat \<Rightarrow> nat \<Rightarrow> nat list \<Rightarrow> split_state option" where
  "kimi_rest E cpt flags pos prev out =
     (if is_number flags then number_groups E pos pos prev out
      else
        let flags2 = (if cpt = 0x20 then get_flags E (pos + 1) else flags);
            p = (if cpt = 0x20 then pos + 1 else pos) in
        if is_other flags2
        then emit E (skip_newlines E (skip_while E (\<lambda>p. is_other (get_flags E p)) p)) prev out
        else whitespace_step E pos prev out)"

definition kimi_k2_step :: "split_env \<Rightarrow> split_state \<Rightarrow> split_state option" where
  "kimi_k2_step E st = (case st of (pos, prev, out) \<Rightarrow>
     let cpt = get_cpt E pos; flags = get_flags E pos in
     if unicode_cpt_is_han cpt
     then emit E (skip_while E (\<lambda>p. unicode_cpt_is_han (get_cpt E p)) pos) prev out
     else
       let lead = (\<not> (is_newline cpt \<or> is_letter flags \<or> is_number flags));
           is_letter_pattern = (is_letter flags \<and> \<not> unicode_cpt_is_han cpt \<or> lead \<and> nonhan_letter E (pos + 1)) in
       if is_letter_pattern then
         let p1 = (if lead then pos + 1 else pos);
             p2 = skip_while E (nonhan_letter E) p1;
             has_letters = (p1 < p2) in
         if has_letters \<or> \<not> lead \<and> nonhan_letter E p2 then
           let p3 = (if has_letters then p2 else Suc p2);
               p4 = skip_while E (nonhan_letter E) p3 in
           emit E (p4 + contraction E (unicode_tolower (env_tables E)) p4) prev out
         else kimi_rest E cpt flags (if lead then p2 - 1 else p2) prev out
       else kimi_rest E cpt flags pos prev out)"

text \<open>AFMoE: one or two leading digits, then groups of three.\<close>

function emit_triples :: "split_env \<Rightarrow> nat \<Rightarrow> nat \<Rightarrow> nat \<Rightarrow> nat list \<Rightarrow> (nat \<times> nat list) option" where
  "emit_triples E current stop prev out =
     (if current < stop then
        Option.bind (add_token E (current + 3) prev out)
          (\<lambda>(len, prev', out'). emit_triples E (current + 3) stop prev' out')
      else Some (prev, out))"
  by pat_completeness auto
termination
  by (relation "measure (\<lambda>(E, current, stop, prev, out). stop - current)") auto

declare emit_triples.simps [simp del]

definition afmoe_step :: "split_env \<Rightarrow> split_state \<Rightarrow> split_state option" where
  "afmoe_step E st = (case st of (pos, prev, out) \<Rightarrow>
     if is_number (get_flags E pos) then
       let p = skip_while E (\<lambda>p. is_number (get_flags E p)) pos;
           digit_count = p - pos;
           remainder = digit_count mod 3 in
       do {
         (prev1, out1) \<leftarrow> (if remainder > 0
            then map_option snd (add_token E (pos + remainder) prev out) else Some (prev, out));
         (prev2, out2) \<leftarrow> emit_triples E (pos + remainder) (pos + digit_count) prev1 out1;
         Some (p, prev2, out2)
       }
     else Some (pos + 1, prev, out))"

section \<open>The loops\<close>

partial_function (option) split_loop ::
  "(split_state \<Rightarrow> split_state option) \<Rightarrow> nat \<Rightarrow> split_state \<Rightarrow> split_state option" where
  "split_loop f stop st = (if fst st < stop then Option.bind (f st) (split_loop f stop) else Some st)"

text \<open>One range; with \<open>tail\<close> what is left after the last token is emitted at the end (AFMoE).\<close>

definition split_range ::
  "(split_env \<Rightarrow> split_state \<Rightarrow> split_state option) \<Rightarrow> bool \<Rightarrow> split_env \<Rightarrow> nat list \<Rightarrow> nat list option" where
  "split_range step tail E out =
     do {
       (pos, prev, out') \<leftarrow> split_loop (step E) (env_end E) (env_ini E, env_ini E, out);
       if tail \<and> prev < env_end E
       then map_option (snd \<circ> snd) (add_token E (env_end E) prev out')
       else Some out'
     }"

fun split_ranges ::
  "(split_env \<Rightarrow> split_state \<Rightarrow> split_state option) \<Rightarrow> bool \<Rightarrow> unicode_tables \<Rightarrow> cpt list \<Rightarrow>
   nat \<Rightarrow> nat list \<Rightarrow> nat list \<Rightarrow> nat list option" where
  "split_ranges step tail T cpts start [] out = Some out"
| "split_ranges step tail T cpts start (offset # offsets) out =
     do {
       requires (start + offset \<le> length cpts);
       out' \<leftarrow> split_range step tail
         \<lparr>env_tables = T, env_cpts = cpts, env_ini = start, env_end = start + offset\<rparr> out;
       split_ranges step tail T cpts (start + offset) offsets out'
     }"

definition unicode_regex_split_custom_gpt2 :: "unicode_tables \<Rightarrow> bytes \<Rightarrow> nat list \<Rightarrow> nat list option" where
  "unicode_regex_split_custom_gpt2 T text offsets =
     split_ranges gpt2_step False T (unicode_cpts_from_utf8 text) 0 offsets []"

definition unicode_regex_split_custom_llama3 :: "unicode_tables \<Rightarrow> bytes \<Rightarrow> nat list \<Rightarrow> nat list option" where
  "unicode_regex_split_custom_llama3 T text offsets =
     split_ranges llama3_step False T (unicode_cpts_from_utf8 text) 0 offsets []"

definition unicode_regex_split_custom_kimi_k2 :: "unicode_tables \<Rightarrow> bytes \<Rightarrow> nat list \<Rightarrow> nat list option" where
  "unicode_regex_split_custom_kimi_k2 T text offsets =
     split_ranges kimi_k2_step False T (unicode_cpts_from_utf8 text) 0 offsets []"

definition unicode_regex_split_custom_afmoe :: "unicode_tables \<Rightarrow> bytes \<Rightarrow> nat list \<Rightarrow> nat list option" where
  "unicode_regex_split_custom_afmoe T text offsets =
     split_ranges afmoe_step True T (unicode_cpts_from_utf8 text) 0 offsets []"

end
