(* ===== verification/SplitterLaws.thy ===== *)
theory SplitterLaws
  imports Splitters
begin

text \<open>
  What the splitters guarantee. \<open>advances\<close> is the contract of one turn of a loop; the locale
  \<open>splitter\<close> derives from it that a whole run stops without failing an assertion, that its offsets
  are positive and that they cut every given range completely. It is interpreted on the four
  splitters of the code.
\<close>

section \<open>The contract of one turn\<close>

definition advances ::
  "split_env \<Rightarrow> (nat \<Rightarrow> nat \<Rightarrow> bool) \<Rightarrow> nat \<Rightarrow> nat \<Rightarrow> nat list \<Rightarrow> split_state option \<Rightarrow> bool" where
  "advances E rel pos prev out r \<longleftrightarrow>
     (\<exists>pos' prev' toks. r = Some (pos', prev', out @ toks) \<and> pos < pos' \<and> pos' \<le> env_end E \<and>
        prev \<le> prev' \<and> prev' \<le> pos' \<and> rel prev' pos' \<and> sum_list toks = prev' - prev \<and> 0 \<notin> set toks)"

definition env_ok :: "split_env \<Rightarrow> bool" where
  "env_ok E \<longleftrightarrow> env_ini E \<le> env_end E \<and> env_end E \<le> length (env_cpts E)"

locale splitter =
  fixes step :: "split_env \<Rightarrow> split_state \<Rightarrow> split_state option"
    and rel :: "nat \<Rightarrow> nat \<Rightarrow> bool"
    and tail :: bool
  assumes rel_refl: "rel p p"
    and rel_tail: "rel p q \<Longrightarrow> p = q \<or> tail"
    and step_advances: "env_ok E \<Longrightarrow> env_ini E \<le> prev \<Longrightarrow> prev \<le> pos \<Longrightarrow> pos < env_end E \<Longrightarrow>
        rel prev pos \<Longrightarrow> advances E rel pos prev out (step E (pos, prev, out))"
begin

lemma loop_total:
  assumes "env_ok E" "env_ini E \<le> prev" "prev \<le> pos" "pos \<le> env_end E" "rel prev pos"
  shows "\<exists>prev' toks. split_loop (step E) (env_end E) (pos, prev, out) =
           Some (env_end E, prev', out @ toks) \<and> prev \<le> prev' \<and> prev' \<le> env_end E \<and>
           rel prev' (env_end E) \<and> sum_list toks = prev' - prev \<and> 0 \<notin> set toks"
  using assms(2-)
proof (induction "env_end E - pos" arbitrary: pos prev out rule: less_induct)
  case less
  show ?case
  proof (cases "pos < env_end E")
    case False
    with less.prems show ?thesis by (subst split_loop.simps) auto
  next
    case True
    obtain pos1 prev1 toks1 where 1: "step E (pos, prev, out) = Some (pos1, prev1, out @ toks1)"
      "pos < pos1" "pos1 \<le> env_end E" "prev \<le> prev1" "prev1 \<le> pos1" "rel prev1 pos1"
      "sum_list toks1 = prev1 - prev" "0 \<notin> set toks1"
      using step_advances[OF assms(1) less.prems(1,2) True less.prems(4), of out]
      by (auto simp: advances_def)
    have "env_end E - pos1 < env_end E - pos" "env_ini E \<le> prev1" using 1 True less.prems(1) by auto
    then obtain prev2 toks2 where "split_loop (step E) (env_end E) (pos1, prev1, out @ toks1) =
           Some (env_end E, prev2, (out @ toks1) @ toks2)" "prev1 \<le> prev2" "prev2 \<le> env_end E"
           "rel prev2 (env_end E)" "sum_list toks2 = prev2 - prev1" "0 \<notin> set toks2"
      using less.hyps[of pos1 prev1 "out @ toks1"] 1 by blast
    with 1 True show ?thesis
      by (subst split_loop.simps) (auto intro!: exI[of _ "toks1 @ toks2"])
  qed
qed

lemma range_total:
  assumes "env_ok E"
  shows "\<exists>toks. split_range step tail E out = Some (out @ toks) \<and>
           sum_list toks = env_end E - env_ini E \<and> 0 \<notin> set toks"
proof -
  from loop_total[OF assms, of "env_ini E" "env_ini E" out] assms obtain prev toks where
    l: "split_loop (step E) (env_end E) (env_ini E, env_ini E, out) = Some (env_end E, prev, out @ toks)"
    "env_ini E \<le> prev" "prev \<le> env_end E" "rel prev (env_end E)" "sum_list toks = prev - env_ini E" "0 \<notin> set toks"
    by (auto simp: env_ok_def rel_refl)
  show ?thesis
  proof (cases "tail \<and> prev < env_end E")
    case True
    with l show ?thesis
      by (auto simp: split_range_def add_token_def intro!: exI[of _ "toks @ [env_end E - prev]"])
  next
    case False
    with l rel_tail have "prev = env_end E" by fastforce
    with l False show ?thesis by (auto simp: split_range_def)
  qed
qed

text \<open>The pieces refine the given offsets: each range is cut into pieces of its own.\<close>

lemma ranges_total:
  assumes "start + sum_list offsets \<le> length cpts"
  shows "\<exists>parts. split_ranges step tail T cpts start offsets out = Some (out @ concat parts) \<and>
           map sum_list parts = offsets \<and> (\<forall>ts \<in> set parts. 0 \<notin> set ts)"
  using assms
proof (induction offsets arbitrary: start out)
  case Nil
  show ?case by (auto intro: exI[of _ "[]"])
next
  case (Cons n ns)
  let ?E = "\<lparr>env_tables = T, env_cpts = cpts, env_ini = start, env_end = start + n\<rparr>"
  have "env_ok ?E" using Cons.prems by (simp add: env_ok_def)
  then obtain toks where t: "split_range step tail ?E out = Some (out @ toks)" "sum_list toks = n" "0 \<notin> set toks"
    using range_total[of ?E out] by auto
  obtain parts where "split_ranges step tail T cpts (start + n) ns (out @ toks) = Some ((out @ toks) @ concat parts)"
    "map sum_list parts = ns" "\<forall>ts \<in> set parts. 0 \<notin> set ts"
    using Cons.IH[of "start + n" "out @ toks"] Cons.prems by (auto simp: add.assoc)
  with t Cons.prems show ?case by (auto intro!: exI[of _ "toks # parts"])
qed

end

section \<open>The parts keep the contract\<close>

lemma add_token_ok:
  "prev \<le> p \<Longrightarrow> p \<le> env_end E \<Longrightarrow>
   add_token E p prev out = Some (p - prev, p, out @ (if prev < p then [p - prev] else []))"
  by (auto simp: add_token_def)

lemma emit_advances:
  "prev \<le> pos \<Longrightarrow> pos < p \<Longrightarrow> p \<le> env_end E \<Longrightarrow> advances E (=) pos prev out (emit E p prev out)"
  by (auto simp: advances_def emit_def add_token_ok)

lemma jump_advances:
  "prev = pos \<Longrightarrow> pos < p \<Longrightarrow> p \<le> env_end E \<Longrightarrow> advances E (=) pos prev out (jump E pos p prev out)"
  by (auto simp: advances_def jump_def add_token_ok)

lemma if_cases_advances:
  "(b \<Longrightarrow> advances E rel pos prev out x) \<Longrightarrow> (\<not> b \<Longrightarrow> advances E rel pos prev out y) \<Longrightarrow>
   advances E rel pos prev out (if b then x else y)"
  by simp

text \<open>\<open>advances\<close> composes with tokens already emitted.\<close>

lemma advances_after:
  assumes "advances E rel pos prev1 (out @ toks) r" "prev \<le> prev1" "sum_list toks = prev1 - prev" "0 \<notin> set toks"
    "pos0 \<le> pos"
  shows "advances E rel pos0 prev out r"
proof -
  from assms(1) obtain pos' prev' toks' where "r = Some (pos', prev', (out @ toks) @ toks')" "pos < pos'"
    "pos' \<le> env_end E" "prev1 \<le> prev'" "prev' \<le> pos'" "rel prev' pos'" "sum_list toks' = prev' - prev1" "0 \<notin> set toks'"
    by (auto simp: advances_def)
  with assms(2-) show ?thesis
    unfolding advances_def by (intro exI[of _ pos'] exI[of _ prev'] exI[of _ "toks @ toks'"]) auto
qed

lemma number_groups_emits:
  "prev \<le> pos \<Longrightarrow> pos \<le> env_end E \<Longrightarrow>
   \<exists>p toks. number_groups E pos ini prev out = Some (p, p, out @ toks) \<and> pos \<le> p \<and> p \<le> env_end E \<and>
     sum_list toks = p - prev \<and> 0 \<notin> set toks \<and>
     (pos < env_end E \<and> is_number (get_flags E pos) \<longrightarrow> pos < p)"
proof (induction E pos ini prev out rule: number_groups.induct)
  case (1 E pos ini prev out)
  show ?case
  proof (cases "pos < env_end E \<and> is_number (get_flags E pos)")
    case False
    with "1.prems" show ?thesis by (subst number_groups.simps) (auto simp: emit_def add_token_ok)
  next
    case num: True
    show ?thesis
    proof (cases "Suc pos - ini \<ge> 3")
      case False
      with num "1.IH"(2)[OF num False] "1.prems" obtain p toks where
        "number_groups E (Suc pos) ini prev out = Some (p, p, out @ toks)" "Suc pos \<le> p" "p \<le> env_end E"
        "sum_list toks = p - prev" "0 \<notin> set toks" by auto
      with num False show ?thesis by (subst number_groups.simps) auto
    next
      case True
      let ?t = "[Suc pos - prev]"
      have a: "add_token E (Suc pos) prev out = Some (Suc pos - prev, Suc pos, out @ ?t)"
        using "1.prems" num by (simp add: add_token_ok)
      have "\<exists>p toks. number_groups E (Suc pos) (Suc pos) (Suc pos) (out @ ?t) = Some (p, p, (out @ ?t) @ toks) \<and>
          Suc pos \<le> p \<and> p \<le> env_end E \<and> sum_list toks = p - Suc pos \<and> 0 \<notin> set toks \<and>
          (Suc pos < env_end E \<and> is_number (get_flags E (Suc pos)) \<longrightarrow> Suc pos < p)"
        by (rule "1.IH"(1)[OF num True a refl refl]) (use num in auto)
      then obtain p toks where
        "number_groups E (Suc pos) (Suc pos) (Suc pos) (out @ ?t) = Some (p, p, (out @ ?t) @ toks)"
        "Suc pos \<le> p" "p \<le> env_end E" "sum_list toks = p - Suc pos" "0 \<notin> set toks" by blast
      with num True a "1.prems" show ?thesis
        by (subst number_groups.simps) (auto intro!: exI[of _ p] exI[of _ "?t @ toks"])
    qed
  qed
qed

lemma number_groups_advances:
  "prev \<le> pos \<Longrightarrow> is_number (get_flags E pos) \<Longrightarrow> advances E (=) pos prev out (number_groups E pos ini prev out)"
  using number_groups_emits[of prev pos E ini out] flags_in_range(2)[of E pos] by (force simp: advances_def)

lemma newline_in_range: "is_newline (get_cpt E p) \<Longrightarrow> p < env_end E"
  by (auto simp: is_newline_def get_cpt_def OUT_OF_RANGE_def split: if_splits)

lemma last_newline_bound:
  "last_newline E pos q = 0 \<or> pos < last_newline E pos q \<and> last_newline E pos q \<le> q"
  unfolding last_newline_def by (induction q) auto

lemma whitespace_step_advances:
  assumes "prev \<le> pos" "pos < env_end E"
  shows "advances E (=) pos prev out (whitespace_step E pos prev out)"
proof -
  let ?q = "skip_while E (\<lambda>p. is_whitespace (get_flags E p)) pos"
  have q: "pos \<le> ?q" "?q \<le> env_end E" using assms skip_while_ge skip_while_le by auto
  then show ?thesis
    using assms last_newline_bound[of E pos ?q]
    by (auto simp: whitespace_step_def Let_def intro!: emit_advances)
qed

lemma skip_others:
  assumes "is_other (get_flags E p)"
  shows "p < skip_newlines E (skip_while E (\<lambda>p. is_other (get_flags E p)) p) \<and>
    skip_newlines E (skip_while E (\<lambda>p. is_other (get_flags E p)) p) \<le> env_end E"
proof -
  have "p < env_end E" using other_in_range[OF assms] .
  then show ?thesis
    using skip_while_gt[of p E "\<lambda>p. is_other (get_flags E p)"] assms skip_while_ge skip_while_le
    unfolding skip_newlines_def by (meson less_imp_le less_le_trans)
qed

lemma skip_some:
  "P p \<Longrightarrow> p < env_end E \<Longrightarrow> p < skip_while E P p \<and> skip_while E P p \<le> env_end E"
  using skip_while_gt[of p E P] skip_while_le[of p E P] by simp

lemma emit_skip_advances:
  "prev \<le> pos \<Longrightarrow> pos \<le> p \<Longrightarrow> P p \<Longrightarrow> p < env_end E \<Longrightarrow>
   advances E (=) pos prev out (emit E (skip_while E P p) prev out)"
  using skip_some[of P p E] by (auto intro!: emit_advances)

lemma emit_others_advances:
  "prev \<le> pos \<Longrightarrow> pos \<le> p \<Longrightarrow> is_other (get_flags E p) \<Longrightarrow>
   advances E (=) pos prev out
     (emit E (skip_newlines E (skip_while E (\<lambda>p. is_other (get_flags E p)) p)) prev out)"
  using skip_others[of E p] by (auto intro!: emit_advances)

lemma emit_class_advances:
  assumes "prev \<le> pos" "pos \<le> p"
  shows "is_letter (get_flags E p) \<Longrightarrow>
      advances E (=) pos prev out (emit E (skip_while E (\<lambda>p. is_letter (get_flags E p)) p) prev out)"
    and "is_number (get_flags E p) \<Longrightarrow>
      advances E (=) pos prev out (emit E (skip_while E (\<lambda>p. is_number (get_flags E p)) p) prev out)"
    and "is_other (get_flags E p) \<Longrightarrow>
      advances E (=) pos prev out (emit E (skip_while E (\<lambda>p. is_other (get_flags E p)) p) prev out)"
  by (rule emit_skip_advances[OF assms]; simp add: flags_in_range other_in_range)+

section \<open>The four splitters\<close>

lemma gpt2_step_advances:
  assumes "env_ok E" "pos < env_end E"
  shows "advances E (=) pos pos out (gpt2_step E (pos, pos, out))"
proof (cases "0 < contraction E (\<lambda>c. c) pos")
  case True
  then show ?thesis
    using contraction_le[of pos E] assms by (auto simp: gpt2_step_def Let_def intro!: jump_advances)
next
  case False
  define p where "p = (if get_cpt E pos = 0x20 then pos + 1 else pos)"
  have f: "(if get_cpt E pos = 0x20 then get_flags E (pos + 1) else get_flags E pos) = get_flags E p"
    and p: "pos \<le> p" by (simp_all add: p_def)
  let ?q = "skip_while E (\<lambda>p. is_whitespace (get_flags E p)) pos"
  have q: "pos \<le> ?q" "?q \<le> env_end E" using assms skip_while_ge skip_while_le by auto
  show ?thesis
    unfolding gpt2_step_def Let_def prod.case f if_not_P[OF False] p_def[symmetric]
    by (intro if_cases_advances emit_class_advances[OF order.refl p])
      (use q assms in \<open>auto intro!: emit_advances\<close>)
qed

lemma llama3_step_advances:
  assumes "env_ok E" "pos < env_end E"
  shows "advances E (=) pos pos out (llama3_step E (pos, pos, out))"
proof (cases "0 < contraction E (unicode_tolower (env_tables E)) pos")
  case True
  then show ?thesis
    using contraction_le[of pos E] assms by (auto simp: llama3_step_def Let_def intro!: jump_advances)
next
  case False
  define p where "p = (if get_cpt E pos = 0x20 then pos + 1 else pos)"
  have f: "(if get_cpt E pos = 0x20 then get_flags E (pos + 1) else get_flags E pos) = get_flags E p"
    and p: "pos \<le> p" by (simp_all add: p_def)
  have letters: "pos < skip_while E (\<lambda>p. is_letter (get_flags E p)) (Suc pos)"
    "skip_while E (\<lambda>p. is_letter (get_flags E p)) (Suc pos) \<le> env_end E"
    using assms skip_while_ge[of "Suc pos" E] skip_while_le[of "Suc pos" E] by (auto simp: Suc_le_eq)
  have others: "advances E (=) pos pos out
      (emit E (skip_newlines E (skip_while E (\<lambda>p. is_other (get_flags E p)) p)) pos out)"
    if "\<not> (is_whitespace (get_flags E p) \<or> is_letter (get_flags E p) \<or> is_number (get_flags E p))"
      "get_flags E pos \<noteq> 0"
  proof (cases "is_other (get_flags E p)")
    case True
    then show ?thesis by (rule emit_others_advances[OF order.refl p])
  next
    case False
    with that have "get_flags E p = 0" by (simp add: is_other_def)
    with that have "p = Suc pos" by (auto simp: p_def split: if_splits)
    then have "pos < skip_newlines E (skip_while E (\<lambda>p. is_other (get_flags E p)) p) \<and>
        skip_newlines E (skip_while E (\<lambda>p. is_other (get_flags E p)) p) \<le> env_end E"
      using assms skip_while_le skip_while_ge unfolding skip_newlines_def
      by (meson Suc_le_eq le_trans)
    then show ?thesis by (auto intro: emit_advances)
  qed
  show ?thesis
    unfolding llama3_step_def Let_def prod.case f if_not_P[OF False] p_def[symmetric]
    by (intro if_cases_advances)
      (use letters others assms in \<open>auto intro: emit_advances number_groups_advances whitespace_step_advances\<close>)
qed

lemma kimi_rest_advances:
  assumes "pos < env_end E" "flags = get_flags E pos"
  shows "advances E (=) pos pos out (kimi_rest E cpt flags pos pos out)"
proof -
  define p where "p = (if cpt = 0x20 then pos + 1 else pos)"
  have f: "(if cpt = 0x20 then get_flags E (pos + 1) else flags) = get_flags E p"
    and p: "pos \<le> p" by (simp_all add: p_def assms)
  show ?thesis
    unfolding kimi_rest_def Let_def f p_def[symmetric]
    by (intro if_cases_advances)
      (use assms p in \<open>auto intro: emit_others_advances number_groups_advances whitespace_step_advances\<close>)
qed

lemma nonhan_in_range: "nonhan_letter E p \<Longrightarrow> p < env_end E"
  by (auto simp: nonhan_letter_def flags_in_range)

lemma kimi_k2_step_advances:
  assumes "env_ok E" "pos < env_end E"
  shows "advances E (=) pos pos out (kimi_k2_step E (pos, pos, out))"
proof -
  let ?cpt = "get_cpt E pos" and ?flags = "get_flags E pos"
  let ?lead = "\<not> (is_newline ?cpt \<or> is_letter ?flags \<or> is_number ?flags)"
  let ?p1 = "if ?lead then pos + 1 else pos"
  let ?p2 = "skip_while E (nonhan_letter E) ?p1"
  have letters: "advances E (=) pos pos out
      (emit E (skip_while E (nonhan_letter E) p3 +
         contraction E (unicode_tolower (env_tables E)) (skip_while E (nonhan_letter E) p3)) pos out)"
    if "pos < p3" "p3 \<le> env_end E" for p3
  proof (rule emit_advances)
    have "p3 \<le> skip_while E (nonhan_letter E) p3" "skip_while E (nonhan_letter E) p3 \<le> env_end E"
      using that skip_while_ge skip_while_le by auto
    then show "pos < skip_while E (nonhan_letter E) p3 +
         contraction E (unicode_tolower (env_tables E)) (skip_while E (nonhan_letter E) p3)"
      "skip_while E (nonhan_letter E) p3 +
         contraction E (unicode_tolower (env_tables E)) (skip_while E (nonhan_letter E) p3) \<le> env_end E"
      using that contraction_le by auto
  qed simp
  show ?thesis
  proof (cases "unicode_cpt_is_han ?cpt")
    case True
    then show ?thesis
      using assms by (auto simp: kimi_k2_step_def Let_def intro!: emit_skip_advances)
  next
    case han: False
    show ?thesis
    proof (cases "is_letter ?flags \<and> \<not> unicode_cpt_is_han ?cpt \<or> ?lead \<and> nonhan_letter E (pos + 1)")
      case False
      then show ?thesis
        using han kimi_rest_advances[OF assms(2) refl] by (auto simp: kimi_k2_step_def Let_def)
    next
      case True
      then have "nonhan_letter E ?p1" by (auto simp: nonhan_letter_def)
      then have p2: "?p1 < ?p2" "?p2 \<le> env_end E"
        using skip_some[of "nonhan_letter E" ?p1 E] nonhan_in_range by blast+
      then have "pos < ?p2" by (auto split: if_splits)
      from letters[OF this p2(2)] show ?thesis
        using han True p2(1) by (auto simp: kimi_k2_step_def Let_def)
    qed
  qed
qed

lemma emit_triples_ok:
  "current \<le> stop \<Longrightarrow> (stop - current) mod 3 = 0 \<Longrightarrow> prev \<le> current \<Longrightarrow> stop \<le> env_end E \<Longrightarrow>
   \<exists>prev' toks. emit_triples E current stop prev out = Some (prev', out @ toks) \<and> prev \<le> prev' \<and>
     prev' \<le> stop \<and> sum_list toks = prev' - prev \<and> 0 \<notin> set toks"
proof (induction E current stop prev out rule: emit_triples.induct)
  case (1 E current stop prev out)
  show ?case
  proof (cases "current < stop")
    case False
    with 1 show ?thesis by (subst emit_triples.simps) auto
  next
    case True
    with "1.prems" have c: "current + 3 \<le> stop" "(stop - (current + 3)) mod 3 = 0"
      by presburger+
    let ?t = "[current + 3 - prev]"
    have a: "add_token E (current + 3) prev out = Some (current + 3 - prev, current + 3, out @ ?t)"
      using "1.prems" c by (simp add: add_token_ok)
    have "\<exists>prev' toks. emit_triples E (current + 3) stop (current + 3) (out @ ?t) =
        Some (prev', (out @ ?t) @ toks) \<and> current + 3 \<le> prev' \<and> prev' \<le> stop \<and>
        sum_list toks = prev' - (current + 3) \<and> 0 \<notin> set toks"
      by (rule "1.IH"[OF True a refl refl]) (use c "1.prems" in auto)
    then obtain prev' toks where "emit_triples E (current + 3) stop (current + 3) (out @ ?t) =
        Some (prev', (out @ ?t) @ toks)" "current + 3 \<le> prev'" "prev' \<le> stop"
        "sum_list toks = prev' - (current + 3)" "0 \<notin> set toks" by blast
    with True a "1.prems" show ?thesis
      by (subst emit_triples.simps) (auto intro!: exI[of _ "?t @ toks"])
  qed
qed

lemma triple_remainder:
  assumes "pos < p"
  shows "pos + (p - pos) mod 3 \<le> p \<and> (p - (pos + (p - pos) mod 3)) mod (3::nat) = 0"
proof -
  have "p - (pos + (p - pos) mod 3) = 3 * ((p - pos) div 3)"
    by (metis diff_diff_left minus_mod_eq_mult_div)
  moreover have "(p - pos) mod 3 \<le> p - pos" by simp
  ultimately show ?thesis using assms by (simp add: le_diff_conv2)
qed

lemma afmoe_step_advances:
  assumes "prev \<le> pos" "pos < env_end E"
  shows "advances E (\<le>) pos prev out (afmoe_step E (pos, prev, out))"
proof (cases "is_number (get_flags E pos)")
  case False
  with assms show ?thesis by (auto simp: afmoe_step_def advances_def)
next
  case True
  let ?p = "skip_while E (\<lambda>p. is_number (get_flags E p)) pos"
  define r where "r = (?p - pos) mod 3"
  have p: "pos < ?p" "?p \<le> env_end E"
    using skip_some[of "\<lambda>p. is_number (get_flags E p)" pos E] True assms by auto
  have r: "pos + r \<le> ?p" "(?p - (pos + r)) mod 3 = 0"
    using p triple_remainder[of pos ?p] by (auto simp: r_def)
  define t where "t = (if 0 < r then [pos + r - prev] else [])"
  define prev1 where "prev1 = (if 0 < r then pos + r else prev)"
  have first: "(if r > 0 then map_option snd (add_token E (pos + r) prev out) else Some (prev, out)) =
      Some (prev1, out @ t)"
    using assms r p by (simp add: t_def prev1_def add_token_ok)
  have t: "prev \<le> prev1" "prev1 \<le> pos + r" "sum_list t = prev1 - prev" "0 \<notin> set t"
    using assms by (auto simp: t_def prev1_def)
  obtain prev2 toks where e: "emit_triples E (pos + r) ?p prev1 (out @ t) = Some (prev2, (out @ t) @ toks)"
    "prev1 \<le> prev2" "prev2 \<le> ?p" "sum_list toks = prev2 - prev1" "0 \<notin> set toks"
    using emit_triples_ok[of "pos + r" ?p prev1 E "out @ t"] r t p by auto
  have "afmoe_step E (pos, prev, out) = Some (?p, prev2, out @ (t @ toks))"
    unfolding afmoe_step_def Let_def prod.case if_P[OF True] r_def[symmetric] first
    using e(1) p by simp
  with p e t show ?thesis unfolding advances_def by fastforce
qed

interpretation gpt2: splitter gpt2_step "(=)" False
  by unfold_locales (auto intro: gpt2_step_advances)

interpretation llama3: splitter llama3_step "(=)" False
  by unfold_locales (auto intro: llama3_step_advances)

interpretation kimi_k2: splitter kimi_k2_step "(=)" False
  by unfold_locales (auto intro: kimi_k2_step_advances)

interpretation afmoe: splitter afmoe_step "(\<le>)" True
  by unfold_locales (auto intro: afmoe_step_advances)

end
