(* ===== verification/RegexSplit.thy ===== *)
theory RegexSplit
  imports SplitterLaws
begin

text \<open>
  \<open>unicode_regex_split\<close> of \<open>src/unicode.cpp\<close>: every pattern of a pre-tokenizer refines the current
  cut of the text, by a hand-written splitter when there is one and by \<open>std::regex\<close> otherwise; the
  pieces are then written in the byte-level alphabet. \<open>std::regex\<close>, \<open>std::wregex\<close> and
  \<open>std::codecvt_utf8\<close> are the parameter \<open>regex_engine\<close>. \<open>llama_decode_text\<close> of \<open>src/llama-vocab.cpp\<close>
  is the way back.
\<close>

section \<open>Patterns\<close>

text \<open>
  Literal text of the source: \<open>~\<close> stands for a backslash and \<open>@\<close> for an apostrophe.
\<close>

definition lit :: "string \<Rightarrow> bytes" where
  "lit s = map (\<lambda>c. if c = CHR ''~'' then 0x5C else if c = CHR ''@'' then 0x27
                    else of_nat (of_char c)) s"

definition regex_gpt2 :: bytes where
  "regex_gpt2 = lit ''@s|@t|@re|@ve|@m|@ll|@d| ?~p{L}+| ?~p{N}+| ?[^~s~p{L}~p{N}]+|~s+(?!~S)''"

definition regex_llama3 :: bytes where
  "regex_llama3 = lit (''(?i:@s|@t|@re|@ve|@m|@ll|@d)|[^~r~n~p{L}~p{N}]?~p{L}+|~p{N}{1,3}'' @
     ''| ?[^~s~p{L}~p{N}]+[~r~n]*|~s*[~r~n]+|~s+(?!~S)|~s+'')"

definition regex_llama3_bpe :: bytes where
  "regex_llama3_bpe = lit (''(?:@[sS]|@[tT]|@[rR][eE]|@[vV][eE]|@[mM]|@[lL][lL]|@[dD])'' @
     ''|[^~r~n~p{L}~p{N}]?~p{L}+|~p{N}{1,3}'' @
     ''| ?[^~s~p{L}~p{N}]+[~r~n]*|~s*[~r~n]+|~s+(?!~S)|~s+'')"

definition regex_han :: bytes where
  "regex_han = lit ''~p{Han}+''"

definition regex_afmoe :: bytes where
  "regex_afmoe = lit ''~p{AFMoE_digits}''"

definition unicode_regex_split_custom ::
  "unicode_tables \<Rightarrow> bytes \<Rightarrow> bytes \<Rightarrow> nat list \<Rightarrow> nat list option" where
  "unicode_regex_split_custom T text regex_expr offsets =
     (if regex_expr = regex_gpt2 then unicode_regex_split_custom_gpt2 T text offsets
      else if regex_expr = regex_llama3 \<or> regex_expr = regex_llama3_bpe
        then unicode_regex_split_custom_llama3 T text offsets
      else if regex_expr = regex_han then unicode_regex_split_custom_kimi_k2 T text offsets
      else if regex_expr = regex_afmoe then unicode_regex_split_custom_afmoe T text offsets
      else Some [])"

section \<open>The regular expression engine of the standard library\<close>

text \<open>
  \<open>compile8\<close> and \<open>compile32\<close> say whether a pattern is accepted by \<open>std::regex\<close>, \<open>std::wregex\<close>
  (else \<open>regex_error\<close>). \<open>iterate8 e s\<close> lists position and length of the matches a
  \<open>std::cregex_iterator\<close> over \<open>s\<close> visits, \<open>None\<close> when matching throws \<open>regex_error\<close>. A \<open>wchar_t\<close> is
  32 bits wide.
\<close>

record regex_engine =
  compile8 :: "bytes \<Rightarrow> bool"
  iterate8 :: "bytes \<Rightarrow> bytes \<Rightarrow> (nat \<times> nat) list option"
  compile32 :: "cpt list \<Rightarrow> bool"
  iterate32 :: "cpt list \<Rightarrow> cpt list \<Rightarrow> (nat \<times> nat) list option"
  from_bytes :: "bytes \<Rightarrow> cpt list option"

text \<open>The matches of one range: gaps between matches and matches, then the rest.\<close>

fun emit_matches :: "nat \<Rightarrow> (nat \<times> nat) list \<Rightarrow> nat list \<Rightarrow> nat \<times> nat list" where
  "emit_matches start_idx [] out = (start_idx, out)"
| "emit_matches start_idx ((position, len) # ms) out =
     emit_matches (position + len) ms
       (out @ (if position > start_idx then [position - start_idx] else []) @ [len])"

fun stl_ranges ::
  "('a list \<Rightarrow> (nat \<times> nat) list option) \<Rightarrow> 'a list \<Rightarrow> nat \<Rightarrow> nat list \<Rightarrow> nat list \<Rightarrow>
   unicode_error + nat list" where
  "stl_ranges iter text start [] out = Inr out"
| "stl_ranges iter text start (offset # offsets) out =
     (if start + offset \<le> length text then
        bindE (or_error Failed_to_process_regex (iter (take offset (drop start text)))) (\<lambda>ms.
          let (start_idx, out1) = emit_matches 0 ms out;
              out2 = (if start_idx < offset then out1 @ [offset - start_idx] else out1)
          in stl_ranges iter text (start + offset) offsets out2)
      else Inl Assert_failed)"

definition unicode_regex_split_stl ::
  "('a list \<Rightarrow> bool) \<Rightarrow> ('a list \<Rightarrow> 'a list \<Rightarrow> (nat \<times> nat) list option) \<Rightarrow> 'a list \<Rightarrow> 'a list \<Rightarrow>
   nat list \<Rightarrow> unicode_error + nat list" where
  "unicode_regex_split_stl compile iter text regex_expr offsets =
     (if compile regex_expr then stl_ranges (iter regex_expr) text 0 offsets []
      else Inl Failed_to_process_regex)"

section \<open>Collapsing categories to single bytes\<close>

definition k_ucat_enum :: "(bytes \<times> cpt_flags) list" where
  "k_ucat_enum = [(lit ''~p{N}'', NUMBER), (lit ''~p{L}'', LETTER), (lit ''~p{P}'', PUNCTUATION),
     (lit ''~p{M}'', ACCENT_MARK), (lit ''~p{S}'', SYMBOL)]"

definition k_ucat_cpt :: "(cpt_flags \<times> byte) list" where
  "k_ucat_cpt = [(NUMBER, 0xD1), (LETTER, 0xD2), (PUNCTUATION, 0xD3), (ACCENT_MARK, 0xD4), (SYMBOL, 0xD5)]"

definition k_ucat_map :: "(cpt_flags \<times> bytes) list" where
  "k_ucat_map =
     [(NUMBER, [0x30, 0x2D, 0x39]),
      (LETTER, [0x41, 0x2D, 0x5A, 0x61, 0x2D, 0x7A]),
      (PUNCTUATION, [0x21, 0x2D, 0x23, 0x25, 0x2D, 0x2A, 0x2C, 0x2D, 0x2F, 0x3A, 0x2D, 0x3B,
         0x3F, 0x2D, 0x40, 0x5C, 0x5B, 0x2D, 0x5C, 0x5D, 0x5F, 0x5C, 0x7B, 0x5C, 0x7D]),
      (ACCENT_MARK, []),
      (SYMBOL, [0x5C, 0x24, 0x5C, 0x2B, 0x3C, 0x2D, 0x3E, 0x5E, 0x60, 0x5C, 0x7C])]"

fun contains :: "bytes \<Rightarrow> bytes \<Rightarrow> bool" where
  "contains pat [] = (pat = [])"
| "contains pat (c # s) = (take (length pat) (c # s) = pat \<or> contains pat s)"

definition uses_category :: "bytes \<Rightarrow> bool" where
  "uses_category regex_expr \<longleftrightarrow> (\<exists>ucat \<in> set k_ucat_enum. contains (fst ucat) regex_expr)"

definition collapse_cpt :: "unicode_tables \<Rightarrow> cpt \<Rightarrow> byte" where
  "collapse_cpt T c =
     (if c < 128 then ucast c
      else let flags = unicode_cpt_flags_from_cpt T c in
        if is_whitespace flags then 0x0B
        else case map_of k_ucat_cpt (category_flag flags) of Some b \<Rightarrow> b | None \<Rightarrow> 0xD0)"

text \<open>The pattern rewritten for collapsed text, byte \<open>i\<close> on, inside or outside of brackets.\<close>

function collapse_regex :: "bytes \<Rightarrow> nat \<Rightarrow> bool \<Rightarrow> bytes" where
  "collapse_regex r i inside =
     (if i < length r then
        if r ! i = 0x5B \<and> (i = 0 \<or> r ! (i - 1) \<noteq> 0x5C) then 0x5B # collapse_regex r (i + 1) True
        else if inside \<and> r ! i = 0x5D \<and> r ! (i - 1) \<noteq> 0x5C then 0x5D # collapse_regex r (i + 1) False
        else if r ! i = 0x5C \<and> i + 4 < length r \<and> r ! (i + 1) = 0x70 \<and> r ! (i + 2) = 0x7B \<and>
                r ! (i + 4) = 0x7D \<and> map_of k_ucat_enum (take 5 (drop i r)) \<noteq> None then
          (let cat = the (map_of k_ucat_enum (take 5 (drop i r)));
               body = the (map_of k_ucat_cpt cat) # the (map_of k_ucat_map cat)
           in (if inside then body else [0x5B] @ body @ [0x5D]) @ collapse_regex r (i + 5) inside)
        else r ! i # collapse_regex r (i + 1) inside
      else [])"
  by pat_completeness auto
termination by (relation "measure (\<lambda>(r, i, inside). length r - i)") auto

declare collapse_regex.simps [simp del]

section \<open>The driver\<close>

definition split_with :: "regex_engine \<Rightarrow> unicode_tables \<Rightarrow> bytes \<Rightarrow> bytes \<Rightarrow> nat list \<Rightarrow> unicode_error + nat list" where
  "split_with R T text regex_expr offsets =
     (let cpts = unicode_cpts_from_utf8 text in
      bindE (or_error Assert_failed (unicode_regex_split_custom T text regex_expr offsets)) (\<lambda>tmp.
        if tmp \<noteq> [] then Inr tmp
        else if uses_category regex_expr then
          (if \<exists>c \<in> set (unicode_cpts_from_utf8 regex_expr). c \<ge> 128 then Inl Regex_mixes_categories
           else unicode_regex_split_stl (compile8 R) (iterate8 R) (map (collapse_cpt T) cpts)
                  (collapse_regex regex_expr 0 False) offsets)
        else
          bindE (or_error Conversion_range_error (from_bytes R regex_expr)) (\<lambda>wregex_expr.
            unicode_regex_split_stl (compile32 R) (iterate32 R)
              (map (\<lambda>c. if c > 0x7F \<and> is_whitespace (unicode_cpt_flags_from_cpt T c) then 0x0B else c) cpts)
              wregex_expr offsets)))"

fun cut_words :: "cpt list \<Rightarrow> nat \<Rightarrow> nat list \<Rightarrow> unicode_error + bytes list" where
  "cut_words cpts start [] = Inr []"
| "cut_words cpts start (offset # offsets) =
     (if start + offset \<le> length cpts then
        bindE (unicode_cpts_to_utf8 (take offset (drop start cpts))) (\<lambda>w.
          bindE (cut_words cpts (start + offset) offsets) (\<lambda>ws. Inr (w # ws)))
      else Inl Assert_failed)"

definition encode_word :: "bytes \<Rightarrow> unicode_error + bytes" where
  "encode_word word =
     bindE (unicode_cpts_to_utf8 (unicode_cpts_from_utf8 word)) (\<lambda>text_utf.
       bindE (traverseE unicode_byte_to_utf8 text_utf) (\<lambda>tokens. Inr (concat tokens)))"

definition unicode_byte_encoding_process :: "bytes list \<Rightarrow> unicode_error + bytes list" where
  "unicode_byte_encoding_process bpe_words = traverseE encode_word bpe_words"

definition unicode_regex_split ::
  "regex_engine \<Rightarrow> unicode_tables \<Rightarrow> bytes \<Rightarrow> bytes list \<Rightarrow> unicode_error + bytes list" where
  "unicode_regex_split R T text regex_exprs =
     (let cpts = unicode_cpts_from_utf8 text in
      bindE (foldE (split_with R T text) regex_exprs [length cpts]) (\<lambda>bpe_offsets.
        bindE (cut_words cpts 0 bpe_offsets) unicode_byte_encoding_process))"

section \<open>The way back\<close>

definition hex_digit :: "nat \<Rightarrow> byte" where
  "hex_digit n = (if n < 10 then of_nat (0x30 + n) else of_nat (0x61 + n - 10))"

definition hex_byte :: "byte \<Rightarrow> bytes" where
  "hex_byte b = [hex_digit (unat b div 16), hex_digit (unat b mod 16)]"

definition decode_cpt :: "bytes \<Rightarrow> cpt \<Rightarrow> unicode_error + bytes" where
  "decode_cpt text c =
     bindE (unicode_cpt_to_utf8 c) (\<lambda>utf8.
       case unicode_utf8_to_byte utf8 of
         Inr b \<Rightarrow> Inr [b]
       | Inl _ \<Rightarrow> Inr (lit ''[UNK_BYTE_0x'' @ concat (map hex_byte utf8) @ text @ lit '']''))"

definition llama_decode_text :: "bytes \<Rightarrow> unicode_error + bytes" where
  "llama_decode_text text =
     bindE (traverseE (decode_cpt text) (unicode_cpts_from_utf8 text)) (\<lambda>parts. Inr (concat parts))"


section \<open>Cuts keep the text complete\<close>

text \<open>
  What the code relies on of \<open>std::regex_iterator\<close>: the matches come in order, do not overlap and
  lie in the range searched.
\<close>

fun well_placed :: "nat \<Rightarrow> nat \<Rightarrow> (nat \<times> nat) list \<Rightarrow> bool" where
  "well_placed start n [] = (start \<le> n)"
| "well_placed start n ((p, l) # ms) = (start \<le> p \<and> well_placed (p + l) n ms)"

definition engine_ok :: "regex_engine \<Rightarrow> bool" where
  "engine_ok R \<longleftrightarrow>
     (\<forall>e s ms. iterate8 R e s = Some ms \<longrightarrow> well_placed 0 (length s) ms) \<and>
     (\<forall>e s ms. iterate32 R e s = Some ms \<longrightarrow> well_placed 0 (length s) ms)"

lemma emit_matches_ok:
  assumes "well_placed start n ms"
  shows "\<exists>stop toks. emit_matches start ms out = (stop, out @ toks) \<and> start \<le> stop \<and> stop \<le> n \<and>
           sum_list toks = stop - start"
  using assms
proof (induction start ms out rule: emit_matches.induct)
  case (2 start p l ms out)
  then obtain stop toks where
    "emit_matches (p + l) ms (out @ (if p > start then [p - start] else []) @ [l]) =
       (stop, (out @ (if p > start then [p - start] else []) @ [l]) @ toks)"
    "p + l \<le> stop" "stop \<le> n" "sum_list toks = stop - (p + l)" by fastforce
  with 2 show ?case
    by (auto intro!: exI[of _ "(if start < p then [p - start] else []) @ [l] @ toks"])
qed auto

lemma stl_ranges_sum:
  assumes "stl_ranges iter w start offsets out = Inr out'"
    and "\<And>s ms. iter s = Some ms \<Longrightarrow> well_placed 0 (length s) ms"
  shows "sum_list out' = sum_list out + sum_list offsets"
  using assms
proof (induction iter w start offsets out rule: stl_ranges.induct)
  case (2 iter w start offset offsets out)
  from "2.prems"(1) have le: "start + offset \<le> length w" by (auto split: if_splits)
  with "2.prems"(1) obtain ms where ms: "iter (take offset (drop start w)) = Some ms"
    by (auto split: if_splits)
  moreover obtain stop toks where m: "emit_matches 0 ms out = (stop, out @ toks)" "stop \<le> offset" "sum_list toks = stop"
    using emit_matches_ok[OF "2.prems"(2)[OF ms], of out] le by auto
  ultimately show ?case
    using "2.prems"(1) "2.IH"[OF le refl m(1)[symmetric] refl _ "2.prems"(2)] ms m le
    by (cases "stop < offset") (auto simp: Let_def)
qed simp

lemma split_stl_sum:
  assumes "unicode_regex_split_stl c iter w e offsets = Inr offsets'"
    and "\<And>s ms. iter e s = Some ms \<Longrightarrow> well_placed 0 (length s) ms"
  shows "sum_list offsets' = sum_list offsets"
  using assms stl_ranges_sum[of "iter e" w 0 offsets "[]" offsets']
  by (auto simp: unicode_regex_split_stl_def split: if_splits)

lemma custom_sum:
  assumes "unicode_regex_split_custom T text e offsets = Some tmp" "tmp \<noteq> []"
    and "sum_list offsets \<le> length (unicode_cpts_from_utf8 text)"
  shows "sum_list tmp = sum_list offsets"
proof -
  let ?c = "unicode_cpts_from_utf8 text"
  have le: "0 + sum_list offsets \<le> length ?c" using assms(3) by simp
  note total = gpt2.ranges_total[OF le, of T "[]"] llama3.ranges_total[OF le, of T "[]"]
    kimi_k2.ranges_total[OF le, of T "[]"] afmoe.ranges_total[OF le, of T "[]"]
  have "sum_list (concat parts) = sum_list (map sum_list parts)" for parts :: "nat list list"
    by (induction parts) auto
  with total assms(1,2) show ?thesis
    by (auto simp: unicode_regex_split_custom_def unicode_regex_split_custom_gpt2_def
        unicode_regex_split_custom_llama3_def unicode_regex_split_custom_kimi_k2_def
        unicode_regex_split_custom_afmoe_def split: if_splits)
qed

lemma custom_total:
  assumes "sum_list offsets \<le> length (unicode_cpts_from_utf8 text)"
  shows "\<exists>tmp. unicode_regex_split_custom T text e offsets = Some tmp"
proof -
  let ?c = "unicode_cpts_from_utf8 text"
  have le: "0 + sum_list offsets \<le> length ?c" using assms by simp
  note total = gpt2.ranges_total[OF le, of T "[]"] llama3.ranges_total[OF le, of T "[]"]
    kimi_k2.ranges_total[OF le, of T "[]"] afmoe.ranges_total[OF le, of T "[]"]
  then show ?thesis
    by (auto simp: unicode_regex_split_custom_def unicode_regex_split_custom_gpt2_def
        unicode_regex_split_custom_llama3_def unicode_regex_split_custom_kimi_k2_def
        unicode_regex_split_custom_afmoe_def)
qed

lemma split_with_sum:
  assumes "split_with R T text e offsets = Inr offsets'" "engine_ok R"
    and "sum_list offsets = length (unicode_cpts_from_utf8 text)"
  shows "sum_list offsets' = length (unicode_cpts_from_utf8 text)"
proof -
  let ?c = "unicode_cpts_from_utf8 text"
  obtain tmp where tmp: "unicode_regex_split_custom T text e offsets = Some tmp"
    using custom_total assms(3) by (metis order.refl)
  show ?thesis
  proof (cases "tmp = []")
    case False
    with tmp assms custom_sum[OF tmp False] show ?thesis by (auto simp: split_with_def)
  next
    case True
    from assms(2) have ok: "iterate8 R e' s = Some ms \<Longrightarrow> well_placed 0 (length s) ms"
      "iterate32 R e'' s' = Some ms' \<Longrightarrow> well_placed 0 (length s') ms'" for e' s ms e'' s' ms'
      by (auto simp: engine_ok_def)
    show ?thesis
    proof (cases "uses_category e")
      case cat: True
      have "unicode_regex_split_stl (compile8 R) (iterate8 R)
          (map (collapse_cpt T) ?c) (collapse_regex e 0 False) offsets = Inr offsets'"
        using assms(1) unfolding split_with_def Let_def tmp True if_P[OF cat]
        by (simp split: if_splits)
      from split_stl_sum[OF this ok(1)] assms(3) show ?thesis by simp
    next
      case cat: False
      obtain e' w where "unicode_regex_split_stl (compile32 R) (iterate32 R) w e' offsets = Inr offsets'"
        using assms(1) unfolding split_with_def Let_def tmp True if_not_P[OF cat] by auto
      from split_stl_sum[OF this ok(2)] assms(3) show ?thesis by simp
    qed
  qed
qed

section \<open>Words and their encoding\<close>

lemma cpts_to_utf8_append:
  "unicode_cpts_to_utf8 (xs @ ys) =
     bindE (unicode_cpts_to_utf8 xs) (\<lambda>a. bindE (unicode_cpts_to_utf8 ys) (\<lambda>b. Inr (a @ b)))"
proof (induction xs)
  case Nil
  then show ?case by (cases "unicode_cpts_to_utf8 ys") auto
next
  case (Cons x xs)
  then show ?case
    by (cases "unicode_cpt_to_utf8 x"; cases "unicode_cpts_to_utf8 xs"; cases "unicode_cpts_to_utf8 ys") auto
qed

lemma cut_words_ok:
  assumes "unicode_cpts_to_utf8 (drop start cpts) = Inr bs" "start + sum_list offsets = length cpts"
  shows "\<exists>ws. cut_words cpts start offsets = Inr ws \<and> concat ws = bs \<and>
           (\<forall>w \<in> set ws. \<exists>cs. unicode_cpts_to_utf8 cs = Inr w)"
  using assms
proof (induction offsets arbitrary: start bs)
  case (Cons n ns)
  have "drop start cpts = take n (drop start cpts) @ drop (start + n) cpts"
    by (metis append_take_drop_id drop_drop add.commute)
  with Cons.prems(1) obtain a b where ab: "unicode_cpts_to_utf8 (take n (drop start cpts)) = Inr a"
    "unicode_cpts_to_utf8 (drop (start + n) cpts) = Inr b" "bs = a @ b"
    using cpts_to_utf8_append[of "take n (drop start cpts)" "drop (start + n) cpts"] by auto
  from Cons.IH[OF ab(2)] Cons.prems(2) obtain ws where "cut_words cpts (start + n) ns = Inr ws"
    "concat ws = b" "\<forall>w \<in> set ws. \<exists>cs. unicode_cpts_to_utf8 cs = Inr w" by auto
  with ab Cons.prems(2) show ?case by auto
qed simp

lemma cut_words_error:
  assumes "unicode_cpts_to_utf8 (drop start cpts) = Inl e" "start + sum_list offsets = length cpts"
  shows "\<exists>e'. cut_words cpts start offsets = Inl e'"
  using assms
proof (induction offsets arbitrary: start)
  case (Cons n ns)
  have "drop start cpts = take n (drop start cpts) @ drop (start + n) cpts"
    by (metis append_take_drop_id drop_drop add.commute)
  with Cons.prems(1) consider
      e' where "unicode_cpts_to_utf8 (take n (drop start cpts)) = Inl e'"
    | a where "unicode_cpts_to_utf8 (take n (drop start cpts)) = Inr a"
        "unicode_cpts_to_utf8 (drop (start + n) cpts) = Inl e"
    using cpts_to_utf8_append[of "take n (drop start cpts)" "drop (start + n) cpts"]
    by (cases "unicode_cpts_to_utf8 (take n (drop start cpts))";
        cases "unicode_cpts_to_utf8 (drop (start + n) cpts)") auto
  then show ?case
  proof cases
    case 2
    then show ?thesis using Cons.IH[OF 2(2)] Cons.prems(2) by auto
  qed (use Cons.prems(2) in auto)
qed simp

lemma bytes_encoded:
  "\<exists>ts cs. traverseE unicode_byte_to_utf8 bs = Inr ts \<and> unicode_cpts_to_utf8 cs = Inr (concat ts) \<and>
     traverseE (decode_cpt text) cs = Inr (map (\<lambda>b. [b]) bs)"
proof (induction bs)
  case (Cons b bs)
  then obtain ts cs where 1: "traverseE unicode_byte_to_utf8 bs = Inr ts"
    "unicode_cpts_to_utf8 cs = Inr (concat ts)" "traverseE (decode_cpt text) cs = Inr (map (\<lambda>b. [b]) bs)"
    by blast
  obtain s c where 2: "unicode_byte_to_utf8 b = Inr s" "unicode_utf8_to_byte s = Inr b"
    "unicode_cpt_to_utf8 c = Inr s" using byte_alphabet[of b] by blast
  have "traverseE unicode_byte_to_utf8 (b # bs) = Inr (s # ts) \<and>
      unicode_cpts_to_utf8 (c # cs) = Inr (concat (s # ts)) \<and>
      traverseE (decode_cpt text) (c # cs) = Inr (map (\<lambda>b. [b]) (b # bs))"
    using 1 2 by (simp add: decode_cpt_def)
  then show ?case by blast
qed (auto intro: exI[of _ "[]"])

lemma concat_singletons [simp]: "concat (map (\<lambda>b. [b]) bs) = bs"
  by (induction bs) auto

lemma encode_word_ok:
  assumes "unicode_cpts_to_utf8 cs = Inr w"
  shows "\<exists>t. encode_word w = Inr t \<and> llama_decode_text t = Inr w"
proof -
  obtain ts0 cs0 where t0: "traverseE unicode_byte_to_utf8 w = Inr ts0"
    using bytes_encoded by blast
  from bytes_encoded[of w "concat ts0"] t0 obtain cs' where
    c: "unicode_cpts_to_utf8 cs' = Inr (concat ts0)"
    "traverseE (decode_cpt (concat ts0)) cs' = Inr (map (\<lambda>b. [b]) w)" by auto
  have "encode_word w = Inr (concat ts0)"
    using assms t0 by (simp add: encode_word_def unicode_cpts_roundtrip[OF assms])
  moreover have "llama_decode_text (concat ts0) = Inr w"
    using c(2) by (simp add: llama_decode_text_def unicode_cpts_roundtrip[OF c(1)])
  ultimately show ?thesis by blast
qed

lemma encode_words_ok:
  assumes "\<forall>w \<in> set ws. \<exists>cs. unicode_cpts_to_utf8 cs = Inr w"
  shows "\<exists>ts. unicode_byte_encoding_process ws = Inr ts \<and> traverseE llama_decode_text ts = Inr ws"
  using assms
proof (induction ws)
  case (Cons w ws)
  then obtain ts where "unicode_byte_encoding_process ws = Inr ts" "traverseE llama_decode_text ts = Inr ws"
    by auto
  moreover obtain t where "encode_word w = Inr t" "llama_decode_text t = Inr w"
    using Cons.prems encode_word_ok by (meson list.set_intros(1))
  ultimately show ?case by (auto simp: unicode_byte_encoding_process_def)
qed (simp add: unicode_byte_encoding_process_def)

lemma regex_split_of_offsets:
  assumes "foldE (split_with R T text) es [length (unicode_cpts_from_utf8 text)] = Inr offsets"
    and "sum_list offsets = length (unicode_cpts_from_utf8 text)"
    and "unicode_cpts_to_utf8 (unicode_cpts_from_utf8 text) = Inr bs"
  shows "\<exists>ts ws. unicode_regex_split R T text es = Inr ts \<and>
           traverseE llama_decode_text ts = Inr ws \<and> concat ws = bs"
proof -
  obtain ws where w: "cut_words (unicode_cpts_from_utf8 text) 0 offsets = Inr ws" "concat ws = bs"
    "\<forall>w \<in> set ws. \<exists>cs. unicode_cpts_to_utf8 cs = Inr w"
    using cut_words_ok[of 0 "unicode_cpts_from_utf8 text" bs offsets] assms(2,3) by auto
  with encode_words_ok[OF w(3)] assms(1) show ?thesis
    by (auto simp: unicode_regex_split_def Let_def)
qed

text \<open>Every pattern with a splitter of its own refines the cut, without the engine.\<close>

lemma custom_nonempty:
  assumes "e \<in> {regex_gpt2, regex_llama3, regex_llama3_bpe, regex_han, regex_afmoe}"
    and "sum_list offsets = length (unicode_cpts_from_utf8 text)" "unicode_cpts_from_utf8 text \<noteq> []"
  shows "\<exists>tmp. unicode_regex_split_custom T text e offsets = Some tmp \<and> tmp \<noteq> []"
proof -
  let ?c = "unicode_cpts_from_utf8 text"
  have le: "0 + sum_list offsets \<le> length ?c" and pos: "sum_list offsets \<noteq> 0" using assms by simp_all
  have sum: "sum_list (concat parts) = sum_list (map sum_list parts)" for parts :: "nat list list"
    by (induction parts) auto
  note total = gpt2.ranges_total[OF le, of T "[]"] llama3.ranges_total[OF le, of T "[]"]
    kimi_k2.ranges_total[OF le, of T "[]"] afmoe.ranges_total[OF le, of T "[]"]
  have ne: "\<exists>tmp. f = Some tmp \<and> tmp \<noteq> []"
    if "\<exists>parts. f = Some ([] @ concat parts) \<and> map sum_list parts = offsets \<and> P parts" for f P
    using that sum pos by (metis append_Nil sum_list.Nil)
  show ?thesis
    using total[THEN ne] assms(1)
    by (auto simp: unicode_regex_split_custom_def unicode_regex_split_custom_gpt2_def
        unicode_regex_split_custom_llama3_def unicode_regex_split_custom_kimi_k2_def
        unicode_regex_split_custom_afmoe_def simp del: append_Nil)
qed

lemma custom_fold:
  assumes "set es \<subseteq> {regex_gpt2, regex_llama3, regex_llama3_bpe, regex_han, regex_afmoe}"
    and "sum_list offsets = length (unicode_cpts_from_utf8 text)" "unicode_cpts_from_utf8 text \<noteq> []"
  shows "\<exists>offsets'. foldE (split_with R T text) es offsets = Inr offsets' \<and>
           sum_list offsets' = length (unicode_cpts_from_utf8 text)"
  using assms
proof (induction es arbitrary: offsets)
  case (Cons e es)
  obtain tmp where tmp: "unicode_regex_split_custom T text e offsets = Some tmp" "tmp \<noteq> []"
    using custom_nonempty[of e offsets "text" T] Cons.prems by auto
  have "split_with R T text e offsets = Inr tmp" using tmp by (simp add: split_with_def)
  moreover have "sum_list tmp = length (unicode_cpts_from_utf8 text)"
    using custom_sum[OF tmp] Cons.prems(2) by simp
  ultimately show ?case using Cons by auto
qed simp

end
