(* ===== verification/TextProps.thy ===== *)
theory TextProps
  imports RegexSplit
begin

text \<open>
  The properties of the text layer (\<open>src/unicode.cpp\<close>): the encoder and decoder of UTF-8, the byte-level
  alphabet, and the splitting of a text into the words of the tokenizer. Each property is followed by a
  witness at a concrete input where it has a hypothesis.
\<close>

section \<open>UTF-8\<close>

text \<open>C36: a string of code points survives encoding and decoding.\<close>

theorem utf8_roundtrip: "unicode_cpts_to_utf8 cs = Inr bs \<Longrightarrow> unicode_cpts_from_utf8 bs = cs"
  by (rule unicode_cpts_roundtrip)

theorem utf8_roundtrip_witness: "unicode_cpts_from_utf8 [0x68, 0xC3, 0xA9, 0xF0, 0x9F, 0x98, 0x80] = [0x68, 0xE9, 0x1F600]"
proof -
  have "unicode_cpts_to_utf8 [0x68, 0xE9, 0x1F600] = Inr [0x68, 0xC3, 0xA9, 0xF0, 0x9F, 0x98, 0x80]" by code_simp
  then show ?thesis by (rule utf8_roundtrip)
qed

text \<open>The byte-level alphabet is a bijection onto its image: every byte has a printable UTF-8 name that maps back to it.\<close>

theorem byte_alphabet_roundtrip: "\<exists>s. unicode_byte_to_utf8 b = Inr s \<and> unicode_utf8_to_byte s = Inr b"
  using byte_alphabet[of b] by blast

section \<open>Splitting\<close>

text \<open>C35: every built-in splitter ends, and cuts each range into positive lengths that sum up to it.\<close>

theorem splitters_partition:
  fixes offsets :: "nat list" and "text" :: bytes
  assumes "sum_list offsets \<le> length (unicode_cpts_from_utf8 text)"
    and "f \<in> {unicode_regex_split_custom_gpt2, unicode_regex_split_custom_llama3,
           unicode_regex_split_custom_kimi_k2, unicode_regex_split_custom_afmoe}"
  shows "\<exists>parts. f T text offsets = Some (concat parts) \<and> map sum_list parts = offsets \<and> (\<forall>p \<in> set parts. 0 \<notin> set p)"
proof -
  have le: "0 + sum_list offsets \<le> length (unicode_cpts_from_utf8 text)" using assms(1) by simp
  show ?thesis
    using assms(2) gpt2.ranges_total[OF le, of T "[]"] llama3.ranges_total[OF le, of T "[]"]
      kimi_k2.ranges_total[OF le, of T "[]"] afmoe.ranges_total[OF le, of T "[]"]
    by (auto simp: unicode_regex_split_custom_gpt2_def unicode_regex_split_custom_llama3_def
        unicode_regex_split_custom_kimi_k2_def unicode_regex_split_custom_afmoe_def)
qed

definition sample_tables :: unicode_tables where
  "sample_tables = \<lparr>ranges_flags = [(0, 0x80), (0x20, 0x108), (0x21, 0x20), (0x30, 0x2), (0x3A, 0x20), (0x41, 0x4), (0x7B, 0x20), (0x110000, 0)],
     set_whitespace = [0x20], map_lowercase = [], map_uppercase = [], ranges_nfd = []\<rparr>"

theorem splitters_partition_witness:
  "\<exists>parts. unicode_regex_split_custom_gpt2 sample_tables [0x61, 0x62, 0x20, 0x31] [4] = Some (concat parts) \<and>
     map sum_list parts = [4] \<and> (\<forall>p \<in> set parts. 0 \<notin> set p)"
proof -
  have "unicode_cpts_from_utf8 [0x61, 0x62, 0x20, 0x31] = [0x61, 0x62, 0x20, 0x31]" by code_simp
  then have "sum_list [4] \<le> length (unicode_cpts_from_utf8 [0x61, 0x62, 0x20, 0x31])" by simp
  from splitters_partition[OF this, of unicode_regex_split_custom_gpt2 sample_tables] show ?thesis by blast
qed

text \<open>
  C34: the words of \<open>unicode_regex_split\<close>, for any list of the built-in patterns and a nonempty text that encodes
  code points, decode to the text: no byte is lost, added or moved.
\<close>

theorem regex_split_lossless:
  assumes "set es \<subseteq> {regex_gpt2, regex_llama3, regex_llama3_bpe, regex_han, regex_afmoe}"
    and "unicode_cpts_to_utf8 cs = Inr bs" "cs \<noteq> []"
  shows "\<exists>words decoded. unicode_regex_split R T bs es = Inr words \<and>
           traverseE llama_decode_text words = Inr decoded \<and> concat decoded = bs"
proof -
  have cs: "unicode_cpts_from_utf8 bs = cs" by (rule unicode_cpts_roundtrip[OF assms(2)])
  obtain offsets where "foldE (split_with R T bs) es [length cs] = Inr offsets" "sum_list offsets = length cs"
    using custom_fold[OF assms(1), of "[length cs]" bs R T] assms(3) by (auto simp: cs)
  then show ?thesis
    using regex_split_of_offsets[of R T bs es offsets bs] assms(2) by (simp add: cs)
qed

theorem regex_split_lossless_witness:
  "\<forall>R. \<exists>words decoded. unicode_regex_split R sample_tables [0x61, 0x62, 0x20, 0x31, 0xC3, 0xA9] [regex_afmoe, regex_gpt2] = Inr words \<and>
     traverseE llama_decode_text words = Inr decoded \<and> concat decoded = [0x61, 0x62, 0x20, 0x31, 0xC3, 0xA9]"
proof -
  have "unicode_cpts_to_utf8 [0x61, 0x62, 0x20, 0x31, 0xE9] = Inr [0x61, 0x62, 0x20, 0x31, 0xC3, 0xA9]" by code_simp
  from regex_split_lossless[OF _ this, of "[regex_afmoe, regex_gpt2]"] show ?thesis by simp
qed

text \<open>
  Invalid UTF-8 does leak an exception: the four bytes F4 90 80 80 decode to the code point
  0x110000, which the encoder refuses when the words are cut, for every engine and every list of patterns
  that the split itself survives.
\<close>

theorem regex_split_throws:
  assumes "foldE (split_with R T [0xF4, 0x90, 0x80, 0x80]) es [1] = Inr offsets" "sum_list offsets = 1"
  shows "\<exists>e. unicode_regex_split R T [0xF4, 0x90, 0x80, 0x80] es = Inl e"
proof -
  have c: "unicode_cpts_from_utf8 [0xF4, 0x90, 0x80, 0x80] = [0x110000]" by code_simp
  have "unicode_cpts_to_utf8 [0x110000] = Inl Invalid_codepoint" by code_simp
  then obtain e where "cut_words [0x110000] 0 offsets = Inl e"
    using cut_words_error[of 0 "[0x110000]" _ offsets] assms(2) by auto
  with assms(1) show ?thesis by (simp add: unicode_regex_split_def c Let_def)
qed

theorem regex_split_throws_witness: "\<forall>R T. \<exists>e. unicode_regex_split R T [0xF4, 0x90, 0x80, 0x80] [] = Inl e"
  using regex_split_throws[of _ _ "[]" "[1]"] by simp

end
