(* ===== verification/OrdCols.thy ===== *)
theory OrdCols
  imports Prelude
begin

text \<open>
  The ordered containers of the C++ library that the cache keeps its bookkeeping in. A
  \<open>std::set\<close> of numbers is the sorted list of its elements, a \<open>std::map<llama_pos, int>\<close> the list of
  its entries sorted by key, so that \<open>begin()\<close> is the head and \<open>rbegin()\<close> the last entry. The
  counted map is used through the interface \<open>count_map\<close>: it tracks a multiset of positions.
\<close>

section \<open>std::set\<close>

definition oset_insert :: "'a::linorder \<Rightarrow> 'a list \<Rightarrow> 'a list" where
  "oset_insert x xs = (if x \<in> set xs then xs else insort x xs)"

definition oset_erase :: "'a::linorder \<Rightarrow> 'a list \<Rightarrow> 'a list" where
  "oset_erase x xs = remove1 x xs"

lemma oset_insert_sorted_list [ord_simps]:
  "finite A \<Longrightarrow> oset_insert x (sorted_list_of_set A) = sorted_list_of_set (insert x A)"
  by (cases "x \<in> A") (simp_all add: oset_insert_def insert_absorb)

lemma oset_erase_sorted_list [ord_simps]:
  "finite A \<Longrightarrow> oset_erase x (sorted_list_of_set A) = sorted_list_of_set (A - {x})"
  by (simp add: oset_erase_def sorted_list_of_set_remove)

lemma hd_sorted_list [ord_simps]:
  "finite A \<Longrightarrow> A \<noteq> {} \<Longrightarrow> hd (sorted_list_of_set A) = Min A"
  by (metis list.sel(1) sorted_list_of_set_nonempty)

lemma last_sorted:
  fixes xs :: "'a::linorder list"
  shows "sorted xs \<Longrightarrow> xs \<noteq> [] \<Longrightarrow> last xs = Max (set xs)"
proof (induction xs)
  case (Cons x xs)
  then show ?case
    by (cases "xs = []") (auto simp: max_def intro: order.antisym)
qed simp

lemma last_sorted_list [ord_simps]:
  fixes A :: "'a::linorder set"
  assumes "finite A" "A \<noteq> {}"
  shows "last (sorted_list_of_set A) = Max A"
  using last_sorted[OF sorted_sorted_list_of_set, of A] assms by simp

section \<open>std::map from positions to counts\<close>

type_synonym pos_map = "(llama_pos \<times> int) list"

fun pm_get :: "pos_map \<Rightarrow> llama_pos \<Rightarrow> int" where
  "pm_get [] p = 0"
| "pm_get ((q, k) # m) p = (if q = p then k else pm_get m p)"

text \<open>\<open>m[p]++\<close>: a missing key starts at zero.\<close>

fun pm_inc :: "llama_pos \<Rightarrow> pos_map \<Rightarrow> pos_map" where
  "pm_inc p [] = [(p, 1)]"
| "pm_inc p ((q, k) # m) =
     (if p < q then (p, 1) # (q, k) # m
      else if p = q then (q, k + 1) # m
      else (q, k) # pm_inc p m)"

text \<open>
  \<open>find\<close>, the assertion that the key is present, \<open>--it->second\<close> and \<open>erase\<close> when the count reaches
  zero.
\<close>

fun pm_dec :: "llama_pos \<Rightarrow> pos_map \<Rightarrow> pos_map option" where
  "pm_dec p [] = None"
| "pm_dec p ((q, k) # m) =
     (if p = q then Some (if k - 1 = 0 then m else (q, k - 1) # m)
      else map_option ((#) (q, k)) (pm_dec p m))"

definition pm_first :: "pos_map \<Rightarrow> llama_pos option" where
  "pm_first m = (case m of [] \<Rightarrow> None | e # _ \<Rightarrow> Some (fst e))"

definition pm_last :: "pos_map \<Rightarrow> llama_pos option" where
  "pm_last m = (if m = [] then None else Some (fst (last m)))"

definition pm_inv :: "pos_map \<Rightarrow> bool" where
  "pm_inv m \<longleftrightarrow> sorted_wrt (<) (map fst m) \<and> (\<forall>e \<in> set m. 0 < snd e)"

subsection \<open>The interface\<close>

text \<open>A map tracks a multiset when it holds, for every position, the number of its occurrences.\<close>

definition tracks :: "('m \<Rightarrow> llama_pos \<Rightarrow> int) \<Rightarrow> ('m \<Rightarrow> bool) \<Rightarrow> 'm \<Rightarrow> llama_pos multiset \<Rightarrow> bool" where
  "tracks get ok m M \<longleftrightarrow> ok m \<and> (\<forall>p. get m p = int (count M p))"

locale count_map =
  fixes get :: "'m \<Rightarrow> llama_pos \<Rightarrow> int"
    and ok :: "'m \<Rightarrow> bool"
    and empty :: "'m"
    and inc :: "llama_pos \<Rightarrow> 'm \<Rightarrow> 'm"
    and dec :: "llama_pos \<Rightarrow> 'm \<Rightarrow> 'm option"
    and first :: "'m \<Rightarrow> llama_pos option"
    and final :: "'m \<Rightarrow> llama_pos option"
  assumes ok_empty: "ok empty" and get_empty: "get empty p = 0"
    and inv_inc: "ok m \<Longrightarrow> ok (inc p m)"
    and get_inc: "ok m \<Longrightarrow> get (inc p m) q = get m q + (if p = q then 1 else 0)"
    and dec_None: "ok m \<Longrightarrow> dec p m = None \<longleftrightarrow> get m p = 0"
    and inv_dec: "ok m \<Longrightarrow> dec p m = Some m' \<Longrightarrow> ok m'"
    and get_dec: "ok m \<Longrightarrow> dec p m = Some m' \<Longrightarrow> get m' q = get m q - (if p = q then 1 else 0)"
    and first_None: "ok m \<Longrightarrow> first m = None \<longleftrightarrow> (\<forall>q. get m q = 0)"
    and first_Some: "ok m \<Longrightarrow> first m = Some p \<Longrightarrow> 0 < get m p \<and> (\<forall>q. 0 < get m q \<longrightarrow> p \<le> q)"
    and final_None: "ok m \<Longrightarrow> final m = None \<longleftrightarrow> (\<forall>q. get m q = 0)"
    and final_Some: "ok m \<Longrightarrow> final m = Some p \<Longrightarrow> 0 < get m p \<and> (\<forall>q. 0 < get m q \<longrightarrow> q \<le> p)"
    and get_inject: "ok m \<Longrightarrow> ok m' \<Longrightarrow> (\<And>q. get m q = get m' q) \<Longrightarrow> m = m'"
begin

lemma tracks_empty: "tracks get ok empty {#}"
  by (simp add: tracks_def ok_empty get_empty)

lemma tracks_inc: "tracks get ok m M \<Longrightarrow> tracks get ok (inc p m) (add_mset p M)"
  by (auto simp: tracks_def inv_inc get_inc)

lemma tracks_dec:
  assumes "tracks get ok m M" "p \<in># M"
  shows "\<exists>m'. dec p m = Some m' \<and> tracks get ok m' (M - {#p#})"
proof -
  from assms have i: "ok m" and g: "\<And>q. get m q = int (count M q)" and "0 < count M p"
    by (auto simp: tracks_def)
  then obtain m' where m': "dec p m = Some m'"
    using dec_None[OF i, of p] by (cases "dec p m") (auto simp: count_eq_zero_iff)
  then have "tracks get ok m' (M - {#p#})"
    using inv_dec[OF i m'] get_dec[OF i m'] g \<open>0 < count M p\<close>
    by (auto simp: tracks_def of_nat_diff)
  with m' show ?thesis by blast
qed

lemma tracks_dec_absent: "tracks get ok m M \<Longrightarrow> p \<notin># M \<Longrightarrow> dec p m = None"
  by (simp add: tracks_def dec_None not_in_iff)

lemma tracks_first_None: "tracks get ok m {#} \<Longrightarrow> first m = None"
  by (simp add: tracks_def first_None)

lemma tracks_final_None: "tracks get ok m {#} \<Longrightarrow> final m = None"
  by (simp add: tracks_def final_None)

lemma tracks_first:
  assumes "tracks get ok m M" "M \<noteq> {#}"
  shows "first m = Some (Min (set_mset M))"
proof -
  from assms have i: "ok m" and g: "\<And>q. 0 < get m q \<longleftrightarrow> q \<in># M"
    by (auto simp: tracks_def)
  from assms g obtain q where "0 < get m q" by (meson multiset_nonemptyE)
  then obtain p where p: "first m = Some p" using first_None[OF i] by (cases "first m") auto
  then show ?thesis using first_Some[OF i p] g by (auto intro!: Min_eqI[symmetric])
qed

lemma tracks_final:
  assumes "tracks get ok m M" "M \<noteq> {#}"
  shows "final m = Some (Max (set_mset M))"
proof -
  from assms have i: "ok m" and g: "\<And>q. 0 < get m q \<longleftrightarrow> q \<in># M"
    by (auto simp: tracks_def)
  from assms g obtain q where "0 < get m q" by (meson multiset_nonemptyE)
  then obtain p where p: "final m = Some p" using final_None[OF i] by (cases "final m") auto
  then show ?thesis using final_Some[OF i p] g by (auto intro!: Max_eqI[symmetric])
qed

lemma tracks_unique: "tracks get ok m M \<Longrightarrow> tracks get ok m' M \<Longrightarrow> m = m'"
  by (rule get_inject) (auto simp: tracks_def)

end

subsection \<open>The sorted list implements it\<close>

lemma pm_get_nonneg: "pm_inv m \<Longrightarrow> 0 \<le> pm_get m p"
  by (induction m p rule: pm_get.induct) (auto simp: pm_inv_def)

lemma pm_get_pos_iff: "pm_inv m \<Longrightarrow> 0 < pm_get m p \<longleftrightarrow> p \<in> fst ` set m"
  by (induction m p rule: pm_get.induct) (auto simp: pm_inv_def)

lemma pm_get_absent: "p \<notin> fst ` set m \<Longrightarrow> pm_get m p = 0"
  by (induction m p rule: pm_get.induct) auto

lemma fst_pm_inc: "fst ` set (pm_inc p m) = insert p (fst ` set m)"
  by (induction p m rule: pm_inc.induct) auto

lemma pm_inv_Cons: "pm_inv ((q, k) # m) \<longleftrightarrow> 0 < k \<and> (\<forall>r \<in> fst ` set m. q < r) \<and> pm_inv m"
  by (auto simp: pm_inv_def)

lemma pm_inv_inc: "pm_inv m \<Longrightarrow> pm_inv (pm_inc p m)"
  by (induction p m rule: pm_inc.induct) (auto simp: pm_inv_Cons fst_pm_inc pm_inv_def)

lemma pm_get_inc: "pm_inv m \<Longrightarrow> pm_get (pm_inc p m) q = pm_get m q + (if p = q then 1 else 0)"
proof (induction p m rule: pm_inc.induct)
  case (2 p r k m)
  then have "p < r \<Longrightarrow> pm_get m p = 0"
    by (intro pm_get_absent) (auto simp: pm_inv_Cons)
  with 2 show ?case by (auto simp: pm_inv_Cons)
qed simp

lemma pm_dec_None: "pm_inv m \<Longrightarrow> pm_dec p m = None \<longleftrightarrow> pm_get m p = 0"
  by (induction p m rule: pm_dec.induct) (auto simp: pm_inv_Cons)

lemma fst_pm_dec: "pm_dec p m = Some m' \<Longrightarrow> fst ` set m' \<subseteq> fst ` set m"
  by (induction p m arbitrary: m' rule: pm_dec.induct)
    (auto split: if_splits, metis fst_conv image_eqI subsetD)

lemma pm_inv_dec: "pm_inv m \<Longrightarrow> pm_dec p m = Some m' \<Longrightarrow> pm_inv m'"
proof (induction p m arbitrary: m' rule: pm_dec.induct)
  case (2 p q k m)
  then show ?case using fst_pm_dec by (fastforce simp: pm_inv_Cons split: if_splits)
qed simp

lemma pm_get_dec:
  "pm_inv m \<Longrightarrow> pm_dec p m = Some m' \<Longrightarrow> pm_get m' q = pm_get m q - (if p = q then 1 else 0)"
proof (induction p m arbitrary: m' rule: pm_dec.induct)
  case (2 p r k m)
  then have "pm_get m r = 0" by (intro pm_get_absent) (auto simp: pm_inv_Cons)
  with 2 show ?case by (auto simp: pm_inv_Cons split: if_splits)
qed simp

lemma pm_all_zero: "pm_inv m \<Longrightarrow> (\<forall>q. pm_get m q = 0) \<longleftrightarrow> m = []"
  by (cases m) (auto simp: pm_inv_Cons intro: exI[of _ "fst (hd m)"])

lemma pm_last_Some:
  assumes "pm_inv m" "pm_last m = Some p"
  shows "0 < pm_get m p \<and> (\<forall>q. 0 < pm_get m q \<longrightarrow> q \<le> p)"
proof -
  have s: "sorted (map fst m)" "m \<noteq> []" "p = last (map fst m)"
    using assms by (auto simp: pm_inv_def pm_last_def last_map strict_sorted_iff split: if_splits)
  then have "p = Max (fst ` set m)" using last_sorted[of "map fst m"] by simp
  with assms s(2) show ?thesis by (auto simp: pm_get_pos_iff)
qed

lemma pm_inject:
  assumes "pm_inv m" "pm_inv m'" "\<And>q. pm_get m q = pm_get m' q"
  shows "m = m'"
  using assms
proof (induction m arbitrary: m')
  case Nil
  then show ?case using pm_all_zero[of m'] by simp
next
  case (Cons e m)
  obtain q k where e: "e = (q, k)" by force
  obtain q' k' n where m': "m' = (q', k') # n"
    using Cons.prems pm_all_zero[of "e # m"] pm_all_zero[of m'] by (cases m') auto
  have "q \<in> fst ` set m'" "q' \<in> fst ` set (e # m)"
    using Cons.prems pm_get_pos_iff e m' by (metis image_eqI list.set_intros(1) fst_conv)+
  then have q: "q' = q" using Cons.prems(1,2) e m' by (fastforce simp: pm_inv_Cons)
  have k: "k' = k" using Cons.prems(3)[of q] e m' q by simp
  have "q \<notin> fst ` set m" "q \<notin> fst ` set n"
    using Cons.prems(1,2) e m' q by (auto simp: pm_inv_Cons)
  then have "pm_get m r = pm_get n r" for r
    using Cons.prems(3)[of r] e m' q k by (cases "r = q") (simp_all add: pm_get_absent)
  then have "m = n" using Cons.IH[of n] Cons.prems(1,2) e m' by (simp add: pm_inv_Cons)
  with e m' q k show ?case by simp
qed

interpretation pm: count_map pm_get pm_inv "[]" pm_inc pm_dec pm_first pm_last
proof (unfold_locales, goal_cases)
  case (8 m) then show ?case using pm_all_zero[of m] by (auto simp: pm_first_def split: list.splits)
next
  case (9 m p) then show ?case
    by (cases m) (force simp: pm_first_def pm_inv_Cons pm_get_pos_iff)+
next
  case (10 m) then show ?case using pm_all_zero[of m] by (auto simp: pm_last_def)
qed (auto simp: pm_inv_def[of "[]"] pm_inv_inc pm_get_inc pm_dec_None pm_inv_dec pm_get_dec
      dest: pm_last_Some intro: pm_inject)

abbreviation pm_tracks :: "pos_map \<Rightarrow> llama_pos multiset \<Rightarrow> bool" where
  "pm_tracks \<equiv> tracks pm_get pm_inv"

end
