(* ===== verification/KvCells.thy ===== *)
theory KvCells
  imports OrdCols
begin

text \<open>
  The cells of the key-value cache, class \<open>llama_kv_cells\<close> of \<open>src/llama-kv-cells.h\<close>: per cell a
  position (-1 when empty), the 2D position of M-RoPE, the accumulated shift and the set of the
  sequences it belongs to; besides, the set of used cells and, per sequence, how often each position
  occurs. A cell index is a \<open>nat\<close>, positions are \<open>int\<close> in the range of \<open>int32_t\<close>. An operation whose
  assertion fails, or that leaves the range of the arrays or of \<open>int32_t\<close>, is \<open>None\<close>.
\<close>

section \<open>State\<close>

definition LLAMA_MAX_SEQ :: nat where
  "LLAMA_MAX_SEQ = 256"

record llama_kv_cell_ext =
  ext_x :: llama_pos
  ext_y :: llama_pos

definition is_2d_gt :: "llama_kv_cell_ext \<Rightarrow> llama_pos \<Rightarrow> llama_pos \<Rightarrow> bool" where
  "is_2d_gt e ox oy \<longleftrightarrow> ext_y e > oy \<or> (ext_y e = oy \<and> ext_x e > ox)"

definition ext_zero :: llama_kv_cell_ext where
  "ext_zero = \<lparr>ext_x = 0, ext_y = 0\<rparr>"

record llama_kv_cells =
  kv_has_shift :: bool
  kv_used :: "nat list"
  kv_pos :: "llama_pos list"
  kv_ext :: "llama_kv_cell_ext list"
  kv_shift :: "llama_pos list"
  kv_seq :: "nat set list"
  kv_seq_pos :: "nat \<Rightarrow> pos_map"

definition cells_init :: llama_kv_cells where
  "cells_init = \<lparr>kv_has_shift = False, kv_used = [], kv_pos = [], kv_ext = [], kv_shift = [],
                 kv_seq = [], kv_seq_pos = (\<lambda>_. [])\<rparr>"

section \<open>The whole array\<close>

definition cells_size :: "llama_kv_cells \<Rightarrow> nat" where
  "cells_size c = length (kv_pos c)"

definition reset :: "llama_kv_cells \<Rightarrow> llama_kv_cells" where
  "reset c = c\<lparr>kv_pos := map (\<lambda>_. -1) (kv_pos c), kv_ext := map (\<lambda>_. ext_zero) (kv_ext c),
               kv_shift := map (\<lambda>_. 0) (kv_shift c), kv_seq := map (\<lambda>_. {}) (kv_seq c),
               kv_has_shift := False, kv_used := [], kv_seq_pos := (\<lambda>_. [])\<rparr>"

definition reset_shift :: "llama_kv_cells \<Rightarrow> llama_kv_cells" where
  "reset_shift c = c\<lparr>kv_has_shift := False, kv_shift := map (\<lambda>_. 0) (kv_shift c)\<rparr>"

definition vec_resize :: "nat \<Rightarrow> 'a \<Rightarrow> 'a list \<Rightarrow> 'a list" where
  "vec_resize n x xs = take n xs @ replicate (n - length xs) x"

definition resize :: "nat \<Rightarrow> llama_kv_cells \<Rightarrow> llama_kv_cells" where
  "resize n c = reset (c\<lparr>kv_pos := vec_resize n 0 (kv_pos c), kv_ext := vec_resize n ext_zero (kv_ext c),
                         kv_shift := vec_resize n 0 (kv_shift c), kv_seq := vec_resize n {} (kv_seq c)\<rparr>)"

definition is_empty :: "llama_kv_cells \<Rightarrow> nat \<Rightarrow> bool option" where
  "is_empty c i = do {
     requires (i < cells_size c);
     requires (kv_pos c ! i < 0 \<and> kv_pos c ! i = -1 \<or> kv_pos c ! i \<ge> 0);
     Some (kv_pos c ! i = -1)
   }"

definition get_used :: "llama_kv_cells \<Rightarrow> nat" where
  "get_used c = length (kv_used c)"

definition used_min :: "llama_kv_cells \<Rightarrow> nat" where
  "used_min c = (if kv_used c = [] then 0 else hd (kv_used c))"

definition used_max_p1 :: "llama_kv_cells \<Rightarrow> nat" where
  "used_max_p1 c = (if kv_used c = [] then 0 else last (kv_used c) + 1)"

section \<open>Bookkeeping of positions\<close>

definition seq_pos_dec :: "nat \<Rightarrow> llama_pos \<Rightarrow> llama_kv_cells \<Rightarrow> llama_kv_cells option" where
  "seq_pos_dec s p c = map_option (\<lambda>m. c\<lparr>kv_seq_pos := (kv_seq_pos c)(s := m)\<rparr>) (pm_dec p (kv_seq_pos c s))"

definition seq_pos_inc :: "nat \<Rightarrow> llama_pos \<Rightarrow> llama_kv_cells \<Rightarrow> llama_kv_cells" where
  "seq_pos_inc s p c = c\<lparr>kv_seq_pos := (kv_seq_pos c)(s := pm_inc p (kv_seq_pos c s))\<rparr>"

definition seq_pos_rm :: "nat \<Rightarrow> llama_kv_cells \<Rightarrow> llama_kv_cells option" where
  "seq_pos_rm i c =
     foldM (\<lambda>s c. if s \<in> kv_seq c ! i then seq_pos_dec s (kv_pos c ! i) c else Some c) [0..<LLAMA_MAX_SEQ] c"

definition seq_pos_add :: "nat \<Rightarrow> llama_kv_cells \<Rightarrow> llama_kv_cells" where
  "seq_pos_add i c =
     fold (\<lambda>s c. if s \<in> kv_seq c ! i then seq_pos_inc s (kv_pos c ! i) c else c) [0..<LLAMA_MAX_SEQ] c"

section \<open>One cell\<close>

text \<open>\<open>std::bitset::test\<close>, \<open>set\<close> and \<open>reset\<close> throw for a position outside of the set.\<close>

definition seq_bit :: "llama_seq_id \<Rightarrow> nat option" where
  "seq_bit seq_id = (if 0 \<le> seq_id \<and> seq_id < int LLAMA_MAX_SEQ then Some (nat seq_id) else None)"

text \<open>\<open>pos[i] = -1; ext[i].reset(); shift[i] = 0; used.erase(i)\<close>\<close>

definition clear_cell :: "nat \<Rightarrow> llama_kv_cells \<Rightarrow> llama_kv_cells" where
  "clear_cell i c = c\<lparr>kv_pos := (kv_pos c)[i := -1], kv_ext := (kv_ext c)[i := ext_zero],
                      kv_shift := (kv_shift c)[i := 0], kv_used := oset_erase i (kv_used c)\<rparr>"

definition rm :: "nat \<Rightarrow> llama_kv_cells \<Rightarrow> llama_kv_cells option" where
  "rm i c = do {
     requires (i < cells_size c);
     requires (kv_pos c ! i \<noteq> -1);
     c \<leftarrow> seq_pos_rm i c;
     Some (clear_cell i (c\<lparr>kv_seq := (kv_seq c)[i := {}]\<rparr>))
   }"

definition seq_rm :: "nat \<Rightarrow> llama_seq_id \<Rightarrow> llama_kv_cells \<Rightarrow> (bool \<times> llama_kv_cells) option" where
  "seq_rm i seq_id c = do {
     requires (i < cells_size c);
     s \<leftarrow> seq_bit seq_id;
     requires (s \<in> kv_seq c ! i);
     requires (kv_pos c ! i \<noteq> -1);
     requires (seq_id \<ge> 0);
     c \<leftarrow> Some (c\<lparr>kv_seq := (kv_seq c)[i := kv_seq c ! i - {s}]\<rparr>);
     c \<leftarrow> seq_pos_dec s (kv_pos c ! i) c;
     if kv_seq c ! i = {} then Some (True, clear_cell i c) else Some (False, c)
   }"

definition seq_keep :: "nat \<Rightarrow> llama_seq_id \<Rightarrow> llama_kv_cells \<Rightarrow> (bool \<times> llama_kv_cells) option" where
  "seq_keep i seq_id c = do {
     requires (i < cells_size c);
     s \<leftarrow> seq_bit seq_id;
     if s \<in> kv_seq c ! i then do {
       c \<leftarrow> seq_pos_rm i c;
       c \<leftarrow> Some (c\<lparr>kv_seq := (kv_seq c)[i := {s}]\<rparr>);
       Some (False, seq_pos_inc s (kv_pos c ! i) c)
     }
     else if kv_seq c ! i \<noteq> {} then do {
       c \<leftarrow> seq_pos_rm i c;
       Some (True, clear_cell i (c\<lparr>kv_seq := (kv_seq c)[i := {}]\<rparr>))
     }
     else do {
       requires (kv_pos c ! i = -1);
       Some (False, c)
     }
   }"

definition seq_count :: "llama_kv_cells \<Rightarrow> nat \<Rightarrow> nat option" where
  "seq_count c i = do {
     requires (i < cells_size c);
     requires (kv_pos c ! i \<noteq> -1);
     Some (card (kv_seq c ! i))
   }"

definition seq_has :: "llama_kv_cells \<Rightarrow> nat \<Rightarrow> llama_seq_id \<Rightarrow> bool option" where
  "seq_has c i seq_id = do {
     requires (i < cells_size c);
     requires (seq_id \<ge> 0);
     s \<leftarrow> seq_bit seq_id;
     Some (s \<in> kv_seq c ! i)
   }"

definition seq_add :: "nat \<Rightarrow> llama_seq_id \<Rightarrow> llama_kv_cells \<Rightarrow> llama_kv_cells option" where
  "seq_add i seq_id c = do {
     requires (i < cells_size c);
     requires (kv_pos c ! i \<noteq> -1);
     s \<leftarrow> seq_bit seq_id;
     requires (s \<notin> kv_seq c ! i);
     c \<leftarrow> Some (c\<lparr>kv_seq := (kv_seq c)[i := insert s (kv_seq c ! i)]\<rparr>);
     Some (seq_pos_inc s (kv_pos c ! i) c)
   }"

definition seq_get :: "llama_kv_cells \<Rightarrow> nat \<Rightarrow> llama_seq_id option" where
  "seq_get c i = do {
     requires (i < length (kv_seq c));
     requires (card (kv_seq c ! i) = 1);
     Some (case find (\<lambda>s. s \<in> kv_seq c ! i) [0..<LLAMA_MAX_SEQ] of Some s \<Rightarrow> int s | None \<Rightarrow> -1)
   }"

definition seq_pos_min :: "llama_kv_cells \<Rightarrow> llama_seq_id \<Rightarrow> llama_pos option" where
  "seq_pos_min c seq_id = do {
     s \<leftarrow> seq_bit seq_id;
     case kv_seq_pos c s of
       [] \<Rightarrow> Some (-1)
     | e # _ \<Rightarrow> do { requires (snd e > 0); Some (fst e) }
   }"

definition seq_pos_max :: "llama_kv_cells \<Rightarrow> llama_seq_id \<Rightarrow> llama_pos option" where
  "seq_pos_max c seq_id = do {
     s \<leftarrow> seq_bit seq_id;
     if kv_seq_pos c s = [] then Some (-1)
     else do { requires (snd (last (kv_seq_pos c s)) > 0); Some (fst (last (kv_seq_pos c s))) }
   }"

definition pos_get :: "llama_kv_cells \<Rightarrow> nat \<Rightarrow> llama_pos option" where
  "pos_get c i = do {
     requires (i < cells_size c);
     requires (kv_pos c ! i \<noteq> -1);
     Some (kv_pos c ! i)
   }"

definition ext_get :: "llama_kv_cells \<Rightarrow> nat \<Rightarrow> llama_kv_cell_ext option" where
  "ext_get c i = do {
     requires (i < cells_size c);
     requires (kv_pos c ! i \<noteq> -1);
     Some (kv_ext c ! i)
   }"

definition get_shift :: "llama_kv_cells \<Rightarrow> nat \<Rightarrow> llama_pos option" where
  "get_shift c i = do {
     requires (i < cells_size c);
     requires (kv_pos c ! i \<noteq> -1);
     Some (kv_shift c ! i)
   }"

definition pos_in :: "llama_kv_cells \<Rightarrow> nat \<Rightarrow> llama_pos \<Rightarrow> llama_pos \<Rightarrow> bool option" where
  "pos_in c i p0 p1 = do {
     requires (i < cells_size c);
     Some (kv_pos c ! i \<ge> p0 \<and> kv_pos c ! i < p1)
   }"

definition pos_set :: "nat \<Rightarrow> llama_pos \<Rightarrow> llama_kv_cells \<Rightarrow> llama_kv_cells option" where
  "pos_set i p c = do {
     requires (i < cells_size c);
     requires (kv_pos c ! i = -1);
     requires (kv_seq c ! i = {});
     Some (c\<lparr>kv_pos := (kv_pos c)[i := p], kv_used := oset_insert i (kv_used c)\<rparr>)
   }"

definition ext_set :: "nat \<Rightarrow> llama_kv_cell_ext \<Rightarrow> llama_kv_cells \<Rightarrow> llama_kv_cells option" where
  "ext_set i e c = do {
     requires (i < length (kv_ext c));
     Some (c\<lparr>kv_ext := (kv_ext c)[i := e]\<rparr>)
   }"

definition pos_add :: "nat \<Rightarrow> llama_pos \<Rightarrow> llama_kv_cells \<Rightarrow> (bool \<times> llama_kv_cells) option" where
  "pos_add i d c = do {
     requires (i < cells_size c);
     requires (kv_pos c ! i \<noteq> -1);
     c \<leftarrow> seq_pos_rm i c;
     p \<leftarrow> i32 (kv_pos c ! i + d);
     sh \<leftarrow> i32 (kv_shift c ! i + d);
     c \<leftarrow> Some (c\<lparr>kv_pos := (kv_pos c)[i := p], kv_shift := (kv_shift c)[i := sh], kv_has_shift := True\<rparr>);
     if kv_pos c ! i < 0 then
       Some (True, c\<lparr>kv_seq := (kv_seq c)[i := {}], kv_pos := (kv_pos c)[i := -1],
                     kv_shift := (kv_shift c)[i := 0], kv_used := oset_erase i (kv_used c)\<rparr>)
     else Some (False, seq_pos_add i c)
   }"

definition pos_div :: "nat \<Rightarrow> int \<Rightarrow> llama_kv_cells \<Rightarrow> llama_kv_cells option" where
  "pos_div i d c = do {
     requires (i < cells_size c);
     requires (kv_pos c ! i \<noteq> -1);
     c \<leftarrow> seq_pos_rm i c;
     requires (d \<noteq> 0);
     p \<leftarrow> i32 (c_div (kv_pos c ! i) d);
     diff \<leftarrow> i32 (kv_pos c ! i - p);
     sh \<leftarrow> i32 (kv_shift c ! i + diff);
     c \<leftarrow> Some (seq_pos_add i (c\<lparr>kv_pos := (kv_pos c)[i := p], kv_shift := (kv_shift c)[i := sh]\<rparr>));
     Some (c\<lparr>kv_has_shift := True\<rparr>)
   }"

section \<open>Copies of groups of cells\<close>

definition cp_cell :: "llama_kv_cells \<Rightarrow> nat \<Rightarrow> nat \<Rightarrow> llama_kv_cells \<Rightarrow> llama_kv_cells option" where
  "cp_cell c idx j res = do {
     requires (idx < cells_size c);
     res \<leftarrow> Some (res\<lparr>kv_pos := (kv_pos res)[j := kv_pos c ! idx], kv_ext := (kv_ext res)[j := kv_ext c ! idx],
                     kv_seq := (kv_seq res)[j := kv_seq c ! idx]\<rparr>);
     requires (kv_shift c ! idx = 0);
     Some res
   }"

definition cp_range :: "llama_kv_cells \<Rightarrow> nat \<Rightarrow> nat \<Rightarrow> llama_kv_cells option" where
  "cp_range c i n = do {
     requires (i + n \<le> cells_size c);
     foldM (\<lambda>j. cp_cell c (i + j) j) [0..<n] (resize n cells_init)
   }"

definition cp :: "llama_kv_cells \<Rightarrow> nat list \<Rightarrow> llama_kv_cells option" where
  "cp c idxs = foldM (\<lambda>j. cp_cell c (idxs ! j) j) [0..<length idxs] (resize (length idxs) cells_init)"

definition set_cell :: "llama_kv_cells \<Rightarrow> nat \<Rightarrow> nat \<Rightarrow> llama_kv_cells \<Rightarrow> llama_kv_cells option" where
  "set_cell other idx j c = do {
     requires (idx < cells_size c);
     c \<leftarrow> Some (if kv_pos c ! idx = -1 \<and> kv_pos other ! j \<noteq> -1
                then c\<lparr>kv_used := oset_insert idx (kv_used c)\<rparr> else c);
     c \<leftarrow> Some (if kv_pos c ! idx \<noteq> -1 \<and> kv_pos other ! j = -1
                then c\<lparr>kv_used := oset_erase idx (kv_used c)\<rparr> else c);
     c \<leftarrow> (if kv_pos c ! idx \<noteq> -1 then seq_pos_rm idx c else Some c);
     c \<leftarrow> Some (c\<lparr>kv_pos := (kv_pos c)[idx := kv_pos other ! j], kv_ext := (kv_ext c)[idx := kv_ext other ! j],
                 kv_seq := (kv_seq c)[idx := kv_seq other ! j]\<rparr>);
     c \<leftarrow> Some (if kv_pos c ! idx \<noteq> -1 then seq_pos_add idx c else c);
     requires (kv_shift c ! idx = 0);
     Some c
   }"

definition set_range :: "nat \<Rightarrow> llama_kv_cells \<Rightarrow> llama_kv_cells \<Rightarrow> llama_kv_cells option" where
  "set_range i other c = do {
     requires (i + cells_size other \<le> cells_size c);
     foldM (\<lambda>j. set_cell other (i + j) j) [0..<cells_size other] c
   }"

definition set_idxs :: "nat list \<Rightarrow> llama_kv_cells \<Rightarrow> llama_kv_cells \<Rightarrow> llama_kv_cells option" where
  "set_idxs idxs other c = do {
     requires (length idxs = cells_size other);
     foldM (\<lambda>j. set_cell other (idxs ! j) j) [0..<cells_size other] c
   }"

end
