(* ===== verification/KvCellsLaws.thy ===== *)
theory KvCellsLaws
  imports KvCells
begin

text \<open>
  The invariant of \<open>llama_kv_cells\<close> and its abstract view. \<open>cells_inv\<close> says that the set of used cells
  and the counted positions of every sequence are exactly what the arrays say. \<open>view\<close> forgets both:
  what is left is a list of cells. Every operation keeps the invariant, fails no assertion when its
  documented precondition holds, and changes one cell of the view.
\<close>

section \<open>Positions of a sequence\<close>

definition own :: "llama_pos \<Rightarrow> nat set \<Rightarrow> nat \<Rightarrow> llama_pos multiset" where
  "own p S s = (if s \<in> S then {#p#} else {#})"

fun positions :: "llama_pos list \<Rightarrow> nat set list \<Rightarrow> nat \<Rightarrow> llama_pos multiset" where
  "positions (p # ps) (S # Ss) s = own p S s + positions ps Ss s"
| "positions _ _ s = {#}"

lemma own_simps [simp]: "own p {} s = {#}" "s \<in> S \<Longrightarrow> own p S s = {#p#}" "s \<notin> S \<Longrightarrow> own p S s = {#}"
  by (simp_all add: own_def)

lemma positions_update:
  "i < length ps \<Longrightarrow> i < length Ss \<Longrightarrow>
   positions (ps[i := p]) (Ss[i := S]) s + own (ps ! i) (Ss ! i) s = positions ps Ss s + own p S s"
proof (induction ps Ss s arbitrary: i rule: positions.induct)
  case (1 q ps T Ss s)
  then show ?case by (cases i) (auto simp: ac_simps)
qed auto

lemma own_le_positions:
  "i < length ps \<Longrightarrow> i < length Ss \<Longrightarrow> own (ps ! i) (Ss ! i) s \<subseteq># positions ps Ss s"
proof (induction ps Ss s arbitrary: i rule: positions.induct)
  case (1 q ps T Ss s)
  then show ?case by (cases i) (auto simp: subset_mset.add_increasing)
qed auto

lemma positions_update':
  assumes "i < length ps" "i < length Ss"
  shows "positions (ps[i := p]) (Ss[i := S]) s = positions ps Ss s - own (ps ! i) (Ss ! i) s + own p S s"
  using positions_update[OF assms, of p S s] own_le_positions[OF assms, of s]
  by (metis add_diff_cancel_right' subset_mset.add_diff_assoc2)

lemma in_positions:
  "length ps = length Ss \<Longrightarrow> p \<in># positions ps Ss s \<longleftrightarrow> (\<exists>i < length ps. ps ! i = p \<and> s \<in> Ss ! i)"
proof (induction ps Ss s rule: positions.induct)
  case (1 q ps T Ss s)
  have "(\<exists>i < length (q # ps). (q # ps) ! i = p \<and> s \<in> (T # Ss) ! i) \<longleftrightarrow>
      (q = p \<and> s \<in> T) \<or> (\<exists>i < length ps. ps ! i = p \<and> s \<in> Ss ! i)"
    by (auto simp: less_Suc_eq_0_disj)
  with 1 show ?case by (auto simp: own_def)
qed auto

lemma positions_empty: "positions (map f xs) (map (\<lambda>_. {}) ys) s = {#}"
proof (induction xs arbitrary: ys)
  case (Cons x xs)
  then show ?case by (cases ys) auto
qed simp

section \<open>The invariant\<close>

definition used_set :: "llama_pos list \<Rightarrow> nat set" where
  "used_set ps = {i. i < length ps \<and> ps ! i \<noteq> -1}"

definition cell_ok :: "llama_pos \<Rightarrow> llama_pos \<Rightarrow> nat set \<Rightarrow> bool \<Rightarrow> bool" where
  "cell_ok p sh S shifted \<longleftrightarrow> -1 \<le> p \<and> in_i32 p \<and> in_i32 sh \<and> S \<subseteq> {..<LLAMA_MAX_SEQ} \<and>
     (p = -1 \<longrightarrow> S = {} \<and> sh = 0) \<and> (\<not> shifted \<longrightarrow> sh = 0)"

definition cells_inv :: "llama_kv_cells \<Rightarrow> bool" where
  "cells_inv c \<longleftrightarrow>
     length (kv_ext c) = cells_size c \<and> length (kv_shift c) = cells_size c \<and> length (kv_seq c) = cells_size c \<and>
     kv_used c = sorted_list_of_set (used_set (kv_pos c)) \<and>
     (\<forall>i < cells_size c. cell_ok (kv_pos c ! i) (kv_shift c ! i) (kv_seq c ! i) (kv_has_shift c)) \<and>
     (\<forall>s. pm_tracks (kv_seq_pos c s) (positions (kv_pos c) (kv_seq c) s))"

lemma finite_used_set [simp]: "finite (used_set ps)"
  by (simp add: used_set_def)

lemma used_set_update:
  "i < length ps \<Longrightarrow> used_set (ps[i := p]) = (if p = -1 then used_set ps - {i} else insert i (used_set ps))"
  by (auto simp: used_set_def nth_list_update split: if_splits)

lemma cells_inv_D:
  assumes "cells_inv c"
  shows "length (kv_pos c) = cells_size c" "length (kv_ext c) = cells_size c"
    "length (kv_shift c) = cells_size c" "length (kv_seq c) = cells_size c"
    "kv_used c = sorted_list_of_set (used_set (kv_pos c))"
    "pm_tracks (kv_seq_pos c s) (positions (kv_pos c) (kv_seq c) s)"
    "i < cells_size c \<Longrightarrow> cell_ok (kv_pos c ! i) (kv_shift c ! i) (kv_seq c ! i) (kv_has_shift c)"
  using assms by (simp_all add: cells_inv_def cells_size_def)

subsection \<open>The view\<close>

type_synonym cell = "llama_pos \<times> llama_kv_cell_ext \<times> llama_pos \<times> nat set"

definition cell_at :: "llama_kv_cells \<Rightarrow> nat \<Rightarrow> cell" where
  "cell_at c i = (kv_pos c ! i, kv_ext c ! i, kv_shift c ! i, kv_seq c ! i)"

definition empty_cell :: cell where
  "empty_cell = (-1, ext_zero, 0, {})"

definition view :: "llama_kv_cells \<Rightarrow> cell list" where
  "view c = map (cell_at c) [0..<cells_size c]"

lemma length_view [simp]: "length (view c) = cells_size c"
  by (simp add: view_def)

lemma view_nth [simp]: "i < cells_size c \<Longrightarrow> view c ! i = cell_at c i"
  by (simp add: view_def)

lemma view_inject:
  assumes "cells_inv c" "cells_inv c'" "view c = view c'" "kv_has_shift c = kv_has_shift c'"
  shows "c = c'"
proof -
  have n: "cells_size c' = cells_size c" using assms(3) by (metis length_view)
  have "cell_at c i = cell_at c' i" if "i < cells_size c" for i
    using assms(3) that n by (metis view_nth)
  then have eqs: "kv_pos c = kv_pos c'" "kv_ext c = kv_ext c'" "kv_shift c = kv_shift c'" "kv_seq c = kv_seq c'"
    using cells_inv_D(1-4)[OF assms(1)] cells_inv_D(1-4)[OF assms(2)] n
    by (auto intro!: nth_equalityI simp: cell_at_def)
  then have u: "kv_used c = kv_used c'" using cells_inv_D(5) assms by metis
  have "kv_seq_pos c = kv_seq_pos c'"
  proof
    fix s
    show "kv_seq_pos c s = kv_seq_pos c' s"
      using cells_inv_D(6)[OF assms(1), of s] cells_inv_D(6)[OF assms(2), of s] eqs
      by (auto intro: pm.tracks_unique)
  qed
  with eqs u assms(4) show ?thesis by simp
qed

text \<open>All operations on one cell have this shape: the cell is replaced, the bookkeeping follows.\<close>

definition replaced :: "llama_kv_cells \<Rightarrow> nat \<Rightarrow> cell \<Rightarrow> llama_kv_cells \<Rightarrow> bool" where
  "replaced c i x c' \<longleftrightarrow> cells_inv c' \<and> view c' = (view c)[i := x]"

lemma replacedI:
  assumes inv: "cells_inv c" and i: "i < cells_size c"
    and "kv_pos c' = (kv_pos c)[i := p]" "kv_ext c' = (kv_ext c)[i := e]"
    and "kv_shift c' = (kv_shift c)[i := sh]" "kv_seq c' = (kv_seq c)[i := S]"
    and u: "kv_used c' = sorted_list_of_set (if p = -1 then used_set (kv_pos c) - {i} else insert i (used_set (kv_pos c)))"
    and t: "\<And>s. pm_tracks (kv_seq_pos c' s) (positions (kv_pos c) (kv_seq c) s - own (kv_pos c ! i) (kv_seq c ! i) s + own p S s)"
    and ok: "cell_ok p sh S (kv_has_shift c')"
    and sh: "kv_has_shift c \<longrightarrow> kv_has_shift c'"
  shows "replaced c i (p, e, sh, S) c'"
proof -
  note D = cells_inv_D[OF inv]
  have n: "cells_size c' = cells_size c" using assms(3) by (simp add: cells_size_def)
  have "cell_ok (kv_pos c' ! j) (kv_shift c' ! j) (kv_seq c' ! j) (kv_has_shift c')" if "j < cells_size c" for j
    using D(1,3,4) D(7)[OF that] that assms(3,5,6) ok sh i
    by (cases "j = i") (auto simp: cell_ok_def)
  then have "cells_inv c'"
    using D(1-4) n assms(3-6) u t i
    by (simp add: cells_inv_def used_set_update positions_update')
  moreover have "view c' = (view c)[i := (p, e, sh, S)]"
    using D(1-4) i n assms(3-6)
    by (intro nth_equalityI) (auto simp: cell_at_def nth_list_update)
  ultimately show ?thesis by (simp add: replaced_def)
qed

lemma replaced_size: "replaced c i x c' \<Longrightarrow> cells_size c' = cells_size c"
  unfolding replaced_def by (metis length_list_update length_view)

lemma replaced_at:
  "replaced c i x c' \<Longrightarrow> i < cells_size c \<Longrightarrow> j < cells_size c \<Longrightarrow> cell_at c' j = (if i = j then x else cell_at c j)"
  using replaced_size[of c i x c'] by (metis nth_list_update replaced_def view_nth length_view)

section \<open>The loops over the sequences of a cell\<close>

lemma seq_pos_rm_ok:
  assumes inv: "cells_inv c" and i: "i < cells_size c"
  shows "\<exists>f. seq_pos_rm i c = Some (c\<lparr>kv_seq_pos := f\<rparr>) \<and>
     (\<forall>s. pm_tracks (f s) (positions (kv_pos c) (kv_seq c) s - own (kv_pos c ! i) (kv_seq c ! i) s))"
proof -
  let ?S = "kv_seq c ! i" and ?p = "kv_pos c ! i" and ?M = "positions (kv_pos c) (kv_seq c)"
  let ?P = "\<lambda>k c'. \<exists>f. c' = c\<lparr>kv_seq_pos := f\<rparr> \<and>
    (\<forall>s. pm_tracks (f s) (if s < k then ?M s - own ?p ?S s else ?M s))"
  have le: "own ?p ?S s \<subseteq># ?M s" for s
    using own_le_positions[of i "kv_pos c" "kv_seq c" s] cells_inv_D[OF inv] i by simp
  have start: "?P 0 c" using cells_inv_D(6)[OF inv] by (intro exI[of _ "kv_seq_pos c"]) simp
  have step: "\<exists>c2. (if k \<in> kv_seq c1 ! i then seq_pos_dec k (kv_pos c1 ! i) c1 else Some c1) = Some c2 \<and> ?P (Suc k) c2"
    if P: "?P k c1" for k c1
  proof -
    from P obtain f where f: "c1 = c\<lparr>kv_seq_pos := f\<rparr>"
      "\<And>s. pm_tracks (f s) (if s < k then ?M s - own ?p ?S s else ?M s)" by blast
    have f2: "s < k \<Longrightarrow> pm_tracks (f s) (?M s - own ?p ?S s)" "\<not> s < k \<Longrightarrow> pm_tracks (f s) (?M s)" for s
      using f(2)[of s] by auto
    show ?thesis
    proof (cases "k \<in> ?S")
      case False
      then show ?thesis using f(1) f2 by (auto intro!: exI[of _ f] simp: less_Suc_eq)
    next
      case True
      then have "?p \<in># ?M k" using le[of k] by simp
      then obtain m where m: "pm_dec ?p (f k) = Some m" "pm_tracks m (?M k - {#?p#})"
        using pm.tracks_dec[of "f k" "?M k" ?p] f(2)[of k] by auto
      with f(1) f2 True show ?thesis
        by (auto simp: seq_pos_dec_def less_Suc_eq intro!: exI[of _ "f(k := m)"])
    qed
  qed
  have "\<exists>c'. seq_pos_rm i c = Some c' \<and> ?P LLAMA_MAX_SEQ c'"
    unfolding seq_pos_rm_def by (rule foldM_upt[where P = ?P, OF start]) (rule step)
  then obtain c' where c': "seq_pos_rm i c = Some c'" "?P LLAMA_MAX_SEQ c'" by blast
  then obtain f where f: "c' = c\<lparr>kv_seq_pos := f\<rparr>"
    "\<And>s. pm_tracks (f s) (if s < LLAMA_MAX_SEQ then ?M s - own ?p ?S s else ?M s)" by blast
  have "pm_tracks (f s) (?M s - own ?p ?S s)" for s
  proof (cases "s < LLAMA_MAX_SEQ")
    case False
    then have "s \<notin> ?S" using cells_inv_D(7)[OF inv i] by (auto simp: cell_ok_def)
    with False f(2)[of s] show ?thesis by simp
  qed (use f(2)[of s] in simp)
  with c' f(1) show ?thesis by auto
qed

lemma seq_pos_add_fields:
  "kv_used (seq_pos_add i c) = kv_used c \<and> kv_pos (seq_pos_add i c) = kv_pos c \<and>
   kv_ext (seq_pos_add i c) = kv_ext c \<and> kv_shift (seq_pos_add i c) = kv_shift c \<and>
   kv_seq (seq_pos_add i c) = kv_seq c \<and> kv_has_shift (seq_pos_add i c) = kv_has_shift c \<and>
   kv_seq_pos (seq_pos_add i c) =
     (\<lambda>s. if s < LLAMA_MAX_SEQ \<and> s \<in> kv_seq c ! i then pm_inc (kv_pos c ! i) (kv_seq_pos c s) else kv_seq_pos c s)"
proof -
  let ?step = "\<lambda>s c. if s \<in> kv_seq c ! i then seq_pos_inc s (kv_pos c ! i) c else c"
  have "fold ?step [0..<k] c = c\<lparr>kv_seq_pos := (\<lambda>s. if s < k \<and> s \<in> kv_seq c ! i
      then pm_inc (kv_pos c ! i) (kv_seq_pos c s) else kv_seq_pos c s)\<rparr>" for k
    by (induction k) (auto simp: seq_pos_inc_def fun_eq_iff less_Suc_eq)
  then show ?thesis by (simp add: seq_pos_add_def)
qed

lemmas seq_pos_add_simps [simp] =
  seq_pos_add_fields[THEN conjunct1]
  seq_pos_add_fields[THEN conjunct2, THEN conjunct1]
  seq_pos_add_fields[THEN conjunct2, THEN conjunct2, THEN conjunct1]
  seq_pos_add_fields[THEN conjunct2, THEN conjunct2, THEN conjunct2, THEN conjunct1]
  seq_pos_add_fields[THEN conjunct2, THEN conjunct2, THEN conjunct2, THEN conjunct2, THEN conjunct1]
  seq_pos_add_fields[THEN conjunct2, THEN conjunct2, THEN conjunct2, THEN conjunct2, THEN conjunct2, THEN conjunct1]

lemma seq_pos_add_tracks:
  assumes "\<And>s. pm_tracks (kv_seq_pos c s) (M s)" "kv_seq c ! i \<subseteq> {..<LLAMA_MAX_SEQ}"
  shows "pm_tracks (kv_seq_pos (seq_pos_add i c) s) (M s + own (kv_pos c ! i) (kv_seq c ! i) s)"
  using assms pm.tracks_inc[OF assms(1)] seq_pos_add_fields[of i c] by (auto simp: own_def)

section \<open>Every operation replaces one cell\<close>

lemma seq_bit_Some [simp]: "seq_bit q = Some s \<longleftrightarrow> q = int s \<and> s < LLAMA_MAX_SEQ"
  by (auto simp: seq_bit_def)

lemma seq_bit_int [simp]: "s < LLAMA_MAX_SEQ \<Longrightarrow> seq_bit (int s) = Some s"
  by simp

lemma i32_minus_one [simp]: "in_i32 (-1)" "in_i32 0"
  by (simp_all add: in_i32_def)

lemma clear_cell_ok:
  assumes "cells_inv c" "i < cells_size c"
    and "kv_pos c0 = kv_pos c" "kv_ext c0 = kv_ext c" "kv_shift c0 = kv_shift c" "kv_used c0 = kv_used c"
    and "kv_seq c0 = (kv_seq c)[i := {}]" "kv_has_shift c \<longrightarrow> kv_has_shift c0"
    and "\<And>s. pm_tracks (kv_seq_pos c0 s) (positions (kv_pos c) (kv_seq c) s - own (kv_pos c ! i) (kv_seq c ! i) s)"
  shows "replaced c i empty_cell (clear_cell i c0)"
  unfolding empty_cell_def using cells_inv_D[OF assms(1)] assms
  by (intro replacedI) (auto simp: clear_cell_def ord_simps cell_ok_def)

lemma update_same: "xs ! i = x \<Longrightarrow> xs = xs[i := x]"
  by auto

lemma used_set_same:
  "i < length ps \<Longrightarrow> (if ps ! i = -1 then used_set ps - {i} else insert i (used_set ps)) = used_set ps"
  by (auto simp: used_set_def)

lemma tracks_same:
  assumes "cells_inv c" "i < cells_size c"
  shows "pm_tracks (kv_seq_pos c s) (positions (kv_pos c) (kv_seq c) s -
    own (kv_pos c ! i) (kv_seq c ! i) s + own (kv_pos c ! i) (kv_seq c ! i) s)"
  using own_le_positions[of i "kv_pos c" "kv_seq c" s] cells_inv_D[OF assms(1)] assms(2) by simp

lemma rm_ok:
  assumes "cells_inv c" "i < cells_size c" "kv_pos c ! i \<noteq> -1"
  shows "\<exists>c'. rm i c = Some c' \<and> replaced c i empty_cell c' \<and> kv_has_shift c' = kv_has_shift c"
proof -
  obtain f where f: "seq_pos_rm i c = Some (c\<lparr>kv_seq_pos := f\<rparr>)"
    "\<And>s. pm_tracks (f s) (positions (kv_pos c) (kv_seq c) s - own (kv_pos c ! i) (kv_seq c ! i) s)"
    using seq_pos_rm_ok[OF assms(1,2)] by blast
  let ?c = "c\<lparr>kv_seq_pos := f, kv_seq := (kv_seq c)[i := {}]\<rparr>"
  have "replaced c i empty_cell (clear_cell i ?c)"
    using f(2) by (intro clear_cell_ok[OF assms(1,2)]) simp_all
  with f(1) assms show ?thesis by (simp add: rm_def clear_cell_def)
qed

lemma seq_rm_ok:
  assumes inv: "cells_inv c" and i: "i < cells_size c" and s: "s \<in> kv_seq c ! i"
  shows "\<exists>c'. seq_rm i (int s) c = Some (kv_seq c ! i = {s}, c') \<and> kv_has_shift c' = kv_has_shift c \<and>
     replaced c i (if kv_seq c ! i = {s} then empty_cell
                   else (kv_pos c ! i, kv_ext c ! i, kv_shift c ! i, kv_seq c ! i - {s})) c'"
proof -
  note D = cells_inv_D[OF inv]
  let ?M = "positions (kv_pos c) (kv_seq c)" and ?p = "kv_pos c ! i"
  have ok: "s < LLAMA_MAX_SEQ" "?p \<noteq> -1" using D(7)[OF i] s by (auto simp: cell_ok_def)
  have le: "own ?p (kv_seq c ! i) t \<subseteq># ?M t" for t
    using own_le_positions[of i "kv_pos c" "kv_seq c" t] D i by simp
  then have "?p \<in># ?M s" using s by (metis mset_subset_eqD own_simps(2) union_single_eq_member add_0)
  then obtain m where m: "pm_dec ?p (kv_seq_pos c s) = Some m" "pm_tracks m (?M s - {#?p#})"
    using pm.tracks_dec[OF D(6)] by blast
  have split: "?M t - own ?p (kv_seq c ! i) t + own ?p (kv_seq c ! i - {s}) t = (if t = s then ?M s - {#?p#} else ?M t)" for t
    using le[of t] s by (auto simp: own_def)
  let ?c = "c\<lparr>kv_seq := (kv_seq c)[i := kv_seq c ! i - {s}], kv_seq_pos := (kv_seq_pos c)(s := m)\<rparr>"
  show ?thesis
  proof (cases "kv_seq c ! i = {s}")
    case True
    then have "pm_tracks (((kv_seq_pos c)(s := m)) t) (?M t - own ?p (kv_seq c ! i) t)" for t
      using split[of t] m(2) D(6)[of t] by auto
    with True have "replaced c i empty_cell (clear_cell i ?c)"
      by (intro clear_cell_ok[OF inv i]) simp_all
    with True s m ok i D(4) show ?thesis
      by (simp add: seq_rm_def seq_pos_dec_def clear_cell_def)
  next
    case False
    with s have ne: "kv_seq c ! i - {s} \<noteq> {}" by auto
    have "replaced c i (?p, kv_ext c ! i, kv_shift c ! i, kv_seq c ! i - {s}) ?c"
      using D(1-5) D(7)[OF i] i ok split m(2) D(6)
      by (intro replacedI[OF inv i]) (auto simp: cell_ok_def insert_absorb used_set_def)
    with False ne s m ok i D(4) show ?thesis by (simp add: seq_rm_def seq_pos_dec_def)
  qed
qed

lemma seq_add_ok:
  assumes inv: "cells_inv c" and i: "i < cells_size c" and p: "kv_pos c ! i \<noteq> -1"
    and s: "s \<notin> kv_seq c ! i" "s < LLAMA_MAX_SEQ"
  shows "\<exists>c'. seq_add i (int s) c = Some c' \<and> kv_has_shift c' = kv_has_shift c \<and>
     replaced c i (kv_pos c ! i, kv_ext c ! i, kv_shift c ! i, insert s (kv_seq c ! i)) c'"
proof -
  note D = cells_inv_D[OF inv]
  let ?M = "positions (kv_pos c) (kv_seq c)" and ?p = "kv_pos c ! i"
  have le: "own ?p (kv_seq c ! i) t \<subseteq># ?M t" for t
    using own_le_positions[of i "kv_pos c" "kv_seq c" t] D i by simp
  have split: "?M t - own ?p (kv_seq c ! i) t + own ?p (insert s (kv_seq c ! i)) t = (if t = s then add_mset ?p (?M s) else ?M t)" for t
    using le[of t] s by (auto simp: own_def)
  let ?c = "c\<lparr>kv_seq := (kv_seq c)[i := insert s (kv_seq c ! i)], kv_seq_pos := (kv_seq_pos c)(s := pm_inc ?p (kv_seq_pos c s))\<rparr>"
  have "replaced c i (?p, kv_ext c ! i, kv_shift c ! i, insert s (kv_seq c ! i)) ?c"
    using D(1-5) D(7)[OF i] i p s split D(6) pm.tracks_inc[OF D(6)]
    by (intro replacedI[OF inv i]) (auto simp: cell_ok_def insert_absorb used_set_def)
  with s p i show ?thesis by (simp add: seq_add_def seq_pos_inc_def)
qed

lemma pos_set_ok:
  assumes inv: "cells_inv c" and i: "i < cells_size c" and "kv_pos c ! i = -1" "0 \<le> p" "in_i32 p"
  shows "\<exists>c'. pos_set i p c = Some c' \<and> kv_has_shift c' = kv_has_shift c \<and> replaced c i (p, kv_ext c ! i, 0, {}) c'"
proof -
  note D = cells_inv_D[OF inv]
  have ok: "kv_seq c ! i = {}" "kv_shift c ! i = 0" using D(7)[OF i] assms(3) by (auto simp: cell_ok_def)
  have "replaced c i (p, kv_ext c ! i, kv_shift c ! i, kv_seq c ! i)
      (c\<lparr>kv_pos := (kv_pos c)[i := p], kv_used := oset_insert i (kv_used c)\<rparr>)"
    using D(1-5) D(7)[OF i] i assms(3-5) D(6) ok
    by (intro replacedI[OF inv i]) (auto simp: cell_ok_def ord_simps intro: update_same)
  with assms ok show ?thesis by (simp add: pos_set_def)
qed

lemma ext_set_ok:
  assumes inv: "cells_inv c" and i: "i < cells_size c"
  shows "\<exists>c'. ext_set i e c = Some c' \<and> kv_has_shift c' = kv_has_shift c \<and>
     replaced c i (kv_pos c ! i, e, kv_shift c ! i, kv_seq c ! i) c'"
proof -
  note D = cells_inv_D[OF inv]
  have "replaced c i (kv_pos c ! i, e, kv_shift c ! i, kv_seq c ! i) (c\<lparr>kv_ext := (kv_ext c)[i := e]\<rparr>)"
    using D(1-5) D(7)[OF i] i tracks_same[OF inv i] used_set_same[of i "kv_pos c"]
    by (intro replacedI[OF inv i]) simp_all
  with i D(2) show ?thesis by (simp add: ext_set_def)
qed

text \<open>What \<open>seq_keep\<close>, \<open>pos_add\<close>, \<open>pos_div\<close> and \<open>set\<close> end with: the new position counted.\<close>

lemma recount_ok:
  assumes inv: "cells_inv c" and i: "i < cells_size c"
    and "kv_pos c2 = (kv_pos c)[i := p]" "kv_ext c2 = (kv_ext c)[i := e]"
    and "kv_shift c2 = (kv_shift c)[i := sh]" "kv_seq c2 = (kv_seq c)[i := S]"
    and "kv_used c2 = sorted_list_of_set (if p = -1 then used_set (kv_pos c) - {i} else insert i (used_set (kv_pos c)))"
    and t: "\<And>s. pm_tracks (kv_seq_pos c2 s) (positions (kv_pos c) (kv_seq c) s - own (kv_pos c ! i) (kv_seq c ! i) s)"
    and ok: "cell_ok p sh S (kv_has_shift c2)" "kv_has_shift c \<longrightarrow> kv_has_shift c2"
  shows "replaced c i (p, e, sh, S) (seq_pos_add i c2)"
proof -
  have S: "kv_seq c2 ! i = S" "kv_pos c2 ! i = p"
    using assms(3,6) i cells_inv_D[OF inv] by simp_all
  have t2: "pm_tracks (kv_seq_pos (seq_pos_add i c2) s)
      (positions (kv_pos c) (kv_seq c) s - own (kv_pos c ! i) (kv_seq c ! i) s + own p S s)" for s
    using seq_pos_add_tracks[OF t, of i s] ok(1) S by (simp add: cell_ok_def)
  show ?thesis
    using assms(3-7) t2 ok by (intro replacedI[OF inv i]) simp_all
qed

lemma used_same:
  assumes "cells_inv c" "i < cells_size c" "p = -1 \<longleftrightarrow> kv_pos c ! i = -1"
  shows "kv_used c = sorted_list_of_set (if p = -1 then used_set (kv_pos c) - {i} else insert i (used_set (kv_pos c)))"
  using used_set_same[of i "kv_pos c"] cells_inv_D[OF assms(1)] assms(2,3) by (auto split: if_splits)

lemma used_erased:
  "cells_inv c \<Longrightarrow> oset_erase i (kv_used c) = sorted_list_of_set (used_set (kv_pos c) - {i})"
  by (simp add: cells_inv_def ord_simps)

lemma used_inserted:
  "cells_inv c \<Longrightarrow> oset_insert i (kv_used c) = sorted_list_of_set (insert i (used_set (kv_pos c)))"
  by (simp add: cells_inv_def ord_simps)

lemma seq_keep_ok:
  assumes inv: "cells_inv c" and i: "i < cells_size c" and s: "s < LLAMA_MAX_SEQ"
    and "kv_seq c ! i = {} \<Longrightarrow> kv_pos c ! i = -1"
  shows "\<exists>c'. seq_keep i (int s) c = Some (s \<notin> kv_seq c ! i \<and> kv_seq c ! i \<noteq> {}, c') \<and>
     kv_has_shift c' = kv_has_shift c \<and>
     replaced c i (if s \<in> kv_seq c ! i then (kv_pos c ! i, kv_ext c ! i, kv_shift c ! i, {s})
                   else if kv_seq c ! i \<noteq> {} then empty_cell else cell_at c i) c'"
proof -
  note D = cells_inv_D[OF inv]
  obtain f where f: "seq_pos_rm i c = Some (c\<lparr>kv_seq_pos := f\<rparr>)"
    "\<And>s. pm_tracks (f s) (positions (kv_pos c) (kv_seq c) s - own (kv_pos c ! i) (kv_seq c ! i) s)"
    using seq_pos_rm_ok[OF inv i] by blast
  consider "s \<in> kv_seq c ! i" | "s \<notin> kv_seq c ! i" "kv_seq c ! i \<noteq> {}" | "kv_seq c ! i = {}" by auto
  then show ?thesis
  proof cases
    case 1
    let ?c = "c\<lparr>kv_seq := (kv_seq c)[i := {s}], kv_seq_pos := f(s := pm_inc (kv_pos c ! i) (f s))\<rparr>"
    have "pm_tracks ((f(s := pm_inc (kv_pos c ! i) (f s))) t)
       (positions (kv_pos c) (kv_seq c) t - own (kv_pos c ! i) (kv_seq c ! i) t + own (kv_pos c ! i) {s} t)" for t
      using f(2)[of t] pm.tracks_inc[OF f(2)[of s]] by (auto simp: own_def)
    moreover have "cell_ok (kv_pos c ! i) (kv_shift c ! i) {s} (kv_has_shift c)"
      using D(7)[OF i] 1 s by (auto simp: cell_ok_def)
    ultimately have "replaced c i (kv_pos c ! i, kv_ext c ! i, kv_shift c ! i, {s}) ?c"
      using used_same[OF inv i, of "kv_pos c ! i"] by (intro replacedI[OF inv i]) simp_all
    with 1 f(1) s i show ?thesis by (simp add: seq_keep_def seq_pos_inc_def)
  next
    case 2
    let ?c = "c\<lparr>kv_seq_pos := f, kv_seq := (kv_seq c)[i := {}]\<rparr>"
    have "replaced c i empty_cell (clear_cell i ?c)"
      using f(2) by (intro clear_cell_ok[OF inv i]) simp_all
    with 2 f(1) s i show ?thesis by (simp add: seq_keep_def clear_cell_def)
  next
    case 3
    have "replaced c i (cell_at c i) c"
      using inv i by (simp add: replaced_def update_same)
    with 3 s i assms(4) show ?thesis by (simp add: seq_keep_def)
  qed
qed

lemma pos_add_ok:
  assumes inv: "cells_inv c" and i: "i < cells_size c" and p: "kv_pos c ! i \<noteq> -1"
    and in_range: "in_i32 (kv_pos c ! i + d)" "in_i32 (kv_shift c ! i + d)"
  shows "\<exists>c'. pos_add i d c = Some (kv_pos c ! i + d < 0, c') \<and> kv_has_shift c' \<and>
     replaced c i (if kv_pos c ! i + d < 0 then (-1, kv_ext c ! i, 0, {})
                   else (kv_pos c ! i + d, kv_ext c ! i, kv_shift c ! i + d, kv_seq c ! i)) c'"
proof -
  note D = cells_inv_D[OF inv]
  let ?p = "kv_pos c ! i + d"
  obtain f where f: "seq_pos_rm i c = Some (c\<lparr>kv_seq_pos := f\<rparr>)"
    "\<And>s. pm_tracks (f s) (positions (kv_pos c) (kv_seq c) s - own (kv_pos c ! i) (kv_seq c ! i) s)"
    using seq_pos_rm_ok[OF inv i] by blast
  let ?c1 = "c\<lparr>kv_seq_pos := f, kv_pos := (kv_pos c)[i := ?p], kv_shift := (kv_shift c)[i := kv_shift c ! i + d], kv_has_shift := True\<rparr>"
  show ?thesis
  proof (cases "?p < 0")
    case True
    have "replaced c i (-1, kv_ext c ! i, 0, {})
        (?c1\<lparr>kv_seq := (kv_seq c)[i := {}], kv_pos := (kv_pos c)[i := -1],
             kv_shift := (kv_shift c)[i := 0], kv_used := oset_erase i (kv_used c)\<rparr>)"
      using f(2) used_erased[OF inv, of i]
      by (intro replacedI[OF inv i]) (simp_all add: cell_ok_def)
    with True f(1) D(1,3) i p in_range show ?thesis by (simp add: pos_add_def i32_in)
  next
    case False
    have "cell_ok ?p (kv_shift c ! i + d) (kv_seq c ! i) True"
      using D(7)[OF i] False in_range by (auto simp: cell_ok_def)
    then have "replaced c i (?p, kv_ext c ! i, kv_shift c ! i + d, kv_seq c ! i) (seq_pos_add i ?c1)"
      using f(2) used_same[OF inv i, of ?p] p False by (intro recount_ok[OF inv i]) simp_all
    with False f(1) D(1,3) i p in_range show ?thesis by (simp add: pos_add_def i32_in)
  qed
qed

lemma c_div_bound: "0 \<le> a \<Longrightarrow> 0 < b \<Longrightarrow> 0 \<le> c_div a b \<and> c_div a b \<le> a"
  using zdiv_mono2[of a 1 b] by (simp add: c_div_nonneg pos_imp_zdiv_nonneg_iff)

lemma pos_div_ok:
  assumes inv: "cells_inv c" and i: "i < cells_size c" and p: "kv_pos c ! i \<noteq> -1" and d: "0 < d"
    and in_range: "in_i32 (kv_shift c ! i + (kv_pos c ! i - kv_pos c ! i div d))"
  shows "\<exists>c'. pos_div i d c = Some c' \<and> kv_has_shift c' \<and>
     replaced c i (kv_pos c ! i div d, kv_ext c ! i, kv_shift c ! i + (kv_pos c ! i - kv_pos c ! i div d), kv_seq c ! i) c'"
proof -
  note D = cells_inv_D[OF inv]
  let ?o = "kv_pos c ! i" and ?p = "kv_pos c ! i div d"
  let ?sh = "kv_shift c ! i + (?o - ?p)"
  have o: "0 \<le> ?o" "in_i32 ?o" using D(7)[OF i] p by (auto simp: cell_ok_def)
  have q: "c_div ?o d = ?p" "0 \<le> ?p" "?p \<le> ?o" "in_i32 ?p" "in_i32 (?o - ?p)"
    using c_div_bound[OF o(1) d] o c_div_nonneg[OF o(1) d] by (auto simp: in_i32_def)
  obtain f where f: "seq_pos_rm i c = Some (c\<lparr>kv_seq_pos := f\<rparr>)"
    "\<And>s. pm_tracks (f s) (positions (kv_pos c) (kv_seq c) s - own (kv_pos c ! i) (kv_seq c ! i) s)"
    using seq_pos_rm_ok[OF inv i] by blast
  let ?c1 = "c\<lparr>kv_seq_pos := f, kv_pos := (kv_pos c)[i := ?p], kv_shift := (kv_shift c)[i := ?sh]\<rparr>"
  have set_flag: "seq_pos_add i (x\<lparr>kv_has_shift := True\<rparr>) = (seq_pos_add i x)\<lparr>kv_has_shift := True\<rparr>" for x
    by (rule llama_kv_cells.equality) (simp_all add: seq_pos_add_fields fun_eq_iff)
  have "cell_ok ?p ?sh (kv_seq c ! i) True"
    using D(7)[OF i] q in_range by (auto simp: cell_ok_def)
  then have "replaced c i (?p, kv_ext c ! i, ?sh, kv_seq c ! i) (seq_pos_add i (?c1\<lparr>kv_has_shift := True\<rparr>))"
    using f(2) used_same[OF inv i, of ?p] p q by (intro recount_ok[OF inv i]) simp_all
  with f(1) D(1,3) i p d q in_range show ?thesis
    by (simp add: pos_div_def set_flag i32_in)
qed

section \<open>Operations on the whole array\<close>

lemma replicate_map: "map (\<lambda>_. x) xs = replicate (length xs) x"
  by (induction xs) auto

lemma empty_array_ok:
  assumes "kv_pos c = replicate n (-1)" "kv_ext c = replicate n ext_zero" "kv_shift c = replicate n 0"
    "kv_seq c = replicate n {}" "kv_used c = []" "kv_seq_pos c = (\<lambda>_. [])"
  shows "cells_inv c \<and> view c = replicate n empty_cell"
proof -
  have "used_set (kv_pos c) = {}" using assms(1) by (auto simp: used_set_def)
  moreover have "positions (replicate n (-1)) (replicate n {}) s = {#}" for s
    using positions_empty[of "\<lambda>_. -1" "replicate n ()" "replicate n ()"] by (simp add: replicate_map)
  ultimately show ?thesis
    using assms pm.tracks_empty
    by (auto simp: cells_inv_def cells_size_def cell_ok_def view_def cell_at_def empty_cell_def
        intro!: nth_equalityI)
qed

lemma reset_ok:
  assumes "cells_inv c"
  shows "cells_inv (reset c) \<and> view (reset c) = replicate (cells_size c) empty_cell \<and> \<not> kv_has_shift (reset c)"
  using empty_array_ok[of "reset c" "cells_size c"] cells_inv_D[OF assms]
  by (simp add: reset_def replicate_map)

lemma length_vec_resize [simp]: "length (vec_resize n x xs) = n"
  by (simp add: vec_resize_def)

lemma resize_ok:
  "cells_inv (resize n c) \<and> view (resize n c) = replicate n empty_cell \<and> \<not> kv_has_shift (resize n c)"
  using empty_array_ok[of "resize n c" n] by (simp add: resize_def reset_def replicate_map)

lemma reset_shift_ok:
  assumes "cells_inv c"
  shows "cells_inv (reset_shift c) \<and> \<not> kv_has_shift (reset_shift c) \<and>
     view (reset_shift c) = map (\<lambda>(p, e, sh, S). (p, e, 0, S)) (view c)"
  using cells_inv_D[OF assms] assms
  by (auto simp: cells_inv_def reset_shift_def cells_size_def cell_ok_def view_def cell_at_def)

section \<open>Queries\<close>

definition seq_cells :: "llama_kv_cells \<Rightarrow> nat \<Rightarrow> nat set" where
  "seq_cells c s = {i. i < cells_size c \<and> s \<in> kv_seq c ! i}"

lemma set_positions:
  assumes "cells_inv c"
  shows "set_mset (positions (kv_pos c) (kv_seq c) s) = (\<lambda>i. kv_pos c ! i) ` seq_cells c s"
  using in_positions[of "kv_pos c" "kv_seq c" _ s] cells_inv_D[OF assms]
  by (auto simp: seq_cells_def image_iff)

lemma positions_empty_iff:
  "cells_inv c \<Longrightarrow> positions (kv_pos c) (kv_seq c) s = {#} \<longleftrightarrow> seq_cells c s = {}"
  using set_positions[of c s] by (metis image_is_empty set_mset_eq_empty_iff)

lemma finite_seq_cells [simp]: "finite (seq_cells c s)"
  by (simp add: seq_cells_def)

lemma pm_head_pos: "pm_inv ((p, k) # m) \<Longrightarrow> 0 < k"
  by (simp add: pm_inv_Cons)

lemma pm_last_pos: "pm_inv m \<Longrightarrow> m \<noteq> [] \<Longrightarrow> 0 < snd (last m)"
  by (simp add: pm_inv_def)

lemma tracks_inv: "pm_tracks m M \<Longrightarrow> pm_inv m"
  by (simp add: tracks_def)

lemma seq_pos_min_ok:
  assumes inv: "cells_inv c" and s: "s < LLAMA_MAX_SEQ"
  shows "seq_pos_min c (int s) =
     Some (if seq_cells c s = {} then -1 else Min ((\<lambda>i. kv_pos c ! i) ` seq_cells c s))"
proof -
  note t = cells_inv_D(6)[OF inv, of s]
  show ?thesis
  proof (cases "seq_cells c s = {}")
    case True
    then have "pm_first (kv_seq_pos c s) = None"
      using pm.tracks_first_None t positions_empty_iff[OF inv, of s] by simp
    with True s show ?thesis by (simp add: seq_pos_min_def pm_first_def split: list.splits)
  next
    case False
    then have "pm_first (kv_seq_pos c s) = Some (Min ((\<lambda>i. kv_pos c ! i) ` seq_cells c s))"
      using pm.tracks_first[OF t] positions_empty_iff[OF inv, of s] set_positions[OF inv, of s] by simp
    with False s tracks_inv[OF t] show ?thesis
      by (auto simp: seq_pos_min_def pm_first_def pm_inv_Cons split: list.splits)
  qed
qed

lemma seq_pos_max_ok:
  assumes inv: "cells_inv c" and s: "s < LLAMA_MAX_SEQ"
  shows "seq_pos_max c (int s) =
     Some (if seq_cells c s = {} then -1 else Max ((\<lambda>i. kv_pos c ! i) ` seq_cells c s))"
proof -
  note t = cells_inv_D(6)[OF inv, of s]
  show ?thesis
  proof (cases "seq_cells c s = {}")
    case True
    then have "pm_last (kv_seq_pos c s) = None"
      using pm.tracks_final_None t positions_empty_iff[OF inv, of s] by simp
    with True s show ?thesis by (simp add: seq_pos_max_def pm_last_def split: if_splits)
  next
    case False
    then have "pm_last (kv_seq_pos c s) = Some (Max ((\<lambda>i. kv_pos c ! i) ` seq_cells c s))"
      using pm.tracks_final[OF t] positions_empty_iff[OF inv, of s] set_positions[OF inv, of s] by simp
    with False s tracks_inv[OF t] pm_last_pos show ?thesis
      by (auto simp: seq_pos_max_def pm_last_def split: if_splits)
  qed
qed

lemma is_empty_ok:
  assumes "cells_inv c" "i < cells_size c"
  shows "is_empty c i = Some (kv_pos c ! i = -1)"
  using cells_inv_D(7)[OF assms] assms(2) by (auto simp: is_empty_def cell_ok_def)

lemma used_ok:
  assumes "cells_inv c"
  shows "get_used c = card {i. i < cells_size c \<and> kv_pos c ! i \<noteq> -1} \<and>
     (\<forall>i < cells_size c. kv_pos c ! i \<noteq> -1 \<longrightarrow> used_min c \<le> i \<and> i < used_max_p1 c) \<and>
     used_max_p1 c \<le> cells_size c \<and> (used_max_p1 c = 0 \<longleftrightarrow> (\<forall>i < cells_size c. kv_pos c ! i = -1))"
proof -
  note D = cells_inv_D[OF assms]
  have u: "used_set (kv_pos c) = {i. i < cells_size c \<and> kv_pos c ! i \<noteq> -1}"
    by (simp add: used_set_def cells_size_def)
  have e: "kv_used c = [] \<longleftrightarrow> used_set (kv_pos c) = {}" using D(5) by simp
  have h: "used_set (kv_pos c) \<noteq> {} \<Longrightarrow> used_min c = Min (used_set (kv_pos c))"
    "used_set (kv_pos c) \<noteq> {} \<Longrightarrow> used_max_p1 c = Max (used_set (kv_pos c)) + 1"
    using D(5) by (simp_all add: used_min_def used_max_p1_def ord_simps)
  have m: "used_set (kv_pos c) \<noteq> {} \<Longrightarrow> Max (used_set (kv_pos c)) \<in> used_set (kv_pos c)" by simp
  show ?thesis
  proof (cases "used_set (kv_pos c) = {}")
    case True
    then show ?thesis using e u D(5) by (auto simp: get_used_def used_min_def used_max_p1_def)
  next
    case False
    have "\<forall>i < cells_size c. kv_pos c ! i \<noteq> -1 \<longrightarrow> used_min c \<le> i \<and> i < used_max_p1 c"
    proof (intro allI impI)
      fix i assume "i < cells_size c" "kv_pos c ! i \<noteq> -1"
      then have "i \<in> used_set (kv_pos c)" using u by simp
      then show "used_min c \<le> i \<and> i < used_max_p1 c"
        using h[OF False] by (simp add: less_Suc_eq_le)
    qed
    moreover have "used_max_p1 c \<le> cells_size c" using h(2)[OF False] m[OF False] u by auto
    moreover have "used_max_p1 c \<noteq> 0" using h(2)[OF False] by simp
    moreover have "get_used c = card (used_set (kv_pos c))" using D(5) by (simp add: get_used_def)
    ultimately show ?thesis using False u by auto
  qed
qed

lemma seq_get_ok:
  assumes inv: "cells_inv c" and i: "i < cells_size c"
  shows "seq_get c i = Some (int s) \<longleftrightarrow> kv_seq c ! i = {s}"
proof -
  have len: "length (kv_seq c) = cells_size c" and ok: "kv_seq c ! i \<subseteq> {..<LLAMA_MAX_SEQ}"
    using cells_inv_D[OF inv] i by (auto simp: cell_ok_def)
  have f: "find (\<lambda>s. s \<in> {t}) [0..<LLAMA_MAX_SEQ] = Some t" if "t < LLAMA_MAX_SEQ" for t
    unfolding find_Some_iff using that by (intro exI[of _ t]) simp
  show ?thesis
  proof (cases "card (kv_seq c ! i) = 1")
    case True
    then obtain t where t: "kv_seq c ! i = {t}" by (auto simp: card_1_singleton_iff)
    with ok f[of t] len i show ?thesis by (auto simp: seq_get_def)
  next
    case False
    then show ?thesis using len i by (auto simp: seq_get_def)
  qed
qed

section \<open>Saving and restoring groups of cells\<close>

lemma cp_ok:
  assumes inv: "cells_inv c" and idxs: "\<forall>i \<in> set idxs. i < cells_size c \<and> kv_shift c ! i = 0"
  shows "\<exists>r. cp c idxs = Some r \<and> cells_size r = length idxs \<and>
     (\<forall>j < length idxs. kv_pos r ! j = kv_pos c ! (idxs ! j) \<and> kv_ext r ! j = kv_ext c ! (idxs ! j) \<and>
        kv_seq r ! j = kv_seq c ! (idxs ! j))"
proof -
  let ?n = "length idxs"
  let ?P = "\<lambda>k r. length (kv_pos r) = ?n \<and> length (kv_ext r) = ?n \<and> length (kv_seq r) = ?n \<and>
     (\<forall>j < k. kv_pos r ! j = kv_pos c ! (idxs ! j) \<and> kv_ext r ! j = kv_ext c ! (idxs ! j) \<and>
        kv_seq r ! j = kv_seq c ! (idxs ! j))"
  have start: "?P 0 (resize ?n cells_init)"
    by (simp add: resize_def reset_def)
  have step: "\<exists>r'. cp_cell c (idxs ! k) k r = Some r' \<and> ?P (Suc k) r'" if "k < ?n" "?P k r" for k r
    using that idxs by (auto simp: cp_cell_def nth_list_update less_Suc_eq)
  have "\<exists>r. cp c idxs = Some r \<and> ?P ?n r"
    unfolding cp_def by (rule foldM_upt[where P = ?P, OF start]) (rule step)
  then show ?thesis by (auto simp: cells_size_def)
qed

lemma cp_range_idxs:
  "i + n \<le> cells_size c \<Longrightarrow> cp_range c i n = cp c [i..<i + n]"
  unfolding cp_range_def cp_def by (simp, rule foldM_cong) simp_all

lemma set_cell_ok:
  assumes inv: "cells_inv c" and i: "i < cells_size c" and "kv_shift c ! i = 0"
    and o: "kv_pos other ! j = p" "kv_ext other ! j = e" "kv_seq other ! j = S"
    and ok: "cell_ok p 0 S True"
  shows "\<exists>c'. set_cell other i j c = Some c' \<and> replaced c i (p, e, 0, S) c' \<and> kv_has_shift c' = kv_has_shift c"
proof -
  note D = cells_inv_D[OF inv]
  obtain f where f: "seq_pos_rm i c = Some (c\<lparr>kv_seq_pos := f\<rparr>)"
    "\<And>s. pm_tracks (f s) (positions (kv_pos c) (kv_seq c) s - own (kv_pos c ! i) (kv_seq c ! i) s)"
    using seq_pos_rm_ok[OF inv i] by blast
  define u where "u = (if kv_pos c ! i = -1 \<and> p \<noteq> -1 then oset_insert i (kv_used c)
    else if kv_pos c ! i \<noteq> -1 \<and> p = -1 then oset_erase i (kv_used c) else kv_used c)"
  define g where "g = (if kv_pos c ! i \<noteq> -1 then f else kv_seq_pos c)"
  have rm_used: "seq_pos_rm i (c\<lparr>kv_used := x\<rparr>) = map_option (\<lambda>c. c\<lparr>kv_used := x\<rparr>) (seq_pos_rm i c)" for x
  proof -
    let ?st = "\<lambda>s c. if s \<in> kv_seq c ! i then seq_pos_dec s (kv_pos c ! i) c else Some c"
    have swap: "c\<lparr>kv_used := x, kv_seq_pos := y\<rparr> = c\<lparr>kv_seq_pos := y, kv_used := x\<rparr>" for c y by simp
    have "foldM ?st l (c\<lparr>kv_used := x\<rparr>) = map_option (\<lambda>c. c\<lparr>kv_used := x\<rparr>) (foldM ?st l c)" for l c
    proof (induction l arbitrary: c)
      case (Cons a l)
      show ?case
        by (cases "pm_dec (kv_pos c ! i) (kv_seq_pos c a)"; cases "a \<in> kv_seq c ! i")
          (use Cons[of "c\<lparr>kv_seq_pos := (kv_seq_pos c)(a := m)\<rparr>" for m] Cons[of c] in \<open>auto simp: seq_pos_dec_def swap\<close>)
    qed simp
    then show ?thesis by (simp add: seq_pos_rm_def)
  qed
  define c2 where "c2 = c\<lparr>kv_used := u, kv_seq_pos := g, kv_pos := (kv_pos c)[i := p],
    kv_ext := (kv_ext c)[i := e], kv_seq := (kv_seq c)[i := S]\<rparr>"
  have g: "pm_tracks (g s) (positions (kv_pos c) (kv_seq c) s - own (kv_pos c ! i) (kv_seq c ! i) s)" for s
    using f(2) D(6) D(7)[OF i] by (auto simp: g_def cell_ok_def)
  have u: "u = sorted_list_of_set (if p = -1 then used_set (kv_pos c) - {i} else insert i (used_set (kv_pos c)))"
    using used_same[OF inv i, of p] used_erased[OF inv] used_inserted[OF inv] by (auto simp: u_def)
  have r: "replaced c i (p, e, 0, S) (seq_pos_add i c2)"
    using g u ok assms(3) D(7)[OF i] update_same[of "kv_shift c" i 0]
    by (intro recount_ok[OF inv i]) (simp_all add: c2_def cell_ok_def)
  have "p = -1 \<Longrightarrow> S = {}" using ok by (simp add: cell_ok_def)
  then have "p = -1 \<Longrightarrow> seq_pos_add i c2 = c2"
    using i D(4) by (intro llama_kv_cells.equality) (auto simp: seq_pos_add_fields fun_eq_iff c2_def)
  then have "(if p \<noteq> -1 then seq_pos_add i c2 else c2) = seq_pos_add i c2" by simp
  moreover have "set_cell other i j c = Some (if p \<noteq> -1 then seq_pos_add i c2 else c2)"
    using f(1) i D(1) assms(3) o
    by (cases "kv_pos c ! i = -1"; cases "p = -1")
      (simp_all add: set_cell_def rm_used u_def g_def c2_def)
  ultimately show ?thesis using r by (simp add: c2_def)
qed

lemma cell_ok_mono: "cell_ok p sh S b \<Longrightarrow> cell_ok p sh S True"
  by (auto simp: cell_ok_def)

lemma cells_eqI:
  assumes "cells_inv c" "cells_inv c'" "cells_size c = cells_size c'" "kv_has_shift c = kv_has_shift c'"
    and "\<And>i. i < cells_size c \<Longrightarrow> cell_at c i = cell_at c' i"
  shows "c = c'"
  using assms by (intro view_inject) (auto intro: nth_equalityI)

lemma set_idxs_ok:
  assumes inv: "cells_inv c" and idxs: "\<forall>i \<in> set idxs. i < cells_size c \<and> kv_shift c ! i = 0"
    and n: "cells_size other = length idxs"
    and o: "\<forall>j < length idxs. (kv_pos other ! j, kv_ext other ! j, 0, kv_seq other ! j) = x (idxs ! j) \<and>
      cell_ok (kv_pos other ! j) 0 (kv_seq other ! j) True"
  shows "\<exists>c'. set_idxs idxs other c = Some c' \<and> cells_inv c' \<and> kv_has_shift c' = kv_has_shift c \<and>
     cells_size c' = cells_size c \<and>
     (\<forall>i < cells_size c. cell_at c' i = (if i \<in> set idxs then x i else cell_at c i))"
proof -
  let ?P = "\<lambda>k c'. cells_inv c' \<and> kv_has_shift c' = kv_has_shift c \<and> cells_size c' = cells_size c \<and>
     (\<forall>i < cells_size c. cell_at c' i = (if i \<in> set (take k idxs) then x i else cell_at c i)) \<and>
     (\<forall>i \<in> set idxs. kv_shift c' ! i = 0)"
  have start: "?P 0 c" using inv idxs by simp
  have step: "\<exists>c'. set_cell other (idxs ! k) k d = Some c' \<and> ?P (Suc k) c'" if k: "k < length idxs" and P: "?P k d" for k d
  proof -
    let ?i = "idxs ! k"
    have i: "?i < cells_size d" "kv_shift d ! ?i = 0" using k P idxs by (auto simp: nth_mem)
    have ok: "cell_ok (kv_pos other ! k) 0 (kv_seq other ! k) True" using o k by simp
    obtain c' where c': "set_cell other ?i k d = Some c'"
      "replaced d ?i (kv_pos other ! k, kv_ext other ! k, 0, kv_seq other ! k) c'" "kv_has_shift c' = kv_has_shift d"
      using set_cell_ok[OF conjunct1[OF P] i refl refl refl ok] by blast
    note at = replaced_at[OF c'(2) i(1)] replaced_size[OF c'(2)]
    have "kv_shift c' ! j = 0" if "j \<in> set idxs" for j
      using at(1)[of j] that P idxs by (auto simp: cell_at_def split: if_splits)
    moreover have "cell_at c' j = (if j \<in> set (take (Suc k) idxs) then x j else cell_at c j)" if "j < cells_size c" for j
      using at(1)[of j] that P o k by (auto simp: take_Suc_conv_app_nth)
    ultimately show ?thesis using c' P at(2) by (auto simp: replaced_def)
  qed
  have "\<exists>c'. foldM (\<lambda>j. set_cell other (idxs ! j) j) [0..<length idxs] c = Some c' \<and> ?P (length idxs) c'"
    by (rule foldM_upt[where P = ?P, OF start]) (rule step)
  with n show ?thesis by (auto simp: set_idxs_def)
qed

lemma set_range_idxs:
  "i + cells_size other \<le> cells_size c \<Longrightarrow> set_range i other c = set_idxs [i..<i + cells_size other] other c"
  unfolding set_range_def set_idxs_def by (simp, rule foldM_cong) simp_all

text \<open>Cells saved with \<open>cp\<close> and put back with \<open>set\<close>: the old state, whatever was done to them.\<close>

lemma cells_restore:
  assumes inv: "cells_inv c" "cells_inv d" and size: "cells_size d = cells_size c"
    and flag: "kv_has_shift d = kv_has_shift c"
    and idxs: "\<forall>i \<in> set idxs. i < cells_size c \<and> kv_shift c ! i = 0 \<and> kv_shift d ! i = 0"
    and rest: "\<And>i. i < cells_size c \<Longrightarrow> i \<notin> set idxs \<Longrightarrow> cell_at d i = cell_at c i"
  shows "\<exists>r. cp c idxs = Some r \<and> set_idxs idxs r d = Some c"
proof -
  obtain r where r: "cp c idxs = Some r" "cells_size r = length idxs"
    "\<forall>j < length idxs. kv_pos r ! j = kv_pos c ! (idxs ! j) \<and> kv_ext r ! j = kv_ext c ! (idxs ! j) \<and>
        kv_seq r ! j = kv_seq c ! (idxs ! j)"
    using cp_ok[OF inv(1)] idxs by blast
  have "(kv_pos r ! j, kv_ext r ! j, 0, kv_seq r ! j) = cell_at c (idxs ! j) \<and>
      cell_ok (kv_pos r ! j) 0 (kv_seq r ! j) True" if "j < length idxs" for j
    using r(3) idxs that cells_inv_D(7)[OF inv(1), of "idxs ! j"] nth_mem[OF that]
    by (auto simp: cell_at_def intro: cell_ok_mono)
  then obtain c' where c': "set_idxs idxs r d = Some c'" "cells_inv c'" "kv_has_shift c' = kv_has_shift d"
    "cells_size c' = cells_size d"
    "\<forall>i < cells_size d. cell_at c' i = (if i \<in> set idxs then cell_at c i else cell_at d i)"
    using set_idxs_ok[OF inv(2) _ r(2), of "cell_at c"] idxs size by auto
  have "c' = c" using c' rest size flag by (intro cells_eqI[OF c'(2) inv(1)]) auto
  with r(1) c'(1) show ?thesis by blast
qed

end
