(* ===== verification/Ubatch.thy ===== *)
theory Ubatch
  imports KvCells
begin

text \<open>
  The micro-batch \<open>llama_ubatch\<close> of \<open>src/llama-batch.h\<close> that the batch allocator hands to the cache,
  and the sliding-window test of \<open>src/llama-hparams.cpp\<close>. A pointer that may be null is an option; a
  \<open>float\<close> is the word of its bits.
\<close>

type_synonym float32 = "32 word"

record llama_ubatch =
  ub_equal_seqs :: bool
  ub_n_tokens :: nat
  ub_n_seq_tokens :: nat
  ub_n_seqs :: nat
  ub_n_seqs_unq :: nat
  ub_n_pos :: nat
  ub_token :: "llama_token list option"
  ub_embd :: "float32 list option"
  ub_pos :: "llama_pos list"
  ub_n_seq_id :: "nat list"
  ub_seq_id :: "llama_seq_id list list"
  ub_seq_id_unq :: "llama_seq_id list"
  ub_seq_idx :: "int list"
  ub_output :: "bool list"

definition is_pos_2d :: "llama_ubatch \<Rightarrow> bool" where
  "is_pos_2d ub \<longleftrightarrow> ub_n_pos ub \<ge> 3"

text \<open>Reading an array of the micro-batch outside of its bounds is an error.\<close>

definition at :: "'a list \<Rightarrow> nat \<Rightarrow> 'a option" where
  "at xs i = (if i < length xs then Some (xs ! i) else None)"

lemma at_Some [simp]: "at xs i = Some x \<longleftrightarrow> i < length xs \<and> x = xs ! i"
  by (auto simp: at_def)

lemma at_in [simp]: "i < length xs \<Longrightarrow> at xs i = Some (xs ! i)"
  by simp

section \<open>Sliding windows\<close>

datatype llama_swa_type =
    LLAMA_SWA_TYPE_NONE
  | LLAMA_SWA_TYPE_STANDARD
  | LLAMA_SWA_TYPE_CHUNKED
  | LLAMA_SWA_TYPE_SYMMETRIC

text \<open>The conversion \<open>(int32_t) n\<close> of an unsigned number.\<close>

definition to_i32 :: "nat \<Rightarrow> int" where
  "to_i32 n = sint (of_nat n :: 32 word)"

definition is_masked_swa :: "nat \<Rightarrow> llama_swa_type \<Rightarrow> llama_pos \<Rightarrow> llama_pos \<Rightarrow> bool option" where
  "is_masked_swa n_swa swa_type p0 p1 = do {
     requires (p0 \<ge> 0 \<and> p1 \<ge> 0);
     case swa_type of
       LLAMA_SWA_TYPE_NONE \<Rightarrow> Some False
     | LLAMA_SWA_TYPE_STANDARD \<Rightarrow> Some (p1 - p0 \<ge> to_i32 n_swa)
     | LLAMA_SWA_TYPE_CHUNKED \<Rightarrow> do {
         requires (n_swa \<noteq> 0);
         let pos_chunk_start = (p1 div int n_swa) * int n_swa;
         Some (p0 < pos_chunk_start)
       }
     | LLAMA_SWA_TYPE_SYMMETRIC \<Rightarrow> do {
         let half_n_swa = c_div (to_i32 n_swa) 2;
         let pos_diff = p1 - p0;
         Some (pos_diff < - half_n_swa \<or> pos_diff > half_n_swa)
       }
   }"

lemma to_i32_small: "n < 2 ^ 31 \<Longrightarrow> to_i32 n = int n"
proof -
  assume n: "n < 2 ^ 31"
  have "uint (of_nat n :: 32 word) = int n" using n by (simp add: unsigned_of_nat take_bit_nat_eq_self)
  with n show ?thesis
    unfolding to_i32_def by (simp add: sint_uint signed_take_bit_int_eq_self)
qed

text \<open>No window masks a position at or after the current one, unless it is symmetric.\<close>

lemma is_masked_swa_total:
  "0 \<le> p0 \<Longrightarrow> 0 \<le> p1 \<Longrightarrow> n_swa \<noteq> 0 \<or> swa_type \<noteq> LLAMA_SWA_TYPE_CHUNKED \<Longrightarrow>
   \<exists>b. is_masked_swa n_swa swa_type p0 p1 = Some b"
  by (auto simp: is_masked_swa_def Let_def split: llama_swa_type.splits)

end
