(* ===== verification/KvCache.thy ===== *)
theory KvCache
  imports KvCellsLaws Ubatch
begin

text \<open>
  The unified key-value cache, class \<open>llama_kv_cache\<close> of \<open>src/llama-kv-cache.cpp\<close>, without the tensors:
  one array of cells and one search head per stream, the map from sequences to streams and the
  pending copies of streams. Failed assertions and accesses out of bounds are \<open>None\<close>.
\<close>

section \<open>State\<close>

record kv_cache =
  kc_v_trans :: bool
  kc_n_seq_max :: nat
  kc_n_stream :: nat
  kc_n_pad :: nat
  kc_n_swa :: nat
  kc_swa_type :: llama_swa_type
  kc_n_pos_per_embd :: nat      \<comment> \<open>\<open>hparams.n_pos_per_embd()\<close>\<close>
  kc_n_embd_v_gqa_max :: nat    \<comment> \<open>\<open>hparams.n_embd_v_gqa_max()\<close>\<close>
  kc_use_alibi :: bool          \<comment> \<open>\<open>hparams.use_alibi\<close>\<close>
  kc_heads :: "nat list"
  kc_cells :: "llama_kv_cells list"
  kc_seq_to_stream :: "nat list"
  kc_ssrc :: "nat list"
  kc_sdst :: "nat list"

definition kv_cache_init ::
  "bool \<Rightarrow> bool \<Rightarrow> nat \<Rightarrow> nat \<Rightarrow> nat \<Rightarrow> nat \<Rightarrow> llama_swa_type \<Rightarrow> nat \<Rightarrow> nat \<Rightarrow> bool \<Rightarrow> kv_cache option" where
  "kv_cache_init v_trans unified kv_size n_seq_max n_pad n_swa swa_type n_pos n_embd_v alibi = do {
     requires (n_pad \<noteq> 0 \<and> kv_size mod n_pad = 0);
     let n_stream = (if unified then 1 else n_seq_max);
     Some \<lparr>kc_v_trans = v_trans, kc_n_seq_max = n_seq_max, kc_n_stream = n_stream, kc_n_pad = n_pad,
           kc_n_swa = n_swa, kc_swa_type = swa_type, kc_n_pos_per_embd = n_pos,
           kc_n_embd_v_gqa_max = n_embd_v, kc_use_alibi = alibi,
           kc_heads = replicate n_stream 0,
           kc_cells = replicate n_stream (resize kv_size cells_init),
           kc_seq_to_stream = (if n_stream > 1 then [0..<n_stream] else replicate LLAMA_MAX_SEQ 0),
           kc_ssrc = [], kc_sdst = []\<rparr>
   }"

text \<open>The stream of a sequence; the assertion on \<open>seq_id\<close> opens most operations.\<close>

definition stream_of :: "kv_cache \<Rightarrow> llama_seq_id \<Rightarrow> nat option" where
  "stream_of kc seq_id = do {
     requires (seq_id \<ge> 0 \<and> nat seq_id < length (kc_seq_to_stream kc));
     Some (kc_seq_to_stream kc ! nat seq_id)
   }"

definition cells_of :: "kv_cache \<Rightarrow> nat \<Rightarrow> llama_kv_cells option" where
  "cells_of kc s = at (kc_cells kc) s"

definition head_of :: "kv_cache \<Rightarrow> nat \<Rightarrow> nat option" where
  "head_of kc s = at (kc_heads kc) s"

definition put_stream :: "nat \<Rightarrow> llama_kv_cells \<Rightarrow> nat \<Rightarrow> kv_cache \<Rightarrow> kv_cache" where
  "put_stream s c h kc = kc\<lparr>kc_cells := (kc_cells kc)[s := c], kc_heads := (kc_heads kc)[s := h]\<rparr>"

definition kv_clear :: "kv_cache \<Rightarrow> kv_cache" where
  "kv_clear kc = kc\<lparr>kc_cells := map reset (kc_cells kc), kc_heads := map (\<lambda>_. 0) (kc_heads kc)\<rparr>"

definition get_size :: "kv_cache \<Rightarrow> nat option" where
  "get_size kc = do {
     s \<leftarrow> at (kc_seq_to_stream kc) 0;
     c \<leftarrow> cells_of kc s;
     Some (cells_size c)
   }"

definition get_has_shift :: "kv_cache \<Rightarrow> bool" where
  "get_has_shift kc = (\<exists>c \<in> set (kc_cells kc). kv_has_shift c)"

section \<open>Operations on a sequence\<close>

text \<open>
  A loop over all cells; \<open>new_head\<close> is the first cell that the loop has freed, the number of cells if
  there is none.
\<close>

definition cell_loop ::
  "(nat \<Rightarrow> llama_kv_cells \<Rightarrow> (bool \<times> llama_kv_cells) option) \<Rightarrow> llama_kv_cells \<Rightarrow> (nat \<times> llama_kv_cells) option" where
  "cell_loop f c =
     foldM (\<lambda>i (new_head, c). do {
         (freed, c) \<leftarrow> f i c;
         Some (if freed \<and> new_head = cells_size c then i else new_head, c)
       }) [0..<cells_size c] (cells_size c, c)"

definition lower :: "llama_pos \<Rightarrow> llama_pos" where
  "lower p0 = (if p0 < 0 then 0 else p0)"

definition upper :: "llama_pos \<Rightarrow> llama_pos" where
  "upper p1 = (if p1 < 0 then INT32_MAX else p1)"

definition freed_head :: "nat \<Rightarrow> nat \<Rightarrow> nat \<Rightarrow> nat" where
  "freed_head new_head n head = (if new_head \<noteq> n \<and> new_head < head then new_head else head)"

definition seq_rm_body :: "llama_seq_id \<Rightarrow> llama_pos \<Rightarrow> llama_pos \<Rightarrow> nat \<Rightarrow> llama_kv_cells \<Rightarrow> (bool \<times> llama_kv_cells) option" where
  "seq_rm_body seq_id p0 p1 i c = do {
     inside \<leftarrow> pos_in c i p0 p1;
     if \<not> inside then Some (False, c)
     else do {
       has \<leftarrow> seq_has c i seq_id;
       if has then seq_rm i seq_id c else Some (False, c)
     }
   }"

definition rm_body :: "llama_pos \<Rightarrow> llama_pos \<Rightarrow> nat \<Rightarrow> llama_kv_cells \<Rightarrow> (bool \<times> llama_kv_cells) option" where
  "rm_body p0 p1 i c = do {
     inside \<leftarrow> pos_in c i p0 p1;
     if \<not> inside then Some (False, c) else map_option (Pair True) (rm i c)
   }"

definition loop_stream ::
  "(nat \<Rightarrow> llama_kv_cells \<Rightarrow> (bool \<times> llama_kv_cells) option) \<Rightarrow> (nat \<Rightarrow> nat \<Rightarrow> nat \<Rightarrow> nat) \<Rightarrow>
   nat \<Rightarrow> kv_cache \<Rightarrow> kv_cache option" where
  "loop_stream f move s kc = do {
     c \<leftarrow> cells_of kc s;
     head \<leftarrow> head_of kc s;
     (new_head, c) \<leftarrow> cell_loop f c;
     Some (put_stream s c (move new_head (cells_size c) head) kc)
   }"

text \<open>Returns \<open>true\<close> in every case.\<close>

definition kv_seq_rm :: "llama_seq_id \<Rightarrow> llama_pos \<Rightarrow> llama_pos \<Rightarrow> kv_cache \<Rightarrow> kv_cache option" where
  "kv_seq_rm seq_id p0 p1 kc =
     (if seq_id = -1 then foldM (loop_stream (rm_body (lower p0) (upper p1)) freed_head) [0..<kc_n_stream kc] kc
      else do {
        s \<leftarrow> stream_of kc seq_id;
        loop_stream (seq_rm_body seq_id (lower p0) (upper p1)) freed_head s kc
      })"

definition seq_cp_body ::
  "llama_seq_id \<Rightarrow> llama_seq_id \<Rightarrow> llama_pos \<Rightarrow> llama_pos \<Rightarrow> nat \<Rightarrow> llama_kv_cells \<Rightarrow> (bool \<times> llama_kv_cells) option" where
  "seq_cp_body src dst p0 p1 i c = do {
     inside \<leftarrow> pos_in c i p0 p1;
     if \<not> inside then Some (False, c)
     else do {
       has \<leftarrow> seq_has c i src;
       if has then map_option (Pair False) (seq_add i dst c) else Some (False, c)
     }
   }"

text \<open>
  One turn of the copy into another stream. (In \<open>kv_seq_cp\<close> below, \<open>p0 + 1\<close> and \<open>p1 + 1\<close> must not
  overflow.)
\<close>

definition copy_cell :: "llama_kv_cells \<Rightarrow> llama_seq_id \<Rightarrow> llama_seq_id \<Rightarrow> nat \<Rightarrow> llama_kv_cells \<Rightarrow> llama_kv_cells option" where
  "copy_cell c0 src dst i c1 = do {
     has \<leftarrow> seq_has c0 i src;
     if \<not> has then Some c1
     else do {
       pos \<leftarrow> pos_get c0 i;
       shift \<leftarrow> get_shift c0 i;
       ext \<leftarrow> ext_get c0 i;
       pos \<leftarrow> (if shift \<noteq> 0 then do { pos \<leftarrow> i32 (pos - shift); requires (pos \<ge> 0); Some pos } else Some pos);
       c1 \<leftarrow> pos_set i pos c1;
       c1 \<leftarrow> seq_add i dst c1;
       c1 \<leftarrow> (if shift \<noteq> 0 then map_option snd (pos_add i shift c1) else Some c1);
       ext_set i ext c1
     }
   }"

definition kv_seq_cp :: "llama_seq_id \<Rightarrow> llama_seq_id \<Rightarrow> llama_pos \<Rightarrow> llama_pos \<Rightarrow> kv_cache \<Rightarrow> kv_cache option" where
  "kv_seq_cp src dst p0 p1 kc = do {
     s0 \<leftarrow> stream_of kc src;
     s1 \<leftarrow> stream_of kc dst;
     if s0 = s1 then
       (if src = dst then Some kc
        else loop_stream (seq_cp_body src dst (lower p0) (upper p1)) (\<lambda>_ _ head. head) s0 kc)
     else do {
       n \<leftarrow> get_size kc;
       requires (p0 \<noteq> INT32_MAX \<and> p1 \<noteq> INT32_MAX);
       requires (\<not> (p0 > 0 \<and> p0 + 1 < int n) \<and> \<not> (p1 > 0 \<and> p1 + 1 < int n));
       c0 \<leftarrow> cells_of kc s0;
       h0 \<leftarrow> head_of kc s0;
       c1 \<leftarrow> cells_of kc s1;
       c1 \<leftarrow> foldM (copy_cell c0 src dst) [0..<cells_size c0] (reset c1);
       Some ((put_stream s1 c1 h0 kc)\<lparr>kc_ssrc := kc_ssrc kc @ [s0], kc_sdst := kc_sdst kc @ [s1]\<rparr>)
     }
   }"

definition kv_seq_keep :: "llama_seq_id \<Rightarrow> kv_cache \<Rightarrow> kv_cache option" where
  "kv_seq_keep seq_id kc = do {
     s \<leftarrow> stream_of kc seq_id;
     loop_stream (\<lambda>i. seq_keep i seq_id) freed_head s kc
   }"

definition seq_add_body :: "llama_seq_id \<Rightarrow> llama_pos \<Rightarrow> llama_pos \<Rightarrow> llama_pos \<Rightarrow> nat \<Rightarrow> llama_kv_cells \<Rightarrow> (bool \<times> llama_kv_cells) option" where
  "seq_add_body seq_id p0 p1 shift i c = do {
     inside \<leftarrow> pos_in c i p0 p1;
     if \<not> inside then Some (False, c)
     else do {
       has \<leftarrow> seq_has c i seq_id;
       if has then pos_add i shift c else Some (False, c)
     }
   }"

definition kv_seq_add :: "llama_seq_id \<Rightarrow> llama_pos \<Rightarrow> llama_pos \<Rightarrow> llama_pos \<Rightarrow> kv_cache \<Rightarrow> kv_cache option" where
  "kv_seq_add seq_id p0 p1 shift kc = do {
     s \<leftarrow> stream_of kc seq_id;
     requires (kc_n_pos_per_embd kc = 1);
     if shift = 0 then Some kc
     else if lower p0 = upper p1 then Some kc
     else loop_stream (seq_add_body seq_id (lower p0) (upper p1) shift)
            (\<lambda>new_head n head. if new_head \<noteq> n then new_head else 0) s kc
   }"

definition seq_div_body :: "llama_seq_id \<Rightarrow> llama_pos \<Rightarrow> llama_pos \<Rightarrow> int \<Rightarrow> nat \<Rightarrow> llama_kv_cells \<Rightarrow> (bool \<times> llama_kv_cells) option" where
  "seq_div_body seq_id p0 p1 d i c = do {
     inside \<leftarrow> pos_in c i p0 p1;
     if \<not> inside then Some (False, c)
     else do {
       has \<leftarrow> seq_has c i seq_id;
       if has then map_option (Pair False) (pos_div i d c) else Some (False, c)
     }
   }"

definition kv_seq_div :: "llama_seq_id \<Rightarrow> llama_pos \<Rightarrow> llama_pos \<Rightarrow> int \<Rightarrow> kv_cache \<Rightarrow> kv_cache option" where
  "kv_seq_div seq_id p0 p1 d kc = do {
     s \<leftarrow> stream_of kc seq_id;
     requires (kc_n_pos_per_embd kc = 1);
     if d = 1 then Some kc
     else if lower p0 = upper p1 then Some kc
     else loop_stream (seq_div_body seq_id (lower p0) (upper p1) d) (\<lambda>_ _ head. head) s kc
   }"

definition kv_seq_pos_min :: "kv_cache \<Rightarrow> llama_seq_id \<Rightarrow> llama_pos option" where
  "kv_seq_pos_min kc seq_id = do {
     s \<leftarrow> stream_of kc seq_id;
     c \<leftarrow> cells_of kc s;
     seq_pos_min c seq_id
   }"

definition kv_seq_pos_max :: "kv_cache \<Rightarrow> llama_seq_id \<Rightarrow> llama_pos option" where
  "kv_seq_pos_max kc seq_id = do {
     s \<leftarrow> stream_of kc seq_id;
     c \<leftarrow> cells_of kc s;
     seq_pos_max c seq_id
   }"

text \<open>
  The bookkeeping of \<open>update\<close>. The copies of the buffers and the K-shift graph act on tensors only;
  \<open>computed\<close> says whether that graph was allocated and computed (both failures return early).
\<close>

definition kv_update :: "bool \<Rightarrow> bool \<Rightarrow> bool \<Rightarrow> nat list \<times> nat list \<Rightarrow> kv_cache \<Rightarrow> (bool \<times> kv_cache) option" where
  "kv_update rope_none computed do_shift sc_info kc = do {
     requires (length (fst sc_info) = length (snd sc_info));
     requires (fst sc_info = [] \<or> kc_n_stream kc > 1);
     requires (\<forall>(src, dst) \<in> set (zip (fst sc_info) (snd sc_info)).
       src < kc_n_stream kc \<and> dst < kc_n_stream kc \<and> src \<noteq> dst);
     if do_shift then
       (if \<not> rope_none \<and> \<not> computed then Some (False, kc)
        else Some (\<not> rope_none, kc\<lparr>kc_cells := map reset_shift (kc_cells kc)\<rparr>))
     else Some (False, kc)
   }"

end
