(* ===== verification/KvSlot.thy ===== *)
theory KvSlot
  imports KvCache
begin

text \<open>
  Placing micro-batches into the cache: \<open>find_slot\<close>, \<open>apply_ubatch\<close> and \<open>prepare\<close> of
  \<open>src/llama-kv-cache.cpp\<close>, the inputs of the attention graph computed from the cells, and the
  context \<open>llama_kv_cache_context\<close> that applies the prepared slots one after the other.
\<close>

section \<open>Slots\<close>

record slot_info =
  si_s0 :: nat
  si_s1 :: nat
  si_strm :: "nat list"
  si_idxs :: "nat list list"

definition slot_none :: slot_info where
  "slot_none = \<lparr>si_s0 = 0, si_s1 = 0, si_strm = [], si_idxs = []\<rparr>"

definition slot_empty :: "slot_info \<Rightarrow> bool" where
  "slot_empty si \<longleftrightarrow> si_idxs si = []"

definition slot_size :: "slot_info \<Rightarrow> nat option" where
  "slot_size si = do {
     requires (length (si_idxs si) = length (si_strm si));
     requires (si_idxs si \<noteq> []);
     Some (length (si_idxs si ! 0))
   }"

definition slot_head :: "slot_info \<Rightarrow> nat option" where
  "slot_head si = do {
     requires (length (si_idxs si) = 1);
     requires (si_idxs si ! 0 \<noteq> []);
     Some (si_idxs si ! 0 ! 0)
   }"

definition is_contiguous :: "slot_info \<Rightarrow> bool" where
  "is_contiguous si =
     (if si_idxs si = [] \<or> si_idxs si ! 0 = [] then True
      else if length (si_idxs si) > 1 then False
      else let h = si_idxs si ! 0 ! 0 in
        (\<forall>i < length (si_idxs si ! 0). si_idxs si ! 0 ! i = h + i))"

section \<open>find_slot\<close>

definition can_use :: "kv_cache \<Rightarrow> llama_kv_cells \<Rightarrow> nat \<Rightarrow> bool option" where
  "can_use kc cells idx = do {
     e \<leftarrow> is_empty cells idx;
     if e then Some True
     else do {
       n \<leftarrow> seq_count cells idx;
       if n = 1 then do {
         pos_cell \<leftarrow> pos_get cells idx;
         seq_id_cell \<leftarrow> seq_get cells idx;
         mx \<leftarrow> seq_pos_max cells seq_id_cell;
         mx1 \<leftarrow> i32 (mx + 1);
         is_masked_swa (kc_n_swa kc) (kc_swa_type kc) pos_cell mx1
       }
       else Some False
     }
   }"

text \<open>The inner loop: \<open>k\<close> cells from \<open>head_cur\<close> on; a contiguous search stops at the first one in use.\<close>

fun test_cells :: "(nat \<Rightarrow> bool option) \<Rightarrow> bool \<Rightarrow> nat \<Rightarrow> nat \<times> nat \<times> nat list \<Rightarrow> (nat \<times> nat \<times> nat list) option" where
  "test_cells can cont 0 st = Some st"
| "test_cells can cont (Suc k) (head_cur, n_tested, idxs) = do {
     b \<leftarrow> can head_cur;
     if b then test_cells can cont k (head_cur + 1, n_tested + 1, idxs @ [head_cur])
     else if cont then Some (head_cur + 1, n_tested + 1, idxs)
     else test_cells can cont k (head_cur + 1, n_tested + 1, idxs)
   }"

text \<open>The outer loop; the result is \<open>None\<close> when no slot is left.\<close>

partial_function (option) slot_search ::
  "(nat \<Rightarrow> bool option) \<Rightarrow> bool \<Rightarrow> nat \<Rightarrow> nat \<Rightarrow> nat \<times> nat \<times> nat list \<Rightarrow> nat list option option" where
  "slot_search can cont n n_tokens st =
     (if fst st + (if cont then n_tokens else 1) > n
      then slot_search can cont n n_tokens (0, fst (snd st) + (n - fst st), snd (snd st))
      else Option.bind (test_cells can cont (if cont then n_tokens else 1) st) (\<lambda>st1.
        if length (snd (snd st1)) = n_tokens then Some (Some (snd (snd st1)))
        else if fst (snd st1) \<ge> n then Some None
        else slot_search can cont n n_tokens
               (fst st1, fst (snd st1), if cont then [] else snd (snd st1))))"

declare slot_search.simps [code]

fun find_slot_seqs ::
  "kv_cache \<Rightarrow> llama_ubatch \<Rightarrow> bool \<Rightarrow> nat \<Rightarrow> nat list \<Rightarrow> slot_info \<Rightarrow> slot_info option" where
  "find_slot_seqs kc ub cont n_tokens [] res = do {
     requires (si_s1 res \<ge> si_s0 res);
     Some res
   }"
| "find_slot_seqs kc ub cont n_tokens (s # ss) res = do {
     seq_id \<leftarrow> at (ub_seq_id_unq ub) s;
     (if kc_n_stream kc > 1 then do {
        n \<leftarrow> at (ub_n_seq_id ub) (s * n_tokens);
        requires (n = 1);
        ids \<leftarrow> at (ub_seq_id ub) (s * n_tokens);
        sid \<leftarrow> at ids 0;
        requires (sid = seq_id)
      } else Some ());
     strm \<leftarrow> stream_of kc seq_id;
     cells \<leftarrow> cells_of kc strm;
     head_cur \<leftarrow> head_of kc strm;
     let head_cur = (if head_cur > get_used cells + 2 * n_tokens then 0 else head_cur);
     if n_tokens > cells_size cells then Some slot_none
     else do {
       r \<leftarrow> slot_search (can_use kc cells) cont (cells_size cells) n_tokens (head_cur, 0, []);
       (case r of
          None \<Rightarrow> Some slot_none
        | Some idxs \<Rightarrow>
            if length idxs < n_tokens then Some slot_none
            else find_slot_seqs kc ub cont n_tokens ss
              (res\<lparr>si_s0 := min (si_s0 res) strm, si_s1 := max (si_s1 res) strm,
                   si_strm := (si_strm res)[s := strm], si_idxs := (si_idxs res)[s := idxs]\<rparr>))
     }
   }"

definition find_slot :: "kv_cache \<Rightarrow> llama_ubatch \<Rightarrow> bool \<Rightarrow> slot_info option" where
  "find_slot kc ub cont = do {
     (n_seqs, n_tokens) \<leftarrow>
       (if kc_n_stream kc > 1 then do {
          requires (ub_n_seqs_unq ub \<noteq> 0 \<and> ub_n_tokens ub mod ub_n_seqs_unq ub = 0);
          Some (ub_n_seqs_unq ub, ub_n_tokens ub div ub_n_seqs_unq ub)
        } else Some (1, ub_n_tokens ub));
     find_slot_seqs kc ub cont n_tokens [0..<n_seqs]
       \<lparr>si_s0 = LLAMA_MAX_SEQ, si_s1 = 0, si_strm = replicate n_seqs 0, si_idxs = replicate n_seqs []\<rparr>
   }"

section \<open>apply_ubatch\<close>

text \<open>
  One token is written into its cell. \<open>mrm\<close> is the array \<open>seq_pos_max_rm\<close>: the largest position of each
  sequence that has been overwritten, -1 if none.
\<close>

definition evict :: "nat \<Rightarrow> llama_kv_cells \<times> (nat \<Rightarrow> llama_pos) \<Rightarrow> (llama_kv_cells \<times> (nat \<Rightarrow> llama_pos)) option" where
  "evict idx st = (case st of (cells, mrm) \<Rightarrow> do {
     e \<leftarrow> is_empty cells idx;
     if e then Some (cells, mrm)
     else do {
       n \<leftarrow> seq_count cells idx;
       requires (n = 1);
       seq_id \<leftarrow> seq_get cells idx;
       pos \<leftarrow> pos_get cells idx;
       s \<leftarrow> seq_bit seq_id;
       cells \<leftarrow> rm idx cells;
       Some (cells, mrm(s := max (mrm s) pos))
     }
   })"

definition apply_token ::
  "llama_ubatch \<Rightarrow> nat \<Rightarrow> nat \<Rightarrow> llama_kv_cells \<times> (nat \<Rightarrow> llama_pos) \<Rightarrow> (llama_kv_cells \<times> (nat \<Rightarrow> llama_pos)) option" where
  "apply_token ub i idx st = do {
     (cells, mrm) \<leftarrow> evict idx st;
     pos \<leftarrow> at (ub_pos ub) i;
     cells \<leftarrow> pos_set idx pos cells;
     cells \<leftarrow> (if is_pos_2d ub then do {
         x \<leftarrow> at (ub_pos ub) (i + ub_n_tokens ub * 2);
         y \<leftarrow> at (ub_pos ub) (i + ub_n_tokens ub);
         ext_set idx \<lparr>ext_x = x, ext_y = y\<rparr> cells
       } else Some cells);
     n \<leftarrow> at (ub_n_seq_id ub) i;
     ids \<leftarrow> at (ub_seq_id ub) i;
     cells \<leftarrow> foldM (\<lambda>k c. do { sid \<leftarrow> at ids k; seq_add idx sid c }) [0..<n] cells;
     Some (cells, mrm)
   }"

definition apply_stream ::
  "llama_ubatch \<Rightarrow> slot_info \<Rightarrow> nat \<Rightarrow> nat \<Rightarrow> kv_cache \<times> (nat \<Rightarrow> llama_pos) \<Rightarrow> (kv_cache \<times> (nat \<Rightarrow> llama_pos)) option" where
  "apply_stream ub sinfo n s st = (case st of (kc, mrm) \<Rightarrow> do {
     strm \<leftarrow> at (si_strm sinfo) s;
     idxs \<leftarrow> at (si_idxs sinfo) s;
     cells \<leftarrow> cells_of kc strm;
     (cells, mrm) \<leftarrow> foldM (\<lambda>ii st. do { idx \<leftarrow> at idxs ii; apply_token ub (s * n + ii) idx st })
                     [0..<n] (cells, mrm);
     Some (kc\<lparr>kc_cells := (kc_cells kc)[strm := cells]\<rparr>, mrm)
   })"

definition purge :: "(nat \<Rightarrow> llama_pos) \<Rightarrow> nat \<Rightarrow> kv_cache \<Rightarrow> kv_cache option" where
  "purge mrm s kc =
     (if mrm s = -1 then Some kc
      else do {
        strm \<leftarrow> stream_of kc (int s);
        cells \<leftarrow> cells_of kc strm;
        mn \<leftarrow> seq_pos_min cells (int s);
        if mn \<le> mrm s then do {
          p1 \<leftarrow> i32 (mrm s + 1);
          kv_seq_rm (int s) mn p1 kc
        } else Some kc
      })"

definition move_head :: "slot_info \<Rightarrow> nat \<Rightarrow> kv_cache \<Rightarrow> kv_cache option" where
  "move_head sinfo s kc = do {
     strm \<leftarrow> at (si_strm sinfo) s;
     idxs \<leftarrow> at (si_idxs sinfo) s;
     requires (idxs \<noteq> [] \<and> strm < length (kc_heads kc));
     Some (kc\<lparr>kc_heads := (kc_heads kc)[strm := last idxs + 1]\<rparr>)
   }"

definition apply_ubatch :: "slot_info \<Rightarrow> llama_ubatch \<Rightarrow> kv_cache \<Rightarrow> kv_cache option" where
  "apply_ubatch sinfo ub kc = do {
     n \<leftarrow> slot_size sinfo;
     requires (ub_n_tokens ub = length (si_strm sinfo) * n);
     (kc, mrm) \<leftarrow> foldM (apply_stream ub sinfo n) [0..<length (si_strm sinfo)] (kc, \<lambda>_. -1);
     kc \<leftarrow> foldM (purge mrm) [0..<LLAMA_MAX_SEQ] kc;
     foldM (move_head sinfo) [0..<length (si_strm sinfo)] kc
   }"

section \<open>prepare\<close>

record prep_state =
  ps_sinfo :: slot_info
  ps_heads_old :: "nat list"
  ps_cells :: "llama_kv_cells list"

definition save_cells :: "kv_cache \<Rightarrow> slot_info \<Rightarrow> llama_kv_cells list option" where
  "save_cells kc sinfo =
     foldM (\<lambda>s acc. do {
         strm \<leftarrow> at (si_strm sinfo) s;
         idxs \<leftarrow> at (si_idxs sinfo) s;
         cells \<leftarrow> cells_of kc strm;
         saved \<leftarrow> cp cells idxs;
         Some (acc @ [saved])
       }) [0..<length (si_strm sinfo)] []"

text \<open>Slots are found and applied one micro-batch after the other; the flag says whether all fitted.\<close>

fun prepare_loop ::
  "llama_ubatch list \<Rightarrow> kv_cache \<Rightarrow> slot_info list \<Rightarrow> prep_state list \<Rightarrow>
   (bool \<times> kv_cache \<times> slot_info list \<times> prep_state list) option" where
  "prepare_loop [] kc res states = Some (True, kc, res, states)"
| "prepare_loop (ub # ubs) kc res states = do {
     sinfo_new \<leftarrow> find_slot kc ub False;
     if slot_empty sinfo_new then Some (False, kc, res, states)
     else do {
       saved \<leftarrow> save_cells kc sinfo_new;
       kc1 \<leftarrow> apply_ubatch sinfo_new ub kc;
       prepare_loop ubs kc1 (res @ [sinfo_new])
         (states @ [\<lparr>ps_sinfo = sinfo_new, ps_heads_old = kc_heads kc, ps_cells = saved\<rparr>])
     }
   }"

text \<open>The head of stream \<open>strm[s]\<close> is restored from entry \<open>s\<close> of the saved heads, as in the code.\<close>

definition restore_stream :: "prep_state \<Rightarrow> nat \<Rightarrow> kv_cache \<Rightarrow> kv_cache option" where
  "restore_stream st s kc = do {
     strm \<leftarrow> at (si_strm (ps_sinfo st)) s;
     idxs \<leftarrow> at (si_idxs (ps_sinfo st)) s;
     cells \<leftarrow> cells_of kc strm;
     saved \<leftarrow> at (ps_cells st) s;
     cells \<leftarrow> set_idxs idxs saved cells;
     h \<leftarrow> at (ps_heads_old st) s;
     Some (put_stream strm cells h kc)
   }"

definition restore :: "prep_state \<Rightarrow> kv_cache \<Rightarrow> kv_cache option" where
  "restore st kc = foldM (restore_stream st) [0..<length (si_strm (ps_sinfo st))] kc"

definition prepare :: "llama_ubatch list \<Rightarrow> kv_cache \<Rightarrow> (slot_info list \<times> kv_cache) option" where
  "prepare ubatches kc = do {
     (success, kc, res, states) \<leftarrow> prepare_loop ubatches kc [] [];
     requires (states \<noteq> [] \<or> \<not> success);
     kc \<leftarrow> foldM restore (rev states) kc;
     Some (if success then res else [], kc)
   }"

section \<open>Inputs of the graph\<close>

text \<open>The macro \<open>GGML_PAD(x, n)\<close> on \<open>uint32_t\<close>: \<open>((x) + (n) - 1) & ~((n) - 1)\<close>.\<close>

definition GGML_PAD :: "nat \<Rightarrow> nat \<Rightarrow> nat" where
  "GGML_PAD x n = unat ((of_nat x + of_nat n - 1 :: 32 word) AND NOT (of_nat n - 1))"

definition get_n_kv :: "kv_cache \<Rightarrow> slot_info \<Rightarrow> nat option" where
  "get_n_kv kc sinfo =
     (let n_pad_cur = max (kc_n_pad kc) 256 in
      foldM (\<lambda>strm result. do {
          cells \<leftarrow> cells_of kc strm;
          Some (max (min (cells_size cells) (max n_pad_cur (GGML_PAD (used_max_p1 cells) n_pad_cur))) result)
        }) (si_strm sinfo) 0)"

definition set_input_k_idxs :: "kv_cache \<Rightarrow> llama_ubatch \<Rightarrow> slot_info \<Rightarrow> nat list option" where
  "set_input_k_idxs kc ub sinfo = do {
     n \<leftarrow> slot_size sinfo;
     requires (ub_n_tokens ub = n * length (si_strm sinfo));
     kv_size \<leftarrow> get_size kc;
     foldM (\<lambda>s data. do {
         idxs \<leftarrow> at (si_idxs sinfo) s;
         foldM (\<lambda>i data. do {
             idx \<leftarrow> at idxs i;
             Some (data @ [si_strm sinfo ! s * kv_size + idx])
           }) [0..<n] data
       }) [0..<length (si_strm sinfo)] []
   }"

definition set_input_v_idxs :: "kv_cache \<Rightarrow> llama_ubatch \<Rightarrow> slot_info \<Rightarrow> nat list option" where
  "set_input_v_idxs kc ub sinfo =
     (if \<not> kc_v_trans kc then set_input_k_idxs kc ub sinfo
      else do {
        n \<leftarrow> slot_size sinfo;
        requires (ub_n_tokens ub = n * length (si_strm sinfo));
        kv_size \<leftarrow> get_size kc;
        let n_embd_v_gqa = kc_n_embd_v_gqa_max kc;
        foldM (\<lambda>s data. do {
            idxs \<leftarrow> at (si_idxs sinfo) s;
            foldM (\<lambda>i data. do {
                idx \<leftarrow> at idxs i;
                Some (data @ map (\<lambda>j. si_strm sinfo ! s * kv_size * n_embd_v_gqa + j * kv_size + idx) [0..<n_embd_v_gqa])
              }) [0..<n] data
          }) [0..<length (si_strm sinfo)] []
      })"

definition shift_row :: "llama_kv_cells \<Rightarrow> llama_pos list \<Rightarrow> llama_pos list option" where
  "shift_row cells data =
     foldM (\<lambda>i data. do {
         e \<leftarrow> is_empty cells i;
         sh \<leftarrow> (if e then Some 0 else get_shift cells i);
         Some (data @ [sh])
       }) [0..<cells_size cells] data"

definition set_input_k_shift :: "kv_cache \<Rightarrow> llama_pos list option" where
  "set_input_k_shift kc = foldM shift_row (kc_cells kc) []"

text \<open>An entry of the mask: minus infinity, or minus the distance when ALiBi is used, else zero.\<close>

datatype mask_val = Minus_infinity | Bias int

definition mask_entry ::
  "kv_cache \<Rightarrow> llama_ubatch \<Rightarrow> bool \<Rightarrow> llama_kv_cells \<Rightarrow> llama_seq_id \<Rightarrow> nat \<Rightarrow> nat \<Rightarrow> mask_val option" where
  "mask_entry kc ub causal_attn cells seq_id i j = do {
     p1 \<leftarrow> at (ub_pos ub) i;
     p1_x \<leftarrow> (if is_pos_2d ub then at (ub_pos ub) (i + ub_n_tokens ub * 2) else Some 0);
     p1_y \<leftarrow> (if is_pos_2d ub then at (ub_pos ub) (i + ub_n_tokens ub) else Some 0);
     e \<leftarrow> is_empty cells j;
     if e then Some Minus_infinity
     else do {
       has \<leftarrow> seq_has cells j seq_id;
       if \<not> has then Some Minus_infinity
       else do {
         p0 \<leftarrow> pos_get cells j;
         if causal_attn \<and> p0 > p1 then Some Minus_infinity
         else do {
           p0_ext \<leftarrow> ext_get cells j;
           if causal_attn \<and> is_pos_2d ub \<and> p0 = p1 \<and> is_2d_gt p0_ext p1_x p1_y then Some Minus_infinity
           else do {
             masked \<leftarrow> is_masked_swa (kc_n_swa kc) (kc_swa_type kc) p0 p1;
             Some (if masked then Minus_infinity else Bias (if kc_use_alibi kc then - \<bar>p0 - p1\<bar> else 0))
           }
         }
       }
     }
   }"

definition mask_row ::
  "kv_cache \<Rightarrow> llama_ubatch \<Rightarrow> bool \<Rightarrow> nat \<Rightarrow> nat \<Rightarrow> mask_val list \<Rightarrow> mask_val list option" where
  "mask_row kc ub causal_attn n_kv i data = do {
     ids \<leftarrow> at (ub_seq_id ub) i;
     seq_id \<leftarrow> at ids 0;
     strm \<leftarrow> stream_of kc seq_id;
     cells \<leftarrow> cells_of kc strm;
     foldM (\<lambda>j data. do {
         v \<leftarrow> mask_entry kc ub causal_attn cells seq_id i j;
         Some (data @ [v])
       }) [0..<n_kv] data
   }"

text \<open>Row \<open>s * n_tps + ii\<close> of the mask belongs to token \<open>i = s * n_tps + ii\<close>.\<close>

definition set_input_kq_mask :: "kv_cache \<Rightarrow> llama_ubatch \<Rightarrow> bool \<Rightarrow> nat \<Rightarrow> nat \<Rightarrow> mask_val list option" where
  "set_input_kq_mask kc ub causal_attn n_kv n_stream = do {
     requires (n_stream \<noteq> 0 \<and> ub_n_tokens ub mod n_stream = 0);
     let n_tps = ub_n_tokens ub div n_stream;
     foldM (\<lambda>s data. foldM (\<lambda>ii data. mask_row kc ub causal_attn n_kv (s * n_tps + ii) data) [0..<n_tps] data)
       [0..<n_stream] []
   }"

end
