(* ===== verification/KvCacheLaws.thy ===== *)
theory KvCacheLaws
  imports KvCache
begin

text \<open>
  What the sequence operations of the cache do. The view of a cache is the list of the cells of every
  stream; each operation maps a function over the cells of one stream and keeps the invariant
  \<open>kc_inv\<close>: the arrays agree with their bookkeeping, every used cell belongs to a sequence, and only
  to sequences of its own stream.
\<close>

section \<open>The invariant of the cache\<close>

text \<open>A used cell belongs to some sequence, and only to sequences of the stream it is in.\<close>

definition cell_in_stream :: "nat list \<Rightarrow> nat \<Rightarrow> cell \<Rightarrow> bool" where
  "cell_in_stream m s x \<longleftrightarrow> (fst x \<noteq> -1 \<longrightarrow> snd (snd (snd x)) \<noteq> {}) \<and>
     (\<forall>q \<in> snd (snd (snd x)). q < length m \<and> m ! q = s)"

definition stream_ok :: "nat list \<Rightarrow> nat \<Rightarrow> nat \<Rightarrow> nat \<Rightarrow> llama_kv_cells \<Rightarrow> bool" where
  "stream_ok m n s h c \<longleftrightarrow> cells_inv c \<and> cells_size c = n \<and> h \<le> n \<and> (\<forall>x \<in> set (view c). cell_in_stream m s x)"

definition stream_map :: "nat \<Rightarrow> nat list" where
  "stream_map n_stream = (if n_stream > 1 then [0..<n_stream] else replicate LLAMA_MAX_SEQ 0)"

definition kc_inv :: "kv_cache \<Rightarrow> nat \<Rightarrow> bool" where
  "kc_inv kc n \<longleftrightarrow>
     0 < kc_n_stream kc \<and> kc_n_stream kc \<le> LLAMA_MAX_SEQ \<and>
     length (kc_cells kc) = kc_n_stream kc \<and> length (kc_heads kc) = kc_n_stream kc \<and>
     kc_seq_to_stream kc = stream_map (kc_n_stream kc) \<and>
     (\<forall>s < kc_n_stream kc. stream_ok (kc_seq_to_stream kc) n s (kc_heads kc ! s) (kc_cells kc ! s))"

definition kv_view :: "kv_cache \<Rightarrow> cell list list" where
  "kv_view kc = map view (kc_cells kc)"

lemma kc_inv_D:
  assumes "kc_inv kc n"
  shows "0 < kc_n_stream kc" "kc_n_stream kc \<le> LLAMA_MAX_SEQ" "length (kc_cells kc) = kc_n_stream kc"
    "length (kc_heads kc) = kc_n_stream kc"
    "s < kc_n_stream kc \<Longrightarrow> stream_ok (kc_seq_to_stream kc) n s (kc_heads kc ! s) (kc_cells kc ! s)"
    "s < kc_n_stream kc \<Longrightarrow> cells_inv (kc_cells kc ! s)"
    "s < kc_n_stream kc \<Longrightarrow> cells_size (kc_cells kc ! s) = n"
    "s < kc_n_stream kc \<Longrightarrow> kc_heads kc ! s \<le> n"
    "kc_seq_to_stream kc = stream_map (kc_n_stream kc)"
  using assms unfolding kc_inv_def stream_ok_def by blast+

lemma seq_stream:
  assumes "kc_inv kc n" "q < length (kc_seq_to_stream kc)"
  shows "kc_seq_to_stream kc ! q < kc_n_stream kc" "q < LLAMA_MAX_SEQ"
  using assms by (auto simp: kc_inv_def stream_map_def split: if_splits)

lemma stream_of_Some:
  "stream_of kc q = Some s \<longleftrightarrow> 0 \<le> q \<and> nat q < length (kc_seq_to_stream kc) \<and> s = kc_seq_to_stream kc ! nat q"
  by (auto simp: stream_of_def)

lemma stream_of_int: "q < length (kc_seq_to_stream kc) \<Longrightarrow> stream_of kc (int q) = Some (kc_seq_to_stream kc ! q)"
  by (simp add: stream_of_def)

lemma kv_view_nth: "s < length (kc_cells kc) \<Longrightarrow> kv_view kc ! s = view (kc_cells kc ! s)"
  by (simp add: kv_view_def)

lemma put_stream_inv:
  assumes "kc_inv kc n" "s < kc_n_stream kc" "stream_ok (kc_seq_to_stream kc) n s h c"
  shows "kc_inv (put_stream s c h kc) n \<and> kv_view (put_stream s c h kc) = (kv_view kc)[s := view c]"
  using assms by (auto simp: kc_inv_def put_stream_def kv_view_def map_update nth_list_update)

lemma put_stream_sel [simp]:
  "kc_n_stream (put_stream s c h kc) = kc_n_stream kc" "kc_seq_to_stream (put_stream s c h kc) = kc_seq_to_stream kc"
  "kc_cells (put_stream s c h kc) = (kc_cells kc)[s := c]" "kc_heads (put_stream s c h kc) = (kc_heads kc)[s := h]"
  by (simp_all add: put_stream_def)

section \<open>The loop over all cells\<close>

definition first_freed :: "(cell \<Rightarrow> bool) \<Rightarrow> cell list \<Rightarrow> nat" where
  "first_freed fr xs = length (takeWhile (\<lambda>x. \<not> fr x) xs)"

lemma first_freed_le: "first_freed fr xs \<le> length xs"
  by (simp add: first_freed_def length_takeWhile_le)

lemma first_freed_snoc:
  "first_freed fr (xs @ [x]) = (if first_freed fr xs = length xs \<and> \<not> fr x then Suc (length xs) else first_freed fr xs)"
  by (induction xs) (auto simp: first_freed_def)

text \<open>
  The contract of a loop body: on cell \<open>x\<close> it reports \<open>fr x\<close>, replaces the cell by \<open>g x\<close> and sets the
  shift flag if \<open>sh x\<close>. It is only asked for on cells that satisfy \<open>pre\<close>.
\<close>

locale cell_body =
  fixes f :: "nat \<Rightarrow> llama_kv_cells \<Rightarrow> (bool \<times> llama_kv_cells) option"
    and fr :: "cell \<Rightarrow> bool" and g :: "cell \<Rightarrow> cell" and sh :: "cell \<Rightarrow> bool" and pre :: "cell \<Rightarrow> bool"
  assumes body: "cells_inv c \<Longrightarrow> i < cells_size c \<Longrightarrow> pre (cell_at c i) \<Longrightarrow>
     \<exists>c'. f i c = Some (fr (cell_at c i), c') \<and> replaced c i (g (cell_at c i)) c' \<and>
          kv_has_shift c' = (kv_has_shift c \<or> sh (cell_at c i))"
begin

lemma loop_ok:
  assumes inv: "cells_inv c" and pre: "\<forall>x \<in> set (view c). pre x"
  shows "\<exists>c'. cell_loop f c = Some (first_freed fr (view c), c') \<and> cells_inv c' \<and> view c' = map g (view c) \<and>
     kv_has_shift c' = (kv_has_shift c \<or> (\<exists>x \<in> set (view c). sh x))"
proof -
  let ?n = "cells_size c"
  let ?step = "\<lambda>i (new_head, c). do {
      (freed, c) \<leftarrow> f i c;
      Some (if freed \<and> new_head = cells_size c then i else new_head, c) }"
  let ?head = "\<lambda>k. if first_freed fr (take k (view c)) = k then ?n else first_freed fr (take k (view c))"
  let ?P = "\<lambda>k st. fst st = ?head k \<and> cells_inv (snd st) \<and>
      view (snd st) = map g (take k (view c)) @ drop k (view c) \<and>
      kv_has_shift (snd st) = (kv_has_shift c \<or> (\<exists>x \<in> set (take k (view c)). sh x))"
  have start: "?P 0 (?n, c)" using inv by (simp add: first_freed_def)
  have step: "\<exists>st'. ?step k st = Some st' \<and> ?P (Suc k) st'" if k: "k < ?n" and P: "?P k st" for k st
  proof -
    obtain nh d where st: "st = (nh, d)" by force
    have d: "cells_inv d" "view d = map g (take k (view c)) @ drop k (view c)" using P st by auto
    have size: "cells_size d = ?n" using arg_cong[OF d(2), of length] k by simp
    have at: "cell_at d k = view c ! k"
      using d(2) k size by (metis append_take_drop_id length_map length_take length_view min.absorb4 nth_append_length nth_append_right diff_self_eq_0 le_refl view_nth Cons_nth_drop_Suc nth_Cons_0)
    have "pre (cell_at d k)" using pre at k by (simp add: view_def)
    then obtain d' where d': "f k d = Some (fr (view c ! k), d')" "replaced d k (g (view c ! k)) d'"
        "kv_has_shift d' = (kv_has_shift d \<or> sh (view c ! k))"
      using body[OF d(1), of k] k size at by auto
    have size': "cells_size d' = ?n" using replaced_size[OF d'(2)] size by simp
    have v: "view d' = map g (take (Suc k) (view c)) @ drop (Suc k) (view c)"
      using d'(2) d(2) k unfolding replaced_def
      by (simp add: list_update_append take_Suc_conv_app_nth Cons_nth_drop_Suc[symmetric])
    have t: "take (Suc k) (view c) = take k (view c) @ [view c ! k]" using k by (simp add: take_Suc_conv_app_nth)
    have "first_freed fr (take k (view c)) \<le> k" using first_freed_le[of fr "take k (view c)"] k by simp
    moreover have "nh = ?head k" using P st by simp
    ultimately have h: "(if fr (view c ! k) \<and> nh = ?n then k else nh) = ?head (Suc k)"
      unfolding t first_freed_snoc using k by (auto simp del: take_Suc_conv_app_nth)
    have sh: "kv_has_shift d' = (kv_has_shift c \<or> (\<exists>x \<in> set (take (Suc k) (view c)). sh x))"
      using d'(3) P st unfolding t by auto
    have "?step k st = Some (?head (Suc k), d')"
      unfolding h[symmetric] using st d'(1) size' by simp
    then show ?thesis using v sh d'(2) unfolding replaced_def by (intro exI[of _ "(?head (Suc k), d')"]) simp
  qed
  have "\<exists>st. cell_loop f c = Some st \<and> ?P ?n st"
    unfolding cell_loop_def by (rule foldM_upt[where P = ?P, OF start]) (rule step)
  then obtain st where st: "cell_loop f c = Some st" "?P ?n st" by blast
  then show ?thesis by (cases st) auto
qed

text \<open>The loop over the cells of one stream of a cache.\<close>

lemma stream_loop_ok:
  assumes inv: "kc_inv kc n" and s: "s < kc_n_stream kc"
    and pre: "\<forall>x \<in> set (kv_view kc ! s). pre x"
    and keeps: "\<And>x. x \<in> set (kv_view kc ! s) \<Longrightarrow> cell_in_stream (kc_seq_to_stream kc) s x \<Longrightarrow>
      cell_in_stream (kc_seq_to_stream kc) s (g x)"
    and move: "\<And>k h. k \<le> n \<Longrightarrow> h \<le> n \<Longrightarrow> move k n h \<le> n"
  shows "\<exists>c'. loop_stream f move s kc =
        Some (put_stream s c' (move (first_freed fr (kv_view kc ! s)) n (kc_heads kc ! s)) kc) \<and>
      stream_ok (kc_seq_to_stream kc) n s (move (first_freed fr (kv_view kc ! s)) n (kc_heads kc ! s)) c' \<and>
      view c' = map g (kv_view kc ! s) \<and>
      kv_has_shift c' = (kv_has_shift (kc_cells kc ! s) \<or> (\<exists>x \<in> set (kv_view kc ! s). sh x))"
proof -
  note D = kc_inv_D[OF inv]
  let ?c = "kc_cells kc ! s"
  have v: "kv_view kc ! s = view ?c" using s D(3) by (simp add: kv_view_nth)
  obtain c' where c': "cell_loop f ?c = Some (first_freed fr (view ?c), c')" "cells_inv c'"
    "view c' = map g (view ?c)" "kv_has_shift c' = (kv_has_shift ?c \<or> (\<exists>x \<in> set (view ?c). sh x))"
    using loop_ok[OF D(6)[OF s]] pre v by auto
  have n: "cells_size c' = n" using arg_cong[OF c'(3), of length] D(7)[OF s] by simp
  have "\<forall>x \<in> set (view ?c). cell_in_stream (kc_seq_to_stream kc) s x"
    using D(5)[OF s] by (simp add: stream_ok_def)
  then have "\<forall>x \<in> set (view c'). cell_in_stream (kc_seq_to_stream kc) s x"
    using keeps c'(3) v by auto
  moreover have "first_freed fr (view ?c) \<le> n" using first_freed_le[of fr "view ?c"] D(7)[OF s] by simp
  ultimately have "stream_ok (kc_seq_to_stream kc) n s (move (first_freed fr (view ?c)) n (kc_heads kc ! s)) c'"
    using c'(2) n move D(8)[OF s] by (simp add: stream_ok_def)
  moreover have "loop_stream f move s kc =
      Some (put_stream s c' (move (first_freed fr (view ?c)) n (kc_heads kc ! s)) kc)"
    using c'(1) n s D(3,4) by (simp add: loop_stream_def cells_of_def head_of_def)
  ultimately show ?thesis using c'(3,4) v by auto
qed

end

text \<open>A body that aborts on the other cells makes the loop abort if there is one.\<close>

locale strict_cell_body = cell_body +
  assumes fails: "cells_inv c \<Longrightarrow> i < cells_size c \<Longrightarrow> \<not> pre (cell_at c i) \<Longrightarrow> f i c = None"
begin

lemma loop_fails:
  assumes inv: "cells_inv c" and bad: "x \<in> set (view c)" "\<not> pre x"
  shows "cell_loop f c = None"
proof -
  let ?step = "\<lambda>i (new_head, c). do {
      (freed, c) \<leftarrow> f i c;
      Some (if freed \<and> new_head = cells_size c then i else new_head, c) }"
  let ?at = "\<lambda>k st. cells_inv (snd st) \<and> cells_size (snd st) = cells_size c \<and>
    (\<forall>j. k \<le> j \<and> j < cells_size c \<longrightarrow> cell_at (snd st) j = cell_at c j)"
  have reached: "?at k st" if "foldM ?step [0..<k] (cells_size c, c) = Some st" "k \<le> cells_size c" for k st
    using that
  proof (induction k arbitrary: st)
    case 0
    then show ?case using inv by auto
  next
    case (Suc k)
    from Suc.prems(1) obtain st0 where st0: "foldM ?step [0..<k] (cells_size c, c) = Some st0" "?step k st0 = Some st"
      by (auto simp: foldM_snoc bind_eq_Some_conv)
    have at: "?at k st0" using Suc.IH[OF st0(1)] Suc.prems(2) by simp
    obtain freed where fr: "f k (snd st0) = Some (freed, snd st)" using st0(2) by (cases st0) (auto simp: bind_eq_Some_conv)
    have k: "k < cells_size (snd st0)" using at Suc.prems(2) by simp
    then have "pre (cell_at (snd st0) k)" using fails[of "snd st0" k] at fr by auto
    then have r: "replaced (snd st0) k (g (cell_at (snd st0) k)) (snd st)" using body[OF _ k] at fr by fastforce
    have "cell_at (snd st) j = cell_at (snd st0) j" if "Suc k \<le> j" "j < cells_size c" for j
      using r that k at replaced_size[OF r] unfolding replaced_def by (metis Suc_n_not_le_n nth_list_update_neq view_nth)
    then show ?case using at r replaced_size[OF r] by (auto simp: replaced_def)
  qed
  from bad(1) obtain i where i: "i < cells_size c" "cell_at c i = x" by (auto simp: in_set_conv_nth)
  have split: "[0..<cells_size c] = [0..<i] @ i # [Suc i..<cells_size c]"
    using i(1) upt_add_eq_append[of 0 i "cells_size c - i"] upt_conv_Cons[of i "cells_size c"] by simp
  show ?thesis
  proof (cases "foldM ?step [0..<i] (cells_size c, c)")
    case None
    then show ?thesis unfolding cell_loop_def split by (simp add: foldM_append)
  next
    case (Some st)
    from reached[OF this] i have "f i (snd st) = None" using fails[of "snd st" i] bad(2) by auto
    then have "?step i st = None" by (cases st) simp
    with Some show ?thesis unfolding cell_loop_def split by (simp add: foldM_append)
  qed
qed

lemma stream_loop_fails:
  assumes inv: "kc_inv kc n" and s: "s < kc_n_stream kc" and bad: "x \<in> set (kv_view kc ! s)" "\<not> pre x"
  shows "loop_stream f move s kc = None"
proof -
  note D = kc_inv_D[OF inv]
  have "kv_view kc ! s = view (kc_cells kc ! s)" using s D(3) by (simp add: kv_view_nth)
  then have "cell_loop f (kc_cells kc ! s) = None" using loop_fails[OF D(6)[OF s]] bad by simp
  then show ?thesis using s D(3,4) by (simp add: loop_stream_def cells_of_def head_of_def)
qed

end

section \<open>The bodies of the sequence operations\<close>

definition in_range :: "llama_pos \<Rightarrow> llama_pos \<Rightarrow> cell \<Rightarrow> bool" where
  "in_range p0 p1 x \<longleftrightarrow> p0 \<le> fst x \<and> fst x < p1"

definition has_seq :: "nat \<Rightarrow> cell \<Rightarrow> bool" where
  "has_seq s x \<longleftrightarrow> s \<in> snd (snd (snd x))"

definition drop_seq :: "nat \<Rightarrow> cell \<Rightarrow> cell" where
  "drop_seq s x = (case x of (p, e, sh, S) \<Rightarrow> if S = {s} then empty_cell else (p, e, sh, S - {s}))"

definition join_seq :: "nat \<Rightarrow> cell \<Rightarrow> cell" where
  "join_seq s x = (case x of (p, e, sh, S) \<Rightarrow> (p, e, sh, insert s S))"

definition keep_seq :: "nat \<Rightarrow> cell \<Rightarrow> cell" where
  "keep_seq s x = (case x of (p, e, sh, S) \<Rightarrow>
     if s \<in> S then (p, e, sh, {s}) else if S \<noteq> {} then empty_cell else x)"

definition shift_cell :: "llama_pos \<Rightarrow> cell \<Rightarrow> cell" where
  "shift_cell d x = (case x of (p, e, sh, S) \<Rightarrow> if p + d < 0 then (-1, e, 0, {}) else (p + d, e, sh + d, S))"

definition div_cell :: "int \<Rightarrow> cell \<Rightarrow> cell" where
  "div_cell d x = (case x of (p, e, sh, S) \<Rightarrow> (p div d, e, sh + (p - p div d), S))"

lemma cell_at_sel [simp]:
  "fst (cell_at c i) = kv_pos c ! i" "fst (snd (cell_at c i)) = kv_ext c ! i"
  "fst (snd (snd (cell_at c i))) = kv_shift c ! i" "snd (snd (snd (cell_at c i))) = kv_seq c ! i"
  by (simp_all add: cell_at_def)

lemma replaced_refl: "cells_inv c \<Longrightarrow> replaced c i (cell_at c i) c" if "i < cells_size c"
  using that by (simp add: replaced_def update_same)

lemma occupied_pos:
  "cells_inv c \<Longrightarrow> i < cells_size c \<Longrightarrow> s \<in> kv_seq c ! i \<Longrightarrow> kv_pos c ! i \<noteq> -1"
  using cells_inv_D(7)[of c i] by (auto simp: cell_ok_def)

lemmas body_defs = seq_rm_body_def rm_body_def seq_cp_body_def seq_add_body_def seq_div_body_def
  pos_in_def seq_has_def in_range_def has_seq_def

lemmas cell_fun_defs = drop_seq_def join_seq_def keep_seq_def shift_cell_def div_cell_def

interpretation rm_loop: cell_body "seq_rm_body (int s) p0 p1"
    "\<lambda>x. in_range p0 p1 x \<and> has_seq s x \<and> snd (snd (snd x)) = {s}"
    "\<lambda>x. if in_range p0 p1 x \<and> has_seq s x then drop_seq s x else x" "\<lambda>_. False" "\<lambda>_. s < LLAMA_MAX_SEQ" for s p0 p1
proof (unfold_locales, goal_cases)
  case (1 c i)
  show ?case
    using seq_rm_ok[OF 1(1,2), of s] replaced_refl[OF 1(2,1)] 1(2,3)
    by (cases "s \<in> kv_seq c ! i"; cases "kv_seq c ! i = {s}")
      (auto simp: body_defs drop_seq_def cell_at_def)
qed

interpretation rm_all_loop: cell_body "rm_body p0 p1" "in_range p0 p1"
    "\<lambda>x. if in_range p0 p1 x then empty_cell else x" "\<lambda>_. False" "\<lambda>_. 0 \<le> p0" for p0 p1
proof (unfold_locales, goal_cases)
  case (1 c i)
  show ?case
    using rm_ok[OF 1(1,2)] replaced_refl[OF 1(2,1)] 1(2,3)
    by (cases "p0 \<le> kv_pos c ! i \<and> kv_pos c ! i < p1") (auto simp: body_defs)
qed

interpretation cp_loop: strict_cell_body "seq_cp_body (int s) (int t) p0 p1" "\<lambda>_. False"
    "\<lambda>x. if in_range p0 p1 x \<and> has_seq s x then join_seq t x else x" "\<lambda>_. False"
    "\<lambda>x. in_range p0 p1 x \<longrightarrow> s < LLAMA_MAX_SEQ \<and> (has_seq s x \<longrightarrow> t < LLAMA_MAX_SEQ \<and> \<not> has_seq t x)" for s t p0 p1
proof (unfold_locales, goal_cases)
  case (1 c i)
  show ?case
    using seq_add_ok[OF 1(1,2), of t] replaced_refl[OF 1(2,1)] occupied_pos[OF 1(1,2), of s] 1(2,3)
    by (cases "s \<in> kv_seq c ! i") (auto simp: body_defs join_seq_def cell_at_def)
next
  case (2 c i)
  then show ?case by (auto simp: body_defs seq_add_def requires_def cell_at_def seq_bit_def split: if_splits)
qed

interpretation keep_loop: cell_body "\<lambda>i. seq_keep i (int s)"
    "\<lambda>x. \<not> has_seq s x \<and> snd (snd (snd x)) \<noteq> {}" "keep_seq s" "\<lambda>_. False"
    "\<lambda>x. s < LLAMA_MAX_SEQ \<and> (snd (snd (snd x)) = {} \<longrightarrow> fst x = -1)" for s
proof (unfold_locales, goal_cases)
  case (1 c i)
  then show ?case
    using seq_keep_ok[OF 1(1,2), of s] by (auto simp: has_seq_def keep_seq_def cell_at_def split: if_splits)
qed

interpretation add_loop: cell_body "seq_add_body (int s) p0 p1 d"
    "\<lambda>x. in_range p0 p1 x \<and> has_seq s x \<and> fst x + d < 0"
    "\<lambda>x. if in_range p0 p1 x \<and> has_seq s x then shift_cell d x else x"
    "\<lambda>x. in_range p0 p1 x \<and> has_seq s x"
    "\<lambda>x. s < LLAMA_MAX_SEQ \<and> (in_range p0 p1 x \<and> has_seq s x \<longrightarrow> in_i32 (fst x + d) \<and> in_i32 (fst (snd (snd x)) + d))"
  for s p0 p1 d
proof (unfold_locales, goal_cases)
  case (1 c i)
  show ?case
    using pos_add_ok[OF 1(1,2), of d] replaced_refl[OF 1(2,1)] occupied_pos[OF 1(1,2), of s] 1(2,3)
    by (cases "s \<in> kv_seq c ! i") (auto simp: body_defs shift_cell_def cell_at_def)
qed

interpretation div_loop: cell_body "seq_div_body (int s) p0 p1 d" "\<lambda>_. False"
    "\<lambda>x. if in_range p0 p1 x \<and> has_seq s x then div_cell d x else x"
    "\<lambda>x. in_range p0 p1 x \<and> has_seq s x"
    "\<lambda>x. s < LLAMA_MAX_SEQ \<and> 0 < d \<and>
       (in_range p0 p1 x \<and> has_seq s x \<longrightarrow> in_i32 (fst (snd (snd x)) + (fst x - fst x div d)))"
  for s p0 p1 d
proof (unfold_locales, goal_cases)
  case (1 c i)
  show ?case
    using pos_div_ok[OF 1(1,2), of d] replaced_refl[OF 1(2,1)] occupied_pos[OF 1(1,2), of s] 1(2,3)
    by (cases "s \<in> kv_seq c ! i") (auto simp: body_defs div_cell_def cell_at_def)
qed

section \<open>The sequence operations\<close>

lemma freed_head_le: "k \<le> n \<Longrightarrow> h \<le> n \<Longrightarrow> freed_head k n h \<le> n"
  by (simp add: freed_head_def)

lemma in_stream_cell_funs:
  "cell_in_stream m s x \<Longrightarrow> cell_in_stream m s (drop_seq q x)"
  "cell_in_stream m s empty_cell"
  "cell_in_stream m s x \<Longrightarrow> cell_in_stream m s (keep_seq q x)"
  "cell_in_stream m s x \<Longrightarrow> q < length m \<Longrightarrow> m ! q = s \<Longrightarrow> cell_in_stream m s (join_seq q x)"
  "cell_in_stream m s x \<Longrightarrow> has_seq q x \<Longrightarrow> cell_in_stream m s (shift_cell d x)"
  "cell_in_stream m s x \<Longrightarrow> has_seq q x \<Longrightarrow> cell_in_stream m s (div_cell d x)"
  by (auto simp: cell_in_stream_def cell_fun_defs empty_cell_def has_seq_def split: prod.splits if_splits)

text \<open>The streams other than \<open>s\<close> are left alone.\<close>

definition on_stream :: "nat \<Rightarrow> (cell \<Rightarrow> cell) \<Rightarrow> cell list list \<Rightarrow> cell list list" where
  "on_stream s g v = v[s := map g (v ! s)]"

definition same_config :: "kv_cache \<Rightarrow> kv_cache \<Rightarrow> bool" where
  "same_config kc kc' \<longleftrightarrow> (\<exists>cs hs. kc' = kc\<lparr>kc_cells := cs, kc_heads := hs\<rparr>)"

lemma same_config_refl [simp]: "same_config kc kc"
  unfolding same_config_def by (intro exI[of _ "kc_cells kc"] exI[of _ "kc_heads kc"]) simp

lemma same_config_trans: "same_config a b \<Longrightarrow> same_config b c \<Longrightarrow> same_config a c"
  unfolding same_config_def by (elim exE, hypsubst) (intro exI, simp)

lemma same_config_D:
  assumes "same_config a b"
  shows "kc_n_stream b = kc_n_stream a" "kc_seq_to_stream b = kc_seq_to_stream a" "kc_n_swa b = kc_n_swa a"
    "kc_swa_type b = kc_swa_type a" "kc_n_pad b = kc_n_pad a" "kc_ssrc b = kc_ssrc a" "kc_sdst b = kc_sdst a"
  using assms by (auto simp: same_config_def)

definition evolves :: "kv_cache \<Rightarrow> nat \<Rightarrow> cell list list \<Rightarrow> kv_cache option \<Rightarrow> bool" where
  "evolves kc n v r \<longleftrightarrow> (\<exists>kc'. r = Some kc' \<and> kc_inv kc' n \<and> kv_view kc' = v \<and>
     same_config kc kc')"

lemma put_stream_shape: "same_config kc (put_stream s c h kc)"
  by (auto simp: put_stream_def same_config_def)

lemma evolves_same: "kc_inv kc n \<Longrightarrow> evolves kc n (kv_view kc) (Some kc)"
  by (simp add: evolves_def)

lemma evolves_put:
  assumes "kc_inv kc n" "s < kc_n_stream kc" "stream_ok (kc_seq_to_stream kc) n s h c" "view c = map g (kv_view kc ! s)"
  shows "evolves kc n (on_stream s g (kv_view kc)) (Some (put_stream s c h kc))"
  using put_stream_inv[OF assms(1-3)] put_stream_shape assms(4) by (auto simp: evolves_def on_stream_def)

context cell_body
begin

lemma stream_evolves:
  assumes inv: "kc_inv kc n" and s: "s < kc_n_stream kc"
    and pre: "\<forall>x \<in> set (kv_view kc ! s). pre x"
    and keeps: "\<And>x. x \<in> set (kv_view kc ! s) \<Longrightarrow> cell_in_stream (kc_seq_to_stream kc) s x \<Longrightarrow>
      cell_in_stream (kc_seq_to_stream kc) s (g x)"
    and move: "\<And>k h. k \<le> n \<Longrightarrow> h \<le> n \<Longrightarrow> move k n h \<le> n"
  shows "evolves kc n (on_stream s g (kv_view kc)) (loop_stream f move s kc)"
proof -
  obtain c' h where "loop_stream f move s kc = Some (put_stream s c' h kc)"
    "stream_ok (kc_seq_to_stream kc) n s h c'" "view c' = map g (kv_view kc ! s)"
    using stream_loop_ok[where move = move, OF inv s pre keeps move] by blast
  then show ?thesis using evolves_put[OF inv s] by simp
qed

end

lemma kv_seq_rm_ok:
  assumes inv: "kc_inv kc n" and q: "q < length (kc_seq_to_stream kc)"
  shows "evolves kc n
     (on_stream (kc_seq_to_stream kc ! q)
        (\<lambda>x. if in_range (lower p0) (upper p1) x \<and> has_seq q x then drop_seq q x else x) (kv_view kc))
     (kv_seq_rm (int q) p0 p1 kc)"
proof -
  note s = seq_stream[OF inv q]
  have "evolves kc n
     (on_stream (kc_seq_to_stream kc ! q)
        (\<lambda>x. if in_range (lower p0) (upper p1) x \<and> has_seq q x then drop_seq q x else x) (kv_view kc))
     (loop_stream (seq_rm_body (int q) (lower p0) (upper p1)) freed_head (kc_seq_to_stream kc ! q) kc)"
    by (rule rm_loop.stream_evolves[OF inv s(1)]) (use s(2) in \<open>auto intro: in_stream_cell_funs freed_head_le\<close>)
  then show ?thesis using q by (simp add: kv_seq_rm_def stream_of_int)
qed

lemma kv_seq_keep_ok:
  assumes inv: "kc_inv kc n" and q: "q < length (kc_seq_to_stream kc)"
  shows "evolves kc n (on_stream (kc_seq_to_stream kc ! q) (keep_seq q) (kv_view kc)) (kv_seq_keep (int q) kc)"
proof -
  note s = seq_stream[OF inv q]
  have "\<forall>x \<in> set (kv_view kc ! (kc_seq_to_stream kc ! q)).
      q < LLAMA_MAX_SEQ \<and> (snd (snd (snd x)) = {} \<longrightarrow> fst x = -1)"
    using kc_inv_D(3)[OF inv] kc_inv_D(5)[OF inv s(1)] s by (auto simp: kv_view_nth stream_ok_def cell_in_stream_def)
  then have "evolves kc n (on_stream (kc_seq_to_stream kc ! q) (keep_seq q) (kv_view kc))
     (loop_stream (\<lambda>i. seq_keep i (int q)) freed_head (kc_seq_to_stream kc ! q) kc)"
    by (rule keep_loop.stream_evolves[OF inv s(1)]) (auto intro: in_stream_cell_funs freed_head_le)
  then show ?thesis using q by (simp add: kv_seq_keep_def stream_of_int)
qed

lemma kv_seq_add_ok:
  assumes inv: "kc_inv kc n" and q: "q < length (kc_seq_to_stream kc)" and "kc_n_pos_per_embd kc = 1"
    and range: "\<forall>x \<in> set (kv_view kc ! (kc_seq_to_stream kc ! q)).
      in_range (lower p0) (upper p1) x \<and> has_seq q x \<longrightarrow> in_i32 (fst x + d) \<and> in_i32 (fst (snd (snd x)) + d)"
    and d: "d \<noteq> 0" and ne: "lower p0 \<noteq> upper p1"
  shows "evolves kc n
     (on_stream (kc_seq_to_stream kc ! q)
        (\<lambda>x. if in_range (lower p0) (upper p1) x \<and> has_seq q x then shift_cell d x else x) (kv_view kc))
     (kv_seq_add (int q) p0 p1 d kc)"
proof -
  note s = seq_stream[OF inv q]
  have "evolves kc n
     (on_stream (kc_seq_to_stream kc ! q)
        (\<lambda>x. if in_range (lower p0) (upper p1) x \<and> has_seq q x then shift_cell d x else x) (kv_view kc))
     (loop_stream (seq_add_body (int q) (lower p0) (upper p1) d)
        (\<lambda>new_head n head. if new_head \<noteq> n then new_head else 0) (kc_seq_to_stream kc ! q) kc)"
    by (rule add_loop.stream_evolves[OF inv s(1)]) (use s(2) range in \<open>auto intro: in_stream_cell_funs\<close>)
  then show ?thesis using q assms(3) d ne by (simp add: kv_seq_add_def stream_of_int)
qed

lemma kv_seq_div_ok:
  assumes inv: "kc_inv kc n" and q: "q < length (kc_seq_to_stream kc)" and "kc_n_pos_per_embd kc = 1"
    and range: "\<forall>x \<in> set (kv_view kc ! (kc_seq_to_stream kc ! q)).
      in_range (lower p0) (upper p1) x \<and> has_seq q x \<longrightarrow> in_i32 (fst (snd (snd x)) + (fst x - fst x div d))"
    and d: "1 < d" and ne: "lower p0 \<noteq> upper p1"
  shows "evolves kc n
     (on_stream (kc_seq_to_stream kc ! q)
        (\<lambda>x. if in_range (lower p0) (upper p1) x \<and> has_seq q x then div_cell d x else x) (kv_view kc))
     (kv_seq_div (int q) p0 p1 d kc)"
proof -
  note s = seq_stream[OF inv q]
  have "evolves kc n
     (on_stream (kc_seq_to_stream kc ! q)
        (\<lambda>x. if in_range (lower p0) (upper p1) x \<and> has_seq q x then div_cell d x else x) (kv_view kc))
     (loop_stream (seq_div_body (int q) (lower p0) (upper p1) d) (\<lambda>_ _ head. head) (kc_seq_to_stream kc ! q) kc)"
    by (rule div_loop.stream_evolves[OF inv s(1)]) (use s(2) range d in \<open>auto intro: in_stream_cell_funs\<close>)
  then show ?thesis using q assms(3) d ne by (simp add: kv_seq_div_def stream_of_int)
qed

text \<open>A copy within one stream needs the target to be absent from the cells copied.\<close>

lemma kv_seq_cp_ok:
  assumes inv: "kc_inv kc n" and q: "q < length (kc_seq_to_stream kc)" "r < length (kc_seq_to_stream kc)"
    and same: "kc_seq_to_stream kc ! q = kc_seq_to_stream kc ! r" and "q \<noteq> r"
    and absent: "\<forall>x \<in> set (kv_view kc ! (kc_seq_to_stream kc ! q)).
      in_range (lower p0) (upper p1) x \<and> has_seq q x \<longrightarrow> \<not> has_seq r x"
  shows "evolves kc n
     (on_stream (kc_seq_to_stream kc ! q)
        (\<lambda>x. if in_range (lower p0) (upper p1) x \<and> has_seq q x then join_seq r x else x) (kv_view kc))
     (kv_seq_cp (int q) (int r) p0 p1 kc)"
proof -
  note s = seq_stream[OF inv q(1)] seq_stream[OF inv q(2)]
  have "evolves kc n
     (on_stream (kc_seq_to_stream kc ! q)
        (\<lambda>x. if in_range (lower p0) (upper p1) x \<and> has_seq q x then join_seq r x else x) (kv_view kc))
     (loop_stream (seq_cp_body (int q) (int r) (lower p0) (upper p1)) (\<lambda>_ _ head. head) (kc_seq_to_stream kc ! q) kc)"
    by (rule cp_loop.stream_evolves[OF inv s(1)]) (use s absent same q in \<open>auto intro: in_stream_cell_funs\<close>)
  then show ?thesis using q assms(5) same by (simp add: kv_seq_cp_def stream_of_int)
qed

lemma kv_seq_cp_fails:
  assumes inv: "kc_inv kc n" and q: "q < length (kc_seq_to_stream kc)" "r < length (kc_seq_to_stream kc)"
    and same: "kc_seq_to_stream kc ! q = kc_seq_to_stream kc ! r" and "q \<noteq> r"
    and present: "x \<in> set (kv_view kc ! (kc_seq_to_stream kc ! q))" "in_range (lower p0) (upper p1) x" "has_seq q x" "has_seq r x"
  shows "kv_seq_cp (int q) (int r) p0 p1 kc = None"
proof -
  note s = seq_stream[OF inv q(1)]
  have "loop_stream (seq_cp_body (int q) (int r) (lower p0) (upper p1)) (\<lambda>_ _ head. head) (kc_seq_to_stream kc ! q) kc = None"
    by (rule cp_loop.stream_loop_fails[OF inv s(1) present(1)]) (simp add: present)
  then show ?thesis using q assms(5) same by (simp add: kv_seq_cp_def stream_of_int)
qed

text \<open>With \<open>seq_id = -1\<close> every stream loses its cells in the range.\<close>

lemma kv_seq_rm_all_ok:
  assumes inv: "kc_inv kc n"
  shows "evolves kc n (map (map (\<lambda>x. if in_range (lower p0) (upper p1) x then empty_cell else x)) (kv_view kc))
     (kv_seq_rm (-1) p0 p1 kc)"
proof -
  let ?g = "\<lambda>x. if in_range (lower p0) (upper p1) x then empty_cell else x"
  let ?f = "loop_stream (rm_body (lower p0) (upper p1)) freed_head"
  have len: "length (kv_view kc) = kc_n_stream kc" using kc_inv_D(3)[OF inv] by (simp add: kv_view_def)
  let ?P = "\<lambda>k d. kc_inv d n \<and> kv_view d = map (map ?g) (take k (kv_view kc)) @ drop k (kv_view kc) \<and>
     same_config kc d"
  have start: "?P 0 kc" using inv by simp
  have step: "\<exists>d'. ?f k d = Some d' \<and> ?P (Suc k) d'" if k: "k < kc_n_stream kc" and P: "?P k d" for k d
  proof -
    have kd: "k < kc_n_stream d" using P k same_config_D(1)[of kc d] by simp
    have at: "kv_view d ! k = kv_view kc ! k" using P k len by (simp add: nth_append)
    have "evolves d n (on_stream k ?g (kv_view d)) (?f k d)"
      by (rule rm_all_loop.stream_evolves[OF conjunct1[OF P] kd])
        (auto simp: lower_def intro: in_stream_cell_funs freed_head_le)
    then obtain d' where d': "?f k d = Some d'" "kc_inv d' n" "kv_view d' = on_stream k ?g (kv_view d)"
      "same_config d d'" unfolding evolves_def by blast
    have "on_stream k ?g (kv_view d) = map (map ?g) (take (Suc k) (kv_view kc)) @ drop (Suc k) (kv_view kc)"
      using P k len at
      by (simp add: on_stream_def list_update_append take_Suc_conv_app_nth Cons_nth_drop_Suc[symmetric])
    with d' P show ?thesis using same_config_trans by auto
  qed
  have "\<exists>d. foldM ?f [0..<kc_n_stream kc] kc = Some d \<and> ?P (kc_n_stream kc) d"
    by (rule foldM_upt[where P = ?P, OF start]) (rule step)
  then show ?thesis using len by (auto simp: kv_seq_rm_def evolves_def)
qed

lemma kv_clear_ok:
  assumes inv: "kc_inv kc n"
  shows "kc_inv (kv_clear kc) n \<and> kv_view (kv_clear kc) = map (map (\<lambda>_. empty_cell)) (kv_view kc)"
proof -
  note D = kc_inv_D[OF inv]
  have "stream_ok (kc_seq_to_stream kc) n s 0 (reset (kc_cells kc ! s))" if "s < kc_n_stream kc" for s
    using reset_ok[OF D(6)[OF that]] D(7)[OF that]
    by (auto simp: stream_ok_def cell_in_stream_def empty_cell_def reset_def cells_size_def)
  moreover have "view (reset c) = map (\<lambda>_. empty_cell) (view c)" if "c \<in> set (kc_cells kc)" for c
    using reset_ok[of c] that D(3,6) by (auto simp: in_set_conv_nth intro!: nth_equalityI)
  ultimately show ?thesis
    using inv D(3,4) by (simp add: kc_inv_def kv_clear_def kv_view_def)
qed

text \<open>The smallest and largest position of a sequence in its stream, -1 when it is absent.\<close>

definition seq_positions :: "nat \<Rightarrow> cell list \<Rightarrow> llama_pos set" where
  "seq_positions q xs = fst ` {x \<in> set xs. has_seq q x}"

lemma seq_positions_view: "seq_positions q (view c) = (\<lambda>i. kv_pos c ! i) ` seq_cells c q"
  by (force simp: seq_positions_def view_def has_seq_def seq_cells_def)

lemma kv_seq_pos_min_max_ok:
  assumes inv: "kc_inv kc n" and q: "q < length (kc_seq_to_stream kc)"
  defines "ps \<equiv> seq_positions q (kv_view kc ! (kc_seq_to_stream kc ! q))"
  shows "kv_seq_pos_min kc (int q) = Some (if ps = {} then -1 else Min ps)"
    "kv_seq_pos_max kc (int q) = Some (if ps = {} then -1 else Max ps)"
proof -
  note s = seq_stream[OF inv q] and D = kc_inv_D[OF inv]
  let ?c = "kc_cells kc ! (kc_seq_to_stream kc ! q)"
  have ps: "ps = (\<lambda>i. kv_pos ?c ! i) ` seq_cells ?c q"
    unfolding ps_def using s D(3) by (simp add: kv_view_nth seq_positions_view)
  have ne: "ps = {} \<longleftrightarrow> seq_cells ?c q = {}" using ps by simp
  show "kv_seq_pos_min kc (int q) = Some (if ps = {} then -1 else Min ps)"
    unfolding ne using seq_pos_min_ok[OF D(6)[OF s(1)] s(2)] s(1) D(3) q ps
    by (simp add: kv_seq_pos_min_def stream_of_int cells_of_def)
  show "kv_seq_pos_max kc (int q) = Some (if ps = {} then -1 else Max ps)"
    unfolding ne using seq_pos_max_ok[OF D(6)[OF s(1)] s(2)] s(1) D(3) q ps
    by (simp add: kv_seq_pos_max_def stream_of_int cells_of_def)
qed

section \<open>Copies into another stream\<close>

definition moved_cell :: "nat \<Rightarrow> nat \<Rightarrow> cell \<Rightarrow> cell" where
  "moved_cell q r x = (case x of (p, e, sh, S) \<Rightarrow> if q \<in> S then (p, e, sh, {r}) else empty_cell)"

lemma copy_cell_ok:
  assumes inv0: "cells_inv c0" and inv: "cells_inv d" and i: "i < cells_size c0" "i < cells_size d"
    and q: "q < LLAMA_MAX_SEQ" and r: "r < LLAMA_MAX_SEQ"
    and empty: "cell_at d i = empty_cell"
    and orig: "q \<in> kv_seq c0 ! i \<Longrightarrow> 0 \<le> kv_pos c0 ! i - kv_shift c0 ! i \<and> in_i32 (kv_pos c0 ! i - kv_shift c0 ! i)"
  shows "\<exists>d'. copy_cell c0 (int q) (int r) i d = Some d' \<and> replaced d i (moved_cell q r (cell_at c0 i)) d'"
proof (cases "q \<in> kv_seq c0 ! i")
  case False
  with i q empty replaced_refl[OF i(2) inv] show ?thesis
    by (auto simp: copy_cell_def seq_has_def moved_cell_def cell_at_def)
next
  case True
  let ?p = "kv_pos c0 ! i" and ?sh = "kv_shift c0 ! i"
  have e: "kv_pos d ! i = -1" "kv_seq d ! i = {}" "kv_shift d ! i = 0"
    using empty by (simp_all add: cell_at_def empty_cell_def)
  have c0: "?p \<noteq> -1" "0 \<le> ?p" "in_i32 ?p" "in_i32 ?sh"
    using True cells_inv_D(7)[OF inv0 i(1)] by (auto simp: cell_ok_def)
  have o: "0 \<le> ?p - ?sh" "in_i32 (?p - ?sh)" using orig[OF True] by auto
  obtain d1 where d1: "pos_set i (?p - ?sh) d = Some d1" "replaced d i (?p - ?sh, kv_ext d ! i, 0, {}) d1"
    using pos_set_ok[OF inv i(2) e(1) o] by blast
  have i1: "cells_inv d1" "i < cells_size d1" "cell_at d1 i = (?p - ?sh, kv_ext d ! i, 0, {})"
    using d1(2) i(2) replaced_size[OF d1(2)] replaced_at[OF d1(2) i(2,2)] by (auto simp: replaced_def)
  obtain d2 where d2: "seq_add i (int r) d1 = Some d2" "replaced d1 i (?p - ?sh, kv_ext d ! i, 0, {r}) d2"
    using seq_add_ok[OF i1(1,2), of r] i1(3) r o by (auto simp: cell_at_def)
  have i2: "cells_inv d2" "i < cells_size d2" "cell_at d2 i = (?p - ?sh, kv_ext d ! i, 0, {r})"
    using d2(2) i1(2) replaced_size[OF d2(2)] replaced_at[OF d2(2) i1(2,2)] by (auto simp: replaced_def)
  obtain d3 where d3: "(if ?sh \<noteq> 0 then map_option snd (pos_add i ?sh d2) else Some d2) = Some d3"
    "replaced d2 i (?p, kv_ext d ! i, ?sh, {r}) d3"
  proof (cases "?sh = 0")
    case True
    then show ?thesis using that[of d2] replaced_refl[OF i2(2,1)] i2(3) by simp
  next
    case False
    from pos_add_ok[OF i2(1,2), of ?sh] i2(3) o c0 obtain d' where
      "pos_add i ?sh d2 = Some (False, d')" "replaced d2 i (?p, kv_ext d ! i, ?sh, {r}) d'"
      by (auto simp: cell_at_def)
    with False that[of d'] show ?thesis by simp
  qed
  have i3: "cells_inv d3" "i < cells_size d3" "cell_at d3 i = (?p, kv_ext d ! i, ?sh, {r})"
    using d3(2) i2(2) replaced_size[OF d3(2)] replaced_at[OF d3(2) i2(2,2)] by (auto simp: replaced_def)
  obtain d4 where d4: "ext_set i (kv_ext c0 ! i) d3 = Some d4" "replaced d3 i (?p, kv_ext c0 ! i, ?sh, {r}) d4"
    using ext_set_ok[OF i3(1,2), of "kv_ext c0 ! i"] i3(3) by (auto simp: cell_at_def)
  have "copy_cell c0 (int q) (int r) i d = Some d4"
    using True i q c0 o d1(1) d2(1) d3(1) d4(1)
    by (cases "?sh = 0") (auto simp: copy_cell_def seq_has_def pos_get_def get_shift_def ext_get_def i32_in)
  moreover have "replaced d i (?p, kv_ext c0 ! i, ?sh, {r}) d4"
    using d1(2) d2(2) d3(2) d4(2) by (simp add: replaced_def)
  ultimately show ?thesis using True by (auto simp: moved_cell_def cell_at_def)
qed

lemma copy_cells_ok:
  assumes inv0: "cells_inv c0" and inv: "cells_inv d" and size: "cells_size c0 = n" "cells_size d = n"
    and empty: "view d = replicate n empty_cell" and q: "q < LLAMA_MAX_SEQ" and r: "r < LLAMA_MAX_SEQ"
    and orig: "\<forall>(p, e, sh, S) \<in> set (view c0). q \<in> S \<longrightarrow> 0 \<le> p - sh \<and> in_i32 (p - sh)"
  shows "\<exists>d'. foldM (copy_cell c0 (int q) (int r)) [0..<n] d = Some d' \<and> cells_inv d' \<and>
     view d' = map (moved_cell q r) (view c0)"
proof -
  let ?P = "\<lambda>k d. cells_inv d \<and> view d = map (moved_cell q r) (take k (view c0)) @ replicate (n - k) empty_cell"
  have start: "?P 0 d" using inv empty by simp
  have step: "\<exists>d'. copy_cell c0 (int q) (int r) k d = Some d' \<and> ?P (Suc k) d'" if k: "k < n" and P: "?P k d" for k d
  proof -
    have len: "cells_size d = n" using arg_cong[OF conjunct2[OF P], of length] k size by simp
    have "view d ! k = empty_cell" using P k size by (simp add: nth_append)
    then have e: "cell_at d k = empty_cell" using k len by simp
    have "cell_at c0 k \<in> set (view c0)" using k size by (simp add: view_def)
    then have o: "q \<in> kv_seq c0 ! k \<Longrightarrow> 0 \<le> kv_pos c0 ! k - kv_shift c0 ! k \<and> in_i32 (kv_pos c0 ! k - kv_shift c0 ! k)"
      using orig by (auto simp: cell_at_def)
    obtain d' where d': "copy_cell c0 (int q) (int r) k d = Some d'" "replaced d k (moved_cell q r (cell_at c0 k)) d'"
      using copy_cell_ok[OF inv0 conjunct1[OF P] _ _ q r e o] k size len by auto
    have "n - k = Suc (n - Suc k)" using k by simp
    then have "view d' = map (moved_cell q r) (take (Suc k) (view c0)) @ replicate (n - Suc k) empty_cell"
      using d'(2) P k size by (simp add: replaced_def list_update_append take_Suc_conv_app_nth)
    with d' show ?thesis by (auto simp: replaced_def)
  qed
  have "\<exists>d'. foldM (copy_cell c0 (int q) (int r)) [0..<n] d = Some d' \<and> ?P n d'"
    by (rule foldM_upt[where P = ?P, OF start]) (rule step)
  then show ?thesis using size by auto
qed

lemma get_size_ok:
  assumes inv: "kc_inv kc n" and j: "j < length (kc_seq_to_stream kc)"
  shows "get_size kc = Some n"
proof -
  from j have 0: "0 < length (kc_seq_to_stream kc)" by linarith
  then show ?thesis
    using seq_stream(1)[OF inv 0] kc_inv_D(3)[OF inv] kc_inv_D(7)[OF inv seq_stream(1)[OF inv 0]]
    by (simp add: get_size_def cells_of_def)
qed

lemma kv_seq_cp_stream_ok:
  assumes inv: "kc_inv kc n" and q: "q < length (kc_seq_to_stream kc)" "r < length (kc_seq_to_stream kc)"
    and diff: "kc_seq_to_stream kc ! q \<noteq> kc_seq_to_stream kc ! r"
    and full: "p0 \<le> 0 \<or> int n \<le> p0 + 1" "p1 \<le> 0 \<or> int n \<le> p1 + 1" "p0 \<noteq> INT32_MAX" "p1 \<noteq> INT32_MAX"
    and orig: "\<forall>(p, e, sh, S) \<in> set (kv_view kc ! (kc_seq_to_stream kc ! q)). q \<in> S \<longrightarrow> 0 \<le> p - sh \<and> in_i32 (p - sh)"
  shows "\<exists>kc'. kv_seq_cp (int q) (int r) p0 p1 kc = Some kc' \<and> kc_inv kc' n \<and>
     kv_view kc' = (kv_view kc)[kc_seq_to_stream kc ! r :=
       map (moved_cell q r) (kv_view kc ! (kc_seq_to_stream kc ! q))] \<and>
     kc_ssrc kc' = kc_ssrc kc @ [kc_seq_to_stream kc ! q] \<and> kc_sdst kc' = kc_sdst kc @ [kc_seq_to_stream kc ! r]"
proof -
  note s = seq_stream[OF inv q(1)] and t = seq_stream[OF inv q(2)] and D = kc_inv_D[OF inv]
  let ?s0 = "kc_seq_to_stream kc ! q" and ?s1 = "kc_seq_to_stream kc ! r"
  let ?c0 = "kc_cells kc ! ?s0" and ?c1 = "kc_cells kc ! ?s1"
  have v: "kv_view kc ! ?s0 = view ?c0" using s D(3) by (simp add: kv_view_nth)
  have size: "cells_size (reset ?c1) = n" using D(7)[OF t(1)] by (simp add: reset_def cells_size_def)
  obtain c where c: "foldM (copy_cell ?c0 (int q) (int r)) [0..<n] (reset ?c1) = Some c" "cells_inv c"
    "view c = map (moved_cell q r) (view ?c0)"
    using copy_cells_ok[OF D(6)[OF s(1)] _ D(7)[OF s(1)] size, of q r] reset_ok[OF D(6)[OF t(1)]]
      D(7)[OF t(1)] s(2) t(2) orig v by auto
  have n: "cells_size c = n" using arg_cong[OF c(3), of length] D(7)[OF s(1)] by simp
  have in_s: "cell_in_stream (kc_seq_to_stream kc) ?s1 (moved_cell q r x)" for x
    using q by (auto simp: moved_cell_def cell_in_stream_def empty_cell_def split: prod.splits)
  have ok: "stream_ok (kc_seq_to_stream kc) n ?s1 (kc_heads kc ! ?s0) c"
    using c(2,3) n D(8)[OF s(1)] in_s by (auto simp: stream_ok_def)
  have gs: "get_size kc = Some n" by (rule get_size_ok[OF inv q(1)])
  let ?kc' = "(put_stream ?s1 c (kc_heads kc ! ?s0) kc)\<lparr>kc_ssrc := kc_ssrc kc @ [?s0], kc_sdst := kc_sdst kc @ [?s1]\<rparr>"
  have "kc_inv (x\<lparr>kc_ssrc := a, kc_sdst := b\<rparr>) n = kc_inv x n" "kv_view (x\<lparr>kc_ssrc := a, kc_sdst := b\<rparr>) = kv_view x" for x a b
    by (simp_all add: kc_inv_def kv_view_def)
  then have "kc_inv ?kc' n \<and> kv_view ?kc' = (kv_view kc)[?s1 := view c]"
    using put_stream_inv[OF inv t(1) ok] by simp
  moreover have "kv_seq_cp (int q) (int r) p0 p1 kc = Some ?kc'"
    using q diff full gs s(1) t(1) D(3,4) D(7)[OF s(1)] c(1)
    by (auto simp: kv_seq_cp_def stream_of_int cells_of_def head_of_def)
  ultimately show ?thesis using c(3) v by (simp add: put_stream_def)
qed

lemma kv_update_ok:
  assumes "kc_inv kc n" "kv_update rope_none computed do_shift sc kc = Some (b, kc')"
  shows "kc_inv kc' n \<and>
    (if do_shift \<and> (rope_none \<or> computed)
     then kv_view kc' = map (map (\<lambda>(p, e, sh, S). (p, e, 0, S))) (kv_view kc) \<and> \<not> get_has_shift kc'
     else kc' = kc)"
proof -
  note D = kc_inv_D[OF assms(1)]
  have c: "cells_inv c" if "c \<in> set (kc_cells kc)" for c
    using that D(3,6) by (auto simp: in_set_conv_nth)
  show ?thesis
  proof (cases "do_shift \<and> (rope_none \<or> computed)")
    case True
    then have kc': "kc' = kc\<lparr>kc_cells := map reset_shift (kc_cells kc)\<rparr>"
      using assms(2) by (auto simp: kv_update_def split: if_splits)
    have "stream_ok (kc_seq_to_stream kc) n s (kc_heads kc ! s) (reset_shift (kc_cells kc ! s))"
      if s: "s < kc_n_stream kc" for s
      using D(5)[OF s] reset_shift_ok[OF D(6)[OF s]] D(7)[OF s]
      by (fastforce simp: stream_ok_def cell_in_stream_def reset_shift_def cells_size_def)
    with True kc' assms(1) show ?thesis
      using D(3) reset_shift_ok[OF c] by (auto simp: kc_inv_def kv_view_def get_has_shift_def)
  next
    case False
    with assms show ?thesis by (auto simp: kv_update_def split: if_splits)
  qed
qed

lemma kv_cache_init_ok:
  assumes "n_pad \<noteq> 0" "n mod n_pad = 0" "unified \<or> 0 < n_seq_max \<and> n_seq_max \<le> LLAMA_MAX_SEQ"
  shows "\<exists>kc. kv_cache_init v_trans unified n n_seq_max n_pad n_swa swa n_pos n_embd alibi = Some kc \<and>
    kc_inv kc n \<and> kv_view kc = replicate (if unified then 1 else n_seq_max) (replicate n empty_cell)"
proof -
  have r: "stream_ok m n s 0 (resize n cells_init)" for m s
    using resize_ok[of n cells_init] length_view[of "resize n cells_init"]
    by (auto simp: stream_ok_def cell_in_stream_def empty_cell_def)
  then show ?thesis
    using assms resize_ok[of n cells_init]
    by (auto simp: kv_cache_init_def Let_def kc_inv_def stream_map_def kv_view_def LLAMA_MAX_SEQ_def)
qed

end
