(* ===== verification/KvSlotLaws.thy ===== *)
theory KvSlotLaws
  imports KvSlot KvCacheLaws
begin

text \<open>
  What placing a micro-batch does. The search visits every cell once, starting at the head of the
  ring, and finds a slot exactly when enough cells can be used; writing the micro-batch replaces the
  cells of the slot and purges what is older than an overwritten position; \<open>prepare\<close> puts the state
  back.
\<close>

section \<open>The search\<close>

definition ring :: "nat \<Rightarrow> nat \<Rightarrow> nat list" where
  "ring h n = [h..<n] @ [0..<h]"

lemma length_ring [simp]: "h \<le> n \<Longrightarrow> length (ring h n) = n"
  by (simp add: ring_def)

lemma ring_nth: "h \<le> n \<Longrightarrow> t < n \<Longrightarrow> ring h n ! t = (if h + t < n then h + t else h + t - n)"
  by (auto simp: ring_def nth_append)

lemma set_ring: "h \<le> n \<Longrightarrow> set (ring h n) = {..<n}"
  by (auto simp: ring_def)

lemma distinct_ring: "distinct (ring h n)"
  by (auto simp: ring_def)

definition found :: "(nat \<Rightarrow> bool) \<Rightarrow> nat \<Rightarrow> nat \<Rightarrow> nat \<Rightarrow> nat list option" where
  "found u h n k = (let cand = filter u (ring h n) in if k \<le> length cand then Some (take k cand) else None)"

lemma slot_search_from:
  assumes can: "\<And>i. i < n \<Longrightarrow> can i = Some (u i)" and h: "h \<le> n" and t: "t < n"
    and less: "length (filter u (take t (ring h n))) < k"
    and head: "hc = ring h n ! t \<or> hc = n \<and> ring h n ! t = 0"
  shows "slot_search can False n k (hc, t, filter u (take t (ring h n))) = Some (found u h n k)"
  using t less head
proof (induction "n - t" arbitrary: t hc rule: less_induct)
  case less
  let ?L = "ring h n" and ?c = "ring h n ! t"
  have c: "?c < n" using less.prems(1) h by (auto simp: ring_nth)
  have tk: "take (Suc t) ?L = take t ?L @ [?c]" using less.prems(1) h by (simp add: take_Suc_conv_app_nth)
  let ?new = "filter u (take (Suc t) ?L)"
  have new: "?new = filter u (take t ?L) @ (if u ?c then [?c] else [])" using tk by simp
  have cand: "filter u ?L = ?new @ filter u (drop (Suc t) ?L)"
    by (metis append_take_drop_id filter_append)
  let ?next = "if length ?new = k then Some (Some ?new)
     else if n \<le> t + 1 then Some None else slot_search can False n k (?c + 1, t + 1, ?new)"
  have at: "slot_search can False n k (?c, t, filter u (take t ?L)) = ?next"
    using c can[OF c] by (subst slot_search.simps) (simp add: new)
  have "slot_search can False n k (n, t, filter u (take t ?L)) =
      slot_search can False n k (0, t, filter u (take t ?L))"
    by (subst slot_search.simps) simp
  with at less.prems(3) have eq: "slot_search can False n k (hc, t, filter u (take t ?L)) = ?next"
    by auto
  have le: "length ?new \<le> k" using less.prems(2) new by auto
  show ?case
  proof (cases "length ?new = k")
    case True
    then have "found u h n k = Some ?new" using cand by (simp add: found_def)
    with True eq show ?thesis by simp
  next
    case False
    with le have lt: "length ?new < k" by simp
    show ?thesis
    proof (cases "n \<le> t + 1")
      case True
      then have "drop (Suc t) ?L = []" using h by simp
      then have "found u h n k = None" using cand lt by (simp add: found_def)
      with False True eq show ?thesis by simp
    next
      case more: False
      then have "n - (t + 1) < n - t" "t + 1 < n" by auto
      moreover have "?c + 1 = ?L ! (t + 1) \<or> ?c + 1 = n \<and> ?L ! (t + 1) = 0"
        using more h by (auto simp: ring_nth)
      ultimately have "slot_search can False n k (?c + 1, t + 1, ?new) = Some (found u h n k)"
        using less.hyps[of "t + 1" "?c + 1"] lt by simp
      with False more eq show ?thesis by simp
    qed
  qed
qed

text \<open>A search for at least one cell stops, and finds one exactly when there are enough.\<close>

lemma slot_search_ok:
  assumes can: "\<And>i. i < n \<Longrightarrow> can i = Some (u i)" and h: "h \<le> n" and k: "0 < k" and n: "0 < n"
  shows "slot_search can False n k (h, 0, []) = Some (found u h n k)"
  using slot_search_from[of n can u h 0 k h] assms by (auto simp: ring_nth)

lemma found_Some:
  assumes "found u h n k = Some idxs" "h \<le> n"
  shows "length idxs = k" "distinct idxs" "\<forall>i \<in> set idxs. i < n \<and> u i"
proof -
  have i: "idxs = take k (filter u (ring h n))" "k \<le> length (filter u (ring h n))"
    using assms(1) by (auto simp: found_def Let_def split: if_splits)
  show "length idxs = k" using i by simp
  show "distinct idxs" using i(1) distinct_ring by simp
  have "set idxs \<subseteq> set (filter u (ring h n))" using i(1) set_take_subset by metis
  then show "\<forall>i \<in> set idxs. i < n \<and> u i" using set_ring[OF assms(2)] by auto
qed

lemma found_None:
  assumes "h \<le> n"
  shows "found u h n k = None \<longleftrightarrow> card {i. i < n \<and> u i} < k"
proof -
  have "length (filter u (ring h n)) = card (set (filter u (ring h n)))"
    using distinct_ring distinct_card distinct_filter by metis
  also have "set (filter u (ring h n)) = {i. i < n \<and> u i}" using set_ring[OF assms] by auto
  finally show ?thesis by (auto simp: found_def Let_def)
qed

section \<open>Cells that can be used\<close>

definition window_ok :: "kv_cache \<Rightarrow> bool" where
  "window_ok kc \<longleftrightarrow> kc_n_swa kc \<noteq> 0 \<or> kc_swa_type kc \<noteq> LLAMA_SWA_TYPE_CHUNKED"

definition room :: "cell list \<Rightarrow> bool" where
  "room xs \<longleftrightarrow> (\<forall>x \<in> set xs. fst x < INT32_MAX)"

text \<open>
  A cell is usable when it is empty or when its only sequence will never attend to it again: it is
  masked for the position after the last one of that sequence.
\<close>

definition usable :: "kv_cache \<Rightarrow> cell list \<Rightarrow> nat \<Rightarrow> bool" where
  "usable kc xs i \<longleftrightarrow> fst (xs ! i) = -1 \<or>
     (\<exists>q. snd (snd (snd (xs ! i))) = {q} \<and>
        is_masked_swa (kc_n_swa kc) (kc_swa_type kc) (fst (xs ! i)) (Max (seq_positions q xs) + 1) = Some True)"

lemma can_use_ok:
  assumes inv: "cells_inv c" and i: "i < cells_size c" and w: "window_ok kc" and room: "room (view c)"
  shows "can_use kc c i = Some (usable kc (view c) i)"
proof (cases "kv_pos c ! i = -1")
  case True
  with is_empty_ok[OF inv i] i show ?thesis by (simp add: can_use_def usable_def)
next
  case used: False
  note D = cells_inv_D[OF inv]
  have p: "0 \<le> kv_pos c ! i" "finite (kv_seq c ! i)" "kv_seq c ! i \<subseteq> {..<LLAMA_MAX_SEQ}"
    using D(7)[OF i] used by (auto simp: cell_ok_def intro: finite_subset)
  have e: "is_empty c i = Some False" "seq_count c i = Some (card (kv_seq c ! i))" "pos_get c i = Some (kv_pos c ! i)"
    using is_empty_ok[OF inv i] used i by (simp_all add: seq_count_def pos_get_def)
  show ?thesis
  proof (cases "card (kv_seq c ! i) = 1")
    case False
    then have "\<nexists>q. kv_seq c ! i = {q}" by auto
    with False e used i show ?thesis by (simp add: can_use_def usable_def)
  next
    case True
    then obtain q where q: "kv_seq c ! i = {q}" by (auto simp: card_1_singleton_iff)
    have qb: "q < LLAMA_MAX_SEQ" using q p(3) by auto
    have g: "seq_get c i = Some (int q)" using seq_get_ok[OF inv i] q by simp
    have ic: "i \<in> seq_cells c q" using q i by (simp add: seq_cells_def)
    let ?M = "Max (seq_positions q (view c))"
    have m: "seq_pos_max c (int q) = Some ?M"
      using seq_pos_max_ok[OF inv qb] ic by (auto simp: seq_positions_view)
    have fin: "finite (seq_positions q (view c))" by (simp add: seq_positions_def)
    have "kv_pos c ! i \<in> seq_positions q (view c)" using ic by (simp add: seq_positions_view)
    then have ge: "kv_pos c ! i \<le> ?M" and mem: "?M \<in> seq_positions q (view c)"
      using fin by (auto intro: Max_in)
    from mem room have "?M < INT32_MAX" by (auto simp: seq_positions_def room_def)
    then have i32: "in_i32 (?M + 1)" using ge p(1) by (simp add: in_i32_def INT32_MAX_def)
    obtain b where b: "is_masked_swa (kc_n_swa kc) (kc_swa_type kc) (kv_pos c ! i) (?M + 1) = Some b"
      using is_masked_swa_total[of "kv_pos c ! i" "?M + 1"] p(1) ge w unfolding window_ok_def by fastforce
    show ?thesis
      using True e g m i32 b q used i by (cases b) (simp_all add: can_use_def usable_def i32_in)
  qed
qed

section \<open>find_slot\<close>

text \<open>Number of streams a micro-batch is spread over, and its tokens per stream.\<close>

definition ub_ns :: "kv_cache \<Rightarrow> llama_ubatch \<Rightarrow> nat" where
  "ub_ns kc ub = (if kc_n_stream kc > 1 then ub_n_seqs_unq ub else 1)"

definition ub_nt :: "kv_cache \<Rightarrow> llama_ubatch \<Rightarrow> nat" where
  "ub_nt kc ub = ub_n_tokens ub div ub_ns kc ub"

definition ub_strm :: "kv_cache \<Rightarrow> llama_ubatch \<Rightarrow> nat \<Rightarrow> nat" where
  "ub_strm kc ub s = kc_seq_to_stream kc ! nat (ub_seq_id_unq ub ! s)"

definition ub_ids :: "llama_ubatch \<Rightarrow> nat \<Rightarrow> llama_seq_id list" where
  "ub_ids ub i = take (ub_n_seq_id ub ! i) (ub_seq_id ub ! i)"

definition token_ok :: "kv_cache \<Rightarrow> llama_ubatch \<Rightarrow> nat \<Rightarrow> nat \<Rightarrow> bool" where
  "token_ok kc ub s i \<longleftrightarrow>
     0 \<le> ub_pos ub ! i \<and> ub_pos ub ! i < INT32_MAX \<and>
     0 < ub_n_seq_id ub ! i \<and> ub_n_seq_id ub ! i \<le> length (ub_seq_id ub ! i) \<and> distinct (ub_ids ub i) \<and>
     (\<forall>q \<in> set (ub_ids ub i). 0 \<le> q \<and> nat q < length (kc_seq_to_stream kc) \<and>
        kc_seq_to_stream kc ! nat q = ub_strm kc ub s) \<and>
     (kc_n_stream kc > 1 \<longrightarrow> ub_n_seq_id ub ! i = 1 \<and> ub_seq_id ub ! i ! 0 = ub_seq_id_unq ub ! s)"

text \<open>What the batch allocator guarantees of the micro-batches it makes for this cache.\<close>

definition ub_ok :: "kv_cache \<Rightarrow> llama_ubatch \<Rightarrow> bool" where
  "ub_ok kc ub \<longleftrightarrow>
     0 < ub_n_tokens ub \<and> 0 < ub_ns kc ub \<and> ub_n_tokens ub = ub_ns kc ub * ub_nt kc ub \<and>
     ub_n_tokens ub \<le> length (ub_pos ub) \<and> ub_n_tokens ub \<le> length (ub_n_seq_id ub) \<and>
     ub_n_tokens ub \<le> length (ub_seq_id ub) \<and> (is_pos_2d ub \<longrightarrow> 3 * ub_n_tokens ub \<le> length (ub_pos ub)) \<and>
     ub_ns kc ub \<le> length (ub_seq_id_unq ub) \<and>
     (\<forall>s < ub_ns kc ub. 0 \<le> ub_seq_id_unq ub ! s \<and> nat (ub_seq_id_unq ub ! s) < length (kc_seq_to_stream kc)) \<and>
     distinct (map (ub_strm kc ub) [0..<ub_ns kc ub]) \<and>
     (\<forall>s < ub_ns kc ub. \<forall>ii < ub_nt kc ub. token_ok kc ub s (s * ub_nt kc ub + ii))"

text \<open>A slot for the micro-batch: for every stream as many different usable cells as it has tokens.\<close>

definition slot_for :: "kv_cache \<Rightarrow> nat \<Rightarrow> llama_ubatch \<Rightarrow> slot_info \<Rightarrow> bool" where
  "slot_for kc n ub si \<longleftrightarrow>
     length (si_idxs si) = ub_ns kc ub \<and> si_strm si = map (ub_strm kc ub) [0..<ub_ns kc ub] \<and>
     (\<forall>s < ub_ns kc ub. length (si_idxs si ! s) = ub_nt kc ub \<and> distinct (si_idxs si ! s) \<and>
        (\<forall>i \<in> set (si_idxs si ! s). i < n \<and> usable kc (kv_view kc ! ub_strm kc ub s) i))"

definition enough_cells :: "kv_cache \<Rightarrow> nat \<Rightarrow> llama_ubatch \<Rightarrow> nat \<Rightarrow> bool" where
  "enough_cells kc n ub s \<longleftrightarrow> ub_nt kc ub \<le> card {i. i < n \<and> usable kc (kv_view kc ! ub_strm kc ub s) i}"

lemma ub_ok_D:
  assumes "ub_ok kc ub"
  shows "0 < ub_n_tokens ub" "0 < ub_ns kc ub" "0 < ub_nt kc ub" "ub_n_tokens ub = ub_ns kc ub * ub_nt kc ub"
    "s < ub_ns kc ub \<Longrightarrow> s < length (ub_seq_id_unq ub)"
    "s < ub_ns kc ub \<Longrightarrow> stream_of kc (ub_seq_id_unq ub ! s) = Some (ub_strm kc ub s)"
    "s < ub_ns kc ub \<Longrightarrow> ii < ub_nt kc ub \<Longrightarrow> s * ub_nt kc ub + ii < ub_n_tokens ub"
    "s < ub_ns kc ub \<Longrightarrow> ii < ub_nt kc ub \<Longrightarrow> token_ok kc ub s (s * ub_nt kc ub + ii)"
proof -
  note u = assms[unfolded ub_ok_def]
  show "0 < ub_n_tokens ub" "0 < ub_ns kc ub" "ub_n_tokens ub = ub_ns kc ub * ub_nt kc ub" using u by blast+
  then show "0 < ub_nt kc ub" by (metis bot_nat_0.not_eq_extremum mult_0_right)
  show "s < ub_ns kc ub \<Longrightarrow> s < length (ub_seq_id_unq ub)" using u by auto
  show "s < ub_ns kc ub \<Longrightarrow> stream_of kc (ub_seq_id_unq ub ! s) = Some (ub_strm kc ub s)"
    using u by (auto simp: stream_of_def ub_strm_def)
  show "s * ub_nt kc ub + ii < ub_n_tokens ub" if "s < ub_ns kc ub" "ii < ub_nt kc ub"
  proof -
    have "s * ub_nt kc ub + ii < (s + 1) * ub_nt kc ub" using that(2) by simp
    also have "\<dots> \<le> ub_ns kc ub * ub_nt kc ub" using that(1) by (intro mult_le_mono1) simp
    finally show ?thesis using u by simp
  qed
  show "s < ub_ns kc ub \<Longrightarrow> ii < ub_nt kc ub \<Longrightarrow> token_ok kc ub s (s * ub_nt kc ub + ii)" using u by blast
qed

lemma ub_strm_less: "kc_inv kc n \<Longrightarrow> ub_ok kc ub \<Longrightarrow> s < ub_ns kc ub \<Longrightarrow> ub_strm kc ub s < kc_n_stream kc"
  using seq_stream(1)[of kc n "nat (ub_seq_id_unq ub ! s)"] by (auto simp: ub_ok_def ub_strm_def)

lemma find_slot_seqs_ok:
  assumes inv: "kc_inv kc n" and n: "0 < n" and w: "window_ok kc" and room: "\<forall>xs \<in> set (kv_view kc). room xs"
    and ub: "ub_ok kc ub"
    and s: "s \<le> ub_ns kc ub" and len: "length (si_strm res) = ub_ns kc ub" "length (si_idxs res) = ub_ns kc ub"
    and prev: "\<forall>t < s. si_strm res ! t = ub_strm kc ub t \<and> enough_cells kc n ub t \<and>
       length (si_idxs res ! t) = ub_nt kc ub \<and> distinct (si_idxs res ! t) \<and>
       (\<forall>i \<in> set (si_idxs res ! t). i < n \<and> usable kc (kv_view kc ! ub_strm kc ub t) i)"
    and bounds: "0 < s \<longrightarrow> si_s0 res \<le> si_s1 res"
  shows "\<exists>si. find_slot_seqs kc ub False (ub_nt kc ub) [s..<ub_ns kc ub] res = Some si \<and>
     (if \<forall>t < ub_ns kc ub. enough_cells kc n ub t then slot_for kc n ub si else si = slot_none)"
  using s len prev bounds
proof (induction "ub_ns kc ub - s" arbitrary: s res rule: less_induct)
  case less
  note U = ub_ok_D[OF ub]
  show ?case
  proof (cases "s = ub_ns kc ub")
    case True
    then show ?thesis
      using less.prems U(2) by (auto simp: slot_for_def intro!: nth_equalityI)
  next
    case False
    with less.prems(1) have s: "s < ub_ns kc ub" by simp
    let ?st = "ub_strm kc ub s" and ?nt = "ub_nt kc ub" and ?q = "ub_seq_id_unq ub ! s"
    have st: "?st < kc_n_stream kc" by (rule ub_strm_less[OF inv ub s])
    note D = kc_inv_D[OF inv]
    let ?c = "kc_cells kc ! ?st"
    have c: "cells_of kc ?st = Some ?c" "head_of kc ?st = Some (kc_heads kc ! ?st)" "kv_view kc ! ?st = view ?c"
      using st D(3,4) by (simp_all add: cells_of_def head_of_def kv_view_nth)
    let ?h = "if kc_heads kc ! ?st > get_used ?c + 2 * ?nt then 0 else kc_heads kc ! ?st"
    have h: "?h \<le> n" using D(8)[OF st] by simp
    have can: "can_use kc ?c i = Some (usable kc (view ?c) i)" if "i < n" for i
      using can_use_ok[OF D(6)[OF st] _ w] that D(7)[OF st] room D(3) st c(3)
      by (metis kv_view_def length_map nth_mem)
    have search: "slot_search (can_use kc ?c) False n ?nt (?h, 0, []) = Some (found (usable kc (view ?c)) ?h n ?nt)"
      by (rule slot_search_ok[OF can h U(3) n])
    have first: "s * ?nt < ub_n_tokens ub" "token_ok kc ub s (s * ?nt)" using U(7,8)[OF s U(3)] by simp_all
    have layout: "kc_n_stream kc > 1 \<Longrightarrow> s * ?nt < length (ub_n_seq_id ub) \<and> ub_n_seq_id ub ! (s * ?nt) = 1 \<and>
        s * ?nt < length (ub_seq_id ub) \<and> 0 < length (ub_seq_id ub ! (s * ?nt)) \<and> ub_seq_id ub ! (s * ?nt) ! 0 = ?q"
    proof -
      assume "kc_n_stream kc > 1"
      with first(2) have t: "ub_n_seq_id ub ! (s * ?nt) = 1 \<and> ub_seq_id ub ! (s * ?nt) ! 0 = ?q \<and>
          0 < length (ub_seq_id ub ! (s * ?nt))" by (auto simp: token_ok_def)
      have "s * ?nt < length (ub_n_seq_id ub) \<and> s * ?nt < length (ub_seq_id ub)"
        using first(1) ub unfolding ub_ok_def by linarith
      with t show ?thesis by blast
    qed
    have split: "[s..<ub_ns kc ub] = s # [Suc s..<ub_ns kc ub]" using s by (rule upt_conv_Cons)
    have u: "{i. i < n \<and> usable kc (view ?c) i} \<subseteq> {..<n}" by auto
    show ?thesis
    proof (cases "enough_cells kc n ub s")
      case False
      have small: "card {i. i < n \<and> usable kc (view ?c) i} < ?nt" using False c(3) by (simp add: enough_cells_def)
      then have none: "found (usable kc (view ?c)) ?h n ?nt = None" using found_None[OF h] by simp
      have "find_slot_seqs kc ub False ?nt [s..<ub_ns kc ub] res = Some slot_none"
        unfolding split using U(5,6)[OF s] layout c(1,2) D(7)[OF st] search none
        by (cases "kc_n_stream kc > 1") (simp_all add: Let_def)
      with False s show ?thesis by auto
    next
      case True
      have "card {i. i < n \<and> usable kc (view ?c) i} \<le> n" using card_mono[OF _ u] by simp
      with True c(3) have nt: "?nt \<le> n" by (simp add: enough_cells_def)
      obtain idxs where idxs: "found (usable kc (view ?c)) ?h n ?nt = Some idxs"
        using True c(3) found_None[OF h, of "usable kc (view ?c)" ?nt] by (cases "found (usable kc (view ?c)) ?h n ?nt") (auto simp: enough_cells_def)
      note I = found_Some[OF idxs h]
      let ?res = "res\<lparr>si_s0 := min (si_s0 res) ?st, si_s1 := max (si_s1 res) ?st,
          si_strm := (si_strm res)[s := ?st], si_idxs := (si_idxs res)[s := idxs]\<rparr>"
      have step: "find_slot_seqs kc ub False ?nt [s..<ub_ns kc ub] res =
          find_slot_seqs kc ub False ?nt [Suc s..<ub_ns kc ub] ?res"
        unfolding split using U(5,6)[OF s] layout c(1,2) D(7)[OF st] search idxs nt I(1)
        by (cases "kc_n_stream kc > 1") (simp_all add: Let_def)
      have "\<exists>si. find_slot_seqs kc ub False ?nt [Suc s..<ub_ns kc ub] ?res = Some si \<and>
          (if \<forall>t < ub_ns kc ub. enough_cells kc n ub t then slot_for kc n ub si else si = slot_none)"
      proof (rule less.hyps)
        show "ub_ns kc ub - Suc s < ub_ns kc ub - s" "Suc s \<le> ub_ns kc ub" using s by simp_all
        show "\<forall>t < Suc s. si_strm ?res ! t = ub_strm kc ub t \<and> enough_cells kc n ub t \<and>
           length (si_idxs ?res ! t) = ?nt \<and> distinct (si_idxs ?res ! t) \<and>
           (\<forall>i \<in> set (si_idxs ?res ! t). i < n \<and> usable kc (kv_view kc ! ub_strm kc ub t) i)"
          using less.prems(2-4) True I s c(3) by (auto simp: less_Suc_eq)
      qed (use less.prems in auto)
      with step show ?thesis by simp
    qed
  qed
qed

lemma find_slot_ok:
  assumes inv: "kc_inv kc n" and n: "0 < n" and w: "window_ok kc" and room: "\<forall>xs \<in> set (kv_view kc). room xs"
    and ub: "ub_ok kc ub"
  shows "\<exists>si. find_slot kc ub False = Some si \<and>
     (if \<forall>s < ub_ns kc ub. enough_cells kc n ub s then slot_for kc n ub si else si = slot_none)"
proof -
  note U = ub_ok_D[OF ub]
  let ?res = "\<lparr>si_s0 = LLAMA_MAX_SEQ, si_s1 = 0, si_strm = replicate (ub_ns kc ub) 0, si_idxs = replicate (ub_ns kc ub) []\<rparr>"
  have "find_slot kc ub False = find_slot_seqs kc ub False (ub_nt kc ub) [0..<ub_ns kc ub] ?res"
  proof (cases "kc_n_stream kc > 1")
    case True
    then have "ub_n_tokens ub mod ub_n_seqs_unq ub = 0"
      using U(4) by (metis ub_ns_def mod_mult_self1_is_0)
    with True U(2) show ?thesis by (simp add: find_slot_def ub_ns_def ub_nt_def)
  next
    case False
    then show ?thesis by (simp add: find_slot_def ub_ns_def ub_nt_def)
  qed
  with find_slot_seqs_ok[OF inv n w room ub, of 0 ?res] show ?thesis by simp
qed

end
