(* ===== verification/KvApply.thy ===== *)
theory KvApply
  imports KvSlotLaws
begin

text \<open>
  The effect of \<open>apply_ubatch\<close>: the tokens are written into the cells of their slot, then, for every
  sequence of which a position was overwritten, all positions up to the largest of these are purged.
\<close>

section \<open>One token\<close>

definition written :: "llama_ubatch \<Rightarrow> nat \<Rightarrow> cell \<Rightarrow> cell" where
  "written ub i x =
     (ub_pos ub ! i,
      if is_pos_2d ub
      then \<lparr>ext_x = ub_pos ub ! (i + ub_n_tokens ub * 2), ext_y = ub_pos ub ! (i + ub_n_tokens ub)\<rparr>
      else if fst x = -1 then fst (snd x) else ext_zero,
      0, nat ` set (ub_ids ub i))"

definition bump :: "cell \<Rightarrow> (nat \<Rightarrow> llama_pos) \<Rightarrow> nat \<Rightarrow> llama_pos" where
  "bump x mrm q = (if fst x \<noteq> -1 \<and> has_seq q x then max (mrm q) (fst x) else mrm q)"

lemma replaced_trans:
  "replaced c i x d \<Longrightarrow> replaced d i y d' \<Longrightarrow> replaced c i y d'"
  by (simp add: replaced_def)

lemma replacedD:
  assumes "replaced c i x d" "i < cells_size c"
  shows "cells_inv d" "i < cells_size d" "cell_at d i = x" "cells_size d = cells_size c"
  using assms replaced_size[OF assms(1)] replaced_at[OF assms(1,2,2)] by (auto simp: replaced_def)

lemma seq_adds_ok:
  assumes inv: "cells_inv c" and i: "i < cells_size c" and at: "cell_at c i = (p, e, 0, {})" and p: "p \<noteq> -1"
    and ids: "k \<le> length ids" "distinct (take k ids)" "\<forall>q \<in> set (take k ids). 0 \<le> q \<and> nat q < LLAMA_MAX_SEQ"
  shows "\<exists>c'. foldM (\<lambda>k c. do { sid \<leftarrow> at ids k; seq_add i sid c }) [0..<k] c = Some c' \<and>
     replaced c i (p, e, 0, nat ` set (take k ids)) c' \<and> kv_has_shift c' = kv_has_shift c"
proof -
  let ?P = "\<lambda>j d. replaced c i (p, e, 0, nat ` set (take j ids)) d \<and> kv_has_shift d = kv_has_shift c"
  have start: "?P 0 c" using replaced_refl[OF i inv] at by simp
  have step: "\<exists>d'. do { sid \<leftarrow> at ids j; seq_add i sid d } = Some d' \<and> ?P (Suc j) d'" if j: "j < k" and P: "?P j d" for j d
  proof -
    note R = replacedD[OF conjunct1[OF P] i]
    have f: "kv_pos d ! i = p" "kv_ext d ! i = e" "kv_shift d ! i = 0" "kv_seq d ! i = nat ` set (take j ids)"
      using R(3) by (simp_all add: cell_at_def)
    have tk: "take (Suc j) ids = take j ids @ [ids ! j]" using j ids(1) by (simp add: take_Suc_conv_app_nth)
    have mem: "ids ! j \<in> set (take k ids)" using j ids(1) by (metis in_set_conv_nth length_take min.absorb2 nth_take)
    have sub: "set (take j ids) \<subseteq> set (take k ids)" using j by (simp add: set_take_subset_set_take)
    have "distinct (take (Suc j) ids)" using ids(2) j by (metis Suc_leI distinct_take min.absorb1 take_take)
    then have "ids ! j \<notin> set (take j ids)" using tk by simp
    then have new: "nat (ids ! j) \<notin> nat ` set (take j ids)"
      using ids(3) mem sub by (auto simp: image_iff) (metis eq_nat_nat_iff subsetD)
    have q: "ids ! j = int (nat (ids ! j))" "nat (ids ! j) < LLAMA_MAX_SEQ" using ids(3) mem by auto
    obtain d' where d': "seq_add i (int (nat (ids ! j))) d = Some d'" "kv_has_shift d' = kv_has_shift d"
      "replaced d i (p, e, 0, insert (nat (ids ! j)) (nat ` set (take j ids))) d'"
      using seq_add_ok[OF R(1,2), of "nat (ids ! j)"] f p new q(2) by auto
    have "replaced c i (p, e, 0, nat ` set (take (Suc j) ids)) d'"
      using replaced_trans[OF conjunct1[OF P] d'(3)] tk by simp
    with d' q(1) j ids(1) P show ?thesis by auto
  qed
  show ?thesis by (rule foldM_upt[where P = ?P, OF start]) (rule step)
qed

definition free_for :: "cell \<Rightarrow> bool" where
  "free_for x \<longleftrightarrow> fst x = -1 \<or> (\<exists>q. snd (snd (snd x)) = {q})"

lemma evict_ok:
  assumes inv: "cells_inv c" and i: "i < cells_size c" and free: "free_for (cell_at c i)"
  shows "\<exists>c'. evict i (c, mrm) = Some (c', bump (cell_at c i) mrm) \<and> kv_has_shift c' = kv_has_shift c \<and>
     replaced c i (if kv_pos c ! i = -1 then cell_at c i else empty_cell) c'"
proof (cases "kv_pos c ! i = -1")
  case True
  then show ?thesis
    using is_empty_ok[OF inv i] replaced_refl[OF i inv] by (auto simp: evict_def bump_def fun_eq_iff)
next
  case False
  with free obtain q where q: "kv_seq c ! i = {q}" by (auto simp: free_for_def)
  then have "q < LLAMA_MAX_SEQ" using cells_inv_D(7)[OF inv i] by (auto simp: cell_ok_def)
  moreover obtain c' where "rm i c = Some c'" "replaced c i empty_cell c'" "kv_has_shift c' = kv_has_shift c"
    using rm_ok[OF inv i False] by blast
  moreover have "seq_get c i = Some (int q)" using seq_get_ok[OF inv i] q by simp
  ultimately show ?thesis
    using False q i is_empty_ok[OF inv i]
    by (auto simp: evict_def seq_count_def pos_get_def bump_def fun_eq_iff has_seq_def)
qed

lemma apply_token_ok:
  assumes inv: "cells_inv c" and idx: "idx < cells_size c" and free: "free_for (cell_at c idx)"
    and i: "i < ub_n_tokens ub" and ub: "ub_ok kc ub" and tok: "token_ok kc ub s i" and kc: "kc_inv kc n"
  shows "\<exists>c'. apply_token ub i idx (c, mrm) = Some (c', bump (cell_at c idx) mrm) \<and>
     kv_has_shift c' = kv_has_shift c \<and> replaced c idx (written ub i (cell_at c idx)) c'"
proof -
  have len: "i < length (ub_pos ub)" "i < length (ub_n_seq_id ub)" "i < length (ub_seq_id ub)"
    "is_pos_2d ub \<Longrightarrow> i + ub_n_tokens ub * 2 < length (ub_pos ub) \<and> i + ub_n_tokens ub < length (ub_pos ub)"
    using ub i unfolding ub_ok_def by auto
  have pos: "0 \<le> ub_pos ub ! i" "in_i32 (ub_pos ub ! i)" "ub_pos ub ! i \<noteq> -1"
    using tok by (auto simp: token_ok_def in_i32_def INT32_MAX_def)
  have ids: "ub_n_seq_id ub ! i \<le> length (ub_seq_id ub ! i)" "distinct (take (ub_n_seq_id ub ! i) (ub_seq_id ub ! i))"
    "\<forall>q \<in> set (take (ub_n_seq_id ub ! i) (ub_seq_id ub ! i)). 0 \<le> q \<and> nat q < LLAMA_MAX_SEQ"
    using tok seq_stream(2)[OF kc] by (auto simp: token_ok_def ub_ids_def)
  obtain c1 where c1: "evict idx (c, mrm) = Some (c1, bump (cell_at c idx) mrm)" "kv_has_shift c1 = kv_has_shift c"
    "replaced c idx (if kv_pos c ! idx = -1 then cell_at c idx else empty_cell) c1"
    using evict_ok[OF inv idx free] by blast
  note R1 = replacedD[OF c1(3) idx]
  let ?e0 = "if kv_pos c ! idx = -1 then kv_ext c ! idx else ext_zero"
  have f1: "kv_pos c1 ! idx = -1" "kv_ext c1 ! idx = ?e0"
    using R1(3) by (auto simp: cell_at_def empty_cell_def split: if_splits)
  obtain c2 where c2: "pos_set idx (ub_pos ub ! i) c1 = Some c2" "kv_has_shift c2 = kv_has_shift c1"
    "replaced c1 idx (ub_pos ub ! i, ?e0, 0, {}) c2"
    using pos_set_ok[OF R1(1,2) f1(1) pos(1,2)] f1(2) by auto
  note R2 = replacedD[OF c2(3) R1(2)]
  let ?e = "if is_pos_2d ub
      then \<lparr>ext_x = ub_pos ub ! (i + ub_n_tokens ub * 2), ext_y = ub_pos ub ! (i + ub_n_tokens ub)\<rparr> else ?e0"
  have "\<exists>c3. (if is_pos_2d ub then do {
         x \<leftarrow> at (ub_pos ub) (i + ub_n_tokens ub * 2);
         y \<leftarrow> at (ub_pos ub) (i + ub_n_tokens ub);
         ext_set idx \<lparr>ext_x = x, ext_y = y\<rparr> c2
       } else Some c2) = Some c3 \<and> kv_has_shift c3 = kv_has_shift c2 \<and> replaced c2 idx (ub_pos ub ! i, ?e, 0, {}) c3"
  proof (cases "is_pos_2d ub")
    case True
    then show ?thesis using len(4)[OF True] ext_set_ok[OF R2(1,2)] R2(3) by (auto simp: cell_at_def)
  next
    case False
    then show ?thesis using replaced_refl[OF R2(2,1)] R2(3) by simp
  qed
  then obtain c3 where c3: "(if is_pos_2d ub then do {
         x \<leftarrow> at (ub_pos ub) (i + ub_n_tokens ub * 2);
         y \<leftarrow> at (ub_pos ub) (i + ub_n_tokens ub);
         ext_set idx \<lparr>ext_x = x, ext_y = y\<rparr> c2
       } else Some c2) = Some c3" "kv_has_shift c3 = kv_has_shift c2" "replaced c2 idx (ub_pos ub ! i, ?e, 0, {}) c3" by blast
  note R3 = replacedD[OF c3(3) R2(2)]
  obtain c4 where c4: "foldM (\<lambda>k c. do { sid \<leftarrow> at (ub_seq_id ub ! i) k; seq_add idx sid c }) [0..<ub_n_seq_id ub ! i] c3 = Some c4"
    "replaced c3 idx (ub_pos ub ! i, ?e, 0, nat ` set (ub_ids ub i)) c4" "kv_has_shift c4 = kv_has_shift c3"
    using seq_adds_ok[OF R3(1,2,3) pos(3) ids] by (auto simp: ub_ids_def)
  have "apply_token ub i idx (c, mrm) = Some (c4, bump (cell_at c idx) mrm)"
    unfolding apply_token_def c1(1) Option.bind.simps prod.case at_in[OF len(1)] c2(1) c3(1)
      at_in[OF len(2)] at_in[OF len(3)] c4(1) by simp
  moreover have "replaced c idx (written ub i (cell_at c idx)) c4"
    using replaced_trans[OF replaced_trans[OF replaced_trans[OF c1(3) c2(3)] c3(3)] c4(2)]
    by (simp add: written_def split: if_splits)
  ultimately show ?thesis using c1(2) c2(2) c3(2) c4(3) by auto
qed

section \<open>One stream\<close>

fun write_cells :: "llama_ubatch \<Rightarrow> nat \<Rightarrow> nat list \<Rightarrow> cell list \<Rightarrow> cell list" where
  "write_cells ub i [] xs = xs"
| "write_cells ub i (idx # idxs) xs = write_cells ub (i + 1) idxs (xs[idx := written ub i (xs ! idx)])"

lemma length_write_cells [simp]: "length (write_cells ub i idxs xs) = length xs"
  by (induction ub i idxs xs rule: write_cells.induct) auto

lemma write_cells_other: "j \<notin> set idxs \<Longrightarrow> write_cells ub i idxs xs ! j = xs ! j"
  by (induction ub i idxs xs rule: write_cells.induct) auto

lemma write_cells_nth:
  "distinct idxs \<Longrightarrow> k < length idxs \<Longrightarrow> \<forall>j \<in> set idxs. j < length xs \<Longrightarrow>
   write_cells ub i idxs xs ! (idxs ! k) = written ub (i + k) (xs ! (idxs ! k))"
proof (induction ub i idxs xs arbitrary: k rule: write_cells.induct)
  case (2 ub i idx idxs xs)
  then show ?case by (cases k) (auto simp: write_cells_other nth_list_update)
qed simp

lemma write_cells_snoc:
  "write_cells ub i (idxs @ [idx]) xs =
   (write_cells ub i idxs xs)[idx := written ub (i + length idxs) (write_cells ub i idxs xs ! idx)]"
  by (induction ub i idxs xs rule: write_cells.induct) auto

definition evicted :: "cell list \<Rightarrow> nat list \<Rightarrow> (nat \<Rightarrow> llama_pos) \<Rightarrow> nat \<Rightarrow> llama_pos" where
  "evicted xs idxs mrm = fold (\<lambda>idx. bump (xs ! idx)) idxs mrm"

lemma stream_tokens_ok:
  assumes inv: "cells_inv c" and size: "cells_size c = n" and kc: "kc_inv kc n'" and ub: "ub_ok kc ub"
    and idxs: "length idxs = k" "distinct idxs" "\<forall>i \<in> set idxs. i < n \<and> free_for (view c ! i)"
    and tok: "\<forall>ii < k. b + ii < ub_n_tokens ub \<and> token_ok kc ub s (b + ii)"
  shows "\<exists>c'. foldM (\<lambda>ii st. do { idx \<leftarrow> at idxs ii; apply_token ub (b + ii) idx st }) [0..<k] (c, mrm) =
       Some (c', evicted (view c) idxs mrm) \<and> cells_inv c' \<and> view c' = write_cells ub b idxs (view c) \<and>
       kv_has_shift c' = kv_has_shift c"
proof -
  let ?P = "\<lambda>j st. cells_inv (fst st) \<and> kv_has_shift (fst st) = kv_has_shift c \<and> view (fst st) = write_cells ub b (take j idxs) (view c) \<and>
      snd st = evicted (view c) (take j idxs) mrm"
  have start: "?P 0 (c, mrm)" using inv by (simp add: evicted_def)
  have step: "\<exists>st'. do { idx \<leftarrow> at idxs j; apply_token ub (b + j) idx st } = Some st' \<and> ?P (Suc j) st'"
    if j: "j < k" and P: "?P j st" for j st
  proof -
    obtain d m where st: "st = (d, m)" by force
    have tk: "take (Suc j) idxs = take j idxs @ [idxs ! j]" using j idxs(1) by (simp add: take_Suc_conv_app_nth)
    have dsize: "cells_size d = n" using P st size by (metis fst_conv length_view length_write_cells)
    have idx: "idxs ! j < n" "free_for (view c ! (idxs ! j))" using idxs j by (auto simp: nth_mem)
    have "distinct (take (Suc j) idxs)" using idxs(2) by simp
    then have "idxs ! j \<notin> set (take j idxs)" using tk by simp
    then have same: "cell_at d (idxs ! j) = view c ! (idxs ! j)"
      using P st idx(1) dsize by (metis fst_conv view_nth write_cells_other)
    obtain d' where d': "apply_token ub (b + j) (idxs ! j) (d, m) = Some (d', bump (cell_at d (idxs ! j)) m)"
      "replaced d (idxs ! j) (written ub (b + j) (cell_at d (idxs ! j))) d'" "kv_has_shift d' = kv_has_shift d"
      using apply_token_ok[of d "idxs ! j" "b + j" ub kc s n' m] P st idx dsize same tok j ub kc by auto
    have "view d' = write_cells ub b (take (Suc j) idxs) (view c)"
      using d'(2) P st j idxs(1) idx(1) dsize unfolding tk write_cells_snoc
      by (simp add: replaced_def) (metis view_nth)
    moreover have "bump (cell_at d (idxs ! j)) m = evicted (view c) (take (Suc j) idxs) mrm"
      using P st same unfolding tk by (simp add: evicted_def)
    moreover have "kv_has_shift d' = kv_has_shift c" using P st d'(3) by simp
    ultimately show ?thesis using d'(1,2) st j idxs(1) by (auto simp: replaced_def)
  qed
  have "\<exists>st. foldM (\<lambda>ii st. do { idx \<leftarrow> at idxs ii; apply_token ub (b + ii) idx st }) [0..<k] (c, mrm) = Some st \<and> ?P k st"
    by (rule foldM_upt[where P = ?P, OF start]) (rule step)
  then show ?thesis using idxs(1) by auto
qed

section \<open>All streams\<close>

definition kc_flags :: "kv_cache \<Rightarrow> bool list" where
  "kc_flags kc = map kv_has_shift (kc_cells kc)"

text \<open>The cells after the tokens of the first \<open>k\<close> streams have been written, and what was overwritten.\<close>

fun write_streams :: "kv_cache \<Rightarrow> llama_ubatch \<Rightarrow> slot_info \<Rightarrow> nat \<Rightarrow> cell list list" where
  "write_streams kc ub si 0 = kv_view kc"
| "write_streams kc ub si (Suc s) =
     (let v = write_streams kc ub si s; strm = ub_strm kc ub s in
      v[strm := write_cells ub (s * ub_nt kc ub) (si_idxs si ! s) (v ! strm)])"

fun overwritten :: "kv_cache \<Rightarrow> llama_ubatch \<Rightarrow> slot_info \<Rightarrow> nat \<Rightarrow> nat \<Rightarrow> llama_pos" where
  "overwritten kc ub si 0 = (\<lambda>_. -1)"
| "overwritten kc ub si (Suc s) =
     evicted (kv_view kc ! ub_strm kc ub s) (si_idxs si ! s) (overwritten kc ub si s)"

lemma length_write_streams [simp]: "length (write_streams kc ub si k) = length (kv_view kc)"
  by (induction k) (auto simp: Let_def)

lemma write_streams_other:
  "(\<forall>s < k. ub_strm kc ub s \<noteq> t) \<Longrightarrow> write_streams kc ub si k ! t = kv_view kc ! t"
  by (induction k) (auto simp: Let_def)

lemma write_streams_nth:
  assumes "distinct (map (ub_strm kc ub) [0..<ns])" "k \<le> ns" "s < k" "\<forall>s < ns. ub_strm kc ub s < length (kv_view kc)"
  shows "write_streams kc ub si k ! ub_strm kc ub s =
    write_cells ub (s * ub_nt kc ub) (si_idxs si ! s) (kv_view kc ! ub_strm kc ub s)"
  using assms(2,3)
proof (induction k)
  case (Suc k)
  have inj: "ub_strm kc ub a = ub_strm kc ub b \<Longrightarrow> a < ns \<Longrightarrow> b < ns \<Longrightarrow> a = b" for a b
    using assms(1) by (auto simp: distinct_map inj_on_def)
  show ?case
  proof (cases "s = k")
    case True
    have "write_streams kc ub si k ! ub_strm kc ub k = kv_view kc ! ub_strm kc ub k"
      by (rule write_streams_other) (use inj Suc.prems in force)
    with True Suc.prems assms(4) show ?thesis by (auto simp: Let_def)
  next
    case False
    with Suc.prems have "s < k" "ub_strm kc ub k \<noteq> ub_strm kc ub s" using inj[of k s] by auto
    with Suc show ?thesis by (auto simp: Let_def)
  qed
qed simp

lemma written_in_stream:
  "token_ok kc ub s i \<Longrightarrow> cell_in_stream (kc_seq_to_stream kc) (ub_strm kc ub s) (written ub i x)"
  by (auto simp: token_ok_def cell_in_stream_def written_def ub_ids_def)

lemma usable_free: "usable kc xs i \<Longrightarrow> free_for (xs ! i)"
  by (auto simp: usable_def free_for_def)

lemma apply_streams_ok:
  assumes inv: "kc_inv kc n" and ub: "ub_ok kc ub" and slot: "slot_for kc n ub si"
  shows "\<exists>kc'. foldM (apply_stream ub si (ub_nt kc ub)) [0..<ub_ns kc ub] (kc, \<lambda>_. -1) =
       Some (kc', overwritten kc ub si (ub_ns kc ub)) \<and> kc_inv kc' n \<and> same_config kc kc' \<and>
       kc_heads kc' = kc_heads kc \<and> kv_view kc' = write_streams kc ub si (ub_ns kc ub) \<and>
       kc_flags kc' = kc_flags kc"
proof -
  note U = ub_ok_D[OF ub] and D = kc_inv_D[OF inv]
  let ?nt = "ub_nt kc ub" and ?m = "kc_seq_to_stream kc"
  let ?P = "\<lambda>k st. kc_inv (fst st) n \<and> same_config kc (fst st) \<and> kc_heads (fst st) = kc_heads kc \<and>
      kv_view (fst st) = write_streams kc ub si k \<and> kc_flags (fst st) = kc_flags kc \<and> snd st = overwritten kc ub si k"
  have start: "?P 0 (kc, \<lambda>_. -1)" using inv by simp
  have step: "\<exists>st'. apply_stream ub si ?nt s st = Some st' \<and> ?P (Suc s) st'" if s: "s < ub_ns kc ub" and P: "?P s st" for s st
  proof -
    obtain d m where st: "st = (d, m)" by force
    let ?t = "ub_strm kc ub s" and ?idxs = "si_idxs si ! s"
    have inv_d: "kc_inv d n" and cfg: "same_config kc d" and hd: "kc_heads d = kc_heads kc"
      and v: "kv_view d = write_streams kc ub si s" and m: "m = overwritten kc ub si s" using P st by auto
    note C = same_config_D[OF cfg] and E = kc_inv_D[OF inv_d]
    have t: "?t < kc_n_stream kc" by (rule ub_strm_less[OF inv ub s])
    have S: "s < length (si_strm si)" "si_strm si ! s = ?t" "s < length (si_idxs si)" "length ?idxs = ?nt"
      "distinct ?idxs" "\<forall>i \<in> set ?idxs. i < n \<and> usable kc (kv_view kc ! ?t) i"
      using slot s by (auto simp: slot_for_def)
    have inj: "\<forall>r < s. ub_strm kc ub r \<noteq> ?t"
      using ub s by (auto simp: ub_ok_def distinct_conv_nth)
    let ?c = "kc_cells d ! ?t"
    have c: "cells_inv ?c" "cells_size ?c = n" using E(6,7)[of ?t] t C(1) by simp_all
    have vc: "view ?c = kv_view kc ! ?t"
      using write_streams_other[OF inj, of si] v t C(1) E(3) kv_view_nth[of ?t d] by simp
    obtain c' where c': "foldM (\<lambda>ii st. do { idx \<leftarrow> at ?idxs ii; apply_token ub (s * ?nt + ii) idx st }) [0..<?nt] (?c, m) =
         Some (c', evicted (view ?c) ?idxs m)" "cells_inv c'" "view c' = write_cells ub (s * ?nt) ?idxs (view ?c)" "kv_has_shift c' = kv_has_shift ?c"
    proof -
      have "\<forall>i \<in> set ?idxs. i < n \<and> free_for (view ?c ! i)" using S(6) usable_free vc by auto
      then show ?thesis using stream_tokens_ok[OF c inv ub S(4,5), of "s * ?nt" s m] U(7,8)[OF s] that by blast
    qed
    have n': "cells_size c' = n" using arg_cong[OF c'(3), of length] c(2) by simp
    have in_c: "\<forall>x \<in> set (view ?c). cell_in_stream ?m ?t x"
      using E(5)[of ?t] t C(1,2) by (simp add: stream_ok_def)
    have "cell_in_stream ?m ?t x" if x: "x \<in> set (view c')" for x
    proof -
      obtain j where j: "j < n" "x = view c' ! j" using x n' by (metis in_set_conv_nth length_view)
      show ?thesis
      proof (cases "j \<in> set ?idxs")
        case True
        then obtain k where k: "k < ?nt" "?idxs ! k = j" using S(4) by (metis in_set_conv_nth)
        then have "x = written ub (s * ?nt + k) (view ?c ! j)"
          using write_cells_nth[OF S(5), of k "view ?c" ub "s * ?nt"] S(4,6) c(2) c'(3) j(2) by auto
        then show ?thesis using written_in_stream[OF U(8)[OF s k(1)]] by simp
      next
        case False
        then have "x = view ?c ! j" using j(2) c'(3) by (simp add: write_cells_other)
        then show ?thesis using in_c j(1) c(2) by (metis length_view nth_mem)
      qed
    qed
    then have ok: "stream_ok (kc_seq_to_stream d) n ?t (kc_heads d ! ?t) c'"
      using c'(2) n' hd D(8)[OF t] C(2) by (simp add: stream_ok_def)
    let ?d = "d\<lparr>kc_cells := (kc_cells d)[?t := c']\<rparr>"
    have put: "?d = put_stream ?t c' (kc_heads d ! ?t) d" by (simp add: put_stream_def)
    have d1: "kc_inv ?d n" "kv_view ?d = (kv_view d)[?t := view c']" "same_config d ?d"
      unfolding put using put_stream_inv[OF inv_d _ ok] t C(1) put_stream_shape by auto
    have "apply_stream ub si ?nt s st = Some (?d, evicted (view ?c) ?idxs m)"
      using S(1-3) c'(1) t C(1) E(3) by (simp add: apply_stream_def st cells_of_def)
    moreover have "kv_view ?d = write_streams kc ub si (Suc s)"
      using d1(2) v c'(3) vc write_streams_other[OF inj, of si] by (simp add: Let_def)
    moreover have "evicted (view ?c) ?idxs m = overwritten kc ub si (Suc s)" using vc m by simp
    moreover have "kc_flags ?d = kc_flags kc"
      using P st c'(4) t C(1) E(3) by (simp add: kc_flags_def map_update) (metis list_update_id map_update)
    ultimately show ?thesis using d1(1,3) same_config_trans[OF cfg d1(3)] hd by auto
  qed
  have "\<exists>st. foldM (apply_stream ub si ?nt) [0..<ub_ns kc ub] (kc, \<lambda>_. -1) = Some st \<and> ?P (ub_ns kc ub) st"
    by (rule foldM_upt[where P = ?P, OF start]) (rule step)
  then show ?thesis by auto
qed

section \<open>The purge\<close>

text \<open>A cell loses the sequences \<open>q < k\<close> of which it holds a position up to \<open>mrm q\<close>.\<close>

definition purged :: "nat \<Rightarrow> (nat \<Rightarrow> llama_pos) \<Rightarrow> cell \<Rightarrow> cell" where
  "purged k mrm x = (case x of (p, e, sh, S) \<Rightarrow>
     let keep = {q \<in> S. \<not> (q < k \<and> p \<le> mrm q)} in
     if S \<noteq> {} \<and> keep = {} then empty_cell else (p, e, sh, keep))"

definition purge_cell :: "nat \<Rightarrow> llama_pos \<Rightarrow> cell \<Rightarrow> cell" where
  "purge_cell q p x = (if has_seq q x \<and> fst x \<le> p then drop_seq q x else x)"

definition view_ok :: "kv_cache \<Rightarrow> cell list list \<Rightarrow> bool" where
  "view_ok kc v \<longleftrightarrow> (\<forall>t < length v. \<forall>x \<in> set (v ! t). -1 \<le> fst x \<and> (fst x = -1 \<longrightarrow> snd (snd (snd x)) = {}) \<and>
     cell_in_stream (kc_seq_to_stream kc) t x)"

lemma kc_view_ok: "kc_inv kc n \<Longrightarrow> view_ok kc (kv_view kc)"
proof -
  assume inv: "kc_inv kc n"
  note D = kc_inv_D[OF inv]
  have "-1 \<le> fst x \<and> (fst x = -1 \<longrightarrow> snd (snd (snd x)) = {})" if "t < kc_n_stream kc" "x \<in> set (view (kc_cells kc ! t))" for t x
    using that cells_inv_D(7)[OF D(6)[OF that(1)]] by (auto simp: view_def cell_ok_def cell_at_def)
  then show ?thesis
    using D(3,5) by (auto simp: view_ok_def kv_view_def stream_ok_def)
qed

lemma purged_0: "purged 0 mrm = (\<lambda>x. x)"
  by (auto simp: purged_def Let_def fun_eq_iff)

lemma purged_Suc:
  assumes "-1 \<le> fst x" "fst x = -1 \<longrightarrow> snd (snd (snd x)) = {}"
  shows "purged (Suc k) mrm x = purge_cell k (mrm k) (purged k mrm x)"
proof -
  obtain p e sh S where x: "x = (p, e, sh, S)" by (cases x)
  let ?K = "{q \<in> S. \<not> (q < k \<and> p \<le> mrm q)}" and ?K' = "{q \<in> S. \<not> (q < Suc k \<and> p \<le> mrm q)}"
  have K': "?K' = (if p \<le> mrm k then ?K - {k} else ?K)" by (auto simp: less_Suc_eq)
  show ?thesis
  proof (cases "S \<noteq> {} \<and> ?K = {}")
    case True
    then have "?K' = {}" using K' by auto
    with True show ?thesis by (simp add: x purged_def purge_cell_def has_seq_def empty_cell_def)
  next
    case False
    then have pk: "purged k mrm x = (p, e, sh, ?K)" by (auto simp: x purged_def Let_def)
    have pk': "purged (Suc k) mrm x = (if S \<noteq> {} \<and> ?K' = {} then empty_cell else (p, e, sh, ?K'))"
      unfolding x purged_def Let_def prod.case by (rule refl)
    have hs: "has_seq k (purged k mrm x) \<longleftrightarrow> k \<in> S" unfolding pk by (auto simp: has_seq_def)
    show ?thesis
    proof (cases "k \<in> S \<and> p \<le> mrm k")
      case True
      then have kK: "k \<in> ?K" by auto
      have "(?K - {k} = {}) = (?K = {k})" using kK by blast
      with True kK hs show ?thesis unfolding pk' K' pk by (auto simp: purge_cell_def drop_seq_def)
    next
      case no: False
      then have "?K' = ?K" using K' by auto
      with no hs False show ?thesis unfolding pk' pk by (auto simp: purge_cell_def)
    qed
  qed
qed

lemma purged_fst: "fst (purged k mrm x) = fst x \<or> fst (purged k mrm x) = -1 \<and> snd (snd (snd (purged k mrm x))) = {}"
  by (cases x) (auto simp: purged_def Let_def empty_cell_def)

lemma purge_ok:
  assumes inv: "kc_inv kc n" and k: "mrm k \<noteq> -1 \<longrightarrow> k < length (kc_seq_to_stream kc)"
    and range: "-1 \<le> mrm k" "mrm k < INT32_MAX"
  shows "evolves kc n (map (map (purge_cell k (mrm k))) (kv_view kc)) (purge mrm k kc)"
proof -
  let ?g = "purge_cell k (mrm k)"
  note D = kc_inv_D[OF inv] and V = kc_view_ok[OF inv, unfolded view_ok_def]
  have len: "length (kv_view kc) = kc_n_stream kc" using D(3) by (simp add: kv_view_def)
  have pos: "0 \<le> fst x" if "t < length (kv_view kc)" "x \<in> set (kv_view kc ! t)" "has_seq k x" for t x
  proof -
    have "-1 \<le> fst x" "fst x \<noteq> -1" using V that unfolding has_seq_def by auto
    then show ?thesis by simp
  qed
  have no_change: "map (map ?g) (kv_view kc) = kv_view kc"
    if "\<And>t x. t < length (kv_view kc) \<Longrightarrow> x \<in> set (kv_view kc ! t) \<Longrightarrow> \<not> (has_seq k x \<and> fst x \<le> mrm k)"
  proof (rule map_idI)
    fix xs assume "xs \<in> set (kv_view kc)"
    then obtain t where "t < length (kv_view kc)" "kv_view kc ! t = xs" by (auto simp: in_set_conv_nth)
    with that show "map ?g xs = xs" by (intro map_idI) (auto simp: purge_cell_def)
  qed
  show ?thesis
  proof (cases "mrm k = -1")
    case True
    have none: "\<not> (has_seq k x \<and> fst x \<le> mrm k)" if "t < length (kv_view kc)" "x \<in> set (kv_view kc ! t)" for t x
      using pos[OF that] True by force
    have "map (map ?g) (kv_view kc) = kv_view kc" by (rule no_change[OF none])
    with True evolves_same[OF inv] show ?thesis by (simp add: purge_def)
  next
    case False
    then have k: "k < length (kc_seq_to_stream kc)" using k by simp
    note s = seq_stream[OF inv k]
    let ?t = "kc_seq_to_stream kc ! k"
    define ps where "ps = seq_positions k (kv_view kc ! ?t)"
    have fin: "finite ps" by (simp add: ps_def seq_positions_def)
    define mn where "mn = (if ps = {} then -1 else Min ps)"
    have mn_eq: "kv_seq_pos_min kc (int k) = Some mn"
      using kv_seq_pos_min_max_ok(1)[OF inv k] by (simp add: ps_def mn_def)
    have cells: "cells_of kc ?t = Some (kc_cells kc ! ?t)" "seq_pos_min (kc_cells kc ! ?t) (int k) = Some mn"
      using mn_eq k s(1) D(3) by (simp_all add: kv_seq_pos_min_def stream_of_int cells_of_def)
    have mn_le: "mn \<le> fst x" if "x \<in> set (kv_view kc ! ?t)" "has_seq k x" for x
    proof -
      have "fst x \<in> ps" using that by (auto simp: ps_def seq_positions_def)
      then show ?thesis using fin by (auto simp: mn_def)
    qed
    have other: "\<not> has_seq k x" if "t < length (kv_view kc)" "t \<noteq> ?t" "x \<in> set (kv_view kc ! t)" for t x
    proof -
      have "cell_in_stream (kc_seq_to_stream kc) t x" using V that(1,3) by simp
      with that(2) show ?thesis by (auto simp: has_seq_def cell_in_stream_def)
    qed
    have on: "on_stream ?t ?g (kv_view kc) = map (map ?g) (kv_view kc)"
    proof (rule nth_equalityI)
      fix t assume t: "t < length (on_stream ?t ?g (kv_view kc))"
      show "on_stream ?t ?g (kv_view kc) ! t = map (map ?g) (kv_view kc) ! t"
      proof (cases "t = ?t")
        case True
        with t show ?thesis by (simp add: on_stream_def)
      next
        case False
        have "map ?g (kv_view kc ! t) = kv_view kc ! t"
          using other[OF _ False] t by (intro map_idI) (auto simp: on_stream_def purge_cell_def)
        with False t show ?thesis by (simp add: on_stream_def)
      qed
    qed (simp add: on_stream_def)
    have mrm: "0 \<le> mrm k" "in_i32 (mrm k + 1)" using False range by (auto simp: in_i32_def INT32_MAX_def)
    show ?thesis
    proof (cases "mn \<le> mrm k")
      case True
      have "purge mrm k kc = kv_seq_rm (int k) mn (mrm k + 1) kc"
        using False True k cells mrm by (simp add: purge_def stream_of_int i32_in)
      moreover have "on_stream ?t (\<lambda>x. if in_range (lower mn) (upper (mrm k + 1)) x \<and> has_seq k x then drop_seq k x else x) (kv_view kc) =
          on_stream ?t ?g (kv_view kc)"
      proof -
        have "(in_range (lower mn) (upper (mrm k + 1)) x \<and> has_seq k x) = (has_seq k x \<and> fst x \<le> mrm k)"
          if "x \<in> set (kv_view kc ! ?t)" for x
          using that mn_le[OF that] pos[of ?t x] s(1) len mrm(1) by (auto simp: in_range_def lower_def upper_def)
        then show ?thesis by (simp add: on_stream_def purge_cell_def cong: map_cong)
      qed
      ultimately show ?thesis using kv_seq_rm_ok[OF inv k, of mn "mrm k + 1"] on by simp
    next
      case none: False
      then have gone: "\<not> (has_seq k x \<and> fst x \<le> mrm k)" if "t < length (kv_view kc)" "x \<in> set (kv_view kc ! t)" for t x
        using that mn_le[of x] other[of t x] by (cases "t = ?t") auto
      have "map (map ?g) (kv_view kc) = kv_view kc" by (rule no_change[OF gone])
      moreover have "purge mrm k kc = Some kc"
        using False none k cells by (simp add: purge_def stream_of_int)
      ultimately show ?thesis using evolves_same[OF inv] by simp
    qed
  qed
qed

lemma purge_all_ok:
  assumes inv: "kc_inv kc n" and k: "\<And>q. mrm q \<noteq> -1 \<Longrightarrow> q < length (kc_seq_to_stream kc)"
    and range: "\<And>q. -1 \<le> mrm q" "\<And>q. mrm q < INT32_MAX"
  shows "evolves kc n (map (map (purged LLAMA_MAX_SEQ mrm)) (kv_view kc)) (foldM (purge mrm) [0..<LLAMA_MAX_SEQ] kc)"
proof -
  let ?P = "\<lambda>j d. kc_inv d n \<and> same_config kc d \<and> kv_view d = map (map (purged j mrm)) (kv_view kc)"
  note V = kc_view_ok[OF inv, unfolded view_ok_def]
  have start: "?P 0 kc" using inv by (simp add: purged_0)
  have step: "\<exists>d'. purge mrm j d = Some d' \<and> ?P (Suc j) d'" if P: "?P j d" for j d
  proof -
    note C = same_config_D[OF conjunct1[OF conjunct2[OF P]]]
    have "evolves d n (map (map (purge_cell j (mrm j))) (kv_view d)) (purge mrm j d)"
      using k[of j] range[of j] C(2) by (intro purge_ok[OF conjunct1[OF P]]) auto
    then obtain d' where d': "purge mrm j d = Some d'" "kc_inv d' n" "same_config d d'"
      "kv_view d' = map (map (purge_cell j (mrm j))) (kv_view d)"
      by (auto simp: evolves_def)
    have "kv_view d' = map (map (purged (Suc j) mrm)) (kv_view kc)"
    proof -
      have "map (purge_cell j (mrm j)) (map (purged j mrm) xs) =
          map (purged (Suc j) mrm) xs" if "xs \<in> set (kv_view kc)" for xs
      proof -
        obtain t where t: "t < length (kv_view kc)" "xs = kv_view kc ! t" using \<open>xs \<in> _\<close> by (auto simp: in_set_conv_nth)
        have "-1 \<le> fst x" "fst x = -1 \<longrightarrow> snd (snd (snd x)) = {}" if "x \<in> set xs" for x using V t that by auto
        then show ?thesis unfolding map_map o_def by (intro map_cong refl purged_Suc[symmetric])
      qed
      then show ?thesis using P d'(4) by simp
    qed
    with d' P same_config_trans show ?thesis by blast
  qed
  have "\<exists>d. foldM (purge mrm) [0..<LLAMA_MAX_SEQ] kc = Some d \<and> ?P LLAMA_MAX_SEQ d"
    by (rule foldM_upt[where P = ?P, OF start]) (rule step)
  then show ?thesis by (auto simp: evolves_def)
qed

section \<open>The whole micro-batch\<close>

lemma overwritten_bounds:
  assumes inv: "kc_inv kc n" and ub: "ub_ok kc ub" and slot: "slot_for kc n ub si"
    and room: "\<forall>xs \<in> set (kv_view kc). room xs"
  shows "k \<le> ub_ns kc ub \<Longrightarrow> -1 \<le> overwritten kc ub si k q \<and> overwritten kc ub si k q < INT32_MAX \<and>
     (overwritten kc ub si k q \<noteq> -1 \<longrightarrow> q < length (kc_seq_to_stream kc))"
proof (induction k arbitrary: q)
  case 0
  then show ?case by (simp add: INT32_MAX_def)
next
  case (Suc s)
  let ?t = "ub_strm kc ub s"
  have s: "s < ub_ns kc ub" using Suc.prems by simp
  have t: "?t < kc_n_stream kc" by (rule ub_strm_less[OF inv ub s])
  have len: "length (kv_view kc) = kc_n_stream kc" using kc_inv_D(3)[OF inv] by (simp add: kv_view_def)
  have idxs: "\<forall>i \<in> set (si_idxs si ! s). i < n" using slot s by (auto simp: slot_for_def)
  have xs: "length (kv_view kc ! t) = n" if "t < kc_n_stream kc" for t
    using kc_inv_D(3,7)[OF inv] that by (simp add: kv_view_nth)
  have one: "fst x < INT32_MAX \<and> (has_seq q x \<longrightarrow> q < length (kc_seq_to_stream kc))"
    if "x \<in> set (kv_view kc ! ?t)" for x q
    using that room t len kc_view_ok[OF inv]
    by (auto simp: room_def view_ok_def cell_in_stream_def has_seq_def)
  define P where "P = (\<lambda>m::nat \<Rightarrow> llama_pos. \<forall>q. -1 \<le> m q \<and> m q < INT32_MAX \<and> (m q \<noteq> -1 \<longrightarrow> q < length (kc_seq_to_stream kc)))"
  have "P (evicted (kv_view kc ! ?t) js m)" if "\<forall>j \<in> set js. j < n" "P m" for js m
    using that
  proof (induction js arbitrary: m)
    case (Cons j js)
    have "kv_view kc ! ?t ! j \<in> set (kv_view kc ! ?t)" using Cons.prems(1) xs[OF t] by simp
    then have "P (bump (kv_view kc ! ?t ! j) m)" using one Cons.prems(2) by (auto simp: P_def bump_def le_max_iff_disj)
    then show ?case using Cons by (simp add: evicted_def)
  qed (simp add: evicted_def)
  moreover have "P (overwritten kc ub si s)" using Suc by (simp add: P_def)
  ultimately have "P (overwritten kc ub si (Suc s))" using idxs by simp
  then show ?case by (simp add: P_def)
qed

lemma move_heads_ok:
  assumes inv: "kc_inv kc n" and strm: "length (si_idxs si) = length (si_strm si)" "distinct (si_strm si)"
    and idxs: "\<forall>s < length (si_strm si). si_strm si ! s < kc_n_stream kc \<and> si_idxs si ! s \<noteq> [] \<and> last (si_idxs si ! s) < n"
  shows "\<exists>kc'. foldM (move_head si) [0..<length (si_strm si)] kc = Some kc' \<and> kc_inv kc' n \<and> same_config kc kc' \<and>
     kv_view kc' = kv_view kc \<and> (\<forall>s < length (si_strm si). kc_heads kc' ! (si_strm si ! s) = last (si_idxs si ! s) + 1)"
proof -
  let ?k = "length (si_strm si)"
  let ?P = "\<lambda>j d. kc_inv d n \<and> same_config kc d \<and> kv_view d = kv_view kc \<and>
     (\<forall>s < j. kc_heads d ! (si_strm si ! s) = last (si_idxs si ! s) + 1)"
  have start: "?P 0 kc" using inv by simp
  have step: "\<exists>d'. move_head si j d = Some d' \<and> ?P (Suc j) d'" if j: "j < ?k" and P: "?P j d" for j d
  proof -
    let ?t = "si_strm si ! j" and ?h = "last (si_idxs si ! j) + 1"
    note C = same_config_D[OF conjunct1[OF conjunct2[OF P]]] and D = kc_inv_D[OF conjunct1[OF P]]
    have t: "?t < kc_n_stream d" "?h \<le> n" "si_idxs si ! j \<noteq> []" using idxs j C(1) by auto
    let ?d = "d\<lparr>kc_heads := (kc_heads d)[?t := ?h]\<rparr>"
    have put: "?d = put_stream ?t (kc_cells d ! ?t) ?h d" by (simp add: put_stream_def)
    have ok: "stream_ok (kc_seq_to_stream d) n ?t ?h (kc_cells d ! ?t)"
      using D(5)[OF t(1)] t(2) by (simp add: stream_ok_def)
    have "kc_inv ?d n \<and> kv_view ?d = kv_view d"
      using put_stream_inv[OF conjunct1[OF P] t(1) ok] t(1) D(3) unfolding put by (simp add: kv_view_nth[symmetric])
    moreover have "same_config kc ?d"
      using same_config_trans[OF _ put_stream_shape[of d ?t]] P unfolding put by blast
    moreover have "\<forall>s < Suc j. kc_heads ?d ! (si_strm si ! s) = last (si_idxs si ! s) + 1"
      using P j t(1) D(4) strm(2) by (auto simp: less_Suc_eq nth_list_update nth_eq_iff_index_eq)
    moreover have "move_head si j d = Some ?d"
      using j t D(4) strm(1) by (simp add: move_head_def)
    ultimately show ?thesis using P by auto
  qed
  have "\<exists>d. foldM (move_head si) [0..<?k] kc = Some d \<and> ?P ?k d"
    by (rule foldM_upt[where P = ?P, OF start]) (rule step)
  then show ?thesis by blast
qed

lemma apply_ubatch_ok:
  assumes inv: "kc_inv kc n" and ub: "ub_ok kc ub" and slot: "slot_for kc n ub si"
    and room: "\<forall>xs \<in> set (kv_view kc). room xs"
  shows "\<exists>kc'. apply_ubatch si ub kc = Some kc' \<and> kc_inv kc' n \<and> same_config kc kc' \<and>
     kv_view kc' = map (map (purged LLAMA_MAX_SEQ (overwritten kc ub si (ub_ns kc ub))))
       (write_streams kc ub si (ub_ns kc ub)) \<and>
     (\<forall>s < ub_ns kc ub. kc_heads kc' ! ub_strm kc ub s = last (si_idxs si ! s) + 1)"
proof -
  note U = ub_ok_D[OF ub]
  let ?ns = "ub_ns kc ub" and ?nt = "ub_nt kc ub"
  let ?mrm = "overwritten kc ub si ?ns"
  have S: "length (si_idxs si) = ?ns" "si_strm si = map (ub_strm kc ub) [0..<?ns]" "length (si_strm si) = ?ns"
    using slot by (auto simp: slot_for_def)
  have "length (si_idxs si ! 0) = ?nt" using slot U(2) by (simp add: slot_for_def)
  then have size: "slot_size si = Some ?nt" using S U(2) by (auto simp: slot_size_def)
  obtain k1 where k1: "foldM (apply_stream ub si ?nt) [0..<?ns] (kc, \<lambda>_. -1) = Some (k1, ?mrm)"
    "kc_inv k1 n" "same_config kc k1" "kv_view k1 = write_streams kc ub si ?ns"
    using apply_streams_ok[OF inv ub slot] by blast
  note C1 = same_config_D[OF k1(3)]
  note B = overwritten_bounds[OF inv ub slot room order.refl]
  obtain k2 where k2: "foldM (purge ?mrm) [0..<LLAMA_MAX_SEQ] k1 = Some k2" "kc_inv k2 n" "same_config k1 k2"
    "kv_view k2 = map (map (purged LLAMA_MAX_SEQ ?mrm)) (kv_view k1)"
    using purge_all_ok[OF k1(2), of ?mrm] B C1(2) unfolding evolves_def by auto
  have cfg: "same_config kc k2" by (rule same_config_trans[OF k1(3) k2(3)])
  have heads: "\<forall>s < length (si_strm si). si_strm si ! s < kc_n_stream k2 \<and> si_idxs si ! s \<noteq> [] \<and> last (si_idxs si ! s) < n"
  proof (intro allI impI)
    fix s assume "s < length (si_strm si)"
    then have s: "s < ?ns" using S(3) by simp
    have ne: "si_idxs si ! s \<noteq> []" using slot s U(3) by (auto simp: slot_for_def)
    then have "last (si_idxs si ! s) < n" using slot s by (auto simp: slot_for_def)
    then show "si_strm si ! s < kc_n_stream k2 \<and> si_idxs si ! s \<noteq> [] \<and> last (si_idxs si ! s) < n"
      using ub_strm_less[OF inv ub s] S(2) s ne same_config_D(1)[OF cfg] by simp
  qed
  have dist: "distinct (si_strm si)" using ub S(2) by (simp add: ub_ok_def)
  obtain k3 where k3: "foldM (move_head si) [0..<?ns] k2 = Some k3" "kc_inv k3 n" "same_config k2 k3"
    "kv_view k3 = kv_view k2" "\<forall>s < ?ns. kc_heads k3 ! (si_strm si ! s) = last (si_idxs si ! s) + 1"
    using move_heads_ok[OF k2(2) _ dist heads] S by auto
  have "apply_ubatch si ub kc = Some k3"
    using size S(3) U(4) k1(1) k2(1) k3(1) by (simp add: apply_ubatch_def)
  then show ?thesis
    using k3 k2(4) k1(4) same_config_trans[OF cfg k3(3)] S(2) by auto
qed

end
