(* ===== verification/KvPrepare.thy ===== *)
theory KvPrepare
  imports KvApply
begin

text \<open>
  \<open>prepare\<close> looks for the slots of a sequence of micro-batches by placing them one after the other
  and then undoes this. For a cache without sliding window the cells are put back exactly, and with
  one stream the heads too, so that the slots found can be applied to the cache afterwards.
\<close>

section \<open>What placing keeps\<close>

lemma room_written: "token_ok kc ub s i \<Longrightarrow> fst (written ub i x) < INT32_MAX"
  by (simp add: token_ok_def written_def)

lemma purged_minus_one:
  assumes "-1 \<le> fst x" "fst x = -1 \<longrightarrow> snd (snd (snd x)) = {}"
  shows "purged k (\<lambda>_. -1) x = x"
proof -
  obtain p e sh S where x: "x = (p, e, sh, S)" by (cases x)
  have "{q \<in> S. \<not> (q < k \<and> p \<le> -1)} = S" using assms by (cases "S = {}") (auto simp: x)
  then show ?thesis unfolding x purged_def prod.case Let_def by (simp only:) auto
qed

lemma ub_config:
  assumes "same_config kc kc'"
  shows "ub_ok kc' ub = ub_ok kc ub" "ub_ns kc' ub = ub_ns kc ub" "ub_nt kc' ub = ub_nt kc ub"
    "ub_strm kc' ub = ub_strm kc ub" "window_ok kc' = window_ok kc"
proof -
  note C = same_config_D[OF assms]
  show ns: "ub_ns kc' ub = ub_ns kc ub" using C by (simp add: ub_ns_def)
  show nt: "ub_nt kc' ub = ub_nt kc ub" using ns by (simp add: ub_nt_def)
  show st: "ub_strm kc' ub = ub_strm kc ub" using C by (simp add: ub_strm_def fun_eq_iff)
  show "window_ok kc' = window_ok kc" using C by (simp add: window_ok_def)
  have "token_ok kc' ub s i = token_ok kc ub s i" for s i using C st by (simp add: token_ok_def)
  then show "ub_ok kc' ub = ub_ok kc ub" using C ns nt st by (simp add: ub_ok_def)
qed

lemma write_cells_set:
  assumes "distinct idxs" "\<forall>j \<in> set idxs. j < length xs" "x \<in> set (write_cells ub i idxs xs)"
  shows "x \<in> set xs \<or> (\<exists>k < length idxs. x = written ub (i + k) (xs ! (idxs ! k)))"
proof -
  obtain j where j: "j < length xs" "x = write_cells ub i idxs xs ! j"
    using assms(3) by (metis in_set_conv_nth length_write_cells)
  show ?thesis
  proof (cases "j \<in> set idxs")
    case True
    then obtain k where "k < length idxs" "idxs ! k = j" by (metis in_set_conv_nth)
    with write_cells_nth[OF assms(1) _ assms(2)] j show ?thesis by auto
  next
    case False
    with j show ?thesis by (simp add: write_cells_other)
  qed
qed

lemma room_write_streams:
  assumes inv: "kc_inv kc n" and ub: "ub_ok kc ub" and slot: "slot_for kc n ub si"
    and room: "\<forall>xs \<in> set (kv_view kc). room xs"
  shows "k \<le> ub_ns kc ub \<Longrightarrow> \<forall>xs \<in> set (write_streams kc ub si k). room xs"
proof (induction k)
  case (Suc s)
  let ?t = "ub_strm kc ub s"
  have s: "s < ub_ns kc ub" using Suc.prems by simp
  have t: "?t < length (kv_view kc)" using ub_strm_less[OF inv ub s] kc_inv_D(3)[OF inv] by (simp add: kv_view_def)
  have "\<forall>r < s. ub_strm kc ub r \<noteq> ?t" using ub s by (auto simp: ub_ok_def distinct_conv_nth)
  then have v: "write_streams kc ub si s ! ?t = kv_view kc ! ?t" by (rule write_streams_other)
  have len: "length (kv_view kc ! ?t) = n"
    using ub_strm_less[OF inv ub s] kc_inv_D(3,7)[OF inv] by (simp add: kv_view_nth)
  have S: "length (si_idxs si ! s) = ub_nt kc ub" "distinct (si_idxs si ! s)" "\<forall>i \<in> set (si_idxs si ! s). i < n"
    using slot s by (auto simp: slot_for_def)
  have "room (write_cells ub (s * ub_nt kc ub) (si_idxs si ! s) (kv_view kc ! ?t))"
    unfolding room_def
  proof (rule ballI)
    fix x assume x: "x \<in> set (write_cells ub (s * ub_nt kc ub) (si_idxs si ! s) (kv_view kc ! ?t))"
    have "\<forall>j \<in> set (si_idxs si ! s). j < length (kv_view kc ! ?t)" using S(3) len by simp
    from write_cells_set[OF S(2) this x, unfolded S(1)] consider "x \<in> set (kv_view kc ! ?t)"
      | k where "k < ub_nt kc ub" "x = written ub (s * ub_nt kc ub + k) (kv_view kc ! ?t ! (si_idxs si ! s ! k))"
      by blast
    then show "fst x < INT32_MAX"
    proof cases
      case 1
      then show ?thesis using room t by (auto simp: room_def)
    next
      case 2
      then show ?thesis using room_written[OF ub_ok_D(8)[OF ub s 2(1)]] by simp
    qed
  qed
  moreover have "\<forall>xs \<in> set (write_streams kc ub si s). room xs" using Suc by simp
  ultimately show ?case
    using set_update_subset_insert[of "write_streams kc ub si s" ?t] unfolding write_streams.simps Let_def v by blast
qed (use room in simp)

lemma room_purged: "room xs \<Longrightarrow> room (map (purged k mrm) xs)"
  by (auto simp: room_def purged_def Let_def empty_cell_def INT32_MAX_def split: prod.splits)

lemma apply_room:
  assumes "kc_inv kc n" "ub_ok kc ub" "slot_for kc n ub si" "\<forall>xs \<in> set (kv_view kc). room xs"
    and "apply_ubatch si ub kc = Some kc'"
  shows "kc_inv kc' n" "same_config kc kc'" "\<forall>xs \<in> set (kv_view kc'). room xs"
  using apply_ubatch_ok[OF assms(1-4)] assms(5) room_write_streams[OF assms(1-4) order.refl] room_purged
  by auto

section \<open>Without a sliding window\<close>

lemma usable_none:
  assumes "kc_swa_type kc = LLAMA_SWA_TYPE_NONE"
  shows "usable kc xs i \<longleftrightarrow> fst (xs ! i) = -1"
  using assms by (auto simp: usable_def is_masked_swa_def requires_def split: if_splits)

lemma overwritten_none:
  assumes slot: "slot_for kc n ub si" and none: "kc_swa_type kc = LLAMA_SWA_TYPE_NONE"
  shows "k \<le> ub_ns kc ub \<Longrightarrow> overwritten kc ub si k = (\<lambda>_. -1)"
proof (induction k)
  case (Suc s)
  let ?xs = "kv_view kc ! ub_strm kc ub s"
  have free: "\<forall>i \<in> set (si_idxs si ! s). fst (?xs ! i) = -1"
    using slot Suc.prems usable_none[OF none] by (auto simp: slot_for_def)
  have "evicted ?xs js m = m" if "\<forall>i \<in> set js. fst (?xs ! i) = -1" for js m
    using that by (induction js arbitrary: m) (auto simp: evicted_def bump_def)
  with free Suc show ?case by simp
qed simp

text \<open>Nothing is overwritten and nothing purged: the tokens appear in their cells, the rest stays.\<close>

lemma apply_ubatch_none:
  assumes inv: "kc_inv kc n" and ub: "ub_ok kc ub" and slot: "slot_for kc n ub si"
    and none: "kc_swa_type kc = LLAMA_SWA_TYPE_NONE"
  shows "\<exists>kc'. apply_ubatch si ub kc = Some kc' \<and> kc_inv kc' n \<and> same_config kc kc' \<and>
     kv_view kc' = write_streams kc ub si (ub_ns kc ub) \<and> kc_flags kc' = kc_flags kc"
proof -
  note U = ub_ok_D[OF ub]
  let ?ns = "ub_ns kc ub"
  have S: "length (si_idxs si) = ?ns" "si_strm si = map (ub_strm kc ub) [0..<?ns]" "length (si_strm si) = ?ns"
    using slot by (auto simp: slot_for_def)
  have size: "slot_size si = Some (ub_nt kc ub)" using S slot U(2) by (auto simp: slot_size_def slot_for_def)
  obtain k1 where k1: "foldM (apply_stream ub si (ub_nt kc ub)) [0..<?ns] (kc, \<lambda>_. -1) = Some (k1, \<lambda>_. -1)"
    "kc_inv k1 n" "same_config kc k1" "kv_view k1 = write_streams kc ub si ?ns" "kc_flags k1 = kc_flags kc"
    using apply_streams_ok[OF inv ub slot] overwritten_none[OF slot none order.refl] by auto
  have purge: "foldM (purge (\<lambda>_. -1)) js k1 = Some k1" for js
    by (induction js) (simp_all add: purge_def)
  have heads: "\<forall>s < length (si_strm si). si_strm si ! s < kc_n_stream k1 \<and> si_idxs si ! s \<noteq> [] \<and> last (si_idxs si ! s) < n"
  proof (intro allI impI)
    fix s assume "s < length (si_strm si)"
    then have s: "s < ?ns" using S(3) by simp
    have ne: "si_idxs si ! s \<noteq> []" using slot s U(3) by (auto simp: slot_for_def)
    then have "last (si_idxs si ! s) < n" using slot s by (auto simp: slot_for_def)
    then show "si_strm si ! s < kc_n_stream k1 \<and> si_idxs si ! s \<noteq> [] \<and> last (si_idxs si ! s) < n"
      using ub_strm_less[OF inv ub s] S(2) s ne same_config_D(1)[OF k1(3)] by simp
  qed
  have dist: "distinct (si_strm si)" using ub S(2) by (simp add: ub_ok_def)
  obtain k3 where k3: "foldM (move_head si) [0..<?ns] k1 = Some k3" "kc_inv k3 n" "same_config k1 k3" "kv_view k3 = kv_view k1"
    using move_heads_ok[OF k1(2) _ dist heads] S by auto
  have "kc_flags k3 = kc_flags k1"
  proof (rule foldM_inv[where P = "\<lambda>d. kc_flags d = kc_flags k1", OF k3(1) refl])
    fix j d d' assume "move_head si j d = Some d'" "kc_flags d = kc_flags k1"
    then show "kc_flags d' = kc_flags k1" by (auto simp: move_head_def kc_flags_def monad_simps split: if_splits)
  qed
  moreover have "apply_ubatch si ub kc = Some k3"
    using size S(3) U(4) k1(1) purge k3(1) by (simp add: apply_ubatch_def)
  ultimately show ?thesis using k3 k1 same_config_trans[OF k1(3) k3(3)] by auto
qed

section \<open>Saving and restoring\<close>

lemma slot_empty_cells:
  assumes slot: "slot_for kc n ub si" and none: "kc_swa_type kc = LLAMA_SWA_TYPE_NONE" and s: "s < ub_ns kc ub"
  shows "\<forall>i \<in> set (si_idxs si ! s). i < n \<and> fst (kv_view kc ! ub_strm kc ub s ! i) = -1"
  using slot s usable_none[OF none] by (auto simp: slot_for_def)

lemma saved_stream:
  assumes inv: "kc_inv kc n" and ub: "ub_ok kc ub" and slot: "slot_for kc n ub si"
    and none: "kc_swa_type kc = LLAMA_SWA_TYPE_NONE" and s: "s < ub_ns kc ub"
  defines "t \<equiv> ub_strm kc ub s"
  shows "\<forall>i \<in> set (si_idxs si ! s). i < cells_size (kc_cells kc ! t) \<and> kv_shift (kc_cells kc ! t) ! i = 0"
proof
  fix i assume i: "i \<in> set (si_idxs si ! s)"
  have t: "t < kc_n_stream kc" unfolding t_def by (rule ub_strm_less[OF inv ub s])
  have "i < n" "fst (kv_view kc ! t ! i) = -1" using slot_empty_cells[OF slot none s] i by (auto simp: t_def)
  then have "i < cells_size (kc_cells kc ! t)" "kv_pos (kc_cells kc ! t) ! i = -1"
    using kc_inv_D(3,7)[OF inv] t by (auto simp: kv_view_nth)
  with cells_inv_D(7)[OF kc_inv_D(6)[OF inv t]]
  show "i < cells_size (kc_cells kc ! t) \<and> kv_shift (kc_cells kc ! t) ! i = 0" by (auto simp: cell_ok_def)
qed

lemma save_cells_ok:
  assumes inv: "kc_inv kc n" and ub: "ub_ok kc ub" and slot: "slot_for kc n ub si"
    and none: "kc_swa_type kc = LLAMA_SWA_TYPE_NONE"
  shows "\<exists>saved. save_cells kc si = Some saved \<and> length saved = ub_ns kc ub \<and>
     (\<forall>s < ub_ns kc ub. cp (kc_cells kc ! ub_strm kc ub s) (si_idxs si ! s) = Some (saved ! s))"
proof -
  let ?ns = "ub_ns kc ub"
  let ?f = "\<lambda>s acc. do {
         strm \<leftarrow> at (si_strm si) s; idxs \<leftarrow> at (si_idxs si) s; cells \<leftarrow> cells_of kc strm;
         saved \<leftarrow> cp cells idxs; Some (acc @ [saved]) }"
  let ?P = "\<lambda>k acc. length acc = k \<and>
      (\<forall>s < k. cp (kc_cells kc ! ub_strm kc ub s) (si_idxs si ! s) = Some (acc ! s))"
  have S: "length (si_idxs si) = ?ns" "si_strm si = map (ub_strm kc ub) [0..<?ns]" "length (si_strm si) = ?ns"
    using slot by (auto simp: slot_for_def)
  have start: "?P 0 []" by simp
  have step: "\<exists>acc'. ?f s acc = Some acc' \<and> ?P (Suc s) acc'" if s: "s < ?ns" and P: "?P s acc" for s acc
  proof -
    let ?t = "ub_strm kc ub s"
    have t: "?t < kc_n_stream kc" by (rule ub_strm_less[OF inv ub s])
    obtain r where r: "cp (kc_cells kc ! ?t) (si_idxs si ! s) = Some r"
      using cp_ok[OF kc_inv_D(6)[OF inv t] saved_stream[OF inv ub slot none s]] by blast
    have "?f s acc = Some (acc @ [r])" using r s S t kc_inv_D(3)[OF inv] by (simp add: cells_of_def)
    then show ?thesis using P r by (auto simp: less_Suc_eq nth_append)
  qed
  have "\<exists>acc. save_cells kc si = Some acc \<and> ?P ?ns acc"
    unfolding save_cells_def S(3) by (rule foldM_upt[where P = ?P, OF start]) (rule step)
  then show ?thesis by blast
qed

lemma stream_unchanged:
  assumes "kc_inv kc n" "kc_inv k1 n" "t < kc_n_stream kc" "kc_n_stream k1 = kc_n_stream kc"
    and "kv_view k1 ! t = kv_view kc ! t" "kc_flags k1 = kc_flags kc"
  shows "kc_cells k1 ! t = kc_cells kc ! t"
proof (rule view_inject)
  show "cells_inv (kc_cells k1 ! t)" "cells_inv (kc_cells kc ! t)"
    using kc_inv_D(6)[OF assms(1)] kc_inv_D(6)[OF assms(2)] assms(3,4) by simp_all
  show "view (kc_cells k1 ! t) = view (kc_cells kc ! t)"
    using assms(3-5) kc_inv_D(3)[OF assms(1)] kc_inv_D(3)[OF assms(2)] by (simp add: kv_view_nth)
  show "kv_has_shift (kc_cells k1 ! t) = kv_has_shift (kc_cells kc ! t)"
    using assms(3,4,6) kc_inv_D(3)[OF assms(1)] kc_inv_D(3)[OF assms(2)] unfolding kc_flags_def by (metis nth_map)
qed

lemma restore_stream_ok:
  assumes inv: "kc_inv kc n" and ub: "ub_ok kc ub" and slot: "slot_for kc n ub si"
    and none: "kc_swa_type kc = LLAMA_SWA_TYPE_NONE" and s: "s < ub_ns kc ub"
    and k1: "kc_inv k1 n" "same_config kc k1" "kv_view k1 = write_streams kc ub si (ub_ns kc ub)" "kc_flags k1 = kc_flags kc"
    and saved: "cp (kc_cells kc ! ub_strm kc ub s) (si_idxs si ! s) = Some r"
  shows "set_idxs (si_idxs si ! s) r (kc_cells k1 ! ub_strm kc ub s) = Some (kc_cells kc ! ub_strm kc ub s)"
proof -
  let ?t = "ub_strm kc ub s" and ?idxs = "si_idxs si ! s"
  have t: "?t < kc_n_stream kc" "?t < kc_n_stream k1"
    using ub_strm_less[OF inv ub s] same_config_D(1)[OF k1(2)] by simp_all
  let ?c = "kc_cells kc ! ?t" and ?d = "kc_cells k1 ! ?t"
  have I: "distinct ?idxs" "\<forall>j \<in> set ?idxs. j < n" "length ?idxs = ub_nt kc ub" using slot s by (auto simp: slot_for_def)
  have sizes: "cells_size ?c = n" "cells_size ?d = n" using kc_inv_D(7)[OF inv t(1)] kc_inv_D(7)[OF k1(1) t(2)] by simp_all
  have "view ?d = write_cells ub (s * ub_nt kc ub) ?idxs (view ?c)"
    using k1(3) write_streams_nth[of kc ub "ub_ns kc ub" "ub_ns kc ub" s si] ub s ub_strm_less[OF inv ub]
      kc_inv_D(3)[OF inv] kc_inv_D(3)[OF k1(1)] t kv_view_nth[of ?t k1] kv_view_nth[of ?t kc]
    by (simp add: ub_ok_def kv_view_def)
  then have at: "cell_at ?d i = write_cells ub (s * ub_nt kc ub) ?idxs (view ?c) ! i" if "i < n" for i
    using sizes that by (metis view_nth)
  have shift: "kv_shift ?d ! i = 0" if i: "i \<in> set ?idxs" for i
  proof -
    obtain k where k: "k < length ?idxs" "i = ?idxs ! k" using i by (metis in_set_conv_nth)
    have "cell_at ?d i = written ub (s * ub_nt kc ub + k) (view ?c ! i)"
      using at[of i] write_cells_nth[OF I(1) k(1), of "view ?c" ub] I(2) i k(2) sizes(1) by auto
    then show ?thesis by (simp add: cell_at_def written_def)
  qed
  have flag: "kv_has_shift ?d = kv_has_shift ?c"
    using k1(4) t kc_inv_D(3)[OF inv] kc_inv_D(3)[OF k1(1)] unfolding kc_flags_def by (metis nth_map)
  have "\<exists>r. cp ?c ?idxs = Some r \<and> set_idxs ?idxs r ?d = Some ?c"
  proof (rule cells_restore[OF kc_inv_D(6)[OF inv t(1)] kc_inv_D(6)[OF k1(1) t(2)] _ flag])
    show "\<forall>i \<in> set ?idxs. i < cells_size ?c \<and> kv_shift ?c ! i = 0 \<and> kv_shift ?d ! i = 0"
      using saved_stream[OF inv ub slot none s] shift by blast
    show "cell_at ?d i = cell_at ?c i" if "i < cells_size ?c" "i \<notin> set ?idxs" for i
      using at[of i] that sizes by (simp add: write_cells_other)
  qed (use sizes in simp)
  with saved show ?thesis by simp
qed

lemma restore_ok:
  assumes inv: "kc_inv kc n" and ub: "ub_ok kc ub" and slot: "slot_for kc n ub si"
    and none: "kc_swa_type kc = LLAMA_SWA_TYPE_NONE"
    and k1: "kc_inv k1 n" "same_config kc k1" "kv_view k1 = write_streams kc ub si (ub_ns kc ub)" "kc_flags k1 = kc_flags kc"
    and saved: "length saved = ub_ns kc ub"
      "\<forall>s < ub_ns kc ub. cp (kc_cells kc ! ub_strm kc ub s) (si_idxs si ! s) = Some (saved ! s)"
    and d: "same_config kc d" "kc_cells d = kc_cells k1" "length (kc_heads d) = kc_n_stream kc"
    and ns: "ub_ns kc ub \<le> kc_n_stream kc"
  shows "\<exists>d'. restore \<lparr>ps_sinfo = si, ps_heads_old = kc_heads kc, ps_cells = saved\<rparr> d = Some d' \<and>
     same_config kc d' \<and> kc_cells d' = kc_cells kc \<and> length (kc_heads d') = kc_n_stream kc \<and>
     (kc_n_stream kc = 1 \<longrightarrow> kc_heads d' = kc_heads kc)"
proof -
  let ?st = "\<lparr>ps_sinfo = si, ps_heads_old = kc_heads kc, ps_cells = saved\<rparr>" and ?ns = "ub_ns kc ub"
  have S: "length (si_idxs si) = ?ns" "si_strm si = map (ub_strm kc ub) [0..<?ns]" "length (si_strm si) = ?ns"
    using slot by (auto simp: slot_for_def)
  note U = ub_ok_D[OF ub] and D = kc_inv_D[OF inv] and D1 = kc_inv_D[OF k1(1)]
  have inj: "ub_strm kc ub a = ub_strm kc ub b \<Longrightarrow> a < ?ns \<Longrightarrow> b < ?ns \<Longrightarrow> a = b" for a b
    using ub by (auto simp: ub_ok_def distinct_map inj_on_def)
  let ?P = "\<lambda>j e. same_config kc e \<and> length (kc_cells e) = kc_n_stream kc \<and> length (kc_heads e) = kc_n_stream kc \<and>
    (\<forall>t < kc_n_stream kc. kc_cells e ! t = (if \<exists>s < j. ub_strm kc ub s = t then kc_cells kc ! t else kc_cells k1 ! t)) \<and>
    (0 < j \<longrightarrow> kc_n_stream kc = 1 \<longrightarrow> kc_heads e ! 0 = kc_heads kc ! 0)"
  have start: "?P 0 d" using d D1(3) same_config_D(1)[OF k1(2)] by simp
  have step: "\<exists>e'. restore_stream ?st s e = Some e' \<and> ?P (Suc s) e'" if s: "s < ?ns" and P: "?P s e" for s e
  proof -
    let ?t = "ub_strm kc ub s"
    have t: "?t < kc_n_stream kc" by (rule ub_strm_less[OF inv ub s])
    have "\<not> (\<exists>r < s. ub_strm kc ub r = ?t)" using inj[of _ s] s by fastforce
    then have e: "kc_cells e ! ?t = kc_cells k1 ! ?t" using P t by auto
    let ?e = "put_stream ?t (kc_cells kc ! ?t) (kc_heads kc ! s) e"
    have "restore_stream ?st s e = Some ?e"
      using S s t P e saved ns D(4) restore_stream_ok[OF inv ub slot none s k1, of "saved ! s"]
      by (simp add: restore_stream_def cells_of_def)
    moreover have "?P (Suc s) ?e"
      using P t ns s same_config_trans[OF _ put_stream_shape] by (auto simp: nth_list_update less_Suc_eq)
    ultimately show ?thesis by blast
  qed
  have "\<exists>e. restore ?st d = Some e \<and> ?P ?ns e"
    unfolding restore_def using S(3) by (simp only: prep_state.simps, intro foldM_upt[where P = ?P, OF start]) (rule step)
  then obtain e where e0: "restore ?st d = Some e \<and> ?P ?ns e" by (rule exE)
  note e = conjunct1[OF e0] conjunct2[OF e0]
  have "kc_cells e ! t = kc_cells kc ! t" if t: "t < kc_n_stream kc" for t
  proof (cases "\<exists>s < ?ns. ub_strm kc ub s = t")
    case True
    with e(2) t show ?thesis by auto
  next
    case False
    then have "kv_view k1 ! t = kv_view kc ! t" unfolding k1(3) by (intro write_streams_other) blast
    from stream_unchanged[OF inv k1(1) t same_config_D(1)[OF k1(2)] this k1(4)]
    show ?thesis using e(2) t False by simp
  qed
  then have "kc_cells e = kc_cells kc" using e(2) D(3) by (intro nth_equalityI) auto
  moreover have "kc_heads e = kc_heads kc" if "kc_n_stream kc = 1"
    using that e(2) D(4) U(2) by (intro nth_equalityI) auto
  ultimately show ?thesis using e by auto
qed

lemma ub_ns_le:
  assumes "kc_inv kc n" "ub_ok kc ub"
  shows "ub_ns kc ub \<le> kc_n_stream kc"
proof -
  have "distinct (map (ub_strm kc ub) [0..<ub_ns kc ub])" using assms(2) by (simp add: ub_ok_def)
  from distinct_card[OF this] have "card (set (map (ub_strm kc ub) [0..<ub_ns kc ub])) = ub_ns kc ub" by simp
  moreover have "set (map (ub_strm kc ub) [0..<ub_ns kc ub]) \<subseteq> {..<kc_n_stream kc}"
    using ub_strm_less[OF assms] by auto
  ultimately show ?thesis
    using card_mono[of "{..<kc_n_stream kc}" "set (map (ub_strm kc ub) [0..<ub_ns kc ub])"] by (simp del: set_map)
qed

section \<open>prepare\<close>

text \<open>What the micro-batches need: they are well formed for this cache and every position has room.\<close>

definition ready :: "kv_cache \<Rightarrow> nat \<Rightarrow> bool" where
  "ready kc n \<longleftrightarrow> kc_inv kc n \<and> 0 < n \<and> window_ok kc \<and> (\<forall>xs \<in> set (kv_view kc). room xs)"

lemma slot_for_nonempty: "slot_for kc n ub si \<Longrightarrow> ub_ok kc ub \<Longrightarrow> \<not> slot_empty si"
  by (auto simp: slot_for_def ub_ok_def slot_empty_def)

lemma find_slot_cases:
  assumes "ready kc n" "ub_ok kc ub"
  obtains si where "find_slot kc ub False = Some si" "\<not> slot_empty si" "slot_for kc n ub si"
  | si where "find_slot kc ub False = Some si" "slot_empty si"
proof -
  obtain si where si: "find_slot kc ub False = Some si"
    "if \<forall>s < ub_ns kc ub. enough_cells kc n ub s then slot_for kc n ub si else si = slot_none"
    using find_slot_ok[of kc n ub] assms unfolding ready_def by blast
  then show ?thesis
    using that slot_for_nonempty[OF _ assms(2)] by (auto simp: slot_none_def slot_empty_def split: if_splits)
qed

lemma apply_ready:
  assumes "ready kc n" "ub_ok kc ub" "slot_for kc n ub si"
  shows "\<exists>kc'. apply_ubatch si ub kc = Some kc' \<and> ready kc' n \<and> same_config kc kc'"
proof -
  obtain kc' where kc': "apply_ubatch si ub kc = Some kc'"
    using apply_ubatch_ok[of kc n ub si] assms unfolding ready_def by blast
  then show ?thesis
    using apply_room[OF _ assms(2,3) _ kc'] assms(1) ub_config(5) unfolding ready_def by blast
qed

text \<open>The slots collected can be applied in order; the loop ends in the state this gives.\<close>

definition apply_slots :: "(slot_info \<times> llama_ubatch) list \<Rightarrow> kv_cache \<Rightarrow> kv_cache option" where
  "apply_slots ps kc = foldM (\<lambda>(si, ub). apply_ubatch si ub) ps kc"

lemma prepare_loop_acc:
  "prepare_loop ubs kc res states = Some (b, kc', res', states') \<Longrightarrow>
   \<exists>sis new. res' = res @ sis \<and> states' = states @ new \<and> length new = length sis \<and>
     length sis \<le> length ubs \<and> (b \<longrightarrow> length sis = length ubs) \<and> apply_slots (zip sis ubs) kc = Some kc'"
proof (induction ubs kc res states rule: prepare_loop.induct)
  case (2 ub ubs kc res states)
  obtain si where si: "find_slot kc ub False = Some si" using "2.prems" by (auto simp: bind_eq_Some_conv)
  show ?case
  proof (cases "slot_empty si")
    case True
    with "2.prems" si show ?thesis by (auto simp: apply_slots_def intro!: exI[of _ "[]"])
  next
    case False
    with "2.prems" si obtain saved k1 where k: "save_cells kc si = Some saved" "apply_ubatch si ub kc = Some k1"
      "prepare_loop ubs k1 (res @ [si]) (states @ [\<lparr>ps_sinfo = si, ps_heads_old = kc_heads kc, ps_cells = saved\<rparr>]) = Some (b, kc', res', states')"
      by (auto simp: bind_eq_Some_conv)
    from "2.IH"[OF si False k] obtain sis new where "res' = (res @ [si]) @ sis"
      "states' = (states @ [\<lparr>ps_sinfo = si, ps_heads_old = kc_heads kc, ps_cells = saved\<rparr>]) @ new"
      "length new = length sis" "length sis \<le> length ubs" "b \<longrightarrow> length sis = length ubs"
      "apply_slots (zip sis ubs) k1 = Some kc'" by blast
    with k(2) show ?thesis
      by (intro exI[of _ "si # sis"] exI[of _ "\<lparr>ps_sinfo = si, ps_heads_old = kc_heads kc, ps_cells = saved\<rparr> # new"])
        (auto simp: apply_slots_def)
  qed
qed (auto simp: apply_slots_def intro!: exI[of _ "[]"])

text \<open>Without a sliding window the loop does not fail, and undoing it gives the cells back.\<close>

lemma prepare_loop_restore:
  assumes "ready kc n" "kc_swa_type kc = LLAMA_SWA_TYPE_NONE" "\<forall>ub \<in> set ubs. ub_ok kc ub"
  shows "\<exists>b kc' res' new. prepare_loop ubs kc res states = Some (b, kc', res', states @ new) \<and>
     (b \<longrightarrow> length new = length ubs) \<and> ready kc' n \<and> same_config kc kc' \<and>
     (\<exists>k0. foldM restore (rev new) kc' = Some k0 \<and> same_config kc k0 \<and> kc_cells k0 = kc_cells kc \<and>
        length (kc_heads k0) = kc_n_stream kc \<and> (kc_n_stream kc = 1 \<longrightarrow> kc_heads k0 = kc_heads kc))"
  using assms
proof (induction ubs arbitrary: kc res states)
  case Nil
  then show ?case by (auto simp: ready_def intro!: exI[of _ "[]"] dest: kc_inv_D(4))
next
  case (Cons ub ubs)
  have ub: "ub_ok kc ub" and inv: "kc_inv kc n" using Cons.prems by (auto simp: ready_def)
  show ?case
  proof (rule find_slot_cases[OF Cons.prems(1) ub])
    fix si assume si: "find_slot kc ub False = Some si" "slot_empty si"
    then show ?thesis using Cons.prems inv by (auto intro!: exI[of _ "[]"] dest: kc_inv_D(4))
  next
    fix si assume si: "find_slot kc ub False = Some si" "\<not> slot_empty si" "slot_for kc n ub si"
    obtain saved where saved: "save_cells kc si = Some saved" "length saved = ub_ns kc ub"
      "\<forall>s < ub_ns kc ub. cp (kc_cells kc ! ub_strm kc ub s) (si_idxs si ! s) = Some (saved ! s)"
      using save_cells_ok[OF inv ub si(3) Cons.prems(2)] by blast
    obtain k1 where k1: "apply_ubatch si ub kc = Some k1" "kc_inv k1 n" "same_config kc k1"
      "kv_view k1 = write_streams kc ub si (ub_ns kc ub)" "kc_flags k1 = kc_flags kc"
      using apply_ubatch_none[OF inv ub si(3) Cons.prems(2)] by blast
    have rdy: "ready k1 n" using apply_ready[OF Cons.prems(1) ub si(3)] k1(1) by auto
    let ?st = "\<lparr>ps_sinfo = si, ps_heads_old = kc_heads kc, ps_cells = saved\<rparr>"
    have none1: "kc_swa_type k1 = LLAMA_SWA_TYPE_NONE" using same_config_D(4)[OF k1(3)] Cons.prems(2) by simp
    have ubs1: "\<forall>ub \<in> set ubs. ub_ok k1 ub" using Cons.prems(3) ub_config(1)[OF k1(3)] by simp
    from Cons.IH[OF rdy none1 ubs1, of "res @ [si]" "states @ [?st]"]
    obtain b kc' res' new k0 where IH:
      "prepare_loop ubs k1 (res @ [si]) (states @ [?st]) = Some (b, kc', res', (states @ [?st]) @ new)"
      "b \<longrightarrow> length new = length ubs" "ready kc' n" "same_config k1 kc'"
      "foldM restore (rev new) kc' = Some k0" "same_config k1 k0" "kc_cells k0 = kc_cells k1"
      "length (kc_heads k0) = kc_n_stream k1" by blast
    have cfg: "same_config kc k0" by (rule same_config_trans[OF k1(3) IH(6)])
    obtain d where d: "restore ?st k0 = Some d" "same_config kc d" "kc_cells d = kc_cells kc"
      "length (kc_heads d) = kc_n_stream kc" "kc_n_stream kc = 1 \<longrightarrow> kc_heads d = kc_heads kc"
      using restore_ok[OF inv ub si(3) Cons.prems(2) k1(2-5) saved(2,3) cfg IH(7)] IH(8)
        same_config_D(1)[OF k1(3)] ub_ns_le[OF inv ub] by auto
    have "foldM restore (rev (?st # new)) kc' = Some d" using IH(5) d(1) by (simp add: foldM_snoc)
    moreover have "prepare_loop (ub # ubs) kc res states = Some (b, kc', res', states @ (?st # new))"
      using si(1,2) saved(1) k1(1) IH(1) by simp
    ultimately show ?thesis
      using IH(2,3) same_config_trans[OF k1(3) IH(4)] d by (intro exI[of _ b] exI[of _ kc'] exI[of _ res'] exI[of _ "?st # new"]) auto
  qed
qed

lemma prepare_ok:
  assumes "ready kc n" "kc_swa_type kc = LLAMA_SWA_TYPE_NONE" "\<forall>ub \<in> set ubs. ub_ok kc ub" "ubs \<noteq> []"
  shows "\<exists>sis kc'. prepare ubs kc = Some (sis, kc') \<and> same_config kc kc' \<and> kc_cells kc' = kc_cells kc \<and>
     (kc_n_stream kc = 1 \<longrightarrow> kc' = kc) \<and>
     (sis \<noteq> [] \<longrightarrow> length sis = length ubs \<and> (\<exists>k. apply_slots (zip sis ubs) kc = Some k \<and> ready k n))"
proof -
  obtain b k res new k0 where l: "prepare_loop ubs kc [] [] = Some (b, k, res, [] @ new)"
    "b \<longrightarrow> length new = length ubs" "ready k n" "foldM restore (rev new) k = Some k0" "same_config kc k0"
    "kc_cells k0 = kc_cells kc" "kc_n_stream kc = 1 \<longrightarrow> kc_heads k0 = kc_heads kc"
    using prepare_loop_restore[OF assms(1-3), of "[]" "[]"] by blast
  have ne: "new \<noteq> [] \<or> \<not> b" using l(2) assms(4) by auto
  have p: "prepare ubs kc = Some (if b then res else [], k0)" using l ne by (simp add: prepare_def)
  have "kc_n_stream kc = 1 \<longrightarrow> k0 = kc"
    using l(5-7) unfolding same_config_def by (intro impI kv_cache.equality) auto
  moreover obtain sis where "res = sis" "b \<longrightarrow> length sis = length ubs" "apply_slots (zip sis ubs) kc = Some k"
    using prepare_loop_acc[OF l(1)] by auto
  ultimately show ?thesis using p l(3,5,6) by auto
qed

section \<open>When the micro-batches fit\<close>

text \<open>With one stream and no window: if there is a free cell for every token.\<close>

definition free_cells :: "kv_cache \<Rightarrow> nat" where
  "free_cells kc = length (filter (\<lambda>x. fst x = -1) (kv_view kc ! 0))"

lemma free_cells_card:
  assumes "kc_inv kc n" "kc_n_stream kc = 1"
  shows "free_cells kc = card {i. i < n \<and> fst (kv_view kc ! 0 ! i) = -1}"
proof -
  have "length (kv_view kc ! 0) = n" using kc_inv_D(3)[OF assms(1)] kc_inv_D(7)[OF assms(1), of 0] assms(2) by (simp add: kv_view_nth)
  then show ?thesis by (simp add: free_cells_def length_filter_conv_card)
qed

lemma one_stream:
  assumes "kc_inv kc n" "kc_n_stream kc = 1" "ub_ok kc ub"
  shows "ub_ns kc ub = 1" "ub_nt kc ub = ub_n_tokens ub" "ub_strm kc ub 0 = 0"
  using assms(2) ub_strm_less[OF assms(1,3), of 0] by (simp_all add: ub_ns_def ub_nt_def)

lemma free_cells_after:
  assumes inv: "kc_inv kc n" "kc_inv k1 n" "same_config kc k1" and one: "kc_n_stream kc = 1" and ub: "ub_ok kc ub"
    and slot: "slot_for kc n ub si" and none: "kc_swa_type kc = LLAMA_SWA_TYPE_NONE"
    and v: "kv_view k1 = write_streams kc ub si (ub_ns kc ub)"
  shows "free_cells kc = free_cells k1 + ub_n_tokens ub"
proof -
  note o = one_stream[OF inv(1) one ub]
  let ?xs = "kv_view kc ! 0" and ?idxs = "si_idxs si ! 0"
  let ?F = "{i. i < n \<and> fst (?xs ! i) = -1}"
  have len: "length ?xs = n" "0 < length (kv_view kc)"
    using kc_inv_D(3)[OF inv(1)] kc_inv_D(7)[OF inv(1), of 0] one by (auto simp: kv_view_nth kv_view_def)
  have v0: "kv_view k1 ! 0 = write_cells ub 0 ?idxs ?xs" using v o len(2) by (simp add: Let_def)
  have I: "length ?idxs = ub_n_tokens ub" "distinct ?idxs" "set ?idxs \<subseteq> ?F"
    using slot o slot_empty_cells[OF slot none, of 0] unfolding slot_for_def by (simp_all add: subset_iff)
  have w: "fst (write_cells ub 0 ?idxs ?xs ! i) \<noteq> -1" if i: "i \<in> set ?idxs" for i
  proof -
    obtain k where k: "k < length ?idxs" "i = ?idxs ! k" using i by (metis in_set_conv_nth)
    have "0 \<le> ub_pos ub ! k" using ub_ok_D(8)[OF ub, of 0 k] o k(1) I(1) by (simp add: token_ok_def)
    moreover have "\<forall>j \<in> set ?idxs. j < length ?xs" using I(3) len(1) by auto
    ultimately show ?thesis using write_cells_nth[OF I(2) k(1), of ?xs ub 0] k(2) by (simp add: written_def)
  qed
  have "fst (write_cells ub 0 ?idxs ?xs ! i) = -1 \<longleftrightarrow> fst (?xs ! i) = -1 \<and> i \<notin> set ?idxs" for i
    using w[of i] write_cells_other[of i ?idxs ub 0 ?xs] by metis
  then have "{i. i < n \<and> fst (kv_view k1 ! 0 ! i) = -1} = ?F - set ?idxs" unfolding v0 by auto
  moreover have "card (?F - set ?idxs) = card ?F - length ?idxs" using I by (simp add: card_Diff_subset distinct_card)
  moreover have "length ?idxs \<le> card ?F" using I card_mono[of ?F "set ?idxs"] by (simp add: distinct_card)
  ultimately show ?thesis
    using free_cells_card[OF inv(1) one] free_cells_card[OF inv(2)] same_config_D(1)[OF inv(3)] one I(1) by simp
qed

lemma prepare_loop_fits:
  assumes "ready kc n" "kc_swa_type kc = LLAMA_SWA_TYPE_NONE" "kc_n_stream kc = 1" "\<forall>ub \<in> set ubs. ub_ok kc ub"
    and "prepare_loop ubs kc res states = Some (b, kc', res', states')"
  shows "b \<longleftrightarrow> sum_list (map ub_n_tokens ubs) \<le> free_cells kc"
  using assms
proof (induction ubs arbitrary: kc res states)
  case (Cons ub ubs)
  have ub: "ub_ok kc ub" and inv: "kc_inv kc n" using Cons.prems by (auto simp: ready_def)
  note o = one_stream[OF inv Cons.prems(3) ub]
  have enough: "(\<forall>s < ub_ns kc ub. enough_cells kc n ub s) \<longleftrightarrow> ub_n_tokens ub \<le> free_cells kc"
    using o free_cells_card[OF inv Cons.prems(3)] by (simp add: enough_cells_def usable_none[OF Cons.prems(2)])
  obtain si where si: "find_slot kc ub False = Some si"
    "if ub_n_tokens ub \<le> free_cells kc then slot_for kc n ub si else si = slot_none"
    using find_slot_ok[of kc n ub] ub Cons.prems(1) unfolding ready_def enough by blast
  show ?case
  proof (cases "ub_n_tokens ub \<le> free_cells kc")
    case True
    then have slot: "slot_for kc n ub si" using si(2) by simp
    obtain k1 where k1: "apply_ubatch si ub kc = Some k1" "kc_inv k1 n" "same_config kc k1" "kv_view k1 = write_streams kc ub si (ub_ns kc ub)"
      using apply_ubatch_none[OF inv ub slot Cons.prems(2)] by blast
    have rdy: "ready k1 n" using apply_ready[OF Cons.prems(1) ub slot] k1(1) by auto
    have cfg: "kc_swa_type k1 = LLAMA_SWA_TYPE_NONE" "kc_n_stream k1 = 1" "\<forall>ub \<in> set ubs. ub_ok k1 ub"
      using same_config_D(1,4)[OF k1(3)] Cons.prems(2-4) ub_config(1)[OF k1(3)] by simp_all
    obtain saved where "save_cells kc si = Some saved" using save_cells_ok[OF inv ub slot Cons.prems(2)] by blast
    with Cons.prems(5) si(1) k1(1) slot_for_nonempty[OF slot ub]
    have "prepare_loop ubs k1 (res @ [si]) (states @ [\<lparr>ps_sinfo = si, ps_heads_old = kc_heads kc, ps_cells = saved\<rparr>]) = Some (b, kc', res', states')"
      by simp
    from Cons.IH[OF rdy cfg this] show ?thesis
      using free_cells_after[OF inv k1(2,3) Cons.prems(3) ub slot Cons.prems(2) k1(4)] by simp
  next
    case False
    then have "slot_empty si" using si(2) by (simp add: slot_none_def slot_empty_def)
    with Cons.prems(5) si(1) False show ?thesis by auto
  qed
qed simp

lemma prepare_fits:
  assumes "ready kc n" "kc_swa_type kc = LLAMA_SWA_TYPE_NONE" "kc_n_stream kc = 1" "\<forall>ub \<in> set ubs. ub_ok kc ub" "ubs \<noteq> []"
    and "prepare ubs kc = Some (sis, kc')"
  shows "sis \<noteq> [] \<longleftrightarrow> sum_list (map ub_n_tokens ubs) \<le> free_cells kc"
proof -
  obtain b k res states where l: "prepare_loop ubs kc [] [] = Some (b, k, res, states)" "sis = (if b then res else [])"
    using assms(6) by (auto simp: prepare_def bind_eq_Some_conv)
  have "b \<longrightarrow> res \<noteq> []" using prepare_loop_acc[OF l(1)] assms(5) by auto
  then show ?thesis using prepare_loop_fits[OF assms(1-4) l(1)] l(2) by simp
qed

end
