(* ===== verification/KvReach.thy ===== *)
theory KvReach
  imports KvPrepare
begin

text \<open>
  The cache as a state machine: the states that the public operations of \<open>llama_kv_cache\<close> lead to, from
  a new cache on. A rule carries the condition that positions and shifts stay in the range of \<open>int32_t\<close>
  (arithmetic outside of it is undefined in the source) and that a division has a positive divisor; otherwise
  that an operation returned is enough. A micro-batch is placed into any slot that fits it, in
  particular into the ones \<open>find_slot\<close> and \<open>prepare\<close> return. \<open>prepare\<close> itself is no transition: without a
  sliding window it changes no cell, and what it leaves with one (it does not restore the positions that its dry
  run purges) is not followed here.
\<close>

definition int_safe :: "(cell \<Rightarrow> bool) \<Rightarrow> kv_cache \<Rightarrow> nat \<Rightarrow> llama_pos \<Rightarrow> llama_pos \<Rightarrow> bool" where
  "int_safe P kc q p0 p1 \<longleftrightarrow> (\<forall>x \<in> set (kv_view kc ! (kc_seq_to_stream kc ! q)).
     in_range (lower p0) (upper p1) x \<and> has_seq q x \<longrightarrow> P x)"

inductive kv_reach :: "nat \<Rightarrow> kv_cache \<Rightarrow> bool" where
  new: "kv_cache_init v_trans unified n n_seq_max n_pad n_swa swa n_pos n_embd alibi = Some kc \<Longrightarrow>
    unified \<or> 0 < n_seq_max \<and> n_seq_max \<le> LLAMA_MAX_SEQ \<Longrightarrow> kv_reach n kc"
| clear: "kv_reach n kc \<Longrightarrow> kv_reach n (kv_clear kc)"
| rm: "kv_reach n kc \<Longrightarrow> kv_seq_rm q p0 p1 kc = Some kc' \<Longrightarrow> kv_reach n kc'"
| keep: "kv_reach n kc \<Longrightarrow> kv_seq_keep q kc = Some kc' \<Longrightarrow> kv_reach n kc'"
| add: "kv_reach n kc \<Longrightarrow> int_safe (\<lambda>x. in_i32 (fst x + d) \<and> in_i32 (fst (snd (snd x)) + d)) kc (nat q) p0 p1 \<Longrightarrow>
    kv_seq_add q p0 p1 d kc = Some kc' \<Longrightarrow> kv_reach n kc'"
| div: "kv_reach n kc \<Longrightarrow> int_safe (\<lambda>x. in_i32 (fst (snd (snd x)) + (fst x - fst x div d))) kc (nat q) p0 p1 \<Longrightarrow> 0 < d \<Longrightarrow>
    kv_seq_div q p0 p1 d kc = Some kc' \<Longrightarrow> kv_reach n kc'"
| cp: "kv_reach n kc \<Longrightarrow>
    kc_seq_to_stream kc ! nat q = kc_seq_to_stream kc ! nat r \<Longrightarrow>
    kv_seq_cp q r p0 p1 kc = Some kc' \<Longrightarrow> kv_reach n kc'"
| copy: "kv_reach n kc \<Longrightarrow> kc_seq_to_stream kc ! nat q \<noteq> kc_seq_to_stream kc ! nat r \<Longrightarrow>
    \<forall>(p, e, sh, S) \<in> set (kv_view kc ! (kc_seq_to_stream kc ! nat q)). nat q \<in> S \<longrightarrow> 0 \<le> p - sh \<and> in_i32 (p - sh) \<Longrightarrow>
    kv_seq_cp q r p0 p1 kc = Some kc' \<Longrightarrow> kv_reach n kc'"
| update: "kv_reach n kc \<Longrightarrow> kv_update rope_none computed do_shift sc kc = Some (b, kc') \<Longrightarrow> kv_reach n kc'"
| place: "kv_reach n kc \<Longrightarrow> \<forall>xs \<in> set (kv_view kc). room xs \<Longrightarrow> ub_ok kc ub \<Longrightarrow> slot_for kc n ub si \<Longrightarrow>
    apply_ubatch si ub kc = Some kc' \<Longrightarrow> kv_reach n kc'"

lemma evolves_inv: "evolves kc n v r \<Longrightarrow> r = Some kc' \<Longrightarrow> kc_inv kc' n"
  by (auto simp: evolves_def)

lemma stream_of_nat: "stream_of kc q = Some s \<Longrightarrow> \<exists>k. q = int k \<and> k < length (kc_seq_to_stream kc) \<and> s = kc_seq_to_stream kc ! k"
  by (auto simp: stream_of_def monad_simps split: if_splits intro!: exI[of _ "nat q"])

lemma rm_reach:
  assumes inv: "kc_inv kc n" and r: "kv_seq_rm q p0 p1 kc = Some kc'"
  shows "kc_inv kc' n"
proof (cases "q = -1")
  case True
  with evolves_inv[OF kv_seq_rm_all_ok[OF inv, of p0 p1]] r show ?thesis by simp
next
  case False
  with r obtain s where "stream_of kc q = Some s" by (auto simp: kv_seq_rm_def bind_eq_Some_conv)
  then obtain k where "q = int k" "k < length (kc_seq_to_stream kc)" using stream_of_nat by blast
  with evolves_inv[OF kv_seq_rm_ok[OF inv, of k p0 p1]] r show ?thesis by simp
qed

lemma keep_reach:
  assumes inv: "kc_inv kc n" and r: "kv_seq_keep q kc = Some kc'"
  shows "kc_inv kc' n"
proof -
  from r obtain s where "stream_of kc q = Some s" by (auto simp: kv_seq_keep_def bind_eq_Some_conv)
  then obtain k where "q = int k" "k < length (kc_seq_to_stream kc)" using stream_of_nat by blast
  with evolves_inv[OF kv_seq_keep_ok[OF inv, of k]] r show ?thesis by simp
qed

lemma add_reach:
  assumes inv: "kc_inv kc n" and safe: "int_safe (\<lambda>x. in_i32 (fst x + d) \<and> in_i32 (fst (snd (snd x)) + d)) kc (nat q) p0 p1"
    and r: "kv_seq_add q p0 p1 d kc = Some kc'"
  shows "kc_inv kc' n"
proof (cases "d = 0 \<or> lower p0 = upper p1")
  case True
  with r inv show ?thesis by (auto simp: kv_seq_add_def bind_eq_Some_conv split: if_splits)
next
  case False
  from r obtain s where s: "stream_of kc q = Some s" "kc_n_pos_per_embd kc = 1" by (auto simp: kv_seq_add_def bind_eq_Some_conv)
  then obtain k where k: "q = int k" "k < length (kc_seq_to_stream kc)" using stream_of_nat by blast
  have "evolves kc n
     (on_stream (kc_seq_to_stream kc ! k)
        (\<lambda>x. if in_range (lower p0) (upper p1) x \<and> has_seq k x then shift_cell d x else x) (kv_view kc))
     (kv_seq_add (int k) p0 p1 d kc)"
    using kv_seq_add_ok[OF inv k(2) s(2)] safe False k(1) by (simp add: int_safe_def)
  with r k(1) show ?thesis by (simp add: evolves_inv)
qed

lemma div_reach:
  assumes inv: "kc_inv kc n" and safe: "int_safe (\<lambda>x. in_i32 (fst (snd (snd x)) + (fst x - fst x div d))) kc (nat q) p0 p1"
    and d: "0 < d" and r: "kv_seq_div q p0 p1 d kc = Some kc'"
  shows "kc_inv kc' n"
proof (cases "d = 1 \<or> lower p0 = upper p1")
  case True
  with r inv show ?thesis by (auto simp: kv_seq_div_def bind_eq_Some_conv split: if_splits)
next
  case False
  from r obtain s where s: "stream_of kc q = Some s" "kc_n_pos_per_embd kc = 1" by (auto simp: kv_seq_div_def bind_eq_Some_conv)
  then obtain k where k: "q = int k" "k < length (kc_seq_to_stream kc)" using stream_of_nat by blast
  have "evolves kc n
     (on_stream (kc_seq_to_stream kc ! k)
        (\<lambda>x. if in_range (lower p0) (upper p1) x \<and> has_seq k x then div_cell d x else x) (kv_view kc))
     (kv_seq_div (int k) p0 p1 d kc)"
    using kv_seq_div_ok[OF inv k(2) s(2)] safe False d k(1) by (simp add: int_safe_def)
  with r k(1) show ?thesis by (simp add: evolves_inv)
qed

lemma cp_reach:
  assumes inv: "kc_inv kc n" and same: "kc_seq_to_stream kc ! nat q = kc_seq_to_stream kc ! nat r" and r: "kv_seq_cp q r p0 p1 kc = Some kc'"
  shows "kc_inv kc' n"
proof -
  from r obtain s0 s1 where "stream_of kc q = Some s0" "stream_of kc r = Some s1" by (auto simp: kv_seq_cp_def bind_eq_Some_conv)
  then obtain j k where k: "q = int j" "r = int k" "j < length (kc_seq_to_stream kc)" "k < length (kc_seq_to_stream kc)"
    using stream_of_nat by blast
  show ?thesis
  proof (cases "q = r")
    case True
    with r inv show ?thesis by (auto simp: kv_seq_cp_def bind_eq_Some_conv)
  next
    case False
    then have ne: "j \<noteq> k" using k(1,2) by simp
    note same' = same[unfolded k(1,2) nat_int]
    have absent: "\<forall>x \<in> set (kv_view kc ! (kc_seq_to_stream kc ! j)). in_range (lower p0) (upper p1) x \<and> has_seq j x \<longrightarrow> \<not> has_seq k x"
      using kv_seq_cp_fails[OF inv k(3,4) same' ne] r k(1,2) by fastforce
    have "evolves kc n
       (on_stream (kc_seq_to_stream kc ! j)
          (\<lambda>x. if in_range (lower p0) (upper p1) x \<and> has_seq j x then join_seq k x else x) (kv_view kc))
       (kv_seq_cp (int j) (int k) p0 p1 kc)"
      by (rule kv_seq_cp_ok[OF inv k(3,4) same' ne absent])
    with r k(1,2) show ?thesis by (simp add: evolves_inv)
  qed
qed

lemma copy_reach:
  assumes inv: "kc_inv kc n" and diff: "kc_seq_to_stream kc ! nat q \<noteq> kc_seq_to_stream kc ! nat r"
    and orig: "\<forall>(p, e, sh, S) \<in> set (kv_view kc ! (kc_seq_to_stream kc ! nat q)). nat q \<in> S \<longrightarrow> 0 \<le> p - sh \<and> in_i32 (p - sh)"
    and r: "kv_seq_cp q r p0 p1 kc = Some kc'"
  shows "kc_inv kc' n"
proof -
  from r obtain s0 s1 where s: "stream_of kc q = Some s0" "stream_of kc r = Some s1" by (auto simp: kv_seq_cp_def bind_eq_Some_conv)
  then obtain j k where k: "q = int j" "r = int k" "j < length (kc_seq_to_stream kc)" "k < length (kc_seq_to_stream kc)"
    "s0 = kc_seq_to_stream kc ! j" "s1 = kc_seq_to_stream kc ! k"
    using stream_of_nat by blast
  have size: "get_size kc = Some n" by (rule get_size_ok[OF inv k(3)])
  have "p0 \<noteq> INT32_MAX" "p1 \<noteq> INT32_MAX" "p0 \<le> 0 \<or> int n \<le> p0 + 1" "p1 \<le> 0 \<or> int n \<le> p1 + 1"
    using r s diff k by (auto simp: kv_seq_cp_def size bind_eq_Some_conv)
  with kv_seq_cp_stream_ok[OF inv k(3,4), of p0 p1] diff orig k(1,2) r show ?thesis by auto
qed

lemma place_reach:
  assumes "kc_inv kc n" "\<forall>xs \<in> set (kv_view kc). room xs" "ub_ok kc ub" "slot_for kc n ub si"
    "apply_ubatch si ub kc = Some kc'"
  shows "kc_inv kc' n"
  using apply_ubatch_ok[OF assms(1,3,4,2)] assms(5) by auto

lemma reach_inv: "kv_reach n kc \<Longrightarrow> kc_inv kc n"
proof (induction rule: kv_reach.induct)
  case (new v_trans unified n n_seq_max n_pad n_swa swa n_pos n_embd alibi kc)
  then have "n_pad \<noteq> 0" "n mod n_pad = 0" by (auto simp: kv_cache_init_def monad_simps split: if_splits)
  from kv_cache_init_ok[OF this new(2), of v_trans n_swa swa n_pos n_embd alibi] new(1) show ?case by auto
next
  case (copy n kc q r p0 p1 kc')
  show ?case by (rule copy_reach[OF copy.IH copy.hyps(2-4)])
qed (auto intro: rm_reach keep_reach add_reach div_reach cp_reach place_reach
    simp: kv_clear_ok kv_update_ok)

end
