(* ===== verification/CacheProps.thy ===== *)
theory CacheProps
  imports KvReach
begin

text \<open>
  The properties of the key-value cache (\<open>src/llama-kv-cells.h\<close>, \<open>src/llama-kv-cache.cpp\<close>): the invariant of
  every reachable cache, what each operation does to the cells, and the placing of micro-batches. The
  witnesses use a cache of four cells in one stream that holds two tokens of sequence 0 and one of
  sequence 1.
\<close>

section \<open>A sample cache\<close>

definition sample_ubatch :: llama_ubatch where
  "sample_ubatch = \<lparr>ub_equal_seqs = False, ub_n_tokens = 3, ub_n_seq_tokens = 1, ub_n_seqs = 3, ub_n_seqs_unq = 2,
     ub_n_pos = 1, ub_token = Some [7, 8, 9], ub_embd = None, ub_pos = [0, 1, 0], ub_n_seq_id = [1, 1, 1],
     ub_seq_id = [[0], [0], [1]], ub_seq_id_unq = [0, 1], ub_seq_idx = [], ub_output = [False, True, True]\<rparr>"

definition sample_view :: "cell list list" where
  "sample_view = [[(0, ext_zero, 0, {0}), (1, ext_zero, 0, {0}), (0, ext_zero, 0, {1}), empty_cell]]"

lemma less_3: "(\<forall>i < (3::nat). P i) \<longleftrightarrow> P 0 \<and> P 1 \<and> P 2"
  by (auto simp: numeral_3_eq_3 numeral_2_eq_2 less_Suc_eq)

lemma new_cache:
  "\<exists>kc. kv_cache_init False True 4 2 1 0 LLAMA_SWA_TYPE_NONE 1 1 False = Some kc \<and> kv_reach 4 kc \<and> kc_inv kc 4 \<and>
     kv_view kc = [replicate 4 empty_cell] \<and> kc_n_stream kc = 1 \<and> kc_n_pos_per_embd kc = 1 \<and>
     kc_swa_type kc = LLAMA_SWA_TYPE_NONE \<and> kc_seq_to_stream kc = replicate LLAMA_MAX_SEQ 0"
proof -
  have "(1::nat) \<noteq> 0" "4 mod 1 = (0::nat)" "True \<or> 0 < (2::nat) \<and> 2 \<le> LLAMA_MAX_SEQ" by simp_all
  from kv_cache_init_ok[OF this, of False 0 LLAMA_SWA_TYPE_NONE 1 1 False]
  obtain kc where kc: "kv_cache_init False True 4 2 1 0 LLAMA_SWA_TYPE_NONE 1 1 False = Some kc" "kc_inv kc 4"
    "kv_view kc = [replicate 4 empty_cell]" by auto
  moreover have "kc_n_stream kc = 1" "kc_n_pos_per_embd kc = 1" "kc_swa_type kc = LLAMA_SWA_TYPE_NONE"
    "kc_seq_to_stream kc = replicate LLAMA_MAX_SEQ 0"
    using kc(1) by (auto simp: kv_cache_init_def)
  moreover have "kv_reach 4 kc" using kc(1) by (rule kv_reach.new) simp
  ultimately show ?thesis by blast
qed

lemma sample_ub_ok:
  assumes "kc_n_stream kc = 1" "kc_seq_to_stream kc = replicate LLAMA_MAX_SEQ 0"
  shows "ub_ok kc sample_ubatch"
proof -
  have s: "k < LLAMA_MAX_SEQ \<Longrightarrow> kc_seq_to_stream kc ! k = 0" "length (kc_seq_to_stream kc) = LLAMA_MAX_SEQ" for k
    by (simp_all add: assms(2))
  have l: "0 < LLAMA_MAX_SEQ" "1 < LLAMA_MAX_SEQ" by (simp_all add: LLAMA_MAX_SEQ_def)
  show ?thesis
    using assms(1) s l
    by (simp add: ub_ok_def token_ok_def ub_ns_def ub_nt_def ub_strm_def ub_ids_def sample_ubatch_def is_pos_2d_def
        INT32_MAX_def less_3)
qed

lemma sample_cache:
  "\<exists>kc. kv_reach 4 kc \<and> kc_inv kc 4 \<and> kv_view kc = sample_view \<and> kc_n_stream kc = 1 \<and> kc_n_pos_per_embd kc = 1 \<and>
     kc_swa_type kc = LLAMA_SWA_TYPE_NONE \<and> kc_seq_to_stream kc = replicate LLAMA_MAX_SEQ 0"
proof -
  obtain kc where kc: "kv_reach 4 kc" "kc_inv kc 4" "kv_view kc = [replicate 4 empty_cell]" "kc_n_stream kc = 1"
    "kc_n_pos_per_embd kc = 1" "kc_swa_type kc = LLAMA_SWA_TYPE_NONE" "kc_seq_to_stream kc = replicate LLAMA_MAX_SEQ 0"
    using new_cache by blast
  define si where "si = \<lparr>si_s0 = 0, si_s1 = 0, si_strm = [0], si_idxs = [[0, 1, 2]]\<rparr>"
  have ub: "ub_ok kc sample_ubatch" by (rule sample_ub_ok[OF kc(4,7)])
  have s0: "kc_seq_to_stream kc ! 0 = 0" by (simp add: kc(7) LLAMA_MAX_SEQ_def)
  have ns: "ub_ns kc sample_ubatch = 1" "ub_nt kc sample_ubatch = 3" "ub_strm kc sample_ubatch 0 = 0"
    by (simp_all add: ub_ns_def ub_nt_def ub_strm_def sample_ubatch_def kc(4) s0)
  have slot: "slot_for kc 4 sample_ubatch si"
    by (auto simp: slot_for_def ns si_def kc(3) usable_def empty_cell_def less_Suc_eq numeral_nat)
  have room: "\<forall>xs \<in> set (kv_view kc). room xs" by (simp add: kc(3) room_def empty_cell_def INT32_MAX_def)
  obtain kc' where kc': "apply_ubatch si sample_ubatch kc = Some kc'" "kc_inv kc' 4" "same_config kc kc'"
     "kv_view kc' = map (map (purged LLAMA_MAX_SEQ (overwritten kc sample_ubatch si 1))) (write_streams kc sample_ubatch si 1)"
    using apply_ubatch_ok[OF kc(2) ub slot room] by (auto simp: ns)
  have ow: "overwritten kc sample_ubatch si 1 = (\<lambda>_. -1)"
    by (simp add: ns evicted_def si_def kc(3) bump_def empty_cell_def fun_eq_iff)
  have w: "written sample_ubatch 0 x = (0, if fst x = -1 then fst (snd x) else ext_zero, 0, {0})"
    "written sample_ubatch 1 x = (1, if fst x = -1 then fst (snd x) else ext_zero, 0, {0})"
    "written sample_ubatch 2 x = (0, if fst x = -1 then fst (snd x) else ext_zero, 0, {1})" for x
    by (simp_all add: written_def sample_ubatch_def is_pos_2d_def ub_ids_def)
  have "replicate 4 empty_cell = [empty_cell, empty_cell, empty_cell, empty_cell]" by (simp add: numeral_nat)
  then have "write_streams kc sample_ubatch si 1 = sample_view"
    by (simp add: ns si_def kc(3) w[simplified] sample_view_def empty_cell_def Let_def flip: numeral_2_eq_2)
  moreover have "purged LLAMA_MAX_SEQ (\<lambda>_. -1) x = x" if "x \<in> set (sample_view ! 0)" for x
    using that by (auto simp: sample_view_def purged_def empty_cell_def)
  ultimately have "kv_view kc' = sample_view"
    unfolding kc'(4) ow by (simp add: sample_view_def)
  moreover have "kc_n_stream kc' = 1" "kc_n_pos_per_embd kc' = 1" "kc_swa_type kc' = LLAMA_SWA_TYPE_NONE"
    "kc_seq_to_stream kc' = replicate LLAMA_MAX_SEQ 0"
    using kc'(3) kc(4-7) by (auto simp: same_config_def)
  moreover have "kv_reach 4 kc'" by (rule kv_reach.place[OF kc(1) room ub slot kc'(1)])
  ultimately show ?thesis using kc'(2) by blast
qed

section \<open>The invariant\<close>

text \<open>
  C1: every state the operations lead to satisfies the cache invariant: in each stream the set of used
  cells and the position counts of every sequence agree with the cells, a cell without a position has no
  sequence and no shift, a cell with one has a sequence, and a sequence only has cells in its own stream.
\<close>

theorem cache_invariant: "kv_reach n kc \<Longrightarrow> kc_inv kc n"
  by (rule reach_inv)

theorem cache_invariant_witness: "\<exists>kc. kv_view kc = sample_view \<and> kc_inv kc 4"
  using sample_cache cache_invariant by blast

text \<open>
  C8: the smallest and the largest position of a sequence, looked up in the position counts, are the
  minimum and the maximum over the cells that hold the sequence, and -1 if there is none.
\<close>

theorem seq_pos_min_max:
  assumes "kv_reach n kc" "q < length (kc_seq_to_stream kc)"
  shows "kv_seq_pos_min kc (int q) = Some (if seq_positions q (kv_view kc ! (kc_seq_to_stream kc ! q)) = {} then -1
      else Min (seq_positions q (kv_view kc ! (kc_seq_to_stream kc ! q)))) \<and>
    kv_seq_pos_max kc (int q) = Some (if seq_positions q (kv_view kc ! (kc_seq_to_stream kc ! q)) = {} then -1
      else Max (seq_positions q (kv_view kc ! (kc_seq_to_stream kc ! q))))"
  using kv_seq_pos_min_max_ok[OF reach_inv[OF assms(1)] assms(2)] by simp

lemma seq0_stream: "kc_seq_to_stream kc = replicate LLAMA_MAX_SEQ 0 \<Longrightarrow>
  length (kc_seq_to_stream kc) = 256 \<and> kc_seq_to_stream kc ! 0 = 0 \<and> kc_seq_to_stream kc ! 1 = 0"
  by (simp add: LLAMA_MAX_SEQ_def)

lemma sample_cache_0:
  "\<exists>kc. kv_reach 4 kc \<and> kc_inv kc 4 \<and> kv_view kc = sample_view \<and> kc_n_stream kc = 1 \<and> kc_n_pos_per_embd kc = 1 \<and>
     kc_swa_type kc = LLAMA_SWA_TYPE_NONE \<and> length (kc_seq_to_stream kc) = 256 \<and>
     kc_seq_to_stream kc ! 0 = 0 \<and> kc_seq_to_stream kc ! 1 = 0"
  using sample_cache seq0_stream by blast

theorem seq_pos_min_max_witness:
  "\<exists>kc. kv_view kc = sample_view \<and> kv_seq_pos_min kc 0 = Some 0 \<and> kv_seq_pos_max kc 0 = Some 1"
proof -
  obtain kc where kc: "kv_reach 4 kc" "kv_view kc = sample_view" "length (kc_seq_to_stream kc) = 256" "kc_seq_to_stream kc ! 0 = 0"
    using sample_cache_0 by blast
  have "seq_positions 0 (sample_view ! 0) = fst ` set (filter (has_seq 0) (sample_view ! 0))" by (simp add: seq_positions_def)
  also have "\<dots> = {0, 1}" by (simp add: sample_view_def has_seq_def empty_cell_def)
  finally have "seq_positions 0 (sample_view ! 0) = {0, 1}" .
  with seq_pos_min_max[OF kc(1), of 0] kc show ?thesis by auto
qed

section \<open>Operations on a sequence\<close>

text \<open>
  C5: \<open>seq_rm\<close> takes the sequence from exactly the cells of its stream whose position lies in the
  range, empties those that belong to no other sequence, and leaves the rest of the cache alone.
\<close>

theorem seq_rm_refines:
  assumes "kv_reach n kc" "q < length (kc_seq_to_stream kc)"
  shows "evolves kc n
     (on_stream (kc_seq_to_stream kc ! q)
        (\<lambda>x. if in_range (lower p0) (upper p1) x \<and> has_seq q x then drop_seq q x else x) (kv_view kc))
     (kv_seq_rm (int q) p0 p1 kc)"
  by (rule kv_seq_rm_ok[OF reach_inv[OF assms(1)] assms(2)])

theorem seq_rm_refines_witness:
  "\<exists>kc. kv_view kc = sample_view \<and>
     evolves kc 4 [[(0, ext_zero, 0, {0}), empty_cell, (0, ext_zero, 0, {1}), empty_cell]] (kv_seq_rm 0 1 (-1) kc)"
proof -
  obtain kc where kc: "kv_reach 4 kc" "kv_view kc = sample_view" "length (kc_seq_to_stream kc) = 256" "kc_seq_to_stream kc ! 0 = 0"
    using sample_cache_0 by blast
  have "on_stream 0 (\<lambda>x. if in_range (lower 1) (upper (-1)) x \<and> has_seq 0 x then drop_seq 0 x else x) sample_view =
      [[(0, ext_zero, 0, {0}), empty_cell, (0, ext_zero, 0, {1}), empty_cell]]"
    by (simp add: on_stream_def sample_view_def in_range_def lower_def upper_def has_seq_def drop_seq_def empty_cell_def INT32_MAX_def)
  with seq_rm_refines[OF kc(1), of 0 1 "-1"] kc show ?thesis by auto
qed

text \<open>With the sequence -1, \<open>seq_rm\<close> empties every cell of every stream whose position lies in the range.\<close>

theorem seq_rm_all_refines:
  assumes "kv_reach n kc"
  shows "evolves kc n (map (map (\<lambda>x. if in_range (lower p0) (upper p1) x then empty_cell else x)) (kv_view kc))
     (kv_seq_rm (-1) p0 p1 kc)"
  by (rule kv_seq_rm_all_ok[OF reach_inv[OF assms]])

theorem seq_rm_all_refines_witness:
  "\<exists>kc. kv_view kc = sample_view \<and> evolves kc 4 [[empty_cell, (1, ext_zero, 0, {0}), empty_cell, empty_cell]] (kv_seq_rm (-1) 0 1 kc)"
proof -
  obtain kc where kc: "kv_reach 4 kc" "kv_view kc = sample_view" using sample_cache_0 by blast
  have "map (map (\<lambda>x. if in_range (lower 0) (upper 1) x then empty_cell else x)) sample_view =
      [[empty_cell, (1, ext_zero, 0, {0}), empty_cell, empty_cell]]"
    by (simp add: sample_view_def in_range_def lower_def upper_def empty_cell_def)
  with seq_rm_all_refines[OF kc(1), of 0 1] kc show ?thesis by auto
qed

text \<open>\<open>seq_keep\<close> leaves in its stream just the cells of the sequence, each with that sequence alone.\<close>

theorem seq_keep_refines:
  assumes "kv_reach n kc" "q < length (kc_seq_to_stream kc)"
  shows "evolves kc n (on_stream (kc_seq_to_stream kc ! q) (keep_seq q) (kv_view kc)) (kv_seq_keep (int q) kc)"
  by (rule kv_seq_keep_ok[OF reach_inv[OF assms(1)] assms(2)])

theorem seq_keep_refines_witness:
  "\<exists>kc. kv_view kc = sample_view \<and>
     evolves kc 4 [[empty_cell, empty_cell, (0, ext_zero, 0, {1}), empty_cell]] (kv_seq_keep 1 kc)"
proof -
  obtain kc where kc: "kv_reach 4 kc" "kv_view kc = sample_view" "length (kc_seq_to_stream kc) = 256" "kc_seq_to_stream kc ! 1 = 0"
    using sample_cache_0 by blast
  have "on_stream 0 (keep_seq 1) sample_view = [[empty_cell, empty_cell, (0, ext_zero, 0, {1}), empty_cell]]"
    by (simp add: on_stream_def sample_view_def keep_seq_def empty_cell_def)
  with seq_keep_refines[OF kc(1), of 1] kc show ?thesis by auto
qed

text \<open>
  C6: \<open>seq_add\<close> moves the sequence's positions in the range by the shift and records the shift in the
  cell; a position that would become negative empties its cell. (The M-RoPE coordinates of an emptied
  cell stay, in contrast to the other ways of emptying one.)
\<close>

theorem seq_add_refines:
  assumes "kv_reach n kc" "q < length (kc_seq_to_stream kc)" "kc_n_pos_per_embd kc = 1" "d \<noteq> 0" "lower p0 \<noteq> upper p1"
    and "int_safe (\<lambda>x. in_i32 (fst x + d) \<and> in_i32 (fst (snd (snd x)) + d)) kc q p0 p1"
  shows "evolves kc n
     (on_stream (kc_seq_to_stream kc ! q)
        (\<lambda>x. if in_range (lower p0) (upper p1) x \<and> has_seq q x then shift_cell d x else x) (kv_view kc))
     (kv_seq_add (int q) p0 p1 d kc)"
  using kv_seq_add_ok[OF reach_inv[OF assms(1)] assms(2,3) _ assms(4,5)] assms(6) by (simp add: int_safe_def)

theorem seq_add_refines_witness:
  "\<exists>kc. kv_view kc = sample_view \<and>
     evolves kc 4 [[empty_cell, (0, ext_zero, -1, {0}), (0, ext_zero, 0, {1}), empty_cell]] (kv_seq_add 0 (-1) (-1) (-1) kc)"
proof -
  obtain kc where kc: "kv_reach 4 kc" "kv_view kc = sample_view" "length (kc_seq_to_stream kc) = 256" "kc_seq_to_stream kc ! 0 = 0"
    "kc_n_pos_per_embd kc = 1"
    using sample_cache_0 by blast
  have safe: "int_safe (\<lambda>x. in_i32 (fst x + (-1)) \<and> in_i32 (fst (snd (snd x)) + (-1))) kc 0 (-1) (-1)"
    by (simp add: int_safe_def kc sample_view_def in_i32_def empty_cell_def)
  have "on_stream 0 (\<lambda>x. if in_range (lower (-1)) (upper (-1)) x \<and> has_seq 0 x then shift_cell (-1) x else x) sample_view =
      [[empty_cell, (0, ext_zero, -1, {0}), (0, ext_zero, 0, {1}), empty_cell]]"
    by (simp add: on_stream_def sample_view_def in_range_def lower_def upper_def has_seq_def shift_cell_def empty_cell_def INT32_MAX_def)
  with seq_add_refines[OF kc(1) _ kc(5) _ _ safe] kc show ?thesis
    by (auto simp: lower_def upper_def INT32_MAX_def)
qed

text \<open>
  \<open>seq_div\<close> divides the sequence's positions in the range; the recorded shift grows by what the
  position lost.
\<close>

theorem seq_div_refines:
  assumes "kv_reach n kc" "q < length (kc_seq_to_stream kc)" "kc_n_pos_per_embd kc = 1" "1 < d" "lower p0 \<noteq> upper p1"
    and "int_safe (\<lambda>x. in_i32 (fst (snd (snd x)) + (fst x - fst x div d))) kc q p0 p1"
  shows "evolves kc n
     (on_stream (kc_seq_to_stream kc ! q)
        (\<lambda>x. if in_range (lower p0) (upper p1) x \<and> has_seq q x then div_cell d x else x) (kv_view kc))
     (kv_seq_div (int q) p0 p1 d kc)"
  using kv_seq_div_ok[OF reach_inv[OF assms(1)] assms(2,3) _ assms(4,5)] assms(6) by (simp add: int_safe_def)

theorem seq_div_refines_witness:
  "\<exists>kc. kv_view kc = sample_view \<and>
     evolves kc 4 [[(0, ext_zero, 0, {0}), (0, ext_zero, 1, {0}), (0, ext_zero, 0, {1}), empty_cell]] (kv_seq_div 0 (-1) (-1) 2 kc)"
proof -
  obtain kc where kc: "kv_reach 4 kc" "kv_view kc = sample_view" "length (kc_seq_to_stream kc) = 256" "kc_seq_to_stream kc ! 0 = 0"
    "kc_n_pos_per_embd kc = 1"
    using sample_cache_0 by blast
  have safe: "int_safe (\<lambda>x. in_i32 (fst (snd (snd x)) + (fst x - fst x div 2))) kc 0 (-1) (-1)"
    by (simp add: int_safe_def kc sample_view_def in_i32_def empty_cell_def)
  have "on_stream 0 (\<lambda>x. if in_range (lower (-1)) (upper (-1)) x \<and> has_seq 0 x then div_cell 2 x else x) sample_view =
      [[(0, ext_zero, 0, {0}), (0, ext_zero, 1, {0}), (0, ext_zero, 0, {1}), empty_cell]]"
    by (simp add: on_stream_def sample_view_def in_range_def lower_def upper_def has_seq_def div_cell_def empty_cell_def INT32_MAX_def)
  with seq_div_refines[OF kc(1) _ kc(5) _ _ safe] kc show ?thesis
    by (auto simp: lower_def upper_def INT32_MAX_def)
qed

text \<open>
  C7: within a stream \<open>seq_cp\<close> adds the target to the cells of the source whose position lies in the
  range, if the target is in none of these cells; if it is in one of them, an assertion of the cells fails
  (\<open>llama.h\<close> does not ask for the target to be absent).
\<close>

theorem seq_cp_refines:
  assumes "kv_reach n kc" "q < length (kc_seq_to_stream kc)" "r < length (kc_seq_to_stream kc)"
    and "kc_seq_to_stream kc ! q = kc_seq_to_stream kc ! r" "q \<noteq> r"
  shows "if \<exists>x \<in> set (kv_view kc ! (kc_seq_to_stream kc ! q)). in_range (lower p0) (upper p1) x \<and> has_seq q x \<and> has_seq r x
     then kv_seq_cp (int q) (int r) p0 p1 kc = None
     else evolves kc n
       (on_stream (kc_seq_to_stream kc ! q)
          (\<lambda>x. if in_range (lower p0) (upper p1) x \<and> has_seq q x then join_seq r x else x) (kv_view kc))
       (kv_seq_cp (int q) (int r) p0 p1 kc)"
proof (cases "\<exists>x \<in> set (kv_view kc ! (kc_seq_to_stream kc ! q)). in_range (lower p0) (upper p1) x \<and> has_seq q x \<and> has_seq r x")
  case True
  then show ?thesis using kv_seq_cp_fails[OF reach_inv[OF assms(1)] assms(2-5)] by auto
next
  case False
  then show ?thesis using kv_seq_cp_ok[OF reach_inv[OF assms(1)] assms(2-5)] by auto
qed

theorem seq_cp_refines_witness:
  "\<exists>kc. kv_view kc = sample_view \<and>
     evolves kc 4 [[(0, ext_zero, 0, {0, 1}), (1, ext_zero, 0, {0, 1}), (0, ext_zero, 0, {1}), empty_cell]] (kv_seq_cp 0 1 0 (-1) kc) \<and>
     (\<exists>kc'. kv_seq_cp 0 1 0 (-1) kc = Some kc' \<and> kv_seq_cp 0 1 0 (-1) kc' = None)"
proof -
  obtain kc where kc: "kv_reach 4 kc" "kv_view kc = sample_view" "length (kc_seq_to_stream kc) = 256" "kc_seq_to_stream kc ! 0 = 0"
    "kc_seq_to_stream kc ! 1 = 0"
    using sample_cache_0 by blast
  let ?view' = "[[(0, ext_zero, 0, {0, 1}), (1, ext_zero, 0, {0, 1}), (0, ext_zero, 0, {1}), empty_cell]]"
  have "on_stream 0 (\<lambda>x. if in_range (lower 0) (upper (-1)) x \<and> has_seq 0 x then join_seq 1 x else x) sample_view = ?view'"
    by (simp add: on_stream_def sample_view_def in_range_def lower_def upper_def has_seq_def join_seq_def empty_cell_def INT32_MAX_def insert_commute)
  moreover have no: "\<not> (\<exists>x \<in> set (kv_view kc ! (kc_seq_to_stream kc ! 0)). in_range (lower 0) (upper (-1)) x \<and> has_seq 0 x \<and> has_seq 1 x)"
    by (simp add: kc sample_view_def has_seq_def empty_cell_def)
  ultimately have e: "evolves kc 4 ?view' (kv_seq_cp 0 1 0 (-1) kc)"
    using seq_cp_refines[OF kc(1), of 0 1 0 "-1", unfolded if_not_P[OF no]] kc(2-) by simp
  then obtain kc' where kc': "kv_seq_cp 0 1 0 (-1) kc = Some kc'" "kv_view kc' = ?view'" "same_config kc kc'"
    unfolding evolves_def by blast
  have "kv_reach 4 kc'" by (rule kv_reach.cp[OF kc(1) _ kc'(1)]) (use kc in simp)
  moreover have st: "kc_seq_to_stream kc' = kc_seq_to_stream kc" using kc'(3) by (auto simp: same_config_def)
  have has: "\<exists>x \<in> set (kv_view kc' ! (kc_seq_to_stream kc' ! 0)). in_range (lower 0) (upper (-1)) x \<and> has_seq 0 x \<and> has_seq 1 x"
    by (simp add: st kc(4) kc'(2) has_seq_def in_range_def lower_def upper_def INT32_MAX_def)
  ultimately have "kv_seq_cp 0 1 0 (-1) kc' = None"
    using seq_cp_refines[of 4 kc' 0 1 0 "-1", unfolded if_P[OF has]] kc(3-5) by (simp add: st)
  with kc(2) e kc'(1) show ?thesis by blast
qed

text \<open>
  Between streams \<open>seq_cp\<close> of a full range replaces the target stream by the cells of the source
  sequence, with the same positions and shifts and the target as their only sequence, and enqueues the
  copy of the buffers; no position minus its shift may be negative.
\<close>

theorem seq_cp_streams:
  assumes "kv_reach n kc" "q < length (kc_seq_to_stream kc)" "r < length (kc_seq_to_stream kc)"
    and "kc_seq_to_stream kc ! q \<noteq> kc_seq_to_stream kc ! r"
    and "p0 \<le> 0 \<or> int n \<le> p0 + 1" "p1 \<le> 0 \<or> int n \<le> p1 + 1" "p0 \<noteq> INT32_MAX" "p1 \<noteq> INT32_MAX"
    and "\<forall>(p, e, sh, S) \<in> set (kv_view kc ! (kc_seq_to_stream kc ! q)). q \<in> S \<longrightarrow> 0 \<le> p - sh \<and> in_i32 (p - sh)"
  shows "\<exists>kc'. kv_seq_cp (int q) (int r) p0 p1 kc = Some kc' \<and> kc_inv kc' n \<and>
     kv_view kc' = (kv_view kc)[kc_seq_to_stream kc ! r :=
       map (moved_cell q r) (kv_view kc ! (kc_seq_to_stream kc ! q))] \<and>
     kc_ssrc kc' = kc_ssrc kc @ [kc_seq_to_stream kc ! q] \<and> kc_sdst kc' = kc_sdst kc @ [kc_seq_to_stream kc ! r]"
  by (rule kv_seq_cp_stream_ok[OF reach_inv[OF assms(1)] assms(2-9)])

definition token_ubatch :: llama_ubatch where
  "token_ubatch = \<lparr>ub_equal_seqs = True, ub_n_tokens = 1, ub_n_seq_tokens = 1, ub_n_seqs = 1, ub_n_seqs_unq = 1,
     ub_n_pos = 1, ub_token = Some [7], ub_embd = None, ub_pos = [5], ub_n_seq_id = [1],
     ub_seq_id = [[0]], ub_seq_id_unq = [0], ub_seq_idx = [], ub_output = [True]\<rparr>"

lemma two_streams:
  "\<exists>kc. kv_reach 2 kc \<and> kv_view kc = [[(5, ext_zero, 0, {0}), empty_cell], [empty_cell, empty_cell]] \<and>
     kc_n_stream kc = 2 \<and> kc_seq_to_stream kc = [0, 1]"
proof -
  have "(1::nat) \<noteq> 0" "2 mod 1 = (0::nat)" "False \<or> 0 < (2::nat) \<and> 2 \<le> LLAMA_MAX_SEQ" by (simp_all add: LLAMA_MAX_SEQ_def)
  from kv_cache_init_ok[OF this, of False 0 LLAMA_SWA_TYPE_NONE 1 1 False]
  obtain kc where kc: "kv_cache_init False False 2 2 1 0 LLAMA_SWA_TYPE_NONE 1 1 False = Some kc" "kc_inv kc 2"
    "kv_view kc = [[empty_cell, empty_cell], [empty_cell, empty_cell]]" by (auto simp: numeral_2_eq_2)
  have c: "kc_n_stream kc = 2" "kc_seq_to_stream kc = [0, 1]" using kc(1) by (auto simp: kv_cache_init_def upt_rec)
  have r: "kv_reach 2 kc" by (rule kv_reach.new[OF kc(1)]) (simp add: LLAMA_MAX_SEQ_def)
  define si where "si = \<lparr>si_s0 = 0, si_s1 = 0, si_strm = [0], si_idxs = [[0]]\<rparr>"
  have ns: "ub_ns kc token_ubatch = 1" "ub_nt kc token_ubatch = 1" "ub_strm kc token_ubatch 0 = 0"
    by (simp_all add: ub_ns_def ub_nt_def ub_strm_def token_ubatch_def c)
  have ub: "ub_ok kc token_ubatch"
    by (simp add: ub_ok_def token_ok_def ns ub_ids_def c) (simp add: token_ubatch_def is_pos_2d_def INT32_MAX_def c)
  have slot: "slot_for kc 2 token_ubatch si" by (simp add: slot_for_def ns si_def kc(3) usable_def empty_cell_def)
  have room: "\<forall>xs \<in> set (kv_view kc). room xs" by (simp add: kc(3) room_def empty_cell_def INT32_MAX_def)
  obtain kc' where kc': "apply_ubatch si token_ubatch kc = Some kc'" "same_config kc kc'"
     "kv_view kc' = map (map (purged LLAMA_MAX_SEQ (overwritten kc token_ubatch si 1))) (write_streams kc token_ubatch si 1)"
    using apply_ubatch_ok[OF kc(2) ub slot room] by (auto simp: ns)
  have ow: "overwritten kc token_ubatch si 1 = (\<lambda>_. -1)"
    by (simp add: ns evicted_def si_def kc(3) bump_def empty_cell_def fun_eq_iff)
  have w: "written token_ubatch 0 x = (5, if fst x = -1 then fst (snd x) else ext_zero, 0, {0})" for x
    by (simp add: written_def token_ubatch_def is_pos_2d_def ub_ids_def)
  have "write_streams kc token_ubatch si 1 = [[(5, ext_zero, 0, {0}), empty_cell], [empty_cell, empty_cell]]"
    by (simp add: ns si_def kc(3) w empty_cell_def Let_def)
  moreover have "{q. q = 0 \<and> (q < LLAMA_MAX_SEQ \<longrightarrow> \<not> (5::int) \<le> -1)} = {0}" by auto
  ultimately have "kv_view kc' = [[(5, ext_zero, 0, {0}), empty_cell], [empty_cell, empty_cell]]"
    unfolding kc'(3) ow by (simp add: purged_def empty_cell_def)
  moreover have "kc_n_stream kc' = 2" "kc_seq_to_stream kc' = [0, 1]" using kc'(2) c by (auto simp: same_config_def)
  moreover have "kv_reach 2 kc'" by (rule kv_reach.place[OF r room ub slot kc'(1)])
  ultimately show ?thesis by blast
qed

theorem seq_cp_streams_witness:
  "\<exists>kc kc'. kv_seq_cp 0 1 (-1) (-1) kc = Some kc' \<and> kc_inv kc' 2 \<and>
     kv_view kc' = [[(5, ext_zero, 0, {0}), empty_cell], [(5, ext_zero, 0, {1}), empty_cell]]"
proof -
  obtain kc where kc: "kv_reach 2 kc" "kv_view kc = [[(5, ext_zero, 0, {0}), empty_cell], [empty_cell, empty_cell]]"
    "kc_seq_to_stream kc = [0, 1]" using two_streams by blast
  have o: "\<forall>(p, e, sh, S) \<in> set (kv_view kc ! (kc_seq_to_stream kc ! 0)). 0 \<in> S \<longrightarrow> 0 \<le> p - sh \<and> in_i32 (p - sh)"
    by (simp add: kc empty_cell_def in_i32_def)
  have "map (moved_cell 0 1) (kv_view kc ! 0) = [(5, ext_zero, 0, {1}), empty_cell]"
    by (simp add: kc moved_cell_def empty_cell_def)
  then show ?thesis using seq_cp_streams[OF kc(1) _ _ _ _ _ _ _ o, of 1 "-1" "-1"] kc(2,3) by (auto simp: INT32_MAX_def)
qed

section \<open>Placing micro-batches\<close>

text \<open>
  C2: \<open>find_slot\<close> finds, for every stream of the micro-batch, as many different usable cells as it has
  tokens there (empty ones, or ones of a single sequence outside of its attention window), and finds
  nothing only if one of the streams has too few of them; the search ends.
\<close>

theorem find_slot_correct:
  assumes "kv_reach n kc" "0 < n" "window_ok kc" "\<forall>xs \<in> set (kv_view kc). room xs" "ub_ok kc ub"
  shows "\<exists>si. find_slot kc ub False = Some si \<and>
     (if \<forall>s < ub_ns kc ub. enough_cells kc n ub s then slot_for kc n ub si else si = slot_none)"
  by (rule find_slot_ok[OF reach_inv[OF assms(1)] assms(2-5)])

lemma new_cache_ready:
  assumes "kc_swa_type kc = LLAMA_SWA_TYPE_NONE" "kv_view kc = [replicate 4 empty_cell]"
  shows "window_ok kc" "\<forall>xs \<in> set (kv_view kc). room xs"
  using assms by (simp_all add: window_ok_def room_def empty_cell_def INT32_MAX_def)

theorem find_slot_correct_witness:
  "\<exists>kc si. kv_view kc = [replicate 4 empty_cell] \<and> find_slot kc sample_ubatch False = Some si \<and> slot_for kc 4 sample_ubatch si"
proof -
  obtain kc where kc: "kv_reach 4 kc" "kv_view kc = [replicate 4 empty_cell]" "kc_n_stream kc = 1"
    "kc_swa_type kc = LLAMA_SWA_TYPE_NONE" "kc_seq_to_stream kc = replicate LLAMA_MAX_SEQ 0"
    using new_cache by blast
  have "ub_ns kc sample_ubatch = 1" "ub_nt kc sample_ubatch = 3" "ub_strm kc sample_ubatch 0 = 0"
    by (simp_all add: ub_ns_def ub_nt_def ub_strm_def sample_ubatch_def kc(3,5) LLAMA_MAX_SEQ_def)
  moreover have "{i. i < 4 \<and> usable kc (replicate 4 empty_cell) i} = {..<4}"
    by (auto simp: usable_def empty_cell_def)
  ultimately have "\<forall>s < ub_ns kc sample_ubatch. enough_cells kc 4 sample_ubatch s" by (simp add: enough_cells_def kc(2))
  with find_slot_correct[OF kc(1) _ new_cache_ready[OF kc(4,2)] sample_ub_ok[OF kc(3,5)]] kc(2) show ?thesis by auto
qed

text \<open>
  C3: applying a micro-batch to a slot writes every token into its cell with its position and exactly
  its sequences, purges from each sequence that lost a cell all positions up to the largest one lost, and
  moves the head of each stream behind its last cell.
\<close>

theorem apply_ubatch_refines:
  assumes "kv_reach n kc" "ub_ok kc ub" "slot_for kc n ub si" "\<forall>xs \<in> set (kv_view kc). room xs"
  shows "\<exists>kc'. apply_ubatch si ub kc = Some kc' \<and> kc_inv kc' n \<and> same_config kc kc' \<and>
     kv_view kc' = map (map (purged LLAMA_MAX_SEQ (overwritten kc ub si (ub_ns kc ub))))
       (write_streams kc ub si (ub_ns kc ub)) \<and>
     (\<forall>s < ub_ns kc ub. kc_heads kc' ! ub_strm kc ub s = last (si_idxs si ! s) + 1)"
  by (rule apply_ubatch_ok[OF reach_inv[OF assms(1)] assms(2-4)])

theorem apply_ubatch_refines_witness:
  "\<exists>kc kc'. kv_view kc = [replicate 4 empty_cell] \<and>
     apply_ubatch \<lparr>si_s0 = 0, si_s1 = 0, si_strm = [0], si_idxs = [[3, 1, 2]]\<rparr> sample_ubatch kc = Some kc' \<and> kc_inv kc' 4"
proof -
  obtain kc where kc: "kv_reach 4 kc" "kv_view kc = [replicate 4 empty_cell]" "kc_n_stream kc = 1"
    "kc_swa_type kc = LLAMA_SWA_TYPE_NONE" "kc_seq_to_stream kc = replicate LLAMA_MAX_SEQ 0"
    using new_cache by blast
  have "ub_ns kc sample_ubatch = 1" "ub_nt kc sample_ubatch = 3" "ub_strm kc sample_ubatch 0 = 0"
    by (simp_all add: ub_ns_def ub_nt_def ub_strm_def sample_ubatch_def kc(3,5) LLAMA_MAX_SEQ_def)
  then have "slot_for kc 4 sample_ubatch \<lparr>si_s0 = 0, si_s1 = 0, si_strm = [0], si_idxs = [[3, 1, 2]]\<rparr>"
    by (auto simp: slot_for_def kc(2) usable_def empty_cell_def less_Suc_eq numeral_nat)
  from apply_ubatch_refines[OF kc(1) sample_ub_ok[OF kc(3,5)] this new_cache_ready(2)[OF kc(4,2)]] kc(2)
  show ?thesis by blast
qed

text \<open>
  C4: for a cache without a sliding window and a nonempty list of micro-batches \<open>prepare\<close> is a dry run: it returns
  with all cells as they were (and with one stream, the heads too). If it returns slots, there is one for each
  micro-batch and they can be applied one after the other; with one stream it returns them exactly if there is
  a free cell for every token. (With a window the positions purged in the dry run are not restored.)
\<close>

theorem prepare_dry_run:
  assumes "ready kc n" "kc_swa_type kc = LLAMA_SWA_TYPE_NONE" "\<forall>ub \<in> set ubs. ub_ok kc ub" "ubs \<noteq> []"
  shows "\<exists>sis kc'. prepare ubs kc = Some (sis, kc') \<and> same_config kc kc' \<and> kc_cells kc' = kc_cells kc \<and>
     (kc_n_stream kc = 1 \<longrightarrow> kc' = kc) \<and>
     (sis \<noteq> [] \<longrightarrow> length sis = length ubs \<and> (\<exists>k. apply_slots (zip sis ubs) kc = Some k \<and> ready k n)) \<and>
     (kc_n_stream kc = 1 \<longrightarrow> (sis \<noteq> [] \<longleftrightarrow> sum_list (map ub_n_tokens ubs) \<le> free_cells kc))"
proof -
  obtain sis kc' where p: "prepare ubs kc = Some (sis, kc')" "same_config kc kc'" "kc_cells kc' = kc_cells kc" "kc_n_stream kc = 1 \<longrightarrow> kc' = kc"
    "sis \<noteq> [] \<longrightarrow> length sis = length ubs \<and> (\<exists>k. apply_slots (zip sis ubs) kc = Some k \<and> ready k n)"
    using prepare_ok[OF assms] by blast
  moreover have "kc_n_stream kc = 1 \<longrightarrow> (sis \<noteq> [] \<longleftrightarrow> sum_list (map ub_n_tokens ubs) \<le> free_cells kc)"
    using prepare_fits[OF assms(1,2) _ assms(3,4) p(1)] by blast
  ultimately show ?thesis by blast
qed

theorem prepare_dry_run_witness:
  "\<exists>kc sis. kv_view kc = [replicate 4 empty_cell] \<and> prepare [sample_ubatch, sample_ubatch] kc = Some (sis, kc)"
proof -
  obtain kc where kc: "kc_inv kc 4" "kv_view kc = [replicate 4 empty_cell]" "kc_n_stream kc = 1"
    "kc_swa_type kc = LLAMA_SWA_TYPE_NONE" "kc_seq_to_stream kc = replicate LLAMA_MAX_SEQ 0"
    using new_cache by blast
  have "ready kc 4" using kc(1) new_cache_ready[OF kc(4,2)] by (simp add: ready_def)
  from prepare_dry_run[OF this kc(4), of "[sample_ubatch, sample_ubatch]"] sample_ub_ok[OF kc(3,5)] kc(2,3)
  show ?thesis by auto
qed

end
