(* ===== verification/Batch.thy ===== *)
theory Batch
  imports Ubatch
begin

text \<open>
  The batch allocator \<open>llama_batch_allocr\<close> of \<open>src/llama-batch.cpp\<close>: validation and completion of an
  input batch, and its three ways of cutting it into micro-batches. An array of the input that may be
  null is an option; reading outside of an array, and a failed assertion, are \<open>None\<close>.
\<close>

section \<open>State\<close>

record llama_batch =
  lb_n_tokens :: nat
  lb_token :: "llama_token list option"
  lb_embd :: "float32 list option"
  lb_pos :: "llama_pos list option"
  lb_n_seq_id :: "nat list option"
  lb_seq_id :: "llama_seq_id list list option"
  lb_logits :: "bool list option"

definition batch_none :: llama_batch where
  "batch_none = \<lparr>lb_n_tokens = 0, lb_token = None, lb_embd = None, lb_pos = None,
                 lb_n_seq_id = None, lb_seq_id = None, lb_logits = None\<rparr>"

text \<open>The map \<open>seq_set_map\<close> gives the indices at which a set of sequences appears, [] if it does not.\<close>

record batch_allocr =
  ba_batch :: llama_batch
  ba_n_pos_per_embd :: nat
  ba_n_embd :: nat
  ba_n_seq_max :: nat
  ba_n_outputs :: nat
  ba_seq_id_unq :: "llama_seq_id list"
  ba_seq_idx :: "int list"
  ba_has_cpl :: bool
  ba_seq_pos :: "nat \<Rightarrow> llama_pos list"
  ba_seq_cpl :: "nat \<Rightarrow> nat \<Rightarrow> bool"
  ba_seq_set :: "nat set list"
  ba_seq_set_map :: "nat set \<Rightarrow> nat list"
  ba_out_ids :: "nat list"
  ba_n_used :: nat
  ba_used :: "bool list"

text \<open>What \<open>llama_memory_i\<close> is asked for: the positions a sequence has in the memory.\<close>

record llama_memory_i =
  mem_seq_pos_min :: "llama_seq_id \<Rightarrow> llama_pos option"
  mem_seq_pos_max :: "llama_seq_id \<Rightarrow> llama_pos option"

definition allocr_new :: "nat \<Rightarrow> batch_allocr" where
  "allocr_new n_pos_per_embd =
     \<lparr>ba_batch = batch_none, ba_n_pos_per_embd = n_pos_per_embd, ba_n_embd = 0, ba_n_seq_max = 0,
      ba_n_outputs = 0, ba_seq_id_unq = [], ba_seq_idx = replicate LLAMA_MAX_SEQ (-1), ba_has_cpl = False,
      ba_seq_pos = (\<lambda>_. []), ba_seq_cpl = (\<lambda>_ _. False), ba_seq_set = [], ba_seq_set_map = (\<lambda>_. []),
      ba_out_ids = [], ba_n_used = 0, ba_used = []\<rparr>"

definition clear :: "batch_allocr \<Rightarrow> batch_allocr" where
  "clear ba = ba\<lparr>ba_n_outputs := 0, ba_batch := batch_none, ba_seq_id_unq := [], ba_seq_pos := (\<lambda>_. []),
     ba_seq_cpl := (\<lambda>_ _. False), ba_seq_set := [], ba_seq_set_map := (\<lambda>_. []),
     ba_seq_idx := map (\<lambda>_. -1) (ba_seq_idx ba)\<rparr>"

definition split_reset :: "batch_allocr \<Rightarrow> batch_allocr" where
  "split_reset ba = ba\<lparr>ba_out_ids := [], ba_n_used := 0, ba_used := replicate (lb_n_tokens (ba_batch ba)) False\<rparr>"

definition ba_pos_min :: "batch_allocr \<Rightarrow> nat \<Rightarrow> llama_pos" where
  "ba_pos_min ba s = (if ba_seq_pos ba s = [] then -1 else hd (ba_seq_pos ba s))"

definition ba_pos_max :: "batch_allocr \<Rightarrow> nat \<Rightarrow> llama_pos" where
  "ba_pos_max ba s = (if ba_seq_pos ba s = [] then -1 else last (ba_seq_pos ba s))"

section \<open>Validation of the input\<close>

definition check_tokens :: "llama_batch \<Rightarrow> nat \<Rightarrow> bool option" where
  "check_tokens b n_vocab =
     (case lb_token b of
        None \<Rightarrow> Some True
      | Some token \<Rightarrow> forallM (\<lambda>i. do { t \<leftarrow> at token i; Some (\<not> (t < 0 \<or> t \<ge> int n_vocab)) }) [0..<lb_n_tokens b])"

definition check_seq_ids :: "llama_batch \<Rightarrow> nat \<Rightarrow> bool option" where
  "check_seq_ids b n_seq_max =
     (case lb_seq_id b of
        None \<Rightarrow> Some True
      | Some seq_id \<Rightarrow> do {
          ns \<leftarrow> lb_n_seq_id b;
          forallM (\<lambda>i. do {
              n \<leftarrow> at ns i;
              ids \<leftarrow> at seq_id i;
              forallM (\<lambda>s. do { q \<leftarrow> at ids s; Some (\<not> (q < 0 \<or> q \<ge> int n_seq_max)) }) [0..<n]
            }) [0..<lb_n_tokens b]
        })"

section \<open>Missing fields\<close>

text \<open>The positions to continue from; only entries below \<open>n_seq_max\<close> are initialised.\<close>

definition start_positions :: "llama_memory_i option \<Rightarrow> nat \<Rightarrow> (nat \<Rightarrow> llama_pos option) option" where
  "start_positions memory n_seq_max =
     foldM (\<lambda>s p0. do {
         p \<leftarrow> (case memory of
                None \<Rightarrow> Some 0
              | Some m \<Rightarrow> do { mx \<leftarrow> mem_seq_pos_max m (int s); i32 (mx + 1) });
         Some (p0(s \<mapsto> p))
       }) [0..<n_seq_max] Map.empty"

definition auto_pos :: "nat list \<Rightarrow> llama_seq_id list list \<Rightarrow> nat \<Rightarrow> (nat \<Rightarrow> llama_pos option) \<times> llama_pos list \<Rightarrow>
    ((nat \<Rightarrow> llama_pos option) \<times> llama_pos list) option" where
  "auto_pos ns ids i st = (case st of (p0, pos) \<Rightarrow> do {
     l \<leftarrow> at ids i;
     q \<leftarrow> at l 0;
     s \<leftarrow> seq_bit q;
     p \<leftarrow> p0 s;
     n \<leftarrow> at ns i;
     p0 \<leftarrow> foldM (\<lambda>k p0. do { q \<leftarrow> at l k; s \<leftarrow> seq_bit q; p1 \<leftarrow> i32 (p + 1); Some (p0(s \<mapsto> p1)) }) [0..<n] p0;
     Some (p0, pos @ [p])
   })"

definition fill_batch :: "llama_batch \<Rightarrow> llama_memory_i option \<Rightarrow> nat \<Rightarrow> bool \<Rightarrow> llama_batch option" where
  "fill_batch b memory n_seq_max output_all = do {
     let n = lb_n_tokens b;
     let ns = (case lb_n_seq_id b of Some ns \<Rightarrow> ns | None \<Rightarrow> replicate n 1);
     let ids = (case lb_seq_id b of Some ids \<Rightarrow> ids | None \<Rightarrow> replicate n [0]);
     pos \<leftarrow> (case lb_pos b of
               Some pos \<Rightarrow> Some pos
             | None \<Rightarrow> do {
                 p0 \<leftarrow> start_positions memory n_seq_max;
                 map_option snd (foldM (auto_pos ns ids) [0..<n] (p0, []))
               });
     let logits = (case lb_logits b of
               None \<Rightarrow> if output_all then replicate n True else (replicate n False)[n - 1 := True]
             | Some l \<Rightarrow> if output_all \<and> (\<exists>i < n. \<not> l ! i) then replicate n True else l);
     Some (b\<lparr>lb_pos := Some pos, lb_n_seq_id := Some ns, lb_seq_id := Some ids, lb_logits := Some logits\<rparr>)
   }"

section \<open>Statistics\<close>

text \<open>The entries \<open>(i, k, q)\<close>: sequence \<open>q\<close> is the \<open>k\<close>-th one of token \<open>i\<close>; loops over tokens and their sequences.\<close>

definition seq_entries :: "llama_batch \<Rightarrow> (nat \<times> nat \<times> llama_seq_id) list option" where
  "seq_entries b = do {
     ns \<leftarrow> lb_n_seq_id b;
     ids \<leftarrow> lb_seq_id b;
     foldM (\<lambda>i acc. do {
         n \<leftarrow> at ns i;
         l \<leftarrow> at ids i;
         foldM (\<lambda>k acc. do { q \<leftarrow> at l k; Some (acc @ [(i, k, q)]) }) [0..<n] acc
       }) [0..<lb_n_tokens b] []
   }"

definition note_entry :: "llama_batch \<Rightarrow> nat \<times> nat \<times> llama_seq_id \<Rightarrow> batch_allocr \<Rightarrow> batch_allocr option" where
  "note_entry b e ba = (case e of (i, k, q) \<Rightarrow> do {
     ids \<leftarrow> lb_seq_id b;
     l \<leftarrow> at ids i;
     q0 \<leftarrow> at l 0;
     s0 \<leftarrow> seq_bit q0;
     s1 \<leftarrow> seq_bit q;
     poss \<leftarrow> lb_pos b;
     p \<leftarrow> at poss i;
     ba \<leftarrow> Some (ba\<lparr>ba_seq_pos := (ba_seq_pos ba)(s1 := oset_insert p (ba_seq_pos ba s1))\<rparr>);
     if k > 0
     then Some (ba\<lparr>ba_seq_cpl := (ba_seq_cpl ba)(s1 := (ba_seq_cpl ba s1)(s0 := True)), ba_has_cpl := True\<rparr>)
     else Some ba
   })"

definition token_set :: "(nat \<times> nat \<times> llama_seq_id) list \<Rightarrow> nat \<Rightarrow> nat set" where
  "token_set es i = {nat q | k q. (i, k, q) \<in> set es}"

lemma token_set_code [code]: "token_set es i = set (map (\<lambda>(_, _, q). nat q) (filter (\<lambda>(j, _, _). j = i) es))"
  by (force simp: token_set_def)

definition compute_stats :: "nat \<Rightarrow> nat \<Rightarrow> llama_batch \<Rightarrow> batch_allocr \<Rightarrow> batch_allocr option" where
  "compute_stats n_embd n_seq_max b ba = do {
     logits \<leftarrow> lb_logits b;
     requires (lb_n_tokens b \<le> length logits);
     ba \<leftarrow> Some (ba\<lparr>ba_batch := b, ba_n_embd := n_embd, ba_n_seq_max := n_seq_max,
                   ba_n_outputs := ba_n_outputs ba + length (filter id (take (lb_n_tokens b) logits)), ba_has_cpl := False\<rparr>);
     es \<leftarrow> seq_entries b;
     ba \<leftarrow> foldM (note_entry b) es ba;
     let sets = map (token_set es) [0..<lb_n_tokens b];
     let unq = filter (\<lambda>s. \<exists>e \<in> set es. nat (snd (snd e)) = s) [0..<n_seq_max];
     Some (ba\<lparr>ba_seq_set := sets,
              ba_seq_set_map := (\<lambda>S. filter (\<lambda>i. sets ! i = S) [0..<lb_n_tokens b]),
              ba_seq_id_unq := map int unq,
              ba_seq_idx := fold (\<lambda>k idx. idx[unq ! k := int k]) [0..<length unq] (ba_seq_idx ba)\<rparr>)
   }"

section \<open>Consistency checks\<close>

definition mem_max :: "llama_memory_i option \<Rightarrow> nat \<Rightarrow> llama_pos option" where
  "mem_max memory s = (case memory of None \<Rightarrow> Some (-1) | Some m \<Rightarrow> mem_seq_pos_max m (int s))"

definition check_positions :: "batch_allocr \<Rightarrow> llama_memory_i option \<Rightarrow> bool option" where
  "check_positions ba memory =
     forallM (\<lambda>s.
       if ba_seq_pos ba s = [] then Some True
       else do {
         p0 \<leftarrow> mem_max memory s;
         if ba_n_pos_per_embd ba > 1 then
           (if lb_token (ba_batch ba) \<noteq> None
            then Some (\<not> (p0 \<ge> 0 \<and> p0 \<ge> ba_pos_min ba s))
            else Some (\<not> (p0 \<ge> 0 \<and> p0 > ba_pos_min ba s)))
         else if p0 \<ge> 0 \<and> ba_pos_min ba s \<noteq> p0 + 1 then Some False
         else do {
           d \<leftarrow> i32 (ba_pos_max ba s - ba_pos_min ba s);
           d1 \<leftarrow> i32 (d + 1);
           Some (\<not> d1 > int (length (ba_seq_pos ba s)))
         }
       }) [0..<ba_n_seq_max ba]"

definition check_coupled :: "batch_allocr \<Rightarrow> llama_memory_i option \<Rightarrow> bool option" where
  "check_coupled ba memory =
     (case memory of
        None \<Rightarrow> Some True
      | Some m \<Rightarrow>
          forallM (\<lambda>s0. forallM (\<lambda>s1.
              if ba_seq_cpl ba s0 s1 then do {
                a \<leftarrow> mem_seq_pos_min m (int s0);
                b \<leftarrow> mem_seq_pos_min m (int s1);
                if a \<noteq> b then Some False
                else do {
                  c \<leftarrow> mem_seq_pos_max m (int s0);
                  d \<leftarrow> mem_seq_pos_max m (int s1);
                  Some (c = d)
                }
              } else Some True) [0..<ba_n_seq_max ba]) [0..<ba_n_seq_max ba])"

text \<open>The array \<open>cur_seq_pos\<close> is set to -1 before the loop and not written in it.\<close>

fun check_subsets ::
  "llama_pos list \<Rightarrow> nat set list \<Rightarrow> (nat \<Rightarrow> llama_pos) \<Rightarrow> (nat \<times> nat \<times> llama_seq_id) list \<Rightarrow> (nat \<Rightarrow> nat set) \<Rightarrow> bool option" where
  "check_subsets poss sets cur_seq_pos [] cur_seq_set = Some True"
| "check_subsets poss sets cur_seq_pos ((i, k, q) # es) cur_seq_set = do {
     s \<leftarrow> seq_bit q;
     p \<leftarrow> at poss i;
     S \<leftarrow> at sets i;
     let cur = cur_seq_set s \<inter> S;
     if cur = {} then Some False
     else if p < cur_seq_pos s then Some False
     else check_subsets poss sets cur_seq_pos es (cur_seq_set(s := cur))
   }"

definition init :: "llama_batch \<Rightarrow> nat \<Rightarrow> llama_memory_i option \<Rightarrow> nat \<Rightarrow> nat \<Rightarrow> bool \<Rightarrow> batch_allocr \<Rightarrow>
    (bool \<times> batch_allocr) option" where
  "init inp n_vocab memory n_embd n_seq_max output_all ba = do {
     let ba = (clear ba)\<lparr>ba_batch := inp\<rparr>;
     requires (lb_n_tokens inp > 0);
     if n_seq_max > LLAMA_MAX_SEQ then Some (False, ba)
     else do {
       ok \<leftarrow> check_tokens inp n_vocab;
       if \<not> ok then Some (False, ba)
       else do {
         ok \<leftarrow> check_seq_ids inp n_seq_max;
         if \<not> ok then Some (False, ba)
         else do {
           b \<leftarrow> fill_batch inp memory n_seq_max output_all;
           ba \<leftarrow> compute_stats n_embd n_seq_max b ba;
           ok \<leftarrow> check_positions ba memory;
           if \<not> ok then Some (False, ba)
           else do {
             ok \<leftarrow> check_coupled ba memory;
             if \<not> ok then Some (False, ba)
             else do {
               es \<leftarrow> seq_entries b;
               poss \<leftarrow> lb_pos b;
               ok \<leftarrow> check_subsets poss (ba_seq_set ba) (\<lambda>_. -1) es (\<lambda>_. {..<LLAMA_MAX_SEQ});
               if \<not> ok then Some (False, ba) else Some (True, split_reset ba)
             }
           }
         }
       }
     }
   }"

end
