(* ===== verification/BatchSplit.thy ===== *)
theory BatchSplit
  imports Batch
begin

text \<open>
  The three ways \<open>llama_batch_allocr\<close> cuts a batch into micro-batches, \<open>split_simple\<close>,
  \<open>split_equal\<close> and \<open>split_seq\<close>, and the construction of a micro-batch from the chosen indices,
  \<open>ubatch_add\<close>, in \<open>src/llama-batch.cpp\<close>. The empty micro-batch \<open>{}\<close>, returned when nothing is left,
  is \<open>ubatch_none\<close>.
\<close>

section \<open>Micro-batches\<close>

definition ubatch_none :: llama_ubatch where
  "ubatch_none = \<lparr>ub_equal_seqs = False, ub_n_tokens = 0, ub_n_seq_tokens = 0, ub_n_seqs = 0, ub_n_seqs_unq = 0,
     ub_n_pos = 0, ub_token = None, ub_embd = None, ub_pos = [], ub_n_seq_id = [], ub_seq_id = [],
     ub_seq_id_unq = [], ub_seq_idx = [], ub_output = []\<rparr>"

definition mapM :: "('a \<Rightarrow> 'b option) \<Rightarrow> 'a list \<Rightarrow> 'b list option" where
  "mapM f xs = foldM (\<lambda>x acc. do { y \<leftarrow> f x; Some (acc @ [y]) }) xs []"

text \<open>The pieces of one token: a null array of the batch gives no array of the micro-batch.\<close>

definition gather :: "'a list option \<Rightarrow> nat list \<Rightarrow> 'a list option option" where
  "gather arr idxs = (case arr of None \<Rightarrow> Some None | Some a \<Rightarrow> map_option Some (mapM (at a) idxs))"

definition gather_embd :: "nat \<Rightarrow> float32 list option \<Rightarrow> nat list \<Rightarrow> float32 list option option" where
  "gather_embd n_embd arr idxs = (case arr of
     None \<Rightarrow> Some None
   | Some a \<Rightarrow> map_option Some (mapM (\<lambda>k. at a (idxs ! (k div n_embd) * n_embd + k mod n_embd)) [0..<length idxs * n_embd]))"

definition gather_pos :: "batch_allocr \<Rightarrow> nat list \<Rightarrow> llama_pos list option" where
  "gather_pos ba idxs = do {
     pos \<leftarrow> lb_pos (ba_batch ba);
     mapM (\<lambda>(j, idx). at pos ((if lb_token (ba_batch ba) \<noteq> None then 0 else j * lb_n_tokens (ba_batch ba)) + idx))
       (List.product [0..<ba_n_pos_per_embd ba] idxs)
   }"

definition gather_seqs :: "llama_batch \<Rightarrow> nat \<Rightarrow> llama_seq_id list option" where
  "gather_seqs b idx = do {
     ns \<leftarrow> lb_n_seq_id b;
     n \<leftarrow> at ns idx;
     ids \<leftarrow> lb_seq_id b;
     l \<leftarrow> at ids idx;
     requires (n \<le> length l);
     Some (take n l)
   }"

definition ubatch_add :: "nat list \<Rightarrow> nat \<Rightarrow> bool \<Rightarrow> batch_allocr \<Rightarrow> (llama_ubatch \<times> batch_allocr) option" where
  "ubatch_add idxs n_seqs equal_seqs ba = do {
     let b = ba_batch ba;
     let n_tokens = length idxs;
     requires (n_seqs \<noteq> 0 \<and> n_tokens mod n_seqs = 0);
     token \<leftarrow> gather (lb_token b) idxs;
     embd \<leftarrow> gather_embd (ba_n_embd ba) (lb_embd b) idxs;
     pos \<leftarrow> gather_pos ba idxs;
     logits \<leftarrow> lb_logits b;
     output \<leftarrow> mapM (at logits) idxs;
     seqs \<leftarrow> mapM (gather_seqs b) idxs;
     seq_set_unq \<leftarrow> mapM seq_bit (concat seqs);
     requires (ba_n_seq_max ba \<le> LLAMA_MAX_SEQ);
     let unq = filter (\<lambda>s. s \<in> set seq_set_unq) [0..<ba_n_seq_max ba];
     let ub = \<lparr>ub_equal_seqs = equal_seqs, ub_n_tokens = n_tokens, ub_n_seq_tokens = n_tokens div n_seqs,
       ub_n_seqs = n_seqs, ub_n_seqs_unq = length unq, ub_n_pos = ba_n_pos_per_embd ba,
       ub_token = token, ub_embd = embd, ub_pos = pos, ub_n_seq_id = map length seqs, ub_seq_id = seqs,
       ub_seq_id_unq = map int unq,
       ub_seq_idx = fold (\<lambda>k idx. idx[unq ! k := int k]) [0..<length unq] (replicate LLAMA_MAX_SEQ (-1)),
       ub_output = output\<rparr>;
     Some (ub, ba\<lparr>ba_out_ids := ba_out_ids ba @ filter (\<lambda>i. logits ! i) idxs\<rparr>)
   }"

text \<open>
  \<open>ubatch_reserve\<close>: the positions get one entry per token although \<open>n_pos\<close> may be larger, as in the
  code.
\<close>

definition ubatch_reserve :: "nat \<Rightarrow> nat \<Rightarrow> batch_allocr \<Rightarrow> (llama_ubatch \<times> batch_allocr) option" where
  "ubatch_reserve n_seq_tokens n_seqs ba = do {
     let n_tokens = n_seq_tokens * n_seqs mod 2 ^ 32;
     let ba = split_reset (clear ba);
     requires (n_seqs \<le> LLAMA_MAX_SEQ);
     Some (\<lparr>ub_equal_seqs = True, ub_n_tokens = n_tokens, ub_n_seq_tokens = n_seq_tokens, ub_n_seqs = n_seqs,
       ub_n_seqs_unq = n_seqs, ub_n_pos = ba_n_pos_per_embd ba,
       ub_token = Some (replicate n_tokens 0), ub_embd = None, ub_pos = replicate n_tokens 0,
       ub_n_seq_id = replicate n_tokens 0, ub_seq_id = replicate n_tokens [],
       ub_seq_id_unq = map int [0..<n_seqs],
       ub_seq_idx = fold (\<lambda>s idx. idx[s := int s]) [0..<n_seqs] (replicate LLAMA_MAX_SEQ (-1)),
       ub_output = replicate n_tokens False\<rparr>, ba)
   }"

section \<open>Choosing the tokens\<close>

text \<open>\<open>used[idx] = true; ++n_used;\<close>\<close>

definition mark :: "nat \<Rightarrow> batch_allocr \<Rightarrow> batch_allocr" where
  "mark idx ba = ba\<lparr>ba_used := (ba_used ba)[idx := True], ba_n_used := ba_n_used ba + 1\<rparr>"

lemma mark_sel [simp]:
  "length (ba_used (mark idx ba)) = length (ba_used ba)"
  "ba_used (mark idx ba) = (ba_used ba)[idx := True]" "ba_n_used (mark idx ba) = Suc (ba_n_used ba)"
  "ba_batch (mark idx ba) = ba_batch ba" "ba_seq_set (mark idx ba) = ba_seq_set ba"
  "ba_seq_set_map (mark idx ba) = ba_seq_set_map ba" "ba_out_ids (mark idx ba) = ba_out_ids ba"
  "ba_has_cpl (mark idx ba) = ba_has_cpl ba" "ba_n_embd (mark idx ba) = ba_n_embd ba"
  "ba_n_pos_per_embd (mark idx ba) = ba_n_pos_per_embd ba" "ba_n_seq_max (mark idx ba) = ba_n_seq_max ba"
  by (simp_all add: mark_def)

definition first_unused :: "bool list \<Rightarrow> nat" where
  "first_unused used = length (takeWhile id used)"

subsection \<open>split\_simple\<close>

function simple_loop :: "nat \<Rightarrow> nat \<Rightarrow> nat list \<Rightarrow> batch_allocr \<Rightarrow> nat list \<times> batch_allocr" where
  "simple_loop n_ubatch cur_idx idxs ba =
     (let idxs = idxs @ [cur_idx]; ba = mark cur_idx ba; cur_idx = cur_idx + 1 in
      if cur_idx \<ge> length (ba_used ba) then (idxs, ba)
      else if length idxs \<ge> n_ubatch then (idxs, ba)
      else simple_loop n_ubatch cur_idx idxs ba)"
  by pat_completeness auto
termination
  by (relation "measure (\<lambda>(_, cur_idx, _, ba). length (ba_used ba) - cur_idx)") auto

declare simple_loop.simps [simp del]

definition split_simple :: "nat \<Rightarrow> batch_allocr \<Rightarrow> (llama_ubatch \<times> batch_allocr) option" where
  "split_simple n_ubatch ba =
     (let cur_idx = first_unused (ba_used ba) in
      if cur_idx \<ge> length (ba_used ba) then Some (ubatch_none, ba)
      else case simple_loop n_ubatch cur_idx [] ba of (idxs, ba) \<Rightarrow> ubatch_add idxs (length idxs) False ba)"

subsection \<open>split\_equal\<close>

text \<open>The non-overlapping sequence sets of the micro-batch; the list holds the indices still to look at.\<close>

fun equal_sets :: "batch_allocr \<Rightarrow> nat \<Rightarrow> bool \<Rightarrow> nat list \<Rightarrow> nat set list \<Rightarrow> llama_seq_id \<Rightarrow> nat set list option" where
  "equal_sets ba n_ubatch sequential [] cur_seq_set last_seq_id = Some cur_seq_set"
| "equal_sets ba n_ubatch sequential (i # is) cur_seq_set last_seq_id = do {
     u \<leftarrow> at (ba_used ba) i;
     if u then equal_sets ba n_ubatch sequential is cur_seq_set last_seq_id
     else do {
       S \<leftarrow> at (ba_seq_set ba) i;
       ids \<leftarrow> lb_seq_id (ba_batch ba);
       l \<leftarrow> at ids i;
       q \<leftarrow> at l 0;
       let add = ((\<forall>T \<in> set cur_seq_set. T \<inter> S = {}) \<and>
                  (sequential \<longrightarrow> cur_seq_set = [] \<or> q = last_seq_id + 1));
       if add then
         (if length (cur_seq_set @ [S]) > n_ubatch then Some (cur_seq_set @ [S])
          else equal_sets ba n_ubatch sequential is (cur_seq_set @ [S]) q)
       else equal_sets ba n_ubatch sequential is cur_seq_set last_seq_id
     }
   }"

text \<open>\<open>while (used[seq_set_map[cur_seq_set[s]][cur_idx[s]]]) ++cur_idx[s];\<close>\<close>

function skip_used :: "bool list \<Rightarrow> nat list \<Rightarrow> nat \<Rightarrow> nat option" where
  "skip_used used is c =
     (if c < length is \<and> is ! c < length used
      then if used ! (is ! c) then skip_used used is (c + 1) else Some c
      else None)"
  by pat_completeness auto
termination
  by (relation "measure (\<lambda>(_, is, c). length is - c)") auto

declare skip_used.simps [simp del]

type_synonym equal_state = "nat list \<times> nat list list \<times> batch_allocr"

text \<open>One turn of the expansion loop takes one more token of every sequence set.\<close>

definition take_one :: "nat list list \<Rightarrow> nat \<Rightarrow> equal_state \<Rightarrow> equal_state option" where
  "take_one is s st = (case st of (cur_idx, idxs_per_seq, ba) \<Rightarrow> do {
     c \<leftarrow> at cur_idx s;
     l \<leftarrow> at is s;
     idx \<leftarrow> at l c;
     requires (idx < length (ba_used ba));
     Some (cur_idx[s := c + 1], idxs_per_seq[s := idxs_per_seq ! s @ [idx]], mark idx ba)
   })"

definition can_expand :: "nat list list \<Rightarrow> nat list \<Rightarrow> bool" where
  "can_expand is cur_idx \<longleftrightarrow> (\<forall>s < length is. cur_idx ! s < length (is ! s))"

partial_function (option) expand :: "nat \<Rightarrow> nat list list \<Rightarrow> equal_state \<Rightarrow> equal_state option" where
  "expand n_ubatch is st =
     (case st of (cur_idx, _, _) \<Rightarrow>
        if \<not> can_expand is cur_idx then Some st
        else do {
          st \<leftarrow> foldM (take_one is) [0..<length is] st;
          case st of (_, idxs_per_seq, _) \<Rightarrow>
            if (length (idxs_per_seq ! 0) + 1) * length is > n_ubatch then Some st
            else expand n_ubatch is st
        })"

definition split_equal :: "nat \<Rightarrow> bool \<Rightarrow> batch_allocr \<Rightarrow> (llama_ubatch \<times> batch_allocr) option" where
  "split_equal n_ubatch sequential ba =
     (if sequential \<and> ba_has_cpl ba then Some (ubatch_none, ba)
      else do {
        cur_seq_set \<leftarrow> equal_sets ba n_ubatch sequential [0..<lb_n_tokens (ba_batch ba)] [] (-1);
        let n_seqs = length cur_seq_set;
        if n_seqs = 0 then Some (ubatch_none, ba)
        else do {
          let is = map (ba_seq_set_map ba) cur_seq_set;
          cur_idx \<leftarrow> mapM (\<lambda>l. skip_used (ba_used ba) l 0) is;
          (_, idxs_per_seq, ba) \<leftarrow> expand n_ubatch is (cur_idx, replicate n_seqs [], ba);
          ubatch_add (concat idxs_per_seq) n_seqs True ba
        }
      })"

subsection \<open>split\_seq\<close>

text \<open>The next token that is unused and whose sequences are a subset of the current ones.\<close>

definition next_subset :: "batch_allocr \<Rightarrow> nat set \<Rightarrow> nat \<Rightarrow> nat" where
  "next_subset ba cur_seq_set cur_idx =
     cur_idx + 1 + length (takeWhile (\<lambda>i. ba_used ba ! i \<or> cur_seq_set \<inter> ba_seq_set ba ! i \<noteq> ba_seq_set ba ! i)
       [cur_idx + 1..<lb_n_tokens (ba_batch ba)])"

function seq_loop :: "nat \<Rightarrow> nat \<Rightarrow> nat set \<Rightarrow> nat list \<Rightarrow> batch_allocr \<Rightarrow> nat list \<times> batch_allocr" where
  "seq_loop n_ubatch cur_idx cur_seq_set idxs ba =
     (let idxs = idxs @ [cur_idx]; ba = mark cur_idx ba in
      if length idxs \<ge> n_ubatch then (idxs, ba)
      else let cur_idx = next_subset ba cur_seq_set cur_idx in
        if cur_idx \<ge> lb_n_tokens (ba_batch ba) then (idxs, ba)
        else seq_loop n_ubatch cur_idx (ba_seq_set ba ! cur_idx) idxs ba)"
  by pat_completeness auto
termination
  by (relation "measure (\<lambda>(_, cur_idx, _, _, ba). lb_n_tokens (ba_batch ba) - cur_idx)") (auto simp: next_subset_def)

declare seq_loop.simps [simp del]

definition split_seq :: "nat \<Rightarrow> batch_allocr \<Rightarrow> (llama_ubatch \<times> batch_allocr) option" where
  "split_seq n_ubatch ba =
     (let cur_idx = first_unused (ba_used ba) in
      if cur_idx \<ge> length (ba_used ba) then Some (ubatch_none, ba)
      else do {
        S \<leftarrow> at (ba_seq_set ba) cur_idx;
        case seq_loop n_ubatch cur_idx S [] ba of (idxs, ba) \<Rightarrow> ubatch_add idxs 1 True ba
      })"

section \<open>All micro-batches\<close>

text \<open>
  The loop over the splits in \<open>llama_kv_cache::init_batch\<close> (\<open>src/llama-kv-cache.cpp\<close>), until a split
  returns the empty micro-batch.
\<close>

partial_function (option) collect ::
  "(batch_allocr \<Rightarrow> (llama_ubatch \<times> batch_allocr) option) \<Rightarrow> llama_ubatch list \<Rightarrow> batch_allocr \<Rightarrow>
   (llama_ubatch list \<times> batch_allocr) option" where
  "collect split ubatches ba = do {
     (ubatch, ba) \<leftarrow> split ba;
     if ub_n_tokens ubatch = 0 then Some (ubatches, ba)
     else collect split (ubatches @ [ubatch]) ba
   }"

declare collect.simps [code]

end
