(* ===== verification/KvContext.thy ===== *)
theory KvContext
  imports KvSlot BatchSplit
begin

text \<open>
  The memory contexts: the status of \<open>src/llama-memory.h\<close> and the class \<open>llama_kv_cache_context\<close> at the end of
  \<open>src/llama-kv-cache.cpp\<close>, through which \<open>llama_context\<close> drives the cache: \<open>init_batch\<close> splits a batch and
  prepares the slots, \<open>apply\<close> performs one micro-batch (or a pending update), \<open>next\<close> moves on.
\<close>

section \<open>Status\<close>

datatype llama_memory_status =
    LLAMA_MEMORY_STATUS_SUCCESS
  | LLAMA_MEMORY_STATUS_NO_UPDATE
  | LLAMA_MEMORY_STATUS_FAILED_PREPARE
  | LLAMA_MEMORY_STATUS_FAILED_COMPUTE

fun llama_memory_status_is_fail :: "llama_memory_status \<Rightarrow> bool" where
  "llama_memory_status_is_fail LLAMA_MEMORY_STATUS_SUCCESS = False"
| "llama_memory_status_is_fail LLAMA_MEMORY_STATUS_NO_UPDATE = False"
| "llama_memory_status_is_fail LLAMA_MEMORY_STATUS_FAILED_PREPARE = True"
| "llama_memory_status_is_fail LLAMA_MEMORY_STATUS_FAILED_COMPUTE = True"

text \<open>Each switch either returns the failure or tells whether there is an update.\<close>

fun status_switch :: "llama_memory_status \<Rightarrow> bool \<Rightarrow> llama_memory_status + bool" where
  "status_switch LLAMA_MEMORY_STATUS_SUCCESS has_update = Inr True"
| "status_switch LLAMA_MEMORY_STATUS_NO_UPDATE has_update = Inr has_update"
| "status_switch LLAMA_MEMORY_STATUS_FAILED_PREPARE has_update = Inl LLAMA_MEMORY_STATUS_FAILED_PREPARE"
| "status_switch LLAMA_MEMORY_STATUS_FAILED_COMPUTE has_update = Inl LLAMA_MEMORY_STATUS_FAILED_COMPUTE"

definition llama_memory_status_combine :: "llama_memory_status \<Rightarrow> llama_memory_status \<Rightarrow> llama_memory_status" where
  "llama_memory_status_combine s0 s1 =
     (case status_switch s0 False of
        Inl s \<Rightarrow> s
      | Inr has_update \<Rightarrow>
          (case status_switch s1 has_update of
             Inl s \<Rightarrow> s
           | Inr has_update \<Rightarrow> if has_update then LLAMA_MEMORY_STATUS_SUCCESS else LLAMA_MEMORY_STATUS_NO_UPDATE))"

section \<open>Contexts of the cache\<close>

text \<open>The pointer to the cache is an argument of the operations.\<close>

record kv_context =
  cx_status :: llama_memory_status
  cx_do_shift :: bool
  cx_sc_info :: "nat list \<times> nat list"
  cx_i_cur :: nat
  cx_sinfos :: "slot_info list"
  cx_ubatches :: "llama_ubatch list"
  cx_n_kv :: nat

definition context_status :: "llama_memory_status \<Rightarrow> kv_context" where
  "context_status status = \<lparr>cx_status = status, cx_do_shift = False, cx_sc_info = ([], []), cx_i_cur = 0,
     cx_sinfos = [], cx_ubatches = [], cx_n_kv = 0\<rparr>"

definition context_full :: "kv_cache \<Rightarrow> kv_context option" where
  "context_full kc = do {
     n_kv \<leftarrow> get_size kc;
     Some ((context_status LLAMA_MEMORY_STATUS_SUCCESS)\<lparr>cx_n_kv := n_kv,
       cx_sinfos := [\<lparr>si_s0 = 0, si_s1 = kc_n_stream kc - 1, si_strm = [0..<kc_n_stream kc],
                      si_idxs = replicate (kc_n_stream kc) [0]\<rparr>]\<rparr>)
   }"

definition context_update :: "bool \<Rightarrow> nat list \<times> nat list \<Rightarrow> kv_context" where
  "context_update do_shift sc_info =
     (context_status (if \<not> do_shift \<and> fst sc_info = [] then LLAMA_MEMORY_STATUS_NO_UPDATE else LLAMA_MEMORY_STATUS_SUCCESS))
       \<lparr>cx_do_shift := do_shift, cx_sc_info := sc_info\<rparr>"

definition context_batch :: "slot_info list \<Rightarrow> llama_ubatch list \<Rightarrow> kv_context" where
  "context_batch sinfos ubatches =
     (context_status LLAMA_MEMORY_STATUS_SUCCESS)\<lparr>cx_sinfos := sinfos, cx_ubatches := ubatches\<rparr>"

section \<open>Making a context\<close>

definition init_batch :: "nat \<Rightarrow> batch_allocr \<Rightarrow> kv_cache \<Rightarrow> (kv_context \<times> batch_allocr \<times> kv_cache) option" where
  "init_batch n_ubatch ba kc = do {
     (ubatches, ba) \<leftarrow>
       collect (if kc_n_stream kc = 1 then split_simple n_ubatch else split_equal n_ubatch True) [] (split_reset ba);
     if ba_n_used ba < lb_n_tokens (ba_batch ba)
     then Some (context_status LLAMA_MEMORY_STATUS_FAILED_PREPARE, ba, kc)
     else do {
       (sinfos, kc) \<leftarrow> prepare ubatches kc;
       if sinfos = [] then Some (context_status LLAMA_MEMORY_STATUS_FAILED_PREPARE, ba, kc)
       else Some (context_batch sinfos ubatches, ba, kc)
     }
   }"

definition init_full :: "kv_cache \<Rightarrow> kv_context option" where
  "init_full kc = context_full kc"

text \<open>The pending copies move from the cache to the context.\<close>

definition init_update :: "kv_cache \<Rightarrow> kv_context \<times> kv_cache" where
  "init_update kc = (context_update (get_has_shift kc) (kc_ssrc kc, kc_sdst kc), kc\<lparr>kc_ssrc := [], kc_sdst := []\<rparr>)"

section \<open>Working through a context\<close>

definition context_next :: "kv_context \<Rightarrow> (bool \<times> kv_context) option" where
  "context_next cx = do {
     requires (cx_status cx = LLAMA_MEMORY_STATUS_SUCCESS);
     let i = cx_i_cur cx + 1;
     Some (i < length (cx_ubatches cx), cx\<lparr>cx_i_cur := i\<rparr>)
   }"

definition context_apply :: "bool \<Rightarrow> bool \<Rightarrow> kv_context \<Rightarrow> kv_cache \<Rightarrow> (bool \<times> kv_context \<times> kv_cache) option" where
  "context_apply rope_none computed cx kc = do {
     requires (\<not> llama_memory_status_is_fail (cx_status cx));
     if cx_ubatches cx = [] then do {
       (_, kc) \<leftarrow> kv_update rope_none computed (cx_do_shift cx) (cx_sc_info cx) kc;
       Some (True, cx, kc)
     }
     else do {
       sinfo \<leftarrow> at (cx_sinfos cx) (cx_i_cur cx);
       ubatch \<leftarrow> at (cx_ubatches cx) (cx_i_cur cx);
       kc \<leftarrow> apply_ubatch sinfo ubatch kc;
       n_kv \<leftarrow> get_n_kv kc sinfo;
       Some (True, cx\<lparr>cx_n_kv := n_kv\<rparr>, kc)
     }
   }"

definition context_ubatch :: "kv_context \<Rightarrow> llama_ubatch option" where
  "context_ubatch cx = do {
     requires (cx_status cx = LLAMA_MEMORY_STATUS_SUCCESS);
     at (cx_ubatches cx) (cx_i_cur cx)
   }"

end
