(* ===== verification/BatchLaws.thy ===== *)
theory BatchLaws
  imports BatchSplit
begin

text \<open>
  Laws of the splits: what a micro-batch gathered from a list of indices contains, which indices each
  split chooses, and that the loop over micro-batches ends with every token in exactly one of them.
\<close>

section \<open>Gathering\<close>

lemma mapM_Some: "mapM f xs = Some ys \<longleftrightarrow> list_all2 (\<lambda>x y. f x = Some y) xs ys"
proof (induction xs arbitrary: ys rule: rev_induct)
  case (snoc x xs)
  have "mapM f (xs @ [x]) = Option.bind (mapM f xs) (\<lambda>acc. Option.bind (f x) (\<lambda>y. Some (acc @ [y])))"
    by (simp add: mapM_def foldM_snoc)
  with snoc show ?case
    by (auto simp: bind_eq_Some_conv list_all2_append1 list_all2_Cons1 list_all2_lengthD[symmetric])
qed (auto simp: mapM_def)

lemma mapM_map: "(\<And>x. x \<in> set xs \<Longrightarrow> f x = Some (g x)) \<Longrightarrow> mapM f xs = Some (map g xs)"
  by (simp add: mapM_Some list_all2_map2 list_all2_same)

text \<open>A completed batch: every array covers all tokens, and every sequence is below \<open>n_seq_max\<close>.\<close>

definition tok_seqs :: "llama_batch \<Rightarrow> nat \<Rightarrow> llama_seq_id list" where
  "tok_seqs b i = take (the (lb_n_seq_id b) ! i) (the (lb_seq_id b) ! i)"

definition batch_filled :: "nat \<Rightarrow> nat \<Rightarrow> nat \<Rightarrow> llama_batch \<Rightarrow> bool" where
  "batch_filled n_pos n_embd n_seq_max b \<longleftrightarrow>
     (\<forall>t. lb_token b = Some t \<longrightarrow> lb_n_tokens b \<le> length t) \<and>
     (\<forall>e. lb_embd b = Some e \<longrightarrow> lb_n_tokens b * n_embd \<le> length e) \<and>
     (\<exists>pos. lb_pos b = Some pos \<and>
        lb_n_tokens b * (if lb_token b \<noteq> None then 1 else n_pos) \<le> length pos) \<and>
     (\<exists>l. lb_logits b = Some l \<and> lb_n_tokens b \<le> length l) \<and>
     (\<exists>ns ids. lb_n_seq_id b = Some ns \<and> lb_seq_id b = Some ids \<and> lb_n_tokens b \<le> length ns \<and> lb_n_tokens b \<le> length ids \<and>
        (\<forall>i < lb_n_tokens b. 0 < ns ! i \<and> ns ! i \<le> length (ids ! i) \<and>
           (\<forall>q \<in> set (take (ns ! i) (ids ! i)). 0 \<le> q \<and> q < int n_seq_max)))"

definition alloc_ok :: "batch_allocr \<Rightarrow> bool" where
  "alloc_ok ba \<longleftrightarrow>
     batch_filled (ba_n_pos_per_embd ba) (ba_n_embd ba) (ba_n_seq_max ba) (ba_batch ba) \<and>
     ba_n_seq_max ba \<le> LLAMA_MAX_SEQ \<and>
     length (ba_used ba) = lb_n_tokens (ba_batch ba) \<and>
     ba_n_used ba = length (filter id (ba_used ba)) \<and>
     ba_seq_set ba = map (\<lambda>i. nat ` set (tok_seqs (ba_batch ba) i)) [0..<lb_n_tokens (ba_batch ba)] \<and>
     ba_seq_set_map ba = (\<lambda>S. filter (\<lambda>i. ba_seq_set ba ! i = S) [0..<lb_n_tokens (ba_batch ba)])"

text \<open>The micro-batch \<open>ub\<close> holds the tokens \<open>idxs\<close> of the batch.\<close>

definition gathered :: "batch_allocr \<Rightarrow> nat list \<Rightarrow> nat \<Rightarrow> bool \<Rightarrow> llama_ubatch \<Rightarrow> bool" where
  "gathered ba idxs n_seqs equal_seqs ub \<longleftrightarrow>
     ub_n_tokens ub = length idxs \<and> ub_n_seqs ub = n_seqs \<and> ub_n_tokens ub = ub_n_seqs ub * ub_n_seq_tokens ub \<and>
     ub_equal_seqs ub = equal_seqs \<and> ub_n_pos ub = ba_n_pos_per_embd ba \<and>
     ub_token ub = map_option (\<lambda>t. map ((!) t) idxs) (lb_token (ba_batch ba)) \<and>
     length (ub_pos ub) = length idxs * ba_n_pos_per_embd ba \<and>
     (\<forall>j < ba_n_pos_per_embd ba. \<forall>i < length idxs. ub_pos ub ! (j * length idxs + i) =
        the (lb_pos (ba_batch ba)) !
          ((if lb_token (ba_batch ba) \<noteq> None then 0 else j * lb_n_tokens (ba_batch ba)) + idxs ! i)) \<and>
     ub_seq_id ub = map (tok_seqs (ba_batch ba)) idxs \<and> ub_n_seq_id ub = map length (ub_seq_id ub) \<and>
     ub_output ub = map ((!) (the (lb_logits (ba_batch ba)))) idxs \<and>
     ub_seq_id_unq ub = sorted_list_of_set (\<Union>i \<in> set idxs. set (tok_seqs (ba_batch ba) i)) \<and>
     ub_n_seqs_unq ub = length (ub_seq_id_unq ub)"

text \<open>The allocator after the tokens \<open>idxs\<close> have been handed out.\<close>

definition taken :: "nat list \<Rightarrow> batch_allocr \<Rightarrow> batch_allocr" where
  "taken idxs ba = ba\<lparr>ba_out_ids := ba_out_ids ba @ filter (\<lambda>i. the (lb_logits (ba_batch ba)) ! i) idxs,
     ba_n_used := ba_n_used ba + length idxs, ba_used := fold (\<lambda>i u. u[i := True]) idxs (ba_used ba)\<rparr>"

lemma mod_less_add: "(i::nat) < m \<Longrightarrow> j < n \<Longrightarrow> j * m + i < n * m"
  by (metis add.commute add_less_cancel_left less_le_trans mult_le_mono1 Suc_leI mult_Suc)

lemma product_index:
  "j < length xs \<Longrightarrow> i < length ys \<Longrightarrow> List.product xs ys ! (j * length ys + i) = (xs ! j, ys ! i)"
proof -
  assume j: "j < length xs" and i: "i < length ys"
  have "(j * length ys + i) div length ys = j" "(j * length ys + i) mod length ys = i"
    using i by (auto simp: div_add1_eq length_greater_0_conv[symmetric] simp del: length_greater_0_conv)
  with j i show ?thesis by (simp add: product_nth mod_less_add)
qed

lemma gather_ok:
  "(\<And>a. arr = Some a \<Longrightarrow> n \<le> length a) \<Longrightarrow> \<forall>i \<in> set idxs. i < n \<Longrightarrow>
   gather arr idxs = Some (map_option (\<lambda>a. map ((!) a) idxs) arr)"
  by (cases arr) (auto simp: gather_def intro!: mapM_map)

lemma gather_embd_ok:
  assumes "\<And>a. arr = Some a \<Longrightarrow> n * m \<le> length a" "\<forall>i \<in> set idxs. i < n"
  shows "\<exists>e. gather_embd m arr idxs = Some e"
proof (cases arr)
  case (Some a)
  have "idxs ! (k div m) * m + k mod m < length a" if "k < length idxs * m" for k
  proof -
    have m: "0 < m" "k div m < length idxs" using that by (auto simp: less_mult_imp_div_less intro!: Nat.gr0I)
    then have "idxs ! (k div m) < n" using assms(2) by auto
    with m(1) have "idxs ! (k div m) * m + k mod m < n * m" by (intro mod_less_add) auto
    with assms(1)[OF Some] show ?thesis by linarith
  qed
  then have "mapM (\<lambda>k. at a (idxs ! (k div m) * m + k mod m)) [0..<length idxs * m] =
      Some (map (\<lambda>k. a ! (idxs ! (k div m) * m + k mod m)) [0..<length idxs * m])"
    by (intro mapM_map) auto
  then show ?thesis by (simp add: gather_embd_def Some)
qed (simp add: gather_embd_def)

lemma gather_pos_ok:
  assumes f: "batch_filled (ba_n_pos_per_embd ba) m k (ba_batch ba)" and idxs: "\<forall>i \<in> set idxs. i < lb_n_tokens (ba_batch ba)"
  shows "\<exists>p. gather_pos ba idxs = Some p \<and> length p = length idxs * ba_n_pos_per_embd ba \<and>
     (\<forall>j < ba_n_pos_per_embd ba. \<forall>i < length idxs. p ! (j * length idxs + i) = the (lb_pos (ba_batch ba)) !
          ((if lb_token (ba_batch ba) \<noteq> None then 0 else j * lb_n_tokens (ba_batch ba)) + idxs ! i))"
proof -
  let ?b = "ba_batch ba"
  let ?off = "\<lambda>j. if lb_token ?b \<noteq> None then 0 else j * lb_n_tokens ?b"
  obtain pos where pos: "lb_pos ?b = Some pos"
    "lb_n_tokens ?b * (if lb_token ?b \<noteq> None then 1 else ba_n_pos_per_embd ba) \<le> length pos"
    using f by (auto simp: batch_filled_def)
  have in_pos: "?off j + i < length pos" if "j < ba_n_pos_per_embd ba" "i < lb_n_tokens ?b" for j i
    using that pos(2) mod_less_add[of i "lb_n_tokens ?b" j "ba_n_pos_per_embd ba"]
    by (auto simp: mult.commute split: if_splits)
  have "gather_pos ba idxs = Some (map (\<lambda>(j, idx). pos ! (?off j + idx)) (List.product [0..<ba_n_pos_per_embd ba] idxs))"
    unfolding gather_pos_def pos(1) bind.bind_lunit using idxs in_pos by (intro mapM_map) auto
  then show ?thesis
    using product_index[of _ "[0..<ba_n_pos_per_embd ba]" _ idxs] mod_less_add[of _ "length idxs"]
    by (auto simp: pos mult.commute)
qed


text \<open>\<open>ubatch_add\<close> never fails on a completed batch, and gathers what it is told to.\<close>

lemma seq_bits: "\<forall>q \<in> set qs. 0 \<le> q \<and> q < int n \<Longrightarrow> n \<le> LLAMA_MAX_SEQ \<Longrightarrow> mapM seq_bit qs = Some (map nat qs)"
  by (rule mapM_map) (auto simp: seq_bit_def)

lemma unique_seqs:
  assumes "\<forall>q \<in> Q. 0 \<le> q \<and> q < int n"
  shows "map int (filter (\<lambda>s. s \<in> nat ` Q) [0..<n]) = sorted_list_of_set Q"
proof -
  have "set (map int (filter (\<lambda>s. s \<in> nat ` Q) [0..<n])) = Q"
    using assms by (force simp: image_iff)
  moreover have "sorted (map int (filter (\<lambda>s. s \<in> nat ` Q) [0..<n]))"
    by (simp add: sorted_map sorted_filter sorted_wrt_filter)
  moreover have "distinct (map int (filter (\<lambda>s. s \<in> nat ` Q) [0..<n]))"
    by (simp add: distinct_map)
  ultimately show ?thesis by (metis sorted_list_of_set.idem_if_sorted_distinct)
qed

lemma gather_seqs_ok:
  assumes "batch_filled n_pos n_embd n_seq_max b" "i < lb_n_tokens b"
  shows "gather_seqs b i = Some (tok_seqs b i)" "\<forall>q \<in> set (tok_seqs b i). 0 \<le> q \<and> q < int n_seq_max" "tok_seqs b i \<noteq> []"
  using assms by (force simp: batch_filled_def gather_seqs_def tok_seqs_def)+

lemma ubatch_add_ok:
  assumes ok: "alloc_ok ba" and idxs: "\<forall>i \<in> set idxs. i < lb_n_tokens (ba_batch ba)"
    and n: "n_seqs \<noteq> 0" "length idxs mod n_seqs = 0"
  shows "\<exists>ub. ubatch_add idxs n_seqs eq ba =
       Some (ub, ba\<lparr>ba_out_ids := ba_out_ids ba @ filter (\<lambda>i. the (lb_logits (ba_batch ba)) ! i) idxs\<rparr>) \<and>
     gathered ba idxs n_seqs eq ub"
proof -
  let ?b = "ba_batch ba"
  note f = ok[unfolded alloc_ok_def, THEN conjunct1]
  have max: "ba_n_seq_max ba \<le> LLAMA_MAX_SEQ" using ok by (simp add: alloc_ok_def)
  obtain l where l: "lb_logits ?b = Some l" "lb_n_tokens ?b \<le> length l" using f by (auto simp: batch_filled_def)
  have tok: "gather (lb_token ?b) idxs = Some (map_option (\<lambda>a. map ((!) a) idxs) (lb_token ?b))"
    using f idxs by (intro gather_ok) (auto simp: batch_filled_def)
  obtain e where e: "gather_embd (ba_n_embd ba) (lb_embd ?b) idxs = Some e"
    using gather_embd_ok[of "lb_embd ?b" "lb_n_tokens ?b" "ba_n_embd ba" idxs] f idxs by (auto simp: batch_filled_def)
  obtain p where p: "gather_pos ba idxs = Some p" "length p = length idxs * ba_n_pos_per_embd ba"
     "\<forall>j < ba_n_pos_per_embd ba. \<forall>i < length idxs. p ! (j * length idxs + i) = the (lb_pos (ba_batch ba)) !
          ((if lb_token (ba_batch ba) \<noteq> None then 0 else j * lb_n_tokens (ba_batch ba)) + idxs ! i)"
    using gather_pos_ok[OF f idxs] by blast
  have out: "mapM (at l) idxs = Some (map ((!) l) idxs)" using idxs l by (intro mapM_map) auto
  have seqs: "mapM (gather_seqs ?b) idxs = Some (map (tok_seqs ?b) idxs)"
    using idxs by (intro mapM_map) (simp add: gather_seqs_ok[OF f])
  have range: "\<forall>q \<in> set (concat (map (tok_seqs ?b) idxs)). 0 \<le> q \<and> q < int (ba_n_seq_max ba)"
    using gather_seqs_ok(2)[OF f] idxs by auto
  have unq: "map int (filter (\<lambda>s. s \<in> nat ` (\<Union>i\<in>set idxs. set (tok_seqs ?b i))) [0..<ba_n_seq_max ba]) =
      sorted_list_of_set (\<Union>i\<in>set idxs. set (tok_seqs ?b i))"
    using range by (intro unique_seqs) auto
  have S: "set (map nat (concat (map (tok_seqs ?b) idxs))) = nat ` (\<Union>i\<in>set idxs. set (tok_seqs ?b i))"
    by auto
  have card: "length (filter (\<lambda>s. s \<in> nat ` (\<Union>i\<in>set idxs. set (tok_seqs ?b i))) [0..<ba_n_seq_max ba]) =
      length (sorted_list_of_set (\<Union>i\<in>set idxs. set (tok_seqs ?b i)))"
    using arg_cong[OF unq, of length] by (simp only: length_map)
  have len: "length idxs = n_seqs * (length idxs div n_seqs)" using n by auto
  show ?thesis
    unfolding ubatch_add_def Let_def tok e p(1) l(1) out seqs seq_bits[OF range max] bind.bind_lunit S unq card
    using n max len p(2,3) l(1) by (simp add: gathered_def comp_def)
qed

lemma ubatch_add_selected:
  assumes "alloc_ok ba" "\<forall>i \<in> set idxs. i < lb_n_tokens (ba_batch ba)" "n_seqs \<noteq> 0" "length idxs mod n_seqs = 0"
    "alloc_ok ba'" "ba' = ba\<lparr>ba_n_used := ba_n_used ba + length idxs, ba_used := fold (\<lambda>i u. u[i := True]) idxs (ba_used ba)\<rparr>"
  shows "\<exists>ub. ubatch_add idxs n_seqs eq ba' = Some (ub, taken idxs ba) \<and> gathered ba idxs n_seqs eq ub"
  using ubatch_add_ok[of ba' idxs n_seqs eq] assms by (auto simp: gathered_def taken_def)

section \<open>The contract of a split\<close>

definition unused :: "batch_allocr \<Rightarrow> nat list" where
  "unused ba = filter (\<lambda>i. \<not> ba_used ba ! i) [0..<length (ba_used ba)]"

definition pick :: "batch_allocr \<Rightarrow> nat list \<Rightarrow> bool" where
  "pick ba idxs \<longleftrightarrow> idxs \<noteq> [] \<and> distinct idxs \<and> set idxs \<subseteq> set (unused ba)"

lemma set_many [simp]: "length (fold (\<lambda>i u. u[i := True]) idxs u) = length u"
  by (induction idxs arbitrary: u) auto

lemma nth_set_many: "i < length u \<Longrightarrow> fold (\<lambda>i u. u[i := True]) idxs u ! i = (i \<in> set idxs \<or> u ! i)"
proof (induction idxs arbitrary: u)
  case (Cons k idxs)
  then show ?case by (cases "k = i") auto
qed simp

lemma unused_taken: "unused (taken idxs ba) = filter (\<lambda>i. i \<notin> set idxs) (unused ba)"
  by (auto simp: unused_def taken_def nth_set_many intro!: filter_cong)

lemma used_count: "length (filter id u) + length (filter (\<lambda>i. \<not> u ! i) [0..<length u]) = length u"
proof -
  have "length (filter id u) = length (filter (\<lambda>i. u ! i) [0..<length u])"
    by (metis (no_types, lifting) filter_cong filter_map id_comp length_map map_nth o_id comp_def id_apply)
  then show ?thesis using sum_length_filter_compl[of "\<lambda>i. u ! i" "[0..<length u]"] by simp
qed

lemma pick_mset:
  assumes "pick ba idxs"
  shows "mset (unused ba) = mset idxs + mset (unused (taken idxs ba))"
proof (rule multiset_eqI)
  fix i
  have "distinct (unused ba)" by (simp add: unused_def)
  with assms show "count (mset (unused ba)) i = count (mset idxs + mset (unused (taken idxs ba))) i"
    by (auto simp: unused_taken pick_def distinct_count_atmost_1 count_mset_0_iff)
qed

lemma taken_sel [simp]:
  "ba_batch (taken idxs ba) = ba_batch ba" "ba_n_pos_per_embd (taken idxs ba) = ba_n_pos_per_embd ba"
  "ba_seq_set (taken idxs ba) = ba_seq_set ba" "ba_seq_set_map (taken idxs ba) = ba_seq_set_map ba"
  "ba_has_cpl (taken idxs ba) = ba_has_cpl ba" "ba_n_seq_max (taken idxs ba) = ba_n_seq_max ba"
  "ba_n_embd (taken idxs ba) = ba_n_embd ba" "length (ba_used (taken idxs ba)) = length (ba_used ba)"
  "gathered (taken idxs ba) = gathered ba"
  by (simp_all add: taken_def gathered_def fun_eq_iff)

lemma taken_ok:
  assumes ok: "alloc_ok ba" and "pick ba idxs"
  shows "alloc_ok (taken idxs ba)"
proof -
  have "length (unused ba) = length idxs + length (unused (taken idxs ba))"
    using arg_cong[OF pick_mset[OF assms(2)], of size] by simp
  moreover have "ba_n_used ba + length (unused ba) = length (ba_used ba)"
    using used_count[of "ba_used ba"] ok by (simp add: unused_def alloc_ok_def)
  moreover have "length (filter id (ba_used (taken idxs ba))) + length (unused (taken idxs ba)) = length (ba_used ba)"
    using used_count[of "ba_used (taken idxs ba)"] by (simp add: unused_def)
  ultimately have "ba_n_used (taken idxs ba) = length (filter id (ba_used (taken idxs ba)))"
    by (simp add: taken_def)
  with ok show ?thesis by (simp add: alloc_ok_def)
qed

lemma ubatch_add_pick:
  assumes ok: "alloc_ok ba" and p: "pick ba idxs" and n: "n_seqs \<noteq> 0" "length idxs mod n_seqs = 0"
  shows "\<exists>ub. ubatch_add idxs n_seqs eq (fold mark idxs ba) = Some (ub, taken idxs ba) \<and> gathered ba idxs n_seqs eq ub"
proof -
  let ?ba = "ba\<lparr>ba_n_used := ba_n_used ba + length idxs, ba_used := fold (\<lambda>i u. u[i := True]) idxs (ba_used ba)\<rparr>"
  have m: "fold mark is b = b\<lparr>ba_n_used := ba_n_used b + length is, ba_used := fold (\<lambda>i u. u[i := True]) is (ba_used b)\<rparr>" for "is" b
    by (induction "is" arbitrary: b) (simp_all add: mark_def)
  have "alloc_ok ?ba" using taken_ok[OF ok p] by (simp add: taken_def alloc_ok_def)
  moreover have "\<forall>i \<in> set idxs. i < lb_n_tokens (ba_batch ba)"
    using p ok by (auto simp: pick_def unused_def alloc_ok_def)
  ultimately show ?thesis unfolding m using ubatch_add_selected[OF ok _ n] by blast
qed

text \<open>A split with the invariant \<open>inv\<close> takes unused tokens as long as there are any.\<close>

locale batch_split =
  fixes split :: "batch_allocr \<Rightarrow> (llama_ubatch \<times> batch_allocr) option"
    and inv :: "batch_allocr \<Rightarrow> bool"
    and shape :: "batch_allocr \<Rightarrow> nat list \<Rightarrow> llama_ubatch \<Rightarrow> bool"
  assumes split_more: "inv ba \<Longrightarrow> unused ba \<noteq> [] \<Longrightarrow>
      \<exists>idxs ub. split ba = Some (ub, taken idxs ba) \<and> pick ba idxs \<and> ub_n_tokens ub = length idxs \<and> shape ba idxs ub \<and> inv (taken idxs ba)"
    and split_none: "inv ba \<Longrightarrow> unused ba = [] \<Longrightarrow> split ba = Some (ubatch_none, ba)"
    and shape_taken: "shape (taken idxs ba) = shape ba"
begin

lemma collect_from:
  "inv ba \<Longrightarrow> \<exists>idxss new ba'. collect split ubs ba = Some (ubs @ new, ba') \<and> list_all2 (shape ba) idxss new \<and>
     mset (concat idxss) = mset (unused ba) \<and> unused ba' = [] \<and> inv ba' \<and> ba_batch ba' = ba_batch ba"
proof (induction "length (unused ba)" arbitrary: ba ubs rule: less_induct)
  case less
  show ?case
  proof (cases "unused ba = []")
    case True
    then have "collect split ubs ba = Some (ubs @ [], ba)"
      by (subst collect.simps) (simp add: split_none less.prems ubatch_none_def)
    with True less.prems show ?thesis
      by (intro exI[of _ "[]"] exI[of _ ba]) auto
  next
    case False
    obtain idxs ub where s: "split ba = Some (ub, taken idxs ba)" "pick ba idxs" "ub_n_tokens ub = length idxs"
      "shape ba idxs ub" "inv (taken idxs ba)"
      using split_more[OF less.prems False] by blast
    have m: "mset (unused ba) = mset idxs + mset (unused (taken idxs ba))" by (rule pick_mset[OF s(2)])
    have "idxs \<noteq> []" using s(2) by (simp add: pick_def)
    then have "length (unused (taken idxs ba)) < length (unused ba)"
      using arg_cong[OF m, of size] by (simp add: length_greater_0_conv[symmetric] del: length_greater_0_conv)
    from less.hyps[OF this s(5)] obtain idxss new ba' where
      r: "collect split (ubs @ [ub]) (taken idxs ba) = Some ((ubs @ [ub]) @ new, ba')" "list_all2 (shape (taken idxs ba)) idxss new"
        "mset (concat idxss) = mset (unused (taken idxs ba))" "unused ba' = []" "inv ba'" "ba_batch ba' = ba_batch (taken idxs ba)"
      by blast
    have "collect split ubs ba = Some (ubs @ ub # new, ba')"
      using r(1) s(3) \<open>idxs \<noteq> []\<close> by (subst collect.simps) (simp add: s(1))
    then show ?thesis
      using r s(4) m by (intro exI[of _ "idxs # idxss"] exI[of _ "ub # new"] exI[of _ ba']) (simp add: shape_taken)
  qed
qed

lemma collect_ok:
  assumes "inv ba"
  shows "\<exists>idxss ubs ba'. collect split [] ba = Some (ubs, ba') \<and> list_all2 (shape ba) idxss ubs \<and>
     mset (concat idxss) = mset (unused ba) \<and> unused ba' = [] \<and> inv ba' \<and> ba_batch ba' = ba_batch ba"
  using collect_from[OF assms, of "[]"] by simp

end

section \<open>split\_simple\<close>

definition simple_inv :: "batch_allocr \<Rightarrow> bool" where
  "simple_inv ba \<longleftrightarrow> alloc_ok ba \<and>
     (\<exists>k \<le> lb_n_tokens (ba_batch ba). ba_used ba = replicate k True @ replicate (lb_n_tokens (ba_batch ba) - k) False)"

text \<open>A run of consecutive tokens, full unless it reaches the end of the batch.\<close>

definition simple_shape :: "nat \<Rightarrow> batch_allocr \<Rightarrow> nat list \<Rightarrow> llama_ubatch \<Rightarrow> bool" where
  "simple_shape n_ubatch ba idxs ub \<longleftrightarrow> idxs \<noteq> [] \<and> gathered ba idxs (length idxs) False ub \<and>
     (\<exists>k. idxs = [k..<min (lb_n_tokens (ba_batch ba)) (k + max 1 n_ubatch)])"

lemma simple_loop_ok:
  "cur_idx < length (ba_used ba) \<Longrightarrow>
   simple_loop n_ubatch cur_idx idxs ba =
     (let new = [cur_idx..<min (length (ba_used ba)) (cur_idx + max 1 (n_ubatch - length idxs))]
      in (idxs @ new, fold mark new ba))"
proof (induction n_ubatch cur_idx idxs ba rule: simple_loop.induct)
  case (1 n_ubatch cur_idx idxs ba)
  show ?case
  proof (cases "cur_idx + 1 \<ge> length (ba_used ba) \<or> length idxs + 1 \<ge> n_ubatch")
    case True
    with 1(2) have "[cur_idx..<min (length (ba_used ba)) (cur_idx + max 1 (n_ubatch - length idxs))] = [cur_idx]"
      by (auto simp: upt_rec[of cur_idx])
    with True show ?thesis by (subst simple_loop.simps) (auto simp: Let_def)
  next
    case False
    let ?e = "min (length (ba_used ba)) (cur_idx + max 1 (n_ubatch - length idxs))"
    have e: "min (length (ba_used ba)) (cur_idx + 1 + (n_ubatch - (length idxs + 1))) = ?e"
      using False by (auto simp: min_def max_def)
    have "[cur_idx..<?e] = cur_idx # [cur_idx + 1..<?e]" using 1(2) by (simp add: upt_rec[of cur_idx])
    moreover have "simple_loop n_ubatch cur_idx idxs ba = simple_loop n_ubatch (cur_idx + 1) (idxs @ [cur_idx]) (mark cur_idx ba)"
      using False by (subst simple_loop.simps) (simp add: Let_def)
    moreover have "simple_loop n_ubatch (cur_idx + 1) (idxs @ [cur_idx]) (mark cur_idx ba) =
      (let new = [cur_idx + 1..<min (length (ba_used ba)) (cur_idx + 1 + (n_ubatch - (length idxs + 1)))]
       in ((idxs @ [cur_idx]) @ new, fold mark new (mark cur_idx ba)))"
      using 1(1)[OF refl refl refl] False by (simp add: Let_def)
    ultimately show ?thesis unfolding Let_def e by simp
  qed
qed

lemma used_front:
  assumes "u = replicate k True @ replicate (n - k) False" "k \<le> n"
  shows "first_unused u = k" "filter (\<lambda>i. \<not> u ! i) [0..<length u] = [k..<n]"
proof -
  show "first_unused u = k" using assms by (simp add: first_unused_def takeWhile_append takeWhile_replicate)
  have "filter (\<lambda>i. \<not> u ! i) [0..<n] = filter (\<lambda>i. k \<le> i) ([0..<k] @ [k..<n])"
    using assms upt_add_eq_append[of 0 k "n - k"] by (intro filter_cong) (auto simp: nth_append)
  then show "filter (\<lambda>i. \<not> u ! i) [0..<length u] = [k..<n]" using assms by simp
qed

lemma split_simple_ok:
  assumes inv: "simple_inv ba" and more: "unused ba \<noteq> []"
  shows "\<exists>idxs ub. split_simple n_ubatch ba = Some (ub, taken idxs ba) \<and> pick ba idxs \<and> ub_n_tokens ub = length idxs \<and>
    simple_shape n_ubatch ba idxs ub \<and> simple_inv (taken idxs ba)"
proof -
  let ?n = "lb_n_tokens (ba_batch ba)"
  obtain k where k: "k \<le> ?n" "ba_used ba = replicate k True @ replicate (?n - k) False" and ok: "alloc_ok ba"
    using inv by (auto simp: simple_inv_def)
  note u = used_front[OF k(2,1)]
  have len: "length (ba_used ba) = ?n" using ok by (simp add: alloc_ok_def)
  have un: "unused ba = [k..<?n]" using u(2) by (simp add: unused_def)
  with more have kn: "k < ?n" by simp
  let ?e = "min ?n (k + max 1 n_ubatch)"
  have ek: "?e - k \<noteq> 0" using kn by (auto simp: min_def max_def)
  have p: "pick ba [k..<?e]" using kn by (auto simp: pick_def un)
  obtain ub where ub: "ubatch_add [k..<?e] (length [k..<?e]) False (fold mark [k..<?e] ba) = Some (ub, taken [k..<?e] ba)"
    "gathered ba [k..<?e] (length [k..<?e]) False ub"
    using ubatch_add_pick[OF ok p, of "length [k..<?e]" False] ek by auto
  have "split_simple n_ubatch ba = Some (ub, taken [k..<?e] ba)"
    using simple_loop_ok[of k ba n_ubatch "[]"] ub(1) kn by (simp add: split_simple_def u(1) len Let_def)
  moreover have "simple_inv (taken [k..<?e] ba)"
    unfolding simple_inv_def
  proof (intro conjI exI[of _ ?e])
    show "ba_used (taken [k..<?e] ba) = replicate ?e True @ replicate (lb_n_tokens (ba_batch (taken [k..<?e] ba)) - ?e) False"
      using k(1) by (intro nth_equalityI) (auto simp: taken_def nth_set_many k(2) nth_append)
  qed (use taken_ok[OF ok p] in auto)
  moreover have "simple_shape n_ubatch ba [k..<?e] ub"
    unfolding simple_shape_def using ub(2) p unfolding pick_def by blast
  moreover have "ub_n_tokens ub = length [k..<?e]" using ub(2) unfolding gathered_def by blast
  ultimately show ?thesis using p by blast
qed

interpretation simple: batch_split "split_simple n_ubatch" simple_inv "simple_shape n_ubatch" for n_ubatch
proof (unfold_locales, goal_cases)
  case (2 ba)
  then obtain k where k: "k \<le> lb_n_tokens (ba_batch ba)" "ba_used ba = replicate k True @ replicate (lb_n_tokens (ba_batch ba) - k) False"
    by (auto simp: simple_inv_def)
  have "first_unused (ba_used ba) \<ge> length (ba_used ba)" using used_front[OF k(2,1)] 2(2) k by (auto simp: unused_def)
  then show ?case by (simp add: split_simple_def)
next
  case (1 ba)
  then show ?case by (rule split_simple_ok)
next
  case (3 idxs ba)
  show ?case by (simp add: simple_shape_def fun_eq_iff)
qed

end
