(* ===== verification/BatchInit.thy ===== *)
theory BatchInit
  imports BatchLaws
begin

text \<open>
  Laws of \<open>llama_batch_allocr::init\<close>: which batches it accepts, the positions it generates, and that an
  accepted batch is ready to be split.
\<close>

section \<open>Loops that stop at the first failure\<close>

lemma forallM_total:
  "(\<And>x. x \<in> set xs \<Longrightarrow> f x = Some (P x)) \<Longrightarrow> forallM f xs = Some (\<forall>x \<in> set xs. P x)"
  by (induction xs) auto

lemma foldM_snoc_map:
  "(\<And>x. x \<in> set xs \<Longrightarrow> f x = Some (g x)) \<Longrightarrow>
   foldM (\<lambda>x acc. Option.bind (f x) (\<lambda>y. Some (acc @ [y]))) xs acc = Some (acc @ map g xs)"
  by (induction xs arbitrary: acc) auto

lemma take_nth: "n \<le> length xs \<Longrightarrow> take n xs = map ((!) xs) [0..<n]"
  by (intro nth_equalityI) auto

section \<open>Well-formed input\<close>

text \<open>The arrays a caller leaves out are completed as \<open>fill_batch\<close> does it.\<close>

definition in_ns :: "llama_batch \<Rightarrow> nat list" where
  "in_ns inp = (case lb_n_seq_id inp of Some ns \<Rightarrow> ns | None \<Rightarrow> replicate (lb_n_tokens inp) 1)"

definition in_ids :: "llama_batch \<Rightarrow> llama_seq_id list list" where
  "in_ids inp = (case lb_seq_id inp of Some ids \<Rightarrow> ids | None \<Rightarrow> replicate (lb_n_tokens inp) [0])"

definition in_seqs :: "llama_batch \<Rightarrow> nat \<Rightarrow> llama_seq_id list" where
  "in_seqs inp i = take (in_ns inp ! i) (in_ids inp ! i)"

text \<open>
  The arrays that are there are large enough, and every token has a sequence. The positions of
  embeddings are given, \<open>n_pos\<close> for each token.
\<close>

definition input_ok :: "nat \<Rightarrow> nat \<Rightarrow> llama_batch \<Rightarrow> bool" where
  "input_ok n_pos n_embd inp \<longleftrightarrow> 0 < lb_n_tokens inp \<and> 0 < n_pos \<and>
     (\<forall>t. lb_token inp = Some t \<longrightarrow> lb_n_tokens inp \<le> length t) \<and>
     (\<forall>e. lb_embd inp = Some e \<longrightarrow> lb_n_tokens inp * n_embd \<le> length e) \<and>
     (\<forall>l. lb_logits inp = Some l \<longrightarrow> lb_n_tokens inp \<le> length l) \<and>
     (\<forall>p. lb_pos inp = Some p \<longrightarrow>
        lb_n_tokens inp * (if lb_token inp \<noteq> None then 1 else n_pos) \<le> length p \<and>
        (\<forall>x \<in> set p. 0 \<le> x \<and> x < INT32_MAX)) \<and>
     (lb_pos inp = None \<longrightarrow> lb_token inp \<noteq> None \<or> n_pos \<le> 1) \<and>
     (lb_seq_id inp \<noteq> None \<longrightarrow> lb_n_seq_id inp \<noteq> None) \<and>
     lb_n_tokens inp \<le> length (in_ns inp) \<and> lb_n_tokens inp \<le> length (in_ids inp) \<and>
     (\<forall>i < lb_n_tokens inp. 0 < in_ns inp ! i \<and> in_ns inp ! i \<le> length (in_ids inp ! i))"

text \<open>The memory answers for every sequence, with positions that leave room for the batch.\<close>

definition memory_ok :: "llama_memory_i option \<Rightarrow> nat \<Rightarrow> nat \<Rightarrow> bool" where
  "memory_ok memory n_tokens n_seq_max \<longleftrightarrow>
     (\<forall>m. memory = Some m \<longrightarrow> (\<forall>s < n_seq_max.
        (\<exists>a. mem_seq_pos_min m (int s) = Some a) \<and>
        (\<exists>p. mem_seq_pos_max m (int s) = Some p \<and> -1 \<le> p \<and> p + int n_tokens < INT32_MAX))) \<and>
     int n_tokens < INT32_MAX"

section \<open>Validation\<close>

definition tokens_valid :: "nat \<Rightarrow> llama_batch \<Rightarrow> bool" where
  "tokens_valid n_vocab inp \<longleftrightarrow>
     (\<forall>t. lb_token inp = Some t \<longrightarrow> (\<forall>i < lb_n_tokens inp. 0 \<le> t ! i \<and> t ! i < int n_vocab))"

definition seqs_valid :: "nat \<Rightarrow> llama_batch \<Rightarrow> bool" where
  "seqs_valid n_seq_max inp \<longleftrightarrow>
     lb_seq_id inp = None \<or> (\<forall>i < lb_n_tokens inp. \<forall>q \<in> set (in_seqs inp i). 0 \<le> q \<and> q < int n_seq_max)"

lemma check_tokens_ok:
  assumes "input_ok n_pos n_embd inp"
  shows "check_tokens inp n_vocab = Some (tokens_valid n_vocab inp)"
proof (cases "lb_token inp")
  case (Some t)
  have "forallM (\<lambda>i. Option.bind (at t i) (\<lambda>t. Some (\<not> (t < 0 \<or> t \<ge> int n_vocab)))) [0..<lb_n_tokens inp] =
      Some (\<forall>i \<in> set [0..<lb_n_tokens inp]. 0 \<le> t ! i \<and> t ! i < int n_vocab)"
    using assms Some by (intro forallM_total) (auto simp: input_ok_def)
  then show ?thesis by (auto simp: check_tokens_def tokens_valid_def Some)
qed (simp add: check_tokens_def tokens_valid_def)

lemma check_seq_ids_ok:
  assumes "input_ok n_pos n_embd inp"
  shows "check_seq_ids inp n_seq_max = Some (seqs_valid n_seq_max inp)"
proof (cases "lb_seq_id inp")
  case (Some ids)
  obtain ns where ns: "lb_n_seq_id inp = Some ns" using assms Some by (auto simp: input_ok_def)
  have eq: "in_ns inp = ns" "in_ids inp = ids" by (simp_all add: in_ns_def in_ids_def Some ns)
  have inner: "forallM (\<lambda>s. Option.bind (at (ids ! i) s) (\<lambda>q. Some (\<not> (q < 0 \<or> q \<ge> int n_seq_max)))) [0..<ns ! i] =
      Some (\<forall>q \<in> set (in_seqs inp i). 0 \<le> q \<and> q < int n_seq_max)" if i: "i < lb_n_tokens inp" for i
  proof -
    have l: "ns ! i \<le> length (ids ! i)" using assms i by (simp add: input_ok_def eq)
    have "forallM (\<lambda>s. Option.bind (at (ids ! i) s) (\<lambda>q. Some (\<not> (q < 0 \<or> q \<ge> int n_seq_max)))) [0..<ns ! i] =
       Some (\<forall>s \<in> set [0..<ns ! i]. 0 \<le> ids ! i ! s \<and> ids ! i ! s < int n_seq_max)"
      using l by (intro forallM_total) auto
    then show ?thesis by (simp add: in_seqs_def eq take_nth[OF l])
  qed
  have "forallM (\<lambda>i. Option.bind (at ns i) (\<lambda>n. Option.bind (at ids i) (\<lambda>ids.
          forallM (\<lambda>s. Option.bind (at ids s) (\<lambda>q. Some (\<not> (q < 0 \<or> q \<ge> int n_seq_max)))) [0..<n]))) [0..<lb_n_tokens inp] =
      Some (\<forall>i \<in> set [0..<lb_n_tokens inp]. \<forall>q \<in> set (in_seqs inp i). 0 \<le> q \<and> q < int n_seq_max)"
    using assms inner by (intro forallM_total) (auto simp: input_ok_def eq at_def)
  then show ?thesis by (auto simp: check_seq_ids_def seqs_valid_def Some ns)
qed (simp add: check_seq_ids_def seqs_valid_def)

lemma seqs_in_range:
  assumes "input_ok n_pos n_embd inp" "seqs_valid n_seq_max inp" "0 < n_seq_max" "i < lb_n_tokens inp"
  shows "\<forall>q \<in> set (in_seqs inp i). 0 \<le> q \<and> q < int n_seq_max" "in_seqs inp i \<noteq> []"
proof -
  show "in_seqs inp i \<noteq> []" using assms(1,4) by (force simp: input_ok_def in_seqs_def)
  show "\<forall>q \<in> set (in_seqs inp i). 0 \<le> q \<and> q < int n_seq_max"
  proof (cases "lb_seq_id inp")
    case None
    with assms(3,4) show ?thesis by (auto simp: in_seqs_def in_ids_def dest!: in_set_takeD)
  qed (use assms(2,4) in \<open>auto simp: seqs_valid_def\<close>)
qed


section \<open>Generated positions\<close>

text \<open>Where the memory ends: the first position after it.\<close>

definition mem_next :: "llama_memory_i option \<Rightarrow> nat \<Rightarrow> llama_pos" where
  "mem_next memory s = (case memory of None \<Rightarrow> 0 | Some m \<Rightarrow> the (mem_seq_pos_max m (int s)) + 1)"

text \<open>
  The position a sequence has reached before token \<open>i\<close>: one behind the last earlier token of the
  sequence, or behind the memory.
\<close>

definition reached :: "llama_memory_i option \<Rightarrow> (nat \<Rightarrow> llama_seq_id list) \<Rightarrow> llama_pos list \<Rightarrow> nat \<Rightarrow> nat \<Rightarrow> llama_pos" where
  "reached memory seqs pos i s =
     (if \<exists>j < i. int s \<in> set (seqs j) then pos ! (Max {j. j < i \<and> int s \<in> set (seqs j)}) + 1 else mem_next memory s)"

lemma reached_0 [simp]: "reached memory seqs pos 0 s = mem_next memory s"
  by (simp add: reached_def)

lemma reached_Suc:
  assumes "length pos = i"
  shows "reached memory seqs (pos @ [p]) (Suc i) s =
     (if int s \<in> set (seqs i) then p + 1 else reached memory seqs pos i s)"
proof -
  define J where "J n = {j. j < n \<and> int s \<in> set (seqs j)}" for n
  have r: "reached memory seqs ps n s = (if J n \<noteq> {} then ps ! (Max (J n)) + 1 else mem_next memory s)" for ps n
    by (auto simp: reached_def J_def)
  have fin: "finite (J n)" for n by (simp add: J_def)
  have J: "J (Suc i) = (if int s \<in> set (seqs i) then insert i (J i) else J i)" by (auto simp: J_def less_Suc_eq)
  have le: "\<forall>j \<in> J i. j < i" by (simp add: J_def)
  have "Max (insert i (J i)) = i" using fin[of i] le by (intro Max_eqI) auto
  moreover have "Max (J i) < i" if "J i \<noteq> {}" using that fin[of i] le by simp
  ultimately show ?thesis using assms unfolding r J by (simp add: nth_append)
qed

lemma start_positions_ok:
  assumes "memory_ok memory n_tokens n_seq_max"
  shows "\<exists>p0. start_positions memory n_seq_max = Some p0 \<and> (\<forall>s < n_seq_max. p0 s = Some (mem_next memory s))"
proof -
  let ?P = "\<lambda>i p0. \<forall>s < i. p0 s = Some (mem_next memory s)"
  have "\<exists>p0. start_positions memory n_seq_max = Some p0 \<and> ?P n_seq_max p0"
    unfolding start_positions_def
  proof (rule foldM_upt, simp, goal_cases)
    case (1 i p0)
    show ?case
    proof (cases memory)
      case None
      with 1 show ?thesis by (auto simp: mem_next_def less_Suc_eq)
    next
      case (Some m)
      with assms 1 obtain p where p: "mem_seq_pos_max m (int i) = Some p" "-1 \<le> p" "p + int n_tokens < INT32_MAX"
        by (auto simp: memory_ok_def)
      then have "in_i32 (p + 1)" by (simp add: in_i32_def INT32_MAX_def)
      with 1 p(1) Some show ?thesis by (auto simp: mem_next_def less_Suc_eq i32_in)
    qed
  qed
  then show ?thesis .
qed

lemma mem_next_bounds:
  "memory_ok memory n_tokens n_seq_max \<Longrightarrow> s < n_seq_max \<Longrightarrow> 0 \<le> mem_next memory s \<and> mem_next memory s + int n_tokens \<le> INT32_MAX"
  by (cases memory) (auto simp: memory_ok_def mem_next_def)

lemma auto_pos_ok:
  assumes ids: "i < length ids" "i < length ns" "0 < ns ! i" "ns ! i \<le> length (ids ! i)"
    and seqs: "seqs i = take (ns ! i) (ids ! i)" "\<forall>q \<in> set (seqs i). 0 \<le> q \<and> q < int n" "n \<le> LLAMA_MAX_SEQ"
    and pos: "length pos = i" "\<forall>s < n. p0 s = Some (reached memory seqs pos i s)"
    and bound: "\<forall>s < n. 0 \<le> reached memory seqs pos i s \<and> reached memory seqs pos i s \<le> M" "in_i32 (M + 1)"
  shows "\<exists>p0'. auto_pos ns ids i (p0, pos) = Some (p0', pos @ [reached memory seqs pos i (nat (hd (seqs i)))]) \<and>
     (\<forall>s < n. p0' s = Some (reached memory seqs (pos @ [reached memory seqs pos i (nat (hd (seqs i)))]) (Suc i) s))"
proof -
  let ?l = "ids ! i" let ?p = "reached memory seqs pos i (nat (hd (seqs i)))"
  have ne: "seqs i \<noteq> []" using ids seqs(1) by auto
  then have hd: "hd (seqs i) \<in> set (seqs i)" by simp
  have l0: "0 < length ?l" using ids by linarith
  have h: "?l ! 0 = hd (seqs i)" using ids seqs(1) ne by (simp add: hd_conv_nth)
  have bit: "seq_bit q = Some (nat q)" if "q \<in> set (seqs i)" for q
    using that seqs(2,3) by (auto simp: seq_bit_def)
  have hn: "nat (hd (seqs i)) < n" using seqs(2) hd by (auto simp: nat_less_iff)
  then have "0 \<le> ?p \<and> ?p \<le> M" using bound(1) by blast
  then have p1: "in_i32 (?p + 1)" using bound(2) by (auto simp: in_i32_def)
  have p: "p0 (nat (hd (seqs i))) = Some ?p" using pos(2) hn by blast
  define g where "g k p0 = Option.bind (at ?l k) (\<lambda>q. Option.bind (seq_bit q) (\<lambda>s. Option.bind (i32 (?p + 1))
      (\<lambda>p1. Some (p0(s \<mapsto> p1)))))" for k p0
  let ?Q = "\<lambda>k f. \<forall>s < n. f s = Some (if int s \<in> set (take k ?l) then ?p + 1 else reached memory seqs pos i s)"
  have "\<exists>f. foldM g [0..<ns ! i] p0 = Some f \<and> ?Q (ns ! i) f"
  proof (rule foldM_upt)
    show "?Q 0 p0" using pos(2) by simp
    fix k f assume k: "k < ns ! i" and f: "?Q k f"
    have kl: "k < length ?l" using k ids by simp
    have q: "?l ! k \<in> set (seqs i)" using k kl by (auto simp: seqs(1) in_set_conv_nth)
    have "g k f = Some (f(nat (?l ! k) \<mapsto> ?p + 1))" using kl p1 by (simp add: g_def bit[OF q] i32_in)
    moreover have "take (Suc k) ?l = take k ?l @ [?l ! k]" using kl by (rule take_Suc_conv_app_nth)
    moreover have "0 \<le> ?l ! k" using q seqs(2) by blast
    ultimately show "\<exists>f'. g k f = Some f' \<and> ?Q (Suc k) f'" using f by auto
  qed
  then obtain f where f: "foldM g [0..<ns ! i] p0 = Some f" "?Q (ns ! i) f" by blast
  have "auto_pos ns ids i (p0, pos) = Some (f, pos @ [?p])"
    using ids(1,2) l0 f(1) p bit[OF hd] unfolding h[symmetric] g_def[abs_def] by (simp add: auto_pos_def)
  moreover have "f s = Some (reached memory seqs (pos @ [?p]) (Suc i) s)" if "s < n" for s
    using f(2) that by (simp add: reached_Suc[OF pos(1)] seqs(1))
  ultimately show ?thesis by blast
qed

lemma reached_append:
  assumes "i \<le> length pos"
  shows "reached memory seqs (pos @ ps) i s = reached memory seqs pos i s"
proof -
  define J where "J = {j. j < i \<and> int s \<in> set (seqs j)}"
  have r: "reached memory seqs p i s = (if J \<noteq> {} then p ! Max J + 1 else mem_next memory s)" for p
    by (auto simp: reached_def J_def)
  have "finite J" "\<forall>j \<in> J. j < length pos" using assms by (auto simp: J_def)
  then have "J \<noteq> {} \<Longrightarrow> Max J < length pos" by simp
  then show ?thesis unfolding r by (auto simp: nth_append)
qed

text \<open>The positions of the generated sequence of tokens.\<close>

definition auto_positions :: "llama_memory_i option \<Rightarrow> (nat \<Rightarrow> llama_seq_id list) \<Rightarrow> nat \<Rightarrow> llama_pos list \<Rightarrow> bool" where
  "auto_positions memory seqs n pos \<longleftrightarrow> length pos = n \<and>
     (\<forall>i < n. pos ! i = reached memory seqs pos i (nat (hd (seqs i))))"

lemma auto_positions_ok:
  assumes inp: "input_ok n_pos n_embd inp" and valid: "seqs_valid n_seq_max inp"
    and max: "0 < n_seq_max" "n_seq_max \<le> LLAMA_MAX_SEQ" and mem: "memory_ok memory (lb_n_tokens inp) n_seq_max"
  shows "\<exists>p0 pos p0'. start_positions memory n_seq_max = Some p0 \<and>
     foldM (auto_pos (in_ns inp) (in_ids inp)) [0..<lb_n_tokens inp] (p0, []) = Some (p0', pos) \<and>
     auto_positions memory (in_seqs inp) (lb_n_tokens inp) pos \<and> (\<forall>x \<in> set pos. 0 \<le> x \<and> x < INT32_MAX)"
proof -
  let ?n = "lb_n_tokens inp"
  let ?r = "\<lambda>pos i s. reached memory (in_seqs inp) pos i s"
  obtain p0 where p0: "start_positions memory n_seq_max = Some p0" "\<forall>s < n_seq_max. p0 s = Some (mem_next memory s)"
    using start_positions_ok[OF mem] by blast
  define P where "P i st = (case st of (f, pos) \<Rightarrow> length pos = i \<and> (\<forall>s < n_seq_max. f s = Some (?r pos i s)) \<and>
     (\<forall>s < n_seq_max. 0 \<le> ?r pos i s \<and> ?r pos i s \<le> INT32_MAX - int ?n + int i) \<and>
     (\<forall>j < i. pos ! j = ?r pos j (nat (hd (in_seqs inp j)))) \<and> (\<forall>x \<in> set pos. 0 \<le> x \<and> x < INT32_MAX))" for i st
  have "\<exists>st. foldM (auto_pos (in_ns inp) (in_ids inp)) [0..<?n] (p0, []) = Some st \<and> P ?n st"
  proof (rule foldM_upt)
    show "P 0 (p0, [])" using p0(2) mem_next_bounds[OF mem] by (fastforce simp: P_def)
    fix i st assume i: "i < ?n" and st: "P i st"
    obtain f pos where fp: "st = (f, pos)" by fastforce
    note h = st[unfolded P_def fp prod.case]
    let ?p = "?r pos i (nat (hd (in_seqs inp i)))"
    note rng = seqs_in_range[OF inp valid max(1) i]
    have s: "nat (hd (in_seqs inp i)) < n_seq_max" using rng by (metis hd_in_set nat_less_iff)
    then have pb: "0 \<le> ?p" "?p \<le> INT32_MAX - int ?n + int i" using h by blast+
    have M: "in_i32 (INT32_MAX - int ?n + int i + 1)" using i pb by (auto simp: in_i32_def INT32_MAX_def)
    have arr: "i < length (in_ids inp)" "i < length (in_ns inp)" "0 < in_ns inp ! i" "in_ns inp ! i \<le> length (in_ids inp ! i)"
      using inp i by (auto simp: input_ok_def)
    obtain f' where f': "auto_pos (in_ns inp) (in_ids inp) i (f, pos) = Some (f', pos @ [?p])"
      "\<forall>s < n_seq_max. f' s = Some (?r (pos @ [?p]) (Suc i) s)"
      using auto_pos_ok[of i "in_ids inp" "in_ns inp" "in_seqs inp" n_seq_max pos f memory, OF arr _ rng(1) max(2) _ _ _ M] h
      by (auto simp: in_seqs_def)
    have li: "length pos = i" and hi: "j < i \<Longrightarrow> pos ! j = ?r pos j (nat (hd (in_seqs inp j)))" for j using h by blast+
    have bnd: "0 \<le> ?r (pos @ [?p]) (Suc i) s \<and> ?r (pos @ [?p]) (Suc i) s \<le> INT32_MAX - int ?n + int (Suc i)" if "s < n_seq_max" for s
    proof -
      have "0 \<le> ?r pos i s \<and> ?r pos i s \<le> INT32_MAX - int ?n + int i" using h that by blast
      then show ?thesis using pb by (simp add: reached_Suc[OF li])
    qed
    have eqs: "(pos @ [?p]) ! j = ?r (pos @ [?p]) j (nat (hd (in_seqs inp j)))" if "j < Suc i" for j
      using that hi li by (auto simp: reached_append nth_append less_Suc_eq)
    have xs: "\<forall>x \<in> set (pos @ [?p]). 0 \<le> x \<and> x < INT32_MAX" using h pb i by auto
    have "P (Suc i) (f', pos @ [?p])"
      unfolding P_def prod.case using f'(2) bnd eqs xs li by auto
    then show "\<exists>st'. auto_pos (in_ns inp) (in_ids inp) i st = Some st' \<and> P (Suc i) st'"
      using f'(1) fp by blast
  qed
  then obtain f pos where "foldM (auto_pos (in_ns inp) (in_ids inp)) [0..<?n] (p0, []) = Some (f, pos)" "P ?n (f, pos)"
    by auto
  with p0(1) show ?thesis by (auto simp: P_def auto_positions_def)
qed

section \<open>Completion\<close>

definition in_logits :: "bool \<Rightarrow> llama_batch \<Rightarrow> bool list" where
  "in_logits output_all inp = (case lb_logits inp of
     None \<Rightarrow> if output_all then replicate (lb_n_tokens inp) True
             else (replicate (lb_n_tokens inp) False)[lb_n_tokens inp - 1 := True]
   | Some l \<Rightarrow> if output_all \<and> (\<exists>i < lb_n_tokens inp. \<not> l ! i) then replicate (lb_n_tokens inp) True else l)"

definition completed :: "llama_memory_i option \<Rightarrow> bool \<Rightarrow> llama_batch \<Rightarrow> llama_batch \<Rightarrow> bool" where
  "completed memory output_all inp b \<longleftrightarrow> (\<exists>pos.
     b = inp\<lparr>lb_pos := Some pos, lb_n_seq_id := Some (in_ns inp), lb_seq_id := Some (in_ids inp),
             lb_logits := Some (in_logits output_all inp)\<rparr> \<and>
     (case lb_pos inp of Some p \<Rightarrow> pos = p | None \<Rightarrow> auto_positions memory (in_seqs inp) (lb_n_tokens inp) pos) \<and>
     (\<forall>x \<in> set pos. 0 \<le> x \<and> x < INT32_MAX))"

lemma fill_batch_ok:
  assumes inp: "input_ok n_pos n_embd inp" and valid: "seqs_valid n_seq_max inp"
    and max: "0 < n_seq_max" "n_seq_max \<le> LLAMA_MAX_SEQ" and mem: "memory_ok memory (lb_n_tokens inp) n_seq_max"
  shows "\<exists>b. fill_batch inp memory n_seq_max output_all = Some b \<and> completed memory output_all inp b"
proof (cases "lb_pos inp")
  case None
  obtain p0 pos p0' where p: "start_positions memory n_seq_max = Some p0"
    "foldM (auto_pos (in_ns inp) (in_ids inp)) [0..<lb_n_tokens inp] (p0, []) = Some (p0', pos)"
    "auto_positions memory (in_seqs inp) (lb_n_tokens inp) pos" "\<forall>x \<in> set pos. 0 \<le> x \<and> x < INT32_MAX"
    using auto_positions_ok[OF assms] by blast
  then show ?thesis
    unfolding fill_batch_def None Let_def completed_def in_ns_def[symmetric] in_ids_def[symmetric] in_logits_def[symmetric]
    by (simp add: None) blast
next
  case (Some pos)
  moreover have "\<forall>x \<in> set pos. 0 \<le> x \<and> x < INT32_MAX" using inp Some by (simp add: input_ok_def)
  ultimately show ?thesis
    by (simp add: fill_batch_def Let_def completed_def in_ns_def[symmetric] in_ids_def[symmetric] in_logits_def[symmetric])
qed

lemma completed_filled:
  assumes inp: "input_ok n_pos n_embd inp" and valid: "seqs_valid n_seq_max inp" and max: "0 < n_seq_max"
    and b: "completed memory output_all inp b"
  shows "batch_filled n_pos n_embd n_seq_max b" "lb_n_tokens b = lb_n_tokens inp" "lb_token b = lb_token inp" "tok_seqs b = in_seqs inp"
proof -
  obtain pos where pos: "b = inp\<lparr>lb_pos := Some pos, lb_n_seq_id := Some (in_ns inp), lb_seq_id := Some (in_ids inp),
             lb_logits := Some (in_logits output_all inp)\<rparr>"
     "case lb_pos inp of Some p \<Rightarrow> pos = p | None \<Rightarrow> auto_positions memory (in_seqs inp) (lb_n_tokens inp) pos"
    using b by (auto simp: completed_def)
  show n: "lb_n_tokens b = lb_n_tokens inp" "lb_token b = lb_token inp" using pos(1) by simp_all
  show "tok_seqs b = in_seqs inp" by (simp add: fun_eq_iff tok_seqs_def in_seqs_def pos(1))
  have len: "lb_n_tokens inp * (if lb_token inp \<noteq> None then 1 else n_pos) \<le> length pos"
    using inp pos(2) by (cases "lb_pos inp") (auto simp: input_ok_def auto_positions_def mult_le_cancel1)
  have out: "lb_n_tokens inp \<le> length (in_logits output_all inp)"
    using inp by (auto simp: in_logits_def input_ok_def split: option.splits)
  show "batch_filled n_pos n_embd n_seq_max b"
    using inp len out seqs_in_range(1)[OF inp valid max] unfolding batch_filled_def input_ok_def pos(1)
    by (simp add: in_seqs_def)
qed

end
