(* ===== verification/BatchEqual.thy ===== *)
theory BatchEqual
  imports BatchLaws
begin

text \<open>
  Laws of \<open>split_equal\<close>: the micro-batch consists of groups of equal length, one per sequence set, with
  pairwise disjoint sets, and every group is the front of the unused tokens of its set.
\<close>

section \<open>Choosing the sequence sets\<close>

definition lead :: "batch_allocr \<Rightarrow> nat \<Rightarrow> llama_seq_id" where
  "lead ba i = hd (tok_seqs (ba_batch ba) i)"

fun consecutive :: "int list \<Rightarrow> bool" where
  "consecutive (a # b # xs) \<longleftrightarrow> b = a + 1 \<and> consecutive (b # xs)"
| "consecutive _ \<longleftrightarrow> True"

definition disjoint :: "nat set list \<Rightarrow> bool" where
  "disjoint Ss \<longleftrightarrow> sorted_wrt (\<lambda>S T. S \<inter> T = {}) Ss"

text \<open>The sets found, each represented by its first unused token.\<close>

definition chosen :: "batch_allocr \<Rightarrow> nat list \<Rightarrow> bool" where
  "chosen ba rs \<longleftrightarrow> set rs \<subseteq> set (unused ba) \<and> disjoint (map ((!) (ba_seq_set ba)) rs)"

lemma disjoint_snoc: "disjoint (Ss @ [S]) \<longleftrightarrow> disjoint Ss \<and> (\<forall>T \<in> set Ss. T \<inter> S = {})"
  by (auto simp: disjoint_def sorted_wrt_append)

lemma consecutive_snoc: "consecutive (xs @ [x]) \<longleftrightarrow> consecutive xs \<and> (xs \<noteq> [] \<longrightarrow> x = last xs + 1)"
  by (induction xs rule: consecutive.induct) auto

lemma lead_nth:
  assumes "alloc_ok ba" "i < lb_n_tokens (ba_batch ba)"
  obtains ids where "lb_seq_id (ba_batch ba) = Some ids" "i < length ids" "ids ! i \<noteq> []" "ids ! i ! 0 = lead ba i"
proof -
  obtain ns ids where "lb_n_seq_id (ba_batch ba) = Some ns" "lb_seq_id (ba_batch ba) = Some ids"
    "i < length ids" "0 < ns ! i" "ns ! i \<le> length (ids ! i)"
    using assms by (fastforce simp: alloc_ok_def batch_filled_def)
  moreover from this have "ids ! i \<noteq> []" by auto
  ultimately show thesis by (intro that[of ids]) (auto simp: lead_def tok_seqs_def hd_conv_nth)
qed

lemma equal_sets_ok:
  assumes ok: "alloc_ok ba"
  shows "\<lbrakk>set is \<subseteq> {..<lb_n_tokens (ba_batch ba)}; chosen ba rs; length rs \<le> n_ubatch;
     sequential \<longrightarrow> consecutive (map (lead ba) rs); rs \<noteq> [] \<longrightarrow> last_seq_id = lead ba (last rs)\<rbrakk> \<Longrightarrow>
   \<exists>rs'. equal_sets ba n_ubatch sequential is (map ((!) (ba_seq_set ba)) rs) last_seq_id = Some (map ((!) (ba_seq_set ba)) rs') \<and>
     chosen ba rs' \<and> length rs' \<le> n_ubatch + 1 \<and> (sequential \<longrightarrow> consecutive (map (lead ba) rs')) \<and>
     (rs' = [] \<longrightarrow> rs = [] \<and> (\<forall>i \<in> set is. ba_used ba ! i))"
proof (induction "is" arbitrary: rs last_seq_id)
  case Nil
  then show ?case by (intro exI[of _ rs]) auto
next
  case (Cons i "is")
  let ?n = "lb_n_tokens (ba_batch ba)"
  let ?S = "(!) (ba_seq_set ba)"
  have i: "i < ?n" "i < length (ba_used ba)" "i < length (ba_seq_set ba)"
    using Cons.prems(1) ok by (auto simp: alloc_ok_def)
  obtain ids where ids: "lb_seq_id (ba_batch ba) = Some ids" "i < length ids" "ids ! i \<noteq> []" "ids ! i ! 0 = lead ba i"
    using lead_nth[OF ok i(1)] by blast
  let ?go = "\<lambda>cur q. equal_sets ba n_ubatch sequential is cur q"
  let ?add = "(\<forall>T \<in> set (map ?S rs). T \<inter> ?S i = {}) \<and> (sequential \<longrightarrow> map ?S rs = [] \<or> lead ba i = last_seq_id + 1)"
  have step: "equal_sets ba n_ubatch sequential (i # is) (map ?S rs) last_seq_id =
    (if ba_used ba ! i then ?go (map ?S rs) last_seq_id
     else if ?add then (if length rs + 1 > n_ubatch then Some (map ?S (rs @ [i])) else ?go (map ?S (rs @ [i])) (lead ba i))
     else ?go (map ?S rs) last_seq_id)"
    using i ids by (simp add: Let_def)
  show ?case
  proof (cases "\<not> ba_used ba ! i \<and> ?add")
    case False
    have "ba_used ba ! i \<or> rs \<noteq> []" using False by auto
    with step False Cons.IH[of rs last_seq_id] Cons.prems show ?thesis by auto
  next
    case True
    have new: "chosen ba (rs @ [i])"
      using Cons.prems(2) True i by (auto simp: chosen_def disjoint_snoc unused_def)
    have cons: "sequential \<longrightarrow> consecutive (map (lead ba) (rs @ [i]))"
      using Cons.prems(4,5) True by (auto simp: consecutive_snoc last_map)
    show ?thesis
    proof (cases "length rs + 1 > n_ubatch")
      case full: True
      with step True new cons Cons.prems(3) show ?thesis by (intro exI[of _ "rs @ [i]"]) auto
    next
      case False
      have "set is \<subseteq> {..<?n}" "length (rs @ [i]) \<le> n_ubatch" "rs @ [i] \<noteq> [] \<longrightarrow> lead ba i = lead ba (last (rs @ [i]))"
        using Cons.prems(1) False by auto
      from Cons.IH[OF this(1) new this(2) cons this(3)]
      obtain rs' where "?go (map ?S (rs @ [i])) (lead ba i) = Some (map ?S rs')" "chosen ba rs'" "length rs' \<le> n_ubatch + 1"
        "sequential \<longrightarrow> consecutive (map (lead ba) rs')" "rs' \<noteq> []"
        by blast
      with step True False show ?thesis by (intro exI[of _ rs']) simp
    qed
  qed
qed

section \<open>The rest of each set\<close>

text \<open>Within a sequence set the tokens are used from the front.\<close>

definition front :: "batch_allocr \<Rightarrow> bool" where
  "front ba \<longleftrightarrow> (\<forall>j < lb_n_tokens (ba_batch ba). \<forall>i < j. ba_seq_set ba ! i = ba_seq_set ba ! j \<longrightarrow> ba_used ba ! j \<longrightarrow> ba_used ba ! i)"

definition rest :: "batch_allocr \<Rightarrow> nat set \<Rightarrow> nat list" where
  "rest ba S = filter (\<lambda>i. ba_seq_set ba ! i = S) (unused ba)"

lemma skip_used_ok:
  "\<forall>i \<in> set is. i < length used \<Longrightarrow> c < length is \<Longrightarrow> \<exists>i \<in> set (drop c is). \<not> used ! i \<Longrightarrow>
    skip_used used is c = Some (c + length (takeWhile ((!) used) (drop c is)))"
proof (induction used "is" c rule: skip_used.induct)
  case (1 used "is" c)
  have i: "is ! c < length used" "drop c is = is ! c # drop (c + 1) is"
    using 1(2,3) by (simp_all add: Cons_nth_drop_Suc)
  show ?case
  proof (cases "used ! (is ! c)")
    case True
    then have more: "\<exists>i \<in> set (drop (c + 1) is). \<not> used ! i" using 1(4) i(2) by auto
    then have "c + 1 < length is" by (auto intro: ccontr)
    with 1(1) True i 1(2,3) more have "skip_used used is (c + 1) = Some (c + 1 + length (takeWhile ((!) used) (drop (c + 1) is)))"
      by blast
    with True i 1(3) show ?thesis by (subst skip_used.simps) simp
  next
    case False
    with i 1(3) show ?thesis by (subst skip_used.simps) simp
  qed
qed

lemma front_filter:
  "sorted xs \<Longrightarrow> distinct xs \<Longrightarrow> \<forall>i \<in> set xs. \<forall>j \<in> set xs. i < j \<longrightarrow> P j \<longrightarrow> P i \<Longrightarrow> dropWhile P xs = filter (\<lambda>i. \<not> P i) (xs :: nat list)"
proof (induction xs)
  case (Cons x xs)
  show ?case
  proof (cases "P x")
    case False
    have "\<not> P y" if "y \<in> set xs" for y using Cons.prems False that by (auto simp: le_less)
    with False show ?thesis by (simp add: filter_True)
  qed (use Cons in auto)
qed simp

text \<open>Skipping the used tokens of a set leads to its unused ones.\<close>

lemma skip_set:
  assumes ok: "alloc_ok ba" and f: "front ba" and i: "i \<in> set (unused ba)"
  defines "l \<equiv> ba_seq_set_map ba (ba_seq_set ba ! i)"
  shows "\<exists>c. skip_used (ba_used ba) l 0 = Some c \<and> drop c l = rest ba (ba_seq_set ba ! i)"
proof (intro exI conjI)
  let ?S = "ba_seq_set ba ! i"
  let ?n = "lb_n_tokens (ba_batch ba)"
  have l: "l = filter (\<lambda>i. ba_seq_set ba ! i = ?S) [0..<?n]" using ok by (simp add: l_def alloc_ok_def)
  have len: "length (ba_used ba) = ?n" using ok by (simp add: alloc_ok_def)
  have il: "i \<in> set l" "\<not> ba_used ba ! i" using i len by (auto simp: l unused_def)
  show "skip_used (ba_used ba) l 0 = Some (length (takeWhile ((!) (ba_used ba)) l))"
  proof -
    have "\<forall>i \<in> set l. i < length (ba_used ba)" using len by (auto simp: l)
    moreover have "0 < length l" "\<exists>i \<in> set (drop 0 l). \<not> ba_used ba ! i" using il by auto
    ultimately show ?thesis using skip_used_ok[of l "ba_used ba" 0] by simp
  qed
  have "dropWhile ((!) (ba_used ba)) l = filter (\<lambda>i. \<not> ba_used ba ! i) l"
    using f by (intro front_filter) (auto simp: l front_def sorted_wrt_filter)
  then show "drop (length (takeWhile ((!) (ba_used ba)) l)) l = rest ba ?S"
    by (simp add: dropWhile_eq_drop[symmetric] rest_def unused_def l len conj_commute)
qed

section \<open>The expansion loop\<close>

lemma mark_commute: "mark x \<circ> mark y = mark y \<circ> mark x"
proof (cases "x = y")
  case False
  then show ?thesis by (simp add: mark_def fun_eq_iff list_update_swap[of x y])
qed simp

lemma fold_mark_mset: "mset xs = mset ys \<Longrightarrow> fold mark xs ba = fold mark ys ba"
  by (metis fold_multiset_equiv mark_commute)

lemma fold_mark_used [simp]: "length (ba_used (fold mark xs ba)) = length (ba_used ba)"
  by (induction xs arbitrary: ba) auto

text \<open>The state after \<open>T s\<close> tokens have been taken from the set \<open>s\<close>.\<close>

definition heads :: "nat list list \<Rightarrow> (nat \<Rightarrow> nat) \<Rightarrow> nat list list" where
  "heads rs T = map (\<lambda>s. take (T s) (rs ! s)) [0..<length rs]"

definition turned :: "nat list \<Rightarrow> nat list list \<Rightarrow> batch_allocr \<Rightarrow> (nat \<Rightarrow> nat) \<Rightarrow> equal_state" where
  "turned cs rs ba T = (map (\<lambda>s. cs ! s + T s) [0..<length rs], heads rs T, fold mark (concat (heads rs T)) ba)"

lemma heads_update:
  assumes "s < length rs" "T s < length (rs ! s)"
  shows "heads rs (T(s := Suc (T s))) = (heads rs T)[s := heads rs T ! s @ [rs ! s ! T s]]"
proof (rule nth_equalityI)
  fix i assume i: "i < length (heads rs (T(s := Suc (T s))))"
  show "heads rs (T(s := Suc (T s))) ! i = (heads rs T)[s := heads rs T ! s @ [rs ! s ! T s]] ! i"
    using assms i by (cases "i = s") (simp_all add: heads_def take_Suc_conv_app_nth)
qed (simp add: heads_def)

lemma concat_update: "s < length xss \<Longrightarrow> mset (concat (xss[s := xss ! s @ [x]])) = mset (concat xss @ [x])"
proof -
  assume s: "s < length xss"
  then have "xss[s := xss ! s @ [x]] = take s xss @ (xss ! s @ [x]) # drop (Suc s) xss" by (rule upd_conv_take_nth_drop)
  moreover have "concat xss = concat (take s xss) @ xss ! s @ concat (drop (Suc s) xss)"
    by (metis id_take_nth_drop[OF s] concat.simps(2) concat_append)
  ultimately show ?thesis by simp
qed

lemma take_one_ok:
  assumes s: "s < length rs" "T s < length (rs ! s)" and rs: "length is = length rs"
    and rest: "drop (cs ! s) (is ! s) = rs ! s" and used: "\<forall>i \<in> set (rs ! s). i < length (ba_used ba)"
  shows "take_one is s (turned cs rs ba T) = Some (turned cs rs ba (T(s := Suc (T s))))"
proof -
  have i: "cs ! s + T s < length (is ! s)" "is ! s ! (cs ! s + T s) = rs ! s ! T s"
    using s(2) rest[symmetric] by simp_all
  have h: "length (heads rs T) = length rs" by (simp add: heads_def)
  have "mark (rs ! s ! T s) (fold mark (concat (heads rs T)) ba) = fold mark (concat (heads rs T) @ [rs ! s ! T s]) ba" by simp
  also have "\<dots> = fold mark (concat (heads rs (T(s := Suc (T s))))) ba"
    unfolding heads_update[of s rs T, OF s] using s(1) h by (intro fold_mark_mset) (simp only: concat_update)
  finally have m: "mark (rs ! s ! T s) (fold mark (concat (heads rs T)) ba) = fold mark (concat (heads rs (T(s := Suc (T s))))) ba" .
  have "(map (\<lambda>s. cs ! s + T s) [0..<length rs])[s := cs ! s + T s + 1] = map (\<lambda>x. cs ! x + (T(s := Suc (T s))) x) [0..<length rs]"
    using s(1) by (intro nth_equalityI) (auto simp: nth_list_update)
  moreover have "rs ! s ! T s < length (ba_used ba)" using used s(2) by simp
  ultimately show ?thesis
    using s(1) rs i by (simp add: take_one_def turned_def m heads_update[of s rs T, OF s])
qed

lemma take_all_ok:
  assumes rs: "length is = length rs" and t: "\<forall>s < length rs. t < length (rs ! s)"
    and rest: "\<forall>s < length rs. drop (cs ! s) (is ! s) = rs ! s" and used: "\<forall>l \<in> set rs. \<forall>i \<in> set l. i < length (ba_used ba)"
  shows "foldM (take_one is) [0..<length is] (turned cs rs ba (\<lambda>_. t)) = Some (turned cs rs ba (\<lambda>_. Suc t))"
proof -
  have "\<exists>st. foldM (take_one is) [0..<length is] (turned cs rs ba (\<lambda>_. t)) = Some st \<and>
      st = turned cs rs ba (\<lambda>s. if s < length is then Suc t else t)"
  proof (rule foldM_upt)
    fix s st assume s: "s < length is" "st = turned cs rs ba (\<lambda>s'. if s' < s then Suc t else t)"
    have "take_one is s st = Some (turned cs rs ba ((\<lambda>s'. if s' < s then Suc t else t)(s := Suc t)))"
    proof -
      have "\<forall>i \<in> set (rs ! s). i < length (ba_used ba)" using s(1) rs used by (metis nth_mem)
      with take_one_ok[of s rs "\<lambda>s'. if s' < s then Suc t else t" "is" cs ba] s rs t rest show ?thesis by simp
    qed
    moreover have "(\<lambda>s'. if s' < s then Suc t else t)(s := Suc t) = (\<lambda>s'. if s' < Suc s then Suc t else t)"
      by (auto simp: fun_eq_iff)
    ultimately show "\<exists>s'. take_one is s st = Some s' \<and> s' = turned cs rs ba (\<lambda>s'. if s' < Suc s then Suc t else t)" by simp
  qed simp
  moreover have "turned cs rs ba (\<lambda>s. if s < length is then Suc t else t) = turned cs rs ba (\<lambda>_. Suc t)"
  proof -
    have "heads rs (\<lambda>s. if s < length is then Suc t else t) = heads rs (\<lambda>_. Suc t)"
      using rs by (simp add: heads_def)
    then show ?thesis using rs by (simp add: turned_def)
  qed
  ultimately show ?thesis by metis
qed

lemma expand_ok:
  assumes rs: "length is = length rs" "rs \<noteq> []"
    and rest: "\<forall>s < length rs. drop (cs ! s) (is ! s) = rs ! s \<and> cs ! s \<le> length (is ! s)"
    and used: "\<forall>l \<in> set rs. \<forall>i \<in> set l. i < length (ba_used ba)"
  shows "\<forall>s < length rs. t \<le> length (rs ! s) \<Longrightarrow> \<exists>t'. expand n_ubatch is (turned cs rs ba (\<lambda>_. t)) = Some (turned cs rs ba (\<lambda>_. t')) \<and>
     t \<le> t' \<and> (\<forall>s < length rs. t' \<le> length (rs ! s)) \<and> ((\<forall>s < length rs. t < length (rs ! s)) \<longrightarrow> t < t') \<and>
     (t' \<le> t + 1 \<or> t' * length rs \<le> n_ubatch)"
proof (induction "length (rs ! 0) - t" arbitrary: t rule: less_induct)
  case less
  have can: "can_expand is (map (\<lambda>s. cs ! s + t) [0..<length rs]) \<longleftrightarrow> (\<forall>s < length rs. t < length (rs ! s))"
  proof -
    have "cs ! s + t < length (is ! s) \<longleftrightarrow> t < length (rs ! s)" if "s < length rs" for s
    proof -
      from rest that have "length (is ! s) - cs ! s = length (rs ! s)" "cs ! s \<le> length (is ! s)" by (metis length_drop)+
      then show ?thesis by linarith
    qed
    then show ?thesis using rs(1) by (simp add: can_expand_def)
  qed
  show ?case
  proof (cases "\<forall>s < length rs. t < length (rs ! s)")
    case False
    with can have "expand n_ubatch is (turned cs rs ba (\<lambda>_. t)) = Some (turned cs rs ba (\<lambda>_. t))"
      by (subst expand.simps) (simp add: turned_def)
    with False less.prems show ?thesis by (intro exI[of _ t]) simp
  next
    case True
    have len: "length (heads rs (\<lambda>_. Suc t) ! 0) = Suc t" using rs(2) True by (simp add: heads_def Suc_le_eq)
    have unf: "expand n_ubatch is (turned cs rs ba (\<lambda>_. t)) =
      (if (Suc t + 1) * length rs > n_ubatch then Some (turned cs rs ba (\<lambda>_. Suc t))
       else expand n_ubatch is (turned cs rs ba (\<lambda>_. Suc t)))"
      using take_all_ok[OF rs(1) True, of cs ba] rest used can True len rs(1)
      by (subst expand.simps) (simp add: turned_def)
    show ?thesis
    proof (cases "(Suc t + 1) * length rs > n_ubatch")
      case full: True
      with unf True show ?thesis by (intro exI[of _ "Suc t"]) (auto simp: Suc_le_eq)
    next
      case False
      have "length (rs ! 0) - Suc t < length (rs ! 0) - t" using True rs(2) by (simp add: diff_less_mono2)
      moreover have "\<forall>s<length rs. Suc t \<le> length (rs ! s)" using True by (simp add: Suc_le_eq)
      ultimately obtain t' where t': "expand n_ubatch is (turned cs rs ba (\<lambda>_. Suc t)) = Some (turned cs rs ba (\<lambda>_. t'))"
        "Suc t \<le> t'" "\<forall>s < length rs. t' \<le> length (rs ! s)" "t' \<le> Suc t + 1 \<or> t' * length rs \<le> n_ubatch"
        using less.hyps by blast
      have "t' * length rs \<le> n_ubatch"
      proof (cases "t' \<le> Suc t + 1")
        case True
        then have "t' * length rs \<le> (Suc t + 1) * length rs" by (rule mult_le_mono1)
        with False show ?thesis by simp
      qed (use t'(4) in blast)
      with t' unf False show ?thesis by (intro exI[of _ t']) auto
    qed
  qed
qed

section \<open>split\_equal\<close>

definition equal_inv :: "bool \<Rightarrow> batch_allocr \<Rightarrow> bool" where
  "equal_inv sequential ba \<longleftrightarrow> alloc_ok ba \<and> front ba \<and>
     (sequential \<longrightarrow> \<not> ba_has_cpl ba \<and> (\<forall>i < lb_n_tokens (ba_batch ba). length (tok_seqs (ba_batch ba) i) = 1))"

text \<open>
  The groups \<open>idxss\<close>: as many tokens \<open>t\<close> of each set, in the order of the batch, with \<open>t * n_seqs\<close> at most
  \<open>n_ubatch\<close> unless \<open>t\<close> is one. There are at most \<open>n_ubatch + 1\<close> sets.
\<close>

definition equal_shape :: "nat \<Rightarrow> bool \<Rightarrow> batch_allocr \<Rightarrow> nat list \<Rightarrow> llama_ubatch \<Rightarrow> bool" where
  "equal_shape n_ubatch sequential ba idxs ub \<longleftrightarrow>
     (\<exists>idxss t. idxs = concat idxss \<and> gathered ba idxs (length idxss) True ub \<and> idxss \<noteq> [] \<and> length idxss \<le> n_ubatch + 1 \<and>
        0 < t \<and> (t = 1 \<or> t * length idxss \<le> n_ubatch) \<and>
        (\<forall>l \<in> set idxss. length l = t \<and> sorted l \<and> (\<forall>i \<in> set l. ba_seq_set ba ! i = ba_seq_set ba ! hd l)) \<and>
        disjoint (map (\<lambda>l. ba_seq_set ba ! hd l) idxss) \<and>
        (sequential \<longrightarrow> consecutive (map (\<lambda>l. lead ba (hd l)) idxss)))"

lemma set_nonempty:
  assumes "alloc_ok ba" "i < lb_n_tokens (ba_batch ba)"
  shows "ba_seq_set ba ! i \<noteq> {}"
proof -
  have "ba_seq_set ba = map (\<lambda>i. nat ` set (tok_seqs (ba_batch ba) i)) [0..<lb_n_tokens (ba_batch ba)]"
    using assms(1) unfolding alloc_ok_def by blast
  moreover have "tok_seqs (ba_batch ba) i \<noteq> []"
    using gather_seqs_ok(3) assms unfolding alloc_ok_def by blast
  ultimately show ?thesis using assms(2) by simp
qed

lemma unused_less: "alloc_ok ba \<Longrightarrow> i \<in> set (unused ba) \<Longrightarrow> i < lb_n_tokens (ba_batch ba)"
  by (simp add: unused_def alloc_ok_def)

lemma concat_pick:
  assumes ok: "alloc_ok ba" and ch: "chosen ba reps" and ne: "reps \<noteq> []" "0 < t"
    and len: "\<forall>r \<in> set reps. t \<le> length (rest ba (ba_seq_set ba ! r))"
  shows "pick ba (concat (map (\<lambda>r. take t (rest ba (ba_seq_set ba ! r))) reps))"
proof -
  let ?g = "\<lambda>r. take t (rest ba (ba_seq_set ba ! r))"
  have mem: "i \<in> set (unused ba) \<and> ba_seq_set ba ! i = ba_seq_set ba ! r" if "i \<in> set (?g r)" for i r
    using set_take_subset[of t] that by (fastforce simp: rest_def)
  have "distinct (concat (map ?g reps))"
    using ch
  proof (induction reps)
    case (Cons r reps)
    have sub: "chosen ba reps" using Cons.prems by (simp add: chosen_def disjoint_def)
    have "set (?g r) \<inter> set (?g r') = {}" if r': "r' \<in> set reps" for r'
    proof -
      have "ba_seq_set ba ! r \<inter> ba_seq_set ba ! r' = {}" using Cons.prems r' by (simp add: chosen_def disjoint_def)
      moreover have "ba_seq_set ba ! r \<noteq> {}"
        by (rule set_nonempty[OF ok unused_less[OF ok]]) (use Cons.prems in \<open>simp add: chosen_def\<close>)
      ultimately have "ba_seq_set ba ! r \<noteq> ba_seq_set ba ! r'" by blast
      then show ?thesis using mem by (metis disjoint_iff)
    qed
    moreover have "distinct (?g r)" by (simp add: rest_def unused_def)
    ultimately show ?case using Cons.IH[OF sub] by auto
  qed simp
  moreover have "concat (map ?g reps) \<noteq> []"
  proof -
    have "t \<le> length (rest ba (ba_seq_set ba ! hd reps))" using ne(1) len by simp
    then have "?g (hd reps) \<noteq> []" using ne(2) by auto
    with ne(1) show ?thesis by (cases reps) auto
  qed
  moreover have "set (concat (map ?g reps)) \<subseteq> set (unused ba)" unfolding set_concat set_map using mem by blast
  ultimately show ?thesis unfolding pick_def by blast
qed

lemma sorted_take_mem: "sorted xs \<Longrightarrow> j \<in> set (take t xs) \<Longrightarrow> i \<in> set xs \<Longrightarrow> i < j \<Longrightarrow> i \<in> set (take t (xs::nat list))"
proof (induction xs arbitrary: t)
  case (Cons x xs)
  then show ?case by (cases t) auto
qed simp

lemma front_taken:
  assumes ok: "alloc_ok ba" and f: "front ba" and ch: "chosen ba reps"
    and idxs: "idxs = concat (map (\<lambda>r. take t (rest ba (ba_seq_set ba ! r))) reps)"
  shows "front (taken idxs ba)"
  unfolding front_def
proof (intro allI impI)
  fix i j
  assume j: "j < lb_n_tokens (ba_batch (taken idxs ba))" "i < j"
    and S: "ba_seq_set (taken idxs ba) ! i = ba_seq_set (taken idxs ba) ! j" and u: "ba_used (taken idxs ba) ! j"
  have n: "j < lb_n_tokens (ba_batch ba)" "length (ba_used ba) = lb_n_tokens (ba_batch ba)"
    using j ok by (simp_all add: alloc_ok_def)
  have used: "ba_used (taken idxs ba) ! k \<longleftrightarrow> k \<in> set idxs \<or> ba_used ba ! k" if "k \<le> j" for k
    using that n by (simp add: taken_def nth_set_many)
  show "ba_used (taken idxs ba) ! i"
  proof (cases "ba_used ba ! j \<or> ba_used ba ! i")
    case True
    with f j S n show ?thesis unfolding used[OF less_imp_le[OF j(2)]] front_def by auto
  next
    case False
    with u used obtain r where r: "r \<in> set reps" "j \<in> set (take t (rest ba (ba_seq_set ba ! r)))" by (auto simp: idxs)
    have "ba_seq_set ba ! j = ba_seq_set ba ! r" using set_take_subset[of t] r(2) by (fastforce simp: rest_def)
    then have "i \<in> set (rest ba (ba_seq_set ba ! r))" using False S n j(2) by (simp add: rest_def unused_def)
    moreover have "sorted (rest ba (ba_seq_set ba ! r))" by (simp add: rest_def unused_def sorted_wrt_filter)
    ultimately have "i \<in> set (take t (rest ba (ba_seq_set ba ! r)))" using sorted_take_mem r(2) j(2) by blast
    with r(1) have "i \<in> set idxs" unfolding idxs by auto
    then show ?thesis unfolding used[OF less_imp_le[OF j(2)]] by blast
  qed
qed

lemma skip_all:
  assumes inv: "alloc_ok ba" "front ba" and ch: "chosen ba reps"
  defines "is \<equiv> map (ba_seq_set_map ba) (map ((!) (ba_seq_set ba)) reps)"
  shows "\<exists>cs. mapM (\<lambda>l. skip_used (ba_used ba) l 0) is = Some cs \<and> length cs = length reps \<and>
    (\<forall>s < length reps. drop (cs ! s) (is ! s) = rest ba (ba_seq_set ba ! (reps ! s)) \<and> cs ! s \<le> length (is ! s))"
proof -
  have "\<forall>s < length reps. \<exists>c. skip_used (ba_used ba) (is ! s) 0 = Some c \<and>
      drop c (is ! s) = rest ba (ba_seq_set ba ! (reps ! s))"
    using skip_set[OF inv] ch by (simp add: is_def chosen_def subset_iff)
  then obtain f where f: "\<forall>s < length reps. skip_used (ba_used ba) (is ! s) 0 = Some (f s) \<and>
      drop (f s) (is ! s) = rest ba (ba_seq_set ba ! (reps ! s))" by metis
  have ne: "rest ba (ba_seq_set ba ! (reps ! s)) \<noteq> []" if "s < length reps" for s
  proof -
    have "reps ! s \<in> set (rest ba (ba_seq_set ba ! (reps ! s)))"
      using ch that by (auto simp: chosen_def rest_def subset_iff)
    then show ?thesis by auto
  qed
  have "mapM (\<lambda>l. skip_used (ba_used ba) l 0) is = Some (map f [0..<length reps])"
    using f by (simp add: mapM_Some list_all2_conv_all_nth is_def)
  moreover have "f s \<le> length (is ! s)" if "s < length reps" for s
    using f ne that by (metis drop_all nat_le_linear)
  ultimately show ?thesis using f by (intro exI[of _ "map f [0..<length reps]"]) simp
qed

lemma expand_start:
  assumes inv: "alloc_ok ba" "front ba" and ch: "chosen ba reps" and ne: "reps \<noteq> []"
  defines "is \<equiv> map (ba_seq_set_map ba) (map ((!) (ba_seq_set ba)) reps)"
  assumes cs: "length cs = length reps"
    "\<forall>s < length reps. drop (cs ! s) (is ! s) = rest ba (ba_seq_set ba ! (reps ! s)) \<and> cs ! s \<le> length (is ! s)"
  shows "\<exists>t cs'. expand n_ubatch is (cs, replicate (length reps) [], ba) =
      Some (cs', map (\<lambda>r. take t (rest ba (ba_seq_set ba ! r))) reps,
            fold mark (concat (map (\<lambda>r. take t (rest ba (ba_seq_set ba ! r))) reps)) ba) \<and>
    0 < t \<and> (t = 1 \<or> t * length reps \<le> n_ubatch) \<and> (\<forall>r \<in> set reps. t \<le> length (rest ba (ba_seq_set ba ! r)))"
proof -
  define rs where "rs = map (\<lambda>r. rest ba (ba_seq_set ba ! r)) reps"
  have heads: "heads rs (\<lambda>_. t) = map (\<lambda>r. take t (rest ba (ba_seq_set ba ! r))) reps" for t
    by (rule nth_equalityI) (simp_all add: heads_def rs_def)
  have start: "(cs, replicate (length reps) [], ba) = turned cs rs ba (\<lambda>_. 0)"
  proof -
    have "map (\<lambda>s. cs ! s + 0) [0..<length rs] = cs" using cs(1) by (intro nth_equalityI) (simp_all add: rs_def)
    moreover have "heads rs (\<lambda>_. 0) = replicate (length reps) []" by (simp add: heads map_replicate_const)
    ultimately show ?thesis by (simp add: turned_def)
  qed
  have used: "\<forall>l \<in> set rs. \<forall>i \<in> set l. i < length (ba_used ba)" by (auto simp: rs_def rest_def unused_def)
  have len: "length is = length rs" "rs \<noteq> []" "length rs = length reps" using ne by (simp_all add: is_def rs_def)
  have nonempty: "0 < length (rs ! s)" if "s < length rs" for s
  proof -
    have "reps ! s \<in> set (rs ! s)" using ch that by (auto simp: chosen_def rs_def rest_def subset_iff)
    then show ?thesis by (cases "rs ! s") auto
  qed
  obtain t where t: "expand n_ubatch is (turned cs rs ba (\<lambda>_. 0)) = Some (turned cs rs ba (\<lambda>_. t))"
    "\<forall>s < length rs. t \<le> length (rs ! s)" "0 < t" "t \<le> 0 + 1 \<or> t * length rs \<le> n_ubatch"
    using expand_ok[OF len(1,2) _ used, of cs 0 n_ubatch] cs(2) nonempty by (auto simp: rs_def)
  have "\<forall>r \<in> set reps. t \<le> length (rest ba (ba_seq_set ba ! r))"
    using t(2) by (auto simp: rs_def in_set_conv_nth)
  moreover have "t = 1 \<or> t * length reps \<le> n_ubatch" using t(3,4) len(3) by auto
  moreover have "expand n_ubatch is (cs, replicate (length reps) [], ba) = Some (turned cs rs ba (\<lambda>_. t))"
    using t(1) start by simp
  ultimately show ?thesis using t(3) unfolding turned_def heads by blast
qed

lemma length_concat_same: "\<forall>l \<in> set xss. length l = t \<Longrightarrow> length (concat xss) = length xss * t"
  by (induction xss) auto

lemma lead_of_set:
  assumes ok: "alloc_ok ba" and n: "i < lb_n_tokens (ba_batch ba)" "j < lb_n_tokens (ba_batch ba)"
    and one: "length (tok_seqs (ba_batch ba) i) = 1" "length (tok_seqs (ba_batch ba) j) = 1"
    and S: "ba_seq_set ba ! i = ba_seq_set ba ! j"
  shows "lead ba i = lead ba j"
proof -
  obtain p q where pq: "tok_seqs (ba_batch ba) i = [p]" "tok_seqs (ba_batch ba) j = [q]"
    using one by (metis One_nat_def length_0_conv length_Suc_conv)
  have "ba_seq_set ba = map (\<lambda>i. nat ` set (tok_seqs (ba_batch ba) i)) [0..<lb_n_tokens (ba_batch ba)]"
    using ok by (simp add: alloc_ok_def)
  then have "nat p = nat q" using S n pq by simp
  moreover have "0 \<le> p" "0 \<le> q"
    using gather_seqs_ok(2)[of _ _ _ "ba_batch ba" i] gather_seqs_ok(2)[of _ _ _ "ba_batch ba" j] ok n pq
    unfolding alloc_ok_def by fastforce+
  ultimately show ?thesis using pq by (simp add: lead_def eq_nat_nat_iff)
qed

lemma split_equal_ok:
  assumes inv: "equal_inv sequential ba" and more: "unused ba \<noteq> []"
  shows "\<exists>idxs ub. split_equal n_ubatch sequential ba = Some (ub, taken idxs ba) \<and> pick ba idxs \<and> ub_n_tokens ub = length idxs \<and>
    equal_shape n_ubatch sequential ba idxs ub \<and> equal_inv sequential (taken idxs ba)"
proof -
  let ?n = "lb_n_tokens (ba_batch ba)"
  have ok: "alloc_ok ba" and f: "front ba" 
    and seq: "sequential \<longrightarrow> \<not> ba_has_cpl ba \<and> (\<forall>i < lb_n_tokens (ba_batch ba). length (tok_seqs (ba_batch ba) i) = 1)"
    using inv by (simp_all add: equal_inv_def)
  obtain reps where e: "equal_sets ba n_ubatch sequential [0..<?n] [] (-1) = Some (map ((!) (ba_seq_set ba)) reps)"
    and ch: "chosen ba reps" and n: "length reps \<le> n_ubatch + 1" and cons: "sequential \<longrightarrow> consecutive (map (lead ba) reps)"
    and ne': "reps = [] \<longrightarrow> (\<forall>i \<in> set [0..<?n]. ba_used ba ! i)"
  proof -
    have "set [0..<?n] \<subseteq> {..<?n}" "chosen ba []" by (auto simp: chosen_def disjoint_def)
    from equal_sets_ok[OF ok this, of n_ubatch sequential "-1"] show thesis using that by simp blast
  qed
  have ne: "reps \<noteq> []"
  proof
    assume "reps = []"
    with ne' have "\<forall>i < ?n. ba_used ba ! i" by simp
    with more ok show False by (auto simp: unused_def alloc_ok_def filter_empty_conv)
  qed
  define "is" where "is = map (ba_seq_set_map ba) (map ((!) (ba_seq_set ba)) reps)"
  obtain cs where cs: "mapM (\<lambda>l. skip_used (ba_used ba) l 0) is = Some cs" "length cs = length reps"
    "\<forall>s < length reps. drop (cs ! s) (is ! s) = rest ba (ba_seq_set ba ! (reps ! s)) \<and> cs ! s \<le> length (is ! s)"
    using skip_all[OF ok f ch] unfolding is_def by blast
  obtain t cs' where x: "expand n_ubatch is (cs, replicate (length reps) [], ba) =
      Some (cs', map (\<lambda>r. take t (rest ba (ba_seq_set ba ! r))) reps,
            fold mark (concat (map (\<lambda>r. take t (rest ba (ba_seq_set ba ! r))) reps)) ba)"
    and t: "0 < t" "t = 1 \<or> t * length reps \<le> n_ubatch" "\<forall>r \<in> set reps. t \<le> length (rest ba (ba_seq_set ba ! r))"
    using expand_start[OF ok f ch ne cs(2) cs(3)[unfolded is_def], of n_ubatch, folded is_def] by (elim exE conjE) (rule that)
  define idxss where "idxss = map (\<lambda>r. take t (rest ba (ba_seq_set ba ! r))) reps"
  have len: "length idxss = length reps" "\<forall>l \<in> set idxss. length l = t" using t(3) by (auto simp: idxss_def)
  have size: "length (concat idxss) = length reps * t"
    using length_concat_same[OF len(2)] len(1) by simp
  have p: "pick ba (concat idxss)" unfolding idxss_def by (rule concat_pick[OF ok ch ne t(1,3)])
  obtain ub where ub: "ubatch_add (concat idxss) (length reps) True (fold mark (concat idxss) ba) = Some (ub, taken (concat idxss) ba)"
    "gathered ba (concat idxss) (length reps) True ub"
    using ubatch_add_pick[OF ok p, of "length reps" True] ne size by auto
  have "split_equal n_ubatch sequential ba = Some (ub, taken (concat idxss) ba)"
    using seq e ne cs(1) x ub(1) by (auto simp: split_equal_def Let_def is_def idxss_def)
  moreover have "equal_inv sequential (taken (concat idxss) ba)"
    using taken_ok[OF ok p] front_taken[OF ok f ch, of "concat idxss" t] seq by (simp add: equal_inv_def idxss_def)
  moreover have "equal_shape n_ubatch sequential ba (concat idxss) ub"
    unfolding equal_shape_def
  proof (intro exI[of _ idxss] exI[of _ t] conjI refl)
    have S: "ba_seq_set ba ! i = ba_seq_set ba ! r" if "i \<in> set (take t (rest ba (ba_seq_set ba ! r)))" for i r
      using set_take_subset[of t] that by (fastforce simp: rest_def)
    have hd_in: "hd (take t (rest ba (ba_seq_set ba ! r))) \<in> set (take t (rest ba (ba_seq_set ba ! r)))" if "r \<in> set reps" for r
      using t(1,3) that by (intro hd_in_set) fastforce
    show "\<forall>l \<in> set idxss. length l = t \<and> sorted l \<and> (\<forall>i \<in> set l. ba_seq_set ba ! i = ba_seq_set ba ! hd l)"
    proof
      fix l assume l: "l \<in> set idxss"
      then obtain r where r: "r \<in> set reps" "l = take t (rest ba (ba_seq_set ba ! r))" unfolding idxss_def by auto
      have "sorted (rest ba (ba_seq_set ba ! r))" by (simp add: rest_def unused_def sorted_wrt_filter)
      then have "sorted l" unfolding r(2) by (rule sorted_wrt_take)
      moreover have "ba_seq_set ba ! i = ba_seq_set ba ! hd l" if "i \<in> set l" for i
        using S[of i r] S[OF hd_in[OF r(1)]] that unfolding r(2) by simp
      ultimately show "length l = t \<and> sorted l \<and> (\<forall>i \<in> set l. ba_seq_set ba ! i = ba_seq_set ba ! hd l)"
        using len(2) l by blast
    qed
    have hd_set: "map (\<lambda>l. ba_seq_set ba ! hd l) idxss = map ((!) (ba_seq_set ba)) reps"
    proof -
      have "ba_seq_set ba ! hd (take t (rest ba (ba_seq_set ba ! r))) = ba_seq_set ba ! r" if "r \<in> set reps" for r
        by (rule S[OF hd_in[OF that]])
      then show ?thesis unfolding idxss_def by simp
    qed
    then show "disjoint (map (\<lambda>l. ba_seq_set ba ! hd l) idxss)" using ch by (simp add: chosen_def)
    have "lead ba (hd (take t (rest ba (ba_seq_set ba ! r)))) = lead ba r" if "sequential" "r \<in> set reps" for r
    proof -
      let ?h = "hd (take t (rest ba (ba_seq_set ba ! r)))"
      have "?h \<in> set (rest ba (ba_seq_set ba ! r))" using hd_in[OF that(2)] by (rule in_set_takeD)
      then have h: "?h < ?n" using unused_less[OF ok] by (simp add: rest_def)
      have r: "r < ?n" using ch that(2) unused_less[OF ok] by (auto simp: chosen_def)
      show ?thesis
        by (rule lead_of_set[OF ok h r _ _ S[OF hd_in[OF that(2)]]]) (use seq that(1) h r in blast)+
    qed
    then show "sequential \<longrightarrow> consecutive (map (\<lambda>l. lead ba (hd l)) idxss)"
      using cons by (simp add: idxss_def cong: map_cong)
  qed (use ub ne len n t in auto)
  moreover have "ub_n_tokens ub = length (concat idxss)" using ub(2) unfolding gathered_def by blast
  ultimately show ?thesis using p by blast
qed

interpretation equal: batch_split "split_equal n_ubatch sequential" "equal_inv sequential" "equal_shape n_ubatch sequential" for n_ubatch sequential
proof (unfold_locales, goal_cases)
  case (1 ba)
  then show ?case by (rule split_equal_ok)
next
  case (2 ba)
  have "set [0..<lb_n_tokens (ba_batch ba)] \<subseteq> {..<lb_n_tokens (ba_batch ba)}" "chosen ba []" by (auto simp: chosen_def disjoint_def)
  moreover have ok: "alloc_ok ba" using 2(1) by (simp add: equal_inv_def)
  ultimately obtain rs where rs: "equal_sets ba n_ubatch sequential [0..<lb_n_tokens (ba_batch ba)] [] (-1) =
      Some (map ((!) (ba_seq_set ba)) rs)" "chosen ba rs"
    using equal_sets_ok[OF ok, of "[0..<lb_n_tokens (ba_batch ba)]" "[]" n_ubatch sequential "-1"] by auto
  with 2(2) have "rs = []" by (simp add: chosen_def)
  with rs(1) show ?case by (simp add: split_equal_def)
next
  case (3 idxs ba)
  show ?case by (simp add: equal_shape_def lead_def fun_eq_iff)
qed

end
