(* ===== verification/BatchInitLaws.thy ===== *)
theory BatchInitLaws
  imports BatchInit BatchEqual
begin

text \<open>
  The second half of \<open>llama_batch_allocr::init\<close>: the statistics over the sequences of the batch, the
  consistency checks, and the acceptance condition of the whole routine.
\<close>

section \<open>Entries\<close>

lemma foldM_collect:
  "(\<And>x acc. x \<in> set xs \<Longrightarrow> f x acc = Some (acc @ g x)) \<Longrightarrow> foldM f xs acc = Some (acc @ concat (map g xs))"
  by (induction xs arbitrary: acc) auto

lemma foldM_fold:
  "(\<And>x s. x \<in> set xs \<Longrightarrow> f x s = Some (g x s)) \<Longrightarrow> foldM f xs s = Some (fold g xs s)"
  by (induction xs arbitrary: s) auto

definition entries :: "llama_batch \<Rightarrow> (nat \<times> nat \<times> llama_seq_id) list" where
  "entries b = concat (map (\<lambda>i. map (\<lambda>k. (i, k, tok_seqs b i ! k)) [0..<length (tok_seqs b i)]) [0..<lb_n_tokens b])"

lemma entries_iff: "(i, k, q) \<in> set (entries b) \<longleftrightarrow> i < lb_n_tokens b \<and> k < length (tok_seqs b i) \<and> q = tok_seqs b i ! k"
  by (force simp: entries_def)

lemma seq_entries_ok:
  assumes "batch_filled n_pos n_embd n_seq_max b"
  shows "seq_entries b = Some (entries b)"
proof -
  obtain ns ids where a: "lb_n_seq_id b = Some ns" "lb_seq_id b = Some ids" "lb_n_tokens b \<le> length ns" "lb_n_tokens b \<le> length ids"
    "\<forall>i < lb_n_tokens b. ns ! i \<le> length (ids ! i)"
    using assms by (auto simp: batch_filled_def)
  have inner: "foldM (\<lambda>k acc. Option.bind (at (ids ! i) k) (\<lambda>q. Some (acc @ [(i, k, q)]))) [0..<ns ! i] acc =
      Some (acc @ map (\<lambda>k. (i, k, tok_seqs b i ! k)) [0..<length (tok_seqs b i)])" if i: "i < lb_n_tokens b" for i acc
  proof -
    have l: "ns ! i \<le> length (ids ! i)" using a(5) i by blast
    have "foldM (\<lambda>k acc. Option.bind (at (ids ! i) k) (\<lambda>q. Some (acc @ [(i, k, q)]))) [0..<ns ! i] acc =
        Some (acc @ concat (map (\<lambda>k. [(i, k, ids ! i ! k)]) [0..<ns ! i]))"
      using l by (intro foldM_collect) auto
    moreover have "concat (map (\<lambda>k. [(i, k, ids ! i ! k)]) [0..<ns ! i]) = map (\<lambda>k. (i, k, tok_seqs b i ! k)) [0..<length (tok_seqs b i)]"
      using l by (auto simp: tok_seqs_def a(1,2) min_absorb2 intro: map_cong)
    ultimately show ?thesis by simp
  qed
  have "foldM (\<lambda>i acc. Option.bind (at ns i) (\<lambda>n. Option.bind (at ids i) (\<lambda>l.
         foldM (\<lambda>k acc. Option.bind (at l k) (\<lambda>q. Some (acc @ [(i, k, q)]))) [0..<n] acc))) [0..<lb_n_tokens b] [] =
      Some ([] @ entries b)"
    unfolding entries_def using a(3,4) inner by (intro foldM_collect) (auto simp: at_def)
  then show ?thesis by (simp add: seq_entries_def a(1,2))
qed

lemma token_set_entries:
  assumes "i < lb_n_tokens b"
  shows "token_set (entries b) i = nat ` set (tok_seqs b i)"
proof -
  have "token_set (entries b) i = {nat (tok_seqs b i ! k) | k. k < length (tok_seqs b i)}"
    using assms by (auto simp: token_set_def entries_iff)
  also have "\<dots> = nat ` {tok_seqs b i ! k | k. k < length (tok_seqs b i)}" by blast
  finally show ?thesis by (simp add: set_conv_nth)
qed

section \<open>Statistics\<close>

text \<open>The positions of a sequence in the batch, and the sequences that share a token behind its first one.\<close>

definition batch_positions :: "llama_batch \<Rightarrow> nat \<Rightarrow> llama_pos set" where
  "batch_positions b s = {the (lb_pos b) ! i | i. i < lb_n_tokens b \<and> s \<in> nat ` set (tok_seqs b i)}"

definition coupled :: "llama_batch \<Rightarrow> nat \<Rightarrow> nat \<Rightarrow> bool" where
  "coupled b s1 s0 \<longleftrightarrow> (\<exists>i < lb_n_tokens b. nat (hd (tok_seqs b i)) = s0 \<and> s1 \<in> nat ` set (tl (tok_seqs b i)))"

lemma finite_batch_positions [simp]: "finite (batch_positions b s)"
  by (simp add: batch_positions_def)

definition note_pure :: "llama_batch \<Rightarrow> nat \<times> nat \<times> llama_seq_id \<Rightarrow> batch_allocr \<Rightarrow> batch_allocr" where
  "note_pure b e ba = (case e of (i, k, q) \<Rightarrow>
     ba\<lparr>ba_seq_pos := (ba_seq_pos ba)(nat q := oset_insert (the (lb_pos b) ! i) (ba_seq_pos ba (nat q))),
        ba_seq_cpl := (if k > 0 then (ba_seq_cpl ba)(nat q := (ba_seq_cpl ba (nat q))(nat (hd (tok_seqs b i)) := True))
                       else ba_seq_cpl ba),
        ba_has_cpl := ba_has_cpl ba \<or> k > 0\<rparr>)"

lemma note_entry_ok:
  assumes f: "batch_filled n_pos n_embd n_seq_max b" "n_seq_max \<le> LLAMA_MAX_SEQ" and e: "e \<in> set (entries b)"
    and p: "lb_pos b = Some pos" "lb_n_tokens b \<le> length pos"
  shows "note_entry b e ba = Some (note_pure b e ba)"
proof -
  obtain i k q where ikq: "e = (i, k, q)" by (cases e)
  with e have i: "i < lb_n_tokens b" and k: "k < length (tok_seqs b i)" "q = tok_seqs b i ! k" by (auto simp: entries_iff)
  obtain ns ids where a: "lb_n_seq_id b = Some ns" "lb_seq_id b = Some ids" "i < length ids" "0 < ns ! i" "ns ! i \<le> length (ids ! i)"
    using f i by (auto simp: batch_filled_def)
  have l0: "0 < length (ids ! i)" using a by linarith
  note s = gather_seqs_ok(2,3)[OF f(1) i]
  have h: "ids ! i ! 0 = hd (tok_seqs b i)" using a s(2) by (simp add: tok_seqs_def hd_conv_nth)
  have bit: "seq_bit x = Some (nat x)" if "x \<in> set (tok_seqs b i)" for x
    using s(1) that f(2) by (auto simp: seq_bit_def)
  have "seq_bit (hd (tok_seqs b i)) = Some (nat (hd (tok_seqs b i)))" "seq_bit q = Some (nat q)"
    using bit s(2) k by auto
  then show ?thesis
    using a(2,3) l0 h p i by (auto simp: note_entry_def note_pure_def ikq)
qed

lemma fold_note_other:
  "ba_batch (fold (note_pure b) es ba) = ba_batch ba" "ba_n_pos_per_embd (fold (note_pure b) es ba) = ba_n_pos_per_embd ba"
  "ba_n_embd (fold (note_pure b) es ba) = ba_n_embd ba" "ba_n_seq_max (fold (note_pure b) es ba) = ba_n_seq_max ba"
  by (induction es arbitrary: ba) (auto simp: note_pure_def)

lemma fold_note_pos:
  "ba_seq_pos (fold (note_pure b) es ba) s =
     fold oset_insert (map (\<lambda>(i, _, _). the (lb_pos b) ! i) (filter (\<lambda>(_, _, q). nat q = s) es)) (ba_seq_pos ba s)"
  by (induction es arbitrary: ba) (auto simp: note_pure_def)

lemma fold_note_cpl:
  "ba_seq_cpl (fold (note_pure b) es ba) s1 s0 \<longleftrightarrow>
     ba_seq_cpl ba s1 s0 \<or> (\<exists>(i, k, q) \<in> set es. k > 0 \<and> nat q = s1 \<and> nat (hd (tok_seqs b i)) = s0)"
  by (induction es arbitrary: ba) (auto simp: note_pure_def split: if_splits)

lemma fold_note_has:
  "ba_has_cpl (fold (note_pure b) es ba) \<longleftrightarrow> ba_has_cpl ba \<or> (\<exists>(i, k, q) \<in> set es. k > 0)"
  by (induction es arbitrary: ba) (auto simp: note_pure_def)

lemma fold_oset_insert:
  "finite A \<Longrightarrow> fold oset_insert xs (sorted_list_of_set A) = sorted_list_of_set (A \<union> set xs)"
  by (induction xs arbitrary: A) (simp_all add: oset_insert_sorted_list del: sorted_list_of_set_insert_remove)

lemma nat_image_nth: "s \<in> nat ` set l \<longleftrightarrow> (\<exists>k < length l. s = nat (l ! k))"
  by (force simp: set_conv_nth image_iff)

lemma noted_positions:
  assumes "ba_seq_pos ba s = []"
  shows "ba_seq_pos (fold (note_pure b) (entries b) ba) s = sorted_list_of_set (batch_positions b s)"
proof -
  have "(\<lambda>(i, _, _). the (lb_pos b) ! i) ` set (filter (\<lambda>(_, _, q). nat q = s) (entries b)) =
      {the (lb_pos b) ! i | i k. i < lb_n_tokens b \<and> k < length (tok_seqs b i) \<and> s = nat (tok_seqs b i ! k)}"
    by (auto simp: entries_iff image_def)
  also have "\<dots> = batch_positions b s"
    unfolding batch_positions_def nat_image_nth by blast
  finally have "(\<lambda>(i, _, _). the (lb_pos b) ! i) ` set (filter (\<lambda>(_, _, q). nat q = s) (entries b)) = batch_positions b s" .
  then show ?thesis
    unfolding fold_note_pos assms by (simp add: fold_oset_insert[of "{} :: int set", simplified])
qed

lemma noted_coupled:
  assumes "batch_filled n_pos n_embd n_seq_max b"
  shows "(\<exists>(i, k, q) \<in> set (entries b). k > 0 \<and> nat q = s1 \<and> nat (hd (tok_seqs b i)) = s0) \<longleftrightarrow> coupled b s1 s0"
proof -
  have *: "(\<exists>k < length l. 0 < k \<and> nat (l ! k) = s1) \<longleftrightarrow> s1 \<in> nat ` set (tl l)" for l :: "int list"
  proof (cases l)
    case (Cons x xs)
    have "(\<exists>k < length l. 0 < k \<and> nat (l ! k) = s1) \<longleftrightarrow> (\<exists>k < length xs. nat (xs ! k) = s1)"
      unfolding Cons by (metis Suc_less_eq Suc_pred length_Cons nth_Cons_Suc zero_less_Suc)
    also have "\<dots> \<longleftrightarrow> s1 \<in> nat ` set xs" by (auto simp: nat_image_nth)
    finally show ?thesis by (simp add: Cons)
  qed simp
  have "(\<exists>(i, k, q) \<in> set (entries b). k > 0 \<and> nat q = s1 \<and> nat (hd (tok_seqs b i)) = s0) \<longleftrightarrow>
     (\<exists>i < lb_n_tokens b. nat (hd (tok_seqs b i)) = s0 \<and> (\<exists>k < length (tok_seqs b i). 0 < k \<and> nat (tok_seqs b i ! k) = s1))"
    by (auto simp: entries_iff Bex_def)
  then show ?thesis by (simp add: * coupled_def)
qed


lemma compute_stats_ok:
  assumes f: "batch_filled n_pos n_embd n_seq_max b" "n_seq_max \<le> LLAMA_MAX_SEQ"
    and p: "lb_pos b = Some pos" "lb_n_tokens b \<le> length pos"
    and ba: "ba_seq_pos ba = (\<lambda>_. [])" "ba_seq_cpl ba = (\<lambda>_ _. False)"
  shows "\<exists>ba'. compute_stats n_embd n_seq_max b ba = Some ba' \<and> ba_batch ba' = b \<and> ba_n_embd ba' = n_embd \<and>
     ba_n_seq_max ba' = n_seq_max \<and> ba_n_pos_per_embd ba' = ba_n_pos_per_embd ba \<and>
     ba_seq_pos ba' = (\<lambda>s. sorted_list_of_set (batch_positions b s)) \<and> ba_seq_cpl ba' = coupled b \<and>
     (ba_has_cpl ba' \<longleftrightarrow> (\<exists>i < lb_n_tokens b. 1 < length (tok_seqs b i))) \<and>
     ba_seq_set ba' = map (\<lambda>i. nat ` set (tok_seqs b i)) [0..<lb_n_tokens b] \<and>
     ba_seq_set_map ba' = (\<lambda>S. filter (\<lambda>i. ba_seq_set ba' ! i = S) [0..<lb_n_tokens b])"
proof -
  obtain l where l: "lb_logits b = Some l" "lb_n_tokens b \<le> length l" using f by (auto simp: batch_filled_def)
  define ba1 where "ba1 = ba\<lparr>ba_batch := b, ba_n_embd := n_embd, ba_n_seq_max := n_seq_max,
      ba_n_outputs := ba_n_outputs ba + length (filter id (take (lb_n_tokens b) l)), ba_has_cpl := False\<rparr>"
  let ?noted = "fold (note_pure b) (entries b) ba1"
  have noted: "foldM (note_entry b) (entries b) ba1 = Some ?noted"
    by (rule foldM_fold) (rule note_entry_ok[OF f _ p])
  have sets: "map (token_set (entries b)) [0..<lb_n_tokens b] = map (\<lambda>i. nat ` set (tok_seqs b i)) [0..<lb_n_tokens b]"
    by (simp add: token_set_entries)
  have pos: "ba_seq_pos ?noted = (\<lambda>s. sorted_list_of_set (batch_positions b s))"
    by (rule ext, rule noted_positions) (simp add: ba1_def ba)
  have cpl: "ba_seq_cpl ?noted = coupled b"
    unfolding fun_eq_iff fold_note_cpl noted_coupled[OF f(1)] by (simp add: ba1_def ba)
  have has: "ba_has_cpl ?noted \<longleftrightarrow> (\<exists>i < lb_n_tokens b. 1 < length (tok_seqs b i))"
    unfolding fold_note_has by (auto simp: ba1_def entries_iff Bex_def)
  show ?thesis
    unfolding compute_stats_def seq_entries_ok[OF f(1)] l(1) bind.bind_lunit
    using l(2) noted by (simp add: ba1_def[symmetric] Let_def sets pos cpl has fold_note_other[of b]) (simp add: ba1_def cong: filter_cong)
qed

section \<open>Consistency\<close>

definition mem_end :: "llama_memory_i option \<Rightarrow> nat \<Rightarrow> llama_pos" where
  "mem_end memory s = (case memory of None \<Rightarrow> -1 | Some m \<Rightarrow> the (mem_seq_pos_max m (int s)))"

text \<open>
  With M-RoPE the positions of a sequence start behind the memory (embeddings may start at its end);
  otherwise they continue it and have no gap.
\<close>

definition positions_fit :: "llama_memory_i option \<Rightarrow> nat \<Rightarrow> llama_batch \<Rightarrow> nat \<Rightarrow> bool" where
  "positions_fit memory n_pos b s \<longleftrightarrow> (let P = batch_positions b s; m = mem_end memory s in
     P = {} \<or>
     (if n_pos > 1 then m < 0 \<or> (if lb_token b \<noteq> None then m < Min P else m \<le> Min P)
      else (m \<ge> 0 \<longrightarrow> Min P = m + 1) \<and> P = {Min P..Max P}))"

definition couples_agree :: "llama_memory_i option \<Rightarrow> nat \<Rightarrow> llama_batch \<Rightarrow> bool" where
  "couples_agree memory n_seq_max b \<longleftrightarrow> (\<forall>m. memory = Some m \<longrightarrow> (\<forall>s0 < n_seq_max. \<forall>s1 < n_seq_max.
     coupled b s0 s1 \<longrightarrow> mem_seq_pos_min m (int s0) = mem_seq_pos_min m (int s1) \<and>
       mem_seq_pos_max m (int s0) = mem_seq_pos_max m (int s1)))"

lemma mem_max_ok: "memory_ok memory n_tokens n_seq_max \<Longrightarrow> s < n_seq_max \<Longrightarrow> mem_max memory s = Some (mem_end memory s)"
  by (cases memory) (auto simp: memory_ok_def mem_max_def mem_end_def)

lemma interval_card:
  fixes P :: "int set"
  assumes "finite P" "P \<noteq> {}"
  shows "\<not> Max P - Min P + 1 > int (card P) \<longleftrightarrow> P = {Min P..Max P}"
proof -
  have sub: "P \<subseteq> {Min P..Max P}" using assms by auto
  have le: "Min P \<le> Max P" using assms by simp
  have card: "int (card {Min P..Max P}) = Max P - Min P + 1" using le by simp
  have "card P \<le> card {Min P..Max P}" by (rule card_mono[OF _ sub]) simp
  then have "\<not> Max P - Min P + 1 > int (card P) \<longleftrightarrow> card P = card {Min P..Max P}" using card by linarith
  also have "\<dots> \<longleftrightarrow> P = {Min P..Max P}"
    using card_subset_eq[OF _ sub] by (metis finite_atLeastAtMost_int)
  finally show ?thesis .
qed

lemma fits_step:
  fixes m a :: int and n :: nat
  assumes "P \<noteq> {}"
  shows "(if n > 1 then if t then Some (\<not> (m \<ge> 0 \<and> m \<ge> a)) else Some (\<not> (m \<ge> 0 \<and> m > a))
      else if m \<ge> 0 \<and> a \<noteq> m + 1 then Some False else Some G) =
    Some (P = {} \<or> (if n > 1 then m < 0 \<or> (if t then m < a else m \<le> a) else (m \<ge> 0 \<longrightarrow> a = m + 1) \<and> G))"
  using assms by auto

lemma check_positions_ok:
  assumes ba: "ba_seq_pos ba = (\<lambda>s. sorted_list_of_set (batch_positions (ba_batch ba) s))"
    and mem: "memory_ok memory n_tokens (ba_n_seq_max ba)"
    and rng: "\<forall>s. \<forall>x \<in> batch_positions (ba_batch ba) s. 0 \<le> x \<and> x < INT32_MAX"
  shows "check_positions ba memory = Some (\<forall>s < ba_n_seq_max ba. positions_fit memory (ba_n_pos_per_embd ba) (ba_batch ba) s)"
proof -
  let ?P = "batch_positions (ba_batch ba)"
  have mn: "ba_pos_min ba s = Min (?P s)" "ba_pos_max ba s = Max (?P s)" if "?P s \<noteq> {}" for s
    using that by (simp_all add: ba_pos_min_def ba_pos_max_def ba hd_sorted_list last_sorted_list)
  have i32: "i32 (Max (?P s) - Min (?P s)) = Some (Max (?P s) - Min (?P s))"
    "i32 (Max (?P s) - Min (?P s) + 1) = Some (Max (?P s) - Min (?P s) + 1)" if ne: "?P s \<noteq> {}" for s
  proof -
    have "Min (?P s) \<in> ?P s" "Max (?P s) \<in> ?P s" "Min (?P s) \<le> Max (?P s)" using ne by simp_all
    then have "0 \<le> Min (?P s)" "Max (?P s) < INT32_MAX" "Min (?P s) \<le> Max (?P s)" using rng by blast+
    then show "i32 (Max (?P s) - Min (?P s)) = Some (Max (?P s) - Min (?P s))"
      "i32 (Max (?P s) - Min (?P s) + 1) = Some (Max (?P s) - Min (?P s) + 1)"
      by (simp_all add: in_i32_def INT32_MAX_def)
  qed
  have "check_positions ba memory = Some (\<forall>s \<in> set [0..<ba_n_seq_max ba]. positions_fit memory (ba_n_pos_per_embd ba) (ba_batch ba) s)"
    unfolding check_positions_def
  proof (rule forallM_total, goal_cases)
    case (1 s)
    then have s: "s < ba_n_seq_max ba" by simp
    show ?case
    proof (cases "?P s = {}")
      case True
      then show ?thesis by (simp add: ba positions_fit_def)
    next
      case False
      then have ne: "ba_seq_pos ba s \<noteq> []" by (simp add: ba)
      have len: "length (ba_seq_pos ba s) = card (?P s)" by (simp add: ba)
      have int: "(\<not> Max (?P s) - Min (?P s) + 1 > int (card (?P s))) = (?P s = {Min (?P s)..Max (?P s)})"
        by (rule interval_card[OF _ False]) simp
      have gap: "Option.bind (i32 (ba_pos_max ba s - ba_pos_min ba s)) (\<lambda>d. Option.bind (i32 (d + 1))
          (\<lambda>d1. Some (\<not> d1 > int (length (ba_seq_pos ba s))))) = Some (?P s = {Min (?P s)..Max (?P s)})"
        unfolding mn[OF False] len i32[OF False] bind.bind_lunit int ..
      show ?thesis
        unfolding gap mem_max_ok[OF mem s] bind.bind_lunit if_not_P[OF ne]
        unfolding mn(1)[OF False] positions_fit_def Let_def by (rule fits_step[OF False])
    qed
  qed
  then show ?thesis by (simp add: Ball_def)
qed

lemma check_coupled_ok:
  assumes "ba_seq_cpl ba = coupled (ba_batch ba)" "memory_ok memory n_tokens (ba_n_seq_max ba)"
  shows "check_coupled ba memory = Some (couples_agree memory (ba_n_seq_max ba) (ba_batch ba))"
proof (cases memory)
  case (Some m)
  let ?n = "ba_n_seq_max ba"
  let ?C = "\<lambda>s0 s1. coupled (ba_batch ba) s0 s1 \<longrightarrow> mem_seq_pos_min m (int s0) = mem_seq_pos_min m (int s1) \<and>
       mem_seq_pos_max m (int s0) = mem_seq_pos_max m (int s1)"
  have "check_coupled ba memory = Some (\<forall>s0 \<in> set [0..<?n]. \<forall>s1 \<in> set [0..<?n]. ?C s0 s1)"
    unfolding check_coupled_def Some option.case
  proof (intro forallM_total, goal_cases)
    case (1 s0 s1)
    with assms(2) Some obtain a b c d where "mem_seq_pos_min m (int s0) = Some a" "mem_seq_pos_max m (int s0) = Some b"
      "mem_seq_pos_min m (int s1) = Some c" "mem_seq_pos_max m (int s1) = Some d"
      by (fastforce simp: memory_ok_def)
    then show ?case by (simp add: assms(1))
  qed
  then show ?thesis by (simp add: couples_agree_def Some Ball_def)
qed (simp add: check_coupled_def couples_agree_def)


text \<open>
  The check of partial subsets intersects, for each sequence, the sets of the tokens that hold it. The
  sequence itself is in all of them, so the intersection is never empty; and the largest position seen,
  which is not updated, stays at -1. So the check accepts every batch without positions below -1.
\<close>

lemma check_subsets_accepts:
  assumes "\<forall>(i, k, q) \<in> set es. 0 \<le> q \<and> q < int LLAMA_MAX_SEQ \<and> i < length poss \<and> i < length sets \<and>
      nat q \<in> sets ! i \<and> -1 \<le> poss ! i"
    and "\<forall>(i, k, q) \<in> set es. nat q \<in> cur (nat q)"
  shows "check_subsets poss sets (\<lambda>_. -1) es cur = Some True"
  using assms
proof (induction es arbitrary: cur)
  case (Cons e es)
  obtain i k q where e: "e = (i, k, q)" by (cases e)
  have q: "seq_bit q = Some (nat q)" "nat q \<in> cur (nat q) \<inter> sets ! i" "i < length poss" "i < length sets" "\<not> poss ! i < -1"
    using Cons.prems by (auto simp: e seq_bit_def)
  let ?cur = "cur(nat q := cur (nat q) \<inter> sets ! i)"
  have "\<forall>(i', k', q') \<in> set es. nat q' \<in> ?cur (nat q')" using Cons.prems q(2) by auto
  with Cons have "check_subsets poss sets (\<lambda>_. -1) es ?cur = Some True" by auto
  then show ?case using q by (auto simp: e Let_def)
qed simp

section \<open>The whole routine\<close>

definition input_valid :: "nat \<Rightarrow> nat \<Rightarrow> llama_batch \<Rightarrow> bool" where
  "input_valid n_vocab n_seq_max inp \<longleftrightarrow>
     n_seq_max \<le> LLAMA_MAX_SEQ \<and> tokens_valid n_vocab inp \<and> seqs_valid n_seq_max inp"

definition consistent :: "llama_memory_i option \<Rightarrow> nat \<Rightarrow> nat \<Rightarrow> llama_batch \<Rightarrow> bool" where
  "consistent memory n_pos n_seq_max b \<longleftrightarrow>
     (\<forall>s < n_seq_max. positions_fit memory n_pos b s) \<and> couples_agree memory n_seq_max b"

text \<open>An allocator whose batch has not been touched yet.\<close>

definition fresh :: "batch_allocr \<Rightarrow> bool" where
  "fresh ba \<longleftrightarrow> alloc_ok ba \<and> ba_used ba = replicate (lb_n_tokens (ba_batch ba)) False \<and> ba_out_ids ba = [] \<and>
     (ba_has_cpl ba \<longleftrightarrow> (\<exists>i < lb_n_tokens (ba_batch ba). 1 < length (tok_seqs (ba_batch ba) i)))"

lemma clear_sel [simp]:
  "ba_seq_pos (clear ba) = (\<lambda>_. [])" "ba_seq_cpl (clear ba) = (\<lambda>_ _. False)" "ba_n_pos_per_embd (clear ba) = ba_n_pos_per_embd ba"
  by (simp_all add: clear_def)

lemma init_ok:
  assumes inp: "input_ok (ba_n_pos_per_embd ba) n_embd inp" and max: "0 < n_seq_max"
    and mem: "memory_ok memory (lb_n_tokens inp) n_seq_max"
  shows "\<exists>ok ba'. init inp n_vocab memory n_embd n_seq_max output_all ba = Some (ok, ba') \<and>
     (if \<not> input_valid n_vocab n_seq_max inp then \<not> ok
      else \<exists>b. completed memory output_all inp b \<and> (ok \<longleftrightarrow> consistent memory (ba_n_pos_per_embd ba) n_seq_max b) \<and>
        (ok \<longrightarrow> ba_batch ba' = b \<and> ba_n_pos_per_embd ba' = ba_n_pos_per_embd ba \<and> ba_n_embd ba' = n_embd \<and>
           ba_n_seq_max ba' = n_seq_max \<and> fresh ba'))"
proof (cases "input_valid n_vocab n_seq_max inp")
  case False
  have "0 < lb_n_tokens inp" using inp by (simp add: input_ok_def)
  with False show ?thesis
    by (auto simp: init_def Let_def input_valid_def check_tokens_ok[OF inp] check_seq_ids_ok[OF inp])
next
  case True
  note v = True[unfolded input_valid_def]
  let ?np = "ba_n_pos_per_embd ba"
  obtain b where b: "fill_batch inp memory n_seq_max output_all = Some b" "completed memory output_all inp b"
    using fill_batch_ok[OF inp _ max _ mem] v by blast
  note f = completed_filled(1,2)[OF inp conjunct2[OF conjunct2[OF v]] max b(2)]
  obtain pos where pos: "lb_pos b = Some pos" "lb_n_tokens b \<le> length pos" "\<forall>x \<in> set pos. 0 \<le> x \<and> x < INT32_MAX"
  proof -
    from b(2) obtain pos where p: "lb_pos b = Some pos" "\<forall>x \<in> set pos. 0 \<le> x \<and> x < INT32_MAX"
      by (auto simp: completed_def)
    moreover have "lb_n_tokens b \<le> length pos"
    proof (cases "lb_pos inp")
      case None
      with b(2) p(1) show ?thesis by (auto simp: completed_def auto_positions_def)
    next
      case (Some q)
      with b(2) p(1) have "q = pos" by (auto simp: completed_def)
      with Some inp max show ?thesis
        using f(2) by (cases "lb_token inp") (auto simp: input_ok_def intro: order_trans[rotated])
    qed
    ultimately show ?thesis using that by blast
  qed
  define ba0 where "ba0 = (clear ba)\<lparr>ba_batch := inp\<rparr>"
  have c: "ba_seq_pos ba0 = (\<lambda>_. [])" "ba_seq_cpl ba0 = (\<lambda>_ _. False)" "ba_n_pos_per_embd ba0 = ?np"
    by (simp_all add: ba0_def)
  obtain ba' where ba': "compute_stats n_embd n_seq_max b ba0 = Some ba'" "ba_batch ba' = b" "ba_n_embd ba' = n_embd"
     "ba_n_seq_max ba' = n_seq_max" "ba_n_pos_per_embd ba' = ?np" 
     "ba_seq_pos ba' = (\<lambda>s. sorted_list_of_set (batch_positions b s))" "ba_seq_cpl ba' = coupled b"
     "ba_has_cpl ba' \<longleftrightarrow> (\<exists>i < lb_n_tokens b. 1 < length (tok_seqs b i))"
     "ba_seq_set ba' = map (\<lambda>i. nat ` set (tok_seqs b i)) [0..<lb_n_tokens b]"
     "ba_seq_set_map ba' = (\<lambda>S. filter (\<lambda>i. ba_seq_set ba' ! i = S) [0..<lb_n_tokens b])"
    using compute_stats_ok[OF f(1) conjunct1[OF v] pos(1,2) c(1,2), unfolded c(3)]
    by (elim exE conjE)
  have rng: "\<forall>s. \<forall>x \<in> batch_positions b s. 0 \<le> x \<and> x < INT32_MAX"
    using pos by (auto simp: batch_positions_def)
  have mem': "memory_ok memory (lb_n_tokens inp) (ba_n_seq_max ba')" using mem by (simp add: ba'(4))
  have cp: "check_positions ba' memory = Some (\<forall>s < n_seq_max. positions_fit memory ?np b s)"
    using check_positions_ok[OF _ mem'] rng by (simp add: ba')
  have cc: "check_coupled ba' memory = Some (couples_agree memory n_seq_max b)"
    using check_coupled_ok[OF _ mem'] by (simp add: ba')
  have es: "\<forall>(i, k, q) \<in> set (entries b). 0 \<le> q \<and> q < int LLAMA_MAX_SEQ \<and> i < length pos \<and> i < length (ba_seq_set ba') \<and>
      nat q \<in> ba_seq_set ba' ! i \<and> -1 \<le> pos ! i"
  proof (clarify, goal_cases)
    case (1 i k q)
    then have i: "i < lb_n_tokens b" and q: "q \<in> set (tok_seqs b i)" by (auto simp: entries_iff)
    have "0 \<le> q \<and> q < int n_seq_max" using gather_seqs_ok(2)[OF f(1) i] q by blast
    moreover have "pos ! i \<in> set pos" using i pos(2) by simp
    then have "0 \<le> pos ! i" using pos(3) by blast
    ultimately show ?case using i q pos(2) v by (auto simp: ba'(9))
  qed
  have "\<forall>(i, k, q) \<in> set (entries b). nat q \<in> {..<LLAMA_MAX_SEQ}" using es by auto
  then have cs: "check_subsets pos (ba_seq_set ba') (\<lambda>_. -1) (entries b) (\<lambda>_. {..<LLAMA_MAX_SEQ}) = Some True"
    by (intro check_subsets_accepts es) auto
  have fr: "fresh (split_reset ba')"
    using f(1) v by (simp add: fresh_def alloc_ok_def split_reset_def ba' cong: filter_cong)
  have n: "0 < lb_n_tokens inp" using inp by (simp add: input_ok_def)
  have "init inp n_vocab memory n_embd n_seq_max output_all ba =
      (if consistent memory ?np n_seq_max b then Some (True, split_reset ba') else Some (False, ba'))"
    using n v ba'(1) cp cc cs pos(1)
    by (simp add: init_def Let_def check_tokens_ok[OF inp] check_seq_ids_ok[OF inp] b(1) ba0_def[symmetric]
        seq_entries_ok[OF f(1)] consistent_def)
  then show ?thesis using True b(2) fr ba' by (auto simp: split_reset_def)
qed

end
