(* ===== verification/KvContextLaws.thy ===== *)
theory KvContextLaws
  imports KvContext KvPrepare BatchInitLaws
begin

text \<open>
  The composition of the batch allocator and the cache: the micro-batches of a validated batch are fit
  for the cache, so \<open>init_batch\<close> always returns, and a context it reports as successful can be worked
  through.
\<close>

section \<open>A batch for a cache\<close>

text \<open>
  With one stream every sequence lives in it. With several, each sequence has its own, and the tokens
  must not be shared between sequences.
\<close>

definition streams_ok :: "kv_cache \<Rightarrow> bool" where
  "streams_ok kc \<longleftrightarrow>
     (if kc_n_stream kc = 1 then kc_seq_to_stream kc = replicate LLAMA_MAX_SEQ 0
      else 1 < kc_n_stream kc \<and> kc_seq_to_stream kc = [0..<kc_n_stream kc])"

definition batch_for :: "kv_cache \<Rightarrow> batch_allocr \<Rightarrow> bool" where
  "batch_for kc ba \<longleftrightarrow> alloc_ok ba \<and> 0 < lb_n_tokens (ba_batch ba) \<and> 0 < ba_n_pos_per_embd ba \<and>
     ba_n_seq_max ba \<le> length (kc_seq_to_stream kc) \<and>
     (\<forall>i < lb_n_tokens (ba_batch ba). 0 \<le> the (lb_pos (ba_batch ba)) ! i \<and> the (lb_pos (ba_batch ba)) ! i < INT32_MAX \<and>
        distinct (tok_seqs (ba_batch ba) i)) \<and>
     (kc_n_stream kc > 1 \<longrightarrow> \<not> ba_has_cpl ba \<and> (\<forall>i < lb_n_tokens (ba_batch ba). length (tok_seqs (ba_batch ba) i) = 1))"

lemma batch_for_seqs:
  assumes "batch_for kc ba" "i < lb_n_tokens (ba_batch ba)"
  shows "tok_seqs (ba_batch ba) i \<noteq> []" "distinct (tok_seqs (ba_batch ba) i)"
    "q \<in> set (tok_seqs (ba_batch ba) i) \<Longrightarrow> 0 \<le> q \<and> nat q < length (kc_seq_to_stream kc)"
proof -
  have f: "batch_filled (ba_n_pos_per_embd ba) (ba_n_embd ba) (ba_n_seq_max ba) (ba_batch ba)"
    using assms(1) by (simp add: batch_for_def alloc_ok_def)
  show "tok_seqs (ba_batch ba) i \<noteq> []" by (rule gather_seqs_ok(3)[OF f assms(2)])
  show "distinct (tok_seqs (ba_batch ba) i)" using assms by (simp add: batch_for_def)
  show "0 \<le> q \<and> nat q < length (kc_seq_to_stream kc)" if q: "q \<in> set (tok_seqs (ba_batch ba) i)"
    using gather_seqs_ok(2)[OF f assms(2)] q assms(1) by (fastforce simp: batch_for_def)
qed

lemma gathered_token:
  assumes g: "gathered ba idxs n_seqs eq ub" and b: "batch_for kc ba"
    and idxs: "\<forall>i \<in> set idxs. i < lb_n_tokens (ba_batch ba)" and i: "i < length idxs"
  shows "ub_pos ub ! i = the (lb_pos (ba_batch ba)) ! (idxs ! i)" "ub_ids ub i = tok_seqs (ba_batch ba) (idxs ! i)"
    "ub_seq_id ub ! i = tok_seqs (ba_batch ba) (idxs ! i)" "ub_n_seq_id ub ! i = length (tok_seqs (ba_batch ba) (idxs ! i))"
proof -
  note g' = g[unfolded gathered_def]
  have n: "0 < ba_n_pos_per_embd ba" using b by (simp add: batch_for_def)
  have "ub_pos ub ! (0 * length idxs + i) = the (lb_pos (ba_batch ba)) !
      ((if lb_token (ba_batch ba) \<noteq> None then 0 else 0 * lb_n_tokens (ba_batch ba)) + idxs ! i)"
    using g' n i by blast
  then show "ub_pos ub ! i = the (lb_pos (ba_batch ba)) ! (idxs ! i)" by simp
  have s: "ub_seq_id ub = map (tok_seqs (ba_batch ba)) idxs" "ub_n_seq_id ub = map length (ub_seq_id ub)" using g' by blast+
  then show "ub_seq_id ub ! i = tok_seqs (ba_batch ba) (idxs ! i)"
    "ub_n_seq_id ub ! i = length (tok_seqs (ba_batch ba) (idxs ! i))" "ub_ids ub i = tok_seqs (ba_batch ba) (idxs ! i)"
    using i by (simp_all add: ub_ids_def)
qed

lemma gathered_sizes:
  assumes g: "gathered ba idxs n_seqs eq ub" and b: "batch_for kc ba" and ne: "idxs \<noteq> []"
    and idxs: "\<forall>i \<in> set idxs. i < lb_n_tokens (ba_batch ba)"
  shows "0 < ub_n_tokens ub" "ub_n_tokens ub = length idxs" "ub_n_tokens ub \<le> length (ub_pos ub)"
    "length (ub_n_seq_id ub) = length idxs" "length (ub_seq_id ub) = length idxs"
    "is_pos_2d ub \<longrightarrow> 3 * ub_n_tokens ub \<le> length (ub_pos ub)"
    "ub_seq_id_unq ub = sorted_list_of_set (\<Union>i \<in> set idxs. set (tok_seqs (ba_batch ba) i))"
    "\<forall>q \<in> set (ub_seq_id_unq ub). 0 \<le> q \<and> nat q < length (kc_seq_to_stream kc)"
    "ub_n_seqs_unq ub = length (ub_seq_id_unq ub)" "ub_seq_id_unq ub \<noteq> []"
proof -
  have n: "0 < ba_n_pos_per_embd ba" using b by (simp add: batch_for_def)
  have g1: "ub_n_tokens ub = length idxs" "length (ub_pos ub) = length idxs * ba_n_pos_per_embd ba"
    "ub_n_pos ub = ba_n_pos_per_embd ba" "ub_seq_id ub = map (tok_seqs (ba_batch ba)) idxs"
    "ub_n_seq_id ub = map length (ub_seq_id ub)"
    using g by (simp_all add: gathered_def)
  show unq: "ub_seq_id_unq ub = sorted_list_of_set (\<Union>i \<in> set idxs. set (tok_seqs (ba_batch ba) i))"
    and "ub_n_seqs_unq ub = length (ub_seq_id_unq ub)"
    using g by (simp_all add: gathered_def)
  show "0 < ub_n_tokens ub" "ub_n_tokens ub = length idxs" "length (ub_n_seq_id ub) = length idxs"
    "length (ub_seq_id ub) = length idxs" "ub_n_tokens ub \<le> length (ub_pos ub)"
    using g1 ne n by auto
  have "3 * length idxs \<le> length idxs * ba_n_pos_per_embd ba" if "3 \<le> ba_n_pos_per_embd ba"
    using mult_le_mono2[OF that, of "length idxs"] by (simp add: mult.commute)
  then show "is_pos_2d ub \<longrightarrow> 3 * ub_n_tokens ub \<le> length (ub_pos ub)" by (simp add: is_pos_2d_def g1)
  have set: "set (ub_seq_id_unq ub) = (\<Union>i \<in> set idxs. set (tok_seqs (ba_batch ba) i))" by (simp add: unq)
  show "\<forall>q \<in> set (ub_seq_id_unq ub). 0 \<le> q \<and> nat q < length (kc_seq_to_stream kc)"
    unfolding set using idxs batch_for_seqs(3)[OF b] by blast
  have "hd idxs \<in> set idxs" using ne by simp
  moreover have "tok_seqs (ba_batch ba) (hd idxs) \<noteq> []" using batch_for_seqs(1)[OF b] idxs ne by simp
  ultimately have "set (ub_seq_id_unq ub) \<noteq> {}" unfolding set by auto
  then show "ub_seq_id_unq ub \<noteq> []" by auto
qed

text \<open>One stream: any choice of tokens will do.\<close>

lemma unified_ub_ok:
  assumes s: "streams_ok kc" "kc_n_stream kc = 1" and b: "batch_for kc ba"
    and g: "gathered ba idxs n_seqs eq ub" and idxs: "\<forall>i \<in> set idxs. i < lb_n_tokens (ba_batch ba)" "idxs \<noteq> []"
  shows "ub_ok kc ub"
proof -
  have map0: "kc_seq_to_stream kc = replicate LLAMA_MAX_SEQ 0" using s by (simp add: streams_ok_def)
  note z = gathered_sizes[OF g b idxs(2,1)]
  have strm: "ub_strm kc ub 0 = 0"
    using z(8,10) by (cases "ub_seq_id_unq ub") (auto simp: ub_strm_def map0)
  have tok: "token_ok kc ub 0 i" if i: "i < length idxs" for i
  proof -
    note t = gathered_token[OF g b idxs(1) i]
    have k: "idxs ! i < lb_n_tokens (ba_batch ba)" using idxs(1) i by simp
    note q = batch_for_seqs[OF b k]
    have "0 \<le> the (lb_pos (ba_batch ba)) ! (idxs ! i) \<and> the (lb_pos (ba_batch ba)) ! (idxs ! i) < INT32_MAX"
      using b k by (simp add: batch_for_def)
    then show ?thesis
      using q s(2) unfolding token_ok_def t strm by (auto simp: map0)
  qed
  have ns: "ub_ns kc ub = 1" "ub_nt kc ub = length idxs" using s(2) z(2) by (simp_all add: ub_ns_def ub_nt_def)
  have u0: "0 \<le> ub_seq_id_unq ub ! 0 \<and> nat (ub_seq_id_unq ub ! 0) < length (kc_seq_to_stream kc)"
    using z(8,10) by (cases "ub_seq_id_unq ub") auto
  have "Suc 0 \<le> length (ub_seq_id_unq ub)" using z(10) by (cases "ub_seq_id_unq ub") auto
  then show ?thesis
    unfolding ub_ok_def ns using z(1-6) tok u0 by auto
qed

text \<open>Several streams: the groups of the equal split are one stream each.\<close>

lemma consecutive_strict: "consecutive xs \<Longrightarrow> sorted_wrt (<) xs"
proof (induction xs rule: consecutive.induct)
  case (1 a b xs)
  then show ?case by fastforce
qed auto

lemma concat_nth_same:
  "\<forall>l \<in> set xss. length l = t \<Longrightarrow> s < length xss \<Longrightarrow> k < t \<Longrightarrow> concat xss ! (s * t + k) = xss ! s ! k"
proof (induction xss arbitrary: s)
  case (Cons l xss)
  then show ?case by (cases s) (auto simp: nth_append add.assoc)
qed simp

lemma single_tokens:
  assumes b: "batch_for kc ba" and many: "kc_n_stream kc > 1" and i: "i < lb_n_tokens (ba_batch ba)"
  shows "tok_seqs (ba_batch ba) i = [lead ba i]" "ba_seq_set ba ! i = {nat (lead ba i)}" "0 \<le> lead ba i"
proof -
  have "length (tok_seqs (ba_batch ba) i) = 1" using b many i by (simp add: batch_for_def)
  then show t: "tok_seqs (ba_batch ba) i = [lead ba i]"
    by (cases "tok_seqs (ba_batch ba) i") (auto simp: lead_def)
  have "ba_seq_set ba = map (\<lambda>i. nat ` set (tok_seqs (ba_batch ba) i)) [0..<lb_n_tokens (ba_batch ba)]"
    using b by (simp add: batch_for_def alloc_ok_def)
  then show "ba_seq_set ba ! i = {nat (lead ba i)}" using i by (simp add: t)
  show "0 \<le> lead ba i" using batch_for_seqs(3)[OF b i, of "lead ba i"] t by simp
qed

lemma separate_ub_ok:
  assumes s: "streams_ok kc" "kc_n_stream kc > 1" and b: "batch_for kc ba"
    and g: "gathered ba (concat idxss) (length idxss) True ub"
    and grp: "idxss \<noteq> []" "0 < t" "\<forall>l \<in> set idxss. length l = t \<and> (\<forall>i \<in> set l. ba_seq_set ba ! i = ba_seq_set ba ! hd l)"
    and cons: "consecutive (map (\<lambda>l. lead ba (hd l)) idxss)"
    and idxs: "\<forall>i \<in> set (concat idxss). i < lb_n_tokens (ba_batch ba)"
  shows "ub_ok kc ub"
proof -
  let ?n = "length idxss" and ?q = "\<lambda>s. lead ba (hd (idxss ! s))"
  have map_id: "kc_seq_to_stream kc = [0..<kc_n_stream kc]" using s by (simp add: streams_ok_def)
  have len: "length (concat idxss) = ?n * t" using length_concat_same[of idxss t] grp(3) by simp
  then have ne: "concat idxss \<noteq> []" using grp(1,2) by (auto simp del: concat_eq_Nil_conv)
  note z = gathered_sizes[OF g b ne idxs]
  have nz: "hd l \<in> set l" if "l \<in> set idxss" for l
    using grp(2,3) that by (intro hd_in_set) auto
  have lead_eq: "lead ba i = lead ba (hd l)" if l: "l \<in> set idxss" "i \<in> set l" for l i
  proof -
    have "i < lb_n_tokens (ba_batch ba)" "hd l < lb_n_tokens (ba_batch ba)" using idxs l nz[OF l(1)] by auto
    note a = single_tokens[OF b s(2) this(1)] and h = single_tokens[OF b s(2) this(2)]
    have "ba_seq_set ba ! i = ba_seq_set ba ! hd l" using grp(3) l by blast
    then show ?thesis using a(2,3) h(2,3) by simp
  qed
  have "(\<Union>i \<in> set (concat idxss). set (tok_seqs (ba_batch ba) i)) = lead ba ` set (concat idxss)"
    using idxs single_tokens(1)[OF b s(2)] by auto
  also have "\<dots> = (\<Union>l \<in> set idxss. lead ba ` set l)" by auto
  also have "\<dots> = (\<Union>l \<in> set idxss. {lead ba (hd l)})"
  proof (rule SUP_cong[OF refl])
    fix l assume l: "l \<in> set idxss"
    show "lead ba ` set l = {lead ba (hd l)}" using lead_eq[OF l] nz[OF l] by blast
  qed
  also have "\<dots> = set (map (\<lambda>l. lead ba (hd l)) idxss)" by auto
  finally have unq: "ub_seq_id_unq ub = map (\<lambda>l. lead ba (hd l)) idxss"
    using z(7) consecutive_strict[OF cons] by (simp only: sorted_list_of_set.idem_if_sorted_distinct strict_sorted_iff)
  have ns: "ub_ns kc ub = ?n" "ub_nt kc ub = t"
    using s(2) z(2,9) grp(1) by (simp_all add: ub_ns_def ub_nt_def unq len)
  have qs: "0 \<le> ?q s" "nat (?q s) < kc_n_stream kc" if "s < ?n" for s
    using z(8) that by (auto simp: unq map_id)
  have strm: "ub_strm kc ub s = nat (?q s)" if "s < ?n" for s
    using qs[OF that] that by (simp add: ub_strm_def unq map_id)
  have "distinct (map (\<lambda>l. lead ba (hd l)) idxss)" using consecutive_strict[OF cons] by (simp add: strict_sorted_iff)
  then have dist: "distinct (map (ub_strm kc ub) [0..<?n])"
    using qs unfolding distinct_conv_nth by (simp add: strm eq_nat_nat_iff)
  have tok: "token_ok kc ub r (r * t + ii)" if r: "r < ?n" and ii: "ii < t" for r ii
  proof -
    have l: "idxss ! r \<in> set idxss" "length (idxss ! r) = t" using r grp(3) by auto
    have k: "r * t + ii < length (concat idxss)" unfolding len using r ii
      by (metis add.commute mod_less_add)
    have nth: "concat idxss ! (r * t + ii) = idxss ! r ! ii" using concat_nth_same[of idxss t r ii] grp(3) r ii by simp
    have m: "idxss ! r ! ii \<in> set (idxss ! r)" using ii l(2) by simp
    then have i: "idxss ! r ! ii < lb_n_tokens (ba_batch ba)" using idxs l(1) by auto
    note t = gathered_token[OF g b idxs k, unfolded nth]
    have tq: "tok_seqs (ba_batch ba) (idxss ! r ! ii) = [?q r]"
      using single_tokens(1)[OF b s(2) i] lead_eq[OF l(1) m] by simp
    have "0 \<le> the (lb_pos (ba_batch ba)) ! (idxss ! r ! ii) \<and> the (lb_pos (ba_batch ba)) ! (idxss ! r ! ii) < INT32_MAX"
      using b i by (simp add: batch_for_def)
    then show ?thesis
      using qs[OF r] r by (simp add: token_ok_def t tq strm unq map_id)
  qed
  show ?thesis
    unfolding ub_ok_def ns using z(1-6) tok dist qs grp(1) by (simp add: len unq map_id)
qed

section \<open>Preparing and working through a batch\<close>

lemma split_reset_sel [simp]:
  "ba_batch (split_reset ba) = ba_batch ba" "ba_n_pos_per_embd (split_reset ba) = ba_n_pos_per_embd ba"
  "ba_n_embd (split_reset ba) = ba_n_embd ba" "ba_n_seq_max (split_reset ba) = ba_n_seq_max ba"
  "ba_seq_set (split_reset ba) = ba_seq_set ba" "ba_seq_set_map (split_reset ba) = ba_seq_set_map ba"
  "ba_has_cpl (split_reset ba) = ba_has_cpl ba" "gathered (split_reset ba) = gathered ba"
  "unused (split_reset ba) = [0..<lb_n_tokens (ba_batch ba)]"
  by (simp_all add: split_reset_def gathered_def fun_eq_iff unused_def)

lemma split_reset_ok:
  assumes "batch_for kc ba"
  shows "alloc_ok (split_reset ba)" "batch_for kc (split_reset ba)"
proof -
  show ok: "alloc_ok (split_reset ba)" using assms by (simp add: batch_for_def alloc_ok_def) (simp add: split_reset_def)
  show "batch_for kc (split_reset ba)" using assms ok by (simp add: batch_for_def)
qed

lemma front_reset: "front (split_reset ba)"
  by (simp add: front_def split_reset_def)

text \<open>Both splits that \<open>init_batch\<close> uses cut the batch into micro-batches for this cache.\<close>

lemma collect_for_cache:
  assumes s: "streams_ok kc" and b: "batch_for kc ba"
  shows "\<exists>idxss ubs ba'. collect (if kc_n_stream kc = 1 then split_simple n_ubatch else split_equal n_ubatch True) []
       (split_reset ba) = Some (ubs, ba') \<and>
     mset (concat idxss) = mset [0..<lb_n_tokens (ba_batch ba)] \<and>
     list_all2 (\<lambda>idxs ub. \<exists>n_seqs eq. gathered ba idxs n_seqs eq ub \<and> ub_ok kc ub) idxss ubs \<and>
     ba_n_used ba' = lb_n_tokens (ba_batch ba') \<and> ba_batch ba' = ba_batch ba"
proof -
  note r = split_reset_ok[OF b]
  have used: "ba_n_used x = lb_n_tokens (ba_batch x)" if "alloc_ok x" "unused x = []" for x
    using that used_count[of "ba_used x"] by (simp add: alloc_ok_def unused_def)
  have idx: "\<forall>i \<in> set idxs. i < lb_n_tokens (ba_batch ba)"
    if "mset (concat idxss) = mset [0..<lb_n_tokens (ba_batch ba)]" "idxs \<in> set idxss" for idxs idxss
  proof -
    have "set (concat idxss) = set [0..<lb_n_tokens (ba_batch ba)]" using that(1) by (rule mset_eq_setD)
    with that(2) show ?thesis by auto
  qed
  show ?thesis
  proof (cases "kc_n_stream kc = 1")
    case True
    have "simple_inv (split_reset ba)"
      using r(1) by (auto simp: simple_inv_def split_reset_def intro: exI[of _ 0])
    from simple.collect_ok[OF this, of n_ubatch] obtain idxss ubs ba' where
      c: "collect (split_simple n_ubatch) [] (split_reset ba) = Some (ubs, ba')"
        "list_all2 (simple_shape n_ubatch (split_reset ba)) idxss ubs"
        "mset (concat idxss) = mset [0..<lb_n_tokens (ba_batch ba)]" "unused ba' = []" "simple_inv ba'" "ba_batch ba' = ba_batch ba"
      by auto
    have "list_all2 (\<lambda>idxs ub. \<exists>n_seqs eq. gathered ba idxs n_seqs eq ub \<and> ub_ok kc ub) idxss ubs"
    proof (rule list.rel_mono_strong[OF c(2)])
      fix idxs ub assume i: "idxs \<in> set idxss" and sh: "simple_shape n_ubatch (split_reset ba) idxs ub"
      then have g: "gathered ba idxs (length idxs) False ub" by (simp add: simple_shape_def)
      have "idxs \<noteq> []" using sh by (simp add: simple_shape_def)
      then show "\<exists>n_seqs eq. gathered ba idxs n_seqs eq ub \<and> ub_ok kc ub"
        using unified_ub_ok[OF s True b g idx[OF c(3) i]] g by blast
    qed
    then show ?thesis using True c used[of ba'] by (auto simp: simple_inv_def)
  next
    case False
    then have many: "kc_n_stream kc > 1" using s by (simp add: streams_ok_def split: if_splits)
    have "equal_inv True (split_reset ba)"
      using r b many front_reset by (simp add: equal_inv_def batch_for_def)
    from equal.collect_ok[OF this, of n_ubatch] obtain idxss ubs ba' where
      c: "collect (split_equal n_ubatch True) [] (split_reset ba) = Some (ubs, ba')"
        "list_all2 (equal_shape n_ubatch True (split_reset ba)) idxss ubs"
        "mset (concat idxss) = mset [0..<lb_n_tokens (ba_batch ba)]" "unused ba' = []" "equal_inv True ba'" "ba_batch ba' = ba_batch ba"
      by auto
    have "list_all2 (\<lambda>idxs ub. \<exists>n_seqs eq. gathered ba idxs n_seqs eq ub \<and> ub_ok kc ub) idxss ubs"
    proof (rule list.rel_mono_strong[OF c(2)])
      fix idxs ub assume i: "idxs \<in> set idxss" and sh: "equal_shape n_ubatch True (split_reset ba) idxs ub"
      then obtain grp t where e0: "idxs = concat grp" "gathered (split_reset ba) idxs (length grp) True ub" "grp \<noteq> []" "0 < t"
        "\<forall>l \<in> set grp. length l = t \<and> sorted l \<and> (\<forall>i \<in> set l. ba_seq_set (split_reset ba) ! i = ba_seq_set (split_reset ba) ! hd l)"
        "True \<longrightarrow> consecutive (map (\<lambda>l. lead (split_reset ba) (hd l)) grp)"
        unfolding equal_shape_def by (elim exE conjE) (rule that; assumption)
      then have e: "idxs = concat grp" "gathered ba (concat grp) (length grp) True ub" "grp \<noteq> []" "0 < t"
        "\<forall>l \<in> set grp. length l = t \<and> (\<forall>i \<in> set l. ba_seq_set ba ! i = ba_seq_set ba ! hd l)"
        "consecutive (map (\<lambda>l. lead ba (hd l)) grp)"
        by (simp_all add: lead_def)
      have "ub_ok kc ub" using separate_ub_ok[OF s many b e(2-6)] idx[OF c(3) i] e(1) by blast
      then show "\<exists>n_seqs eq. gathered ba idxs n_seqs eq ub \<and> ub_ok kc ub" using e(1,2) by blast
    qed
    then show ?thesis using False c used[of ba'] by (auto simp: equal_inv_def)
  qed
qed

subsection \<open>Every slot lies in the cache\<close>

definition lens :: "kv_cache \<Rightarrow> nat \<times> nat" where
  "lens kc = (length (kc_cells kc), length (kc_heads kc))"

lemma foldM_reaches:
  assumes "foldM f xs s = Some t" "P s" "\<And>x s s'. f x s = Some s' \<Longrightarrow> P s \<Longrightarrow> P s'" "x \<in> set xs"
  shows "\<exists>s s'. P s \<and> f x s = Some s'"
  using assms
proof (induction xs arbitrary: s)
  case (Cons y xs)
  then obtain s' where s': "f y s = Some s'" "foldM f xs s' = Some t" by (auto simp: bind_eq_Some_conv)
  show ?case
  proof (cases "x = y")
    case True
    with s'(1) Cons.prems(2) show ?thesis by blast
  next
    case False
    have "P s'" using Cons.prems(3)[OF s'(1) Cons.prems(2)] .
    with Cons.IH[OF s'(2)] Cons.prems(3,4) False show ?thesis by auto
  qed
qed simp

lemma apply_stream_lens: "apply_stream ub si n s (kc, m) = Some (kc', m') \<Longrightarrow> lens kc' = lens kc"
  by (auto simp: apply_stream_def lens_def monad_simps)

lemma apply_stream_in: "apply_stream ub si n s (kc, m) = Some r \<Longrightarrow> s < length (si_strm si) \<and> si_strm si ! s < length (kc_cells kc)"
  by (auto simp: apply_stream_def cells_of_def monad_simps)

lemma loop_stream_lens: "loop_stream f mv s kc = Some kc' \<Longrightarrow> lens kc' = lens kc"
  by (auto simp: loop_stream_def lens_def put_stream_def monad_simps)

lemma seq_rm_lens: "kv_seq_rm q p0 p1 kc = Some kc' \<Longrightarrow> lens kc' = lens kc"
proof (cases "q = -1")
  case True
  assume r: "kv_seq_rm q p0 p1 kc = Some kc'"
  show ?thesis
    by (rule foldM_inv[where P = "\<lambda>k. lens k = lens kc", OF r[unfolded kv_seq_rm_def True, simplified]])
      (auto dest: loop_stream_lens)
next
  case False
  assume r: "kv_seq_rm q p0 p1 kc = Some kc'"
  then show ?thesis using False by (auto simp: kv_seq_rm_def bind_eq_Some_conv dest: loop_stream_lens)
qed

lemma purge_lens: "purge mrm s kc = Some kc' \<Longrightarrow> lens kc' = lens kc"
  by (auto simp: purge_def bind_eq_Some_conv split: if_splits dest: seq_rm_lens)

lemma move_head_lens: "move_head si s kc = Some kc' \<Longrightarrow> lens kc' = lens kc"
  by (auto simp: move_head_def lens_def monad_simps split: if_splits)

lemma apply_ubatch_lens:
  assumes "apply_ubatch si ub kc = Some kc'"
  shows "lens kc' = lens kc" "\<forall>x \<in> set (si_strm si). x < length (kc_cells kc)"
proof -
  let ?P = "\<lambda>st :: kv_cache \<times> (nat \<Rightarrow> llama_pos). lens (fst st) = lens kc"
  obtain n k1 mrm k2 where a: "foldM (apply_stream ub si n) [0..<length (si_strm si)] (kc, \<lambda>_. -1) = Some (k1, mrm)"
    "foldM (purge mrm) [0..<LLAMA_MAX_SEQ] k1 = Some k2" "foldM (move_head si) [0..<length (si_strm si)] k2 = Some kc'"
    using assms by (auto simp: apply_ubatch_def bind_eq_Some_conv)
  have step: "?P st'" if "apply_stream ub si n s st = Some st'" "?P st" for s st st'
    using that by (cases st; cases st') (auto dest: apply_stream_lens)
  have "?P (k1, mrm)" using foldM_inv[OF a(1), of ?P] step by auto
  then have "lens k1 = lens kc" by simp
  then have "lens k2 = lens kc" by (rule foldM_inv[OF a(2), of "\<lambda>k. lens k = lens kc"]) (simp add: purge_lens)
  then show "lens kc' = lens kc" by (rule foldM_inv[OF a(3), of "\<lambda>k. lens k = lens kc"]) (simp add: move_head_lens)
  show "\<forall>x \<in> set (si_strm si). x < length (kc_cells kc)"
  proof
    fix x assume "x \<in> set (si_strm si)"
    then obtain s where s: "s < length (si_strm si)" "x = si_strm si ! s" by (auto simp: in_set_conv_nth)
    obtain st st' where st: "?P st" "apply_stream ub si n s st = Some st'"
      using foldM_reaches[OF a(1), of ?P s] step s(1) by auto
    obtain k m where "st = (k, m)" by fastforce
    with st apply_stream_in[of ub si n s k m st'] s(2) show "x < length (kc_cells kc)" by (simp add: lens_def)
  qed
qed

lemma get_n_kv_total:
  assumes "\<forall>x \<in> set (si_strm si). x < length (kc_cells kc)"
  shows "\<exists>n. get_n_kv kc si = Some n"
proof -
  have "\<exists>n. get_n_kv kc si = Some n \<and> True"
    unfolding get_n_kv_def Let_def using assms by (intro foldM_total) (auto simp: cells_of_def)
  then show ?thesis by blast
qed

subsection \<open>The loop of the caller\<close>

text \<open>\<open>do { apply(); } while (next());\<close>, the way \<open>llama_context::decode\<close> works through a context.\<close>

partial_function (option) run_context :: "bool \<Rightarrow> bool \<Rightarrow> kv_context \<Rightarrow> kv_cache \<Rightarrow> (kv_context \<times> kv_cache) option" where
  "run_context rope_none computed cx kc = do {
     (_, cx, kc) \<leftarrow> context_apply rope_none computed cx kc;
     (more, cx) \<leftarrow> context_next cx;
     if more then run_context rope_none computed cx kc else Some (cx, kc)
   }"

lemma run_context_slots:
  assumes "cx_status cx = LLAMA_MEMORY_STATUS_SUCCESS" "length (cx_sinfos cx) = length (cx_ubatches cx)"
    and "cx_i_cur cx < length (cx_ubatches cx)"
    and "apply_slots (drop (cx_i_cur cx) (zip (cx_sinfos cx) (cx_ubatches cx))) kc = Some k"
  shows "\<exists>cx'. run_context rope_none computed cx kc = Some (cx', k) \<and> cx_i_cur cx' = length (cx_ubatches cx)"
  using assms
proof (induction "length (cx_ubatches cx) - cx_i_cur cx" arbitrary: cx kc rule: less_induct)
  case less
  let ?i = "cx_i_cur cx" let ?ps = "zip (cx_sinfos cx) (cx_ubatches cx)"
  have i: "?i < length ?ps" using less.prems by simp
  have d: "drop ?i ?ps = (cx_sinfos cx ! ?i, cx_ubatches cx ! ?i) # drop (Suc ?i) ?ps"
    using Cons_nth_drop_Suc[OF i, symmetric] less.prems by simp
  obtain kc1 where kc1: "apply_ubatch (cx_sinfos cx ! ?i) (cx_ubatches cx ! ?i) kc = Some kc1"
    "apply_slots (drop (Suc ?i) ?ps) kc1 = Some k"
    using less.prems(4) unfolding d by (auto simp: apply_slots_def bind_eq_Some_conv)
  note l = apply_ubatch_lens[OF kc1(1)]
  obtain n_kv where n: "get_n_kv kc1 (cx_sinfos cx ! ?i) = Some n_kv"
    using get_n_kv_total[of "cx_sinfos cx ! ?i" kc1] l by (auto simp: lens_def)
  have ne: "cx_ubatches cx \<noteq> []" using less.prems(3) by auto
  let ?cx = "cx\<lparr>cx_n_kv := n_kv, cx_i_cur := ?i + 1\<rparr>"
  have step: "run_context rope_none computed cx kc =
      (if ?i + 1 < length (cx_ubatches cx) then run_context rope_none computed ?cx kc1 else Some (?cx, kc1))"
    using less.prems(1-3) ne kc1(1) n
    by (subst run_context.simps) (simp add: context_apply_def context_next_def Let_def)
  show ?case
  proof (cases "?i + 1 < length (cx_ubatches cx)")
    case True
    then show ?thesis using less.hyps[of ?cx kc1] less.prems kc1(2) step by simp
  next
    case False
    then have "drop (Suc ?i) ?ps = []" using less.prems(2) by simp
    then have "kc1 = k" using kc1(2) by (simp add: apply_slots_def)
    then show ?thesis using False step less.prems(3) by auto
  qed
qed

text \<open>Micro-batches that partition the tokens have as many together.\<close>

lemma gathered_sum:
  assumes "list_all2 (\<lambda>idxs ub. P idxs ub) idxss ubs" "mset (concat idxss) = mset [0..<n]"
    and "\<And>idxs ub. P idxs ub \<Longrightarrow> \<exists>n_seqs eq. gathered ba idxs n_seqs eq ub"
  shows "sum_list (map ub_n_tokens ubs) = n"
proof -
  have "sum_list (map ub_n_tokens ubs) = length (concat idxss)"
    using assms(1) by (induction rule: list_all2_induct) (use assms(3) in \<open>auto simp: gathered_def\<close>)
  also have "\<dots> = n" using mset_eq_length[OF assms(2)] by simp
  finally show ?thesis .
qed

text \<open>The contract of \<open>init_batch\<close>: with one stream it succeeds exactly if there is a free cell for every token.\<close>

lemma init_batch_ok:
  assumes r: "ready kc n" "kc_swa_type kc = LLAMA_SWA_TYPE_NONE" and s: "streams_ok kc" and b: "batch_for kc ba"
  shows "\<exists>cx ba' kc'. init_batch n_ubatch ba kc = Some (cx, ba', kc') \<and> same_config kc kc' \<and> kc_cells kc' = kc_cells kc \<and>
     (if cx_status cx = LLAMA_MEMORY_STATUS_SUCCESS
      then (\<exists>idxss. mset (concat idxss) = mset [0..<lb_n_tokens (ba_batch ba)] \<and>
              list_all2 (\<lambda>idxs ub. \<exists>n_seqs eq. gathered ba idxs n_seqs eq ub) idxss (cx_ubatches cx)) \<and>
           (kc_n_stream kc = 1 \<longrightarrow> (\<exists>cx' k. run_context rope_none computed cx kc' = Some (cx', k) \<and> ready k n))
      else cx_status cx = LLAMA_MEMORY_STATUS_FAILED_PREPARE) \<and>
     (kc_n_stream kc = 1 \<longrightarrow> (cx_status cx = LLAMA_MEMORY_STATUS_SUCCESS \<longleftrightarrow> lb_n_tokens (ba_batch ba) \<le> free_cells kc))"
proof -
  obtain idxss ubs ba' where c: "collect (if kc_n_stream kc = 1 then split_simple n_ubatch else split_equal n_ubatch True) []
       (split_reset ba) = Some (ubs, ba')" "mset (concat idxss) = mset [0..<lb_n_tokens (ba_batch ba)]"
     "list_all2 (\<lambda>idxs ub. \<exists>n_seqs eq. gathered ba idxs n_seqs eq ub \<and> ub_ok kc ub) idxss ubs"
     "ba_n_used ba' = lb_n_tokens (ba_batch ba')" "ba_batch ba' = ba_batch ba"
    using collect_for_cache[OF s b] by blast
  have ubs: "\<forall>ub \<in> set ubs. ub_ok kc ub" using c(3) by (auto simp: list_all2_conv_all_nth in_set_conv_nth)
  have "0 < size (mset (concat idxss))" unfolding c(2) using b by (simp add: batch_for_def)
  then have "idxss \<noteq> []" by auto
  then have ne: "ubs \<noteq> []" using c(3) by auto
  obtain sis kc' where p: "prepare ubs kc = Some (sis, kc')" "same_config kc kc'" "kc_cells kc' = kc_cells kc"
     "kc_n_stream kc = 1 \<longrightarrow> kc' = kc"
     "sis \<noteq> [] \<longrightarrow> length sis = length ubs \<and> (\<exists>k. apply_slots (zip sis ubs) kc = Some k \<and> ready k n)"
    using prepare_ok[OF r ubs ne] by blast
  have "kc_n_stream kc = 1 \<longrightarrow> (sis \<noteq> [] \<longleftrightarrow> sum_list (map ub_n_tokens ubs) \<le> free_cells kc)"
    using prepare_fits[OF r _ ubs ne p(1)] by blast
  moreover have "sum_list (map ub_n_tokens ubs) = lb_n_tokens (ba_batch ba)"
    by (rule gathered_sum[OF c(3) c(2)]) blast
  ultimately have fits: "kc_n_stream kc = 1 \<longrightarrow> (sis \<noteq> [] \<longleftrightarrow> lb_n_tokens (ba_batch ba) \<le> free_cells kc)" by simp
  have i: "init_batch n_ubatch ba kc =
      Some (if sis = [] then context_status LLAMA_MEMORY_STATUS_FAILED_PREPARE else context_batch sis ubs, ba', kc')"
    unfolding init_batch_def c(1) bind.bind_lunit prod.case using c(4) p(1) by simp
  show ?thesis
  proof (cases "sis = []")
    case True
    then show ?thesis using i p(2,3) fits by (simp add: context_status_def)
  next
    case False
    obtain k where k: "apply_slots (zip sis ubs) kc = Some k" "ready k n" and len: "length sis = length ubs" using p(5) False by blast
    have run: "kc_n_stream kc = 1 \<longrightarrow> (\<exists>cx' k. run_context rope_none computed (context_batch sis ubs) kc' = Some (cx', k) \<and> ready k n)"
      using run_context_slots[of "context_batch sis ubs" kc k rope_none computed] k len ne p(4)
      by (auto simp: context_batch_def context_status_def)
    have "list_all2 (\<lambda>idxs ub. \<exists>n_seqs eq. gathered ba idxs n_seqs eq ub) idxss ubs"
      using c(3) by (rule list_all2_mono) blast
    then show ?thesis using i p(2,3) False run c(2) fits by (auto simp: context_batch_def context_status_def)
  qed
qed

end
