(* ===== verification/BatchSeq.thy ===== *)
theory BatchSeq
  imports BatchLaws
begin

text \<open>
  Laws of \<open>split_seq\<close>: a chain of tokens whose sequence sets shrink. The split keeps the contract
  \<open>batch_split\<close> with no invariant beyond the well-formedness of the allocator.
\<close>

text \<open>The tokens \<open>idxs\<close> are in batch order, and each is for a subset of the sequences of the one before.\<close>

definition shrinking :: "batch_allocr \<Rightarrow> nat list \<Rightarrow> bool" where
  "shrinking ba idxs \<longleftrightarrow> sorted_wrt (\<lambda>i j. i < j \<and> ba_seq_set ba ! j \<subseteq> ba_seq_set ba ! i) idxs"

lemma next_subset_ok:
  assumes n: "next_subset ba S i < lb_n_tokens (ba_batch ba)"
  shows "i < next_subset ba S i" "\<not> ba_used ba ! next_subset ba S i" "ba_seq_set ba ! next_subset ba S i \<subseteq> S"
proof -
  let ?P = "\<lambda>i. ba_used ba ! i \<or> S \<inter> ba_seq_set ba ! i \<noteq> ba_seq_set ba ! i"
  let ?l = "[i + 1..<lb_n_tokens (ba_batch ba)]"
  let ?k = "length (takeWhile ?P ?l)"
  show "i < next_subset ba S i" by (simp add: next_subset_def)
  have k: "?k < length ?l" using n by (simp add: next_subset_def)
  then have "\<not> ?P (?l ! ?k)" by (rule nth_length_takeWhile)
  moreover have "?l ! ?k = next_subset ba S i" using k by (simp add: next_subset_def)
  ultimately show "\<not> ba_used ba ! next_subset ba S i" "ba_seq_set ba ! next_subset ba S i \<subseteq> S" by auto
qed

lemma seq_loop_ok:
  assumes "cur_idx < lb_n_tokens (ba_batch ba)" "length (ba_used ba) = lb_n_tokens (ba_batch ba)" "\<not> ba_used ba ! cur_idx"
  shows "\<exists>new. seq_loop n_ubatch cur_idx (ba_seq_set ba ! cur_idx) idxs ba = (idxs @ new, fold mark new ba) \<and>
     new \<noteq> [] \<and> hd new = cur_idx \<and> shrinking ba new \<and> set new \<subseteq> set (unused ba) \<and>
     length new \<le> max 1 (n_ubatch - length idxs)"
  using assms
proof (induction "lb_n_tokens (ba_batch ba) - cur_idx" arbitrary: cur_idx idxs ba rule: less_induct)
  case less
  let ?ba = "mark cur_idx ba" let ?S = "ba_seq_set ba ! cur_idx"
  let ?next = "next_subset ?ba ?S cur_idx"
  have un: "cur_idx \<in> set (unused ba)" using less.prems by (simp add: unused_def)
  show ?case
  proof (cases "length idxs + 1 \<ge> n_ubatch \<or> ?next \<ge> lb_n_tokens (ba_batch ba)")
    case True
    then have "seq_loop n_ubatch cur_idx ?S idxs ba = (idxs @ [cur_idx], fold mark [cur_idx] ba)"
      by (subst seq_loop.simps) (auto simp: Let_def)
    then show ?thesis using un by (intro exI[of _ "[cur_idx]"]) (auto simp: shrinking_def)
  next
    case False
    then have n: "?next < lb_n_tokens (ba_batch ?ba)" by simp
    note nx = next_subset_ok[OF n]
    have unroll: "seq_loop n_ubatch cur_idx ?S idxs ba =
        seq_loop n_ubatch ?next (ba_seq_set ?ba ! ?next) (idxs @ [cur_idx]) ?ba"
      using False by (subst seq_loop.simps) (auto simp: Let_def)
    have less': "lb_n_tokens (ba_batch ?ba) - ?next < lb_n_tokens (ba_batch ba) - cur_idx"
      using nx(1) less.prems(1) by simp
    have len: "length (ba_used ?ba) = lb_n_tokens (ba_batch ?ba)" using less.prems(2) by simp
    obtain new where new: "seq_loop n_ubatch ?next (ba_seq_set ?ba ! ?next) (idxs @ [cur_idx]) ?ba =
         ((idxs @ [cur_idx]) @ new, fold mark new ?ba)"
       "new \<noteq> []" "hd new = ?next" "shrinking ?ba new" "set new \<subseteq> set (unused ?ba)"
       "length new \<le> max 1 (n_ubatch - length (idxs @ [cur_idx]))"
      using less.hyps[OF less' n len nx(2), of "idxs @ [cur_idx]"] by blast
    have ch: "\<forall>j \<in> set new. cur_idx < j \<and> ba_seq_set ba ! j \<subseteq> ?S"
    proof
      fix j assume j: "j \<in> set new"
      obtain xs where xs: "new = ?next # xs" using new(2,3) by (cases new) auto
      have "?next \<le> j \<and> ba_seq_set ba ! j \<subseteq> ba_seq_set ba ! ?next"
        using j new(4) unfolding xs by (auto simp: shrinking_def)
      then show "cur_idx < j \<and> ba_seq_set ba ! j \<subseteq> ?S" using nx(1,3) by auto
    qed
    have sub: "set (unused ?ba) \<subseteq> set (unused ba)" 
    proof
      fix j assume "j \<in> set (unused ?ba)"
      then show "j \<in> set (unused ba)" by (cases "j = cur_idx") (auto simp: unused_def less.prems(3))
    qed
    have "shrinking ba (cur_idx # new)" using ch new(4) by (simp add: shrinking_def)
    moreover have "length (cur_idx # new) \<le> max 1 (n_ubatch - length idxs)" using new(6) False by auto
    ultimately show ?thesis
      using new(1,5) unroll un sub by (intro exI[of _ "cur_idx # new"]) auto
  qed
qed

definition seq_shape :: "nat \<Rightarrow> batch_allocr \<Rightarrow> nat list \<Rightarrow> llama_ubatch \<Rightarrow> bool" where
  "seq_shape n_ubatch ba idxs ub \<longleftrightarrow> gathered ba idxs 1 True ub \<and> shrinking ba idxs \<and> length idxs \<le> max 1 n_ubatch"

lemma first_unused_ok:
  "first_unused u < length u \<Longrightarrow> \<not> u ! first_unused u"
  "first_unused u \<ge> length u \<longleftrightarrow> (\<forall>x \<in> set u. x)"
proof -
  show "first_unused u < length u \<Longrightarrow> \<not> u ! first_unused u"
    using nth_length_takeWhile[of id u] by (simp add: first_unused_def)
  show "first_unused u \<ge> length u \<longleftrightarrow> (\<forall>x \<in> set u. x)"
    by (induction u) (auto simp: first_unused_def)
qed

lemma all_used_iff: "(\<forall>x \<in> set (ba_used ba). x) \<longleftrightarrow> unused ba = []"
  unfolding unused_def filter_empty_conv all_set_conv_all_nth by (simp add: Ball_def)

lemma split_seq_ok:
  assumes ok: "alloc_ok ba" and more: "unused ba \<noteq> []"
  shows "\<exists>idxs ub. split_seq n_ubatch ba = Some (ub, taken idxs ba) \<and> pick ba idxs \<and> ub_n_tokens ub = length idxs \<and>
    seq_shape n_ubatch ba idxs ub \<and> alloc_ok (taken idxs ba)"
proof -
  let ?i = "first_unused (ba_used ba)"
  have len: "length (ba_used ba) = lb_n_tokens (ba_batch ba)" using ok by (simp add: alloc_ok_def)
  have i: "?i < length (ba_used ba)" using more first_unused_ok(2)[of "ba_used ba"] by (auto simp: all_used_iff not_le)
  obtain new where new: "seq_loop n_ubatch ?i (ba_seq_set ba ! ?i) [] ba = (new, fold mark new ba)" "new \<noteq> []"
     "shrinking ba new" "set new \<subseteq> set (unused ba)" "length new \<le> max 1 n_ubatch"
    using seq_loop_ok[of ?i ba n_ubatch "[]"] i len first_unused_ok(1)[OF i] by auto
  have "sorted_wrt (<) new" using new(3) unfolding shrinking_def by (rule sorted_wrt_mono_rel[rotated]) blast
  then have "distinct new" by (simp add: strict_sorted_iff)
  then have p: "pick ba new" using new(2,4) by (simp add: pick_def)
  obtain ub where ub: "ubatch_add new 1 True (fold mark new ba) = Some (ub, taken new ba)" "gathered ba new 1 True ub"
    using ubatch_add_pick[OF ok p, of 1 True] by auto
  have "at (ba_seq_set ba) ?i = Some (ba_seq_set ba ! ?i)" using i len ok by (simp add: alloc_ok_def)
  then have "split_seq n_ubatch ba = Some (ub, taken new ba)"
    using i new(1) ub(1) by (simp add: split_seq_def Let_def)
  moreover have "ub_n_tokens ub = length new" using ub(2) unfolding gathered_def by blast
  ultimately show ?thesis using p taken_ok[OF ok p] ub(2) new(3,5) unfolding seq_shape_def by blast
qed

interpretation seq: batch_split "split_seq n_ubatch" alloc_ok "seq_shape n_ubatch" for n_ubatch
proof (unfold_locales, goal_cases)
  case (1 ba)
  then show ?case by (rule split_seq_ok)
next
  case (2 ba)
  then have "first_unused (ba_used ba) \<ge> length (ba_used ba)" using first_unused_ok(2)[of "ba_used ba"] by (simp add: all_used_iff)
  then show ?case by (simp add: split_seq_def)
next
  case (3 idxs ba)
  show ?case by (simp add: seq_shape_def shrinking_def fun_eq_iff)
qed

end
