(* ===== verification/BatchProps.thy ===== *)
theory BatchProps
  imports KvContextLaws BatchSeq
begin

text \<open>
  The properties of the batch allocator (\<open>src/llama-batch.cpp\<close>) and of its composition with the key-value
  cache through the memory context (\<open>src/llama-kv-cache.cpp\<close>).
\<close>

section \<open>Validation\<close>


definition doc_batch :: "llama_seq_id list list \<Rightarrow> llama_pos list \<Rightarrow> llama_batch" where
  "doc_batch ids pos = \<lparr>lb_n_tokens = length pos, lb_token = Some (replicate (length pos) 7), lb_embd = None,
     lb_pos = Some pos, lb_n_seq_id = Some (map length ids), lb_seq_id = Some ids, lb_logits = None\<rparr>"

text \<open>
  The two batches that the comment before the last check gives as invalid, a partial subset of
  sequences and a decreasing position, are accepted.
\<close>

lemma invalid_examples_accepted:
  "map_option fst (init (doc_batch [[0, 1, 2], [0, 1], [1, 2]] [0, 1, 1]) 8 None 1 3 False (allocr_new 1)) = Some True \<and>
   map_option fst (init (doc_batch [[0], [0], [1], [1], [0], [1], [0]] [4, 5, 0, 1, 6, 2, 3]) 8 None 1 2 False (allocr_new 1)) = Some True"
  by (rule conjI; code_simp)

text \<open>A batch of three tokens, two of sequence 0 and one of sequence 1.\<close>

definition pair_batch :: llama_batch where
  "pair_batch = doc_batch [[0], [1], [0]] [0, 0, 1]"

lemma pair_input_ok: "input_ok 1 1 pair_batch" "memory_ok None (lb_n_tokens pair_batch) 2" "ba_n_pos_per_embd (allocr_new 1) = 1"
  by (auto simp: input_ok_def pair_batch_def doc_batch_def in_ns_def in_ids_def INT32_MAX_def memory_ok_def allocr_new_def
      less_Suc_eq numeral_3_eq_3)

lemma pair_init: "map_option fst (init pair_batch 8 None 1 2 False (allocr_new 1)) = Some True"
  unfolding pair_batch_def by code_simp

lemma pair_valid: "input_valid 8 2 pair_batch"
proof -
  have "LLAMA_MAX_SEQ \<ge> 2" by (simp add: LLAMA_MAX_SEQ_def)
  moreover have "tokens_valid 8 pair_batch" by (auto simp: tokens_valid_def pair_batch_def doc_batch_def less_Suc_eq numeral_3_eq_3)
  moreover have "seqs_valid 2 pair_batch"
    by (auto simp: seqs_valid_def pair_batch_def doc_batch_def in_seqs_def in_ns_def in_ids_def less_Suc_eq numeral_3_eq_3)
  ultimately show ?thesis by (simp add: input_valid_def)
qed


definition pair_allocr :: batch_allocr where
  "pair_allocr = snd (the (init pair_batch 8 None 1 2 False (allocr_new 1)))"

lemma pair_allocr: "fresh pair_allocr" "lb_n_tokens (ba_batch pair_allocr) = 3" "\<not> ba_has_cpl pair_allocr"
  "completed None False pair_batch (ba_batch pair_allocr)" "ba_n_seq_max pair_allocr = 2" "ba_n_pos_per_embd pair_allocr = 1"
proof -
  obtain ba b where i: "init pair_batch 8 None 1 2 False (allocr_new 1) = Some (True, ba)" and
    ba: "completed None False pair_batch b" "ba_batch ba = b" "fresh ba" "ba_n_seq_max ba = 2" "ba_n_pos_per_embd ba = 1"
    using init_ok[of "allocr_new 1" 1 pair_batch 2 None 8 False] pair_input_ok pair_init pair_valid by auto
  have eq: "pair_allocr = ba" using i by (simp add: pair_allocr_def)
  have "seqs_valid 2 pair_batch" using pair_valid by (simp add: input_valid_def)
  note c = completed_filled[OF pair_input_ok(1) this _ ba(1)]
  have n: "lb_n_tokens (ba_batch ba) = 3" using c(2) ba(2) by (simp add: pair_batch_def doc_batch_def)
  have "length (tok_seqs (ba_batch ba) i) = 1" if "i < 3" for i
    using that c(4) ba(2)
    by (auto simp: in_seqs_def in_ns_def in_ids_def pair_batch_def doc_batch_def less_Suc_eq numeral_3_eq_3)
  then have "\<not> ba_has_cpl ba" using ba(3) n by (auto simp: fresh_def)
  with ba n show "fresh pair_allocr" "lb_n_tokens (ba_batch pair_allocr) = 3" "\<not> ba_has_cpl pair_allocr"
    "completed None False pair_batch (ba_batch pair_allocr)" "ba_n_seq_max pair_allocr = 2" "ba_n_pos_per_embd pair_allocr = 1"
    by (simp_all add: eq)
qed

lemma pair_alloc:
  "\<exists>ba. fresh ba \<and> lb_n_tokens (ba_batch ba) = 3 \<and> \<not> ba_has_cpl ba \<and> completed None False pair_batch (ba_batch ba) \<and>
     ba_n_seq_max ba = 2 \<and> ba_n_pos_per_embd ba = 1"
  using pair_allocr by blast

section \<open>Splitting\<close>

lemma three_tokens: "mset [0..<3] = {#0, 1, 2#}"
  by (simp add: upt_rec)

lemma fresh_unused: "fresh ba \<Longrightarrow> unused ba = [0..<lb_n_tokens (ba_batch ba)]"
  by (simp add: fresh_def unused_def)

lemma fresh_simple: "fresh ba \<Longrightarrow> simple_inv ba"
  by (auto simp: fresh_def simple_inv_def intro: exI[of _ 0])

lemma fresh_equal: "fresh ba \<Longrightarrow> sequential \<longrightarrow> \<not> ba_has_cpl ba \<Longrightarrow> equal_inv sequential ba"
proof -
  assume f: "fresh ba" and s: "sequential \<longrightarrow> \<not> ba_has_cpl ba"
  have "length (tok_seqs (ba_batch ba) i) = 1" if h: "\<not> ba_has_cpl ba" and i: "i < lb_n_tokens (ba_batch ba)" for i
  proof -
    have "tok_seqs (ba_batch ba) i \<noteq> []" using f i gather_seqs_ok(3) unfolding fresh_def alloc_ok_def by blast
    moreover have "\<not> 1 < length (tok_seqs (ba_batch ba) i)" using f h i unfolding fresh_def by blast
    ultimately show ?thesis by (cases "tok_seqs (ba_batch ba) i") auto
  qed
  moreover have "alloc_ok ba" "front ba" using f by (simp_all add: fresh_def front_def)
  ultimately show ?thesis using s unfolding equal_inv_def by blast
qed

text \<open>
  Taking micro-batches with \<open>split_simple\<close> ends, with every token of the batch in exactly one of them;
  each is a run of consecutive tokens, \<open>n_ubatch\<close> of them unless the batch ends before, with the fields of
  exactly these tokens.
\<close>

theorem simple_split_partition:
  assumes "fresh ba"
  shows "\<exists>idxss ubs ba'. collect (split_simple n_ubatch) [] ba = Some (ubs, ba') \<and>
     list_all2 (simple_shape n_ubatch ba) idxss ubs \<and> mset (concat idxss) = mset [0..<lb_n_tokens (ba_batch ba)] \<and> unused ba' = []"
  using simple.collect_ok[OF fresh_simple[OF assms], of n_ubatch] fresh_unused[OF assms] by fastforce

theorem simple_split_partition_witness:
  "\<exists>ba idxss ubs ba'. collect (split_simple 2) [] ba = Some (ubs, ba') \<and> list_all2 (simple_shape 2 ba) idxss ubs \<and>
     mset (concat idxss) = {#0, 1, 2#}"
proof -
  obtain ba where "fresh ba" "lb_n_tokens (ba_batch ba) = 3" using pair_alloc by blast
  with simple_split_partition[OF this(1), of 2] \<open>lb_n_tokens (ba_batch ba) = 3\<close> show ?thesis
    unfolding three_tokens[symmetric] by metis
qed

text \<open>
  C19: taking micro-batches with \<open>split_equal\<close> from a fresh batch (for sequential splits: one without coupled
  sequences; with them the source logs an error and returns an empty micro-batch) ends, with every token in exactly one of them; each consists
  of groups of equal length, one for each of at most \<open>n_ubatch + 1\<close> pairwise disjoint sets of sequences,
  with consecutive sequences if asked for, and is no longer than \<open>n_ubatch\<close> unless the groups are single
  tokens.
\<close>

theorem equal_split_partition:
  assumes "fresh ba" "sequential \<longrightarrow> \<not> ba_has_cpl ba"
  shows "\<exists>idxss ubs ba'. collect (split_equal n_ubatch sequential) [] ba = Some (ubs, ba') \<and>
     list_all2 (equal_shape n_ubatch sequential ba) idxss ubs \<and> mset (concat idxss) = mset [0..<lb_n_tokens (ba_batch ba)] \<and>
     unused ba' = []"
  using equal.collect_ok[OF fresh_equal[OF assms], of n_ubatch] fresh_unused[OF assms(1)] by fastforce

theorem equal_split_partition_witness:
  "\<exists>ba idxss ubs ba'. collect (split_equal 2 True) [] ba = Some (ubs, ba') \<and> list_all2 (equal_shape 2 True ba) idxss ubs \<and>
     mset (concat idxss) = {#0, 1, 2#}"
proof -
  obtain ba where "fresh ba" "lb_n_tokens (ba_batch ba) = 3" "True \<longrightarrow> \<not> ba_has_cpl ba" using pair_alloc by blast
  with equal_split_partition[OF this(1,3), of 2] \<open>lb_n_tokens (ba_batch ba) = 3\<close> show ?thesis
    unfolding three_tokens[symmetric] by metis
qed

declare expand.simps [code]

text \<open>
  Asked for micro-batches of one token, \<open>split_equal\<close> returns one
  of two tokens, since the size is tested after the set has been added.
\<close>

theorem equal_split_exceeds:
  "Option.bind (init pair_batch 8 None 1 2 False (allocr_new 1))
     (\<lambda>(ok, ba). map_option (\<lambda>(ub, ba). ub_n_tokens ub) (split_equal 1 False ba)) = Some 2"
  unfolding pair_batch_def by code_simp

text \<open>
  Taking micro-batches with \<open>split_seq\<close> ends, with every token in exactly one of them; each has at most
  \<open>n_ubatch\<close> tokens, in the order of the batch, each for a subset of the sequences of the one before.
\<close>

theorem seq_split_partition:
  assumes "fresh ba"
  shows "\<exists>idxss ubs ba'. collect (split_seq n_ubatch) [] ba = Some (ubs, ba') \<and>
     list_all2 (seq_shape n_ubatch ba) idxss ubs \<and> mset (concat idxss) = mset [0..<lb_n_tokens (ba_batch ba)] \<and> unused ba' = []"
proof -
  have "alloc_ok ba" using assms by (simp add: fresh_def)
  from seq.collect_ok[OF this, of n_ubatch] fresh_unused[OF assms] show ?thesis by fastforce
qed

theorem seq_split_partition_witness:
  "\<exists>ba idxss ubs ba'. collect (split_seq 2) [] ba = Some (ubs, ba') \<and> list_all2 (seq_shape 2 ba) idxss ubs \<and>
     mset (concat idxss) = {#0, 1, 2#}"
proof -
  obtain ba where "fresh ba" "lb_n_tokens (ba_batch ba) = 3" using pair_alloc by blast
  with seq_split_partition[OF this(1), of 2] \<open>lb_n_tokens (ba_batch ba) = 3\<close> show ?thesis
    unfolding three_tokens[symmetric] by metis
qed

text \<open>Batches of embeddings without positions: the completion adds one position for each token.\<close>

lemma auto_pos_length:
  "foldM (auto_pos ns ids) is (p0, pos) = Some (p0', pos') \<Longrightarrow> length pos' = length pos + length is"
proof (induction "is" arbitrary: p0 pos)
  case (Cons i "is")
  from Cons.prems obtain p1 p where "foldM (auto_pos ns ids) is (p1, pos @ [p]) = Some (p0', pos')"
    by (auto simp: auto_pos_def[of ns ids i] bind_eq_Some_conv)
  with Cons.IH show ?case by fastforce
qed simp

lemma fill_batch_pos:
  assumes "fill_batch inp memory n_seq_max output_all = Some b" "lb_pos inp = None"
  shows "lb_n_tokens b = lb_n_tokens inp \<and> lb_token b = lb_token inp \<and> (\<exists>pos. lb_pos b = Some pos \<and> length pos = lb_n_tokens inp)"
  using assms by (auto simp: fill_batch_def Let_def bind_eq_Some_conv dest: auto_pos_length)

lemma note_entry_keeps:
  "foldM (note_entry b) es ba = Some ba' \<Longrightarrow> ba_batch ba' = ba_batch ba \<and> ba_n_pos_per_embd ba' = ba_n_pos_per_embd ba"
proof (induction es arbitrary: ba)
  case (Cons e es)
  from Cons.prems obtain ba1 where ba1: "note_entry b e ba = Some ba1" "foldM (note_entry b) es ba1 = Some ba'"
    by (auto simp: bind_eq_Some_conv)
  from ba1(1) have "ba_batch ba1 = ba_batch ba \<and> ba_n_pos_per_embd ba1 = ba_n_pos_per_embd ba"
    by (auto simp: note_entry_def bind_eq_Some_conv split: prod.splits if_splits)
  with Cons.IH[OF ba1(2)] show ?case by simp
qed simp

lemma init_accepted:
  assumes "init inp n_vocab memory n_embd n_seq_max output_all ba = Some (True, ba')"
  shows "0 < lb_n_tokens inp \<and> fill_batch inp memory n_seq_max output_all = Some (ba_batch ba') \<and>
    ba_n_pos_per_embd ba' = ba_n_pos_per_embd ba \<and> ba_used ba' = replicate (lb_n_tokens (ba_batch ba')) False"
  using assms
  by (auto simp: init_def compute_stats_def split_reset_def Let_def bind_eq_Some_conv split: if_splits dest!: note_entry_keeps)

lemma mapM_None: "x \<in> set xs \<Longrightarrow> f x = None \<Longrightarrow> mapM f xs = None"
  by (cases "mapM f xs") (auto simp: mapM_Some list_all2_conv_all_nth in_set_conv_nth)

lemma simple_loop_keeps:
  "simple_loop n_ubatch i idxs ba = (idxs', ba') \<Longrightarrow> idxs' \<noteq> [] \<and> ba_batch ba' = ba_batch ba \<and> ba_n_pos_per_embd ba' = ba_n_pos_per_embd ba"
proof (induction n_ubatch i idxs ba rule: simple_loop.induct)
  case (1 n_ubatch i idxs ba)
  then show ?case by (subst (asm) (2) simple_loop.simps) (auto simp: Let_def split: if_splits)
qed

text \<open>
  C39: with M-RoPE (more than one position for each embedding) a batch of embeddings without positions can be accepted,
  but every micro-batch that is made of tokens of an accepted one reads behind the end of its positions, the first
  one of \<open>split_simple\<close> in particular.
\<close>

theorem mrope_positions_missing:
  assumes "init inp n_vocab memory n_embd n_seq_max output_all ba = Some (True, ba')"
    and "lb_token inp = None" "lb_pos inp = None" "1 < ba_n_pos_per_embd ba"
  shows "split_simple n_ubatch ba' = None \<and> (\<forall>idxs n_seqs equal_seqs. idxs \<noteq> [] \<longrightarrow> ubatch_add idxs n_seqs equal_seqs ba' = None)"
proof -
  note i = init_accepted[OF assms(1)]
  obtain pos where pos: "lb_pos (ba_batch ba') = Some pos" "length pos = lb_n_tokens (ba_batch ba')" "lb_token (ba_batch ba') = None"
    using fill_batch_pos[of inp memory n_seq_max output_all "ba_batch ba'"] i assms(2,3) by auto
  have none: "ubatch_add idxs n_seqs equal_seqs ba1 = None"
    if "idxs \<noteq> []" "ba_batch ba1 = ba_batch ba'" "ba_n_pos_per_embd ba1 = ba_n_pos_per_embd ba'" for idxs n_seqs equal_seqs ba1
  proof -
    have "(1, hd idxs) \<in> set (List.product [0..<ba_n_pos_per_embd ba1] idxs)" using that i assms(4) by simp
    then have "mapM (\<lambda>(j, idx). at pos (j * lb_n_tokens (ba_batch ba') + idx)) (List.product [0..<ba_n_pos_per_embd ba1] idxs) = None"
      by (rule mapM_None) (simp add: at_def pos(2))
    then have "gather_pos ba1 idxs = None" using that(2) pos by (simp add: gather_pos_def)
    then show ?thesis by (auto simp: ubatch_add_def Let_def bind_eq_None_conv)
  qed
  have "split_simple n_ubatch ba' = None"
  proof (cases "simple_loop n_ubatch (first_unused (ba_used ba')) [] ba'")
    case (Pair idxs ba1)
    have "first_unused (ba_used ba') = 0" "0 < length (ba_used ba')"
      using i fill_batch_pos[of inp memory n_seq_max output_all "ba_batch ba'"] assms(3) by (auto simp: first_unused_def)
    then show ?thesis using simple_loop_keeps[OF Pair] Pair none[of idxs ba1] by (simp add: split_simple_def)
  qed
  then show ?thesis using none by blast
qed

theorem mrope_positions_missing_witness:
  "\<exists>ba'. init (doc_batch [[0]] [0]\<lparr>lb_token := None, lb_embd := Some [0], lb_pos := None\<rparr>) 8 None 1 1 False (allocr_new 4) = Some (True, ba') \<and>
     split_simple 1 ba' = None"
proof -
  let ?inp = "doc_batch [[0]] [0]\<lparr>lb_token := None, lb_embd := Some [0], lb_pos := None\<rparr>"
  have "map_option fst (init ?inp 8 None 1 1 False (allocr_new 4)) = Some True" by code_simp
  then obtain ba' where ba': "init ?inp 8 None 1 1 False (allocr_new 4) = Some (True, ba')" by auto
  have "lb_token ?inp = None" "lb_pos ?inp = None" "1 < ba_n_pos_per_embd (allocr_new 4)" by (simp_all add: allocr_new_def)
  from mrope_positions_missing[OF ba' this] ba' show ?thesis by blast
qed

end
