(* ===== verification/ContextProps.thy ===== *)
theory ContextProps
  imports BatchProps CacheProps
begin

text \<open>
  Properties of the composition: a batch that the allocator has accepted, taken through \<open>init_batch\<close>,
  \<open>apply\<close> and \<open>next\<close> of the memory context.
\<close>

text \<open>What \<open>init\<close> has accepted is fit for a cache with enough sequences, if no token repeats a sequence.\<close>

lemma accepted_batch_for:
  assumes "input_ok n_pos n_embd inp" "seqs_valid n_seq_max inp" "0 < n_seq_max" "completed memory output_all inp (ba_batch ba)"
    and "fresh ba" "ba_n_seq_max ba = n_seq_max" "ba_n_pos_per_embd ba = n_pos"
    and "n_seq_max \<le> length (kc_seq_to_stream kc)" "\<forall>i < lb_n_tokens inp. distinct (in_seqs inp i)"
    and "kc_n_stream kc > 1 \<longrightarrow> \<not> ba_has_cpl ba"
  shows "batch_for kc ba"
proof -
  note c = completed_filled[OF assms(1-4)]
  have eq: "kc_n_stream kc > 1 \<longrightarrow> equal_inv True ba" using fresh_equal[OF assms(5), of True] assms(10) by blast
  obtain pos where pos: "lb_pos (ba_batch ba) = Some pos" "\<forall>x \<in> set pos. 0 \<le> x \<and> x < INT32_MAX"
    using assms(4) by (auto simp: completed_def)
  have "lb_n_tokens inp \<le> length pos"
  proof -
    have "lb_n_tokens inp * (if lb_token inp \<noteq> None then 1 else n_pos) \<le> length pos"
      using c(1-3) pos(1) by (auto simp: batch_filled_def)
    moreover have "0 < n_pos" using assms(1) by (simp add: input_ok_def)
    ultimately show ?thesis by (cases "lb_token inp") (auto intro: order_trans[rotated])
  qed
  then have "0 \<le> pos ! i \<and> pos ! i < INT32_MAX" if "i < lb_n_tokens inp" for i using pos(2) that by simp
  then show ?thesis
    using assms c(2,4) pos(1) eq by (auto simp: batch_for_def fresh_def input_ok_def equal_inv_def)
qed


lemma pair_batch_for:
  assumes "kc_seq_to_stream kc = replicate LLAMA_MAX_SEQ 0" "kc_n_stream kc = 1"
  shows "batch_for kc pair_allocr"
proof -
  have v: "seqs_valid 2 pair_batch" using pair_valid by (simp add: input_valid_def)
  have d: "\<forall>i < lb_n_tokens pair_batch. distinct (in_seqs pair_batch i)"
    by (auto simp: in_seqs_def in_ns_def in_ids_def pair_batch_def doc_batch_def less_Suc_eq numeral_3_eq_3)
  show ?thesis
    by (rule accepted_batch_for[OF pair_input_ok(1) v _ pair_allocr(4,1,5,6) _ d]) (simp_all add: assms LLAMA_MAX_SEQ_def)
qed

text \<open>The batch fits into an empty cache of four cells.\<close>

definition four_cells :: kv_cache where
  "four_cells = the (kv_cache_init False True 4 2 1 0 LLAMA_SWA_TYPE_NONE 1 1 False)"

lemma four_cells: "kv_view four_cells = [replicate 4 empty_cell]" "ready four_cells 4" "kc_n_stream four_cells = 1"
  "kc_swa_type four_cells = LLAMA_SWA_TYPE_NONE" "streams_ok four_cells" "batch_for four_cells pair_allocr"
proof -
  obtain kc where kc: "kv_cache_init False True 4 2 1 0 LLAMA_SWA_TYPE_NONE 1 1 False = Some kc" "kv_view kc = [replicate 4 empty_cell]"
    "kc_inv kc 4" "kc_n_stream kc = 1" "kc_swa_type kc = LLAMA_SWA_TYPE_NONE" "kc_seq_to_stream kc = replicate LLAMA_MAX_SEQ 0"
    using new_cache by blast
  have "four_cells = kc" using kc(1) by (simp add: four_cells_def)
  then show "kv_view four_cells = [replicate 4 empty_cell]" "ready four_cells 4" "kc_n_stream four_cells = 1"
    "kc_swa_type four_cells = LLAMA_SWA_TYPE_NONE" "streams_ok four_cells" "batch_for four_cells pair_allocr"
    using kc new_cache_ready[OF kc(5,2)] pair_batch_for[OF kc(6,4)] by (simp_all add: ready_def streams_ok_def)
qed

lemma four_cells_free: "lb_n_tokens (ba_batch pair_allocr) \<le> free_cells four_cells"
  by (simp add: free_cells_def four_cells(1) pair_allocr(2) empty_cell_def)


end
