(* ===== verification/Recurrent.thy ===== *)
theory Recurrent
  imports KvContext
begin

text \<open>
  The memory of recurrent models (\<open>src/llama-memory-recurrent.h\<close>, \<open>src/llama-memory-recurrent.cpp\<close>): a cell holds the
  state of whole sequences. The entry \<open>tail\<close> of the cell with the number of a sequence (not of the cell the
  sequence is in) points to the cell that holds its state. A set of sequences is a set; the size of the
  memory is the length of its list of cells.
\<close>

section \<open>Cells\<close>

record mem_cell =
  mc_pos :: llama_pos
  mc_src :: int       \<comment> \<open>where the state is copied from\<close>
  mc_src0 :: int      \<comment> \<open>the same, for the inputs of the graph\<close>
  mc_tail :: int
  mc_seq_id :: "llama_seq_id set"

record memory_recurrent =
  rs_head :: nat
  rs_used :: "32 word"
  rs_n :: nat
  rs_z :: int
  rs_cells :: "mem_cell list"

abbreviation rs_size :: "memory_recurrent \<Rightarrow> nat" where
  "rs_size mr \<equiv> length (rs_cells mr)"

definition new_cell :: mem_cell where
  "new_cell = \<lparr>mc_pos = -1, mc_src = -1, mc_src0 = -1, mc_tail = -1, mc_seq_id = {}\<rparr>"

definition has_seq_id :: "mem_cell \<Rightarrow> llama_seq_id \<Rightarrow> bool" where
  "has_seq_id c i \<longleftrightarrow> i \<in> mc_seq_id c"

definition cell_is_empty :: "mem_cell \<Rightarrow> bool" where
  "cell_is_empty c \<longleftrightarrow> mc_seq_id c = {}"

definition recurrent_new :: "nat \<Rightarrow> memory_recurrent" where
  "recurrent_new mem_size = \<lparr>rs_head = 0, rs_used = 0, rs_n = 0, rs_z = -1, rs_cells = replicate mem_size new_cell\<rparr>"

text \<open>\<open>cells[i]\<close> with an index of type \<open>int32_t\<close>, and an assignment to a member of it.\<close>

definition mem_cell_at :: "mem_cell list \<Rightarrow> int \<Rightarrow> mem_cell option" where
  "mem_cell_at cells i = (if i < 0 then None else at cells (nat i))"

definition upd :: "int \<Rightarrow> (mem_cell \<Rightarrow> mem_cell) \<Rightarrow> mem_cell list \<Rightarrow> mem_cell list" where
  "upd i f cells = cells[nat i := f (cells ! nat i)]"

text \<open>A loop over all cells that touches in each turn only the cell of the turn.\<close>

fun each_cell :: "(nat \<Rightarrow> mem_cell \<Rightarrow> 'a \<Rightarrow> mem_cell \<times> 'a) \<Rightarrow> nat \<Rightarrow> mem_cell list \<Rightarrow> 'a \<Rightarrow> mem_cell list \<times> 'a" where
  "each_cell f i [] a = ([], a)"
| "each_cell f i (c # cs) a =
     (let (c, a) = f i c a; (cs, a) = each_cell f (i + 1) cs a in (c # cs, a))"

section \<open>Sequence operations\<close>

definition rec_clear :: "memory_recurrent \<Rightarrow> memory_recurrent" where
  "rec_clear mr = mr\<lparr>rs_cells := map (\<lambda>c. c\<lparr>mc_pos := -1, mc_seq_id := {}, mc_src := -1, mc_tail := -1\<rparr>) (rs_cells mr),
     rs_head := 0, rs_used := 0\<rparr>"

text \<open>The accumulator of the loops: the count of used cells and the first cell that was freed.\<close>

definition rm_turn ::
  "nat \<Rightarrow> llama_seq_id \<Rightarrow> llama_pos \<Rightarrow> llama_pos \<Rightarrow> nat \<Rightarrow> mem_cell \<Rightarrow> 32 word \<times> nat \<Rightarrow> mem_cell \<times> (32 word \<times> nat)" where
  "rm_turn sz seq_id p0 p1 i c acc = (case acc of (used, new_head) \<Rightarrow>
     if mc_pos c \<ge> p0 \<and> mc_pos c < p1 \<and> (seq_id < 0 \<or> has_seq_id c seq_id) then
       let c = (if seq_id < 0 then c\<lparr>mc_seq_id := {}\<rparr> else c\<lparr>mc_seq_id := mc_seq_id c - {seq_id}\<rparr>) in
       if cell_is_empty c then
         (c\<lparr>mc_pos := -1, mc_src := -1\<rparr>,
          if mc_pos c \<ge> 0 then used - 1 else used, if new_head = sz then i else new_head)
       else (c, acc)
     else (c, acc))"

text \<open>The part in front of the loop: \<open>None\<close> if the function returns \<open>false\<close>, else the cells.\<close>

definition rm_check :: "llama_seq_id \<Rightarrow> llama_pos \<Rightarrow> llama_pos \<Rightarrow> mem_cell list \<Rightarrow> mem_cell list option option" where
  "rm_check seq_id p0 p1 cells =
     (if seq_id \<ge> int (length cells) then Some None
      else if 0 \<le> seq_id then do {
        meta \<leftarrow> mem_cell_at cells seq_id;
        if mc_tail meta \<ge> 0 then do {
          cell \<leftarrow> mem_cell_at cells (mc_tail meta);
          if 0 < p0 \<and> p0 \<le> mc_pos cell \<and> p1 > mc_pos cell then Some None
          else if p0 \<le> mc_pos cell \<and> mc_pos cell < p1
          then Some (Some (upd seq_id (\<lambda>c. c\<lparr>mc_tail := -1\<rparr>) cells))
          else Some (Some cells)
        }
        else Some (Some cells)
      }
      else if p0 \<noteq> p1 \<and> (p0 \<noteq> 0 \<or> p1 \<noteq> INT32_MAX) then Some None
      else Some (Some cells))"

definition rec_seq_rm :: "llama_seq_id \<Rightarrow> llama_pos \<Rightarrow> llama_pos \<Rightarrow> memory_recurrent \<Rightarrow> (bool \<times> memory_recurrent) option" where
  "rec_seq_rm seq_id p0 p1 mr = do {
     let p0 = lower p0;
     let p1 = upper p1;
     let sz = rs_size mr;
     r \<leftarrow> rm_check seq_id p0 p1 (rs_cells mr);
     case r of
       None \<Rightarrow> Some (False, mr)
     | Some cells \<Rightarrow>
         (case each_cell (rm_turn sz seq_id p0 p1) 0 cells (rs_used mr, sz) of (cells, used, new_head) \<Rightarrow>
          Some (True, mr\<lparr>rs_cells := cells, rs_used := used,
            rs_head := (if new_head \<noteq> sz \<and> new_head < rs_head mr then new_head else rs_head mr)\<rparr>))
   }"

text \<open>A sequence leaves the cell its tail points to; used by \<open>seq_cp\<close> and \<open>find_slot\<close>.\<close>

definition release :: "llama_seq_id \<Rightarrow> mem_cell list \<times> 32 word \<Rightarrow> (mem_cell list \<times> 32 word) option" where
  "release seq_id st = (case st of (cells, used) \<Rightarrow> do {
     meta \<leftarrow> mem_cell_at cells seq_id;
     if mc_tail meta \<ge> 0 then do {
       cell \<leftarrow> mem_cell_at cells (mc_tail meta);
       let left = mc_seq_id cell - {seq_id};
       let cells = upd (mc_tail meta) (\<lambda>c. c\<lparr>mc_seq_id := left\<rparr>) cells;
       let cells = upd seq_id (\<lambda>c. c\<lparr>mc_tail := -1\<rparr>) cells;
       Some (if left = {} then (upd (mc_tail meta) (\<lambda>c. c\<lparr>mc_pos := -1, mc_src := -1\<rparr>) cells, used - 1) else (cells, used))
     }
     else Some (cells, used)
   })"

text \<open>The conversion of a sequence number to \<open>uint32_t\<close>; a number that passes the test is the index.\<close>

definition below :: "llama_seq_id \<Rightarrow> nat \<Rightarrow> bool" where
  "below seq_id sz \<longleftrightarrow> 0 \<le> seq_id \<and> seq_id < int sz"

definition rec_seq_cp ::
  "llama_seq_id \<Rightarrow> llama_seq_id \<Rightarrow> llama_pos \<Rightarrow> llama_pos \<Rightarrow> memory_recurrent \<Rightarrow> memory_recurrent option" where
  "rec_seq_cp seq_id_src seq_id_dst p0 p1 mr =
     (if seq_id_src = seq_id_dst then Some mr
      else if below seq_id_dst (rs_size mr) \<and> below seq_id_src (rs_size mr) then do {
        (cells, used) \<leftarrow> release seq_id_dst (rs_cells mr, rs_used mr);
        src \<leftarrow> mem_cell_at cells seq_id_src;
        if mc_tail src \<ge> 0 then do {
          cell \<leftarrow> mem_cell_at cells (mc_tail src);
          let cells = upd (mc_tail src) (\<lambda>c. c\<lparr>mc_seq_id := insert seq_id_dst (mc_seq_id c)\<rparr>) cells;
          Some (mr\<lparr>rs_cells := upd seq_id_dst (\<lambda>c. c\<lparr>mc_tail := mc_tail src\<rparr>) cells, rs_used := used\<rparr>)
        }
        else Some (mr\<lparr>rs_cells := cells, rs_used := used\<rparr>)
      }
      else Some mr)"

definition keep_turn :: "nat \<Rightarrow> llama_seq_id \<Rightarrow> nat \<Rightarrow> mem_cell \<Rightarrow> 32 word \<times> nat \<Rightarrow> mem_cell \<times> (32 word \<times> nat)" where
  "keep_turn sz seq_id i c acc = (case acc of (used, new_head) \<Rightarrow>
     let c = (if int i \<noteq> seq_id then c\<lparr>mc_tail := -1\<rparr> else c) in
     if \<not> has_seq_id c seq_id then
       (c\<lparr>mc_pos := -1, mc_src := -1, mc_seq_id := {}\<rparr>,
        if mc_pos c \<ge> 0 then used - 1 else used, if new_head = sz then i else new_head)
     else (c\<lparr>mc_seq_id := {seq_id}\<rparr>, acc))"

definition rec_seq_keep :: "llama_seq_id \<Rightarrow> memory_recurrent \<Rightarrow> memory_recurrent" where
  "rec_seq_keep seq_id mr =
     (let sz = rs_size mr in
      case each_cell (keep_turn sz seq_id) 0 (rs_cells mr) (rs_used mr, sz) of (cells, used, new_head) \<Rightarrow>
      mr\<lparr>rs_cells := cells, rs_used := used,
         rs_head := (if new_head \<noteq> sz \<and> new_head < rs_head mr then new_head else rs_head mr)\<rparr>)"

text \<open>Shared by \<open>seq_add\<close> and \<open>seq_div\<close>: the position of the cell of the sequence, if it is in the range.\<close>

definition at_tail ::
  "(llama_pos \<Rightarrow> llama_pos option) \<Rightarrow> llama_seq_id \<Rightarrow> llama_pos \<Rightarrow> llama_pos \<Rightarrow> memory_recurrent \<Rightarrow> memory_recurrent option" where
  "at_tail f seq_id p0 p1 mr =
     (if p0 = p1 then Some mr
      else if 0 \<le> seq_id \<and> seq_id < int (rs_size mr) then do {
        meta \<leftarrow> mem_cell_at (rs_cells mr) seq_id;
        if mc_tail meta \<ge> 0 then do {
          cell \<leftarrow> mem_cell_at (rs_cells mr) (mc_tail meta);
          if has_seq_id cell seq_id \<and> p0 \<le> mc_pos cell \<and> mc_pos cell < p1 then do {
            pos \<leftarrow> f (mc_pos cell);
            Some (mr\<lparr>rs_cells := upd (mc_tail meta) (\<lambda>c. c\<lparr>mc_pos := pos\<rparr>) (rs_cells mr)\<rparr>)
          }
          else Some mr
        }
        else Some mr
      }
      else Some mr)"

definition rec_seq_add ::
  "llama_seq_id \<Rightarrow> llama_pos \<Rightarrow> llama_pos \<Rightarrow> llama_pos \<Rightarrow> memory_recurrent \<Rightarrow> memory_recurrent option" where
  "rec_seq_add seq_id p0 p1 shift mr =
     (if shift = 0 then Some mr else at_tail (\<lambda>pos. i32 (pos + shift)) seq_id (lower p0) (upper p1) mr)"

definition rec_seq_div ::
  "llama_seq_id \<Rightarrow> llama_pos \<Rightarrow> llama_pos \<Rightarrow> int \<Rightarrow> memory_recurrent \<Rightarrow> memory_recurrent option" where
  "rec_seq_div seq_id p0 p1 d mr =
     (if d = 1 then Some mr
      else at_tail (\<lambda>pos. do { requires (d \<noteq> 0); i32 (c_div pos d) }) seq_id (lower p0) (upper p1) mr)"

definition rec_seq_pos_min :: "llama_seq_id \<Rightarrow> memory_recurrent \<Rightarrow> llama_pos" where
  "rec_seq_pos_min seq_id mr =
     (let result = fold (\<lambda>c result. if has_seq_id c seq_id then min result (mc_pos c) else result) (rs_cells mr) INT32_MAX in
      if result = INT32_MAX then -1 else result)"

definition rec_seq_pos_max :: "llama_seq_id \<Rightarrow> memory_recurrent \<Rightarrow> llama_pos" where
  "rec_seq_pos_max seq_id mr =
     fold (\<lambda>c result. if has_seq_id c seq_id then max result (mc_pos c) else result) (rs_cells mr) (-1)"


section \<open>Finding a slot\<close>

text \<open>All sequences of the micro-batch are in range (the flag); those that are not first in their set are released.\<close>

definition claim_id :: "llama_ubatch \<Rightarrow> nat \<Rightarrow> nat \<Rightarrow> bool \<times> mem_cell list \<times> 32 word \<Rightarrow> (bool \<times> mem_cell list \<times> 32 word) option" where
  "claim_id ub i j st = (case st of (ok, cells, used) \<Rightarrow>
     if \<not> ok then Some st
     else do {
       ids \<leftarrow> at (ub_seq_id ub) i;
       seq_id \<leftarrow> at ids j;
       if \<not> below seq_id (length cells) then Some (False, cells, used)
       else if j > 0 then do { (cells, used) \<leftarrow> release seq_id (cells, used); Some (True, cells, used) }
       else Some st
     })"

definition claim_set :: "llama_ubatch \<Rightarrow> nat \<Rightarrow> bool \<times> mem_cell list \<times> 32 word \<Rightarrow> (bool \<times> mem_cell list \<times> 32 word) option" where
  "claim_set ub s st =
     (if \<not> fst st then Some st
      else do {
        let i = s * ub_n_seq_tokens ub;
        n_seq_id \<leftarrow> at (ub_n_seq_id ub) i;
        foldM (claim_id ub i) [0..<n_seq_id] st
      })"

text \<open>The next empty cell, from \<open>e\<close> on and behind \<open>e\<close>; the first argument counts the turns.\<close>

fun seek_empty :: "nat \<Rightarrow> mem_cell list \<Rightarrow> nat \<Rightarrow> nat option" where
  "seek_empty 0 cells e = Some e"
| "seek_empty (Suc turns) cells e =
     (let e = (if e \<ge> length cells then e - length cells else e) in do {
        cell \<leftarrow> at cells e;
        if cell_is_empty cell then Some e else seek_empty turns cells (e + 1)
      })"

fun seek_next :: "nat \<Rightarrow> mem_cell list \<Rightarrow> nat \<Rightarrow> nat option" where
  "seek_next 0 cells e = Some e"
| "seek_next (Suc turns) cells e =
     (let e = e + 1; e = (if e \<ge> length cells then e - length cells else e) in do {
        cell \<leftarrow> at cells e;
        if cell_is_empty cell then Some e else seek_next turns cells e
      })"

definition first_id :: "llama_ubatch \<Rightarrow> nat \<Rightarrow> llama_seq_id option" where
  "first_id ub s = do { ids \<leftarrow> at (ub_seq_id ub) (s * ub_n_seq_tokens ub); at ids 0 }"

text \<open>The tail of a shared cell moves to an empty cell.\<close>

definition copy_tail :: "llama_seq_id \<Rightarrow> int \<Rightarrow> nat \<Rightarrow> mem_cell list \<Rightarrow> mem_cell list option" where
  "copy_tail seq_id tail e cells = do {
     orig \<leftarrow> mem_cell_at cells tail;
     let cells = upd (int e) (\<lambda>c. c\<lparr>mc_pos := mc_pos orig, mc_src := mc_src orig\<rparr>) cells;
     let cells = upd tail (\<lambda>c. c\<lparr>mc_seq_id := mc_seq_id c - {seq_id}\<rparr>) cells;
     let cells = upd (int e) (\<lambda>c. c\<lparr>mc_seq_id := insert seq_id (mc_seq_id c)\<rparr>) cells;
     orig \<leftarrow> mem_cell_at cells tail;
     requires (\<not> cell_is_empty orig);
     Some cells
   }"

definition owns_cell :: "llama_seq_id \<Rightarrow> mem_cell list \<Rightarrow> mem_cell \<Rightarrow> bool option" where
  "owns_cell seq_id cells meta =
     (if mc_tail meta \<ge> 0 then do {
        cell \<leftarrow> mem_cell_at cells (mc_tail meta);
        requires (has_seq_id cell seq_id);
        Some (card (mc_seq_id cell) = 1)
      }
      else Some False)"

definition usable_cell ::
  "llama_ubatch \<Rightarrow> nat \<Rightarrow> mem_cell list \<times> nat \<times> int \<times> int \<Rightarrow> (mem_cell list \<times> nat \<times> int \<times> int) option" where
  "usable_cell ub s st = (case st of (cells, e, mn, mx) \<Rightarrow> do {
     seq_id \<leftarrow> first_id ub s;
     meta \<leftarrow> mem_cell_at cells seq_id;
     has_cell \<leftarrow> owns_cell seq_id cells meta;
     (cells, e) \<leftarrow>
       (if has_cell then Some (cells, e)
        else do {
          empty_cell \<leftarrow> at cells e;
          requires (cell_is_empty empty_cell);
          cells \<leftarrow> (if mc_tail meta \<ge> 0 then copy_tail seq_id (mc_tail meta) e cells else Some cells);
          let cells = upd seq_id (\<lambda>c. c\<lparr>mc_tail := int e\<rparr>) cells;
          e \<leftarrow> (if s + 1 < ub_n_seqs ub then seek_next (length cells) cells e else Some e);
          Some (cells, e)
        });
     meta \<leftarrow> mem_cell_at cells seq_id;
     let tail = mc_tail meta;
     Some (cells, e, if mn > tail then tail else mn, if mx < tail then tail else mx)
   })"

definition swap_cells :: "int \<Rightarrow> int \<Rightarrow> mem_cell list \<Rightarrow> mem_cell list option" where
  "swap_cells dst_id src_id cells = do {
     dst \<leftarrow> mem_cell_at cells dst_id;
     src \<leftarrow> mem_cell_at cells src_id;
     let cells = upd dst_id (\<lambda>c. c\<lparr>mc_pos := mc_pos src, mc_src := mc_src src, mc_seq_id := mc_seq_id src\<rparr>) cells;
     let cells = upd src_id (\<lambda>c. c\<lparr>mc_pos := mc_pos dst, mc_src := mc_src dst, mc_seq_id := mc_seq_id dst\<rparr>) cells;
     Some (map (\<lambda>c. c\<lparr>mc_tail := (if mc_tail c = src_id then dst_id else if mc_tail c = dst_id then src_id else mc_tail c)\<rparr>) cells)
   }"

definition gather_cell :: "llama_ubatch \<Rightarrow> int \<Rightarrow> nat \<Rightarrow> mem_cell list \<Rightarrow> mem_cell list option" where
  "gather_cell ub mn s cells = do {
     let dst_id = int s + mn;
     seq_id \<leftarrow> first_id ub s;
     meta \<leftarrow> mem_cell_at cells seq_id;
     let src_id = mc_tail meta;
     if dst_id \<noteq> src_id then swap_cells dst_id src_id cells else Some cells
   }"

text \<open>The warning about positions that are not consecutive is left out.\<close>

definition settle_id :: "llama_seq_id list \<Rightarrow> int \<Rightarrow> nat \<Rightarrow> mem_cell list \<Rightarrow> mem_cell list option" where
  "settle_id ids cell_id j cells = do {
     seq_id \<leftarrow> at ids j;
     let cells = upd cell_id (\<lambda>c. c\<lparr>mc_seq_id := insert seq_id (mc_seq_id c)\<rparr>) cells;
     _ \<leftarrow> mem_cell_at cells seq_id;
     Some (upd seq_id (\<lambda>c. c\<lparr>mc_tail := cell_id\<rparr>) cells)
   }"

definition settle_cell :: "llama_ubatch \<Rightarrow> int \<Rightarrow> nat \<Rightarrow> mem_cell list \<Rightarrow> mem_cell list option" where
  "settle_cell ub mn s cells = do {
     let i = s * ub_n_seq_tokens ub;
     requires (i + ub_n_seq_tokens ub > 0);
     last_pos \<leftarrow> at (ub_pos ub) (i + ub_n_seq_tokens ub - 1);
     let cell_id = int s + mn;
     _ \<leftarrow> mem_cell_at cells cell_id;
     let cells = upd cell_id (\<lambda>c. c\<lparr>mc_pos := last_pos, mc_seq_id := {}\<rparr>) cells;
     n_seq_id \<leftarrow> at (ub_n_seq_id ub) i;
     ids \<leftarrow> at (ub_seq_id ub) i;
     foldM (settle_id ids cell_id) [0..<n_seq_id] cells
   }"

text \<open>The first cell of the range without a reference becomes the zero state.\<close>

definition refcount :: "mem_cell list \<Rightarrow> int \<Rightarrow> nat" where
  "refcount cells i = length (filter (\<lambda>c. mc_src c = i) cells)"

definition zero_cell :: "mem_cell list \<Rightarrow> int \<Rightarrow> int \<Rightarrow> int" where
  "zero_cell cells mn mx = (case find (\<lambda>i. refcount cells i = 0) [mn..mx] of None \<Rightarrow> -1 | Some i \<Rightarrow> i)"

definition stage_cell :: "int \<Rightarrow> int \<Rightarrow> mem_cell list \<Rightarrow> mem_cell list option" where
  "stage_cell z i cells = do {
     cell \<leftarrow> mem_cell_at cells i;
     src0 \<leftarrow> (if mc_src cell < 0 then do { requires (z \<ge> 0); Some z } else Some (mc_src cell));
     Some (upd i (\<lambda>c. c\<lparr>mc_src0 := src0, mc_src := i\<rparr>) cells)
   }"

definition to_u32 :: "int \<Rightarrow> nat" where
  "to_u32 x = unat (word_of_int x :: 32 word)"

definition rec_find_slot :: "llama_ubatch \<Rightarrow> memory_recurrent \<Rightarrow> (bool \<times> memory_recurrent) option" where
  "rec_find_slot ub mr = do {
     let n_seqs = ub_n_seqs ub;
     let sz = rs_size mr;
     let mr = (if of_nat (rs_head mr) > rs_used mr + 2 * of_nat n_seqs then mr\<lparr>rs_head := 0\<rparr> else mr);
     requires (ub_equal_seqs ub);
     (ok, cells, used) \<leftarrow> foldM (claim_set ub) [0..<n_seqs] (True, rs_cells mr, rs_used mr);
     let mr = mr\<lparr>rs_cells := cells, rs_used := used\<rparr>;
     if \<not> ok then Some (False, mr)
     else do {
       e \<leftarrow> seek_empty sz cells (rs_head mr);
       (cells, e, mn, mx) \<leftarrow> foldM (usable_cell ub) [0..<n_seqs] (cells, e, int sz - 1, 0);
       cells \<leftarrow> foldM (gather_cell ub mn) [0..<n_seqs] cells;
       cells \<leftarrow> foldM (settle_cell ub mn) [0..<n_seqs] cells;
       requires (list_all (\<lambda>c. mc_src c < int sz) cells);
       let z = zero_cell cells mn mx;
       cells \<leftarrow> foldM (stage_cell z) [mn..mx] cells;
       let n = to_u32 (mx - mn + 1);
       Some (n \<ge> n_seqs, mr\<lparr>rs_cells := cells, rs_z := z, rs_head := to_u32 mn, rs_n := n,
         rs_used := of_nat (length (filter (\<lambda>c. \<not> cell_is_empty c) cells))\<rparr>)
     }
   }"

section \<open>Preparing a batch\<close>

fun rec_prepare_loop :: "llama_ubatch list \<Rightarrow> memory_recurrent \<Rightarrow> (bool \<times> memory_recurrent) option" where
  "rec_prepare_loop [] mr = Some (True, mr)"
| "rec_prepare_loop (ub # ubs) mr = do {
     (ok, mr) \<leftarrow> rec_find_slot ub mr;
     if ok then rec_prepare_loop ubs mr else Some (False, mr)
   }"

text \<open>Cells, count and head are restored, not the range and the zero state.\<close>

definition rec_prepare :: "llama_ubatch list \<Rightarrow> memory_recurrent \<Rightarrow> (bool \<times> memory_recurrent) option" where
  "rec_prepare ubatches mr = do {
     (success, mr') \<leftarrow> rec_prepare_loop ubatches mr;
     Some (success, mr'\<lparr>rs_cells := rs_cells mr, rs_used := rs_used mr, rs_head := rs_head mr\<rparr>)
   }"

section \<open>Contexts\<close>

record recurrent_context =
  rc_status :: llama_memory_status
  rc_i_next :: nat
  rc_ubatches :: "llama_ubatch list"
  rc_is_full :: bool

definition rec_context_status :: "llama_memory_status \<Rightarrow> recurrent_context" where
  "rec_context_status status = \<lparr>rc_status = status, rc_i_next = 0, rc_ubatches = [], rc_is_full = False\<rparr>"

definition rec_context_full :: recurrent_context where
  "rec_context_full = \<lparr>rc_status = LLAMA_MEMORY_STATUS_SUCCESS, rc_i_next = 0, rc_ubatches = [], rc_is_full = True\<rparr>"

definition rec_context_batch :: "llama_ubatch list \<Rightarrow> recurrent_context" where
  "rec_context_batch ubatches =
     \<lparr>rc_status = LLAMA_MEMORY_STATUS_SUCCESS, rc_i_next = 0, rc_ubatches = ubatches, rc_is_full = False\<rparr>"

definition rec_init_full :: recurrent_context where
  "rec_init_full = rec_context_full"

definition rec_init_update :: recurrent_context where
  "rec_init_update = rec_context_status LLAMA_MEMORY_STATUS_NO_UPDATE"

text \<open>The loop over the splits.\<close>

definition recurrent_splits :: "bool \<Rightarrow> nat \<Rightarrow> batch_allocr \<Rightarrow> (llama_ubatch list \<times> batch_allocr) option" where
  "recurrent_splits embd_all n_ubatch ba =
     collect (if embd_all then split_seq n_ubatch else split_equal n_ubatch True) [] (split_reset ba)"

definition rec_init_batch ::
  "bool \<Rightarrow> nat \<Rightarrow> batch_allocr \<Rightarrow> memory_recurrent \<Rightarrow> (recurrent_context \<times> batch_allocr \<times> memory_recurrent) option" where
  "rec_init_batch embd_all n_ubatch ba mr = do {
     (ubatches, ba) \<leftarrow> recurrent_splits embd_all n_ubatch ba;
     if ba_n_used ba < lb_n_tokens (ba_batch ba)
     then Some (rec_context_status LLAMA_MEMORY_STATUS_FAILED_PREPARE, ba, mr)
     else do {
       (ok, mr) \<leftarrow> rec_prepare ubatches mr;
       if \<not> ok then Some (rec_context_status LLAMA_MEMORY_STATUS_FAILED_PREPARE, ba, mr)
       else Some (rec_context_batch ubatches, ba, mr)
     }
   }"

definition rec_next :: "recurrent_context \<Rightarrow> (bool \<times> recurrent_context) option" where
  "rec_next cx = do {
     requires (rc_status cx = LLAMA_MEMORY_STATUS_SUCCESS);
     let i = rc_i_next cx + 1;
     Some (i < length (rc_ubatches cx), cx\<lparr>rc_i_next := i\<rparr>)
   }"

definition rec_apply :: "recurrent_context \<Rightarrow> memory_recurrent \<Rightarrow> (bool \<times> memory_recurrent) option" where
  "rec_apply cx mr = do {
     requires (\<not> llama_memory_status_is_fail (rc_status cx));
     if rc_ubatches cx = [] then do {
       requires (rc_status cx = LLAMA_MEMORY_STATUS_NO_UPDATE);
       Some (True, mr)
     }
     else do {
       ubatch \<leftarrow> at (rc_ubatches cx) (rc_i_next cx);
       (_, mr) \<leftarrow> rec_find_slot ubatch mr;
       Some (True, mr)
     }
   }"

definition rec_ubatch :: "recurrent_context \<Rightarrow> llama_ubatch option" where
  "rec_ubatch cx = do {
     requires (rc_status cx = LLAMA_MEMORY_STATUS_SUCCESS);
     at (rc_ubatches cx) (rc_i_next cx)
   }"

definition get_n_rs :: "recurrent_context \<Rightarrow> memory_recurrent \<Rightarrow> nat" where
  "get_n_rs cx mr = (if rc_is_full cx then rs_size mr else rs_n mr)"

definition rec_get_head :: "recurrent_context \<Rightarrow> memory_recurrent \<Rightarrow> nat" where
  "rec_get_head cx mr = (if rc_is_full cx then 0 else rs_head mr)"

definition get_rs_z :: "recurrent_context \<Rightarrow> memory_recurrent \<Rightarrow> int" where
  "get_rs_z cx mr = (if rc_is_full cx then 0 else rs_z mr)"

definition s_copy :: "nat \<Rightarrow> memory_recurrent \<Rightarrow> int option" where
  "s_copy i mr = map_option mc_src0 (at (rs_cells mr) (i + rs_head mr))"


section \<open>The states in the graph\<close>

text \<open>
  The states are the rows of a tensor with one row for each cell; what a row is, and the row \<open>zero\<close> that scaling
  with 0 gives, are parameters. The input of the graph names the rows; \<open>build_rs\<close> clears the zero state, reads
  the rows of the sequences of the micro-batch and copies the other rows of the range.
\<close>

definition rs_set_input :: "recurrent_context \<Rightarrow> memory_recurrent \<Rightarrow> int list option" where
  "rs_set_input cx mr = foldM (\<lambda>i data. do { x \<leftarrow> s_copy i mr; Some (data @ [x]) }) [0..<get_n_rs cx mr] []"

definition get_row :: "'a list \<Rightarrow> int \<Rightarrow> 'a option" where
  "get_row rows i = (if i < 0 then None else at rows (nat i))"

definition get_rows :: "'a list \<Rightarrow> int list \<Rightarrow> 'a list option" where
  "get_rows rows is = foldM (\<lambda>i out. do { x \<leftarrow> get_row rows i; Some (out @ [x]) }) is []"

definition cpy_rows :: "'a list \<Rightarrow> nat \<Rightarrow> 'a list \<Rightarrow> 'a list option" where
  "cpy_rows src i rows = do {
     requires (i + length src \<le> length rows);
     Some (take i rows @ src @ drop (i + length src) rows)
   }"

definition build_rs ::
  "'a \<Rightarrow> 'a list \<Rightarrow> int list \<Rightarrow> int list \<Rightarrow> nat \<Rightarrow> nat \<Rightarrow> int \<Rightarrow> ('a list \<times> 'a list) option" where
  "build_rs zero states state_copy_main state_copy_extra n_seqs head rs_zero = do {
     states \<leftarrow> (if rs_zero \<ge> 0 then do { _ \<leftarrow> get_row states rs_zero; Some (states[nat rs_zero := zero]) } else Some states);
     output_states \<leftarrow> get_rows states state_copy_main;
     states_extra \<leftarrow> get_rows states state_copy_extra;
     states \<leftarrow> cpy_rows states_extra (head + n_seqs) states;
     Some (output_states, states)
   }"

text \<open>
  The states of a micro-batch: the context is applied, the graph gets its inputs, reads the old states, and
  copies the new ones to the front of the range, as \<open>src/models/graph-context-mamba.cpp\<close> does for the convolution
  states. The function that computes the new state of a sequence is a parameter.
\<close>

definition rec_compute ::
  "'a \<Rightarrow> (nat \<Rightarrow> 'a \<Rightarrow> 'a) \<Rightarrow> recurrent_context \<Rightarrow> memory_recurrent \<times> 'a list \<Rightarrow> (memory_recurrent \<times> 'a list) option" where
  "rec_compute zero f cx st = (case st of (mr, states) \<Rightarrow> do {
     (_, mr) \<leftarrow> rec_apply cx mr;
     ub \<leftarrow> rec_ubatch cx;
     data \<leftarrow> rs_set_input cx mr;
     (old, states) \<leftarrow> build_rs zero states (take (ub_n_seqs ub) data) (drop (ub_n_seqs ub) data) (ub_n_seqs ub)
       (rec_get_head cx mr) (get_rs_z cx mr);
     states \<leftarrow> cpy_rows (map (\<lambda>s. f s (old ! s)) [0..<ub_n_seqs ub]) (rec_get_head cx mr) states;
     Some (mr, states)
   })"

end
