(* ===== verification/RecurrentLaws.thy ===== *)
theory RecurrentLaws
  imports Recurrent
begin

text \<open>
  The invariant of the recurrent memory, and what its sequence operations do: the tails point exactly to the
  cells that hold the sequence, and the position of a sequence is that of its cell.
\<close>

section \<open>Access\<close>

abbreviation ids :: "mem_cell list \<Rightarrow> nat \<Rightarrow> llama_seq_id set" where
  "ids cs c \<equiv> mc_seq_id (cs ! c)"

abbreviation tail :: "mem_cell list \<Rightarrow> llama_seq_id \<Rightarrow> int" where
  "tail cs u \<equiv> mc_tail (cs ! nat u)"

definition valid_id :: "mem_cell list \<Rightarrow> int \<Rightarrow> bool" where
  "valid_id cs u \<longleftrightarrow> 0 \<le> u \<and> u < int (length cs)"

lemma length_upd [simp]: "length (upd i f cs) = length cs"
  by (simp add: upd_def)

lemma nth_upd: "valid_id cs i \<Longrightarrow> upd i f cs ! j = (if j = nat i then f (cs ! j) else cs ! j)"
  by (auto simp: upd_def valid_id_def nth_list_update)

lemma valid_id_upd [simp]: "valid_id (upd i f cs) u \<longleftrightarrow> valid_id cs u"
  by (simp add: valid_id_def)

lemma mem_cell_at_Some: "mem_cell_at cs i = Some c \<longleftrightarrow> valid_id cs i \<and> c = cs ! nat i"
  by (auto simp: mem_cell_at_def valid_id_def nat_less_iff)

lemma mem_cell_at_in [simp]: "valid_id cs i \<Longrightarrow> mem_cell_at cs i = Some (cs ! nat i)"
  by (simp add: mem_cell_at_Some)

lemma below_in_range: "below u (length cs) \<longleftrightarrow> valid_id cs u"
  by (simp add: below_def valid_id_def)

lemma cell_is_empty_iff: "cell_is_empty c \<longleftrightarrow> mc_seq_id c = {}"
  by (simp add: cell_is_empty_def)

section \<open>The invariant\<close>

definition tails_ok :: "mem_cell list \<Rightarrow> bool" where
  "tails_ok cs \<longleftrightarrow>
     (\<forall>u. valid_id cs u \<longrightarrow> tail cs u = -1 \<or> valid_id cs (tail cs u)) \<and>
     (\<forall>c < length cs. \<forall>u. u \<in> ids cs c \<longleftrightarrow> valid_id cs u \<and> tail cs u = int c)"

definition mem_cell_ok :: "nat \<Rightarrow> mem_cell \<Rightarrow> bool" where
  "mem_cell_ok i c \<longleftrightarrow> (mc_seq_id c = {} \<longrightarrow> mc_pos c = -1) \<and> (mc_seq_id c \<noteq> {} \<longrightarrow> 0 \<le> mc_pos c \<and> mc_src c = int i) \<and>
     (mc_src c = -1 \<or> mc_src c = int i)"

definition occupied :: "mem_cell list \<Rightarrow> nat" where
  "occupied cs = length (filter (\<lambda>c. \<not> cell_is_empty c) cs)"

definition state_ok :: "mem_cell list \<Rightarrow> 32 word \<Rightarrow> bool" where
  "state_ok cs used \<longleftrightarrow> tails_ok cs \<and> (\<forall>i < length cs. mem_cell_ok i (cs ! i)) \<and> used = of_nat (occupied cs)"

definition rec_ok :: "memory_recurrent \<Rightarrow> bool" where
  "rec_ok mr \<longleftrightarrow> state_ok (rs_cells mr) (rs_used mr) \<and> rs_head mr < rs_size mr \<and> rs_size mr < 2 ^ 31"

lemma tails_okD:
  assumes "tails_ok cs"
  shows "valid_id cs u \<Longrightarrow> tail cs u = -1 \<or> valid_id cs (tail cs u)"
    "c < length cs \<Longrightarrow> u \<in> ids cs c \<longleftrightarrow> valid_id cs u \<and> tail cs u = int c"
    "valid_id cs u \<Longrightarrow> tail cs u \<ge> 0 \<longleftrightarrow> valid_id cs (tail cs u)"
    "valid_id cs u \<Longrightarrow> tail cs u \<ge> 0 \<Longrightarrow> u \<in> ids cs (nat (tail cs u))"
proof -
  show 1: "valid_id cs u \<Longrightarrow> tail cs u = -1 \<or> valid_id cs (tail cs u)" using assms by (simp add: tails_ok_def)
  show 2: "c < length cs \<Longrightarrow> u \<in> ids cs c \<longleftrightarrow> valid_id cs u \<and> tail cs u = int c" for c u using assms by (simp add: tails_ok_def)
  show "valid_id cs u \<Longrightarrow> tail cs u \<ge> 0 \<longleftrightarrow> valid_id cs (tail cs u)" using 1 by (auto simp: valid_id_def)
  show "valid_id cs u \<Longrightarrow> tail cs u \<ge> 0 \<Longrightarrow> u \<in> ids cs (nat (tail cs u))" using 1 2 by (auto simp: valid_id_def)
qed

text \<open>What a sequence holds: the position of its cell.\<close>

definition seq_view :: "mem_cell list \<Rightarrow> llama_seq_id \<Rightarrow> llama_pos option" where
  "seq_view cs u = (if valid_id cs u \<and> tail cs u \<ge> 0 then Some (mc_pos (cs ! nat (tail cs u))) else None)"

definition rec_view :: "memory_recurrent \<Rightarrow> llama_seq_id \<Rightarrow> llama_pos option" where
  "rec_view mr = seq_view (rs_cells mr)"

lemma rec_new_ok: "0 < n \<Longrightarrow> n < 2 ^ 31 \<Longrightarrow> rec_ok (recurrent_new n) \<and> rec_view (recurrent_new n) = (\<lambda>_. None)"
  by (auto simp: rec_ok_def state_ok_def recurrent_new_def new_cell_def tails_ok_def mem_cell_ok_def occupied_def cell_is_empty_def valid_id_def rec_view_def
      seq_view_def nat_less_iff)

lemma rec_clear_ok: "rec_ok mr \<Longrightarrow> rec_ok (rec_clear mr) \<and> rec_view (rec_clear mr) = (\<lambda>_. None)"
  by (auto simp: rec_ok_def state_ok_def rec_clear_def tails_ok_def mem_cell_ok_def occupied_def cell_is_empty_def valid_id_def rec_view_def
      seq_view_def nat_less_iff filter_empty_conv)

lemma tails_okI:
  assumes "length cs' = length cs" "tails_ok cs"
    and "\<And>u. valid_id cs u \<Longrightarrow> tail cs' u = (if u \<in> U then -1 else tail cs u)"
    and "\<And>c. c < length cs \<Longrightarrow> ids cs' c = ids cs c - U"
  shows "tails_ok cs'"
proof -
  have r: "valid_id cs' u \<longleftrightarrow> valid_id cs u" for u by (simp add: valid_id_def assms(1))
  show ?thesis
    unfolding tails_ok_def r
  proof (intro conjI allI impI)
    fix u assume "valid_id cs u"
    then show "tail cs' u = -1 \<or> valid_id cs (tail cs' u)" using assms(3) tails_okD(1)[OF assms(2)] by auto
  next
    fix c u assume "c < length cs'"
    then show "u \<in> ids cs' c \<longleftrightarrow> valid_id cs u \<and> tail cs' u = int c"
      using assms(1,3,4) tails_okD(2)[OF assms(2), of c u] by (auto split: if_splits)
  qed
qed

lemma occupied_Cons: "occupied (c # cs) = occupied [c] + occupied cs"
  by (simp add: occupied_def)

lemma occupied_single [simp]: "occupied [c] = (if mc_seq_id c = {} then 0 else 1)"
  by (simp add: occupied_def cell_is_empty_def)

lemma occupied_append: "occupied (xs @ ys) = occupied xs + occupied ys"
  by (simp add: occupied_def)

lemma occupied_upd:
  assumes "valid_id cs i"
  shows "occupied (upd i f cs) + occupied [cs ! nat i] = occupied cs + occupied [f (cs ! nat i)]"
proof -
  have n: "nat i < length cs" using assms by (simp add: valid_id_def nat_less_iff)
  have "occupied cs = occupied (take (nat i) cs) + occupied [cs ! nat i] + occupied (drop (Suc (nat i)) cs)"
    by (subst id_take_nth_drop[OF n]) (simp add: occupied_append occupied_Cons[of _ "drop _ _"])
  then show ?thesis
    by (simp add: upd_def upd_conv_take_nth_drop[OF n] occupied_append occupied_Cons[of _ "drop _ _"])
qed

section \<open>A sequence leaves its cell\<close>

definition remove_id :: "llama_seq_id \<Rightarrow> mem_cell \<Rightarrow> mem_cell" where
  "remove_id u c = (let left = mc_seq_id c - {u} in
     if left = {} then c\<lparr>mc_seq_id := left, mc_pos := -1, mc_src := -1\<rparr> else c\<lparr>mc_seq_id := left\<rparr>)"

definition leave :: "llama_seq_id \<Rightarrow> mem_cell list \<Rightarrow> mem_cell list" where
  "leave u cs = upd (tail cs u) (remove_id u) (upd u (\<lambda>c. c\<lparr>mc_tail := -1\<rparr>) cs)"

lemma remove_id_simps [simp]: "mc_seq_id (remove_id u c) = mc_seq_id c - {u}" "mc_tail (remove_id u c) = mc_tail c"
  "mc_src0 (remove_id u c) = mc_src0 c"
  by (auto simp: remove_id_def Let_def)

lemma remove_id_other: "\<not> mc_seq_id c \<subseteq> {u} \<Longrightarrow> mc_pos (remove_id u c) = mc_pos c \<and> mc_src (remove_id u c) = mc_src c"
  by (auto simp: remove_id_def Let_def)

lemma leave_cells:
  assumes t: "tails_ok cs" and u: "valid_id cs u" "tail cs u \<ge> 0"
  shows "length (leave u cs) = length cs"
    and "valid_id cs v \<Longrightarrow> tail (leave u cs) v = (if v = u then -1 else tail cs v)"
    and "c < length cs \<Longrightarrow> ids (leave u cs) c = ids cs c - {u}"
    and "c < length cs \<Longrightarrow> c \<noteq> nat (tail cs u) \<Longrightarrow> mc_pos (leave u cs ! c) = mc_pos (cs ! c) \<and> mc_src (leave u cs ! c) = mc_src (cs ! c)"
    and "c < length cs \<Longrightarrow> ids cs c - {u} \<noteq> {} \<Longrightarrow> mc_pos (leave u cs ! c) = mc_pos (cs ! c) \<and> mc_src (leave u cs ! c) = mc_src (cs ! c)"
proof -
  have r: "valid_id cs (tail cs u)" using tails_okD(3)[OF t u(1)] u(2) by simp
  have nth: "leave u cs ! j = (if j = nat (tail cs u) then remove_id u (upd u (\<lambda>c. c\<lparr>mc_tail := -1\<rparr>) cs ! j)
      else upd u (\<lambda>c. c\<lparr>mc_tail := -1\<rparr>) cs ! j)" for j
    unfolding leave_def by (rule nth_upd) (simp add: r)
  show "length (leave u cs) = length cs" by (simp add: leave_def)
  show "tail (leave u cs) v = (if v = u then -1 else tail cs v)" if "valid_id cs v" for v
    using that u(1) by (auto simp: nth nth_upd valid_id_def)
  show "ids (leave u cs) c = ids cs c - {u}" if "c < length cs" for c
    using that tails_okD(2)[OF t that, of u] u by (auto simp: nth nth_upd)
  show "c < length cs \<Longrightarrow> c \<noteq> nat (tail cs u) \<Longrightarrow> mc_pos (leave u cs ! c) = mc_pos (cs ! c) \<and> mc_src (leave u cs ! c) = mc_src (cs ! c)" for c
    using u(1) by (auto simp: nth nth_upd)
  show "mc_pos (leave u cs ! c) = mc_pos (cs ! c) \<and> mc_src (leave u cs ! c) = mc_src (cs ! c)" if "c < length cs" "ids cs c - {u} \<noteq> {}" for c
    using u(1) that remove_id_other[of "cs ! c" u] remove_id_other[of "(cs ! c)\<lparr>mc_tail := -1\<rparr>" u] by (auto simp: nth nth_upd)
qed

lemma mem_cell_ok_remove: "mem_cell_ok i c \<Longrightarrow> mem_cell_ok i (remove_id u c)"
  by (auto simp: mem_cell_ok_def remove_id_def Let_def)

lemma mem_cell_ok_tail: "mem_cell_ok i (c\<lparr>mc_tail := t\<rparr>) = mem_cell_ok i c"
  by (simp add: mem_cell_ok_def)

lemma leave_ok:
  assumes "tails_ok cs" "\<forall>i < length cs. mem_cell_ok i (cs ! i)" "valid_id cs u" "tail cs u \<ge> 0"
  shows "tails_ok (leave u cs) \<and> (\<forall>i < length cs. mem_cell_ok i (leave u cs ! i)) \<and> seq_view (leave u cs) = (seq_view cs)(u := None)"
proof (intro conjI)
  note l = leave_cells[OF assms(1,3,4)]
  show "tails_ok (leave u cs)" by (rule tails_okI[of _ _ "{u}"]) (use l assms(1) in auto)
  have r: "valid_id cs (tail cs u)" using tails_okD(3)[OF assms(1,3)] assms(4) by simp
  show "\<forall>i < length cs. mem_cell_ok i (leave u cs ! i)"
    using assms(2,3) r by (auto simp: leave_def nth_upd mem_cell_ok_tail intro!: mem_cell_ok_remove)
  have rng: "valid_id (leave u cs) v \<longleftrightarrow> valid_id cs v" for v by (simp add: valid_id_def l(1))
  show "seq_view (leave u cs) = (seq_view cs)(u := None)"
  proof
    fix v
    show "seq_view (leave u cs) v = ((seq_view cs)(u := None)) v"
    proof (cases "valid_id cs v \<and> v \<noteq> u \<and> tail cs v \<ge> 0")
      case True
      let ?c = "nat (tail cs v)"
      have c: "?c < length cs" "v \<in> ids cs ?c" using True tails_okD(3,4)[OF assms(1), of v] by (auto simp: valid_id_def nat_less_iff)
      have "mc_pos (leave u cs ! ?c) = mc_pos (cs ! ?c)" using l(5)[OF c(1)] c(2) True by blast
      then show ?thesis using True l(2) by (simp add: seq_view_def rng)
    qed (auto simp: seq_view_def rng l(2))
  qed
qed

lemma release_leave:
  assumes "tails_ok cs" "valid_id cs u"
  shows "release u (cs, used) = Some (if tail cs u \<ge> 0
    then (leave u cs, if ids cs (nat (tail cs u)) = {u} then used - 1 else used) else (cs, used))"
proof (cases "tail cs u \<ge> 0")
  case True
  let ?t = "tail cs u"
  have r: "valid_id cs ?t" and u: "u \<in> ids cs (nat ?t)" using tails_okD(3,4)[OF assms] True by auto
  have empty: "ids cs (nat ?t) - {u} = {} \<longleftrightarrow> ids cs (nat ?t) = {u}" "ids cs (nat ?t) \<subseteq> {u} \<longleftrightarrow> ids cs (nat ?t) = {u}" using u by auto
  have cells: "leave u cs = (let cells = upd u (\<lambda>c. c\<lparr>mc_tail := -1\<rparr>) (upd ?t (\<lambda>c. c\<lparr>mc_seq_id := ids cs (nat ?t) - {u}\<rparr>) cs) in
      if ids cs (nat ?t) = {u} then upd ?t (\<lambda>c. c\<lparr>mc_pos := -1, mc_src := -1\<rparr>) cells else cells)"
    unfolding leave_def Let_def
    by (rule nth_equalityI) (use r assms(2) empty in \<open>auto simp: nth_upd remove_id_def Let_def\<close>)
  show ?thesis using True r assms(2) by (simp add: release_def cells Let_def empty)
next
  case False
  then show ?thesis using assms(2) by (simp add: release_def)
qed

lemma leave_used:
  assumes "state_ok cs used" "valid_id cs u" "tail cs u \<ge> 0"
  shows "(if ids cs (nat (tail cs u)) = {u} then used - 1 else used) = of_nat (occupied (leave u cs))"
proof -
  let ?t = "tail cs u" and ?cs1 = "upd u (\<lambda>c. c\<lparr>mc_tail := -1\<rparr>) cs"
  have t: "tails_ok cs" and used: "used = of_nat (occupied cs)" using assms(1) by (auto simp: state_ok_def)
  have r: "valid_id cs ?t" and u: "u \<in> ids cs (nat ?t)" using tails_okD(3,4)[OF t assms(2)] assms(3) by auto
  have "occupied ?cs1 = occupied cs" using occupied_upd[OF assms(2), of "\<lambda>c. c\<lparr>mc_tail := -1\<rparr>"] by simp
  moreover have "occupied (leave u cs) + occupied [?cs1 ! nat ?t] = occupied ?cs1 + occupied [remove_id u (?cs1 ! nat ?t)]"
    unfolding leave_def by (rule occupied_upd) (simp add: r)
  moreover have "ids ?cs1 (nat ?t) = ids cs (nat ?t)" using assms(2) by (simp add: nth_upd)
  moreover have ne: "ids cs (nat ?t) \<noteq> {}" "ids cs (nat ?t) \<subseteq> {u} \<longleftrightarrow> ids cs (nat ?t) = {u}" using u by auto
  ultimately have "occupied (leave u cs) + 1 = occupied cs + (if ids cs (nat ?t) = {u} then 0 else 1)"
    using ne by simp
  then have "occupied cs = (if ids cs (nat ?t) = {u} then Suc (occupied (leave u cs)) else occupied (leave u cs))" by (simp split: if_splits)
  then show ?thesis by (simp add: used)
qed

lemma release_ok:
  assumes "state_ok cs used" "valid_id cs u"
  shows "\<exists>cs' used'. release u (cs, used) = Some (cs', used') \<and> state_ok cs' used' \<and> length cs' = length cs \<and>
    seq_view cs' = (seq_view cs)(u := None) \<and> cs' = (if tail cs u \<ge> 0 then leave u cs else cs)"
proof (cases "tail cs u \<ge> 0")
  case True
  have "tails_ok cs" "\<forall>i < length cs. mem_cell_ok i (cs ! i)" using assms(1) by (auto simp: state_ok_def)
  with leave_ok[OF _ _ assms(2) True] leave_used[OF assms True] release_leave[of cs u used] assms(2) True leave_cells(1)[of cs u]
  show ?thesis by (simp add: state_ok_def)
next
  case False
  then have "seq_view cs u = None" by (simp add: seq_view_def)
  then show ?thesis using release_leave[of cs u used] False assms by (auto simp: state_ok_def fun_upd_idem)
qed

section \<open>Loops over all cells\<close>

lemma each_cell_cells:
  assumes "\<And>i c a. fst (f i c a) = g i c"
  shows "fst (each_cell f k cs a) = map (\<lambda>i. g (k + i) (cs ! i)) [0..<length cs]"
proof (induction cs arbitrary: k a)
  case (Cons c cs)
  have "map (\<lambda>i. g (k + i) ((c # cs) ! i)) [0..<length (c # cs)] = g k c # map (\<lambda>i. g (Suc k + i) (cs ! i)) [0..<length cs]"
    by (simp add: map_upt_Suc del: upt_Suc)
  then show ?case using assms[of k c a] Cons.IH[of "Suc k" "snd (f k c a)"] by (simp add: split_def Let_def)
qed simp

lemma each_cell_used:
  fixes used :: "32 word"
  assumes "\<And>i (used :: 32 word) h. i < length cs \<Longrightarrow> fst (snd (f (k + i) (cs ! i) (used, h))) =
      used - of_nat (occupied [cs ! i]) + of_nat (occupied [fst (f (k + i) (cs ! i) (used, h))])"
  shows "fst (snd (each_cell f k cs (used, h))) = used - of_nat (occupied cs) + of_nat (occupied (fst (each_cell f k cs (used, h))))"
  using assms
proof (induction cs arbitrary: k used h)
  case Nil
  then show ?case by (simp add: occupied_def)
next
  case (Cons c cs)
  obtain c' used1 h1 where f: "f k c (used, h) = (c', used1, h1)" by (metis prod_cases3)
  have used1: "used1 = used - of_nat (occupied [c]) + of_nat (occupied [c'])" using Cons.prems[of 0 used h] f by simp
  define r where "r = each_cell f (Suc k) cs (used1, h1)"
  have IH: "fst (snd r) = used1 - of_nat (occupied cs) + of_nat (occupied (fst r))"
    unfolding r_def by (rule Cons.IH) (use Cons.prems[of "Suc _"] in simp)
  have e: "each_cell f k (c # cs) (used, h) = (c' # fst r, snd r)" by (simp add: f r_def split_def Let_def)
  show ?case unfolding e fst_conv snd_conv IH used1 occupied_Cons[of c cs] occupied_Cons[of c' "fst r"] by simp
qed

lemma each_cell_head:
  assumes "\<And>i c used h. snd (snd (f i c (used, h))) = h \<or> snd (snd (f i c (used, h))) = i"
  shows "snd (snd (each_cell f k cs (used, h))) = h \<or>
    (k \<le> snd (snd (each_cell f k cs (used, h))) \<and> snd (snd (each_cell f k cs (used, h))) < k + length cs)"
proof (induction cs arbitrary: k used h)
  case (Cons c cs)
  obtain c' used1 h1 where f: "f k c (used, h) = (c', used1, h1)" by (metis prod_cases3)
  have "h1 = h \<or> h1 = k" using assms[of k c used h] f by simp
  with Cons.IH[of "Suc k" used1 h1] show ?case by (auto simp: f split_def Let_def)
qed simp

text \<open>A loop of this kind that keeps the tails in order keeps the invariant.\<close>

lemma each_cell_rec_ok:
  assumes ok: "rec_ok mr" and cs: "length cs = rs_size mr" "\<forall>i < length cs. occupied [cs ! i] = occupied [rs_cells mr ! i]"
    and loop: "each_cell f 0 cs (rs_used mr, rs_size mr) = (cells, used, new_head)"
    and g: "\<And>i c a. fst (f i c a) = g i c"
    and used: "\<And>i used h. i < length cs \<Longrightarrow> fst (snd (f i (cs ! i) (used, h))) =
      used - of_nat (occupied [cs ! i]) + of_nat (occupied [g i (cs ! i)])"
    and head: "\<And>i c used h. snd (snd (f i c (used, h))) = h \<or> snd (snd (f i c (used, h))) = i"
    and tails: "tails_ok (map (\<lambda>i. g i (cs ! i)) [0..<length cs])" and cell: "\<And>i. i < length cs \<Longrightarrow> mem_cell_ok i (g i (cs ! i))"
  shows "cells = map (\<lambda>i. g i (cs ! i)) [0..<length cs] \<and>
    rec_ok (mr\<lparr>rs_cells := cells, rs_used := used,
      rs_head := (if new_head \<noteq> rs_size mr \<and> new_head < rs_head mr then new_head else rs_head mr)\<rparr>)"
proof -
  have cells: "cells = map (\<lambda>i. g i (cs ! i)) [0..<length cs]"
    using each_cell_cells[of f g 0 cs "(rs_used mr, rs_size mr)"] g loop by simp
  have occ: "occupied xs = sum_list (map (\<lambda>x. occupied [x]) xs)" for xs
    by (induction xs) (auto simp: occupied_def)
  have "map (\<lambda>x. occupied [x]) cs = map (\<lambda>x. occupied [x]) (rs_cells mr)"
    using cs by (intro nth_equalityI) auto
  then have "occupied cs = occupied (rs_cells mr)" using occ[of cs] occ[of "rs_cells mr"] by simp
  moreover have "used = rs_used mr - of_nat (occupied cs) + of_nat (occupied cells)"
    using each_cell_used[of cs f 0 "rs_used mr" "rs_size mr"] used g loop by simp
  ultimately have used': "used = of_nat (occupied cells)" using ok by (simp add: rec_ok_def state_ok_def)
  have len: "length cells = rs_size mr" using cells cs(1) by simp
  have "new_head = rs_size mr \<or> new_head < rs_size mr"
    using each_cell_head[of f 0 cs "rs_used mr" "rs_size mr"] head loop cs(1) by auto
  then have "(if new_head \<noteq> rs_size mr \<and> new_head < rs_head mr then new_head else rs_head mr) < rs_size mr"
    using ok by (simp add: rec_ok_def state_ok_def)
  then show ?thesis
    using ok tails cell used' cells cs(1) by (simp add: rec_ok_def state_ok_def len)
qed


section \<open>Removing\<close>

definition rm_cell :: "llama_seq_id \<Rightarrow> llama_pos \<Rightarrow> llama_pos \<Rightarrow> nat \<Rightarrow> mem_cell \<Rightarrow> mem_cell" where
  "rm_cell seq_id p0 p1 i c = fst (rm_turn 0 seq_id p0 p1 i c (0, 0))"

lemma rm_turn_cell: "fst (rm_turn sz seq_id p0 p1 i c a) = rm_cell seq_id p0 p1 i c"
  by (simp add: rm_cell_def rm_turn_def Let_def split: prod.splits)

lemma rm_turn_head: "snd (snd (rm_turn sz seq_id p0 p1 i c (used, h))) = h \<or> snd (snd (rm_turn sz seq_id p0 p1 i c (used, h))) = i"
  by (simp add: rm_turn_def Let_def)

lemma rm_turn_used:
  assumes "mem_cell_ok i c"
  shows "fst (snd (rm_turn sz seq_id p0 p1 i c (used, h))) = used - of_nat (occupied [c]) + of_nat (occupied [rm_cell seq_id p0 p1 i c])"
  using assms by (auto simp: rm_turn_def rm_cell_def Let_def occupied_def cell_is_empty_def mem_cell_ok_def has_seq_id_def)

lemma rm_cell_ok: "mem_cell_ok i c \<Longrightarrow> mem_cell_ok i (rm_cell seq_id p0 p1 i c)"
  by (auto simp: rm_cell_def rm_turn_def Let_def mem_cell_ok_def cell_is_empty_def)

text \<open>For a sequence: nothing changes and \<open>false\<close> is returned if only a part up to its end is in the range.\<close>


lemma rm_cell_seq:
  "0 \<le> u \<Longrightarrow> rm_cell u p0 p1 i c = (if p0 \<le> mc_pos c \<and> mc_pos c < p1 \<and> u \<in> mc_seq_id c then remove_id u c else c)"
  by (auto simp: rm_cell_def rm_turn_def Let_def remove_id_def has_seq_id_def cell_is_empty_def)

lemma rm_loop_ok:
  assumes ok: "rec_ok mr" and cs: "length cs = rs_size mr" "\<forall>i < length cs. occupied [cs ! i] = occupied [rs_cells mr ! i]"
    "\<forall>i < length cs. mem_cell_ok i (cs ! i)" "tails_ok (map (\<lambda>i. rm_cell u p0 p1 i (cs ! i)) [0..<length cs])"
    and loop: "each_cell (rm_turn (rs_size mr) u p0 p1) 0 cs (rs_used mr, rs_size mr) = (cells, used, new_head)"
  shows "cells = map (\<lambda>i. rm_cell u p0 p1 i (cs ! i)) [0..<length cs] \<and>
    rec_ok (mr\<lparr>rs_cells := cells, rs_used := used,
      rs_head := (if new_head \<noteq> rs_size mr \<and> new_head < rs_head mr then new_head else rs_head mr)\<rparr>)"
  by (rule each_cell_rec_ok[OF ok cs(1,2) loop rm_turn_cell _ rm_turn_head cs(4)])
    (use cs(3) in \<open>blast intro: rm_turn_used rm_cell_ok\<close>)+

text \<open>
  For a sequence: \<open>false\<close> is returned, and nothing changes, if only a part that includes its end is in the range
  (or the number is too big); else the sequence is gone if its position is in the range.
\<close>

lemma rec_seq_rm_ok:
  assumes ok: "rec_ok mr" and u: "0 \<le> u"
  shows "\<exists>b mr'. rec_seq_rm u p0 p1 mr = Some (b, mr') \<and> rec_ok mr' \<and> rs_size mr' = rs_size mr \<and>
    (b \<longleftrightarrow> u < int (rs_size mr) \<and> (\<forall>p. rec_view mr u = Some p \<longrightarrow> \<not> (0 < lower p0 \<and> lower p0 \<le> p \<and> p < upper p1))) \<and>
    rec_view mr' = (case rec_view mr u of
        None \<Rightarrow> rec_view mr
      | Some p \<Rightarrow> if b \<and> lower p0 \<le> p \<and> p < upper p1 then (rec_view mr)(u := None) else rec_view mr)"
proof (cases "u \<ge> int (rs_size mr)")
  case True
  then have "rec_seq_rm u p0 p1 mr = Some (False, mr)" by (simp add: rec_seq_rm_def rm_check_def)
  moreover have "rec_view mr u = None" using True by (simp add: rec_view_def seq_view_def valid_id_def)
  ultimately show ?thesis using True ok by auto
next
  case False
  let ?cs = "rs_cells mr" and ?p0 = "lower p0" and ?p1 = "upper p1" and ?t = "tail (rs_cells mr) u"
  have t: "tails_ok ?cs" and cok: "\<forall>i < length ?cs. mem_cell_ok i (?cs ! i)" using ok by (auto simp: rec_ok_def state_ok_def)
  note td = tails_okD[OF t]
  have r: "valid_id ?cs u" using u False by (simp add: valid_id_def)
  let ?at = "mc_pos (?cs ! nat ?t)"
  show ?thesis
  proof (cases "?t \<ge> 0 \<and> 0 < ?p0 \<and> ?p0 \<le> ?at \<and> ?at < ?p1")
    case True
    then have "valid_id ?cs ?t" "?t \<ge> 0" "0 < ?p0" "?p0 \<le> ?at" "?at < ?p1" using td(3)[OF r] by auto
    then have "rm_check u ?p0 ?p1 ?cs = Some None" using r u False by (simp add: rm_check_def)
    then have "rec_seq_rm u p0 p1 mr = Some (False, mr)" by (simp add: rec_seq_rm_def Let_def)
    moreover have "rec_view mr u = Some ?at" using True r by (simp add: rec_view_def seq_view_def)
    ultimately show ?thesis using True ok by auto
  next
    case ok_range: False
    define cs where "cs = (if ?t \<ge> 0 \<and> ?p0 \<le> ?at \<and> ?at < ?p1 then upd u (\<lambda>c. c\<lparr>mc_tail := -1\<rparr>) ?cs else ?cs)"
    have check: "rm_check u ?p0 ?p1 ?cs = Some (Some cs)"
    proof (cases "?t \<ge> 0")
      case True
      then have "valid_id ?cs ?t" using td(3)[OF r] by simp
      then show ?thesis using True ok_range r u by (auto simp: rm_check_def cs_def valid_id_def)
    next
      case False
      then show ?thesis using r u by (simp add: rm_check_def cs_def valid_id_def)
    qed
    have len: "length cs = rs_size mr" by (simp add: cs_def)
    have same: "\<forall>i < length cs. mc_seq_id (cs ! i) = mc_seq_id (?cs ! i) \<and> mc_pos (cs ! i) = mc_pos (?cs ! i)"
      and ok1: "\<forall>i < length cs. mem_cell_ok i (cs ! i)"
      using r cok by (auto simp: cs_def nth_upd mem_cell_ok_tail)
    have map: "map (\<lambda>i. rm_cell u ?p0 ?p1 i (cs ! i)) [0..<length cs] =
        (if ?t \<ge> 0 \<and> ?p0 \<le> ?at \<and> ?at < ?p1 then leave u ?cs else ?cs)"
    proof (rule nth_equalityI)
      fix i assume "i < length (map (\<lambda>i. rm_cell u ?p0 ?p1 i (cs ! i)) [0..<length cs])"
      then have i: "i < length ?cs" by (simp add: len)
      have mem: "u \<in> ids ?cs i \<longleftrightarrow> ?t = int i" using td(2)[OF i, of u] r by simp
      show "map (\<lambda>i. rm_cell u ?p0 ?p1 i (cs ! i)) [0..<length cs] ! i =
          (if ?t \<ge> 0 \<and> ?p0 \<le> ?at \<and> ?at < ?p1 then leave u ?cs else ?cs) ! i"
      proof (cases "?t = int i")
        case True
        then show ?thesis using i r mem same by (auto simp: rm_cell_seq[OF u] cs_def leave_def nth_upd valid_id_def)
      next
        case False
        then have "?t \<ge> 0 \<longrightarrow> i \<noteq> nat ?t" by auto
        then show ?thesis using i r mem False td(3)[OF r] by (auto simp: rm_cell_seq[OF u] cs_def leave_def nth_upd)
      qed
    qed (simp add: len leave_def)
    obtain cells used new_head where loop: "each_cell (rm_turn (rs_size mr) u ?p0 ?p1) 0 cs (rs_used mr, rs_size mr) = (cells, used, new_head)"
      by (metis prod_cases3)
    have tails: "tails_ok (map (\<lambda>i. rm_cell u ?p0 ?p1 i (cs ! i)) [0..<length cs])"
      using leave_ok[OF t cok r] t by (simp add: map)
    have occ: "\<forall>i < length cs. occupied [cs ! i] = occupied [?cs ! i]" using same by simp
    note res = rm_loop_ok[OF ok len occ ok1 tails loop]
    let ?mr = "mr\<lparr>rs_cells := cells, rs_used := used,
        rs_head := (if new_head \<noteq> rs_size mr \<and> new_head < rs_head mr then new_head else rs_head mr)\<rparr>"
    have eq: "rec_seq_rm u p0 p1 mr = Some (True, ?mr)" by (simp add: rec_seq_rm_def Let_def check loop)
    have cells: "cells = (if ?t \<ge> 0 \<and> ?p0 \<le> ?at \<and> ?at < ?p1 then leave u ?cs else ?cs)" using res map by simp
    have view: "rec_view mr u = (if ?t \<ge> 0 then Some ?at else None)" using r by (simp add: rec_view_def seq_view_def)
    have "rec_view ?mr = (if ?t \<ge> 0 \<and> ?p0 \<le> ?at \<and> ?at < ?p1 then (rec_view mr)(u := None) else rec_view mr)"
      using leave_ok[OF t cok r] by (simp add: rec_view_def cells)
    moreover have "length cells = rs_size mr" using res len by simp
    ultimately show ?thesis using res ok_range False view by (intro exI[of _ True] exI[of _ ?mr]) (auto simp: eq split: if_splits)
  qed
qed


section \<open>Copying\<close>

lemma join_ok:
  assumes "state_ok cs used" "valid_id cs s" "valid_id cs d" "tail cs d = -1" "tail cs s \<ge> 0"
  defines "cs' \<equiv> upd d (\<lambda>c. c\<lparr>mc_tail := tail cs s\<rparr>) (upd (tail cs s) (\<lambda>c. c\<lparr>mc_seq_id := insert d (mc_seq_id c)\<rparr>) cs)"
  shows "state_ok cs' used \<and> seq_view cs' = (seq_view cs)(d := seq_view cs s)"
proof -
  let ?t = "tail cs s"
  have t: "tails_ok cs" and cok: "\<forall>i < length cs. mem_cell_ok i (cs ! i)" and used: "used = of_nat (occupied cs)"
    using assms(1) by (auto simp: state_ok_def)
  have r: "valid_id cs ?t" and s: "s \<in> ids cs (nat ?t)" using tails_okD(3,4)[OF t assms(2)] assms(5) by auto
  have len: "length cs' = length cs" by (simp add: cs'_def)
  have rng: "valid_id cs' v \<longleftrightarrow> valid_id cs v" for v by (simp add: valid_id_def len)
  have nth: "cs' ! j = (let c = cs ! j; c = (if j = nat ?t then c\<lparr>mc_seq_id := insert d (mc_seq_id c)\<rparr> else c) in
      if j = nat d then c\<lparr>mc_tail := ?t\<rparr> else c)" for j
    using assms(3) r by (simp add: cs'_def nth_upd Let_def)
  have tl: "tail cs' v = (if v = d then ?t else tail cs v)" if "valid_id cs v" for v
    using that assms(3) by (auto simp: nth Let_def valid_id_def)
  have id: "ids cs' c = (if c = nat ?t then insert d (ids cs c) else ids cs c)" for c by (simp add: nth Let_def)
  have "tails_ok cs'"
    unfolding tails_ok_def rng
  proof (intro conjI allI impI)
    fix u assume "valid_id cs u"
    then show "tail cs' u = -1 \<or> valid_id cs (tail cs' u)" using tails_okD(1)[OF t] r tl by auto
  next
    fix c u assume "c < length cs'"
    then have c: "c < length cs" by (simp add: len)
    show "u \<in> ids cs' c \<longleftrightarrow> valid_id cs u \<and> tail cs' u = int c"
    proof (cases "u = d")
      case True
      have "u \<notin> ids cs c" using tails_okD(2)[OF t c, of u] assms(4) True by simp
      then show ?thesis using tl[of u] assms(3,5) True by (auto simp: id)
    next
      case False
      then have "u \<in> ids cs' c \<longleftrightarrow> u \<in> ids cs c" by (simp add: id)
      then show ?thesis using tails_okD(2)[OF t c, of u] tl[of u] False by auto
    qed
  qed
  moreover have "\<forall>i < length cs'. mem_cell_ok i (cs' ! i)"
  proof (intro allI impI)
    fix i assume "i < length cs'"
    then have "mem_cell_ok i (cs ! i)" using cok by (simp add: len)
    then show "mem_cell_ok i (cs' ! i)" using s by (cases "i = nat ?t") (auto simp: nth Let_def mem_cell_ok_def)
  qed
  moreover have "occupied cs' = occupied cs"
    using occupied_upd[OF r, of "\<lambda>c. c\<lparr>mc_seq_id := insert d (mc_seq_id c)\<rparr>"] s
      occupied_upd[of "upd ?t (\<lambda>c. c\<lparr>mc_seq_id := insert d (mc_seq_id c)\<rparr>) cs" d "\<lambda>c. c\<lparr>mc_tail := ?t\<rparr>"] assms(3)
    by (auto simp: cs'_def split: if_splits)
  moreover have "seq_view cs' v = ((seq_view cs)(d := seq_view cs s)) v" for v
    using tl[of v] assms(2,3,5) by (auto simp: seq_view_def rng nth Let_def)
  ultimately show ?thesis using used by (auto simp: state_ok_def)
qed

lemma rec_seq_cp_ok:
  assumes ok: "rec_ok mr"
  shows "\<exists>mr'. rec_seq_cp s d p0 p1 mr = Some mr' \<and> rec_ok mr' \<and> rs_size mr' = rs_size mr \<and>
    rec_view mr' = (if valid_id (rs_cells mr) s \<and> valid_id (rs_cells mr) d then (rec_view mr)(d := rec_view mr s) else rec_view mr)"
proof (cases "s \<noteq> d \<and> valid_id (rs_cells mr) s \<and> valid_id (rs_cells mr) d")
  case False
  then show ?thesis using ok by (auto simp: rec_seq_cp_def below_in_range)
next
  case True
  let ?cs = "rs_cells mr"
  have st: "state_ok ?cs (rs_used mr)" using ok by (simp add: rec_ok_def)
  obtain cs used where rel: "release d (?cs, rs_used mr) = Some (cs, used)" "state_ok cs used" "length cs = rs_size mr"
    "seq_view cs = (seq_view ?cs)(d := None)" "cs = (if tail ?cs d \<ge> 0 then leave d ?cs else ?cs)"
    using release_ok[OF st, of d] True by auto
  have t: "tails_ok ?cs" using st by (simp add: state_ok_def)
  have rng: "valid_id cs v \<longleftrightarrow> valid_id ?cs v" for v by (simp add: valid_id_def rel(3))
  have d: "tail cs d = -1" using rel(5) leave_cells(2)[OF t, of d d] tails_okD(1,3)[OF t, of d] True by auto
  have s: "tail cs s = tail ?cs s" using rel(5) leave_cells(2)[OF t, of d s] True by auto
  show ?thesis
  proof (cases "tail cs s \<ge> 0")
    case pos: True
    have r: "valid_id cs (tail cs s)" using tails_okD(3)[of cs s] rel(2) True pos by (simp add: state_ok_def rng)
    note j = join_ok[OF rel(2) _ _ d pos]
    let ?cs' = "upd d (\<lambda>c. c\<lparr>mc_tail := tail cs s\<rparr>) (upd (tail cs s) (\<lambda>c. c\<lparr>mc_seq_id := insert d (mc_seq_id c)\<rparr>) cs)"
    have eq: "rec_seq_cp s d p0 p1 mr = Some (mr\<lparr>rs_cells := ?cs', rs_used := used\<rparr>)"
      using True pos r by (simp add: rec_seq_cp_def below_in_range rel(1) rng)
    show ?thesis
      using j True ok rel(3,4) unfolding eq by (auto simp: rec_ok_def rec_view_def rng fun_eq_iff)
  next
    case False
    then have "seq_view ?cs s = None" using s by (simp add: seq_view_def)
    moreover have "rec_seq_cp s d p0 p1 mr = Some (mr\<lparr>rs_cells := cs, rs_used := used\<rparr>)"
      using True False by (simp add: rec_seq_cp_def below_in_range rel(1) rng)
    ultimately show ?thesis using rel(2,3,4) ok True by (auto simp: rec_ok_def rec_view_def fun_eq_iff)
  qed
qed

section \<open>Keeping\<close>

definition keep_cell :: "llama_seq_id \<Rightarrow> nat \<Rightarrow> mem_cell \<Rightarrow> mem_cell" where
  "keep_cell u i c = fst (keep_turn 0 u i c (0, 0))"

lemma keep_turn_cell: "fst (keep_turn sz u i c a) = keep_cell u i c"
  by (simp add: keep_cell_def keep_turn_def Let_def split: prod.splits)

lemma keep_turn_head: "snd (snd (keep_turn sz u i c (used, h))) = h \<or> snd (snd (keep_turn sz u i c (used, h))) = i"
  by (simp add: keep_turn_def Let_def)

lemma keep_turn_used:
  "mem_cell_ok i c \<Longrightarrow> fst (snd (keep_turn sz u i c (used, h))) = used - of_nat (occupied [c]) + of_nat (occupied [keep_cell u i c])"
  by (auto simp: keep_turn_def keep_cell_def Let_def mem_cell_ok_def has_seq_id_def)

lemma keep_cell_ok: "mem_cell_ok i c \<Longrightarrow> mem_cell_ok i (keep_cell u i c)"
  by (auto simp: keep_cell_def keep_turn_def Let_def mem_cell_ok_def has_seq_id_def)

lemma keep_cell_simps:
  "mc_tail (keep_cell u i c) = (if int i = u then mc_tail c else -1)"
  "mc_seq_id (keep_cell u i c) = mc_seq_id c \<inter> {u}"
  "u \<in> mc_seq_id c \<Longrightarrow> mc_pos (keep_cell u i c) = mc_pos c"
  by (auto simp: keep_cell_def keep_turn_def Let_def has_seq_id_def)

lemma rec_seq_keep_ok:
  assumes ok: "rec_ok mr"
  shows "rec_ok (rec_seq_keep u mr) \<and> rs_size (rec_seq_keep u mr) = rs_size mr \<and>
    rec_view (rec_seq_keep u mr) = (\<lambda>v. if v = u then rec_view mr u else None)"
proof -
  let ?cs = "rs_cells mr"
  let ?cs' = "map (\<lambda>i. keep_cell u i (?cs ! i)) [0..<rs_size mr]"
  have t: "tails_ok ?cs" and cok: "\<And>i. i < rs_size mr \<Longrightarrow> mem_cell_ok i (?cs ! i)" using ok by (auto simp: rec_ok_def state_ok_def)
  obtain cells used new_head where loop: "each_cell (keep_turn (rs_size mr) u) 0 ?cs (rs_used mr, rs_size mr) = (cells, used, new_head)"
    by (metis prod_cases3)
  have nth: "?cs' ! nat v = keep_cell u (nat v) (?cs ! nat v)" if "valid_id ?cs v" for v using that by (simp add: valid_id_def nat_less_iff)
  have rng: "valid_id ?cs' v \<longleftrightarrow> valid_id ?cs v" for v by (simp add: valid_id_def)
  have tails: "tails_ok ?cs'"
  proof (rule tails_okI[of _ ?cs "- {u}"])
    fix v assume "valid_id ?cs v"
    then show "tail ?cs' v = (if v \<in> - {u} then - 1 else tail ?cs v)"
      unfolding nth[OF \<open>valid_id ?cs v\<close>] by (auto simp: keep_cell_simps valid_id_def)
  qed (auto simp: t keep_cell_simps)
  have "cells = ?cs' \<and> rec_ok (mr\<lparr>rs_cells := cells, rs_used := used,
      rs_head := (if new_head \<noteq> rs_size mr \<and> new_head < rs_head mr then new_head else rs_head mr)\<rparr>)"
    by (rule each_cell_rec_ok[OF ok _ _ loop keep_turn_cell _ keep_turn_head tails])
      (use cok in \<open>auto intro: keep_turn_used keep_cell_ok simp del: occupied_single\<close>)
  note res = this
  have eq: "rec_seq_keep u mr = mr\<lparr>rs_cells := cells, rs_used := used,
      rs_head := (if new_head \<noteq> rs_size mr \<and> new_head < rs_head mr then new_head else rs_head mr)\<rparr>"
    by (simp add: rec_seq_keep_def Let_def loop)
  have "seq_view ?cs' v = (if v = u then seq_view ?cs u else None)" for v
  proof (cases "valid_id ?cs v \<and> v = u \<and> tail ?cs u \<ge> 0")
    case True
    then have r: "valid_id ?cs (tail ?cs u)" "u \<in> ids ?cs (nat (tail ?cs u))" using tails_okD(3,4)[OF t, of u] by auto
    then show ?thesis using True nth[OF r(1)] nth[of u] by (simp add: seq_view_def rng keep_cell_simps valid_id_def)
  next
    case False
    then show ?thesis using nth[of v] by (auto simp: seq_view_def rng keep_cell_simps valid_id_def)
  qed
  then have view: "seq_view cells = (\<lambda>v. if v = u then seq_view ?cs u else None)" using res by (simp add: fun_eq_iff)
  have "length cells = rs_size mr" using res by simp
  with res view show ?thesis unfolding eq rec_view_def by (auto simp del: if_split)
qed

end
