(* ===== verification/RecurrentClaim.thy ===== *)
theory RecurrentClaim
  imports RecurrentLaws
begin

text \<open>
  The first loop of \<open>find_slot\<close>: the sequences of the micro-batch that are not the first of their set leave
  their cells, unless a sequence is out of range.
\<close>

section \<open>Micro-batches for the recurrent memory\<close>

abbreviation first_token :: "llama_ubatch \<Rightarrow> nat \<Rightarrow> nat" where
  "first_token ub s \<equiv> s * ub_n_seq_tokens ub"

definition ids_of :: "llama_ubatch \<Rightarrow> nat \<Rightarrow> llama_seq_id list" where
  "ids_of ub s = take (ub_n_seq_id ub ! first_token ub s) (ub_seq_id ub ! first_token ub s)"

definition last_pos :: "llama_ubatch \<Rightarrow> nat \<Rightarrow> llama_pos" where
  "last_pos ub s = ub_pos ub ! (first_token ub s + ub_n_seq_tokens ub - 1)"

text \<open>What \<open>find_slot\<close> needs of a micro-batch: equal sequences, in disjoint sets, with positions.\<close>

definition slot_seq :: "llama_ubatch \<Rightarrow> nat \<Rightarrow> bool" where
  "slot_seq ub s \<longleftrightarrow> first_token ub s + ub_n_seq_tokens ub \<le> length (ub_pos ub) \<and>
     first_token ub s < length (ub_n_seq_id ub) \<and> first_token ub s < length (ub_seq_id ub) \<and>
     0 < ub_n_seq_id ub ! first_token ub s \<and>
     ub_n_seq_id ub ! first_token ub s \<le> length (ub_seq_id ub ! first_token ub s) \<and>
     distinct (ids_of ub s) \<and> 0 \<le> last_pos ub s"

definition slot_ubatch :: "llama_ubatch \<Rightarrow> bool" where
  "slot_ubatch ub \<longleftrightarrow> ub_equal_seqs ub \<and> 0 < ub_n_seqs ub \<and> 0 < ub_n_seq_tokens ub \<and>
     (\<forall>s < ub_n_seqs ub. slot_seq ub s) \<and>
     (\<forall>s < ub_n_seqs ub. \<forall>t < s. set (ids_of ub s) \<inter> set (ids_of ub t) = {})"

lemma slot_ubatchD:
  assumes "slot_ubatch ub" "s < ub_n_seqs ub"
  shows "slot_seq ub s" "at (ub_n_seq_id ub) (first_token ub s) = Some (length (ids_of ub s))"
    "at (ub_seq_id ub) (first_token ub s) = Some (ub_seq_id ub ! first_token ub s)"
    "j < length (ids_of ub s) \<Longrightarrow> at (ub_seq_id ub ! first_token ub s) j = Some (ids_of ub s ! j)"
    "ids_of ub s \<noteq> []" "distinct (ids_of ub s)"
    "t < ub_n_seqs ub \<Longrightarrow> s \<noteq> t \<Longrightarrow> set (ids_of ub s) \<inter> set (ids_of ub t) = {}"
proof -
  show s: "slot_seq ub s" using assms by (simp add: slot_ubatch_def)
  then show "at (ub_n_seq_id ub) (first_token ub s) = Some (length (ids_of ub s))"
    "at (ub_seq_id ub) (first_token ub s) = Some (ub_seq_id ub ! first_token ub s)"
    "j < length (ids_of ub s) \<Longrightarrow> at (ub_seq_id ub ! first_token ub s) j = Some (ids_of ub s ! j)"
    "distinct (ids_of ub s)"
    by (auto simp: slot_seq_def at_def ids_of_def)
  show "ids_of ub s \<noteq> []" using s by (auto simp: slot_seq_def ids_of_def)
  show "set (ids_of ub s) \<inter> set (ids_of ub t) = {}" if t: "t < ub_n_seqs ub" and ne: "s \<noteq> t"
  proof (cases "t < s")
    case True
    then show ?thesis using assms by (simp add: slot_ubatch_def)
  next
    case False
    then have "s < t" using ne by simp
    then have "set (ids_of ub t) \<inter> set (ids_of ub s) = {}" using assms t unfolding slot_ubatch_def by blast
    then show ?thesis by blast
  qed
qed

section \<open>Leaving\<close>

text \<open>The sequences of a set have left their cells; nothing else has changed.\<close>

definition departed :: "mem_cell list \<Rightarrow> llama_seq_id set \<Rightarrow> mem_cell list \<Rightarrow> bool" where
  "departed cs U cs' \<longleftrightarrow> length cs' = length cs \<and>
     (\<forall>v. valid_id cs v \<longrightarrow> tail cs' v = (if v \<in> U then -1 else tail cs v)) \<and>
     (\<forall>c < length cs. ids cs' c = ids cs c - U \<and>
        (ids cs' c \<noteq> {} \<longrightarrow> mc_pos (cs' ! c) = mc_pos (cs ! c)) \<and>
        (mc_src (cs' ! c) = -1 \<or> mc_src (cs' ! c) = mc_src (cs ! c) \<and> (ids cs c \<noteq> {} \<longrightarrow> ids cs' c \<noteq> {})))"

lemma departed_refl: "departed cs {} cs"
  by (simp add: departed_def)

lemma valid_id_length: "length cs' = length cs \<Longrightarrow> valid_id cs' u \<longleftrightarrow> valid_id cs u"
  by (simp add: valid_id_def)

lemma departed_trans:
  assumes "departed cs U cs1" "departed cs1 V cs2"
  shows "departed cs (U \<union> V) cs2"
proof -
  have len: "length cs1 = length cs" "length cs2 = length cs" using assms by (simp_all add: departed_def)
  note r = valid_id_length[OF len(1)]
  show ?thesis
    unfolding departed_def
  proof (intro conjI allI impI)
    show "length cs2 = length cs" by fact
    show "tail cs2 v = (if v \<in> U \<union> V then -1 else tail cs v)" if "valid_id cs v" for v
      using that assms by (auto simp: departed_def r)
  next
    fix c assume c: "c < length cs"
    have 1: "ids cs1 c = ids cs c - U" "ids cs1 c \<noteq> {} \<longrightarrow> mc_pos (cs1 ! c) = mc_pos (cs ! c)"
      "mc_src (cs1 ! c) = -1 \<or> mc_src (cs1 ! c) = mc_src (cs ! c) \<and> (ids cs c \<noteq> {} \<longrightarrow> ids cs1 c \<noteq> {})"
      using assms(1) c unfolding departed_def by blast+
    have 2: "ids cs2 c = ids cs1 c - V" "ids cs2 c \<noteq> {} \<longrightarrow> mc_pos (cs2 ! c) = mc_pos (cs1 ! c)"
      "mc_src (cs2 ! c) = -1 \<or> mc_src (cs2 ! c) = mc_src (cs1 ! c) \<and> (ids cs1 c \<noteq> {} \<longrightarrow> ids cs2 c \<noteq> {})"
      using assms(2) c unfolding departed_def len(1) by blast+
    show "ids cs2 c = ids cs c - (U \<union> V)" using 1(1) 2(1) by blast
    show "mc_pos (cs2 ! c) = mc_pos (cs ! c)" if "ids cs2 c \<noteq> {}"
    proof -
      have "ids cs1 c \<noteq> {}" using that 2(1) by blast
      then show ?thesis using that 1(2) 2(2) by simp
    qed
    show "mc_src (cs2 ! c) = -1 \<or> mc_src (cs2 ! c) = mc_src (cs ! c) \<and> (ids cs c \<noteq> {} \<longrightarrow> ids cs2 c \<noteq> {})"
      using 1(3) 2(3) by auto
  qed
qed

lemma release_departed:
  assumes ok: "state_ok cs used" and u: "valid_id cs u"
  shows "\<exists>cs' used'. release u (cs, used) = Some (cs', used') \<and> state_ok cs' used' \<and> departed cs {u} cs'"
proof -
  have t: "tails_ok cs" using ok by (simp add: state_ok_def)
  obtain cs' used' where rel: "release u (cs, used) = Some (cs', used')" "state_ok cs' used'" "length cs' = length cs"
    "cs' = (if tail cs u \<ge> 0 then leave u cs else cs)" using release_ok[OF ok u] by blast
  have "departed cs {u} cs'"
  proof (cases "tail cs u \<ge> 0")
    case True
    note l = leave_cells[OF t u True]
    have c': "cs' = leave u cs" using rel(4) True by simp
    show ?thesis
      unfolding departed_def c'
    proof (intro conjI allI impI)
      fix c assume c: "c < length cs"
      show "ids (leave u cs) c = ids cs c - {u}" by (rule l(3)[OF c])
      show "mc_pos (leave u cs ! c) = mc_pos (cs ! c)" if "ids (leave u cs) c \<noteq> {}"
        using l(5)[OF c] that unfolding l(3)[OF c] by blast
      show "mc_src (leave u cs ! c) = -1 \<or> mc_src (leave u cs ! c) = mc_src (cs ! c) \<and> (ids cs c \<noteq> {} \<longrightarrow> ids (leave u cs) c \<noteq> {})"
      proof (cases "ids (leave u cs) c = {}")
        case e: True
        show ?thesis
        proof (cases "ids cs c = {}")
          case True
          then have "c \<noteq> nat (tail cs u)" using tails_okD(4)[OF t u] \<open>tail cs u \<ge> 0\<close> by auto
          then show ?thesis using l(4)[OF c] True by simp
        next
          case False
          have "mem_cell_ok c (cs ! c)" "mem_cell_ok c (leave u cs ! c)"
            using ok rel(2,3) c c' by (auto simp: state_ok_def)
          have "ids cs c \<subseteq> {u}" using e l(3)[OF c] by auto
          then have "u \<in> ids cs c" using False by auto
          then have tc: "tail cs u = int c" using tails_okD(2)[OF t c, of u] by simp
          have "valid_id cs (tail cs u)" using tails_okD(3)[OF t u] \<open>tail cs u \<ge> 0\<close> by simp
          then have "leave u cs ! c = remove_id u (upd u (\<lambda>c. c\<lparr>mc_tail := -1\<rparr>) cs ! c)"
            unfolding leave_def by (subst nth_upd) (auto simp: tc)
          moreover have "mc_seq_id (upd u (\<lambda>c. c\<lparr>mc_tail := -1\<rparr>) cs ! c) \<subseteq> {u}"
            using \<open>ids cs c \<subseteq> {u}\<close> u by (auto simp: nth_upd)
          ultimately have "mc_src (leave u cs ! c) = -1" by (auto simp: remove_id_def Let_def)
          then show ?thesis by simp
        qed
      next
        case False
        then have "ids cs c - {u} \<noteq> {}" using l(3)[OF c] by simp
        then show ?thesis using l(5)[OF c] False by simp
      qed
    qed (use l in auto)
  next
    case False
    then have "tail cs u = -1" using tails_okD(1)[OF t u] by (auto simp: valid_id_def)
    moreover from this have "u \<notin> ids cs c" if "c < length cs" for c using tails_okD(2)[OF t that, of u] by simp
    ultimately show ?thesis using rel(4) False by (auto simp: departed_def)
  qed
  then show ?thesis using rel by blast
qed

lemma departed_seq_view:
  assumes "departed cs U cs'" "tails_ok cs"
  shows "seq_view cs' v = (if v \<in> U then None else seq_view cs v)"
proof (cases "valid_id cs v \<and> v \<notin> U \<and> tail cs v \<ge> 0")
  case True
  then have r: "valid_id cs (tail cs v)" and m: "v \<in> ids cs (nat (tail cs v))" using tails_okD(3,4)[OF assms(2)] by auto
  then have "nat (tail cs v) < length cs" by (simp add: valid_id_def nat_less_iff)
  with assms(1) m True show ?thesis by (auto simp: seq_view_def departed_def valid_id_def)
next
  case False
  then show ?thesis using assms(1) by (auto simp: seq_view_def departed_def valid_id_def)
qed

section \<open>The loop\<close>

definition claimed :: "llama_ubatch \<Rightarrow> nat \<Rightarrow> llama_seq_id set" where
  "claimed ub s = (\<Union>t < s. set (tl (ids_of ub t)))"

definition claim_inv :: "mem_cell list \<Rightarrow> llama_seq_id set \<Rightarrow> bool \<Rightarrow> bool \<times> mem_cell list \<times> 32 word \<Rightarrow> bool" where
  "claim_inv cs U b st \<longleftrightarrow> (\<exists>ok cs' used' V. st = (ok, cs', used') \<and> state_ok cs' used' \<and> departed cs V cs' \<and> V \<subseteq> U \<and>
     ok = b \<and> (ok \<longrightarrow> V = U))"

lemma claim_inv_mono: "claim_inv cs U False st \<Longrightarrow> U \<subseteq> V \<Longrightarrow> claim_inv cs V False st"
  by (fastforce simp: claim_inv_def)

lemma claim_id_inv:
  assumes ub: "slot_ubatch ub" "s < ub_n_seqs ub" and j: "j < length (ids_of ub s)" and I: "claim_inv cs U b st"
  shows "\<exists>st'. claim_id ub (first_token ub s) j st = Some st' \<and>
    claim_inv cs (if j > 0 then insert (ids_of ub s ! j) U else U) (b \<and> valid_id cs (ids_of ub s ! j)) st'"
proof -
  let ?u = "ids_of ub s ! j"
  note d = slot_ubatchD(3,4)[OF ub]
  obtain cs' used' V where st: "st = (b, cs', used')" "state_ok cs' used'" "departed cs V cs'" "V \<subseteq> U" "b \<longrightarrow> V = U"
    using I by (auto simp: claim_inv_def)
  have len: "length cs' = length cs" using st(3) by (simp add: departed_def)
  note r = valid_id_length[OF len]
  consider "\<not> b" | "b" "\<not> valid_id cs ?u" | "b" "valid_id cs ?u" "j = 0" | "b" "valid_id cs ?u" "j > 0" by blast
  then show ?thesis
  proof cases
    case 1
    then show ?thesis using I st(1) claim_inv_mono[of cs U st] by (auto simp: claim_id_def)
  next
    case 2
    then have "claim_id ub (first_token ub s) j st = Some (False, cs', used')"
      using d j st(1) by (simp add: claim_id_def below_in_range r)
    moreover have "claim_inv cs U False (False, cs', used')" using st by (auto simp: claim_inv_def)
    ultimately show ?thesis using 2 claim_inv_mono[of cs U "(False, cs', used')"] by auto
  next
    case 3
    have "at (ub_seq_id ub ! first_token ub s) 0 = Some (ids_of ub s ! 0)" using d(2)[OF j] 3(3) by simp
    then have "claim_id ub (first_token ub s) j st = Some st"
      using 3 d(1) st(1) by (simp add: claim_id_def below_in_range r)
    then show ?thesis using 3 I by simp
  next
    case 4
    then obtain cs2 used2 where rel: "release ?u (cs', used') = Some (cs2, used2)" "state_ok cs2 used2" "departed cs' {?u} cs2"
      using release_departed[OF st(2), of ?u] r by blast
    have "departed cs (insert ?u U) cs2" using departed_trans[OF st(3) rel(3)] st(5) 4(1) by simp
    moreover have "claim_id ub (first_token ub s) j st = Some (True, cs2, used2)"
      using 4 d j st(1) rel(1) by (simp add: claim_id_def below_in_range r)
    ultimately show ?thesis using 4 rel(2) by (auto simp: claim_inv_def)
  qed
qed

lemma claim_set_inv:
  assumes ub: "slot_ubatch ub" "s < ub_n_seqs ub" and I: "claim_inv cs U b st"
  shows "\<exists>st'. claim_set ub s st = Some st' \<and>
    claim_inv cs (U \<union> set (tl (ids_of ub s))) (b \<and> (\<forall>u \<in> set (ids_of ub s). valid_id cs u)) st'"
proof (cases b)
  case False
  then have "fst st = False" using I by (auto simp: claim_inv_def)
  then show ?thesis using False I claim_inv_mono[of cs U st] by (auto simp: claim_set_def)
next
  case True
  let ?ids = "ids_of ub s"
  let ?P = "\<lambda>j st. claim_inv cs (U \<union> set (tl (take j ?ids))) (b \<and> (\<forall>u \<in> set (take j ?ids). valid_id cs u)) st"
  have "\<exists>st'. foldM (claim_id ub (first_token ub s)) [0..<length ?ids] st = Some st' \<and> ?P (length ?ids) st'"
  proof (rule foldM_upt)
    show "?P 0 st" using I by simp
    fix j st assume j: "j < length ?ids" and P: "?P j st"
    have "tl (take (Suc j) ?ids) = (if j > 0 then tl (take j ?ids) @ [?ids ! j] else tl (take j ?ids))"
    proof -
      have "take j ?ids \<noteq> []" if "j > 0" using that j by auto
      then show ?thesis unfolding take_Suc_conv_app_nth[OF j] by (cases "j > 0") simp_all
    qed
    then have U: "U \<union> set (tl (take (Suc j) ?ids)) =
        (if j > 0 then insert (?ids ! j) (U \<union> set (tl (take j ?ids))) else U \<union> set (tl (take j ?ids)))" by auto
    show "\<exists>st'. claim_id ub (first_token ub s) j st = Some st' \<and> ?P (Suc j) st'"
      using claim_id_inv[OF ub j P] j unfolding U by (simp add: take_Suc_conv_app_nth conj_commute conj_left_commute)
  qed
  moreover have "fst st" using I True by (auto simp: claim_inv_def)
  ultimately show ?thesis using slot_ubatchD(2)[OF ub] by (simp add: claim_set_def Let_def)
qed

lemma claims_ok:
  assumes ub: "slot_ubatch ub" and ok: "state_ok cs used"
  shows "\<exists>b cs' used' U. foldM (claim_set ub) [0..<ub_n_seqs ub] (True, cs, used) = Some (b, cs', used') \<and> state_ok cs' used' \<and>
    (b \<longleftrightarrow> (\<forall>s < ub_n_seqs ub. \<forall>u \<in> set (ids_of ub s). valid_id cs u)) \<and> departed cs U cs' \<and> (b \<longrightarrow> U = claimed ub (ub_n_seqs ub))"
proof -
  let ?P = "\<lambda>s st. claim_inv cs (claimed ub s) (\<forall>t < s. \<forall>u \<in> set (ids_of ub t). valid_id cs u) st"
  have "\<exists>st. foldM (claim_set ub) [0..<ub_n_seqs ub] (True, cs, used) = Some st \<and> ?P (ub_n_seqs ub) st"
  proof (rule foldM_upt)
    show "?P 0 (True, cs, used)" using ok departed_refl[of cs] by (auto simp: claim_inv_def claimed_def)
    fix s st assume s: "s < ub_n_seqs ub" and P: "?P s st"
    have "claimed ub (Suc s) = claimed ub s \<union> set (tl (ids_of ub s))" by (auto simp: claimed_def less_Suc_eq)
    moreover have "(\<forall>t < Suc s. \<forall>u \<in> set (ids_of ub t). valid_id cs u) \<longleftrightarrow>
        (\<forall>t < s. \<forall>u \<in> set (ids_of ub t). valid_id cs u) \<and> (\<forall>u \<in> set (ids_of ub s). valid_id cs u)"
      by (auto simp: less_Suc_eq)
    ultimately show "\<exists>st'. claim_set ub s st = Some st' \<and> ?P (Suc s) st'"
      using claim_set_inv[OF ub s P] by simp
  qed
  then show ?thesis by (auto simp: claim_inv_def)
qed

end
