(* ===== verification/RecurrentUse.thy ===== *)
theory RecurrentUse
  imports RecurrentClaim
begin

text \<open>
  The second loop of \<open>find_slot\<close>: every first sequence gets a cell of its own, an empty one if it has none or
  shares its cell. There always is an empty cell, and the search finds it.
\<close>

section \<open>Searching for an empty cell\<close>

lemma wrap_mod: "e \<le> n \<Longrightarrow> 0 < n \<Longrightarrow> (if e \<ge> n then e - n else e) = e mod n" for e n :: nat
  by (cases "e = n") auto

lemma mod_shift: "(e mod n + 1 + z) mod n = (e + Suc z) mod n" "((e + 1) mod n + 1 + z) mod n = (e + 1 + Suc z) mod n" for n :: nat
  using mod_add_left_eq[of e n "1 + z"] mod_add_left_eq[of "e + 1" n "1 + z"] by (simp_all add: add.assoc)

lemma seek_empty_step:
  assumes "0 < length cs" "e \<le> length cs"
  shows "seek_empty (Suc turns) cs e =
    (if ids cs (e mod length cs) = {} then Some (e mod length cs) else seek_empty turns cs (e mod length cs + 1))"
proof -
  have "e mod length cs < length cs" using assms(1) by simp
  then show ?thesis unfolding seek_empty.simps Let_def wrap_mod[OF assms(2,1)] by (simp add: at_def cell_is_empty_def)
qed

lemma seek_next_step:
  assumes "e < length cs"
  shows "seek_next (Suc turns) cs e =
    (if ids cs ((e + 1) mod length cs) = {} then Some ((e + 1) mod length cs) else seek_next turns cs ((e + 1) mod length cs))"
proof -
  have n: "0 < length cs" "e + 1 \<le> length cs" using assms by linarith+
  have "(e + 1) mod length cs < length cs" using n(1) by (rule mod_less_divisor)
  then show ?thesis unfolding seek_next.simps Let_def wrap_mod[OF n(2,1)] by (simp add: at_def cell_is_empty_def del: add_Suc_right)
qed

lemma seek_empty_total: "0 < length cs \<Longrightarrow> e \<le> length cs \<Longrightarrow> \<exists>r. seek_empty turns cs e = Some r"
proof (induction turns arbitrary: e)
  case (Suc turns)
  have "e mod length cs < length cs" using Suc.prems by simp
  with Suc.IH[of "e mod length cs + 1"] Suc.prems show ?case unfolding seek_empty_step[OF Suc.prems] by simp
qed simp

lemma seek_next_total: "e < length cs \<Longrightarrow> \<exists>r. seek_next turns cs e = Some r"
proof (induction turns arbitrary: e)
  case (Suc turns)
  have "0 < length cs" using Suc.prems by linarith
  then have "(e + 1) mod length cs < length cs" by (rule mod_less_divisor)
  with Suc.IH[of "(e + 1) mod length cs"] show ?case unfolding seek_next_step[OF Suc.prems] by simp
qed simp

lemma seek_empty_found:
  assumes "0 < length cs" "e \<le> length cs" "y < turns" "ids cs ((e + y) mod length cs) = {}"
  shows "\<exists>x \<le> y. seek_empty turns cs e = Some ((e + x) mod length cs) \<and> ids cs ((e + x) mod length cs) = {} \<and>
    (\<forall>z < x. ids cs ((e + z) mod length cs) \<noteq> {})"
  using assms
proof (induction turns arbitrary: e y)
  case (Suc turns)
  let ?n = "length cs" and ?e = "e mod length cs"
  have e: "?e < ?n" using Suc.prems(1) by simp
  have step: "seek_empty (Suc turns) cs e = (if ids cs ?e = {} then Some ?e else seek_empty turns cs (?e + 1))"
    using seek_empty_step[OF Suc.prems(1,2)] by simp
  show ?case
  proof (cases "ids cs ?e = {}")
    case True
    then show ?thesis using step by (intro exI[of _ 0]) simp
  next
    case False
    note shift = mod_shift(1)
    have y: "y \<noteq> 0" using False Suc.prems(4) by (cases y) auto
    have "ids cs ((?e + 1 + (y - 1)) mod ?n) = {}" unfolding shift using Suc.prems(4) y by simp
    then obtain x where x: "x \<le> y - 1" "seek_empty turns cs (?e + 1) = Some ((?e + 1 + x) mod ?n)"
      "ids cs ((?e + 1 + x) mod ?n) = {}" "\<forall>z < x. ids cs ((?e + 1 + z) mod ?n) \<noteq> {}"
    proof -
      have "?e + 1 \<le> ?n" "y - 1 < turns" using e Suc.prems(3) y by linarith+
      from Suc.IH[OF Suc.prems(1) this \<open>ids cs ((?e + 1 + (y - 1)) mod ?n) = {}\<close>] that show ?thesis by blast
    qed
    have "\<forall>z < Suc x. ids cs ((e + z) mod ?n) \<noteq> {}"
    proof (intro allI impI)
      fix z assume "z < Suc x"
      then show "ids cs ((e + z) mod ?n) \<noteq> {}" using x(4) False unfolding shift by (cases z) auto
    qed
    then show ?thesis using x y False step unfolding shift by (intro exI[of _ "Suc x"]) auto
  qed
qed simp

lemma seek_next_found:
  assumes "e < length cs" "y < turns" "ids cs ((e + 1 + y) mod length cs) = {}"
  shows "seek_next turns cs e = seek_empty turns cs (e + 1)"
  using assms
proof (induction turns arbitrary: e y)
  case (Suc turns)
  let ?n = "length cs" and ?e = "(e + 1) mod length cs"
  have n: "0 < ?n" using Suc.prems(1) by linarith
  have e: "?e < ?n" using n by (rule mod_less_divisor)
  have step: "seek_empty (Suc turns) cs (e + 1) = (if ids cs ?e = {} then Some ?e else seek_empty turns cs (?e + 1))"
    "seek_next (Suc turns) cs e = (if ids cs ?e = {} then Some ?e else seek_next turns cs ?e)"
    using seek_empty_step[OF n, of "e + 1"] seek_next_step[OF Suc.prems(1)] Suc.prems(1) by simp_all
  show ?case
  proof (cases "ids cs ?e = {}")
    case False
    have y: "y \<noteq> 0" using False Suc.prems(3) by (cases y) auto
    have "(?e + 1 + (y - 1)) mod ?n = (e + 1 + y) mod ?n" using y mod_shift(2)[of e ?n "y - 1"] by simp
    then have "seek_next turns cs ?e = seek_empty turns cs (?e + 1)"
      using Suc.IH[of ?e "y - 1"] Suc.prems(2,3) e y by (simp del: mod_Suc_eq)
    then show ?thesis using step False by simp
  next
    case True
    show ?thesis unfolding step using True by simp
  qed
qed simp

text \<open>A cell is free if it is empty and not yet given to a sequence.\<close>

definition free_cell :: "mem_cell list \<Rightarrow> nat \<Rightarrow> bool" where
  "free_cell cs c \<longleftrightarrow> c < length cs \<and> ids cs c = {} \<and> (\<forall>v. valid_id cs v \<longrightarrow> tail cs v \<noteq> int c)"

text \<open>Seen from the head, the empty cells in front of \<open>e\<close> have been given away; \<open>e\<close> is the first free one.\<close>

definition seek_ok :: "mem_cell list \<Rightarrow> nat \<Rightarrow> nat \<Rightarrow> bool" where
  "seek_ok cs h e \<longleftrightarrow> ((\<exists>c. free_cell cs c) \<longrightarrow> free_cell cs e \<and> (\<exists>x < length cs. e = (h + x) mod length cs \<and>
     (\<forall>y < length cs. ids cs ((h + y) mod length cs) = {} \<longrightarrow> (y < x \<longleftrightarrow> \<not> free_cell cs ((h + y) mod length cs)))))"

lemma offset:
  fixes n :: nat
  assumes "c < n"
  shows "\<exists>y < n. c = (h + y) mod n"
proof (intro exI conjI)
  show "(c + (n - h mod n)) mod n < n" using assms by simp
  have "(h + (c + (n - h mod n)) mod n) mod n = (h mod n + (c + (n - h mod n))) mod n" by (simp add: mod_simps)
  also have "h mod n + (c + (n - h mod n)) = c + n"
  proof -
    have "0 < n" using assms by linarith
    then have "h mod n < n" by (rule mod_less_divisor)
    then show ?thesis by simp
  qed
  finally show "c = (h + (c + (n - h mod n)) mod n) mod n" using assms by simp
qed

lemma offset_eq:
  fixes n :: nat
  assumes "x < n" "y < n" "(h + x) mod n = (h + y) mod n"
  shows "x = y"
proof -
  have n: "0 < n" using assms(1) by linarith
  have "(x + (h + (n - h mod n))) mod n = (y + (h + (n - h mod n))) mod n"
    using mod_add_cong[OF assms(3), of "n - h mod n" "n - h mod n"] by (simp add: ac_simps)
  moreover have "(h + (n - h mod n)) mod n = 0"
  proof -
    have "h + (n - h mod n) = (h div n) * n + n" using mod_less_divisor[OF n, of h] div_mult_mod_eq[of h n] by linarith
    then show ?thesis by simp
  qed
  ultimately have "x mod n = y mod n" by (metis add.right_neutral mod_add_right_eq)
  then show ?thesis using assms by simp
qed

lemma seek_start:
  assumes t: "tails_ok cs" and h: "h < length cs"
  shows "\<exists>e. seek_empty (length cs) cs h = Some e \<and> seek_ok cs h e"
proof -
  have free: "free_cell cs c \<longleftrightarrow> ids cs c = {}" if "c < length cs" for c
    using tails_okD(4)[OF t] that by (fastforce simp: free_cell_def)
  have pos: "0 < length cs" using h by linarith
  obtain e where e: "seek_empty (length cs) cs h = Some e" using seek_empty_total[OF pos, of h] h by auto
  have "seek_ok cs h e"
    unfolding seek_ok_def
  proof (intro impI)
    assume "\<exists>c. free_cell cs c"
    then obtain c where c: "c < length cs" "ids cs c = {}" by (auto simp: free_cell_def)
    obtain y where y: "y < length cs" "c = (h + y) mod length cs" using offset[OF c(1)] by blast
    obtain x where x: "x \<le> y" "seek_empty (length cs) cs h = Some ((h + x) mod length cs)" "ids cs ((h + x) mod length cs) = {}"
      "\<forall>z < x. ids cs ((h + z) mod length cs) \<noteq> {}"
      using seek_empty_found[OF pos, of h y "length cs"] h y c(2) by auto
    have "(h + z) mod length cs < length cs" for z using pos by simp
    then show "free_cell cs e \<and> (\<exists>x < length cs. e = (h + x) mod length cs \<and>
       (\<forall>y < length cs. ids cs ((h + y) mod length cs) = {} \<longrightarrow> (y < x \<longleftrightarrow> \<not> free_cell cs ((h + y) mod length cs))))"
      using x y(1) e free by (intro conjI exI[of _ x]) auto
  qed
  then show ?thesis using e by blast
qed

lemma seek_step:
  assumes seek: "seek_ok cs h e" and e: "free_cell cs e" and len: "length cs' = length cs"
    and free: "\<And>c. free_cell cs' c \<longleftrightarrow> free_cell cs c \<and> c \<noteq> e"
    and empty: "\<And>c. c < length cs \<Longrightarrow> c \<noteq> e \<Longrightarrow> ids cs' c = {} \<longleftrightarrow> ids cs c = {}"
  shows "\<exists>e'. seek_next (length cs') cs' e = Some e' \<and> seek_ok cs' h e'"
proof -
  let ?n = "length cs"
  have en: "e < ?n" using e by (simp add: free_cell_def)
  obtain x where x: "x < ?n" "e = (h + x) mod ?n"
    "\<And>y. y < ?n \<Longrightarrow> ids cs ((h + y) mod ?n) = {} \<Longrightarrow> y < x \<longleftrightarrow> \<not> free_cell cs ((h + y) mod ?n)"
    using seek e by (auto simp: seek_ok_def)
  obtain e' where e': "seek_next ?n cs' e = Some e'" using seek_next_total[of e cs' ?n] en len by auto
  have "seek_ok cs' h e'"
    unfolding seek_ok_def len
  proof (intro impI)
    assume "\<exists>c. free_cell cs' c"
    then obtain c where c: "free_cell cs' c" ..
    then have c2: "c < ?n" "ids cs' c = {}" "free_cell cs c" "c \<noteq> e" using free by (auto simp: free_cell_def len)
    obtain y where y: "y < ?n" "c = (h + y) mod ?n" using offset[OF c2(1)] by blast
    have "x \<noteq> y" using x(2) y(2) c2(4) by auto
    moreover have "\<not> y < x" using x(3)[OF y(1)] c2(3) y(2) by (simp add: free_cell_def)
    ultimately have xy: "x < y" by simp
    have shift: "(e + 1 + z) mod ?n = (h + (x + 1 + z)) mod ?n" for z
      unfolding x(2) using mod_shift(1)[of "h + x" ?n z] by (simp add: add.assoc)
    let ?k = "y - x - 1"
    have k: "x + 1 + ?k = y" using xy by simp
    have found: "ids cs' ((e + 1 + ?k) mod length cs') = {}" unfolding len shift k using c2(2) y(2) by simp
    have kn: "?k < ?n" using y(1) by simp
    have "seek_next ?n cs' e = seek_empty ?n cs' (e + 1)" using seek_next_found[OF _ kn found] en len by simp
    moreover obtain z where z: "z \<le> ?k" "seek_empty ?n cs' (e + 1) = Some ((e + 1 + z) mod ?n)"
      "ids cs' ((e + 1 + z) mod ?n) = {}" "\<And>i. i < z \<Longrightarrow> ids cs' ((e + 1 + i) mod ?n) \<noteq> {}"
    proof -
      have "0 < length cs'" "e + 1 \<le> length cs'" using en len by linarith+
      from seek_empty_found[OF this kn found] that show ?thesis unfolding len by blast
    qed
    let ?x = "x + 1 + z"
    have e'': "e' = (h + ?x) mod ?n" using e' calculation z(2) unfolding shift by simp
    have xn: "?x < ?n" using z(1) k y(1) by linarith
    have all: "i < ?x \<longleftrightarrow> \<not> free_cell cs' ((h + i) mod ?n)" if i: "i < ?n" and em: "ids cs' ((h + i) mod ?n) = {}" for i
    proof (cases "i = x")
      case True
      then show ?thesis using free[of e] x(2) by simp
    next
      case False
      then have ne: "(h + i) mod ?n \<noteq> e" using offset_eq[OF i x(1)] x(2) by auto
      have "(h + i) mod ?n < ?n" using mod_less_divisor[of ?n "h + i"] i by linarith
      then have em': "ids cs ((h + i) mod ?n) = {}" using empty[OF _ ne] em by simp
      have gap: False if "x < i" "i < ?x"
      proof -
        have "x + 1 + (i - x - 1) = i" using that by simp
        moreover have "i - x - 1 < z" using that by linarith
        ultimately show False using z(4)[of "i - x - 1"] em unfolding shift by simp
      qed
      show ?thesis using x(3)[OF i em'] free[of "(h + i) mod ?n"] ne False gap by fastforce
    qed
    have "free_cell cs' e'" using all[OF xn] z(3) unfolding e'' shift by simp
    then show "free_cell cs' e' \<and> (\<exists>x < ?n. e' = (h + x) mod ?n \<and>
        (\<forall>y < ?n. ids cs' ((h + y) mod ?n) = {} \<longrightarrow> (y < x \<longleftrightarrow> \<not> free_cell cs' ((h + y) mod ?n))))"
      using xn e'' all by blast
  qed
  then show ?thesis using e' len by auto
qed


section \<open>Cells of their own\<close>

text \<open>Empty cells with a source: their own state, which is the zero state.\<close>

definition clean_cells :: "mem_cell list \<Rightarrow> int set" where
  "clean_cells cs = {j. valid_id cs j \<and> ids cs (nat j) = {} \<and> mc_src (cs ! nat j) = j}"

text \<open>
  Between the cells \<open>cs0\<close> and \<open>cs\<close> the states have moved: a cell that holds a sequence has its position, and
  its source is the old cell. The sequences in \<open>D\<close> have a cell of their own, which may be still empty.
\<close>

definition placed :: "mem_cell list \<Rightarrow> llama_seq_id set \<Rightarrow> mem_cell list \<Rightarrow> bool" where
  "placed cs0 D cs \<longleftrightarrow> length cs = length cs0 \<and>
     (\<forall>u. valid_id cs u \<longrightarrow> tail cs u = -1 \<or> valid_id cs (tail cs u)) \<and>
     (\<forall>c < length cs. \<forall>u \<in> ids cs c. valid_id cs u \<and> tail cs u = int c \<and> tail cs0 u \<ge> 0 \<and>
        mc_src (cs ! c) = tail cs0 u \<and> mc_pos (cs ! c) = mc_pos (cs0 ! nat (tail cs0 u))) \<and>
     (\<forall>u. valid_id cs u \<and> tail cs u \<ge> 0 \<longrightarrow>
        u \<in> ids cs (nat (tail cs u)) \<or> u \<in> D \<and> tail cs0 u = -1 \<and> ids cs (nat (tail cs u)) = {}) \<and>
     (\<forall>u \<in> D. valid_id cs u \<and> tail cs u \<ge> 0 \<and> (\<forall>v. valid_id cs v \<and> tail cs v = tail cs u \<longrightarrow> v = u)) \<and>
     (\<forall>u. valid_id cs u \<and> tail cs0 u \<ge> 0 \<longrightarrow> tail cs u \<ge> 0) \<and>
     (\<forall>c < length cs. ids cs c = {} \<longrightarrow> mc_pos (cs ! c) = -1 \<and> (mc_src (cs ! c) = -1 \<or> mc_src (cs ! c) \<in> clean_cells cs0))"

definition at_home :: "int set \<Rightarrow> mem_cell list \<Rightarrow> bool" where
  "at_home X cs \<longleftrightarrow> (\<forall>c < length cs. int c \<notin> X \<longrightarrow> mc_src (cs ! c) = -1 \<or> mc_src (cs ! c) = int c)"

lemma placedD:
  assumes "placed cs0 D cs"
  shows "length cs = length cs0"
    "valid_id cs u \<Longrightarrow> tail cs u = -1 \<or> valid_id cs (tail cs u)"
    "c < length cs \<Longrightarrow> u \<in> ids cs c \<Longrightarrow> valid_id cs u \<and> tail cs u = int c \<and> tail cs0 u \<ge> 0 \<and>
        mc_src (cs ! c) = tail cs0 u \<and> mc_pos (cs ! c) = mc_pos (cs0 ! nat (tail cs0 u))"
    "valid_id cs u \<Longrightarrow> tail cs u \<ge> 0 \<Longrightarrow>
        u \<in> ids cs (nat (tail cs u)) \<or> u \<in> D \<and> tail cs0 u = -1 \<and> ids cs (nat (tail cs u)) = {}"
    "u \<in> D \<Longrightarrow> valid_id cs u \<and> tail cs u \<ge> 0"
    "u \<in> D \<Longrightarrow> valid_id cs v \<Longrightarrow> tail cs v = tail cs u \<Longrightarrow> v = u"
    "valid_id cs u \<Longrightarrow> tail cs0 u \<ge> 0 \<Longrightarrow> tail cs u \<ge> 0"
    "c < length cs \<Longrightarrow> ids cs c = {} \<Longrightarrow> mc_pos (cs ! c) = -1 \<and> (mc_src (cs ! c) = -1 \<or> mc_src (cs ! c) \<in> clean_cells cs0)"
  using assms unfolding placed_def by blast+

lemma valid_id_nat: "valid_id cs (int c) \<longleftrightarrow> c < length cs"
  by (simp add: valid_id_def)

lemma nat_valid_id: "valid_id cs u \<Longrightarrow> nat u < length cs \<and> int (nat u) = u"
  by (simp add: valid_id_def nat_less_iff)

lemma placed_start:
  assumes "state_ok cs used"
  shows "placed cs {} cs" "at_home {} cs"
proof -
  have t: "tails_ok cs" and cok: "\<And>i. i < length cs \<Longrightarrow> mem_cell_ok i (cs ! i)" using assms by (auto simp: state_ok_def)
  note td = tails_okD[OF t]
  show "placed cs {} cs"
    unfolding placed_def
  proof (intro conjI allI impI ballI)
    fix c u assume c: "c < length cs" and u: "u \<in> ids cs c"
    have "ids cs c \<noteq> {}" using u by blast
    then show "valid_id cs u" "tail cs u = int c" "tail cs u \<ge> 0" "mc_src (cs ! c) = tail cs u"
      "mc_pos (cs ! c) = mc_pos (cs ! nat (tail cs u))"
      using td(2)[OF c, of u] u cok[OF c] by (auto simp: mem_cell_ok_def)
  next
    fix c assume c: "c < length cs" "ids cs c = {}"
    then show "mc_pos (cs ! c) = -1" "mc_src (cs ! c) = -1 \<or> mc_src (cs ! c) \<in> clean_cells cs"
      using cok[OF c(1)] by (auto simp: mem_cell_ok_def clean_cells_def valid_id_def)
  qed (use td in auto)
  show "at_home {} cs" using cok by (auto simp: at_home_def mem_cell_ok_def)
qed

text \<open>A sequence without a cell of its own leaves a cell for it.\<close>

lemma free_exists:
  assumes p: "placed cs0 D cs" and u: "valid_id cs u"
    and alone: "tail cs u = -1 \<or> (\<exists>v. valid_id cs v \<and> v \<noteq> u \<and> tail cs v = tail cs u)"
  shows "\<exists>c. free_cell cs c"
proof (rule ccontr)
  assume none: "\<nexists>c. free_cell cs c"
  let ?V = "{0..<int (length cs)} - {u}"
  have "{0..<int (length cs)} \<subseteq> tail cs ` ?V"
  proof
    fix i assume "i \<in> {0..<int (length cs)}"
    then have i: "nat i < length cs" "int (nat i) = i" by (auto simp: nat_less_iff)
    have "\<exists>v. valid_id cs v \<and> tail cs v = i"
    proof (cases "ids cs (nat i) = {}")
      case True
      have "\<not> free_cell cs (nat i)" using none by blast
      then obtain v where "valid_id cs v" "tail cs v = int (nat i)" using True i(1) by (auto simp: free_cell_def)
      then show ?thesis using i(2) by auto
    next
      case False
      then show ?thesis using placedD(3)[OF p i(1)] i(2) by auto
    qed
    then obtain v where v: "valid_id cs v" "tail cs v = i" by blast
    have "\<exists>w. valid_id cs w \<and> w \<noteq> u \<and> tail cs w = i"
    proof (cases "v = u")
      case True
      then show ?thesis using alone v i by auto
    next
      case False
      then show ?thesis using v by blast
    qed
    then obtain w where "valid_id cs w" "w \<noteq> u" "tail cs w = i" by blast
    then show "i \<in> tail cs ` ?V" by (auto simp: valid_id_def)
  qed
  then have "card {0..<int (length cs)} \<le> card (tail cs ` ?V)" by (intro card_mono) auto
  also have "\<dots> \<le> card ?V" by (rule card_image_le) auto
  also have "\<dots> < card {0..<int (length cs)}" by (rule card_Diff1_less) (use u in \<open>auto simp: valid_id_def\<close>)
  finally show False by simp
qed


section \<open>A turn of the loop\<close>

lemma owns_cell_placed:
  assumes p: "placed cs0 D cs" and u: "valid_id cs u" "u \<notin> D"
  shows "owns_cell u cs (cs ! nat u) = Some (tail cs u \<ge> 0 \<and> ids cs (nat (tail cs u)) = {u})"
proof (cases "tail cs u \<ge> 0")
  case True
  then have "valid_id cs (tail cs u)" "u \<in> ids cs (nat (tail cs u))"
    using placedD(2,4)[OF p u(1)] u(2) by auto
  then show ?thesis using True by (auto simp: owns_cell_def has_seq_id_def card_1_singleton_iff)
qed (simp add: owns_cell_def)

lemma placed_owner:
  assumes p: "placed cs0 D cs" and u: "valid_id cs u" "tail cs u \<ge> 0" "ids cs (nat (tail cs u)) = {u}"
  shows "placed cs0 (insert u D) cs"
proof -
  have "v = u" if v: "valid_id cs v" "tail cs v = tail cs u" for v
    using placedD(4)[OF p v(1)] u v(2) by auto
  then show ?thesis using p u(1,2) unfolding placed_def by blast
qed

text \<open>The cells after sequence \<open>u\<close> has got the cell \<open>e\<close>.\<close>

definition give_cell :: "llama_seq_id \<Rightarrow> nat \<Rightarrow> mem_cell list \<Rightarrow> mem_cell list" where
  "give_cell u e cs =
     upd u (\<lambda>c. c\<lparr>mc_tail := int e\<rparr>)
       (if tail cs u \<ge> 0 then
          upd (int e) (\<lambda>c. c\<lparr>mc_pos := mc_pos (cs ! nat (tail cs u)), mc_src := mc_src (cs ! nat (tail cs u)), mc_seq_id := {u}\<rparr>)
            (upd (tail cs u) (\<lambda>c. c\<lparr>mc_seq_id := mc_seq_id c - {u}\<rparr>) cs)
        else cs)"

lemma copy_tail_give:
  assumes "valid_id cs t" "e < length cs" "int e \<noteq> t" "ids cs e = {}" "u \<in> ids cs (nat t)" "ids cs (nat t) \<noteq> {u}"
  shows "copy_tail u t e cs = Some (upd (int e) (\<lambda>c. c\<lparr>mc_pos := mc_pos (cs ! nat t), mc_src := mc_src (cs ! nat t), mc_seq_id := {u}\<rparr>)
    (upd t (\<lambda>c. c\<lparr>mc_seq_id := mc_seq_id c - {u}\<rparr>) cs))"
proof -
  have e: "valid_id cs (int e)" "e \<noteq> nat t" using assms(1,2,3) by (auto simp: valid_id_def)
  let ?c1 = "upd (int e) (\<lambda>c. c\<lparr>mc_pos := mc_pos (cs ! nat t), mc_src := mc_src (cs ! nat t)\<rparr>) cs"
  let ?c2 = "upd t (\<lambda>c. c\<lparr>mc_seq_id := mc_seq_id c - {u}\<rparr>) ?c1"
  let ?c3 = "upd (int e) (\<lambda>c. c\<lparr>mc_seq_id := insert u (mc_seq_id c)\<rparr>) ?c2"
  have "ids ?c3 (nat t) \<noteq> {}" using assms(1,5,6) e by (auto simp: nth_upd)
  then have "copy_tail u t e cs = Some ?c3" using assms(1) by (simp add: copy_tail_def Let_def cell_is_empty_def)
  also have "?c3 = upd (int e) (\<lambda>c. c\<lparr>mc_pos := mc_pos (cs ! nat t), mc_src := mc_src (cs ! nat t), mc_seq_id := {u}\<rparr>)
      (upd t (\<lambda>c. c\<lparr>mc_seq_id := mc_seq_id c - {u}\<rparr>) cs)"
    by (rule nth_equalityI) (use assms(1,4) e in \<open>auto simp: nth_upd\<close>)
  finally show ?thesis .
qed

lemma give_cell_nth:
  assumes "valid_id cs u" "tail cs u = -1 \<or> valid_id cs (tail cs u)" "free_cell cs e"
  shows "length (give_cell u e cs) = length cs"
    "valid_id cs v \<Longrightarrow> tail (give_cell u e cs) v = (if v = u then int e else tail cs v)"
    "ids (give_cell u e cs) c = (if tail cs u \<ge> 0 then if c = e then {u} else if c = nat (tail cs u) then ids cs c - {u} else ids cs c else ids cs c)"
    "mc_pos (give_cell u e cs ! c) = (if tail cs u \<ge> 0 \<and> c = e then mc_pos (cs ! nat (tail cs u)) else mc_pos (cs ! c))"
    "mc_src (give_cell u e cs ! c) = (if tail cs u \<ge> 0 \<and> c = e then mc_src (cs ! nat (tail cs u)) else mc_src (cs ! c))"
proof -
  have e: "valid_id cs (int e)" "tail cs u \<noteq> int e" using assms(1,3) by (auto simp: free_cell_def valid_id_def)
  show "length (give_cell u e cs) = length cs" by (simp add: give_cell_def)
  have ne: "nat (tail cs u) \<noteq> e" and t: "valid_id cs (tail cs u)" if "tail cs u \<ge> 0"
    using that assms(2) e(2) by auto
  have nv: "nat v = nat u \<longleftrightarrow> v = u" if "valid_id cs v" for v using that assms(1) by (auto simp: valid_id_def)
  show "tail (give_cell u e cs) v = (if v = u then int e else tail cs v)" if "valid_id cs v"
    using assms(1) e(1) t by (simp add: give_cell_def nth_upd nv[OF that])
  show "ids (give_cell u e cs) c = (if tail cs u \<ge> 0 then if c = e then {u} else if c = nat (tail cs u) then ids cs c - {u} else ids cs c else ids cs c)"
    "mc_pos (give_cell u e cs ! c) = (if tail cs u \<ge> 0 \<and> c = e then mc_pos (cs ! nat (tail cs u)) else mc_pos (cs ! c))"
    "mc_src (give_cell u e cs ! c) = (if tail cs u \<ge> 0 \<and> c = e then mc_src (cs ! nat (tail cs u)) else mc_src (cs ! c))"
    by (cases "tail cs u \<ge> 0"; use assms(1) e(1) t ne in \<open>simp add: give_cell_def nth_upd\<close>)+
qed

lemma give_cell_placed:
  assumes p: "placed cs0 D cs" and t0: "tails_ok cs0" and u: "valid_id cs u" "u \<notin> D" and e: "free_cell cs e"
    and share: "tail cs u \<ge> 0 \<Longrightarrow> ids cs (nat (tail cs u)) \<noteq> {u}"
  shows "placed cs0 (insert u D) (give_cell u e cs)"
proof -
  let ?cs = "give_cell u e cs"
  note tu = placedD(2)[OF p u(1)]
  note g = give_cell_nth[OF u(1) tu e]
  note r = valid_id_length[OF g(1)]
  have en: "e < length cs" "ids cs e = {}" "\<And>v. valid_id cs v \<Longrightarrow> tail cs v \<noteq> int e" using e by (auto simp: free_cell_def)
  have uin: "u \<in> ids cs (nat (tail cs u))" if "tail cs u \<ge> 0" using placedD(4)[OF p u(1) that] u(2) by blast
  have u0: "tail cs0 u \<ge> 0 \<longleftrightarrow> tail cs u \<ge> 0"
  proof
    show "tail cs u \<ge> 0 \<Longrightarrow> tail cs0 u \<ge> 0" using placedD(3)[OF p _ uin] tu by (auto simp: valid_id_def nat_less_iff)
  qed (rule placedD(7)[OF p u(1)])
  show ?thesis
    unfolding placed_def g(1) r
  proof (intro conjI allI impI ballI)
    show "length cs = length cs0" by (rule placedD(1)[OF p])
    show "tail ?cs v = -1 \<or> valid_id cs (tail ?cs v)" if "valid_id cs v" for v
      using that placedD(2)[OF p that] g(2) en by (auto simp: valid_id_def)
  next
    fix c v assume c: "c < length cs" and v: "v \<in> ids ?cs c"
    have "valid_id cs v \<and> tail ?cs v = int c \<and> tail cs0 v \<ge> 0 \<and> mc_src (?cs ! c) = tail cs0 v \<and> mc_pos (?cs ! c) = mc_pos (cs0 ! nat (tail cs0 v))"
    proof (cases "tail cs u \<ge> 0 \<and> c = e")
      case True
      then have t: "nat (tail cs u) < length cs" using tu by (auto simp: valid_id_def nat_less_iff)
      show ?thesis using True v placedD(3)[OF p t uin] u(1) g by auto
    next
      case False
      then have "v \<in> ids cs c" "v \<noteq> u" using v g(3)[of c] placedD(3)[OF p c, of u] uin tu by (auto split: if_splits)
      then show ?thesis using placedD(3)[OF p c] g False by auto
    qed
    then show "valid_id cs v" "tail ?cs v = int c" "tail cs0 v \<ge> 0" "mc_src (?cs ! c) = tail cs0 v"
      "mc_pos (?cs ! c) = mc_pos (cs0 ! nat (tail cs0 v))" by blast+
  next
    fix v assume v: "valid_id cs v \<and> tail ?cs v \<ge> 0"
    show "v \<in> ids ?cs (nat (tail ?cs v)) \<or> v \<in> insert u D \<and> tail cs0 v = -1 \<and> ids ?cs (nat (tail ?cs v)) = {}"
    proof (cases "v = u")
      case True
      have "tail cs0 u = -1" if "\<not> tail cs u \<ge> 0"
        using that placedD(7)[OF p u(1)] tails_okD(1)[OF t0, of u] u(1) valid_id_length[OF placedD(1)[OF p]] by (auto simp: valid_id_def)
      then show ?thesis using True g(2)[OF u(1)] g(3)[of e] en by auto
    next
      case False
      then have tv: "tail ?cs v = tail cs v" "tail cs v \<ge> 0" "tail cs v \<noteq> int e" using v g(2) en(3) by auto
      then have "nat (tail cs v) \<noteq> e" by auto
      then show ?thesis using placedD(4)[OF p, of v] v tv g(3)[of "nat (tail cs v)"] False uin by auto
    qed
  next
    fix v assume "v \<in> insert u D"
    then consider "v = u" | "v \<in> D" "v \<noteq> u" by blast
    then have "valid_id cs v \<and> tail ?cs v \<ge> 0 \<and> (\<forall>w. valid_id cs w \<and> tail ?cs w = tail ?cs v \<longrightarrow> w = v)"
    proof cases
      case 1
      have "w = u" if "valid_id cs w" "tail ?cs w = int e" for w using that g(2)[OF that(1)] en(3) by (cases "w = u") auto
      then show ?thesis using 1 u(1) g(2)[OF u(1)] by auto
    next
      case 2
      then have v: "valid_id cs v" "tail cs v \<ge> 0" "tail ?cs v = tail cs v" using placedD(5)[OF p] g(2) by auto
      have "w = v" if "valid_id cs w" "tail ?cs w = tail ?cs v" for w
        using that v placedD(6)[OF p 2(1) that(1)] g(2)[OF that(1)] en(3)[OF v(1)] by (cases "w = u") auto
      then show ?thesis using v by simp
    qed
    then show "valid_id cs v" "tail ?cs v \<ge> 0" "\<And>w. valid_id cs w \<and> tail ?cs w = tail ?cs v \<Longrightarrow> w = v" by blast+
  next
    show "tail ?cs v \<ge> 0" if "valid_id cs v \<and> tail cs0 v \<ge> 0" for v
      using that placedD(7)[OF p] g(2) by auto
  next
    fix c assume c: "c < length cs" "ids ?cs c = {}"
    have "ids cs c = {} \<and> \<not> (tail cs u \<ge> 0 \<and> c = e)"
      using c(2) g(3)[of c] share uin by (auto split: if_splits)
    then show "mc_pos (?cs ! c) = -1" "mc_src (?cs ! c) = -1 \<or> mc_src (?cs ! c) \<in> clean_cells cs0"
      using placedD(8)[OF p c(1)] g by auto
  qed
qed


lemma give_cell_free:
  assumes p: "placed cs0 D cs" and u: "valid_id cs u" "u \<notin> D" and e: "free_cell cs e"
    and share: "tail cs u \<ge> 0 \<Longrightarrow> ids cs (nat (tail cs u)) \<noteq> {u}"
  shows "free_cell (give_cell u e cs) c \<longleftrightarrow> free_cell cs c \<and> c \<noteq> e"
    and "c \<noteq> e \<Longrightarrow> ids (give_cell u e cs) c = {} \<longleftrightarrow> ids cs c = {}"
proof -
  let ?cs = "give_cell u e cs"
  note tu = placedD(2)[OF p u(1)]
  note g = give_cell_nth[OF u(1) tu e]
  note r = valid_id_length[OF g(1)]
  have en: "e < length cs" "ids cs e = {}" "\<And>v. valid_id cs v \<Longrightarrow> tail cs v \<noteq> int e" using e by (auto simp: free_cell_def)
  have uin: "u \<in> ids cs (nat (tail cs u))" if "tail cs u \<ge> 0" using placedD(4)[OF p u(1) that] u(2) by blast
  show empty: "ids ?cs c = {} \<longleftrightarrow> ids cs c = {}" if "c \<noteq> e" for c
    using that g(3)[of c] uin share by auto
  show "free_cell ?cs c \<longleftrightarrow> free_cell cs c \<and> c \<noteq> e"
  proof (cases "c = e")
    case True
    have "tail ?cs u = int e" using g(2)[OF u(1)] by simp
    then have "\<not> free_cell ?cs e" using u(1) r by (auto simp: free_cell_def)
    then show ?thesis using True by simp
  next
    case False
    have "tail ?cs v \<noteq> int c \<longleftrightarrow> tail cs v \<noteq> int c" if "valid_id cs v" "ids cs c = {}" for v
      using g(2)[OF that(1)] False uin that(2) by (cases "v = u") auto
    then show ?thesis using False empty[OF False] by (auto simp: free_cell_def g(1) r)
  qed
qed

lemma give_cell_home:
  assumes p: "placed cs0 D cs" and u: "valid_id cs u" "u \<notin> D" and e: "free_cell cs e" and home: "at_home (tail cs ` D) cs"
  shows "at_home (tail (give_cell u e cs) ` insert u D) (give_cell u e cs)"
    and "v \<in> D \<Longrightarrow> tail (give_cell u e cs) v = tail cs v"
proof -
  note g = give_cell_nth[OF u(1) placedD(2)[OF p u(1)] e]
  show same: "tail (give_cell u e cs) v = tail cs v" if "v \<in> D" for v
    using g(2)[of v] placedD(5)[OF p that] u(2) that by auto
  have "tail (give_cell u e cs) ` insert u D = insert (int e) (tail cs ` D)"
    using same g(2)[OF u(1)] by (auto simp: image_iff)
  then show "at_home (tail (give_cell u e cs) ` insert u D) (give_cell u e cs)"
    using home by (auto simp: at_home_def g)
qed

lemma usable_cell_ok:
  assumes p: "placed cs0 D cs" and t0: "tails_ok cs0" and home: "at_home (tail cs ` D) cs" and seek: "seek_ok cs h e"
    and f: "first_id ub s = Some u" and u: "valid_id cs u" "u \<notin> D"
  shows "\<exists>cs' e'. usable_cell ub s (cs, e, mn, mx) = Some (cs', e', min mn (tail cs' u), max mx (tail cs' u)) \<and>
    placed cs0 (insert u D) cs' \<and> at_home (tail cs' ` insert u D) cs' \<and> (\<forall>v \<in> D. tail cs' v = tail cs v) \<and>
    (s + 1 < ub_n_seqs ub \<longrightarrow> seek_ok cs' h e')"
proof (cases "tail cs u \<ge> 0 \<and> ids cs (nat (tail cs u)) = {u}")
  case True
  have "usable_cell ub s (cs, e, mn, mx) = Some (cs, e, min mn (tail cs u), max mx (tail cs u))"
    using f u(1) owns_cell_placed[OF p u] True by (simp add: usable_cell_def Let_def min_def max_def)
  moreover have "placed cs0 (insert u D) cs" using placed_owner[OF p u(1)] True by simp
  moreover have "at_home (tail cs ` insert u D) cs" using home by (auto simp: at_home_def)
  ultimately show ?thesis using seek by blast
next
  case False
  note tu = placedD(2)[OF p u(1)]
  have share: "ids cs (nat (tail cs u)) \<noteq> {u}" if "tail cs u \<ge> 0" using False that by simp
  have uin: "u \<in> ids cs (nat (tail cs u))" if "tail cs u \<ge> 0" using placedD(4)[OF p u(1) that] u(2) by blast
  have "tail cs u = -1 \<or> (\<exists>v. valid_id cs v \<and> v \<noteq> u \<and> tail cs v = tail cs u)"
  proof (cases "tail cs u \<ge> 0")
    case True
    then obtain v where "v \<in> ids cs (nat (tail cs u))" "v \<noteq> u" using uin share by blast
    moreover have c: "nat (tail cs u) < length cs" using tu True by (auto simp: valid_id_def nat_less_iff)
    ultimately have "valid_id cs v" "tail cs v = int (nat (tail cs u))" using placedD(3)[OF p c] by blast+
    then show ?thesis using \<open>v \<noteq> u\<close> True by auto
  next
    case False
    then show ?thesis using tu by (auto simp: valid_id_def)
  qed
  then have "\<exists>c. free_cell cs c" by (rule free_exists[OF p u(1)])
  then have e: "free_cell cs e" using seek by (simp add: seek_ok_def)
  then have en: "e < length cs" "ids cs e = {}" "tail cs u \<noteq> int e" using u(1) by (auto simp: free_cell_def)
  let ?cs = "give_cell u e cs"
  note g = give_cell_nth[OF u(1) tu e]
  obtain cs1 where give: "(if mc_tail (cs ! nat u) \<ge> 0 then copy_tail u (mc_tail (cs ! nat u)) e cs else Some cs) = Some cs1"
    and cs1: "?cs = upd u (\<lambda>c. c\<lparr>mc_tail := int e\<rparr>) cs1"
  proof (cases "tail cs u \<ge> 0")
    case True
    then have "valid_id cs (tail cs u)" using tu by auto
    then show ?thesis using that True copy_tail_give[OF _ en(1) _ en(2) uin share] en(3) by (simp add: give_cell_def)
  qed (simp add: that give_cell_def)
  obtain e1 where e1: "seek_next (length ?cs) ?cs e = Some e1" "seek_ok ?cs h e1"
    using seek_step[OF seek e g(1) give_cell_free[OF p u e share]] by blast
  define e' where "e' = (if s + 1 < ub_n_seqs ub then e1 else e)"
  have e': "(if s + 1 < ub_n_seqs ub then seek_next (length ?cs) ?cs e else Some e) = Some e'"
    and seek': "s + 1 < ub_n_seqs ub \<longrightarrow> seek_ok ?cs h e'" using e1 by (simp_all add: e'_def)
  have at_e: "at cs e = Some (cs ! e)" using en(1) by (simp add: at_def)
  have owns: "owns_cell u cs (cs ! nat u) = Some False" using owns_cell_placed[OF p u] False by simp
  have cell: "mem_cell_at ?cs u = Some (?cs ! nat u)" using u(1) valid_id_length[OF g(1)] by simp
  have "usable_cell ub s (cs, e, mn, mx) = Some (?cs, e', if mn > tail ?cs u then tail ?cs u else mn, if mx < tail ?cs u then tail ?cs u else mx)"
    unfolding usable_cell_def prod.case f bind.bind_lunit mem_cell_at_in[OF u(1)] owns if_False at_e cell_is_empty_def en(2) give Let_def
      cs1[symmetric] e' by (simp add: cell)
  also have "\<dots> = Some (?cs, e', min mn (tail ?cs u), max mx (tail ?cs u))" by (simp add: min_def max_def)
  finally have "usable_cell ub s (cs, e, mn, mx) = Some (?cs, e', min mn (tail ?cs u), max mx (tail ?cs u))" .
  then show ?thesis
    using give_cell_placed[OF p t0 u e share] give_cell_home[OF p u e home] seek' by blast
qed

text \<open>The whole loop.\<close>

definition first_of :: "llama_ubatch \<Rightarrow> nat \<Rightarrow> llama_seq_id" where
  "first_of ub s = hd (ids_of ub s)"

lemma first_id_of: "slot_ubatch ub \<Longrightarrow> s < ub_n_seqs ub \<Longrightarrow> first_id ub s = Some (first_of ub s)"
  using slot_ubatchD(3,5)[of ub s] slot_ubatchD(4)[of ub s 0] by (simp add: first_id_def first_of_def hd_conv_nth)

lemma first_of_in: "slot_ubatch ub \<Longrightarrow> s < ub_n_seqs ub \<Longrightarrow> first_of ub s \<in> set (ids_of ub s)"
  using slot_ubatchD(5)[of ub s] by (simp add: first_of_def)

lemma first_of_eq:
  assumes "slot_ubatch ub" "s < ub_n_seqs ub" "t < ub_n_seqs ub" "first_of ub s = first_of ub t"
  shows "s = t"
  using slot_ubatchD(7)[OF assms(1,2,3)] first_of_in[OF assms(1,2)] first_of_in[OF assms(1,3)] assms(4) by auto

definition use_inv :: "llama_ubatch \<Rightarrow> nat \<Rightarrow> mem_cell list \<Rightarrow> nat \<Rightarrow> mem_cell list \<times> nat \<times> int \<times> int \<Rightarrow> bool" where
  "use_inv ub h cs0 s st \<longleftrightarrow> (case st of (cs, e, mn, mx) \<Rightarrow>
     placed cs0 (first_of ub ` {..<s}) cs \<and> at_home (tail cs ` first_of ub ` {..<s}) cs \<and>
     (s < ub_n_seqs ub \<longrightarrow> seek_ok cs h e) \<and> 0 \<le> mn \<and> mx < int (length cs0) \<and>
     (\<forall>t < s. mn \<le> tail cs (first_of ub t) \<and> tail cs (first_of ub t) \<le> mx))"

lemma usable_loop:
  assumes ub: "slot_ubatch ub" and ok: "state_ok cs0 used" and h: "h < length cs0"
    and rng: "\<And>s. s < ub_n_seqs ub \<Longrightarrow> valid_id cs0 (first_of ub s)" and e: "seek_ok cs0 h e"
  shows "\<exists>cs e' mn mx. foldM (usable_cell ub) [0..<ub_n_seqs ub] (cs0, e, int (length cs0) - 1, 0) = Some (cs, e', mn, mx) \<and>
    placed cs0 (first_of ub ` {..<ub_n_seqs ub}) cs \<and> at_home (tail cs ` first_of ub ` {..<ub_n_seqs ub}) cs \<and>
    0 \<le> mn \<and> mx < int (length cs0) \<and> (\<forall>t < ub_n_seqs ub. mn \<le> tail cs (first_of ub t) \<and> tail cs (first_of ub t) \<le> mx)"
proof -
  have t0: "tails_ok cs0" using ok by (simp add: state_ok_def)
  have "\<exists>st. foldM (usable_cell ub) [0..<ub_n_seqs ub] (cs0, e, int (length cs0) - 1, 0) = Some st \<and> use_inv ub h cs0 (ub_n_seqs ub) st"
  proof (rule foldM_upt)
    show "use_inv ub h cs0 0 (cs0, e, int (length cs0) - 1, 0)"
      using placed_start[OF ok] e h by (auto simp: use_inv_def)
    fix s st assume s: "s < ub_n_seqs ub" and I: "use_inv ub h cs0 s st"
    obtain cs e mn mx where st: "st = (cs, e, mn, mx)" by (cases st)
    let ?D = "first_of ub ` {..<s}" and ?u = "first_of ub s"
    have p: "placed cs0 ?D cs" and home: "at_home (tail cs ` ?D) cs" and seek: "seek_ok cs h e"
      and b: "0 \<le> mn" "mx < int (length cs0)" "\<And>t. t < s \<Longrightarrow> mn \<le> tail cs (first_of ub t) \<and> tail cs (first_of ub t) \<le> mx"
      using I s by (auto simp: use_inv_def st)
    have len: "length cs = length cs0" by (rule placedD(1)[OF p])
    have u: "valid_id cs ?u" using rng[OF s] valid_id_length[OF len] by simp
    have u': "?u \<notin> ?D"
    proof
      assume "?u \<in> ?D"
      then obtain t where "t < s" "?u = first_of ub t" by blast
      then show False using first_of_eq[OF ub s, of t] s by simp
    qed
    obtain cs' e' where step: "usable_cell ub s (cs, e, mn, mx) = Some (cs', e', min mn (tail cs' ?u), max mx (tail cs' ?u))"
      "placed cs0 (insert ?u ?D) cs'" "at_home (tail cs' ` insert ?u ?D) cs'" "\<forall>v \<in> ?D. tail cs' v = tail cs v"
      "s + 1 < ub_n_seqs ub \<longrightarrow> seek_ok cs' h e'"
      using usable_cell_ok[OF p t0 home seek first_id_of[OF ub s] u u', of mn mx] by blast
    have D: "first_of ub ` {..<Suc s} = insert ?u ?D" by (auto simp: lessThan_Suc)
    have tu: "valid_id cs' ?u \<and> tail cs' ?u \<ge> 0" "tail cs' ?u = -1 \<or> valid_id cs' (tail cs' ?u)"
      using placedD(5)[OF step(2), of ?u] placedD(2)[OF step(2), of ?u] by auto
    then have "0 \<le> tail cs' ?u" "tail cs' ?u < int (length cs0)" using placedD(1)[OF step(2)] by (auto simp: valid_id_def)
    moreover have "min mn (tail cs' ?u) \<le> tail cs' (first_of ub t) \<and> tail cs' (first_of ub t) \<le> max mx (tail cs' ?u)" if "t < Suc s" for t
      using b(3)[of t] step(4) that by (cases "t = s") (auto simp: min_def max_def)
    ultimately have "use_inv ub h cs0 (Suc s) (cs', e', min mn (tail cs' ?u), max mx (tail cs' ?u))"
      using step(2,3,5) b(1,2) unfolding use_inv_def D by auto
    then show "\<exists>st'. usable_cell ub s st = Some st' \<and> use_inv ub h cs0 (Suc s) st'" using step(1) st by blast
  qed
  then obtain cs e' mn mx where "foldM (usable_cell ub) [0..<ub_n_seqs ub] (cs0, e, int (length cs0) - 1, 0) = Some (cs, e', mn, mx)"
    "use_inv ub h cs0 (ub_n_seqs ub) (cs, e', mn, mx)" by (metis prod_cases4)
  then show ?thesis unfolding use_inv_def prod.case by blast
qed

end
