(* ===== verification/RecurrentGather.thy ===== *)
theory RecurrentGather
  imports RecurrentUse
begin

text \<open>
  The other loops of \<open>find_slot\<close>: the cells of the micro-batch are moved to the front of their range, get their
  sets of sequences and positions, and every cell of the range learns where its state comes from.
\<close>

section \<open>Exchanging cells\<close>

definition flip :: "int \<Rightarrow> int \<Rightarrow> int \<Rightarrow> int" where
  "flip a b t = (if t = b then a else if t = a then b else t)"

lemma flip_flip [simp]: "flip a b (flip a b t) = t"
  by (simp add: flip_def)

lemma flip_eq: "flip a b t = t' \<longleftrightarrow> t = flip a b t'"
  by (auto simp: flip_def)

lemma flip_valid: "valid_id cs a \<Longrightarrow> valid_id cs b \<Longrightarrow> valid_id cs (flip a b t) \<longleftrightarrow> valid_id cs t"
  by (auto simp: flip_def)

lemma swap_cells_ok:
  assumes a: "valid_id cs a" and b: "valid_id cs b" and ne: "a \<noteq> b"
  shows "\<exists>cs'. swap_cells a b cs = Some cs' \<and> length cs' = length cs \<and> (\<forall>c < length cs. let d = nat (flip a b (int c)) in
    ids cs' c = ids cs d \<and> mc_pos (cs' ! c) = mc_pos (cs ! d) \<and> mc_src (cs' ! c) = mc_src (cs ! d) \<and>
    mc_tail (cs' ! c) = flip a b (mc_tail (cs ! c)))"
proof -
  have nab: "nat a \<noteq> nat b" using a b ne by (auto simp: valid_id_def)
  let ?cs' = "map (\<lambda>c. c\<lparr>mc_tail := flip a b (mc_tail c)\<rparr>)
    (upd b (\<lambda>c. c\<lparr>mc_pos := mc_pos (cs ! nat a), mc_src := mc_src (cs ! nat a), mc_seq_id := mc_seq_id (cs ! nat a)\<rparr>)
      (upd a (\<lambda>c. c\<lparr>mc_pos := mc_pos (cs ! nat b), mc_src := mc_src (cs ! nat b), mc_seq_id := mc_seq_id (cs ! nat b)\<rparr>) cs))"
  have "swap_cells a b cs = Some ?cs'" using a b by (simp add: swap_cells_def Let_def flip_def)
  moreover have "let d = nat (flip a b (int c)) in
    ids ?cs' c = ids cs d \<and> mc_pos (?cs' ! c) = mc_pos (cs ! d) \<and> mc_src (?cs' ! c) = mc_src (cs ! d) \<and>
    mc_tail (?cs' ! c) = flip a b (mc_tail (cs ! c))" if c: "c < length cs" for c
  proof -
    consider "c = nat a" | "c = nat b" | "c \<noteq> nat a" "c \<noteq> nat b" by blast
    then show ?thesis
    proof cases
      case 1
      then have "int c = a" using a by (simp add: valid_id_def)
      then show ?thesis using 1 c a b nab ne by (simp add: nth_upd Let_def flip_def)
    next
      case 2
      then have "int c = b" using b by (simp add: valid_id_def)
      then show ?thesis using 2 c a b nab ne by (simp add: nth_upd Let_def flip_def)
    next
      case 3
      then have "int c \<noteq> a" "int c \<noteq> b" by auto
      then show ?thesis using 3 c a b by (simp add: nth_upd Let_def flip_def)
    qed
  qed
  ultimately show ?thesis by (intro exI[of _ ?cs']) simp
qed

lemma swap_placed:
  assumes p: "placed cs0 D cs" and a: "valid_id cs a" and b: "valid_id cs b" and len: "length cs' = length cs"
    and swap: "\<And>c. c < length cs \<Longrightarrow> let d = nat (flip a b (int c)) in
      ids cs' c = ids cs d \<and> mc_pos (cs' ! c) = mc_pos (cs ! d) \<and> mc_src (cs' ! c) = mc_src (cs ! d) \<and>
      mc_tail (cs' ! c) = flip a b (mc_tail (cs ! c))"
  shows "placed cs0 D cs'" and "valid_id cs u \<Longrightarrow> tail cs' u = flip a b (tail cs u)"
proof -
  note r = valid_id_length[OF len]
  have d: "nat (flip a b (int c)) < length cs \<and> int (nat (flip a b (int c))) = flip a b (int c)" if "c < length cs" for c
    using flip_valid[OF a b, of "int c"] that nat_valid_id by (simp add: valid_id_def nat_less_iff)
  have sw: "ids cs' c = ids cs (nat (flip a b (int c)))" "mc_pos (cs' ! c) = mc_pos (cs ! nat (flip a b (int c)))"
    "mc_src (cs' ! c) = mc_src (cs ! nat (flip a b (int c)))" if "c < length cs" for c
    using swap[OF that] by (simp_all add: Let_def)
  show tl: "tail cs' u = flip a b (tail cs u)" if "valid_id cs u" for u
    using swap[of "nat u"] nat_valid_id[OF that] by (simp add: Let_def)
  have neg: "flip a b t = -1 \<longleftrightarrow> t = -1" "0 \<le> flip a b t \<longleftrightarrow> 0 \<le> t" for t
    using a b by (auto simp: flip_def valid_id_def)
  have at: "ids cs' (nat (flip a b t)) = ids cs (nat t)" if "valid_id cs t" for t
  proof -
    have "valid_id cs (flip a b t)" using flip_valid[OF a b] that by simp
    then show ?thesis using sw(1)[of "nat (flip a b t)"] nat_valid_id by simp
  qed
  show "placed cs0 D cs'"
    unfolding placed_def len r
  proof (intro conjI allI impI ballI)
    show "length cs = length cs0" by (rule placedD(1)[OF p])
    show "tail cs' u = -1 \<or> valid_id cs (tail cs' u)" if "valid_id cs u" for u
      using placedD(2)[OF p that] tl[OF that] flip_valid[OF a b] neg by auto
  next
    fix c u assume c: "c < length cs" and u: "u \<in> ids cs' c"
    let ?d = "nat (flip a b (int c))"
    have "u \<in> ids cs ?d" using u sw(1)[OF c] by simp
    note q = placedD(3)[OF p conjunct1[OF d[OF c]] this]
    then show "valid_id cs u" "tail cs0 u \<ge> 0" "mc_src (cs' ! c) = tail cs0 u" "mc_pos (cs' ! c) = mc_pos (cs0 ! nat (tail cs0 u))"
      using sw[OF c] by auto
    show "tail cs' u = int c" using q tl[of u] d[OF c] by (simp add: flip_eq)
  next
    fix u assume u: "valid_id cs u \<and> tail cs' u \<ge> 0"
    then have t: "tail cs u \<ge> 0" "valid_id cs (tail cs u)" using tl[of u] neg placedD(2)[OF p, of u] by auto
    show "u \<in> ids cs' (nat (tail cs' u)) \<or> u \<in> D \<and> tail cs0 u = -1 \<and> ids cs' (nat (tail cs' u)) = {}"
      using placedD(4)[OF p _ t(1)] u tl[of u] at[OF t(2)] by simp
  next
    fix u assume u: "u \<in> D"
    then have v: "valid_id cs u" "tail cs u \<ge> 0" using placedD(5)[OF p] by auto
    show "valid_id cs u" "tail cs' u \<ge> 0" using v tl[OF v(1)] neg by auto
    fix w assume "valid_id cs w \<and> tail cs' w = tail cs' u"
    then show "w = u" using placedD(6)[OF p u, of w] tl[of w] tl[OF v(1)] by (simp add: flip_eq)
  next
    show "tail cs' u \<ge> 0" if "valid_id cs u \<and> tail cs0 u \<ge> 0" for u
      using that placedD(7)[OF p, of u] tl[of u] neg by auto
  next
    fix c assume c: "c < length cs" "ids cs' c = {}"
    then have "ids cs (nat (flip a b (int c))) = {}" using sw(1) by simp
    from placedD(8)[OF p conjunct1[OF d[OF c(1)]] this]
    show "mc_pos (cs' ! c) = -1" "mc_src (cs' ! c) = -1 \<or> mc_src (cs' ! c) \<in> clean_cells cs0" using sw[OF c(1)] by auto
  qed
qed

section \<open>Gathering\<close>

definition gather_inv :: "llama_ubatch \<Rightarrow> mem_cell list \<Rightarrow> int \<Rightarrow> int \<Rightarrow> nat \<Rightarrow> mem_cell list \<Rightarrow> bool" where
  "gather_inv ub cs0 mn mx s cs \<longleftrightarrow> placed cs0 (first_of ub ` {..<ub_n_seqs ub}) cs \<and> at_home {mn..mx} cs \<and>
     (\<forall>t < ub_n_seqs ub. mn \<le> tail cs (first_of ub t) \<and> tail cs (first_of ub t) \<le> mx) \<and>
     (\<forall>t < s. tail cs (first_of ub t) = mn + int t)"

lemma range_size:
  assumes ub: "slot_ubatch ub" and p: "placed cs0 (first_of ub ` {..<ub_n_seqs ub}) cs"
    and b: "\<And>t. t < ub_n_seqs ub \<Longrightarrow> mn \<le> tail cs (first_of ub t) \<and> tail cs (first_of ub t) \<le> mx"
  shows "mn + int (ub_n_seqs ub) \<le> mx + 1"
proof -
  have inj: "inj_on (\<lambda>t. tail cs (first_of ub t)) {..<ub_n_seqs ub}"
  proof (rule inj_onI)
    fix s t assume s: "s \<in> {..<ub_n_seqs ub}" and t: "t \<in> {..<ub_n_seqs ub}" and eq: "tail cs (first_of ub s) = tail cs (first_of ub t)"
    have "first_of ub s = first_of ub t" using placedD(6)[OF p, of "first_of ub t" "first_of ub s"] placedD(5)[OF p, of "first_of ub s"] s t eq by auto
    then show "s = t" using first_of_eq[OF ub, of s t] s t by simp
  qed
  have "ub_n_seqs ub = card ((\<lambda>t. tail cs (first_of ub t)) ` {..<ub_n_seqs ub})" using card_image[OF inj] by simp
  also have "\<dots> \<le> card {mn..mx}" by (rule card_mono) (use b in auto)
  finally have "ub_n_seqs ub \<le> nat (mx - mn + 1)" by simp
  moreover have "0 < ub_n_seqs ub" using ub by (simp add: slot_ubatch_def)
  ultimately show ?thesis by linarith
qed

lemma gather_loop:
  assumes ub: "slot_ubatch ub" and I: "gather_inv ub cs0 mn mx 0 cs" and mn: "0 \<le> mn" and mx: "mx < int (length cs0)"
  shows "\<exists>cs'. foldM (gather_cell ub mn) [0..<ub_n_seqs ub] cs = Some cs' \<and> gather_inv ub cs0 mn mx (ub_n_seqs ub) cs'"
proof (rule foldM_upt[where P = "gather_inv ub cs0 mn mx", OF I])
  fix s cs assume s: "s < ub_n_seqs ub" and I: "gather_inv ub cs0 mn mx s cs"
  let ?D = "first_of ub ` {..<ub_n_seqs ub}" and ?u = "first_of ub s" and ?dst = "int s + mn"
  have p: "placed cs0 ?D cs" and home: "at_home {mn..mx} cs"
    and b: "\<And>t. t < ub_n_seqs ub \<Longrightarrow> mn \<le> tail cs (first_of ub t) \<and> tail cs (first_of ub t) \<le> mx"
    and front: "\<And>t. t < s \<Longrightarrow> tail cs (first_of ub t) = mn + int t" using I by (auto simp: gather_inv_def)
  have len: "length cs = length cs0" by (rule placedD(1)[OF p])
  have D: "first_of ub t \<in> ?D" if "t < ub_n_seqs ub" for t using that by blast
  have v: "valid_id cs (first_of ub t)" if "t < ub_n_seqs ub" for t using placedD(5)[OF p D[OF that]] by simp
  have dst: "mn \<le> ?dst" "?dst \<le> mx" using range_size[OF ub p b] s by linarith+
  have vd: "valid_id cs ?dst" "valid_id cs (tail cs ?u)" using dst b[OF s] mn mx len by (auto simp: valid_id_def)
  show "\<exists>cs'. gather_cell ub mn s cs = Some cs' \<and> gather_inv ub cs0 mn mx (Suc s) cs'"
  proof (cases "?dst = tail cs ?u")
    case True
    then have "gather_cell ub mn s cs = Some cs" using first_id_of[OF ub s] v[OF s] by (simp add: gather_cell_def Let_def)
    moreover have "tail cs (first_of ub t) = mn + int t" if "t < Suc s" for t using that front True by (cases "t = s") auto
    ultimately show ?thesis using I by (auto simp: gather_inv_def)
  next
    case False
    obtain cs' where sw: "swap_cells ?dst (tail cs ?u) cs = Some cs'" "length cs' = length cs"
      "\<forall>c < length cs. let d = nat (flip ?dst (tail cs ?u) (int c)) in
        ids cs' c = ids cs d \<and> mc_pos (cs' ! c) = mc_pos (cs ! d) \<and> mc_src (cs' ! c) = mc_src (cs ! d) \<and>
        mc_tail (cs' ! c) = flip ?dst (tail cs ?u) (mc_tail (cs ! c))"
      using swap_cells_ok[OF vd False] by blast
    have p': "placed cs0 ?D cs'" and tl: "\<And>u. valid_id cs u \<Longrightarrow> tail cs' u = flip ?dst (tail cs ?u) (tail cs u)"
      using swap_placed[OF p vd sw(2)] sw(3) by blast+
    have "gather_cell ub mn s cs = Some cs'" using first_id_of[OF ub s] v[OF s] sw(1) False by (simp add: gather_cell_def Let_def)
    moreover have "at_home {mn..mx} cs'"
      unfolding at_home_def sw(2)
    proof (intro allI impI)
      fix c assume c: "c < length cs" "int c \<notin> {mn..mx}"
      then have "flip ?dst (tail cs ?u) (int c) = int c" using dst b[OF s] by (auto simp: flip_def)
      then have "mc_src (cs' ! c) = mc_src (cs ! c)" using sw(3) c(1) by (simp add: Let_def)
      then show "mc_src (cs' ! c) = -1 \<or> mc_src (cs' ! c) = int c" using home c by (auto simp: at_home_def)
    qed
    moreover have "mn \<le> tail cs' (first_of ub t) \<and> tail cs' (first_of ub t) \<le> mx" if "t < ub_n_seqs ub" for t
      using tl[OF v[OF that]] b[OF that] b[OF s] dst by (auto simp: flip_def)
    moreover have "tail cs' (first_of ub t) = mn + int t" if t: "t < Suc s" for t
    proof (cases "t = s")
      case True
      then show ?thesis using tl[OF v[OF s]] by (simp add: flip_def)
    next
      case False
      then have t: "t < s" "t < ub_n_seqs ub" using that s by simp_all
      have "tail cs (first_of ub t) \<noteq> tail cs ?u"
        using placedD(6)[OF p D[OF s] v[OF t(2)]] first_of_eq[OF ub t(2) s] False by auto
      then show ?thesis using tl[OF v[OF t(2)]] front[OF t(1)] t(1) by (simp add: flip_def)
    qed
    ultimately show ?thesis using p' by (auto simp: gather_inv_def)
  qed
qed

end
