(* ===== verification/RecurrentSettle.thy ===== *)
theory RecurrentSettle
  imports RecurrentGather
begin

text \<open>The last loops of \<open>find_slot\<close>: the sets and positions of the cells, and the sources of their states.\<close>

section \<open>Settling\<close>

lemma settle_ids_ok:
  assumes c: "valid_id cs cell" and n: "n \<le> length L" and v: "\<And>u. u \<in> set (take n L) \<Longrightarrow> valid_id cs u"
  shows "\<exists>cs'. foldM (settle_id L cell) [0..<n] cs = Some cs' \<and> length cs' = length cs \<and> (\<forall>j < length cs.
    mc_tail (cs' ! j) = (if int j \<in> set (take n L) then cell else mc_tail (cs ! j)) \<and>
    ids cs' j = (if j = nat cell then ids cs j \<union> set (take n L) else ids cs j) \<and>
    mc_pos (cs' ! j) = mc_pos (cs ! j) \<and> mc_src (cs' ! j) = mc_src (cs ! j))"
proof -
  let ?P = "\<lambda>k cs'. length cs' = length cs \<and> (\<forall>j < length cs.
    mc_tail (cs' ! j) = (if int j \<in> set (take k L) then cell else mc_tail (cs ! j)) \<and>
    ids cs' j = (if j = nat cell then ids cs j \<union> set (take k L) else ids cs j) \<and>
    mc_pos (cs' ! j) = mc_pos (cs ! j) \<and> mc_src (cs' ! j) = mc_src (cs ! j))"
  show ?thesis
  proof (rule foldM_upt[where P = ?P])
    fix k cs1 assume k: "k < n" and P: "?P k cs1"
    have kL: "k < length L" using k n by simp
    have tk: "take (Suc k) L = take k L @ [L ! k]" by (rule take_Suc_conv_app_nth[OF kL])
    have "L ! k \<in> set (take n L)" using k kL by (auto simp: in_set_conv_nth intro!: exI[of _ k])
    then have vu: "valid_id cs1 (L ! k)" "valid_id cs1 cell" using v c P by (auto simp: valid_id_def)
    let ?cs2 = "upd (L ! k) (\<lambda>c. c\<lparr>mc_tail := cell\<rparr>) (upd cell (\<lambda>c. c\<lparr>mc_seq_id := insert (L ! k) (mc_seq_id c)\<rparr>) cs1)"
    have "settle_id L cell k cs1 = Some ?cs2" using kL vu by (simp add: settle_id_def at_def Let_def)
    moreover have "?P (Suc k) ?cs2"
    proof (intro conjI allI impI)
      fix j assume j: "j < length cs"
      have "int j = L ! k \<longleftrightarrow> j = nat (L ! k)" using vu(1) by (auto simp: valid_id_def)
      then show "mc_tail (?cs2 ! j) = (if int j \<in> set (take (Suc k) L) then cell else mc_tail (cs ! j))"
      proof -
        have "mc_tail (?cs2 ! j) = (if j = nat (L ! k) then cell else mc_tail (cs1 ! j))" using vu by (simp add: nth_upd)
        moreover have "mc_tail (cs1 ! j) = (if int j \<in> set (take k L) then cell else mc_tail (cs ! j))" using P j by blast
        ultimately show ?thesis using \<open>int j = L ! k \<longleftrightarrow> j = nat (L ! k)\<close> unfolding tk by simp
      qed
      show "ids ?cs2 j = (if j = nat cell then ids cs j \<union> set (take (Suc k) L) else ids cs j)"
        "mc_pos (?cs2 ! j) = mc_pos (cs ! j)" "mc_src (?cs2 ! j) = mc_src (cs ! j)"
        using vu P j unfolding tk by (simp_all add: nth_upd)
    qed (use P in simp)
    ultimately show "\<exists>cs2. settle_id L cell k cs1 = Some cs2 \<and> ?P (Suc k) cs2" by blast
  qed simp
qed

text \<open>The cells \<open>cs'\<close> in which the first \<open>s\<close> cells of the range have been settled.\<close>

definition settled :: "llama_ubatch \<Rightarrow> int \<Rightarrow> nat \<Rightarrow> mem_cell list \<Rightarrow> mem_cell list \<Rightarrow> bool" where
  "settled ub mn s cs cs' \<longleftrightarrow> length cs' = length cs \<and>
     (\<forall>u. valid_id cs u \<longrightarrow> (\<forall>t < s. u \<in> set (ids_of ub t) \<longrightarrow> tail cs' u = mn + int t) \<and>
        ((\<forall>t < s. u \<notin> set (ids_of ub t)) \<longrightarrow> tail cs' u = tail cs u)) \<and>
     (\<forall>t < s. ids cs' (nat mn + t) = set (ids_of ub t) \<and> mc_pos (cs' ! (nat mn + t)) = last_pos ub t) \<and>
     (\<forall>c < length cs. (\<forall>t < s. c \<noteq> nat mn + t) \<longrightarrow> ids cs' c = ids cs c \<and> mc_pos (cs' ! c) = mc_pos (cs ! c)) \<and>
     (\<forall>c < length cs. mc_src (cs' ! c) = mc_src (cs ! c))"

lemma settle_cell_ok:
  assumes ub: "slot_ubatch ub" "s < ub_n_seqs ub" and mn: "0 \<le> mn" and cell: "valid_id cs (mn + int s)"
    and v: "\<And>u. u \<in> set (ids_of ub s) \<Longrightarrow> valid_id cs u" and S: "settled ub mn s cs cs1"
  shows "\<exists>cs2. settle_cell ub mn s cs1 = Some cs2 \<and> settled ub mn (Suc s) cs cs2"
proof -
  let ?L = "ub_seq_id ub ! first_token ub s" and ?n = "ub_n_seq_id ub ! first_token ub s" and ?c = "int s + mn"
  have sl: "slot_seq ub s" and nst: "0 < ub_n_seq_tokens ub" using ub by (auto simp: slot_ubatch_def)
  have len: "length cs1 = length cs" using S by (simp add: settled_def)
  note r = valid_id_length[OF len]
  have nc: "nat ?c = nat mn + s" using mn by simp
  let ?cs1 = "upd ?c (\<lambda>c. c\<lparr>mc_pos := last_pos ub s, mc_seq_id := {}\<rparr>) cs1"
  have vc: "valid_id cs1 ?c" "valid_id ?cs1 ?c" using cell r by (simp_all add: add.commute)
  have nL: "?n \<le> length ?L" and ids: "ids_of ub s = take ?n ?L" using sl by (auto simp: slot_seq_def ids_of_def)
  have vu: "valid_id ?cs1 u" if "u \<in> set (take ?n ?L)" for u using v[of u] that r ids by simp
  obtain cs2 where cs2: "foldM (settle_id ?L ?c) [0..<?n] ?cs1 = Some cs2" "length cs2 = length ?cs1"
    "\<forall>j < length ?cs1. mc_tail (cs2 ! j) = (if int j \<in> set (take ?n ?L) then ?c else mc_tail (?cs1 ! j)) \<and>
      ids cs2 j = (if j = nat ?c then ids ?cs1 j \<union> set (take ?n ?L) else ids ?cs1 j) \<and>
      mc_pos (cs2 ! j) = mc_pos (?cs1 ! j) \<and> mc_src (cs2 ! j) = mc_src (?cs1 ! j)"
    using settle_ids_ok[OF vc(2) nL vu] by blast
  have "settle_cell ub mn s cs1 = foldM (settle_id ?L ?c) [0..<?n] ?cs1"
  proof -
    have "first_token ub s + ub_n_seq_tokens ub - 1 < length (ub_pos ub)" using sl nst unfolding slot_seq_def by linarith
    then have "at (ub_pos ub) (first_token ub s + ub_n_seq_tokens ub - 1) = Some (last_pos ub s)" by (simp add: at_def last_pos_def)
    moreover have "at (ub_n_seq_id ub) (first_token ub s) = Some ?n" "at (ub_seq_id ub) (first_token ub s) = Some ?L"
      using sl by (simp_all add: slot_seq_def at_def)
    ultimately show ?thesis using nst vc(1) unfolding settle_cell_def Let_def by simp
  qed
  then have step: "settle_cell ub mn s cs1 = Some cs2" using cs2(1) by simp
  have c2: "length cs2 = length cs" using cs2(2) len by simp
  have q: "mc_tail (cs2 ! j) = (if int j \<in> set (ids_of ub s) then ?c else mc_tail (cs1 ! j))"
    "ids cs2 j = (if j = nat mn + s then set (ids_of ub s) else ids cs1 j)"
    "mc_pos (cs2 ! j) = (if j = nat mn + s then last_pos ub s else mc_pos (cs1 ! j))"
    "mc_src (cs2 ! j) = mc_src (cs1 ! j)" if "j < length cs" for j
    using cs2(3) that len vc(1) nc ids by (auto simp: nth_upd)
  have bound: "nat mn + t < length cs" if "t \<le> s" for t using cell that mn by (auto simp: valid_id_def)
  have dis: "u \<notin> set (ids_of ub s)" if "u \<in> set (ids_of ub t)" "t < s" for u t
    using slot_ubatchD(7)[OF ub, of t] ub(2) that by auto
  have "settled ub mn (Suc s) cs cs2"
    unfolding settled_def
  proof (intro conjI allI impI)
    fix u t assume u: "valid_id cs u" and t: "t < Suc s" "u \<in> set (ids_of ub t)"
    show "tail cs2 u = mn + int t"
    proof (cases "t = s")
      case True
      then show ?thesis using q(1)[of "nat u"] nat_valid_id[OF u] t(2) by simp
    next
      case False
      then have "tail cs1 u = mn + int t" using S u t by (auto simp: settled_def)
      moreover have "u \<notin> set (ids_of ub s)" using dis[OF t(2)] t(1) False by simp
      ultimately show ?thesis using q(1)[of "nat u"] nat_valid_id[OF u] by simp
    qed
  next
    fix u assume u: "valid_id cs u" and t: "\<forall>t < Suc s. u \<notin> set (ids_of ub t)"
    then have "tail cs1 u = tail cs u" using S by (auto simp: settled_def)
    then show "tail cs2 u = tail cs u" using q(1)[of "nat u"] nat_valid_id[OF u] t by simp
  next
    fix t assume t: "t < Suc s"
    then have b: "nat mn + t < length cs" using bound by simp
    show "ids cs2 (nat mn + t) = set (ids_of ub t)" "mc_pos (cs2 ! (nat mn + t)) = last_pos ub t"
      using q(2,3)[OF b] S t by (auto simp: settled_def less_Suc_eq)
  next
    fix c assume c: "c < length cs" and t: "\<forall>t < Suc s. c \<noteq> nat mn + t"
    then show "ids cs2 c = ids cs c" "mc_pos (cs2 ! c) = mc_pos (cs ! c)"
      using q(2,3)[OF c] S by (auto simp: settled_def)
  next
    fix c assume c: "c < length cs"
    then show "mc_src (cs2 ! c) = mc_src (cs ! c)" using q(4)[OF c] S by (simp add: settled_def)
  qed (rule c2)
  then show ?thesis using step by blast
qed

lemma settle_loop:
  assumes ub: "slot_ubatch ub" and mn: "0 \<le> mn" and cell: "\<And>s. s < ub_n_seqs ub \<Longrightarrow> valid_id cs (mn + int s)"
    and v: "\<And>s u. s < ub_n_seqs ub \<Longrightarrow> u \<in> set (ids_of ub s) \<Longrightarrow> valid_id cs u"
  shows "\<exists>cs'. foldM (settle_cell ub mn) [0..<ub_n_seqs ub] cs = Some cs' \<and> settled ub mn (ub_n_seqs ub) cs cs'"
proof (rule foldM_upt[where P = "\<lambda>s. settled ub mn s cs"])
  show "settled ub mn 0 cs cs" by (simp add: settled_def)
  show "\<And>s cs'. s < ub_n_seqs ub \<Longrightarrow> settled ub mn s cs cs' \<Longrightarrow> \<exists>cs2. settle_cell ub mn s cs' = Some cs2 \<and> settled ub mn (Suc s) cs cs2"
    by (rule settle_cell_ok[OF ub _ mn cell v])
qed

section \<open>The zero state\<close>

lemma zero_cell_cases:
  "zero_cell cs mn mx = -1 \<and> (\<forall>i \<in> {mn..mx}. refcount cs i \<noteq> 0) \<or>
   zero_cell cs mn mx \<in> {mn..mx} \<and> refcount cs (zero_cell cs mn mx) = 0"
proof (cases "find (\<lambda>i. refcount cs i = 0) [mn..mx]")
  case None
  then have "zero_cell cs mn mx = -1" by (simp only: zero_cell_def option.case)
  moreover have "\<forall>i \<in> {mn..mx}. refcount cs i \<noteq> 0" using None by (auto simp: find_None_iff)
  ultimately show ?thesis by blast
next
  case (Some i)
  then obtain k where "k < length [mn..mx]" "refcount cs ([mn..mx] ! k) = 0" "i = [mn..mx] ! k" unfolding find_Some_iff by blast
  then have "i \<in> set [mn..mx] \<and> refcount cs i = 0" using nth_mem by blast
  then show ?thesis using Some by (simp add: zero_cell_def)
qed

lemma refcount_0: "refcount cs i = 0 \<longleftrightarrow> (\<forall>c < length cs. mc_src (cs ! c) \<noteq> i)"
  by (auto simp: refcount_def filter_empty_conv all_set_conv_all_nth)

text \<open>If a cell of the range has no source there is a cell of the range that is no source.\<close>

lemma zero_cell_found:
  assumes home: "at_home {mn..mx} cs" and mn: "0 \<le> mn" and mx: "mx < int (length cs)"
    and c: "mn \<le> int c" "int c \<le> mx" "mc_src (cs ! c) < 0"
  shows "0 \<le> zero_cell cs mn mx"
proof (rule ccontr)
  assume "\<not> ?thesis"
  then have ref: "\<And>i. i \<in> {mn..mx} \<Longrightarrow> refcount cs i \<noteq> 0" using zero_cell_cases[of cs mn mx] mn by auto
  have "{mn..mx} \<subseteq> (\<lambda>j. mc_src (cs ! nat j)) ` ({mn..mx} - {int c})"
  proof
    fix i assume i: "i \<in> {mn..mx}"
    then obtain d where d: "d < length cs" "mc_src (cs ! d) = i" using ref[OF i] by (auto simp: refcount_0)
    have "int d \<in> {mn..mx}" using home d i mn by (auto simp: at_home_def)
    moreover have "d \<noteq> c" using c(3) d(2) i mn by auto
    ultimately show "i \<in> (\<lambda>j. mc_src (cs ! nat j)) ` ({mn..mx} - {int c})"
      using d(2) by (intro image_eqI[of _ _ "int d"]) auto
  qed
  then have "card {mn..mx} \<le> card ((\<lambda>j. mc_src (cs ! nat j)) ` ({mn..mx} - {int c}))" by (intro card_mono) auto
  also have "\<dots> \<le> card ({mn..mx} - {int c})" by (rule card_image_le) simp
  also have "\<dots> < card {mn..mx}" by (rule card_Diff1_less) (use c in auto)
  finally show False by simp
qed

section \<open>Staging\<close>

definition staged :: "int \<Rightarrow> int \<Rightarrow> mem_cell \<Rightarrow> mem_cell" where
  "staged z i c = c\<lparr>mc_src0 := (if mc_src c < 0 then z else mc_src c), mc_src := i\<rparr>"

lemma stage_loop:
  assumes "distinct is" "\<And>i. i \<in> set is \<Longrightarrow> valid_id cs i" "\<And>i. i \<in> set is \<Longrightarrow> mc_src (cs ! nat i) < 0 \<Longrightarrow> z \<ge> 0"
  shows "\<exists>cs'. foldM (stage_cell z) is cs = Some cs' \<and> length cs' = length cs \<and>
    (\<forall>j < length cs. cs' ! j = (if int j \<in> set is then staged z (int j) (cs ! j) else cs ! j))"
  using assms
proof (induction "is" arbitrary: cs)
  case (Cons i "is")
  let ?cs = "upd i (staged z i) cs"
  have v: "valid_id cs i" using Cons.prems(2) by simp
  have step: "stage_cell z i cs = Some ?cs"
    using v Cons.prems(3)[of i] by (simp add: stage_cell_def upd_def staged_def nat_valid_id)
  have other: "?cs ! nat k = cs ! nat k" if "k \<in> set is" for k
  proof -
    have "valid_id cs k" "k \<noteq> i" using Cons.prems(1,2) that by auto
    then have "nat k \<noteq> nat i" using v by (auto simp: valid_id_def)
    then show ?thesis using v by (simp add: nth_upd)
  qed
  obtain cs' where cs': "foldM (stage_cell z) is ?cs = Some cs'" "length cs' = length cs"
    "\<forall>j < length cs. cs' ! j = (if int j \<in> set is then staged z (int j) (?cs ! j) else ?cs ! j)"
    using Cons.IH[of ?cs] Cons.prems other by auto
  have "cs' ! j = (if int j \<in> set (i # is) then staged z (int j) (cs ! j) else cs ! j)" if j: "j < length cs" for j
  proof -
    have "int j = i \<longleftrightarrow> j = nat i" using v by (auto simp: valid_id_def)
    moreover have "i \<notin> set is" using Cons.prems(1) by simp
    moreover have "?cs ! j = (if j = nat i then staged z i (cs ! j) else cs ! j)" by (rule nth_upd[OF v])
    ultimately show ?thesis using cs'(3) j by auto
  qed
  then show ?case using step cs' by auto
qed simp

end
