(* ===== verification/RecurrentFind.thy ===== *)
theory RecurrentFind
  imports RecurrentSettle
begin

text \<open>
  What \<open>find_slot\<close> does to the recurrent memory: it never aborts, keeps the invariant, puts the sets of
  the micro-batch side by side, keeps the other sequences, and names for every cell of the range the place its
  state was at.
\<close>

section \<open>A run of the loops\<close>

definition slot_run ::
  "llama_ubatch \<Rightarrow> mem_cell list \<Rightarrow> mem_cell list \<Rightarrow> int \<Rightarrow> int \<Rightarrow> mem_cell list \<Rightarrow> mem_cell list \<Rightarrow> mem_cell list \<Rightarrow> bool" where
  "slot_run ub cs cs1 mn mx cs3 cs4 cs5 \<longleftrightarrow>
     slot_ubatch ub \<and> tails_ok cs \<and> (\<exists>used1. state_ok cs1 used1) \<and> departed cs (claimed ub (ub_n_seqs ub)) cs1 \<and>
     (\<forall>s < ub_n_seqs ub. \<forall>u \<in> set (ids_of ub s). valid_id cs u) \<and> gather_inv ub cs1 mn mx (ub_n_seqs ub) cs3 \<and>
     0 \<le> mn \<and> mx < int (length cs) \<and> settled ub mn (ub_n_seqs ub) cs3 cs4 \<and> length cs5 = length cs \<and>
     (\<forall>c < length cs. cs5 ! c = (if mn \<le> int c \<and> int c \<le> mx then staged (zero_cell cs4 mn mx) (int c) (cs4 ! c) else cs4 ! c))"

lemma find_slot_run:
  assumes ok: "rec_ok mr" and ub: "slot_ubatch ub"
    and rng: "\<And>s u. s < ub_n_seqs ub \<Longrightarrow> u \<in> set (ids_of ub s) \<Longrightarrow> valid_id (rs_cells mr) u"
  shows "\<exists>cs1 mn mx cs3 cs4 cs5. slot_run ub (rs_cells mr) cs1 mn mx cs3 cs4 cs5 \<and>
    rec_find_slot ub mr = Some (True, mr\<lparr>rs_cells := cs5, rs_z := zero_cell cs4 mn mx, rs_head := nat mn,
      rs_n := nat (mx - mn + 1), rs_used := of_nat (occupied cs5)\<rparr>)"
proof -
  let ?cs = "rs_cells mr" and ?n = "ub_n_seqs ub"
  let ?mr = "if of_nat (rs_head mr) > rs_used mr + 2 * of_nat ?n then mr\<lparr>rs_head := 0\<rparr> else mr"
  have st: "state_ok ?cs (rs_used mr)" and h: "rs_head mr < length ?cs" and N: "length ?cs < 2 ^ 31" and t: "tails_ok ?cs"
    using ok by (auto simp: rec_ok_def state_ok_def)
  have n: "0 < ?n" "ub_equal_seqs ub" using ub by (auto simp: slot_ubatch_def)
  obtain b cs1 used1 U where cl: "foldM (claim_set ub) [0..<?n] (True, ?cs, rs_used mr) = Some (b, cs1, used1)" "state_ok cs1 used1"
    "b \<longleftrightarrow> (\<forall>s < ?n. \<forall>u \<in> set (ids_of ub s). valid_id ?cs u)" "departed ?cs U cs1" "b \<longrightarrow> U = claimed ub ?n"
    using claims_ok[OF ub st] by blast
  have b: "b" using cl(3) rng by blast
  then have dep: "departed ?cs (claimed ub ?n) cs1" using cl(4,5) by simp
  have len1: "length cs1 = length ?cs" using dep by (simp add: departed_def)
  note r1 = valid_id_length[OF len1]
  have t1: "tails_ok cs1" using cl(2) by (simp add: state_ok_def)
  have h1: "rs_head ?mr < length cs1" using h len1 by auto
  obtain e where e: "seek_empty (length cs1) cs1 (rs_head ?mr) = Some e" "seek_ok cs1 (rs_head ?mr) e"
    using seek_start[OF t1 h1] by blast
  have v1: "valid_id cs1 (first_of ub s)" if "s < ?n" for s using rng[OF that first_of_in[OF ub that]] r1 by simp
  obtain cs2 e2 mn mx where use: "foldM (usable_cell ub) [0..<?n] (cs1, e, int (length cs1) - 1, 0) = Some (cs2, e2, mn, mx)"
    "placed cs1 (first_of ub ` {..<?n}) cs2" "at_home (tail cs2 ` first_of ub ` {..<?n}) cs2" "0 \<le> mn" "mx < int (length cs1)"
    "\<forall>t < ?n. mn \<le> tail cs2 (first_of ub t) \<and> tail cs2 (first_of ub t) \<le> mx"
    using usable_loop[OF ub cl(2) h1 v1 e(2)] by blast
  have "at_home {mn..mx} cs2" using use(3,6) by (auto simp: at_home_def)
  then have "gather_inv ub cs1 mn mx 0 cs2" using use(2,6) by (simp add: gather_inv_def)
  then obtain cs3 where g: "foldM (gather_cell ub mn) [0..<?n] cs2 = Some cs3" "gather_inv ub cs1 mn mx ?n cs3"
    using gather_loop[OF ub _ use(4,5)] by blast
  have p3: "placed cs1 (first_of ub ` {..<?n}) cs3" and home3: "at_home {mn..mx} cs3"
    and b3: "\<And>t. t < ?n \<Longrightarrow> mn \<le> tail cs3 (first_of ub t) \<and> tail cs3 (first_of ub t) \<le> mx"
    using g(2) by (auto simp: gather_inv_def)
  have len3: "length cs3 = length cs1" by (rule placedD(1)[OF p3])
  note r3 = valid_id_length[OF len3]
  have sz: "mn + int ?n \<le> mx + 1" by (rule range_size[OF ub p3 b3])
  have vc: "valid_id cs3 (mn + int s)" if "s < ?n" for s using that sz use(4,5) len3 by (auto simp: valid_id_def)
  have vu: "valid_id cs3 u" if "s < ?n" "u \<in> set (ids_of ub s)" for s u using rng[OF that] r1 r3 by simp
  have "\<exists>cs4. foldM (settle_cell ub mn) [0..<?n] cs3 = Some cs4 \<and> settled ub mn ?n cs3 cs4"
    by (rule settle_loop[OF ub use(4) vc vu])
  then obtain cs4 where s4: "foldM (settle_cell ub mn) [0..<?n] cs3 = Some cs4" "settled ub mn ?n cs3 cs4" by blast
  have len4: "length cs4 = length ?cs" using s4(2) len3 len1 by (simp add: settled_def)
  have src4: "mc_src (cs4 ! c) = mc_src (cs3 ! c)" if "c < length cs4" for c using s4(2) that len4 len3 len1 by (simp add: settled_def)
  have home4: "at_home {mn..mx} cs4" using home3 src4 len4 len3 len1 by (simp add: at_home_def)
  have "mc_src (cs4 ! c) < int (length ?cs)" if c: "c < length cs4" for c
  proof (cases "ids cs3 c = {}")
    case True
    have "c < length cs3" using c len4 len3 len1 by simp
    from placedD(8)[OF p3 this True] show ?thesis using src4[OF c] len1 by (auto simp: clean_cells_def valid_id_def)
  next
    case False
    then obtain u where u: "u \<in> ids cs3 c" by blast
    have "c < length cs3" using c len4 len3 len1 by simp
    note q = placedD(3)[OF p3 this u]
    then have "valid_id cs1 u" using r3 by simp
    then have "valid_id cs1 (tail cs1 u)" using tails_okD(3)[OF t1, of u] q by simp
    then show ?thesis using q src4[OF c] len1 by (simp add: valid_id_def)
  qed
  then have bound: "list_all (\<lambda>c. mc_src c < int (length ?cs)) cs4" by (auto simp: list_all_length len4)
  let ?z = "zero_cell cs4 mn mx"
  have "0 \<le> ?z" if "i \<in> set [mn..mx]" "mc_src (cs4 ! nat i) < 0" for i
    by (rule zero_cell_found[OF home4 use(4) _ _ _ that(2)]) (use use(4,5) that(1) len4 len1 in auto)
  moreover have "valid_id cs4 i" if "i \<in> set [mn..mx]" for i using that use(4,5) len4 len1 by (auto simp: valid_id_def)
  ultimately obtain cs5 where s5: "foldM (stage_cell ?z) [mn..mx] cs4 = Some cs5" "length cs5 = length cs4"
    "\<forall>j < length cs4. cs5 ! j = (if int j \<in> set [mn..mx] then staged ?z (int j) (cs4 ! j) else cs4 ! j)"
    using stage_loop[of "[mn..mx]" cs4 ?z] by auto
  have run: "slot_run ub ?cs cs1 mn mx cs3 cs4 cs5"
    unfolding slot_run_def using ub t cl(2) dep rng g(2) use(4,5) len1 s4(2) s5(2,3) len4 by auto
  have "int (length ?cs) < 2147483648" using N by simp
  then have mnx: "0 \<le> mn" "mn < 4294967296" "0 \<le> mx - mn + 1" "mx - mn + 1 < 4294967296" using sz use(4,5) n(1) len1 by linarith+
  have "to_u32 x = nat x" if "0 \<le> x" "x < 4294967296" for x
    using that by (simp add: to_u32_def unsigned_of_int take_bit_int_eq_self)
  from this[OF mnx(1,2)] this[OF mnx(3,4)] have u32: "to_u32 mn = nat mn" "to_u32 (mx - mn + 1) = nat (mx - mn + 1)" .
  have nn: "?n \<le> nat (mx - mn + 1)" using sz by linarith
  have cells: "rs_cells ?mr = ?cs" "rs_used ?mr = rs_used mr" by auto
  have "rec_find_slot ub mr = Some (True, ?mr\<lparr>rs_cells := cs5, rs_used := of_nat (occupied cs5), rs_z := ?z, rs_head := nat mn, rs_n := nat (mx - mn + 1)\<rparr>)"
    using n(2) cl(1) b e(1) use(1) g(1) s4(1) bound s5(1) nn
    by (simp add: rec_find_slot_def Let_def cells u32 len1 occupied_def del: if_split)
  moreover have "?mr\<lparr>rs_cells := cs5, rs_used := of_nat (occupied cs5), rs_z := ?z, rs_head := nat mn, rs_n := nat (mx - mn + 1)\<rparr> =
      mr\<lparr>rs_cells := cs5, rs_z := ?z, rs_head := nat mn, rs_n := nat (mx - mn + 1), rs_used := of_nat (occupied cs5)\<rparr>" by auto
  ultimately have "rec_find_slot ub mr = Some (True, mr\<lparr>rs_cells := cs5, rs_z := ?z, rs_head := nat mn, rs_n := nat (mx - mn + 1),
      rs_used := of_nat (occupied cs5)\<rparr>)" by (simp only:)
  then show ?thesis using run by blast
qed


section \<open>What the run has done\<close>

lemma slot_runD:
  assumes "slot_run ub cs cs1 mn mx cs3 cs4 cs5"
  shows "slot_ubatch ub" "tails_ok cs" "length cs1 = length cs" "length cs3 = length cs" "length cs4 = length cs" "length cs5 = length cs"
    "placed cs1 (first_of ub ` {..<ub_n_seqs ub}) cs3" "at_home {mn..mx} cs3" "0 \<le> mn" "mx < int (length cs)"
    "mn + int (ub_n_seqs ub) \<le> mx + 1"
    "s < ub_n_seqs ub \<Longrightarrow> u \<in> set (ids_of ub s) \<Longrightarrow> valid_id cs u"
    "s < ub_n_seqs ub \<Longrightarrow> tail cs3 (first_of ub s) = mn + int s"
    "valid_id cs u \<Longrightarrow> tail cs1 u = (if u \<in> claimed ub (ub_n_seqs ub) then -1 else tail cs u)"
    "tails_ok cs1" "c < length cs \<Longrightarrow> mem_cell_ok c (cs1 ! c)" "clean_cells cs1 \<subseteq> clean_cells cs"
proof -
  note run = assms[unfolded slot_run_def]
  have dep: "departed cs (claimed ub (ub_n_seqs ub)) cs1" using run by blast
  show len1: "length cs1 = length cs" using dep by (simp add: departed_def)
  show p: "placed cs1 (first_of ub ` {..<ub_n_seqs ub}) cs3" using run by (simp add: gather_inv_def)
  then show len3: "length cs3 = length cs" using placedD(1) len1 by simp
  then show "length cs4 = length cs" using run by (simp add: settled_def)
  have "mn \<le> tail cs3 (first_of ub t) \<and> tail cs3 (first_of ub t) \<le> mx" if "t < ub_n_seqs ub" for t
    using run that unfolding gather_inv_def by blast
  then show "mn + int (ub_n_seqs ub) \<le> mx + 1" using range_size[OF _ p] run by blast
  show "valid_id cs u \<Longrightarrow> tail cs1 u = (if u \<in> claimed ub (ub_n_seqs ub) then -1 else tail cs u)"
    using dep by (simp add: departed_def)
  show "c < length cs \<Longrightarrow> mem_cell_ok c (cs1 ! c)" using run len1 by (auto simp: state_ok_def)
  show "clean_cells cs1 \<subseteq> clean_cells cs"
  proof
    fix j assume "j \<in> clean_cells cs1"
    then have j: "valid_id cs1 j" "ids cs1 (nat j) = {}" "mc_src (cs1 ! nat j) = j" by (auto simp: clean_cells_def)
    then have jn: "nat j < length cs" "j \<noteq> -1" using nat_valid_id[OF j(1)] len1 by auto
    have "mc_src (cs1 ! nat j) = mc_src (cs ! nat j) \<and> (ids cs (nat j) \<noteq> {} \<longrightarrow> ids cs1 (nat j) \<noteq> {})"
      using dep j(3) jn unfolding departed_def by metis
    then show "j \<in> clean_cells cs" using j valid_id_length[OF len1] by (auto simp: clean_cells_def)
  qed
qed (use assms in \<open>auto simp: slot_run_def gather_inv_def state_ok_def\<close>)

lemma run_staged:
  assumes run: "slot_run ub cs cs1 mn mx cs3 cs4 cs5" and c: "c < length cs"
  shows "mc_tail (cs5 ! c) = mc_tail (cs4 ! c)" "ids cs5 c = ids cs4 c" "mc_pos (cs5 ! c) = mc_pos (cs4 ! c)"
    "mc_src (cs5 ! c) = (if mn \<le> int c \<and> int c \<le> mx then int c else mc_src (cs3 ! c))"
    "mn \<le> int c \<Longrightarrow> int c \<le> mx \<Longrightarrow> mc_src0 (cs5 ! c) = (if mc_src (cs3 ! c) < 0 then zero_cell cs4 mn mx else mc_src (cs3 ! c))"
proof -
  have "cs5 ! c = (if mn \<le> int c \<and> int c \<le> mx then staged (zero_cell cs4 mn mx) (int c) (cs4 ! c) else cs4 ! c)"
    using run c by (simp add: slot_run_def)
  moreover have "mc_src (cs4 ! c) = mc_src (cs3 ! c)" using run c slot_runD(4)[OF run] by (simp add: slot_run_def settled_def)
  ultimately show "mc_tail (cs5 ! c) = mc_tail (cs4 ! c)" "ids cs5 c = ids cs4 c" "mc_pos (cs5 ! c) = mc_pos (cs4 ! c)"
    "mc_src (cs5 ! c) = (if mn \<le> int c \<and> int c \<le> mx then int c else mc_src (cs3 ! c))"
    "mn \<le> int c \<Longrightarrow> int c \<le> mx \<Longrightarrow> mc_src0 (cs5 ! c) = (if mc_src (cs3 ! c) < 0 then zero_cell cs4 mn mx else mc_src (cs3 ! c))"
    by (auto simp: staged_def)
qed

text \<open>The cells of the sets of the micro-batch, and the other cells.\<close>

lemma run_sets:
  assumes run: "slot_run ub cs cs1 mn mx cs3 cs4 cs5" and s: "s < ub_n_seqs ub"
  shows "nat mn + s < length cs" "ids cs5 (nat mn + s) = set (ids_of ub s)" "mc_pos (cs5 ! (nat mn + s)) = last_pos ub s"
    "u \<in> set (ids_of ub s) \<Longrightarrow> tail cs5 u = mn + int s"
proof -
  note d = slot_runD[OF run]
  show b: "nat mn + s < length cs" using d(9,10,11) s by linarith
  have S: "settled ub mn (ub_n_seqs ub) cs3 cs4" using run by (simp add: slot_run_def)
  show "ids cs5 (nat mn + s) = set (ids_of ub s)" "mc_pos (cs5 ! (nat mn + s)) = last_pos ub s"
    using S s run_staged(2,3)[OF run b] by (simp_all add: settled_def)
  show "tail cs5 u = mn + int s" if u: "u \<in> set (ids_of ub s)"
  proof -
    have v: "valid_id cs u" by (rule d(12)[OF s u])
    then have "tail cs4 u = mn + int s" using S s u valid_id_length[OF d(4)] unfolding settled_def by blast
    then show ?thesis using run_staged(1)[OF run, of "nat u"] nat_valid_id[OF v] by simp
  qed
qed

lemma run_others:
  assumes run: "slot_run ub cs cs1 mn mx cs3 cs4 cs5"
  shows "c < length cs \<Longrightarrow> (\<And>s. s < ub_n_seqs ub \<Longrightarrow> c \<noteq> nat mn + s) \<Longrightarrow> ids cs5 c = ids cs3 c \<and> mc_pos (cs5 ! c) = mc_pos (cs3 ! c)"
    and "valid_id cs u \<Longrightarrow> (\<And>s. s < ub_n_seqs ub \<Longrightarrow> u \<notin> set (ids_of ub s)) \<Longrightarrow> tail cs5 u = tail cs3 u \<and> tail cs1 u = tail cs u"
proof -
  note d = slot_runD[OF run]
  have S: "settled ub mn (ub_n_seqs ub) cs3 cs4" using run by (simp add: slot_run_def)
  show "ids cs5 c = ids cs3 c \<and> mc_pos (cs5 ! c) = mc_pos (cs3 ! c)" if c: "c < length cs" and o: "\<And>s. s < ub_n_seqs ub \<Longrightarrow> c \<noteq> nat mn + s"
    using S o c d(4) run_staged(2,3)[OF run c] by (simp add: settled_def)
  show "tail cs5 u = tail cs3 u \<and> tail cs1 u = tail cs u" if v: "valid_id cs u" and o: "\<And>s. s < ub_n_seqs ub \<Longrightarrow> u \<notin> set (ids_of ub s)"
  proof
    have "tail cs4 u = tail cs3 u" using S o v valid_id_length[OF d(4)] unfolding settled_def by blast
    then show "tail cs5 u = tail cs3 u" using run_staged(1)[OF run, of "nat u"] nat_valid_id[OF v] by simp
    have "u \<notin> claimed ub (ub_n_seqs ub)" 
    proof
      assume "u \<in> claimed ub (ub_n_seqs ub)"
      then obtain s where s: "s < ub_n_seqs ub" "u \<in> set (tl (ids_of ub s))" by (auto simp: claimed_def)
      then have "u \<in> set (ids_of ub s)" by (cases "ids_of ub s") auto
      then show False using o[OF s(1)] by simp
    qed
    then show "tail cs1 u = tail cs u" using d(14)[OF v] by simp
  qed
qed

lemma set_of_cell:
  assumes run: "slot_run ub cs cs1 mn mx cs3 cs4 cs5" and c: "c < length cs" and u: "u \<in> ids cs3 c" and o: "\<And>s. s < ub_n_seqs ub \<Longrightarrow> c \<noteq> nat mn + s"
    and s: "s < ub_n_seqs ub"
  shows "u \<notin> set (ids_of ub s)"
proof
  assume us: "u \<in> set (ids_of ub s)"
  note d = slot_runD[OF run]
  have q: "tail cs3 u = int c" "0 \<le> tail cs1 u" using placedD(3)[OF d(7) _ u] c d(4) by auto
  show False
  proof (cases "u = first_of ub s")
    case True
    then have "int c = mn + int s" using q(1) d(13)[OF s] by simp
    then show False using o[OF s] d(9) by simp
  next
    case False
    have "u \<in> set (tl (ids_of ub s))" using us False by (cases "ids_of ub s") (auto simp: first_of_def)
    then have "u \<in> claimed ub (ub_n_seqs ub)" using s by (auto simp: claimed_def)
    then show False using d(14)[OF d(12)[OF s us]] q(2) by simp
  qed
qed


section \<open>The invariant after the run\<close>

lemma run_tails_ok:
  assumes run: "slot_run ub cs cs1 mn mx cs3 cs4 cs5"
  shows "tails_ok cs5"
proof -
  note d = slot_runD[OF run]
  note r = valid_id_length[OF d(6)] and r3 = valid_id_length[OF d(4)]
  let ?n = "ub_n_seqs ub"
  let ?in = "\<lambda>u. \<exists>s < ?n. u \<in> set (ids_of ub s)"
  show ?thesis
    unfolding tails_ok_def r
  proof (intro conjI allI impI)
    fix u assume u: "valid_id cs u"
    show "tail cs5 u = -1 \<or> valid_id cs (tail cs5 u)"
    proof (cases "?in u")
      case True
      then obtain s where s: "s < ?n" "u \<in> set (ids_of ub s)" by blast
      then show ?thesis using run_sets(4)[OF run s] d(9,10,11) by (auto simp: valid_id_def)
    next
      case False
      then show ?thesis using run_others(2)[OF run u] placedD(2)[OF d(7), of u] u r3 by auto
    qed
  next
    fix c u assume "c < length cs5"
    then have c: "c < length cs" using d(6) by simp
    show "u \<in> ids cs5 c \<longleftrightarrow> valid_id cs u \<and> tail cs5 u = int c"
    proof (cases "\<exists>s < ?n. c = nat mn + s")
      case True
      then obtain s where s: "s < ?n" "c = nat mn + s" by blast
      have cs: "mn + int s = int c" using s(2) d(9) by simp
      have "tail cs5 u = int c \<longrightarrow> u \<in> set (ids_of ub s)" if u: "valid_id cs u"
      proof
        assume t: "tail cs5 u = int c"
        show "u \<in> set (ids_of ub s)"
        proof (cases "?in u")
          case True
          then obtain t' where t': "t' < ?n" "u \<in> set (ids_of ub t')" by blast
          then have "t' = s" using run_sets(4)[OF run t'] t cs by simp
          then show ?thesis using t' by simp
        next
          case False
          then have "tail cs3 u = tail cs3 (first_of ub s)" using run_others(2)[OF run u] t d(13)[OF s(1)] cs by simp
          then have "u = first_of ub s" using placedD(6)[OF d(7), of "first_of ub s" u] s(1) u r3 by auto
          then show ?thesis using first_of_in[OF d(1) s(1)] by simp
        qed
      qed
      moreover have "ids cs5 c = set (ids_of ub s)" using run_sets(2)[OF run s(1)] s(2) by simp
      moreover have "valid_id cs u \<and> tail cs5 u = int c" if "u \<in> set (ids_of ub s)"
        using run_sets(4)[OF run s(1) that] d(12)[OF s(1) that] cs by simp
      ultimately show ?thesis by blast
    next
      case False
      then have o: "\<And>s. s < ?n \<Longrightarrow> c \<noteq> nat mn + s" by blast
      have ids: "ids cs5 c = ids cs3 c" using run_others(1)[OF run c o] by simp
      show ?thesis
      proof
        assume "u \<in> ids cs5 c"
        then have u3: "u \<in> ids cs3 c" using ids by simp
        have q: "valid_id cs u" "tail cs3 u = int c" using placedD(3)[OF d(7) _ u3] c d(4) r3 by auto
        then show "valid_id cs u \<and> tail cs5 u = int c"
          using run_others(2)[OF run q(1)] set_of_cell[OF run c u3 o] by simp
      next
        assume u: "valid_id cs u \<and> tail cs5 u = int c"
        have no: "\<not> ?in u"
        proof
          assume "?in u"
          then obtain s where s: "s < ?n" "u \<in> set (ids_of ub s)" by blast
          then have "c = nat mn + s" using run_sets(4)[OF run s] u d(9) by simp
          then show False using o[OF s(1)] by simp
        qed
        then have t3: "tail cs3 u = int c" using run_others(2)[OF run, of u] u by auto
        have "u \<notin> first_of ub ` {..<?n}" using no first_of_in[OF d(1)] by auto
        then show "u \<in> ids cs5 c" using placedD(4)[OF d(7), of u] t3 u r3 ids by auto
      qed
    qed
  qed
qed

lemma run_source:
  assumes run: "slot_run ub cs cs1 mn mx cs3 cs4 cs5" and c: "c < length cs" and u: "u \<in> ids cs3 c"
  shows "valid_id cs u" "0 \<le> tail cs u" "mc_src (cs3 ! c) = tail cs u" "0 \<le> mc_pos (cs3 ! c)"
    "seq_view cs1 u = Some (mc_pos (cs3 ! c))"
proof -
  note d = slot_runD[OF run]
  have q: "valid_id cs3 u" "0 \<le> tail cs1 u" "mc_src (cs3 ! c) = tail cs1 u" "mc_pos (cs3 ! c) = mc_pos (cs1 ! nat (tail cs1 u))"
    using placedD(3)[OF d(7) _ u] c d(4) by auto
  show v: "valid_id cs u" using q(1) valid_id_length[OF d(4)] by simp
  then show "0 \<le> tail cs u" "mc_src (cs3 ! c) = tail cs u" using d(14)[OF v] q(2,3) by (auto split: if_splits)
  have v1: "valid_id cs1 u" using v valid_id_length[OF d(3)] by simp
  have "u \<in> ids cs1 (nat (tail cs1 u))" "valid_id cs1 (tail cs1 u)" using tails_okD(3,4)[OF d(15) v1] q(2) by auto
  moreover from this have "nat (tail cs1 u) < length cs" using nat_valid_id d(3) by metis
  ultimately show "0 \<le> mc_pos (cs3 ! c)" using d(16) q(4) by (auto simp: mem_cell_ok_def)
  show "seq_view cs1 u = Some (mc_pos (cs3 ! c))" using v1 q(2,4) by (simp add: seq_view_def)
qed

lemma run_cells_ok:
  assumes run: "slot_run ub cs cs1 mn mx cs3 cs4 cs5" and c: "c < length cs"
  shows "mem_cell_ok c (cs5 ! c)"
proof -
  note d = slot_runD[OF run]
  have c3: "c < length cs3" using c d(4) by simp
  have src: "mc_src (cs5 ! c) = -1 \<or> mc_src (cs5 ! c) = int c" and full: "ids cs3 c \<noteq> {} \<Longrightarrow> mc_src (cs5 ! c) = int c"
  proof -
    have "mc_src (cs3 ! c) = -1 \<or> mc_src (cs3 ! c) = int c" if "\<not> (mn \<le> int c \<and> int c \<le> mx)"
      using d(8) c3 that by (auto simp: at_home_def)
    then show "mc_src (cs5 ! c) = -1 \<or> mc_src (cs5 ! c) = int c" using run_staged(4)[OF run c] by auto
    show "mc_src (cs5 ! c) = int c" if "ids cs3 c \<noteq> {}"
    proof -
      obtain x where x: "x \<in> ids cs3 c" using \<open>ids cs3 c \<noteq> {}\<close> by blast
      have "0 \<le> mc_src (cs3 ! c)" using run_source(2,3)[OF run c x] by simp
      then show ?thesis using run_staged(4)[OF run c] \<open>mc_src (cs5 ! c) = -1 \<or> mc_src (cs5 ! c) = int c\<close> by (auto split: if_splits)
    qed
  qed
  show ?thesis
  proof (cases "\<exists>s < ub_n_seqs ub. c = nat mn + s")
    case True
    then obtain s where s: "s < ub_n_seqs ub" "c = nat mn + s" by blast
    have "mn \<le> int c" "int c \<le> mx" using s d(9,11) by linarith+
    then show ?thesis using run_sets(2,3)[OF run s(1)] run_staged(4)[OF run c] slot_ubatchD(1,5)[OF d(1) s(1)] s(2)
      by (simp add: mem_cell_ok_def slot_seq_def)
  next
    case False
    then have eq: "ids cs5 c = ids cs3 c" "mc_pos (cs5 ! c) = mc_pos (cs3 ! c)" using run_others(1)[OF run c] by blast+
    show ?thesis
    proof (cases "ids cs3 c = {}")
      case True
      then show ?thesis using eq src placedD(8)[OF d(7) c3] by (simp add: mem_cell_ok_def)
    next
      case False
      then show ?thesis using eq full run_source(4)[OF run c] by (auto simp: mem_cell_ok_def)
    qed
  qed
qed

lemma run_view:
  assumes run: "slot_run ub cs cs1 mn mx cs3 cs4 cs5"
  shows "s < ub_n_seqs ub \<Longrightarrow> u \<in> set (ids_of ub s) \<Longrightarrow> seq_view cs5 u = Some (last_pos ub s)"
    and "(\<And>s. s < ub_n_seqs ub \<Longrightarrow> u \<notin> set (ids_of ub s)) \<Longrightarrow> seq_view cs5 u = seq_view cs u"
proof -
  note d = slot_runD[OF run]
  note r = valid_id_length[OF d(6)] and r3 = valid_id_length[OF d(4)] and r1 = valid_id_length[OF d(3)]
  show "seq_view cs5 u = Some (last_pos ub s)" if s: "s < ub_n_seqs ub" and u: "u \<in> set (ids_of ub s)"
  proof -
    have "nat (mn + int s) = nat mn + s" using d(9) by simp
    then show ?thesis using run_sets(3,4)[OF run s] u d(12)[OF s u] d(9) r by (simp add: seq_view_def)
  qed
  assume o: "\<And>s. s < ub_n_seqs ub \<Longrightarrow> u \<notin> set (ids_of ub s)"
  show "seq_view cs5 u = seq_view cs u"
  proof (cases "valid_id cs u")
    case True
    have t: "tail cs5 u = tail cs3 u" "tail cs1 u = tail cs u" using run_others(2)[OF run True o] by auto
    have notin: "u \<notin> first_of ub ` {..<ub_n_seqs ub}" using o first_of_in[OF d(1)] by auto
    show ?thesis
    proof (cases "0 \<le> tail cs u")
      case pos: True
      then have t3: "0 \<le> tail cs3 u" using placedD(7)[OF d(7), of u] True r3 t(2) by simp
      have v3: "valid_id cs3 u" using True r3 by simp
      have u3: "u \<in> ids cs3 (nat (tail cs3 u))" using placedD(4)[OF d(7) v3 t3] notin by blast
      have "valid_id cs3 (tail cs3 u)" using placedD(2)[OF d(7) v3] t3 by auto
      then have c: "nat (tail cs3 u) < length cs" "int (nat (tail cs3 u)) = tail cs3 u" using nat_valid_id d(4) by metis+
      have other: "nat (tail cs3 u) \<noteq> nat mn + s" if s: "s < ub_n_seqs ub" for s
      proof
        assume "nat (tail cs3 u) = nat mn + s"
        then have "tail cs3 u = tail cs3 (first_of ub s)" using c(2) d(13)[OF s] d(9) by linarith
        then have "u = first_of ub s" using placedD(6)[OF d(7), of "first_of ub s" u] s v3 by auto
        then show False using notin s by blast
      qed
      have "seq_view cs5 u = Some (mc_pos (cs3 ! nat (tail cs3 u)))"
        using True r t3 t(1) run_others(1)[OF run c(1) other] by (simp add: seq_view_def)
      also have "\<dots> = seq_view cs1 u" using run_source(5)[OF run c(1) u3] by simp
      also have "\<dots> = seq_view cs u"
      proof -
        have dep: "departed cs (claimed ub (ub_n_seqs ub)) cs1" using run by (simp add: slot_run_def)
        have "u \<notin> claimed ub (ub_n_seqs ub)" using d(14)[OF True] t(2) pos by (auto split: if_splits)
        then show ?thesis using departed_seq_view[OF dep d(2)] by simp
      qed
      finally show ?thesis .
    next
      case neg: False
      have "\<not> 0 \<le> tail cs3 u"
      proof
        assume t3: "0 \<le> tail cs3 u"
        have v3: "valid_id cs3 u" using True r3 by simp
        have u3: "u \<in> ids cs3 (nat (tail cs3 u))" using placedD(4)[OF d(7) v3 t3] notin by blast
        have "valid_id cs3 (tail cs3 u)" using placedD(2)[OF d(7) v3] t3 by auto
        then have "nat (tail cs3 u) < length cs" using nat_valid_id d(4) by metis
        then show False using run_source(2)[OF run _ u3] neg by blast
      qed
      then show ?thesis using neg t(1) by (simp add: seq_view_def)
    qed
  next
    case False
    then show ?thesis using r by (simp add: seq_view_def)
  qed
qed

end
