(* ===== verification/RecurrentState.thy ===== *)
theory RecurrentState
  imports RecurrentFind
begin

text \<open>
  The states of the sequences: what \<open>find_slot\<close> stages, \<open>build_rs\<close> reads and copies, so that every sequence of the
  micro-batch is computed from its own old state, or from the zero state, and the others keep theirs.
\<close>

section \<open>The state of a sequence\<close>

definition state_of :: "'a \<Rightarrow> 'a list \<Rightarrow> mem_cell list \<Rightarrow> llama_seq_id \<Rightarrow> 'a" where
  "state_of zero states cs u = (if valid_id cs u \<and> 0 \<le> tail cs u then states ! nat (tail cs u) else zero)"

text \<open>An empty cell that is its own source holds the zero state.\<close>

definition clean :: "'a \<Rightarrow> 'a list \<Rightarrow> mem_cell list \<Rightarrow> bool" where
  "clean zero states cs \<longleftrightarrow> length states = length cs \<and> (\<forall>j \<in> clean_cells cs. states ! nat j = zero)"

text \<open>The row that a cell of the range is filled from, after the zero state has been cleared.\<close>

definition source_row :: "'a \<Rightarrow> 'a list \<Rightarrow> int \<Rightarrow> int \<Rightarrow> 'a" where
  "source_row zero states z i = (if i = z then zero else states ! nat i)"

lemma staged_source:
  assumes run: "slot_run ub cs cs1 mn mx cs3 cs4 cs5" and st: "clean zero states cs"
    and c: "c < length cs" "mn \<le> int c" "int c \<le> mx"
  defines "z \<equiv> zero_cell cs4 mn mx"
  shows "valid_id cs (mc_src0 (cs5 ! c))"
    and "u \<in> ids cs3 c \<Longrightarrow> source_row zero states z (mc_src0 (cs5 ! c)) = state_of zero states cs u"
    and "ids cs3 c = {} \<Longrightarrow> source_row zero states z (mc_src0 (cs5 ! c)) = zero"
proof -
  note d = slot_runD[OF run]
  have src0: "mc_src0 (cs5 ! c) = (if mc_src (cs3 ! c) < 0 then z else mc_src (cs3 ! c))"
    unfolding z_def by (rule run_staged(5)[OF run c])
  have S: "settled ub mn (ub_n_seqs ub) cs3 cs4" using run by (simp add: slot_run_def)
  have src4: "mc_src (cs4 ! j) = mc_src (cs3 ! j)" if "j < length cs" for j using S that d(4) by (simp add: settled_def)
  have home4: "at_home {mn..mx} cs4" using d(8) src4 d(4,5) by (simp add: at_home_def)
  have z: "mn \<le> z \<and> z \<le> mx \<and> refcount cs4 z = 0" if "mc_src (cs3 ! c) < 0"
  proof -
    have "0 \<le> z" unfolding z_def by (rule zero_cell_found[OF home4 d(9) _ c(2,3)]) (use d(5,10) src4[OF c(1)] that in auto)
    then show ?thesis using zero_cell_cases[of cs4 mn mx] unfolding z_def by auto
  qed
  have ne: "mc_src (cs3 ! c) \<noteq> z" if "0 \<le> mc_src (cs3 ! c)"
  proof
    assume eq: "mc_src (cs3 ! c) = z"
    then have "refcount cs4 z = 0" using zero_cell_cases[of cs4 mn mx] that unfolding z_def by auto
    then show False using eq src4[OF c(1)] c(1) d(5) by (auto simp: refcount_0)
  qed
  have c3: "c < length cs3" using c(1) d(4) by simp
  show fill: "source_row zero states z (mc_src0 (cs5 ! c)) = state_of zero states cs u" if "u \<in> ids cs3 c"
    using run_source(1,2,3)[OF run c(1) that] src0 ne by (simp add: source_row_def state_of_def)
  have empty: "mc_src (cs3 ! c) = -1 \<or> mc_src (cs3 ! c) \<in> clean_cells cs" if "ids cs3 c = {}"
    using placedD(8)[OF d(7) c3 that] d(17) by blast
  show "source_row zero states z (mc_src0 (cs5 ! c)) = zero" if "ids cs3 c = {}"
    using empty[OF that] st src0 ne by (auto simp: source_row_def clean_def clean_cells_def valid_id_def)
  show "valid_id cs (mc_src0 (cs5 ! c))"
  proof (cases "ids cs3 c = {}")
    case True
    then show ?thesis using empty[OF True] z src0 d(9,10) by (auto simp: clean_cells_def valid_id_def)
  next
    case False
    then obtain u where u: "u \<in> ids cs3 c" by blast
    note q = run_source(1,2,3)[OF run c(1) u]
    then show ?thesis using tails_okD(3)[OF d(2) q(1)] src0 by auto
  qed
qed

section \<open>Reading and copying rows\<close>

lemma gather_list:
  assumes "\<And>i. i \<in> set is \<Longrightarrow> g i = Some (h i)"
  shows "foldM (\<lambda>i out. Option.bind (g i) (\<lambda>x. Some (out @ [x]))) is out = Some (out @ map h is)"
  using assms by (induction "is" arbitrary: out) auto

lemma get_rows_map:
  assumes "\<And>i. i \<in> set is \<Longrightarrow> 0 \<le> i \<and> i < int (length rows)"
  shows "get_rows rows is = Some (map (\<lambda>i. rows ! nat i) is)"
proof -
  have "get_row rows i = Some (rows ! nat i)" if "i \<in> set is" for i
    using assms[OF that] by (simp add: get_row_def at_def nat_less_iff)
  from gather_list[of "is" "get_row rows" "\<lambda>i. rows ! nat i" "[]", OF this] show ?thesis by (simp add: get_rows_def)
qed

lemma cpy_rows_ok:
  assumes "i + length src \<le> length rows"
  shows "\<exists>rows'. cpy_rows src i rows = Some rows' \<and> length rows' = length rows \<and>
    (\<forall>j < length rows. rows' ! j = (if i \<le> j \<and> j < i + length src then src ! (j - i) else rows ! j))"
  using assms by (auto simp: cpy_rows_def nth_append min_def)

text \<open>The states of the cells after the graph has run on the cells \<open>cs5\<close>.\<close>

definition computed ::
  "'a \<Rightarrow> (nat \<Rightarrow> 'a \<Rightarrow> 'a) \<Rightarrow> nat \<Rightarrow> nat \<Rightarrow> nat \<Rightarrow> int \<Rightarrow> mem_cell list \<Rightarrow> 'a list \<Rightarrow> 'a list \<Rightarrow> bool" where
  "computed zero f n head n_rs z cs states states' \<longleftrightarrow> length states' = length states \<and> (\<forall>j < length states.
     states' ! j =
       (if head \<le> j \<and> j < head + n then f (j - head) (source_row zero states z (mc_src0 (cs ! j)))
        else if head \<le> j \<and> j < head + n_rs then source_row zero states z (mc_src0 (cs ! j))
        else if int j = z then zero else states ! j))"

lemma graph_computes:
  fixes zero :: 'a
  assumes src: "\<And>j. rs_head mr \<le> j \<Longrightarrow> j < rs_head mr + rs_n mr \<Longrightarrow> valid_id (rs_cells mr) (mc_src0 (rs_cells mr ! j))"
    and rng: "rs_head mr + rs_n mr \<le> rs_size mr" "n \<le> rs_n mr" and z: "rs_z mr < 0 \<or> valid_id (rs_cells mr) (rs_z mr)"
    and len: "length states = rs_size mr" and full: "\<not> rc_is_full cx"
  shows "\<exists>data old states1 states2. rs_set_input cx mr = Some data \<and>
    build_rs zero states (take n data) (drop n data) n (rec_get_head cx mr) (get_rs_z cx mr) = Some (old, states1) \<and>
    cpy_rows (map (\<lambda>s. f s (old ! s)) [0..<n]) (rec_get_head cx mr) states1 = Some states2 \<and>
    computed zero f n (rs_head mr) (rs_n mr) (rs_z mr) (rs_cells mr) states states2"
proof -
  let ?h = "rs_head mr" and ?cs = "rs_cells mr" and ?z = "rs_z mr"
  let ?data = "map (\<lambda>i. mc_src0 (?cs ! (i + ?h))) [0..<rs_n mr]"
  have s_copy: "s_copy i mr = Some (mc_src0 (?cs ! (i + ?h)))" if "i \<in> set [0..<rs_n mr]" for i
    using that rng(1) by (simp add: s_copy_def at_def)
  have data: "rs_set_input cx mr = Some ?data"
    using gather_list[of "[0..<rs_n mr]" "\<lambda>i. s_copy i mr" "\<lambda>i. mc_src0 (?cs ! (i + ?h))" "[]", OF s_copy] full by (simp add: rs_set_input_def get_n_rs_def)
  define states0 where "states0 = (if ?z \<ge> 0 then states[nat ?z := zero] else states)"
  have l0: "length states0 = rs_size mr" by (simp add: states0_def len)
  have row0: "states0 ! j = (if int j = ?z then zero else states ! j)" if "j < rs_size mr" for j
    using that by (auto simp: states0_def len nth_list_update)
  have valid: "0 \<le> x \<and> x < int (length states0)" if x: "x \<in> set ?data" for x
  proof -
    obtain i where "i < rs_n mr" "x = mc_src0 (?cs ! (i + ?h))" using x by auto
    then show ?thesis using src[of "i + ?h"] l0 by (simp add: valid_id_def)
  qed
  have rows: "states0 ! nat x = source_row zero states ?z x" if "x \<in> set ?data" for x
  proof -
    have "nat x < rs_size mr" "int (nat x) = x" using valid[OF that] unfolding l0 by linarith+
    from row0[OF this(1)] this(2) show ?thesis unfolding source_row_def by simp
  qed
  have main: "get_rows states0 (take n ?data) = Some (map (\<lambda>i. states0 ! nat i) (take n ?data))"
    by (rule get_rows_map, rule valid, erule in_set_takeD)
  have extra: "get_rows states0 (drop n ?data) = Some (map (\<lambda>i. states0 ! nat i) (drop n ?data))"
    by (rule get_rows_map, rule valid, erule in_set_dropD)
  let ?old = "map (\<lambda>i. states0 ! nat i) (take n ?data)" and ?extra = "map (\<lambda>i. states0 ! nat i) (drop n ?data)"
  obtain states1 where s1: "cpy_rows ?extra (?h + n) states0 = Some states1" "length states1 = length states0"
    "\<forall>j < length states0. states1 ! j = (if ?h + n \<le> j \<and> j < ?h + n + length ?extra then ?extra ! (j - (?h + n)) else states0 ! j)"
    using cpy_rows_ok[of "?h + n" ?extra states0] rng l0 by auto
  have build: "build_rs zero states (take n ?data) (drop n ?data) n ?h ?z = Some (?old, states1)"
  proof -
    have "(if ?z \<ge> 0 then do { _ \<leftarrow> get_row states ?z; Some (states[nat ?z := zero]) } else Some states) = Some states0"
      using z by (auto simp: states0_def get_row_def at_def len valid_id_def nat_less_iff)
    then show ?thesis using main extra s1(1) by (simp add: build_rs_def)
  qed
  obtain states2 where s2: "cpy_rows (map (\<lambda>s. f s (?old ! s)) [0..<n]) ?h states1 = Some states2" "length states2 = length states1"
    "\<forall>j < length states1. states2 ! j = (if ?h \<le> j \<and> j < ?h + length (map (\<lambda>s. f s (?old ! s)) [0..<n])
      then map (\<lambda>s. f s (?old ! s)) [0..<n] ! (j - ?h) else states1 ! j)"
    using cpy_rows_ok[of ?h "map (\<lambda>s. f s (?old ! s)) [0..<n]" states1] rng l0 s1(2) by auto
  have "computed zero f n ?h (rs_n mr) ?z ?cs states states2"
    unfolding computed_def
  proof (intro conjI allI impI)
    show "length states2 = length states" using s1(2) s2(2) l0 len by simp
    fix j assume "j < length states"
    then have j: "j < rs_size mr" "j < length states0" "j < length states1" using len l0 s1(2) by simp_all
    have el: "?data ! k = mc_src0 (?cs ! (k + ?h))" "?data ! k \<in> set ?data" if "k < rs_n mr" for k
    proof -
      show "?data ! k = mc_src0 (?cs ! (k + ?h))" using that by simp
      have "k < length ?data" using that by simp
      then show "?data ! k \<in> set ?data" by (rule nth_mem)
    qed
    consider "?h \<le> j" "j < ?h + n" | "?h + n \<le> j" "j < ?h + rs_n mr" | "j < ?h \<or> ?h + rs_n mr \<le> j" by linarith
    then show "states2 ! j =
       (if ?h \<le> j \<and> j < ?h + n then f (j - ?h) (source_row zero states ?z (mc_src0 (?cs ! j)))
        else if ?h \<le> j \<and> j < ?h + rs_n mr then source_row zero states ?z (mc_src0 (?cs ! j))
        else if int j = ?z then zero else states ! j)"
    proof cases
      case 1
      then have k: "j - ?h < n" "j - ?h < rs_n mr" using rng(2) by linarith+
      have "?old ! (j - ?h) = states0 ! nat (?data ! (j - ?h))" using k by simp
      also have "\<dots> = source_row zero states ?z (mc_src0 (?cs ! j))" using rows[OF el(2)[OF k(2)]] el(1)[OF k(2)] 1(1) by simp
      finally show ?thesis using s2(3) j(3) 1 k(1) by simp
    next
      case 2
      then have k: "j - ?h < rs_n mr" "j - (?h + n) < length ?extra" "n + (j - (?h + n)) = j - ?h" "j < ?h + n + length ?extra" by auto
      have "?extra ! (j - (?h + n)) = states0 ! nat (?data ! (j - ?h))" using k(2,3) rng(2) by simp
      also have "\<dots> = source_row zero states ?z (mc_src0 (?cs ! j))" using rows[OF el(2)[OF k(1)]] el(1)[OF k(1)] 2(1) by simp
      finally have e: "?extra ! (j - (?h + n)) = source_row zero states ?z (mc_src0 (?cs ! j))" .
      have c: "?h + n \<le> j \<and> j < ?h + n + length ?extra" using 2(1) k(4) by blast
      have "states1 ! j = source_row zero states ?z (mc_src0 (?cs ! j))"
        using s1(3)[rule_format, OF j(2)] unfolding if_P[OF c] e .
      then show ?thesis using s2(3) j(3) 2 by simp
    next
      case 3
      then have "states1 ! j = states0 ! j" using s1(3) j(2) rng(2) by auto
      then have "states2 ! j = states0 ! j" using s2(3) j(3) 3 rng(2) by auto
      then show ?thesis using row0[OF j(1)] 3 rng(2) by auto
    qed
  qed
  then show ?thesis using data build s2(1) full by (auto simp: rec_get_head_def get_rs_z_def)
qed


section \<open>A micro-batch\<close>

lemma run_computed:
  assumes run: "slot_run ub cs cs1 mn mx cs3 cs4 cs5" and st: "clean zero states cs"
    and comp: "computed zero f (ub_n_seqs ub) (nat mn) (nat (mx - mn + 1)) (zero_cell cs4 mn mx) cs5 states states'"
  shows "clean zero states' cs5"
    and "s < ub_n_seqs ub \<Longrightarrow> u \<in> set (ids_of ub s) \<Longrightarrow> state_of zero states' cs5 u = f s (state_of zero states cs (first_of ub s))"
    and "(\<And>s. s < ub_n_seqs ub \<Longrightarrow> u \<notin> set (ids_of ub s)) \<Longrightarrow> state_of zero states' cs5 u = state_of zero states cs u"
proof -
  note d = slot_runD[OF run]
  note r = valid_id_length[OF d(6)] and r3 = valid_id_length[OF d(4)]
  let ?n = "ub_n_seqs ub" and ?z = "zero_cell cs4 mn mx"
  have len: "length states = length cs" "length states' = length cs" using st comp by (simp_all add: clean_def computed_def)
  have rng: "nat mn \<le> c \<and> c < nat mn + nat (mx - mn + 1) \<longleftrightarrow> mn \<le> int c \<and> int c \<le> mx" for c using d(9,11) by linarith
  have new: "states' ! c = (if nat mn \<le> c \<and> c < nat mn + ?n then f (c - nat mn) (source_row zero states ?z (mc_src0 (cs5 ! c)))
      else if mn \<le> int c \<and> int c \<le> mx then source_row zero states ?z (mc_src0 (cs5 ! c))
      else if int c = ?z then zero else states ! c)" if "c < length cs" for c
    using comp that len(1) unfolding computed_def rng[of c, symmetric] by simp
  have zr: "?z = -1 \<or> mn \<le> ?z \<and> ?z \<le> mx" using zero_cell_cases[of cs4 mn mx] by auto
  show "clean zero states' cs5"
    unfolding clean_def
  proof (intro conjI ballI)
    show "length states' = length cs5" using len d(6) by simp
    fix j assume "j \<in> clean_cells cs5"
    then have j: "valid_id cs j" "ids cs5 (nat j) = {}" "mc_src (cs5 ! nat j) = j" by (auto simp: clean_cells_def r)
    note jn = nat_valid_id[OF j(1)]
    have o: "nat j \<noteq> nat mn + s" if s: "s < ?n" for s
      using run_sets(2)[OF run s] slot_ubatchD(5)[OF d(1) s] j(2) by auto
    then have out: "\<not> (nat mn \<le> nat j \<and> nat j < nat mn + ?n)" by (metis le_iff_add nat_add_left_cancel_less)
    have e3: "ids cs3 (nat j) = {}" using run_others(1)[OF run conjunct1[OF jn] o] j(2) by simp
    show "states' ! nat j = zero"
    proof (cases "mn \<le> j \<and> j \<le> mx")
      case True
      then show ?thesis using new[OF conjunct1[OF jn]] out jn staged_source(3)[OF run st conjunct1[OF jn] _ _ e3] by simp
    next
      case False
      have "mc_src (cs3 ! nat j) = j" using run_staged(4)[OF run conjunct1[OF jn]] j(3) False jn by auto
      then have "j \<in> clean_cells cs" using placedD(8)[OF d(7) _ e3] jn d(4,17) j(1) by (auto simp: valid_id_def)
      then have "states ! nat j = zero" using st by (simp add: clean_def)
      then show ?thesis using new[OF conjunct1[OF jn]] out False jn by simp
    qed
  qed
  show "state_of zero states' cs5 u = f s (state_of zero states cs (first_of ub s))" if s: "s < ?n" and u: "u \<in> set (ids_of ub s)"
  proof -
    let ?u = "first_of ub s" and ?c = "nat mn + s"
    have c: "?c < length cs" "mn \<le> int ?c" "int ?c \<le> mx" "int ?c = mn + int s" using run_sets(1)[OF run s] s d(9,11) by auto
    have v: "valid_id cs ?u" by (rule d(12)[OF s first_of_in[OF d(1) s]])
    have t3: "tail cs3 ?u = int ?c" using d(13)[OF s] c(4) by simp
    have "source_row zero states ?z (mc_src0 (cs5 ! ?c)) = state_of zero states cs ?u"
    proof (cases "?u \<in> ids cs3 ?c")
      case True
      then show ?thesis by (rule staged_source(2)[OF run st c(1-3)])
    next
      case False
      have v3: "valid_id cs3 ?u" using v r3 by simp
      have q: "tail cs1 ?u = -1" "ids cs3 ?c = {}"
      proof -
        have "nat (tail cs3 ?u) = ?c" "0 \<le> tail cs3 ?u" using t3 by (simp_all only: nat_int of_nat_0_le_iff)
        then show "tail cs1 ?u = -1" "ids cs3 ?c = {}" using placedD(4)[OF d(7) v3] False by metis+
      qed
      have "?u \<notin> claimed ub ?n"
      proof
        assume "?u \<in> claimed ub ?n"
        then obtain t where t: "t < ?n" "?u \<in> set (tl (ids_of ub t))" by (auto simp: claimed_def)
        then have "?u \<in> set (ids_of ub t)" by (cases "ids_of ub t") auto
        then have "t = s" using slot_ubatchD(7)[OF d(1) s t(1)] first_of_in[OF d(1) s] by auto
        then show False using t(2) slot_ubatchD(5,6)[OF d(1) s] by (cases "ids_of ub s") (auto simp: first_of_def)
      qed
      then have "tail cs ?u = -1" using d(14)[OF v] q(1) by simp
      then show ?thesis using staged_source(3)[OF run st c(1-3) q(2)] by (simp add: state_of_def)
    qed
    moreover have "state_of zero states' cs5 u = states' ! ?c"
    proof -
      have "valid_id cs5 u" using d(12)[OF s u] r by simp
      moreover have "0 \<le> tail cs5 u" "nat (tail cs5 u) = ?c" using run_sets(4)[OF run s u] d(9) by linarith+
      ultimately show ?thesis by (simp add: state_of_def)
    qed
    ultimately show ?thesis using new[OF c(1)] s by simp
  qed
  assume o: "\<And>s. s < ?n \<Longrightarrow> u \<notin> set (ids_of ub s)"
  show "state_of zero states' cs5 u = state_of zero states cs u"
  proof (cases "valid_id cs u \<and> 0 \<le> tail cs5 u")
    case True
    then have v: "valid_id cs u" and t: "0 \<le> tail cs3 u" "tail cs5 u = tail cs3 u" using run_others(2)[OF run _ o] by auto
    have notin: "u \<notin> first_of ub ` {..<?n}" using o first_of_in[OF d(1)] by auto
    have v3: "valid_id cs3 u" using v r3 by simp
    have u3: "u \<in> ids cs3 (nat (tail cs3 u))" using placedD(4)[OF d(7) v3 t(1)] notin by blast
    have "valid_id cs3 (tail cs3 u)" using placedD(2)[OF d(7) v3] t(1) by auto
    then have c: "nat (tail cs3 u) < length cs" "int (nat (tail cs3 u)) = tail cs3 u" using nat_valid_id d(4) by metis+
    have out: "\<not> (nat mn \<le> nat (tail cs3 u) \<and> nat (tail cs3 u) < nat mn + ?n)"
    proof
      assume "nat mn \<le> nat (tail cs3 u) \<and> nat (tail cs3 u) < nat mn + ?n"
      then obtain s where s: "s < ?n" "nat (tail cs3 u) = nat mn + s" by (metis le_iff_add nat_add_left_cancel_less)
      then have "tail cs3 u = tail cs3 (first_of ub s)" using c(2) d(13)[OF s(1)] d(9) by linarith
      then have "u = first_of ub s" using placedD(6)[OF d(7), of "first_of ub s" u] s(1) v3 by auto
      then show False using notin s(1) by blast
    qed
    have "states' ! nat (tail cs3 u) = state_of zero states cs u"
    proof (cases "mn \<le> tail cs3 u \<and> tail cs3 u \<le> mx")
      case True
      then show ?thesis using new[OF c(1)] out c(2) staged_source(2)[OF run st c(1) _ _ u3] by simp
    next
      case False
      have src: "mc_src (cs3 ! nat (tail cs3 u)) = tail cs u" "0 \<le> tail cs u" using run_source(2,3)[OF run c(1) u3] by auto
      moreover have "mc_src (cs3 ! nat (tail cs3 u)) = -1 \<or> mc_src (cs3 ! nat (tail cs3 u)) = tail cs3 u"
      proof -
        have "int (nat (tail cs3 u)) \<notin> {mn..mx}" "nat (tail cs3 u) < length cs3" unfolding c(2) using False c(1) d(4) by auto
        from d(8)[unfolded at_home_def, rule_format, OF this(2,1)] show ?thesis unfolding c(2) .
      qed
      ultimately have "tail cs u = tail cs3 u" by auto
      then show ?thesis using new[OF c(1)] out c(2) False zr v src(2) by (auto simp: state_of_def)
    qed
    then show ?thesis using v r t by (simp add: state_of_def)
  next
    case False
    have "state_of zero states cs u = zero"
    proof (cases "valid_id cs u")
      case True
      then have q: "\<not> 0 \<le> tail cs3 u" "tail cs1 u = tail cs u" using run_others(2)[OF run True o] False by auto
      then have "\<not> 0 \<le> tail cs1 u" using placedD(7)[OF d(7), of u] True r3 by auto
      then show ?thesis using q(2) by (simp add: state_of_def)
    qed (simp add: state_of_def)
    then show ?thesis using False r by (auto simp: state_of_def)
  qed
qed

end
