(* ===== verification/RecurrentBatch.thy ===== *)
theory RecurrentBatch
  imports RecurrentState BatchProps KvContextLaws
begin

text \<open>
  The recurrent memory from the batch on: the micro-batches of the splits are fit for \<open>find_slot\<close>, the dry run
  of \<open>prepare\<close> tells whether they will be placed, and the loop of \<open>apply\<close> and \<open>next\<close> advances the state of
  every sequence by exactly its micro-batches.
\<close>

section \<open>One micro-batch\<close>

abbreviation seqs_fit :: "nat \<Rightarrow> llama_ubatch \<Rightarrow> bool" where
  "seqs_fit n ub \<equiv> \<forall>s < ub_n_seqs ub. \<forall>u \<in> set (ids_of ub s). 0 \<le> u \<and> u < int n"

lemma seqs_fit_valid: "seqs_fit (length cs) ub \<longleftrightarrow> (\<forall>s < ub_n_seqs ub. \<forall>u \<in> set (ids_of ub s). valid_id cs u)"
  by (simp add: valid_id_def)

text \<open>The set of the micro-batch a sequence is in, and what the micro-batch does to a map of the sequences.\<close>

definition set_no :: "llama_ubatch \<Rightarrow> llama_seq_id \<Rightarrow> nat option" where
  "set_no ub u = find (\<lambda>s. u \<in> set (ids_of ub s)) [0..<ub_n_seqs ub]"

definition advance :: "llama_ubatch \<Rightarrow> (nat \<Rightarrow> 'b \<Rightarrow> 'b) \<Rightarrow> (llama_seq_id \<Rightarrow> 'b) \<Rightarrow> llama_seq_id \<Rightarrow> 'b" where
  "advance ub g x u = (case set_no ub u of None \<Rightarrow> x u | Some s \<Rightarrow> g s (x (first_of ub s)))"

lemma set_no_None: "set_no ub u = None \<longleftrightarrow> (\<forall>s < ub_n_seqs ub. u \<notin> set (ids_of ub s))"
  by (auto simp: set_no_def find_None_iff)

lemma set_no_Some: "set_no ub u = Some s \<Longrightarrow> s < ub_n_seqs ub \<and> u \<in> set (ids_of ub s)"
  unfolding set_no_def find_Some_iff by auto

lemma find_slot_total:
  assumes ok: "rec_ok mr" and ub: "slot_ubatch ub"
  shows "\<exists>b mr'. rec_find_slot ub mr = Some (b, mr') \<and> rec_ok mr' \<and> rs_size mr' = rs_size mr \<and> (b \<longleftrightarrow> seqs_fit (rs_size mr) ub) \<and>
    (b \<longrightarrow> rec_view mr' = advance ub (\<lambda>s _. Some (last_pos ub s)) (rec_view mr) \<and>
      ub_n_seqs ub \<le> rs_n mr' \<and> rs_head mr' + rs_n mr' \<le> rs_size mr \<and>
      (\<forall>s < ub_n_seqs ub. mc_seq_id (rs_cells mr' ! (rs_head mr' + s)) = set (ids_of ub s)))"
proof (cases "seqs_fit (rs_size mr) ub")
  case True
  obtain cs1 mn mx cs3 cs4 cs5 where run: "slot_run ub (rs_cells mr) cs1 mn mx cs3 cs4 cs5"
    and eq: "rec_find_slot ub mr = Some (True, mr\<lparr>rs_cells := cs5, rs_z := zero_cell cs4 mn mx, rs_head := nat mn,
      rs_n := nat (mx - mn + 1), rs_used := of_nat (occupied cs5)\<rparr>)"
    using find_slot_run[OF ok ub] True by (auto simp: valid_id_def)
  note d = slot_runD[OF run]
  have n: "0 < ub_n_seqs ub" using ub by (simp add: slot_ubatch_def)
  have b: "nat mn < length cs5" "ub_n_seqs ub \<le> nat (mx - mn + 1)" "nat mn + nat (mx - mn + 1) \<le> length cs5"
    using d(6,9,10,11) n by linarith+
  have "state_ok cs5 (of_nat (occupied cs5))"
    using run_tails_ok[OF run] run_cells_ok[OF run] d(6) by (simp add: state_ok_def)
  moreover have "seq_view cs5 = advance ub (\<lambda>s _. Some (last_pos ub s)) (seq_view (rs_cells mr))"
  proof
    fix u
    show "seq_view cs5 u = advance ub (\<lambda>s _. Some (last_pos ub s)) (seq_view (rs_cells mr)) u"
    proof (cases "set_no ub u")
      case None
      then have "\<forall>s < ub_n_seqs ub. u \<notin> set (ids_of ub s)" by (simp only: set_no_None)
      then have "seq_view cs5 u = seq_view (rs_cells mr) u" by (intro run_view(2)[OF run]) blast
      then show ?thesis by (simp only: advance_def None option.case)
    next
      case (Some s)
      then show ?thesis using run_view(1)[OF run, of s u] set_no_Some[OF Some] by (simp add: advance_def)
    qed
  qed
  ultimately show ?thesis
    using True ok b d(6) run_sets(2)[OF run] by (auto simp: eq rec_ok_def rec_view_def)
next
  case False
  let ?mr = "if of_nat (rs_head mr) > rs_used mr + 2 * of_nat (ub_n_seqs ub) then mr\<lparr>rs_head := 0\<rparr> else mr"
  have st: "state_ok (rs_cells mr) (rs_used mr)" and h: "rs_head mr < rs_size mr" "rs_size mr < 2 ^ 31"
    using ok by (auto simp: rec_ok_def)
  obtain b cs1 used1 U where cl: "foldM (claim_set ub) [0..<ub_n_seqs ub] (True, rs_cells mr, rs_used mr) = Some (b, cs1, used1)"
    "state_ok cs1 used1" "b \<longleftrightarrow> (\<forall>s < ub_n_seqs ub. \<forall>u \<in> set (ids_of ub s). valid_id (rs_cells mr) u)" "departed (rs_cells mr) U cs1"
    using claims_ok[OF ub st] by blast
  have "\<not> b" using False cl(3) by (auto simp: valid_id_def)
  then have "rec_find_slot ub mr = Some (False, ?mr\<lparr>rs_cells := cs1, rs_used := used1\<rparr>)"
    using ub cl(1) by (simp add: rec_find_slot_def Let_def slot_ubatch_def)
  moreover have "rs_head ?mr < rs_size mr" using h by auto
  ultimately show ?thesis using False cl(2,4) h by (auto simp: rec_ok_def departed_def)
qed

section \<open>Preparing\<close>

lemma prepare_loop_ok:
  assumes "rec_ok mr" "\<forall>ub \<in> set ubs. slot_ubatch ub"
  shows "\<exists>b mr'. rec_prepare_loop ubs mr = Some (b, mr') \<and> rs_size mr' = rs_size mr \<and>
    (b \<longleftrightarrow> (\<forall>ub \<in> set ubs. seqs_fit (rs_size mr) ub))"
  using assms
proof (induction ubs arbitrary: mr)
  case (Cons ub ubs)
  obtain b mr1 where s: "rec_find_slot ub mr = Some (b, mr1)" "rec_ok mr1" "rs_size mr1 = rs_size mr" "b \<longleftrightarrow> seqs_fit (rs_size mr) ub"
    using find_slot_total[OF Cons.prems(1), of ub] Cons.prems(2) by auto
  show ?case
  proof (cases b)
    case True
    then show ?thesis using Cons.IH[OF s(2)] Cons.prems(2) s by auto
  next
    case False
    then show ?thesis using s by auto
  qed
next
  case Nil
  then show ?case by auto
qed

lemma rec_prepare_ok:
  assumes "rec_ok mr" "\<forall>ub \<in> set ubs. slot_ubatch ub"
  shows "\<exists>b mr'. rec_prepare ubs mr = Some (b, mr') \<and> rec_ok mr' \<and> rs_cells mr' = rs_cells mr \<and> rs_used mr' = rs_used mr \<and>
    rs_head mr' = rs_head mr \<and> (b \<longleftrightarrow> (\<forall>ub \<in> set ubs. seqs_fit (rs_size mr) ub))"
proof -
  obtain b mr' where "rec_prepare_loop ubs mr = Some (b, mr')" "b \<longleftrightarrow> (\<forall>ub \<in> set ubs. seqs_fit (rs_size mr) ub)"
    using prepare_loop_ok[OF assms] by blast
  then show ?thesis using assms(1) by (simp add: rec_prepare_def rec_ok_def)
qed

section \<open>Computing\<close>

lemma rec_compute_ok:
  assumes ok: "rec_ok mr" and cl: "clean zero states (rs_cells mr)" and cx: "rc_status cx = LLAMA_MEMORY_STATUS_SUCCESS" "\<not> rc_is_full cx"
    and i: "rc_i_next cx < length (rc_ubatches cx)" and ub: "slot_ubatch (rc_ubatches cx ! rc_i_next cx)"
    and fit: "seqs_fit (rs_size mr) (rc_ubatches cx ! rc_i_next cx)"
  shows "\<exists>mr' states'. rec_compute zero f cx (mr, states) = Some (mr', states') \<and> rec_ok mr' \<and> rs_size mr' = rs_size mr \<and>
    clean zero states' (rs_cells mr') \<and>
    rec_view mr' = advance (rc_ubatches cx ! rc_i_next cx) (\<lambda>s _. Some (last_pos (rc_ubatches cx ! rc_i_next cx) s)) (rec_view mr) \<and>
    state_of zero states' (rs_cells mr') = advance (rc_ubatches cx ! rc_i_next cx) f (state_of zero states (rs_cells mr))"
proof -
  let ?ub = "rc_ubatches cx ! rc_i_next cx"
  obtain b mr' where find: "rec_find_slot ?ub mr = Some (b, mr')" "rec_ok mr'" "rs_size mr' = rs_size mr" "b"
    "rec_view mr' = advance ?ub (\<lambda>s _. Some (last_pos ?ub s)) (rec_view mr)" "ub_n_seqs ?ub \<le> rs_n mr'" "rs_head mr' + rs_n mr' \<le> rs_size mr"
    using find_slot_total[OF ok ub] fit by auto
  obtain cs1 mn mx cs3 cs4 cs5 where run: "slot_run ?ub (rs_cells mr) cs1 mn mx cs3 cs4 cs5"
    and eq: "rec_find_slot ?ub mr = Some (True, mr\<lparr>rs_cells := cs5, rs_z := zero_cell cs4 mn mx, rs_head := nat mn,
      rs_n := nat (mx - mn + 1), rs_used := of_nat (occupied cs5)\<rparr>)"
    using find_slot_run[OF ok ub] fit by (auto simp: valid_id_def)
  note d = slot_runD[OF run]
  have mr': "mr' = mr\<lparr>rs_cells := cs5, rs_z := zero_cell cs4 mn mx, rs_head := nat mn, rs_n := nat (mx - mn + 1), rs_used := of_nat (occupied cs5)\<rparr>"
    using eq find(1) by simp
  have len: "length states = rs_size mr'" using cl d(6) by (simp add: clean_def mr')
  have src: "valid_id (rs_cells mr') (mc_src0 (rs_cells mr' ! j))" if "rs_head mr' \<le> j" "j < rs_head mr' + rs_n mr'" for j
  proof -
    have "j < rs_size mr" "mn \<le> int j" "int j \<le> mx" using that find(7) d(9) unfolding mr' by auto
    from staged_source(1)[OF run cl this] show ?thesis using valid_id_length[OF d(6)] by (simp add: mr')
  qed
  have z: "rs_z mr' < 0 \<or> valid_id (rs_cells mr') (rs_z mr')"
    using zero_cell_cases[of cs4 mn mx] d(6,9,10) by (auto simp: mr' valid_id_def)
  have rng: "rs_head mr' + rs_n mr' \<le> rs_size mr'" using find(3,7) by simp
  obtain data old states1 states2 where g: "rs_set_input cx mr' = Some data"
    "build_rs zero states (take (ub_n_seqs ?ub) data) (drop (ub_n_seqs ?ub) data) (ub_n_seqs ?ub) (rec_get_head cx mr') (get_rs_z cx mr') = Some (old, states1)"
    "cpy_rows (map (\<lambda>s. f s (old ! s)) [0..<ub_n_seqs ?ub]) (rec_get_head cx mr') states1 = Some states2"
    "computed zero f (ub_n_seqs ?ub) (rs_head mr') (rs_n mr') (rs_z mr') (rs_cells mr') states states2"
    using graph_computes[OF src rng find(6) z len cx(2), of zero f] by blast
  have comp: "computed zero f (ub_n_seqs ?ub) (nat mn) (nat (mx - mn + 1)) (zero_cell cs4 mn mx) cs5 states states2"
    using g(4) by (simp add: mr')
  have ne: "rc_ubatches cx \<noteq> []" using i by auto
  have "rec_apply cx mr = Some (True, mr')" "rec_ubatch cx = Some ?ub"
    using cx i ne find(1) by (simp_all add: rec_apply_def rec_ubatch_def at_def)
  then have "rec_compute zero f cx (mr, states) = Some (mr', states2)" using g by (simp add: rec_compute_def)
  moreover have "state_of zero states2 cs5 = advance ?ub f (state_of zero states (rs_cells mr))"
  proof
    fix u
    show "state_of zero states2 cs5 u = advance ?ub f (state_of zero states (rs_cells mr)) u"
    proof (cases "set_no ?ub u")
      case None
      then have "\<forall>s < ub_n_seqs ?ub. u \<notin> set (ids_of ?ub s)" by (simp only: set_no_None)
      then have "state_of zero states2 cs5 u = state_of zero states (rs_cells mr) u" by (intro run_computed(3)[OF run cl comp]) blast
      then show ?thesis by (simp only: advance_def None option.case)
    next
      case (Some s)
      then show ?thesis using run_computed(2)[OF run cl comp, of s u] set_no_Some[OF Some] by (simp add: advance_def)
    qed
  qed
  moreover have "clean zero states2 (rs_cells mr')" using run_computed(1)[OF run cl comp] by (simp add: mr')
  ultimately show ?thesis using find(2,3,5) by (auto simp: mr')
qed


text \<open>\<open>do { apply(); ... } while (next());\<close>\<close>

partial_function (option) rec_run ::
  "'a \<Rightarrow> (nat \<Rightarrow> nat \<Rightarrow> 'a \<Rightarrow> 'a) \<Rightarrow> recurrent_context \<Rightarrow> memory_recurrent \<times> 'a list \<Rightarrow> (recurrent_context \<times> memory_recurrent \<times> 'a list) option" where
  "rec_run zero f cx st = do {
     st \<leftarrow> rec_compute zero (f (rc_i_next cx)) cx st;
     (more, cx) \<leftarrow> rec_next cx;
     if more then rec_run zero f cx st else Some (cx, st)
   }"

definition advance_from :: "nat \<Rightarrow> llama_ubatch list \<Rightarrow> (nat \<Rightarrow> nat \<Rightarrow> 'b \<Rightarrow> 'b) \<Rightarrow> (llama_seq_id \<Rightarrow> 'b) \<Rightarrow> llama_seq_id \<Rightarrow> 'b" where
  "advance_from i ubs f x = fold (\<lambda>j. advance (ubs ! j) (f j)) [i..<length ubs] x"

definition pos_of :: "llama_ubatch list \<Rightarrow> nat \<Rightarrow> nat \<Rightarrow> llama_pos option \<Rightarrow> llama_pos option" where
  "pos_of ubs j s p = Some (last_pos (ubs ! j) s)"

lemma rec_run_ok:
  assumes "rec_ok mr" "clean zero states (rs_cells mr)" "rc_status cx = LLAMA_MEMORY_STATUS_SUCCESS" "\<not> rc_is_full cx"
    and "rc_i_next cx < length (rc_ubatches cx)" "\<forall>ub \<in> set (rc_ubatches cx). slot_ubatch ub \<and> seqs_fit (rs_size mr) ub"
  shows "\<exists>cx' mr' states'. rec_run zero f cx (mr, states) = Some (cx', mr', states') \<and> rec_ok mr' \<and> rs_size mr' = rs_size mr \<and>
    clean zero states' (rs_cells mr') \<and>
    rec_view mr' = advance_from (rc_i_next cx) (rc_ubatches cx) (pos_of (rc_ubatches cx)) (rec_view mr) \<and>
    state_of zero states' (rs_cells mr') = advance_from (rc_i_next cx) (rc_ubatches cx) f (state_of zero states (rs_cells mr))"
  using assms
proof (induction "length (rc_ubatches cx) - rc_i_next cx" arbitrary: cx mr states rule: less_induct)
  case less
  let ?i = "rc_i_next cx" and ?ubs = "rc_ubatches cx"
  have ub: "slot_ubatch (?ubs ! ?i)" "seqs_fit (rs_size mr) (?ubs ! ?i)" using less.prems(6) nth_mem[OF less.prems(5)] by blast+
  obtain mr1 states1 where c: "rec_compute zero (f ?i) cx (mr, states) = Some (mr1, states1)" "rec_ok mr1" "rs_size mr1 = rs_size mr"
    "clean zero states1 (rs_cells mr1)" "rec_view mr1 = advance (?ubs ! ?i) (\<lambda>s _. Some (last_pos (?ubs ! ?i) s)) (rec_view mr)"
    "state_of zero states1 (rs_cells mr1) = advance (?ubs ! ?i) (f ?i) (state_of zero states (rs_cells mr))"
    using rec_compute_ok[OF less.prems(1-5) ub, of "f ?i"] by blast
  let ?cx = "cx\<lparr>rc_i_next := ?i + 1\<rparr>"
  have next_cx: "rec_next cx = Some (?i + 1 < length ?ubs, ?cx)" using less.prems(3) by (simp add: rec_next_def Let_def)
  have step: "rec_run zero f cx (mr, states) = (if ?i + 1 < length ?ubs then rec_run zero f ?cx (mr1, states1) else Some (?cx, mr1, states1))"
    by (subst rec_run.simps) (simp add: c(1) next_cx)
  have unroll: "advance_from ?i ?ubs g x = advance_from (?i + 1) ?ubs g (advance (?ubs ! ?i) (g ?i) x)" for g :: "nat \<Rightarrow> nat \<Rightarrow> 'c \<Rightarrow> 'c" and x
    using less.prems(5) by (simp add: advance_from_def upt_conv_Cons)
  have p: "pos_of ?ubs ?i = (\<lambda>s _. Some (last_pos (?ubs ! ?i) s))" by (simp add: pos_of_def fun_eq_iff)
  show ?case
  proof (cases "?i + 1 < length ?ubs")
    case True
    have "\<exists>cx' mr' states'. rec_run zero f ?cx (mr1, states1) = Some (cx', mr', states') \<and> rec_ok mr' \<and> rs_size mr' = rs_size mr1 \<and>
      clean zero states' (rs_cells mr') \<and>
      rec_view mr' = advance_from (rc_i_next ?cx) (rc_ubatches ?cx) (pos_of (rc_ubatches ?cx)) (rec_view mr1) \<and>
      state_of zero states' (rs_cells mr') = advance_from (rc_i_next ?cx) (rc_ubatches ?cx) f (state_of zero states1 (rs_cells mr1))"
      by (rule less.hyps) (use True less.prems c in auto)
    then show ?thesis using True by (simp add: step unroll c(3,5,6) p)
  next
    case False
    then have "[?i + 1..<length ?ubs] = []" by simp
    then show ?thesis using False c by (simp add: step unroll p) (simp add: advance_from_def)
  qed
qed

section \<open>Micro-batches of the splits\<close>

lemma gathered_slot:
  assumes ok: "alloc_ok ba" and g: "gathered ba (concat idxss) (length idxss) True ub" and ne: "idxss \<noteq> []" "0 < t"
    and len: "\<forall>l \<in> set idxss. length l = t"
    and tok: "\<forall>i \<in> set (concat idxss). i < lb_n_tokens (ba_batch ba) \<and> distinct (tok_seqs (ba_batch ba) i) \<and> 0 \<le> the (lb_pos (ba_batch ba)) ! i"
    and pos: "0 < ba_n_pos_per_embd ba" and dis: "disjoint (map (\<lambda>l. ba_seq_set ba ! hd l) idxss)"
  shows "slot_ubatch ub" "seqs_fit (ba_n_seq_max ba) ub"
proof -
  let ?idxs = "concat idxss" and ?n = "length idxss"
  have lc: "length ?idxs = ?n * t" by (rule length_concat_same[OF len])
  have nst: "ub_n_seqs ub = ?n" "ub_n_seq_tokens ub = t" "ub_equal_seqs ub"
    using g lc ne by (auto simp: gathered_def)
  have fst: "first_token ub s < length ?idxs" "first_token ub s + t \<le> length ?idxs" if "s < ?n" for s
  proof -
    have "(s + 1) * t \<le> ?n * t" using that by (intro mult_le_mono1) simp
    then show "first_token ub s < length ?idxs" "first_token ub s + t \<le> length ?idxs" using that lc nst(2) ne(2) by auto
  qed
  have nthc: "?idxs ! first_token ub s = hd (idxss ! s)" if "s < ?n" for s
  proof -
    have "length (idxss ! s) = t" using len that by simp
    then have "idxss ! s \<noteq> []" using ne(2) by auto
    then show ?thesis using concat_nth_same[OF len that ne(2)] nst(2) by (simp add: hd_conv_nth)
  qed
  let ?seqs = "\<lambda>s. tok_seqs (ba_batch ba) (hd (idxss ! s))"
  have sid: "ub_seq_id ub = map (tok_seqs (ba_batch ba)) ?idxs" "ub_n_seq_id ub = map length (ub_seq_id ub)"
    using g by (simp_all add: gathered_def)
  have ids: "ids_of ub s = ?seqs s" if "s < ?n" for s
    using fst(1)[OF that] nthc[OF that] by (simp add: ids_of_def sid)
  have hd_in: "hd (idxss ! s) \<in> set ?idxs" if "s < ?n" for s using nthc[OF that] fst(1)[OF that] nth_mem by metis
  have seqs: "?seqs s \<noteq> []" "\<forall>q \<in> set (?seqs s). 0 \<le> q \<and> q < int (ba_n_seq_max ba)" "distinct (?seqs s)"
    "ba_seq_set ba ! hd (idxss ! s) = nat ` set (?seqs s)" if "s < ?n" for s
    using gather_seqs_ok(2,3)[of _ _ _ "ba_batch ba" "hd (idxss ! s)"] tok hd_in[OF that] ok unfolding alloc_ok_def by auto
  show fit: "seqs_fit (ba_n_seq_max ba) ub" using nst(1) ids seqs(2) by auto
  have "slot_seq ub s" if s: "s < ?n" for s
  proof -
    let ?k = "first_token ub s + ub_n_seq_tokens ub - 1"
    have k: "?k < length ?idxs" using fst(2)[OF s] nst(2) ne(2) by linarith
    have "ub_pos ub ! (0 * length ?idxs + ?k) = the (lb_pos (ba_batch ba)) ! ((if lb_token (ba_batch ba) \<noteq> None then 0 else 0 * lb_n_tokens (ba_batch ba)) + ?idxs ! ?k)"
      using g pos k unfolding gathered_def by blast
    then have "last_pos ub s = the (lb_pos (ba_batch ba)) ! (?idxs ! ?k)" by (simp add: last_pos_def)
    then have "0 \<le> last_pos ub s" using bspec[OF tok nth_mem[OF k]] by simp
    moreover have "length ?idxs \<le> length (ub_pos ub)" using g pos by (simp add: gathered_def)
    ultimately show ?thesis using fst[OF s] nst(2) ids[OF s] seqs(1,3)[OF s] nthc[OF s] unfolding slot_seq_def sid by simp
  qed
  moreover have "set (ids_of ub s) \<inter> set (ids_of ub t') = {}" if s: "s < ?n" and t': "t' < s" for s t'
  proof -
    have "ba_seq_set ba ! hd (idxss ! t') \<inter> ba_seq_set ba ! hd (idxss ! s) = {}"
      using dis s t' by (simp add: disjoint_def sorted_wrt_iff_nth_less)
    then have "nat ` set (?seqs t') \<inter> nat ` set (?seqs s) = {}" using seqs(4)[OF s] seqs(4)[of t'] s t' by simp
    then have "set (?seqs t') \<inter> set (?seqs s) = {}" by auto
    then show ?thesis using ids s t' by auto
  qed
  ultimately show "slot_ubatch ub" using nst ne by (auto simp: slot_ubatch_def)
qed


text \<open>A batch for a recurrent memory of \<open>n\<close> cells; without \<open>embd_all\<close> no token is in several sequences.\<close>

definition rec_batch_for :: "nat \<Rightarrow> bool \<Rightarrow> batch_allocr \<Rightarrow> bool" where
  "rec_batch_for n embd_all ba \<longleftrightarrow> alloc_ok ba \<and> 0 < lb_n_tokens (ba_batch ba) \<and> 0 < ba_n_pos_per_embd ba \<and> ba_n_seq_max ba \<le> n \<and>
     (\<forall>i < lb_n_tokens (ba_batch ba). 0 \<le> the (lb_pos (ba_batch ba)) ! i \<and> distinct (tok_seqs (ba_batch ba) i)) \<and>
     (\<not> embd_all \<longrightarrow> \<not> ba_has_cpl ba \<and> (\<forall>i < lb_n_tokens (ba_batch ba). length (tok_seqs (ba_batch ba) i) = 1))"

lemma shape_slot:
  assumes ba: "rec_batch_for n embd_all ba" and idxs: "set idxs \<subseteq> {..<lb_n_tokens (ba_batch ba)}"
  shows "equal_shape n_ubatch True ba idxs ub \<Longrightarrow> slot_ubatch ub \<and> seqs_fit n ub \<and> (\<exists>n_seqs. gathered ba idxs n_seqs True ub)"
    and "seq_shape n_ubatch ba idxs ub \<Longrightarrow> idxs \<noteq> [] \<Longrightarrow> slot_ubatch ub \<and> seqs_fit n ub \<and> (\<exists>n_seqs. gathered ba idxs n_seqs True ub)"
proof -
  have ok: "alloc_ok ba" and pos: "0 < ba_n_pos_per_embd ba" and le: "int (ba_n_seq_max ba) \<le> int n" using ba by (simp_all add: rec_batch_for_def)
  have tok: "\<forall>i \<in> set idxs. i < lb_n_tokens (ba_batch ba) \<and> distinct (tok_seqs (ba_batch ba) i) \<and> 0 \<le> the (lb_pos (ba_batch ba)) ! i"
    using ba idxs by (auto simp: rec_batch_for_def)
  have wide: "seqs_fit (ba_n_seq_max ba) ub \<Longrightarrow> seqs_fit n ub" using order_less_le_trans[OF _ le] by blast
  show "slot_ubatch ub \<and> seqs_fit n ub \<and> (\<exists>n_seqs. gathered ba idxs n_seqs True ub)" if "equal_shape n_ubatch True ba idxs ub"
  proof -
    obtain idxss t where E: "idxs = concat idxss \<and> gathered ba idxs (length idxss) True ub \<and> idxss \<noteq> [] \<and> length idxss \<le> n_ubatch + 1 \<and>
        0 < t \<and> (t = 1 \<or> t * length idxss \<le> n_ubatch) \<and>
        (\<forall>l \<in> set idxss. length l = t \<and> sorted l \<and> (\<forall>i \<in> set l. ba_seq_set ba ! i = ba_seq_set ba ! hd l)) \<and>
        disjoint (map (\<lambda>l. ba_seq_set ba ! hd l) idxss) \<and> (True \<longrightarrow> consecutive (map (\<lambda>l. lead ba (hd l)) idxss))"
      using \<open>equal_shape n_ubatch True ba idxs ub\<close> unfolding equal_shape_def by (elim exE)
    note e1 = conjunct2[OF E]
    note e2 = conjunct2[OF conjunct2[OF conjunct2[OF e1]]]
    note e = conjunct1[OF E] conjunct1[OF e1] conjunct1[OF conjunct2[OF e1]] conjunct1[OF e2]
      conjunct1[OF conjunct2[OF conjunct2[OF conjunct2[OF e2]]]]
    have l: "\<forall>l \<in> set idxss. length l = t" using E by simp
    have "gathered ba (concat idxss) (length idxss) True ub" using e(2) unfolding e(1) .
    from gathered_slot[OF ok this e(3,4) l tok[unfolded e(1)] pos e(5)] show ?thesis using e(2) wide by blast
  qed
  show "slot_ubatch ub \<and> seqs_fit n ub \<and> (\<exists>n_seqs. gathered ba idxs n_seqs True ub)" if "seq_shape n_ubatch ba idxs ub" "idxs \<noteq> []"
  proof -
    have g: "gathered ba idxs 1 True ub" using that(1) by (simp add: seq_shape_def)
    have "gathered ba (concat [idxs]) (length [idxs]) True ub" "[idxs] \<noteq> []" "0 < length idxs" "\<forall>l \<in> set [idxs]. length l = length idxs"
      "\<forall>i \<in> set (concat [idxs]). i < lb_n_tokens (ba_batch ba) \<and> distinct (tok_seqs (ba_batch ba) i) \<and> 0 \<le> the (lb_pos (ba_batch ba)) ! i"
      "disjoint (map (\<lambda>l. ba_seq_set ba ! hd l) [idxs])"
      using g tok that(2) by (simp_all add: disjoint_def)
    from gathered_slot[OF ok this(1-5) pos this(6)] show ?thesis using g wide by blast
  qed
qed

interpretation seq_more: batch_split "split_seq n_ubatch" alloc_ok "\<lambda>ba idxs ub. seq_shape n_ubatch ba idxs ub \<and> idxs \<noteq> []" for n_ubatch
proof (unfold_locales, goal_cases)
  case (1 ba)
  then show ?case using split_seq_ok[of ba n_ubatch] unfolding pick_def by blast
next
  case (2 ba)
  then show ?case by (rule seq.split_none)
next
  case (3 idxs ba)
  then show ?case using seq.shape_taken[of n_ubatch idxs ba] by simp
qed

lemma splits_ok:
  assumes ba: "rec_batch_for n embd_all ba"
  shows "\<exists>idxss ubs ba'. recurrent_splits embd_all n_ubatch ba = Some (ubs, ba') \<and> mset (concat idxss) = mset [0..<lb_n_tokens (ba_batch ba)] \<and>
    list_all2 (\<lambda>idxs ub. \<exists>n_seqs. gathered ba idxs n_seqs True ub) idxss ubs \<and> ubs \<noteq> [] \<and> (\<forall>ub \<in> set ubs. slot_ubatch ub \<and> seqs_fit n ub) \<and>
    ba_n_used ba' = lb_n_tokens (ba_batch ba')"
proof -
  let ?ba = "split_reset ba" and ?n = "lb_n_tokens (ba_batch ba)"
  have ba': "rec_batch_for n embd_all ?ba" using ba by (simp add: rec_batch_for_def alloc_ok_def) (simp add: split_reset_def)
  then have ok: "alloc_ok ?ba" by (simp add: rec_batch_for_def)
  let ?shape = "\<lambda>idxs ub. if embd_all then seq_shape n_ubatch ?ba idxs ub \<and> idxs \<noteq> [] else equal_shape n_ubatch True ?ba idxs ub"
  have "\<exists>idxss ubs ba'. recurrent_splits embd_all n_ubatch ba = Some (ubs, ba') \<and> list_all2 ?shape idxss ubs \<and>
      mset (concat idxss) = mset (unused ?ba) \<and> unused ba' = [] \<and> alloc_ok ba'"
  proof (cases embd_all)
    case True
    then show ?thesis using seq_more.collect_ok[OF ok, of n_ubatch] by (auto simp: recurrent_splits_def)
  next
    case False
    then have "equal_inv True ?ba" using ba' ok front_reset[of ba] by (simp add: equal_inv_def rec_batch_for_def)
    from equal.collect_ok[OF this, of n_ubatch] show ?thesis using False by (auto simp: recurrent_splits_def equal_inv_def)
  qed
  then obtain idxss ubs ba' where c: "recurrent_splits embd_all n_ubatch ba = Some (ubs, ba')" "list_all2 ?shape idxss ubs"
    "mset (concat idxss) = mset [0..<?n]" "unused ba' = []" "alloc_ok ba'" by auto
  have sub: "set idxs \<subseteq> {..<lb_n_tokens (ba_batch ?ba)}" if "idxs \<in> set idxss" for idxs
  proof -
    have "set (concat idxss) = {..<?n}" using arg_cong[OF c(3), of set_mset] by (simp add: atLeast0LessThan)
    then show ?thesis using that by auto
  qed
  have fit: "list_all2 (\<lambda>idxs ub. slot_ubatch ub \<and> seqs_fit n ub \<and> (\<exists>n_seqs. gathered ba idxs n_seqs True ub)) idxss ubs"
    using c(2)
  proof (rule list.rel_mono_strong)
    fix idxs ub assume i: "idxs \<in> set idxss" and s: "?shape idxs ub"
    have "slot_ubatch ub \<and> seqs_fit n ub \<and> (\<exists>n_seqs. gathered ?ba idxs n_seqs True ub)"
    proof (cases embd_all)
      case True
      then have "seq_shape n_ubatch ?ba idxs ub" "idxs \<noteq> []" using s by simp_all
      from shape_slot(2)[OF ba' sub[OF i] this] show ?thesis .
    next
      case False
      then have "equal_shape n_ubatch True ?ba idxs ub" using s by simp
      from shape_slot(1)[OF ba' sub[OF i] this] show ?thesis .
    qed
    then show "slot_ubatch ub \<and> seqs_fit n ub \<and> (\<exists>n_seqs. gathered ba idxs n_seqs True ub)" by simp
  qed
  have "ba_n_used ba' = lb_n_tokens (ba_batch ba')"
  proof -
    have "length (ba_used ba') = lb_n_tokens (ba_batch ba')" "ba_n_used ba' = length (filter id (ba_used ba'))"
      using c(5) by (simp_all add: alloc_ok_def)
    moreover have "\<forall>x \<in> set (ba_used ba'). x" using c(4) all_used_iff[of ba'] by simp
    ultimately show ?thesis by (simp add: filter_id_conv)
  qed
  moreover have "ubs \<noteq> []"
  proof
    assume "ubs = []"
    then have "idxss = []" using c(2) by simp
    then have "mset [0..<?n] = {#}" using c(3) by (simp only: concat.simps mset.simps)
    then have "size (mset [0..<?n]) = 0" by (simp only: size_empty)
    then have "?n = 0" by simp
    then show False using ba by (simp add: rec_batch_for_def)
  qed
  moreover have "\<forall>ub \<in> set ubs. slot_ubatch ub \<and> seqs_fit n ub"
    using fit by (induction rule: list.rel_induct) (simp, metis set_ConsD)
  moreover have "list_all2 (\<lambda>idxs ub. \<exists>n_seqs. gathered ba idxs n_seqs True ub) idxss ubs"
    using fit by (rule list_all2_mono) blast
  ultimately show ?thesis using c(1,3) by blast
qed


lemma rec_init_batch_ok:
  assumes ok: "rec_ok mr" and ba: "rec_batch_for (rs_size mr) embd_all ba"
  shows "\<exists>cx ba' mr' idxss. rec_init_batch embd_all n_ubatch ba mr = Some (cx, ba', mr') \<and> cx = rec_context_batch (rc_ubatches cx) \<and>
    rec_ok mr' \<and> rs_cells mr' = rs_cells mr \<and> rs_used mr' = rs_used mr \<and> rs_head mr' = rs_head mr \<and>
    mset (concat idxss) = mset [0..<lb_n_tokens (ba_batch ba)] \<and>
    list_all2 (\<lambda>idxs ub. \<exists>n_seqs. gathered ba idxs n_seqs True ub) idxss (rc_ubatches cx) \<and>
    rc_ubatches cx \<noteq> [] \<and> (\<forall>ub \<in> set (rc_ubatches cx). slot_ubatch ub \<and> seqs_fit (rs_size mr) ub)"
proof -
  obtain idxss ubs ba' where s: "recurrent_splits embd_all n_ubatch ba = Some (ubs, ba')" "mset (concat idxss) = mset [0..<lb_n_tokens (ba_batch ba)]"
    "list_all2 (\<lambda>idxs ub. \<exists>n_seqs. gathered ba idxs n_seqs True ub) idxss ubs" "ubs \<noteq> []" "\<forall>ub \<in> set ubs. slot_ubatch ub \<and> seqs_fit (rs_size mr) ub"
    "ba_n_used ba' = lb_n_tokens (ba_batch ba')"
    using splits_ok[OF ba] by blast
  have "\<forall>ub \<in> set ubs. slot_ubatch ub" using s(5) by blast
  then obtain b mr' where p: "rec_prepare ubs mr = Some (b, mr')" "rec_ok mr'" "rs_cells mr' = rs_cells mr" "rs_used mr' = rs_used mr"
    "rs_head mr' = rs_head mr" "b \<longleftrightarrow> (\<forall>ub \<in> set ubs. seqs_fit (rs_size mr) ub)"
    using rec_prepare_ok[OF ok] by blast
  have "b" using p(6) s(5) by blast
  then have "rec_init_batch embd_all n_ubatch ba mr = Some (rec_context_batch ubs, ba', mr')"
    using s(1,6) p(1) by (simp add: rec_init_batch_def)
  then show ?thesis using s(2-5) p(2-5)
    by (intro exI[of _ "rec_context_batch ubs"] exI[of _ ba'] exI[of _ mr'] exI[of _ idxss]) (simp add: rec_context_batch_def)
qed

end
