(* ===== verification/RecurrentReach.thy ===== *)
theory RecurrentReach
  imports RecurrentBatch
begin

text \<open>
  The other operations of the recurrent memory, and the memory as a state machine: every state the operations
  lead to from a new memory keeps the invariant.
\<close>

section \<open>Shifting and dividing positions\<close>

text \<open>Two sequences whose states are in one cell.\<close>

definition shares :: "memory_recurrent \<Rightarrow> llama_seq_id \<Rightarrow> llama_seq_id \<Rightarrow> bool" where
  "shares mr u v \<longleftrightarrow> (\<exists>c < rs_size mr. u \<in> mc_seq_id (rs_cells mr ! c) \<and> v \<in> mc_seq_id (rs_cells mr ! c))"

lemma at_tail_ok:
  assumes ok: "rec_ok mr" and f: "\<And>p. rec_view mr u = Some p \<Longrightarrow> p0 \<le> p \<Longrightarrow> p < p1 \<Longrightarrow> f p = Some (g p) \<and> 0 \<le> g p"
  shows "\<exists>mr'. at_tail f u p0 p1 mr = Some mr' \<and> rec_ok mr' \<and> rs_size mr' = rs_size mr \<and>
    rec_view mr' = (case rec_view mr u of
        Some p \<Rightarrow> if p0 \<le> p \<and> p < p1 then (\<lambda>v. if shares mr u v then Some (g p) else rec_view mr v) else rec_view mr
      | None \<Rightarrow> rec_view mr)"
proof (cases "rec_view mr u")
  case None
  have t: "tails_ok (rs_cells mr)" using ok by (simp add: rec_ok_def state_ok_def)
  have "at_tail f u p0 p1 mr = Some mr"
  proof (cases "0 \<le> u \<and> u < int (rs_size mr)")
    case True
    then have "valid_id (rs_cells mr) u" by (simp add: valid_id_def)
    then show ?thesis using None True by (auto simp: at_tail_def rec_view_def seq_view_def split: if_splits)
  next
    case False
    then show ?thesis by (auto simp: at_tail_def)
  qed
  then show ?thesis using ok None by simp
next
  case (Some p)
  let ?cs = "rs_cells mr" and ?t = "tail (rs_cells mr) u"
  have t: "tails_ok ?cs" and cok: "\<And>c. c < length ?cs \<Longrightarrow> mem_cell_ok c (?cs ! c)" and used: "rs_used mr = of_nat (occupied ?cs)"
    using ok by (auto simp: rec_ok_def state_ok_def)
  have v: "valid_id ?cs u" "0 \<le> ?t" and p: "p = mc_pos (?cs ! nat ?t)" using Some by (auto simp: rec_view_def seq_view_def split: if_splits)
  have r: "valid_id ?cs ?t" and m: "u \<in> ids ?cs (nat ?t)" using tails_okD(3,4)[OF t v(1)] v(2) by auto
  have at: "at_tail f u p0 p1 mr = (if p0 \<le> p \<and> p < p1 then do { pos \<leftarrow> f p; Some (mr\<lparr>rs_cells := upd ?t (\<lambda>c. c\<lparr>mc_pos := pos\<rparr>) ?cs\<rparr>) } else Some mr)"
    using v r m by (auto simp: at_tail_def p has_seq_id_def valid_id_def)
  show ?thesis
  proof (cases "p0 \<le> p \<and> p < p1")
    case True
    define q where "q = g p"
    have q: "f p = Some q" "0 \<le> q" using f[OF Some] True by (simp_all add: q_def)
    let ?cs' = "upd ?t (\<lambda>c. c\<lparr>mc_pos := q\<rparr>) ?cs"
    have nth: "?cs' ! j = (if j = nat ?t then (?cs ! j)\<lparr>mc_pos := q\<rparr> else ?cs ! j)" for j by (rule nth_upd[OF r])
    have sh: "shares mr u w \<longleftrightarrow> valid_id ?cs w \<and> tail ?cs w = ?t" for w
    proof
      assume "shares mr u w"
      then obtain c where "c < length ?cs" "u \<in> ids ?cs c" "w \<in> ids ?cs c" by (auto simp: shares_def)
      then show "valid_id ?cs w \<and> tail ?cs w = ?t" using tails_okD(2)[OF t] by auto
    next
      assume w: "valid_id ?cs w \<and> tail ?cs w = ?t"
      then have "w \<in> ids ?cs (nat ?t)" using tails_okD(4)[OF t, of w] v(2) by auto
      then show "shares mr u w" using m nat_valid_id[OF r] by (auto simp: shares_def)
    qed
    have "tails_ok ?cs'"
      by (rule tails_okI[of _ ?cs "{}"]) (use t nth in auto)
    moreover have "mem_cell_ok c (?cs' ! c)" if "c < length ?cs" for c
      using cok[OF that] q(2) m by (auto simp: nth mem_cell_ok_def)
    moreover have "occupied ?cs' = occupied ?cs" using occupied_upd[OF r, of "\<lambda>c. c\<lparr>mc_pos := q\<rparr>"] by simp
    ultimately have ok': "rec_ok (mr\<lparr>rs_cells := ?cs'\<rparr>)" using ok used by (auto simp: rec_ok_def state_ok_def)
    have tl: "mc_tail (?cs' ! j) = mc_tail (?cs ! j)" and ps: "mc_pos (?cs' ! j) = (if j = nat ?t then q else mc_pos (?cs ! j))" for j
      by (simp_all add: nth)
    have "seq_view ?cs' w = (if shares mr u w then Some q else seq_view ?cs w)" for w
    proof (cases "valid_id ?cs w \<and> 0 \<le> tail ?cs w")
      case True
      then have "nat (tail ?cs w) = nat ?t \<longleftrightarrow> tail ?cs w = ?t" using v(2) by auto
      then show ?thesis using True q(1) by (simp add: seq_view_def tl ps sh)
    next
      case False
      then show ?thesis using v(2) sh[of w] by (auto simp: seq_view_def tl)
    qed
    then have view: "seq_view ?cs' = (\<lambda>w. if shares mr u w then Some q else seq_view ?cs w)" by blast
    have "at_tail f u p0 p1 mr = Some (mr\<lparr>rs_cells := ?cs'\<rparr>)" using at True q(1) by simp
    moreover have "rec_view (mr\<lparr>rs_cells := ?cs'\<rparr>) = (\<lambda>v. if shares mr u v then Some (g p) else rec_view mr v)"
      unfolding rec_view_def q_def[symmetric] using view by simp
    ultimately show ?thesis using True ok' Some by simp
  next
    case False
    then have "at_tail f u p0 p1 mr = Some mr" using at by (simp only: if_False)
    then show ?thesis using ok Some False by (simp only: option.case if_False) blast
  qed
qed

section \<open>Positions of a sequence\<close>

lemma held_once:
  assumes ok: "rec_ok mr"
  shows "c < rs_size mr \<Longrightarrow> u \<in> mc_seq_id (rs_cells mr ! c) \<Longrightarrow> rec_view mr u = Some (mc_pos (rs_cells mr ! c)) \<and> 0 \<le> mc_pos (rs_cells mr ! c)"
    and "rec_view mr u = Some p \<Longrightarrow> \<exists>c < rs_size mr. u \<in> mc_seq_id (rs_cells mr ! c) \<and> mc_pos (rs_cells mr ! c) = p"
proof -
  let ?cs = "rs_cells mr"
  have t: "tails_ok ?cs" and cok: "\<And>c. c < length ?cs \<Longrightarrow> mem_cell_ok c (?cs ! c)" using ok by (auto simp: rec_ok_def state_ok_def)
  show "rec_view mr u = Some (mc_pos (?cs ! c)) \<and> 0 \<le> mc_pos (?cs ! c)" if c: "c < rs_size mr" and u: "u \<in> ids ?cs c"
    using tails_okD(2)[OF t c, of u] u cok[OF c] by (auto simp: rec_view_def seq_view_def mem_cell_ok_def)
  show "\<exists>c < rs_size mr. u \<in> ids ?cs c \<and> mc_pos (?cs ! c) = p" if v: "rec_view mr u = Some p"
  proof -
    have q: "valid_id ?cs u" "0 \<le> tail ?cs u" "p = mc_pos (?cs ! nat (tail ?cs u))"
      using v by (auto simp: rec_view_def seq_view_def split: if_splits)
    have "valid_id ?cs (tail ?cs u)" "u \<in> ids ?cs (nat (tail ?cs u))" using tails_okD(3,4)[OF t q(1)] q(2) by auto
    then show ?thesis using nat_valid_id q(3) by blast
  qed
qed

lemma shares_view: "rec_ok mr \<Longrightarrow> rec_view mr u = Some p \<Longrightarrow> (\<lambda>v. if shares mr u v then Some p else rec_view mr v) = rec_view mr"
  using held_once(1)[of mr] by (fastforce simp: shares_def)

lemma fold_bound:
  fixes g :: "'a \<Rightarrow> int" and op :: "int \<Rightarrow> int \<Rightarrow> int"
  assumes "\<And>c. c \<in> set cs \<Longrightarrow> P c \<Longrightarrow> g c = p" "\<And>x. op (op x p) p = op x p"
  shows "fold (\<lambda>c r. if P c then op r (g c) else r) cs r = (if \<exists>c \<in> set cs. P c then op r p else r)"
  using assms(1)
proof (induction cs arbitrary: r)
  case (Cons c cs)
  then show ?case using assms(2) by auto
qed simp

lemma rec_seq_pos_ok:
  assumes ok: "rec_ok mr"
  shows "rec_seq_pos_max u mr = (case rec_view mr u of None \<Rightarrow> -1 | Some p \<Rightarrow> p)"
    and "(\<And>p. rec_view mr u = Some p \<Longrightarrow> p < INT32_MAX) \<Longrightarrow> rec_seq_pos_min u mr = (case rec_view mr u of None \<Rightarrow> -1 | Some p \<Rightarrow> p)"
proof -
  let ?cs = "rs_cells mr"
  have mem: "(\<exists>c \<in> set ?cs. u \<in> mc_seq_id c) \<longleftrightarrow> (\<exists>p. rec_view mr u = Some p)"
    using held_once[OF ok] by (metis in_set_conv_nth)
  have same: "mc_pos c = p \<and> 0 \<le> p" if "rec_view mr u = Some p" "c \<in> set ?cs" "u \<in> mc_seq_id c" for c p
    using held_once(1)[OF ok, of _ u] that by (metis in_set_conv_nth option.inject)
  have max: "rec_seq_pos_max u mr = (if \<exists>c \<in> set ?cs. has_seq_id c u then max (-1) (the (rec_view mr u)) else -1)"
    unfolding rec_seq_pos_max_def by (rule fold_bound) (use mem same in \<open>auto simp: has_seq_id_def\<close>)
  have min: "fold (\<lambda>c result. if has_seq_id c u then min result (mc_pos c) else result) ?cs INT32_MAX =
      (if \<exists>c \<in> set ?cs. has_seq_id c u then min INT32_MAX (the (rec_view mr u)) else INT32_MAX)"
    by (rule fold_bound) (use mem same in \<open>auto simp: has_seq_id_def\<close>)
  show "rec_seq_pos_max u mr = (case rec_view mr u of None \<Rightarrow> -1 | Some p \<Rightarrow> p)"
  proof (cases "rec_view mr u")
    case None
    then show ?thesis using max mem by (simp add: has_seq_id_def)
  next
    case (Some p)
    then obtain c where c: "c \<in> set ?cs" "u \<in> mc_seq_id c" using mem by blast
    then have "0 \<le> p" using same[OF Some c] by simp
    then show ?thesis using max c Some by (auto simp: has_seq_id_def)
  qed
  assume small: "\<And>p. rec_view mr u = Some p \<Longrightarrow> p < INT32_MAX"
  show "rec_seq_pos_min u mr = (case rec_view mr u of None \<Rightarrow> -1 | Some p \<Rightarrow> p)"
  proof (cases "rec_view mr u")
    case None
    then show ?thesis using min mem by (simp add: rec_seq_pos_min_def has_seq_id_def)
  next
    case (Some p)
    then obtain c where c: "c \<in> set ?cs" "u \<in> mc_seq_id c" using mem by blast
    have "p < INT32_MAX" by (rule small[OF Some])
    moreover have "\<exists>c \<in> set ?cs. has_seq_id c u" using c by (auto simp: has_seq_id_def)
    ultimately show ?thesis using min Some by (simp add: rec_seq_pos_min_def Let_def)
  qed
qed

section \<open>Reachable states\<close>

text \<open>
  A rule carries what the operation needs to keep the memory well-formed. Calls that the source allows and that break
  it are no transitions: \<open>seq_rm\<close> of all sequences, which leaves the tails behind, and \<open>seq_add\<close> to a negative
  position, which is not tested for. Positions stay in the range of \<open>int32_t\<close>, divisors are positive, and the
  micro-batches are those that the splits make: sequence sets that are disjoint.
\<close>

inductive rec_reach :: "nat \<Rightarrow> memory_recurrent \<Rightarrow> bool" for n where
  new: "rec_reach n (recurrent_new n)"
| clear: "rec_reach n mr \<Longrightarrow> rec_reach n (rec_clear mr)"
| rm: "rec_reach n mr \<Longrightarrow> 0 \<le> u \<Longrightarrow> rec_seq_rm u p0 p1 mr = Some (b, mr') \<Longrightarrow> rec_reach n mr'"
| cp: "rec_reach n mr \<Longrightarrow> rec_seq_cp u v p0 p1 mr = Some mr' \<Longrightarrow> rec_reach n mr'"
| keep: "rec_reach n mr \<Longrightarrow> rec_reach n (rec_seq_keep u mr)"
| add: "rec_reach n mr \<Longrightarrow> (\<And>p. rec_view mr u = Some p \<Longrightarrow> lower p0 \<le> p \<Longrightarrow> p < upper p1 \<Longrightarrow> 0 \<le> p + d \<and> in_i32 (p + d)) \<Longrightarrow>
    rec_seq_add u p0 p1 d mr = Some mr' \<Longrightarrow> rec_reach n mr'"
| div: "rec_reach n mr \<Longrightarrow> 0 < d \<Longrightarrow> (\<And>p. rec_view mr u = Some p \<Longrightarrow> in_i32 p) \<Longrightarrow> rec_seq_div u p0 p1 d mr = Some mr' \<Longrightarrow> rec_reach n mr'"
| place: "rec_reach n mr \<Longrightarrow> slot_ubatch ub \<Longrightarrow> rec_find_slot ub mr = Some (b, mr') \<Longrightarrow> rec_reach n mr'"
| prepare: "rec_reach n mr \<Longrightarrow> \<forall>ub \<in> set ubs. slot_ubatch ub \<Longrightarrow> rec_prepare ubs mr = Some (b, mr') \<Longrightarrow> rec_reach n mr'"

lemma rec_add_ok:
  assumes "rec_ok mr" "\<And>p. rec_view mr u = Some p \<Longrightarrow> lower p0 \<le> p \<Longrightarrow> p < upper p1 \<Longrightarrow> 0 \<le> p + d \<and> in_i32 (p + d)"
  shows "\<exists>mr'. rec_seq_add u p0 p1 d mr = Some mr' \<and> rec_ok mr' \<and> rs_size mr' = rs_size mr \<and>
    rec_view mr' = (case rec_view mr u of
        Some p \<Rightarrow> if lower p0 \<le> p \<and> p < upper p1 then (\<lambda>v. if shares mr u v then Some (p + d) else rec_view mr v) else rec_view mr
      | None \<Rightarrow> rec_view mr)"
proof (cases "d = 0")
  case True
  then show ?thesis using assms(1) by (cases "rec_view mr u") (simp_all add: rec_seq_add_def shares_view[OF assms(1)])
next
  case False
  show ?thesis unfolding rec_seq_add_def if_not_P[OF False]
    by (rule at_tail_ok[OF assms(1), where g = "\<lambda>p. p + d"]) (use assms(2) in auto)
qed

lemma rec_div_ok:
  assumes "rec_ok mr" "0 < d" "\<And>p. rec_view mr u = Some p \<Longrightarrow> in_i32 p"
  shows "\<exists>mr'. rec_seq_div u p0 p1 d mr = Some mr' \<and> rec_ok mr' \<and> rs_size mr' = rs_size mr \<and>
    rec_view mr' = (case rec_view mr u of
        Some p \<Rightarrow> if lower p0 \<le> p \<and> p < upper p1 then (\<lambda>v. if shares mr u v then Some (p div d) else rec_view mr v) else rec_view mr
      | None \<Rightarrow> rec_view mr)"
proof -
  have nn: "0 \<le> p" "0 \<le> p div d \<and> in_i32 (p div d)" if "rec_view mr u = Some p" for p
  proof -
    show "0 \<le> p" using held_once[OF assms(1)] that by (metis option.inject)
    then have "p div d \<le> p" using assms(2) zdiv_mono2[of p 1 d] by simp
    moreover have "0 \<le> p div d" using \<open>0 \<le> p\<close> assms(2) by (simp add: pos_imp_zdiv_nonneg_iff)
    ultimately show "0 \<le> p div d \<and> in_i32 (p div d)" using assms(3)[OF that] by (simp add: in_i32_def)
  qed
  have eq: "do { requires (d \<noteq> 0); i32 (c_div p d) } = Some (p div d)" if "rec_view mr u = Some p" for p
    using nn[OF that] assms(2) by (simp add: c_div_nonneg)
  show ?thesis
  proof (cases "d = 1")
    case True
    then show ?thesis using assms(1) by (cases "rec_view mr u") (simp_all add: rec_seq_div_def shares_view[OF assms(1)])
  next
    case False
    show ?thesis unfolding rec_seq_div_def if_not_P[OF False]
      by (rule at_tail_ok[OF assms(1), where g = "\<lambda>p. p div d"]) (use eq nn in blast)
  qed
qed

lemma reach_ok:
  assumes n: "0 < n" "n < 2 ^ 31"
  shows "rec_reach n mr \<Longrightarrow> rec_ok mr \<and> rs_size mr = n"
proof (induction rule: rec_reach.induct)
  case new
  then show ?case using rec_new_ok[OF n] by (simp add: recurrent_new_def)
next
  case (clear mr)
  then show ?case using rec_clear_ok by (simp add: rec_clear_def)
next
  case (rm mr u p0 p1 b mr')
  then show ?case using rec_seq_rm_ok[of mr u p0 p1] by auto
next
  case (cp mr u v p0 p1 mr')
  then show ?case using rec_seq_cp_ok[of mr u v p0 p1] by auto
next
  case (keep mr u)
  then show ?case using rec_seq_keep_ok[of mr u] by simp
next
  case (add mr u p0 p1 d mr')
  then show ?case using rec_add_ok[of mr u p0 p1 d] by auto
next
  case (div mr d u p0 p1 mr')
  then show ?case using rec_div_ok[of mr d u p0 p1] by auto
next
  case (place mr ub b mr')
  then obtain b1 m1 where "rec_find_slot ub mr = Some (b1, m1)" "rec_ok m1" "rs_size m1 = rs_size mr"
    using find_slot_total[of mr ub] by blast
  then show ?case using place by simp
next
  case (prepare mr ubs b mr')
  then obtain b1 m1 where "rec_prepare ubs mr = Some (b1, m1)" "rec_ok m1" "rs_cells m1 = rs_cells mr"
    using rec_prepare_ok[of mr ubs] by blast
  then show ?case using prepare by simp
qed

end
