(* ===== verification/RecurrentProps.thy ===== *)
theory RecurrentProps
  imports RecurrentReach ContextProps
begin

text \<open>Properties of the recurrent memory, with the inputs their witnesses use.\<close>

section \<open>A small memory\<close>

definition pair_ubatch :: "llama_seq_id list list \<Rightarrow> llama_pos list \<Rightarrow> llama_ubatch" where
  "pair_ubatch sets pos = \<lparr>ub_equal_seqs = True, ub_n_tokens = length sets, ub_n_seq_tokens = 1, ub_n_seqs = length sets,
     ub_n_seqs_unq = length sets, ub_n_pos = 1, ub_token = None, ub_embd = None, ub_pos = pos, ub_n_seq_id = map length sets,
     ub_seq_id = sets, ub_seq_id_unq = [], ub_seq_idx = [], ub_output = []\<rparr>"

lemma pair_slot:
  assumes "length pos = length sets" "sets \<noteq> []" "\<forall>s < length sets. sets ! s \<noteq> [] \<and> distinct (sets ! s) \<and> 0 \<le> pos ! s"
    and "\<forall>s < length sets. \<forall>t < s. set (sets ! s) \<inter> set (sets ! t) = {}"
  shows "slot_ubatch (pair_ubatch sets pos)" "s < length sets \<Longrightarrow> ids_of (pair_ubatch sets pos) s = sets ! s"
    "s < length sets \<Longrightarrow> last_pos (pair_ubatch sets pos) s = pos ! s"
  using assms by (auto simp: slot_ubatch_def slot_seq_def pair_ubatch_def ids_of_def last_pos_def)

definition pair_memory :: memory_recurrent where
  "pair_memory = (case rec_find_slot (pair_ubatch [[1], [0]] [0, 0]) (recurrent_new 3) of Some (_, mr) \<Rightarrow> mr)"

lemma pair_memory: "rec_find_slot (pair_ubatch [[1], [0]] [0, 0]) (recurrent_new 3) = Some (True, pair_memory)"
  unfolding pair_memory_def by code_simp

lemma pair_reach: "rec_reach 3 pair_memory"
  by (rule rec_reach.place[OF rec_reach.new _ pair_memory]) (rule pair_slot, auto simp: less_Suc_eq)

lemma pair_ok: "rec_ok pair_memory" "rs_size pair_memory = 3"
  using reach_ok[OF _ _ pair_reach] by auto

lemma pair_view: "rec_view pair_memory 0 = Some 0" "rec_view pair_memory 1 = Some 0" "rec_view pair_memory 2 = None"
  unfolding pair_memory_def by code_simp+

section \<open>The state machine\<close>

text \<open>
  C10: in every state of \<open>rec_reach\<close> the tails point exactly to the cells that hold the sequences, empty cells have no
  position, sources are the cells themselves, and the count of used cells is the number of non-empty cells. These are
  the states that the operations lead to, with two exceptions that break this: removing all sequences at once (C38)
  and shifting a sequence to a negative position; divisors are positive and the sets of a micro-batch are disjoint.
\<close>

theorem recurrent_invariant:
  assumes "0 < n" "n < 2 ^ 31" "rec_reach n mr"
  shows "rec_ok mr \<and> rs_size mr = n"
  by (rule reach_ok[OF assms])

theorem recurrent_invariant_witness: "rec_ok pair_memory \<and> rs_size pair_memory = 3"
  using recurrent_invariant[OF _ _ pair_reach] by simp

section \<open>Sequence operations\<close>

text \<open>
  C13: seen as a map from sequences to positions, \<open>seq_rm\<close> of a sequence deletes its entry if the range holds its
  position, or refuses and changes nothing if the range starts behind 0 and holds it; \<open>seq_cp\<close> copies the entry
  whatever the range of positions is, which it ignores although the interface promises to copy the tokens
  in the range only; \<open>seq_keep\<close> keeps one entry. None of them aborts.
\<close>

theorem recurrent_seq_refines:
  assumes "rec_ok mr" "0 \<le> u" "u < int (rs_size mr)" "0 \<le> v" "v < int (rs_size mr)"
  shows "\<exists>b mr1 mr2. rec_seq_rm u p0 p1 mr = Some (b, mr1) \<and> rec_seq_cp u v p0 p1 mr = Some mr2 \<and>
    rec_ok mr1 \<and> rec_ok mr2 \<and> rec_ok (rec_seq_keep u mr) \<and>
    (b \<longleftrightarrow> (\<forall>p. rec_view mr u = Some p \<longrightarrow> \<not> (0 < lower p0 \<and> lower p0 \<le> p \<and> p < upper p1))) \<and>
    rec_view mr1 = (case rec_view mr u of
        None \<Rightarrow> rec_view mr
      | Some p \<Rightarrow> if b \<and> lower p0 \<le> p \<and> p < upper p1 then (rec_view mr)(u := None) else rec_view mr) \<and>
    rec_view mr2 = (rec_view mr)(v := rec_view mr u) \<and>
    rec_view (rec_seq_keep u mr) = (\<lambda>w. if w = u then rec_view mr u else None)"
proof -
  have v: "valid_id (rs_cells mr) u \<and> valid_id (rs_cells mr) v" using assms by (simp add: valid_id_def)
  obtain b mr1 where rm: "rec_seq_rm u p0 p1 mr = Some (b, mr1)" "rec_ok mr1"
    "b \<longleftrightarrow> (\<forall>p. rec_view mr u = Some p \<longrightarrow> \<not> (0 < lower p0 \<and> lower p0 \<le> p \<and> p < upper p1))"
    "rec_view mr1 = (case rec_view mr u of
        None \<Rightarrow> rec_view mr
      | Some p \<Rightarrow> if b \<and> lower p0 \<le> p \<and> p < upper p1 then (rec_view mr)(u := None) else rec_view mr)"
    using rec_seq_rm_ok[OF assms(1,2), of p0 p1] assms(3) by blast
  obtain mr2 where cp: "rec_seq_cp u v p0 p1 mr = Some mr2" "rec_ok mr2" "rec_view mr2 = (rec_view mr)(v := rec_view mr u)"
    using rec_seq_cp_ok[OF assms(1), of u v p0 p1] unfolding if_P[OF v] by blast
  show ?thesis using rm cp rec_seq_keep_ok[OF assms(1), of u] by blast
qed

theorem recurrent_seq_refines_witness:
  "\<exists>mr1 mr2. rec_seq_rm 1 0 (-1) pair_memory = Some (True, mr1) \<and> rec_view mr1 1 = None \<and>
     rec_seq_cp 1 2 0 (-1) pair_memory = Some mr2 \<and> rec_view mr2 2 = Some 0"
  using recurrent_seq_refines[OF pair_ok(1), of 1 2 0 "-1"] pair_ok(2) pair_view by (auto simp: lower_def upper_def INT32_MAX_def)

text \<open>
  \<open>seq_add\<close> and \<open>seq_div\<close> change the position of the cell, so of all sequences that share it; the positions
  that \<open>seq_pos_min\<close> and \<open>seq_pos_max\<close> find are that of the sequence.
\<close>

theorem recurrent_positions:
  assumes "rec_ok mr" "rec_view mr u = Some p" "lower p0 \<le> p" "p < upper p1" "0 \<le> p + d" "in_i32 (p + d)" "p < INT32_MAX" "0 < k"
  shows "\<exists>mr1 mr2. rec_seq_add u p0 p1 d mr = Some mr1 \<and> rec_seq_div u p0 p1 k mr = Some mr2 \<and> rec_ok mr1 \<and> rec_ok mr2 \<and>
    rec_view mr1 = (\<lambda>v. if shares mr u v then Some (p + d) else rec_view mr v) \<and>
    rec_view mr2 = (\<lambda>v. if shares mr u v then Some (p div k) else rec_view mr v) \<and>
    rec_seq_pos_max u mr = p \<and> rec_seq_pos_min u mr = p"
proof -
  let ?f = "\<lambda>q. \<lambda>v. if shares mr u v then Some q else rec_view mr v"
  have p: "0 \<le> p" using held_once[OF assms(1)] assms(2) by (metis option.inject)
  obtain mr1 where add: "rec_seq_add u p0 p1 d mr = Some mr1" "rec_ok mr1" "rec_view mr1 = ?f (p + d)"
    using rec_add_ok[OF assms(1), of u p0 p1 d] assms(2-6) by auto
  have "in_i32 p" using p assms(7) by (simp add: in_i32_def INT32_MAX_def)
  then obtain mr2 where div: "rec_seq_div u p0 p1 k mr = Some mr2" "rec_ok mr2" "rec_view mr2 = ?f (p div k)"
    using rec_div_ok[OF assms(1,8), of u p0 p1] assms(2-4) by auto
  show ?thesis using add div rec_seq_pos_ok[OF assms(1), of u] assms(2,7) by simp
qed

theorem recurrent_positions_witness:
  "\<exists>mr1. rec_seq_add 1 0 (-1) 5 pair_memory = Some mr1 \<and> rec_view mr1 1 = Some 5 \<and> rec_seq_pos_max 1 pair_memory = 0"
proof -
  have "shares pair_memory 1 1" using held_once(2)[OF pair_ok(1) pair_view(2)] by (auto simp: shares_def)
  then show ?thesis
    using recurrent_positions[OF pair_ok(1) pair_view(2), of 0 "-1" 5 2] by (auto simp: lower_def upper_def INT32_MAX_def in_i32_def)
qed

section \<open>Slots\<close>

text \<open>
  C12: from every well-formed memory \<open>find_slot\<close> ends without an abort on every micro-batch of disjoint sets. It returns \<open>true\<close> exactly if all
  sequences have a number below the size of the memory; then the sets lie side by side at the head, inside of
  the range of the graph, each with its last position, and the other sequences have kept theirs.
\<close>

theorem recurrent_find_slot_correct:
  assumes "rec_ok mr" "slot_ubatch ub"
  shows "\<exists>b mr'. rec_find_slot ub mr = Some (b, mr') \<and> rec_ok mr' \<and> rs_size mr' = rs_size mr \<and>
    (b \<longleftrightarrow> (\<forall>s < ub_n_seqs ub. \<forall>u \<in> set (ids_of ub s). 0 \<le> u \<and> u < int (rs_size mr))) \<and>
    (b \<longrightarrow> rec_view mr' = advance ub (\<lambda>s _. Some (last_pos ub s)) (rec_view mr) \<and>
      ub_n_seqs ub \<le> rs_n mr' \<and> rs_head mr' + rs_n mr' \<le> rs_size mr \<and>
      (\<forall>s < ub_n_seqs ub. mc_seq_id (rs_cells mr' ! (rs_head mr' + s)) = set (ids_of ub s)))"
  by (rule find_slot_total[OF assms])

theorem recurrent_find_slot_correct_witness:
  "\<exists>mr'. rec_find_slot (pair_ubatch [[2], [1]] [0, 1]) pair_memory = Some (True, mr') \<and>
     rec_view mr' 0 = Some 0 \<and> rec_view mr' 1 = Some 1 \<and> rec_view mr' 2 = Some 0"
proof -
  let ?ub = "pair_ubatch [[2], [1]] [0, 1]"
  have ub: "slot_ubatch ?ub" "ids_of ?ub 0 = [2]" "ids_of ?ub 1 = [1]" "last_pos ?ub 0 = 0" "last_pos ?ub 1 = 1" "ub_n_seqs ?ub = 2"
    using pair_slot[of "[0, 1]" "[[2], [1]]"] by (auto simp: less_Suc_eq pair_ubatch_def)
  have "\<forall>s < ub_n_seqs ?ub. \<forall>u \<in> set (ids_of ?ub s). 0 \<le> u \<and> u < int (rs_size pair_memory)"
    using ub pair_ok(2) by (auto simp: less_Suc_eq numeral_2_eq_2)
  moreover obtain b mr' where "rec_find_slot ?ub pair_memory = Some (b, mr')"
    "b \<longleftrightarrow> (\<forall>s < ub_n_seqs ?ub. \<forall>u \<in> set (ids_of ?ub s). 0 \<le> u \<and> u < int (rs_size pair_memory))"
    "b \<longrightarrow> rec_view mr' = advance ?ub (\<lambda>s _. Some (last_pos ?ub s)) (rec_view pair_memory)"
    using recurrent_find_slot_correct[OF pair_ok(1) ub(1)] by (elim exE conjE) blast
  ultimately have "rec_find_slot ?ub pair_memory = Some (True, mr')" "rec_view mr' = advance ?ub (\<lambda>s _. Some (last_pos ?ub s)) (rec_view pair_memory)"
    by simp_all
  moreover have "set_no ?ub 0 = None" "set_no ?ub 1 = Some 1" "set_no ?ub 2 = Some 0"
    using ub by (simp_all add: set_no_def upt_rec)
  ultimately show ?thesis using ub pair_view by (simp add: advance_def)
qed

section \<open>Batches\<close>

text \<open>A batch with coupled sequences is not split sequentially: the first micro-batch is empty.\<close>

lemma coupled_fails:
  assumes "ba_has_cpl ba" "0 < lb_n_tokens (ba_batch ba)"
  shows "\<exists>ba'. rec_init_batch False n_ubatch ba mr = Some (rec_context_status LLAMA_MEMORY_STATUS_FAILED_PREPARE, ba', mr)"
proof -
  have "recurrent_splits False n_ubatch ba = Some ([], split_reset ba)"
    using assms(1) by (simp add: recurrent_splits_def collect.simps split_equal_def split_reset_def ubatch_none_def)
  then show ?thesis using assms(2) by (simp add: rec_init_batch_def split_reset_def)
qed

lemma batch_served:
  assumes "rec_ok mr" "clean zero states (rs_cells mr)" "rec_batch_for (rs_size mr) embd_all ba"
  shows "\<exists>cx ba' mr1 idxss cx' mr2 states2. rec_init_batch embd_all n_ubatch ba mr = Some (cx, ba', mr1) \<and>
    rec_context_status LLAMA_MEMORY_STATUS_FAILED_PREPARE \<noteq> cx \<and> rs_cells mr1 = rs_cells mr \<and>
    mset (concat idxss) = mset [0..<lb_n_tokens (ba_batch ba)] \<and>
    list_all2 (\<lambda>idxs ub. \<exists>n_seqs. gathered ba idxs n_seqs True ub) idxss (rc_ubatches cx) \<and>
    rec_run zero f cx (mr1, states) = Some (cx', mr2, states2) \<and> rec_ok mr2 \<and> clean zero states2 (rs_cells mr2) \<and>
    rec_view mr2 = advance_from 0 (rc_ubatches cx) (pos_of (rc_ubatches cx)) (rec_view mr) \<and>
    state_of zero states2 (rs_cells mr2) = advance_from 0 (rc_ubatches cx) f (state_of zero states (rs_cells mr))"
proof -
  obtain cx ba' mr1 idxss where i: "rec_init_batch embd_all n_ubatch ba mr = Some (cx, ba', mr1)" "cx = rec_context_batch (rc_ubatches cx)"
    "rec_ok mr1" "rs_cells mr1 = rs_cells mr" "mset (concat idxss) = mset [0..<lb_n_tokens (ba_batch ba)]"
    "list_all2 (\<lambda>idxs ub. \<exists>n_seqs. gathered ba idxs n_seqs True ub) idxss (rc_ubatches cx)" "rc_ubatches cx \<noteq> []"
    "\<forall>ub \<in> set (rc_ubatches cx). slot_ubatch ub \<and> seqs_fit (rs_size mr) ub"
    using rec_init_batch_ok[OF assms(1,3), of n_ubatch] by blast
  have cx: "rc_status cx = LLAMA_MEMORY_STATUS_SUCCESS" "\<not> rc_is_full cx" "rc_i_next cx = 0"
    using arg_cong[OF i(2), of rc_status] arg_cong[OF i(2), of rc_is_full] arg_cong[OF i(2), of rc_i_next]
    by (simp_all add: rec_context_batch_def)
  have "\<forall>ub \<in> set (rc_ubatches cx). slot_ubatch ub \<and> seqs_fit (rs_size mr1) ub" using i(4,8) by simp
  moreover have "rc_i_next cx < length (rc_ubatches cx)" using i(7) cx(3) by simp
  ultimately obtain cx' mr2 states2 where "rec_run zero f cx (mr1, states) = Some (cx', mr2, states2)" "rec_ok mr2" "clean zero states2 (rs_cells mr2)"
    "rec_view mr2 = advance_from 0 (rc_ubatches cx) (pos_of (rc_ubatches cx)) (rec_view mr)"
    "state_of zero states2 (rs_cells mr2) = advance_from 0 (rc_ubatches cx) f (state_of zero states (rs_cells mr))"
    using rec_run_ok[OF i(3) _ cx(1,2), of zero states f] assms(2) i(4) cx(3) by (auto simp: rec_view_def)
  moreover have "rec_context_status LLAMA_MEMORY_STATUS_FAILED_PREPARE \<noteq> cx" using cx(1) by (auto simp: rec_context_status_def)
  ultimately show ?thesis using i by blast
qed

text \<open>
  C11: a well-formed recurrent memory whose empty cells have the zero state, and a batch that was accepted for at most
  as many sequences as it has cells, whose tokens name no sequence twice. If some token has coupled sequences and
  embeddings are not wanted for all tokens, \<open>init_batch\<close> only reports that it failed and the memory is as it was.
  Otherwise the batch is served. \<open>init_batch\<close> prepares it without touching the cells, its micro-batches hold every
  token exactly once, and the loop of \<open>apply\<close> and \<open>next\<close> ends; after it the state of every sequence is its old
  one (zero, if it had none) advanced by its micro-batches in order.
\<close>

theorem recurrent_batch_served:
  assumes "rec_ok mr" "clean zero states (rs_cells mr)" "fresh ba" "0 < lb_n_tokens (ba_batch ba)" "0 < ba_n_pos_per_embd ba"
    and "ba_n_seq_max ba \<le> rs_size mr"
    and "\<forall>i < lb_n_tokens (ba_batch ba). 0 \<le> the (lb_pos (ba_batch ba)) ! i \<and> distinct (tok_seqs (ba_batch ba) i)"
  shows "if ba_has_cpl ba \<and> \<not> embd_all
    then \<exists>ba'. rec_init_batch embd_all n_ubatch ba mr = Some (rec_context_status LLAMA_MEMORY_STATUS_FAILED_PREPARE, ba', mr)
    else \<exists>cx ba' mr1 idxss cx' mr2 states2. rec_init_batch embd_all n_ubatch ba mr = Some (cx, ba', mr1) \<and>
      rec_context_status LLAMA_MEMORY_STATUS_FAILED_PREPARE \<noteq> cx \<and> rs_cells mr1 = rs_cells mr \<and>
      mset (concat idxss) = mset [0..<lb_n_tokens (ba_batch ba)] \<and>
      list_all2 (\<lambda>idxs ub. \<exists>n_seqs. gathered ba idxs n_seqs True ub) idxss (rc_ubatches cx) \<and>
      rec_run zero f cx (mr1, states) = Some (cx', mr2, states2) \<and> rec_ok mr2 \<and> clean zero states2 (rs_cells mr2) \<and>
      rec_view mr2 = advance_from 0 (rc_ubatches cx) (pos_of (rc_ubatches cx)) (rec_view mr) \<and>
      state_of zero states2 (rs_cells mr2) = advance_from 0 (rc_ubatches cx) f (state_of zero states (rs_cells mr))"
proof (cases "ba_has_cpl ba \<and> \<not> embd_all")
  case True
  then show ?thesis using coupled_fails[of ba n_ubatch mr] assms(4) by simp
next
  case False
  have "rec_batch_for (rs_size mr) embd_all ba"
    using assms(3-7) False fresh_equal[OF assms(3), of True] by (auto simp: rec_batch_for_def fresh_def equal_inv_def)
  note served = batch_served[OF assms(1,2) this, of n_ubatch f]
  show ?thesis unfolding if_not_P[OF False] by (rule served)
qed

text \<open>A batch of one token of two sequences.\<close>

definition coupled_allocr :: batch_allocr where
  "coupled_allocr = snd (the (init (doc_batch [[0, 1]] [0]) 8 None 1 2 False (allocr_new 1)))"

lemma coupled_allocr: "fresh coupled_allocr" "ba_n_seq_max coupled_allocr = 2" "ba_n_pos_per_embd coupled_allocr = 1"
  "lb_n_tokens (ba_batch coupled_allocr) = 1" "tok_seqs (ba_batch coupled_allocr) 0 = [0, 1]" "the (lb_pos (ba_batch coupled_allocr)) = [0]"
  "ba_has_cpl coupled_allocr"
proof -
  let ?inp = "doc_batch [[0, 1]] [0]"
  have inp: "input_ok (ba_n_pos_per_embd (allocr_new 1)) 1 ?inp" "memory_ok None (lb_n_tokens ?inp) 2"
    by (auto simp: input_ok_def doc_batch_def in_ns_def in_ids_def INT32_MAX_def memory_ok_def allocr_new_def)
  have acc: "map_option fst (init ?inp 8 None 1 2 False (allocr_new 1)) = Some True" by code_simp
  then obtain ba where ba: "init ?inp 8 None 1 2 False (allocr_new 1) = Some (True, ba)" by auto
  have eq: "coupled_allocr = ba" using ba by (simp add: coupled_allocr_def)
  show "fresh coupled_allocr" "ba_n_seq_max coupled_allocr = 2" "ba_n_pos_per_embd coupled_allocr = 1"
    using init_ok[OF inp(1) _ inp(2), of 8 False] ba by (auto simp: eq allocr_new_def split: if_splits)
  show "lb_n_tokens (ba_batch coupled_allocr) = 1" "tok_seqs (ba_batch coupled_allocr) 0 = [0, 1]"
    "the (lb_pos (ba_batch coupled_allocr)) = [0]" "ba_has_cpl coupled_allocr" by code_simp+
qed

theorem recurrent_batch_served_witness:
  "(\<exists>cx ba' mr1 cx' mr2 states. rec_init_batch False 2 pair_allocr (recurrent_new 2) = Some (cx, ba', mr1) \<and>
     rec_run 0 (\<lambda>_ _ x. x + 1) cx (mr1, [0, 0]) = Some (cx', mr2, states) \<and> rec_ok mr2 \<and>
     (\<lambda>u. state_of (0::nat) states (rs_cells mr2) u) =
       advance_from 0 (rc_ubatches cx) (\<lambda>_ _ x. x + 1) (\<lambda>u. state_of 0 [0, 0] (rs_cells (recurrent_new 2)) u)) \<and>
   (\<exists>ba'. rec_init_batch False 2 coupled_allocr (recurrent_new 2) =
     Some (rec_context_status LLAMA_MEMORY_STATUS_FAILED_PREPARE, ba', recurrent_new 2))"
proof -
  have ok: "rec_ok (recurrent_new 2)" using rec_new_ok[of 2] by simp
  have cl: "clean (0::nat) [0, 0] (rs_cells (recurrent_new 2))"
    by (auto simp: clean_def clean_cells_def recurrent_new_def new_cell_def valid_id_def nth_Cons split: nat.splits)
  have size: "rs_size (recurrent_new 2) = 2" by (simp add: recurrent_new_def)
  have b: "batch_for four_cells pair_allocr" by (rule four_cells(6))
  have "\<forall>i < lb_n_tokens (ba_batch pair_allocr). 0 \<le> the (lb_pos (ba_batch pair_allocr)) ! i \<and> distinct (tok_seqs (ba_batch pair_allocr) i)"
    using b by (simp add: batch_for_def)
  from recurrent_batch_served[OF ok cl pair_allocr(1) _ _ _ this, of False 2 "\<lambda>_ _ x. x + 1"] pair_allocr(2,3,5,6) size
  have served: "\<exists>cx ba' mr1 cx' mr2 states. rec_init_batch False 2 pair_allocr (recurrent_new 2) = Some (cx, ba', mr1) \<and>
     rec_run 0 (\<lambda>_ _ x. x + 1) cx (mr1, [0, 0]) = Some (cx', mr2, states) \<and> rec_ok mr2 \<and>
     (\<lambda>u. state_of (0::nat) states (rs_cells mr2) u) =
       advance_from 0 (rc_ubatches cx) (\<lambda>_ _ x. x + 1) (\<lambda>u. state_of 0 [0, 0] (rs_cells (recurrent_new 2)) u)" by auto
  have "\<forall>i < lb_n_tokens (ba_batch coupled_allocr). 0 \<le> the (lb_pos (ba_batch coupled_allocr)) ! i \<and> distinct (tok_seqs (ba_batch coupled_allocr) i)"
    by (simp add: coupled_allocr)
  from recurrent_batch_served[OF ok cl coupled_allocr(1) _ _ _ this, of False 2] coupled_allocr(2-4,7) size served
  show ?thesis by simp
qed

section \<open>Removing everything\<close>

text \<open>
  C38: \<open>seq_rm\<close> with sequence -1 over all positions, the fallback of the tools when a part cannot be removed, returns
  \<open>true\<close> and empties the cells but leaves the tails; the next micro-batch of a sequence that had a state
  then fails the assertion of \<open>find_slot\<close> that its cell holds the sequence.
\<close>

theorem recurrent_rm_all_aborts:
  assumes "rec_ok mr" "rec_view mr u = Some p" "p < INT32_MAX" "slot_ubatch ub" "ub_n_seqs ub = 1" "ids_of ub 0 = [u]"
  shows "\<exists>mr'. rec_seq_rm (-1) (-1) (-1) mr = Some (True, mr') \<and> rec_find_slot ub mr' = None"
proof -
  let ?cs = "rs_cells mr" and ?rm = "rm_cell (-1) 0 INT32_MAX"
  have t: "tails_ok ?cs" using assms(1) by (simp add: rec_ok_def state_ok_def)
  have v: "valid_id ?cs u" "0 \<le> tail ?cs u" "p = mc_pos (?cs ! nat (tail ?cs u))"
    using assms(2) by (auto simp: rec_view_def seq_view_def split: if_splits)
  have r: "valid_id ?cs (tail ?cs u)" using tails_okD(3)[OF t v(1)] v(2) by simp
  have p: "0 \<le> p" using held_once[OF assms(1)] assms(2) by (metis option.inject)
  obtain cells used new_head where loop: "each_cell (rm_turn (rs_size mr) (-1) 0 INT32_MAX) 0 ?cs (rs_used mr, rs_size mr) = (cells, used, new_head)"
    by (metis prod_cases3)
  have cells: "cells = map (\<lambda>i. ?rm i (?cs ! i)) [0..<rs_size mr]"
    using each_cell_cells[of "rm_turn (rs_size mr) (-1) 0 INT32_MAX" ?rm 0 ?cs "(rs_used mr, rs_size mr)"] loop rm_turn_cell by simp
  let ?h = "if new_head \<noteq> rs_size mr \<and> new_head < rs_head mr then new_head else rs_head mr"
  let ?mr = "mr\<lparr>rs_cells := cells, rs_used := used, rs_head := ?h\<rparr>"
  have rm: "rec_seq_rm (-1) (-1) (-1) mr = Some (True, ?mr)"
    using loop by (simp add: rec_seq_rm_def rm_check_def lower_def upper_def Let_def)
  have len: "length cells = rs_size mr" by (simp add: cells)
  note rr = valid_id_length[OF len]
  have tail: "tail cells u = tail ?cs u" using nat_valid_id[OF v(1)] by (simp add: cells rm_cell_def rm_turn_def Let_def)
  have gone: "u \<notin> ids cells (nat (tail ?cs u))"
    using nat_valid_id[OF r] v(3) p assms(3) by (simp add: cells rm_cell_def rm_turn_def Let_def)
  have owns: "owns_cell u cells (cells ! nat u) = None"
    using v(2) r rr gone by (simp add: owns_cell_def tail has_seq_id_def)
  note d = slot_ubatchD[OF assms(4), of 0]
  have n1: "at (ub_n_seq_id ub) 0 = Some 1" "at (ub_seq_id ub) 0 = Some (ub_seq_id ub ! 0)" "at (ub_seq_id ub ! 0) 0 = Some u"
    using d(2,3) d(4)[of 0] assms(5,6) by (simp_all del: at_Some)
  have up1: "[0..<1] = [0::nat]" by simp
  have claim: "claim_set ub 0 (True, cells, x) = Some (True, cells, x)" for x
    using v(1) rr by (simp add: claim_set_def claim_id_def n1 up1 below_in_range Let_def del: at_Some upt_Suc One_nat_def)
  have use: "usable_cell ub 0 (cells, e, mn, mx) = None" for e mn mx
    using first_id_of[OF assms(4), of 0] assms(5,6) v(1) rr owns by (simp add: usable_cell_def first_of_def)
  have "ub_equal_seqs ub" using assms(4) by (simp add: slot_ubatch_def)
  then have "rec_find_slot ub ?mr = None"
    unfolding rec_find_slot_def Let_def assms(5) up1 by (simp add: claim use split: Option.bind_splits)
  then show ?thesis using rm by blast
qed


theorem recurrent_rm_all_aborts_witness:
  "\<exists>mr'. rec_seq_rm (-1) (-1) (-1) pair_memory = Some (True, mr') \<and> rec_find_slot (pair_ubatch [[1]] [1]) mr' = None"
proof -
  have ub: "slot_ubatch (pair_ubatch [[1]] [1])" "ids_of (pair_ubatch [[1]] [1]) 0 = [1]" "ub_n_seqs (pair_ubatch [[1]] [1]) = 1"
    using pair_slot[of "[1]" "[[1]]"] by (auto simp: pair_ubatch_def)
  show ?thesis by (rule recurrent_rm_all_aborts[OF pair_ok(1) pair_view(2) _ ub(1,3,2)]) (simp add: INT32_MAX_def)
qed

end
