(* ===== verification/Iswa.thy ===== *)
theory Iswa
  imports KvContext
begin

text \<open>
  The cache of models that mix full attention with sliding windows (\<open>src/llama-kv-cache-iswa.cpp\<close>): a base cache
  for the layers without a window and a smaller one for the layers with it, which receive the same calls.
\<close>

record kv_cache_iswa =
  iw_unified :: bool
  iw_base :: kv_cache
  iw_swa :: kv_cache

text \<open>The size of the cache with the window, in \<open>uint32_t\<close>.\<close>

definition iswa_size :: "bool \<Rightarrow> bool \<Rightarrow> nat \<Rightarrow> nat \<Rightarrow> nat \<Rightarrow> nat \<Rightarrow> nat" where
  "iswa_size swa_full unified kv_size n_swa n_seq_max n_ubatch =
     (if swa_full then kv_size
      else GGML_PAD (unat (min (of_nat kv_size :: 32 word)
        (of_nat n_swa * (if unified then of_nat n_seq_max else 1) + of_nat n_ubatch))) 256)"

definition iswa_new ::
  "bool \<Rightarrow> bool \<Rightarrow> bool \<Rightarrow> nat \<Rightarrow> nat \<Rightarrow> nat \<Rightarrow> nat \<Rightarrow> nat \<Rightarrow> llama_swa_type \<Rightarrow> nat \<Rightarrow> nat \<Rightarrow> bool \<Rightarrow> kv_cache_iswa option" where
  "iswa_new v_trans swa_full unified kv_size n_seq_max n_ubatch n_pad n_swa swa_type n_pos n_embd_v alibi = do {
     let size_swa = iswa_size swa_full unified kv_size n_swa n_seq_max n_ubatch;
     base \<leftarrow> kv_cache_init v_trans unified kv_size n_seq_max n_pad 0 LLAMA_SWA_TYPE_NONE n_pos n_embd_v alibi;
     swa \<leftarrow> kv_cache_init v_trans unified size_swa n_seq_max n_pad n_swa swa_type n_pos n_embd_v alibi;
     Some \<lparr>iw_unified = unified, iw_base = base, iw_swa = swa\<rparr>
   }"

section \<open>Sequence operations\<close>

definition iswa_clear :: "kv_cache_iswa \<Rightarrow> kv_cache_iswa" where
  "iswa_clear iw = iw\<lparr>iw_base := kv_clear (iw_base iw), iw_swa := kv_clear (iw_swa iw)\<rparr>"

text \<open>\<open>seq_rm\<close> of a cache returns \<open>true\<close>.\<close>

definition both :: "(kv_cache \<Rightarrow> kv_cache option) \<Rightarrow> kv_cache_iswa \<Rightarrow> kv_cache_iswa option" where
  "both f iw = do {
     base \<leftarrow> f (iw_base iw);
     swa \<leftarrow> f (iw_swa iw);
     Some (iw\<lparr>iw_base := base, iw_swa := swa\<rparr>)
   }"

definition iswa_seq_rm :: "llama_seq_id \<Rightarrow> llama_pos \<Rightarrow> llama_pos \<Rightarrow> kv_cache_iswa \<Rightarrow> (bool \<times> kv_cache_iswa) option" where
  "iswa_seq_rm seq_id p0 p1 iw = map_option (Pair True) (both (kv_seq_rm seq_id p0 p1) iw)"

definition iswa_seq_cp :: "llama_seq_id \<Rightarrow> llama_seq_id \<Rightarrow> llama_pos \<Rightarrow> llama_pos \<Rightarrow> kv_cache_iswa \<Rightarrow> kv_cache_iswa option" where
  "iswa_seq_cp seq_id_src seq_id_dst p0 p1 iw = both (kv_seq_cp seq_id_src seq_id_dst p0 p1) iw"

definition iswa_seq_keep :: "llama_seq_id \<Rightarrow> kv_cache_iswa \<Rightarrow> kv_cache_iswa option" where
  "iswa_seq_keep seq_id iw = both (kv_seq_keep seq_id) iw"

definition iswa_seq_add :: "llama_seq_id \<Rightarrow> llama_pos \<Rightarrow> llama_pos \<Rightarrow> llama_pos \<Rightarrow> kv_cache_iswa \<Rightarrow> kv_cache_iswa option" where
  "iswa_seq_add seq_id p0 p1 shift iw = both (kv_seq_add seq_id p0 p1 shift) iw"

definition iswa_seq_div :: "llama_seq_id \<Rightarrow> llama_pos \<Rightarrow> llama_pos \<Rightarrow> int \<Rightarrow> kv_cache_iswa \<Rightarrow> kv_cache_iswa option" where
  "iswa_seq_div seq_id p0 p1 d iw = both (kv_seq_div seq_id p0 p1 d) iw"

definition iswa_seq_pos_min :: "llama_seq_id \<Rightarrow> kv_cache_iswa \<Rightarrow> llama_pos option" where
  "iswa_seq_pos_min seq_id iw = kv_seq_pos_min (iw_swa iw) seq_id"

definition iswa_seq_pos_max :: "llama_seq_id \<Rightarrow> kv_cache_iswa \<Rightarrow> llama_pos option" where
  "iswa_seq_pos_max seq_id iw = kv_seq_pos_max (iw_swa iw) seq_id"

definition iswa_can_shift :: "kv_cache_iswa \<Rightarrow> bool option" where
  "iswa_can_shift iw = do {
     base \<leftarrow> get_size (iw_base iw);
     swa \<leftarrow> get_size (iw_swa iw);
     Some (base = swa)
   }"

section \<open>Contexts\<close>

record iswa_context =
  ix_i_next :: nat
  ix_ubatches :: "llama_ubatch list"
  ix_parts :: "(kv_context \<times> kv_context) option"
  ix_status :: llama_memory_status

definition iswa_context_status :: "llama_memory_status \<Rightarrow> iswa_context" where
  "iswa_context_status status = \<lparr>ix_i_next = 0, ix_ubatches = [], ix_parts = None, ix_status = status\<rparr>"

definition iswa_combine :: "llama_ubatch list \<Rightarrow> kv_context \<Rightarrow> kv_context \<Rightarrow> iswa_context" where
  "iswa_combine ubatches cb cs = \<lparr>ix_i_next = 0, ix_ubatches = ubatches, ix_parts = Some (cb, cs),
     ix_status = llama_memory_status_combine (cx_status cb) (cx_status cs)\<rparr>"

definition iswa_init_full :: "kv_cache_iswa \<Rightarrow> iswa_context option" where
  "iswa_init_full iw = do {
     cb \<leftarrow> init_full (iw_base iw);
     cs \<leftarrow> init_full (iw_swa iw);
     Some (iswa_combine [] cb cs)
   }"

definition iswa_init_update :: "kv_cache_iswa \<Rightarrow> iswa_context \<times> kv_cache_iswa" where
  "iswa_init_update iw =
     (case init_update (iw_base iw) of (cb, base) \<Rightarrow>
      case init_update (iw_swa iw) of (cs, swa) \<Rightarrow>
      (iswa_combine [] cb cs, iw\<lparr>iw_base := base, iw_swa := swa\<rparr>))"

text \<open>One attempt with one way to split: the slots of both caches and the micro-batches, or a break.\<close>

definition iswa_attempt ::
  "(batch_allocr \<Rightarrow> (llama_ubatch \<times> batch_allocr) option) \<Rightarrow> batch_allocr \<Rightarrow> kv_cache_iswa \<Rightarrow>
   (iswa_context option \<times> batch_allocr \<times> kv_cache_iswa) option" where
  "iswa_attempt split ba iw = do {
     (ubatches, ba) \<leftarrow> collect split [] (split_reset ba);
     if ba_n_used ba < lb_n_tokens (ba_batch ba) then Some (None, ba, iw)
     else do {
       (sinfos_base, base) \<leftarrow> prepare ubatches (iw_base iw);
       let iw = iw\<lparr>iw_base := base\<rparr>;
       if sinfos_base = [] then Some (None, ba, iw)
       else do {
         (sinfos_swa, swa) \<leftarrow> prepare ubatches (iw_swa iw);
         let iw = iw\<lparr>iw_swa := swa\<rparr>;
         if sinfos_swa = [] then Some (None, ba, iw)
         else do {
           requires (length sinfos_base = length sinfos_swa);
           Some (Some (iswa_combine ubatches (context_batch sinfos_base ubatches) (context_batch sinfos_swa ubatches)), ba, iw)
         }
       }
     }
   }"

definition iswa_init_batch :: "nat \<Rightarrow> batch_allocr \<Rightarrow> kv_cache_iswa \<Rightarrow> (iswa_context \<times> batch_allocr \<times> kv_cache_iswa) option" where
  "iswa_init_batch n_ubatch ba iw = do {
     (r, ba, iw) \<leftarrow> (if \<not> iw_unified iw then Some (None, ba, iw) else iswa_attempt (split_simple n_ubatch) ba iw);
     case r of
       Some ix \<Rightarrow> Some (ix, ba, iw)
     | None \<Rightarrow> do {
         (r, ba, iw) \<leftarrow> iswa_attempt (split_equal n_ubatch (\<not> iw_unified iw)) ba iw;
         Some (case r of Some ix \<Rightarrow> ix | None \<Rightarrow> iswa_context_status LLAMA_MEMORY_STATUS_FAILED_PREPARE, ba, iw)
       }
   }"

definition iswa_next :: "iswa_context \<Rightarrow> (bool \<times> iswa_context) option" where
  "iswa_next ix = do {
     requires (ix_status ix = LLAMA_MEMORY_STATUS_SUCCESS);
     (cb, cs) \<leftarrow> ix_parts ix;
     (_, cb) \<leftarrow> context_next cb;
     (_, cs) \<leftarrow> context_next cs;
     let i = ix_i_next ix + 1;
     Some (i < length (ix_ubatches ix), ix\<lparr>ix_parts := Some (cb, cs), ix_i_next := i\<rparr>)
   }"

definition iswa_apply :: "bool \<Rightarrow> bool \<times> bool \<Rightarrow> iswa_context \<Rightarrow> kv_cache_iswa \<Rightarrow> (bool \<times> iswa_context \<times> kv_cache_iswa) option" where
  "iswa_apply rope_none computed ix iw = do {
     requires (\<not> llama_memory_status_is_fail (ix_status ix));
     (cb, cs) \<leftarrow> ix_parts ix;
     (res1, cb, base) \<leftarrow> context_apply rope_none (fst computed) cb (iw_base iw);
     (res2, cs, swa) \<leftarrow> context_apply rope_none (snd computed) cs (iw_swa iw);
     Some (res1 \<and> res2, ix\<lparr>ix_parts := Some (cb, cs)\<rparr>, iw\<lparr>iw_base := base, iw_swa := swa\<rparr>)
   }"

definition iswa_ubatch :: "iswa_context \<Rightarrow> llama_ubatch option" where
  "iswa_ubatch ix = do {
     requires (ix_status ix = LLAMA_MEMORY_STATUS_SUCCESS);
     at (ix_ubatches ix) (ix_i_next ix)
   }"

end
