(* ===== verification/Hybrid.thy ===== *)
theory Hybrid
  imports Recurrent
begin

text \<open>
  The memory of models with both attention and recurrent layers (\<open>src/llama-memory-hybrid.cpp\<close>): a key-value
  cache and a recurrent memory that receive the same calls, and a context that combines theirs.
\<close>

record memory_hybrid =
  hy_attn :: kv_cache
  hy_recr :: memory_recurrent

definition hybrid_new ::
  "bool \<Rightarrow> bool \<Rightarrow> nat \<Rightarrow> nat \<Rightarrow> nat \<Rightarrow> nat \<Rightarrow> llama_swa_type \<Rightarrow> nat \<Rightarrow> nat \<Rightarrow> bool \<Rightarrow> nat \<Rightarrow> memory_hybrid option" where
  "hybrid_new v_trans unified kv_size n_seq_max n_pad n_swa swa_type n_pos n_embd_v alibi mem_size = do {
     kc \<leftarrow> kv_cache_init v_trans unified kv_size n_seq_max n_pad n_swa swa_type n_pos n_embd_v alibi;
     Some \<lparr>hy_attn = kc, hy_recr = recurrent_new mem_size\<rparr>
   }"

section \<open>Sequence operations\<close>

definition hybrid_clear :: "memory_hybrid \<Rightarrow> memory_hybrid" where
  "hybrid_clear h = \<lparr>hy_attn = kv_clear (hy_attn h), hy_recr = rec_clear (hy_recr h)\<rparr>"

definition hybrid_seq_rm :: "llama_seq_id \<Rightarrow> llama_pos \<Rightarrow> llama_pos \<Rightarrow> memory_hybrid \<Rightarrow> (bool \<times> memory_hybrid) option" where
  "hybrid_seq_rm seq_id p0 p1 h = do {
     (ok, mr) \<leftarrow> rec_seq_rm seq_id p0 p1 (hy_recr h);
     let h = h\<lparr>hy_recr := mr\<rparr>;
     if \<not> ok then Some (False, h)
     else do {
       kc \<leftarrow> kv_seq_rm seq_id p0 p1 (hy_attn h);
       Some (True, h\<lparr>hy_attn := kc\<rparr>)
     }
   }"

definition hybrid_seq_cp :: "llama_seq_id \<Rightarrow> llama_seq_id \<Rightarrow> llama_pos \<Rightarrow> llama_pos \<Rightarrow> memory_hybrid \<Rightarrow> memory_hybrid option" where
  "hybrid_seq_cp seq_id_src seq_id_dst p0 p1 h = do {
     kc \<leftarrow> kv_seq_cp seq_id_src seq_id_dst p0 p1 (hy_attn h);
     mr \<leftarrow> rec_seq_cp seq_id_src seq_id_dst p0 p1 (hy_recr h);
     Some \<lparr>hy_attn = kc, hy_recr = mr\<rparr>
   }"

definition hybrid_seq_keep :: "llama_seq_id \<Rightarrow> memory_hybrid \<Rightarrow> memory_hybrid option" where
  "hybrid_seq_keep seq_id h = do {
     kc \<leftarrow> kv_seq_keep seq_id (hy_attn h);
     Some \<lparr>hy_attn = kc, hy_recr = rec_seq_keep seq_id (hy_recr h)\<rparr>
   }"

definition hybrid_seq_add :: "llama_seq_id \<Rightarrow> llama_pos \<Rightarrow> llama_pos \<Rightarrow> llama_pos \<Rightarrow> memory_hybrid \<Rightarrow> memory_hybrid option" where
  "hybrid_seq_add seq_id p0 p1 shift h = do {
     kc \<leftarrow> kv_seq_add seq_id p0 p1 shift (hy_attn h);
     mr \<leftarrow> rec_seq_add seq_id p0 p1 shift (hy_recr h);
     Some \<lparr>hy_attn = kc, hy_recr = mr\<rparr>
   }"

definition hybrid_seq_div :: "llama_seq_id \<Rightarrow> llama_pos \<Rightarrow> llama_pos \<Rightarrow> int \<Rightarrow> memory_hybrid \<Rightarrow> memory_hybrid option" where
  "hybrid_seq_div seq_id p0 p1 d h = do {
     kc \<leftarrow> kv_seq_div seq_id p0 p1 d (hy_attn h);
     mr \<leftarrow> rec_seq_div seq_id p0 p1 d (hy_recr h);
     Some \<lparr>hy_attn = kc, hy_recr = mr\<rparr>
   }"

definition hybrid_seq_pos_min :: "llama_seq_id \<Rightarrow> memory_hybrid \<Rightarrow> llama_pos option" where
  "hybrid_seq_pos_min seq_id h = do {
     p \<leftarrow> kv_seq_pos_min (hy_attn h) seq_id;
     Some (max p (rec_seq_pos_min seq_id (hy_recr h)))
   }"

definition hybrid_seq_pos_max :: "llama_seq_id \<Rightarrow> memory_hybrid \<Rightarrow> llama_pos option" where
  "hybrid_seq_pos_max seq_id h = do {
     p \<leftarrow> kv_seq_pos_max (hy_attn h) seq_id;
     Some (min p (rec_seq_pos_max seq_id (hy_recr h)))
   }"

section \<open>Contexts\<close>

text \<open>The contexts of the parts; a context made from a status has none.\<close>

record hybrid_context =
  hx_i_next :: nat
  hx_ubatches :: "llama_ubatch list"
  hx_parts :: "(kv_context \<times> recurrent_context) option"
  hx_status :: llama_memory_status

definition hybrid_context_status :: "llama_memory_status \<Rightarrow> hybrid_context" where
  "hybrid_context_status status = \<lparr>hx_i_next = 0, hx_ubatches = [], hx_parts = None, hx_status = status\<rparr>"

definition hybrid_combine :: "llama_ubatch list \<Rightarrow> kv_context \<Rightarrow> recurrent_context \<Rightarrow> hybrid_context" where
  "hybrid_combine ubatches cx rx = \<lparr>hx_i_next = 0, hx_ubatches = ubatches, hx_parts = Some (cx, rx),
     hx_status = llama_memory_status_combine (cx_status cx) (rc_status rx)\<rparr>"

definition hybrid_init_full :: "memory_hybrid \<Rightarrow> hybrid_context option" where
  "hybrid_init_full h = do {
     cx \<leftarrow> init_full (hy_attn h);
     Some (hybrid_combine [] cx rec_init_full)
   }"

definition hybrid_init_update :: "memory_hybrid \<Rightarrow> hybrid_context \<times> memory_hybrid" where
  "hybrid_init_update h = (case init_update (hy_attn h) of (cx, kc) \<Rightarrow>
     (hybrid_combine [] cx rec_init_update, h\<lparr>hy_attn := kc\<rparr>))"

definition hybrid_context_batch :: "slot_info list \<Rightarrow> llama_ubatch list \<Rightarrow> hybrid_context" where
  "hybrid_context_batch sinfos_attn ubatches =
     hybrid_combine ubatches (context_batch sinfos_attn ubatches) (rec_context_batch ubatches)"

text \<open>The recurrent memory is prepared first; the splits are those of the recurrent memory.\<close>

definition hybrid_init_batch ::
  "bool \<Rightarrow> nat \<Rightarrow> batch_allocr \<Rightarrow> memory_hybrid \<Rightarrow> (hybrid_context \<times> batch_allocr \<times> memory_hybrid) option" where
  "hybrid_init_batch embd_all n_ubatch ba h = do {
     (ubatches, ba) \<leftarrow> recurrent_splits embd_all n_ubatch ba;
     if ba_n_used ba < lb_n_tokens (ba_batch ba)
     then Some (hybrid_context_status LLAMA_MEMORY_STATUS_FAILED_PREPARE, ba, h)
     else do {
       (ok, mr) \<leftarrow> rec_prepare ubatches (hy_recr h);
       let h = h\<lparr>hy_recr := mr\<rparr>;
       if \<not> ok then Some (hybrid_context_status LLAMA_MEMORY_STATUS_FAILED_PREPARE, ba, h)
       else do {
         (heads_attn, kc) \<leftarrow> prepare ubatches (hy_attn h);
         let h = h\<lparr>hy_attn := kc\<rparr>;
         if heads_attn = [] then Some (hybrid_context_status LLAMA_MEMORY_STATUS_FAILED_PREPARE, ba, h)
         else Some (hybrid_context_batch heads_attn ubatches, ba, h)
       }
     }
   }"

definition hybrid_next :: "hybrid_context \<Rightarrow> (bool \<times> hybrid_context) option" where
  "hybrid_next hx = do {
     requires (hx_status hx = LLAMA_MEMORY_STATUS_SUCCESS);
     (cx, rx) \<leftarrow> hx_parts hx;
     (_, cx) \<leftarrow> context_next cx;
     (_, rx) \<leftarrow> rec_next rx;
     let i = hx_i_next hx + 1;
     Some (i < length (hx_ubatches hx), hx\<lparr>hx_parts := Some (cx, rx), hx_i_next := i\<rparr>)
   }"

definition hybrid_apply :: "bool \<Rightarrow> bool \<Rightarrow> hybrid_context \<Rightarrow> memory_hybrid \<Rightarrow> (bool \<times> hybrid_context \<times> memory_hybrid) option" where
  "hybrid_apply rope_none computed hx h = do {
     requires (\<not> llama_memory_status_is_fail (hx_status hx));
     (cx, rx) \<leftarrow> hx_parts hx;
     (res1, cx, kc) \<leftarrow> context_apply rope_none computed cx (hy_attn h);
     (res2, mr) \<leftarrow> rec_apply rx (hy_recr h);
     Some (res1 \<and> res2, hx\<lparr>hx_parts := Some (cx, rx)\<rparr>, \<lparr>hy_attn = kc, hy_recr = mr\<rparr>)
   }"

definition hybrid_ubatch :: "hybrid_context \<Rightarrow> llama_ubatch option" where
  "hybrid_ubatch hx = do {
     requires (hx_status hx = LLAMA_MEMORY_STATUS_SUCCESS);
     at (hx_ubatches hx) (hx_i_next hx)
   }"

text \<open>\<open>do { apply(); } while (next());\<close>\<close>

partial_function (option) run_hybrid :: "bool \<Rightarrow> bool \<Rightarrow> hybrid_context \<Rightarrow> memory_hybrid \<Rightarrow> (hybrid_context \<times> memory_hybrid) option" where
  "run_hybrid rope_none computed hx h = do {
     (_, hx, h) \<leftarrow> hybrid_apply rope_none computed hx h;
     (more, hx) \<leftarrow> hybrid_next hx;
     if more then run_hybrid rope_none computed hx h else Some (hx, h)
   }"

end
