(* ===== verification/HybridLaws.thy ===== *)
theory HybridLaws
  imports Hybrid RecurrentReach KvReach
begin

text \<open>
  The two parts of the hybrid memory stay in step: the recurrent memory has a state of a sequence exactly if the
  cache has cells of it, at the largest of their positions. And a batch that both parts have prepared can be
  worked through by both contexts side by side.
\<close>

section \<open>Working through a batch\<close>

lemma combine_success [simp]:
  "llama_memory_status_combine LLAMA_MEMORY_STATUS_SUCCESS LLAMA_MEMORY_STATUS_SUCCESS = LLAMA_MEMORY_STATUS_SUCCESS"
  by (simp add: llama_memory_status_combine_def)

text \<open>Both contexts of a hybrid context are at the same micro-batch of the same list.\<close>

definition lockstep :: "hybrid_context \<Rightarrow> kv_context \<Rightarrow> recurrent_context \<Rightarrow> bool" where
  "lockstep hx cx rx \<longleftrightarrow> hx_status hx = LLAMA_MEMORY_STATUS_SUCCESS \<and> hx_parts hx = Some (cx, rx) \<and>
     cx_status cx = LLAMA_MEMORY_STATUS_SUCCESS \<and> rc_status rx = LLAMA_MEMORY_STATUS_SUCCESS \<and>
     cx_ubatches cx = hx_ubatches hx \<and> rc_ubatches rx = hx_ubatches hx \<and> length (cx_sinfos cx) = length (hx_ubatches hx) \<and>
     cx_i_cur cx = hx_i_next hx \<and> rc_i_next rx = hx_i_next hx"

lemma hybrid_step:
  assumes l: "lockstep hx cx rx" and i: "hx_i_next hx < length (hx_ubatches hx)"
    and kv: "apply_ubatch (cx_sinfos cx ! hx_i_next hx) (hx_ubatches hx ! hx_i_next hx) (hy_attn h) = Some kc"
    and rec: "rec_find_slot (hx_ubatches hx ! hx_i_next hx) (hy_recr h) = Some (b, mr)"
  shows "\<exists>hx1 cx1 rx1. hybrid_apply rope_none cmp hx h = Some (True, hx1, \<lparr>hy_attn = kc, hy_recr = mr\<rparr>) \<and>
     hybrid_next hx1 = Some (hx_i_next hx + 1 < length (hx_ubatches hx), hx1\<lparr>hx_parts := Some (cx1, rx1), hx_i_next := hx_i_next hx + 1\<rparr>) \<and>
     lockstep (hx1\<lparr>hx_parts := Some (cx1, rx1), hx_i_next := hx_i_next hx + 1\<rparr>) cx1 rx1 \<and>
     hx_ubatches hx1 = hx_ubatches hx \<and> cx_sinfos cx1 = cx_sinfos cx"
proof -
  let ?i = "hx_i_next hx"
  note L = l[unfolded lockstep_def]
  have "cx_ubatches cx \<noteq> []" "rc_ubatches rx \<noteq> []" using L i by auto
  note lens = apply_ubatch_lens[OF kv]
  obtain n_kv where n: "get_n_kv kc (cx_sinfos cx ! ?i) = Some n_kv"
    using get_n_kv_total[of "cx_sinfos cx ! ?i" kc] lens by (auto simp: lens_def)
  let ?cx = "cx\<lparr>cx_n_kv := n_kv\<rparr>"
  have "context_apply rope_none cmp cx (hy_attn h) = Some (True, ?cx, kc)"
    using L i kv n \<open>cx_ubatches cx \<noteq> []\<close> by (simp add: context_apply_def)
  moreover have "rec_apply rx (hy_recr h) = Some (True, mr)"
    using L i rec \<open>rc_ubatches rx \<noteq> []\<close> by (simp add: rec_apply_def)
  ultimately have a: "hybrid_apply rope_none cmp hx h = Some (True, hx\<lparr>hx_parts := Some (?cx, rx)\<rparr>, \<lparr>hy_attn = kc, hy_recr = mr\<rparr>)"
    using L by (simp add: hybrid_apply_def)
  let ?cx1 = "?cx\<lparr>cx_i_cur := ?i + 1\<rparr>" and ?rx1 = "rx\<lparr>rc_i_next := ?i + 1\<rparr>"
  have "hybrid_next (hx\<lparr>hx_parts := Some (?cx, rx)\<rparr>) =
      Some (?i + 1 < length (hx_ubatches hx), hx\<lparr>hx_parts := Some (?cx1, ?rx1), hx_i_next := ?i + 1\<rparr>)"
    using L by (simp add: hybrid_next_def context_next_def rec_next_def Let_def)
  then show ?thesis using a L
    by (intro exI[of _ "hx\<lparr>hx_parts := Some (?cx, rx)\<rparr>"] exI[of _ ?cx1] exI[of _ ?rx1]) (simp add: lockstep_def)
qed

lemma run_hybrid_ok:
  assumes "lockstep hx cx rx" "hx_i_next hx < length (hx_ubatches hx)"
    and "apply_slots (drop (hx_i_next hx) (zip (cx_sinfos cx) (hx_ubatches hx))) (hy_attn h) = Some k"
    and "rec_ok (hy_recr h)" "\<forall>ub \<in> set (hx_ubatches hx). slot_ubatch ub \<and> seqs_fit (rs_size (hy_recr h)) ub"
  shows "\<exists>hx' mr. run_hybrid rope_none cmp hx h = Some (hx', \<lparr>hy_attn = k, hy_recr = mr\<rparr>) \<and> rec_ok mr \<and>
    rec_view mr = advance_from (hx_i_next hx) (hx_ubatches hx) (pos_of (hx_ubatches hx)) (rec_view (hy_recr h))"
  using assms
proof (induction "length (hx_ubatches hx) - hx_i_next hx" arbitrary: hx cx rx h rule: less_induct)
  case less
  let ?i = "hx_i_next hx" and ?ubs = "hx_ubatches hx"
  let ?ps = "zip (cx_sinfos cx) ?ubs"
  have len: "length (cx_sinfos cx) = length ?ubs" using less.prems(1) by (simp add: lockstep_def)
  have i: "?i < length ?ps" using less.prems(2) len by simp
  have d: "drop ?i ?ps = (cx_sinfos cx ! ?i, ?ubs ! ?i) # drop (Suc ?i) ?ps"
    using Cons_nth_drop_Suc[OF i, symmetric] less.prems(2) len by simp
  obtain kc1 where kc1: "apply_ubatch (cx_sinfos cx ! ?i) (?ubs ! ?i) (hy_attn h) = Some kc1" "apply_slots (drop (Suc ?i) ?ps) kc1 = Some k"
    using less.prems(3) unfolding d by (auto simp: apply_slots_def bind_eq_Some_conv)
  have ub: "slot_ubatch (?ubs ! ?i)" "seqs_fit (rs_size (hy_recr h)) (?ubs ! ?i)" using less.prems(2,5) nth_mem by blast+
  obtain b mr1 where mr1: "rec_find_slot (?ubs ! ?i) (hy_recr h) = Some (b, mr1)" "rec_ok mr1" "rs_size mr1 = rs_size (hy_recr h)"
    "rec_view mr1 = advance (?ubs ! ?i) (\<lambda>s _. Some (last_pos (?ubs ! ?i) s)) (rec_view (hy_recr h))"
    using find_slot_total[OF less.prems(4) ub(1)] ub(2) by auto
  obtain hx1 cx1 rx1 where s: "hybrid_apply rope_none cmp hx h = Some (True, hx1, \<lparr>hy_attn = kc1, hy_recr = mr1\<rparr>)"
     "hybrid_next hx1 = Some (?i + 1 < length ?ubs, hx1\<lparr>hx_parts := Some (cx1, rx1), hx_i_next := ?i + 1\<rparr>)"
     "lockstep (hx1\<lparr>hx_parts := Some (cx1, rx1), hx_i_next := ?i + 1\<rparr>) cx1 rx1"
     "hx_ubatches hx1 = ?ubs" "cx_sinfos cx1 = cx_sinfos cx"
    using hybrid_step[OF less.prems(1,2) kc1(1) mr1(1)] by blast
  let ?hx = "hx1\<lparr>hx_parts := Some (cx1, rx1), hx_i_next := ?i + 1\<rparr>" and ?h = "\<lparr>hy_attn = kc1, hy_recr = mr1\<rparr>"
  have step: "run_hybrid rope_none cmp hx h = (if ?i + 1 < length ?ubs then run_hybrid rope_none cmp ?hx ?h else Some (?hx, ?h))"
    by (subst run_hybrid.simps) (simp add: s(1,2))
  have p: "pos_of ?ubs ?i = (\<lambda>s _. Some (last_pos (?ubs ! ?i) s))" by (simp add: pos_of_def fun_eq_iff)
  have unroll: "advance_from ?i ?ubs (pos_of ?ubs) x = advance_from (?i + 1) ?ubs (pos_of ?ubs) (advance (?ubs ! ?i) (pos_of ?ubs ?i) x)" for x
    using less.prems(2) by (simp add: advance_from_def upt_conv_Cons)
  show ?case
  proof (cases "?i + 1 < length ?ubs")
    case True
    have "\<exists>hx' mr. run_hybrid rope_none cmp ?hx ?h = Some (hx', \<lparr>hy_attn = k, hy_recr = mr\<rparr>) \<and> rec_ok mr \<and>
        rec_view mr = advance_from (hx_i_next ?hx) (hx_ubatches ?hx) (pos_of (hx_ubatches ?hx)) (rec_view (hy_recr ?h))"
      by (rule less.hyps[where cx = cx1 and rx = rx1]) (use True s(3-5) kc1(2) mr1(2,3) less.prems(5) in simp_all)
    then show ?thesis using True s(4) mr1(4) by (simp add: step unroll p)
  next
    case False
    then have "drop (Suc ?i) ?ps = []" using len by simp
    then have "kc1 = k" using kc1(2) by (simp add: apply_slots_def)
    moreover have "[?i + 1..<length ?ubs] = []" using False by simp
    ultimately show ?thesis using False mr1(2,4) by (simp add: step unroll p) (simp add: advance_from_def)
  qed
qed

section \<open>Preparing a batch\<close>

lemma hybrid_batch_ok:
  assumes r: "ready (hy_attn h) n" "kc_swa_type (hy_attn h) = LLAMA_SWA_TYPE_NONE" and s: "streams_ok (hy_attn h)" "kc_n_stream (hy_attn h) = 1"
    and b: "batch_for (hy_attn h) ba" and ok: "rec_ok (hy_recr h)" and rb: "rec_batch_for (rs_size (hy_recr h)) embd_all ba"
  shows "\<exists>hx ba' h1. hybrid_init_batch embd_all n_ubatch ba h = Some (hx, ba', h1) \<and>
    hy_attn h1 = hy_attn h \<and> rs_cells (hy_recr h1) = rs_cells (hy_recr h) \<and>
    (if lb_n_tokens (ba_batch ba) \<le> free_cells (hy_attn h)
     then hx_status hx = LLAMA_MEMORY_STATUS_SUCCESS \<and>
       (\<exists>idxss hx' h2. mset (concat idxss) = mset [0..<lb_n_tokens (ba_batch ba)] \<and>
         list_all2 (\<lambda>idxs ub. \<exists>n_seqs. gathered ba idxs n_seqs True ub) idxss (hx_ubatches hx) \<and>
         run_hybrid rope_none cmp hx h1 = Some (hx', h2) \<and> ready (hy_attn h2) n \<and> rec_ok (hy_recr h2) \<and>
         rec_view (hy_recr h2) = advance_from 0 (hx_ubatches hx) (pos_of (hx_ubatches hx)) (rec_view (hy_recr h)))
     else hx_status hx = LLAMA_MEMORY_STATUS_FAILED_PREPARE)"
proof -
  obtain idxss ubs ba' where c: "recurrent_splits embd_all n_ubatch ba = Some (ubs, ba')" "mset (concat idxss) = mset [0..<lb_n_tokens (ba_batch ba)]"
    "list_all2 (\<lambda>idxs ub. \<exists>n_seqs. gathered ba idxs n_seqs True ub) idxss ubs" "ubs \<noteq> []"
    "\<forall>ub \<in> set ubs. slot_ubatch ub \<and> seqs_fit (rs_size (hy_recr h)) ub" "ba_n_used ba' = lb_n_tokens (ba_batch ba')"
    using splits_ok[OF rb] by blast
  have ubs: "\<forall>ub \<in> set ubs. ub_ok (hy_attn h) ub"
  proof
    fix ub assume "ub \<in> set ubs"
    then obtain k where k: "k < length ubs" "ub = ubs ! k" by (auto simp: in_set_conv_nth)
    obtain m where g: "gathered ba (idxss ! k) m True ub" using list_all2_nthD2[OF c(3) k(1)] k(2) by blast
    have "idxss ! k \<in> set idxss" using k(1) list_all2_lengthD[OF c(3)] by simp
    then have "\<forall>i \<in> set (idxss ! k). i < lb_n_tokens (ba_batch ba)" using mset_eq_setD[OF c(2)] by auto
    moreover have "idxss ! k \<noteq> []"
    proof
      assume e: "idxss ! k = []"
      have "slot_ubatch ub" using c(5) k by simp
      then have "0 < ub_n_seqs ub" by (simp add: slot_ubatch_def)
      then have "slot_seq ub 0" using slot_ubatchD(1)[OF \<open>slot_ubatch ub\<close>] by simp
      then have "0 < length (ub_seq_id ub)" by (simp add: slot_seq_def)
      moreover have "ub_seq_id ub = []" using g e by (simp add: gathered_def)
      ultimately show False by simp
    qed
    ultimately show "ub_ok (hy_attn h) ub" using unified_ub_ok[OF s b g] by blast
  qed
  obtain sis kc' where p: "prepare ubs (hy_attn h) = Some (sis, kc')" "kc' = hy_attn h"
     "sis \<noteq> [] \<longrightarrow> length sis = length ubs \<and> (\<exists>k. apply_slots (zip sis ubs) (hy_attn h) = Some k \<and> ready k n)"
    using prepare_ok[OF r ubs c(4)] s(2) by blast
  have fits: "sis \<noteq> [] \<longleftrightarrow> lb_n_tokens (ba_batch ba) \<le> free_cells (hy_attn h)"
    unfolding prepare_fits[OF r s(2) ubs c(4) p(1)] by (subst gathered_sum[OF c(3,2), of ba]) blast+
  obtain t mr where m: "rec_prepare ubs (hy_recr h) = Some (t, mr)" "rec_ok mr" "rs_cells mr = rs_cells (hy_recr h)"
    "t \<longleftrightarrow> (\<forall>ub \<in> set ubs. seqs_fit (rs_size (hy_recr h)) ub)"
    using rec_prepare_ok[OF ok] c(5) by blast
  have "t" using m(4) c(5) by blast
  let ?h = "\<lparr>hy_attn = hy_attn h, hy_recr = mr\<rparr>"
  let ?hx = "if sis = [] then hybrid_context_status LLAMA_MEMORY_STATUS_FAILED_PREPARE else hybrid_context_batch sis ubs"
  have init: "hybrid_init_batch embd_all n_ubatch ba h = Some (?hx, ba', ?h)"
    using c(1,6) m(1) \<open>t\<close> p(1,2) by (cases h) (simp add: hybrid_init_batch_def)
  show ?thesis
  proof (cases "sis = []")
    case True
    then show ?thesis using init fits m(3) by (intro exI[of _ ?hx] exI[of _ ba'] exI[of _ ?h]) (simp add: hybrid_context_status_def)
  next
    case False
    then obtain k where k: "length sis = length ubs" "apply_slots (zip sis ubs) (hy_attn h) = Some k" "ready k n" using p(3) by blast
    let ?hb = "hybrid_context_batch sis ubs"
    have d: "hx_ubatches ?hb = ubs" "hx_i_next ?hb = 0" "hx_status ?hb = LLAMA_MEMORY_STATUS_SUCCESS"
      by (simp_all add: hybrid_context_batch_def hybrid_combine_def context_batch_def context_status_def rec_context_batch_def)
    have l: "lockstep ?hb (context_batch sis ubs) (rec_context_batch ubs)"
      using k(1) by (simp add: lockstep_def d) (simp add: hybrid_context_batch_def hybrid_combine_def context_batch_def context_status_def rec_context_batch_def)
    have "cx_sinfos (context_batch sis ubs) = sis" by (simp add: context_batch_def)
    then obtain hx' mr' where run: "run_hybrid rope_none cmp ?hb ?h = Some (hx', \<lparr>hy_attn = k, hy_recr = mr'\<rparr>)" "rec_ok mr'"
      "rec_view mr' = advance_from 0 ubs (pos_of ubs) (rec_view mr)"
      using run_hybrid_ok[OF l, of ?h k rope_none cmp] c(4,5) k(2) m(2,3) by (auto simp: d)
    have "rec_view mr = rec_view (hy_recr h)" using m(3) by (simp add: rec_view_def)
    then show ?thesis using False fits init d run k(3) c(2,3) m(3)
      by (intro exI[of _ ?hb] exI[of _ ba'] exI[of _ ?h]) auto
  qed
qed

section \<open>In step\<close>

definition attn_positions :: "kv_cache \<Rightarrow> llama_seq_id \<Rightarrow> llama_pos set" where
  "attn_positions kc u = seq_positions (nat u) (kv_view kc ! (kc_seq_to_stream kc ! nat u))"

definition attn_view :: "kv_cache \<Rightarrow> llama_seq_id \<Rightarrow> llama_pos option" where
  "attn_view kc u = (if attn_positions kc u = {} then None else Some (Max (attn_positions kc u)))"

definition known_seq :: "memory_hybrid \<Rightarrow> llama_seq_id \<Rightarrow> bool" where
  "known_seq h u \<longleftrightarrow> 0 \<le> u \<and> u < int (rs_size (hy_recr h)) \<and> nat u < length (kc_seq_to_stream (hy_attn h))"

definition in_step :: "memory_hybrid \<Rightarrow> bool" where
  "in_step h \<longleftrightarrow> (\<forall>u. known_seq h u \<longrightarrow> rec_view (hy_recr h) u = attn_view (hy_attn h) u)"

text \<open>No operation moves a cell of a sequence that it leaves it.\<close>

lemma positions_map:
  assumes "\<And>x. has_seq v (f x) \<Longrightarrow> fst (f x) = fst x"
  shows "seq_positions v (map f xs) = fst ` {x \<in> set xs. has_seq v (f x)}"
  using assms by (force simp: seq_positions_def)

lemma positions_rm:
  "seq_positions v (map (\<lambda>x. if in_range a b x \<and> has_seq u x then drop_seq u x else x) xs) =
     (if v = u then {p \<in> seq_positions u xs. \<not> (a \<le> p \<and> p < b)} else seq_positions v xs)"
proof -
  let ?f = "\<lambda>x. if in_range a b x \<and> has_seq u x then drop_seq u x else x"
  have drop: "has_seq v (drop_seq u x) \<longleftrightarrow> has_seq v x \<and> v \<noteq> u" for x
    by (cases x) (auto simp: has_seq_def drop_seq_def empty_cell_def)
  have "fst (drop_seq u x) = fst x" if "has_seq v (drop_seq u x)" for x
    using that by (cases x) (auto simp: has_seq_def drop_seq_def empty_cell_def)
  then have "seq_positions v (map ?f xs) = fst ` {x \<in> set xs. has_seq v (?f x)}" by (intro positions_map) auto
  also have "{x \<in> set xs. has_seq v (?f x)} = {x \<in> set xs. has_seq v x \<and> (v = u \<longrightarrow> \<not> in_range a b x)}"
    by (auto simp: drop)
  also have "fst ` \<dots> = (if v = u then {p \<in> seq_positions u xs. \<not> (a \<le> p \<and> p < b)} else seq_positions v xs)"
    by (auto simp: seq_positions_def in_range_def)
  finally show ?thesis .
qed

lemma positions_keep: "seq_positions v (map (keep_seq u) xs) = (if v = u then seq_positions u xs else {})"
proof -
  have keep: "has_seq v (keep_seq u x) \<longleftrightarrow> has_seq v x \<and> v = u" "has_seq v (keep_seq u x) \<Longrightarrow> fst (keep_seq u x) = fst x" for x
    by (cases x; auto simp: has_seq_def keep_seq_def empty_cell_def split: if_splits)+
  have "seq_positions v (map (keep_seq u) xs) = fst ` {x \<in> set xs. has_seq v (keep_seq u x)}" by (rule positions_map) (rule keep)
  then show ?thesis by (auto simp: keep(1) seq_positions_def)
qed

lemma positions_cp:
  "seq_positions v (map (\<lambda>x. if in_range a b x \<and> has_seq u x then join_seq w x else x) xs) =
     seq_positions v xs \<union> (if v = w then {p \<in> seq_positions u xs. a \<le> p \<and> p < b} else {})"
proof -
  let ?f = "\<lambda>x. if in_range a b x \<and> has_seq u x then join_seq w x else x"
  have join: "has_seq v (join_seq w x) \<longleftrightarrow> has_seq v x \<or> v = w" "fst (join_seq w x) = fst x" for x
    by (cases x; auto simp: has_seq_def join_seq_def)+
  have "seq_positions v (map ?f xs) = fst ` {x \<in> set xs. has_seq v (?f x)}" by (rule positions_map) (simp add: join(2))
  also have "{x \<in> set xs. has_seq v (?f x)} = {x \<in> set xs. has_seq v x} \<union> {x \<in> set xs. v = w \<and> in_range a b x \<and> has_seq u x}"
    by (auto simp: join(1))
  finally show ?thesis by (auto simp: seq_positions_def in_range_def image_Un)
qed

text \<open>The positions of a sequence after an operation on the stream of another.\<close>

lemma attn_on_stream:
  assumes inv: "kc_inv kc n" and u: "nat u < length (kc_seq_to_stream kc)" and v: "nat v < length (kc_seq_to_stream kc)"
    and e: "evolves kc n (on_stream (kc_seq_to_stream kc ! nat u) g (kv_view kc)) r"
  shows "\<exists>kc'. r = Some kc' \<and> kc_inv kc' n \<and> same_config kc kc' \<and>
    attn_positions kc' v = (if kc_seq_to_stream kc ! nat u = kc_seq_to_stream kc ! nat v
      then seq_positions (nat v) (map g (kv_view kc ! (kc_seq_to_stream kc ! nat v))) else attn_positions kc v)"
proof -
  obtain kc' where kc': "r = Some kc'" "kc_inv kc' n" "kv_view kc' = on_stream (kc_seq_to_stream kc ! nat u) g (kv_view kc)" "same_config kc kc'"
    using e by (auto simp: evolves_def)
  have "length (kv_view kc) = kc_n_stream kc" using kc_inv_D(3)[OF inv] by (simp add: kv_view_def)
  then have "kc_seq_to_stream kc ! nat v < length (kv_view kc)" using seq_stream(1)[OF inv v] by simp
  then show ?thesis using kc' same_config_D(2)[OF kc'(4)] by (auto simp: attn_positions_def on_stream_def nth_list_update)
qed

lemma attn_positions_nonneg:
  assumes inv: "kc_inv kc n" and u: "nat u < length (kc_seq_to_stream kc)" and p: "p \<in> attn_positions kc u"
  shows "0 \<le> p"
proof -
  note s = seq_stream(1)[OF inv u] and D = kc_inv_D[OF inv]
  let ?c = "kc_cells kc ! (kc_seq_to_stream kc ! nat u)"
  have "p \<in> (\<lambda>i. kv_pos ?c ! i) ` seq_cells ?c (nat u)"
    using p s D(3) by (simp add: attn_positions_def kv_view_nth seq_positions_view)
  then obtain i where "i < cells_size ?c" "nat u \<in> kv_seq ?c ! i" "p = kv_pos ?c ! i" by (auto simp: seq_cells_def)
  moreover have "cell_ok (kv_pos ?c ! i) (kv_shift ?c ! i) (kv_seq ?c ! i) (kv_has_shift ?c)" if "i < cells_size ?c" for i
    using D(6)[OF s] that by (simp add: cells_inv_def)
  ultimately show ?thesis by (fastforce simp: cell_ok_def)
qed

lemma finite_positions: "finite (attn_positions kc u)"
  by (simp add: attn_positions_def seq_positions_def)

lemma Max_above:
  assumes "finite P" "P \<noteq> {}" "Max P < a \<or> b \<le> Max (P :: int set)"
  shows "Max {p \<in> P. \<not> (a \<le> p \<and> p < b)} = Max P \<and> {p \<in> P. \<not> (a \<le> p \<and> p < b)} \<noteq> {}"
proof -
  have m: "Max P \<in> {p \<in> P. \<not> (a \<le> p \<and> p < b)}" using Max_in[OF assms(1,2)] assms(3) by auto
  have "Max {p \<in> P. \<not> (a \<le> p \<and> p < b)} = Max P"
    by (rule Max_eqI) (use assms(1) m in auto)
  then show ?thesis using m by blast
qed

abbreviation same_shape :: "memory_hybrid \<Rightarrow> memory_hybrid \<Rightarrow> bool" where
  "same_shape h h' \<equiv> same_config (hy_attn h) (hy_attn h') \<and> rs_size (hy_recr h') = rs_size (hy_recr h)"

lemma rm_refused:
  assumes "rec_seq_rm u p0 p1 mr = Some (False, mr')"
  shows "mr' = mr"
proof -
  obtain r where "rm_check u (lower p0) (upper p1) (rs_cells mr) = Some r"
    using assms by (auto simp: rec_seq_rm_def Let_def bind_eq_Some_conv)
  with assms show ?thesis by (cases r) (simp_all add: rec_seq_rm_def Let_def split: prod.splits)
qed

lemma rm_in_step:
  assumes inv: "kc_inv (hy_attn h) n" and ok: "rec_ok (hy_recr h)" and st: "in_step h" and u: "known_seq h u"
  shows "\<exists>b h'. hybrid_seq_rm u p0 p1 h = Some (b, h') \<and> kc_inv (hy_attn h') n \<and> rec_ok (hy_recr h') \<and> in_step h' \<and> same_shape h h' \<and>
    (b \<longleftrightarrow> (\<forall>p. attn_view (hy_attn h) u = Some p \<longrightarrow> \<not> (0 < lower p0 \<and> lower p0 \<le> p \<and> p < upper p1))) \<and> (\<not> b \<longrightarrow> h' = h) \<and>
    (b \<longrightarrow> (\<forall>v. known_seq h v \<longrightarrow> attn_positions (hy_attn h') v =
      (if v = u then {p \<in> attn_positions (hy_attn h) u. \<not> (lower p0 \<le> p \<and> p < upper p1)} else attn_positions (hy_attn h) v)))"
proof -
  let ?kc = "hy_attn h" and ?mr = "hy_recr h"
  have view: "rec_view ?mr v = attn_view ?kc v" if "known_seq h v" for v using st that by (simp add: in_step_def)
  obtain b mr where rm: "rec_seq_rm u p0 p1 ?mr = Some (b, mr)" "rec_ok mr" "rs_size mr = rs_size ?mr"
    "b \<longleftrightarrow> (\<forall>p. rec_view ?mr u = Some p \<longrightarrow> \<not> (0 < lower p0 \<and> lower p0 \<le> p \<and> p < upper p1))"
    "rec_view mr = (case rec_view ?mr u of None \<Rightarrow> rec_view ?mr
      | Some p \<Rightarrow> if b \<and> lower p0 \<le> p \<and> p < upper p1 then (rec_view ?mr)(u := None) else rec_view ?mr)"
    using rec_seq_rm_ok[OF ok, of u p0 p1] u unfolding known_seq_def by blast
  show ?thesis
  proof (cases b)
    case False
    then have "mr = ?mr" using rm(1) rm_refused by simp
    then have "hybrid_seq_rm u p0 p1 h = Some (False, h)" using rm(1) False by (simp add: hybrid_seq_rm_def)
    then show ?thesis using inv ok st rm(4) False view[OF u] by auto
  next
    case True
    have ul: "nat u < length (kc_seq_to_stream ?kc)" "0 \<le> u" using u by (simp_all add: known_seq_def)
    obtain kc where kc: "kv_seq_rm u p0 p1 ?kc = Some kc" "kc_inv kc n" "same_config ?kc kc"
      using attn_on_stream[OF inv ul(1) ul(1) kv_seq_rm_ok[OF inv ul(1), of p0 p1]] ul(2) by auto
    have pos: "attn_positions kc v = (if v = u then {p \<in> attn_positions ?kc u. \<not> (lower p0 \<le> p \<and> p < upper p1)} else attn_positions ?kc v)"
      if v: "known_seq h v" for v
    proof -
      have vl: "nat v < length (kc_seq_to_stream ?kc)" "nat v = nat u \<longleftrightarrow> v = u" using v ul by (auto simp: known_seq_def)
      show ?thesis
        using attn_on_stream[OF inv ul(1) vl(1) kv_seq_rm_ok[OF inv ul(1), of p0 p1]] kc(1) ul(2) vl(2)
        by (auto simp: positions_rm attn_positions_def)
    qed
    let ?h = "\<lparr>hy_attn = kc, hy_recr = mr\<rparr>"
    have same: "known_seq ?h v \<longleftrightarrow> known_seq h v" for v using rm(3) same_config_D(2)[OF kc(3)] by (simp add: known_seq_def)
    have "rec_view mr v = attn_view kc v" if v: "known_seq h v" for v
    proof (cases "v = u")
      case True
      let ?P = "attn_positions ?kc u"
      show ?thesis
      proof (cases "?P = {}")
        case True
        then show ?thesis using \<open>v = u\<close> rm(5) view[OF u] pos[OF u] by (simp add: attn_view_def)
      next
        case False
        then have p: "rec_view ?mr u = Some (Max ?P)" using view[OF u] by (simp add: attn_view_def)
        show ?thesis
        proof (cases "lower p0 \<le> Max ?P \<and> Max ?P < upper p1")
          case True
          then have "lower p0 = 0" using rm(4) \<open>b\<close> p by (auto simp: lower_def split: if_splits)
          have le: "p \<le> Max ?P" if "p \<in> ?P" for p using that finite_positions by simp
          have "0 \<le> p" if "p \<in> ?P" for p using attn_positions_nonneg[OF inv ul(1) that] .
          then have "attn_positions kc u = {}" using pos[OF u] le True \<open>lower p0 = 0\<close> by force
          then show ?thesis using \<open>v = u\<close> rm(5) p True \<open>b\<close> by (simp add: attn_view_def)
        next
          case False
          then have "Max ?P < lower p0 \<or> upper p1 \<le> Max ?P" by linarith
          from Max_above[OF finite_positions \<open>?P \<noteq> {}\<close> this] show ?thesis
            using \<open>v = u\<close> rm(5) p False pos[OF u] by (auto simp: attn_view_def)
        qed
      qed
    next
      case False
      then have "rec_view mr v = rec_view ?mr v" using rm(5) by (auto split: option.splits)
      then show ?thesis using False pos[OF v] view[OF v] by (simp add: attn_view_def)
    qed
    then have "in_step ?h" by (simp add: in_step_def same)
    moreover have "hybrid_seq_rm u p0 p1 h = Some (True, ?h)" using rm(1) True kc(1) by (cases h) (simp add: hybrid_seq_rm_def)
    ultimately show ?thesis using kc(2,3) rm(2,3,4) True view[OF u] pos by (intro exI[of _ True] exI[of _ ?h]) auto
  qed
qed

lemma keep_in_step:
  assumes inv: "kc_inv (hy_attn h) n" and one: "kc_n_stream (hy_attn h) = 1" and ok: "rec_ok (hy_recr h)"
    and st: "in_step h" and u: "known_seq h u"
  shows "\<exists>h'. hybrid_seq_keep u h = Some h' \<and> kc_inv (hy_attn h') n \<and> rec_ok (hy_recr h') \<and> in_step h' \<and> same_shape h h' \<and>
    (\<forall>v. known_seq h v \<longrightarrow> attn_view (hy_attn h') v = (if v = u then attn_view (hy_attn h) u else None))"
proof -
  let ?kc = "hy_attn h" and ?mr = "hy_recr h"
  have ul: "nat u < length (kc_seq_to_stream ?kc)" "0 \<le> u" using u by (simp_all add: known_seq_def)
  have zero: "kc_seq_to_stream ?kc ! nat v = 0" if "nat v < length (kc_seq_to_stream ?kc)" for v
    using seq_stream(1)[OF inv that] one by simp
  obtain kc where kc: "kv_seq_keep u ?kc = Some kc" "kc_inv kc n" "same_config ?kc kc"
    using attn_on_stream[OF inv ul(1) ul(1) kv_seq_keep_ok[OF inv ul(1)]] ul(2) by auto
  have pos: "attn_positions kc v = (if v = u then attn_positions ?kc u else {})" if v: "known_seq h v" for v
  proof -
    have vl: "nat v < length (kc_seq_to_stream ?kc)" "nat v = nat u \<longleftrightarrow> v = u" using v ul by (auto simp: known_seq_def)
    show ?thesis
      using attn_on_stream[OF inv ul(1) vl(1) kv_seq_keep_ok[OF inv ul(1)]] kc(1) ul(2) vl(2) zero[OF vl(1)] zero[OF ul(1)]
      by (auto simp: positions_keep attn_positions_def)
  qed
  let ?h = "\<lparr>hy_attn = kc, hy_recr = rec_seq_keep u ?mr\<rparr>"
  note k = rec_seq_keep_ok[OF ok, of u]
  have "hybrid_seq_keep u h = Some ?h" using kc(1) by (simp add: hybrid_seq_keep_def)
  moreover have "in_step ?h" using st k pos same_config_D(2)[OF kc(3)] u by (simp add: in_step_def known_seq_def attn_view_def)
  ultimately show ?thesis using kc(2,3) k pos by (intro exI[of _ ?h]) (simp add: attn_view_def)
qed

lemma cp_in_step:
  assumes inv: "kc_inv (hy_attn h) n" and one: "kc_n_stream (hy_attn h) = 1" and ok: "rec_ok (hy_recr h)"
    and st: "in_step h" and u: "known_seq h u" and w: "known_seq h w" "attn_view (hy_attn h) w = None"
    and room: "\<forall>xs \<in> set (kv_view (hy_attn h)). room xs"
  shows "\<exists>h'. hybrid_seq_cp u w (-1) (-1) h = Some h' \<and> kc_inv (hy_attn h') n \<and> rec_ok (hy_recr h') \<and> in_step h' \<and> same_shape h h' \<and>
    (\<forall>v. known_seq h v \<longrightarrow> attn_view (hy_attn h') v = (if v = w then attn_view (hy_attn h) u else attn_view (hy_attn h) v))"
proof (cases "u = w")
  case True
  have "hybrid_seq_cp u w (-1) (-1) h = Some h"
    using w(1) True by (cases h) (auto simp: hybrid_seq_cp_def kv_seq_cp_def rec_seq_cp_def stream_of_def known_seq_def)
  then show ?thesis using inv ok st True by auto
next
  case False
  let ?kc = "hy_attn h" and ?mr = "hy_recr h"
  have ul: "nat u < length (kc_seq_to_stream ?kc)" "0 \<le> u" and wl: "nat w < length (kc_seq_to_stream ?kc)" "0 \<le> w"
    using u w by (simp_all add: known_seq_def)
  have ne: "nat u \<noteq> nat w" using False ul(2) wl(2) by simp
  have zero: "kc_seq_to_stream ?kc ! nat v = 0" if "nat v < length (kc_seq_to_stream ?kc)" for v
    using seq_stream(1)[OF inv that] one by simp
  have same: "kc_seq_to_stream ?kc ! nat u = kc_seq_to_stream ?kc ! nat w" using zero ul(1) wl(1) by simp
  have "attn_positions ?kc w = {}" using w(2) by (simp add: attn_view_def split: if_splits)
  then have absent: "\<forall>x \<in> set (kv_view ?kc ! (kc_seq_to_stream ?kc ! nat u)).
      in_range (lower (-1)) (upper (-1)) x \<and> has_seq (nat u) x \<longrightarrow> \<not> has_seq (nat w) x"
    using same by (auto simp: attn_positions_def seq_positions_def)
  note cp = kv_seq_cp_ok[OF inv ul(1) wl(1) same ne absent]
  obtain kc where kc: "kv_seq_cp u w (-1) (-1) ?kc = Some kc" "kc_inv kc n" "same_config ?kc kc"
    using attn_on_stream[OF inv ul(1) ul(1) cp] ul(2) wl(2) by auto
  have len: "0 < length (kv_view ?kc)" using kc_inv_D(1,3)[OF inv] by (simp add: kv_view_def)
  have full: "{p \<in> seq_positions (nat u) (kv_view ?kc ! 0). lower (-1) \<le> p \<and> p < upper (-1)} = attn_positions ?kc u"
  proof -
    have "room (kv_view ?kc ! 0)" using room len by simp
    then have "p < upper (-1)" if "p \<in> attn_positions ?kc u" for p
      using that zero[OF ul(1)] by (auto simp: attn_positions_def seq_positions_def room_def upper_def)
    then show ?thesis using attn_positions_nonneg[OF inv ul(1)] zero[OF ul(1)] by (auto simp: attn_positions_def lower_def)
  qed
  have pos: "attn_positions kc v = (if v = w then attn_positions ?kc u else attn_positions ?kc v)" if v: "known_seq h v" for v
  proof -
    have vl: "nat v < length (kc_seq_to_stream ?kc)" "nat v = nat w \<longleftrightarrow> v = w" using v wl by (auto simp: known_seq_def)
    have "attn_positions kc v = seq_positions (nat v) (kv_view ?kc ! 0) \<union> (if v = w then attn_positions ?kc u else {})"
      using attn_on_stream[OF inv ul(1) vl(1) cp] kc(1) ul(2) wl(2) vl(2) zero[OF vl(1)] zero[OF ul(1)] full
      by (auto simp: positions_cp)
    then show ?thesis using \<open>attn_positions ?kc w = {}\<close> zero[OF vl(1)] by (auto simp: attn_positions_def)
  qed
  obtain mr where mr: "rec_seq_cp u w (-1) (-1) ?mr = Some mr" "rec_ok mr" "rs_size mr = rs_size ?mr"
    "rec_view mr = (rec_view ?mr)(w := rec_view ?mr u)"
    using rec_seq_cp_ok[OF ok, of u w "-1" "-1"] u w(1) by (auto simp: known_seq_def valid_id_def)
  let ?h = "\<lparr>hy_attn = kc, hy_recr = mr\<rparr>"
  have "hybrid_seq_cp u w (-1) (-1) h = Some ?h" using kc(1) mr(1) by (simp add: hybrid_seq_cp_def)
  moreover have "in_step ?h" using st mr pos same_config_D(2)[OF kc(3)] u w(1) by (simp add: in_step_def known_seq_def attn_view_def)
  ultimately show ?thesis using kc(2,3) mr(2,3) pos by (intro exI[of _ ?h]) (simp add: attn_view_def)
qed

lemma pos_in_step:
  assumes inv: "kc_inv (hy_attn h) n" and ok: "rec_ok (hy_recr h)" and st: "in_step h" and u: "known_seq h u"
  shows "hybrid_seq_pos_max u h = Some (case attn_view (hy_attn h) u of None \<Rightarrow> -1 | Some p \<Rightarrow> p)"
    "\<forall>xs \<in> set (kv_view (hy_attn h)). room xs \<Longrightarrow>
     hybrid_seq_pos_min u h = Some (case attn_view (hy_attn h) u of None \<Rightarrow> -1 | Some p \<Rightarrow> p)"
proof -
  let ?kc = "hy_attn h" and ?P = "attn_positions (hy_attn h) u"
  have ul: "nat u < length (kc_seq_to_stream ?kc)" "int (nat u) = u" using u by (simp_all add: known_seq_def)
  have view: "rec_view (hy_recr h) u = attn_view ?kc u" using st u by (simp add: in_step_def)
  note kv = kv_seq_pos_min_max_ok[OF inv ul(1), folded attn_positions_def, unfolded ul(2)]
  note rs = rec_seq_pos_ok[OF ok, of u, unfolded view]
  show "hybrid_seq_pos_max u h = Some (case attn_view ?kc u of None \<Rightarrow> -1 | Some p \<Rightarrow> p)"
    using kv(2) rs(1) by (simp add: hybrid_seq_pos_max_def attn_view_def)
  assume room: "\<forall>xs \<in> set (kv_view ?kc). room xs"
  have s: "kc_seq_to_stream ?kc ! nat u < length (kv_view ?kc)"
    using seq_stream(1)[OF inv ul(1)] kc_inv_D(3)[OF inv] by (simp add: kv_view_def)
  then have "room (kv_view ?kc ! (kc_seq_to_stream ?kc ! nat u))" using room by simp
  then have lt: "p < INT32_MAX" if "p \<in> ?P" for p using that by (auto simp: attn_positions_def seq_positions_def room_def)
  have mx: "Max ?P \<in> ?P" if "?P \<noteq> {}" using Max_in[OF finite_positions that] .
  have "rec_seq_pos_min u (hy_recr h) = (case attn_view ?kc u of None \<Rightarrow> -1 | Some p \<Rightarrow> p)"
    by (rule rs(2)) (use lt mx in \<open>auto simp: attn_view_def split: if_splits\<close>)
  moreover have "Min ?P \<le> Max ?P" if "?P \<noteq> {}" using Min_le[OF finite_positions mx[OF that]] .
  ultimately show "hybrid_seq_pos_min u h = Some (case attn_view ?kc u of None \<Rightarrow> -1 | Some p \<Rightarrow> p)"
    using kv(1) by (simp add: hybrid_seq_pos_min_def attn_view_def)
qed

section \<open>Placing a micro-batch\<close>

text \<open>
  What keeps the memories in step: the tokens of a sequence are in its set, and the last position of the
  set is one of theirs, the largest, and not below what the sequence has.
\<close>

definition rising :: "memory_hybrid \<Rightarrow> llama_ubatch \<Rightarrow> bool" where
  "rising h ub \<longleftrightarrow>
     (\<forall>i < ub_n_tokens ub. \<forall>v \<in> set (ub_ids ub i). \<exists>s < ub_n_seqs ub. v \<in> set (ids_of ub s)) \<and>
     (\<forall>s < ub_n_seqs ub. \<forall>v \<in> set (ids_of ub s).
        (\<exists>i < ub_n_tokens ub. v \<in> set (ub_ids ub i) \<and> ub_pos ub ! i = last_pos ub s) \<and>
        (\<forall>i < ub_n_tokens ub. v \<in> set (ub_ids ub i) \<longrightarrow> ub_pos ub ! i \<le> last_pos ub s) \<and>
        (\<forall>p \<in> attn_positions (hy_attn h) v. p \<le> last_pos ub s))"

lemma empty_free:
  assumes inv: "kc_inv kc n" and s: "s < kc_n_stream kc" and j: "j < n" "fst (kv_view kc ! s ! j) = -1"
  shows "\<not> has_seq q (kv_view kc ! s ! j)"
proof -
  note D = kc_inv_D[OF inv]
  let ?c = "kc_cells kc ! s"
  have "cell_ok (kv_pos ?c ! j) (kv_shift ?c ! j) (kv_seq ?c ! j) (kv_has_shift ?c)"
    using D(6)[OF s] D(7)[OF s] j(1) by (simp add: cells_inv_def)
  then show ?thesis using j D(3,7) s by (simp add: kv_view_nth cell_ok_def has_seq_def)
qed

lemma positions_write:
  assumes inv: "kc_inv kc n" and one: "kc_n_stream kc = 1" and ub: "ub_ok kc ub" and slot: "slot_for kc n ub si"
    and none: "kc_swa_type kc = LLAMA_SWA_TYPE_NONE" and v: "0 \<le> v" "nat v < length (kc_seq_to_stream kc)"
  shows "\<exists>kc'. apply_ubatch si ub kc = Some kc' \<and> kc_inv kc' n \<and> same_config kc kc' \<and>
    attn_positions kc' v = attn_positions kc v \<union> {ub_pos ub ! i |i. i < ub_n_tokens ub \<and> v \<in> set (ub_ids ub i)}"
proof -
  obtain kc' where kc': "apply_ubatch si ub kc = Some kc'" "kc_inv kc' n" "same_config kc kc'"
    "kv_view kc' = write_streams kc ub si (ub_ns kc ub)" using apply_ubatch_none[OF inv ub slot none] by blast
  have zero: "kc_seq_to_stream kc ! nat v = 0" using seq_stream(1)[OF inv v(2)] one by simp
  have ns: "ub_ns kc ub = 1" "ub_nt kc ub = ub_n_tokens ub" using one by (simp_all add: ub_ns_def ub_nt_def)
  have strm: "ub_strm kc ub 0 = 0" using ub_strm_less[OF inv ub, of 0] ns one by simp
  let ?xs = "kv_view kc ! 0" and ?idxs = "si_idxs si ! 0" and ?q = "nat v"
  have len: "0 < length (kv_view kc)" "length ?xs = n" using kc_inv_D(3,7)[OF inv] one by (simp_all add: kv_view_def)
  have S: "length ?idxs = ub_n_tokens ub" "distinct ?idxs" "\<forall>i \<in> set ?idxs. i < n \<and> fst (?xs ! i) = -1"
    using slot ns usable_none[OF none] by (auto simp: slot_for_def strm)
  have w: "kv_view kc' ! 0 = write_cells ub 0 ?idxs ?xs" using kc'(4) len(1) by (simp add: ns strm Let_def)
  have in_ids: "?q \<in> nat ` set (ub_ids ub i) \<longleftrightarrow> v \<in> set (ub_ids ub i)" if "i < ub_n_tokens ub" for i
  proof -
    have "token_ok kc ub 0 i" using ub_ok_D(8)[OF ub, of 0 i] that ns by simp
    then have "\<forall>q \<in> set (ub_ids ub i). 0 \<le> q" by (simp add: token_ok_def)
    then show ?thesis using v(1) by (metis (no_types, lifting) eq_nat_nat_iff image_iff)
  qed
  have lt: "\<forall>j \<in> set ?idxs. j < length ?xs" using S(3) len(2) by simp
  have "seq_positions ?q (kv_view kc' ! 0) = seq_positions ?q ?xs \<union> {ub_pos ub ! i |i. i < ub_n_tokens ub \<and> v \<in> set (ub_ids ub i)}" (is "?L = ?R")
  proof (intro equalityI subsetI)
    fix p assume "p \<in> ?L"
    then obtain x where x: "x \<in> set (write_cells ub 0 ?idxs ?xs)" "has_seq ?q x" "p = fst x" by (auto simp: seq_positions_def w)
    from write_cells_set[OF S(2) lt x(1)] show "p \<in> ?R"
    proof
      assume "x \<in> set ?xs"
      then show ?thesis using x(2,3) by (auto simp: seq_positions_def)
    next
      assume "\<exists>k < length ?idxs. x = written ub (0 + k) (?xs ! (?idxs ! k))"
      then obtain k where k: "k < ub_n_tokens ub" "x = written ub k (?xs ! (?idxs ! k))" using S(1) by auto
      then have "v \<in> set (ub_ids ub k)" using x(2) in_ids by (simp add: has_seq_def written_def)
      then show ?thesis using k x(3) by (auto simp: written_def)
    qed
  next
    fix p assume "p \<in> ?R"
    then consider x where "x \<in> set ?xs" "has_seq ?q x" "p = fst x"
      | k where "k < ub_n_tokens ub" "v \<in> set (ub_ids ub k)" "p = ub_pos ub ! k"
      by (auto simp: seq_positions_def)
    then show "p \<in> ?L"
    proof cases
      case 1
      then obtain j where j: "j < n" "x = ?xs ! j" using len(2) by (metis in_set_conv_nth)
      then have "j \<notin> set ?idxs" using 1(2) S(3) empty_free[OF inv _ j(1)] one by auto
      then have "x = kv_view kc' ! 0 ! j" using j(2) by (simp add: w write_cells_other)
      moreover have "j < length (kv_view kc' ! 0)" using j(1) len(2) by (simp add: w)
      ultimately have "x \<in> set (kv_view kc' ! 0)" by simp
      then show ?thesis using 1 by (auto simp: seq_positions_def)
    next
      case 2
      let ?x = "written ub k (?xs ! (?idxs ! k))"
      have "?x = kv_view kc' ! 0 ! (?idxs ! k)" using write_cells_nth[OF S(2) _ lt, of k ub 0] 2(1) S(1) by (simp add: w)
      moreover have "?idxs ! k < length (kv_view kc' ! 0)" using lt 2(1) S(1) by (simp add: w)
      ultimately have "?x \<in> set (kv_view kc' ! 0)" by simp
      moreover have "has_seq ?q ?x" using 2(2) in_ids[OF 2(1)] by (simp add: has_seq_def written_def)
      moreover have "fst ?x = p" by (simp add: written_def 2(3))
      ultimately show ?thesis by (force simp: seq_positions_def)
    qed
  qed
  then show ?thesis using kc'(1-3) zero same_config_D(2)[OF kc'(3)] by (intro exI[of _ kc']) (simp add: attn_positions_def)
qed

lemma place_in_step:
  assumes inv: "kc_inv (hy_attn h) n" and one: "kc_n_stream (hy_attn h) = 1" and none: "kc_swa_type (hy_attn h) = LLAMA_SWA_TYPE_NONE"
    and ok: "rec_ok (hy_recr h)" and st: "in_step h"
    and ub: "ub_ok (hy_attn h) ub" "slot_ubatch ub" "seqs_fit (rs_size (hy_recr h)) ub" "rising h ub"
    and slot: "slot_for (hy_attn h) n ub si"
    and a: "apply_ubatch si ub (hy_attn h) = Some kc" and f: "rec_find_slot ub (hy_recr h) = Some (b, mr)"
  shows "kc_inv kc n \<and> same_config (hy_attn h) kc \<and> rec_ok mr \<and> rs_size mr = rs_size (hy_recr h) \<and> in_step \<lparr>hy_attn = kc, hy_recr = mr\<rparr>"
proof -
  let ?kc = "hy_attn h" and ?h = "\<lparr>hy_attn = kc, hy_recr = mr\<rparr>"
  have kc: "kc_inv kc n" "same_config ?kc kc" using apply_ubatch_none[OF inv ub(1) slot none] a by auto
  have mr: "rec_ok mr" "rs_size mr = rs_size (hy_recr h)"
    "rec_view mr = advance ub (\<lambda>s _. Some (last_pos ub s)) (rec_view (hy_recr h))"
    using find_slot_total[OF ok ub(2)] f ub(3) by auto
  have same: "known_seq ?h v \<longleftrightarrow> known_seq h v" for v using mr(2) same_config_D(2)[OF kc(2)] by (simp add: known_seq_def)
  have "rec_view mr v = attn_view kc v" if v: "known_seq h v" for v
  proof -
    have vl: "0 \<le> v" "nat v < length (kc_seq_to_stream ?kc)" using v by (simp_all add: known_seq_def)
    have pos: "attn_positions kc v = attn_positions ?kc v \<union> {ub_pos ub ! i |i. i < ub_n_tokens ub \<and> v \<in> set (ub_ids ub i)}"
      using positions_write[OF inv one ub(1) slot none vl] a by auto
    show ?thesis
    proof (cases "set_no ub v")
      case None
      then have "v \<notin> set (ub_ids ub i)" if "i < ub_n_tokens ub" for i
        using ub(4) that unfolding rising_def set_no_None by blast
      then have "attn_positions kc v = attn_positions ?kc v" using pos by auto
      then show ?thesis using None st v by (simp add: mr(3) advance_def attn_view_def in_step_def)
    next
      case (Some s)
      then have s: "s < ub_n_seqs ub" "v \<in> set (ids_of ub s)" using set_no_Some by blast+
      obtain i where i: "i < ub_n_tokens ub" "v \<in> set (ub_ids ub i)" "ub_pos ub ! i = last_pos ub s"
        and le: "\<forall>i < ub_n_tokens ub. v \<in> set (ub_ids ub i) \<longrightarrow> ub_pos ub ! i \<le> last_pos ub s"
          "\<forall>p \<in> attn_positions ?kc v. p \<le> last_pos ub s"
        using ub(4) s unfolding rising_def by blast
      have m: "last_pos ub s \<in> attn_positions kc v" using i unfolding pos by (auto intro!: exI[of _ i])
      have "Max (attn_positions kc v) = last_pos ub s"
        by (rule Max_eqI[OF finite_positions _ m]) (use le pos in auto)
      then show ?thesis using Some m by (auto simp: mr(3) advance_def attn_view_def)
    qed
  qed
  then have "in_step ?h" by (simp add: in_step_def same)
  then show ?thesis using kc mr(1,2) by simp
qed

section \<open>The state machine\<close>

text \<open>
  The states that a hybrid memory with one stream and without a sliding window gets to. A sequence is
  copied whole and onto one that is not there; a micro-batch raises the positions of its sequences. Not among the
  transitions, although the source has them: \<open>seq_rm\<close> of all sequences, which leaves the tails of the recurrent part
  behind, \<open>seq_add\<close> and \<open>seq_div\<close>, which shift whole cells and so in general different sequences in the two parts,
  and partial copies, which the recurrent part makes whole; the invariant does not survive them.
\<close>

inductive hybrid_reach :: "nat \<Rightarrow> nat \<Rightarrow> memory_hybrid \<Rightarrow> bool" for n m where
  new: "hybrid_new v_trans True n n_seq_max n_pad n_swa LLAMA_SWA_TYPE_NONE n_pos n_embd_v alibi m = Some h \<Longrightarrow> hybrid_reach n m h"
| clear: "hybrid_reach n m h \<Longrightarrow> hybrid_reach n m (hybrid_clear h)"
| rm: "hybrid_reach n m h \<Longrightarrow> known_seq h u \<Longrightarrow> hybrid_seq_rm u p0 p1 h = Some (b, h') \<Longrightarrow> hybrid_reach n m h'"
| keep: "hybrid_reach n m h \<Longrightarrow> known_seq h u \<Longrightarrow> hybrid_seq_keep u h = Some h' \<Longrightarrow> hybrid_reach n m h'"
| cp: "hybrid_reach n m h \<Longrightarrow> known_seq h u \<Longrightarrow> known_seq h w \<Longrightarrow> attn_view (hy_attn h) w = None \<Longrightarrow>
    \<forall>xs \<in> set (kv_view (hy_attn h)). room xs \<Longrightarrow> hybrid_seq_cp u w (-1) (-1) h = Some h' \<Longrightarrow> hybrid_reach n m h'"
| place: "hybrid_reach n m h \<Longrightarrow> ub_ok (hy_attn h) ub \<Longrightarrow> slot_ubatch ub \<Longrightarrow> seqs_fit m ub \<Longrightarrow> rising h ub \<Longrightarrow>
    slot_for (hy_attn h) n ub si \<Longrightarrow> apply_ubatch si ub (hy_attn h) = Some kc \<Longrightarrow> rec_find_slot ub (hy_recr h) = Some (b, mr) \<Longrightarrow>
    hybrid_reach n m \<lparr>hy_attn = kc, hy_recr = mr\<rparr>"

definition hybrid_ok :: "nat \<Rightarrow> nat \<Rightarrow> memory_hybrid \<Rightarrow> bool" where
  "hybrid_ok n m h \<longleftrightarrow> kc_inv (hy_attn h) n \<and> kc_n_stream (hy_attn h) = 1 \<and> kc_swa_type (hy_attn h) = LLAMA_SWA_TYPE_NONE \<and>
     rec_ok (hy_recr h) \<and> rs_size (hy_recr h) = m \<and> in_step h"

lemma hybrid_reach_ok:
  assumes "0 < m" "m < 2 ^ 31" "hybrid_reach n m h"
  shows "hybrid_ok n m h"
  using assms(3)
proof induction
  case (new v_trans n_seq_max n_pad n_swa n_pos n_embd_v alibi h)
  then obtain kc where kc: "kv_cache_init v_trans True n n_seq_max n_pad n_swa LLAMA_SWA_TYPE_NONE n_pos n_embd_v alibi = Some kc"
    "h = \<lparr>hy_attn = kc, hy_recr = recurrent_new m\<rparr>" by (auto simp: hybrid_new_def bind_eq_Some_conv)
  then have "n_pad \<noteq> 0" "n mod n_pad = 0" by (auto simp: kv_cache_init_def bind_eq_Some_conv)
  from kv_cache_init_ok[OF this, of True n_seq_max v_trans n_swa LLAMA_SWA_TYPE_NONE n_pos n_embd_v alibi] kc(1)
  have i: "kc_inv kc n" "kv_view kc = [replicate n empty_cell]" by auto
  have c: "kc_n_stream kc = 1" "kc_swa_type kc = LLAMA_SWA_TYPE_NONE" using kc(1) by (auto simp: kv_cache_init_def bind_eq_Some_conv)
  have "attn_view kc u = None" if "nat u < length (kc_seq_to_stream kc)" for u
    using seq_stream(1)[OF i(1) that] by (auto simp: attn_view_def attn_positions_def seq_positions_def i(2) c(1) has_seq_def empty_cell_def)
  moreover have "rs_size (recurrent_new m) = m" by (simp add: recurrent_new_def)
  ultimately show ?case using i(1) c rec_new_ok[OF assms(1,2)] by (simp add: hybrid_ok_def kc(2) in_step_def known_seq_def)
next
  case (clear h)
  then have h: "kc_inv (hy_attn h) n" "kc_n_stream (hy_attn h) = 1" "kc_swa_type (hy_attn h) = LLAMA_SWA_TYPE_NONE" "rec_ok (hy_recr h)"
    "rs_size (hy_recr h) = m" by (simp_all add: hybrid_ok_def)
  note k = kv_clear_ok[OF h(1)]
  have f: "kc_n_stream (kv_clear kc) = kc_n_stream kc" "kc_swa_type (kv_clear kc) = kc_swa_type kc"
    "kc_seq_to_stream (kv_clear kc) = kc_seq_to_stream kc" for kc by (simp_all add: kv_clear_def)
  have "attn_view (kv_clear (hy_attn h)) u = None" if "nat u < length (kc_seq_to_stream (hy_attn h))" for u
  proof -
    have "kc_seq_to_stream (hy_attn h) ! nat u < length (kv_view (hy_attn h))"
      using seq_stream(1)[OF h(1) that] kc_inv_D(3)[OF h(1)] by (simp add: kv_view_def)
    then show ?thesis using k by (auto simp: attn_view_def attn_positions_def seq_positions_def f has_seq_def empty_cell_def)
  qed
  moreover have "rs_size (rec_clear (hy_recr h)) = rs_size (hy_recr h)" by (simp add: rec_clear_def)
  ultimately show ?case using k rec_clear_ok[OF h(4)] h(2,3,5) by (simp add: hybrid_ok_def hybrid_clear_def in_step_def known_seq_def f)
next
  case (rm h u p0 p1 b h')
  then show ?case using rm_in_step[of h n u p0 p1] by (auto simp: hybrid_ok_def same_config_D)
next
  case (keep h u h')
  then show ?case using keep_in_step[of h n u] by (auto simp: hybrid_ok_def same_config_D)
next
  case (cp h u w h')
  then show ?case using cp_in_step[of h n u w] by (auto simp: hybrid_ok_def same_config_D)
next
  case (place h ub si kc b mr)
  then have "kc_inv (hy_attn h) n" "kc_n_stream (hy_attn h) = 1" "kc_swa_type (hy_attn h) = LLAMA_SWA_TYPE_NONE" "rec_ok (hy_recr h)"
    "rs_size (hy_recr h) = m" "in_step h" by (simp_all add: hybrid_ok_def)
  from place_in_step[OF this(1-4,6) place.hyps(2,3) _ place.hyps(5-8)] this(2,3,5) place.hyps(4)
  show ?case by (auto simp: hybrid_ok_def same_config_D)
qed

end
