(* ===== verification/IswaLaws.thy ===== *)
theory IswaLaws
  imports Iswa HybridLaws
begin

text \<open>
  The comment in \<open>seq_pos_min\<close> of \<open>src/llama-kv-cache-iswa.cpp\<close>, as an invariant: whatever the cache with the window
  has, the base cache has at the same position for at least the same sequences. Writing a micro-batch keeps it,
  since the base cache overwrites no cell, while the other one overwrites and purges what has left the window.
\<close>

abbreviation seqs :: "cell \<Rightarrow> nat set" where
  "seqs x \<equiv> snd (snd (snd x))"

definition covers :: "cell \<Rightarrow> cell \<Rightarrow> bool" where
  "covers y x \<longleftrightarrow> fst y = fst x \<and> seqs x \<subseteq> seqs y"

definition covered :: "cell list list \<Rightarrow> cell list list \<Rightarrow> bool" where
  "covered vs vb \<longleftrightarrow> length vs = length vb \<and>
     (\<forall>s < length vs. \<forall>x \<in> set (vs ! s). seqs x \<noteq> {} \<longrightarrow> (\<exists>y \<in> set (vb ! s). covers y x))"

lemma coveredD: "covered vs vb \<Longrightarrow> s < length vs \<Longrightarrow> x \<in> set (vs ! s) \<Longrightarrow> seqs x \<noteq> {} \<Longrightarrow> \<exists>y \<in> set (vb ! s). covers y x"
  unfolding covered_def by blast

lemma covered_update:
  assumes c: "covered vs vb" and n: "\<And>x. x \<in> set xs \<Longrightarrow> seqs x \<noteq> {} \<Longrightarrow> \<exists>y \<in> set ys. covers y x"
  shows "covered (vs[t := xs]) (vb[t := ys])"
  unfolding covered_def
proof (intro conjI allI impI ballI)
  show "length (vs[t := xs]) = length (vb[t := ys])" using c by (simp add: covered_def)
next
  fix s x assume s: "s < length (vs[t := xs])" and x: "x \<in> set (vs[t := xs] ! s)" "seqs x \<noteq> {}"
  have "s < length vs" "s < length vb" using s c by (simp_all add: covered_def)
  then show "\<exists>y \<in> set (vb[t := ys] ! s). covers y x"
    using n[OF _ x(2)] coveredD[OF c _ _ x(2)] x(1) by (cases "s = t") simp_all
qed

text \<open>A change of single cells that keeps the relation.\<close>

definition monotone_on :: "cell set \<Rightarrow> (cell \<Rightarrow> cell) \<Rightarrow> bool" where
  "monotone_on Y g \<longleftrightarrow> (\<forall>x. \<forall>y \<in> Y. seqs (g x) \<noteq> {} \<longrightarrow> seqs x \<noteq> {} \<and> (covers y x \<longrightarrow> covers (g y) (g x)))"

lemma covered_stream:
  assumes c: "covered vs vb" and s: "s < length vs" and g: "monotone_on (set (vb ! s)) g" "\<And>x. seqs (g x) \<noteq> {} \<Longrightarrow> seqs x \<noteq> {}"
  shows "covered (on_stream s g vs) (on_stream s g vb)"
  unfolding covered_def
proof (intro conjI allI impI ballI)
  show "length (on_stream s g vs) = length (on_stream s g vb)" using c by (simp add: covered_def on_stream_def)
next
  fix t x
  assume t: "t < length (on_stream s g vs)" and x: "x \<in> set (on_stream s g vs ! t)" "seqs x \<noteq> {}"
  have len: "length vs = length vb" "t < length vs" using c t by (simp_all add: covered_def on_stream_def)
  show "\<exists>y \<in> set (on_stream s g vb ! t). covers y x"
  proof (cases "t = s")
    case True
    then obtain x0 where x0: "x0 \<in> set (vs ! s)" "x = g x0" using x(1) s by (auto simp: on_stream_def)
    then have "seqs x0 \<noteq> {}" using x(2) g(2) by blast
    from coveredD[OF c s x0(1) this] obtain y where "y \<in> set (vb ! s)" "covers y x0" by blast
    then have "covers (g y) x" using g(1) x0(2) x(2) unfolding monotone_on_def by blast
    then show ?thesis using True \<open>y \<in> set (vb ! s)\<close> s len(1) by (auto simp: on_stream_def)
  next
    case False
    then show ?thesis using coveredD[OF c len(2), of x] x by (auto simp: on_stream_def)
  qed
qed

lemma cell_monotone:
  "monotone_on Y (\<lambda>x. if in_range a b x \<and> has_seq u x then drop_seq u x else x)"
  "monotone_on Y (keep_seq u)"
  "monotone_on Y (\<lambda>x. if in_range a b x \<and> has_seq u x then join_seq w x else x)"
  by (auto simp: monotone_on_def covers_def in_range_def has_seq_def drop_seq_def keep_seq_def join_seq_def empty_cell_def split: prod.splits if_splits)

text \<open>Shifting needs that the cells of the sequence are not shared.\<close>

definition unshared :: "nat \<Rightarrow> cell list \<Rightarrow> bool" where
  "unshared u xs \<longleftrightarrow> (\<forall>x \<in> set xs. u \<in> seqs x \<longrightarrow> seqs x = {u})"

lemma shift_monotone:
  assumes u: "unshared u xs"
  shows "monotone_on (set xs) (\<lambda>x. if in_range a b x \<and> has_seq u x then shift_cell d x else x)"
    "monotone_on (set xs) (\<lambda>x. if in_range a b x \<and> has_seq u x then div_cell d x else x)"
proof -
  have both: "has_seq u x" if "y \<in> set xs" "covers y x" "has_seq u y" "seqs x \<noteq> {}" for x y
  proof -
    have "seqs y = {u}" using u that(1,3) by (simp add: unshared_def has_seq_def)
    then show ?thesis using that(2,4) by (auto simp: covers_def has_seq_def)
  qed
  have same: "in_range a b x \<and> has_seq u x \<longleftrightarrow> in_range a b y \<and> has_seq u y" if "y \<in> set xs" "covers y x" "seqs x \<noteq> {}" for x y
    using both[OF that(1,2) _ that(3)] that(2) by (auto simp: covers_def in_range_def has_seq_def)
  have empty: "seqs (shift_cell d x) \<noteq> {} \<Longrightarrow> seqs x \<noteq> {}" "seqs (div_cell d x) \<noteq> {} \<Longrightarrow> seqs x \<noteq> {}" for x
    by (cases x; simp add: shift_cell_def div_cell_def split: if_splits)+
  have step: "covers y x \<Longrightarrow> covers (shift_cell d y) (shift_cell d x)" "covers y x \<Longrightarrow> covers (div_cell d y) (div_cell d x)" for x y
    by (cases x; cases y; simp add: covers_def shift_cell_def div_cell_def)+
  have "monotone_on (set xs) (\<lambda>x. if in_range a b x \<and> has_seq u x then f x else x)"
    if f: "\<And>x. seqs (f x) \<noteq> {} \<Longrightarrow> seqs x \<noteq> {}" "\<And>x y. covers y x \<Longrightarrow> covers (f y) (f x)" for f
    unfolding monotone_on_def
  proof (intro allI ballI impI conjI)
    fix x y assume y: "y \<in> set xs" and ne: "seqs (if in_range a b x \<and> has_seq u x then f x else x) \<noteq> {}"
    show x: "seqs x \<noteq> {}" using ne f(1)[of x] by (auto split: if_splits)
    assume c: "covers y x"
    show "covers (if in_range a b y \<and> has_seq u y then f y else y) (if in_range a b x \<and> has_seq u x then f x else x)"
      using same[OF y c x] f(2)[OF c] c by (cases "in_range a b x \<and> has_seq u x") auto
  qed
  from this[of "shift_cell d", OF empty(1) step(1)] this[of "div_cell d", OF empty(2) step(2)]
  show "monotone_on (set xs) (\<lambda>x. if in_range a b x \<and> has_seq u x then shift_cell d x else x)"
    "monotone_on (set xs) (\<lambda>x. if in_range a b x \<and> has_seq u x then div_cell d x else x)" by blast+
qed

section \<open>Placing a micro-batch\<close>

lemma covered_write:
  assumes c: "covered (kv_view ks) (kv_view kb)"
    and cfg: "kc_seq_to_stream ks = kc_seq_to_stream kb" "kc_n_stream ks = kc_n_stream kb"
    and inv: "kc_inv kb n0" "kc_inv ks n1" and ub: "ub_ok kb ub" "ub_ok ks ub"
    and none: "kc_swa_type kb = LLAMA_SWA_TYPE_NONE" and slot: "slot_for kb n0 ub sb" "slot_for ks n1 ub ss"
  shows "k \<le> ub_ns kb ub \<Longrightarrow> covered (write_streams ks ub ss k) (write_streams kb ub sb k)"
proof (induction k)
  case (Suc s)
  have eq: "ub_ns ks ub = ub_ns kb ub" "ub_nt ks ub = ub_nt kb ub" "ub_strm ks ub = ub_strm kb ub"
    using cfg by (simp_all add: ub_ns_def ub_nt_def ub_strm_def fun_eq_iff)
  let ?t = "ub_strm kb ub s" and ?b = "s * ub_nt kb ub"
  let ?xs = "kv_view ks ! ?t" and ?ys = "kv_view kb ! ?t" and ?is = "si_idxs ss ! s" and ?ib = "si_idxs sb ! s"
  have s: "s < ub_ns kb ub" "s < ub_ns ks ub" using Suc.prems eq by simp_all
  have t: "?t < kc_n_stream kb" "?t < length (kv_view ks)" "?t < length (kv_view kb)"
    using ub_strm_less[OF inv(1) ub(1) s(1)] kc_inv_D(3)[OF inv(1)] kc_inv_D(3)[OF inv(2)] cfg(2) by (simp_all add: kv_view_def)
  have other: "write_streams ks ub ss s ! ?t = ?xs" "write_streams kb ub sb s ! ?t = ?ys"
    using ub(1) s(1) eq(3) by (auto intro!: write_streams_other simp: ub_ok_def distinct_conv_nth)
  have len: "length ?xs = n1" "length ?ys = n0"
    using kc_inv_D(3,7)[OF inv(1)] kc_inv_D(3,7)[OF inv(2)] t cfg(2) by (simp_all add: kv_view_nth)
  have S: "length ?is = ub_nt kb ub" "distinct ?is" "\<forall>i \<in> set ?is. i < length ?xs"
    "length ?ib = ub_nt kb ub" "distinct ?ib" "\<forall>i \<in> set ?ib. i < length ?ys \<and> fst (?ys ! i) = -1"
    using slot s usable_none[OF none] eq len by (auto simp: slot_for_def)
  have lt: "\<forall>i \<in> set ?ib. i < length ?ys" using S(6) by blast
  have "\<exists>y \<in> set (write_cells ub ?b ?ib ?ys). covers y x" if x: "x \<in> set (write_cells ub ?b ?is ?xs)" "seqs x \<noteq> {}" for x
    using write_cells_set[OF S(2,3) x(1)]
  proof
    assume "x \<in> set ?xs"
    from coveredD[OF c t(2) this x(2)] obtain y where y: "y \<in> set ?ys" "covers y x" by blast
    then obtain j where j: "j < length ?ys" "y = ?ys ! j" by (auto simp: in_set_conv_nth)
    obtain q where "q \<in> seqs y" using y(2) x(2) by (auto simp: covers_def)
    then have "j \<notin> set ?ib" using S(6) empty_free[OF inv(1) t(1), of j q] j len(2) by (auto simp: has_seq_def)
    then have "y = write_cells ub ?b ?ib ?ys ! j" using j by (simp add: write_cells_other)
    then have "y \<in> set (write_cells ub ?b ?ib ?ys)" using j(1) by simp
    then show ?thesis using y(2) by blast
  next
    assume "\<exists>k < length ?is. x = written ub (?b + k) (?xs ! (?is ! k))"
    then obtain k where k: "k < ub_nt kb ub" "x = written ub (?b + k) (?xs ! (?is ! k))" using S(1) by auto
    let ?y = "written ub (?b + k) (?ys ! (?ib ! k))"
    have "?ib ! k < length (write_cells ub ?b ?ib ?ys)" using lt k(1) S(4) by simp
    then have "?y \<in> set (write_cells ub ?b ?ib ?ys)"
      using write_cells_nth[OF S(5) _ lt, of k ub ?b] k(1) S(4) by (metis nth_mem)
    moreover have "covers ?y x" by (simp add: covers_def k(2) written_def)
    ultimately show ?thesis by blast
  qed
  moreover have "covered (write_streams ks ub ss s) (write_streams kb ub sb s)" using Suc by simp
  ultimately show ?case unfolding write_streams.simps Let_def eq other by (intro covered_update)
qed (use c in simp)

lemma covered_purged:
  assumes "covered vs vb"
  shows "covered (map (map (purged k m)) vs) vb"
  unfolding covered_def
proof (intro conjI allI impI ballI)
  show "length (map (map (purged k m)) vs) = length vb" using assms by (simp add: covered_def)
next
  fix s x assume s: "s < length (map (map (purged k m)) vs)" and x: "x \<in> set (map (map (purged k m)) vs ! s)" "seqs x \<noteq> {}"
  then obtain x0 where x0: "x0 \<in> set (vs ! s)" "x = purged k m x0" by auto
  have p: "fst x = fst x0 \<and> seqs x \<subseteq> seqs x0" using x(2) by (cases x0) (auto simp: x0(2) purged_def Let_def empty_cell_def split: if_splits)
  then have "seqs x0 \<noteq> {}" using x(2) by auto
  then obtain y where "y \<in> set (vb ! s)" "covers y x0" using coveredD[OF assms _ x0(1)] s by auto
  then show "\<exists>y \<in> set (vb ! s). covers y x" using p by (auto simp: covers_def)
qed

section \<open>The state machine\<close>

text \<open>
  \<open>seq_add\<close> and \<open>seq_div\<close> are restricted to sequences that share no cell of the base cache. The source has no such
  condition, but the relation between the caches needs it: when the last sequence but one has been purged from
  a shared cell of the cache with the window, shifting the purged sequence moves the base cell only.
\<close>

inductive iswa_reach :: "nat \<Rightarrow> nat \<Rightarrow> kv_cache_iswa \<Rightarrow> bool" for n0 n1 where
  new: "iswa_new v_trans swa_full unified n0 n_seq_max n_ubatch n_pad n_swa swa n_pos n_embd alibi = Some iw \<Longrightarrow>
    n1 = iswa_size swa_full unified n0 n_swa n_seq_max n_ubatch \<Longrightarrow>
    unified \<or> 0 < n_seq_max \<and> n_seq_max \<le> LLAMA_MAX_SEQ \<Longrightarrow> iswa_reach n0 n1 iw"
| clear: "iswa_reach n0 n1 iw \<Longrightarrow> iswa_reach n0 n1 (iswa_clear iw)"
| rm: "iswa_reach n0 n1 iw \<Longrightarrow> iswa_seq_rm q p0 p1 iw = Some (b, iw') \<Longrightarrow> iswa_reach n0 n1 iw'"
| keep: "iswa_reach n0 n1 iw \<Longrightarrow> iswa_seq_keep q iw = Some iw' \<Longrightarrow> iswa_reach n0 n1 iw'"
| add: "iswa_reach n0 n1 iw \<Longrightarrow> unshared (nat q) (kv_view (iw_base iw) ! (kc_seq_to_stream (iw_base iw) ! nat q)) \<Longrightarrow>
    \<forall>kc \<in> {iw_base iw, iw_swa iw}. int_safe (\<lambda>x. in_i32 (fst x + d) \<and> in_i32 (fst (snd (snd x)) + d)) kc (nat q) p0 p1 \<Longrightarrow>
    iswa_seq_add q p0 p1 d iw = Some iw' \<Longrightarrow> iswa_reach n0 n1 iw'"
| div: "iswa_reach n0 n1 iw \<Longrightarrow> unshared (nat q) (kv_view (iw_base iw) ! (kc_seq_to_stream (iw_base iw) ! nat q)) \<Longrightarrow>
    \<forall>kc \<in> {iw_base iw, iw_swa iw}. int_safe (\<lambda>x. in_i32 (fst (snd (snd x)) + (fst x - fst x div d))) kc (nat q) p0 p1 \<Longrightarrow> 0 < d \<Longrightarrow>
    iswa_seq_div q p0 p1 d iw = Some iw' \<Longrightarrow> iswa_reach n0 n1 iw'"
| cp: "iswa_reach n0 n1 iw \<Longrightarrow>
    kc_seq_to_stream (iw_base iw) ! nat q = kc_seq_to_stream (iw_base iw) ! nat r \<Longrightarrow>
    iswa_seq_cp q r p0 p1 iw = Some iw' \<Longrightarrow> iswa_reach n0 n1 iw'"
| copy: "iswa_reach n0 n1 iw \<Longrightarrow> kc_seq_to_stream (iw_base iw) ! nat q \<noteq> kc_seq_to_stream (iw_base iw) ! nat r \<Longrightarrow>
    \<forall>kc \<in> {iw_base iw, iw_swa iw}. \<forall>(p, e, sh, S) \<in> set (kv_view kc ! (kc_seq_to_stream kc ! nat q)). nat q \<in> S \<longrightarrow> 0 \<le> p - sh \<and> in_i32 (p - sh) \<Longrightarrow>
    iswa_seq_cp q r p0 p1 iw = Some iw' \<Longrightarrow> iswa_reach n0 n1 iw'"
| place: "iswa_reach n0 n1 iw \<Longrightarrow> \<forall>kc \<in> {iw_base iw, iw_swa iw}. (\<forall>xs \<in> set (kv_view kc). room xs) \<and> ub_ok kc ub \<Longrightarrow>
    slot_for (iw_base iw) n0 ub sb \<Longrightarrow> slot_for (iw_swa iw) n1 ub ss \<Longrightarrow>
    apply_ubatch sb ub (iw_base iw) = Some base \<Longrightarrow> apply_ubatch ss ub (iw_swa iw) = Some swa \<Longrightarrow>
    iswa_reach n0 n1 (iw\<lparr>iw_base := base, iw_swa := swa\<rparr>)"

definition iswa_ok :: "nat \<Rightarrow> nat \<Rightarrow> kv_cache_iswa \<Rightarrow> bool" where
  "iswa_ok n0 n1 iw \<longleftrightarrow> kc_inv (iw_base iw) n0 \<and> kc_inv (iw_swa iw) n1 \<and> kc_swa_type (iw_base iw) = LLAMA_SWA_TYPE_NONE \<and>
     kc_seq_to_stream (iw_swa iw) = kc_seq_to_stream (iw_base iw) \<and> kc_n_stream (iw_swa iw) = kc_n_stream (iw_base iw) \<and>
     covered (kv_view (iw_swa iw)) (kv_view (iw_base iw))"

lemma iswa_streamI:
  assumes ok: "iswa_ok n0 n1 iw" and q: "q < length (kc_seq_to_stream (iw_base iw))"
    and b: "evolves (iw_base iw) n0 (on_stream (kc_seq_to_stream (iw_base iw) ! q) g (kv_view (iw_base iw))) (Some base)"
    and s: "evolves (iw_swa iw) n1 (on_stream (kc_seq_to_stream (iw_swa iw) ! q) g (kv_view (iw_swa iw))) (Some swa)"
    and g: "monotone_on (set (kv_view (iw_base iw) ! (kc_seq_to_stream (iw_base iw) ! q))) g" "\<And>x. seqs (g x) \<noteq> {} \<Longrightarrow> seqs x \<noteq> {}"
  shows "iswa_ok n0 n1 (iw\<lparr>iw_base := base, iw_swa := swa\<rparr>)"
proof -
  let ?s = "kc_seq_to_stream (iw_base iw) ! q"
  have O: "kc_inv (iw_base iw) n0" "kc_inv (iw_swa iw) n1" "kc_seq_to_stream (iw_swa iw) = kc_seq_to_stream (iw_base iw)"
    "kc_n_stream (iw_swa iw) = kc_n_stream (iw_base iw)" "covered (kv_view (iw_swa iw)) (kv_view (iw_base iw))"
    "kc_swa_type (iw_base iw) = LLAMA_SWA_TYPE_NONE" using ok by (simp_all add: iswa_ok_def)
  have "?s < length (kv_view (iw_swa iw))" using seq_stream(1)[OF O(1) q] kc_inv_D(3)[OF O(2)] O(4) by (simp add: kv_view_def)
  from covered_stream[OF O(5) this g] have "covered (kv_view swa) (kv_view base)" using b s O(3) by (simp add: evolves_def)
  then show ?thesis using b s O by (auto simp: iswa_ok_def evolves_def same_config_D)
qed

lemma iswa_all:
  assumes ok: "iswa_ok n0 n1 iw" and g: "\<And>x y. covers y x \<Longrightarrow> covers (g y) (g x)" "\<And>x. seqs (g x) \<noteq> {} \<Longrightarrow> seqs x \<noteq> {}"
  shows "covered (map (map g) (kv_view (iw_swa iw))) (map (map g) (kv_view (iw_base iw)))"
proof -
  have c: "covered (kv_view (iw_swa iw)) (kv_view (iw_base iw))" using ok by (simp add: iswa_ok_def)
  show ?thesis
    unfolding covered_def
  proof (intro conjI allI impI ballI)
    show "length (map (map g) (kv_view (iw_swa iw))) = length (map (map g) (kv_view (iw_base iw)))" using c by (simp add: covered_def)
  next
    fix s x assume s: "s < length (map (map g) (kv_view (iw_swa iw)))" and x: "x \<in> set (map (map g) (kv_view (iw_swa iw)) ! s)" "seqs x \<noteq> {}"
    then obtain x0 where x0: "x0 \<in> set (kv_view (iw_swa iw) ! s)" "x = g x0" by auto
    then have "seqs x0 \<noteq> {}" using x(2) g(2) by blast
    then obtain y where y: "y \<in> set (kv_view (iw_base iw) ! s)" "covers y x0" using coveredD[OF c _ x0(1)] s by auto
    moreover have "s < length (kv_view (iw_base iw))" using s c by (simp add: covered_def)
    moreover have "covers (g y) x" using g(1)[OF y(2)] x0(2) by simp
    ultimately show "\<exists>y \<in> set (map (map g) (kv_view (iw_base iw)) ! s). covers y x" by auto
  qed
qed

lemma bothD:
  assumes "both f iw = Some iw'"
  obtains base swa where "f (iw_base iw) = Some base" "f (iw_swa iw) = Some swa" "iw' = iw\<lparr>iw_base := base, iw_swa := swa\<rparr>"
  using assms that by (auto simp: both_def bind_eq_Some_conv)

lemma kv_clear_sel [simp]:
  "kc_n_stream (kv_clear kc) = kc_n_stream kc" "kc_swa_type (kv_clear kc) = kc_swa_type kc"
  "kc_seq_to_stream (kv_clear kc) = kc_seq_to_stream kc"
  by (simp_all add: kv_clear_def)

lemma iswa_clear_ok:
  assumes ok: "iswa_ok n0 n1 iw"
  shows "iswa_ok n0 n1 (iswa_clear iw)"
  using iswa_all[OF ok, of "\<lambda>_. empty_cell"] kv_clear_ok[of "iw_base iw" n0] kv_clear_ok[of "iw_swa iw" n1] ok
  by (simp add: iswa_ok_def iswa_clear_def covers_def empty_cell_def)

lemma iswa_rm_ok:
  assumes ok: "iswa_ok n0 n1 iw" and r: "both (kv_seq_rm q p0 p1) iw = Some iw'"
  shows "iswa_ok n0 n1 iw'"
proof -
  obtain base swa where e: "kv_seq_rm q p0 p1 (iw_base iw) = Some base" "kv_seq_rm q p0 p1 (iw_swa iw) = Some swa"
    "iw' = iw\<lparr>iw_base := base, iw_swa := swa\<rparr>" using bothD[OF r] by blast
  have i: "kc_inv (iw_base iw) n0" "kc_inv (iw_swa iw) n1" "kc_seq_to_stream (iw_swa iw) = kc_seq_to_stream (iw_base iw)"
    using ok by (simp_all add: iswa_ok_def)
  show ?thesis
  proof (cases "q = -1")
    case True
    let ?g = "\<lambda>x. if in_range (lower p0) (upper p1) x then empty_cell else x"
    have "covers (?g y) (?g x)" if "covers y x" for x y using that by (simp add: covers_def in_range_def empty_cell_def)
    moreover have "seqs (?g x) \<noteq> {} \<Longrightarrow> seqs x \<noteq> {}" for x by (simp add: empty_cell_def split: if_splits)
    ultimately have "covered (map (map ?g) (kv_view (iw_swa iw))) (map (map ?g) (kv_view (iw_base iw)))" by (rule iswa_all[OF ok])
    moreover have "evolves (iw_base iw) n0 (map (map ?g) (kv_view (iw_base iw))) (Some base)"
      "evolves (iw_swa iw) n1 (map (map ?g) (kv_view (iw_swa iw))) (Some swa)"
      using kv_seq_rm_all_ok[OF i(1), of p0 p1] kv_seq_rm_all_ok[OF i(2), of p0 p1] e(1,2) True by simp_all
    ultimately show ?thesis using ok e(3) by (auto simp: evolves_def iswa_ok_def same_config_D)
  next
    case False
    with e(1) obtain s where "stream_of (iw_base iw) q = Some s" by (auto simp: kv_seq_rm_def bind_eq_Some_conv)
    then obtain k where k: "q = int k" "k < length (kc_seq_to_stream (iw_base iw))" using stream_of_nat by blast
    show ?thesis
      unfolding e(3)
      by (rule iswa_streamI[OF ok k(2) kv_seq_rm_ok[OF i(1) k(2), of p0 p1, folded k(1), unfolded e(1)]
            kv_seq_rm_ok[OF i(2) k(2)[folded i(3)], of p0 p1, folded k(1), unfolded e(2)] cell_monotone(1)])
        (auto simp: drop_seq_def empty_cell_def split: prod.splits if_splits)
  qed
qed

lemma iswa_keep_ok:
  assumes ok: "iswa_ok n0 n1 iw" and r: "both (kv_seq_keep q) iw = Some iw'"
  shows "iswa_ok n0 n1 iw'"
proof -
  obtain base swa where e: "kv_seq_keep q (iw_base iw) = Some base" "kv_seq_keep q (iw_swa iw) = Some swa"
    "iw' = iw\<lparr>iw_base := base, iw_swa := swa\<rparr>" using bothD[OF r] by blast
  have i: "kc_inv (iw_base iw) n0" "kc_inv (iw_swa iw) n1" "kc_seq_to_stream (iw_swa iw) = kc_seq_to_stream (iw_base iw)"
    using ok by (simp_all add: iswa_ok_def)
  from e(1) obtain s where "stream_of (iw_base iw) q = Some s" by (auto simp: kv_seq_keep_def bind_eq_Some_conv)
  then obtain k where k: "q = int k" "k < length (kc_seq_to_stream (iw_base iw))" using stream_of_nat by blast
  show ?thesis
    unfolding e(3)
    by (rule iswa_streamI[OF ok k(2) kv_seq_keep_ok[OF i(1) k(2), folded k(1), unfolded e(1)]
          kv_seq_keep_ok[OF i(2) k(2)[folded i(3)], folded k(1), unfolded e(2)] cell_monotone(2)])
      (auto simp: keep_seq_def empty_cell_def split: prod.splits if_splits)
qed

lemma iswa_add_ok:
  assumes ok: "iswa_ok n0 n1 iw" and u: "unshared (nat q) (kv_view (iw_base iw) ! (kc_seq_to_stream (iw_base iw) ! nat q))"
    and safe: "\<forall>kc \<in> {iw_base iw, iw_swa iw}. int_safe (\<lambda>x. in_i32 (fst x + d) \<and> in_i32 (fst (snd (snd x)) + d)) kc (nat q) p0 p1"
    and r: "both (kv_seq_add q p0 p1 d) iw = Some iw'"
  shows "iswa_ok n0 n1 iw'"
proof -
  obtain base swa where e: "kv_seq_add q p0 p1 d (iw_base iw) = Some base" "kv_seq_add q p0 p1 d (iw_swa iw) = Some swa"
    "iw' = iw\<lparr>iw_base := base, iw_swa := swa\<rparr>" using bothD[OF r] by blast
  have i: "kc_inv (iw_base iw) n0" "kc_inv (iw_swa iw) n1" "kc_seq_to_stream (iw_swa iw) = kc_seq_to_stream (iw_base iw)"
    using ok by (simp_all add: iswa_ok_def)
  from e obtain s where s: "stream_of (iw_base iw) q = Some s" "kc_n_pos_per_embd (iw_base iw) = 1" "kc_n_pos_per_embd (iw_swa iw) = 1"
    by (auto simp: kv_seq_add_def bind_eq_Some_conv)
  then obtain k where k: "q = int k" "k < length (kc_seq_to_stream (iw_base iw))" using stream_of_nat by blast
  show ?thesis
  proof (cases "d = 0 \<or> lower p0 = upper p1")
    case True
    then show ?thesis using e ok by (auto simp: kv_seq_add_def bind_eq_Some_conv split: if_splits)
  next
    case False
    then have d: "d \<noteq> 0" "lower p0 \<noteq> upper p1" by simp_all
    have ev: "evolves kc n (on_stream (kc_seq_to_stream kc ! k)
        (\<lambda>x. if in_range (lower p0) (upper p1) x \<and> has_seq k x then shift_cell d x else x) (kv_view kc)) (kv_seq_add q p0 p1 d kc)"
      if "kc \<in> {iw_base iw, iw_swa iw}" "kc_inv kc n" for kc n
      using kv_seq_add_ok[OF that(2) _ _ _ d, of k] that(1) safe k s i(3) by (auto simp: int_safe_def)
    show ?thesis
      unfolding e(3)
      by (rule iswa_streamI[OF ok k(2) ev[OF _ i(1), unfolded e(1)] ev[OF _ i(2), unfolded e(2)] shift_monotone(1)])
        (use u k(1) in \<open>auto simp: shift_cell_def split: prod.splits if_splits\<close>)
  qed
qed

lemma iswa_div_ok:
  assumes ok: "iswa_ok n0 n1 iw" and u: "unshared (nat q) (kv_view (iw_base iw) ! (kc_seq_to_stream (iw_base iw) ! nat q))"
    and safe: "\<forall>kc \<in> {iw_base iw, iw_swa iw}. int_safe (\<lambda>x. in_i32 (fst (snd (snd x)) + (fst x - fst x div d))) kc (nat q) p0 p1"
    and d: "0 < d" and r: "both (kv_seq_div q p0 p1 d) iw = Some iw'"
  shows "iswa_ok n0 n1 iw'"
proof -
  obtain base swa where e: "kv_seq_div q p0 p1 d (iw_base iw) = Some base" "kv_seq_div q p0 p1 d (iw_swa iw) = Some swa"
    "iw' = iw\<lparr>iw_base := base, iw_swa := swa\<rparr>" using bothD[OF r] by blast
  have i: "kc_inv (iw_base iw) n0" "kc_inv (iw_swa iw) n1" "kc_seq_to_stream (iw_swa iw) = kc_seq_to_stream (iw_base iw)"
    using ok by (simp_all add: iswa_ok_def)
  from e obtain s where s: "stream_of (iw_base iw) q = Some s" "kc_n_pos_per_embd (iw_base iw) = 1" "kc_n_pos_per_embd (iw_swa iw) = 1"
    by (auto simp: kv_seq_div_def bind_eq_Some_conv)
  then obtain k where k: "q = int k" "k < length (kc_seq_to_stream (iw_base iw))" using stream_of_nat by blast
  show ?thesis
  proof (cases "d = 1 \<or> lower p0 = upper p1")
    case True
    then show ?thesis using e ok by (auto simp: kv_seq_div_def bind_eq_Some_conv split: if_splits)
  next
    case False
    then have d1: "1 < d" "lower p0 \<noteq> upper p1" using d by simp_all
    have ev: "evolves kc n (on_stream (kc_seq_to_stream kc ! k)
        (\<lambda>x. if in_range (lower p0) (upper p1) x \<and> has_seq k x then div_cell d x else x) (kv_view kc)) (kv_seq_div q p0 p1 d kc)"
      if "kc \<in> {iw_base iw, iw_swa iw}" "kc_inv kc n" for kc n
      using kv_seq_div_ok[OF that(2) _ _ _ d1, of k] that(1) safe k s i(3) by (auto simp: int_safe_def)
    show ?thesis
      unfolding e(3)
      by (rule iswa_streamI[OF ok k(2) ev[OF _ i(1), unfolded e(1)] ev[OF _ i(2), unfolded e(2)] shift_monotone(2)])
        (use u k(1) in \<open>auto simp: div_cell_def split: prod.splits if_splits\<close>)
  qed
qed

lemma iswa_cp_ok:
  assumes ok: "iswa_ok n0 n1 iw"
    and same: "kc_seq_to_stream (iw_base iw) ! nat q = kc_seq_to_stream (iw_base iw) ! nat r"
    and c: "both (kv_seq_cp q r p0 p1) iw = Some iw'"
  shows "iswa_ok n0 n1 iw'"
proof -
  obtain base swa where e: "kv_seq_cp q r p0 p1 (iw_base iw) = Some base" "kv_seq_cp q r p0 p1 (iw_swa iw) = Some swa"
    "iw' = iw\<lparr>iw_base := base, iw_swa := swa\<rparr>" using bothD[OF c] by blast
  have i: "kc_inv (iw_base iw) n0" "kc_inv (iw_swa iw) n1" "kc_seq_to_stream (iw_swa iw) = kc_seq_to_stream (iw_base iw)"
    "kc_n_stream (iw_swa iw) = kc_n_stream (iw_base iw)" "covered (kv_view (iw_swa iw)) (kv_view (iw_base iw))"
    using ok by (simp_all add: iswa_ok_def)
  from e(1) obtain s0 s1 where "stream_of (iw_base iw) q = Some s0" "stream_of (iw_base iw) r = Some s1"
    by (auto simp: kv_seq_cp_def bind_eq_Some_conv)
  then obtain j k where k: "q = int j" "r = int k" "j < length (kc_seq_to_stream (iw_base iw))" "k < length (kc_seq_to_stream (iw_base iw))"
    using stream_of_nat by blast
  show ?thesis
  proof (cases "q = r")
    case True
    then show ?thesis using e ok by (auto simp: kv_seq_cp_def bind_eq_Some_conv)
  next
    case False
    then have ne: "j \<noteq> k" using k(1,2) by simp
    let ?s = "kc_seq_to_stream (iw_base iw) ! j"
    have absent: "\<forall>y \<in> set (kv_view (iw_base iw) ! ?s). in_range (lower p0) (upper p1) y \<and> has_seq j y \<longrightarrow> \<not> has_seq k y"
      using kv_seq_cp_fails[OF i(1) k(3,4) same[unfolded k(1,2) nat_int] ne] e(1) k(1,2) by fastforce
    have s: "?s < length (kv_view (iw_swa iw))" using seq_stream(1)[OF i(1) k(3)] kc_inv_D(3)[OF i(2)] i(4) by (simp add: kv_view_def)
    have "\<forall>x \<in> set (kv_view (iw_swa iw) ! ?s). in_range (lower p0) (upper p1) x \<and> has_seq j x \<longrightarrow> \<not> has_seq k x"
    proof (intro ballI impI notI)
      fix x assume x: "x \<in> set (kv_view (iw_swa iw) ! ?s)" "in_range (lower p0) (upper p1) x \<and> has_seq j x" "has_seq k x"
      then have "seqs x \<noteq> {}" by (auto simp: has_seq_def)
      from coveredD[OF i(5) s x(1) this] absent x(2,3) show False by (auto simp: covers_def in_range_def has_seq_def)
    qed
    note absent1 = this[folded i(3)]
    note cp0 = kv_seq_cp_ok[OF i(1) k(3,4) same[unfolded k(1,2) nat_int] ne absent, folded k(1,2), unfolded e(1)]
    note cp1 = kv_seq_cp_ok[OF i(2) k(3,4)[folded i(3)] same[unfolded k(1,2) nat_int, folded i(3)] ne absent1, folded k(1,2), unfolded e(2)]
    show ?thesis
      unfolding e(3)
      by (rule iswa_streamI[OF ok k(3) cp0 cp1 cell_monotone(3)])
        (auto simp: has_seq_def split: prod.splits if_splits)
  qed
qed

lemma moved_covers: "covers y x \<Longrightarrow> j \<in> seqs x \<Longrightarrow> covers (moved_cell j k y) (moved_cell j k x)"
  by (cases x; cases y) (auto simp: covers_def moved_cell_def)

lemma iswa_copy_ok:
  assumes ok: "iswa_ok n0 n1 iw" and diff: "kc_seq_to_stream (iw_base iw) ! nat q \<noteq> kc_seq_to_stream (iw_base iw) ! nat r"
    and orig: "\<forall>kc \<in> {iw_base iw, iw_swa iw}. \<forall>(p, e, sh, S) \<in> set (kv_view kc ! (kc_seq_to_stream kc ! nat q)). nat q \<in> S \<longrightarrow> 0 \<le> p - sh \<and> in_i32 (p - sh)"
    and c: "both (kv_seq_cp q r p0 p1) iw = Some iw'"
  shows "iswa_ok n0 n1 iw'"
proof -
  obtain base swa where e: "kv_seq_cp q r p0 p1 (iw_base iw) = Some base" "kv_seq_cp q r p0 p1 (iw_swa iw) = Some swa"
    "iw' = iw\<lparr>iw_base := base, iw_swa := swa\<rparr>" using bothD[OF c] by blast
  have i: "kc_inv (iw_base iw) n0" "kc_inv (iw_swa iw) n1" "kc_seq_to_stream (iw_swa iw) = kc_seq_to_stream (iw_base iw)"
    "kc_n_stream (iw_swa iw) = kc_n_stream (iw_base iw)" "covered (kv_view (iw_swa iw)) (kv_view (iw_base iw))"
    "kc_swa_type (iw_base iw) = LLAMA_SWA_TYPE_NONE"
    using ok by (simp_all add: iswa_ok_def)
  from e(1) obtain s0 s1 where st: "stream_of (iw_base iw) q = Some s0" "stream_of (iw_base iw) r = Some s1"
    by (auto simp: kv_seq_cp_def bind_eq_Some_conv)
  then obtain j k where k: "q = int j" "r = int k" "j < length (kc_seq_to_stream (iw_base iw))" "k < length (kc_seq_to_stream (iw_base iw))"
    "s0 = kc_seq_to_stream (iw_base iw) ! j" "s1 = kc_seq_to_stream (iw_base iw) ! k"
    using stream_of_nat by blast
  have move: "kc_inv kc' n \<and> kv_view kc' = (kv_view kc)[s1 := map (moved_cell j k) (kv_view kc ! s0)] \<and>
      kc_seq_to_stream kc' = kc_seq_to_stream kc \<and> kc_n_stream kc' = kc_n_stream kc \<and> kc_swa_type kc' = kc_swa_type kc"
    if "kc \<in> {iw_base iw, iw_swa iw}" "kc_inv kc n" "kv_seq_cp q r p0 p1 kc = Some kc'" for kc kc' n
  proof -
    have m: "kc_seq_to_stream kc = kc_seq_to_stream (iw_base iw)" using that(1) i(3) by auto
    have kl: "j < length (kc_seq_to_stream kc)" "k < length (kc_seq_to_stream kc)" "kc_seq_to_stream kc ! j \<noteq> kc_seq_to_stream kc ! k"
      using k diff by (simp_all add: m)
    have size: "get_size kc = Some n" by (rule get_size_ok[OF that(2) kl(1)])
    have s: "stream_of kc q = Some s0" "stream_of kc r = Some s1" using st m by (simp_all add: stream_of_def)
    have f: "p0 \<noteq> INT32_MAX" "p1 \<noteq> INT32_MAX" "p0 \<le> 0 \<or> int n \<le> p0 + 1" "p1 \<le> 0 \<or> int n \<le> p1 + 1"
      using that(3) s kl(3) k m by (auto simp: kv_seq_cp_def size bind_eq_Some_conv)
    have o: "\<forall>(p, e, sh, S) \<in> set (kv_view kc ! (kc_seq_to_stream kc ! j)). j \<in> S \<longrightarrow> 0 \<le> p - sh \<and> in_i32 (p - sh)"
      using orig that(1) unfolding k(1) nat_int by blast
    have "kc_seq_to_stream kc' = kc_seq_to_stream kc \<and> kc_n_stream kc' = kc_n_stream kc \<and> kc_swa_type kc' = kc_swa_type kc"
      using that(3) by (auto simp: kv_seq_cp_def s bind_eq_Some_conv put_stream_def loop_stream_def split: if_splits prod.splits)
    then show ?thesis using kv_seq_cp_stream_ok[OF that(2) kl f(3,4,1,2) o] that(3) k(1,2,5,6) m by auto
  qed
  have b: "kc_inv base n0 \<and> kv_view base = (kv_view (iw_base iw))[s1 := map (moved_cell j k) (kv_view (iw_base iw) ! s0)] \<and>
      kc_seq_to_stream base = kc_seq_to_stream (iw_base iw) \<and> kc_n_stream base = kc_n_stream (iw_base iw) \<and> kc_swa_type base = kc_swa_type (iw_base iw)"
    by (rule move[OF _ i(1) e(1)]) simp
  have w: "kc_inv swa n1 \<and> kv_view swa = (kv_view (iw_swa iw))[s1 := map (moved_cell j k) (kv_view (iw_swa iw) ! s0)] \<and>
      kc_seq_to_stream swa = kc_seq_to_stream (iw_swa iw) \<and> kc_n_stream swa = kc_n_stream (iw_swa iw) \<and> kc_swa_type swa = kc_swa_type (iw_swa iw)"
    by (rule move[OF _ i(2) e(2)]) simp
  have s0: "s0 < length (kv_view (iw_swa iw))" using seq_stream(1)[OF i(1) k(3)] kc_inv_D(3)[OF i(2)] i(4) k(5) by (simp add: kv_view_def)
  have "\<exists>y \<in> set (map (moved_cell j k) (kv_view (iw_base iw) ! s0)). covers y x"
    if x: "x \<in> set (map (moved_cell j k) (kv_view (iw_swa iw) ! s0))" "seqs x \<noteq> {}" for x
  proof -
    obtain x0 where x0: "x0 \<in> set (kv_view (iw_swa iw) ! s0)" "x = moved_cell j k x0" using x(1) by auto
    have "j \<in> seqs x0" using x(2) unfolding x0(2) by (cases x0) (simp add: moved_cell_def empty_cell_def split: if_splits)
    then obtain y where y: "y \<in> set (kv_view (iw_base iw) ! s0)" "covers y x0" using coveredD[OF i(5) s0 x0(1)] by blast
    then have "covers (moved_cell j k y) x" unfolding x0(2) using moved_covers \<open>j \<in> seqs x0\<close> by blast
    then show ?thesis using y(1) by auto
  qed
  then have "covered ((kv_view (iw_swa iw))[s1 := map (moved_cell j k) (kv_view (iw_swa iw) ! s0)])
      ((kv_view (iw_base iw))[s1 := map (moved_cell j k) (kv_view (iw_base iw) ! s0)])" by (rule covered_update[OF i(5)])
  then have "covered (kv_view swa) (kv_view base)" using b w by simp
  then show ?thesis using b w i by (simp add: iswa_ok_def e(3))
qed

lemma iswa_place_ok:
  assumes ok: "iswa_ok n0 n1 iw" and ub: "\<forall>kc \<in> {iw_base iw, iw_swa iw}. (\<forall>xs \<in> set (kv_view kc). room xs) \<and> ub_ok kc ub"
    and slot: "slot_for (iw_base iw) n0 ub sb" "slot_for (iw_swa iw) n1 ub ss"
    and a: "apply_ubatch sb ub (iw_base iw) = Some base" "apply_ubatch ss ub (iw_swa iw) = Some swa"
  shows "iswa_ok n0 n1 (iw\<lparr>iw_base := base, iw_swa := swa\<rparr>)"
proof -
  have i: "kc_inv (iw_base iw) n0" "kc_inv (iw_swa iw) n1" "kc_seq_to_stream (iw_swa iw) = kc_seq_to_stream (iw_base iw)"
    "kc_n_stream (iw_swa iw) = kc_n_stream (iw_base iw)" "covered (kv_view (iw_swa iw)) (kv_view (iw_base iw))"
    "kc_swa_type (iw_base iw) = LLAMA_SWA_TYPE_NONE"
    using ok by (simp_all add: iswa_ok_def)
  have u: "ub_ok (iw_base iw) ub" "ub_ok (iw_swa iw) ub" "\<forall>xs \<in> set (kv_view (iw_swa iw)). room xs" using ub by simp_all
  have b: "kc_inv base n0" "same_config (iw_base iw) base" "kv_view base = write_streams (iw_base iw) ub sb (ub_ns (iw_base iw) ub)"
    using apply_ubatch_none[OF i(1) u(1) slot(1) i(6)] a(1) by auto
  have w: "kc_inv swa n1" "same_config (iw_swa iw) swa"
    "kv_view swa = map (map (purged LLAMA_MAX_SEQ (overwritten (iw_swa iw) ub ss (ub_ns (iw_swa iw) ub)))) (write_streams (iw_swa iw) ub ss (ub_ns (iw_swa iw) ub))"
    using apply_ubatch_ok[OF i(2) u(2) slot(2) u(3)] a(2) by auto
  have "ub_ns (iw_swa iw) ub = ub_ns (iw_base iw) ub" using i(4) by (simp add: ub_ns_def)
  then have "covered (kv_view swa) (kv_view base)"
    using covered_purged[OF covered_write[OF i(5,3,4,1,2) u(1,2) i(6) slot order.refl]] b(3) w(3) by simp
  then show ?thesis using b w i by (auto simp: iswa_ok_def same_config_D)
qed

lemma iswa_reach_ok: "iswa_reach n0 n1 iw \<Longrightarrow> iswa_ok n0 n1 iw"
proof (induction rule: iswa_reach.induct)
  case (new v_trans swa_full unified n_seq_max n_ubatch n_pad n_swa swa n_pos n_embd alibi iw)
  then obtain base sw where k: "kv_cache_init v_trans unified n0 n_seq_max n_pad 0 LLAMA_SWA_TYPE_NONE n_pos n_embd alibi = Some base"
    "kv_cache_init v_trans unified n1 n_seq_max n_pad n_swa swa n_pos n_embd alibi = Some sw"
    "iw = \<lparr>iw_unified = unified, iw_base = base, iw_swa = sw\<rparr>" by (auto simp: iswa_new_def Let_def bind_eq_Some_conv)
  have p: "n_pad \<noteq> 0" "n0 mod n_pad = 0" "n1 mod n_pad = 0" using k by (auto simp: kv_cache_init_def bind_eq_Some_conv)
  let ?m = "if unified then 1 else n_seq_max"
  have b: "kc_inv base n0" "kv_view base = replicate ?m (replicate n0 empty_cell)"
    using kv_cache_init_ok[OF p(1,2) new(3), of v_trans 0 LLAMA_SWA_TYPE_NONE n_pos n_embd alibi] k(1) by simp_all
  have w: "kc_inv sw n1" "kv_view sw = replicate ?m (replicate n1 empty_cell)"
    using kv_cache_init_ok[OF p(1,3) new(3), of v_trans n_swa swa n_pos n_embd alibi] k(2) by simp_all
  have "kc_swa_type base = LLAMA_SWA_TYPE_NONE" "kc_seq_to_stream sw = kc_seq_to_stream base" "kc_n_stream sw = kc_n_stream base"
    using k(1,2) by (auto simp: kv_cache_init_def bind_eq_Some_conv Let_def)
  moreover have "covered (kv_view sw) (kv_view base)" by (auto simp: covered_def b(2) w(2) empty_cell_def)
  ultimately show ?case using b(1) w(1) by (simp add: iswa_ok_def k(3))
next
  case (copy iw q r p0 p1 iw')
  show ?case by (rule iswa_copy_ok[OF copy.IH copy.hyps(2,3)]) (use copy.hyps(4) in \<open>simp add: iswa_seq_cp_def\<close>)
next
  case (place iw ub sb ss base swa)
  show ?case by (rule iswa_place_ok[OF place.IH place.hyps(2-6)])
qed (auto simp: iswa_seq_rm_def iswa_seq_keep_def iswa_seq_add_def iswa_seq_div_def iswa_seq_cp_def
    intro: iswa_clear_ok iswa_rm_ok iswa_keep_ok iswa_add_ok iswa_div_ok iswa_cp_ok)

text \<open>The comment in \<open>seq_pos_min\<close>.\<close>

lemma covered_positions:
  assumes ok: "iswa_ok n0 n1 iw" and q: "nat u < length (kc_seq_to_stream (iw_base iw))"
  shows "attn_positions (iw_swa iw) u \<subseteq> attn_positions (iw_base iw) u"
proof -
  have i: "kc_inv (iw_base iw) n0" "kc_inv (iw_swa iw) n1" "kc_seq_to_stream (iw_swa iw) = kc_seq_to_stream (iw_base iw)"
    "kc_n_stream (iw_swa iw) = kc_n_stream (iw_base iw)" "covered (kv_view (iw_swa iw)) (kv_view (iw_base iw))"
    using ok by (simp_all add: iswa_ok_def)
  have s: "kc_seq_to_stream (iw_base iw) ! nat u < length (kv_view (iw_swa iw))"
    using seq_stream(1)[OF i(1) q] kc_inv_D(3)[OF i(2)] i(4) by (simp add: kv_view_def)
  show ?thesis
  proof
    fix p assume "p \<in> attn_positions (iw_swa iw) u"
    then obtain x where x: "x \<in> set (kv_view (iw_swa iw) ! (kc_seq_to_stream (iw_base iw) ! nat u))" "has_seq (nat u) x" "p = fst x"
      by (auto simp: attn_positions_def seq_positions_def i(3))
    then have "seqs x \<noteq> {}" by (auto simp: has_seq_def)
    from coveredD[OF i(5) s x(1) this] obtain y where "y \<in> set (kv_view (iw_base iw) ! (kc_seq_to_stream (iw_base iw) ! nat u))" "covers y x" by blast
    moreover from this have "p = fst y" "has_seq (nat u) y" using x(2,3) by (auto simp: covers_def has_seq_def)
    ultimately show "p \<in> attn_positions (iw_base iw) u" unfolding attn_positions_def seq_positions_def by blast
  qed
qed

section \<open>The size of the cache with the window\<close>

lemma and_not_255: "unat (and (y :: 32 word) (not 255)) = unat y div 256 * 256"
proof -
  have lt: "unat y < 2 ^ 32" using unsigned_less[where 'b = 32 and 'a = nat and w = y] by simp
  then have t: "take_bit LENGTH(32) (unat y) = unat y" by (simp add: take_bit_nat_eq_self)
  have m: "(255 :: 32 word) = mask 8" by (simp add: mask_eq_exp_minus_1)
  have "and y (not 255) = push_bit 8 (drop_bit 8 y)" unfolding m by (rule bit_word_eqI) (auto simp: bit_simps)
  then have "unat (and y (not 255)) = unat (push_bit 8 (drop_bit 8 y))" by (rule arg_cong)
  also have "\<dots> = take_bit 32 (push_bit 8 (drop_bit 8 (unat y)))" by (simp only: unsigned_push_bit_eq unsigned_drop_bit_eq t) simp
  also have "\<dots> = take_bit 32 (unat y div 256 * 256)" by (simp add: push_bit_eq_mult drop_bit_eq_div)
  also have "\<dots> = unat y div 256 * 256"
  proof -
    have "unat y div 256 * 256 < 2 ^ 32" using lt order_le_less_trans[OF div_times_less_eq_dividend] by blast
    then show ?thesis by (simp add: take_bit_nat_eq_self)
  qed
  finally show ?thesis .
qed

lemma ggml_pad_ok:
  assumes "x + 255 < 2 ^ 32"
  shows "GGML_PAD x 256 = (x + 255) div 256 * 256"
proof -
  have "(of_nat x :: 32 word) + 256 - 1 = of_nat (x + 255)" "(256 :: 32 word) - 1 = 255" by (simp_all add: add_diff_eq[symmetric])
  then have "GGML_PAD x 256 = unat (and (of_nat (x + 255) :: 32 word) (not 255))" unfolding GGML_PAD_def by (simp only: of_nat_numeral)
  moreover have "unat (of_nat (x + 255) :: 32 word) = x + 255" using assms by (simp only: unsigned_of_nat take_bit_nat_eq_self) (simp add: take_bit_nat_eq_self)
  ultimately show ?thesis by (simp only: and_not_255)
qed

lemma iswa_size_ok:
  assumes "\<not> swa_full" "kv_size < 2 ^ 32" "n_swa * (if unified then n_seq_max else 1) + n_ubatch + 255 < 2 ^ 32"
  defines "need \<equiv> min kv_size (n_swa * (if unified then n_seq_max else 1) + n_ubatch)"
  shows "256 dvd iswa_size swa_full unified kv_size n_swa n_seq_max n_ubatch"
    "need \<le> iswa_size swa_full unified kv_size n_swa n_seq_max n_ubatch"
    "iswa_size swa_full unified kv_size n_swa n_seq_max n_ubatch < need + 256"
proof -
  let ?w = "n_swa * (if unified then n_seq_max else 1) + n_ubatch"
  let ?m = "min (of_nat kv_size) (of_nat n_swa * (if unified then of_nat n_seq_max else 1) + of_nat n_ubatch) :: 32 word"
  have w: "of_nat n_swa * (if unified then of_nat n_seq_max else 1) + of_nat n_ubatch = (of_nat ?w :: 32 word)" by simp
  have small: "unat (of_nat k :: 32 word) = k" if "k < 2 ^ 32" for k using that by (simp add: unsigned_of_nat take_bit_nat_eq_self)
  have u: "unat (of_nat kv_size :: 32 word) = kv_size" "unat (of_nat ?w :: 32 word) = ?w"
    using small[OF assms(2)] small[of ?w] assms(3) by linarith+
  have "unat ?m = need" unfolding w need_def min_def word_le_nat_alt u by (simp only: if_distrib[of unat] u)
  moreover have "need + 255 < 2 ^ 32" using assms(3) by (simp add: need_def)
  ultimately have s: "iswa_size swa_full unified kv_size n_swa n_seq_max n_ubatch = (need + 255) div 256 * 256"
    using assms(1) ggml_pad_ok[of need] by (simp only: iswa_size_def if_False)
  show "256 dvd iswa_size swa_full unified kv_size n_swa n_seq_max n_ubatch" by (simp add: s)
  show "need \<le> iswa_size swa_full unified kv_size n_swa n_seq_max n_ubatch"
    "iswa_size swa_full unified kv_size n_swa n_seq_max n_ubatch < need + 256" unfolding s by linarith+
qed
end
