(* ===== verification/MemoryProps.thy ===== *)
theory MemoryProps
  imports IswaLaws RecurrentProps
begin

text \<open>Properties of the memories made of two parts, and of the cache with a sliding window.\<close>

section \<open>Hybrid memory\<close>

text \<open>A hybrid memory that holds one token of sequence 0, at position 5.\<close>

lemma token_slot: "slot_ubatch token_ubatch" "ids_of token_ubatch 0 = [0]" "last_pos token_ubatch 0 = 5"
  by (auto simp: slot_ubatch_def slot_seq_def token_ubatch_def ids_of_def last_pos_def)

lemma hybrid_sample:
  "\<exists>h. hybrid_reach 4 2 h \<and> known_seq h 0 \<and> known_seq h 1 \<and> attn_view (hy_attn h) 0 = Some 5 \<and> attn_view (hy_attn h) 1 = None"
proof -
  obtain kc where kc: "kv_cache_init False True 4 2 1 0 LLAMA_SWA_TYPE_NONE 1 1 False = Some kc" "kc_inv kc 4"
    "kv_view kc = [replicate 4 empty_cell]"
    using kv_cache_init_ok[of 1 4 True 2 False 0 LLAMA_SWA_TYPE_NONE 1 1 False] by auto
  have c: "kc_n_stream kc = 1" "kc_seq_to_stream kc = replicate LLAMA_MAX_SEQ 0" "kc_swa_type kc = LLAMA_SWA_TYPE_NONE"
    using kc(1) by (auto simp: kv_cache_init_def)
  let ?h = "\<lparr>hy_attn = kc, hy_recr = recurrent_new 2\<rparr>"
  have new: "hybrid_reach 4 2 ?h" by (rule hybrid_reach.new[of False 4 2 1 0 1 1 False]) (simp add: hybrid_new_def kc(1) del: One_nat_def)
  have ns: "ub_ns kc token_ubatch = 1" "ub_nt kc token_ubatch = 1" "ub_strm kc token_ubatch 0 = 0"
    by (simp_all add: ub_ns_def ub_nt_def ub_strm_def token_ubatch_def c LLAMA_MAX_SEQ_def)
  have ub: "ub_ok kc token_ubatch"
    by (simp add: ub_ok_def token_ok_def ns ub_ids_def c LLAMA_MAX_SEQ_def) (simp add: token_ubatch_def is_pos_2d_def INT32_MAX_def c LLAMA_MAX_SEQ_def)
  define si where "si = \<lparr>si_s0 = 0, si_s1 = 0, si_strm = [0], si_idxs = [[0]]\<rparr>"
  have slot: "slot_for kc 4 token_ubatch si" by (simp add: slot_for_def ns si_def kc(3) usable_def empty_cell_def)
  have none: "attn_positions kc u = {}" if "nat u < LLAMA_MAX_SEQ" for u
    using that by (auto simp: attn_positions_def seq_positions_def c kc(3) has_seq_def empty_cell_def)
  have v: "nat v < length (kc_seq_to_stream kc)" if "v \<in> {0, 1}" for v using that by (auto simp: c LLAMA_MAX_SEQ_def)
  obtain kc' where kc': "apply_ubatch si token_ubatch kc = Some kc'" "same_config kc kc'"
    "attn_positions kc' 0 = attn_positions kc 0 \<union> {ub_pos token_ubatch ! i |i. i < ub_n_tokens token_ubatch \<and> 0 \<in> set (ub_ids token_ubatch i)}"
    using positions_write[OF kc(2) c(1) ub slot c(3) _ v[of 0]] by auto
  have one: "attn_positions kc' 1 = attn_positions kc 1 \<union> {ub_pos token_ubatch ! i |i. i < ub_n_tokens token_ubatch \<and> 1 \<in> set (ub_ids token_ubatch i)}"
    using positions_write[OF kc(2) c(1) ub slot c(3) _ v[of 1]] kc'(1) by auto
  have ids: "ub_ids token_ubatch 0 = [0]" "ub_pos token_ubatch ! 0 = 5" "ub_n_tokens token_ubatch = 1" by (simp_all add: ub_ids_def token_ubatch_def)
  have rise: "rising ?h token_ubatch"
    using none[of 0] by (auto simp: rising_def ids token_slot LLAMA_MAX_SEQ_def) (simp_all add: token_ubatch_def ids_of_def last_pos_def)
  have fit: "seqs_fit 2 token_ubatch" using token_slot(2) by (auto simp: token_ubatch_def)
  obtain b mr where mr: "rec_find_slot token_ubatch (recurrent_new 2) = Some (b, mr)" "rs_size mr = rs_size (recurrent_new 2)"
    using find_slot_total[OF conjunct1[OF rec_new_ok[of 2]] token_slot(1)] by auto
  let ?h' = "\<lparr>hy_attn = kc', hy_recr = mr\<rparr>"
  have "hybrid_reach 4 2 ?h'"
    by (rule hybrid_reach.place[OF new _ token_slot(1) fit rise, of si]) (use ub slot kc'(1) mr(1) in simp_all)
  moreover have "known_seq ?h' 0" "known_seq ?h' 1"
    using mr(2) same_config_D(2)[OF kc'(2)] by (simp_all add: known_seq_def c LLAMA_MAX_SEQ_def recurrent_new_def)
  moreover have "attn_positions kc' 0 = {5}" "attn_positions kc' 1 = {}"
    using kc'(3) one none[of 0] none[of 1] ids by (auto simp: LLAMA_MAX_SEQ_def)
  ultimately show ?thesis by (intro exI[of _ ?h']) (simp add: attn_view_def)
qed

text \<open>
  C14: in every state of \<open>hybrid_reach\<close> the two parts agree: the recurrent memory holds a state of a sequence
  exactly if the cache holds cells of it, at the largest of their positions, which is what
  \<open>seq_pos_max\<close> of the hybrid memory, the minimum of the two, returns. These states are the ones that a memory with
  a unified cache of one stream and without a sliding window gets to by clearing, by removing and keeping
  single known sequences, by copying a whole sequence onto one that is not there, and by micro-batches that raise
  the positions of their sequences. The other calls do separate the parts: removing all sequences leaves the tails of
  the recurrent memory (C38), a partial copy is whole there (C13), and a shift moves different cells.
\<close>

theorem hybrid_invariant:
  assumes "0 < m" "m < 2 ^ 31" "hybrid_reach n m h"
  shows "kc_inv (hy_attn h) n \<and> rec_ok (hy_recr h) \<and> rs_size (hy_recr h) = m \<and>
    (\<forall>u. known_seq h u \<longrightarrow> rec_view (hy_recr h) u = attn_view (hy_attn h) u \<and>
      hybrid_seq_pos_max u h = Some (case attn_view (hy_attn h) u of None \<Rightarrow> -1 | Some p \<Rightarrow> p))"
proof -
  have ok: "kc_inv (hy_attn h) n" "rec_ok (hy_recr h)" "rs_size (hy_recr h) = m" "in_step h"
    using hybrid_reach_ok[OF assms] by (simp_all add: hybrid_ok_def)
  then show ?thesis using pos_in_step(1)[OF ok(1,2,4)] by (simp add: in_step_def)
qed

theorem hybrid_invariant_witness:
  "\<exists>h. rec_view (hy_recr h) 0 = Some 5 \<and> rec_view (hy_recr h) 1 = None \<and> hybrid_seq_pos_max 0 h = Some 5"
proof -
  obtain h where h: "hybrid_reach 4 2 h" "known_seq h 0" "known_seq h 1" "attn_view (hy_attn h) 0 = Some 5" "attn_view (hy_attn h) 1 = None"
    using hybrid_sample by blast
  then show ?thesis using hybrid_invariant[OF _ _ h(1)] by (intro exI[of _ h]) simp
qed

text \<open>
  C15: \<open>seq_rm\<close> of a hybrid memory is all or nothing, as its comment promises: it returns \<open>false\<close> exactly if the
  recurrent state would have to be cut inside, and has then changed nothing; otherwise exactly the
  positions in the range are gone, and the parts still agree.
\<close>

theorem hybrid_seq_rm_atomic:
  assumes "0 < m" "m < 2 ^ 31" "hybrid_reach n m h" "known_seq h u"
  shows "\<exists>b h'. hybrid_seq_rm u p0 p1 h = Some (b, h') \<and> in_step h' \<and>
    (b \<longleftrightarrow> (\<forall>p. attn_view (hy_attn h) u = Some p \<longrightarrow> \<not> (0 < lower p0 \<and> lower p0 \<le> p \<and> p < upper p1))) \<and>
    (\<not> b \<longrightarrow> h' = h) \<and>
    (b \<longrightarrow> (\<forall>v. known_seq h v \<longrightarrow> attn_positions (hy_attn h') v =
      (if v = u then {p \<in> attn_positions (hy_attn h) u. \<not> (lower p0 \<le> p \<and> p < upper p1)} else attn_positions (hy_attn h) v)))"
proof -
  have ok: "kc_inv (hy_attn h) n" "rec_ok (hy_recr h)" "in_step h" using hybrid_reach_ok[OF assms(1-3)] by (simp_all add: hybrid_ok_def)
  from rm_in_step[OF ok assms(4), of p0 p1] show ?thesis by (elim exE conjE) (intro exI conjI; assumption)
qed

theorem hybrid_seq_rm_atomic_witness:
  "\<exists>h h'. hybrid_seq_rm 0 3 (-1) h = Some (False, h) \<and> hybrid_seq_rm 0 (-1) (-1) h = Some (True, h') \<and>
     attn_positions (hy_attn h') 0 = {}"
proof -
  obtain h where h: "hybrid_reach 4 2 h" "known_seq h 0" "attn_view (hy_attn h) 0 = Some 5" using hybrid_sample by blast
  have "hybrid_seq_rm 0 3 (-1) h = Some (False, h)"
    using hybrid_seq_rm_atomic[OF _ _ h(1,2), of 3 "-1"] h(3) by (auto simp: lower_def upper_def INT32_MAX_def)
  moreover obtain h' where "hybrid_seq_rm 0 (-1) (-1) h = Some (True, h')" "in_step h'"
    "attn_positions (hy_attn h') 0 = {p \<in> attn_positions (hy_attn h) 0. \<not> (0 \<le> p \<and> p < INT32_MAX)}"
    using hybrid_seq_rm_atomic[OF _ _ h(1,2), of "-1" "-1"] h(2,3) by (auto simp: lower_def upper_def)
  moreover have "0 \<le> p \<and> p < INT32_MAX" if p: "p \<in> attn_positions (hy_attn h) 0" for p
  proof -
    have ok: "kc_inv (hy_attn h) 4" using hybrid_reach_ok[OF _ _ h(1)] by (simp add: hybrid_ok_def)
    have "p \<le> 5" using Max_ge[OF finite_positions p] h(3) by (simp add: attn_view_def split: if_splits)
    moreover have "0 \<le> p" by (rule attn_positions_nonneg[OF ok _ p]) (use h(2) in \<open>simp add: known_seq_def\<close>)
    ultimately show ?thesis by (simp add: INT32_MAX_def)
  qed
  ultimately show ?thesis by (intro exI[of _ h] exI[of _ h']) auto
qed



section \<open>Base and sliding-window cache\<close>



text \<open>
  C37: the size chosen for the cache with the window. With \<open>swa_full\<close>, the default, it is the base size. Otherwise it
  is a multiple of 256, at least the smaller of the base size and the windows of all sequences with one
  micro-batch, and less than 256 above it, if the windows do not overflow 32 bits.
\<close>

theorem iswa_size_bounds:
  assumes "kv_size < 2 ^ 32" "swa_full \<or> n_swa * (if unified then n_seq_max else 1) + n_ubatch + 255 < 2 ^ 32"
  shows "if swa_full then iswa_size swa_full unified kv_size n_swa n_seq_max n_ubatch = kv_size
    else 256 dvd iswa_size swa_full unified kv_size n_swa n_seq_max n_ubatch \<and>
      min kv_size (n_swa * (if unified then n_seq_max else 1) + n_ubatch) \<le> iswa_size swa_full unified kv_size n_swa n_seq_max n_ubatch \<and>
      iswa_size swa_full unified kv_size n_swa n_seq_max n_ubatch < min kv_size (n_swa * (if unified then n_seq_max else 1) + n_ubatch) + 256"
proof (cases swa_full)
  case True
  then show ?thesis by (simp add: iswa_size_def)
next
  case False
  then show ?thesis using iswa_size_ok[of False, OF _ assms(1)] assms(2) by simp
qed

theorem iswa_size_bounds_witness:
  "256 dvd iswa_size False True 32768 1000 1 512 \<and> 1512 \<le> iswa_size False True 32768 1000 1 512 \<and> iswa_size True True 32768 1000 1 512 = 32768"
  using iswa_size_bounds[of 32768 False 1000 True 1 512] iswa_size_bounds[of 32768 True 1000 True 1 512] by simp

end
