(* ===== verification/Grammar.thy ===== *)
theory Grammar
  imports Ubatch
begin

text \<open>
  Grammar-constrained sampling (\<open>src/llama-grammar.h\<close>, \<open>src/llama-grammar.cpp\<close>): elements, the matching of
  characters, tokens and partial characters, the pushdown stacks and how they advance. A pointer to an
  element is the pair of its rule and its position in the rule; a stack is a list with its top first.
\<close>

section \<open>Elements\<close>

datatype llama_gretype =
    LLAMA_GRETYPE_END
  | LLAMA_GRETYPE_ALT
  | LLAMA_GRETYPE_RULE_REF
  | LLAMA_GRETYPE_CHAR
  | LLAMA_GRETYPE_CHAR_NOT
  | LLAMA_GRETYPE_CHAR_RNG_UPPER
  | LLAMA_GRETYPE_CHAR_ALT
  | LLAMA_GRETYPE_CHAR_ANY
  | LLAMA_GRETYPE_TOKEN
  | LLAMA_GRETYPE_TOKEN_NOT

datatype llama_grammar_element = Elem (el_type: llama_gretype) (el_value: cpt)

type_synonym llama_grammar_rule = "llama_grammar_element list"
type_synonym llama_grammar_rules = "llama_grammar_rule list"
type_synonym element_pos = "nat \<times> nat"
type_synonym llama_grammar_stack = "element_pos list"
type_synonym llama_grammar_stacks = "llama_grammar_stack list"

record llama_partial_utf8 =
  pu_value :: cpt
  pu_n_remain :: int

record llama_grammar_candidate =
  gc_index :: nat
  gc_code_points :: "cpt list"   \<comment> \<open>the array, ended by 0\<close>
  gc_offset :: nat               \<comment> \<open>where the pointer \<open>code_points\<close> points\<close>
  gc_partial_utf8 :: llama_partial_utf8
  gc_id :: llama_token

definition element_at :: "llama_grammar_rules \<Rightarrow> element_pos \<Rightarrow> llama_grammar_element option" where
  "element_at rules pos = do { rule \<leftarrow> at rules (fst pos); at rule (snd pos) }"

definition next_pos :: "element_pos \<Rightarrow> element_pos" where
  "next_pos pos = (fst pos, snd pos + 1)"

fun is_end_type :: "llama_gretype \<Rightarrow> bool" where
  "is_end_type LLAMA_GRETYPE_END = True"
| "is_end_type LLAMA_GRETYPE_ALT = True"
| "is_end_type _ = False"

definition llama_grammar_is_end_of_sequence :: "llama_grammar_rules \<Rightarrow> element_pos \<Rightarrow> bool option" where
  "llama_grammar_is_end_of_sequence rules pos = map_option (is_end_type \<circ> el_type) (element_at rules pos)"

fun is_positive_char :: "llama_gretype \<Rightarrow> bool" where
  "is_positive_char LLAMA_GRETYPE_CHAR = True"
| "is_positive_char LLAMA_GRETYPE_CHAR_ANY = True"
| "is_positive_char _ = False"

fun is_token_type :: "llama_gretype \<Rightarrow> bool" where
  "is_token_type LLAMA_GRETYPE_TOKEN = True"
| "is_token_type LLAMA_GRETYPE_TOKEN_NOT = True"
| "is_token_type _ = False"

section \<open>Matching\<close>

text \<open>The loops over the ranges of one character class; \<open>pos[1]\<close> is read in each turn.\<close>

function match_loop :: "llama_grammar_rule \<Rightarrow> cpt \<Rightarrow> nat \<Rightarrow> bool \<Rightarrow> (bool \<times> nat) option" where
  "match_loop rule chr pos found =
     (if pos < length rule \<and> pos + 1 < length rule then
        let e = rule ! pos; u = rule ! (pos + 1);
            found = (if el_type u = LLAMA_GRETYPE_CHAR_RNG_UPPER then found \<or> (el_value e \<le> chr \<and> chr \<le> el_value u)
                     else if el_type e = LLAMA_GRETYPE_CHAR_ANY then True
                     else found \<or> el_value e = chr);
            pos = (if el_type u = LLAMA_GRETYPE_CHAR_RNG_UPPER then pos + 2 else pos + 1) in
        if pos < length rule then
          (if el_type (rule ! pos) = LLAMA_GRETYPE_CHAR_ALT then match_loop rule chr pos found else Some (found, pos))
        else None
      else None)"
  by pat_completeness auto
termination
  by (relation "measure (\<lambda>(rule, _, pos, _). length rule - pos)") auto

declare match_loop.simps [simp del]

definition llama_grammar_match_char :: "llama_grammar_rules \<Rightarrow> element_pos \<Rightarrow> cpt \<Rightarrow> (bool \<times> element_pos) option" where
  "llama_grammar_match_char rules pos chr = do {
     e \<leftarrow> element_at rules pos;
     requires (is_positive_char (el_type e) \<or> el_type e = LLAMA_GRETYPE_CHAR_NOT);
     rule \<leftarrow> at rules (fst pos);
     (found, p) \<leftarrow> match_loop rule chr (snd pos) False;
     Some (found = is_positive_char (el_type e), (fst pos, p))
   }"

function partial_loop :: "llama_grammar_rule \<Rightarrow> cpt \<Rightarrow> cpt \<Rightarrow> bool \<Rightarrow> nat \<Rightarrow> bool option" where
  "partial_loop rule low high positive pos =
     (if pos < length rule \<and> pos + 1 < length rule then
        let e = rule ! pos; u = rule ! (pos + 1) in
        if el_type u = LLAMA_GRETYPE_CHAR_RNG_UPPER then
          (if el_value e \<le> high \<and> low \<le> el_value u then Some positive
           else if pos + 2 < length rule then
             (if el_type (rule ! (pos + 2)) = LLAMA_GRETYPE_CHAR_ALT then partial_loop rule low high positive (pos + 2)
              else Some (\<not> positive))
           else None)
        else if el_type e = LLAMA_GRETYPE_CHAR_ANY then Some True
        else if low \<le> el_value e \<and> el_value e \<le> high then Some positive
        else if el_type u = LLAMA_GRETYPE_CHAR_ALT then partial_loop rule low high positive (pos + 1)
        else Some (\<not> positive)
      else None)"
  by pat_completeness auto
termination
  by (relation "measure (\<lambda>(rule, _, _, _, pos). length rule - pos)") auto

declare partial_loop.simps [simp del]

text \<open>The code points that a partial sequence can be completed to lie between \<open>low\<close> and \<open>high\<close>.\<close>

definition partial_low :: "llama_partial_utf8 \<Rightarrow> cpt" where
  "partial_low p =
     (let low = push_bit (nat (pu_n_remain p) * 6) (pu_value p) in
      if low = 0 then (if pu_n_remain p = 2 then push_bit 11 1 else if pu_n_remain p = 3 then push_bit 16 1 else low)
      else low)"

definition partial_high :: "llama_partial_utf8 \<Rightarrow> cpt" where
  "partial_high p =
     push_bit (nat (pu_n_remain p) * 6) (pu_value p) OR (push_bit (nat (pu_n_remain p) * 6) 1 - 1)"

text \<open>
  As in the source, an inverse class answers no as soon as one of its ranges meets the possible completions; the
  comment there promises yes whenever some completion is outside of all ranges.
\<close>

definition llama_grammar_match_partial_char ::
  "llama_grammar_rules \<Rightarrow> element_pos \<Rightarrow> llama_partial_utf8 \<Rightarrow> bool option" where
  "llama_grammar_match_partial_char rules pos p = do {
     e \<leftarrow> element_at rules pos;
     requires (is_positive_char (el_type e) \<or> el_type e = LLAMA_GRETYPE_CHAR_NOT);
     if pu_n_remain p < 0 \<or> (pu_n_remain p = 1 \<and> pu_value p < 2) then Some False
     else do {
       rule \<leftarrow> at rules (fst pos);
       partial_loop rule (partial_low p) (partial_high p) (is_positive_char (el_type e)) (snd pos)
     }
   }"

definition llama_grammar_match_token :: "llama_grammar_rules \<Rightarrow> element_pos \<Rightarrow> llama_token \<Rightarrow> bool option" where
  "llama_grammar_match_token rules pos token = do {
     e \<leftarrow> element_at rules pos;
     requires (is_token_type (el_type e));
     Some (if el_type e = LLAMA_GRETYPE_TOKEN then el_value e = word_of_int token else el_value e \<noteq> word_of_int token)
   }"

section \<open>Stacks\<close>

definition add_stack :: "llama_grammar_stack \<Rightarrow> llama_grammar_stacks \<Rightarrow> llama_grammar_stacks" where
  "add_stack stack new_stacks = (if stack \<in> set new_stacks then new_stacks else new_stacks @ [stack])"

text \<open>An element is put on the stack unless it ends its sequence.\<close>

definition push_pos :: "llama_grammar_rules \<Rightarrow> element_pos \<Rightarrow> llama_grammar_stack \<Rightarrow> llama_grammar_stack option" where
  "push_pos rules pos stack = do {
     e \<leftarrow> llama_grammar_is_end_of_sequence rules pos;
     Some (if e then stack else pos # stack)
   }"

text \<open>The starts of the alternates of a rule, from position \<open>i\<close> on: each is scanned to its end.\<close>

function scan_end :: "llama_grammar_rule \<Rightarrow> nat \<Rightarrow> nat option" where
  "scan_end rule i = (if i < length rule then if is_end_type (el_type (rule ! i)) then Some i else scan_end rule (i + 1) else None)"
  by pat_completeness auto
termination
  by (relation "measure (\<lambda>(rule, i). length rule - i)") auto

declare scan_end.simps [simp del]

lemma scan_end_ge: "scan_end rule i = Some j \<Longrightarrow> i \<le> j \<and> j < length rule \<and> is_end_type (el_type (rule ! j))"
proof (induction rule i rule: scan_end.induct)
  case (1 rule i)
  from 1(2) show ?case using 1(1) by (subst (asm) scan_end.simps) (auto split: if_splits)
qed

function alternates :: "llama_grammar_rule \<Rightarrow> nat \<Rightarrow> nat list option" where
  "alternates rule i =
     (case scan_end rule i of
        None \<Rightarrow> None
      | Some j \<Rightarrow> if el_type (rule ! j) = LLAMA_GRETYPE_ALT then map_option ((#) i) (alternates rule (j + 1)) else Some [i])"
  by pat_completeness auto
termination
  by (relation "measure (\<lambda>(rule, i). length rule - i)") (auto dest: scan_end_ge)

declare alternates.simps [simp del]

lemma foldM_mono [partial_function_mono]:
  "(\<And>x s. mono_option (\<lambda>f. B f x s)) \<Longrightarrow> mono_option (\<lambda>f. foldM (B f) xs s)"
proof (induction xs arbitrary: s)
  case (Cons x xs)
  show ?case unfolding foldM.simps by (rule bind_mono[OF Cons.prems]) (rule Cons.IH[OF Cons.prems])
next
  case Nil
  show ?case by (simp add: option.const_mono)
qed

partial_function (option) llama_grammar_advance_stack ::
  "llama_grammar_rules \<Rightarrow> llama_grammar_stack \<Rightarrow> llama_grammar_stacks \<Rightarrow> llama_grammar_stacks option" where
  "llama_grammar_advance_stack rules stack new_stacks =
     (case stack of
        [] \<Rightarrow> Some (add_stack [] new_stacks)
      | pos # rest \<Rightarrow> do {
          e \<leftarrow> element_at rules pos;
          if el_type e = LLAMA_GRETYPE_RULE_REF then do {
            rule \<leftarrow> at rules (unat (el_value e));
            subs \<leftarrow> alternates rule 0;
            foldM (\<lambda>sub new_stacks. do {
                new_stack \<leftarrow> push_pos rules (next_pos pos) rest;
                new_stack \<leftarrow> push_pos rules (unat (el_value e), sub) new_stack;
                llama_grammar_advance_stack rules new_stack new_stacks
              }) subs new_stacks
          }
          else if is_positive_char (el_type e) \<or> el_type e = LLAMA_GRETYPE_CHAR_NOT \<or> is_token_type (el_type e)
          then Some (add_stack stack new_stacks)
          else None
        })"

section \<open>Rejecting candidates\<close>

definition gc_char :: "llama_grammar_candidate \<Rightarrow> cpt option" where
  "gc_char tok = at (gc_code_points tok) (gc_offset tok)"

definition gc_forward :: "llama_grammar_candidate \<Rightarrow> llama_grammar_candidate" where
  "gc_forward tok = tok\<lparr>gc_offset := gc_offset tok + 1\<rparr>"

definition gc_back :: "llama_grammar_candidate \<Rightarrow> llama_grammar_candidate" where
  "gc_back tok = tok\<lparr>gc_offset := gc_offset tok - 1\<rparr>"

definition filterM :: "('a \<Rightarrow> bool option) \<Rightarrow> 'a list \<Rightarrow> 'a list option" where
  "filterM f xs = foldM (\<lambda>x acc. do { b \<leftarrow> f x; Some (if b then acc @ [x] else acc) }) xs []"

text \<open>
  One pass of the loop over the candidates at a character: the result is the rejected ones and the ones
  that go on with their next code point.
\<close>

definition reject_step ::
  "llama_grammar_rules \<Rightarrow> element_pos \<Rightarrow> llama_grammar_candidate \<Rightarrow>
   llama_grammar_candidate list \<times> llama_grammar_candidate list \<Rightarrow>
   (llama_grammar_candidate list \<times> llama_grammar_candidate list) option" where
  "reject_step rules pos tok st = (case st of (rejects, next) \<Rightarrow> do {
     c \<leftarrow> gc_char tok;
     if c = 0 then
       (if pu_n_remain (gc_partial_utf8 tok) \<noteq> 0 then do {
          m \<leftarrow> llama_grammar_match_partial_char rules pos (gc_partial_utf8 tok);
          Some (if m then rejects else rejects @ [tok], next)
        } else Some (rejects, next))
     else do {
       (m, _) \<leftarrow> llama_grammar_match_char rules pos c;
       Some (if m then (rejects, next @ [gc_forward tok]) else (rejects @ [tok], next))
     }
   })"

text \<open>
  \<open>llama_grammar_reject_candidates_for_stack\<close>; the first argument is \<open>llama_grammar_reject_candidates\<close>, with
  which it is mutually recursive.
\<close>

definition reject_for_stack ::
  "(llama_grammar_stacks \<Rightarrow> llama_grammar_candidate list \<Rightarrow> llama_grammar_candidate list option) \<Rightarrow>
   llama_grammar_rules \<Rightarrow> llama_grammar_stack \<Rightarrow> llama_grammar_candidate list \<Rightarrow> llama_grammar_candidate list option" where
  "reject_for_stack reject_rec rules stack candidates =
     (case stack of
        [] \<Rightarrow> filterM (\<lambda>tok. do { c \<leftarrow> gc_char tok; Some (c \<noteq> 0 \<or> pu_n_remain (gc_partial_utf8 tok) \<noteq> 0) }) candidates
      | pos # rest \<Rightarrow> do {
          e \<leftarrow> element_at rules pos;
          if is_token_type (el_type e) then
            filterM (\<lambda>tok. do {
                c \<leftarrow> gc_char tok;
                if c = 0 then Some (pu_n_remain (gc_partial_utf8 tok) \<noteq> 0)
                else map_option Not (llama_grammar_match_token rules pos (gc_id tok))
              }) candidates
          else do {
            (rejects, next_candidates) \<leftarrow> foldM (reject_step rules pos) candidates ([], []);
            (_, after) \<leftarrow> llama_grammar_match_char rules pos 0;
            stack_after \<leftarrow> push_pos rules after rest;
            next_stacks \<leftarrow> llama_grammar_advance_stack rules stack_after [];
            next_rejects \<leftarrow> reject_rec next_stacks next_candidates;
            Some (rejects @ map gc_back next_rejects)
          }
        })"

lemma prod_case_mono: "(\<And>a b. mono_option (\<lambda>f. B f a b)) \<Longrightarrow> mono_option (\<lambda>f. case p of (a, b) \<Rightarrow> B f a b)"
  by (cases p) simp

lemma option_if_mono:
  "mono_option F \<Longrightarrow> mono_option G \<Longrightarrow> mono_option (\<lambda>f. if c then F f else G f)"
  by (cases c) simp_all

lemma option_call_mono: "mono_option (\<lambda>f. f x)"
  by (simp add: monotone_def fun_ord_def)

lemma reject_for_stack_mono [partial_function_mono]:
  "mono_option (\<lambda>f. reject_for_stack (\<lambda>ss cs. f ((rules, ss), cs)) rules stack cands)"
proof (cases stack)
  case Nil
  then show ?thesis unfolding reject_for_stack_def by (simp add: option.const_mono)
next
  case (Cons pos rest)
  show ?thesis unfolding reject_for_stack_def Cons list.case
    by (intro bind_mono option_if_mono prod_case_mono option.const_mono option_call_mono)
qed

text \<open>
  The mutual recursion: every level takes one code point off each candidate that goes on, so it ends when
  no candidate is left.
\<close>

partial_function (option) llama_grammar_reject_candidates ::
  "llama_grammar_rules \<Rightarrow> llama_grammar_stacks \<Rightarrow> llama_grammar_candidate list \<Rightarrow> llama_grammar_candidate list option" where
  "llama_grammar_reject_candidates rules stacks candidates =
     (if stacks = [] then None
      else if candidates = [] then Some []
      else foldM (reject_for_stack (llama_grammar_reject_candidates rules) rules) stacks candidates)"

definition llama_grammar_reject_candidates_for_stack ::
  "llama_grammar_rules \<Rightarrow> llama_grammar_stack \<Rightarrow> llama_grammar_candidate list \<Rightarrow> llama_grammar_candidate list option" where
  "llama_grammar_reject_candidates_for_stack rules = reject_for_stack (llama_grammar_reject_candidates rules) rules"

declare llama_grammar_advance_stack.simps [code] llama_grammar_reject_candidates.simps [code]

end
