(* ===== verification/GrammarRun.thy ===== *)
theory GrammarRun
  imports Grammar
begin

text \<open>
  The operations of \<open>struct llama_grammar\<close> (\<open>src/llama-grammar.cpp\<close>): the UTF-8 decoder that carries an
  incomplete sequence from one piece to the next, accepting characters, strings and tokens, the check for
  left recursion, the initial stacks, and masking the candidates of the sampler.
\<close>

section \<open>Decoding UTF-8\<close>

text \<open>A piece is read up to its terminating zero, the end of the list.\<close>

definition c_str :: "bytes \<Rightarrow> bytes" where
  "c_str src = takeWhile (\<lambda>b. b \<noteq> 0) src"

text \<open>The first loop stops at the end of the piece, or fails at a byte that does not continue a sequence.\<close>

fun continue_decode :: "bytes \<Rightarrow> cpt \<Rightarrow> int \<Rightarrow> (bytes \<times> cpt \<times> int) option" where
  "continue_decode [] val n_remain = Some ([], val, n_remain)"
| "continue_decode (b # bs) val n_remain =
     (if n_remain > 0 then
        if drop_bit 6 b \<noteq> 2 then None
        else continue_decode bs (push_bit 6 val + (ucast b AND 0x3F)) (n_remain - 1)
      else Some (b # bs, val, n_remain))"

fun take_sequence :: "bytes \<Rightarrow> cpt \<Rightarrow> int \<Rightarrow> bytes \<times> cpt \<times> int" where
  "take_sequence [] val n_remain = ([], val, n_remain)"
| "take_sequence (b # bs) val n_remain =
     (if n_remain > 0 then take_sequence bs (push_bit 6 val + (ucast b AND 0x3F)) (n_remain - 1)
      else (b # bs, val, n_remain))"

definition utf8_lookup :: "int list" where
  "utf8_lookup = [1, 1, 1, 1, 1, 1, 1, 1, 0, 0, 0, 0, 2, 2, 3, 4]"

lemma take_sequence_length: "take_sequence bs val n = (bs', val', n') \<Longrightarrow> length bs' \<le> length bs"
proof (induction bs val n rule: take_sequence.induct)
  case (2 b bs val n)
  then show ?case by (auto split: if_splits dest: le_SucI)
qed simp

text \<open>\<open>None\<close>: a byte that cannot start a sequence.\<close>

function decode_loop ::
  "bytes \<Rightarrow> cpt list \<Rightarrow> cpt \<Rightarrow> int \<Rightarrow> (cpt list \<times> cpt \<times> int) option" where
  "decode_loop bytes code_points val n_remain =
     (case bytes of
        [] \<Rightarrow> Some (code_points, val, n_remain)
      | first_byte # bs \<Rightarrow>
          let n_remain = utf8_lookup ! unat (drop_bit 4 first_byte) - 1 in
          if n_remain < 0 then None
          else
            let mask = push_bit (nat (7 - n_remain)) 1 - 1;
                (bs, val, n_remain) = take_sequence bs (ucast (first_byte AND mask)) n_remain in
            decode_loop bs (if n_remain = 0 then code_points @ [val] else code_points) val n_remain)"
  by pat_completeness auto
termination
  by (relation "measure (\<lambda>(bytes, _, _, _). length bytes)")
    (auto dest: take_sequence_length[OF sym] intro: le_imp_less_Suc)

declare decode_loop.simps [simp del]

definition decode_utf8 :: "bytes \<Rightarrow> llama_partial_utf8 \<Rightarrow> cpt list \<times> llama_partial_utf8" where
  "decode_utf8 src partial_start =
     (case continue_decode (c_str src) (pu_value partial_start) (pu_n_remain partial_start) of
        None \<Rightarrow> ([0], \<lparr>pu_value = 0, pu_n_remain = -1\<rparr>)
      | Some (bs, val, n_remain) \<Rightarrow>
          let code_points = (if pu_n_remain partial_start > 0 \<and> n_remain = 0 then [val] else []) in
          (case decode_loop bs code_points val n_remain of
             None \<Rightarrow> ([0], \<lparr>pu_value = 0, pu_n_remain = -1\<rparr>)
           | Some (code_points, val, n_remain) \<Rightarrow>
               (code_points @ [0], \<lparr>pu_value = val, pu_n_remain = n_remain\<rparr>)))"

section \<open>The grammar\<close>

text \<open>The vocabulary: the pieces of the tokens and the tokens that end the generation.\<close>

record llama_vocab =
  cache_token_to_piece :: "bytes list"
  special_eog_ids :: "llama_token list"

definition LLAMA_TOKEN_NULL :: llama_token where
  "LLAMA_TOKEN_NULL = -1"

definition token_to_piece :: "llama_vocab \<Rightarrow> llama_token \<Rightarrow> bytes option" where
  "token_to_piece vocab token = (if token < 0 then None else at (cache_token_to_piece vocab) (nat token))"

definition is_eog :: "llama_vocab \<Rightarrow> llama_token \<Rightarrow> bool" where
  "is_eog vocab token \<longleftrightarrow> token \<noteq> LLAMA_TOKEN_NULL \<and> token \<in> set (special_eog_ids vocab)"

record llama_grammar =
  gr_vocab :: "llama_vocab option"
  gr_rules :: llama_grammar_rules
  gr_stacks :: llama_grammar_stacks
  gr_partial_utf8 :: llama_partial_utf8
  gr_lazy :: bool
  gr_awaiting_trigger :: bool
  gr_trigger_buffer :: bytes
  gr_trigger_buffer_positions :: "(llama_token \<times> nat \<times> nat) list"
  gr_trigger_tokens :: "llama_token list"
  gr_trigger_patterns :: "bytes list"

text \<open>An exception leaves the grammar as it is when it is thrown.\<close>

datatype grammar_error = Unexpected_empty_grammar_stack

section \<open>Accepting characters and tokens\<close>

definition llama_grammar_accept_chr ::
  "llama_grammar_rules \<Rightarrow> llama_grammar_stack \<Rightarrow> cpt \<Rightarrow> llama_grammar_stacks \<Rightarrow> llama_grammar_stacks option" where
  "llama_grammar_accept_chr rules stack chr new_stacks =
     (case stack of
        [] \<Rightarrow> Some new_stacks
      | pos # rest \<Rightarrow> do {
          e \<leftarrow> element_at rules pos;
          if is_token_type (el_type e) then Some new_stacks
          else do {
            (found, after) \<leftarrow> llama_grammar_match_char rules pos chr;
            if found then do {
              new_stack \<leftarrow> push_pos rules after rest;
              llama_grammar_advance_stack rules new_stack new_stacks
            } else Some new_stacks
          }
        })"

definition accept_chr_stacks ::
  "llama_grammar_rules \<Rightarrow> cpt \<Rightarrow> llama_grammar_stacks \<Rightarrow> llama_grammar_stacks option" where
  "accept_chr_stacks rules chr stacks =
     foldM (\<lambda>stack stacks_new. llama_grammar_accept_chr rules stack chr stacks_new) stacks []"

definition llama_grammar_accept :: "llama_grammar \<Rightarrow> cpt \<Rightarrow> llama_grammar option" where
  "llama_grammar_accept g chr = do {
     stacks_new \<leftarrow> accept_chr_stacks (gr_rules g) chr (gr_stacks g);
     Some (g\<lparr>gr_stacks := stacks_new\<rparr>)
   }"

definition llama_grammar_accept_str ::
  "llama_grammar \<Rightarrow> bytes \<Rightarrow> (llama_grammar \<times> grammar_error option) option" where
  "llama_grammar_accept_str g piece =
     (let (code_points, partial_utf8) = decode_utf8 piece (gr_partial_utf8 g) in do {
       g \<leftarrow> foldM (\<lambda>c g. llama_grammar_accept g c) (butlast code_points) g;
       let g = g\<lparr>gr_partial_utf8 := partial_utf8\<rparr>;
       Some (g, if gr_stacks g = [] then Some Unexpected_empty_grammar_stack else None)
     })"

text \<open>The loop over the code points of a token; it ends early when no stack is left.\<close>

fun accept_code_points ::
  "llama_grammar_rules \<Rightarrow> cpt list \<Rightarrow> llama_grammar_stacks \<Rightarrow> llama_grammar_stacks option" where
  "accept_code_points rules [] stacks = Some stacks"
| "accept_code_points rules (c # cs) stacks = do {
     next_stacks \<leftarrow> accept_chr_stacks rules c stacks;
     if next_stacks = [] then Some [] else accept_code_points rules cs next_stacks
   }"

definition accept_token_stack ::
  "llama_grammar_rules \<Rightarrow> llama_token \<Rightarrow> cpt list \<Rightarrow> llama_grammar_stack \<Rightarrow> llama_grammar_stacks \<Rightarrow>
   llama_grammar_stacks option" where
  "accept_token_stack rules token code_points stack stacks_new =
     (case stack of
        [] \<Rightarrow> Some stacks_new
      | pos # rest \<Rightarrow> do {
          e \<leftarrow> element_at rules pos;
          if is_token_type (el_type e) then do {
            m \<leftarrow> llama_grammar_match_token rules pos token;
            if m then do {
              new_stack \<leftarrow> push_pos rules (next_pos pos) rest;
              llama_grammar_advance_stack rules new_stack stacks_new
            } else Some stacks_new
          } else do {
            surviving \<leftarrow> accept_code_points rules code_points [stack];
            Some (fold add_stack surviving stacks_new)
          }
        })"

definition llama_grammar_accept_token ::
  "llama_grammar \<Rightarrow> llama_token \<Rightarrow> bytes \<Rightarrow> (llama_grammar \<times> grammar_error option) option" where
  "llama_grammar_accept_token g token piece =
     (let (code_points, partial_utf8) = decode_utf8 piece (gr_partial_utf8 g) in do {
       stacks_new \<leftarrow> foldM (accept_token_stack (gr_rules g) token (butlast code_points)) (gr_stacks g) [];
       let g = g\<lparr>gr_stacks := stacks_new, gr_partial_utf8 := partial_utf8\<rparr>;
       Some (g, if stacks_new = [] then Some Unexpected_empty_grammar_stack else None)
     })"

section \<open>Triggers of a lazy grammar\<close>

text \<open>
  The first capturing group that matched a nonempty string, or the whole match. A match is the list of
  the positions and lengths of its groups, the whole match first.
\<close>

fun first_group :: "(nat \<times> nat) list \<Rightarrow> nat option" where
  "first_group [] = None"
| "first_group ((position, len) # gs) = (if len > 0 then Some position else first_group gs)"

definition trigger_start :: "(nat \<times> nat) list \<Rightarrow> nat option" where
  "trigger_start match =
     (case match of
        [] \<Rightarrow> None
      | g # gs \<Rightarrow> Some (case first_group gs of Some start \<Rightarrow> start | None \<Rightarrow> fst g))"

text \<open>The piece of a buffered token that lies behind \<open>start\<close>; \<open>None\<close> when the token is skipped.\<close>

definition replay_piece :: "bytes \<Rightarrow> nat \<Rightarrow> nat \<times> nat \<Rightarrow> bytes option" where
  "replay_piece buffer start span = (case span of (tok_start, tok_end) \<Rightarrow>
     if tok_end \<le> start then None
     else let piece_start = (if tok_start < start then start else tok_start) in
          Some (take (tok_end - piece_start) (drop piece_start buffer)))"

definition replay_token ::
  "bytes \<Rightarrow> nat \<Rightarrow> llama_token \<times> nat \<times> nat \<Rightarrow> llama_grammar \<times> grammar_error option \<Rightarrow>
   (llama_grammar \<times> grammar_error option) option" where
  "replay_token buffer start entry st = (case st of (g, thrown) \<Rightarrow>
     if thrown \<noteq> None then Some st
     else case replay_piece buffer start (snd entry) of
            None \<Rightarrow> Some st
          | Some tok_piece \<Rightarrow> llama_grammar_accept_token g (fst entry) tok_piece)"

text \<open>The first pattern that matches the whole buffer.\<close>

fun first_match :: "(bytes \<Rightarrow> bytes \<Rightarrow> (nat \<times> nat) list option) \<Rightarrow> bytes list \<Rightarrow> bytes \<Rightarrow> (nat \<times> nat) list option" where
  "first_match regex_match [] buffer = None"
| "first_match regex_match (p # ps) buffer =
     (case regex_match p buffer of Some match \<Rightarrow> Some match | None \<Rightarrow> first_match regex_match ps buffer)"

definition llama_grammar_accept_impl ::
  "(bytes \<Rightarrow> bytes \<Rightarrow> (nat \<times> nat) list option) \<Rightarrow> llama_grammar \<Rightarrow> llama_token \<Rightarrow>
   (llama_grammar \<times> grammar_error option) option" where
  "llama_grammar_accept_impl regex_match g token = do {
     vocab \<leftarrow> gr_vocab g;
     piece \<leftarrow> token_to_piece vocab token;
     if gr_awaiting_trigger g then
       (if token \<in> set (gr_trigger_tokens g) then
          llama_grammar_accept_token (g\<lparr>gr_awaiting_trigger := False, gr_trigger_buffer := []\<rparr>) token piece
        else do {
          let position = (length (gr_trigger_buffer g), length (gr_trigger_buffer g) + length piece);
          let g = g\<lparr>gr_trigger_buffer_positions := gr_trigger_buffer_positions g @ [(token, position)],
                    gr_trigger_buffer := gr_trigger_buffer g @ piece\<rparr>;
          case first_match regex_match (gr_trigger_patterns g) (gr_trigger_buffer g) of
            None \<Rightarrow> Some (g, None)
          | Some match \<Rightarrow> do {
              let g = g\<lparr>gr_awaiting_trigger := False\<rparr>;
              start \<leftarrow> trigger_start match;
              (g, thrown) \<leftarrow> foldM (replay_token (gr_trigger_buffer g) start) (gr_trigger_buffer_positions g) (g, None);
              Some (if thrown \<noteq> None then (g, thrown)
                    else (g\<lparr>gr_trigger_buffer := [], gr_trigger_buffer_positions := []\<rparr>, None))
            }
        })
     else if is_eog vocab token then
       (if [] \<in> set (gr_stacks g) then Some (g, None) else None)
     else llama_grammar_accept_token g token piece
   }"

section \<open>Left recursion\<close>

record recursion_state =
  rules_visited :: "bool list"
  rules_in_progress :: "bool list"
  rules_may_be_empty :: "bool list"

definition set_at :: "'a list \<Rightarrow> nat \<Rightarrow> 'a \<Rightarrow> 'a list option" where
  "set_at xs i x = (if i < length xs then Some (xs[i := x]) else None)"

text \<open>The first loop: whether some alternate of the rule is empty as it is written.\<close>

fun has_empty_alternate :: "llama_grammar_rule \<Rightarrow> bool \<Rightarrow> bool" where
  "has_empty_alternate [] at_rule_start = False"
| "has_empty_alternate (e # es) at_rule_start =
     (if is_end_type (el_type e) then at_rule_start \<or> has_empty_alternate es True
      else has_empty_alternate es False)"

text \<open>
  The second loop. Its state holds the flag \<open>recurse_into_nonterminal\<close> and whether the function has
  returned \<open>true\<close>.
\<close>

definition recurse_step ::
  "(nat \<Rightarrow> recursion_state \<Rightarrow> (bool \<times> recursion_state) option) \<Rightarrow> llama_grammar_element \<Rightarrow>
   bool \<times> bool \<times> recursion_state \<Rightarrow> (bool \<times> bool \<times> recursion_state) option" where
  "recurse_step detect e st = (case st of (returned, recurse, rs) \<Rightarrow>
     if returned then Some st
     else if el_type e = LLAMA_GRETYPE_RULE_REF \<and> recurse then do {
       (found, rs) \<leftarrow> detect (unat (el_value e)) rs;
       if found then Some (True, recurse, rs)
       else do {
         empty \<leftarrow> at (rules_may_be_empty rs) (unat (el_value e));
         Some (False, empty, rs)
       }
     }
     else Some (False, is_end_type (el_type e), rs))"

lemma recurse_step_mono [partial_function_mono]:
  "mono_option (\<lambda>f. recurse_step (\<lambda>i rs. f ((rules, i), rs)) e st)"
  unfolding recurse_step_def by (intro prod_case_mono option_if_mono bind_mono option.const_mono option_call_mono)

partial_function (option) llama_grammar_detect_left_recursion ::
  "llama_grammar_rules \<Rightarrow> nat \<Rightarrow> recursion_state \<Rightarrow> (bool \<times> recursion_state) option" where
  "llama_grammar_detect_left_recursion rules rule_index rs = do {
     in_progress \<leftarrow> at (rules_in_progress rs) rule_index;
     if in_progress then Some (True, rs)
     else do {
       busy \<leftarrow> set_at (rules_in_progress rs) rule_index True;
       rule \<leftarrow> at rules rule_index;
       empty \<leftarrow> (if has_empty_alternate rule True then set_at (rules_may_be_empty rs) rule_index True
                 else Some (rules_may_be_empty rs));
       (returned, _, rs) \<leftarrow> foldM (recurse_step (llama_grammar_detect_left_recursion rules)) rule
         (False, True, rs\<lparr>rules_in_progress := busy, rules_may_be_empty := empty\<rparr>);
       if returned then Some (True, rs)
       else do {
         busy \<leftarrow> set_at (rules_in_progress rs) rule_index False;
         visited \<leftarrow> set_at (rules_visited rs) rule_index True;
         Some (False, rs\<lparr>rules_in_progress := busy, rules_visited := visited\<rparr>)
       }
     }
   }"

declare llama_grammar_detect_left_recursion.simps [code]

definition check_rule ::
  "llama_grammar_rules \<Rightarrow> nat \<Rightarrow> bool \<times> recursion_state \<Rightarrow> (bool \<times> recursion_state) option" where
  "check_rule rules i st = (case st of (found, rs) \<Rightarrow>
     if found then Some st
     else do {
       visited \<leftarrow> at (rules_visited rs) i;
       if visited then Some st else llama_grammar_detect_left_recursion rules i rs
     })"

definition left_recursion_check :: "llama_grammar_rules \<Rightarrow> bool option" where
  "left_recursion_check rules =
     (let n_rules = length rules; none = replicate n_rules False in
      map_option fst (foldM (check_rule rules) [0..<n_rules]
        (False, \<lparr>rules_visited = none, rules_in_progress = none, rules_may_be_empty = none\<rparr>)))"

section \<open>Initialisation\<close>

text \<open>A rule is copied up to its first \<open>END\<close>; without one the copy runs off the array.\<close>

definition copy_rule :: "llama_grammar_rule \<Rightarrow> llama_grammar_rule option" where
  "copy_rule rule =
     (if LLAMA_GRETYPE_END \<in> el_type ` set rule
      then Some (takeWhile (\<lambda>e. el_type e \<noteq> LLAMA_GRETYPE_END) rule @ [Elem LLAMA_GRETYPE_END 0])
      else None)"

definition copy_rules :: "llama_grammar_rules \<Rightarrow> llama_grammar_rules option" where
  "copy_rules rules = foldM (\<lambda>rule vec. do { r \<leftarrow> copy_rule rule; Some (vec @ [r]) }) rules []"

definition initial_stacks :: "llama_grammar_rules \<Rightarrow> nat \<Rightarrow> llama_grammar_stacks option" where
  "initial_stacks rules start_rule_index = do {
     rule \<leftarrow> at rules start_rule_index;
     starts \<leftarrow> alternates rule 0;
     foldM (\<lambda>i stacks. do {
         stack \<leftarrow> push_pos rules (start_rule_index, i) [];
         llama_grammar_advance_stack rules stack stacks
       }) starts []
   }"

text \<open>The null pointer is the inner \<open>None\<close>.\<close>

definition llama_grammar_init_impl ::
  "llama_vocab option \<Rightarrow> llama_grammar_rules \<Rightarrow> nat \<Rightarrow> llama_grammar option option" where
  "llama_grammar_init_impl vocab rules start_rule_index = do {
     vec_rules \<leftarrow> copy_rules rules;
     recursive \<leftarrow> left_recursion_check vec_rules;
     if recursive then Some None
     else do {
       stacks \<leftarrow> initial_stacks vec_rules start_rule_index;
       Some (Some \<lparr>gr_vocab = vocab, gr_rules = vec_rules, gr_stacks = stacks,
         gr_partial_utf8 = \<lparr>pu_value = 0, pu_n_remain = 0\<rparr>, gr_lazy = False, gr_awaiting_trigger = False,
         gr_trigger_buffer = [], gr_trigger_buffer_positions = [], gr_trigger_tokens = [],
         gr_trigger_patterns = []\<rparr>)
     }
   }"

section \<open>Masking candidates\<close>

record llama_token_data =
  td_id :: llama_token
  td_logit :: float32

definition NEG_INFINITY :: float32 where
  "NEG_INFINITY = 0xff800000"

definition set_logit :: "nat \<Rightarrow> llama_token_data list \<Rightarrow> llama_token_data list" where
  "set_logit i data = data[i := (data ! i)\<lparr>td_logit := NEG_INFINITY\<rparr>]"

definition apply_candidate ::
  "llama_vocab \<Rightarrow> llama_grammar \<Rightarrow> bool \<Rightarrow> nat \<Rightarrow> llama_token_data list \<times> llama_grammar_candidate list \<Rightarrow>
   (llama_token_data list \<times> llama_grammar_candidate list) option" where
  "apply_candidate vocab g allow_eog i st = (case st of (data, candidates) \<Rightarrow> do {
     let id = td_id (data ! i);
     piece \<leftarrow> token_to_piece vocab id;
     if is_eog vocab id then Some (if allow_eog then data else set_logit i data, candidates)
     else if piece = [] \<or> hd piece = 0 then Some (set_logit i data, candidates)
     else let (code_points, partial_utf8) = decode_utf8 piece (gr_partial_utf8 g) in
       Some (data, candidates @ [\<lparr>gc_index = i, gc_code_points = code_points, gc_offset = 0,
                                 gc_partial_utf8 = partial_utf8, gc_id = id\<rparr>])
   })"

definition llama_grammar_apply_impl :: "llama_grammar \<Rightarrow> llama_token_data list \<Rightarrow> llama_token_data list option" where
  "llama_grammar_apply_impl g cur_p = do {
     vocab \<leftarrow> gr_vocab g;
     if gr_awaiting_trigger g then Some cur_p
     else do {
       let allow_eog = ([] \<in> set (gr_stacks g));
       (data, candidates) \<leftarrow> foldM (apply_candidate vocab g allow_eog) [0..<length cur_p] (cur_p, []);
       rejects \<leftarrow> llama_grammar_reject_candidates (gr_rules g) (gr_stacks g) candidates;
       Some (fold (\<lambda>reject. set_logit (gc_index reject)) rejects data)
     }
   }"

end
