(* ===== verification/GrammarLaws.thy ===== *)
theory GrammarLaws
  imports GrammarRun
begin

text \<open>
  Well-formed rules and the character classes in them: what the matching functions decide, and that every
  pointer the operations make points to the start of an element sequence again.
\<close>

section \<open>Well-formed rules\<close>

text \<open>Inside a character class an alternative or the upper end of a range may follow.\<close>

datatype class_mode = Top | In_char | In_upper

fun wf_elems :: "nat \<Rightarrow> class_mode \<Rightarrow> llama_grammar_rule \<Rightarrow> bool" where
  "wf_elems n m [] = False"
| "wf_elems n m (e # es) =
     (case el_type e of
        LLAMA_GRETYPE_END \<Rightarrow> es = []
      | LLAMA_GRETYPE_ALT \<Rightarrow> wf_elems n Top es
      | LLAMA_GRETYPE_RULE_REF \<Rightarrow> unat (el_value e) < n \<and> wf_elems n Top es
      | LLAMA_GRETYPE_CHAR \<Rightarrow> wf_elems n In_char es
      | LLAMA_GRETYPE_CHAR_NOT \<Rightarrow> wf_elems n In_char es
      | LLAMA_GRETYPE_CHAR_RNG_UPPER \<Rightarrow> m = In_char \<and> wf_elems n In_upper es
      | LLAMA_GRETYPE_CHAR_ALT \<Rightarrow> m \<noteq> Top \<and> wf_elems n In_char es
      | LLAMA_GRETYPE_CHAR_ANY \<Rightarrow> wf_elems n Top es
      | LLAMA_GRETYPE_TOKEN \<Rightarrow> wf_elems n Top es
      | LLAMA_GRETYPE_TOKEN_NOT \<Rightarrow> wf_elems n Top es)"

definition rules_ok :: "llama_grammar_rules \<Rightarrow> bool" where
  "rules_ok rules \<longleftrightarrow> (\<forall>rule \<in> set rules. wf_elems (length rules) Top rule)"

text \<open>A pointer is good if the rest of its rule is well-formed on its own.\<close>

definition pos_ok :: "llama_grammar_rules \<Rightarrow> element_pos \<Rightarrow> bool" where
  "pos_ok rules pos \<longleftrightarrow>
     fst pos < length rules \<and> wf_elems (length rules) Top (drop (snd pos) (rules ! fst pos))"

definition stack_ok :: "llama_grammar_rules \<Rightarrow> llama_grammar_stack \<Rightarrow> bool" where
  "stack_ok rules stack \<longleftrightarrow>
     (\<forall>pos \<in> set stack. pos_ok rules pos \<and> llama_grammar_is_end_of_sequence rules pos = Some False)"

lemma drop_eq_Cons: "drop p xs = y # ys \<longleftrightarrow> p < length xs \<and> xs ! p = y \<and> drop (Suc p) xs = ys"
  by (metis Cons_nth_drop_Suc drop_eq_Nil2 leI list.distinct(1) list.inject)

lemma wf_elems_nonempty: "wf_elems n m es \<Longrightarrow> es \<noteq> []"
  by auto

lemma pos_okE:
  assumes "pos_ok rules pos"
  obtains e es where "fst pos < length rules" "element_at rules pos = Some e" "drop (snd pos) (rules ! fst pos) = e # es"
    "wf_elems (length rules) Top (e # es)"
proof -
  from assms obtain e es where d: "drop (snd pos) (rules ! fst pos) = e # es"
    unfolding pos_ok_def by (metis list.exhaust wf_elems_nonempty)
  then have "element_at rules pos = Some e"
    using assms by (auto simp: element_at_def pos_ok_def drop_eq_Cons)
  with d assms show thesis using that by (auto simp: pos_ok_def)
qed

lemma next_pos_ok:
  assumes "pos_ok rules pos" "element_at rules pos = Some e"
    and "el_type e = LLAMA_GRETYPE_RULE_REF \<or> is_token_type (el_type e) \<or> el_type e = LLAMA_GRETYPE_ALT"
  shows "pos_ok rules (next_pos pos)"
  using assms
  by (elim pos_okE) (auto simp: pos_ok_def next_pos_def drop_eq_Cons split: llama_gretype.splits)

lemma ref_in_range:
  assumes "pos_ok rules pos" "element_at rules pos = Some e" "el_type e = LLAMA_GRETYPE_RULE_REF"
  shows "unat (el_value e) < length rules"
  using assms by (elim pos_okE) auto

lemma end_of_sequence_ok:
  "pos_ok rules pos \<Longrightarrow> \<exists>b. llama_grammar_is_end_of_sequence rules pos = Some b"
  by (elim pos_okE) (simp add: llama_grammar_is_end_of_sequence_def)

lemma push_pos_ok:
  assumes "pos_ok rules pos" "stack_ok rules stack"
  obtains s where "push_pos rules pos stack = Some s" "stack_ok rules s"
    "s = (if llama_grammar_is_end_of_sequence rules pos = Some True then stack else pos # stack)"
proof -
  obtain b where b: "llama_grammar_is_end_of_sequence rules pos = Some b" using end_of_sequence_ok[OF assms(1)] ..
  show thesis
    by (rule that[of "if b then stack else pos # stack"]) (use b assms in \<open>simp_all add: push_pos_def stack_ok_def\<close>)
qed

section \<open>Character classes\<close>

text \<open>The ranges of the class at the start of a list, and the elements behind it.\<close>

fun char_class :: "llama_grammar_rule \<Rightarrow> (cpt \<times> cpt) list \<times> llama_grammar_rule" where
  "char_class [] = ([], [])"
| "char_class [e] = ([], [])"
| "char_class (e # u # es) =
     (if el_type u = LLAMA_GRETYPE_CHAR_RNG_UPPER then
        (case es of
           [] \<Rightarrow> ([], [])
         | a # _ \<Rightarrow>
             let (ranges, rest) = (if el_type a = LLAMA_GRETYPE_CHAR_ALT then char_class es else ([], es)) in
             ((el_value e, el_value u) # ranges, rest))
      else
        let (ranges, rest) = (if el_type u = LLAMA_GRETYPE_CHAR_ALT then char_class (u # es) else ([], u # es)) in
        ((if el_type e = LLAMA_GRETYPE_CHAR_ANY then (0, -1) else (el_value e, el_value e)) # ranges, rest))"

definition in_ranges :: "(cpt \<times> cpt) list \<Rightarrow> cpt \<Rightarrow> bool" where
  "in_ranges ranges c \<longleftrightarrow> (\<exists>(low, high) \<in> set ranges. low \<le> c \<and> c \<le> high)"

lemma in_ranges_simps [simp]:
  "\<not> in_ranges [] c"
  "in_ranges ((a, b) # rs) c \<longleftrightarrow> a \<le> c \<and> c \<le> b \<or> in_ranges rs c"
  by (auto simp: in_ranges_def)

definition class_at :: "llama_grammar_rules \<Rightarrow> element_pos \<Rightarrow> (cpt \<times> cpt) list" where
  "class_at rules pos = fst (char_class (drop (snd pos) (rules ! fst pos)))"

definition class_end :: "llama_grammar_rules \<Rightarrow> element_pos \<Rightarrow> element_pos" where
  "class_end rules pos =
     (fst pos, length (rules ! fst pos) - length (snd (char_class (drop (snd pos) (rules ! fst pos)))))"

text \<open>One turn of the loop.\<close>

lemma match_loop_step:
  assumes "drop p rule = e # u # es"
  shows "match_loop rule c p found =
     (if el_type u = LLAMA_GRETYPE_CHAR_RNG_UPPER then
        (case es of [] \<Rightarrow> None
         | a # _ \<Rightarrow> let found = (found \<or> el_value e \<le> c \<and> c \<le> el_value u) in
             if el_type a = LLAMA_GRETYPE_CHAR_ALT then match_loop rule c (p + 2) found else Some (found, p + 2))
      else let found = (el_type e = LLAMA_GRETYPE_CHAR_ANY \<or> found \<or> el_value e = c) in
        if el_type u = LLAMA_GRETYPE_CHAR_ALT then match_loop rule c (p + 1) found else Some (found, p + 1))"
proof -
  have p: "p < length rule" "rule ! p = e" "Suc p < length rule" "rule ! Suc p = u" "drop (Suc (Suc p)) rule = es"
    using assms by (auto simp: drop_eq_Cons)
  show ?thesis
  proof (cases es)
    case Nil
    with p have "\<not> Suc (Suc p) < length rule" by auto
    then show ?thesis using p Nil by (subst match_loop.simps) simp
  next
    case (Cons a as)
    with p have "Suc (Suc p) < length rule" "rule ! Suc (Suc p) = a" by (auto simp: drop_eq_Cons)
    then show ?thesis using p Cons by (subst match_loop.simps) (simp add: Let_def)
  qed
qed

definition class_mode_of :: "llama_grammar_element \<Rightarrow> class_mode" where
  "class_mode_of e = (if el_type e = LLAMA_GRETYPE_CHAR_ANY then Top else In_char)"

lemma match_loop_class:
  assumes "drop p rule = e # es" and "wf_elems n (class_mode_of e) es"
  shows "\<exists>q. match_loop rule c p found = Some (found \<or> in_ranges (fst (char_class (e # es))) c, q) \<and>
         p < q \<and> q < length rule \<and> snd (char_class (e # es)) = drop q rule \<and> wf_elems n Top (drop q rule)"
  using assms
proof (induction "length es" arbitrary: e es p found rule: less_induct)
  case less
  obtain u us where es: "es = u # us" using less.prems(2) by (cases es) auto
  have d: "drop p rule = e # u # us" using less.prems(1) es by simp
  have p1: "Suc p < length rule" "drop (Suc p) rule = u # us" "drop (Suc (Suc p)) rule = us"
    using d by (auto simp: drop_eq_Cons)
  show ?case
  proof (cases "el_type u = LLAMA_GRETYPE_CHAR_RNG_UPPER")
    case upper: True
    then have w: "wf_elems n In_upper us" using less.prems(2) es by (auto simp: class_mode_of_def split: if_splits)
    then obtain a as where us: "us = a # as" by (cases us) auto
    have len: "Suc (Suc p) < length rule" using p1(3) us by (auto simp: drop_eq_Cons)
    show ?thesis
    proof (cases "el_type a = LLAMA_GRETYPE_CHAR_ALT")
      case alt: True
      have "wf_elems n (class_mode_of a) as" using w us alt by (simp add: class_mode_of_def)
      moreover have "drop (p + 2) rule = a # as" "length as < length es" using p1 es us by auto
      ultimately show ?thesis using upper alt less.hyps[where es=as and p="p + 2" and e=a and found="found \<or> el_value e \<le> c \<and> c \<le> el_value u"] us es
        by (auto simp add: match_loop_step[OF d] split: prod.split)
    next
      case False
      then have "wf_elems n Top us" using w us by (auto split: llama_gretype.splits)
      then show ?thesis using upper False us es p1(3) len
        by (simp add: match_loop_step[OF d] Let_def) 
    qed
  next
    case exact: False
    show ?thesis
    proof (cases "el_type u = LLAMA_GRETYPE_CHAR_ALT")
      case alt: True
      then have "wf_elems n (class_mode_of u) us" using less.prems(2) es by (simp add: class_mode_of_def split: if_splits)
      moreover have "drop (p + 1) rule = u # us" "length us < length es" using p1 es by auto
      ultimately show ?thesis using exact alt less.hyps[where es=us and p="p + 1" and e=u and found="el_type e = LLAMA_GRETYPE_CHAR_ANY \<or> found \<or> el_value e = c"] es
        by (auto simp add: match_loop_step[OF d] split: prod.split)
    next
      case False
      then have "wf_elems n Top es" using less.prems(2) es exact
        by (auto simp: class_mode_of_def split: if_splits llama_gretype.splits)
      then show ?thesis using exact False es p1 by (auto simp: match_loop_step[OF d] Let_def)
    qed
  qed
qed

text \<open>A character element matches exactly the code points of its class, or exactly the others.\<close>

definition is_char_start :: "llama_gretype \<Rightarrow> bool" where
  "is_char_start t \<longleftrightarrow> is_positive_char t \<or> t = LLAMA_GRETYPE_CHAR_NOT"

definition in_class :: "llama_grammar_rules \<Rightarrow> element_pos \<Rightarrow> cpt \<Rightarrow> bool" where
  "in_class rules pos c \<longleftrightarrow>
     (case element_at rules pos of
        None \<Rightarrow> False
      | Some e \<Rightarrow> is_char_start (el_type e) \<and> in_ranges (class_at rules pos) c = is_positive_char (el_type e))"

lemma char_start_mode:
  "wf_elems n Top (e # es) \<Longrightarrow> is_char_start (el_type e) \<Longrightarrow> wf_elems n (class_mode_of e) es"
  by (auto simp: is_char_start_def class_mode_of_def split: llama_gretype.splits)

lemma match_char_in_class:
  assumes "pos_ok rules pos" "element_at rules pos = Some e" "is_char_start (el_type e)"
  shows "llama_grammar_match_char rules pos c = Some (in_class rules pos c, class_end rules pos)"
    and "pos_ok rules (class_end rules pos)"
proof -
  let ?rule = "rules ! fst pos"
  obtain es where es: "fst pos < length rules" "drop (snd pos) ?rule = e # es" "wf_elems (length rules) Top (e # es)"
    using assms(1,2) by (elim pos_okE) auto
  obtain q where q: "match_loop ?rule c (snd pos) False = Some (in_ranges (fst (char_class (e # es))) c, q)"
      "q < length ?rule" "snd (char_class (e # es)) = drop q ?rule" "wf_elems (length rules) Top (drop q ?rule)"
    using match_loop_class[OF es(2) char_start_mode[OF es(3) assms(3)], of c False] by auto
  have ce: "class_end rules pos = (fst pos, q)" using es q by (simp add: class_end_def)
  show "llama_grammar_match_char rules pos c = Some (in_class rules pos c, class_end rules pos)"
    using assms(2,3) es q
    by (simp add: llama_grammar_match_char_def monad_simps ce in_class_def class_at_def is_char_start_def)
  show "pos_ok rules (class_end rules pos)" using es(1) q(4) by (simp add: ce pos_ok_def)
qed

lemma partial_loop_step:
  assumes "drop p rule = e # u # es"
  shows "partial_loop rule low high positive p =
     (if el_type u = LLAMA_GRETYPE_CHAR_RNG_UPPER then
        (if el_value e \<le> high \<and> low \<le> el_value u then Some positive
         else case es of [] \<Rightarrow> None
              | a # _ \<Rightarrow> if el_type a = LLAMA_GRETYPE_CHAR_ALT then partial_loop rule low high positive (p + 2)
                        else Some (\<not> positive))
      else if el_type e = LLAMA_GRETYPE_CHAR_ANY then Some True
      else if low \<le> el_value e \<and> el_value e \<le> high then Some positive
      else if el_type u = LLAMA_GRETYPE_CHAR_ALT then partial_loop rule low high positive (p + 1)
      else Some (\<not> positive))"
proof -
  have p: "p < length rule" "rule ! p = e" "Suc p < length rule" "rule ! Suc p = u" "drop (Suc (Suc p)) rule = es"
    using assms by (auto simp: drop_eq_Cons)
  show ?thesis
  proof (cases es)
    case Nil
    with p have "\<not> Suc (Suc p) < length rule" by auto
    then show ?thesis using p Nil by (subst partial_loop.simps) (simp add: Let_def)
  next
    case (Cons a as)
    with p have "Suc (Suc p) < length rule" "rule ! Suc (Suc p) = a" by (auto simp: drop_eq_Cons)
    then show ?thesis using p Cons by (subst partial_loop.simps) (simp add: Let_def)
  qed
qed

text \<open>The partial match decides whether some range of the class meets the possible completions.\<close>

definition meets :: "(cpt \<times> cpt) list \<Rightarrow> cpt \<Rightarrow> cpt \<Rightarrow> bool" where
  "meets ranges low high \<longleftrightarrow> (\<exists>(a, b) \<in> set ranges. a \<le> high \<and> low \<le> b)"

lemma meets_simps [simp]:
  "\<not> meets [] low high"
  "meets ((a, b) # rs) low high \<longleftrightarrow> a \<le> high \<and> low \<le> b \<or> meets rs low high"
  by (auto simp: meets_def)

lemma partial_loop_class:
  assumes "drop p rule = e # es" and "wf_elems n (class_mode_of e) es"
    and "el_type e = LLAMA_GRETYPE_CHAR_ANY \<longrightarrow> positive"
  shows "partial_loop rule low high positive p = Some (meets (fst (char_class (e # es))) low high = positive)"
  using assms
proof (induction "length es" arbitrary: e es p rule: less_induct)
  case less
  obtain u us where es: "es = u # us" using less.prems(2) by (cases es) auto
  have d: "drop p rule = e # u # us" using less.prems(1) es by simp
  have p1: "drop (p + 1) rule = u # us" "drop (p + 2) rule = us" "length us < length es"
    using d es by (auto simp: drop_eq_Cons)
  show ?case
  proof (cases "el_type u = LLAMA_GRETYPE_CHAR_RNG_UPPER")
    case upper: True
    then have w: "wf_elems n In_upper us" using less.prems(2) es by (auto simp: class_mode_of_def split: if_splits)
    then obtain a as where us: "us = a # as" by (cases us) auto
    have "el_type a = LLAMA_GRETYPE_CHAR_ALT \<Longrightarrow> wf_elems n (class_mode_of a) as" 
      using w us by (simp add: class_mode_of_def)
    then show ?thesis using upper less.hyps[where es=as and p="p + 2" and e=a] us es p1
      by (auto simp add: partial_loop_step[OF d] split: prod.split)
  next
    case exact: False
    have "el_type u = LLAMA_GRETYPE_CHAR_ALT \<Longrightarrow> wf_elems n (class_mode_of u) us"
      using less.prems(2) es by (simp add: class_mode_of_def split: if_splits)
    then show ?thesis using exact less.hyps[where es=us and p="p + 1" and e=u] es p1 less.prems(3)
      by (auto simp add: partial_loop_step[OF d] split: prod.split)
  qed
qed

text \<open>
  A plain class matches an open sequence when one of its ranges meets what the sequence can complete to, an inverse
  class when none does: one that excludes only some of the possible completions is taken not to match.
\<close>

definition partial_in_class :: "llama_grammar_rules \<Rightarrow> element_pos \<Rightarrow> llama_partial_utf8 \<Rightarrow> bool" where
  "partial_in_class rules pos p \<longleftrightarrow>
     (case element_at rules pos of
        None \<Rightarrow> False
      | Some e \<Rightarrow> is_char_start (el_type e) \<and> \<not> (pu_n_remain p < 0 \<or> (pu_n_remain p = 1 \<and> pu_value p < 2)) \<and>
          meets (class_at rules pos) (partial_low p) (partial_high p) = is_positive_char (el_type e))"

lemma match_partial_char_class:
  assumes "pos_ok rules pos" "element_at rules pos = Some e" "is_char_start (el_type e)"
  shows "llama_grammar_match_partial_char rules pos p = Some (partial_in_class rules pos p)"
proof -
  obtain es where es: "fst pos < length rules" "drop (snd pos) (rules ! fst pos) = e # es" "wf_elems (length rules) Top (e # es)"
    using assms(1,2) by (elim pos_okE) auto
  show ?thesis using assms(2,3) es(1,2)
    by (simp add: llama_grammar_match_partial_char_def class_at_def is_char_start_def partial_in_class_def
        partial_loop_class[OF es(2) char_start_mode[OF es(3) assms(3)]])
qed

end
