(* ===== verification/GrammarLang.thy ===== *)
theory GrammarLang
  imports GrammarLaws
begin

text \<open>
  The language of a grammar, defined on its derivations, and the stacks as a parser for it: advancing a
  stack keeps its language, and accepting a character takes the derivative of it.
\<close>

section \<open>The alternates of a rule\<close>

definition alt_starts :: "llama_grammar_rule \<Rightarrow> nat set" where
  "alt_starts rule = {i. i = 0 \<or> (i \<le> length rule \<and> el_type (rule ! (i - 1)) = LLAMA_GRETYPE_ALT)}"

lemma scan_end_wf:
  assumes "wf_elems n m (drop i rule)"
  shows "\<exists>j. scan_end rule i = Some j \<and> i \<le> j \<and> j < length rule \<and> (\<forall>k. i \<le> k \<and> k < j \<longrightarrow> \<not> is_end_type (el_type (rule ! k))) \<and>
     (if el_type (rule ! j) = LLAMA_GRETYPE_ALT then wf_elems n Top (drop (j + 1) rule)
      else el_type (rule ! j) = LLAMA_GRETYPE_END \<and> j + 1 = length rule)"
  using assms
proof (induction rule i arbitrary: m rule: scan_end.induct)
  case (1 rule i)
  obtain e es where d: "drop i rule = e # es" using 1(2) by (cases "drop i rule") auto
  then have i: "i < length rule" "rule ! i = e" "drop (Suc i) rule = es" by (auto simp: drop_eq_Cons)
  show ?case
  proof (cases "is_end_type (el_type e)")
    case True
    then show ?thesis using 1(2) d i
      by (subst scan_end.simps) (auto split: llama_gretype.splits)
  next
    case False
    then obtain m' where "wf_elems n m' (drop (i + 1) rule)"
      using 1(2) d i by (auto split: llama_gretype.splits)
    from 1(1)[OF i(1) _ this] False i obtain j where
      j: "scan_end rule (i + 1) = Some j" "i + 1 \<le> j" "j < length rule" "\<forall>k. i + 1 \<le> k \<and> k < j \<longrightarrow> \<not> is_end_type (el_type (rule ! k))"
         "if el_type (rule ! j) = LLAMA_GRETYPE_ALT then wf_elems n Top (drop (j + 1) rule)
          else el_type (rule ! j) = LLAMA_GRETYPE_END \<and> j + 1 = length rule" by auto
    moreover have "\<not> is_end_type (el_type (rule ! k))" if "i \<le> k" "k < j" for k
      using that j(4) False i(2) by (cases "k = i") auto
    ultimately show ?thesis using i False by (subst scan_end.simps) auto
  qed
qed

lemma alternates_wf:
  assumes "wf_elems n Top (drop i rule)"
  shows "\<exists>subs. alternates rule i = Some subs \<and>
     set subs = {j. j = i \<or> (i < j \<and> j \<le> length rule \<and> el_type (rule ! (j - 1)) = LLAMA_GRETYPE_ALT)} \<and>
     (\<forall>j \<in> set subs. wf_elems n Top (drop j rule))"
  using assms
proof (induction rule i rule: alternates.induct)
  case (1 rule i)
  obtain e where e: "scan_end rule i = Some e" "i \<le> e" "e < length rule"
      "\<forall>k. i \<le> k \<and> k < e \<longrightarrow> \<not> is_end_type (el_type (rule ! k))"
      "if el_type (rule ! e) = LLAMA_GRETYPE_ALT then wf_elems n Top (drop (e + 1) rule)
       else el_type (rule ! e) = LLAMA_GRETYPE_END \<and> e + 1 = length rule"
    using scan_end_wf[OF 1(2)] by auto
  have inside: "el_type (rule ! k) \<noteq> LLAMA_GRETYPE_ALT" if "i \<le> k" "k < e" for k
    using e(4) that by fastforce
  have split: "j = i \<or> (i < j \<and> j \<le> length rule \<and> el_type (rule ! (j - 1)) = LLAMA_GRETYPE_ALT) \<longleftrightarrow>
      j = i \<or> (e < j \<and> j \<le> length rule \<and> el_type (rule ! (j - 1)) = LLAMA_GRETYPE_ALT)" for j
    using inside[of "j - 1"] e(2) by (cases "i < j"; cases "e < j") auto
  show ?case
  proof (cases "el_type (rule ! e) = LLAMA_GRETYPE_ALT")
    case True
    with e(5) 1(1)[OF e(1) True] obtain subs where subs: "alternates rule (e + 1) = Some subs"
        "set subs = {j. j = e + 1 \<or> (e + 1 < j \<and> j \<le> length rule \<and> el_type (rule ! (j - 1)) = LLAMA_GRETYPE_ALT)}"
        "\<forall>j \<in> set subs. wf_elems n Top (drop j rule)" by auto
    have "j = e + 1 \<or> (e + 1 < j \<and> j \<le> length rule \<and> el_type (rule ! (j - 1)) = LLAMA_GRETYPE_ALT) \<longleftrightarrow>
        e < j \<and> j \<le> length rule \<and> el_type (rule ! (j - 1)) = LLAMA_GRETYPE_ALT" for j
      using True e(3) by (cases "j = e + 1") auto
    with subs have "set subs = {j. e < j \<and> j \<le> length rule \<and> el_type (rule ! (j - 1)) = LLAMA_GRETYPE_ALT}" by simp
    moreover have "alternates rule i = Some (i # subs)" using e(1) True subs(1) by (subst alternates.simps) simp
    ultimately show ?thesis using subs(3) 1(2) by (simp only: split) auto
  next
    case False
    then have "e + 1 = length rule" using e(5) by simp
    moreover have "alternates rule i = Some [i]" using False e(1) by (subst alternates.simps) simp
    moreover have "\<not> (e < j \<and> j \<le> length rule \<and> el_type (rule ! (j - 1)) = LLAMA_GRETYPE_ALT)" for j
    proof (cases "j = e + 1")
      case True
      with False show ?thesis by simp
    qed (use \<open>e + 1 = length rule\<close> in auto)
    ultimately show ?thesis using 1(2) by (simp only: split) auto
  qed
qed

lemma rule_alternates:
  assumes "rules_ok rules" "k < length rules"
  shows "\<exists>subs. alternates (rules ! k) 0 = Some subs \<and> set subs = alt_starts (rules ! k) \<and> (\<forall>i \<in> set subs. pos_ok rules (k, i))"
proof -
  have "wf_elems (length rules) Top (drop 0 (rules ! k))" using assms by (simp add: rules_ok_def)
  from alternates_wf[OF this] show ?thesis using assms(2) by (auto simp: alt_starts_def pos_ok_def)
qed

lemma alt_starts_nonempty: "0 \<in> alt_starts rule"
  by (simp add: alt_starts_def)

section \<open>Derivations\<close>

text \<open>The words that the elements from a position to the end of its alternate derive.\<close>

inductive gen :: "llama_grammar_rules \<Rightarrow> element_pos \<Rightarrow> cpt list \<Rightarrow> bool" for rules where
  gen_end: "llama_grammar_is_end_of_sequence rules pos = Some True \<Longrightarrow> gen rules pos []"
| gen_ref: "element_at rules pos = Some e \<Longrightarrow> el_type e = LLAMA_GRETYPE_RULE_REF \<Longrightarrow> k = unat (el_value e) \<Longrightarrow>
    k < length rules \<Longrightarrow> i \<in> alt_starts (rules ! k) \<Longrightarrow> gen rules (k, i) u \<Longrightarrow> gen rules (next_pos pos) v \<Longrightarrow>
    gen rules pos (u @ v)"
| gen_char: "in_class rules pos c \<Longrightarrow> gen rules (class_end rules pos) v \<Longrightarrow> gen rules pos (c # v)"

definition rule_lang :: "llama_grammar_rules \<Rightarrow> nat \<Rightarrow> cpt list \<Rightarrow> bool" where
  "rule_lang rules k w \<longleftrightarrow> (\<exists>i \<in> alt_starts (rules ! k). gen rules (k, i) w)"

text \<open>The words that a stack still accepts.\<close>

fun stack_lang :: "llama_grammar_rules \<Rightarrow> llama_grammar_stack \<Rightarrow> cpt list \<Rightarrow> bool" where
  "stack_lang rules [] w \<longleftrightarrow> w = []"
| "stack_lang rules (pos # rest) w \<longleftrightarrow> (\<exists>u v. w = u @ v \<and> gen rules pos u \<and> stack_lang rules rest v)"

definition stacks_lang :: "llama_grammar_rules \<Rightarrow> llama_grammar_stacks \<Rightarrow> cpt list \<Rightarrow> bool" where
  "stacks_lang rules stacks w \<longleftrightarrow> (\<exists>stack \<in> set stacks. stack_lang rules stack w)"

definition ends_in_terminal :: "llama_grammar_rules \<Rightarrow> llama_grammar_stack \<Rightarrow> bool" where
  "ends_in_terminal rules stack \<longleftrightarrow>
     (case stack of
        [] \<Rightarrow> True
      | pos # _ \<Rightarrow> (\<exists>e. element_at rules pos = Some e \<and> (is_char_start (el_type e) \<or> is_token_type (el_type e))))"

lemma in_classD: "in_class rules pos c \<Longrightarrow> \<exists>e. element_at rules pos = Some e \<and> is_char_start (el_type e)"
  by (auto simp: in_class_def split: option.splits)

lemma kinds_disjoint:
  "is_end_type t \<Longrightarrow> \<not> is_char_start t" "is_end_type t \<Longrightarrow> \<not> is_token_type t" "is_end_type t \<Longrightarrow> t \<noteq> LLAMA_GRETYPE_RULE_REF"
  "is_token_type t \<Longrightarrow> \<not> is_char_start t" "is_token_type t \<Longrightarrow> t \<noteq> LLAMA_GRETYPE_RULE_REF"
  "is_char_start t \<Longrightarrow> t \<noteq> LLAMA_GRETYPE_RULE_REF"
  by (cases t; simp add: is_char_start_def)+

lemma no_class: "element_at rules pos = Some e \<Longrightarrow> \<not> is_char_start (el_type e) \<Longrightarrow> \<not> in_class rules pos c"
  by (simp add: in_class_def)

lemma end_iff: "llama_grammar_is_end_of_sequence rules pos = Some b \<longleftrightarrow> (\<exists>e. element_at rules pos = Some e \<and> is_end_type (el_type e) = b)"
  by (auto simp: llama_grammar_is_end_of_sequence_def)

text \<open>One step of a derivation, by the element it starts at.\<close>

lemma gen_end_iff: "llama_grammar_is_end_of_sequence rules pos = Some True \<Longrightarrow> gen rules pos w \<longleftrightarrow> w = []"
  by (subst gen.simps) (auto simp: end_iff kinds_disjoint no_class)

lemma gen_ref_iff:
  assumes "element_at rules pos = Some e" "el_type e = LLAMA_GRETYPE_RULE_REF"
  shows "gen rules pos w \<longleftrightarrow>
    (\<exists>u v. w = u @ v \<and> unat (el_value e) < length rules \<and> rule_lang rules (unat (el_value e)) u \<and> gen rules (next_pos pos) v)"
    (is "_ \<longleftrightarrow> ?r")
proof
  have no: "\<not> in_class rules pos c" "llama_grammar_is_end_of_sequence rules pos \<noteq> Some True" for c
    using assms by (auto simp: end_iff no_class is_char_start_def)
  assume "gen rules pos w"
  then show ?r
    by (cases rule: gen.cases) (use assms no in \<open>auto simp: rule_lang_def\<close>)
next
  assume ?r
  then obtain u v i where uv: "w = u @ v" "unat (el_value e) < length rules" "i \<in> alt_starts (rules ! unat (el_value e))"
    "gen rules (unat (el_value e), i) u" "gen rules (next_pos pos) v" by (auto simp: rule_lang_def)
  show "gen rules pos w" unfolding uv(1) by (rule gen_ref[OF assms refl uv(2-5)])
qed

lemma gen_char_iff:
  assumes "element_at rules pos = Some e" "is_char_start (el_type e)"
  shows "gen rules pos w \<longleftrightarrow> (\<exists>c v. w = c # v \<and> in_class rules pos c \<and> gen rules (class_end rules pos) v)"
  using assms
  by (subst gen.simps) (auto simp: end_iff kinds_disjoint dest: kinds_disjoint)

lemma gen_token: "element_at rules pos = Some e \<Longrightarrow> is_token_type (el_type e) \<Longrightarrow> \<not> gen rules pos w"
  by (subst gen.simps) (auto simp: end_iff kinds_disjoint no_class dest: kinds_disjoint)

lemma push_pos_lang:
  assumes "push_pos rules pos stack = Some s"
  shows "stack_lang rules s w \<longleftrightarrow> (\<exists>u v. w = u @ v \<and> gen rules pos u \<and> stack_lang rules stack v)"
proof -
  obtain b where b: "llama_grammar_is_end_of_sequence rules pos = Some b" "s = (if b then stack else pos # stack)"
    using assms by (auto simp: push_pos_def monad_simps)
  show ?thesis using b by (cases b) (simp_all add: gen_end_iff)
qed

section \<open>Adding stacks\<close>

text \<open>
  What an operation does to the collection of stacks: it appends good stacks that end in terminals, makes no
  duplicates, and adds the words of a language \<open>L\<close>.
\<close>

definition advances ::
  "llama_grammar_rules \<Rightarrow> (cpt list \<Rightarrow> bool) \<Rightarrow> llama_grammar_stacks \<Rightarrow> llama_grammar_stacks \<Rightarrow> bool" where
  "advances rules L old new \<longleftrightarrow>
     (\<exists>added. new = old @ added \<and> (\<forall>stack \<in> set added. stack_ok rules stack \<and> ends_in_terminal rules stack)) \<and>
     (distinct old \<longrightarrow> distinct new) \<and>
     (\<forall>w. stacks_lang rules new w \<longleftrightarrow> stacks_lang rules old w \<or> L w)"

lemma advances_refl: "advances rules (\<lambda>_. False) old old"
  by (simp add: advances_def)

lemma advances_trans: "advances rules L a b \<Longrightarrow> advances rules M b c \<Longrightarrow> advances rules (\<lambda>w. L w \<or> M w) a c"
  unfolding advances_def by (elim conjE exE, intro conjI exI[where x="_ @ _"]) auto

lemma advances_cong: "advances rules L a b \<Longrightarrow> (\<And>w. L w \<longleftrightarrow> M w) \<Longrightarrow> advances rules M a b"
  by (simp add: advances_def)

lemma advances_foldM:
  assumes "foldM f xs a = Some b" "\<And>x a b. x \<in> set xs \<Longrightarrow> f x a = Some b \<Longrightarrow> advances rules (L x) a b"
  shows "advances rules (\<lambda>w. \<exists>x \<in> set xs. L x w) a b"
  using assms
proof (induction xs arbitrary: a)
  case (Cons x xs)
  then obtain c where c: "f x a = Some c" "foldM f xs c = Some b" by (auto simp: bind_eq_Some_conv)
  have "advances rules (L x) a c" using Cons.prems(2) c(1) by simp
  moreover have "advances rules (\<lambda>w. \<exists>x \<in> set xs. L x w) c b" using Cons.IH[OF c(2)] Cons.prems(2) by simp
  ultimately show ?case by (auto intro: advances_cong[OF advances_trans])
qed (simp add: advances_refl)

lemma advances_add_stack:
  "stack_ok rules stack \<Longrightarrow> ends_in_terminal rules stack \<Longrightarrow> advances rules (stack_lang rules stack) old (add_stack stack old)"
  by (auto simp: advances_def add_stack_def stacks_lang_def)

lemma push_pos_stack_ok: "push_pos rules pos stack = Some s \<Longrightarrow> pos_ok rules pos \<Longrightarrow> stack_ok rules stack \<Longrightarrow> stack_ok rules s"
  by (auto simp: push_pos_def monad_simps stack_ok_def split: if_splits)

lemma terminal_element: "is_positive_char t \<or> t = LLAMA_GRETYPE_CHAR_NOT \<or> is_token_type t \<longleftrightarrow> is_char_start t \<or> is_token_type t"
  by (auto simp: is_char_start_def)

text \<open>Induction on the expansions that an advance makes.\<close>

lemma advance_stack_induct:
  assumes "llama_grammar_advance_stack rules stack old = Some new" "rules_ok rules" "stack_ok rules stack"
    and T: "\<And>stack old. stack_ok rules stack \<Longrightarrow> ends_in_terminal rules stack \<Longrightarrow> P stack old (add_stack stack old)"
    and R: "\<And>pos rest e k f subs old new. stack_ok rules (pos # rest) \<Longrightarrow> element_at rules pos = Some e \<Longrightarrow>
      el_type e = LLAMA_GRETYPE_RULE_REF \<Longrightarrow> k = unat (el_value e) \<Longrightarrow> k < length rules \<Longrightarrow>
      set subs = alt_starts (rules ! k) \<Longrightarrow> foldM f subs old = Some new \<Longrightarrow>
      (\<And>i a b. i \<in> set subs \<Longrightarrow> f i a = Some b \<Longrightarrow>
        \<exists>s1 s2. push_pos rules (next_pos pos) rest = Some s1 \<and> push_pos rules (k, i) s1 = Some s2 \<and> P s2 a b) \<Longrightarrow>
      P (pos # rest) old new"
  shows "P stack old new"
proof -
  have "rs = rules \<longrightarrow> stack_ok rules stack \<longrightarrow> P stack old new" if adv: "llama_grammar_advance_stack rs stack old = Some new" for rs
  proof (rule llama_grammar_advance_stack.raw_induct[OF _ adv], goal_cases)
    case (1 adv rs stack old new)
    show ?case
    proof (intro impI)
      assume rs: "rs = rules" and ok: "stack_ok rules stack"
      show "P stack old new"
      proof (cases stack)
        case Nil
        with 1(2) T[of "[]" old] show ?thesis by (simp add: stack_ok_def ends_in_terminal_def)
      next
        case (Cons pos rest)
        have pos: "pos_ok rules pos" and rest: "stack_ok rules rest" using ok Cons by (auto simp: stack_ok_def)
        obtain e where e: "element_at rules pos = Some e" using pos by (elim pos_okE)
        show ?thesis
        proof (cases "el_type e = LLAMA_GRETYPE_RULE_REF")
          case True
          let ?k = "unat (el_value e)"
          have k: "?k < length rules" using ref_in_range[OF pos e True] .
          obtain subs where subs: "alternates (rules ! ?k) 0 = Some subs" "set subs = alt_starts (rules ! ?k)"
              "\<And>i. i \<in> set subs \<Longrightarrow> pos_ok rules (?k, i)"
            using rule_alternates[OF assms(2) k] by auto
          have next_ok: "pos_ok rules (next_pos pos)" using next_pos_ok[OF pos e] True by simp
          let ?f = "\<lambda>sub new_stacks. do {
                new_stack \<leftarrow> push_pos rules (next_pos pos) rest;
                new_stack \<leftarrow> push_pos rules (?k, sub) new_stack;
                adv rules new_stack new_stacks }"
          have "foldM ?f subs old = Some new" using 1(2) by (simp add: rs Cons e True k subs(1))
          then have "P (pos # rest) old new"
          proof (rule R[OF ok[unfolded Cons] e True refl k subs(2)])
            fix i a b
            assume i: "i \<in> set subs" and "?f i a = Some b"
            then obtain s1 s2 where s: "push_pos rules (next_pos pos) rest = Some s1" "push_pos rules (?k, i) s1 = Some s2"
                "adv rules s2 a = Some b" by (auto simp: bind_eq_Some_conv)
            have "stack_ok rules s2"
              by (intro push_pos_stack_ok[OF s(2)] push_pos_stack_ok[OF s(1)] subs(3) i next_ok rest)
            with 1(1)[OF s(3)] s show "\<exists>s1 s2. push_pos rules (next_pos pos) rest = Some s1 \<and>
              push_pos rules (?k, i) s1 = Some s2 \<and> P s2 a b" by simp
          qed
          then show ?thesis by (simp add: Cons)
        next
          case False
          then have "is_char_start (el_type e) \<or> is_token_type (el_type e)" "new = add_stack stack old"
            using 1(2) by (auto simp: rs Cons e terminal_element split: if_splits)
          then show ?thesis using T[OF ok] by (simp add: ends_in_terminal_def Cons e)
        qed
      qed
    qed
  qed
  with assms show ?thesis by simp
qed

lemma advance_stack_advances:
  assumes "llama_grammar_advance_stack rules stack old = Some new" "rules_ok rules" "stack_ok rules stack"
  shows "advances rules (stack_lang rules stack) old new"
  using assms
proof (rule advance_stack_induct)
  fix pos rest e k f subs old new
  assume e: "element_at rules pos = Some e" "el_type e = LLAMA_GRETYPE_RULE_REF" and k: "k = unat (el_value e)" "k < length rules"
    and subs: "set subs = alt_starts (rules ! k)" and fold: "foldM f subs old = Some new"
    and step: "\<And>i a b. i \<in> set subs \<Longrightarrow> f i a = Some b \<Longrightarrow> \<exists>s1 s2. push_pos rules (next_pos pos) rest = Some s1 \<and>
      push_pos rules (k, i) s1 = Some s2 \<and> advances rules (stack_lang rules s2) a b"
  let ?L = "\<lambda>i w. \<exists>u v. w = u @ v \<and> gen rules (k, i) u \<and>
    (\<exists>u' v'. v = u' @ v' \<and> gen rules (next_pos pos) u' \<and> stack_lang rules rest v')"
  have each: "advances rules (?L i) a b" if i: "i \<in> set subs" "f i a = Some b" for i a b
  proof -
    obtain s1 s2 where s: "push_pos rules (next_pos pos) rest = Some s1" "push_pos rules (k, i) s1 = Some s2"
      "advances rules (stack_lang rules s2) a b" using step[OF i] by blast
    show ?thesis by (rule advances_cong[OF s(3)]) (simp add: push_pos_lang[OF s(2)] push_pos_lang[OF s(1)])
  qed
  have "advances rules (\<lambda>w. \<exists>i \<in> set subs. ?L i w) old new" by (rule advances_foldM[OF fold]) (rule each)
  then show "advances rules (stack_lang rules (pos # rest)) old new"
    by (rule advances_cong) (use k subs in \<open>simp add: gen_ref_iff[OF e] rule_lang_def, metis append.assoc\<close>)
qed (rule advances_add_stack)

text \<open>The stacks that expanding the reference on top leads to, until a terminal is on top.\<close>

inductive expands :: "llama_grammar_rules \<Rightarrow> llama_grammar_stack \<Rightarrow> llama_grammar_stack \<Rightarrow> bool" for rules where
  expands_terminal: "ends_in_terminal rules stack \<Longrightarrow> expands rules stack stack"
| expands_ref: "element_at rules pos = Some e \<Longrightarrow> el_type e = LLAMA_GRETYPE_RULE_REF \<Longrightarrow> k = unat (el_value e) \<Longrightarrow>
    i \<in> alt_starts (rules ! k) \<Longrightarrow> push_pos rules (next_pos pos) rest = Some s1 \<Longrightarrow>
    push_pos rules (k, i) s1 = Some s2 \<Longrightarrow> expands rules s2 t \<Longrightarrow> expands rules (pos # rest) t"

lemma expands_terminal_iff:
  assumes "ends_in_terminal rules stack"
  shows "expands rules stack t \<longleftrightarrow> t = stack"
proof
  assume "expands rules stack t"
  then show "t = stack"
  proof cases
    case (expands_ref pos e k i rest s1 s2)
    with assms show ?thesis by (auto simp: ends_in_terminal_def kinds_disjoint dest: kinds_disjoint)
  qed simp
qed (simp add: assms expands_terminal)

lemma foldM_set_union:
  assumes "foldM f xs a = Some b" "\<And>x a b. x \<in> set xs \<Longrightarrow> f x a = Some b \<Longrightarrow> set b = set a \<union> A x"
  shows "set b = set a \<union> (\<Union>x \<in> set xs. A x)"
  using assms
proof (induction xs arbitrary: a)
  case (Cons x xs)
  then obtain c where "f x a = Some c" "foldM f xs c = Some b" by (auto simp: bind_eq_Some_conv)
  with Cons show ?case by fastforce
qed simp

lemma advance_stack_expands:
  assumes "llama_grammar_advance_stack rules stack old = Some new" "rules_ok rules" "stack_ok rules stack"
  shows "set new = set old \<union> {t. expands rules stack t}"
  using assms
proof (rule advance_stack_induct)
  fix stack old
  assume "ends_in_terminal rules stack"
  then show "set (add_stack stack old) = set old \<union> {t. expands rules stack t}"
    by (auto simp: expands_terminal_iff add_stack_def)
next
  fix pos rest e k f subs old new
  assume e: "element_at rules pos = Some e" "el_type e = LLAMA_GRETYPE_RULE_REF" and k: "k = unat (el_value e)" "k < length rules"
    and subs: "set subs = alt_starts (rules ! k)" and fold: "foldM f subs old = Some new"
    and step: "\<And>i a b. i \<in> set subs \<Longrightarrow> f i a = Some b \<Longrightarrow> \<exists>s1 s2. push_pos rules (next_pos pos) rest = Some s1 \<and>
      push_pos rules (k, i) s1 = Some s2 \<and> set b = set a \<union> {t. expands rules s2 t}"
  let ?A = "\<lambda>i. {t. \<exists>s1 s2. push_pos rules (next_pos pos) rest = Some s1 \<and> push_pos rules (k, i) s1 = Some s2 \<and> expands rules s2 t}"
  have "set new = set old \<union> (\<Union>i \<in> set subs. ?A i)"
    by (rule foldM_set_union[OF fold]) (use step in fastforce)
  moreover have "expands rules (pos # rest) t \<longleftrightarrow> (\<exists>i \<in> set subs. t \<in> ?A i)" for t
  proof
    have no: "\<not> ends_in_terminal rules (pos # rest)" using e by (auto simp: ends_in_terminal_def is_char_start_def)
    assume "expands rules (pos # rest) t"
    then show "\<exists>i \<in> set subs. t \<in> ?A i"
    proof (cases rule: expands.cases)
      case expands_terminal
      with no show ?thesis by simp
    next
      case (expands_ref e' k' i s1 s2)
      then have "k' = k" using e(1) k(1) by simp
      then show ?thesis using expands_ref subs by blast
    qed
  next
    assume "\<exists>i \<in> set subs. t \<in> ?A i"
    then show "expands rules (pos # rest) t" using expands_ref[OF e k(1)] subs by blast
  qed
  ultimately show "set new = set old \<union> {t. expands rules (pos # rest) t}" by auto
qed

lemma advance_stack_nonempty:
  assumes "llama_grammar_advance_stack rules stack old = Some new" "rules_ok rules" "stack_ok rules stack"
  shows "new \<noteq> []"
  using assms
proof (rule advance_stack_induct)
  fix pos rest e k f subs old new
  assume "set subs = alt_starts (rules ! k)" and fold: "foldM f subs old = Some new"
    and step: "\<And>i a b. i \<in> set subs \<Longrightarrow> f i a = Some b \<Longrightarrow> \<exists>s1 s2. push_pos rules (next_pos pos) rest = Some s1 \<and>
      push_pos rules (k, i) s1 = Some s2 \<and> b \<noteq> []"
  then obtain us i where "subs = us @ [i]" using alt_starts_nonempty[of "rules ! k"] by (metis empty_iff empty_set rev_exhaust)
  with fold step show "new \<noteq> []" by (auto simp: foldM_snoc bind_eq_Some_conv)
qed (auto simp: add_stack_def)

section \<open>Accepting\<close>

definition stacks_good :: "llama_grammar_rules \<Rightarrow> llama_grammar_stacks \<Rightarrow> bool" where
  "stacks_good rules stacks \<longleftrightarrow>
     distinct stacks \<and> (\<forall>stack \<in> set stacks. stack_ok rules stack \<and> ends_in_terminal rules stack)"

lemma advances_good: "advances rules L [] new \<Longrightarrow> stacks_good rules new \<and> (\<forall>w. stacks_lang rules new w \<longleftrightarrow> L w)"
  by (auto simp: advances_def stacks_good_def stacks_lang_def)

lemma accept_chr_advances:
  assumes "llama_grammar_accept_chr rules stack c old = Some new" "rules_ok rules" "stack_ok rules stack"
    "ends_in_terminal rules stack"
  shows "advances rules (\<lambda>w. stack_lang rules stack (c # w)) old new"
proof (cases stack)
  case Nil
  then show ?thesis using assms(1) by (simp add: llama_grammar_accept_chr_def advances_refl)
next
  case (Cons pos rest)
  obtain e where e: "element_at rules pos = Some e" "is_char_start (el_type e) \<or> is_token_type (el_type e)"
    using assms(4) Cons by (auto simp: ends_in_terminal_def)
  show ?thesis
  proof (cases "is_token_type (el_type e)")
    case True
    then show ?thesis using assms(1) e(1) Cons
      by (simp add: llama_grammar_accept_chr_def gen_token advances_refl)
  next
    case False
    then have ch: "is_char_start (el_type e)" using e(2) by simp
    have pos: "pos_ok rules pos" and rest: "stack_ok rules rest" using assms(3) Cons by (auto simp: stack_ok_def)
    note m = match_char_in_class[OF pos e(1) ch]
    have lang: "stack_lang rules stack (c # w) \<longleftrightarrow>
        in_class rules pos c \<and> (\<exists>u v. w = u @ v \<and> gen rules (class_end rules pos) u \<and> stack_lang rules rest v)" for w
      by (auto simp: Cons gen_char_iff[OF e(1) ch] Cons_eq_append_conv)
    show ?thesis
    proof (cases "in_class rules pos c")
      case True
      then obtain s where s: "push_pos rules (class_end rules pos) rest = Some s"
          "llama_grammar_advance_stack rules s old = Some new"
        using assms(1) Cons e(1) False by (auto simp: llama_grammar_accept_chr_def m(1) bind_eq_Some_conv)
      from advance_stack_advances[OF s(2) assms(2) push_pos_stack_ok[OF s(1) m(2) rest]]
      show ?thesis by (rule advances_cong) (simp add: lang True push_pos_lang[OF s(1)])
    next
      case out: False
      then have "new = old" using assms(1) Cons e(1) False by (simp add: llama_grammar_accept_chr_def m(1))
      moreover have "advances rules (\<lambda>w. stack_lang rules stack (c # w)) old old"
        by (rule advances_cong[OF advances_refl]) (simp only: lang out simp_thms)
      ultimately show ?thesis by simp
    qed
  qed
qed

lemma accept_chr_stacks_lang:
  assumes "accept_chr_stacks rules c stacks = Some new" "rules_ok rules" "stacks_good rules stacks"
  shows "stacks_good rules new \<and> (\<forall>w. stacks_lang rules new w \<longleftrightarrow> stacks_lang rules stacks (c # w))"
proof -
  have "advances rules (\<lambda>w. \<exists>stack \<in> set stacks. stack_lang rules stack (c # w)) [] new"
    by (rule advances_foldM[OF assms(1)[unfolded accept_chr_stacks_def]])
      (use assms(2,3) in \<open>auto intro!: accept_chr_advances simp: stacks_good_def\<close>)
  from advances_good[OF this] show ?thesis by (simp add: stacks_lang_def)
qed

lemma accept_code_points_lang:
  assumes "accept_code_points rules cs stacks = Some new" "rules_ok rules" "stacks_good rules stacks"
  shows "stacks_good rules new \<and> (\<forall>w. stacks_lang rules new w \<longleftrightarrow> stacks_lang rules stacks (cs @ w))"
  using assms
proof (induction rules cs stacks rule: accept_code_points.induct)
  case (2 rules c cs stacks)
  from 2(2) obtain next_stacks where n: "accept_chr_stacks rules c stacks = Some next_stacks"
      "new = [] \<and> next_stacks = [] \<or> next_stacks \<noteq> [] \<and> accept_code_points rules cs next_stacks = Some new"
    by (auto simp: bind_eq_Some_conv split: if_splits)
  note l = accept_chr_stacks_lang[OF n(1) 2(3,4)]
  show ?case
  proof (cases "next_stacks = []")
    case True
    then have "\<not> stacks_lang rules stacks (c # w)" for w using l by (metis empty_iff empty_set stacks_lang_def)
    then show ?thesis using n(2) True by (simp add: stacks_good_def stacks_lang_def)
  next
    case False
    then show ?thesis using 2(1)[OF n(1) False] n(2) 2(3) l by simp
  qed
qed simp

lemma accept_lang:
  assumes "foldM (\<lambda>c g. llama_grammar_accept g c) cs g = Some g'" "rules_ok (gr_rules g)" "stacks_good (gr_rules g) (gr_stacks g)"
  shows "gr_rules g' = gr_rules g \<and> stacks_good (gr_rules g) (gr_stacks g') \<and>
    (\<forall>w. stacks_lang (gr_rules g) (gr_stacks g') w \<longleftrightarrow> stacks_lang (gr_rules g) (gr_stacks g) (cs @ w))"
  using assms
proof (induction cs arbitrary: g)
  case (Cons c cs)
  then obtain ss where ss: "accept_chr_stacks (gr_rules g) c (gr_stacks g) = Some ss"
      "foldM (\<lambda>c g. llama_grammar_accept g c) cs (g\<lparr>gr_stacks := ss\<rparr>) = Some g'"
    by (auto simp: bind_eq_Some_conv llama_grammar_accept_def)
  note l = accept_chr_stacks_lang[OF ss(1) Cons.prems(2,3)]
  from Cons.IH[OF ss(2)] Cons.prems(2) l show ?case by simp
qed simp

text \<open>Among good stacks only the empty one accepts the empty word.\<close>

lemma stack_lang_empty:
  assumes "ends_in_terminal rules stack"
  shows "stack_lang rules stack [] \<longleftrightarrow> stack = []"
proof (cases stack)
  case (Cons pos rest)
  with assms obtain e where e: "element_at rules pos = Some e" "is_char_start (el_type e) \<or> is_token_type (el_type e)"
    by (auto simp: ends_in_terminal_def)
  have "\<not> gen rules pos []" using e(2) gen_char_iff[OF e(1)] gen_token[OF e(1)] by blast
  with Cons show ?thesis by simp
qed simp

lemma stacks_lang_empty: "stacks_good rules stacks \<Longrightarrow> stacks_lang rules stacks [] \<longleftrightarrow> [] \<in> set stacks"
  by (auto simp: stacks_lang_def stacks_good_def stack_lang_empty)

lemma initial_stacks_lang:
  assumes "initial_stacks rules k = Some stacks" "rules_ok rules"
  shows "stacks_good rules stacks \<and> (\<forall>w. stacks_lang rules stacks w \<longleftrightarrow> rule_lang rules k w)"
proof -
  from assms(1) obtain starts where k: "k < length rules" and starts: "alternates (rules ! k) 0 = Some starts"
    and f: "foldM (\<lambda>i stacks. do { stack \<leftarrow> push_pos rules (k, i) []; llama_grammar_advance_stack rules stack stacks }) starts [] = Some stacks"
    by (auto simp: initial_stacks_def bind_eq_Some_conv)
  obtain s: "set starts = alt_starts (rules ! k)" and ok: "\<And>i. i \<in> set starts \<Longrightarrow> pos_ok rules (k, i)"
    using rule_alternates[OF assms(2) k] starts by auto
  have "advances rules (\<lambda>w. \<exists>i \<in> set starts. gen rules (k, i) w) [] stacks"
    using f
  proof (rule advances_foldM)
    fix i a b
    assume i: "i \<in> set starts" and "do { stack \<leftarrow> push_pos rules (k, i) []; llama_grammar_advance_stack rules stack a } = Some b"
    then obtain s where s: "push_pos rules (k, i) [] = Some s" "llama_grammar_advance_stack rules s a = Some b"
      by (auto simp: bind_eq_Some_conv)
    have "stack_ok rules s" by (rule push_pos_stack_ok[OF s(1) ok[OF i]]) (simp add: stack_ok_def)
    from advance_stack_advances[OF s(2) assms(2) this] show "advances rules (gen rules (k, i)) a b"
      by (rule advances_cong) (simp add: push_pos_lang[OF s(1)])
  qed
  from advances_good[OF this] show ?thesis by (simp add: rule_lang_def s)
qed

end
