(* ===== verification/GrammarRec.thy ===== *)
theory GrammarRec
  imports GrammarLang
begin

text \<open>
  The check for left recursion: it ends and finds exactly the cycles of the relation it explores. Advancing a
  stack ends in a grammar without left recursion. The check sees only the rules with an alternate that is
  written empty, so what it passes has no left recursion if all rules that derive the empty word are such.
\<close>

section \<open>The references the check follows\<close>

definition direct_empty :: "llama_grammar_rules \<Rightarrow> nat \<Rightarrow> bool" where
  "direct_empty rules k \<longleftrightarrow> has_empty_alternate (rules ! k) True"

fun left_refs :: "llama_grammar_rules \<Rightarrow> llama_grammar_rule \<Rightarrow> bool \<Rightarrow> nat set" where
  "left_refs rules [] recurse = {}"
| "left_refs rules (e # es) recurse =
     (if el_type e = LLAMA_GRETYPE_RULE_REF \<and> recurse
      then insert (unat (el_value e)) (left_refs rules es (direct_empty rules (unat (el_value e))))
      else left_refs rules es (is_end_type (el_type e)))"

text \<open>A rule is safe when every chain of such references from it ends.\<close>

inductive left_safe :: "llama_grammar_rules \<Rightarrow> nat \<Rightarrow> bool" for rules where
  left_safeI: "(\<And>j. j \<in> left_refs rules (rules ! k) True \<Longrightarrow> left_safe rules j) \<Longrightarrow> left_safe rules k"

definition left_edge :: "llama_grammar_rules \<Rightarrow> nat \<Rightarrow> nat \<Rightarrow> bool" where
  "left_edge rules k j \<longleftrightarrow> j \<in> left_refs rules (rules ! k) True"

lemma left_safeD: "left_safe rules k \<Longrightarrow> left_edge rules k j \<Longrightarrow> left_safe rules j"
  by (cases rule: left_safe.cases) (auto simp: left_edge_def)

lemma left_safe_no_cycle: "left_safe rules k \<Longrightarrow> \<not> (left_edge rules)\<^sup>+\<^sup>+ k k"
proof (induction rule: left_safe.induct)
  case (left_safeI k)
  show ?case
  proof
    assume "(left_edge rules)\<^sup>+\<^sup>+ k k"
    then obtain j where j: "left_edge rules k j" "(left_edge rules)\<^sup>*\<^sup>* j k" by (meson tranclpD)
    then have "(left_edge rules)\<^sup>+\<^sup>+ j j" by (meson rtranclp_into_tranclp1)
    with left_safeI(2)[OF j(1)[unfolded left_edge_def]] show False ..
  qed
qed

lemma left_refs_range: "wf_elems n m es \<Longrightarrow> j \<in> left_refs rules es recurse \<Longrightarrow> j < n"
proof (induction es arbitrary: m recurse)
  case (Cons e es)
  then show ?case by (auto split: if_splits llama_gretype.splits)
qed simp

section \<open>The check ends and is exact\<close>

definition rec_inv :: "llama_grammar_rules \<Rightarrow> bool list \<Rightarrow> recursion_state \<Rightarrow> bool" where
  "rec_inv rules busy rs \<longleftrightarrow>
     rules_in_progress rs = busy \<and> length busy = length rules \<and>
     length (rules_visited rs) = length rules \<and> length (rules_may_be_empty rs) = length rules \<and>
     (\<forall>i < length rules. rules_may_be_empty rs ! i \<longrightarrow> direct_empty rules i) \<and>
     (\<forall>i < length rules. rules_visited rs ! i \<longrightarrow> left_safe rules i)"

definition empties_grow :: "recursion_state \<Rightarrow> recursion_state \<Rightarrow> bool" where
  "empties_grow rs rs' \<longleftrightarrow> (\<forall>i. rules_may_be_empty rs ! i \<longrightarrow> rules_may_be_empty rs' ! i)"

lemma nth_set_True: "xs ! i \<Longrightarrow> xs[k := True] ! i"
  by (cases "k < length xs") (simp_all add: nth_list_update list_update_beyond)

text \<open>What a call of the check on rule \<open>k\<close> does.\<close>

definition detects :: "llama_grammar_rules \<Rightarrow> bool list \<Rightarrow> (nat \<Rightarrow> recursion_state \<Rightarrow> (bool \<times> recursion_state) option) \<Rightarrow> nat \<Rightarrow> bool" where
  "detects rules busy f k \<longleftrightarrow>
     (\<forall>rs. rec_inv rules busy rs \<longrightarrow>
        (\<exists>found rs'. f k rs = Some (found, rs') \<and>
          (if found then \<not> left_safe rules k
           else left_safe rules k \<and> rec_inv rules busy rs' \<and> empties_grow rs rs' \<and>
                rules_may_be_empty rs' ! k = direct_empty rules k)))"

lemma recurse_loop_returned: "foldM (recurse_step f) es (True, r, rs) = Some (True, r, rs)"
  by (induction es) (simp_all add: recurse_step_def)

lemma recurse_loop:
  assumes "rec_inv rules busy rs" "\<And>j. j \<in> left_refs rules es recurse \<Longrightarrow> detects rules busy f j \<and> j < length rules"
  shows "\<exists>found r rs'. foldM (recurse_step f) es (False, recurse, rs) = Some (found, r, rs') \<and>
    (if found then \<exists>j \<in> left_refs rules es recurse. \<not> left_safe rules j
     else (\<forall>j \<in> left_refs rules es recurse. left_safe rules j) \<and> rec_inv rules busy rs' \<and> empties_grow rs rs')"
  using assms
proof (induction es arbitrary: recurse rs)
  case Nil
  then show ?case by (intro exI[of _ False] exI[of _ recurse] exI[of _ rs]) (simp add: empties_grow_def)
next
  case (Cons e es)
  let ?j = "unat (el_value e)"
  show ?case
  proof (cases "el_type e = LLAMA_GRETYPE_RULE_REF \<and> recurse")
    case True
    then have j: "detects rules busy f ?j" "?j < length rules" using Cons.prems(2)[of ?j] by auto
    obtain found rs1 where f: "f ?j rs = Some (found, rs1)"
        "if found then \<not> left_safe rules ?j
         else left_safe rules ?j \<and> rec_inv rules busy rs1 \<and> empties_grow rs rs1 \<and>
              rules_may_be_empty rs1 ! ?j = direct_empty rules ?j"
      using j(1) Cons.prems(1) unfolding detects_def by blast
    show ?thesis
    proof (cases found)
      case found: True
      then have "recurse_step f e (False, recurse, rs) = Some (True, recurse, rs1)"
        using True f(1) by (simp add: recurse_step_def)
      then show ?thesis using True f(2) found
        by (intro exI[of _ True] exI[of _ recurse] exI[of _ rs1]) (simp add: recurse_loop_returned)
    next
      case False
      then have len: "?j < length (rules_may_be_empty rs1)" using f(2) j(2) by (simp add: rec_inv_def)
      have step: "recurse_step f e (False, recurse, rs) = Some (False, direct_empty rules ?j, rs1)"
        using True f False len by (simp add: recurse_step_def)
      have sub: "\<And>j. j \<in> left_refs rules es (direct_empty rules ?j) \<Longrightarrow> detects rules busy f j \<and> j < length rules"
        using Cons.prems(2) True by simp
      have inv1: "rec_inv rules busy rs1" using f(2) False by simp
      obtain fd r rs' where
        "foldM (recurse_step f) es (False, direct_empty rules ?j, rs1) = Some (fd, r, rs')"
        "if fd then \<exists>j \<in> left_refs rules es (direct_empty rules ?j). \<not> left_safe rules j
         else (\<forall>j \<in> left_refs rules es (direct_empty rules ?j). left_safe rules j) \<and> rec_inv rules busy rs' \<and> empties_grow rs1 rs'"
        using Cons.IH[OF inv1 sub] by blast
      then show ?thesis using True f(2) False step by (auto simp: empties_grow_def split: if_splits)
    qed
  next
    case False
    then have refs: "left_refs rules (e # es) recurse = left_refs rules es (is_end_type (el_type e))" by auto
    have "recurse_step f e (False, recurse, rs) = Some (False, is_end_type (el_type e), rs)"
      using False by (auto simp: recurse_step_def)
    then show ?thesis using Cons.IH[OF Cons.prems(1), of "is_end_type (el_type e)"] Cons.prems(2) unfolding refs by simp
  qed
qed

lemma detect_exact:
  assumes "rules_ok rules" "k < length rules" "length busy = length rules"
    and "\<And>a. a < length rules \<Longrightarrow> busy ! a \<Longrightarrow> (left_edge rules)\<^sup>+\<^sup>+ a k"
  shows "detects rules busy (llama_grammar_detect_left_recursion rules) k"
  using assms(2-)
proof (induction "length (filter Not busy)" arbitrary: busy k rule: less_induct)
  case less
  let ?n = "length rules"
  show ?case unfolding detects_def
  proof (intro allI impI)
    fix rs
    assume inv: "rec_inv rules busy rs"
    show "\<exists>found rs'. llama_grammar_detect_left_recursion rules k rs = Some (found, rs') \<and>
          (if found then \<not> left_safe rules k
           else left_safe rules k \<and> rec_inv rules busy rs' \<and> empties_grow rs rs' \<and>
                rules_may_be_empty rs' ! k = direct_empty rules k)"
    proof (cases "busy ! k")
      case True
      then have "llama_grammar_detect_left_recursion rules k rs = Some (True, rs)"
        using inv less.prems by (subst llama_grammar_detect_left_recursion.simps) (simp add: rec_inv_def)
      moreover have "\<not> left_safe rules k" using less.prems(1,3) True left_safe_no_cycle by blast
      ultimately show ?thesis by (intro exI[of _ True] exI[of _ rs]) simp
    next
      case False
      let ?busy = "busy[k := True]"
      let ?empty = "if has_empty_alternate (rules ! k) True then (rules_may_be_empty rs)[k := True] else rules_may_be_empty rs"
      let ?rs = "rs\<lparr>rules_in_progress := ?busy, rules_may_be_empty := ?empty\<rparr>"
      have inv1: "rec_inv rules ?busy ?rs" using inv less.prems
        by (auto simp: rec_inv_def direct_empty_def nth_list_update)
      have "rules ! k \<in> set rules" using less.prems(1) by simp
      then have wf: "wf_elems ?n Top (rules ! k)" using assms(1) by (simp add: rules_ok_def)
      have fewer: "length (filter Not ?busy) < length (filter Not busy)"
        using False less.prems(1,2) by (simp add: length_filter_conv_card psubset_card_mono[OF _ psubsetI] nth_list_update)
          (intro psubset_card_mono, auto simp: nth_list_update)
      have "detects rules ?busy (llama_grammar_detect_left_recursion rules) j \<and> j < ?n"
        if j: "j \<in> left_refs rules (rules ! k) True" for j
      proof
        show j': "j < ?n" using left_refs_range[OF wf j] .
        have edge: "left_edge rules k j" using j by (simp add: left_edge_def)
        show "detects rules ?busy (llama_grammar_detect_left_recursion rules) j"
        proof (rule less.hyps[OF fewer j'])
          show "length ?busy = ?n" using less.prems(2) by simp
          fix a assume "a < ?n" "?busy ! a"
          then have "a = k \<or> (left_edge rules)\<^sup>+\<^sup>+ a k" using less.prems(3)[of a] by (cases "a = k") auto
          then show "(left_edge rules)\<^sup>+\<^sup>+ a j" using edge by (auto intro: tranclp.trancl_into_trancl)
        qed
      qed
      from recurse_loop[OF inv1 this] obtain found r rs1 where loop:
        "foldM (recurse_step (llama_grammar_detect_left_recursion rules)) (rules ! k) (False, True, ?rs) = Some (found, r, rs1)"
        "if found then \<exists>j \<in> left_refs rules (rules ! k) True. \<not> left_safe rules j
         else (\<forall>j \<in> left_refs rules (rules ! k) True. left_safe rules j) \<and> rec_inv rules ?busy rs1 \<and> empties_grow ?rs rs1"
        by blast
      have unfold: "llama_grammar_detect_left_recursion rules k rs =
          (if found then Some (True, rs1)
           else do {
             busy \<leftarrow> set_at (rules_in_progress rs1) k False;
             visited \<leftarrow> set_at (rules_visited rs1) k True;
             Some (False, rs1\<lparr>rules_in_progress := busy, rules_visited := visited\<rparr>)
           })"
      proof -
        have "at (rules_in_progress rs) k = Some False" "set_at (rules_in_progress rs) k True = Some ?busy"
            "at rules k = Some (rules ! k)"
            "(if has_empty_alternate (rules ! k) True then set_at (rules_may_be_empty rs) k True
              else Some (rules_may_be_empty rs)) = Some ?empty"
          using inv less.prems(1) False by (simp_all add: rec_inv_def set_at_def)
        then show ?thesis
          by (subst llama_grammar_detect_left_recursion.simps) (simp only: Option.bind.bind_lunit if_False loop(1) prod.case)
      qed
      show ?thesis
      proof (cases found)
        case True
        then have "\<not> left_safe rules k" using loop(2) left_safeD by (auto simp: left_edge_def)
        with unfold True show ?thesis by (intro exI[of _ True] exI[of _ rs1]) simp
      next
        case nf: False
        have safe: "left_safe rules k" using loop(2) nf by (auto intro: left_safeI)
        let ?rs' = "rs1\<lparr>rules_in_progress := ?busy[k := False], rules_visited := (rules_visited rs1)[k := True]\<rparr>"
        have inv2: "rec_inv rules ?busy rs1" "empties_grow ?rs rs1" using loop(2) nf by auto
        have "llama_grammar_detect_left_recursion rules k rs = Some (False, ?rs')"
          using unfold nf inv2(1) less.prems(1) by (simp add: rec_inv_def set_at_def)
        moreover have "?busy[k := False] = busy" using False less.prems by (simp add: list_update_same_conv)
        moreover have "left_safe rules i" if "i < ?n" "(rules_visited rs1)[k := True] ! i" for i
          using that safe inv2(1) by (cases "i = k") (auto simp: rec_inv_def)
        then have "rec_inv rules busy ?rs'"
          using inv2(1) \<open>?busy[k := False] = busy\<close> by (auto simp: rec_inv_def)
        moreover have "empties_grow rs ?rs'" using inv2(2)
          by (auto simp: empties_grow_def nth_set_True split: if_splits)
        moreover have "rules_may_be_empty ?rs' ! k = direct_empty rules k"
        proof
          assume "direct_empty rules k"
          then have "rules_may_be_empty ?rs ! k" using inv less.prems(1) by (simp add: rec_inv_def direct_empty_def)
          with inv2(2) show "rules_may_be_empty ?rs' ! k" unfolding empties_grow_def by simp
        qed (use inv2(1) less.prems(1) in \<open>simp add: rec_inv_def\<close>)
        ultimately show ?thesis using safe by (intro exI[of _ False] exI[of _ ?rs']) simp
      qed
    qed
  qed
qed

text \<open>The loop over all rules.\<close>

lemma check_loop:
  assumes "rules_ok rules" "rec_inv rules (replicate (length rules) False) rs" "set is \<subseteq> {..<length rules}"
  shows "\<exists>rs'. foldM (check_rule rules) is (False, rs) = Some (\<exists>k \<in> set is. \<not> left_safe rules k, rs')"
  using assms(2,3)
proof (induction "is" arbitrary: rs)
  case (Cons k ks)
  let ?n = "length rules"
  have k: "k < ?n" using Cons.prems(2) by simp
  have stop: "foldM (check_rule rules) ks (True, rs) = Some (True, rs)" for rs
    by (induction ks) (simp_all add: check_rule_def)
  show ?case
  proof (cases "rules_visited rs ! k")
    case True
    then have "left_safe rules k" "check_rule rules k (False, rs) = Some (False, rs)"
      using Cons.prems(1) k by (simp_all add: rec_inv_def check_rule_def)
    then show ?thesis using Cons by simp
  next
    case False
    have "detects rules (replicate ?n False) (llama_grammar_detect_left_recursion rules) k"
      by (rule detect_exact[OF assms(1) k]) simp_all
    then obtain found rs1 where d: "llama_grammar_detect_left_recursion rules k rs = Some (found, rs1)"
        "if found then \<not> left_safe rules k else left_safe rules k \<and> rec_inv rules (replicate ?n False) rs1"
      using Cons.prems(1) unfolding detects_def by meson
    have "check_rule rules k (False, rs) = Some (found, rs1)"
      using False d(1) Cons.prems(1) k by (simp add: rec_inv_def check_rule_def)
    then show ?thesis using d(2) stop Cons.IH[of rs1] Cons.prems(2) by (cases found) auto
  qed
qed simp

lemma left_recursion_check_eq:
  assumes "rules_ok rules"
  shows "left_recursion_check rules = Some (\<exists>k < length rules. \<not> left_safe rules k)"
proof -
  let ?none = "replicate (length rules) False"
  have inv: "rec_inv rules ?none \<lparr>rules_visited = ?none, rules_in_progress = ?none, rules_may_be_empty = ?none\<rparr>"
    by (simp add: rec_inv_def)
  have sub: "set [0..<length rules] \<subseteq> {..<length rules}" by auto
  from check_loop[OF assms inv sub] show ?thesis
    unfolding left_recursion_check_def Let_def by (elim exE) (simp add: atLeast0LessThan Bex_def lessThan_def)
qed

text \<open>Induction along references that form no cycle.\<close>

lemma acyclic_induct:
  assumes range: "\<And>k j. k < n \<Longrightarrow> E k j \<Longrightarrow> j < (n :: nat)" and no: "\<not> (\<exists>k < n. E\<^sup>+\<^sup>+ k k)"
    and step: "\<And>k. k < n \<Longrightarrow> (\<And>j. E k j \<Longrightarrow> P j) \<Longrightarrow> P k" and "k < n"
  shows "P k"
proof -
  let ?r = "{(j, k). k < n \<and> E k j}"
  have "?r \<subseteq> {..<n} \<times> {..<n}" using range by auto
  then have fin: "finite ?r" by (rule finite_subset) simp
  have "E\<^sup>+\<^sup>+ k j \<and> k < n" if "(j, k) \<in> ?r\<^sup>+" for j k
    using that
  proof (induction rule: converse_trancl_induct)
    case (step j i)
    then show ?case by (auto intro: tranclp.trancl_into_trancl)
  qed auto
  then have "acyclic ?r" using no unfolding acyclic_def by blast
  then have wf: "wf ?r" by (rule finite_acyclic_wf[OF fin])
  have "k < n \<longrightarrow> P k" for k
  proof (induction k rule: wf_induct_rule[OF wf])
    case (1 k)
    show ?case
    proof
      assume k: "k < n"
      then show "P k" using 1 range step by auto
    qed
  qed
  then show ?thesis using \<open>k < n\<close> by simp
qed

lemma left_edge_range: "rules_ok rules \<Longrightarrow> k < length rules \<Longrightarrow> left_edge rules k j \<Longrightarrow> j < length rules"
  using left_refs_range by (fastforce simp: rules_ok_def left_edge_def)

lemma unsafe_cycle:
  assumes "rules_ok rules" "k < length rules" "\<not> left_safe rules k"
  shows "\<exists>k < length rules. (left_edge rules)\<^sup>+\<^sup>+ k k"
proof (rule ccontr)
  assume no: "\<not> ?thesis"
  have "left_safe rules k"
    using left_edge_range[OF assms(1)] no _ assms(2)
    by (rule acyclic_induct[where E = "left_edge rules"]) (auto intro: left_safeI simp: left_edge_def)
  with assms(3) show False by simp
qed

lemma left_recursion_check_cycle:
  assumes "rules_ok rules"
  shows "left_recursion_check rules = Some (\<exists>k < length rules. (left_edge rules)\<^sup>+\<^sup>+ k k)"
  unfolding left_recursion_check_eq[OF assms]
  using unsafe_cycle[OF assms] left_safe_no_cycle by blast

section \<open>Advancing a stack ends\<close>

definition adv_ends :: "llama_grammar_rules \<Rightarrow> llama_grammar_stack \<Rightarrow> bool" where
  "adv_ends rules stack \<longleftrightarrow> (\<forall>old. \<exists>new. llama_grammar_advance_stack rules stack old = Some new)"

text \<open>
  Left recursion: a rule opens with a reference if all references before it can derive the empty word, and no
  rule may lead to itself that way.
\<close>

fun open_refs :: "llama_grammar_rules \<Rightarrow> llama_grammar_rule \<Rightarrow> bool \<Rightarrow> nat set" where
  "open_refs rules [] recurse = {}"
| "open_refs rules (e # es) recurse =
     (if el_type e = LLAMA_GRETYPE_RULE_REF \<and> recurse
      then insert (unat (el_value e)) (open_refs rules es (rule_lang rules (unat (el_value e)) []))
      else open_refs rules es (is_end_type (el_type e)))"

definition open_edge :: "llama_grammar_rules \<Rightarrow> nat \<Rightarrow> nat \<Rightarrow> bool" where
  "open_edge rules k j \<longleftrightarrow> j \<in> open_refs rules (rules ! k) True"

definition left_recursion_free :: "llama_grammar_rules \<Rightarrow> bool" where
  "left_recursion_free rules \<longleftrightarrow> \<not> (\<exists>k < length rules. (open_edge rules)\<^sup>+\<^sup>+ k k)"

lemma open_refs_range: "wf_elems n m es \<Longrightarrow> j \<in> open_refs rules es recurse \<Longrightarrow> j < n"
proof (induction es arbitrary: m recurse)
  case (Cons e es)
  then show ?case by (auto split: if_splits llama_gretype.splits)
qed simp

lemma open_edge_range: "rules_ok rules \<Longrightarrow> k < length rules \<Longrightarrow> open_edge rules k j \<Longrightarrow> j < length rules"
  using open_refs_range by (fastforce simp: rules_ok_def open_edge_def)

text \<open>The check only sees alternates that are written empty.\<close>

definition empties_explicit :: "llama_grammar_rules \<Rightarrow> bool" where
  "empties_explicit rules \<longleftrightarrow> (\<forall>k < length rules. rule_lang rules k [] \<longrightarrow> direct_empty rules k)"

lemma adv_ends_nil: "adv_ends rules []"
  by (simp add: adv_ends_def llama_grammar_advance_stack.simps)

lemma adv_ends_terminal:
  assumes "element_at rules pos = Some e" "is_char_start (el_type e) \<or> is_token_type (el_type e)"
  shows "adv_ends rules (pos # rest)"
proof -
  have "el_type e \<noteq> LLAMA_GRETYPE_RULE_REF" using assms(2) kinds_disjoint by blast
  then show ?thesis using assms by (auto simp: adv_ends_def llama_grammar_advance_stack.simps is_char_start_def)
qed

lemma adv_ends_ref:
  assumes "rules_ok rules" "pos_ok rules pos" "element_at rules pos = Some e" "el_type e = LLAMA_GRETYPE_RULE_REF"
    and "push_pos rules (next_pos pos) rest = Some s1"
    and "\<And>i s. i \<in> alt_starts (rules ! unat (el_value e)) \<Longrightarrow> push_pos rules (unat (el_value e), i) s1 = Some s \<Longrightarrow> adv_ends rules s"
    and "stack_ok rules rest"
  shows "adv_ends rules (pos # rest)"
  unfolding adv_ends_def
proof
  fix old
  let ?k = "unat (el_value e)"
  have k: "?k < length rules" using ref_in_range[OF assms(2-4)] .
  obtain subs where subs: "alternates (rules ! ?k) 0 = Some subs" "set subs = alt_starts (rules ! ?k)"
      "\<And>i. i \<in> set subs \<Longrightarrow> pos_ok rules (?k, i)"
    using rule_alternates[OF assms(1) k] by auto
  have "\<exists>new. foldM (\<lambda>sub new_stacks. do {
          new_stack \<leftarrow> push_pos rules (next_pos pos) rest;
          new_stack \<leftarrow> push_pos rules (?k, sub) new_stack;
          llama_grammar_advance_stack rules new_stack new_stacks }) subs old = Some new \<and> True"
  proof (rule foldM_total[where P="\<lambda>_. True"])
    fix i a assume i: "i \<in> set subs"
    have "stack_ok rules s1"
      by (rule push_pos_stack_ok[OF assms(5) next_pos_ok[OF assms(2,3)] assms(7)]) (simp add: assms(4))
    then obtain s where s: "push_pos rules (?k, i) s1 = Some s" using push_pos_ok[OF subs(3)[OF i]] by blast
    with assms(6)[of i s] i subs(2) have "adv_ends rules s" by simp
    then show "\<exists>b. do { new_stack \<leftarrow> push_pos rules (next_pos pos) rest;
          new_stack \<leftarrow> push_pos rules (?k, i) new_stack;
          llama_grammar_advance_stack rules new_stack a } = Some b \<and> True"
      by (simp add: assms(5) s adv_ends_def)
  next
    show True ..
  qed
  then show "\<exists>new. llama_grammar_advance_stack rules (pos # rest) old = Some new"
    using assms(3,4) subs(1) k by (subst llama_grammar_advance_stack.simps) simp
qed

lemma open_refs_alternate:
  assumes "i \<in> alt_starts rule"
  shows "open_refs rules (drop i rule) True \<subseteq> open_refs rules rule True"
proof -
  have alt: "open_refs rules ys True \<subseteq> open_refs rules (xs @ a # ys) r" if "el_type a = LLAMA_GRETYPE_ALT" for xs a ys r
    using that by (induction xs arbitrary: r) auto
  show ?thesis
  proof (cases "0 < i \<and> i \<le> length rule")
    case True
    then have "rule = take (i - 1) rule @ rule ! (i - 1) # drop i rule"
      by (metis Suc_pred' Suc_le_lessD diff_less dual_order.strict_trans1 id_take_nth_drop zero_less_one)
    moreover have "el_type (rule ! (i - 1)) = LLAMA_GRETYPE_ALT" using assms True by (simp add: alt_starts_def)
    ultimately show ?thesis using alt by metis
  next
    case False
    then have "i = 0" using assms by (auto simp: alt_starts_def)
    then show ?thesis by simp
  qed
qed

text \<open>
  Inside a rule whose leftmost references all end: if the rest of the sequence can be skipped, what lies
  under it on the stack must end too.
\<close>

lemma adv_ends_seq:
  assumes "rules_ok rules" "stack_ok rules rest" "pos_ok rules pos"
    and refs: "\<And>j s i s'. j \<in> open_refs rules (drop (snd pos) (rules ! fst pos)) True \<Longrightarrow> stack_ok rules s \<Longrightarrow>
      (rule_lang rules j [] \<longrightarrow> adv_ends rules s) \<Longrightarrow> i \<in> alt_starts (rules ! j) \<Longrightarrow>
      push_pos rules (j, i) s = Some s' \<Longrightarrow> adv_ends rules s'"
    and "gen rules pos [] \<longrightarrow> adv_ends rules rest" "push_pos rules pos rest = Some s"
  shows "adv_ends rules s"
  using assms(3-)
proof (induction "length (rules ! fst pos) - snd pos" arbitrary: pos s rule: less_induct)
  case less
  obtain e es where e: "fst pos < length rules" "element_at rules pos = Some e" "drop (snd pos) (rules ! fst pos) = e # es"
      "wf_elems (length rules) Top (e # es)" using less.prems(1) by (elim pos_okE)
  show ?case
  proof (cases "is_end_type (el_type e)")
    case True
    then have "llama_grammar_is_end_of_sequence rules pos = Some True" using e(2) by (simp add: end_iff)
    then show ?thesis using less.prems(3,4) gen_end_iff[of rules pos "[]"] by (simp add: push_pos_def)
  next
    case notend: False
    then have s: "s = pos # rest" using less.prems(4) e(2) by (simp add: push_pos_def llama_grammar_is_end_of_sequence_def)
    show ?thesis
    proof (cases "el_type e = LLAMA_GRETYPE_RULE_REF")
      case False
      then have "is_char_start (el_type e) \<or> is_token_type (el_type e)"
        using notend e(4) by (cases "el_type e") (auto simp: is_char_start_def)
      then show ?thesis unfolding s by (rule adv_ends_terminal[OF e(2)])
    next
      case True
      let ?k = "unat (el_value e)"
      have next_ok: "pos_ok rules (next_pos pos)" using next_pos_ok[OF less.prems(1) e(2)] True by simp
      obtain s1 where s1: "push_pos rules (next_pos pos) rest = Some s1" "stack_ok rules s1"
        using push_pos_ok[OF next_ok assms(2)] by blast
      have k: "?k < length rules" using ref_in_range[OF less.prems(1) e(2) True] .
      have drop_next: "drop (snd (next_pos pos)) (rules ! fst (next_pos pos)) = es"
        using e(3) by (simp add: next_pos_def drop_eq_Cons)
      have skip: "adv_ends rules s1" if "rule_lang rules ?k []"
      proof (rule less.hyps[OF _ next_ok _ _ s1(1)])
        show "length (rules ! fst (next_pos pos)) - snd (next_pos pos) < length (rules ! fst pos) - snd pos"
          using e(3) by (auto simp: next_pos_def drop_eq_Cons)
        show "gen rules (next_pos pos) [] \<longrightarrow> adv_ends rules rest"
          using less.prems(3) that k by (simp add: gen_ref_iff[OF e(2) True])
        have sub: "open_refs rules es True \<subseteq> open_refs rules (e # es) True" using True that by auto
        fix j s i s' assume "j \<in> open_refs rules (drop (snd (next_pos pos)) (rules ! fst (next_pos pos))) True"
          "stack_ok rules s" "rule_lang rules j [] \<longrightarrow> adv_ends rules s" "i \<in> alt_starts (rules ! j)"
          "push_pos rules (j, i) s = Some s'"
        then show "adv_ends rules s'" using less.prems(2)[of j s i s'] sub unfolding drop_next e(3) by blast
      qed
      show ?thesis unfolding s
      proof (rule adv_ends_ref[OF assms(1) less.prems(1) e(2) True s1(1) _ assms(2)])
        fix i s' assume "i \<in> alt_starts (rules ! ?k)" "push_pos rules (?k, i) s1 = Some s'"
        then show "adv_ends rules s'" using less.prems(2)[of ?k s1 i s'] s1(2) skip True unfolding e(3) by simp
      qed
    qed
  qed
qed

lemma adv_ends_rule:
  assumes ok: "rules_ok rules" and "left_recursion_free rules" "k < length rules" "stack_ok rules rest"
    "rule_lang rules k [] \<longrightarrow> adv_ends rules rest" "i \<in> alt_starts (rules ! k)" "push_pos rules (k, i) rest = Some s"
  shows "adv_ends rules s"
proof -
  let ?P = "\<lambda>k. \<forall>rest i s. stack_ok rules rest \<longrightarrow> (rule_lang rules k [] \<longrightarrow> adv_ends rules rest) \<longrightarrow>
    i \<in> alt_starts (rules ! k) \<longrightarrow> push_pos rules (k, i) rest = Some s \<longrightarrow> adv_ends rules s"
  have "?P k"
  proof (rule acyclic_induct[where E = "open_edge rules" and n = "length rules"])
    fix k assume k: "k < length rules" and IH: "\<And>j. open_edge rules k j \<Longrightarrow> ?P j"
    show "?P k"
    proof (intro allI impI)
      fix rest i s assume a: "stack_ok rules rest" "rule_lang rules k [] \<longrightarrow> adv_ends rules rest"
        "i \<in> alt_starts (rules ! k)" "push_pos rules (k, i) rest = Some s"
      have pos: "pos_ok rules (k, i)" using rule_alternates[OF ok k] a(3) by blast
      show "adv_ends rules s"
      proof (rule adv_ends_seq[OF ok a(1) pos _ _ a(4)])
        show "gen rules (k, i) [] \<longrightarrow> adv_ends rules rest" using a(2,3) by (auto simp: rule_lang_def)
        fix j s i' s' assume j: "j \<in> open_refs rules (drop (snd (k, i)) (rules ! fst (k, i))) True" and
          "stack_ok rules s" "rule_lang rules j [] \<longrightarrow> adv_ends rules s" "i' \<in> alt_starts (rules ! j)"
          "push_pos rules (j, i') s = Some s'"
        moreover have "open_edge rules k j" using j open_refs_alternate[OF a(3)] by (auto simp: open_edge_def)
        ultimately show "adv_ends rules s'" using IH by blast
      qed
    qed
  qed (use assms open_edge_range[OF ok] in \<open>auto simp: left_recursion_free_def\<close>)
  then show ?thesis using assms by blast
qed

lemma adv_ends_all:
  assumes "rules_ok rules" "left_recursion_free rules" "stack_ok rules stack"
  shows "adv_ends rules stack"
  using assms(3)
proof (induction stack)
  case Nil
  show ?case by (rule adv_ends_nil)
next
  case (Cons pos rest)
  then have ok: "pos_ok rules pos" "llama_grammar_is_end_of_sequence rules pos = Some False" "stack_ok rules rest"
    by (auto simp: stack_ok_def)
  have wf: "wf_elems (length rules) Top (drop (snd pos) (rules ! fst pos))" using ok(1) by (simp add: pos_ok_def)
  have push: "push_pos rules pos rest = Some (pos # rest)" using ok(2) by (simp add: push_pos_def)
  show ?case
  proof (rule adv_ends_seq[OF assms(1) ok(3,1) _ _ push])
    show "gen rules pos [] \<longrightarrow> adv_ends rules rest" using Cons.IH ok(3) by simp
    fix j s i s' assume "j \<in> open_refs rules (drop (snd pos) (rules ! fst pos)) True"
    then have j: "j < length rules" using open_refs_range[OF wf] by simp
    assume "stack_ok rules s" "rule_lang rules j [] \<longrightarrow> adv_ends rules s" "i \<in> alt_starts (rules ! j)"
      "push_pos rules (j, i) s = Some s'"
    then show "adv_ends rules s'" using adv_ends_rule[OF assms(1,2) j] by blast
  qed
qed

text \<open>
  A condition that is easy to check: the references before which there are only references lead to rules of a smaller
  rank.
\<close>

fun leading_refs :: "llama_grammar_rule \<Rightarrow> bool \<Rightarrow> nat set" where
  "leading_refs [] recurse = {}"
| "leading_refs (e # es) recurse =
     (if el_type e = LLAMA_GRETYPE_RULE_REF \<and> recurse then insert (unat (el_value e)) (leading_refs es True)
      else leading_refs es (is_end_type (el_type e)))"

lemma open_refs_leading: "r \<longrightarrow> r' \<Longrightarrow> open_refs rules es r \<subseteq> leading_refs es r'"
proof (induction es arbitrary: r r')
  case (Cons e es)
  then show ?case by (cases r; cases r') (simp_all add: subset_insertI2)
qed simp

lemma leading_left_recursion_free:
  assumes "\<forall>k < length rules. \<forall>j \<in> leading_refs (rules ! k) True. rank j < (rank k :: nat)" "rules_ok rules"
  shows "left_recursion_free rules"
proof -
  have "rank j < rank k \<and> j < length rules" if "(open_edge rules)\<^sup>+\<^sup>+ k j" "k < length rules" for k j
    using that
  proof (induction rule: tranclp_induct)
    case (base j)
    then show ?case using assms(1) open_refs_leading[of True True] open_edge_range[OF assms(2)] unfolding open_edge_def by blast
  next
    case (step j i)
    then have "rank i < rank j" using assms(1) open_refs_leading[of True True] unfolding open_edge_def by blast
    then show ?case using step open_edge_range[OF assms(2)] by fastforce
  qed
  then show ?thesis unfolding left_recursion_free_def by blast
qed

section \<open>The check and left recursion\<close>

lemma open_edge_left:
  assumes "empties_explicit rules" "rules_ok rules" "k < length rules" "open_edge rules k j"
  shows "left_edge rules k j"
proof -
  have "open_refs rules es r \<subseteq> left_refs rules es r'" if "wf_elems (length rules) m es" "r \<longrightarrow> r'" for es m r r'
    using that
  proof (induction es arbitrary: m r r')
    case (Cons e es)
    show ?case
    proof (cases "el_type e = LLAMA_GRETYPE_RULE_REF")
      case True
      then obtain m' where wf: "wf_elems (length rules) m' es" "unat (el_value e) < length rules" using Cons.prems(1) by auto
      have "rule_lang rules (unat (el_value e)) [] \<longrightarrow> direct_empty rules (unat (el_value e))"
        using assms(1) wf(2) by (simp add: empties_explicit_def)
      then have "open_refs rules es (rule_lang rules (unat (el_value e)) []) \<subseteq> left_refs rules es (direct_empty rules (unat (el_value e)))"
        "open_refs rules es False \<subseteq> left_refs rules es (direct_empty rules (unat (el_value e)))"
        "open_refs rules es False \<subseteq> left_refs rules es False" by (simp_all add: Cons.IH[OF wf(1)])
      moreover have "is_end_type (el_type e) = False" using True by simp
      ultimately show ?thesis using Cons.prems(2) True by (cases r; cases r') (simp_all add: subset_insertI2)
    next
      case False
      then consider m' where "wf_elems (length rules) m' es" | "es = []"
        using Cons.prems(1) by (cases "el_type e") (auto split: if_splits)
      then show ?thesis using False by cases (simp_all add: Cons.IH)
    qed
  qed simp
  moreover have "wf_elems (length rules) Top (rules ! k)" using assms(2,3) by (simp add: rules_ok_def)
  ultimately show ?thesis using assms(4) unfolding open_edge_def left_edge_def by blast
qed

lemma checked_left_recursion_free:
  assumes "rules_ok rules" "left_recursion_check rules = Some False" "empties_explicit rules"
  shows "left_recursion_free rules"
proof -
  have "(left_edge rules)\<^sup>+\<^sup>+ k j \<and> j < length rules" if "(open_edge rules)\<^sup>+\<^sup>+ k j" "k < length rules" for k j
    using that
  proof (induction rule: tranclp_induct)
    case (base j)
    then show ?case using open_edge_left[OF assms(3,1)] open_edge_range[OF assms(1)] by blast
  next
    case (step j i)
    then show ?case using open_edge_left[OF assms(3,1)] open_edge_range[OF assms(1)] by (meson tranclp.trancl_into_trancl)
  qed
  then show ?thesis using assms(2) left_recursion_check_cycle[OF assms(1)] unfolding left_recursion_free_def by (metis option.inject)
qed

text \<open>What is written empty derives the empty word, so a grammar without left recursion passes the check.\<close>

lemma empty_alternate_start:
  "wf_elems n m es \<Longrightarrow> has_empty_alternate es s \<Longrightarrow> \<exists>i < length es. is_end_type (el_type (es ! i)) \<and>
     (if i = 0 then s else el_type (es ! (i - 1)) = LLAMA_GRETYPE_ALT)"
proof (induction es arbitrary: m s)
  case (Cons e es)
  show ?case
  proof (cases "is_end_type (el_type e) \<and> s")
    case True
    then show ?thesis by (intro exI[of _ 0]) simp
  next
    case False
    then have h: "has_empty_alternate es (is_end_type (el_type e))" using Cons.prems(2) by (auto split: if_splits)
    then have "es \<noteq> []" by auto
    then obtain m' where "wf_elems n m' es" "is_end_type (el_type e) \<longrightarrow> el_type e = LLAMA_GRETYPE_ALT"
      using Cons.prems(1) by (cases "el_type e") auto
    with Cons.IH[OF this(1) h] obtain i where "i < length es" "is_end_type (el_type (es ! i))"
      "el_type ((e # es) ! i) = LLAMA_GRETYPE_ALT"
      using \<open>is_end_type (el_type e) \<longrightarrow> el_type e = LLAMA_GRETYPE_ALT\<close>
      by (metis (no_types, lifting) nth_Cons' )
    then show ?thesis by (intro exI[of _ "Suc i"]) simp
  qed
qed simp

lemma direct_empty_lang:
  assumes "rules_ok rules" "k < length rules" "direct_empty rules k"
  shows "rule_lang rules k []"
proof -
  have "wf_elems (length rules) Top (rules ! k)" using assms(1,2) by (simp add: rules_ok_def)
  from empty_alternate_start[OF this] assms(3) obtain i where i: "i < length (rules ! k)" "is_end_type (el_type (rules ! k ! i))"
    "i = 0 \<or> el_type (rules ! k ! (i - 1)) = LLAMA_GRETYPE_ALT" unfolding direct_empty_def by meson
  then have "i \<in> alt_starts (rules ! k)" by (auto simp: alt_starts_def)
  moreover have "llama_grammar_is_end_of_sequence rules (k, i) = Some True" using i assms(2) by (simp add: end_iff element_at_def)
  then have "gen rules (k, i) []" by (simp add: gen_end_iff)
  ultimately show ?thesis by (auto simp: rule_lang_def)
qed

lemma left_edge_open:
  assumes "rules_ok rules" "k < length rules" "left_edge rules k j"
  shows "open_edge rules k j"
proof -
  have "left_refs rules es r \<subseteq> open_refs rules es r'" if "wf_elems (length rules) m es" "r \<longrightarrow> r'" for es m r r'
    using that
  proof (induction es arbitrary: m r r')
    case (Cons e es)
    show ?case
    proof (cases "el_type e = LLAMA_GRETYPE_RULE_REF")
      case True
      then obtain m' where wf: "wf_elems (length rules) m' es" "unat (el_value e) < length rules" using Cons.prems(1) by auto
      have "direct_empty rules (unat (el_value e)) \<longrightarrow> rule_lang rules (unat (el_value e)) []"
        using direct_empty_lang[OF assms(1) wf(2)] by blast
      then have "left_refs rules es (direct_empty rules (unat (el_value e))) \<subseteq> open_refs rules es (rule_lang rules (unat (el_value e)) [])"
        "left_refs rules es False \<subseteq> open_refs rules es (rule_lang rules (unat (el_value e)) [])"
        "left_refs rules es False \<subseteq> open_refs rules es False" by (simp_all add: Cons.IH[OF wf(1)])
      moreover have "is_end_type (el_type e) = False" using True by simp
      ultimately show ?thesis using Cons.prems(2) True by (cases r; cases r') (simp_all add: subset_insertI2)
    next
      case False
      then consider m' where "wf_elems (length rules) m' es" | "es = []"
        using Cons.prems(1) by (cases "el_type e") (auto split: if_splits)
      then show ?thesis using False by cases (simp_all add: Cons.IH)
    qed
  qed simp
  moreover have "wf_elems (length rules) Top (rules ! k)" using assms(1,2) by (simp add: rules_ok_def)
  ultimately show ?thesis using assms(3) unfolding open_edge_def left_edge_def by blast
qed

lemma left_cycle_open:
  assumes "rules_ok rules" "k < length rules" "(left_edge rules)\<^sup>+\<^sup>+ k k"
  shows "\<not> left_recursion_free rules"
proof -
  have "(open_edge rules)\<^sup>+\<^sup>+ k j \<and> j < length rules" if "(left_edge rules)\<^sup>+\<^sup>+ k j" for j
    using that
  proof (induction rule: tranclp_induct)
    case (base j)
    then show ?case using left_edge_open[OF assms(1,2)] left_edge_range[OF assms(1,2)] by blast
  next
    case (step j i)
    then show ?case using left_edge_open[OF assms(1)] left_edge_range[OF assms(1)] by (meson tranclp.trancl_into_trancl)
  qed
  then show ?thesis using assms(2,3) unfolding left_recursion_free_def by blast
qed

end
