(* ===== verification/GrammarReject.thy ===== *)
theory GrammarReject
  imports GrammarRec
begin

text \<open>
  The operations on a good grammar do not abort: accepting characters and tokens, and rejecting candidates.
  The rejected candidates are the ones that no stack keeps.
\<close>

section \<open>Good grammars\<close>

definition rules_good :: "llama_grammar_rules \<Rightarrow> bool" where
  "rules_good rules \<longleftrightarrow> rules_ok rules \<and> left_recursion_free rules"

text \<open>When every alternate of a rule starts with a character or a token the rule does not derive the empty word.\<close>

definition opens_with_terminal :: "llama_grammar_rule \<Rightarrow> bool" where
  "opens_with_terminal rule \<longleftrightarrow>
     (\<forall>i < length rule. i = 0 \<or> el_type (rule ! (i - 1)) = LLAMA_GRETYPE_ALT \<longrightarrow>
        is_char_start (el_type (rule ! i)) \<or> is_token_type (el_type (rule ! i)))"

lemma empties_explicitI:
  assumes "rules_ok rules" "\<forall>k < length rules. direct_empty rules k \<or> opens_with_terminal (rules ! k)"
  shows "empties_explicit rules"
  unfolding empties_explicit_def
proof (intro allI impI)
  fix k assume k: "k < length rules" "rule_lang rules k []"
  then obtain i where i: "i \<in> alt_starts (rules ! k)" "gen rules (k, i) []" by (auto simp: rule_lang_def)
  have "pos_ok rules (k, i)" using rule_alternates[OF assms(1) k(1)] i(1) by auto
  then obtain e es where e: "element_at rules (k, i) = Some e" "drop i (rules ! k) = e # es" by (elim pos_okE) auto
  have "\<not> opens_with_terminal (rules ! k)"
  proof
    assume "opens_with_terminal (rules ! k)"
    then have "is_char_start (el_type e) \<or> is_token_type (el_type e)"
      using i(1) e(2) by (auto simp: opens_with_terminal_def alt_starts_def drop_eq_Cons)
    then show False using i(2) gen_char_iff[OF e(1)] gen_token[OF e(1)] by blast
  qed
  then show "direct_empty rules k" using assms(2) k(1) by blast
qed

lemma advance_total:
  "rules_good rules \<Longrightarrow> stack_ok rules stack \<Longrightarrow> \<exists>new. llama_grammar_advance_stack rules stack old = Some new"
  using adv_ends_all unfolding rules_good_def adv_ends_def by blast

lemma advance_nonempty:
  "rules_good rules \<Longrightarrow> stack_ok rules stack \<Longrightarrow> llama_grammar_advance_stack rules stack old = Some new \<Longrightarrow> new \<noteq> []"
  by (rule advance_stack_nonempty) (simp_all add: rules_good_def)

section \<open>Accepting does not abort\<close>

text \<open>The kind of the top of a good stack.\<close>

lemma good_stack_cases:
  assumes "stack_ok rules stack" "ends_in_terminal rules stack"
  obtains "stack = []"
  | pos rest e where "stack = pos # rest" "element_at rules pos = Some e" "is_token_type (el_type e)"
      "\<not> is_char_start (el_type e)" "pos_ok rules pos" "stack_ok rules rest"
  | pos rest e where "stack = pos # rest" "element_at rules pos = Some e" "is_char_start (el_type e)"
      "\<not> is_token_type (el_type e)" "pos_ok rules pos" "stack_ok rules rest"
proof (cases stack)
  case Nil
  with that(1) show thesis .
next
  case (Cons pos rest)
  obtain e where e: "element_at rules pos = Some e" "is_char_start (el_type e) \<or> is_token_type (el_type e)"
    using assms(2) Cons by (auto simp: ends_in_terminal_def)
  have ok: "pos_ok rules pos" "stack_ok rules rest" using assms(1) Cons by (auto simp: stack_ok_def)
  show thesis using e that(2,3)[OF Cons e(1) _ _ ok] kinds_disjoint(4) by blast
qed

lemma accept_chr_total:
  assumes "rules_good rules" "stack_ok rules stack" "ends_in_terminal rules stack"
  shows "\<exists>new. llama_grammar_accept_chr rules stack c old = Some new"
  using assms(2,3)
proof (cases rule: good_stack_cases)
  case (3 pos rest e)
  note m = match_char_in_class[OF 3(5,2,3)]
  obtain s where "push_pos rules (class_end rules pos) rest = Some s" "stack_ok rules s"
    using push_pos_ok[OF m(2) 3(6)] by blast
  then show ?thesis using 3 advance_total[OF assms(1), of s old] by (simp add: llama_grammar_accept_chr_def m(1))
qed (simp_all add: llama_grammar_accept_chr_def)

lemma accept_chr_stacks_total:
  assumes "rules_good rules" "stacks_good rules stacks"
  shows "\<exists>new. accept_chr_stacks rules c stacks = Some new"
proof -
  have "\<exists>new. foldM (\<lambda>stack stacks_new. llama_grammar_accept_chr rules stack c stacks_new) stacks [] = Some new \<and> True"
    by (rule foldM_total[where P="\<lambda>_. True"]) (use assms in \<open>auto simp: stacks_good_def intro!: accept_chr_total\<close>)
  then show ?thesis by (simp add: accept_chr_stacks_def)
qed

lemma accept_code_points_total:
  assumes "rules_good rules" "stacks_good rules stacks"
  shows "\<exists>new. accept_code_points rules cs stacks = Some new"
  using assms
proof (induction rules cs stacks rule: accept_code_points.induct)
  case (2 rules c cs stacks)
  have ok: "rules_ok rules" using 2(2) by (simp add: rules_good_def)
  obtain ss where ss: "accept_chr_stacks rules c stacks = Some ss" using accept_chr_stacks_total[OF 2(2,3)] by blast
  have good: "stacks_good rules ss" using accept_chr_stacks_lang[OF ss ok 2(3)] by blast
  show ?case
  proof (cases "ss = []")
    case True
    with ss show ?thesis by simp
  next
    case False
    then show ?thesis using 2(1)[OF ss False 2(2) good] ss by simp
  qed
qed simp

lemma accept_total:
  assumes "rules_good (gr_rules g)" "stacks_good (gr_rules g) (gr_stacks g)"
  shows "\<exists>g'. foldM (\<lambda>c g. llama_grammar_accept g c) cs g = Some g'"
  using assms
proof (induction cs arbitrary: g)
  case (Cons c cs)
  have ok: "rules_ok (gr_rules g)" using Cons.prems(1) by (simp add: rules_good_def)
  obtain ss where ss: "accept_chr_stacks (gr_rules g) c (gr_stacks g) = Some ss"
    using accept_chr_stacks_total[OF Cons.prems] by blast
  have good: "stacks_good (gr_rules g) ss" using accept_chr_stacks_lang[OF ss ok Cons.prems(2)] by blast
  show ?case using Cons.IH[of "g\<lparr>gr_stacks := ss\<rparr>"] Cons.prems(1) good ss
    by (simp add: llama_grammar_accept_def)
qed simp

definition grammar_good :: "llama_grammar \<Rightarrow> bool" where
  "grammar_good g \<longleftrightarrow> rules_good (gr_rules g) \<and> stacks_good (gr_rules g) (gr_stacks g)"

lemma add_stacks_good:
  "stacks_good rules old \<Longrightarrow> \<forall>s \<in> set ss. stack_ok rules s \<and> ends_in_terminal rules s \<Longrightarrow> stacks_good rules (fold add_stack ss old)"
proof (induction ss arbitrary: old)
  case (Cons s ss)
  have "stacks_good rules (add_stack s old)"
    using Cons.prems by (cases "s \<in> set old") (auto simp: stacks_good_def add_stack_def)
  from Cons.IH[OF this] Cons.prems(2) show ?case by simp
qed simp

lemma advances_stacks_good: "advances rules L old new \<Longrightarrow> stacks_good rules old \<Longrightarrow> stacks_good rules new"
  by (auto simp: advances_def stacks_good_def)

lemma accept_token_stack_good:
  assumes "rules_good rules" "stack_ok rules stack" "ends_in_terminal rules stack" "stacks_good rules old"
  shows "\<exists>new. accept_token_stack rules token cs stack old = Some new \<and> stacks_good rules new"
proof -
  have ok: "rules_ok rules" using assms(1) by (simp add: rules_good_def)
  from assms(2,3) show ?thesis
  proof (cases rule: good_stack_cases)
    case 1
    then show ?thesis using assms(4) by (simp add: accept_token_stack_def)
  next
    case (2 pos rest e)
    obtain m where m: "llama_grammar_match_token rules pos token = Some m"
      using 2 by (simp add: llama_grammar_match_token_def)
    show ?thesis
    proof (cases m)
      case True
      have "pos_ok rules (next_pos pos)" using next_pos_ok[OF 2(5,2)] 2(3) by simp
      then obtain s where s: "push_pos rules (next_pos pos) rest = Some s" "stack_ok rules s"
        using push_pos_ok[OF _ 2(6)] by blast
      obtain new where new: "llama_grammar_advance_stack rules s old = Some new" using advance_total[OF assms(1) s(2)] by blast
      from advances_stacks_good[OF advance_stack_advances[OF new ok s(2)] assms(4)]
      show ?thesis using 2 m True s(1) new by (simp add: accept_token_stack_def)
    next
      case False
      then show ?thesis using 2 m assms(4) by (simp add: accept_token_stack_def)
    qed
  next
    case (3 pos rest e)
    have g: "stacks_good rules [stack]" using assms(2,3) by (simp add: stacks_good_def)
    obtain ss where ss: "accept_code_points rules cs [stack] = Some ss" using accept_code_points_total[OF assms(1) g] by blast
    have "stacks_good rules (fold add_stack ss old)"
      by (rule add_stacks_good[OF assms(4)]) (use accept_code_points_lang[OF ss ok g] in \<open>simp add: stacks_good_def\<close>)
    then show ?thesis using 3 ss by (simp add: accept_token_stack_def)
  qed
qed

lemma accept_token_good:
  assumes "grammar_good g"
  shows "\<exists>g' thrown. llama_grammar_accept_token g token piece = Some (g', thrown) \<and> grammar_good g' \<and>
    gr_rules g' = gr_rules g \<and> (thrown = None \<longleftrightarrow> gr_stacks g' \<noteq> [])"
proof -
  obtain cs p where d: "decode_utf8 piece (gr_partial_utf8 g) = (cs, p)" by (cases "decode_utf8 piece (gr_partial_utf8 g)") 
  have "\<exists>new. foldM (accept_token_stack (gr_rules g) token (butlast cs)) (gr_stacks g) [] = Some new \<and> stacks_good (gr_rules g) new"
    by (rule foldM_total)
      (use assms in \<open>auto simp: stacks_good_def[of _ "[]"] stacks_good_def[of _ "gr_stacks g"] grammar_good_def
         intro!: accept_token_stack_good\<close>)
  then show ?thesis using assms by (auto simp: llama_grammar_accept_token_def d grammar_good_def)
qed

end
