(* ===== verification/GrammarMask.thy ===== *)
theory GrammarMask
  imports GrammarReject
begin

text \<open>
  Which candidates \<open>llama_grammar_reject_candidates\<close> rejects: a reference definition that looks at one
  candidate and one stack at a time, and the agreement with accepting the code points of a token.
\<close>

section \<open>Keeping one candidate\<close>

text \<open>The stacks behind the character class on top of a stack.\<close>

definition after_class :: "llama_grammar_rules \<Rightarrow> element_pos \<Rightarrow> llama_grammar_stack \<Rightarrow> llama_grammar_stacks" where
  "after_class rules pos rest =
     (case do { stack \<leftarrow> push_pos rules (class_end rules pos) rest; llama_grammar_advance_stack rules stack [] } of
        None \<Rightarrow> [] | Some stacks \<Rightarrow> stacks)"

definition top_is_token :: "llama_grammar_rules \<Rightarrow> element_pos \<Rightarrow> bool" where
  "top_is_token rules pos \<longleftrightarrow> (case element_at rules pos of None \<Rightarrow> False | Some e \<Rightarrow> is_token_type (el_type e))"

text \<open>At the end of a token only an incomplete sequence is left to check.\<close>

definition keeps_end :: "llama_grammar_rules \<Rightarrow> llama_partial_utf8 \<Rightarrow> llama_grammar_stack \<Rightarrow> bool" where
  "keeps_end rules p stack \<longleftrightarrow> pu_n_remain p = 0 \<or>
     (case stack of
        [] \<Rightarrow> False
      | pos # _ \<Rightarrow> partial_in_class rules pos p)"

fun keeps :: "llama_grammar_rules \<Rightarrow> llama_token \<Rightarrow> llama_partial_utf8 \<Rightarrow> cpt list \<Rightarrow> llama_grammar_stack \<Rightarrow> bool" where
  "keeps rules token p [] stack \<longleftrightarrow> keeps_end rules p stack"
| "keeps rules token p (c # cs) [] \<longleftrightarrow> False"
| "keeps rules token p (c # cs) (pos # rest) \<longleftrightarrow>
     (if top_is_token rules pos then llama_grammar_match_token rules pos token = Some True
      else in_class rules pos c \<and> (\<exists>stack \<in> set (after_class rules pos rest). keeps rules token p cs stack))"

section \<open>Candidates\<close>

definition cand_ok :: "llama_grammar_candidate \<Rightarrow> bool" where
  "cand_ok tok \<longleftrightarrow> 0 \<in> set (drop (gc_offset tok) (gc_code_points tok))"

definition gc_rest :: "llama_grammar_candidate \<Rightarrow> cpt list" where
  "gc_rest tok = takeWhile (\<lambda>c. c \<noteq> 0) (drop (gc_offset tok) (gc_code_points tok))"

definition kept :: "llama_grammar_rules \<Rightarrow> llama_grammar_candidate \<Rightarrow> llama_grammar_stack \<Rightarrow> bool" where
  "kept rules tok stack \<longleftrightarrow> keeps rules (gc_id tok) (gc_partial_utf8 tok) (gc_rest tok) stack"

lemma gc_char_ok:
  assumes "cand_ok tok"
  obtains c where "gc_char tok = Some c" "c = 0 \<longleftrightarrow> gc_rest tok = []"
    "c \<noteq> 0 \<Longrightarrow> gc_rest tok = c # gc_rest (gc_forward tok)" "c \<noteq> 0 \<Longrightarrow> cand_ok (gc_forward tok)"
proof -
  obtain c cs where d: "drop (gc_offset tok) (gc_code_points tok) = c # cs"
    using assms by (cases "drop (gc_offset tok) (gc_code_points tok)") (auto simp: cand_ok_def)
  then have "gc_char tok = Some c" "drop (Suc (gc_offset tok)) (gc_code_points tok) = cs"
    by (auto simp: gc_char_def drop_eq_Cons)
  with d assms that[of c] show thesis by (auto simp: gc_rest_def gc_forward_def cand_ok_def)
qed

lemma gc_back_forward [simp]: "gc_back (gc_forward tok) = tok"
  by (simp add: gc_back_def gc_forward_def)

lemma gc_forward_fields [simp]:
  "gc_id (gc_forward tok) = gc_id tok" "gc_partial_utf8 (gc_forward tok) = gc_partial_utf8 tok"
  by (simp_all add: gc_forward_def)

lemma filterM_Some:
  assumes "\<And>x. x \<in> set xs \<Longrightarrow> f x = Some (g x)"
  shows "filterM f xs = Some (filter g xs)"
proof -
  have "foldM (\<lambda>x acc. do { b \<leftarrow> f x; Some (if b then acc @ [x] else acc) }) xs ys = Some (ys @ filter g xs)" for ys
    using assms by (induction xs arbitrary: ys) auto
  then show ?thesis by (simp add: filterM_def)
qed

section \<open>One stack\<close>

definition fails_now :: "llama_grammar_rules \<Rightarrow> element_pos \<Rightarrow> llama_grammar_candidate \<Rightarrow> bool" where
  "fails_now rules pos tok \<longleftrightarrow>
     (case gc_rest tok of
        [] \<Rightarrow> pu_n_remain (gc_partial_utf8 tok) \<noteq> 0 \<and> \<not> partial_in_class rules pos (gc_partial_utf8 tok)
      | c # _ \<Rightarrow> \<not> in_class rules pos c)"

definition goes_on :: "llama_grammar_rules \<Rightarrow> element_pos \<Rightarrow> llama_grammar_candidate \<Rightarrow> bool" where
  "goes_on rules pos tok \<longleftrightarrow> (case gc_rest tok of [] \<Rightarrow> False | c # _ \<Rightarrow> in_class rules pos c)"

lemma reject_step_loop:
  assumes "pos_ok rules pos" "element_at rules pos = Some e" "is_char_start (el_type e)" "\<forall>tok \<in> set cands. cand_ok tok"
  shows "foldM (reject_step rules pos) cands (rejects, nexts) =
    Some (rejects @ filter (fails_now rules pos) cands, nexts @ map gc_forward (filter (goes_on rules pos) cands))"
  using assms(4)
proof (induction cands arbitrary: rejects nexts)
  case (Cons tok cands)
  from Cons.prems obtain c where c: "gc_char tok = Some c" "c = 0 \<longleftrightarrow> gc_rest tok = []"
    "c \<noteq> 0 \<Longrightarrow> gc_rest tok = c # gc_rest (gc_forward tok)" by (auto elim: gc_char_ok)
  show ?case
  proof (cases "c = 0")
    case True
    then have r: "gc_rest tok = []" using c(2) by simp
    have "reject_step rules pos tok (rejects, nexts) =
        Some (if fails_now rules pos tok then rejects @ [tok] else rejects, nexts)"
      using True c(1) r by (auto simp: reject_step_def fails_now_def match_partial_char_class[OF assms(1-3)])
    then show ?thesis using Cons r by (simp add: goes_on_def)
  next
    case False
    then have r: "gc_rest tok = c # gc_rest (gc_forward tok)" using c(3) by simp
    have "reject_step rules pos tok (rejects, nexts) =
        Some (if in_class rules pos c then (rejects, nexts @ [gc_forward tok]) else (rejects @ [tok], nexts))"
      using False c(1) by (simp add: reject_step_def match_char_in_class[OF assms(1-3)])
    then show ?thesis using Cons r by (simp add: goes_on_def fails_now_def)
  qed
qed simp

text \<open>
  One stack, when the recursive call is right for collections of good stacks and candidates with fewer code
  points left.
\<close>

definition rejects_right ::
  "llama_grammar_rules \<Rightarrow> llama_grammar_stacks \<Rightarrow> llama_grammar_candidate list \<Rightarrow> llama_grammar_candidate list option \<Rightarrow> bool" where
  "rejects_right rules stacks cands r \<longleftrightarrow>
     (\<exists>rejects. r = Some rejects \<and> set rejects = {tok \<in> set cands. \<forall>stack \<in> set stacks. \<not> kept rules tok stack})"

lemma reject_for_stack_right:
  assumes "rules_good rules" "stack_ok rules stack" "ends_in_terminal rules stack" "\<forall>tok \<in> set cands. cand_ok tok"
    and rec: "\<And>ss cs. ss \<noteq> [] \<Longrightarrow> stacks_good rules ss \<Longrightarrow>
      (\<forall>tok \<in> set cs. cand_ok tok \<and> (\<exists>tok' \<in> set cands. length (gc_rest tok) < length (gc_rest tok'))) \<Longrightarrow>
      rejects_right rules ss cs (rr ss cs)"
  shows "rejects_right rules [stack] cands (reject_for_stack rr rules stack cands)"
  using assms(2,3)
proof (cases rule: good_stack_cases)
  case 1
  have "do { c \<leftarrow> gc_char tok; Some (c \<noteq> 0 \<or> pu_n_remain (gc_partial_utf8 tok) \<noteq> 0) } = Some (\<not> kept rules tok [])"
    if "tok \<in> set cands" for tok
  proof -
    from that assms(4) obtain c where "gc_char tok = Some c" "c = 0 \<longleftrightarrow> gc_rest tok = []" by (auto elim: gc_char_ok)
    then show ?thesis by (cases "gc_rest tok") (simp_all add: kept_def keeps_end_def)
  qed
  then show ?thesis unfolding 1 reject_for_stack_def rejects_right_def by (simp add: filterM_Some)
next
  case (2 pos rest e)
  have top: "top_is_token rules pos" using 2 by (simp add: top_is_token_def)
  obtain m where m: "llama_grammar_match_token rules pos (gc_id tok) = Some (m tok)" for tok :: llama_grammar_candidate
    using 2 that[of "\<lambda>tok. the (llama_grammar_match_token rules pos (gc_id tok))"]
    by (simp add: llama_grammar_match_token_def)
  have "do { c \<leftarrow> gc_char tok;
             if c = 0 then Some (pu_n_remain (gc_partial_utf8 tok) \<noteq> 0)
             else map_option Not (llama_grammar_match_token rules pos (gc_id tok)) } = Some (\<not> kept rules tok stack)"
    if "tok \<in> set cands" for tok
  proof -
    from that assms(4) obtain c where "gc_char tok = Some c" "c = 0 \<longleftrightarrow> gc_rest tok = []" by (auto elim: gc_char_ok)
    then show ?thesis using 2 top m[of tok]
      by (cases "gc_rest tok") (simp_all add: kept_def keeps_end_def partial_in_class_def)
  qed
  then show ?thesis using 2 unfolding reject_for_stack_def rejects_right_def by (simp add: filterM_Some)
next
  case (3 pos rest e)
  have top: "\<not> top_is_token rules pos" using 3 by (simp add: top_is_token_def)
  note m = match_char_in_class[OF 3(5,2,3)]
  have ok: "rules_ok rules" using assms(1) by (simp add: rules_good_def)
  obtain s where s: "push_pos rules (class_end rules pos) rest = Some s" "stack_ok rules s"
    using push_pos_ok[OF m(2) 3(6)] by blast
  obtain ss where ss: "llama_grammar_advance_stack rules s [] = Some ss" using advance_total[OF assms(1) s(2)] by blast
  have after: "after_class rules pos rest = ss" using s(1) ss by (simp add: after_class_def)
  have good: "ss \<noteq> []" "stacks_good rules ss"
    using advance_nonempty[OF assms(1) s(2) ss] advances_good[OF advance_stack_advances[OF ss ok s(2)]] by auto
  let ?go = "filter (goes_on rules pos) cands"
  have fw: "cand_ok (gc_forward tok) \<and> (\<exists>c. in_class rules pos c \<and> gc_rest tok = c # gc_rest (gc_forward tok))"
    if "tok \<in> set ?go" for tok
  proof -
    have "cand_ok tok" using that assms(4) by simp
    then obtain c where "c = 0 \<longleftrightarrow> gc_rest tok = []"
      "c \<noteq> 0 \<Longrightarrow> gc_rest tok = c # gc_rest (gc_forward tok)" "c \<noteq> 0 \<Longrightarrow> cand_ok (gc_forward tok)" by (rule gc_char_ok) blast
    then show ?thesis using that by (auto simp: goes_on_def split: list.splits)
  qed
  have "rejects_right rules ss (map gc_forward ?go) (rr ss (map gc_forward ?go))"
  proof (rule rec[OF good], intro ballI)
    fix tok assume "tok \<in> set (map gc_forward ?go)"
    then obtain t where t: "t \<in> set ?go" "tok = gc_forward t" by auto
    have "length (gc_rest tok) < length (gc_rest t)" using fw[OF t(1)] t(2) by auto
    then show "cand_ok tok \<and> (\<exists>tok' \<in> set cands. length (gc_rest tok) < length (gc_rest tok'))"
      using fw[OF t(1)] t by auto
  qed
  then obtain nr where nr: "rr ss (map gc_forward ?go) = Some nr"
      "set nr = {tok \<in> set (map gc_forward ?go). \<forall>stack \<in> set ss. \<not> kept rules tok stack}"
    by (auto simp: rejects_right_def)
  have "reject_for_stack rr rules stack cands = Some (filter (fails_now rules pos) cands @ map gc_back nr)"
    using 3(1,2,4) s(1) ss nr(1)
    by (simp add: reject_for_stack_def reject_step_loop[OF 3(5,2,3) assms(4)] m(1))
  moreover have "set (map gc_back nr) = {tok \<in> set ?go. \<forall>stack \<in> set ss. \<not> kept rules (gc_forward tok) stack}"
    unfolding set_map nr(2) by force
  moreover have "fails_now rules pos tok \<or> (goes_on rules pos tok \<and> (\<forall>stack \<in> set ss. \<not> kept rules (gc_forward tok) stack))
      \<longleftrightarrow> \<not> kept rules tok stack" if "tok \<in> set cands" for tok
  proof (cases "goes_on rules pos tok")
    case True
    with fw[of tok] that obtain c where "in_class rules pos c" "gc_rest tok = c # gc_rest (gc_forward tok)" by auto
    then show ?thesis using True top after by (simp add: 3(1) kept_def fails_now_def)
  next
    case False
    then show ?thesis using top
      by (cases "gc_rest tok") (auto simp: 3(1) goes_on_def kept_def fails_now_def keeps_end_def)
  qed
  ultimately show ?thesis by (auto simp: rejects_right_def)
qed

section \<open>All stacks\<close>

lemma reject_fold_right:
  assumes "\<And>stack cs. stack \<in> set stacks \<Longrightarrow> set cs \<subseteq> set cands \<Longrightarrow> rejects_right rules [stack] cs (f stack cs)"
    and "set cs \<subseteq> set cands"
  shows "rejects_right rules stacks cs (foldM f stacks cs)"
  using assms
proof (induction stacks arbitrary: cs)
  case (Cons stack stacks)
  obtain r where r: "f stack cs = Some r" "set r = {tok \<in> set cs. \<not> kept rules tok stack}"
    using Cons.prems(1)[of stack cs] Cons.prems(2) by (auto simp: rejects_right_def)
  have "rejects_right rules stacks r (foldM f stacks r)"
    by (rule Cons.IH) (use Cons.prems r(2) in auto)
  then show ?case using r by (auto simp: rejects_right_def)
qed (simp add: rejects_right_def)

lemma reject_candidates_right:
  assumes "rules_good rules" "stacks \<noteq> []" "stacks_good rules stacks" "\<forall>tok \<in> set cands. cand_ok tok"
  shows "rejects_right rules stacks cands (llama_grammar_reject_candidates rules stacks cands)"
  using assms(2-)
proof (induction "Max (insert 0 ((\<lambda>tok. length (gc_rest tok)) ` set cands))" arbitrary: stacks cands rule: less_induct)
  case less
  show ?case
  proof (cases "cands = []")
    case True
    then show ?thesis using less.prems(1)
      by (subst llama_grammar_reject_candidates.simps) (simp add: rejects_right_def)
  next
    case False
    have "rejects_right rules stacks cands
        (foldM (reject_for_stack (llama_grammar_reject_candidates rules) rules) stacks cands)"
    proof (rule reject_fold_right[OF _ order_refl])
      fix stack cs assume stack: "stack \<in> set stacks" and cs: "set cs \<subseteq> set cands"
      show "rejects_right rules [stack] cs (reject_for_stack (llama_grammar_reject_candidates rules) rules stack cs)"
      proof (rule reject_for_stack_right[OF assms(1)])
        fix ss cs'
        assume ss: "ss \<noteq> []" "stacks_good rules ss" and
          cs': "\<forall>tok \<in> set cs'. cand_ok tok \<and> (\<exists>tok' \<in> set cs. length (gc_rest tok) < length (gc_rest tok'))"
        show "rejects_right rules ss cs' (llama_grammar_reject_candidates rules ss cs')"
        proof (cases "cs' = []")
          case True
          then show ?thesis using ss(1)
            by (subst llama_grammar_reject_candidates.simps) (simp add: rejects_right_def)
        next
          case ne: False
          have "Max (insert 0 ((\<lambda>tok. length (gc_rest tok)) ` set cs'))
              < Max (insert 0 ((\<lambda>tok. length (gc_rest tok)) ` set cands))" (is "_ < Max ?B")
          proof (subst Max_less_iff)
            have in_B: "length (gc_rest tok') \<le> Max ?B" if "tok' \<in> set cands" for tok'
              using that by (intro Max_ge) auto
            have bound: "length (gc_rest tok) < Max ?B" if "tok \<in> set cs'" for tok
              using that cs' cs in_B by (meson less_le_trans subsetD)
            moreover from ne obtain t where "t \<in> set cs'" by (cases cs') auto
            ultimately show "\<forall>a \<in> insert 0 ((\<lambda>tok. length (gc_rest tok)) ` set cs'). a < Max ?B" by fastforce
          qed auto
          then show ?thesis using cs' by (intro less.hyps ss) auto
        qed
      qed (use stack cs less.prems in \<open>auto simp: stacks_good_def\<close>)
    qed
    then show ?thesis using False less.prems(1) by (subst llama_grammar_reject_candidates.simps) simp
  qed
qed

end
