(* ===== verification/GrammarApply.thy ===== *)
theory GrammarApply
  imports GrammarMask
begin

text \<open>
  Masking the candidates of the sampler and accepting the sampled token agree: what \<open>llama_grammar_apply_impl\<close>
  masks, and which tokens \<open>llama_grammar_accept_token\<close> then takes without an exception.
\<close>

section \<open>The stacks after a character\<close>

definition next_stacks :: "llama_grammar_rules \<Rightarrow> llama_grammar_stack \<Rightarrow> cpt \<Rightarrow> llama_grammar_stack set" where
  "next_stacks rules stack c =
     (case stack of
        [] \<Rightarrow> {}
      | pos # rest \<Rightarrow> if \<not> top_is_token rules pos \<and> in_class rules pos c then set (after_class rules pos rest) else {})"

lemma accept_chr_next_stacks:
  assumes "llama_grammar_accept_chr rules stack c old = Some new" "rules_good rules" "stack_ok rules stack"
    "ends_in_terminal rules stack"
  shows "set new = set old \<union> next_stacks rules stack c"
  using assms(3,4)
proof (cases rule: good_stack_cases)
  case (3 pos rest e)
  note m = match_char_in_class[OF 3(5,2,3)]
  have ok: "rules_ok rules" using assms(2) by (simp add: rules_good_def)
  obtain s where s: "push_pos rules (class_end rules pos) rest = Some s" "stack_ok rules s"
    using push_pos_ok[OF m(2) 3(6)] by blast
  obtain ss where ss: "llama_grammar_advance_stack rules s [] = Some ss" using advance_total[OF assms(2) s(2)] by blast
  have "set ss = {t. expands rules s t}" using advance_stack_expands[OF ss ok s(2)] by simp
  then show ?thesis using assms(1) 3 s ss advance_stack_expands[of rules s old new, OF _ ok s(2)]
    by (auto simp: llama_grammar_accept_chr_def m(1) next_stacks_def top_is_token_def after_class_def split: if_splits)
qed (use assms(1) in \<open>auto simp: llama_grammar_accept_chr_def next_stacks_def top_is_token_def\<close>)

lemma accept_chr_stacks_next:
  assumes "accept_chr_stacks rules c stacks = Some new" "rules_good rules" "stacks_good rules stacks"
  shows "set new = (\<Union>stack \<in> set stacks. next_stacks rules stack c)"
proof -
  have "set new = set [] \<union> (\<Union>stack \<in> set stacks. next_stacks rules stack c)"
    by (rule foldM_set_union[OF assms(1)[unfolded accept_chr_stacks_def]])
      (use assms(2,3) in \<open>auto simp: stacks_good_def dest: accept_chr_next_stacks\<close>)
  then show ?thesis by simp
qed

section \<open>Grammars without token elements\<close>

definition token_free :: "llama_grammar_rules \<Rightarrow> bool" where
  "token_free rules \<longleftrightarrow> (\<forall>rule \<in> set rules. \<forall>e \<in> set rule. \<not> is_token_type (el_type e))"

lemma token_free_top: "token_free rules \<Longrightarrow> \<not> top_is_token rules pos"
  by (auto simp: token_free_def top_is_token_def element_at_def bind_eq_Some_conv all_set_conv_all_nth split: option.splits)

lemma keeps_next:
  "token_free rules \<Longrightarrow> keeps rules token p (c # cs) stack \<longleftrightarrow> (\<exists>s \<in> next_stacks rules stack c. keeps rules token p cs s)"
  by (cases stack) (auto simp: next_stacks_def token_free_top)

lemma accept_code_points_keeps:
  assumes "accept_code_points rules cs stacks = Some new" "rules_good rules" "stacks_good rules stacks" "token_free rules"
  shows "(\<exists>s \<in> set stacks. keeps rules token p cs s) \<longleftrightarrow> (\<exists>s \<in> set new. keeps_end rules p s)"
  using assms
proof (induction rules cs stacks rule: accept_code_points.induct)
  case (2 rules c cs stacks)
  from 2(2) obtain ss where n: "accept_chr_stacks rules c stacks = Some ss"
      "ss = [] \<and> new = [] \<or> ss \<noteq> [] \<and> accept_code_points rules cs ss = Some new"
    by (auto simp: bind_eq_Some_conv split: if_splits)
  have ok: "rules_ok rules" using 2(3) by (simp add: rules_good_def)
  have good: "stacks_good rules ss" using accept_chr_stacks_lang[OF n(1) ok 2(4)] by blast
  have "(\<exists>s \<in> set stacks. keeps rules token p (c # cs) s) \<longleftrightarrow> (\<exists>s \<in> set ss. keeps rules token p cs s)"
    unfolding keeps_next[OF 2(5)] accept_chr_stacks_next[OF n(1) 2(3,4)] by blast
  also have "\<dots> \<longleftrightarrow> (\<exists>s \<in> set new. keeps_end rules p s)"
  proof (cases "ss = []")
    case False
    with n(2) have "accept_code_points rules cs ss = Some new" by simp
    from 2(1)[OF n(1) False this 2(3) good 2(5)] show ?thesis .
  qed (use n(2) in simp)
  finally show ?case .
qed simp

lemma keeps_end_full: "pu_n_remain p = 0 \<Longrightarrow> keeps_end rules p s"
  by (simp add: keeps_end_def)

text \<open>Accepting a token fails with an empty collection exactly when no stack takes its code points.\<close>

lemma accept_token_stacks:
  assumes "foldM (accept_token_stack rules token cs) stacks [] = Some new" "rules_good rules" "stacks_good rules stacks"
    "token_free rules"
  shows "(\<exists>s \<in> set new. keeps_end rules p s) \<longleftrightarrow> (\<exists>s \<in> set stacks. s \<noteq> [] \<and> keeps rules token p cs s)"
proof -
  let ?A = "\<lambda>s. if s = [] then {} else set (the (accept_code_points rules cs [s]))"
  have "set new = set [] \<union> (\<Union>s \<in> set stacks. ?A s)"
  proof (rule foldM_set_union[OF assms(1)])
    fix s a b assume s: "s \<in> set stacks" and f: "accept_token_stack rules token cs s a = Some b"
    have fold: "set (fold add_stack ss a) = set a \<union> set ss" for ss
      by (induction ss arbitrary: a) (auto simp: add_stack_def)
    have top: "\<not> top_is_token rules pos" for pos using token_free_top[OF assms(4)] .
    show "set b = set a \<union> ?A s"
    proof (cases s)
      case Nil
      with f show ?thesis by (simp add: accept_token_stack_def)
    next
      case (Cons pos rest)
      from f Cons obtain e where "element_at rules pos = Some e" by (auto simp: accept_token_stack_def bind_eq_Some_conv)
      moreover with top[of pos] have "\<not> is_token_type (el_type e)" by (simp add: top_is_token_def)
      ultimately obtain ss where "accept_code_points rules cs [s] = Some ss" "b = fold add_stack ss a"
        using f Cons by (auto simp: accept_token_stack_def bind_eq_Some_conv)
      then show ?thesis using Cons by (simp only: fold) simp
    qed
  qed
  then have new: "set new = (\<Union>s \<in> set stacks. ?A s)" by simp
  have "(\<exists>t \<in> ?A s. keeps_end rules p t) \<longleftrightarrow> s \<noteq> [] \<and> keeps rules token p cs s" if s: "s \<in> set stacks" for s
  proof (cases "s = []")
    case False
    have g: "stacks_good rules [s]" using assms(3) s by (simp add: stacks_good_def)
    obtain ss where "accept_code_points rules cs [s] = Some ss" using accept_code_points_total[OF assms(2) g] by blast
    from accept_code_points_keeps[OF this assms(2) g assms(4), of token p] this False show ?thesis by simp
  qed simp
  then show ?thesis unfolding new by blast
qed

section \<open>Masking\<close>

lemma decode_utf8_ends: "\<exists>cs. fst (decode_utf8 src p) = cs @ [0]"
  by (auto simp: decode_utf8_def Let_def split: option.split prod.split)

definition candidate :: "llama_grammar \<Rightarrow> nat \<Rightarrow> llama_token \<Rightarrow> bytes \<Rightarrow> llama_grammar_candidate" where
  "candidate g i token piece =
     \<lparr>gc_index = i, gc_code_points = fst (decode_utf8 piece (gr_partial_utf8 g)), gc_offset = 0,
      gc_partial_utf8 = snd (decode_utf8 piece (gr_partial_utf8 g)), gc_id = token\<rparr>"

lemma candidate_ok: "cand_ok (candidate g i token piece)"
  using decode_utf8_ends[of piece "gr_partial_utf8 g"] by (auto simp: cand_ok_def candidate_def)

text \<open>Whether a token is masked.\<close>

definition token_masked :: "llama_vocab \<Rightarrow> llama_grammar \<Rightarrow> llama_token \<Rightarrow> bool" where
  "token_masked vocab g token =
     (let piece = the (token_to_piece vocab token) in
      if is_eog vocab token then [] \<notin> set (gr_stacks g)
      else piece = [] \<or> hd piece = 0 \<or> \<not> (\<exists>stack \<in> set (gr_stacks g). kept (gr_rules g) (candidate g 0 token piece) stack))"

definition token_masked_early :: "llama_vocab \<Rightarrow> llama_grammar \<Rightarrow> llama_token \<Rightarrow> bool" where
  "token_masked_early vocab g token =
     (let piece = the (token_to_piece vocab token) in
      if is_eog vocab token then [] \<notin> set (gr_stacks g) else piece = [] \<or> hd piece = 0)"

definition is_candidate :: "llama_vocab \<Rightarrow> llama_token \<Rightarrow> bool" where
  "is_candidate vocab token =
     (let piece = the (token_to_piece vocab token) in \<not> is_eog vocab token \<and> piece \<noteq> [] \<and> hd piece \<noteq> 0)"

definition mask_data :: "(nat \<Rightarrow> bool) \<Rightarrow> llama_token_data list \<Rightarrow> llama_token_data list" where
  "mask_data m data = map (\<lambda>i. if m i then (data ! i)\<lparr>td_logit := NEG_INFINITY\<rparr> else data ! i) [0..<length data]"

lemma mask_data_none: "mask_data (\<lambda>_. False) data = data"
  by (simp add: mask_data_def map_nth)

lemma set_logit_mask: "i < length data \<Longrightarrow> set_logit i (mask_data m data) = mask_data (m(i := True)) data"
  by (rule nth_equalityI) (auto simp: set_logit_def mask_data_def nth_list_update)

lemma length_mask_data [simp]: "length (mask_data m data) = length data"
  by (simp add: mask_data_def)

lemma td_id_mask [simp]: "i < length data \<Longrightarrow> td_id (mask_data m data ! i) = td_id (data ! i)"
  by (simp add: mask_data_def)

lemma apply_candidate_loop:
  assumes "\<forall>d \<in> set data. token_to_piece vocab (td_id d) \<noteq> None" "n \<le> length data"
  shows "foldM (apply_candidate vocab g ([] \<in> set (gr_stacks g))) [0..<n] (data, []) =
    Some (mask_data (\<lambda>i. i < n \<and> token_masked_early vocab g (td_id (data ! i))) data,
          map (\<lambda>i. candidate g i (td_id (data ! i)) (the (token_to_piece vocab (td_id (data ! i)))))
            (filter (\<lambda>i. is_candidate vocab (td_id (data ! i))) [0..<n]))"
  using assms(2)
proof (induction n)
  case 0
  show ?case by (simp add: mask_data_none)
next
  case (Suc n)
  let ?m = "\<lambda>i. i < n \<and> token_masked_early vocab g (td_id (data ! i))"
  have n: "n < length data" using Suc.prems by simp
  obtain piece where piece: "token_to_piece vocab (td_id (data ! n)) = Some piece" using assms(1) n nth_mem by blast
  have upd: "mask_data (?m(n := True)) data = mask_data (\<lambda>i. i < Suc n \<and> token_masked_early vocab g (td_id (data ! i))) data"
    if "token_masked_early vocab g (td_id (data ! n))"
    using that by (auto simp: mask_data_def less_Suc_eq)
  have same: "mask_data ?m data = mask_data (\<lambda>i. i < Suc n \<and> token_masked_early vocab g (td_id (data ! i))) data"
    if "\<not> token_masked_early vocab g (td_id (data ! n))"
    using that by (auto simp: mask_data_def less_Suc_eq)
  let ?cands = "map (\<lambda>i. candidate g i (td_id (data ! i)) (the (token_to_piece vocab (td_id (data ! i)))))
            (filter (\<lambda>i. is_candidate vocab (td_id (data ! i))) [0..<n])"
  let ?t = "td_id (data ! n)"
  have "apply_candidate vocab g ([] \<in> set (gr_stacks g)) n (mask_data ?m data, ?cands) =
      Some (if token_masked_early vocab g ?t then set_logit n (mask_data ?m data) else mask_data ?m data,
            if is_candidate vocab ?t then ?cands @ [candidate g n ?t piece] else ?cands)"
    using n piece by (simp add: apply_candidate_def token_masked_early_def is_candidate_def candidate_def Let_def split: prod.split)
  then show ?case using Suc n piece upd same by (simp add: foldM_snoc set_logit_mask)
qed

lemma fold_set_logit:
  assumes "\<forall>r \<in> set rejects. gc_index r < length data"
  shows "fold (\<lambda>r. set_logit (gc_index r)) rejects (mask_data m data) =
    mask_data (\<lambda>i. m i \<or> (\<exists>r \<in> set rejects. gc_index r = i)) data"
  using assms
proof (induction rejects arbitrary: m)
  case (Cons r rejects)
  then have "fold (\<lambda>r. set_logit (gc_index r)) (r # rejects) (mask_data m data) =
    mask_data (\<lambda>i. (m(gc_index r := True)) i \<or> (\<exists>r \<in> set rejects. gc_index r = i)) data"
    by (simp add: set_logit_mask)
  also have "\<dots> = mask_data (\<lambda>i. m i \<or> (\<exists>r' \<in> set (r # rejects). gc_index r' = i)) data"
    by (rule arg_cong2[where f=mask_data]) auto
  finally show ?case .
qed simp

lemma kept_candidate: "kept rules (candidate g i token piece) stack = kept rules (candidate g j token piece) stack"
  by (simp add: kept_def candidate_def gc_rest_def)

lemma apply_impl_masks:
  assumes "grammar_good g" "gr_stacks g \<noteq> []" "gr_vocab g = Some vocab" "\<not> gr_awaiting_trigger g"
    and "\<forall>d \<in> set data. token_to_piece vocab (td_id d) \<noteq> None"
  shows "llama_grammar_apply_impl g data = Some (mask_data (\<lambda>i. token_masked vocab g (td_id (data ! i))) data)"
proof -
  let ?piece = "\<lambda>i. the (token_to_piece vocab (td_id (data ! i)))"
  let ?cand = "\<lambda>i. candidate g i (td_id (data ! i)) (?piece i)"
  let ?ids = "filter (\<lambda>i. is_candidate vocab (td_id (data ! i))) [0..<length data]"
  let ?early = "\<lambda>i. i < length data \<and> token_masked_early vocab g (td_id (data ! i))"
  have "rejects_right (gr_rules g) (gr_stacks g) (map ?cand ?ids)
      (llama_grammar_reject_candidates (gr_rules g) (gr_stacks g) (map ?cand ?ids))"
    by (rule reject_candidates_right) (use assms(1,2) in \<open>auto simp: grammar_good_def candidate_ok\<close>)
  then obtain rejects where r: "llama_grammar_reject_candidates (gr_rules g) (gr_stacks g) (map ?cand ?ids) = Some rejects"
    "set rejects = {tok \<in> set (map ?cand ?ids). \<forall>stack \<in> set (gr_stacks g). \<not> kept (gr_rules g) tok stack}"
    by (auto simp: rejects_right_def)
  have index: "(\<exists>r \<in> set rejects. gc_index r = i) \<longleftrightarrow> i \<in> set ?ids \<and> (\<forall>stack \<in> set (gr_stacks g). \<not> kept (gr_rules g) (?cand i) stack)" for i
    unfolding r(2) by (auto simp: candidate_def)
  have bound: "\<forall>r \<in> set rejects. gc_index r < length data" unfolding r(2) by (auto simp: candidate_def)
  have "llama_grammar_apply_impl g data = Some (fold (\<lambda>r. set_logit (gc_index r)) rejects (mask_data ?early data))"
    using assms(3,4) r(1) by (simp add: llama_grammar_apply_impl_def apply_candidate_loop[OF assms(5) order_refl])
  also have "fold (\<lambda>r. set_logit (gc_index r)) rejects (mask_data ?early data) =
      mask_data (\<lambda>i. ?early i \<or> (\<exists>r \<in> set rejects. gc_index r = i)) data" by (rule fold_set_logit[OF bound])
  also have "\<dots> = mask_data (\<lambda>i. token_masked vocab g (td_id (data ! i))) data"
  proof -
    have "?early i \<or> (\<exists>r \<in> set rejects. gc_index r = i) \<longleftrightarrow> token_masked vocab g (td_id (data ! i))" if "i < length data" for i
    proof -
      have k: "kept (gr_rules g) (?cand i) s = kept (gr_rules g) (candidate g 0 (td_id (data ! i)) (?piece i)) s" for s
        by (rule kept_candidate)
      show ?thesis unfolding index k using that by (auto simp: token_masked_def token_masked_early_def is_candidate_def Let_def)
    qed
    then show ?thesis unfolding mask_data_def by (intro map_cong[OF refl]) auto
  qed
  finally show ?thesis .
qed

section \<open>Masked tokens and accepted tokens\<close>

lemma decode_loop_nonempty:
  "decode_loop bytes cps v n = Some (cps', v', n') \<Longrightarrow> n' = 0 \<Longrightarrow> cps' \<noteq> [] \<or> bytes = [] \<and> cps = []"
proof (induction bytes cps v n arbitrary: cps' v' n' rule: decode_loop.induct)
  case (1 bytes cps v n)
  show ?case
  proof (cases bytes)
    case Nil
    with 1(2) show ?thesis by (subst (asm) decode_loop.simps) simp
  next
    case (Cons b bs)
    let ?n = "utf8_lookup ! unat (drop_bit 4 b) - 1"
    obtain bs1 v1 n1 where t: "take_sequence bs (ucast (b AND (push_bit (nat (7 - ?n)) 1 - 1))) ?n = (bs1, v1, n1)"
      by (cases "take_sequence bs (ucast (b AND (push_bit (nat (7 - ?n)) 1 - 1))) ?n")
    have n: "\<not> ?n < 0" and l: "decode_loop bs1 (if n1 = 0 then cps @ [v1] else cps) v1 n1 = Some (cps', v', n')"
      using 1(2) t by (subst (asm) decode_loop.simps, simp add: Cons Let_def split: if_splits)+
    from 1(1)[OF Cons refl n refl refl t[symmetric] refl l 1(3)] l 1(3)
    show ?thesis by (auto simp: decode_loop.simps[of "[]"] split: if_splits)
  qed
qed

lemma continue_decode_rest:
  "continue_decode bs v n = Some (bs', v', n') \<Longrightarrow> bs' = [] \<or> n' \<le> 0" "continue_decode bs v n = Some (bs', v', n') \<Longrightarrow> n \<le> 0 \<Longrightarrow> bs' = bs \<and> n' = n"
  "continue_decode bs v n = Some (bs', v', n') \<Longrightarrow> 0 \<le> n \<Longrightarrow> 0 \<le> n'"
  by (induction bs v n rule: continue_decode.induct) (auto split: if_splits)

text \<open>A piece that leaves no sequence open has given a code point.\<close>

lemma decode_utf8_nonempty:
  assumes "decode_utf8 src p = (cs @ [0], q)" "c_str src \<noteq> []" "pu_n_remain q = 0"
  shows "cs \<noteq> []"
proof -
  obtain bs v n where c: "continue_decode (c_str src) (pu_value p) (pu_n_remain p) = Some (bs, v, n)"
    using assms by (auto simp: decode_utf8_def split: option.splits)
  let ?cps = "if pu_n_remain p > 0 \<and> n = 0 then [v] else []"
  obtain v' n' where d: "decode_loop bs ?cps v n = Some (cs, v', n')" "n' = 0"
    using assms by (auto simp: decode_utf8_def c Let_def split: option.splits)
  have "bs \<noteq> [] \<or> ?cps \<noteq> []"
  proof (rule ccontr)
    assume no: "\<not> (bs \<noteq> [] \<or> ?cps \<noteq> [])"
    then have "n = 0" using d by (auto simp: decode_loop.simps[of "[]"] split: if_splits)
    with no have "pu_n_remain p \<le> 0" by (auto split: if_splits)
    with continue_decode_rest(2)[OF c] no assms(2) show False by simp
  qed
  with decode_loop_nonempty[OF d] show ?thesis by blast
qed

lemma token_masked_accept:
  assumes "grammar_good g" "token_free (gr_rules g)" "token_to_piece vocab token = Some piece"
    and "is_candidate vocab token" "0 \<notin> set (butlast (fst (decode_utf8 piece (gr_partial_utf8 g))))"
  shows "\<not> token_masked vocab g token \<Longrightarrow> \<exists>g'. llama_grammar_accept_token g token piece = Some (g', None)"
    and "pu_n_remain (snd (decode_utf8 piece (gr_partial_utf8 g))) = 0 \<Longrightarrow> token_masked vocab g token \<Longrightarrow>
      \<exists>g'. llama_grammar_accept_token g token piece = Some (g', Some Unexpected_empty_grammar_stack)"
proof -
  let ?rules = "gr_rules g"
  obtain cs p where d: "decode_utf8 piece (gr_partial_utf8 g) = (cs @ [0], p)"
    using decode_utf8_ends by (metis prod.collapse)
  have good: "rules_good ?rules" "stacks_good ?rules (gr_stacks g)" using assms(1) by (simp_all add: grammar_good_def)
  obtain g' thrown where a: "llama_grammar_accept_token g token piece = Some (g', thrown)" "thrown = None \<longleftrightarrow> gr_stacks g' \<noteq> []"
    using accept_token_good[OF assms(1)] by blast
  have thrown: "thrown = Some Unexpected_empty_grammar_stack" if "gr_stacks g' = []"
    using that a(2) by (metis grammar_error.exhaust option.exhaust)
  have new: "foldM (accept_token_stack ?rules token cs) (gr_stacks g) [] = Some (gr_stacks g')"
    using a(1) by (auto simp: llama_grammar_accept_token_def d bind_eq_Some_conv)
  have rest: "gc_rest (candidate g 0 token piece) = cs" using assms(5) by (simp add: gc_rest_def candidate_def d takeWhile_append1)
       (metis (mono_tags, lifting) append_Nil2 takeWhile.simps(2) takeWhile_append2)
  have token_masked: "\<not> token_masked vocab g token \<longleftrightarrow> (\<exists>s \<in> set (gr_stacks g). keeps ?rules token p cs s)"
    using assms(3,4) rest by (simp add: token_masked_def is_candidate_def Let_def kept_def candidate_def d)
  have str: "c_str piece \<noteq> []" using assms(3,4) by (cases piece) (simp_all add: is_candidate_def c_str_def)
  have empty: "\<not> keeps ?rules token p cs []"
    using decode_utf8_nonempty[OF d str] by (cases cs) (auto simp: keeps_end_def)
  have stacks: "(\<exists>s \<in> set (gr_stacks g'). keeps_end ?rules p s) \<longleftrightarrow> \<not> token_masked vocab g token"
    unfolding accept_token_stacks[OF new good assms(2)] token_masked using empty by metis
  show "\<exists>g'. llama_grammar_accept_token g token piece = Some (g', None)" if "\<not> token_masked vocab g token"
    using that stacks a by fastforce
  show "\<exists>g'. llama_grammar_accept_token g token piece = Some (g', Some Unexpected_empty_grammar_stack)"
    if "pu_n_remain (snd (decode_utf8 piece (gr_partial_utf8 g))) = 0" "token_masked vocab g token"
  proof -
    have "gr_stacks g' = []" using that stacks keeps_end_full[of p] d by (cases "gr_stacks g'") auto
    with a(1) thrown show ?thesis by blast
  qed
qed

end
