(* ===== verification/GrammarUtf8.thy ===== *)
theory GrammarUtf8
  imports GrammarRun Utf8
begin

text \<open>
  The decoder of the grammar against a reference that reads one byte at a time: on valid input the code
  points do not depend on how the bytes are cut into pieces, and decoding inverts the encoder of
  \<open>src/unicode.cpp\<close>.
\<close>

section \<open>A decoder of single bytes\<close>

type_synonym decoder_state = "cpt list \<times> cpt \<times> int"

definition next_value :: "cpt \<Rightarrow> byte \<Rightarrow> cpt" where
  "next_value v b = push_bit 6 v + (ucast b AND 0x3F)"

definition start_value :: "byte \<Rightarrow> int \<Rightarrow> cpt" where
  "start_value b n = ucast (b AND (push_bit (nat (7 - n)) 1 - 1))"

text \<open>The state is the code points so far, the value of the open sequence and the bytes it lacks.\<close>

definition feed_byte :: "byte \<Rightarrow> decoder_state \<Rightarrow> decoder_state option" where
  "feed_byte b st = (case st of (cps, v, n) \<Rightarrow>
     if n > 0 then
       if drop_bit 6 b \<noteq> 2 then None
       else Some (if n = 1 then cps @ [next_value v b] else cps, next_value v b, n - 1)
     else
       let n = utf8_lookup ! unat (drop_bit 4 b) - 1 in
       if n < 0 then None
       else Some (if n = 0 then cps @ [start_value b n] else cps, start_value b n, n))"

lemma feed_byte_open: "0 < n \<Longrightarrow> feed_byte b (cps, v, n) = Some st \<Longrightarrow>
    drop_bit 6 b = 2 \<and> st = (if n = 1 then cps @ [next_value v b] else cps, next_value v b, n - 1)"
  by (auto simp: feed_byte_def split: if_splits)

lemma continue_decode_feed:
  assumes "foldM feed_byte bs (cps, v, n) = Some st" "0 \<le> n"
  shows "\<exists>bs' v' n'. continue_decode bs v n = Some (bs', v', n') \<and> 0 \<le> n' \<and> (bs' = [] \<or> n' = 0) \<and>
    foldM feed_byte bs' (if n > 0 \<and> n' = 0 then cps @ [v'] else cps, v', n') = Some st"
  using assms
proof (induction bs v n rule: continue_decode.induct)
  case (2 b bs v n)
  show ?case
  proof (cases "n > 0")
    case True
    then have b: "drop_bit 6 b = 2" and st: "foldM feed_byte bs (if n = 1 then cps @ [next_value v b] else cps, next_value v b, n - 1) = Some st"
      using 2(2) by (auto simp: bind_eq_Some_conv dest!: feed_byte_open)
    show ?thesis
    proof (cases "n = 1")
      case one: True
      then show ?thesis using b st
        by (cases bs) (simp_all add: next_value_def)
    next
      case False
      then show ?thesis using 2(1) True b st by (simp add: next_value_def)
    qed
  next
    case False
    then show ?thesis using 2(2,3) by simp
  qed
qed auto

lemma take_sequence_feed:
  assumes "foldM feed_byte bs (cps, v, n) = Some st" "0 < n"
  shows "\<exists>bs' v' n'. take_sequence bs v n = (bs', v', n') \<and> 0 \<le> n' \<and> (bs' = [] \<or> n' = 0) \<and>
    foldM feed_byte bs' (if n' = 0 then cps @ [v'] else cps, v', n') = Some st"
  using assms
proof (induction bs v n rule: take_sequence.induct)
  case (2 b bs v n)
  then have st: "foldM feed_byte bs (if n = 1 then cps @ [next_value v b] else cps, next_value v b, n - 1) = Some st"
    by (auto simp: bind_eq_Some_conv dest!: feed_byte_open)
  show ?case
  proof (cases "n = 1")
    case True
    then show ?thesis using st by (cases bs) (simp_all add: next_value_def)
  next
    case False
    then show ?thesis using 2(1,3) st by (simp add: next_value_def)
  qed
qed auto

lemma decode_loop_feed:
  assumes "foldM feed_byte bs (cps, v, n) = Some st" "bs = [] \<or> n = 0"
  shows "decode_loop bs cps v n = Some st"
  using assms
proof (induction "length bs" arbitrary: bs cps v n rule: less_induct)
  case less
  show ?case
  proof (cases bs)
    case Nil
    then show ?thesis using less.prems(1) by (simp add: decode_loop.simps)
  next
    case (Cons b bs')
    let ?n = "utf8_lookup ! unat (drop_bit 4 b) - 1"
    have n: "n = 0" "\<not> ?n < 0" and st: "foldM feed_byte bs' (if ?n = 0 then cps @ [start_value b ?n] else cps, start_value b ?n, ?n) = Some st"
      using less.prems Cons by (auto simp: bind_eq_Some_conv feed_byte_def Let_def split: if_splits)
    obtain bs1 v1 n1 where t: "take_sequence bs' (start_value b ?n) ?n = (bs1, v1, n1)" "bs1 = [] \<or> n1 = 0"
        "foldM feed_byte bs1 (if n1 = 0 then cps @ [v1] else cps, v1, n1) = Some st"
    proof (cases "?n = 0")
      case True
      have "take_sequence bs' (start_value b ?n) ?n = (bs', start_value b ?n, ?n)" using True by (cases bs') simp_all
      then show thesis by (rule that) (use True st in simp_all)
    next
      case False
      then show thesis using take_sequence_feed[of bs' cps "start_value b ?n" ?n st] st n(2) that by auto
    qed
    have "length bs1 < length bs" using take_sequence_length[OF t(1)] Cons by simp
    from less.hyps[OF this t(3,2)] show ?thesis using n t(1)
      by (subst decode_loop.simps) (simp add: Cons Let_def start_value_def)
  qed
qed

text \<open>On bytes that the reference takes, the decoder is the reference.\<close>

lemma decode_utf8_feed:
  assumes "foldM feed_byte src ([], pu_value p, pu_n_remain p) = Some (cps, v, n)" "0 \<notin> set src" "0 \<le> pu_n_remain p"
  shows "decode_utf8 src p = (cps @ [0], \<lparr>pu_value = v, pu_n_remain = n\<rparr>)"
proof -
  have src: "c_str src = src" using assms(2) by (auto simp: c_str_def takeWhile_eq_all_conv)
  obtain bs' v' n' where c: "continue_decode src (pu_value p) (pu_n_remain p) = Some (bs', v', n')" "bs' = [] \<or> n' = 0"
      "foldM feed_byte bs' (if pu_n_remain p > 0 \<and> n' = 0 then [v'] else [], v', n') = Some (cps, v, n)"
    using continue_decode_feed[OF assms(1,3), unfolded append_Nil] by auto
  from decode_loop_feed[OF c(3,2)] show ?thesis using c(1) by (simp add: decode_utf8_def src Let_def)
qed

lemma feed_byte_prefix:
  "feed_byte b (cps, v, n) = Some (cps', v', n') \<Longrightarrow> feed_byte b (pre @ cps, v, n) = Some (pre @ cps', v', n')"
  by (auto simp: feed_byte_def Let_def split: if_splits)

lemma feed_prefix:
  "foldM feed_byte bs (cps, v, n) = Some (cps', v', n') \<Longrightarrow> foldM feed_byte bs (pre @ cps, v, n) = Some (pre @ cps', v', n')"
proof (induction bs arbitrary: cps v n)
  case (Cons b bs)
  then obtain cps1 v1 n1 where "feed_byte b (cps, v, n) = Some (cps1, v1, n1)" "foldM feed_byte bs (cps1, v1, n1) = Some (cps', v', n')"
    by (auto simp: bind_eq_Some_conv)
  with Cons.IH feed_byte_prefix show ?case by fastforce
qed simp

lemma feed_unprefix:
  "foldM feed_byte bs (pre, v, n) = Some (cps', v', n') \<Longrightarrow> \<exists>cps. foldM feed_byte bs ([], v, n) = Some (cps, v', n')"
proof -
  have shape: "(\<exists>cps. foldM feed_byte bs (p, v, n) = Some (cps, v', n')) = (\<exists>cps. foldM feed_byte bs (q, v, n) = Some (cps, v', n'))"
    for p q
  proof (induction bs arbitrary: p q v n)
    case (Cons b bs)
    have "feed_byte b (p, v, n) = None \<and> feed_byte b (q, v, n) = None \<or>
      (\<exists>p' q' v1 n1. feed_byte b (p, v, n) = Some (p', v1, n1) \<and> feed_byte b (q, v, n) = Some (q', v1, n1))"
      by (auto simp: feed_byte_def Let_def)
    with Cons show ?case by (elim disjE exE conjE) simp_all
  qed simp
  show "foldM feed_byte bs (pre, v, n) = Some (cps', v', n') \<Longrightarrow> ?thesis" using shape[of pre "[]"] by blast
qed

lemma feed_nonneg: "foldM feed_byte bs (cps, v, n) = Some (cps', v', n') \<Longrightarrow> 0 \<le> n \<Longrightarrow> 0 \<le> n'"
proof (induction bs arbitrary: cps v n)
  case (Cons b bs)
  then obtain cps1 v1 n1 where "feed_byte b (cps, v, n) = Some (cps1, v1, n1)" "foldM feed_byte bs (cps1, v1, n1) = Some (cps', v', n')"
    by (auto simp: bind_eq_Some_conv)
  moreover have "0 \<le> n1" using calculation(1) Cons.prems(2) by (auto simp: feed_byte_def Let_def split: if_splits)
  ultimately show ?case using Cons.IH by blast
qed simp

section \<open>Encoded text\<close>

lemma all_bytes: "(\<forall>n \<in> set [0..<256]. P (of_nat n :: byte)) \<Longrightarrow> P b"
  by (rule byte_nat[of b]) auto

lemma lead_length:
  "utf8_lookup ! unat (drop_bit 4 b) =
     (if \<not> bit b 7 then 1 else if \<not> bit b 6 then 0 else if \<not> bit b 5 then 2 else if \<not> bit b 4 then 3 else 4)"
  for b :: byte
  by (rule all_bytes) code_simp

lemma next_value_or: "next_value v b = push_bit 6 v OR (ucast b AND 0x3F)"
  unfolding next_value_def
  by (rule disjunctive_add_eq_or, rule bit_word_eqI)
    (auto simp: bit_simps bit_masks simp del: bit_numeral_word_iff push_bit_and)

lemma cont_byte:
  "drop_bit 6 (ucast (0x80 OR (x AND (0x3f::cpt))) :: byte) = 2"
  "ucast (ucast (0x80 OR (x AND (0x3f::cpt))) :: byte) AND 0x3F = x AND (0x3f::cpt)"
proof -
  have "bit (2::byte) n \<longleftrightarrow> n = 1" for n by (simp add: bit_simps) (auto simp: numeral_2_eq_2)
  then show "drop_bit 6 (ucast (0x80 OR (x AND (0x3f::cpt))) :: byte) = 2"
    by (intro bit_word_eqI) (auto simp: bit_simps bit_masks simp del: bit_numeral_word_iff push_bit_and)
  show "ucast (ucast (0x80 OR (x AND (0x3f::cpt))) :: byte) AND 0x3F = x AND (0x3f::cpt)"
    by (rule bit_word_eqI) (auto simp: bit_simps bit_masks simp del: bit_numeral_word_iff push_bit_and)
qed

lemma start_mask: "start_value b n = ucast (b AND mask (nat (7 - n)))"
  by (simp add: start_value_def mask_eq_decr_exp push_bit_eq_mult)

lemma start_lead:
   "start_value (ucast (0xc0 OR (x AND (0x1f::cpt)))) 1 = x AND 0x1f"
   "start_value (ucast (0xe0 OR (x AND (0x0f::cpt)))) 2 = x AND 0x0f"
   "start_value (ucast (0xf0 OR (x AND (0x07::cpt)))) 3 = x AND 0x07"
  unfolding start_mask
  by (rule bit_word_eqI, auto simp: bit_simps bit_masks simp del: bit_numeral_word_iff push_bit_and)+

lemma start_ascii: "c \<le> 0x7f \<Longrightarrow> start_value (ucast (c::cpt)) 0 = c"
proof -
  assume c: "c \<le> 0x7f"
  then have "c < 2 ^ 7" by (simp add: word_le_nat_alt word_less_nat_alt)
  note b = bit_bound[OF this]
  show ?thesis unfolding start_mask by (rule bit_word_eqI) (use b in \<open>auto simp: bit_simps; fastforce\<close>)
qed

lemma join_nested:
  "push_bit 6 (push_bit 6 (a::cpt) OR b) OR c = push_bit 12 a OR push_bit 6 b OR c"
  "push_bit 6 (push_bit 12 (a::cpt) OR push_bit 6 b OR c) OR d = push_bit 18 a OR push_bit 12 b OR push_bit 6 c OR d"
  by (simp_all add: push_bit_or push_bit_push_bit or.assoc)

lemma feed_encoded:
  assumes "unicode_cpt_to_utf8 c = Inr e"
  shows "foldM feed_byte e (cps, v, 0) = Some (cps @ [c], c, 0)" 
proof -
  note simps = feed_byte_def lead_length bit_lead start_lead cont_byte next_value_or join_nested
  consider (a) "c \<le> 0x7f" | (b) "\<not> c \<le> 0x7f" "c \<le> 0x7ff" | (c) "\<not> c \<le> 0x7ff" "c \<le> 0xffff"
    | (d) "\<not> c \<le> 0xffff" "c \<le> 0x10ffff"
    using assms unicode_cpt_to_utf8_ok[of c] by blast
  then show ?thesis
  proof cases
    case a
    then have e: "e = [ucast c]" using assms by (simp add: unicode_cpt_to_utf8_def)
    show ?thesis using ascii_byte(1)[OF a] start_ascii[OF a]
      by (simp add: e feed_byte_def lead_length)
  next
    case b
    then have "e = [ucast (0xc0 OR (drop_bit 6 c AND 0x1f)), ucast (0x80 OR (c AND 0x3f))]"
      using assms upper_bounds[of c] by (auto simp: unicode_cpt_to_utf8_def lower_bounds split: if_splits)
    then show ?thesis using join_2[OF word_le_less(1)[OF b(2)]] by (simp add: simps del: push_bit_and)
  next
    case c
    then have "e = [ucast (0xe0 OR (drop_bit 12 c AND 0x0f)), ucast (0x80 OR (drop_bit 6 c AND 0x3f)),
        ucast (0x80 OR (c AND 0x3f))]"
      using assms upper_bounds[of c] by (auto simp: unicode_cpt_to_utf8_def lower_bounds split: if_splits)
    then show ?thesis using join_3[OF word_le_less(2)[OF c(2)]] by (simp add: simps del: push_bit_and push_bit_or)
  next
    case d
    then have "e = [ucast (0xf0 OR (drop_bit 18 c AND 0x07)), ucast (0x80 OR (drop_bit 12 c AND 0x3f)),
        ucast (0x80 OR (drop_bit 6 c AND 0x3f)), ucast (0x80 OR (c AND 0x3f))]"
      using assms upper_bounds[of c] by (auto simp: unicode_cpt_to_utf8_def lower_bounds split: if_splits)
    then show ?thesis using join_4[OF word_le_less(3)[OF d(2)]] by (simp add: simps del: push_bit_and push_bit_or)
  qed
qed

lemma encoded_no_zero:
  assumes "unicode_cpt_to_utf8 c = Inr e" "c \<noteq> 0"
  shows "0 \<notin> set e"
proof
  assume z: "0 \<in> set e"
  have hi: "(0::byte) \<noteq> ucast (0x80 OR (x AND (0x3f::cpt)))" "(0::byte) \<noteq> ucast (0xc0 OR (x AND (0x1f::cpt)))"
    "(0::byte) \<noteq> ucast (0xe0 OR (x AND (0x0f::cpt)))" "(0::byte) \<noteq> ucast (0xf0 OR (x AND (0x07::cpt)))" for x
  proof -
    show "(0::byte) \<noteq> ucast (0x80 OR (x AND (0x3f::cpt)))" using cont_byte(1)[of x] by auto
  qed (use bit_lead[of x 7] in \<open>force\<close>)+
  then have "c \<le> 0x7f \<and> e = [ucast c]" using assms(1) z
    by (auto simp: unicode_cpt_to_utf8_def split: if_splits)
  with z ascii_byte(2)[of c] assms(2) show False by auto
qed

lemma feed_text:
  "unicode_cpts_to_utf8 cs = Inr bs \<Longrightarrow> \<exists>v'. foldM feed_byte bs (cps, v, 0) = Some (cps @ cs, v', 0)"
proof (induction cs arbitrary: bs cps v)
  case (Cons c cs)
  then obtain e bs' where e: "unicode_cpt_to_utf8 c = Inr e" "unicode_cpts_to_utf8 cs = Inr bs'" "bs = e @ bs'"
    by (auto split: sum.splits)
  obtain v' where "foldM feed_byte bs' (cps @ [c], c, 0) = Some (cps @ c # cs, v', 0)"
    using Cons.IH[OF e(2), of "cps @ [c]" c] by auto
  then show ?case using feed_encoded[OF e(1), of cps v] by (simp add: e(3) foldM_append)
qed simp

lemma text_no_zero: "unicode_cpts_to_utf8 cs = Inr bs \<Longrightarrow> 0 \<notin> set cs \<Longrightarrow> 0 \<notin> set bs"
proof (induction cs arbitrary: bs)
  case (Cons c cs)
  then obtain e bs' where e: "unicode_cpt_to_utf8 c = Inr e" "unicode_cpts_to_utf8 cs = Inr bs'" "bs = e @ bs'"
    by (auto split: sum.splits)
  then show ?case using encoded_no_zero[OF e(1)] Cons by auto
qed simp

section \<open>Pieces\<close>

text \<open>The code points and the open sequence after a list of pieces.\<close>

fun decode_pieces :: "bytes list \<Rightarrow> llama_partial_utf8 \<Rightarrow> cpt list \<times> llama_partial_utf8" where
  "decode_pieces [] p = ([], p)"
| "decode_pieces (src # srcs) p =
     (let (cps, q) = decode_utf8 src p; (cps', r) = decode_pieces srcs q in (butlast cps @ cps', r))"

lemma decode_pieces_feed:
  assumes "foldM feed_byte (concat srcs) ([], pu_value p, pu_n_remain p) = Some (cps, v, n)" "0 \<notin> set (concat srcs)"
    "0 \<le> pu_n_remain p"
  shows "decode_pieces srcs p = (cps, \<lparr>pu_value = v, pu_n_remain = n\<rparr>)"
  using assms
proof (induction srcs arbitrary: p cps)
  case (Cons src srcs)
  obtain cps1 v1 n1 where 1: "foldM feed_byte src ([], pu_value p, pu_n_remain p) = Some (cps1, v1, n1)"
      "foldM feed_byte (concat srcs) (cps1, v1, n1) = Some (cps, v, n)"
    using Cons.prems(1) by (auto simp: foldM_append bind_eq_Some_conv)
  have n1: "0 \<le> n1" using feed_nonneg[OF 1(1) Cons.prems(3)] .
  have d: "decode_utf8 src p = (cps1 @ [0], \<lparr>pu_value = v1, pu_n_remain = n1\<rparr>)"
    using decode_utf8_feed[OF 1(1)] Cons.prems by simp
  have "\<exists>cps2. foldM feed_byte (concat srcs) ([], v1, n1) = Some (cps2, v, n)"
    using feed_unprefix[OF 1(2)] by blast
  then obtain cps2 where 2: "foldM feed_byte (concat srcs) ([], v1, n1) = Some (cps2, v, n)" ..
  have "cps = cps1 @ cps2" using feed_prefix[OF 2, of cps1] 1(2) by simp
  moreover have "decode_pieces srcs \<lparr>pu_value = v1, pu_n_remain = n1\<rparr> = (cps2, \<lparr>pu_value = v, pu_n_remain = n\<rparr>)"
    by (rule Cons.IH) (use 2 Cons.prems(2) n1 in simp_all)
  ultimately show ?case by (simp add: d)
qed simp

end
