(* ===== verification/GrammarTrigger.thy ===== *)
theory GrammarTrigger
  imports GrammarReject GrammarUtf8
begin

text \<open>
  Texts that reach the grammar in pieces: strings accepted one after the other, and the tokens that a lazy
  grammar keeps in its buffer until a trigger matches.
\<close>

section \<open>Strings in pieces\<close>

lemma accept_partial:
  "foldM (\<lambda>c g. llama_grammar_accept g c) cs (g\<lparr>gr_partial_utf8 := p\<rparr>) =
   map_option (\<lambda>g. g\<lparr>gr_partial_utf8 := p\<rparr>) (foldM (\<lambda>c g. llama_grammar_accept g c) cs g)"
proof (induction cs arbitrary: g)
  case (Cons c cs)
  show ?case
  proof (cases "accept_chr_stacks (gr_rules g) c (gr_stacks g)")
    case (Some ss)
    have swap: "g\<lparr>gr_partial_utf8 := p, gr_stacks := ss\<rparr> = g\<lparr>gr_stacks := ss, gr_partial_utf8 := p\<rparr>" by simp
    have "llama_grammar_accept (g\<lparr>gr_partial_utf8 := p\<rparr>) c = Some (g\<lparr>gr_stacks := ss, gr_partial_utf8 := p\<rparr>)"
      "llama_grammar_accept g c = Some (g\<lparr>gr_stacks := ss\<rparr>)"
      using Some by (simp_all add: llama_grammar_accept_def swap)
    then show ?thesis using Cons[of "g\<lparr>gr_stacks := ss\<rparr>"] by simp
  qed (simp add: llama_grammar_accept_def)
qed simp

lemma accept_keeps_partial:
  "foldM (\<lambda>c g. llama_grammar_accept g c) cs g = Some g' \<Longrightarrow> gr_partial_utf8 g' = gr_partial_utf8 g"
proof (induction cs arbitrary: g)
  case (Cons c cs)
  then obtain ss where "foldM (\<lambda>c g. llama_grammar_accept g c) cs (g\<lparr>gr_stacks := ss\<rparr>) = Some g'"
    by (auto simp: llama_grammar_accept_def bind_eq_Some_conv)
  from Cons.IH[OF this] show ?case by simp
qed simp

text \<open>Accepting pieces is accepting the code points they decode to.\<close>

lemma accept_pieces:
  assumes "decode_pieces pieces (gr_partial_utf8 g) = (cs, p)"
  shows "foldM (\<lambda>piece g. map_option fst (llama_grammar_accept_str g piece)) pieces g =
    map_option (\<lambda>g. g\<lparr>gr_partial_utf8 := p\<rparr>) (foldM (\<lambda>c g. llama_grammar_accept g c) cs g)"
  using assms
proof (induction pieces arbitrary: g cs)
  case Nil
  then show ?case by simp
next
  case (Cons piece pieces)
  obtain cps q where d: "decode_utf8 piece (gr_partial_utf8 g) = (cps, q)" by (cases "decode_utf8 piece (gr_partial_utf8 g)")
  obtain cs' where cs': "decode_pieces pieces q = (cs', p)" "cs = butlast cps @ cs'"
    using Cons.prems by (auto simp: d split: prod.splits)
  show ?case
  proof (cases "foldM (\<lambda>c g. llama_grammar_accept g c) (butlast cps) g")
    case None
    then show ?thesis by (simp add: llama_grammar_accept_str_def d foldM_append cs'(2))
  next
    case (Some g1)
    have "foldM (\<lambda>piece g. map_option fst (llama_grammar_accept_str g piece)) pieces (g1\<lparr>gr_partial_utf8 := q\<rparr>) =
      map_option (\<lambda>g. g\<lparr>gr_partial_utf8 := p\<rparr>) (foldM (\<lambda>c g. llama_grammar_accept g c) cs' (g1\<lparr>gr_partial_utf8 := q\<rparr>))"
      by (rule Cons.IH) (simp add: cs'(1))
    then show ?thesis using Some
      by (simp add: llama_grammar_accept_str_def d foldM_append cs'(2) accept_partial option.map_comp comp_def)
  qed
qed

section \<open>The trigger buffer\<close>

text \<open>The spans of the buffered tokens follow each other from \<open>a\<close> to \<open>b\<close>.\<close>

fun spans :: "nat \<Rightarrow> (llama_token \<times> nat \<times> nat) list \<Rightarrow> nat \<Rightarrow> bool" where
  "spans a [] b \<longleftrightarrow> a = b"
| "spans a ((_, x, y) # es) b \<longleftrightarrow> x = a \<and> x \<le> y \<and> spans y es b"

definition buffer_ok :: "llama_grammar \<Rightarrow> bool" where
  "buffer_ok g \<longleftrightarrow> spans 0 (gr_trigger_buffer_positions g) (length (gr_trigger_buffer g))"

lemma spans_snoc: "spans a (es @ [(t, x, y)]) b \<longleftrightarrow> spans a es x \<and> x \<le> y \<and> y = b"
  by (induction a es b rule: spans.induct) auto

lemma spans_le: "spans a es b \<Longrightarrow> a \<le> b"
  by (induction a es b rule: spans.induct) auto

definition replayed :: "bytes \<Rightarrow> nat \<Rightarrow> (llama_token \<times> nat \<times> nat) list \<Rightarrow> (llama_token \<times> bytes) list" where
  "replayed buffer start es =
     List.map_filter (\<lambda>e. map_option (Pair (fst e)) (replay_piece buffer start (snd e))) es"

lemma replayed_simps [simp]:
  "replayed buffer start [] = []"
  "replayed buffer start (e # es) =
     (case replay_piece buffer start (snd e) of
        None \<Rightarrow> replayed buffer start es
      | Some piece \<Rightarrow> (fst e, piece) # replayed buffer start es)"
  by (simp_all add: replayed_def map_filter_simps split: option.split)

text \<open>The replayed pieces are the buffer from the start of the match on.\<close>

lemma replayed_concat:
  assumes "spans a es b" "b \<le> length buffer"
  shows "concat (map snd (replayed buffer start es)) = take (b - max a start) (drop (max a start) buffer)"
  using assms
proof (induction a es b rule: spans.induct)
  case (2 a t x y es b)
  then have xy: "x = a" "a \<le> y" "y \<le> b" "b \<le> length buffer" and
    IH: "concat (map snd (replayed buffer start es)) = take (b - max y start) (drop (max y start) buffer)"
    using spans_le by auto
  show ?case
  proof (cases "y \<le> start")
    case True
    then show ?thesis using IH xy by (simp add: replay_piece_def max_def split: if_splits)
  next
    case False
    have join: "take (y - m) (drop m buffer) @ take (b - y) (drop y buffer) = take (b - m) (drop m buffer)" if "m \<le> y" for m
    proof -
      have "drop y buffer = drop (y - m) (drop m buffer)" "b - m = (y - m) + (b - y)" using that xy by simp_all
      then show ?thesis by (simp only: take_add)
    qed
    show ?thesis using False IH xy join[of "max a start"] by (auto simp: replay_piece_def max_def)
  qed
qed simp

text \<open>A token of the replay, unless an exception has been thrown.\<close>

definition accept_entry ::
  "llama_token \<times> bytes \<Rightarrow> llama_grammar \<times> grammar_error option \<Rightarrow> (llama_grammar \<times> grammar_error option) option" where
  "accept_entry e st = (case st of (g, thrown) \<Rightarrow>
     if thrown \<noteq> None then Some st else llama_grammar_accept_token g (fst e) (snd e))"

lemma replay_fold:
  "foldM (replay_token buffer start) es st = foldM accept_entry (replayed buffer start es) st"
proof (induction es arbitrary: st)
  case (Cons e es)
  obtain g thrown where st: "st = (g, thrown)" by (cases st)
  have skip: "foldM accept_entry xs (g, Some t) = Some (g, Some t)" for xs t
    by (induction xs) (simp_all add: accept_entry_def)
  have skip': "foldM (replay_token buffer start) xs (g, Some t) = Some (g, Some t)" for xs t
    by (induction xs) (simp_all add: replay_token_def)
  show ?case
  proof (cases thrown)
    case None
    have es: "foldM (replay_token buffer start) es = foldM accept_entry (replayed buffer start es)" using Cons by (rule ext)
    show ?thesis
    proof (cases "replay_piece buffer start (snd e)")
      case None
      then have "replay_token buffer start e st = Some st" using \<open>thrown = None\<close> by (simp add: st replay_token_def)
      then show ?thesis using None by (simp add: es)
    next
      case (Some piece)
      then have "replay_token buffer start e st = accept_entry (fst e, piece) st"
        using \<open>thrown = None\<close> by (simp add: st replay_token_def accept_entry_def)
      then show ?thesis using Some by (simp add: es)
    qed
  next
    case (Some t)
    then have "replay_token buffer start e st = Some (g, Some t)" by (simp add: st replay_token_def)
    then show ?thesis using Some skip skip' by (simp add: st)
  qed
qed simp

end
