(* ===== verification/GrammarProps.thy ===== *)
theory GrammarProps
  imports GrammarApply GrammarTrigger
begin

text \<open>The properties of grammar-constrained sampling, with their witnesses.\<close>

section \<open>A concrete grammar\<close>

text \<open>\<open>root ::= "a" root | "b"\<close>, with the vocabulary \<open>a, b, ab, c\<close> and an end of generation.\<close>

definition ab_rules :: llama_grammar_rules where
  "ab_rules = [[Elem LLAMA_GRETYPE_CHAR 97, Elem LLAMA_GRETYPE_RULE_REF 0, Elem LLAMA_GRETYPE_ALT 0,
                Elem LLAMA_GRETYPE_CHAR 98, Elem LLAMA_GRETYPE_END 0]]"

definition ab_vocab :: llama_vocab where
  "ab_vocab = \<lparr>cache_token_to_piece = [[97], [98], [97, 98], [99], [60]], special_eog_ids = [4]\<rparr>"

definition ab_grammar :: llama_grammar where
  "ab_grammar = \<lparr>gr_vocab = Some ab_vocab, gr_rules = ab_rules, gr_stacks = [[(0, 0)], [(0, 3)]],
     gr_partial_utf8 = \<lparr>pu_value = 0, pu_n_remain = 0\<rparr>, gr_lazy = False, gr_awaiting_trigger = False,
     gr_trigger_buffer = [], gr_trigger_buffer_positions = [], gr_trigger_tokens = [], gr_trigger_patterns = []\<rparr>"

lemma ab_init: "llama_grammar_init_impl (Some ab_vocab) ab_rules 0 = Some (Some ab_grammar)"
  by code_simp

lemma ab_good: "rules_good ab_rules"
proof -
  have "rules_ok ab_rules" by code_simp
  moreover have "left_recursion_check ab_rules = Some False" by code_simp
  moreover have "\<forall>k < length ab_rules. direct_empty ab_rules k \<or> opens_with_terminal (ab_rules ! k)" by code_simp
  ultimately show ?thesis using empties_explicitI checked_left_recursion_free by (simp add: rules_good_def)
qed

lemma ab_explicit: "empties_explicit ab_rules"
proof (rule empties_explicitI)
  show "rules_ok ab_rules" "\<forall>k < length ab_rules. direct_empty ab_rules k \<or> opens_with_terminal (ab_rules ! k)" by code_simp+
qed

text \<open>\<open>root ::= ws "x"\<close> and \<open>ws ::= [ ]*\<close>, which derives the empty word through the rule written for the repetition.\<close>

definition spaces_rules :: llama_grammar_rules where
  "spaces_rules =
     [[Elem LLAMA_GRETYPE_RULE_REF 1, Elem LLAMA_GRETYPE_CHAR 120, Elem LLAMA_GRETYPE_END 0],
      [Elem LLAMA_GRETYPE_RULE_REF 2, Elem LLAMA_GRETYPE_END 0],
      [Elem LLAMA_GRETYPE_CHAR 32, Elem LLAMA_GRETYPE_RULE_REF 2, Elem LLAMA_GRETYPE_ALT 0, Elem LLAMA_GRETYPE_END 0]]"

definition spaces_grammar :: llama_grammar where
  "spaces_grammar = ab_grammar\<lparr>gr_rules := spaces_rules, gr_stacks := [[(2, 0), (0, 1)], [(0, 1)]]\<rparr>"

lemma spaces_free: "left_recursion_free spaces_rules"
proof (rule leading_left_recursion_free)
  show "\<forall>k < length spaces_rules. \<forall>j \<in> leading_refs (spaces_rules ! k) True. 3 - j < 3 - k"
    by code_simp
qed code_simp

lemma ab_grammar_good: "grammar_good ab_grammar"
proof -
  have "initial_stacks ab_rules 0 = Some (gr_stacks ab_grammar)" by code_simp
  moreover have "rules_ok ab_rules" using ab_good by (simp add: rules_good_def)
  ultimately have "stacks_good ab_rules (gr_stacks ab_grammar)" using initial_stacks_lang by blast
  then show ?thesis using ab_good by (simp add: grammar_good_def ab_grammar_def)
qed

lemma init_impl_good:
  assumes "llama_grammar_init_impl vocab rules k = Some (Some g)" "rules_ok (gr_rules g)"
  shows "left_recursion_check (gr_rules g) = Some False" "stacks_good (gr_rules g) (gr_stacks g)"
    "stacks_lang (gr_rules g) (gr_stacks g) w \<longleftrightarrow> rule_lang (gr_rules g) k w"
proof -
  from assms(1) have "left_recursion_check (gr_rules g) = Some False" "initial_stacks (gr_rules g) k = Some (gr_stacks g)"
    by (auto simp: llama_grammar_init_impl_def bind_eq_Some_conv split: if_splits)
  with initial_stacks_lang[OF _ assms(2)]
  show "left_recursion_check (gr_rules g) = Some False" "stacks_good (gr_rules g) (gr_stacks g)"
    "stacks_lang (gr_rules g) (gr_stacks g) w \<longleftrightarrow> rule_lang (gr_rules g) k w" by blast+
qed

section \<open>The language of the stacks\<close>

text \<open>
  C20: A grammar that was initialised from well-formed rules without left recursion accepts the language of its
  start rule: after any word of code points it has the empty stack exactly if the start rule derives the word, and
  when no stack is left the word cannot be continued to a word of the language. The operation does not abort.
  Left recursion is meant semantically here: a cycle of references that nothing but rules deriving the empty word
  stands before. The check of the initialisation misses some of these (C33).
\<close>

theorem grammar_language:
  assumes "llama_grammar_init_impl vocab rules k = Some (Some g)" "rules_ok (gr_rules g)" "left_recursion_free (gr_rules g)"
  shows "\<exists>g'. foldM (\<lambda>c g. llama_grammar_accept g c) w g = Some g' \<and>
    ([] \<in> set (gr_stacks g') \<longleftrightarrow> rule_lang (gr_rules g) k w) \<and>
    (gr_stacks g' = [] \<longrightarrow> (\<forall>v. \<not> rule_lang (gr_rules g) k (w @ v)))"
proof -
  note i = init_impl_good[OF assms(1,2)]
  have good: "rules_good (gr_rules g)" using assms(2,3) by (simp add: rules_good_def)
  obtain g' where g': "foldM (\<lambda>c g. llama_grammar_accept g c) w g = Some g'" using accept_total[OF good i(2)] by blast
  note l = accept_lang[OF g' assms(2) i(2)]
  have lang: "stacks_lang (gr_rules g) (gr_stacks g') v \<longleftrightarrow> rule_lang (gr_rules g) k (w @ v)" for v
    using l i(3) by simp
  have "[] \<in> set (gr_stacks g') \<longleftrightarrow> rule_lang (gr_rules g) k w"
    using lang[of "[]"] stacks_lang_empty[of "gr_rules g" "gr_stacks g'"] l by simp
  moreover have "\<forall>v. \<not> rule_lang (gr_rules g) k (w @ v)" if "gr_stacks g' = []"
    using that lang by (simp add: stacks_lang_def)
  ultimately show ?thesis using g' by blast
qed

theorem grammar_language_witness:
  "rule_lang ab_rules 0 [97, 97, 98] \<and> \<not> rule_lang ab_rules 0 [97, 97] \<and> \<not> rule_lang ab_rules 0 ([98, 97] @ [98]) \<and>
   rule_lang spaces_rules 0 [32, 32, 120] \<and> \<not> rule_lang spaces_rules 0 [32]"
proof -
  have ok: "rules_ok (gr_rules ab_grammar)" "left_recursion_free (gr_rules ab_grammar)"
    using ab_good by (simp_all add: rules_good_def ab_grammar_def)
  note lang = grammar_language[OF ab_init ok]
  have "map_option (\<lambda>g. ([] \<in> set (gr_stacks g))) (foldM (\<lambda>c g. llama_grammar_accept g c) [97, 97, 98] ab_grammar) = Some True"
    "map_option (\<lambda>g. ([] \<in> set (gr_stacks g))) (foldM (\<lambda>c g. llama_grammar_accept g c) [97, 97] ab_grammar) = Some False"
    "map_option gr_stacks (foldM (\<lambda>c g. llama_grammar_accept g c) [98, 97] ab_grammar) = Some []"
    by code_simp+
  with lang[of "[97, 97, 98]"] lang[of "[97, 97]"] lang[of "[98, 97]"]
  have ab: "rule_lang ab_rules 0 [97, 97, 98]" "\<not> rule_lang ab_rules 0 [97, 97]" "\<not> rule_lang ab_rules 0 ([98, 97] @ [98])"
    by (auto simp: ab_grammar_def)
  have "llama_grammar_init_impl (Some ab_vocab) spaces_rules 0 = Some (Some spaces_grammar)" "rules_ok (gr_rules spaces_grammar)"
    by code_simp+
  moreover have "left_recursion_free (gr_rules spaces_grammar)" using spaces_free by (simp add: spaces_grammar_def)
  ultimately have spaces: "\<exists>g'. foldM (\<lambda>c g. llama_grammar_accept g c) w spaces_grammar = Some g' \<and>
      ([] \<in> set (gr_stacks g') \<longleftrightarrow> rule_lang spaces_rules 0 w)" for w
    using grammar_language[of "Some ab_vocab" spaces_rules 0 spaces_grammar w] by (auto simp: spaces_grammar_def)
  have "map_option (\<lambda>g. ([] \<in> set (gr_stacks g))) (foldM (\<lambda>c g. llama_grammar_accept g c) [32, 32, 120] spaces_grammar) = Some True"
    "map_option (\<lambda>g. ([] \<in> set (gr_stacks g))) (foldM (\<lambda>c g. llama_grammar_accept g c) [32] spaces_grammar) = Some False"
    by code_simp+
  with spaces[of "[32, 32, 120]"] spaces[of "[32]"] ab show ?thesis by auto
qed

text \<open>
  C21: Advancing a stack adds exactly the stacks that expanding the rule reference on top leads to: all of
  them, each once, well-formed and with a terminal on top, and at least one.
\<close>

theorem advance_exact:
  assumes "llama_grammar_advance_stack rules stack old = Some new" "rules_ok rules" "stack_ok rules stack" "distinct old"
  shows "set new = set old \<union> {t. expands rules stack t} \<and> distinct new \<and> new \<noteq> [] \<and>
    (\<exists>added. new = old @ added \<and> (\<forall>t \<in> set added. stack_ok rules t \<and> ends_in_terminal rules t))"
  using advance_stack_expands[OF assms(1-3)] advance_stack_advances[OF assms(1-3)] advance_stack_nonempty[OF assms(1-3)] assms(4)
  by (auto simp: advances_def)

theorem advance_exact_witness:
  "llama_grammar_advance_stack ab_rules [(0, 1)] [[(0, 3)]] = Some [[(0, 3)], [(0, 0)]] \<and>
   {t. expands ab_rules [(0, 1)] t} \<subseteq> {[(0, 0)], [(0, 3)]}"
proof -
  have a: "llama_grammar_advance_stack ab_rules [(0, 1)] [[(0, 3)]] = Some [[(0, 3)], [(0, 0)]]" by code_simp
  moreover have "rules_ok ab_rules" "stack_ok ab_rules [(0, 1)]" by code_simp+
  ultimately show ?thesis using advance_exact[of ab_rules "[(0, 1)]" "[[(0, 3)]]"] by auto
qed

section \<open>Left recursion\<close>

text \<open>
  C22: The check for left recursion ends on every well-formed grammar, and reports exactly the cycles of the
  references it follows: leftmost ones, and those behind references to rules with an alternate written empty.
\<close>

theorem left_recursion_exact:
  assumes "rules_ok rules"
  shows "left_recursion_check rules = Some (\<exists>k < length rules. (left_edge rules)\<^sup>+\<^sup>+ k k)"
  using assms by (rule left_recursion_check_cycle)

theorem left_recursion_exact_witness: "\<not> (\<exists>k < length ab_rules. (left_edge ab_rules)\<^sup>+\<^sup>+ k k)"
proof -
  have "rules_ok ab_rules" "left_recursion_check ab_rules = Some False" by code_simp+
  with left_recursion_exact[of ab_rules] show ?thesis by simp
qed

text \<open>
  C23: Where the check reports nothing, advancing any well-formed stack ends, provided that a rule that derives
  the empty word has an alternate that is written empty.
\<close>

theorem advance_terminates:
  assumes "rules_ok rules" "left_recursion_check rules = Some False" "empties_explicit rules" "stack_ok rules stack"
  shows "\<exists>new. llama_grammar_advance_stack rules stack old = Some new"
  using adv_ends_all[OF assms(1) checked_left_recursion_free[OF assms(1-3)] assms(4)] by (simp add: adv_ends_def)

theorem advance_terminates_witness: "\<exists>new. llama_grammar_advance_stack ab_rules [(0, 1), (0, 0)] [] = Some new"
proof (rule advance_terminates)
  show "rules_ok ab_rules" "left_recursion_check ab_rules = Some False" "stack_ok ab_rules [(0, 1), (0, 0)]" by code_simp+
qed (rule ab_explicit)

text \<open>\<open>root ::= b root | "x"\<close>, \<open>b ::= c\<close>, \<open>c ::= ""\<close>.\<close>

definition hidden_rules :: llama_grammar_rules where
  "hidden_rules = [[Elem LLAMA_GRETYPE_RULE_REF 1, Elem LLAMA_GRETYPE_RULE_REF 0, Elem LLAMA_GRETYPE_ALT 0,
                    Elem LLAMA_GRETYPE_CHAR 120, Elem LLAMA_GRETYPE_END 0],
                   [Elem LLAMA_GRETYPE_RULE_REF 2, Elem LLAMA_GRETYPE_END 0],
                   [Elem LLAMA_GRETYPE_END 0]]"

lemma hidden_diverges:
  assumes "llama_grammar_advance_stack rules stack old = Some new"
  shows "rules = hidden_rules \<longrightarrow> stack \<notin> {[(0, 0)], [(1, 0), (0, 1)], [(0, 1)]}"
proof (rule llama_grammar_advance_stack.raw_induct[OF _ assms], goal_cases)
  case (1 adv rules stack old new)
  have alts: "alternates (hidden_rules ! 0) 0 = Some [0, 3]" "alternates (hidden_rules ! 1) 0 = Some [0]"
    "alternates (hidden_rules ! 2) 0 = Some [0]" by code_simp+
  have pushes: "push_pos hidden_rules (0, 1) [] = Some [(0, 1)]" "push_pos hidden_rules (1, 0) [(0, 1)] = Some [(1, 0), (0, 1)]"
    "push_pos hidden_rules (1, 1) [(0, 1)] = Some [(0, 1)]" "push_pos hidden_rules (2, 0) [(0, 1)] = Some [(0, 1)]"
    "push_pos hidden_rules (0, 2) [] = Some []" "push_pos hidden_rules (0, 0) [] = Some [(0, 0)]" by code_simp+
  have elems: "element_at hidden_rules (0, 0) = Some (Elem LLAMA_GRETYPE_RULE_REF 1)"
    "element_at hidden_rules (0, 1) = Some (Elem LLAMA_GRETYPE_RULE_REF 0)"
    "element_at hidden_rules (1, 0) = Some (Elem LLAMA_GRETYPE_RULE_REF 2)" by code_simp+
  have len: "length hidden_rules = 3" by (simp add: hidden_rules_def)
  show ?case
  proof
    assume r: "rules = hidden_rules"
    have no: "adv hidden_rules s a = None" if "s \<in> {[(0, 0)], [(1, 0), (0, 1)], [(0, 1)]}" for s a
      using 1(1)[of hidden_rules s a] that by (cases "adv hidden_rules s a") auto
    show "stack \<notin> {[(0, 0)], [(1, 0), (0, 1)], [(0, 1)]}"
      using 1(2) by (auto simp: r next_pos_def len no elems[simplified] pushes[simplified] pushes(5)[unfolded numeral_2_eq_2] alts[simplified])
  qed
qed

text \<open>
  C33: The check misses rules that derive the empty word through another rule: it passes the grammar
  \<open>root ::= b root | "x"\<close>, \<open>b ::= c\<close>, \<open>c ::= ""\<close>, and building the initial stacks does not end.
\<close>

theorem hidden_left_recursion:
  "left_recursion_check hidden_rules = Some False \<and> rules_ok hidden_rules \<and>
   llama_grammar_init_impl None hidden_rules 0 = None"
proof -
  have copy: "copy_rules hidden_rules = Some hidden_rules" by code_simp
  have check: "left_recursion_check hidden_rules = Some False" by code_simp
  have "alternates (hidden_rules ! 0) 0 = Some [0, 3]" "push_pos hidden_rules (0, 0) [] = Some [(0, 0)]" by code_simp+
  moreover have "llama_grammar_advance_stack hidden_rules [(0, 0)] [] = None"
    using hidden_diverges by (cases "llama_grammar_advance_stack hidden_rules [(0, 0)] []") auto
  ultimately have "initial_stacks hidden_rules 0 = None"
    by (simp add: initial_stacks_def at_def hidden_rules_def[THEN arg_cong[of _ _ length]])
  moreover have "rules_ok hidden_rules" by code_simp
  ultimately show ?thesis using copy check by (simp add: llama_grammar_init_impl_def)
qed

section \<open>Tokens\<close>

text \<open>
  C24: Accepting a token keeps a good grammar good (well-formed rules without left recursion, and different
  well-formed stacks that end in terminals) and does not abort; it throws exactly if no stack is left.
\<close>

theorem accept_token_invariant:
  assumes "grammar_good g"
  shows "\<exists>g' thrown. llama_grammar_accept_token g token piece = Some (g', thrown) \<and> grammar_good g' \<and>
    gr_rules g' = gr_rules g \<and> (thrown = None \<longleftrightarrow> gr_stacks g' \<noteq> [])"
  using accept_token_good[OF assms] .

theorem accept_token_invariant_witness:
  "\<exists>g' thrown. llama_grammar_accept_token ab_grammar 2 [97, 98] = Some (g', thrown) \<and> grammar_good g' \<and> gr_stacks g' = [[]]"
proof -
  have "map_option (\<lambda>(g, _). gr_stacks g) (llama_grammar_accept_token ab_grammar 2 [97, 98]) = Some [[]]" by code_simp
  with accept_token_invariant[OF ab_grammar_good, of 2 "[97, 98]"] show ?thesis by auto
qed

text \<open>
  C25: For a good grammar (well-formed rules without left recursion and good stacks) that has a stack left and does
  not wait for its trigger, and candidates whose ids are in the vocabulary, masking does not abort and sets the logit
  of exactly the masked tokens to minus infinity: an end of generation unless the empty stack is there, a token with
  an empty piece, and every other token that no stack keeps, judged for one stack and one token at a time. A token
  that ends inside a code point is kept at a class one of whose ranges meets what the sequence can complete to, and
  at an inverse class only if none of its ranges does, which is less than the comment of the source promises (C30).
\<close>

theorem apply_masks:
  assumes "grammar_good g" "gr_stacks g \<noteq> []" "gr_vocab g = Some vocab" "\<not> gr_awaiting_trigger g"
    and "\<forall>d \<in> set data. token_to_piece vocab (td_id d) \<noteq> None"
  shows "llama_grammar_apply_impl g data = Some (mask_data (\<lambda>i. token_masked vocab g (td_id (data ! i))) data)"
  using assms by (rule apply_impl_masks)

theorem apply_masks_witness:
  "token_masked ab_vocab ab_grammar 3 \<and> \<not> token_masked ab_vocab ab_grammar 2 \<and> token_masked ab_vocab ab_grammar 4"
proof -
  let ?data = "[\<lparr>td_id = 2, td_logit = 1\<rparr>, \<lparr>td_id = 3, td_logit = 1\<rparr>, \<lparr>td_id = 4, td_logit = 1\<rparr>]"
  have run: "map_option (map td_logit) (llama_grammar_apply_impl ab_grammar ?data) = Some [1, NEG_INFINITY, NEG_INFINITY]"
    by code_simp
  have ne: "(1::float32) \<noteq> NEG_INFINITY" by (simp add: NEG_INFINITY_def)
  have eq: "llama_grammar_apply_impl ab_grammar ?data =
      Some (mask_data (\<lambda>i. token_masked ab_vocab ab_grammar (td_id (?data ! i))) ?data)"
  proof (rule apply_masks[OF ab_grammar_good])
    show "\<forall>d \<in> set ?data. token_to_piece ab_vocab (td_id d) \<noteq> None" by code_simp
  qed (simp_all add: ab_grammar_def)
  have range: "[0..<length ?data] = [0, 1, 2]" by (simp add: upt_rec)
  show ?thesis using run unfolding eq mask_data_def range
    by (auto simp: ne ne[symmetric] split: if_splits)
qed

text \<open>
  C30: An inverse class rejects an open sequence as soon as the sequence can be completed to one code point that the
  class excludes, whatever other completions it admits: the test for a partial match answers no, although the
  comment of the source promises that it answers yes whenever some completion could satisfy the class.
\<close>

theorem inverse_class_partial:
  assumes "pos_ok rules pos" "element_at rules pos = Some e" "el_type e = LLAMA_GRETYPE_CHAR_NOT"
    "\<not> in_class rules pos c" "partial_low p \<le> c" "c \<le> partial_high p"
  shows "llama_grammar_match_partial_char rules pos p = Some False"
proof -
  have start: "is_char_start (el_type e)" by (simp add: assms(3) is_char_start_def)
  have "in_ranges (class_at rules pos) c" using assms(2-4) start by (simp add: in_class_def)
  then have "meets (class_at rules pos) (partial_low p) (partial_high p)"
    using assms(5,6) by (auto simp: in_ranges_def meets_def intro: order_trans)
  then show ?thesis using assms(2,3) start
    by (simp add: match_partial_char_class[OF assms(1,2) start] partial_in_class_def)
qed

text \<open>\<open>root ::= [^\<close>e with an acute accent\<open>]\<close>: the first byte of its encoding is rejected, the e with a grave accent is allowed.\<close>

definition accent_rules :: llama_grammar_rules where
  "accent_rules = [[Elem LLAMA_GRETYPE_CHAR_NOT 0xE9, Elem LLAMA_GRETYPE_END 0]]"

theorem inverse_class_partial_witness:
  "llama_grammar_match_partial_char accent_rules (0, 0) \<lparr>pu_value = 3, pu_n_remain = 1\<rparr> = Some False \<and>
   in_class accent_rules (0, 0) 0xE8 \<and> decode_utf8 [0xC3] \<lparr>pu_value = 0, pu_n_remain = 0\<rparr> = ([0], \<lparr>pu_value = 3, pu_n_remain = 1\<rparr>) \<and>
   fst (decode_utf8 [0xA8] \<lparr>pu_value = 3, pu_n_remain = 1\<rparr>) = [0xE8, 0]"
proof (intro conjI)
  show "llama_grammar_match_partial_char accent_rules (0, 0) \<lparr>pu_value = 3, pu_n_remain = 1\<rparr> = Some False"
  proof (rule inverse_class_partial)
    show "pos_ok accent_rules (0, 0)" "element_at accent_rules (0, 0) = Some (Elem LLAMA_GRETYPE_CHAR_NOT 0xE9)"
      "\<not> in_class accent_rules (0, 0) 0xE9" by code_simp+
  qed code_simp+
qed code_simp+

text \<open>
  C26: The masking of a good grammar without token elements agrees with accepting. After masking, a candidate whose
  logit was not set to minus infinity is accepted without an exception; one whose logit was set and whose piece ends
  with a whole code point would have thrown. The candidate is not an end of generation, its piece is not empty and
  encodes no zero; the grammar has a stack left and does not wait for its trigger.
\<close>

theorem mask_accept_agree:
  assumes "grammar_good g" "token_free (gr_rules g)" "gr_stacks g \<noteq> []" "gr_vocab g = Some vocab" "\<not> gr_awaiting_trigger g"
    and "\<forall>d \<in> set data. token_to_piece vocab (td_id d) \<noteq> None"
    and "i < length data" "td_logit (data ! i) \<noteq> NEG_INFINITY" "token_to_piece vocab (td_id (data ! i)) = Some piece"
    and "is_candidate vocab (td_id (data ! i))" "0 \<notin> set (butlast (fst (decode_utf8 piece (gr_partial_utf8 g))))"
  shows "\<exists>data'. llama_grammar_apply_impl g data = Some data' \<and>
    (td_logit (data' ! i) \<noteq> NEG_INFINITY \<longrightarrow> (\<exists>g'. llama_grammar_accept_token g (td_id (data ! i)) piece = Some (g', None))) \<and>
    (td_logit (data' ! i) = NEG_INFINITY \<and> pu_n_remain (snd (decode_utf8 piece (gr_partial_utf8 g))) = 0 \<longrightarrow>
      (\<exists>g'. llama_grammar_accept_token g (td_id (data ! i)) piece = Some (g', Some Unexpected_empty_grammar_stack)))"
proof -
  have "td_logit (mask_data (\<lambda>i. token_masked vocab g (td_id (data ! i))) data ! i) = NEG_INFINITY \<longleftrightarrow> token_masked vocab g (td_id (data ! i))"
    using assms(7,8) by (simp add: mask_data_def)
  then show ?thesis
    using apply_impl_masks[OF assms(1,3,4,5,6)] token_masked_accept[OF assms(1,2,9,10,11)] by auto
qed

theorem mask_accept_agree_witness:
  "\<exists>data'. llama_grammar_apply_impl ab_grammar [\<lparr>td_id = 1, td_logit = 0\<rparr>, \<lparr>td_id = 3, td_logit = 0\<rparr>] = Some data' \<and>
     td_logit (data' ! 0) \<noteq> NEG_INFINITY \<and> (\<exists>g'. llama_grammar_accept_token ab_grammar 1 [98] = Some (g', None)) \<and>
     td_logit (data' ! 1) = NEG_INFINITY \<and> (\<exists>g'. llama_grammar_accept_token ab_grammar 3 [99] = Some (g', Some Unexpected_empty_grammar_stack))"
proof -
  let ?data = "[\<lparr>td_id = 1, td_logit = 0\<rparr>, \<lparr>td_id = 3, td_logit = 0\<rparr>]"
  have known: "\<forall>d \<in> set ?data. token_to_piece ab_vocab (td_id d) \<noteq> None" by code_simp
  have free: "token_free (gr_rules ab_grammar)" and run: "gr_stacks ab_grammar \<noteq> []" "gr_vocab ab_grammar = Some ab_vocab"
    "\<not> gr_awaiting_trigger ab_grammar" by code_simp+
  have pieces: "token_to_piece ab_vocab 1 = Some [98]" "token_to_piece ab_vocab 3 = Some [99]" by code_simp+
  have cand: "is_candidate ab_vocab 1" "is_candidate ab_vocab 3" by code_simp+
  have dec: "0 \<notin> set (butlast (fst (decode_utf8 [98] (gr_partial_utf8 ab_grammar))))"
    "0 \<notin> set (butlast (fst (decode_utf8 [99] (gr_partial_utf8 ab_grammar))))"
    "pu_n_remain (snd (decode_utf8 [99] (gr_partial_utf8 ab_grammar))) = 0" by code_simp+
  have ne: "(0::float32) \<noteq> NEG_INFINITY" by (simp add: NEG_INFINITY_def)
  have logits: "map_option (map td_logit) (llama_grammar_apply_impl ab_grammar ?data) = Some [0, NEG_INFINITY]" by code_simp
  then obtain data' where d: "llama_grammar_apply_impl ab_grammar ?data = Some data'" "map td_logit data' = [0, NEG_INFINITY]" by auto
  from d(2) have l: "td_logit (data' ! 0) \<noteq> NEG_INFINITY" "td_logit (data' ! 1) = NEG_INFINITY" using ne by auto
  note agree = mask_accept_agree[OF ab_grammar_good free run known]
  show ?thesis using agree[of 0 "[98]"] agree[of 1 "[99]"] ne pieces cand dec d(1) l by simp
qed

section \<open>Texts in pieces\<close>

text \<open>
  C27: However the encoding of a text is cut into pieces, in the middle of a code point too, accepting the pieces
  is accepting the code points of the text.
\<close>

theorem pieces_irrelevant:
  assumes "unicode_cpts_to_utf8 cs = Inr (concat pieces)" "0 \<notin> set cs" "pu_n_remain (gr_partial_utf8 g) = 0"
  shows "map_option gr_stacks (foldM (\<lambda>piece g. map_option fst (llama_grammar_accept_str g piece)) pieces g) =
    map_option gr_stacks (foldM (\<lambda>c g. llama_grammar_accept g c) cs g)"
proof -
  obtain v where "foldM feed_byte (concat pieces) ([], pu_value (gr_partial_utf8 g), 0) = Some (cs, v, 0)"
    using feed_text[OF assms(1), of "[]"] by auto
  then have "decode_pieces pieces (gr_partial_utf8 g) = (cs, \<lparr>pu_value = v, pu_n_remain = 0\<rparr>)"
    using decode_pieces_feed text_no_zero[OF assms(1,2)] assms(3) by simp
  from accept_pieces[OF this] show ?thesis by (simp add: option.map_comp comp_def)
qed

theorem pieces_irrelevant_witness:
  "map_option gr_stacks (foldM (\<lambda>piece g. map_option fst (llama_grammar_accept_str g piece)) [[97, 0xC3], [0xA9]] ab_grammar) = Some []"
proof -
  have "unicode_cpts_to_utf8 [97, 0xE9] = Inr (concat [[97, 0xC3], [0xA9]])" by code_simp
  moreover have "0 \<notin> set [97, 0xE9 :: cpt]" "pu_n_remain (gr_partial_utf8 ab_grammar) = 0" by code_simp+
  moreover have "map_option gr_stacks (foldM (\<lambda>c g. llama_grammar_accept g c) [97, 0xE9] ab_grammar) = Some []" by code_simp
  ultimately show ?thesis using pieces_irrelevant[of "[97, 0xE9]" "[[97, 0xC3], [0xA9]]" ab_grammar] by simp
qed

text \<open>
  C28: A lazy grammar that waits for its trigger buffers every token, and keeps its record of their spans
  true; when a pattern matches the buffer, the pieces that are replayed make up the buffer from the start of
  the first nonempty group on.
\<close>

theorem lazy_trigger_replay:
  assumes "gr_vocab g = Some vocab" "token_to_piece vocab token = Some piece" "gr_awaiting_trigger g"
    "token \<notin> set (gr_trigger_tokens g)" "buffer_ok g"
  shows "let buffer = gr_trigger_buffer g @ piece;
             g1 = g\<lparr>gr_trigger_buffer_positions := gr_trigger_buffer_positions g @ [(token, length (gr_trigger_buffer g), length buffer)],
                    gr_trigger_buffer := buffer\<rparr> in
    buffer_ok g1 \<and>
    (case first_match regex_match (gr_trigger_patterns g) buffer of
       None \<Rightarrow> llama_grammar_accept_impl regex_match g token = Some (g1, None)
     | Some match \<Rightarrow> \<forall>start. trigger_start match = Some start \<longrightarrow>
         (\<exists>pieces. concat (map snd pieces) = drop start buffer \<and>
           llama_grammar_accept_impl regex_match g token =
             map_option (\<lambda>(g, thrown). if thrown \<noteq> None then (g, thrown)
                 else (g\<lparr>gr_trigger_buffer := [], gr_trigger_buffer_positions := []\<rparr>, None))
               (foldM accept_entry pieces (g1\<lparr>gr_awaiting_trigger := False\<rparr>, None))))"
proof -
  let ?buffer = "gr_trigger_buffer g @ piece"
  let ?ps = "gr_trigger_buffer_positions g @ [(token, length (gr_trigger_buffer g), length ?buffer)]"
  let ?g = "g\<lparr>gr_trigger_buffer_positions := ?ps, gr_trigger_buffer := ?buffer\<rparr>"
  have spans: "spans 0 ?ps (length ?buffer)" using assms(5) by (simp add: buffer_ok_def spans_snoc)
  then have ok: "buffer_ok ?g" by (simp add: buffer_ok_def)
  have "concat (map snd (replayed ?buffer start ?ps)) = drop start ?buffer" for start
    using replayed_concat[OF spans, of ?buffer start] by simp
  moreover have "llama_grammar_accept_impl regex_match g token =
      map_option (\<lambda>(g, thrown). if thrown \<noteq> None then (g, thrown)
                 else (g\<lparr>gr_trigger_buffer := [], gr_trigger_buffer_positions := []\<rparr>, None))
        (foldM accept_entry (replayed ?buffer start ?ps) (?g\<lparr>gr_awaiting_trigger := False\<rparr>, None))"
    if "first_match regex_match (gr_trigger_patterns g) ?buffer = Some match" "trigger_start match = Some start" for match start
    using assms(1-4) that
    by (simp add: llama_grammar_accept_impl_def replay_fold Let_def map_conv_bind_option split: prod.split)
      (auto split: Option.bind_splits)
  moreover have "llama_grammar_accept_impl regex_match g token = Some (?g, None)"
    if "first_match regex_match (gr_trigger_patterns g) ?buffer = None"
    using assms(1-4) that by (simp add: llama_grammar_accept_impl_def Let_def)
  ultimately show ?thesis using ok unfolding Let_def
    by (cases "first_match regex_match (gr_trigger_patterns g) ?buffer") (simp, simp, blast)
qed

definition lazy_grammar :: llama_grammar where
  "lazy_grammar = ab_grammar\<lparr>gr_lazy := True, gr_awaiting_trigger := True, gr_trigger_buffer := [97],
     gr_trigger_buffer_positions := [(0, 0, 1)], gr_trigger_patterns := [[46]]\<rparr>"

definition lazy_regex :: "bytes \<Rightarrow> bytes \<Rightarrow> (nat \<times> nat) list option" where
  "lazy_regex p buffer = (if length buffer = 3 then Some [(0, 3), (0, 0), (2, 1)] else None)"

theorem lazy_trigger_replay_witness:
  "\<exists>pieces. concat (map snd pieces) = [98] \<and>
    map_option (\<lambda>(g, thrown). (gr_stacks g, thrown)) (foldM accept_entry pieces (lazy_grammar\<lparr>gr_trigger_buffer_positions := [(0, 0, 1), (2, 1, 3)],
      gr_trigger_buffer := [97, 97, 98], gr_awaiting_trigger := False\<rparr>, None)) = Some ([[]], None)"
proof -
  have pre: "gr_vocab lazy_grammar = Some ab_vocab" "token_to_piece ab_vocab 2 = Some [97, 98]" "gr_awaiting_trigger lazy_grammar"
    "2 \<notin> set (gr_trigger_tokens lazy_grammar)" "buffer_ok lazy_grammar"
    by (simp_all add: lazy_grammar_def ab_grammar_def ab_vocab_def token_to_piece_def buffer_ok_def)
  have run: "map_option (\<lambda>(g, thrown). (gr_stacks g, thrown)) (llama_grammar_accept_impl lazy_regex lazy_grammar 2) = Some ([[]], None)"
    by code_simp
  have fields: "gr_trigger_buffer lazy_grammar = [97]" "gr_trigger_buffer_positions lazy_grammar = [(0, 0, 1)]"
    "first_match lazy_regex (gr_trigger_patterns lazy_grammar) [97, 97, 98] = Some [(0, 3), (0, 0), (2, 1)]"
    "trigger_start [(0, 3), (0, 0), (2, 1)] = Some 2" by code_simp+
  have len: "length ([97] :: byte list) = 1" "length ([97, 97, 98] :: byte list) = 3" "drop 2 [97, 97, 98 :: byte] = [98]" by simp_all
  note replay = lazy_trigger_replay[OF pre, of lazy_regex, unfolded Let_def fields append.simps len option.case]
  obtain pieces where p: "concat (map snd pieces) = [98]"
    "llama_grammar_accept_impl lazy_regex lazy_grammar 2 =
       map_option (\<lambda>(g, thrown). if thrown \<noteq> None then (g, thrown)
           else (g\<lparr>gr_trigger_buffer := [], gr_trigger_buffer_positions := []\<rparr>, None))
         (foldM accept_entry pieces (lazy_grammar\<lparr>gr_trigger_buffer_positions := [(0, 0, 1), (2, 1, 3)],
            gr_trigger_buffer := [97, 97, 98], gr_awaiting_trigger := False\<rparr>, None))"
    using conjunct2[OF replay, rule_format, OF refl] unfolding len by blast
  from run show ?thesis unfolding p(2) using p(1)
    by (intro exI[of _ pieces]) (auto split: if_splits)
qed

end
