(* ===== verification/GrammarParse.thy ===== *)
theory GrammarParse
  imports GrammarRun "HOL-Library.AList"
begin

text \<open>
  The parser of the textual grammar (\<open>llama_grammar_parser\<close> of \<open>src/llama-grammar.cpp\<close>). A pointer into the
  source is the rest of the source; reading at its end gives the terminating zero. The recursion of
  \<open>parse_sequence\<close> and \<open>parse_alternates\<close> is by fuel, and running out of it is \<open>None\<close>.
\<close>

section \<open>Reading the source\<close>

datatype parse_error =
    Expecting_hex
  | Expecting_name
  | Expecting_integer
  | Unknown_escape
  | Unexpected_end_of_input
  | Expecting_byte byte
  | No_vocab
  | Invalid_token
  | Out_of_range                 \<comment> \<open>thrown by \<open>std::stoul\<close>\<close>
  | Expecting_preceding_item
  | Expecting_an_int
  | Too_many_repetitions
  | Expecting_define
  | Expecting_newline_or_end
  | Undefined_rule
  | Undefined_rule_identifier

definition ch :: "char \<Rightarrow> byte" where
  "ch c = of_char c"

fun peek :: "bytes \<Rightarrow> byte" where
  "peek [] = 0"
| "peek (b # _) = b"

definition is_digit_char :: "byte \<Rightarrow> bool" where
  "is_digit_char c \<longleftrightarrow> ch CHR ''0'' \<le> c \<and> c \<le> ch CHR ''9''"

definition is_word_char :: "byte \<Rightarrow> bool" where
  "is_word_char c \<longleftrightarrow> (ch CHR ''a'' \<le> c \<and> c \<le> ch CHR ''z'') \<or> (ch CHR ''A'' \<le> c \<and> c \<le> ch CHR ''Z'') \<or>
     c = ch CHR ''-'' \<or> is_digit_char c"

fun hex_loop :: "nat \<Rightarrow> bytes \<Rightarrow> cpt \<Rightarrow> parse_error + (cpt \<times> bytes)" where
  "hex_loop 0 pos v = Inr (v, pos)"
| "hex_loop (Suc n) pos v =
     (let c = peek pos; v = push_bit 4 v in
      if ch CHR ''a'' \<le> c \<and> c \<le> ch CHR ''f'' then hex_loop n (tl pos) (v + (ucast (c - ch CHR ''a'') + 10))
      else if ch CHR ''A'' \<le> c \<and> c \<le> ch CHR ''F'' then hex_loop n (tl pos) (v + (ucast (c - ch CHR ''A'') + 10))
      else if ch CHR ''0'' \<le> c \<and> c \<le> ch CHR ''9'' then hex_loop n (tl pos) (v + ucast (c - ch CHR ''0''))
      else Inl Expecting_hex)"

definition parse_hex :: "bytes \<Rightarrow> nat \<Rightarrow> parse_error + (cpt \<times> bytes)" where
  "parse_hex src n = hex_loop n src 0"

definition CR :: byte where "CR = 13"
definition LF :: byte where "LF = 10"
definition TAB :: byte where "TAB = 9"

fun skip_comment :: "bytes \<Rightarrow> bytes" where
  "skip_comment [] = []"
| "skip_comment (c # pos) = (if c \<noteq> 0 \<and> c \<noteq> CR \<and> c \<noteq> LF then skip_comment pos else c # pos)"

lemma skip_comment_length: "length (skip_comment pos) \<le> length pos"
  by (induction pos) auto

function parse_space :: "bytes \<Rightarrow> bool \<Rightarrow> bytes" where
  "parse_space pos newline_ok =
     (case pos of
        [] \<Rightarrow> []
      | c # pos' \<Rightarrow>
          if c = ch CHR ''#'' then parse_space (skip_comment pos') newline_ok
          else if c = ch CHR '' '' \<or> c = TAB \<or> (newline_ok \<and> (c = CR \<or> c = LF)) then parse_space pos' newline_ok
          else c # pos')"
  by pat_completeness auto
termination
  by (relation "measure (\<lambda>(pos, _). length pos)") (auto simp: le_imp_less_Suc skip_comment_length)

declare parse_space.simps [simp del]

text \<open>The bytes up to the end of a name or an integer, and the rest.\<close>

definition parse_name :: "bytes \<Rightarrow> parse_error + (bytes \<times> bytes)" where
  "parse_name src =
     (let name = takeWhile is_word_char src; pos = dropWhile is_word_char src in
      if name = [] then Inl Expecting_name else Inr (name, pos))"

definition parse_int :: "bytes \<Rightarrow> parse_error + (bytes \<times> bytes)" where
  "parse_int src =
     (let digits = takeWhile is_digit_char src; pos = dropWhile is_digit_char src in
      if digits = [] then Inl Expecting_integer else Inr (digits, pos))"

text \<open>\<open>std::stoul\<close> on decimal digits; an \<open>unsigned long\<close> has 64 bits.\<close>

definition digits_value :: "bytes \<Rightarrow> int" where
  "digits_value digits = fold (\<lambda>d v. v * 10 + uint (d - ch CHR ''0'')) digits 0"

definition stoul :: "bytes \<Rightarrow> parse_error + 64 word" where
  "stoul digits = (let v = digits_value digits in if v < 2 ^ 64 then Inr (of_int v) else Inl Out_of_range)"

text \<open>The first \<open>decode_utf8\<close>, which trusts the source.\<close>

fun decode_rest :: "nat \<Rightarrow> bytes \<Rightarrow> cpt \<Rightarrow> cpt \<times> bytes" where
  "decode_rest 0 pos v = (v, pos)"
| "decode_rest (Suc n) pos v =
     (if peek pos = 0 then (v, pos) else decode_rest n (tl pos) (push_bit 6 v + (ucast (peek pos) AND 0x3F)))"

definition decode_utf8_src :: "bytes \<Rightarrow> cpt \<times> bytes" where
  "decode_utf8_src src =
     (let first_byte = peek src;
          len = [1, 1, 1, 1, 1, 1, 1, 1, 1, 1, 1, 1, 2, 2, 3, 4] ! unat (drop_bit 4 first_byte);
          mask = push_bit (8 - len) 1 - 1 in
      decode_rest (len - 1) (tl src) (ucast (first_byte AND mask)))"

definition parse_char :: "bytes \<Rightarrow> parse_error + (cpt \<times> bytes)" where
  "parse_char src =
     (if peek src = ch CHR 0x5C then
        let c = peek (tl src); pos = tl (tl src) in
        if c = ch CHR ''x'' then parse_hex pos 2
        else if c = ch CHR ''u'' then parse_hex pos 4
        else if c = ch CHR ''U'' then parse_hex pos 8
        else if c = ch CHR ''t'' then Inr (ucast TAB, pos)
        else if c = ch CHR ''r'' then Inr (ucast CR, pos)
        else if c = ch CHR ''n'' then Inr (ucast LF, pos)
        else if c = ch CHR 0x5C \<or> c = ch CHR 0x22 \<or> c = ch CHR ''['' \<or> c = ch CHR '']'' then Inr (ucast c, pos)
        else Inl Unknown_escape
      else if peek src \<noteq> 0 then Inr (decode_utf8_src src)
      else Inl Unexpected_end_of_input)"

definition expect :: "byte \<Rightarrow> bytes \<Rightarrow> parse_error + bytes" where
  "expect b pos = (if peek pos = b then Inr (tl pos) else Inl (Expecting_byte b))"

text \<open>\<open>tokenize\<close> is that of the vocabulary, if there is one; its array has room for two tokens.\<close>

fun only_token :: "llama_token list \<Rightarrow> parse_error + llama_token" where
  "only_token [token] = Inr token"
| "only_token _ = Inl Invalid_token"

definition parse_token :: "(bytes \<Rightarrow> llama_token list) option \<Rightarrow> bytes \<Rightarrow> parse_error + (cpt \<times> bytes)" where
  "parse_token tokenize src =
     bindE (expect (ch CHR ''<'') src) (\<lambda>pos.
     if peek pos = ch CHR ''['' then
       bindE (parse_int (tl pos)) (\<lambda>(digits, pos).
       bindE (stoul digits) (\<lambda>token_id.
       bindE (expect (ch CHR '']'') pos) (\<lambda>pos.
       bindE (expect (ch CHR ''>'') pos) (\<lambda>pos.
       Inr (ucast token_id, pos)))))
     else
       (case tokenize of
          None \<Rightarrow> Inl No_vocab
        | Some tokenize \<Rightarrow>
            let inner = takeWhile (\<lambda>b. b \<noteq> 0 \<and> b \<noteq> ch CHR ''>'') pos in
            bindE (expect (ch CHR ''>'') (drop (length inner) pos)) (\<lambda>pos.
            bindE (only_token (tokenize (ch CHR ''<'' # inner @ [ch CHR ''>'']))) (\<lambda>token.
            Inr (word_of_int token, pos)))))"

section \<open>Symbols and rules\<close>

text \<open>The identifiers are a \<open>std::map\<close> from names; its order does not matter.\<close>

record grammar_parser =
  gp_symbol_ids :: "(bytes \<times> cpt) list"
  gp_rules :: llama_grammar_rules

definition get_symbol_id :: "bytes \<Rightarrow> grammar_parser \<Rightarrow> cpt \<times> grammar_parser" where
  "get_symbol_id name p =
     (let next_id = of_nat (length (gp_symbol_ids p)) in
      case map_of (gp_symbol_ids p) name of
        Some i \<Rightarrow> (i, p)
      | None \<Rightarrow> (next_id, p\<lparr>gp_symbol_ids := gp_symbol_ids p @ [(name, next_id)]\<rparr>))"

text \<open>\<open>std::to_string\<close> of an unsigned number.\<close>

function decimal :: "nat \<Rightarrow> bytes" where
  "decimal n = (if n < 10 then [ch CHR ''0'' + of_nat n] else decimal (n div 10) @ [ch CHR ''0'' + of_nat (n mod 10)])"
  by pat_completeness auto
termination
  by (relation "measure id") auto

declare decimal.simps [simp del]

definition generate_symbol_id :: "bytes \<Rightarrow> grammar_parser \<Rightarrow> cpt \<times> grammar_parser" where
  "generate_symbol_id base_name p =
     (let next_id = of_nat (length (gp_symbol_ids p)) :: cpt in
      (next_id, p\<lparr>gp_symbol_ids :=
         AList.update (base_name @ [ch CHR ''_''] @ decimal (unat next_id)) next_id (gp_symbol_ids p)\<rparr>))"

text \<open>
  The source computes the new size \<open>rule_id + 1\<close> in 32 bits, which would wrap around at the last rule number; the
  model does not, so it is only the code's as long as there are fewer than \<open>2^32 - 1\<close> symbols.
\<close>

definition add_rule :: "cpt \<Rightarrow> llama_grammar_rule \<Rightarrow> grammar_parser \<Rightarrow> grammar_parser" where
  "add_rule rule_id rule p =
     (let i = unat rule_id; rules = gp_rules p;
          rules = (if length rules \<le> i then rules @ replicate (i + 1 - length rules) [] else rules) in
      p\<lparr>gp_rules := rules[i := rule]\<rparr>)"

section \<open>Repetitions\<close>

definition UINT64_MAX :: "64 word" where
  "UINT64_MAX = - 1"

text \<open>One turn of the loop that defines the rules of the optional repetitions.\<close>

definition repetition_step ::
  "bytes \<Rightarrow> llama_grammar_rule \<Rightarrow> bool \<Rightarrow> nat \<Rightarrow> grammar_parser \<times> cpt \<Rightarrow> grammar_parser \<times> cpt" where
  "repetition_step rule_name prev_rule no_max i st =
     (let (p, last_rec_rule_id) = st;
          (rec_rule_id, p) = generate_symbol_id rule_name p;
          rec_rule = prev_rule @
            (if i > 0 \<or> no_max then [Elem LLAMA_GRETYPE_RULE_REF (if no_max then rec_rule_id else last_rec_rule_id)] else []) @
            [Elem LLAMA_GRETYPE_ALT 0, Elem LLAMA_GRETYPE_END 0] in
      (add_rule rec_rule_id rec_rule p, rec_rule_id))"

text \<open>
  The bounds are not compared: for \<open>{3,1}\<close> the difference \<open>n_opt\<close> wraps around to \<open>2^64 - 2\<close>. The fold below then has
  a result as a mathematical function, where the source writes rules until its memory is exhausted.
\<close>

definition handle_repetitions ::
  "bytes \<Rightarrow> 64 word \<Rightarrow> 64 word \<Rightarrow> grammar_parser \<Rightarrow> llama_grammar_rule \<Rightarrow> nat \<Rightarrow>
   parse_error + (grammar_parser \<times> llama_grammar_rule)" where
  "handle_repetitions rule_name min_times max_times p rule last_sym_start =
     (if last_sym_start = length rule then Inl Expecting_preceding_item
      else
        let no_max = (max_times = UINT64_MAX);
            prev_rule = drop last_sym_start rule;
            rule = (if min_times = 0 then take last_sym_start rule
                    else rule @ concat (replicate (unat min_times - 1) prev_rule));
            n_opt = (if no_max then 1 else unat (max_times - min_times));
            (p, last_rec_rule_id) = fold (repetition_step rule_name prev_rule no_max) [0..<n_opt] (p, 0) in
        Inr (p, if n_opt > 0 then rule @ [Elem LLAMA_GRETYPE_RULE_REF last_rec_rule_id] else rule))"

definition MAX_REPETITION_THRESHOLD :: "64 word" where
  "MAX_REPETITION_THRESHOLD = 2000"

text \<open>The bounds in braces; the position is behind the opening brace, then behind the first number.\<close>

definition parse_upper :: "bool \<Rightarrow> 64 word \<Rightarrow> bytes \<Rightarrow> parse_error + (64 word \<times> bytes)" where
  "parse_upper is_nested min_times pos =
     (if peek pos = ch CHR ''}'' then Inr (min_times, parse_space (tl pos) is_nested)
      else if peek pos = ch CHR '','' then
        let pos = parse_space (tl pos) is_nested in
        bindE (if is_digit_char (peek pos) then
                 bindE (parse_int pos) (\<lambda>(digits, pos).
                 bindE (stoul digits) (\<lambda>max_times. Inr (max_times, parse_space pos is_nested)))
               else Inr (UINT64_MAX, pos)) (\<lambda>(max_times, pos).
        bindE (expect (ch CHR ''}'') pos) (\<lambda>pos.
        Inr (max_times, parse_space pos is_nested)))
      else Inl (Expecting_byte (ch CHR '','')))"

definition parse_bounds :: "bool \<Rightarrow> bytes \<Rightarrow> parse_error + (64 word \<times> 64 word \<times> bytes)" where
  "parse_bounds is_nested pos =
     (if \<not> is_digit_char (peek pos) then Inl Expecting_an_int
      else
        bindE (parse_int pos) (\<lambda>(digits, pos).
        bindE (stoul digits) (\<lambda>min_times.
        bindE (parse_upper is_nested min_times (parse_space pos is_nested)) (\<lambda>(max_times, pos).
        if min_times > MAX_REPETITION_THRESHOLD \<or> (max_times \<noteq> UINT64_MAX \<and> max_times > MAX_REPETITION_THRESHOLD)
        then Inl Too_many_repetitions
        else Inr (min_times, max_times, pos)))))"

section \<open>Sequences\<close>

lemma hex_loop_length: "hex_loop n pos v = Inr (c, pos') \<Longrightarrow> length pos' \<le> length pos"
proof (induction n arbitrary: pos v)
  case (Suc n)
  then obtain v' where "hex_loop n (tl pos) v' = Inr (c, pos')" by (auto simp: Let_def split: if_splits)
  from Suc.IH[OF this] show ?case by simp
qed simp

lemma decode_rest_length: "decode_rest n pos v = (c, pos') \<Longrightarrow> length pos' \<le> length pos"
proof (induction n arbitrary: pos v)
  case (Suc n)
  from Suc.prems Suc.IH show ?case by (fastforce split: if_splits)
qed simp

lemma parse_char_length: "parse_char src = Inr (c, pos) \<Longrightarrow> length pos < length src"
proof -
  assume p: "parse_char src = Inr (c, pos)"
  obtain b bs where src: "src = b # bs"
    using p by (cases src) (auto simp: parse_char_def ch_def)
  have "length pos \<le> length bs"
  proof (cases "b = ch CHR 0x5C")
    case True
    have "length pos \<le> length (tl bs)" 
      using p by (auto simp: src True parse_char_def parse_hex_def Let_def split: if_splits dest!: hex_loop_length)
    then show ?thesis by simp
  next
    case False
    then show ?thesis
      using p by (auto simp: src parse_char_def decode_utf8_src_def Let_def split: if_splits dest!: decode_rest_length)
  qed
  then show ?thesis by (simp add: src)
qed

function literal_loop :: "bytes \<Rightarrow> llama_grammar_rule \<Rightarrow> parse_error + (bytes \<times> llama_grammar_rule)" where
  "literal_loop pos rule =
     (if peek pos = ch CHR 0x22 then Inr (pos, rule)
      else if peek pos = 0 then Inl Unexpected_end_of_input
      else case parse_char pos of
             Inl e \<Rightarrow> Inl e
           | Inr (c, pos) \<Rightarrow> literal_loop pos (rule @ [Elem LLAMA_GRETYPE_CHAR c]))"
  by pat_completeness auto
termination
  by (relation "measure (\<lambda>(pos, _). length pos)") (auto simp: parse_char_length)

declare literal_loop.simps [simp del]

text \<open>One turn of the loop over a character class.\<close>

definition range_item ::
  "llama_gretype \<Rightarrow> nat \<Rightarrow> bytes \<Rightarrow> llama_grammar_rule \<Rightarrow> parse_error + (bytes \<times> llama_grammar_rule)" where
  "range_item start_type last_sym_start pos rule =
     bindE (parse_char pos) (\<lambda>(c, pos).
     let rule = rule @ [Elem (if last_sym_start < length rule then LLAMA_GRETYPE_CHAR_ALT else start_type) c] in
     if peek pos = ch CHR ''-'' \<and> peek (tl pos) \<noteq> ch CHR '']'' then
       if peek (tl pos) = 0 then Inl Unexpected_end_of_input
       else bindE (parse_char (tl pos)) (\<lambda>(c, pos). Inr (pos, rule @ [Elem LLAMA_GRETYPE_CHAR_RNG_UPPER c]))
     else Inr (pos, rule))"

lemma range_item_length: "range_item t l pos rule = Inr (pos', rule') \<Longrightarrow> length pos' < length pos"
  by (fastforce simp: range_item_def Let_def split: if_splits prod.splits dest!: parse_char_length)

function range_loop ::
  "llama_gretype \<Rightarrow> nat \<Rightarrow> bytes \<Rightarrow> llama_grammar_rule \<Rightarrow> parse_error + (bytes \<times> llama_grammar_rule)" where
  "range_loop start_type last_sym_start pos rule =
     (if peek pos = ch CHR '']'' then Inr (pos, rule)
      else if peek pos = 0 then Inl Unexpected_end_of_input
      else case range_item start_type last_sym_start pos rule of
             Inl e \<Rightarrow> Inl e
           | Inr (pos, rule) \<Rightarrow> range_loop start_type last_sym_start pos rule)"
  by pat_completeness auto
termination
  by (relation "measure (\<lambda>(_, _, pos, _). length pos)") (auto simp: range_item_length)

declare range_loop.simps [simp del]

text \<open>
  One turn of the loop of \<open>parse_sequence\<close> at an element other than a group: the parser, the position, the
  rule and where its last symbol starts. \<open>None\<close>: no element starts here.
\<close>

type_synonym sequence_state = "grammar_parser \<times> bytes \<times> llama_grammar_rule \<times> nat"

definition sequence_item ::
  "(bytes \<Rightarrow> llama_token list) option \<Rightarrow> bytes \<Rightarrow> bool \<Rightarrow> sequence_state \<Rightarrow> (parse_error + sequence_state) option" where
  "sequence_item tokenize rule_name is_nested st = (case st of (p, pos, rule, last_sym_start) \<Rightarrow>
     let c = peek pos; next = tl pos; start = length rule in
     if c = ch CHR 0x22 then Some (
       bindE (literal_loop next rule) (\<lambda>(pos, rule).
       Inr (p, parse_space (tl pos) is_nested, rule, start)))
     else if c = ch CHR ''['' then Some (
       let (start_type, pos) = (if peek next = ch CHR ''^'' then (LLAMA_GRETYPE_CHAR_NOT, tl next) else (LLAMA_GRETYPE_CHAR, next)) in
       bindE (range_loop start_type start pos rule) (\<lambda>(pos, rule).
       Inr (p, parse_space (tl pos) is_nested, rule, start)))
     else if c = ch CHR ''<'' \<or> c = ch CHR ''!'' then Some (
       let (type, pos) = (if c = ch CHR ''!'' then (LLAMA_GRETYPE_TOKEN_NOT, next) else (LLAMA_GRETYPE_TOKEN, pos)) in
       bindE (parse_token tokenize pos) (\<lambda>(token, pos).
       Inr (p, parse_space pos is_nested, rule @ [Elem type token], start)))
     else if is_word_char c then Some (
       bindE (parse_name pos) (\<lambda>(name, pos).
       let (ref_rule_id, p) = get_symbol_id name p in
       Inr (p, parse_space pos is_nested, rule @ [Elem LLAMA_GRETYPE_RULE_REF ref_rule_id], start)))
     else if c = ch CHR ''.'' then Some (
       Inr (p, parse_space next is_nested, rule @ [Elem LLAMA_GRETYPE_CHAR_ANY 0], start))
     else if c = ch CHR ''*'' \<or> c = ch CHR ''+'' \<or> c = ch CHR ''?'' then Some (
       let pos = parse_space next is_nested;
           (min_times, max_times) = (if c = ch CHR ''*'' then (0, UINT64_MAX) else if c = ch CHR ''+'' then (1, UINT64_MAX) else (0, 1)) in
       bindE (handle_repetitions rule_name min_times max_times p rule last_sym_start) (\<lambda>(p, rule).
       Inr (p, pos, rule, last_sym_start)))
     else if c = ch CHR ''{'' then Some (
       bindE (parse_bounds is_nested (parse_space next is_nested)) (\<lambda>(min_times, max_times, pos).
       bindE (handle_repetitions rule_name min_times max_times p rule last_sym_start) (\<lambda>(p, rule).
       Inr (p, pos, rule, last_sym_start))))
     else None)"

text \<open>
  The loop of \<open>parse_sequence\<close>: \<open>grp\<close> parses the alternates between parentheses, and the fuel counts the
  turns, each of which reads at least one byte.
\<close>

type_synonym group_parser = "bytes \<Rightarrow> cpt \<Rightarrow> grammar_parser \<Rightarrow> (parse_error + (grammar_parser \<times> bytes)) option"

fun sequence_loop ::
  "(bytes \<Rightarrow> llama_token list) option \<Rightarrow> group_parser \<Rightarrow> bytes \<Rightarrow> bool \<Rightarrow> nat \<Rightarrow> sequence_state \<Rightarrow>
   (parse_error + (grammar_parser \<times> bytes \<times> llama_grammar_rule)) option" where
  "sequence_loop tokenize grp rule_name is_nested 0 st = None"
| "sequence_loop tokenize grp rule_name is_nested (Suc turns) st = (case st of (p, pos, rule, last_sym_start) \<Rightarrow>
     if peek pos = 0 then Some (Inr (p, pos, rule))
     else if peek pos = ch CHR ''('' then
       let (sub_rule_id, p) = generate_symbol_id rule_name p in
       bindR (grp (parse_space (tl pos) True) sub_rule_id p) (\<lambda>(p, pos).
       bindR (Some (expect (ch CHR '')'') pos)) (\<lambda>pos.
       sequence_loop tokenize grp rule_name is_nested turns
         (p, parse_space pos is_nested, rule @ [Elem LLAMA_GRETYPE_RULE_REF sub_rule_id], length rule)))
     else
       (case sequence_item tokenize rule_name is_nested st of
          None \<Rightarrow> Some (Inr (p, pos, rule))
        | Some r \<Rightarrow> bindR (Some r) (sequence_loop tokenize grp rule_name is_nested turns)))"

definition parse_sequence ::
  "(bytes \<Rightarrow> llama_token list) option \<Rightarrow> group_parser \<Rightarrow> bytes \<Rightarrow> bool \<Rightarrow> grammar_parser \<Rightarrow> bytes \<Rightarrow> llama_grammar_rule \<Rightarrow>
   (parse_error + (grammar_parser \<times> bytes \<times> llama_grammar_rule)) option" where
  "parse_sequence tokenize grp rule_name is_nested p src rule =
     sequence_loop tokenize grp rule_name is_nested (length src + 1) (p, src, rule, length rule)"

fun alternates_loop ::
  "(bytes \<Rightarrow> llama_token list) option \<Rightarrow> group_parser \<Rightarrow> bytes \<Rightarrow> bool \<Rightarrow> nat \<Rightarrow> grammar_parser \<times> bytes \<times> llama_grammar_rule \<Rightarrow>
   (parse_error + (grammar_parser \<times> bytes \<times> llama_grammar_rule)) option" where
  "alternates_loop tokenize grp rule_name is_nested 0 st = None"
| "alternates_loop tokenize grp rule_name is_nested (Suc turns) st = (case st of (p, pos, rule) \<Rightarrow>
     if peek pos = ch CHR ''|'' then
       bindR (parse_sequence tokenize grp rule_name is_nested p (parse_space (tl pos) True) (rule @ [Elem LLAMA_GRETYPE_ALT 0]))
         (alternates_loop tokenize grp rule_name is_nested turns)
     else Some (Inr (p, pos, rule)))"

text \<open>The fuel of \<open>parse_alternates\<close> is the depth of the parentheses.\<close>

fun parse_alternates ::
  "(bytes \<Rightarrow> llama_token list) option \<Rightarrow> bytes \<Rightarrow> nat \<Rightarrow> bool \<Rightarrow> group_parser" where
  "parse_alternates tokenize rule_name 0 is_nested src rule_id p = None"
| "parse_alternates tokenize rule_name (Suc depth) is_nested src rule_id p =
     (let grp = parse_alternates tokenize rule_name depth True in
      bindR (parse_sequence tokenize grp rule_name is_nested p src []) (\<lambda>(p, pos, rule).
      bindR (alternates_loop tokenize grp rule_name is_nested (length pos + 1) (p, pos, rule)) (\<lambda>(p, pos, rule).
      Some (Inr (add_rule rule_id (rule @ [Elem LLAMA_GRETYPE_END 0]) p, pos)))))"

declare sequence_loop.simps [simp del] alternates_loop.simps [simp del] parse_alternates.simps [simp del]

section \<open>Rules\<close>

definition parse_rule ::
  "(bytes \<Rightarrow> llama_token list) option \<Rightarrow> bytes \<Rightarrow> grammar_parser \<Rightarrow> (parse_error + (grammar_parser \<times> bytes)) option" where
  "parse_rule tokenize src p =
     bindR (Some (parse_name src)) (\<lambda>(name, pos).
     let pos = parse_space pos False; (rule_id, p) = get_symbol_id name p in
     if take 3 pos \<noteq> [ch CHR '':'', ch CHR '':'', ch CHR ''='' ] then Some (Inl Expecting_define)
     else
       let pos = parse_space (drop 3 pos) True in
       bindR (parse_alternates tokenize name (length pos + 1) False pos rule_id p) (\<lambda>(p, pos).
       if peek pos = CR then Some (Inr (p, parse_space (if peek (tl pos) = LF then tl (tl pos) else tl pos) True))
       else if peek pos = LF then Some (Inr (p, parse_space (tl pos) True))
       else if peek pos \<noteq> 0 then Some (Inl Expecting_newline_or_end)
       else Some (Inr (p, parse_space pos True))))"

fun parse_rules ::
  "nat \<Rightarrow> (bytes \<Rightarrow> llama_token list) option \<Rightarrow> bytes \<Rightarrow> grammar_parser \<Rightarrow> (parse_error + grammar_parser) option" where
  "parse_rules 0 tokenize pos p = None"
| "parse_rules (Suc fuel) tokenize pos p =
     (if peek pos = 0 then Some (Inr p)
      else bindR (parse_rule tokenize pos p) (\<lambda>(p, pos). parse_rules fuel tokenize pos p))"

text \<open>The validation of the references; an undefined one that no name stands for passes.\<close>

definition check_reference :: "grammar_parser \<Rightarrow> llama_grammar_element \<Rightarrow> parse_error + unit" where
  "check_reference p e =
     (if el_type e = LLAMA_GRETYPE_RULE_REF \<and>
         (unat (el_value e) \<ge> length (gp_rules p) \<or> gp_rules p ! unat (el_value e) = []) \<and>
         el_value e \<in> snd ` set (gp_symbol_ids p)
      then Inl Undefined_rule_identifier else Inr ())"

definition check_rules :: "grammar_parser \<Rightarrow> parse_error + unit" where
  "check_rules p =
     foldE (\<lambda>rule _. if rule = [] then Inl Undefined_rule
                    else foldE (\<lambda>e _. check_reference p e) rule ()) (gp_rules p) ()"

text \<open>The result of \<open>parse\<close> is the parser after a success; after an error its rules are cleared.\<close>

definition parse ::
  "(bytes \<Rightarrow> llama_token list) option \<Rightarrow> bytes \<Rightarrow> (parse_error + grammar_parser) option" where
  "parse tokenize src =
     (let pos = parse_space (c_str src) True in
      bindR (parse_rules (length pos + 1) tokenize pos \<lparr>gp_symbol_ids = [], gp_rules = []\<rparr>) (\<lambda>p.
      Some (bindE (check_rules p) (\<lambda>_. Inr p))))"

section \<open>Grammars from text\<close>

definition root_name :: bytes where
  "root_name = map ch ''root''"

text \<open>
  The initialisation from text. The inner \<open>None\<close> is the null pointer; an unknown \<open>grammar_root\<close> is an
  exception that is not caught (\<open>None\<close>, like an abort).
\<close>

definition llama_grammar_init_text ::
  "llama_vocab option \<Rightarrow> (bytes \<Rightarrow> llama_token list) option \<Rightarrow> bytes \<Rightarrow> bytes \<Rightarrow> bool \<Rightarrow> bytes list \<Rightarrow> llama_token list \<Rightarrow>
   llama_grammar option option" where
  "llama_grammar_init_text vocab tokenize grammar_str grammar_root lazy trigger_patterns trigger_tokens = do {
     r \<leftarrow> parse tokenize grammar_str;
     (case r of
        Inl _ \<Rightarrow> Some None
      | Inr p \<Rightarrow>
          if gp_rules p = [] then Some None
          else if map_of (gp_symbol_ids p) root_name = None then Some None
          else do {
            start_rule_index \<leftarrow> map_of (gp_symbol_ids p) grammar_root;
            vec_rules \<leftarrow> copy_rules (gp_rules p);
            recursive \<leftarrow> left_recursion_check vec_rules;
            if recursive then Some None
            else do {
              stacks \<leftarrow> initial_stacks vec_rules (unat start_rule_index);
              Some (Some \<lparr>gr_vocab = vocab, gr_rules = vec_rules, gr_stacks = stacks,
                gr_partial_utf8 = \<lparr>pu_value = 0, pu_n_remain = 0\<rparr>, gr_lazy = lazy, gr_awaiting_trigger = lazy,
                gr_trigger_buffer = [], gr_trigger_buffer_positions = [], gr_trigger_tokens = trigger_tokens,
                gr_trigger_patterns = trigger_patterns\<rparr>)
            }
          })
   }"

end
