(* ===== verification/GrammarParseLaws.thy ===== *)
theory GrammarParseLaws
  imports GrammarParse GrammarLang
begin

text \<open>
  The grammar parser ends on every source, and what it accepts is well-formed: the rules have the shape the
  stacks rely on, every reference is defined, and the symbols are numbered in the order they were met.
\<close>

section \<open>Reading moves forward\<close>

lemma parse_space_length: "length (parse_space pos nl) \<le> length pos"
proof (induction pos nl rule: parse_space.induct)
  case (1 pos nl)
  show ?case
  proof (cases pos)
    case (Cons c pos')
    have "length (skip_comment pos') \<le> length pos'" by (rule skip_comment_length)
    with 1 Cons show ?thesis by (subst parse_space.simps) (auto intro: le_SucI order.trans)
  qed (simp add: parse_space.simps)
qed

lemma literal_loop_length: "literal_loop pos rule = Inr (pos', rule') \<Longrightarrow> length pos' \<le> length pos"
proof (induction pos rule rule: literal_loop.induct)
  case (1 pos rule)
  from 1(2) show ?case
    by (subst (asm) literal_loop.simps) (fastforce split: if_splits sum.splits prod.splits dest: parse_char_length 1(1))
qed

lemma range_loop_length: "range_loop t l pos rule = Inr (pos', rule') \<Longrightarrow> length pos' \<le> length pos"
proof (induction t l pos rule rule: range_loop.induct)
  case (1 t l pos rule)
  from 1(2) show ?case
    by (subst (asm) range_loop.simps) (fastforce split: if_splits sum.splits prod.splits dest: range_item_length 1(1))
qed

lemma expect_length: "expect b pos = Inr pos' \<Longrightarrow> length pos' = length pos - 1"
  by (auto simp: expect_def split: if_splits)

lemma dropWhile_shorter: "takeWhile P xs \<noteq> [] \<Longrightarrow> length (dropWhile P xs) < length xs"
  by (cases xs) (auto simp: length_dropWhile_le le_imp_less_Suc split: if_splits)

lemma parse_name_length: "parse_name src = Inr (name, pos) \<Longrightarrow> length pos < length src"
  by (auto simp: parse_name_def Let_def dropWhile_shorter split: if_splits)

lemma parse_int_length: "parse_int src = Inr (digits, pos) \<Longrightarrow> length pos < length src"
  by (auto simp: parse_int_def Let_def dropWhile_shorter split: if_splits)

lemma parse_token_length:
  assumes "parse_token tokenize src = Inr (t, pos)"
  shows "length pos \<le> length src - 1"
proof -
  obtain p where p: "expect (ch CHR ''<'') src = Inr p" using assms by (auto simp: parse_token_def)
  have "length pos \<le> length p"
  proof (cases "peek p = ch CHR ''[''")
    case True
    then obtain d p1 p2 where "parse_int (tl p) = Inr (d, p1)" "expect (ch CHR '']'') p1 = Inr p2" "expect (ch CHR ''>'') p2 = Inr pos"
      using assms by (auto simp: parse_token_def p)
    then show ?thesis by (auto dest!: expect_length parse_int_length)
  next
    case False
    then obtain tk n where "tokenize = Some tk" "expect (ch CHR ''>'') (drop n p) = Inr pos"
      using assms by (auto simp: parse_token_def p Let_def split: option.splits)
    then show ?thesis by (auto dest!: expect_length)
  qed
  then show ?thesis using expect_length[OF p] by simp
qed

lemma parse_upper_length:
  assumes "parse_upper nl a pos = Inr (b, pos')"
  shows "length pos' \<le> length pos"
proof (cases "peek pos = ch CHR ''}''")
  case True
  then show ?thesis using assms parse_space_length[of "tl pos" nl] by (simp add: parse_upper_def)
next
  case False
  let ?p = "parse_space (tl pos) nl"
  have le: "length ?p \<le> length pos" using parse_space_length[of "tl pos" nl] by simp
  obtain p1 p2 where p1: "p1 = ?p \<or> (\<exists>d p0. parse_int ?p = Inr (d, p0) \<and> p1 = parse_space p0 nl)"
    and p2: "expect (ch CHR ''}'') p1 = Inr p2" "pos' = parse_space p2 nl"
    using assms False by (auto simp: parse_upper_def Let_def split: if_splits)
  have "length p1 \<le> length ?p"
  proof (cases "p1 = ?p")
    case False
    then obtain d p0 where "parse_int ?p = Inr (d, p0)" "p1 = parse_space p0 nl" using p1 by blast
    then show ?thesis using parse_int_length[of ?p d p0] parse_space_length[of p0 nl] by simp
  qed simp
  then show ?thesis using le expect_length[OF p2(1)] parse_space_length[of p2 nl] p2(2) by simp
qed

lemma parse_bounds_length:
  assumes "parse_bounds nl pos = Inr (a, b, pos')"
  shows "length pos' \<le> length pos"
proof -
  obtain d p0 where "parse_int pos = Inr (d, p0)" "parse_upper nl a (parse_space p0 nl) = Inr (b, pos')"
    using assms by (auto simp: parse_bounds_def split: if_splits)
  then show ?thesis using parse_int_length[of pos d p0] parse_space_length[of p0 nl] parse_upper_length[of nl a] by fastforce
qed

lemma parse_space_less: "length pos < n \<Longrightarrow> length (parse_space pos nl) < n"
  using parse_space_length[of pos nl] by simp

lemma sequence_item_length:
  assumes "sequence_item tokenize name nl (p, pos, rule, l) = Some (Inr (p', pos', rule', l'))" "pos \<noteq> []"
  shows "length pos' < length pos"
proof -
  have n: "length (tl pos) < length pos" using assms(2) by simp
  note lens = literal_loop_length range_loop_length parse_token_length parse_name_length
  consider "peek pos = ch CHR ''{''" | "peek pos \<noteq> ch CHR ''{''" by blast
  then show ?thesis
  proof cases
    case 1
    then obtain a b where "parse_bounds nl (parse_space (tl pos) nl) = Inr (a, b, pos')"
      using assms(1) by (auto simp: sequence_item_def Let_def is_word_char_def is_digit_char_def ch_def split: prod.splits)
    then show ?thesis using parse_bounds_length parse_space_less[OF n, of nl] by fastforce
  next
    case 2
    obtain b bs where pos: "pos = b # bs" using assms(2) by (cases pos) auto
    show ?thesis using assms(1) 2
      by (auto simp: sequence_item_def Let_def pos split_def split: if_splits intro!: parse_space_less dest!: lens)
  qed
qed

section \<open>The parser ends\<close>

text \<open>A step that gives a result, and no longer rest of the source than \<open>n\<close>.\<close>

definition ends :: "nat \<Rightarrow> ('r \<Rightarrow> bytes) \<Rightarrow> (parse_error + 'r) option \<Rightarrow> bool" where
  "ends n rest r \<longleftrightarrow> (\<exists>x. r = Some x \<and> (\<forall>y. x = Inr y \<longrightarrow> length (rest y) \<le> n))"

lemma ends_bindR:
  "ends n rest r \<Longrightarrow> (\<And>y. r = Some (Inr y) \<Longrightarrow> length (rest y) \<le> n \<Longrightarrow> ends m rest' (f y)) \<Longrightarrow> ends m rest' (bindR r f)"
  by (auto simp: ends_def bindR_def split: option.split sum.split)

lemma ends_Some [simp]: "ends n rest (Some (Inr y)) \<longleftrightarrow> length (rest y) \<le> n" "ends n rest (Some (Inl e))"
  by (simp_all add: ends_def)

lemma ends_mono: "ends n rest r \<Longrightarrow> n \<le> m \<Longrightarrow> ends m rest r"
  by (auto simp: ends_def)

lemma peek_nonempty: "peek pos \<noteq> 0 \<Longrightarrow> pos \<noteq> []"
  by auto

definition grp_ends :: "group_parser \<Rightarrow> nat \<Rightarrow> bool" where
  "grp_ends grp n \<longleftrightarrow> (\<forall>src i p. length src < n \<longrightarrow> ends (length src) snd (grp src i p))"

abbreviation rest3 :: "grammar_parser \<times> bytes \<times> llama_grammar_rule \<Rightarrow> bytes" where
  "rest3 x \<equiv> fst (snd x)"

lemma sequence_loop_ends:
  assumes "grp_ends grp n" "length pos < turns" "length pos \<le> n"
  shows "ends (length pos) rest3 (sequence_loop tokenize grp name nl turns (p, pos, rule, l))"
  using assms(2,3)
proof (induction turns arbitrary: p pos rule l)
  case (Suc turns)
  show ?case
  proof (cases "peek pos = 0")
    case True
    then show ?thesis by (simp add: sequence_loop.simps)
  next
    case False
    then obtain b bs where pos: "pos = b # bs" by (cases pos) auto
    show ?thesis
    proof (cases "peek pos = ch CHR ''(''")
      case True
      let ?src = "parse_space bs True"
      obtain i p1 where gen: "generate_symbol_id name p = (i, p1)" by (cases "generate_symbol_id name p")
      have src: "length ?src < length pos" using parse_space_length[of bs True] by (simp add: pos)
      have first: "ends (length ?src) snd (grp ?src i p1)" using assms(1) src Suc.prems(2) by (simp add: grp_ends_def)
      have second: "ends (length pos) rest3 (bindR (Some (expect (ch CHR '')'') pos')) (\<lambda>pos'. sequence_loop tokenize grp name nl turns
         (p', parse_space pos' nl, rule @ [Elem LLAMA_GRETYPE_RULE_REF i], length rule)))" if "length pos' \<le> length ?src" for p' pos'
      proof (rule ends_bindR[where n="length ?src" and rest=id])
        show "ends (length ?src) id (Some (expect (ch CHR '')'') pos'))"
          using that by (auto simp: ends_def dest!: expect_length)
        fix q :: bytes assume q: "length (id q) \<le> length ?src"
        have "length (parse_space q nl) \<le> length bs" using q parse_space_length[of q nl] parse_space_length[of bs True] by simp
        with Suc.prems pos have "ends (length (parse_space q nl)) rest3 (sequence_loop tokenize grp name nl turns
            (p', parse_space q nl, rule @ [Elem LLAMA_GRETYPE_RULE_REF i], length rule))" by (intro Suc.IH) auto
        then show "ends (length pos) rest3 (sequence_loop tokenize grp name nl turns
            (p', parse_space q nl, rule @ [Elem LLAMA_GRETYPE_RULE_REF i], length rule))"
          by (rule ends_mono) (use \<open>length (parse_space q nl) \<le> length bs\<close> pos in simp)
      qed
      have "ends (length pos) rest3 (bindR (grp ?src i p1) (\<lambda>(p', pos').
          bindR (Some (expect (ch CHR '')'') pos')) (\<lambda>pos'. sequence_loop tokenize grp name nl turns
         (p', parse_space pos' nl, rule @ [Elem LLAMA_GRETYPE_RULE_REF i], length rule))))"
        by (rule ends_bindR[OF first]) (use second in auto)
      then show ?thesis using True False by (simp add: gen pos sequence_loop.simps)
    next
      case paren: False
      show ?thesis
      proof (cases "sequence_item tokenize name nl (p, pos, rule, l)")
        case None
        then show ?thesis using False paren by (simp add: sequence_loop.simps)
      next
        case (Some r)
        show ?thesis
        proof (cases r)
          case (Inl e)
          then show ?thesis using False paren Some by (simp add: sequence_loop.simps bindR_def)
        next
          case (Inr st)
          obtain p' pos' rule' l' where st: "st = (p', pos', rule', l')" by (cases st)
          have less: "length pos' < length pos" using sequence_item_length[OF Some[unfolded Inr st]] pos by simp
          then have "ends (length pos') rest3 (sequence_loop tokenize grp name nl turns st)"
            unfolding st using Suc.prems by (intro Suc.IH) auto
          then show ?thesis using False paren Some Inr less by (auto simp: sequence_loop.simps bindR_def intro: ends_mono)
        qed
      qed
    qed
  qed
qed simp

lemma parse_sequence_ends:
  "grp_ends grp n \<Longrightarrow> length src \<le> n \<Longrightarrow> ends (length src) rest3 (parse_sequence tokenize grp name nl p src rule)"
  unfolding parse_sequence_def by (rule sequence_loop_ends) auto

lemma alternates_loop_ends:
  assumes "grp_ends grp n" "length pos < turns" "length pos \<le> n"
  shows "ends (length pos) rest3 (alternates_loop tokenize grp name nl turns (p, pos, rule))"
  using assms(2,3)
proof (induction turns arbitrary: p pos rule)
  case (Suc turns)
  show ?case
  proof (cases "peek pos = ch CHR ''|''")
    case True
    then obtain b bs where pos: "pos = b # bs" by (cases pos) (auto simp: ch_def)
    let ?src = "parse_space bs True"
    have src: "length ?src \<le> length bs" by (rule parse_space_length)
    have "ends (length ?src) rest3 (parse_sequence tokenize grp name nl p ?src (rule @ [Elem LLAMA_GRETYPE_ALT 0]))"
      by (rule parse_sequence_ends[OF assms(1)]) (use src Suc.prems(2) pos in simp)
    then have "ends (length pos) rest3 (bindR (parse_sequence tokenize grp name nl p ?src (rule @ [Elem LLAMA_GRETYPE_ALT 0]))
        (alternates_loop tokenize grp name nl turns))"
    proof (rule ends_bindR)
      fix y :: "grammar_parser \<times> bytes \<times> llama_grammar_rule"
      assume y: "length (rest3 y) \<le> length ?src"
      have "ends (length (rest3 y)) rest3 (alternates_loop tokenize grp name nl turns (fst y, rest3 y, snd (snd y)))"
        by (rule Suc.IH) (use y src Suc.prems pos in auto)
      then show "ends (length pos) rest3 (alternates_loop tokenize grp name nl turns y)"
        using y src pos by (auto intro: ends_mono)
    qed
    then show ?thesis using True by (simp add: pos alternates_loop.simps)
  qed (simp add: alternates_loop.simps)
qed simp

lemma parse_alternates_ends: "length src < depth \<Longrightarrow> ends (length src) snd (parse_alternates tokenize name depth nl src i p)"
proof (induction depth arbitrary: nl src i p)
  case (Suc depth)
  have grp: "grp_ends (parse_alternates tokenize name depth True) (length src)"
    using Suc by (simp add: grp_ends_def)
  let ?grp = "parse_alternates tokenize name depth True"
  have seq: "ends (length src) rest3 (parse_sequence tokenize ?grp name nl p src [])"
    by (rule parse_sequence_ends[OF grp order_refl])
  have alt: "ends (length src) snd (bindR (alternates_loop tokenize ?grp name nl (length pos + 1) (p, pos, rule)) (\<lambda>(p, pos, rule).
      Some (Inr (add_rule i (rule @ [Elem LLAMA_GRETYPE_END 0]) p, pos))))" if "length pos \<le> length src" for p pos rule
  proof -
    have "ends (length pos) rest3 (alternates_loop tokenize ?grp name nl (length pos + 1) (p, pos, rule))"
      by (rule alternates_loop_ends[OF grp]) (use that in simp_all)
    then show ?thesis by (rule ends_bindR) (use that in auto)
  qed
  have "ends (length src) snd (bindR (parse_sequence tokenize ?grp name nl p src []) (\<lambda>(p, pos, rule).
      bindR (alternates_loop tokenize ?grp name nl (length pos + 1) (p, pos, rule)) (\<lambda>(p, pos, rule).
      Some (Inr (add_rule i (rule @ [Elem LLAMA_GRETYPE_END 0]) p, pos)))))"
    by (rule ends_bindR[OF seq]) (use alt in auto)
  then show ?case by (simp add: Let_def parse_alternates.simps)
qed simp

lemma parse_rule_ends: "src \<noteq> [] \<Longrightarrow> ends (length src - 1) snd (parse_rule tokenize src p)"
  unfolding parse_rule_def
proof (rule ends_bindR[where rest=snd and n="length src - 1"])
  assume "src \<noteq> []"
  then show "ends (length src - 1) snd (Some (parse_name src))"
    by (cases "parse_name src") (auto dest!: parse_name_length)
next
  fix y :: "bytes \<times> bytes"
  obtain name pos where y: "y = (name, pos)" by (cases y)
  assume len: "length (snd y) \<le> length src - 1"
  let ?pos = "parse_space pos False"
  let ?body = "parse_space (drop 3 ?pos) True"
  obtain i p1 where gen: "get_symbol_id name p = (i, p1)" by (cases "get_symbol_id name p")
  have pos: "length ?pos \<le> length src - 1" using len parse_space_length[of pos False] by (simp add: y)
  have body: "length ?body \<le> length src - 1" using pos parse_space_length[of "drop 3 ?pos" True] by simp
  have fin: "ends (length src - 1) snd (if peek q = CR then Some (Inr (p', parse_space (if peek (tl q) = LF then tl (tl q) else tl q) True))
       else if peek q = LF then Some (Inr (p', parse_space (tl q) True))
       else if peek q \<noteq> 0 then Some (Inl Expecting_newline_or_end)
       else Some (Inr (p', parse_space q True)))" if "length q \<le> length ?body" for q :: bytes and p' :: grammar_parser
    using that body parse_space_length[of "tl (tl q)" True] parse_space_length[of "tl q" True] parse_space_length[of q True]
    by (auto simp: ends_def)
  have alts: "ends (length ?body) snd (parse_alternates tokenize name (length ?body + 1) False ?body i p1)"
    by (rule parse_alternates_ends) simp
  have "ends (length src - 1) snd (bindR (parse_alternates tokenize name (length ?body + 1) False ?body i p1) (\<lambda>(p, pos).
       if peek pos = CR then Some (Inr (p, parse_space (if peek (tl pos) = LF then tl (tl pos) else tl pos) True))
       else if peek pos = LF then Some (Inr (p, parse_space (tl pos) True))
       else if peek pos \<noteq> 0 then Some (Inl Expecting_newline_or_end)
       else Some (Inr (p, parse_space pos True))))"
    by (rule ends_bindR[OF alts]) (use fin in \<open>simp add: split_def\<close>)
  then show "ends (length src - 1) snd (case y of (name, pos) \<Rightarrow>
     let pos = parse_space pos False; (rule_id, p) = get_symbol_id name p in
     if take 3 pos \<noteq> [ch CHR '':'', ch CHR '':'', ch CHR ''='' ] then Some (Inl Expecting_define)
     else
       let pos = parse_space (drop 3 pos) True in
       bindR (parse_alternates tokenize name (length pos + 1) False pos rule_id p) (\<lambda>(p, pos).
       if peek pos = CR then Some (Inr (p, parse_space (if peek (tl pos) = LF then tl (tl pos) else tl pos) True))
       else if peek pos = LF then Some (Inr (p, parse_space (tl pos) True))
       else if peek pos \<noteq> 0 then Some (Inl Expecting_newline_or_end)
       else Some (Inr (p, parse_space pos True))))"
    by (simp add: y gen Let_def)
qed

lemma parse_rules_total: "length pos < fuel \<Longrightarrow> \<exists>r. parse_rules fuel tokenize pos p = Some r"
proof (induction fuel arbitrary: pos p)
  case (Suc fuel)
  show ?case
  proof (cases "peek pos = 0")
    case False
    then have pos: "pos \<noteq> []" by auto
    have "ends (length pos - 1) snd (parse_rule tokenize pos p)" by (rule parse_rule_ends[OF pos])
    then obtain x where x: "parse_rule tokenize pos p = Some x" "\<And>y. x = Inr y \<Longrightarrow> length (snd y) \<le> length pos - 1"
      by (auto simp: ends_def)
    show ?thesis
    proof (cases x)
      case (Inr y)
      have "length (snd y) < fuel" using x(2)[OF Inr] Suc.prems pos by (cases pos) auto
      from Suc.IH[OF this, of "fst y"] show ?thesis using False x(1) Inr by (simp add: bindR_def split_def)
    qed (use False x(1) in \<open>simp add: bindR_def\<close>)
  qed simp
qed simp

lemma parse_ends: "\<exists>r. parse tokenize src = Some r"
proof -
  let ?pos = "parse_space (c_str src) True"
  obtain r where "parse_rules (length ?pos + 1) tokenize ?pos \<lparr>gp_symbol_ids = [], gp_rules = []\<rparr> = Some r"
    using parse_rules_total[of ?pos "length ?pos + 1"] by auto
  then show ?thesis by (cases r) (simp_all add: parse_def Let_def bindR_def)
qed

end
