(* ===== verification/GrammarParseShape.thy ===== *)
theory GrammarParseShape
  imports GrammarParseLaws
begin

text \<open>
  What the grammar parser builds: rules of the shape the stacks rely on, whose references are symbols, and
  symbols that are numbered in the order they were met.
\<close>

section \<open>Decimal numbers\<close>

lemma digit_of_nat: "n < 10 \<Longrightarrow> is_digit_char (ch CHR ''0'' + of_nat n)"
proof -
  assume "n < 10"
  then have "n = 0 \<or> n = 1 \<or> n = 2 \<or> n = 3 \<or> n = 4 \<or> n = 5 \<or> n = 6 \<or> n = 7 \<or> n = 8 \<or> n = 9" by arith
  then show ?thesis by (elim disjE) (simp_all add: is_digit_char_def ch_def)
qed

lemma uint_digit: "n < 10 \<Longrightarrow> uint (of_nat n :: byte) = int n"
  by (simp add: unsigned_of_nat unsigned_of_int take_bit_nat_eq_self take_bit_int_eq_self)

lemma decimal_digits: "c \<in> set (decimal n) \<Longrightarrow> is_digit_char c"
proof (induction n rule: decimal.induct)
  case (1 n)
  then show ?case by (subst (asm) (2) decimal.simps) (auto simp: digit_of_nat split: if_splits)
qed

lemma digits_value_decimal: "digits_value (decimal n) = int n"
proof (induction n rule: decimal.induct)
  case (1 n)
  have "int (n div 10) * 10 + int (n mod 10) = int n" using div_mult_mod_eq[of n 10] by linarith
  with 1 show ?case by (subst decimal.simps) (auto simp: digits_value_def uint_digit)
qed

lemma decimal_inj: "decimal m = decimal n \<longleftrightarrow> m = n"
  by (metis digits_value_decimal of_nat_eq_iff)

text \<open>A generated name is told apart from the others by its last underscore.\<close>

lemma underscore: "\<not> is_word_char (ch CHR ''_'')" "\<not> is_digit_char (ch CHR ''_'')"
  by (simp_all add: is_word_char_def is_digit_char_def ch_def)

lemma last_separator:
  assumes "b @ [x] @ d = b' @ [x] @ d'" "x \<notin> set d" "x \<notin> set d'"
  shows "d = d'"
proof -
  have cut: "takeWhile (\<lambda>y. y \<noteq> x) (rev e @ x # c) = rev e" if "x \<notin> set e" for e c
    using that by (induction e rule: rev_induct) auto
  have "rev d @ x # rev b = rev d' @ x # rev b'" using arg_cong[OF assms(1), of rev] by simp
  then have "rev d = rev d'" using cut[OF assms(2), of "rev b"] cut[OF assms(3), of "rev b'"] by simp
  then show ?thesis by simp
qed

lemma generated_eq: "b @ [ch CHR ''_''] @ decimal m = b' @ [ch CHR ''_''] @ decimal n \<Longrightarrow> m = n"
  using last_separator decimal_digits underscore(2) decimal_inj by metis

section \<open>The shape of rules\<close>

text \<open>Elements before the end of a rule; references are to symbols of \<open>R\<close>.\<close>

fun shape :: "cpt set \<Rightarrow> class_mode \<Rightarrow> llama_grammar_rule \<Rightarrow> bool" where
  "shape R m [] = True"
| "shape R m (e # es) =
     (case el_type e of
        LLAMA_GRETYPE_END \<Rightarrow> False
      | LLAMA_GRETYPE_RULE_REF \<Rightarrow> el_value e \<in> R \<and> shape R Top es
      | LLAMA_GRETYPE_CHAR \<Rightarrow> shape R In_char es
      | LLAMA_GRETYPE_CHAR_NOT \<Rightarrow> shape R In_char es
      | LLAMA_GRETYPE_CHAR_RNG_UPPER \<Rightarrow> m = In_char \<and> shape R In_upper es
      | LLAMA_GRETYPE_CHAR_ALT \<Rightarrow> m \<noteq> Top \<and> shape R In_char es
      | _ \<Rightarrow> shape R Top es)"

definition elem_mode :: "llama_gretype \<Rightarrow> class_mode" where
  "elem_mode t = (case t of
     LLAMA_GRETYPE_CHAR \<Rightarrow> In_char | LLAMA_GRETYPE_CHAR_NOT \<Rightarrow> In_char | LLAMA_GRETYPE_CHAR_ALT \<Rightarrow> In_char
   | LLAMA_GRETYPE_CHAR_RNG_UPPER \<Rightarrow> In_upper | _ \<Rightarrow> Top)"

fun mode_after :: "class_mode \<Rightarrow> llama_grammar_rule \<Rightarrow> class_mode" where
  "mode_after m [] = m"
| "mode_after m (e # es) = mode_after (elem_mode (el_type e)) es"

lemma mode_after_append [simp]: "mode_after m (xs @ ys) = mode_after (mode_after m xs) ys"
  by (induction xs arbitrary: m) simp_all

lemma shape_append: "shape R m (xs @ ys) \<longleftrightarrow> shape R m xs \<and> shape R (mode_after m xs) ys"
  by (induction R m xs rule: shape.induct) (auto simp: elem_mode_def split: llama_gretype.split)

lemma shape_any_mode: "shape R Top es \<Longrightarrow> shape R m es"
  by (cases es) (auto split: llama_gretype.splits)

lemma shape_append_Top: "shape R m xs \<Longrightarrow> shape R Top ys \<Longrightarrow> shape R m (xs @ ys)"
  by (simp add: shape_append shape_any_mode)

lemma shape_mono: "shape R m es \<Longrightarrow> R \<subseteq> S \<Longrightarrow> shape S m es"
  by (induction R m es rule: shape.induct) (auto split: llama_gretype.splits)

lemma shape_concat: "\<forall>es \<in> set ess. shape R Top es \<Longrightarrow> shape R Top (concat ess)"
  by (induction ess) (auto intro: shape_append_Top)

lemma shape_wf:
  "shape R m es \<Longrightarrow> (\<And>e. e \<in> set es \<Longrightarrow> el_type e = LLAMA_GRETYPE_RULE_REF \<Longrightarrow> unat (el_value e) < n) \<Longrightarrow>
   wf_elems n m (es @ [Elem LLAMA_GRETYPE_END 0])"
  by (induction R m es rule: shape.induct) (auto split: llama_gretype.splits)

lemma shape_refs: "shape R m es \<Longrightarrow> e \<in> set es \<Longrightarrow> el_type e = LLAMA_GRETYPE_RULE_REF \<Longrightarrow> el_value e \<in> R"
  by (induction R m es rule: shape.induct) (auto split: llama_gretype.splits)

definition no_alt :: "llama_grammar_rule \<Rightarrow> bool" where
  "no_alt es \<longleftrightarrow> LLAMA_GRETYPE_ALT \<notin> el_type ` set es"

lemma no_alt_simps [simp]:
  "no_alt []" "no_alt (e # es) \<longleftrightarrow> el_type e \<noteq> LLAMA_GRETYPE_ALT \<and> no_alt es" "no_alt (xs @ ys) \<longleftrightarrow> no_alt xs \<and> no_alt ys"
  by (auto simp: no_alt_def)

lemma no_alt_nth: "no_alt es \<Longrightarrow> j < length es \<Longrightarrow> el_type (es ! j) \<noteq> LLAMA_GRETYPE_ALT"
  unfolding no_alt_def by (metis image_eqI nth_mem)

section \<open>The invariant of the parser\<close>

definition symbols :: "grammar_parser \<Rightarrow> cpt set" where
  "symbols p = snd ` set (gp_symbol_ids p)"

text \<open>A name of the source, or a generated one, which ends in its number.\<close>

definition name_ok :: "bytes \<times> cpt \<Rightarrow> bool" where
  "name_ok s \<longleftrightarrow> (\<forall>c \<in> set (fst s). is_word_char c) \<or> (\<exists>b. fst s = b @ [ch CHR ''_''] @ decimal (unat (snd s)))"

definition numbered :: "(bytes \<times> cpt) list \<Rightarrow> bool" where
  "numbered ids \<longleftrightarrow> map snd ids = map of_nat [0..<length ids]"

definition rule_ok :: "cpt set \<Rightarrow> llama_grammar_rule \<Rightarrow> bool" where
  "rule_ok R rule \<longleftrightarrow> rule = [] \<or> (\<exists>es. rule = es @ [Elem LLAMA_GRETYPE_END 0] \<and> shape R Top es)"

definition parser_ok :: "grammar_parser \<Rightarrow> bool" where
  "parser_ok p \<longleftrightarrow> distinct (map fst (gp_symbol_ids p)) \<and> (\<forall>s \<in> set (gp_symbol_ids p). name_ok s) \<and>
     (length (gp_symbol_ids p) < 2 ^ 32 \<longrightarrow> numbered (gp_symbol_ids p)) \<and>
     (\<forall>rule \<in> set (gp_rules p). rule_ok (symbols p) rule)"

text \<open>What every operation keeps: the invariant, and the symbols there are.\<close>

definition keeps_parser :: "grammar_parser \<Rightarrow> grammar_parser \<Rightarrow> bool" where
  "keeps_parser p p' \<longleftrightarrow> parser_ok p' \<and> symbols p \<subseteq> symbols p'"

lemma keeps_trans: "keeps_parser p q \<Longrightarrow> keeps_parser q r \<Longrightarrow> keeps_parser p r"
  by (auto simp: keeps_parser_def)

lemma rule_ok_mono: "rule_ok R rule \<Longrightarrow> R \<subseteq> S \<Longrightarrow> rule_ok S rule"
  by (auto simp: rule_ok_def intro: shape_mono)

lemma add_rule_keeps:
  assumes "parser_ok p" "rule_ok (symbols p) rule"
  shows "keeps_parser p (add_rule i rule p)"
proof -
  have ids: "gp_symbol_ids (add_rule i rule p) = gp_symbol_ids p" by (simp add: add_rule_def Let_def)
  have "set (gp_rules (add_rule i rule p)) \<subseteq> insert rule (insert [] (set (gp_rules p)))"
    by (auto simp: add_rule_def Let_def dest!: set_update_subset_insert[THEN subsetD])
  then have "\<forall>r \<in> set (gp_rules (add_rule i rule p)). rule_ok (symbols p) r"
    using assms by (auto simp: parser_ok_def rule_ok_def[of _ "[]"])
  then show ?thesis using assms(1) ids by (simp add: keeps_parser_def parser_ok_def symbols_def)
qed

lemma get_symbol_id_keeps:
  assumes "parser_ok p" "get_symbol_id name p = (i, p')" "\<forall>c \<in> set name. is_word_char c"
  shows "keeps_parser p p' \<and> i \<in> symbols p'"
proof (cases "map_of (gp_symbol_ids p) name")
  case (Some j)
  then have "(name, j) \<in> set (gp_symbol_ids p)" by (rule map_of_SomeD)
  then show ?thesis using assms Some by (force simp: get_symbol_id_def keeps_parser_def symbols_def)
next
  case None
  have new: "name \<notin> fst ` set (gp_symbol_ids p)" using None by (simp add: map_of_eq_None_iff)
  have p': "p' = p\<lparr>gp_symbol_ids := gp_symbol_ids p @ [(name, of_nat (length (gp_symbol_ids p)))]\<rparr>"
    "i = of_nat (length (gp_symbol_ids p))"
    using assms(2) None by (auto simp: get_symbol_id_def Let_def)
  have sub: "symbols p \<subseteq> symbols p'" by (auto simp: symbols_def p')
  have "parser_ok p'"
    using assms(1,3) new sub unfolding parser_ok_def
    by (auto simp: p' numbered_def name_ok_def[of "(name, _)"] intro: rule_ok_mono)
  then show ?thesis using sub by (auto simp: keeps_parser_def symbols_def p')
qed


lemma update_new: "k \<notin> fst ` set al \<Longrightarrow> AList.update k v al = al @ [(k, v)]"
  by (induction al) auto

lemma generated_number:
  assumes "\<forall>s \<in> set (gp_symbol_ids p). name_ok s" "(base @ [ch CHR ''_''] @ decimal (unat i), j) \<in> set (gp_symbol_ids p)"
  shows "i = j"
proof -
  let ?name = "base @ [ch CHR ''_''] @ decimal (unat i)"
  have "name_ok (?name, j)" using assms by blast
  moreover have "\<not> (\<forall>c \<in> set ?name. is_word_char c)" by (auto simp: underscore)
  ultimately obtain b where "?name = b @ [ch CHR ''_''] @ decimal (unat j)" by (auto simp: name_ok_def)
  then show ?thesis using generated_eq by (metis unsigned_word_eqI)
qed

lemma generate_symbol_id_keeps:
  assumes "parser_ok p" "generate_symbol_id base p = (i, p')"
  shows "keeps_parser p p' \<and> i \<in> symbols p'"
proof -
  let ?ids = "gp_symbol_ids p"
  define name where "name = base @ [ch CHR ''_''] @ decimal (unat i)"
  have i: "i = of_nat (length ?ids)" and p': "p' = p\<lparr>gp_symbol_ids := AList.update name i ?ids\<rparr>"
    using assms(2) by (auto simp: generate_symbol_id_def Let_def name_def)
  have generated: "name_ok (name, i)" by (auto simp: name_ok_def name_def)
  have mine: "j = i" if "(name, j) \<in> set ?ids" for j
    using generated_number[of p base i j] that assms(1) by (auto simp: name_def parser_ok_def)
  have old: "AList.update name i ?ids = ?ids" if "name \<in> fst ` set ?ids"
  proof (rule update_triv)
    show "map_of ?ids name = Some i" using that mine by (metis map_of_SomeD map_of_eq_None_iff not_None_eq)
  qed
  show ?thesis
  proof (cases "name \<in> fst ` set ?ids")
    case True
    then have "p' = p" by (simp add: p' old)
    then show ?thesis using True mine assms(1) by (force simp: keeps_parser_def symbols_def)
  next
    case False
    then have new: "gp_symbol_ids p' = ?ids @ [(name, i)]" by (simp add: p' update_new)
    have sub: "symbols p \<subseteq> symbols p'" "i \<in> symbols p'" using new by (auto simp: symbols_def)
    have "gp_rules p' = gp_rules p" by (simp add: p')
    then have "parser_ok p'"
      using assms(1) False sub generated unfolding parser_ok_def
      by (auto simp: new numbered_def i intro: rule_ok_mono)
    then show ?thesis using sub by (simp add: keeps_parser_def)
  qed
qed


section \<open>Repetitions\<close>

text \<open>A rule under construction and the start of its last symbol.\<close>

definition sequence_ok :: "cpt set \<Rightarrow> llama_grammar_rule \<Rightarrow> nat \<Rightarrow> bool" where
  "sequence_ok R rule l \<longleftrightarrow> l \<le> length rule \<and> shape R Top (take l rule) \<and> shape R Top (drop l rule) \<and> no_alt (drop l rule)"

lemma sequence_ok_shape: "sequence_ok R rule l \<Longrightarrow> shape R Top rule"
  unfolding sequence_ok_def by (metis append_take_drop_id shape_append_Top)

lemma sequence_okI: "shape R Top rule \<Longrightarrow> shape R Top es \<Longrightarrow> no_alt es \<Longrightarrow> sequence_ok R (rule @ es) (length rule)"
  by (simp add: sequence_ok_def)

lemma sequence_ok_mono: "sequence_ok R rule l \<Longrightarrow> R \<subseteq> S \<Longrightarrow> sequence_ok S rule l"
  by (auto simp: sequence_ok_def intro: shape_mono)

lemma repetition_step_keeps:
  assumes "parser_ok p" "shape (symbols p) Top prev" "i > 0 \<longrightarrow> r \<in> symbols p"
    and "repetition_step name prev no_max i (p, r) = (p', r')"
  shows "keeps_parser p p' \<and> r' \<in> symbols p'"
proof -
  obtain p1 where gen: "generate_symbol_id name p = (r', p1)"
    and p': "p' = add_rule r' (prev @
      (if i > 0 \<or> no_max then [Elem LLAMA_GRETYPE_RULE_REF (if no_max then r' else r)] else []) @
      [Elem LLAMA_GRETYPE_ALT 0, Elem LLAMA_GRETYPE_END 0]) p1"
    using assms(4) by (auto simp: repetition_step_def Let_def split: prod.splits)
  have k: "keeps_parser p p1" "r' \<in> symbols p1" using generate_symbol_id_keeps[OF assms(1) gen] by auto
  have "shape (symbols p1) Top (prev @
      (if i > 0 \<or> no_max then [Elem LLAMA_GRETYPE_RULE_REF (if no_max then r' else r)] else []) @ [Elem LLAMA_GRETYPE_ALT 0])"
    using k assms(2,3) by (intro shape_append_Top) (auto simp: keeps_parser_def intro: shape_mono)
  then have "rule_ok (symbols p1) (prev @
      (if i > 0 \<or> no_max then [Elem LLAMA_GRETYPE_RULE_REF (if no_max then r' else r)] else []) @
      [Elem LLAMA_GRETYPE_ALT 0, Elem LLAMA_GRETYPE_END 0])"
    unfolding rule_ok_def by (intro disjI2 exI conjI) (simp_all del: append_assoc)
  then have "keeps_parser p1 p'" unfolding p' using k(1) by (intro add_rule_keeps) (simp_all add: keeps_parser_def)
  then show ?thesis using k keeps_trans by (auto simp: keeps_parser_def)
qed

lemma repetition_steps_keep:
  assumes "parser_ok p" "shape (symbols p) Top prev"
    and "fold (repetition_step name prev no_max) [0..<n] (p, r) = (p', r')"
  shows "keeps_parser p p' \<and> (n > 0 \<longrightarrow> r' \<in> symbols p')"
  using assms(3)
proof (induction n arbitrary: p' r')
  case 0
  then show ?case using assms(1) by (simp add: keeps_parser_def)
next
  case (Suc n)
  obtain q s where qs: "fold (repetition_step name prev no_max) [0..<n] (p, r) = (q, s)" by fastforce
  have k: "keeps_parser p q" "n > 0 \<longrightarrow> s \<in> symbols q" using Suc.IH[OF qs] by auto
  have "repetition_step name prev no_max n (q, s) = (p', r')" using Suc.prems qs by simp
  from repetition_step_keeps[OF _ _ k(2) this] k(1) assms(2)
  have "keeps_parser q p' \<and> r' \<in> symbols p'" by (auto simp: keeps_parser_def intro: shape_mono)
  then show ?case using k(1) keeps_trans by blast
qed

lemma handle_repetitions_keeps:
  assumes "parser_ok p" "sequence_ok (symbols p) rule l" "handle_repetitions name m n p rule l = Inr (p', rule')"
  shows "keeps_parser p p' \<and> sequence_ok (symbols p') rule' l"
proof -
  let ?prev = "drop l rule" and ?n = "if n = UINT64_MAX then 1 else unat (n - m)"
  define body where "body = (if m = 0 then [] else ?prev @ concat (replicate (unat m - 1) ?prev))"
  obtain r where f: "fold (repetition_step name ?prev (n = UINT64_MAX)) [0..<?n] (p, 0) = (p', r)"
    and rule': "rule' = (take l rule @ body) @ (if ?n > 0 then [Elem LLAMA_GRETYPE_RULE_REF r] else [])"
    using assms(3)
    by (auto simp: handle_repetitions_def Let_def body_def simp flip: append_assoc split: if_splits prod.splits)
  have sh: "shape (symbols p) Top (take l rule)" "shape (symbols p) Top ?prev" "l \<le> length rule"
    using assms(2) by (auto simp: sequence_ok_def)
  have k: "keeps_parser p p'" "?n > 0 \<longrightarrow> r \<in> symbols p'"
    using repetition_steps_keep[OF assms(1) sh(2) f] by blast+
  have sub: "symbols p \<subseteq> symbols p'" using k(1) by (simp add: keeps_parser_def)
  have "no_alt ?prev" using assms(2) by (simp add: sequence_ok_def)
  then have na: "no_alt (body @ (if ?n > 0 then [Elem LLAMA_GRETYPE_RULE_REF r] else []))" by (auto simp: body_def no_alt_def)
  have "shape (symbols p) Top body" using sh(2) by (auto simp: body_def intro!: shape_append_Top shape_concat)
  then have "shape (symbols p') Top (body @ (if ?n > 0 then [Elem LLAMA_GRETYPE_RULE_REF r] else []))"
    using sub k(2) by (intro shape_append_Top) (auto intro: shape_mono)
  moreover have "length (take l rule) = l" using sh(3) by simp
  ultimately have "sequence_ok (symbols p') rule' l"
    using sequence_okI[OF shape_mono[OF sh(1) sub] _ na] unfolding rule' by (metis append_assoc)
  then show ?thesis using k(1) by simp
qed


section \<open>Sequences\<close>

lemma literal_loop_shape:
  "literal_loop pos rule = Inr (pos', rule') \<Longrightarrow> \<exists>es. rule' = rule @ es \<and> shape R Top es \<and> no_alt es"
proof (induction pos rule rule: literal_loop.induct)
  case (1 pos rule)
  show ?case
  proof (cases "peek pos = ch CHR 0x22")
    case True
    then show ?thesis using 1(2) by (subst (asm) literal_loop.simps) auto
  next
    case False
    then obtain c q where c: "peek pos \<noteq> 0" "parse_char pos = Inr (c, q)"
      and r: "literal_loop q (rule @ [Elem LLAMA_GRETYPE_CHAR c]) = Inr (pos', rule')"
      using 1(2) by (subst (asm) literal_loop.simps) (auto split: if_splits sum.splits)
    obtain es where "rule' = rule @ Elem LLAMA_GRETYPE_CHAR c # es" "shape R Top es" "no_alt es"
      using 1(1)[OF False c(1) c(2) refl r] by auto
    then show ?thesis by (intro exI[of _ "Elem LLAMA_GRETYPE_CHAR c # es"]) (simp add: shape_any_mode)
  qed
qed

text \<open>The elements of a class so far.\<close>

definition class_ok :: "cpt set \<Rightarrow> llama_grammar_rule \<Rightarrow> bool" where
  "class_ok R es \<longleftrightarrow> shape R Top es \<and> no_alt es \<and> (es \<noteq> [] \<longrightarrow> mode_after Top es \<noteq> Top)"

lemma range_item_shape:
  assumes "range_item t (length rule) pos (rule @ es) = Inr (pos', rule')" "class_ok R es"
    and "t = LLAMA_GRETYPE_CHAR \<or> t = LLAMA_GRETYPE_CHAR_NOT"
  shows "\<exists>es'. rule' = rule @ es' \<and> class_ok R es'"
proof -
  obtain c d where "rule' = rule @ es @ [Elem (if es \<noteq> [] then LLAMA_GRETYPE_CHAR_ALT else t) c] \<or>
    rule' = rule @ es @ [Elem (if es \<noteq> [] then LLAMA_GRETYPE_CHAR_ALT else t) c, Elem LLAMA_GRETYPE_CHAR_RNG_UPPER d]"
    using assms(1) by (auto simp: range_item_def Let_def split: if_splits)
  then show ?thesis
    using assms(2,3) by (auto simp: class_ok_def shape_append elem_mode_def split: if_splits)
qed

lemma range_loop_shape:
  assumes "range_loop t (length rule) pos (rule @ es) = Inr (pos', rule')" "class_ok R es"
    and "t = LLAMA_GRETYPE_CHAR \<or> t = LLAMA_GRETYPE_CHAR_NOT"
  shows "\<exists>es'. rule' = rule @ es' \<and> class_ok R es'"
  using assms(1,2)
proof (induction "length pos" arbitrary: pos es rule: less_induct)
  case less
  show ?case
  proof (cases "peek pos = ch CHR '']''")
    case True
    then show ?thesis using less.prems by (subst (asm) range_loop.simps) auto
  next
    case False
    then obtain q rule1 where item: "range_item t (length rule) pos (rule @ es) = Inr (q, rule1)"
      and loop: "range_loop t (length rule) q rule1 = Inr (pos', rule')"
      using less.prems(1) by (subst (asm) range_loop.simps) (auto split: if_splits sum.splits)
    obtain es1 where "rule1 = rule @ es1" "class_ok R es1" using range_item_shape[OF item less.prems(2) assms(3)] by auto
    with less.hyps[OF range_item_length[OF item]] loop show ?thesis by blast
  qed
qed

lemma parse_name_word: "parse_name src = Inr (name, pos) \<Longrightarrow> \<forall>c \<in> set name. is_word_char c"
  by (auto simp: parse_name_def Let_def dest: set_takeWhileD split: if_splits)

lemma sequence_item_keeps:
  assumes "sequence_item tokenize name nl (p, pos, rule, l) = Some (Inr (p', pos', rule', l'))"
    and "parser_ok p" "sequence_ok (symbols p) rule l"
  shows "keeps_parser p p' \<and> sequence_ok (symbols p') rule' l'"
proof -
  have same: "keeps_parser p p" using assms(2) by (simp add: keeps_parser_def)
  have sh: "shape (symbols p) Top rule" by (rule sequence_ok_shape[OF assms(3)])
  have grow: "keeps_parser p p' \<and> sequence_ok (symbols p') rule' l'"
    if "keeps_parser p p'" "rule' = rule @ es" "l' = length rule" "shape (symbols p') Top es" "no_alt es" for es
    using that sh unfolding that(2,3) by (intro conjI sequence_okI) (auto simp: keeps_parser_def intro: shape_mono)
  consider (lit) "peek pos = ch CHR 0x22"
    | (cls) "peek pos \<noteq> ch CHR 0x22" "peek pos = ch CHR ''[''"
    | (tok) "peek pos \<noteq> ch CHR 0x22" "peek pos \<noteq> ch CHR ''[''" "peek pos = ch CHR ''<'' \<or> peek pos = ch CHR ''!''"
    | (word) "peek pos \<noteq> ch CHR 0x22" "peek pos \<noteq> ch CHR ''[''" "\<not> (peek pos = ch CHR ''<'' \<or> peek pos = ch CHR ''!'')" "is_word_char (peek pos)"
    | (other) "peek pos \<noteq> ch CHR 0x22" "peek pos \<noteq> ch CHR ''[''" "\<not> (peek pos = ch CHR ''<'' \<or> peek pos = ch CHR ''!'')" "\<not> is_word_char (peek pos)"
    by blast
  then show ?thesis
  proof cases
    case lit
    then obtain q where q: "literal_loop (tl pos) rule = Inr (q, rule')" "p' = p" "l' = length rule"
      using assms(1) by (auto simp: sequence_item_def Let_def)
    from literal_loop_shape[OF q(1), of "symbols p"] show ?thesis using grow same q by blast
  next
    case cls
    then obtain q t q0 where q: "range_loop t (length rule) q0 (rule @ []) = Inr (q, rule')" "p' = p" "l' = length rule"
        "t = LLAMA_GRETYPE_CHAR \<or> t = LLAMA_GRETYPE_CHAR_NOT"
      using assms(1) by (auto simp: sequence_item_def Let_def split: if_splits)
    from range_loop_shape[OF q(1) _ q(4), of "symbols p"] show ?thesis using grow same q(2,3) by (auto simp: class_ok_def)
  next
    case tok
    then obtain t v where "p' = p" "l' = length rule" "rule' = rule @ [Elem t v]" "t = LLAMA_GRETYPE_TOKEN \<or> t = LLAMA_GRETYPE_TOKEN_NOT"
      using assms(1) by (auto simp: sequence_item_def Let_def split: if_splits)
    then show ?thesis using grow[of "[Elem t v]"] same by auto
  next
    case word
    then obtain n r where n: "parse_name pos = Inr (n, r)" using assms(1) by (auto simp: sequence_item_def Let_def)
    obtain i p1 where g: "get_symbol_id n p = (i, p1)" by fastforce
    have q: "parse_name pos = Inr (n, r)" "get_symbol_id n p = (i, p')" "l' = length rule"
        "rule' = rule @ [Elem LLAMA_GRETYPE_RULE_REF i]"
      using assms(1) word n g by (simp_all add: sequence_item_def Let_def)
    from get_symbol_id_keeps[OF assms(2) q(2) parse_name_word[OF q(1)]] grow[OF _ q(4,3)] show ?thesis by simp
  next
    case other
    show ?thesis
    proof (cases "peek pos = ch CHR ''.''")
      case True
      then have "p' = p" "l' = length rule" "rule' = rule @ [Elem LLAMA_GRETYPE_CHAR_ANY 0]"
        using assms(1) other by (auto simp: sequence_item_def Let_def)
      then show ?thesis using grow[of "[Elem LLAMA_GRETYPE_CHAR_ANY 0]"] same by auto
    next
      case False
      have "\<exists>a b. handle_repetitions name a b p rule l = Inr (p', rule') \<and> l' = l"
      proof (cases "peek pos = ch CHR ''*'' \<or> peek pos = ch CHR ''+'' \<or> peek pos = ch CHR ''?''")
        case True
        obtain a b where ab: "(if peek pos = ch CHR ''*'' then (0, UINT64_MAX) else if peek pos = ch CHR ''+'' then (1, UINT64_MAX)
            else (0, 1)) = (a :: 64 word, b :: 64 word)" by fastforce
        have "bindE (handle_repetitions name a b p rule l) (\<lambda>(p, rule). Inr (p, parse_space (tl pos) nl, rule, l)) = Inr (p', pos', rule', l')"
          using assms(1) by (simp only: sequence_item_def Let_def prod.case ab other False True if_False if_True option.inject)
        then show ?thesis by auto
      next
        case no: False
        then have c: "peek pos = ch CHR ''{''"
          using assms(1) other False by (simp add: sequence_item_def Let_def split: if_splits)
        show ?thesis
          using assms(1) unfolding sequence_item_def Let_def
          by (simp only: prod.case other False no c[THEN eqTrueI] if_True if_False option.inject) auto
      qed
      then obtain a b where "handle_repetitions name a b p rule l = Inr (p', rule')" "l' = l" by blast
      then show ?thesis using handle_repetitions_keeps[OF assms(2,3)] by auto
    qed
  qed
qed


text \<open>The loops: what a group parser keeps, the loops keep.\<close>

definition grp_keeps :: "group_parser \<Rightarrow> bool" where
  "grp_keeps grp \<longleftrightarrow>
     (\<forall>src i p p' pos. parser_ok p \<longrightarrow> grp src i p = Some (Inr (p', pos)) \<longrightarrow> keeps_parser p p')"

lemma keeps_ok: "keeps_parser p p' \<Longrightarrow> parser_ok p'"
  by (simp add: keeps_parser_def)

lemma keeps_shape: "keeps_parser p p' \<Longrightarrow> shape (symbols p) m es \<Longrightarrow> shape (symbols p') m es"
  by (auto simp: keeps_parser_def intro: shape_mono)

lemma sequence_loop_keeps:
  assumes "grp_keeps grp" "parser_ok p" "sequence_ok (symbols p) rule l"
    and "sequence_loop tokenize grp name nl turns (p, pos, rule, l) = Some (Inr (p', pos', rule'))"
  shows "keeps_parser p p' \<and> shape (symbols p') Top rule'"
  using assms(2-4)
proof (induction turns arbitrary: p pos rule l)
  case (Suc turns)
  have same: "keeps_parser p p" "shape (symbols p) Top rule"
    using Suc.prems(1,2) by (simp_all add: keeps_parser_def sequence_ok_shape)
  show ?case
  proof (cases "peek pos = 0")
    case True
    then show ?thesis using Suc.prems same by (simp add: sequence_loop.simps)
  next
    case nonzero: False
    show ?thesis
    proof (cases "peek pos = ch CHR ''(''")
      case True
      obtain i p1 where gen: "generate_symbol_id name p = (i, p1)" by fastforce
      obtain p2 q pos2 where grp: "grp (parse_space (tl pos) True) i p1 = Some (Inr (p2, q))"
        and loop: "sequence_loop tokenize grp name nl turns (p2, pos2, rule @ [Elem LLAMA_GRETYPE_RULE_REF i], length rule)
          = Some (Inr (p', pos', rule'))"
        using Suc.prems(3) nonzero True gen by (auto simp: sequence_loop.simps bindR_Inr)
      have k1: "keeps_parser p p1" "i \<in> symbols p1" using generate_symbol_id_keeps[OF Suc.prems(1) gen] by auto
      have k2: "keeps_parser p1 p2" using assms(1) grp keeps_ok[OF k1(1)] unfolding grp_keeps_def by blast
      have k: "keeps_parser p p2" by (rule keeps_trans[OF k1(1) k2])
      have "i \<in> symbols p2" using k1(2) k2 by (auto simp: keeps_parser_def)
      then have "sequence_ok (symbols p2) (rule @ [Elem LLAMA_GRETYPE_RULE_REF i]) (length rule)"
        by (intro sequence_okI keeps_shape[OF k same(2)]) simp_all
      from Suc.IH[OF keeps_ok[OF k] this loop] show ?thesis using k keeps_trans by blast
    next
      case False
      show ?thesis
      proof (cases "sequence_item tokenize name nl (p, pos, rule, l)")
        case None
        then show ?thesis using Suc.prems nonzero False same by (simp add: sequence_loop.simps)
      next
        case (Some r)
        then obtain p1 pos1 rule1 l1 where item: "sequence_item tokenize name nl (p, pos, rule, l) = Some (Inr (p1, pos1, rule1, l1))"
          and loop: "sequence_loop tokenize grp name nl turns (p1, pos1, rule1, l1) = Some (Inr (p', pos', rule'))"
          using Suc.prems(3) nonzero False by (auto simp: sequence_loop.simps bindR_Inr)
        from sequence_item_keeps[OF item Suc.prems(1,2)]
        have k: "keeps_parser p p1" "sequence_ok (symbols p1) rule1 l1" by auto
        from Suc.IH[OF keeps_ok[OF k(1)] k(2) loop] show ?thesis using k(1) keeps_trans by blast
      qed
    qed
  qed
qed (simp add: sequence_loop.simps)

lemma parse_sequence_keeps:
  assumes "grp_keeps grp" "parser_ok p" "shape (symbols p) Top rule"
    and "parse_sequence tokenize grp name nl p src rule = Some (Inr (p', pos', rule'))"
  shows "keeps_parser p p' \<and> shape (symbols p') Top rule'"
  using sequence_loop_keeps[OF assms(1,2) _ assms(4)[unfolded parse_sequence_def]] assms(3) by (simp add: sequence_ok_def)

lemma alternates_loop_keeps:
  assumes "grp_keeps grp" "parser_ok p" "shape (symbols p) Top rule"
    and "alternates_loop tokenize grp name nl turns (p, pos, rule) = Some (Inr (p', pos', rule'))"
  shows "keeps_parser p p' \<and> shape (symbols p') Top rule'"
  using assms(2-4)
proof (induction turns arbitrary: p pos rule)
  case (Suc turns)
  show ?case
  proof (cases "peek pos = ch CHR ''|''")
    case True
    then obtain p1 pos1 rule1 where seq: "parse_sequence tokenize grp name nl p (parse_space (tl pos) True)
          (rule @ [Elem LLAMA_GRETYPE_ALT 0]) = Some (Inr (p1, pos1, rule1))"
      and loop: "alternates_loop tokenize grp name nl turns (p1, pos1, rule1) = Some (Inr (p', pos', rule'))"
      using Suc.prems(3) by (auto simp: alternates_loop.simps bindR_Inr)
    have "shape (symbols p) Top (rule @ [Elem LLAMA_GRETYPE_ALT 0])" using Suc.prems(2) by (intro shape_append_Top) auto
    from parse_sequence_keeps[OF assms(1) Suc.prems(1) this seq]
    have k: "keeps_parser p p1" "shape (symbols p1) Top rule1" by auto
    from Suc.IH[OF keeps_ok[OF k(1)] k(2) loop] show ?thesis using k(1) keeps_trans by blast
  qed (use Suc.prems in \<open>auto simp: alternates_loop.simps keeps_parser_def\<close>)
qed (simp add: alternates_loop.simps)

lemma parse_alternates_keeps: "grp_keeps (parse_alternates tokenize name depth nl)"
proof (induction depth arbitrary: nl)
  case 0
  then show ?case by (simp add: grp_keeps_def parse_alternates.simps)
next
  case (Suc depth)
  let ?grp = "parse_alternates tokenize name depth True"
  show ?case
    unfolding grp_keeps_def
  proof (intro allI impI)
    fix src i p p' pos
    assume p: "parser_ok p" and r: "parse_alternates tokenize name (Suc depth) nl src i p = Some (Inr (p', pos))"
    obtain p1 pos1 rule1 p2 pos2 rule2 where seq: "parse_sequence tokenize ?grp name nl p src [] = Some (Inr (p1, pos1, rule1))"
      and loop: "alternates_loop tokenize ?grp name nl (length pos1 + 1) (p1, pos1, rule1) = Some (Inr (p2, pos2, rule2))"
      and p': "p' = add_rule i (rule2 @ [Elem LLAMA_GRETYPE_END 0]) p2"
      using r by (auto simp: parse_alternates.simps Let_def bindR_Inr)
    have k1: "keeps_parser p p1" "shape (symbols p1) Top rule1" using parse_sequence_keeps[OF Suc.IH p _ seq] by auto
    have k2: "keeps_parser p1 p2" "shape (symbols p2) Top rule2"
      using alternates_loop_keeps[OF Suc.IH keeps_ok[OF k1(1)] k1(2) loop] by auto
    have "rule_ok (symbols p2) (rule2 @ [Elem LLAMA_GRETYPE_END 0])" using k2(2) by (simp add: rule_ok_def)
    from add_rule_keeps[OF keeps_ok[OF k2(1)] this, of i] show "keeps_parser p p'"
      using k1 k2 p' keeps_trans by blast
  qed
qed

section \<open>Whole grammars\<close>

lemma parse_rule_keeps:
  assumes "parse_rule tokenize src p = Some (Inr (p', pos))" "parser_ok p"
  shows "keeps_parser p p'"
proof -
  obtain name q where nq: "parse_name src = Inr (name, q)" using assms(1) by (auto simp: parse_rule_def bindR_Inr)
  obtain i p1 where n: "parse_name src = Inr (name, q)" "get_symbol_id name p = (i, p1)" using nq by fastforce
  let ?src = "parse_space (drop 3 (parse_space q False)) True"
  have "take 3 (parse_space q False) = [ch CHR '':'', ch CHR '':'', ch CHR ''='']"
    using assms(1) by (auto simp: parse_rule_def bindR_Inr n Let_def split: if_splits)
  then obtain x where alts: "parse_alternates tokenize name (length ?src + 1) False ?src i p1 = Some (Inr x)"
    and fin: "(if peek (snd x) = CR then Some (Inr (fst x, parse_space (if peek (tl (snd x)) = LF then tl (tl (snd x)) else tl (snd x)) True))
       else if peek (snd x) = LF then Some (Inr (fst x, parse_space (tl (snd x)) True))
       else if peek (snd x) \<noteq> 0 then Some (Inl Expecting_newline_or_end)
       else Some (Inr (fst x, parse_space (snd x) True))) = Some (Inr (p', pos))"
    using assms(1) by (simp add: parse_rule_def bindR_Inr n Let_def split_def del: split_paired_Ex) blast
  have "x = (p', snd x)" using fin by (auto simp: prod_eq_iff split: if_splits)
  then have alts: "parse_alternates tokenize name (length ?src + 1) False ?src i p1 = Some (Inr (p', snd x))" using alts by simp
  have k: "keeps_parser p p1" using get_symbol_id_keeps[OF assms(2) n(2) parse_name_word[OF n(1)]] by simp
  have "keeps_parser p1 p'" using parse_alternates_keeps alts keeps_ok[OF k] unfolding grp_keeps_def by blast
  then show ?thesis by (rule keeps_trans[OF k])
qed

lemma parse_rules_ok: "parse_rules fuel tokenize pos p = Some (Inr p') \<Longrightarrow> parser_ok p \<Longrightarrow> parser_ok p'"
proof (induction fuel arbitrary: pos p)
  case (Suc fuel)
  then show ?case by (auto simp: bindR_Inr split: if_splits dest: parse_rule_keeps keeps_ok)
qed simp

lemma foldE_unit: "foldE (\<lambda>x _. f x) xs u = Inr v \<Longrightarrow> x \<in> set xs \<Longrightarrow> \<exists>w. f x = Inr w"
  by (induction xs arbitrary: u) auto

lemma check_rules_rules_ok:
  assumes "parser_ok p" "check_rules p = Inr u"
  shows "rules_ok (gp_rules p)"
  unfolding rules_ok_def
proof
  fix rule assume rule: "rule \<in> set (gp_rules p)"
  obtain w where w: "(if rule = [] then Inl Undefined_rule else foldE (\<lambda>e _. check_reference p e) rule ()) = Inr w"
    using foldE_unit[OF assms(2)[unfolded check_rules_def] rule] by blast
  then obtain es where es: "rule = es @ [Elem LLAMA_GRETYPE_END 0]" "shape (symbols p) Top es"
    using assms(1) rule by (auto simp: parser_ok_def rule_ok_def split: if_splits)
  have "unat (el_value e) < length (gp_rules p)" if e: "e \<in> set es" "el_type e = LLAMA_GRETYPE_RULE_REF" for e
  proof -
    have "\<exists>w. check_reference p e = Inr w" using w es(1) e(1) by (intro foldE_unit[of "check_reference p" rule "()" w]) (auto split: if_splits)
    moreover have "el_value e \<in> snd ` set (gp_symbol_ids p)" using shape_refs[OF es(2) e] by (simp add: symbols_def)
    ultimately show ?thesis using e(2) by (auto simp: check_reference_def not_le split: if_splits)
  qed
  then show "wf_elems (length (gp_rules p)) Top rule" unfolding es(1) by (rule shape_wf[OF es(2)])
qed

lemma parse_parser_ok:
  assumes "parse tokenize src = Some (Inr p)"
  shows "parser_ok p" "rules_ok (gp_rules p)"
proof -
  obtain u where r: "parse_rules (length (parse_space (c_str src) True) + 1) tokenize (parse_space (c_str src) True)
      \<lparr>gp_symbol_ids = [], gp_rules = []\<rparr> = Some (Inr p)" and c: "check_rules p = Inr u"
    using assms by (auto simp: parse_def Let_def bindR_Inr)
  show ok: "parser_ok p" by (rule parse_rules_ok[OF r]) (simp add: parser_ok_def numbered_def)
  show "rules_ok (gp_rules p)" by (rule check_rules_rules_ok[OF ok c])
qed

end
