(* ===== verification/GrammarRepeat.thy ===== *)
theory GrammarRepeat
  imports GrammarParseShape
begin

text \<open>
  The language of element lists apart from the rule they stand in, and the language of the rules that
  \<open>handle_repetitions\<close> writes for \<open>S{m,n}\<close>, \<open>S*\<close>, \<open>S+\<close> and \<open>S?\<close>.
\<close>

section \<open>Derivations from element lists\<close>

inductive derives :: "llama_grammar_rules \<Rightarrow> llama_grammar_rule \<Rightarrow> cpt list \<Rightarrow> bool" for rules where
  derives_end: "is_end_type (el_type e) \<Longrightarrow> derives rules (e # es) []"
| derives_ref: "el_type e = LLAMA_GRETYPE_RULE_REF \<Longrightarrow> unat (el_value e) < length rules \<Longrightarrow>
    rule_lang rules (unat (el_value e)) u \<Longrightarrow> derives rules es v \<Longrightarrow> derives rules (e # es) (u @ v)"
| derives_char: "is_char_start (el_type e) \<Longrightarrow> in_ranges (fst (char_class (e # es))) c = is_positive_char (el_type e) \<Longrightarrow>
    derives rules (snd (char_class (e # es))) v \<Longrightarrow> derives rules (e # es) (c # v)"

inductive_cases derives_ConsE: "derives rules (e # es) w"

lemma derives_end_iff: "is_end_type (el_type e) \<Longrightarrow> derives rules (e # es) w \<longleftrightarrow> w = []"
  by (auto elim: derives_ConsE intro: derives_end simp: kinds_disjoint)

lemma derives_ref_iff:
  "el_type e = LLAMA_GRETYPE_RULE_REF \<Longrightarrow> derives rules (e # es) w \<longleftrightarrow>
   (\<exists>u v. w = u @ v \<and> unat (el_value e) < length rules \<and> rule_lang rules (unat (el_value e)) u \<and> derives rules es v)"
  by (rule iffI, erule derives_ConsE) (auto intro: derives_ref simp: is_char_start_def)

lemma derives_char_iff:
  "is_char_start (el_type e) \<Longrightarrow> derives rules (e # es) w \<longleftrightarrow>
   (\<exists>c v. w = c # v \<and> in_ranges (fst (char_class (e # es))) c = is_positive_char (el_type e) \<and>
      derives rules (snd (char_class (e # es))) v)"
  by (auto elim: derives_ConsE intro: derives_char simp: kinds_disjoint dest: kinds_disjoint)

lemma derives_token: "is_token_type (el_type e) \<Longrightarrow> \<not> derives rules (e # es) w"
  by (auto elim: derives_ConsE simp: kinds_disjoint dest: kinds_disjoint)

text \<open>From a good position of a rule the elements derive what the position generates.\<close>

lemma derives_gen:
  assumes "pos_ok rules (k, i)"
  shows "gen rules (k, i) w \<longleftrightarrow> derives rules (drop i (rules ! k)) w"
  using assms
proof (induction "length (rules ! k) - i" arbitrary: i w rule: less_induct)
  case less
  obtain e es where e: "k < length rules" "element_at rules (k, i) = Some e" "drop i (rules ! k) = e # es"
    "wf_elems (length rules) Top (e # es)"
    using less.prems by (elim pos_okE) auto
  have i: "i < length (rules ! k)" using e(3) by (auto simp: drop_eq_Cons)
  have next': "drop (Suc i) (rules ! k) = es" using e(3) by (simp add: drop_eq_Cons)
  consider (stop) "is_end_type (el_type e)" | (ref) "el_type e = LLAMA_GRETYPE_RULE_REF"
    | (chr) "is_char_start (el_type e)" | (token) "is_token_type (el_type e)"
    using e(4) by (cases "el_type e") (auto simp: is_char_start_def)
  then show ?case
  proof cases
    case stop
    then show ?thesis using e by (simp add: gen_end_iff derives_end_iff end_iff)
  next
    case ref
    have ok: "pos_ok rules (k, Suc i)" using next_pos_ok[OF less.prems e(2)] ref by (simp add: next_pos_def)
    have "gen rules (k, Suc i) v \<longleftrightarrow> derives rules es v" for v
      using less.hyps[OF _ ok] i next' by simp
    then show ?thesis unfolding e(3) gen_ref_iff[OF e(2) ref] derives_ref_iff[OF ref] by (simp add: next_pos_def)
  next
    case chr
    let ?rest = "snd (char_class (e # es))"
    note m = match_char_in_class[OF less.prems e(2) chr]
    obtain q where q: "class_end rules (k, i) = (k, q)" "i < q" "drop q (rules ! k) = ?rest"
    proof -
      obtain q where q: "i < q" "q < length (rules ! k)" "?rest = drop q (rules ! k)"
        using match_loop_class[OF e(3) char_start_mode[OF e(4) chr], of 0 False] by auto
      have "class_end rules (k, i) = (k, q)" using q(2) by (simp add: class_end_def e(3) q(3))
      then show thesis using that q(1) q(3)[symmetric] by blast
    qed
    have "gen rules (k, q) v \<longleftrightarrow> derives rules ?rest v" for v
      using less.hyps[of q] m(2) q i by simp
    moreover have "in_class rules (k, i) c \<longleftrightarrow> in_ranges (fst (char_class (e # es))) c = is_positive_char (el_type e)" for c
      using chr e(2,3) by (simp add: in_class_def class_at_def)
    ultimately show ?thesis unfolding e(3) gen_char_iff[OF e(2) chr] derives_char_iff[OF chr] by (simp add: q(1))
  next
    case token
    then show ?thesis using gen_token[OF e(2) token] derives_token[OF token] by (simp add: e(3))
  qed
qed

lemma rule_lang_derives:
  assumes "rules_ok rules" "k < length rules"
  shows "rule_lang rules k w \<longleftrightarrow> (\<exists>i \<in> alt_starts (rules ! k). derives rules (drop i (rules ! k)) w)"
  using rule_alternates[OF assms] derives_gen by (fastforce simp: rule_lang_def)

section \<open>Concatenation\<close>

text \<open>Elements behind which a class does not go on.\<close>

definition fresh_start :: "llama_grammar_rule \<Rightarrow> bool" where
  "fresh_start ys \<longleftrightarrow> (\<exists>y ys'. ys = y # ys' \<and> el_type y \<noteq> LLAMA_GRETYPE_CHAR_RNG_UPPER \<and> el_type y \<noteq> LLAMA_GRETYPE_CHAR_ALT)"

lemma char_class_append:
  assumes "shape R (class_mode_of e) es" "is_char_start (el_type e) \<or> el_type e = LLAMA_GRETYPE_CHAR_ALT"
  shows "\<exists>rs xs. (\<forall>ys. fresh_start ys \<longrightarrow> char_class (e # es @ ys) = (rs, xs @ ys)) \<and> shape R Top xs \<and>
    (\<exists>zs. es = zs @ xs)"
  using assms
proof (induction es arbitrary: e rule: length_induct)
  case (1 es)
  show ?case
  proof (cases es)
    case Nil
    then show ?thesis
      by (intro exI[of _ "[if el_type e = LLAMA_GRETYPE_CHAR_ANY then (0, -1) else (el_value e, el_value e)]"] exI[of _ "[]"])
        (auto simp: fresh_start_def)
  next
    case (Cons u us)
    consider (upper) "el_type u = LLAMA_GRETYPE_CHAR_RNG_UPPER" | (alt) "el_type u = LLAMA_GRETYPE_CHAR_ALT"
      | (other) "el_type u \<noteq> LLAMA_GRETYPE_CHAR_RNG_UPPER" "el_type u \<noteq> LLAMA_GRETYPE_CHAR_ALT" by blast
    then show ?thesis
    proof cases
      case upper
      show ?thesis
      proof (cases us)
        case Nil
        then show ?thesis using Cons upper
          by (intro exI[of _ "[(el_value e, el_value u)]"] exI[of _ "[]"]) (auto simp: fresh_start_def)
      next
        case us: (Cons a as)
        have sh: "shape R In_upper (a # as)" using 1(2) Cons upper us by simp
        show ?thesis
        proof (cases "el_type a = LLAMA_GRETYPE_CHAR_ALT")
          case True
          have "shape R (class_mode_of a) as" using sh True by (simp add: class_mode_of_def)
          with 1(1) Cons us True obtain rs xs zs where "\<forall>ys. fresh_start ys \<longrightarrow> char_class (a # as @ ys) = (rs, xs @ ys)"
            "shape R Top xs" "as = zs @ xs" by (metis length_Cons less_Suc_eq)
          then show ?thesis using Cons us upper True
            by (intro exI[of _ "(el_value e, el_value u) # rs"] exI[of _ xs] conjI exI[of _ "u # a # zs"]) auto
        next
          case False
          then have "shape R Top us" using sh us by (auto split: llama_gretype.splits)
          then show ?thesis using Cons us upper False
            by (intro exI[of _ "[(el_value e, el_value u)]"] exI[of _ us] conjI exI[of _ "[u]"]) auto
        qed
      qed
    next
      case alt
      have "shape R (class_mode_of u) us" using 1(2) Cons alt by (simp add: class_mode_of_def)
      with 1(1) Cons alt obtain rs xs zs where "\<forall>ys. fresh_start ys \<longrightarrow> char_class (u # us @ ys) = (rs, xs @ ys)"
        "shape R Top xs" "us = zs @ xs" by (metis length_Cons less_Suc_eq lessI)
      then show ?thesis using Cons alt
        by (intro exI[of _ "(if el_type e = LLAMA_GRETYPE_CHAR_ANY then (0, -1) else (el_value e, el_value e)) # rs"]
          exI[of _ xs] conjI exI[of _ "u # zs"]) auto
    next
      case other
      then have "shape R Top es" using 1(2) Cons by (auto split: llama_gretype.splits)
      then show ?thesis using Cons other
        by (intro exI[of _ "[if el_type e = LLAMA_GRETYPE_CHAR_ANY then (0, -1) else (el_value e, el_value e)]"] exI[of _ es]) auto
    qed
  qed
qed

definition END :: llama_grammar_element where
  "END = Elem LLAMA_GRETYPE_END 0"

definition ALT :: llama_grammar_element where
  "ALT = Elem LLAMA_GRETYPE_ALT 0"

lemma derives_append:
  assumes "shape R Top xs" "no_alt xs" "fresh_start ys"
  shows "derives rules (xs @ ys) w \<longleftrightarrow> (\<exists>u v. w = u @ v \<and> derives rules (xs @ [END]) u \<and> derives rules ys v)"
  using assms(1,2)
proof (induction xs arbitrary: w rule: length_induct)
  case (1 xs)
  have fresh: "fresh_start [END]" by (simp add: fresh_start_def END_def)
  show ?case
  proof (cases xs)
    case Nil
    then show ?thesis by (simp add: derives_end_iff END_def)
  next
    case (Cons e es)
    consider (ref) "el_type e = LLAMA_GRETYPE_RULE_REF" | (chr) "is_char_start (el_type e)" | (token) "is_token_type (el_type e)"
      using 1(2,3) Cons by (cases "el_type e") (auto simp: is_char_start_def no_alt_def)
    then show ?thesis
    proof cases
      case ref
      have "derives rules (es @ ys) v \<longleftrightarrow> (\<exists>v1 v2. v = v1 @ v2 \<and> derives rules (es @ [END]) v1 \<and> derives rules ys v2)" for v
        using 1 Cons ref by (auto simp: no_alt_def)
      then show ?thesis using Cons ref by (auto simp: derives_ref_iff; metis append_assoc)
    next
      case chr
      have "shape R (class_mode_of e) es" using 1(2) Cons chr
        by (auto simp: class_mode_of_def is_char_start_def split: llama_gretype.splits)
      from char_class_append[OF this] chr obtain rs zs where
        cls: "\<And>ys. fresh_start ys \<Longrightarrow> char_class (e # es @ ys) = (rs, zs @ ys)"
        and zs: "shape R Top zs" "\<exists>ws. es = ws @ zs" by blast
      have "length zs < length xs" "no_alt zs" using zs(2) 1(3) Cons by (auto simp: no_alt_def)
      with 1(1) zs(1) have "derives rules (zs @ ys) v \<longleftrightarrow>
          (\<exists>v1 v2. v = v1 @ v2 \<and> derives rules (zs @ [END]) v1 \<and> derives rules ys v2)" for v
        by blast
      then show ?thesis
        using Cons chr by (auto simp: derives_char_iff cls[OF assms(3)] cls[OF fresh]; metis append_Cons)
    next
      case token
      then show ?thesis using Cons by (simp add: derives_token)
    qed
  qed
qed


section \<open>Powers of a language\<close>

fun repeated :: "(cpt list \<Rightarrow> bool) \<Rightarrow> nat \<Rightarrow> cpt list \<Rightarrow> bool" where
  "repeated L 0 w \<longleftrightarrow> w = []"
| "repeated L (Suc j) w \<longleftrightarrow> (\<exists>u v. w = u @ v \<and> L u \<and> repeated L j v)"

lemma repeated_add: "repeated L (i + j) w \<longleftrightarrow> (\<exists>u v. w = u @ v \<and> repeated L i u \<and> repeated L j v)"
proof (induction i arbitrary: w)
  case (Suc i)
  show ?case by (auto simp: Suc.IH; metis append_assoc)
qed simp

definition lang_of :: "llama_grammar_rules \<Rightarrow> llama_grammar_rule \<Rightarrow> cpt list \<Rightarrow> bool" where
  "lang_of rules es w \<longleftrightarrow> derives rules (es @ [END]) w"

text \<open>A symbol: a nonempty sequence without alternates.\<close>

definition symbol_ok :: "llama_grammar_rule \<Rightarrow> bool" where
  "symbol_ok es \<longleftrightarrow> es \<noteq> [] \<and> no_alt es \<and> (\<exists>R. shape R Top es)"

lemma shape_fresh: "shape R Top es \<Longrightarrow> es \<noteq> [] \<Longrightarrow> fresh_start (es @ ys)"
  by (cases es) (auto simp: fresh_start_def split: llama_gretype.splits)

lemma derives_symbol:
  "symbol_ok es \<Longrightarrow> fresh_start ys \<Longrightarrow>
   derives rules (es @ ys) w \<longleftrightarrow> (\<exists>u v. w = u @ v \<and> lang_of rules es u \<and> derives rules ys v)"
  unfolding symbol_ok_def lang_of_def using derives_append by blast

lemma derives_copies:
  assumes "symbol_ok es" "fresh_start ys"
  shows "derives rules (concat (replicate j es) @ ys) w \<longleftrightarrow>
    (\<exists>u v. w = u @ v \<and> repeated (lang_of rules es) j u \<and> derives rules ys v)"
proof (induction j arbitrary: w)
  case (Suc j)
  have "fresh_start (concat (replicate j es) @ ys)"
    using assms shape_fresh by (cases j) (auto simp: symbol_ok_def)
  from derives_symbol[OF assms(1) this] Suc.IH show ?case by (auto; metis append_assoc)
qed simp

section \<open>The rules of a repetition\<close>

lemma alt_starts_repetition:
  assumes "no_alt es"
  shows "alt_starts (es @ [ALT, END]) = {0, length es + 1}"
proof -
  have only: "j = length es" if "j < length es + 2" "el_type ((es @ [ALT, END]) ! j) = LLAMA_GRETYPE_ALT" for j
  proof (cases "j < length es")
    case True
    then show ?thesis using no_alt_nth[OF assms] that(2) by (simp add: nth_append)
  next
    case False
    then have "j = length es \<or> j = Suc (length es)" using that(1) by auto
    then show ?thesis using that(2) by (auto simp: nth_append END_def)
  qed
  have "i = 0 \<or> i = length es + 1" if "i \<in> alt_starts (es @ [ALT, END])" for i
    using that only[of "i - 1"] by (cases i) (auto simp: alt_starts_def)
  moreover have "length es + 1 \<in> alt_starts (es @ [ALT, END])" by (simp add: alt_starts_def ALT_def)
  ultimately show ?thesis using alt_starts_nonempty by blast
qed

lemma rule_lang_repetition:
  assumes "rules_ok rules" "k < length rules" "rules ! k = es @ [ALT, END]" "no_alt es"
  shows "rule_lang rules k w \<longleftrightarrow> w = [] \<or> derives rules (es @ [ALT, END]) w"
  unfolding rule_lang_derives[OF assms(1,2)] assms(3) alt_starts_repetition[OF assms(4)]
  by (auto simp: derives_end_iff END_def)

lemma stop_fresh: "fresh_start (ALT # ys)" "fresh_start (END # ys)"
  by (simp_all add: fresh_start_def ALT_def END_def)

text \<open>\<open>S |\<close>\<close>

lemma rule_lang_optional:
  assumes "rules_ok rules" "k < length rules" "rules ! k = es @ [ALT, END]" "symbol_ok es"
  shows "rule_lang rules k w \<longleftrightarrow> w = [] \<or> lang_of rules es w"
proof -
  have na: "no_alt es" using assms(4) by (simp add: symbol_ok_def)
  show ?thesis
    unfolding rule_lang_repetition[OF assms(1-3) na]
    using derives_symbol[OF assms(4) stop_fresh(1), of rules "[END]" w] by (auto simp: derives_end_iff ALT_def)
qed

text \<open>\<open>S S' |\<close>\<close>

lemma derives_then_ref:
  assumes "symbol_ok es" "unat r < length rules"
  shows "derives rules (es @ [Elem LLAMA_GRETYPE_RULE_REF r, ALT, END]) w \<longleftrightarrow>
    (\<exists>u v. w = u @ v \<and> lang_of rules es u \<and> rule_lang rules (unat r) v)"
proof -
  have "fresh_start [Elem LLAMA_GRETYPE_RULE_REF r, ALT, END]" by (simp add: fresh_start_def)
  from derives_symbol[OF assms(1) this] assms(2) show ?thesis
    by (simp add: derives_ref_iff derives_end_iff ALT_def)
qed

lemma rule_lang_rec:
  assumes "rules_ok rules" "k < length rules" "rules ! k = es @ [Elem LLAMA_GRETYPE_RULE_REF r, ALT, END]" "symbol_ok es"
    "unat r < length rules"
  shows "rule_lang rules k w \<longleftrightarrow> w = [] \<or> (\<exists>u v. w = u @ v \<and> lang_of rules es u \<and> rule_lang rules (unat r) v)"
proof -
  have rule: "rules ! k = (es @ [Elem LLAMA_GRETYPE_RULE_REF r]) @ [ALT, END]" using assms(3) by simp
  have "no_alt (es @ [Elem LLAMA_GRETYPE_RULE_REF r])" using assms(4) by (auto simp: symbol_ok_def no_alt_def)
  from rule_lang_repetition[OF assms(1,2) rule this] derives_then_ref[OF assms(4,5)] show ?thesis by simp
qed

text \<open>At most \<open>n\<close> times.\<close>

lemma rule_lang_bounded:
  assumes "rules_ok rules" "symbol_ok es" "i < n"
    and "\<And>j. j < n \<Longrightarrow> unat (ids j) < length rules \<and> rules ! unat (ids j) =
      es @ (if j > 0 then [Elem LLAMA_GRETYPE_RULE_REF (ids (j - 1))] else []) @ [ALT, END]"
  shows "rule_lang rules (unat (ids i)) w \<longleftrightarrow> (\<exists>j \<le> Suc i. repeated (lang_of rules es) j w)"
  using assms(3)
proof (induction i arbitrary: w)
  case 0
  then have k: "unat (ids 0) < length rules" "rules ! unat (ids 0) = es @ [ALT, END]" using assms(4)[of 0] by auto
  have "(\<exists>j \<le> Suc 0. repeated (lang_of rules es) j w) \<longleftrightarrow> repeated (lang_of rules es) 0 w \<or> repeated (lang_of rules es) (Suc 0) w"
    by (auto simp: le_Suc_eq)
  then show ?case by (simp add: rule_lang_optional[OF assms(1) k assms(2)])
next
  case (Suc i)
  have k: "unat (ids (Suc i)) < length rules" "rules ! unat (ids (Suc i)) = es @ [Elem LLAMA_GRETYPE_RULE_REF (ids i), ALT, END]"
    using assms(4)[OF Suc.prems] by auto
  have r: "unat (ids i) < length rules" using assms(4)[of i] Suc.prems by simp
  have IH: "rule_lang rules (unat (ids i)) v \<longleftrightarrow> (\<exists>j \<le> Suc i. repeated (lang_of rules es) j v)" for v
    using Suc by simp
  have "(\<exists>j \<le> Suc (Suc i). repeated (lang_of rules es) j w) \<longleftrightarrow>
      repeated (lang_of rules es) 0 w \<or> (\<exists>j \<le> Suc i. repeated (lang_of rules es) (Suc j) w)"
    by (metis Suc_le_mono le0 not0_implies_Suc)
  then show ?case unfolding rule_lang_rec[OF assms(1) k assms(2) r] IH by auto
qed


text \<open>Any number of times: the rule refers to itself.\<close>

lemma gen_star:
  assumes rule: "rules ! k = es @ [Elem LLAMA_GRETYPE_RULE_REF r, ALT, END]" and r: "unat r = k" and k: "k < length rules"
    and na: "no_alt es" and R: "shape R Top es" and "gen rules pos w" "fst pos = k"
  shows "(snd pos = length es + 2 \<longrightarrow> w = []) \<and>
    (snd pos \<le> length es \<longrightarrow> shape R Top (drop (snd pos) es) \<longrightarrow>
      (\<exists>u v j. w = u @ v \<and> lang_of rules (drop (snd pos) es) u \<and> repeated (lang_of rules es) j v))"
  using assms(6,7)
proof (induction rule: gen.induct)
  case (gen_end pos)
  obtain i where pos: "pos = (k, i)" using gen_end(2) by (cases pos) auto
  have "i \<noteq> length es" using gen_end(1) k by (auto simp: pos end_iff element_at_def at_def rule split: if_splits)
  moreover have "\<not> (i < length es \<and> shape R Top (drop i es))"
    using gen_end(1) k no_alt_nth[OF na, of i] by (auto simp: pos end_iff element_at_def at_def rule nth_append
      simp flip: Cons_nth_drop_Suc split: llama_gretype.splits if_splits)
  ultimately show ?case by (auto simp: pos)
next
  case (gen_ref pos e k' i' u v)
  obtain i where pos: "pos = (k, i)" using gen_ref.prems by (cases pos) auto
  have el: "i < length es + 3" "(es @ [Elem LLAMA_GRETYPE_RULE_REF r, ALT, END]) ! i = e"
    using gen_ref.hyps(1) k by (auto simp: pos element_at_def at_def rule split: if_splits)
  consider "i = length es + 2" | "i = length es + 1" | "i = length es" | "i < length es" using el(1) by linarith
  then show ?case
  proof cases
    case 3
    have "k' = k" using el 3 gen_ref.hyps(3) r by (auto simp: nth_append)
    moreover have "alt_starts (rules ! k) = {0, length es + 2}"
      using alt_starts_repetition[of "es @ [Elem LLAMA_GRETYPE_RULE_REF r]"] na by (simp add: rule no_alt_def)
    ultimately have "\<exists>j. repeated (lang_of rules es) j u"
      using gen_ref.IH(1) gen_ref.hyps(5) R by (auto intro: exI[of _ "0::nat"]) (metis repeated.simps(2))
    moreover have "v = []"
    proof -
      have "llama_grammar_is_end_of_sequence rules (k, Suc (length es)) = Some True"
        using k by (simp add: end_iff element_at_def at_def rule nth_append ALT_def)
      then show ?thesis using gen_end_iff gen_ref.hyps(7) 3 by (simp add: pos next_pos_def)
    qed
    moreover have "lang_of rules [] []" by (simp add: lang_of_def derives_end_iff END_def)
    ultimately show ?thesis using 3 by (auto simp: pos)
  next
    case 4
    have d: "drop i es = e # drop (Suc i) es" using 4 el(2) by (simp add: drop_eq_Cons nth_append)
    have rl: "rule_lang rules k' u" using gen_ref.hyps(5,6) by (auto simp: rule_lang_def)
    show ?thesis
    proof (intro conjI impI)
      assume "shape R Top (drop (snd pos) es)"
      then have "shape R Top (drop (Suc i) es)" using gen_ref.hyps(2) by (simp add: pos d)
      then obtain u1 v1 j where v: "v = u1 @ v1" "lang_of rules (drop (Suc i) es) u1" "repeated (lang_of rules es) j v1"
        using gen_ref.IH(2) 4 by (auto simp: pos next_pos_def)
      have "lang_of rules (drop i es) (u @ u1)"
        using v(2) rl gen_ref.hyps(2-4) by (auto simp: lang_of_def d intro: derives_ref)
      then show "\<exists>ua va j. u @ v = ua @ va \<and> lang_of rules (drop (snd pos) es) ua \<and> repeated (lang_of rules es) j va"
        using v by (intro exI[of _ "u @ u1"] exI[of _ v1] exI[of _ j]) (simp add: pos)
    qed (use 4 pos in simp)
  qed (use el gen_ref.hyps(2) in \<open>auto simp: nth_append ALT_def END_def\<close>)
next
  case (gen_char pos c v)
  obtain i where pos: "pos = (k, i)" using gen_char.prems by (cases pos) auto
  let ?tail = "[Elem LLAMA_GRETYPE_RULE_REF r, ALT, END]"
  obtain e where e: "element_at rules (k, i) = Some e" "is_char_start (el_type e)" using in_classD[OF gen_char.hyps(1)] pos by auto
  have el: "i < length es + 3" "(es @ ?tail) ! i = e"
    using e(1) k by (auto simp: element_at_def at_def rule split: if_splits)
  consider "i = length es + 2" | "i = length es + 1" | "i = length es" | "i < length es" using el(1) by linarith
  then show ?case
  proof cases
    case 4
    have d: "drop i es = e # drop (Suc i) es" "drop i (es @ ?tail) = e # drop (Suc i) es @ ?tail"
      using 4 el(2) by (simp_all add: drop_eq_Cons nth_append)
    show ?thesis
    proof (intro conjI impI)
      assume "shape R Top (drop (snd pos) es)"
      then have "shape R (class_mode_of e) (drop (Suc i) es)" using e(2)
        by (auto simp: pos d(1) class_mode_of_def is_char_start_def split: llama_gretype.splits)
      from char_class_append[OF this] e(2) obtain rs xs zs where
        cls: "\<And>ys. fresh_start ys \<Longrightarrow> char_class (e # drop (Suc i) es @ ys) = (rs, xs @ ys)"
        and xs: "shape R Top xs" "drop (Suc i) es = zs @ xs" by blast
      have ft: "fresh_start ?tail" "fresh_start [END]" by (simp_all add: fresh_start_def END_def)
      define q where "q = length es - length xs"
      have "q \<le> length es" by (simp add: q_def)
      have q: "class_end rules pos = (k, q)" by (simp add: class_end_def pos rule d(2) cls[OF ft(1)] q_def del: drop_append)
      have "es = take (Suc i) es @ zs @ xs" using xs(2) by (metis append_take_drop_id)
      then have dq: "drop q es = xs" unfolding q_def by (metis append_assoc length_append add_diff_cancel_right' append_eq_conv_conj)
      obtain u1 v1 j where v: "v = u1 @ v1" "lang_of rules xs u1" "repeated (lang_of rules es) j v1"
        using gen_char.IH xs(1) dq \<open>q \<le> length es\<close> by (auto simp: q)
      have "in_ranges rs c = is_positive_char (el_type e)"
        using gen_char.hyps(1) e(1) by (simp add: pos in_class_def class_at_def rule d(2) cls[OF ft(1)] del: drop_append)
      then have "lang_of rules (drop i es) (c # u1)"
        using v(2) e(2) by (auto simp: lang_of_def d(1) cls[OF ft(2)] intro!: derives_char)
      then show "\<exists>ua va j. c # v = ua @ va \<and> lang_of rules (drop (snd pos) es) ua \<and> repeated (lang_of rules es) j va"
        using v by (intro exI[of _ "c # u1"] exI[of _ v1] exI[of _ j]) (simp add: pos)
    qed (use 4 pos in simp)
  qed (use el e(2) in \<open>auto simp: nth_append ALT_def END_def is_char_start_def\<close>)
qed

lemma rule_lang_star:
  assumes "rules_ok rules" "k < length rules" "rules ! k = es @ [Elem LLAMA_GRETYPE_RULE_REF r, ALT, END]" "symbol_ok es"
    "unat r = k"
  shows "rule_lang rules k w \<longleftrightarrow> (\<exists>j. repeated (lang_of rules es) j w)"
proof
  have na: "no_alt es" and R: "\<exists>R. shape R Top es" using assms(4) by (auto simp: symbol_ok_def)
  obtain R where R: "shape R Top es" using R ..
  have starts: "alt_starts (rules ! k) = {0, length es + 2}"
    using alt_starts_repetition[of "es @ [Elem LLAMA_GRETYPE_RULE_REF r]"] na by (simp add: assms(3) no_alt_def)
  assume "rule_lang rules k w"
  then obtain i where i: "i = 0 \<or> i = length es + 2" "gen rules (k, i) w" by (auto simp: rule_lang_def starts)
  note star = gen_star[OF assms(3,5,2) na R i(2)]
  show "\<exists>j. repeated (lang_of rules es) j w"
  proof (cases "i = 0")
    case True
    then obtain u v j where "w = u @ v" "lang_of rules es u" "repeated (lang_of rules es) j v" using star R by auto
    then have "repeated (lang_of rules es) (Suc j) w" by auto
    then show ?thesis ..
  next
    case False
    then have "repeated (lang_of rules es) 0 w" using star i(1) by simp
    then show ?thesis ..
  qed
next
  have rec: "rule_lang rules k w \<longleftrightarrow> w = [] \<or> (\<exists>u v. w = u @ v \<and> lang_of rules es u \<and> rule_lang rules k v)" for w
    using rule_lang_rec[OF assms(1-4), of w] assms(2) unfolding assms(5) by blast
  assume "\<exists>j. repeated (lang_of rules es) j w"
  then obtain j where "repeated (lang_of rules es) j w" ..
  then show "rule_lang rules k w"
  proof (induction j arbitrary: w)
    case 0
    then show ?case using rec[of w] by simp
  next
    case (Suc j)
    then obtain u v where "w = u @ v" "lang_of rules es u" "rule_lang rules k v" by auto
    then show ?case using rec[of w] by blast
  qed
qed

section \<open>The rules that are written\<close>

lemma symbols_grow: "length (gp_symbol_ids p) \<le> length (gp_symbol_ids (snd (generate_symbol_id base p)))"
proof -
  have "length al \<le> length (AList.update k v al)" for k :: bytes and v :: cpt and al by (induction al) auto
  then show ?thesis by (simp add: generate_symbol_id_def Let_def)
qed

lemma unat_cpt: "x < 2 ^ 32 \<Longrightarrow> unat (of_nat x :: cpt) = x"
  by (simp add: unat_of_nat take_bit_nat_eq_self)

lemma generate_symbol_id_fresh:
  assumes "parser_ok p" "length (gp_symbol_ids p) < 2 ^ 32" "generate_symbol_id base p = (i, p')"
  shows "i = of_nat (length (gp_symbol_ids p)) \<and> length (gp_symbol_ids p') = Suc (length (gp_symbol_ids p)) \<and>
    gp_rules p' = gp_rules p"
proof -
  let ?ids = "gp_symbol_ids p"
  define name where "name = base @ [ch CHR ''_''] @ decimal (unat i)"
  have i: "i = of_nat (length ?ids)" and p': "p' = p\<lparr>gp_symbol_ids := AList.update name i ?ids\<rparr>"
    using assms(3) by (auto simp: generate_symbol_id_def Let_def name_def)
  have "name \<notin> fst ` set ?ids"
  proof
    assume "name \<in> fst ` set ?ids"
    then obtain j where j: "(name, j) \<in> set ?ids" by auto
    then have "i = j" using generated_number[of p base i j] assms(1) by (auto simp: name_def parser_ok_def)
    moreover have "j \<in> set (map snd ?ids)" using j by force
    moreover have "map snd ?ids = map of_nat [0..<length ?ids]" using assms(1,2) by (simp add: parser_ok_def numbered_def)
    ultimately obtain x where "x < length ?ids" "i = of_nat x" by auto
    then show False using i assms(2) unat_cpt[of x] unat_cpt[of "length ?ids"] by simp
  qed
  then show ?thesis by (simp add: p' i update_new)
qed


text \<open>The rule written in turn \<open>j\<close>, when \<open>b\<close> symbols were there before.\<close>

definition repetition_rule :: "nat \<Rightarrow> llama_grammar_rule \<Rightarrow> bool \<Rightarrow> nat \<Rightarrow> llama_grammar_rule" where
  "repetition_rule b prev no_max j = prev @
     (if j > 0 \<or> no_max then [Elem LLAMA_GRETYPE_RULE_REF (of_nat (if no_max then b + j else b + j - 1))] else []) @ [ALT, END]"

lemma nth_add_rule:
  "gp_rules (add_rule i rule p) ! j = (if j = unat i then rule
     else if j < length (gp_rules p) then gp_rules p ! j else gp_rules (add_rule i rule p) ! j)"
  "unat i < length (gp_rules (add_rule i rule p))"
  "length (gp_rules p) \<le> length (gp_rules (add_rule i rule p))"
  "gp_symbol_ids (add_rule i rule p) = gp_symbol_ids p"
  by (auto simp: add_rule_def Let_def nth_append)

lemma repetition_rules:
  assumes "parser_ok p" "shape (symbols p) Top prev" "fold (repetition_step name prev no_max) [0..<n] (p, r) = (p', r')"
    "length (gp_symbol_ids p') < 2 ^ 32"
  shows "length (gp_symbol_ids p') = length (gp_symbol_ids p) + n \<and>
    (\<forall>j < n. length (gp_symbol_ids p) + j < length (gp_rules p') \<and>
       gp_rules p' ! (length (gp_symbol_ids p) + j) = repetition_rule (length (gp_symbol_ids p)) prev no_max j) \<and>
    (n > 0 \<longrightarrow> r' = of_nat (length (gp_symbol_ids p) + n - 1))"
  using assms(3,4)
proof (induction n arbitrary: p' r')
  case (Suc n)
  let ?b = "length (gp_symbol_ids p)"
  obtain q s where qs: "fold (repetition_step name prev no_max) [0..<n] (p, r) = (q, s)" by fastforce
  have step: "repetition_step name prev no_max n (q, s) = (p', r')" using Suc.prems(1) qs by simp
  obtain p1 where gen: "generate_symbol_id name q = (r', p1)"
    and p': "p' = add_rule r' (prev @
      (if n > 0 \<or> no_max then [Elem LLAMA_GRETYPE_RULE_REF (if no_max then r' else s)] else []) @ [ALT, END]) p1"
    using step by (auto simp: repetition_step_def Let_def ALT_def END_def split: prod.splits)
  have ids: "gp_symbol_ids p' = gp_symbol_ids p1" by (simp add: p' nth_add_rule)
  have "length (gp_symbol_ids q) < 2 ^ 32" using symbols_grow[of q name] Suc.prems(2) by (simp add: gen ids)
  note IH = Suc.IH[OF qs this]
  have "parser_ok q" using repetition_steps_keep[OF assms(1,2) qs] by (simp add: keeps_parser_def)
  note fresh = generate_symbol_id_fresh[OF this \<open>length (gp_symbol_ids q) < 2 ^ 32\<close> gen]
  have len: "length (gp_symbol_ids q) = ?b + n" using IH by simp
  have r': "r' = of_nat (?b + n)" and len': "length (gp_symbol_ids p') = ?b + Suc n"
    using fresh len ids by simp_all
  have u: "unat r' = ?b + n" unfolding r' by (rule unat_cpt) (use len' Suc.prems(2) in simp)
  have "gp_rules p' ! (?b + j) = repetition_rule ?b prev no_max j \<and> ?b + j < length (gp_rules p')" if "j < Suc n" for j
  proof (cases "j = n")
    case True
    have "gp_rules p' ! unat r' = prev @
      (if n > 0 \<or> no_max then [Elem LLAMA_GRETYPE_RULE_REF (if no_max then r' else s)] else []) @ [ALT, END]"
      unfolding p' by (subst nth_add_rule) simp
    then show ?thesis using True u IH nth_add_rule(2)[of r' _ p1] by (auto simp: repetition_rule_def r' p')
  next
    case False
    then have "?b + j < length (gp_rules q)" "gp_rules q ! (?b + j) = repetition_rule ?b prev no_max j"
      using IH that by auto
    then have old: "?b + j < length (gp_rules p1)" "gp_rules p1 ! (?b + j) = repetition_rule ?b prev no_max j" using fresh by auto
    have "length (gp_rules p1) \<le> length (gp_rules p')" unfolding p' by (rule nth_add_rule(3))
    moreover have "gp_rules p' ! (?b + j) = gp_rules p1 ! (?b + j)"
      unfolding p' by (subst nth_add_rule(1)) (use old(1) u False in simp)
    ultimately show ?thesis using old by simp
  qed
  then show ?case using len' r' by simp
qed simp

section \<open>The language of a repetition\<close>

lemma repetition_language:
  assumes "parser_ok p" "sequence_ok (symbols p) rule l"
    and h: "handle_repetitions name m n p rule l = Inr (p', rule')"
    and "length (gp_symbol_ids p') < 2 ^ 32" "m \<le> n"
    and "rules_ok rules" "length (gp_rules p') \<le> length rules"
    and keep: "\<And>i. length (gp_symbol_ids p) \<le> i \<Longrightarrow> i < length (gp_symbol_ids p') \<Longrightarrow> rules ! i = gp_rules p' ! i"
  shows "take l rule' = take l rule"
    "lang_of rules (drop l rule') w \<longleftrightarrow>
     (\<exists>j. unat m \<le> j \<and> (n \<noteq> UINT64_MAX \<longrightarrow> j \<le> unat n) \<and> repeated (lang_of rules (drop l rule)) j w)"
proof -
  let ?prev = "drop l rule" and ?no_max = "n = UINT64_MAX" and ?b = "length (gp_symbol_ids p)"
  let ?L = "lang_of rules ?prev"
  define k where "k = (if ?no_max then 1 else unat (n - m))"
  define body where "body = (if m = 0 then [] else ?prev @ concat (replicate (unat m - 1) ?prev))"
  obtain r where f: "fold (repetition_step name ?prev ?no_max) [0..<k] (p, 0) = (p', r)"
    and rule': "rule' = take l rule @ body @ (if k > 0 then [Elem LLAMA_GRETYPE_RULE_REF r] else [])" and l: "l \<noteq> length rule"
    using h by (auto simp: handle_repetitions_def Let_def body_def k_def simp flip: append_assoc split: if_splits prod.splits)
  have sh: "shape (symbols p) Top ?prev" "l < length rule" using assms(2) l by (auto simp: sequence_ok_def)
  then have sym: "symbol_ok ?prev" using assms(2) by (auto simp: symbol_ok_def sequence_ok_def)
  have body: "body = concat (replicate (unat m) ?prev)"
  proof (cases "unat m")
    case 0
    then have "m = 0" by (simp add: unat_eq_zero)
    then show ?thesis by (simp add: body_def)
  next
    case (Suc x)
    then have "m \<noteq> 0" by auto
    then show ?thesis by (simp add: body_def Suc)
  qed
  show "take l rule' = take l rule" using sh(2) by (simp add: rule')
  note rr = repetition_rules[OF assms(1) sh(1) f assms(4)]
  define ids :: "nat \<Rightarrow> cpt" where "ids j = of_nat (?b + j)" for j
  have at: "unat (ids j) < length rules \<and> rules ! unat (ids j) = repetition_rule ?b ?prev ?no_max j" if "j < k" for j
    using rr that assms(4,7) keep[of "?b + j"] unat_cpt[of "?b + j"] by (auto simp: ids_def)
  have last: "k > 0 \<Longrightarrow> r = ids (k - 1)" using rr by (simp add: ids_def)
  have d: "drop l rule' = body @ (if k > 0 then [Elem LLAMA_GRETYPE_RULE_REF r] else [])" using sh(2) by (simp add: rule')
  have tail: "derives rules ((if k > 0 then [Elem LLAMA_GRETYPE_RULE_REF r] else []) @ [END]) v \<longleftrightarrow>
      (if k > 0 then rule_lang rules (unat r) v else v = [])" for v
    using at[of "k - 1"] last by (simp add: derives_ref_iff derives_end_iff END_def)
  have fresh: "fresh_start ((if k > 0 then [Elem LLAMA_GRETYPE_RULE_REF r] else []) @ [END])" by (simp add: fresh_start_def END_def)
  have opt: "(if k > 0 then rule_lang rules (unat r) v else v = []) \<longleftrightarrow> (\<exists>j. (\<not> ?no_max \<longrightarrow> j \<le> k) \<and> repeated ?L j v)" for v
  proof (cases ?no_max)
    case True
    then have k: "k = 1" "r = ids 0" using last by (simp_all add: k_def)
    have "rules ! unat r = ?prev @ [Elem LLAMA_GRETYPE_RULE_REF r, ALT, END]" "unat r < length rules"
      using at[of 0] k True by (simp_all add: repetition_rule_def ids_def)
    from rule_lang_star[OF assms(6) this(2,1) sym refl] show ?thesis using k True by simp
  next
    case False
    show ?thesis
    proof (cases "k = 0")
      case True
      then show ?thesis using False by simp
    next
      case pos: False
      have "unat (ids j) < length rules \<and> rules ! unat (ids j) =
          ?prev @ (if j > 0 then [Elem LLAMA_GRETYPE_RULE_REF (ids (j - 1))] else []) @ [ALT, END]" if "j < k" for j
        using at[OF that] False by (auto simp: repetition_rule_def ids_def)
      from rule_lang_bounded[where n=k and i="k - 1", OF assms(6) sym _ this] pos last False show ?thesis by simp
    qed
  qed
  have "lang_of rules (drop l rule') w \<longleftrightarrow>
      derives rules (body @ (if k > 0 then [Elem LLAMA_GRETYPE_RULE_REF r] else []) @ [END]) w"
    by (simp only: lang_of_def d append_assoc)
  also have "\<dots> \<longleftrightarrow>
      (\<exists>u v. w = u @ v \<and> repeated ?L (unat m) u \<and> (\<exists>j. (\<not> ?no_max \<longrightarrow> j \<le> k) \<and> repeated ?L j v))"
    unfolding body derives_copies[OF sym fresh] tail opt by (rule refl)
  also have "\<dots> \<longleftrightarrow> (\<exists>j. (\<not> ?no_max \<longrightarrow> j \<le> k) \<and> repeated ?L (unat m + j) w)"
    by (auto simp: repeated_add)
  also have "\<dots> \<longleftrightarrow> (\<exists>j. unat m \<le> j \<and> (\<not> ?no_max \<longrightarrow> j \<le> unat n) \<and> repeated ?L j w)"
  proof -
    have k: "\<not> ?no_max \<Longrightarrow> unat m + k = unat n" using assms(5) by (simp add: k_def unat_sub word_le_nat_alt)
    show ?thesis
    proof (intro iffI; elim exE conjE)
      fix j assume "\<not> ?no_max \<longrightarrow> j \<le> k" "repeated ?L (unat m + j) w"
      then show "\<exists>j. unat m \<le> j \<and> (\<not> ?no_max \<longrightarrow> j \<le> unat n) \<and> repeated ?L j w"
        using k by (intro exI[of _ "unat m + j"]) auto
    next
      fix j assume "unat m \<le> j" "\<not> ?no_max \<longrightarrow> j \<le> unat n" "repeated ?L j w"
      then show "\<exists>j. (\<not> ?no_max \<longrightarrow> j \<le> k) \<and> repeated ?L (unat m + j) w"
        using k by (intro exI[of _ "j - unat m"]) auto
    qed
  qed
  finally show "lang_of rules (drop l rule') w \<longleftrightarrow>
     (\<exists>j. unat m \<le> j \<and> (n \<noteq> UINT64_MAX \<longrightarrow> j \<le> unat n) \<and> repeated ?L j w)" .
qed

end
