(* ===== verification/GrammarParseProps.thy ===== *)
theory GrammarParseProps
  imports GrammarRepeat GrammarApply
begin

text \<open>The properties of the grammar parser, with their witnesses.\<close>

section \<open>Copying the rules\<close>

lemma shape_no_end: "shape R m es \<Longrightarrow> LLAMA_GRETYPE_END \<notin> el_type ` set es"
  by (induction R m es rule: shape.induct) (auto split: llama_gretype.splits)

lemma copy_rule_shape: "shape R m es \<Longrightarrow> copy_rule (es @ [Elem LLAMA_GRETYPE_END 0]) = Some (es @ [Elem LLAMA_GRETYPE_END 0])"
proof -
  assume "shape R m es"
  from shape_no_end[OF this] have "\<And>e. e \<in> set es \<Longrightarrow> el_type e \<noteq> LLAMA_GRETYPE_END" by force
  then show ?thesis by (simp add: copy_rule_def takeWhile_append2)
qed

lemma copy_rules_loop:
  "(\<And>rule. rule \<in> set rules \<Longrightarrow> copy_rule rule = Some rule) \<Longrightarrow>
   foldM (\<lambda>rule vec. do { r \<leftarrow> copy_rule rule; Some (vec @ [r]) }) rules vec = Some (vec @ rules)"
  by (induction rules arbitrary: vec) auto

lemma copy_rules_parsed:
  assumes "parse tokenize src = Some (Inr p)"
  shows "copy_rules (gp_rules p) = Some (gp_rules p)"
proof -
  have "copy_rule rule = Some rule" if rule: "rule \<in> set (gp_rules p)" for rule
  proof -
    have "rule_ok (symbols p) rule" "rule \<noteq> []"
      using parse_parser_ok[OF assms] rule by (auto simp: parser_ok_def rules_ok_def dest: wf_elems_nonempty)
    then show ?thesis using copy_rule_shape by (auto simp: rule_ok_def)
  qed
  then show ?thesis unfolding copy_rules_def by (subst copy_rules_loop) auto
qed

section \<open>Initial stacks\<close>

lemma initial_stacks_total:
  assumes "rules_good rules" "k < length rules"
  shows "\<exists>stacks. initial_stacks rules k = Some stacks"
proof -
  have ok: "rules_ok rules" using assms(1) by (simp add: rules_good_def)
  obtain starts where starts: "alternates (rules ! k) 0 = Some starts" "\<And>i. i \<in> set starts \<Longrightarrow> pos_ok rules (k, i)"
    using rule_alternates[OF ok assms(2)] by blast
  have "\<exists>stacks. foldM (\<lambda>i stacks. do { stack \<leftarrow> push_pos rules (k, i) []; llama_grammar_advance_stack rules stack stacks }) starts [] = Some stacks \<and> True"
  proof (rule foldM_total)
    fix i and old :: llama_grammar_stacks assume "i \<in> set starts"
    then have pos: "pos_ok rules (k, i)" by (rule starts(2))
    have nil: "stack_ok rules []" by (simp add: stack_ok_def)
    obtain stack where "push_pos rules (k, i) [] = Some stack" "stack_ok rules stack"
      by (rule push_pos_ok[OF pos nil]) blast
    then show "\<exists>new. (do { stack \<leftarrow> push_pos rules (k, i) []; llama_grammar_advance_stack rules stack old }) = Some new \<and> True"
      using advance_total[OF assms(1)] by auto
  qed simp
  then show ?thesis using starts(1) assms(2) by (auto simp: initial_stacks_def at_def)
qed

section \<open>Sample grammars\<close>

definition text_bytes :: "string \<Rightarrow> bytes" where
  "text_bytes s = map ch s"

text \<open>\<open>root ::= [ab] root | "c" x?\<close> and \<open>x ::= "d"{2}\<close>.\<close>

definition sample_text :: bytes where
  "sample_text = text_bytes ''root ::= [ab] root | \"c\" x?'' @ [LF] @ text_bytes ''x ::= \"d\"{2}''"

definition sample_parser :: grammar_parser where
  "sample_parser = \<lparr>gp_symbol_ids = [(text_bytes ''root'', 0), (text_bytes ''x'', 1), (text_bytes ''root_2'', 2)],
     gp_rules =
       [[Elem LLAMA_GRETYPE_CHAR 97, Elem LLAMA_GRETYPE_CHAR_ALT 98, Elem LLAMA_GRETYPE_RULE_REF 0, Elem LLAMA_GRETYPE_ALT 0,
         Elem LLAMA_GRETYPE_CHAR 99, Elem LLAMA_GRETYPE_RULE_REF 2, Elem LLAMA_GRETYPE_END 0],
        [Elem LLAMA_GRETYPE_CHAR 100, Elem LLAMA_GRETYPE_CHAR 100, Elem LLAMA_GRETYPE_END 0],
        [Elem LLAMA_GRETYPE_RULE_REF 1, Elem LLAMA_GRETYPE_ALT 0, Elem LLAMA_GRETYPE_END 0]]\<rparr>"

lemma sample_parse: "parse None sample_text = Some (Inr sample_parser)"
  by code_simp

section \<open>Parsing\<close>

text \<open>
  C31: A grammar that the parser accepts is well-formed. Its rules have the shape that matching and advancing
  rely on, every reference is to a rule and stands for a symbol, no name is there twice, and the symbols are
  numbered in the order they were met as long as the numbers fit into 32 bits.
\<close>

theorem parse_wellformed:
  assumes "parse tokenize src = Some (Inr p)"
  shows "rules_ok (gp_rules p) \<and> distinct (map fst (gp_symbol_ids p)) \<and>
    (\<forall>rule \<in> set (gp_rules p). \<forall>e \<in> set rule. el_type e = LLAMA_GRETYPE_RULE_REF \<longrightarrow> el_value e \<in> snd ` set (gp_symbol_ids p)) \<and>
    (length (gp_symbol_ids p) < 2 ^ 32 \<longrightarrow> map snd (gp_symbol_ids p) = map of_nat [0..<length (gp_symbol_ids p)])"
proof (intro conjI ballI impI)
  note ok = parse_parser_ok[OF assms]
  show "rules_ok (gp_rules p)" by (rule ok(2))
  show "distinct (map fst (gp_symbol_ids p))" using ok(1) by (simp add: parser_ok_def)
  show "map snd (gp_symbol_ids p) = map of_nat [0..<length (gp_symbol_ids p)]" if "length (gp_symbol_ids p) < 2 ^ 32"
    using ok(1) that by (simp add: parser_ok_def numbered_def)
  fix rule e assume e: "rule \<in> set (gp_rules p)" "e \<in> set rule" "el_type e = LLAMA_GRETYPE_RULE_REF"
  then have "rule_ok (symbols p) rule" using ok(1) by (simp add: parser_ok_def)
  then show "el_value e \<in> snd ` set (gp_symbol_ids p)"
    using e(2,3) shape_refs by (fastforce simp: rule_ok_def symbols_def)
qed

theorem parse_wellformed_witness: "rules_ok (gp_rules sample_parser) \<and> map snd (gp_symbol_ids sample_parser) = [0, 1, 2]"
  using parse_wellformed[OF sample_parse] by (simp add: sample_parser_def)

section \<open>Repetitions\<close>

text \<open>
  C32: The rewriting of a repetition means what it should: where the last symbol \<open>S\<close> of a sequence was, there
  are elements that derive exactly the words made of \<open>j\<close> words of \<open>S\<close> with \<open>m \<le> j\<close> and, if there is an upper
  bound \<open>n\<close>, \<open>j \<le> n\<close>; in any well-formed rules that contain the rules that were written for it. The bounds are in
  order, \<open>m \<le> n\<close>, which the parser does not check, and there are fewer than \<open>2^32\<close> symbols.
\<close>

theorem repetition_correct:
  assumes "parser_ok p" "sequence_ok (symbols p) rule l" "handle_repetitions name m n p rule l = Inr (p', rule')"
    "length (gp_symbol_ids p') < 2 ^ 32" "m \<le> n" "rules_ok rules" "length (gp_rules p') \<le> length rules"
    "\<And>i. length (gp_symbol_ids p) \<le> i \<Longrightarrow> i < length (gp_symbol_ids p') \<Longrightarrow> rules ! i = gp_rules p' ! i"
  shows "take l rule' = take l rule \<and> (\<forall>w. lang_of rules (drop l rule') w \<longleftrightarrow>
     (\<exists>j. unat m \<le> j \<and> (n \<noteq> UINT64_MAX \<longrightarrow> j \<le> unat n) \<and> repeated (lang_of rules (drop l rule)) j w))"
  using repetition_language[OF assms] by blast

text \<open>\<open>root ::= "a"{1,3}\<close>\<close>

definition repeat_rules :: llama_grammar_rules where
  "repeat_rules =
     [[Elem LLAMA_GRETYPE_CHAR 97, Elem LLAMA_GRETYPE_RULE_REF 2, Elem LLAMA_GRETYPE_END 0],
      [Elem LLAMA_GRETYPE_CHAR 97, Elem LLAMA_GRETYPE_ALT 0, Elem LLAMA_GRETYPE_END 0],
      [Elem LLAMA_GRETYPE_CHAR 97, Elem LLAMA_GRETYPE_RULE_REF 1, Elem LLAMA_GRETYPE_ALT 0, Elem LLAMA_GRETYPE_END 0]]"

theorem repetition_correct_witness:
  "lang_of repeat_rules [Elem LLAMA_GRETYPE_CHAR 97, Elem LLAMA_GRETYPE_RULE_REF 2] [97, 97, 97] \<and>
   \<not> lang_of repeat_rules [Elem LLAMA_GRETYPE_CHAR 97, Elem LLAMA_GRETYPE_RULE_REF 2] []"
proof -
  let ?p = "\<lparr>gp_symbol_ids = [(root_name, 0)], gp_rules = []\<rparr>"
  let ?a = "[Elem LLAMA_GRETYPE_CHAR 97]" and ?rule' = "[Elem LLAMA_GRETYPE_CHAR 97, Elem LLAMA_GRETYPE_RULE_REF 2]"
  let ?p' = "\<lparr>gp_symbol_ids = [(root_name, 0), (text_bytes ''root_1'', 1), (text_bytes ''root_2'', 2)],
    gp_rules = [] # tl repeat_rules\<rparr>"
  have h: "handle_repetitions root_name 1 3 ?p ?a 0 = Inr (?p', ?rule')" by code_simp
  have p: "parser_ok ?p" by (auto simp: parser_ok_def numbered_def name_ok_def root_name_def ch_def is_word_char_def)
  have a: "sequence_ok (symbols ?p) ?a 0" by (simp add: sequence_ok_def)
  have ok: "rules_ok repeat_rules" by code_simp
  have keep: "repeat_rules ! i = gp_rules ?p' ! i" if "length (gp_symbol_ids ?p) \<le> i" for i
    using that by (cases i) (simp_all add: repeat_rules_def)
  have lang: "lang_of repeat_rules (drop 0 ?rule') w \<longleftrightarrow>
      (\<exists>j. unat (1 :: 64 word) \<le> j \<and> (3 \<noteq> UINT64_MAX \<longrightarrow> j \<le> unat (3 :: 64 word)) \<and> repeated (lang_of repeat_rules (drop 0 ?a)) j w)" for w
    using repetition_correct[OF p a h _ _ ok _ keep] by (simp add: repeat_rules_def)
  have one: "lang_of repeat_rules ?a w \<longleftrightarrow> w = [97]" for w
    by (auto simp: lang_of_def derives_char_iff derives_end_iff END_def is_char_start_def)
  have "repeated (lang_of repeat_rules ?a) 3 [97, 97, 97]" by (simp add: numeral_3_eq_3 one)
  moreover have "\<not> repeated (lang_of repeat_rules ?a) j []" if "1 \<le> j" for j using that by (cases j) (auto simp: one)
  moreover have "lang_of repeat_rules ?rule' [97, 97, 97]"
    using lang[of "[97, 97, 97]"] calculation(1) by (auto intro!: exI[of _ 3])
  ultimately show ?thesis using lang[of "[]"] by auto
qed

section \<open>Grammars from text\<close>

lemma init_text_no_root:
  assumes "parse tokenize src = Some (Inr p)" "root_name \<notin> fst ` set (gp_symbol_ids p)"
  shows "llama_grammar_init_text vocab tokenize src grammar_root lazy patterns tokens = Some None"
  using assms by (simp add: llama_grammar_init_text_def map_of_eq_None_iff)

lemma init_text_cycle:
  assumes "parse tokenize src = Some (Inr p)" "root_name \<in> fst ` set (gp_symbol_ids p)"
    "map_of (gp_symbol_ids p) grammar_root = Some k" "unat k < length (gp_rules p)"
    "\<exists>i < length (gp_rules p). (left_edge (gp_rules p))\<^sup>+\<^sup>+ i i"
  shows "llama_grammar_init_text vocab tokenize src grammar_root lazy patterns tokens = Some None"
proof -
  have "map_of (gp_symbol_ids p) root_name \<noteq> None" "gp_rules p \<noteq> []" using assms(2,4) by (auto simp: map_of_eq_None_iff)
  then show ?thesis using assms(5)
    by (simp add: llama_grammar_init_text_def assms(1,3) copy_rules_parsed[OF assms(1)]
        left_recursion_check_cycle[OF parse_parser_ok(2)[OF assms(1)]])
qed

lemma init_text_free:
  assumes "parse tokenize src = Some (Inr p)" "root_name \<in> fst ` set (gp_symbol_ids p)"
    "map_of (gp_symbol_ids p) grammar_root = Some k" "unat k < length (gp_rules p)" "left_recursion_free (gp_rules p)"
  shows "\<exists>g. llama_grammar_init_text vocab tokenize src grammar_root lazy patterns tokens = Some (Some g) \<and>
    (\<forall>w. \<exists>g'. foldM (\<lambda>c g. llama_grammar_accept g c) w g = Some g' \<and>
      ([] \<in> set (gr_stacks g') \<longleftrightarrow> rule_lang (gp_rules p) (unat k) w))"
proof -
  let ?rules = "gp_rules p"
  have ok: "rules_ok ?rules" by (rule parse_parser_ok(2)[OF assms(1)])
  have start: "map_of (gp_symbol_ids p) root_name \<noteq> None" "?rules \<noteq> []"
    using assms(2,4) by (auto simp: map_of_eq_None_iff)
  have good: "rules_good ?rules" using ok assms(5) by (simp add: rules_good_def)
  have check: "left_recursion_check ?rules = Some False"
    using left_recursion_check_cycle[OF ok] left_cycle_open[OF ok] assms(5) by auto
  obtain stacks where stacks: "initial_stacks ?rules (unat k) = Some stacks"
    using initial_stacks_total[OF good assms(4)] by auto
  obtain g where g: "llama_grammar_init_text vocab tokenize src grammar_root lazy patterns tokens = Some (Some g)"
      "gr_rules g = ?rules" "gr_stacks g = stacks"
    using stacks start by (simp add: llama_grammar_init_text_def assms(1,3) copy_rules_parsed[OF assms(1)] check)
  note init = initial_stacks_lang[OF stacks ok]
  have "\<exists>g'. foldM (\<lambda>c g. llama_grammar_accept g c) w g = Some g' \<and> ([] \<in> set (gr_stacks g') \<longleftrightarrow> rule_lang ?rules (unat k) w)" for w
  proof -
    obtain g' where g': "foldM (\<lambda>c g. llama_grammar_accept g c) w g = Some g'"
      using accept_total[of g w] good init g by auto
    have sg: "stacks_good (gr_rules g) (gr_stacks g)" using init g by simp
    note l = accept_lang[OF g' _ sg]
    have "[] \<in> set (gr_stacks g') \<longleftrightarrow> rule_lang ?rules (unat k) w"
      using l[unfolded g(2), OF ok] stacks_lang_empty[of ?rules "gr_stacks g'"] init g(3) by (metis append_Nil2)
    then show ?thesis using g' by blast
  qed
  then show ?thesis using g(1) by blast
qed

text \<open>
  C29: The initialisation from text gives no grammar if the text does not parse or mentions no symbol \<open>root\<close>.
  If it parses and the rule \<open>grammar_root\<close> is defined (in range: C40), the initialisation gives no grammar where the
  references that the check follows form a cycle, and where the rules have no left recursion it gives one, which
  accepts the language of that rule. (Between the two lie the grammars whose left recursion the check misses, C33.)
  The text has fewer symbols than 32 bits number.
\<close>

theorem init_text_language:
  assumes "parse tokenize src = Some r" "\<And>p. r = Inr p \<Longrightarrow> length (gp_symbol_ids p) < 2 ^ 32"
  shows "case r of
      Inl _ \<Rightarrow> llama_grammar_init_text vocab tokenize src grammar_root lazy patterns tokens = Some None
    | Inr p \<Rightarrow>
        (root_name \<notin> fst ` set (gp_symbol_ids p) \<longrightarrow>
          llama_grammar_init_text vocab tokenize src grammar_root lazy patterns tokens = Some None) \<and>
        (\<forall>k. root_name \<in> fst ` set (gp_symbol_ids p) \<and> map_of (gp_symbol_ids p) grammar_root = Some k \<and>
             unat k < length (gp_rules p) \<longrightarrow>
          ((\<exists>i < length (gp_rules p). (left_edge (gp_rules p))\<^sup>+\<^sup>+ i i) \<longrightarrow>
            llama_grammar_init_text vocab tokenize src grammar_root lazy patterns tokens = Some None) \<and>
          (left_recursion_free (gp_rules p) \<longrightarrow>
            (\<exists>g. llama_grammar_init_text vocab tokenize src grammar_root lazy patterns tokens = Some (Some g) \<and>
              (\<forall>w. \<exists>g'. foldM (\<lambda>c g. llama_grammar_accept g c) w g = Some g' \<and>
                ([] \<in> set (gr_stacks g') \<longleftrightarrow> rule_lang (gp_rules p) (unat k) w)))))"
proof (cases r)
  case (Inl e)
  then show ?thesis using assms(1) by (simp add: llama_grammar_init_text_def)
next
  case (Inr p)
  with assms(1) have p: "parse tokenize src = Some (Inr p)" by simp
  show ?thesis unfolding Inr sum.case
  proof (intro conjI allI impI; (elim conjE)?)
  qed (rule init_text_no_root[OF p] init_text_cycle[OF p] init_text_free[OF p]; assumption)+
qed

theorem init_text_language_witness:
  "\<exists>g g'. llama_grammar_init_text None None sample_text root_name False [] [] = Some (Some g) \<and>
    foldM (\<lambda>c g. llama_grammar_accept g c) [97, 99, 100, 100] g = Some g' \<and> rule_lang (gp_rules sample_parser) 0 [97, 99, 100, 100]"
proof -
  let ?r = "llama_grammar_init_text None None sample_text root_name False [] []"
  have "rules_ok (gp_rules sample_parser)" by code_simp
  moreover have "\<forall>k < length (gp_rules sample_parser). direct_empty (gp_rules sample_parser) k \<or> opens_with_terminal (gp_rules sample_parser ! k)"
    by code_simp
  moreover have "left_recursion_check (gp_rules sample_parser) = Some False" by code_simp
  ultimately have good: "left_recursion_free (gp_rules sample_parser)" using empties_explicitI checked_left_recursion_free by blast
  have hyps: "root_name \<in> fst ` set (gp_symbol_ids sample_parser)" "map_of (gp_symbol_ids sample_parser) root_name = Some 0"
    "unat 0 < length (gp_rules sample_parser)" by code_simp+
  have small: "length (gp_symbol_ids sample_parser) < 2 ^ 32" by (simp add: sample_parser_def)
  have run: "map_option (map_option (\<lambda>g. map_option (\<lambda>g. [] \<in> set (gr_stacks g)) (foldM (\<lambda>c g. llama_grammar_accept g c) [97, 99, 100, 100] g))) ?r
    = Some (Some (Some True))" by code_simp
  then obtain g g' where g: "?r = Some (Some g)" "foldM (\<lambda>c g. llama_grammar_accept g c) [97, 99, 100, 100] g = Some g'"
    "[] \<in> set (gr_stacks g')" by auto
  from init_text_language[OF sample_parse, where vocab=None and grammar_root=root_name and lazy=False and patterns="[]" and tokens="[]"]
    small hyps good have "\<exists>g. ?r = Some (Some g) \<and> (\<forall>w. \<exists>g'. foldM (\<lambda>c g. llama_grammar_accept g c) w g = Some g' \<and>
      ([] \<in> set (gr_stacks g') \<longleftrightarrow> rule_lang (gp_rules sample_parser) 0 w))" by simp
  then have "rule_lang (gp_rules sample_parser) 0 [97, 99, 100, 100]" using g by auto
  then show ?thesis using g by blast
qed

definition removed_reference :: bytes where
  "removed_reference = text_bytes ''x ::= root{0}''"

text \<open>
  C40: A reference that a repetition removes still gives its name a number. In \<open>x ::= root{0}\<close> the rule \<open>root\<close> has the
  number 1 and no definition; the parser accepts, and the initialisation reads behind the end of the rules.
\<close>

theorem removed_root_undefined:
  "(\<exists>p. parse tokenize removed_reference = Some (Inr p) \<and> map_of (gp_symbol_ids p) root_name = Some 1 \<and> length (gp_rules p) = 1) \<and>
   llama_grammar_init_text vocab tokenize removed_reference root_name lazy patterns tokens = None"
proof -
  have p: "parse tokenize removed_reference =
      Some (Inr \<lparr>gp_symbol_ids = [([120], 0), (root_name, 1)], gp_rules = [[Elem LLAMA_GRETYPE_END 0]]\<rparr>)"
    by code_simp
  have "root_name \<noteq> [120]" "copy_rules [[Elem LLAMA_GRETYPE_END 0]] = Some [[Elem LLAMA_GRETYPE_END 0]]"
    "left_recursion_check [[Elem LLAMA_GRETYPE_END 0]] = Some False" by code_simp+
  then show ?thesis by (simp add: p llama_grammar_init_text_def initial_stacks_def at_def)
qed

end
