(* ===== verification/Spec2Isabelle.thy ===== *)
theory Spec2Isabelle
  imports TextProps CacheProps BatchProps ContextProps RecurrentProps MemoryProps GrammarProps GrammarParseProps
begin

text \<open>
  A model of the core of the inference library under \<open>src/native/llama\<close> (the C++ part of the
  repository), with the theorems that make it correct. All files named here are below
  \<open>src/native/llama/src\<close> unless a directory is given.

  \<^bold>\<open>The program.\<close> A text is cut into words (\<open>unicode.cpp\<close>), the words become tokens, a batch of tokens is
  validated, completed and split into micro-batches (\<open>llama-batch.cpp\<close>), each micro-batch is placed into
  the cells of the key-value cache (\<open>llama-kv-cache.cpp\<close> over \<open>llama-kv-cells.h\<close>), and the cache is
  edited sequence by sequence between the calls. Models whose layers keep one state for a sequence use the
  recurrent memory (\<open>llama-memory-recurrent.cpp\<close>) in its place; models with both kinds of layers use both
  (\<open>llama-memory-hybrid.cpp\<close>), and models with a sliding window in some layers two caches
  (\<open>llama-kv-cache-iswa.cpp\<close>). What is sampled can be constrained by a grammar
  (\<open>llama-grammar.cpp\<close>): its text is parsed into rules, its stacks are advanced by every accepted token,
  and the candidates that no stack continues are masked.

  \<^bold>\<open>Parts and theories.\<close>
  \<^item> \<open>Prelude\<close>: checked access and 32-bit arithmetic in the option monad, loops as folds.
  \<^item> \<open>Utf8\<close>, \<open>CptFlags\<close>: the coding of code points and their flags. The generated tables of
    \<open>unicode-data.cpp\<close> are the parameter \<open>unicode_tables\<close>.
  \<^item> \<open>Splitters\<close>, \<open>SplitterLaws\<close>: the hand-written splitters; the locale of a splitter step, which
    advances within its range, is interpreted for the four of them.
  \<^item> \<open>RegexSplit\<close>: \<open>unicode_regex_split\<close>; \<open>std::regex\<close> is the parameter \<open>regex_engine\<close>.
  \<^item> \<open>OrdCols\<close>: the ordered set and the counting map of the standard library.
  \<^item> \<open>KvCells\<close>, \<open>KvCellsLaws\<close>: \<open>llama_kv_cells\<close>, operation by operation, and its invariant \<open>cells_inv\<close>
    (used set, position counts and cells agree); \<open>view\<close> abstracts the cells to a list of position,
    coordinates, shift and set of sequences.
  \<^item> \<open>Ubatch\<close>: the micro-batch and the attention windows.
  \<^item> \<open>KvCache\<close>, \<open>KvCacheLaws\<close>: the sequence operations of \<open>llama_kv_cache\<close>, each refining a function on
    the view (\<open>evolves\<close>).
  \<^item> \<open>KvSlot\<close>, \<open>KvSlotLaws\<close>, \<open>KvApply\<close>, \<open>KvPrepare\<close>: the search of slots, the writing of a
    micro-batch, and the dry run.
    With one stream and no window the dry run succeeds exactly if there is a free cell for every token
    (\<open>free_cells\<close>).
  \<^item> \<open>KvReach\<close>: the states the operations lead to, as an inductive predicate.
  \<^item> \<open>Batch\<close>, \<open>BatchInit\<close>, \<open>BatchInitLaws\<close>: validation and completion of a batch; the condition under
    which \<open>init\<close> accepts it.
  \<^item> \<open>BatchSplit\<close>, \<open>BatchLaws\<close>, \<open>BatchEqual\<close>, \<open>BatchSeq\<close>: the splits; the locale \<open>batch_split\<close> states what a
    split promises to the collecting loop of \<open>init_batch\<close>, and is interpreted for all three.
  \<^item> \<open>KvContext\<close>, \<open>KvContextLaws\<close>: the memory context (\<open>llama-memory.h\<close>, end of \<open>llama-kv-cache.cpp\<close>), and
    the composition of the allocator with the cache.
  \<^item> \<open>Recurrent\<close>: the recurrent memory, its contexts, and the inputs and rows of \<open>build_rs\<close>
    (\<open>llama-graph.cpp\<close>), with the computation of a new state as a parameter.
  \<^item> \<open>RecurrentLaws\<close>: its invariant \<open>rec_ok\<close> and the abstraction \<open>rec_view\<close> to a map from sequences to
    positions; the sequence operations.
  \<^item> \<open>RecurrentClaim\<close>, \<open>RecurrentUse\<close>, \<open>RecurrentGather\<close>, \<open>RecurrentSettle\<close>, \<open>RecurrentFind\<close>: the
    phases of \<open>find_slot\<close> (release shared sequences, find cells, move them together, set positions and sequences,
    set the sources) and their composition.
  \<^item> \<open>RecurrentState\<close>, \<open>RecurrentBatch\<close>, \<open>RecurrentReach\<close>: the state of a sequence (\<open>state_of\<close>) through the graph, a
    batch through \<open>init_batch\<close>, \<open>apply\<close> and \<open>next\<close>, and the states the operations lead to.
  \<^item> \<open>Hybrid\<close>, \<open>HybridLaws\<close>: the hybrid memory and its context over those of its two parts; the parts agree
    on the last position of every sequence (\<open>in_step\<close>), and a batch takes both through its micro-batches.
  \<^item> \<open>Iswa\<close>, \<open>IswaLaws\<close>: the base cache and the cache with the window, their context and the choice of the size;
    the cells of the latter are covered by the former (\<open>covered\<close>).
  \<^item> \<open>Grammar\<close>, \<open>GrammarRun\<close>: elements, matching, stacks and their advance, rejection of candidates; decoding of
    pieces, accepting, triggers, the left recursion check and the initialisation.
  \<^item> \<open>GrammarLaws\<close>, \<open>GrammarLang\<close>: well-formed rules, character classes, and the language of a rule as an
    inductive predicate (\<open>gen\<close>, \<open>rule_lang\<close>) that the stacks implement (\<open>stack_lang\<close>).
  \<^item> \<open>GrammarRec\<close>, \<open>GrammarReject\<close>: what the left recursion check decides (\<open>left_edge\<close>, which follows the rules with an
    alternate written empty), left recursion as it is (\<open>left_recursion_free\<close>, which follows all rules that derive the
    empty word), and that a grammar free of it does not abort.
  \<^item> \<open>GrammarMask\<close>, \<open>GrammarApply\<close>, \<open>GrammarUtf8\<close>, \<open>GrammarTrigger\<close>: the masked tokens against a reference
    definition (\<open>keeps\<close>), a byte-wise reference decoder, and the replay after a trigger.
  \<^item> \<open>GrammarParse\<close>, \<open>GrammarParseLaws\<close>, \<open>GrammarParseShape\<close>, \<open>GrammarRepeat\<close>: the parser of the grammar text, that it
    ends, the invariant \<open>parser_ok\<close> of its state, and the language of the rules a repetition is rewritten to.
  \<^item> \<open>TextProps\<close>, \<open>CacheProps\<close>, \<open>BatchProps\<close>, \<open>ContextProps\<close>, \<open>RecurrentProps\<close>, \<open>MemoryProps\<close>,
    \<open>GrammarProps\<close>, \<open>GrammarParseProps\<close>: the properties,
    each with a witness where it has a hypothesis.

  \<^bold>\<open>Limits of the state machines.\<close> \<open>kv_reach\<close>, \<open>rec_reach\<close>, \<open>hybrid_reach\<close> and \<open>iswa_reach\<close> leave out the calls
  after which the invariant fails in the source itself (named at each definition), and arithmetic outside of
  \<open>int32_t\<close>. The liveness theorems of the key-value cache are for caches without a sliding window: with one the dry
  run of \<open>prepare\<close> does not restore what it purges.

  \<^bold>\<open>How the code is read.\<close> A failed assertion, an access outside of a vector and an overflow of a signed
  integer are \<open>None\<close>; an exception is the left side of a sum. Loops that may not end are
  \<open>partial_function (option)\<close>; that they return is part of the theorems. The mutual recursion of the grammar
  parser is by fuel: the turns of a loop and the depth of the parentheses are each bounded by the length of
  the source, since every turn and every parenthesis reads a byte, and \<open>parse_ends\<close> shows that this is
  enough for the model to answer (the source answers as long as memory and 32-bit rule numbers suffice). The pointers of the grammar stacks are pairs of a rule and a position. \<open>std::regex\<close> and, in the
  grammar parser, \<open>tokenize\<close> of the vocabulary are parameters. Positions and shifts are bounded
  integers (\<open>in_i32\<close>), code points and bytes are machine words.

  \<^bold>\<open>Not modelled.\<close> Tensors, graphs and backends (\<open>ggml\<close>, \<open>llama-model.cpp\<close>, and \<open>llama-graph.cpp\<close> but for
  the inputs named above), files and
  threads, logging and printing, the position buckets of \<open>set_input_pos_bucket\<close> (a float logarithm), the
  saving and loading of states, the printing, cloning and freeing of grammars, and the Java application around the library.
\<close>

end
